(* ===== verification/Prelude.thy ===== *)
theory Prelude
  imports Main "HOL-Library.State_Monad" "HOL-Library.Monad_Syntax"
begin

section \<open>Prelude: collections and generic lemmas shared by the components\<close>

text \<open>
  What every component of the development uses: the collections of facts the proofs are
  driven by, the numeric value of a little-endian list of bits (the way a vector of nets
  is read), splitting a list into chunks of two (\<open>slice::chunks(2)\<close>), and the
  early return of a Rust \<open>Result\<close> (the \<open>?\<close> operator) in a state monad.
\<close>

named_theorems gate_rules \<open>rules that prove what a netlist-building computation does\<close>
named_theorems gate_eval \<open>equations that evaluate gates and simplifier results\<close>

subsection \<open>The value of a little-endian bit list\<close>

definition uval :: "bool list \<Rightarrow> nat" where
  "uval bs = horner_sum of_bool 2 bs"

lemma uval_Nil [simp]: "uval [] = 0"
  by (simp add: uval_def)

lemma uval_Cons [simp]: "uval (b # bs) = of_bool b + 2 * uval bs"
  by (simp add: uval_def)

lemma uval_append: "uval (xs @ ys) = uval xs + 2 ^ length xs * uval ys"
  by (induction xs) (auto simp: algebra_simps)

lemma uval_lt: "uval bs < 2 ^ length bs"
proof (induction bs)
  case (Cons b bs)
  then show ?case by (cases b) auto
qed simp

lemma bit_uval: "bit (uval bs) i \<longleftrightarrow> i < length bs \<and> bs ! i"
  by (simp add: uval_def bit_horner_sum_bit_iff)

lemma uval_le: "uval bs \<le> 2 ^ length bs - 1"
  using uval_lt [of bs] by linarith

lemma uval_replicate_False [simp]: "uval (replicate n False) = 0"
  by (induction n) auto

lemma uval_map_Not_add: "uval (map Not bs) + uval bs + 1 = 2 ^ length bs"
  by (induction bs) auto

lemma uval_map_Not: "uval (map Not bs) = 2 ^ length bs - 1 - uval bs"
  using uval_map_Not_add [of bs] by linarith

lemma uval_map_Not_int: "int (uval (map Not bs)) = 2 ^ length bs - 1 - int (uval bs)"
proof -
  have "int (uval (map Not bs) + uval bs + 1) = int (2 ^ length bs)"
    by (simp only: uval_map_Not_add)
  then show ?thesis by simp
qed

lemma uval_take: "uval (take k bs) = uval bs mod 2 ^ k"
proof (cases "k \<le> length bs")
  case True
  have "uval bs = uval (take k bs) + 2 ^ k * uval (drop k bs)"
    using uval_append [of "take k bs" "drop k bs"] True by (simp add: min_def)
  moreover have "uval (take k bs) < 2 ^ k"
    using uval_lt [of "take k bs"] True by (simp add: min_def split: if_splits)
  ultimately show ?thesis by simp
next
  case False
  then have "uval bs < 2 ^ k"
    using uval_lt [of bs] power_increasing [of "length bs" k "2::nat"] by linarith
  with False show ?thesis by simp
qed

lemma uval_drop: "uval (drop k bs) = uval bs div 2 ^ k"
proof (cases "k \<le> length bs")
  case True
  have "uval bs = uval (take k bs) + 2 ^ k * uval (drop k bs)"
    using uval_append [of "take k bs" "drop k bs"] True by (simp add: min_def)
  moreover have "uval (take k bs) < 2 ^ k"
    using uval_lt [of "take k bs"] True by (simp add: min_def split: if_splits)
  ultimately show ?thesis by simp
next
  case False
  then have "uval bs < 2 ^ k"
    using uval_lt [of bs] power_increasing [of "length bs" k "2::nat"] by linarith
  with False show ?thesis by simp
qed

lemma uval_eq_iff: "length xs = length ys \<Longrightarrow> uval xs = uval ys \<longleftrightarrow> xs = ys"
proof (induction xs ys rule: list_induct2)
  case (Cons x xs y ys)
  show ?case
  proof
    assume eq: "uval (x # xs) = uval (y # ys)"
    have "x = y" and "uval xs = uval ys"
      using eq by (cases x; cases y; simp; presburger)+
    with Cons show "x # xs = y # ys" by simp
  qed simp
qed simp

text \<open>The two's-complement value of a bit list; the empty list has the value 0.\<close>

definition sval :: "bool list \<Rightarrow> int" where
  "sval bs = int (uval bs) - (if bs \<noteq> [] \<and> last bs then 2 ^ length bs else 0)"

lemma sval_Nil [simp]: "sval [] = 0"
  by (simp add: sval_def)

lemma uval_last: "bs \<noteq> [] \<Longrightarrow> last bs \<longleftrightarrow> 2 ^ (length bs - 1) \<le> uval bs"
proof (induction bs rule: rev_induct)
  case (snoc b bs)
  show ?case using uval_lt [of bs] by (cases b) (auto simp: uval_append)
qed simp

lemma sval_mod: "sval bs mod 2 ^ length bs = int (uval bs)"
proof -
  have lt: "int (uval bs) < 2 ^ length bs"
    using uval_lt [of bs] by (metis of_nat_less_iff of_nat_numeral of_nat_power)
  have "sval bs mod 2 ^ length bs = int (uval bs) mod 2 ^ length bs"
    by (auto simp: sval_def)
  with lt show ?thesis by simp
qed

lemma sval_bounds:
  assumes "bs \<noteq> []"
  shows "- (2 ^ (length bs - 1)) \<le> sval bs" "sval bs < 2 ^ (length bs - 1)"
proof -
  have pw: "(2::int) ^ length bs = 2 * 2 ^ (length bs - 1)"
    using assms by (metis length_greater_0_conv power_minus_mult mult.commute)
  have pwn: "(2::nat) ^ length bs = 2 * 2 ^ (length bs - 1)"
    using assms by (metis length_greater_0_conv power_minus_mult mult.commute)
  have lt: "int (uval bs) < 2 ^ length bs"
    using uval_lt [of bs] by (metis of_nat_less_iff of_nat_numeral of_nat_power)
  have msb: "last bs \<longleftrightarrow> 2 ^ (length bs - 1) \<le> int (uval bs)"
    using uval_last [OF assms] by (metis of_nat_le_iff of_nat_numeral of_nat_power)
  show "- (2 ^ (length bs - 1)) \<le> sval bs" "sval bs < 2 ^ (length bs - 1)"
    using lt msb assms pw by (auto simp: sval_def)
qed

lemma sval_snoc_last: "bs \<noteq> [] \<Longrightarrow> sval (bs @ [last bs]) = sval bs"
  by (auto simp: sval_def uval_append)

lemma sval_sign_extend: "bs \<noteq> [] \<Longrightarrow> sval (bs @ replicate k (last bs)) = sval bs"
proof (induction k)
  case (Suc k)
  have "replicate (Suc k) (last bs) = replicate k (last bs) @ [last bs]"
    by (simp add: replicate_append_same)
  moreover have "last (bs @ replicate k (last bs)) = last bs"
    using Suc.prems by (cases k) simp_all
  ultimately have "bs @ replicate (Suc k) (last bs) =
      (bs @ replicate k (last bs)) @ [last (bs @ replicate k (last bs))]" by simp
  then show ?case using Suc sval_snoc_last [of "bs @ replicate k (last bs)"] by simp
qed simp

text \<open>The number of bits a number needs: \<open>usize::BITS - m.leading_zeros()\<close>.\<close>

fun bit_width :: "nat \<Rightarrow> nat" where
  "bit_width m = (if m = 0 then 0 else Suc (bit_width (m div 2)))"

declare bit_width.simps [simp del]

lemma bit_width_0 [simp]: "bit_width 0 = 0"
  by (simp add: bit_width.simps)

lemma bit_width_pos: "0 < m \<Longrightarrow> bit_width m = Suc (bit_width (m div 2))"
  by (simp add: bit_width.simps)

lemma less_two_power_bit_width: "m < 2 ^ bit_width m"
proof (induction m rule: bit_width.induct)
  case (1 m)
  show ?case
  proof (cases "m = 0")
    case False
    then have "m div 2 < 2 ^ bit_width (m div 2)" using 1 by simp
    with False show ?thesis by (simp add: bit_width_pos)
  qed simp
qed

text \<open>How many of the given nets are set.\<close>

definition ones :: "('a \<Rightarrow> bool) \<Rightarrow> 'a list \<Rightarrow> nat" where
  "ones v ns = sum_list (map (of_bool \<circ> v) ns)"

lemma ones_simps [simp]: "ones v [] = 0" "ones v (n # ns) = of_bool (v n) + ones v ns"
  "ones v (xs @ ys) = ones v xs + ones v ys"
  by (simp_all add: ones_def)

subsection \<open>Chunks of two\<close>

text \<open>\<open>xs.chunks(2)\<close>: every chunk has two elements, except perhaps the last.\<close>

fun chunks2 :: "'a list \<Rightarrow> 'a list list" where
  "chunks2 [] = []"
| "chunks2 [x] = [[x]]"
| "chunks2 (x # y # xs) = [x, y] # chunks2 xs"

lemma length_chunks2: "length (chunks2 xs) = (length xs + 1) div 2"
  by (induction xs rule: chunks2.induct) auto

lemma concat_chunks2 [simp]: "concat (chunks2 xs) = xs"
  by (induction xs rule: chunks2.induct) auto

lemma chunks2_elem: "c \<in> set (chunks2 xs) \<Longrightarrow> set c \<subseteq> set xs \<and> (length c = 1 \<or> length c = 2)"
  by (induction xs rule: chunks2.induct) auto

lemma nth_chunks2:
  "i < length (chunks2 xs) \<Longrightarrow> 2 * i < length xs \<and> chunks2 xs ! i ! 0 = xs ! (2 * i) \<and>
    length (chunks2 xs ! i) = (if 2 * i + 1 < length xs then 2 else 1) \<and>
    (2 * i + 1 < length xs \<longrightarrow> chunks2 xs ! i ! 1 = xs ! (2 * i + 1))"
proof (induction xs arbitrary: i rule: chunks2.induct)
  case (3 x y xs)
  then show ?case by (cases i) auto
qed auto

subsection \<open>Early return of a \<open>Result\<close>\<close>

definition or_return :: "'e + 'a \<Rightarrow> ('a \<Rightarrow> ('s, 'e + 'b) state) \<Rightarrow> ('s, 'e + 'b) state" where
  "or_return r k = (case r of Inl e \<Rightarrow> State_Monad.return (Inl e) | Inr x \<Rightarrow> k x)"

lemma or_return_simps [simp]:
  "or_return (Inl e) k = State_Monad.return (Inl e)"
  "or_return (Inr x) k = k x"
  by (simp_all add: or_return_def)

subsection \<open>Loops over a list that carry an accumulator\<close>

text \<open>
  \<open>for x in xs { acc = f(ctx, x, acc); }\<close>, and the same loop with a body that may
  return early (\<open>acc = f(ctx, x, acc)?\<close>).
\<close>

fun foldM :: "('x \<Rightarrow> 'a \<Rightarrow> ('s, 'a) state) \<Rightarrow> 'x list \<Rightarrow> 'a \<Rightarrow> ('s, 'a) state" where
  "foldM f [] acc = State_Monad.return acc"
| "foldM f (x # xs) acc = do { acc' \<leftarrow> f x acc; foldM f xs acc' }"

fun foldM_try :: "('x \<Rightarrow> 'a \<Rightarrow> ('s, 'e + 'a) state) \<Rightarrow> 'x list \<Rightarrow> 'a \<Rightarrow> ('s, 'e + 'a) state" where
  "foldM_try f [] acc = State_Monad.return (Inr acc)"
| "foldM_try f (x # xs) acc = do { r \<leftarrow> f x acc; or_return r (foldM_try f xs) }"

text \<open>The same loop when the body may panic.\<close>

fun fold_opt :: "('x \<Rightarrow> 's \<Rightarrow> 's option) \<Rightarrow> 'x list \<Rightarrow> 's \<Rightarrow> 's option" where
  "fold_opt f [] s = Some s"
| "fold_opt f (x # xs) s = do { s \<leftarrow> f x s; fold_opt f xs s }"

lemma fold_opt_append: "fold_opt f (xs @ ys) s = Option.bind (fold_opt f xs s) (fold_opt f ys)"
  by (induction xs arbitrary: s) (simp_all split: Option.bind_split)

lemma fold_opt_invariant:
  assumes "\<And>x s. x \<in> set xs \<Longrightarrow> P s \<Longrightarrow> \<exists>s'. f x s = Some s' \<and> P s'" and "P s"
  shows "\<exists>s'. fold_opt f xs s = Some s' \<and> P s'"
  using assms by (induction xs arbitrary: s) fastforce+

lemma fold_opt_enumerate:
  assumes "\<And>k s. k < length xs \<Longrightarrow> P k s \<Longrightarrow> \<exists>s'. f (k, xs ! k) s = Some s' \<and> P (Suc k) s'" and "P 0 s"
  shows "\<exists>s'. fold_opt f (enumerate 0 xs) s = Some s' \<and> P (length xs) s'"
  using assms(1)
proof (induction xs rule: rev_induct)
  case (snoc x xs)
  have "\<exists>s'. f (k, xs ! k) t = Some s' \<and> P (Suc k) s'" if "k < length xs" "P k t" for k t
    using snoc.prems [of k t] that by (simp add: nth_append)
  then obtain s1 where s1: "fold_opt f (enumerate 0 xs) s = Some s1" "P (length xs) s1"
    using snoc.IH by blast
  obtain s2 where "f (length xs, x) s1 = Some s2" "P (Suc (length xs)) s2"
    using snoc.prems [of "length xs" s1] s1(2) by auto
  then show ?case using s1(1) by (simp add: enumerate_append_eq fold_opt_append)
qed (use assms(2) in simp)

lemma fold_opt_upt:
  assumes "\<And>k s. k < n \<Longrightarrow> P k s \<Longrightarrow> \<exists>s'. f k s = Some s' \<and> P (Suc k) s'" and "P 0 s"
  shows "\<exists>s'. fold_opt f [0..<n] s = Some s' \<and> P n s'"
  using assms(1)
proof (induction n)
  case (Suc n)
  have "\<exists>s'. f k t = Some s' \<and> P (Suc k) s'" if "k < n" "P k t" for k t
    using Suc.prems that less_SucI by blast
  then obtain s1 where s1: "fold_opt f [0..<n] s = Some s1" "P n s1" using Suc.IH by blast
  obtain s2 where "f n s1 = Some s2" "P (Suc n) s2" using Suc.prems [of n s1] s1(2) by auto
  then show ?case using s1(1) by (simp add: fold_opt_append)
qed (use assms(2) in simp)

subsection \<open>Indexing that may panic\<close>

definition nth_opt :: "'a list \<Rightarrow> nat \<Rightarrow> 'a option" where
  "nth_opt xs i = (if i < length xs then Some (xs ! i) else None)"

lemma nth_opt_in [simp]: "i < length xs \<Longrightarrow> nth_opt xs i = Some (xs ! i)"
  by (simp add: nth_opt_def)

end
