(* ===== verification/Gate_Ir.thy ===== *)
theory Gate_Ir
  imports Prelude
begin

section \<open>The gate-level netlist (\<open>crates/synthesizer/src/ir.rs\<close>)\<close>

text \<open>
  The data of a synthesised module: nets with one driver each, combinational cells,
  flip-flops, inferred RAM blocks and ports. A net id is an index into the module's net
  table (\<open>u32\<close> in the code; a \<open>nat\<close> here, tables of more than \<open>2^32\<close> nets are not
  modelled). Nets 0 and 1 are the constant rails. The meaning of a cell kind,
  \<open>cell_fn\<close>, is the formula the enum's documentation gives; every correctness result
  about cells refers to it. Names of variables (\<open>StrId\<close>, an interned string) are
  numbers. The textual dump (\<open>Display\<close>) is not modelled.
\<close>

type_synonym net_id = nat
type_synonym str_id = nat

definition NET_CONST0 :: net_id where "NET_CONST0 = 0"
definition NET_CONST1 :: net_id where "NET_CONST1 = 1"
definition RESERVED_NETS :: nat where "RESERVED_NETS = 2"

lemma rails_distinct [simp]: "NET_CONST0 \<noteq> NET_CONST1" "NET_CONST1 \<noteq> NET_CONST0"
  by (simp_all add: NET_CONST0_def NET_CONST1_def)

lemmas rails = NET_CONST0_def NET_CONST1_def RESERVED_NETS_def

datatype port_dir = Input | Output | Inout

record gate_port =
  gp_name :: str_id
  gp_path :: "str_id list"
  gp_dir :: port_dir
  gp_nets :: "net_id list"

datatype net_driver =
    DConst bool
  | PortInput
  | DCell nat
  | FfQ nat
  | RamRead nat nat nat
  | Undriven

record net_info =
  driver :: net_driver
  origin :: "(str_id \<times> nat) option"

datatype cell_kind =
    Buf | Not1 | And2 | Or2 | Nand2 | Nor2 | Xor2 | Xnor2
  | And3 | Or3 | Nand3 | Nor3
  | Ao21 | Aoi21 | Oa21 | Oai21 | Ao31 | Aoi31 | Ao22 | Aoi22 | Oai22
  | Mux2

fun arity :: "cell_kind \<Rightarrow> nat" where
  "arity Buf = 1"
| "arity Not1 = 1"
| "arity And2 = 2"
| "arity Or2 = 2"
| "arity Nand2 = 2"
| "arity Nor2 = 2"
| "arity Xor2 = 2"
| "arity Xnor2 = 2"
| "arity And3 = 3"
| "arity Or3 = 3"
| "arity Nand3 = 3"
| "arity Nor3 = 3"
| "arity Ao21 = 3"
| "arity Aoi21 = 3"
| "arity Oa21 = 3"
| "arity Oai21 = 3"
| "arity Mux2 = 3"
| "arity Ao31 = 4"
| "arity Aoi31 = 4"
| "arity Ao22 = 4"
| "arity Aoi22 = 4"
| "arity Oai22 = 4"

fun symbol :: "cell_kind \<Rightarrow> string" where
  "symbol Buf = ''buf''"
| "symbol Not1 = ''not''"
| "symbol And2 = ''and2''"
| "symbol Or2 = ''or2''"
| "symbol Nand2 = ''nand2''"
| "symbol Nor2 = ''nor2''"
| "symbol Xor2 = ''xor2''"
| "symbol Xnor2 = ''xnor2''"
| "symbol And3 = ''and3''"
| "symbol Or3 = ''or3''"
| "symbol Nand3 = ''nand3''"
| "symbol Nor3 = ''nor3''"
| "symbol Ao21 = ''ao21''"
| "symbol Aoi21 = ''aoi21''"
| "symbol Oa21 = ''oa21''"
| "symbol Oai21 = ''oai21''"
| "symbol Ao31 = ''ao31''"
| "symbol Aoi31 = ''aoi31''"
| "symbol Ao22 = ''ao22''"
| "symbol Aoi22 = ''aoi22''"
| "symbol Oai22 = ''oai22''"
| "symbol Mux2 = ''mux2''"

record cell =
  c_kind :: cell_kind
  c_inputs :: "net_id list"
  c_output :: net_id

datatype clock_edge = Posedge | Negedge
datatype reset_polarity = ActiveHigh | ActiveLow

datatype clock_domain = Explicit nat | Inferred nat | Implicit | NoDomain

record reset_spec =
  rs_net :: net_id
  rs_polarity :: reset_polarity
  rs_sync :: bool

record ff_cell =
  ff_clock :: net_id
  ff_clock_edge :: clock_edge
  ff_reset :: "reset_spec option"
  ff_d :: net_id
  ff_q :: net_id
  ff_reset_value :: bool
  ff_clock_domain :: clock_domain
  ff_origin :: "(str_id \<times> nat) option"

record ram_write_port =
  wp_addr :: "net_id list"
  wp_data :: "net_id list"
  wp_enable :: net_id
  wp_mask :: "net_id list option"

record ram_read_port =
  rp_addr :: "net_id list"
  rp_data :: "net_id list"
  rp_sync :: bool

record ram_block =
  rb_name :: str_id
  rb_depth :: nat
  rb_width :: nat
  rb_clock :: net_id
  rb_clock_edge :: clock_edge
  rb_read_ports :: "ram_read_port list"
  rb_write_ports :: "ram_write_port list"

definition ram_bits :: "ram_block \<Rightarrow> nat" where
  "ram_bits r = rb_depth r * rb_width r"

record gate_module =
  gm_name :: "str_id option"
  gm_ports :: "gate_port list"
  gm_nets :: "net_info list"
  gm_cells :: "cell list"
  gm_ffs :: "ff_cell list"
  gm_ram_blocks :: "ram_block list"

subsection \<open>Visiting the nets the RAM blocks consume\<close>

text \<open>
  The two visitors take a closure; its captured state is the state of the monad. The
  mutable visitor writes back the net its closure leaves in the slot.
\<close>

definition for_nets :: "(net_id \<Rightarrow> ('s, unit) state) \<Rightarrow> net_id list \<Rightarrow> ('s, unit) state" where
  "for_nets f ns = do { _ \<leftarrow> traverse_list f ns; State_Monad.return () }"

definition visit_write_port :: "(net_id \<Rightarrow> ('s, unit) state) \<Rightarrow> ram_write_port \<Rightarrow> ('s, unit) state" where
  "visit_write_port f wp = do {
     for_nets f (wp_addr wp);
     for_nets f (wp_data wp);
     f (wp_enable wp);
     (case wp_mask wp of None \<Rightarrow> State_Monad.return () | Some m \<Rightarrow> for_nets f m)
   }"

definition for_each_ram_input_net :: "gate_module \<Rightarrow> (net_id \<Rightarrow> ('s, unit) state) \<Rightarrow> ('s, unit) state" where
  "for_each_ram_input_net m f = do {
     _ \<leftarrow> traverse_list (\<lambda>ram. do {
        f (rb_clock ram);
        _ \<leftarrow> traverse_list (visit_write_port f) (rb_write_ports ram);
        _ \<leftarrow> traverse_list (\<lambda>rp. for_nets f (rp_addr rp)) (rb_read_ports ram);
        State_Monad.return ()
      }) (gm_ram_blocks m);
     State_Monad.return ()
   }"

definition visit_write_port_mut ::
    "(net_id \<Rightarrow> ('s, net_id) state) \<Rightarrow> ram_write_port \<Rightarrow> ('s, ram_write_port) state" where
  "visit_write_port_mut f wp = do {
     addr \<leftarrow> traverse_list f (wp_addr wp);
     data \<leftarrow> traverse_list f (wp_data wp);
     enable \<leftarrow> f (wp_enable wp);
     mask \<leftarrow> (case wp_mask wp of None \<Rightarrow> State_Monad.return None
              | Some m \<Rightarrow> do { m' \<leftarrow> traverse_list f m; State_Monad.return (Some m') });
     State_Monad.return (wp\<lparr>wp_addr := addr, wp_data := data, wp_enable := enable, wp_mask := mask\<rparr>)
   }"

definition visit_ram_mut :: "(net_id \<Rightarrow> ('s, net_id) state) \<Rightarrow> ram_block \<Rightarrow> ('s, ram_block) state" where
  "visit_ram_mut f ram = do {
     clock \<leftarrow> f (rb_clock ram);
     wps \<leftarrow> traverse_list (visit_write_port_mut f) (rb_write_ports ram);
     rps \<leftarrow> traverse_list (\<lambda>rp. do {
        addr \<leftarrow> traverse_list f (rp_addr rp);
        State_Monad.return (rp\<lparr>rp_addr := addr\<rparr>) }) (rb_read_ports ram);
     State_Monad.return (ram\<lparr>rb_clock := clock, rb_write_ports := wps, rb_read_ports := rps\<rparr>)
   }"

definition for_each_ram_input_net_mut ::
    "gate_module \<Rightarrow> (net_id \<Rightarrow> ('s, net_id) state) \<Rightarrow> ('s, gate_module) state" where
  "for_each_ram_input_net_mut m f = do {
     rams \<leftarrow> traverse_list (visit_ram_mut f) (gm_ram_blocks m);
     State_Monad.return (m\<lparr>gm_ram_blocks := rams\<rparr>)
   }"

subsection \<open>The meaning of a cell\<close>

fun cell_fn :: "cell_kind \<Rightarrow> bool list \<Rightarrow> bool" where
  "cell_fn Buf x = x ! 0"
| "cell_fn Not1 x = (\<not> x ! 0)"
| "cell_fn And2 x = (x ! 0 \<and> x ! 1)"
| "cell_fn Or2 x = (x ! 0 \<or> x ! 1)"
| "cell_fn Nand2 x = (\<not> (x ! 0 \<and> x ! 1))"
| "cell_fn Nor2 x = (\<not> (x ! 0 \<or> x ! 1))"
| "cell_fn Xor2 x = (x ! 0 \<noteq> x ! 1)"
| "cell_fn Xnor2 x = (x ! 0 = x ! 1)"
| "cell_fn And3 x = (x ! 0 \<and> x ! 1 \<and> x ! 2)"
| "cell_fn Or3 x = (x ! 0 \<or> x ! 1 \<or> x ! 2)"
| "cell_fn Nand3 x = (\<not> (x ! 0 \<and> x ! 1 \<and> x ! 2))"
| "cell_fn Nor3 x = (\<not> (x ! 0 \<or> x ! 1 \<or> x ! 2))"
| "cell_fn Ao21 x = (x ! 0 \<and> x ! 1 \<or> x ! 2)"
| "cell_fn Aoi21 x = (\<not> (x ! 0 \<and> x ! 1 \<or> x ! 2))"
| "cell_fn Oa21 x = ((x ! 0 \<or> x ! 1) \<and> x ! 2)"
| "cell_fn Oai21 x = (\<not> ((x ! 0 \<or> x ! 1) \<and> x ! 2))"
| "cell_fn Ao31 x = (x ! 0 \<and> x ! 1 \<and> x ! 2 \<or> x ! 3)"
| "cell_fn Aoi31 x = (\<not> (x ! 0 \<and> x ! 1 \<and> x ! 2 \<or> x ! 3))"
| "cell_fn Ao22 x = (x ! 0 \<and> x ! 1 \<or> x ! 2 \<and> x ! 3)"
| "cell_fn Aoi22 x = (\<not> (x ! 0 \<and> x ! 1 \<or> x ! 2 \<and> x ! 3))"
| "cell_fn Oai22 x = (\<not> ((x ! 0 \<or> x ! 1) \<and> (x ! 2 \<or> x ! 3)))"
| "cell_fn Mux2 x = (if x ! 0 then x ! 2 else x ! 1)"

text \<open>An assignment of values to nets respects a cell when the output has the cell's value.\<close>

definition holds :: "(net_id \<Rightarrow> bool) \<Rightarrow> cell \<Rightarrow> bool" where
  "holds v c \<longleftrightarrow> v (c_output c) = cell_fn (c_kind c) (map v (c_inputs c))"

lemma arity_pos: "0 < arity k"
  by (cases k) auto

lemma arity_le_4: "arity k \<le> 4"
  by (cases k) auto

lemma length_1_conv: "length xs = 1 \<longleftrightarrow> (\<exists>a. xs = [a])"
  by (auto simp: length_Suc_conv numeral_eq_Suc)

lemma length_2_conv: "length xs = 2 \<longleftrightarrow> (\<exists>a b. xs = [a, b])"
  by (auto simp: length_Suc_conv numeral_eq_Suc)

lemma length_3_conv: "length xs = 3 \<longleftrightarrow> (\<exists>a b c. xs = [a, b, c])"
  by (auto simp: length_Suc_conv numeral_eq_Suc)

lemma length_4_conv: "length xs = 4 \<longleftrightarrow> (\<exists>a b c d. xs = [a, b, c, d])"
  by (auto simp: length_Suc_conv numeral_eq_Suc)

lemmas arity_conv = length_1_conv length_2_conv length_3_conv length_4_conv

end
