(* ===== verification/Simplify.thy ===== *)
theory Simplify
  imports Gate_Ir
begin

section \<open>Local simplification of cells (\<open>conv/worklist.rs\<close>)\<close>

text \<open>
  The per-kind simplifiers of \<open>crates/synthesizer/src/conv/worklist.rs\<close>: \<open>simplify\<close>
  maps a cell kind, the known constant values \<open>iv\<close> of its inputs and the input nets to a
  constant, an alias or an inverted net; \<open>cse_key\<close> is the canonical key of common
  subexpression elimination; \<open>algebraic_fuse\<close> fuses a cell with its driver;
  \<open>resolve_alias\<close> walks a chain of buffers. The lemmas show that each result has the
  value of the original cell in every assignment that respects the netlist.
\<close>

subsection \<open>The simplifiers\<close>

datatype simpl = SConst bool | SAlias net_id | SInvert net_id

fun invert_simpl :: "simpl \<Rightarrow> simpl" where
  "invert_simpl (SConst v) = SConst (\<not> v)"
| "invert_simpl (SAlias n) = SInvert n"
| "invert_simpl (SInvert n) = SAlias n"

definition simpl_oai22 :: "bool option list \<Rightarrow> net_id list \<Rightarrow> simpl option" where
  "simpl_oai22 iv nets =
     (let ab_zero = (iv ! 0 = Some False \<and> iv ! 1 = Some False);
          cd_zero = (iv ! 2 = Some False \<and> iv ! 3 = Some False)
      in if ab_zero \<or> cd_zero then Some (SConst True)
      else
        let ab_one = (iv ! 0 = Some True \<or> iv ! 1 = Some True
                      \<or> nets ! 0 = NET_CONST1 \<or> nets ! 1 = NET_CONST1);
            cd_one = (iv ! 2 = Some True \<or> iv ! 3 = Some True
                      \<or> nets ! 2 = NET_CONST1 \<or> nets ! 3 = NET_CONST1)
        in if ab_one \<and> cd_one then Some (SConst False) else None)"

definition simpl_ao22 :: "bool option list \<Rightarrow> net_id list \<Rightarrow> simpl option" where
  "simpl_ao22 iv nets =
     (let ab_one = (iv ! 0 = Some True \<and> iv ! 1 = Some True);
          cd_one = (iv ! 2 = Some True \<and> iv ! 3 = Some True)
      in if ab_one \<or> cd_one then Some (SConst True)
      else
        let ab_zero = (iv ! 0 = Some False \<or> iv ! 1 = Some False
                       \<or> nets ! 0 = NET_CONST0 \<or> nets ! 1 = NET_CONST0);
            cd_zero = (iv ! 2 = Some False \<or> iv ! 3 = Some False
                       \<or> nets ! 2 = NET_CONST0 \<or> nets ! 3 = NET_CONST0)
        in if ab_zero \<and> cd_zero then Some (SConst False)
        else if ab_zero \<and> iv ! 2 = Some True then Some (SAlias (nets ! 3))
        else if ab_zero \<and> iv ! 3 = Some True then Some (SAlias (nets ! 2))
        else if ab_zero \<and> nets ! 2 = nets ! 3 then Some (SAlias (nets ! 2))
        else if cd_zero \<and> iv ! 0 = Some True then Some (SAlias (nets ! 1))
        else if cd_zero \<and> iv ! 1 = Some True then Some (SAlias (nets ! 0))
        else if cd_zero \<and> nets ! 0 = nets ! 1 then Some (SAlias (nets ! 0))
        else None)"

record absorb_params =
  dominant :: bool
  dominant_out :: bool
  unit_invert :: bool
  self_alias :: bool

definition AND_params :: absorb_params where
  "AND_params = \<lparr>dominant = False, dominant_out = False, unit_invert = False, self_alias = True\<rparr>"
definition OR_params :: absorb_params where
  "OR_params = \<lparr>dominant = True, dominant_out = True, unit_invert = False, self_alias = True\<rparr>"
definition NAND_params :: absorb_params where
  "NAND_params = \<lparr>dominant = False, dominant_out = True, unit_invert = True, self_alias = False\<rparr>"
definition NOR_params :: absorb_params where
  "NOR_params = \<lparr>dominant = True, dominant_out = False, unit_invert = True, self_alias = False\<rparr>"

lemmas params_defs = AND_params_def OR_params_def NAND_params_def NOR_params_def

definition simpl_absorb_2 :: "bool option list \<Rightarrow> net_id list \<Rightarrow> absorb_params \<Rightarrow> simpl option" where
  "simpl_absorb_2 iv nets p =
     (if iv ! 0 = Some (dominant p) \<or> iv ! 1 = Some (dominant p) then Some (SConst (dominant_out p))
      else
        let unit = (\<not> dominant p);
            make = (\<lambda>net. if unit_invert p then SInvert net else SAlias net)
        in if iv ! 0 = Some unit then Some (make (nets ! 1))
        else if iv ! 1 = Some unit then Some (make (nets ! 0))
        else if self_alias p \<and> nets ! 0 = nets ! 1 then Some (SAlias (nets ! 0))
        else None)"

definition simpl_absorb_3 :: "bool option list \<Rightarrow> net_id list \<Rightarrow> absorb_params \<Rightarrow> simpl option" where
  "simpl_absorb_3 iv nets p =
     (if Some (dominant p) \<in> set iv then Some (SConst (dominant_out p))
      else if \<forall>x \<in> set iv. x = Some (\<not> dominant p) then Some (SConst (\<not> dominant_out p))
      else if self_alias p \<and> nets ! 0 = nets ! 1 \<and> nets ! 1 = nets ! 2 then Some (SAlias (nets ! 0))
      else None)"

definition simpl_xor_family :: "bool option list \<Rightarrow> net_id list \<Rightarrow> bool \<Rightarrow> simpl option" where
  "simpl_xor_family iv nets base_parity =
     (case (iv ! 0, iv ! 1) of
        (Some a, Some b) \<Rightarrow> Some (SConst (if base_parity then a = b else a \<noteq> b))
      | _ \<Rightarrow>
        let ident = base_parity
        in if iv ! 0 = Some ident then Some (SAlias (nets ! 1))
        else if iv ! 1 = Some ident then Some (SAlias (nets ! 0))
        else if iv ! 0 = Some (\<not> ident) then Some (SInvert (nets ! 1))
        else if iv ! 1 = Some (\<not> ident) then Some (SInvert (nets ! 0))
        else if nets ! 0 = nets ! 1 then Some (SConst base_parity)
        else None)"

definition simpl_mux2 :: "bool option list \<Rightarrow> net_id list \<Rightarrow> simpl option" where
  "simpl_mux2 iv nets =
     (case iv ! 0 of
        Some False \<Rightarrow> Some (SAlias (nets ! 1))
      | Some True \<Rightarrow> Some (SAlias (nets ! 2))
      | None \<Rightarrow>
          (if nets ! 1 = nets ! 2 then Some (SAlias (nets ! 1))
           else if iv ! 1 = Some False \<and> iv ! 2 = Some True then Some (SAlias (nets ! 0))
           else if iv ! 1 = Some True \<and> iv ! 2 = Some False then Some (SInvert (nets ! 0))
           else None))"

definition simpl_aoi_family :: "bool option list \<Rightarrow> net_id list \<Rightarrow> bool \<Rightarrow> simpl option" where
  "simpl_aoi_family iv nets is_aoi =
     (let short_circuit_c = is_aoi
      in if iv ! 2 = Some short_circuit_c then Some (SConst (\<not> short_circuit_c))
      else
        let leg_neutral = (\<not> short_circuit_c)
        in if iv ! 0 = Some leg_neutral \<or> iv ! 1 = Some leg_neutral
           then Some (case iv ! 2 of Some b \<Rightarrow> SConst (\<not> b) | None \<Rightarrow> SInvert (nets ! 2))
           else None)"

definition simpl_ao31 :: "bool option list \<Rightarrow> net_id list \<Rightarrow> bool \<Rightarrow> simpl option" where
  "simpl_ao31 iv nets invert =
     (if iv ! 3 = Some True then Some (SConst (\<not> invert))
      else if iv ! 0 = Some False \<or> iv ! 1 = Some False \<or> iv ! 2 = Some False
      then Some (case iv ! 3 of
                   Some b \<Rightarrow> SConst (if invert then \<not> b else b)
                 | None \<Rightarrow> if invert then SInvert (nets ! 3) else SAlias (nets ! 3))
      else if iv ! 0 = Some True \<and> iv ! 1 = Some True \<and> iv ! 2 = Some True
      then Some (SConst (\<not> invert))
      else None)"

definition simpl_ao_family :: "bool option list \<Rightarrow> net_id list \<Rightarrow> bool \<Rightarrow> simpl option" where
  "simpl_ao_family iv nets is_ao =
     (let short_circuit = is_ao
      in if iv ! 2 = Some short_circuit then Some (SConst short_circuit)
      else
        let leg_neutral = (\<not> short_circuit)
        in if iv ! 0 = Some leg_neutral \<or> iv ! 1 = Some leg_neutral
           then Some (case iv ! 2 of Some b \<Rightarrow> SConst b | None \<Rightarrow> SAlias (nets ! 2))
           else if iv ! 0 = Some short_circuit \<and> iv ! 1 = Some short_circuit
           then Some (SConst short_circuit)
           else None)"

fun simplify :: "cell_kind \<Rightarrow> bool option list \<Rightarrow> net_id list \<Rightarrow> simpl option" where
  "simplify Buf iv nets = map_option SConst (iv ! 0)"
| "simplify Not1 iv nets = map_option (\<lambda>b. SConst (\<not> b)) (iv ! 0)"
| "simplify And2 iv nets = simpl_absorb_2 iv nets AND_params"
| "simplify Or2 iv nets = simpl_absorb_2 iv nets OR_params"
| "simplify Nand2 iv nets = simpl_absorb_2 iv nets NAND_params"
| "simplify Nor2 iv nets = simpl_absorb_2 iv nets NOR_params"
| "simplify Xor2 iv nets = simpl_xor_family iv nets False"
| "simplify Xnor2 iv nets = simpl_xor_family iv nets True"
| "simplify Mux2 iv nets = simpl_mux2 iv nets"
| "simplify And3 iv nets = simpl_absorb_3 iv nets AND_params"
| "simplify Or3 iv nets = simpl_absorb_3 iv nets OR_params"
| "simplify Nand3 iv nets = simpl_absorb_3 iv nets NAND_params"
| "simplify Nor3 iv nets = simpl_absorb_3 iv nets NOR_params"
| "simplify Ao21 iv nets = simpl_ao_family iv nets True"
| "simplify Aoi21 iv nets = simpl_aoi_family iv nets True"
| "simplify Oa21 iv nets = simpl_ao_family iv nets False"
| "simplify Oai21 iv nets = simpl_aoi_family iv nets False"
| "simplify Ao31 iv nets = simpl_ao31 iv nets False"
| "simplify Aoi31 iv nets = simpl_ao31 iv nets True"
| "simplify Ao22 iv nets = simpl_ao22 iv nets"
| "simplify Aoi22 iv nets = map_option invert_simpl (simpl_ao22 iv nets)"
| "simplify Oai22 iv nets = simpl_oai22 iv nets"

lemmas simpl_defs = simpl_absorb_2_def simpl_absorb_3_def simpl_xor_family_def simpl_mux2_def
  simpl_aoi_family_def simpl_ao31_def simpl_ao_family_def simpl_ao22_def simpl_oai22_def params_defs

subsection \<open>Soundness of the simplifiers\<close>

fun simpl_val :: "(net_id \<Rightarrow> bool) \<Rightarrow> simpl \<Rightarrow> bool" where
  "simpl_val v (SConst b) = b"
| "simpl_val v (SAlias n) = v n"
| "simpl_val v (SInvert n) = (\<not> v n)"

text \<open>The rails carry their constants; \<open>iv\<close> holds values the inputs really have.\<close>

definition rails_ok :: "(net_id \<Rightarrow> bool) \<Rightarrow> bool" where
  "rails_ok v \<longleftrightarrow> \<not> v NET_CONST0 \<and> v NET_CONST1"

definition known :: "(net_id \<Rightarrow> bool) \<Rightarrow> bool option list \<Rightarrow> net_id list \<Rightarrow> bool" where
  "known v iv nets \<longleftrightarrow> list_all2 (\<lambda>x n. x = None \<or> x = Some (v n)) iv nets"

lemma rails_okD [simp]: "rails_ok v \<Longrightarrow> v NET_CONST0 = False" "rails_ok v \<Longrightarrow> v NET_CONST1 = True"
  by (simp_all add: rails_ok_def)

lemma known_Nil [simp]: "known v iv [] \<longleftrightarrow> iv = []"
  by (simp add: known_def)

lemma known_Cons [simp]:
  "known v iv (n # ns) \<longleftrightarrow> (\<exists>x xs. iv = x # xs \<and> (x = None \<or> x = Some (v n)) \<and> known v xs ns)"
  by (auto simp: known_def list_all2_Cons2)

lemma known_length: "known v iv nets \<Longrightarrow> length iv = length nets"
  by (auto simp: known_def list_all2_lengthD)

lemma known_map:
  assumes "\<And>n. n \<in> set nets \<Longrightarrow> f n = None \<or> f n = Some (v n)"
  shows "known v (map f nets) nets"
  using assms by (simp add: known_def list_all2_conv_all_nth)

lemma simpl_val_invert [simp]: "simpl_val v (invert_simpl s) = (\<not> simpl_val v s)"
  by (cases s) auto

lemma knownD:
  assumes "known v iv nets" "i < length nets"
  shows "iv ! i = Some True \<Longrightarrow> v (nets ! i)" "iv ! i = Some False \<Longrightarrow> \<not> v (nets ! i)"
    "iv ! i = Some x \<Longrightarrow> v (nets ! i) = x"
  using assms by (auto simp: known_def list_all2_conv_all_nth)

definition absorbing :: "absorb_params \<Rightarrow> bool" where
  "absorbing p \<longleftrightarrow> unit_invert p = (dominant p \<noteq> dominant_out p)
     \<and> (self_alias p \<longrightarrow> dominant p = dominant_out p)"

lemma absorb_2_sound:
  assumes "known v iv [a, b]" "simpl_absorb_2 iv [a, b] p = Some s" "absorbing p"
  shows "simpl_val v s =
    (if dominant p \<in> {v a, v b} then dominant_out p else \<not> dominant_out p)"
proof -
  define d where "d = dominant p"
  define D where "D i = (iv ! i = Some d)" for i
  define U where "U i = (iv ! i = Some (\<not> d))" for i
  have D: "D 0 \<Longrightarrow> v a = d" "D 1 \<Longrightarrow> v b = d" "U 0 \<Longrightarrow> v a = (\<not> d)" "U 1 \<Longrightarrow> v b = (\<not> d)"
    using knownD(3) [OF assms(1), of 0] knownD(3) [OF assms(1), of 1] by (simp_all add: D_def U_def)
  have eq: "simpl_absorb_2 iv [a, b] p =
     (if D 0 \<or> D 1 then Some (SConst (dominant_out p))
      else if U 0 then Some (if unit_invert p then SInvert b else SAlias b)
      else if U 1 then Some (if unit_invert p then SInvert a else SAlias a)
      else if self_alias p \<and> a = b then Some (SAlias a) else None)"
    by (simp add: simpl_absorb_2_def Let_def D_def U_def d_def)
  show ?thesis
    using assms(2) [unfolded eq] assms(3) D unfolding absorbing_def d_def [symmetric]
    by (cases d) (auto split: if_splits)
qed

lemma absorb_3_sound:
  assumes "known v iv [a, b, c]" "simpl_absorb_3 iv [a, b, c] p = Some s" "absorbing p"
  shows "simpl_val v s =
    (if dominant p \<in> {v a, v b, v c} then dominant_out p else \<not> dominant_out p)"
proof -
  define d where "d = dominant p"
  define D where "D i = (iv ! i = Some d)" for i
  define U where "U i = (iv ! i = Some (\<not> d))" for i
  have len: "iv = [iv ! 0, iv ! 1, iv ! 2]"
    using known_length [OF assms(1)] by (auto simp: length_3_conv [unfolded numeral_3_eq_3])
  then have iv: "set iv = {iv ! 0, iv ! 1, iv ! 2}" by (metis list.set(1) list.set(2))
  have D: "D 0 \<Longrightarrow> v a = d" "D 1 \<Longrightarrow> v b = d" "D 2 \<Longrightarrow> v c = d"
      "U 0 \<Longrightarrow> v a = (\<not> d)" "U 1 \<Longrightarrow> v b = (\<not> d)" "U 2 \<Longrightarrow> v c = (\<not> d)"
    using knownD(3) [OF assms(1), of 0] knownD(3) [OF assms(1), of 1]
      knownD(3) [OF assms(1), of 2] by (simp_all add: D_def U_def)
  have eq: "simpl_absorb_3 iv [a, b, c] p =
     (if D 0 \<or> D 1 \<or> D 2 then Some (SConst (dominant_out p))
      else if U 0 \<and> U 1 \<and> U 2 then Some (SConst (\<not> dominant_out p))
      else if self_alias p \<and> a = b \<and> b = c then Some (SAlias a) else None)"
    unfolding simpl_absorb_3_def iv by (simp add: Let_def D_def U_def d_def eq_commute)
  show ?thesis
    using assms(2) [unfolded eq] assms(3) D unfolding absorbing_def d_def [symmetric]
    by (cases d) (auto split: if_splits)
qed

lemma params_simps [simp]:
  "dominant AND_params = False" "dominant_out AND_params = False"
  "dominant OR_params = True" "dominant_out OR_params = True"
  "dominant NAND_params = False" "dominant_out NAND_params = True"
  "dominant NOR_params = True" "dominant_out NOR_params = False"
  "absorbing AND_params" "absorbing OR_params" "absorbing NAND_params" "absorbing NOR_params"
  by (simp_all add: params_defs absorbing_def)

lemma xor_family_sound:
  assumes "known v iv [a, b]" "simpl_xor_family iv [a, b] par = Some s"
  shows "simpl_val v s = (if par then v a = v b else v a \<noteq> v b)"
  using assms by (auto simp: simpl_xor_family_def Let_def split: if_splits option.splits)

lemma mux2_sound:
  assumes "known v iv [s, d0, d1]" "simpl_mux2 iv [s, d0, d1] = Some r"
  shows "simpl_val v r = (if v s then v d1 else v d0)"
  using assms by (auto simp: simpl_mux2_def split: if_splits option.splits bool.splits)

lemma aoi_family_sound:
  assumes "known v iv [a, b, c]" "simpl_aoi_family iv [a, b, c] aoi = Some r"
  shows "simpl_val v r = (\<not> (if aoi then v a \<and> v b \<or> v c else (v a \<or> v b) \<and> v c))"
  using assms by (auto simp: simpl_aoi_family_def Let_def split: if_splits option.splits)

lemma ao_family_sound:
  assumes "known v iv [a, b, c]" "simpl_ao_family iv [a, b, c] ao = Some r"
  shows "simpl_val v r = (if ao then v a \<and> v b \<or> v c else (v a \<or> v b) \<and> v c)"
  using assms by (auto simp: simpl_ao_family_def Let_def split: if_splits option.splits)

lemma ao31_sound:
  assumes "known v iv [a, b, c, d]" "simpl_ao31 iv [a, b, c, d] i = Some r"
  shows "simpl_val v r = (i \<noteq> (v a \<and> v b \<and> v c \<or> v d))"
  using assms by (auto simp: simpl_ao31_def split: if_splits option.splits)

lemma ao22_sound:
  assumes "rails_ok v" "known v iv [a, b, c, d]" "simpl_ao22 iv [a, b, c, d] = Some r"
  shows "simpl_val v r = (v a \<and> v b \<or> v c \<and> v d)"
proof -
  define t where "t i = (iv ! i = Some True)" for i
  define f where "f i n = (iv ! i = Some False \<or> n = NET_CONST0)" for i n
  have t: "t 0 \<Longrightarrow> v a" "t 1 \<Longrightarrow> v b" "t 2 \<Longrightarrow> v c" "t 3 \<Longrightarrow> v d"
    using knownD(1) [OF assms(2), of 0] knownD(1) [OF assms(2), of 1]
      knownD(1) [OF assms(2), of 2] knownD(1) [OF assms(2), of 3] by (simp_all add: t_def)
  have f: "f 0 a \<Longrightarrow> \<not> v a" "f 1 b \<Longrightarrow> \<not> v b" "f 2 c \<Longrightarrow> \<not> v c" "f 3 d \<Longrightarrow> \<not> v d"
    using knownD(2) [OF assms(2), of 0] knownD(2) [OF assms(2), of 1]
      knownD(2) [OF assms(2), of 2] knownD(2) [OF assms(2), of 3] assms(1) by (auto simp: f_def)
  define ab0 cd0 where "ab0 = (f 0 a \<or> f 1 b)" and "cd0 = (f 2 c \<or> f 3 d)"
  define ab1 cd1 where "ab1 = (t 0 \<and> t 1)" and "cd1 = (t 2 \<and> t 3)"
  have z: "ab0 \<Longrightarrow> \<not> (v a \<and> v b)" "cd0 \<Longrightarrow> \<not> (v c \<and> v d)" "ab1 \<Longrightarrow> v a \<and> v b" "cd1 \<Longrightarrow> v c \<and> v d"
    using t f by (auto simp: ab0_def cd0_def ab1_def cd1_def)
  have eq: "simpl_ao22 iv [a, b, c, d] =
     (if ab1 \<or> cd1 then Some (SConst True)
      else if ab0 \<and> cd0 then Some (SConst False)
      else if ab0 \<and> t 2 then Some (SAlias d)
      else if ab0 \<and> t 3 then Some (SAlias c)
      else if ab0 \<and> c = d then Some (SAlias c)
      else if cd0 \<and> t 0 then Some (SAlias b)
      else if cd0 \<and> t 1 then Some (SAlias a)
      else if cd0 \<and> a = b then Some (SAlias a) else None)"
    by (simp add: simpl_ao22_def Let_def t_def f_def disj_ac ab0_def cd0_def ab1_def cd1_def)
  from assms(3) [unfolded eq] t z show ?thesis
    by (auto split: if_splits)
qed

lemma oai22_sound:
  assumes "rails_ok v" "known v iv [a, b, c, d]" "simpl_oai22 iv [a, b, c, d] = Some r"
  shows "simpl_val v r = (\<not> ((v a \<or> v b) \<and> (v c \<or> v d)))"
proof -
  define t where "t i n = (iv ! i = Some True \<or> n = NET_CONST1)" for i n
  define f where "f i = (iv ! i = Some False)" for i
  have t: "t 0 a \<Longrightarrow> v a" "t 1 b \<Longrightarrow> v b" "t 2 c \<Longrightarrow> v c" "t 3 d \<Longrightarrow> v d"
    using knownD(1) [OF assms(2), of 0] knownD(1) [OF assms(2), of 1]
      knownD(1) [OF assms(2), of 2] knownD(1) [OF assms(2), of 3] assms(1) by (auto simp: t_def)
  have f: "f 0 \<Longrightarrow> \<not> v a" "f 1 \<Longrightarrow> \<not> v b" "f 2 \<Longrightarrow> \<not> v c" "f 3 \<Longrightarrow> \<not> v d"
    using knownD(2) [OF assms(2), of 0] knownD(2) [OF assms(2), of 1]
      knownD(2) [OF assms(2), of 2] knownD(2) [OF assms(2), of 3] by (simp_all add: f_def)
  have eq: "simpl_oai22 iv [a, b, c, d] =
     (if f 0 \<and> f 1 \<or> f 2 \<and> f 3 then Some (SConst True)
      else if (t 0 a \<or> t 1 b) \<and> (t 2 c \<or> t 3 d) then Some (SConst False) else None)"
    by (simp add: simpl_oai22_def Let_def t_def f_def disj_ac)
  from assms(3) [unfolded eq] t f show ?thesis
    by (auto split: if_splits)
qed

lemmas simplifier_sound = absorb_2_sound absorb_3_sound xor_family_sound mux2_sound
  aoi_family_sound ao_family_sound ao31_sound ao22_sound oai22_sound

lemma simplify_2:
  assumes "rails_ok v" "known v iv nets" "length nets = arity k" "arity k \<le> 2"
    and "simplify k iv nets = Some s"
  shows "simpl_val v s = cell_fn k (map v nets)"
proof (cases "arity k = 1")
  case True
  with assms obtain a where "nets = [a]" by (metis length_1_conv)
  with assms True show ?thesis by (cases k) auto
next
  case False
  with assms(4) arity_pos [of k] have "arity k = 2" by linarith
  with assms obtain a b where nets: "nets = [a, b]" by (metis length_2_conv)
  from assms(2) have kn: "known v iv [a, b]" by (simp only: nets)
  from assms(5) \<open>arity k = 2\<close> show ?thesis unfolding nets
    by (cases k) (auto dest!: absorb_2_sound [OF kn] xor_family_sound [OF kn] split: if_splits)
qed

lemma simplify_3:
  assumes "rails_ok v" "known v iv nets" "length nets = arity k" "arity k = 3"
    and "simplify k iv nets = Some s"
  shows "simpl_val v s = cell_fn k (map v nets)"
proof -
  from assms obtain a b c where nets: "nets = [a, b, c]" by (metis length_3_conv)
  from assms(2) have kn: "known v iv [a, b, c]" by (simp only: nets)
  from assms(4,5) show ?thesis unfolding nets
    by (cases k)
      (auto dest!: absorb_3_sound [OF kn] ao_family_sound [OF kn] aoi_family_sound [OF kn]
        mux2_sound [OF kn] split: if_splits)
qed

lemma simplify_4:
  assumes "rails_ok v" "known v iv nets" "length nets = arity k" "arity k = 4"
    and "simplify k iv nets = Some s"
  shows "simpl_val v s = cell_fn k (map v nets)"
proof -
  from assms obtain a b c d where nets: "nets = [a, b, c, d]" by (metis length_4_conv)
  from assms(2) have kn: "known v iv [a, b, c, d]" by (simp only: nets)
  from assms(4,5) show ?thesis unfolding nets
    by (cases k)
      (auto dest!: ao31_sound [OF kn] ao22_sound [OF assms(1) kn] oai22_sound [OF assms(1) kn])
qed

text \<open>
  Whenever \<open>simplify\<close> replaces a cell by a constant, an alias or an inverted net, the
  replacement has the value of the cell, for every kind.
\<close>

lemma simplify_correct:
  assumes "rails_ok v" "known v iv nets" "length nets = arity k" "simplify k iv nets = Some s"
  shows "simpl_val v s = cell_fn k (map v nets)"
proof -
  have "arity k \<le> 2 \<or> arity k = 3 \<or> arity k = 4" by (cases k) auto
  with assms show ?thesis using simplify_2 simplify_3 simplify_4 by blast
qed

text \<open>The net an alias or an inversion names is one of the inputs.\<close>

fun simpl_nets :: "simpl \<Rightarrow> net_id set" where
  "simpl_nets (SConst b) = {}"
| "simpl_nets (SAlias n) = {n}"
| "simpl_nets (SInvert n) = {n}"

lemma simpl_nets_invert [simp]: "simpl_nets (invert_simpl s) = simpl_nets s"
  by (cases s) auto

lemma simplify_nets_2:
  "pred_option (\<lambda>s. simpl_nets s \<subseteq> {a, b}) (simpl_absorb_2 iv [a, b] p)"
  "pred_option (\<lambda>s. simpl_nets s \<subseteq> {a, b}) (simpl_xor_family iv [a, b] par)"
  by (simp_all add: simpl_absorb_2_def simpl_xor_family_def Let_def split: option.split)

lemma simplify_nets_3:
  "pred_option (\<lambda>s. simpl_nets s \<subseteq> {a, b, c}) (simpl_absorb_3 iv [a, b, c] p)"
  "pred_option (\<lambda>s. simpl_nets s \<subseteq> {a, b, c}) (simpl_ao_family iv [a, b, c] ao)"
  "pred_option (\<lambda>s. simpl_nets s \<subseteq> {a, b, c}) (simpl_aoi_family iv [a, b, c] ao)"
  "pred_option (\<lambda>s. simpl_nets s \<subseteq> {a, b, c}) (simpl_mux2 iv [a, b, c])"
  by (simp_all add: simpl_absorb_3_def simpl_ao_family_def simpl_aoi_family_def simpl_mux2_def
      Let_def split: option.split bool.split)

lemma simplify_nets_4:
  "pred_option (\<lambda>s. simpl_nets s \<subseteq> {a, b, c, d}) (simpl_ao31 iv [a, b, c, d] i)"
  "pred_option (\<lambda>s. simpl_nets s \<subseteq> {a, b, c, d}) (simpl_ao22 iv [a, b, c, d])"
  "pred_option (\<lambda>s. simpl_nets s \<subseteq> {a, b, c, d}) (simpl_oai22 iv [a, b, c, d])"
  by (simp_all add: simpl_ao31_def simpl_ao22_def simpl_oai22_def Let_def split: option.split)

lemma simplify_nets_pred:
  assumes "length nets = arity k"
  shows "pred_option (\<lambda>s. simpl_nets s \<subseteq> set nets) (simplify k iv nets)"
  using assms
  by (cases k; clarsimp simp: arity_conv option.pred_map comp_def
      simplify_nets_2 simplify_nets_3 simplify_nets_4 simp del: subset_iff)
    (cases "iv ! 0"; simp)+

lemma simplify_nets:
  assumes "simplify k iv nets = Some s" "length nets = arity k"
  shows "simpl_nets s \<subseteq> set nets"
  using simplify_nets_pred [OF assms(2), of iv] assms(1) by simp


subsection \<open>Properties\<close>

text \<open>
  C1: whenever the worklist simplifier reduces a cell to a constant, an alias or an
  inversion, that replacement has the cell's own value, under every assignment in which the
  rails carry their constants and the known inputs have their known values; and the net it
  names is one of the cell's inputs.
\<close>

theorem simplify_sound:
  assumes "rails_ok v" "known v iv nets" "length nets = arity k" "simplify k iv nets = Some s"
  shows "simpl_val v s = cell_fn k (map v nets) \<and> simpl_nets s \<subseteq> set nets"
  using simplify_correct [OF assms] simplify_nets [OF assms(4,3)] by blast

lemma simplify_sound_witness:
  "simplify Ao22 [None, Some True, Some False, None] [4, 5, 6, 7] = Some (SAlias 4) \<and>
   simpl_val (\<lambda>n. n \<in> {1, 4, 5, 7}) (SAlias 4) = cell_fn Ao22 (map (\<lambda>n. n \<in> {1, 4, 5, 7}) [4, 5, 6, 7])"
proof -
  have s: "simplify Ao22 [None, Some True, Some False, None] [4, 5, 6, 7] = Some (SAlias 4)"
    by (simp add: simpl_ao22_def Let_def rails)
  have "rails_ok (\<lambda>n. n \<in> {1, 4, 5, 7})" unfolding rails_ok_def rails by simp
  from simplify_sound [OF this _ _ s] s show ?thesis by simp
qed

end
