(* ===== verification/Conv_Context.thy ===== *)
theory Conv_Context
  imports Simplify
begin

section \<open>Building netlists (\<open>conv.rs\<close>, \<open>conv/expression.rs\<close>)\<close>

text \<open>
  The part of \<open>ConvContext\<close> that cell emission reads and writes: the cells, flip-flops
  and nets of the module under construction (its tables of variables, functions and RAM
  candidates are read by the statement walker only). \<open>alloc_net\<close> and \<open>add_cell\<close> are
  methods on \<open>&mut self\<close>, hence computations of a state monad over the record.

  A computation \<open>m\<close> is described by \<open>builds ctx m N P\<close>: run from \<open>ctx\<close> it keeps
  the context well formed, only appends nets and cells, does so conservatively (every
  assignment respecting the old netlist extends to one respecting the new), its result
  satisfies \<open>N\<close> (a range condition), and satisfies \<open>P v\<close> in every assignment
  \<open>v\<close> that respects the new netlist.
\<close>

record conv_ctx =
  cc_cells :: "cell list"
  cc_ffs :: "ff_cell list"
  cc_nets :: "net_info list"

definition new_ctx :: conv_ctx where
  "new_ctx = \<lparr>cc_cells = [], cc_ffs = [],
     cc_nets = [\<lparr>driver = DConst False, origin = None\<rparr>, \<lparr>driver = DConst True, origin = None\<rparr>]\<rparr>"

definition alloc_net :: "(str_id \<times> nat) option \<Rightarrow> (conv_ctx, net_id) state" where
  "alloc_net org = State (\<lambda>ctx.
     let ident = length (cc_nets ctx)
     in (ident, ctx\<lparr>cc_nets := cc_nets ctx @ [\<lparr>driver = Undriven, origin = org\<rparr>]\<rparr>))"

definition const_of :: "net_info list \<Rightarrow> net_id \<Rightarrow> bool option" where
  "const_of nets n = (case driver (nets ! n) of DConst b \<Rightarrow> Some b | _ \<Rightarrow> None)"

definition folded_value :: "net_info list \<Rightarrow> cell_kind \<Rightarrow> net_id list \<Rightarrow> bool option" where
  "folded_value nets k ins =
     (case simplify k (map (const_of nets) ins) ins of
        None \<Rightarrow> None
      | Some (SConst v) \<Rightarrow> Some v
      | Some (SAlias n) \<Rightarrow> const_of nets n
      | Some (SInvert n) \<Rightarrow> map_option HOL.Not (const_of nets n))"

fun find_map :: "('a \<Rightarrow> 'b option) \<Rightarrow> 'a list \<Rightarrow> 'b option" where
  "find_map f [] = None"
| "find_map f (x # xs) = (case f x of Some y \<Rightarrow> Some y | None \<Rightarrow> find_map f xs)"

text \<open>The display name of the output: a \<open>Mux2\<close> prefers its data inputs to its select.\<close>

definition out_origin :: "net_info list \<Rightarrow> cell_kind \<Rightarrow> net_id list \<Rightarrow> (str_id \<times> nat) option" where
  "out_origin nets k ins =
     (let pick = (\<lambda>n. origin (nets ! n));
          at = (\<lambda>i. if i < length ins then pick (ins ! i) else None)
      in if k = Mux2
         then (case at 1 of Some x \<Rightarrow> Some x
               | None \<Rightarrow> (case at 2 of Some x \<Rightarrow> Some x | None \<Rightarrow> at 0))
         else find_map pick ins)"

definition push_cell :: "cell_kind \<Rightarrow> net_id list \<Rightarrow> net_id \<Rightarrow> (conv_ctx, unit) state" where
  "push_cell k ins out = State (\<lambda>ctx.
     let idx = length (cc_cells ctx)
     in ((), ctx\<lparr>cc_cells := cc_cells ctx @ [\<lparr>c_kind = k, c_inputs = ins, c_output = out\<rparr>],
                 cc_nets := (cc_nets ctx)[out := (cc_nets ctx ! out)\<lparr>driver := DCell idx\<rparr>]\<rparr>))"

definition add_cell :: "cell_kind \<Rightarrow> net_id list \<Rightarrow> (conv_ctx, net_id) state" where
  "add_cell k ins = do {
     ctx \<leftarrow> State_Monad.get;
     (case folded_value (cc_nets ctx) k ins of
        Some v \<Rightarrow> State_Monad.return (if v then NET_CONST1 else NET_CONST0)
      | None \<Rightarrow> do {
          out \<leftarrow> alloc_net (out_origin (cc_nets ctx) k ins);
          push_cell k ins out;
          State_Monad.return out })
   }"

subsection \<open>Assignments that respect a netlist\<close>

definition sat :: "(net_id \<Rightarrow> bool) \<Rightarrow> conv_ctx \<Rightarrow> bool" where
  "sat v ctx \<longleftrightarrow> (\<forall>c \<in> set (cc_cells ctx). holds v c) \<and>
     (\<forall>n < length (cc_nets ctx). \<forall>b. driver (cc_nets ctx ! n) = DConst b \<longrightarrow> v n = b)"

abbreviation n_nets :: "conv_ctx \<Rightarrow> nat" where
  "n_nets ctx \<equiv> length (cc_nets ctx)"

definition cell_wf :: "nat \<Rightarrow> cell \<Rightarrow> bool" where
  "cell_wf k c \<longleftrightarrow> c_output c < k \<and> (\<forall>n \<in> set (c_inputs c). n < k)
     \<and> length (c_inputs c) = arity (c_kind c)"

definition wf_ctx :: "conv_ctx \<Rightarrow> bool" where
  "wf_ctx ctx \<longleftrightarrow> RESERVED_NETS \<le> n_nets ctx
     \<and> driver (cc_nets ctx ! NET_CONST0) = DConst False
     \<and> driver (cc_nets ctx ! NET_CONST1) = DConst True
     \<and> (\<forall>c \<in> set (cc_cells ctx). cell_wf (n_nets ctx) c)
     \<and> (\<forall>n < n_nets ctx. \<forall>i. driver (cc_nets ctx ! n) = DCell i \<longrightarrow>
          i < length (cc_cells ctx) \<and> c_output (cc_cells ctx ! i) = n)"

definition extends :: "conv_ctx \<Rightarrow> conv_ctx \<Rightarrow> bool" where
  "extends ctx ctx' \<longleftrightarrow>
     (\<exists>cells nets. cc_cells ctx' = cc_cells ctx @ cells \<and> cc_nets ctx' = cc_nets ctx @ nets)
     \<and> cc_ffs ctx' = cc_ffs ctx
     \<and> (\<forall>v. sat v ctx \<longrightarrow> (\<exists>v'. sat v' ctx' \<and> (\<forall>n < n_nets ctx. v' n = v n)))"

lemma extends_refl [simp, intro]: "extends ctx ctx"
  by (auto simp: extends_def)

lemma extends_n_nets: "extends a b \<Longrightarrow> n_nets a \<le> n_nets b"
  by (auto simp: extends_def)

lemma extends_trans [trans]:
  assumes "extends a b" "extends b c"
  shows "extends a c"
proof -
  have len: "n_nets a \<le> n_nets b" using assms(1) by (rule extends_n_nets)
  have "\<exists>v''. sat v'' c \<and> (\<forall>n < n_nets a. v'' n = v n)" if v: "sat v a" for v
  proof -
    from assms(1) v obtain v' where v': "sat v' b" "\<forall>n < n_nets a. v' n = v n"
      by (auto simp: extends_def)
    with assms(2) obtain v'' where "sat v'' c" "\<forall>n < n_nets b. v'' n = v' n"
      by (auto simp: extends_def)
    with v' len show ?thesis by (metis less_le_trans)
  qed
  with assms show ?thesis by (auto simp: extends_def)
qed

lemma extends_sat:
  assumes "extends a b" "sat v b"
  shows "sat v a"
proof -
  from assms(1) obtain cells nets
    where b: "cc_cells b = cc_cells a @ cells" "cc_nets b = cc_nets a @ nets"
    by (auto simp: extends_def)
  have "driver (cc_nets b ! n) = driver (cc_nets a ! n)" if "n < n_nets a" for n
    using that b by (simp add: nth_append)
  with assms(2) b show ?thesis by (auto simp: sat_def)
qed

lemma sat_const: "sat v ctx \<Longrightarrow> n < n_nets ctx \<Longrightarrow> driver (cc_nets ctx ! n) = DConst b \<Longrightarrow> v n = b"
  by (simp add: sat_def)

lemma wf_ctx_sat_rails: "wf_ctx ctx \<Longrightarrow> sat v ctx \<Longrightarrow> rails_ok v"
  using sat_const [of v ctx NET_CONST0 False] sat_const [of v ctx NET_CONST1 True]
  by (force simp: wf_ctx_def rails_ok_def rails)

lemma wf_ctx_rails: "wf_ctx ctx \<Longrightarrow> NET_CONST0 < n_nets ctx \<and> NET_CONST1 < n_nets ctx"
  by (auto simp: wf_ctx_def rails)

lemma wf_new_ctx: "wf_ctx new_ctx"
proof -
  have "n = 0 \<or> n = 1" if "n < 2" for n :: nat using that by linarith
  then show ?thesis by (auto simp: wf_ctx_def new_ctx_def rails nth_Cons')
qed

subsection \<open>The description of a building computation\<close>

definition builds :: "conv_ctx \<Rightarrow> (conv_ctx, 'a) state \<Rightarrow> (nat \<Rightarrow> 'a \<Rightarrow> bool) \<Rightarrow>
    ((net_id \<Rightarrow> bool) \<Rightarrow> 'a \<Rightarrow> bool) \<Rightarrow> bool" where
  "builds ctx m N P \<longleftrightarrow>
     (let (r, ctx') = run_state m ctx
      in wf_ctx ctx' \<and> extends ctx ctx' \<and> N (n_nets ctx') r \<and> (\<forall>v. sat v ctx' \<longrightarrow> P v r))"

lemma buildsI:
  assumes "run_state m ctx = (r, ctx')" "wf_ctx ctx'" "extends ctx ctx'" "N (n_nets ctx') r"
    and "\<And>v. sat v ctx' \<Longrightarrow> P v r"
  shows "builds ctx m N P"
  using assms by (auto simp: builds_def)

lemma buildsE:
  assumes "builds ctx m N P"
  obtains r ctx' where "run_state m ctx = (r, ctx')" "wf_ctx ctx'" "extends ctx ctx'"
    "N (n_nets ctx') r" "\<forall>v. sat v ctx' \<longrightarrow> P v r"
  using assms unfolding builds_def Let_def by (cases "run_state m ctx") auto

lemma builds_return:
  assumes "wf_ctx ctx" "N (n_nets ctx) x" "\<And>v. sat v ctx \<Longrightarrow> P v x"
  shows "builds ctx (State_Monad.return x) N P"
  using assms by (auto simp: builds_def)

lemma builds_bind:
  assumes m: "builds ctx m N P"
    and f: "\<And>r ctx'. wf_ctx ctx' \<Longrightarrow> extends ctx ctx' \<Longrightarrow> N (n_nets ctx') r \<Longrightarrow>
      builds ctx' (f r) N' (\<lambda>v s. P v r \<longrightarrow> Q v s)"
  shows "builds ctx (m \<bind> f) N' Q"
proof -
  obtain r c1 where 1: "run_state m ctx = (r, c1)" "wf_ctx c1" "extends ctx c1" "N (n_nets c1) r"
    and P: "\<forall>v. sat v c1 \<longrightarrow> P v r" using m by (rule buildsE)
  from 1 have "builds c1 (f r) N' (\<lambda>v s. P v r \<longrightarrow> Q v s)" by (auto intro: f)
  then obtain s c2 where 2: "run_state (f r) c1 = (s, c2)" "wf_ctx c2" "extends c1 c2"
    "N' (n_nets c2) s" and Q: "\<forall>v. sat v c2 \<longrightarrow> P v r \<longrightarrow> Q v s" by (rule buildsE)
  show ?thesis
  proof (rule buildsI)
    show "run_state (m \<bind> f) ctx = (s, c2)" using 1(1) 2(1) by simp
    show "extends ctx c2" using 1(3) 2(3) by (rule extends_trans)
    show "Q v s" if "sat v c2" for v using that Q P extends_sat [OF 2(3)] by blast
  qed (use 2 in auto)
qed

lemma builds_weaken:
  assumes "builds ctx m N P" "\<And>k r. N k r \<Longrightarrow> n_nets ctx \<le> k \<Longrightarrow> N' k r"
    and "\<And>v r k. N k r \<Longrightarrow> P v r \<Longrightarrow> Q v r"
  shows "builds ctx m N' Q"
  using assms by (auto simp: builds_def Let_def extends_n_nets split: prod.splits)

text \<open>The rails hold in every assignment that respects a well-formed context.\<close>

lemma builds_post_rails:
  assumes "builds ctx m N P" "\<And>v r. rails_ok v \<Longrightarrow> P v r \<Longrightarrow> Q v r"
  shows "builds ctx m N Q"
  using assms(1)
proof (rule buildsE)
  fix r ctx'
  assume "run_state m ctx = (r, ctx')" "wf_ctx ctx'" "extends ctx ctx'" "N (n_nets ctx') r"
    "\<forall>v. sat v ctx' \<longrightarrow> P v r"
  then show ?thesis by (auto intro!: buildsI assms(2) intro: wf_ctx_sat_rails)
qed

text \<open>The result of a computation whose value is a \<open>Result\<close> that is \<open>Ok\<close>.\<close>

lemma builds_or_return:
  fixes m :: "(conv_ctx, 'e + 'a) state" and f :: "'a \<Rightarrow> (conv_ctx, 'e + 'b) state"
  assumes m: "builds ctx m (\<lambda>k r. \<exists>x. r = Inr x \<and> N k x) (\<lambda>v r. \<forall>x. r = Inr x \<longrightarrow> P v x)"
    and f: "\<And>x ctx'. wf_ctx ctx' \<Longrightarrow> extends ctx ctx' \<Longrightarrow> N (n_nets ctx') x \<Longrightarrow>
      builds ctx' (f x) N' (\<lambda>v s. P v x \<longrightarrow> Q v s)"
  shows "builds ctx (m \<bind> (\<lambda>r. or_return r f)) N' Q"
proof (rule builds_bind [OF m])
  fix r :: "'e + 'a" and ctx'
  assume *: "wf_ctx ctx'" "extends ctx ctx'" "\<exists>x. r = Inr x \<and> N (n_nets ctx') x"
  then obtain x where x: "r = Inr x" "N (n_nets ctx') x" by blast
  show "builds ctx' (or_return r f) N' (\<lambda>v s. (\<forall>x. r = Inr x \<longrightarrow> P v x) \<longrightarrow> Q v s)"
    using f [OF *(1,2) x(2)] x(1) by simp
qed

subsection \<open>Emitting a cell\<close>

text \<open>
  Appending a cell on a fresh net is conservative: the fresh net takes the cell's value.
\<close>

definition grown :: "conv_ctx \<Rightarrow> cell_kind \<Rightarrow> net_id list \<Rightarrow> (str_id \<times> nat) option \<Rightarrow> conv_ctx" where
  "grown ctx k ins org = ctx\<lparr>
     cc_cells := cc_cells ctx @ [\<lparr>c_kind = k, c_inputs = ins, c_output = n_nets ctx\<rparr>],
     cc_nets := cc_nets ctx @ [\<lparr>driver = DCell (length (cc_cells ctx)), origin = org\<rparr>]\<rparr>"

lemma run_add_cell:
  "run_state (add_cell k ins) ctx =
     (case folded_value (cc_nets ctx) k ins of
        Some v \<Rightarrow> (if v then NET_CONST1 else NET_CONST0, ctx)
      | None \<Rightarrow> (n_nets ctx, grown ctx k ins (out_origin (cc_nets ctx) k ins)))"
  by (simp add: add_cell_def alloc_net_def push_cell_def grown_def Let_def split: option.splits)

lemma sat_grown:
  assumes "sat v (grown ctx k ins org)"
  shows "v (n_nets ctx) = cell_fn k (map v ins)"
  using assms by (simp add: sat_def grown_def holds_def)

lemma wf_grown:
  assumes "wf_ctx ctx" "\<forall>n \<in> set ins. n < n_nets ctx" "length ins = arity k"
  shows "wf_ctx (grown ctx k ins org)"
proof -
  have cells: "\<forall>c \<in> set (cc_cells (grown ctx k ins org)). cell_wf (Suc (n_nets ctx)) c"
    using assms unfolding wf_ctx_def cell_wf_def grown_def by (auto intro: less_SucI)
  have drv: "i < Suc (length (cc_cells ctx)) \<and> c_output (cc_cells (grown ctx k ins org) ! i) = n"
    if "n < Suc (n_nets ctx)" "driver (cc_nets (grown ctx k ins org) ! n) = DCell i" for n i
  proof (cases "n < n_nets ctx")
    case True
    with that(2) have "driver (cc_nets ctx ! n) = DCell i"
      by (simp add: grown_def nth_append)
    with assms(1) True have "i < length (cc_cells ctx) \<and> c_output (cc_cells ctx ! i) = n"
      unfolding wf_ctx_def by blast
    then show ?thesis by (simp add: grown_def nth_append)
  next
    case False
    with that(1) have n: "n = n_nets ctx" by simp
    with that(2) show ?thesis by (auto simp: grown_def)
  qed
  have "2 \<le> n_nets ctx" using assms(1) by (simp add: wf_ctx_def rails)
  then have rails: "cc_nets (grown ctx k ins org) ! NET_CONST0 = cc_nets ctx ! NET_CONST0"
    "cc_nets (grown ctx k ins org) ! NET_CONST1 = cc_nets ctx ! NET_CONST1"
    by (auto simp: grown_def nth_append rails)
  have "n_nets (grown ctx k ins org) = Suc (n_nets ctx)"
    "length (cc_cells (grown ctx k ins org)) = Suc (length (cc_cells ctx))"
    by (simp_all add: grown_def)
  with assms(1) cells drv rails show ?thesis
    unfolding wf_ctx_def by simp
qed

lemma sat_local:
  assumes "wf_ctx ctx" "sat v ctx" "\<forall>n < n_nets ctx. v' n = v n"
  shows "sat v' ctx"
proof -
  have "holds v' c" if c: "c \<in> set (cc_cells ctx)" for c
  proof -
    from assms(1) c have wf: "cell_wf (n_nets ctx) c" by (auto simp: wf_ctx_def)
    then have "map v' (c_inputs c) = map v (c_inputs c)"
      using assms(3) by (auto simp: cell_wf_def)
    moreover have "v' (c_output c) = v (c_output c)"
      using wf assms(3) by (auto simp: cell_wf_def)
    moreover have "holds v c" using assms(2) c by (simp add: sat_def)
    ultimately show ?thesis by (simp only: holds_def)
  qed
  with assms(2,3) show ?thesis by (simp add: sat_def)
qed

lemma extends_grown:
  assumes "wf_ctx ctx" "\<forall>n \<in> set ins. n < n_nets ctx"
  shows "extends ctx (grown ctx k ins org)"
proof -
  have "\<exists>v'. sat v' (grown ctx k ins org) \<and> (\<forall>n < n_nets ctx. v' n = v n)" if v: "sat v ctx" for v
  proof -
    let ?v = "v(n_nets ctx := cell_fn k (map v ins))"
    have old: "\<forall>n < n_nets ctx. ?v n = v n" by simp
    have "sat ?v ctx" using sat_local [OF assms(1) v old] .
    moreover have "map ?v ins = map v ins" using assms(2) by auto
    ultimately have "sat ?v (grown ctx k ins org)"
      unfolding sat_def grown_def holds_def by (auto simp: nth_append less_Suc_eq simp del: map_eq_conv)
    with old show ?thesis by blast
  qed
  then show ?thesis by (auto simp: extends_def grown_def)
qed

lemma const_of_known:
  assumes "sat v ctx" "\<forall>n \<in> set ins. n < n_nets ctx"
  shows "known v (map (const_of (cc_nets ctx)) ins) ins"
  using assms by (intro known_map) (auto simp: const_of_def sat_def split: net_driver.splits)

lemma const_ofD: "sat v ctx \<Longrightarrow> n < n_nets ctx \<Longrightarrow> const_of (cc_nets ctx) n = Some b \<Longrightarrow> v n = b"
  by (auto simp: const_of_def sat_def split: net_driver.splits)

lemma add_cell_builds:
  assumes wf: "wf_ctx ctx" and ins: "\<forall>n \<in> set ins. n < n_nets ctx" and len: "length ins = arity k"
  shows "builds ctx (add_cell k ins) (\<lambda>m n. n < m) (\<lambda>v n. v n = cell_fn k (map v ins))"
proof (cases "folded_value (cc_nets ctx) k ins")
  case None
  then show ?thesis
    using wf_grown [OF wf ins len] extends_grown [OF wf ins] sat_grown
    by (auto simp: builds_def run_add_cell grown_def)
next
  case (Some b)
  then obtain s where s: "simplify k (map (const_of (cc_nets ctx)) ins) ins = Some s"
    by (auto simp: folded_value_def split: option.splits)
  have "cell_fn k (map v ins) = b" if v: "sat v ctx" for v
  proof -
    have "simpl_val v s = cell_fn k (map v ins)"
      using wf_ctx_sat_rails [OF wf v] const_of_known [OF v ins] len s by (rule simplify_correct)
    moreover have "simpl_val v s = b"
      using Some s simplify_nets [OF s len] ins const_ofD [OF v]
      by (cases s) (auto simp: folded_value_def)
    ultimately show ?thesis by simp
  qed
  with Some wf wf_ctx_rails [OF wf] wf_ctx_sat_rails [OF wf] show ?thesis
    by (auto simp: builds_def run_add_cell)
qed

subsection \<open>Rules for lists and loops\<close>

lemma builds_run:
  assumes "wf_ctx ctx'" "extends ctx ctx'" "builds ctx' m N Q"
  shows "builds ctx' m N (\<lambda>v r. P v \<longrightarrow> Q v r)"
  using assms by (auto simp: builds_def Let_def split: prod.splits)

lemma builds_post:
  assumes "builds ctx m N P" "\<And>v r k. N k r \<Longrightarrow> P v r \<Longrightarrow> Q v r"
  shows "builds ctx m N Q"
  using assms(1) by (rule builds_weaken) (auto intro: assms(2))

lemma builds_traverse:
  assumes f: "\<And>x ctx'. x \<in> set xs \<Longrightarrow> wf_ctx ctx' \<Longrightarrow> extends ctx ctx' \<Longrightarrow>
      builds ctx' (f x) N (\<lambda>v r. P v x r)"
    and mono: "\<And>k k' r. N k r \<Longrightarrow> k \<le> k' \<Longrightarrow> N k' r"
    and wf: "wf_ctx ctx"
  shows "builds ctx (traverse_list f xs)
    (\<lambda>k rs. length rs = length xs \<and> (\<forall>r \<in> set rs. N k r)) (\<lambda>v rs. list_all2 (P v) xs rs)"
  using f wf
proof (induction xs arbitrary: ctx)
  case Nil
  then show ?case by (auto intro: builds_return)
next
  case (Cons x xs)
  show ?case unfolding traverse_list.simps
  proof (rule builds_bind)
    show "builds ctx (f x) N (\<lambda>v r. P v x r)" using Cons.prems by simp
    fix r c1 assume 1: "wf_ctx c1" "extends ctx c1" "N (n_nets c1) r"
    have IH: "builds c1 (traverse_list f xs)
        (\<lambda>k rs. length rs = length xs \<and> (\<forall>r \<in> set rs. N k r)) (\<lambda>v rs. list_all2 (P v) xs rs)"
      using Cons.IH [of c1] Cons.prems(1) 1 extends_trans [OF 1(2)] by auto
    show "builds c1 (traverse_list f xs \<bind> (\<lambda>xs. State_Monad.return (r # xs)))
        (\<lambda>k rs. length rs = length (x # xs) \<and> (\<forall>r \<in> set rs. N k r))
        (\<lambda>v rs. P v x r \<longrightarrow> list_all2 (P v) (x # xs) rs)"
    proof (rule builds_bind [OF IH])
      fix rs c2
      assume 2: "wf_ctx c2" "extends c1 c2" "length rs = length xs \<and> (\<forall>r \<in> set rs. N (n_nets c2) r)"
      then show "builds c2 (State_Monad.return (r # rs))
          (\<lambda>k rs. length rs = length (x # xs) \<and> (\<forall>r \<in> set rs. N k r))
          (\<lambda>v s. list_all2 (P v) xs rs \<longrightarrow> P v x r \<longrightarrow> list_all2 (P v) (x # xs) s)"
        using mono [OF 1(3) extends_n_nets [OF 2(2)]] by (intro builds_return) auto
    qed
  qed
qed

text \<open>
  The loop rule: \<open>N\<close> is the range condition of the accumulator after \<open>i\<close> rounds,
  \<open>J v i\<close> the loop invariant in an assignment.
\<close>

lemma builds_foldM_from:
  assumes f: "\<And>j acc ctx'. j < length xs \<Longrightarrow> wf_ctx ctx' \<Longrightarrow> extends ctx ctx' \<Longrightarrow>
      N (n_nets ctx') (i + j) acc \<Longrightarrow>
      builds ctx' (f (xs ! j) acc) (\<lambda>k. N k (Suc (i + j))) (\<lambda>v acc'. J v (i + j) acc \<longrightarrow> J v (Suc (i + j)) acc')"
    and "wf_ctx ctx" "N (n_nets ctx) i acc"
  shows "builds ctx (foldM f xs acc) (\<lambda>k. N k (i + length xs)) (\<lambda>v acc'. J v i acc \<longrightarrow> J v (i + length xs) acc')"
  using assms
proof (induction xs arbitrary: i acc ctx)
  case Nil
  then show ?case by (auto intro: builds_return)
next
  case (Cons x xs)
  have hd: "builds ctx (f x acc) (\<lambda>k. N k (Suc i)) (\<lambda>v acc'. J v i acc \<longrightarrow> J v (Suc i) acc')"
    using Cons.prems(1) [of 0 ctx acc] Cons.prems(2,3) by simp
  show ?case unfolding foldM.simps
  proof (rule builds_bind [OF hd])
    fix acc' c1 assume 1: "wf_ctx c1" "extends ctx c1" "N (n_nets c1) (Suc i) acc'"
    have step: "builds c (f (xs ! j) a) (\<lambda>k. N k (Suc (Suc i + j)))
        (\<lambda>v acc'. J v (Suc i + j) a \<longrightarrow> J v (Suc (Suc i + j)) acc')"
      if "j < length xs" "wf_ctx c" "extends c1 c" "N (n_nets c) (Suc i + j) a" for j a c
      using Cons.prems(1) [of "Suc j" c a] that extends_trans [OF 1(2) that(3)] by simp
    have "builds c1 (foldM f xs acc') (\<lambda>k. N k (Suc i + length xs))
        (\<lambda>v acc''. J v (Suc i) acc' \<longrightarrow> J v (Suc i + length xs) acc'')"
      using step 1(1,3) by (rule Cons.IH)
    then show "builds c1 (foldM f xs acc') (\<lambda>k. N k (i + length (x # xs)))
        (\<lambda>v s. (J v i acc \<longrightarrow> J v (Suc i) acc') \<longrightarrow> J v i acc \<longrightarrow> J v (i + length (x # xs)) s)"
      by (rule builds_weaken) auto
  qed
qed

lemma builds_foldM:
  assumes "\<And>j acc ctx'. j < length xs \<Longrightarrow> wf_ctx ctx' \<Longrightarrow> extends ctx ctx' \<Longrightarrow>
      N (n_nets ctx') j acc \<Longrightarrow>
      builds ctx' (f (xs ! j) acc) (\<lambda>k. N k (Suc j)) (\<lambda>v acc'. J v j acc \<longrightarrow> J v (Suc j) acc')"
    and "wf_ctx ctx" "N (n_nets ctx) 0 acc"
  shows "builds ctx (foldM f xs acc) (\<lambda>k. N k (length xs)) (\<lambda>v acc'. J v 0 acc \<longrightarrow> J v (length xs) acc')"
  using builds_foldM_from [of xs ctx N 0 f J acc] assms by simp

text \<open>The same rule for a loop whose body is a \<open>Result\<close> that is always \<open>Ok\<close>.\<close>

lemma builds_foldM_try_from:
  fixes f :: "'x \<Rightarrow> 'a \<Rightarrow> (conv_ctx, 'e + 'a) state"
  assumes f: "\<And>j acc ctx'. j < length xs \<Longrightarrow> wf_ctx ctx' \<Longrightarrow> extends ctx ctx' \<Longrightarrow>
      N (n_nets ctx') (i + j) acc \<Longrightarrow>
      builds ctx' (f (xs ! j) acc) (\<lambda>k r. \<exists>x. r = Inr x \<and> N k (Suc (i + j)) x)
        (\<lambda>v r. \<forall>x. r = Inr x \<longrightarrow> J v (i + j) acc \<longrightarrow> J v (Suc (i + j)) x)"
    and "wf_ctx ctx" "N (n_nets ctx) i acc"
  shows "builds ctx (foldM_try f xs acc) (\<lambda>k r. \<exists>x. r = Inr x \<and> N k (i + length xs) x)
    (\<lambda>v r. \<forall>x. r = Inr x \<longrightarrow> J v i acc \<longrightarrow> J v (i + length xs) x)"
  using assms
proof (induction xs arbitrary: i acc ctx)
  case Nil
  then show ?case by (auto intro: builds_return)
next
  case (Cons x xs)
  have hd: "builds ctx (f x acc) (\<lambda>k r. \<exists>x. r = Inr x \<and> N k (Suc i) x)
      (\<lambda>v r. \<forall>x. r = Inr x \<longrightarrow> J v i acc \<longrightarrow> J v (Suc i) x)"
    using Cons.prems(1) [of 0 ctx acc] Cons.prems(2,3) by simp
  show ?case unfolding foldM_try.simps
  proof (rule builds_or_return [OF hd])
    fix acc' c1 assume 1: "wf_ctx c1" "extends ctx c1" "N (n_nets c1) (Suc i) acc'"
    have step: "builds c (f (xs ! j) a) (\<lambda>k r. \<exists>x. r = Inr x \<and> N k (Suc (Suc i + j)) x)
        (\<lambda>v r. \<forall>x. r = Inr x \<longrightarrow> J v (Suc i + j) a \<longrightarrow> J v (Suc (Suc i + j)) x)"
      if "j < length xs" "wf_ctx c" "extends c1 c" "N (n_nets c) (Suc i + j) a" for j a c
      using Cons.prems(1) [of "Suc j" c a] that extends_trans [OF 1(2) that(3)] by simp
    have "builds c1 (foldM_try f xs acc') (\<lambda>k r. \<exists>x. r = Inr x \<and> N k (Suc i + length xs) x)
        (\<lambda>v r. \<forall>x. r = Inr x \<longrightarrow> J v (Suc i) acc' \<longrightarrow> J v (Suc i + length xs) x)"
      using step 1(1,3) by (rule Cons.IH)
    then show "builds c1 (foldM_try f xs acc') (\<lambda>k r. \<exists>x'. r = Inr x' \<and> N k (i + length (x # xs)) x')
        (\<lambda>v s. (J v i acc \<longrightarrow> J v (Suc i) acc') \<longrightarrow>
           (\<forall>x'. s = Inr x' \<longrightarrow> J v i acc \<longrightarrow> J v (i + length (x # xs)) x'))"
      by (rule builds_weaken) auto
  qed
qed

lemma builds_foldM_try:
  fixes f :: "'x \<Rightarrow> 'a \<Rightarrow> (conv_ctx, 'e + 'a) state"
  assumes "\<And>j acc ctx'. j < length xs \<Longrightarrow> wf_ctx ctx' \<Longrightarrow> extends ctx ctx' \<Longrightarrow>
      N (n_nets ctx') j acc \<Longrightarrow>
      builds ctx' (f (xs ! j) acc) (\<lambda>k r. \<exists>x. r = Inr x \<and> N k (Suc j) x)
        (\<lambda>v r. \<forall>x. r = Inr x \<longrightarrow> J v j acc \<longrightarrow> J v (Suc j) x)"
    and "wf_ctx ctx" "N (n_nets ctx) 0 acc"
  shows "builds ctx (foldM_try f xs acc) (\<lambda>k r. \<exists>x. r = Inr x \<and> N k (length xs) x)
    (\<lambda>v r. \<forall>x. r = Inr x \<longrightarrow> J v 0 acc \<longrightarrow> J v (length xs) x)"
  using builds_foldM_try_from [of xs ctx N 0 f J acc] assms by simp

lemma builds_fact:
  assumes "builds ctx m N P" "\<And>r ctx'. run_state m ctx = (r, ctx') \<Longrightarrow> F r"
  shows "builds ctx m (\<lambda>k r. N k r \<and> F r) P"
  using assms by (auto simp: builds_def Let_def split: prod.splits)

subsection \<open>Reading a description off\<close>

lemma builds_run_result:
  assumes "builds ctx m N P"
  shows "\<exists>r ctx'. run_state m ctx = (r, ctx') \<and> wf_ctx ctx' \<and> extends ctx ctx' \<and> N (n_nets ctx') r
    \<and> (\<forall>v. sat v ctx' \<longrightarrow> P v r)"
  using assms by (auto elim!: buildsE)

lemma builds_run_ok:
  assumes "builds ctx m (\<lambda>k r. \<exists>s. r = Inr s \<and> N k s) (\<lambda>v r. \<forall>s. r = Inr s \<longrightarrow> P v s)"
  shows "\<exists>s ctx'. run_state m ctx = (Inr s, ctx') \<and> wf_ctx ctx' \<and> extends ctx ctx' \<and> N (n_nets ctx') s
    \<and> (\<forall>v. sat v ctx' \<longrightarrow> P v s)"
  using assms by (auto elim!: buildsE)

text \<open>
  A context whose module has \<open>k\<close> one-bit inputs, on the nets \<open>2, \<dots>, k + 1\<close>: what the
  port allocation leaves. The witnesses run the emitters from it.
\<close>

definition inputs_ctx :: "nat \<Rightarrow> conv_ctx" where
  "inputs_ctx k = new_ctx\<lparr>cc_nets := cc_nets new_ctx @ replicate k \<lparr>driver = PortInput, origin = None\<rparr>\<rparr>"

lemma n_nets_inputs [simp]: "n_nets (inputs_ctx k) = k + 2"
  by (simp add: inputs_ctx_def new_ctx_def)

lemma wf_inputs_ctx [simp]: "wf_ctx (inputs_ctx k)"
proof -
  have "driver (cc_nets (inputs_ctx k) ! n) \<noteq> DCell i" if "n < k + 2" for n i
    using that by (auto simp: inputs_ctx_def new_ctx_def nth_append nth_Cons' split: if_splits)
  then show ?thesis
    by (auto simp: wf_ctx_def inputs_ctx_def new_ctx_def rails)
qed


subsection \<open>Properties\<close>

text \<open>
  C7: emitting a cell of any kind over nets of the netlist yields a net that carries the
  cell's function of its inputs in every assignment that respects the new netlist (whether
  a cell was emitted or the value was folded to a rail), keeps the netlist well formed, and
  extends it conservatively: no assignment of the old netlist is lost or changed.
\<close>

theorem add_cell_correct:
  assumes "wf_ctx ctx" "\<forall>n \<in> set ins. n < n_nets ctx" "length ins = arity k"
  shows "\<exists>n ctx'. run_state (add_cell k ins) ctx = (n, ctx') \<and> wf_ctx ctx' \<and> extends ctx ctx' \<and>
    n < n_nets ctx' \<and> (\<forall>v. sat v ctx' \<longrightarrow> v n = cell_fn k (map v ins))"
  using add_cell_builds [OF assms] by (rule builds_run_result)

lemma add_cell_correct_witness:
  "\<exists>n ctx'. run_state (add_cell Mux2 [2, 3, 4]) (inputs_ctx 3) = (n, ctx') \<and> wf_ctx ctx' \<and>
     (\<forall>v. sat v ctx' \<longrightarrow> v n = (if v 2 then v 4 else v 3))"
  using add_cell_correct [of "inputs_ctx 3" "[2, 3, 4]" Mux2] by (auto split: if_splits)

end
