(* ===== verification/Reduce.thy ===== *)
theory Reduce
  imports Conv_Context "HOL-Library.Word"
begin

section \<open>Reductions and small emitters (\<open>conv/expression.rs\<close>, \<open>conv/statement.rs\<close>)\<close>

text \<open>
  The balanced reduction trees, the one-hot check and the constant-folding connectives.
  A reduction is correct because its gate is a monoid operation; the locale
  \<open>gate_monoid\<close> states that interface, the reduction's correctness is proved once
  inside it, and it is interpreted for the three gates the code reduces with.
\<close>

subsection \<open>Emitters\<close>

definition reduce_pair :: "cell_kind \<Rightarrow> net_id list \<Rightarrow> (conv_ctx, net_id) state" where
  "reduce_pair k c = (if length c = 2 then add_cell k [c ! 0, c ! 1] else State_Monad.return (c ! 0))"

lemma length_traverse [simp]: "length (fst (run_state (traverse_list f xs) s)) = length xs"
proof (induction xs arbitrary: s)
  case (Cons x xs)
  show ?case using Cons [of "snd (run_state (f x) s)"]
    by (simp add: case_prod_beta)
qed simp

lemma length_traverse_run: "run_state (traverse_list f xs) s = (ys, s') \<Longrightarrow> length ys = length xs"
  using length_traverse [of f xs s] by simp

text \<open>The loop \<open>while level.len() > 1\<close>: each round halves the level.\<close>

function reduce_loop :: "cell_kind \<Rightarrow> net_id list \<Rightarrow> conv_ctx \<Rightarrow> net_id \<times> conv_ctx" where
  "reduce_loop k level ctx =
     (if length level > 1
      then case run_state (traverse_list (reduce_pair k) (chunks2 level)) ctx of
             (nxt, ctx') \<Rightarrow> reduce_loop k nxt ctx'
      else (level ! 0, ctx))"
  by pat_completeness auto
termination
proof (relation "measure (\<lambda>(k, level, ctx). length level)")
  fix k :: cell_kind and level nxt :: "net_id list" and ctx ctx' :: conv_ctx
  assume "1 < length level" and "(nxt, ctx') = run_state (traverse_list (reduce_pair k) (chunks2 level)) ctx"
  then have "length nxt = (length level + 1) div 2"
    by (metis length_traverse_run length_chunks2)
  with \<open>1 < length level\<close>
  show "((k, nxt, ctx'), k, level, ctx) \<in> measure (\<lambda>(k, level, ctx). length level)" by simp
qed simp

declare reduce_loop.simps [simp del]

definition reduce :: "net_id list \<Rightarrow> cell_kind \<Rightarrow> net_id \<Rightarrow> (conv_ctx, net_id) state" where
  "reduce bits k ident =
     (if bits = [] then State_Monad.return ident
      else if length bits = 1 then State_Monad.return (bits ! 0)
      else State (reduce_loop k bits))"

definition reduce_and :: "net_id list \<Rightarrow> (conv_ctx, net_id) state" where
  "reduce_and bits = reduce bits And2 NET_CONST1"

definition reduce_or :: "net_id list \<Rightarrow> (conv_ctx, net_id) state" where
  "reduce_or bits = reduce bits Or2 NET_CONST0"

definition reduce_xor :: "net_id list \<Rightarrow> (conv_ctx, net_id) state" where
  "reduce_xor bits = reduce bits Xor2 NET_CONST0"

definition onehot_step :: "net_id \<Rightarrow> net_id \<times> net_id \<Rightarrow> (conv_ctx, net_id \<times> net_id) state" where
  "onehot_step b st = (case st of (any, mor) \<Rightarrow> do {
     both \<leftarrow> add_cell And2 [any, b];
     mor' \<leftarrow> add_cell Or2 [mor, both];
     any' \<leftarrow> add_cell Or2 [any, b];
     State_Monad.return (any', mor')
   })"

definition onehot_reduce :: "net_id list \<Rightarrow> (conv_ctx, net_id) state" where
  "onehot_reduce bits =
     (if bits = [] then State_Monad.return NET_CONST0
      else do {
        (any, mor) \<leftarrow> foldM onehot_step (tl bits) (hd bits, NET_CONST0);
        not_more \<leftarrow> add_cell Not1 [mor];
        add_cell And2 [any, not_more]
      })"

definition and_nets :: "net_id \<Rightarrow> net_id \<Rightarrow> (conv_ctx, net_id) state" where
  "and_nets a b =
     (if a = NET_CONST0 \<or> b = NET_CONST0 then State_Monad.return NET_CONST0
      else if a = NET_CONST1 then State_Monad.return b
      else if b = NET_CONST1 then State_Monad.return a
      else add_cell And2 [a, b])"

definition or_nets :: "net_id \<Rightarrow> net_id \<Rightarrow> (conv_ctx, net_id) state" where
  "or_nets a b =
     (if a = NET_CONST1 \<or> b = NET_CONST1 then State_Monad.return NET_CONST1
      else if a = NET_CONST0 then State_Monad.return b
      else if b = NET_CONST0 then State_Monad.return a
      else add_cell Or2 [a, b])"

datatype cond_term = Pos net_id | Neg net_id

definition cond_net :: "cond_term \<Rightarrow> (conv_ctx, net_id) state" where
  "cond_net t = (case t of
      Pos n \<Rightarrow> State_Monad.return n
    | Neg n \<Rightarrow>
        (if n = NET_CONST1 then State_Monad.return NET_CONST0
         else if n = NET_CONST0 then State_Monad.return NET_CONST1
         else add_cell Not1 [n]))"

definition current_write_enable :: "cond_term list \<Rightarrow> (conv_ctx, net_id) state" where
  "current_write_enable terms =
     foldM (\<lambda>t acc. do { n \<leftarrow> cond_net t; and_nets acc n }) terms NET_CONST1"

definition resize :: "net_id list \<Rightarrow> nat \<Rightarrow> bool \<Rightarrow> net_id list" where
  "resize nets target sgnd =
     (if length nets = target then nets
      else if length nets > target then take target nets
      else
        let pad = (if sgnd \<and> nets \<noteq> [] then last nets else NET_CONST0)
        in nets @ replicate (target - length nets) pad)"

definition build_constant :: "64 word \<Rightarrow> nat \<Rightarrow> net_id list" where
  "build_constant value width =
     map (\<lambda>i. if i < 64 \<and> bit value i then NET_CONST1 else NET_CONST0) [0..<width]"

subsection \<open>The interface of a reduction gate\<close>

locale gate_monoid =
  fixes k :: cell_kind and oper :: "bool \<Rightarrow> bool \<Rightarrow> bool" and unit :: bool
  assumes binary: "arity k = 2"
    and gate: "cell_fn k [a, b] = oper a b"
    and assoc: "oper (oper a b) c = oper a (oper b c)"
    and unit_left: "oper unit a = a"
    and unit_right: "oper a unit = a"
begin

lemma foldr_unit: "foldr oper xs z = oper (foldr oper xs unit) z"
  by (induction xs) (auto simp: unit_left assoc)

lemma foldr_concat: "foldr oper (concat xss) unit = foldr oper (map (\<lambda>xs. foldr oper xs unit) xss) unit"
  by (induction xss) (simp_all add: foldr_unit [of _ "foldr oper _ _"])

lemma reduce_pair_builds:
  assumes "wf_ctx ctx" "length c = 1 \<or> length c = 2" "\<forall>n \<in> set c. n < n_nets ctx"
  shows "builds ctx (reduce_pair k c) (\<lambda>m n. n < m) (\<lambda>v n. v n = foldr oper (map v c) unit)"
proof (cases "length c = 2")
  case True
  then obtain a b where c: "c = [a, b]" by (metis length_2_conv)
  have "builds ctx (add_cell k [a, b]) (\<lambda>m n. n < m) (\<lambda>v n. v n = cell_fn k (map v [a, b]))"
    using assms by (intro add_cell_builds) (auto simp: c binary)
  then show ?thesis by (simp add: reduce_pair_def c gate unit_right)
next
  case False
  with assms(2) obtain a where "c = [a]" by (metis length_1_conv)
  with assms show ?thesis by (simp add: reduce_pair_def unit_right builds_return)
qed

lemma reduce_level_builds:
  assumes "wf_ctx ctx" "\<forall>n \<in> set level. n < n_nets ctx"
  shows "builds ctx (traverse_list (reduce_pair k) (chunks2 level))
    (\<lambda>m ns. length ns = length (chunks2 level) \<and> (\<forall>n \<in> set ns. n < m))
    (\<lambda>v ns. foldr oper (map v ns) unit = foldr oper (map v level) unit)"
proof -
  have "builds ctx (traverse_list (reduce_pair k) (chunks2 level))
     (\<lambda>m ns. length ns = length (chunks2 level) \<and> (\<forall>n \<in> set ns. n < m))
     (\<lambda>v ns. list_all2 (\<lambda>c n. v n = foldr oper (map v c) unit) (chunks2 level) ns)"
  proof (rule builds_traverse)
    fix c ctx' assume c: "c \<in> set (chunks2 level)" and e: "wf_ctx ctx'" "extends ctx ctx'"
    then show "builds ctx' (reduce_pair k c) (\<lambda>m n. n < m) (\<lambda>v n. v n = foldr oper (map v c) unit)"
      using assms chunks2_elem [OF c] extends_n_nets [OF e(2)]
      by (intro reduce_pair_builds) (auto intro: less_le_trans)
  qed (use assms in auto)
  then show ?thesis
  proof (rule builds_post)
    fix v ns assume "list_all2 (\<lambda>c n. v n = foldr oper (map v c) unit) (chunks2 level) ns"
    then have "map v ns = map (\<lambda>c. foldr oper (map v c) unit) (chunks2 level)"
      by (auto simp: list_all2_conv_all_nth list_eq_iff_nth_eq)
    then have "foldr oper (map v ns) unit = foldr oper (concat (map (map v) (chunks2 level))) unit"
      by (simp add: foldr_concat comp_def)
    also have "concat (map (map v) (chunks2 level)) = map v level"
      by (metis concat_chunks2 map_concat)
    finally show "foldr oper (map v ns) unit = foldr oper (map v level) unit" .
  qed
qed

lemma reduce_loop_builds:
  assumes "wf_ctx ctx" "level \<noteq> []" "\<forall>n \<in> set level. n < n_nets ctx"
  shows "builds ctx (State (reduce_loop k level)) (\<lambda>m n. n < m) (\<lambda>v n. v n = foldr oper (map v level) unit)"
  using assms
proof (induction "length level" arbitrary: level ctx rule: less_induct)
  case less
  show ?case
  proof (cases "length level > 1")
    case False
    with less.prems obtain a where "level = [a]" by (cases level) auto
    with less.prems show ?thesis by (simp add: builds_def reduce_loop.simps unit_right)
  next
    case True
    have eq: "State (reduce_loop k level) =
        (traverse_list (reduce_pair k) (chunks2 level)) \<bind> (\<lambda>nxt. State (reduce_loop k nxt))"
      using True by (intro state_ext) (simp add: reduce_loop.simps [of k level])
    show ?thesis unfolding eq
    proof (rule builds_bind [OF reduce_level_builds [OF less.prems(1,3)]])
      fix nxt ctx'
      assume 1: "wf_ctx ctx'" "extends ctx ctx'"
        "length nxt = length (chunks2 level) \<and> (\<forall>n \<in> set nxt. n < n_nets ctx')"
      then have "length nxt < length level" "nxt \<noteq> []" using True by (auto simp: length_chunks2)
      with 1 have "builds ctx' (State (reduce_loop k nxt)) (\<lambda>m n. n < m)
          (\<lambda>v n. v n = foldr oper (map v nxt) unit)" by (intro less.hyps) auto
      then show "builds ctx' (State (reduce_loop k nxt)) (\<lambda>m n. n < m)
          (\<lambda>v s. foldr oper (map v nxt) unit = foldr oper (map v level) unit \<longrightarrow>
             v s = foldr oper (map v level) unit)"
        by (rule builds_post) auto
    qed
  qed
qed

lemma reduce_builds:
  assumes "wf_ctx ctx" "\<forall>n \<in> set bits. n < n_nets ctx" "ident < n_nets ctx"
    and "\<And>v. rails_ok v \<Longrightarrow> v ident = unit"
  shows "builds ctx (reduce bits k ident) (\<lambda>m n. n < m) (\<lambda>v n. v n = foldr oper (map v bits) unit)"
proof (cases "length bits \<le> 1")
  case True
  then consider "bits = []" | a where "bits = [a]" by (cases bits) auto
  then show ?thesis
    using assms wf_ctx_sat_rails [OF assms(1)]
    by cases (auto simp: reduce_def unit_right builds_return)
next
  case False
  then have "bits \<noteq> []" by auto
  with False assms show ?thesis by (simp add: reduce_def reduce_loop_builds)
qed

end

interpretation and_gate: gate_monoid And2 "(\<and>)" True
  by unfold_locales auto

interpretation or_gate: gate_monoid Or2 "(\<or>)" False
  by unfold_locales auto

interpretation xor_gate: gate_monoid Xor2 "(\<noteq>)" False
  by unfold_locales auto

lemma foldr_and: "foldr (\<and>) bs True = (\<forall>b \<in> set bs. b)"
  by (induction bs) auto

lemma foldr_or: "foldr (\<or>) bs False = (\<exists>b \<in> set bs. b)"
  by (induction bs) auto

lemma foldr_xor: "foldr (\<noteq>) bs False = odd (length (filter id bs))"
  by (induction bs) auto

lemma reduce_and_builds [gate_rules]:
  assumes "wf_ctx ctx" "\<forall>n \<in> set bits. n < n_nets ctx"
  shows "builds ctx (reduce_and bits) (\<lambda>m n. n < m) (\<lambda>v n. v n = (\<forall>i \<in> set bits. v i))"
  using and_gate.reduce_builds [OF assms, of NET_CONST1] wf_ctx_rails [OF assms(1)]
  by (simp add: reduce_and_def foldr_and)

lemma reduce_or_builds [gate_rules]:
  assumes "wf_ctx ctx" "\<forall>n \<in> set bits. n < n_nets ctx"
  shows "builds ctx (reduce_or bits) (\<lambda>m n. n < m) (\<lambda>v n. v n = (\<exists>i \<in> set bits. v i))"
  using or_gate.reduce_builds [OF assms, of NET_CONST0] wf_ctx_rails [OF assms(1)]
  by (simp add: reduce_or_def foldr_or)

lemma reduce_xor_builds [gate_rules]:
  assumes "wf_ctx ctx" "\<forall>n \<in> set bits. n < n_nets ctx"
  shows "builds ctx (reduce_xor bits) (\<lambda>m n. n < m)
    (\<lambda>v n. v n = odd (length (filter v bits)))"
  using xor_gate.reduce_builds [OF assms, of NET_CONST0] wf_ctx_rails [OF assms(1)]
  unfolding reduce_xor_def foldr_xor by (simp add: filter_map comp_def)

subsection \<open>The other emitters\<close>

lemma cell_1_builds:
  assumes "wf_ctx ctx" "a < n_nets ctx" "arity k = 1"
  shows "builds ctx (add_cell k [a]) (\<lambda>m n. n < m) (\<lambda>v n. v n = cell_fn k [v a])"
  using add_cell_builds [OF assms(1), of "[a]" k] assms by simp

lemma cell_2_builds:
  assumes "wf_ctx ctx" "a < n_nets ctx" "b < n_nets ctx" "arity k = 2"
  shows "builds ctx (add_cell k [a, b]) (\<lambda>m n. n < m) (\<lambda>v n. v n = cell_fn k [v a, v b])"
  using add_cell_builds [OF assms(1), of "[a, b]" k] assms by simp

lemma cell_3_builds:
  assumes "wf_ctx ctx" "a < n_nets ctx" "b < n_nets ctx" "c < n_nets ctx" "arity k = 3"
  shows "builds ctx (add_cell k [a, b, c]) (\<lambda>m n. n < m) (\<lambda>v n. v n = cell_fn k [v a, v b, v c])"
  using add_cell_builds [OF assms(1), of "[a, b, c]" k] assms by simp

lemmas cell_builds = cell_1_builds cell_2_builds cell_3_builds

lemma in_range_mono: "n < n_nets a \<Longrightarrow> extends a b \<Longrightarrow> n < n_nets b"
  by (meson extends_n_nets less_le_trans)

lemma nets_range_mono:
  "\<forall>n \<in> set ns. n < n_nets a \<Longrightarrow> extends a b \<Longrightarrow> \<forall>n \<in> set ns. n < n_nets b"
  by (meson in_range_mono)

text \<open>
  The same rules in front of a continuation: they hand over the size of the context, so
  that range conditions are linear arithmetic.
\<close>

lemma bind_cell_1:
  assumes "wf_ctx ctx" "a < n_nets ctx" "arity k = 1"
    and "\<And>n ctx'. wf_ctx ctx' \<Longrightarrow> extends ctx ctx' \<Longrightarrow> n_nets ctx \<le> n_nets ctx' \<Longrightarrow> n < n_nets ctx' \<Longrightarrow>
      builds ctx' (f n) N (\<lambda>v s. v n = cell_fn k [v a] \<longrightarrow> Q v s)"
  shows "builds ctx (add_cell k [a] \<bind> f) N Q"
  using assms extends_n_nets by (intro builds_bind [OF cell_1_builds]) auto

lemma bind_cell_2:
  assumes "wf_ctx ctx" "a < n_nets ctx" "b < n_nets ctx" "arity k = 2"
    and "\<And>n ctx'. wf_ctx ctx' \<Longrightarrow> extends ctx ctx' \<Longrightarrow> n_nets ctx \<le> n_nets ctx' \<Longrightarrow> n < n_nets ctx' \<Longrightarrow>
      builds ctx' (f n) N (\<lambda>v s. v n = cell_fn k [v a, v b] \<longrightarrow> Q v s)"
  shows "builds ctx (add_cell k [a, b] \<bind> f) N Q"
  using assms extends_n_nets by (intro builds_bind [OF cell_2_builds]) auto

lemma bind_cell_3:
  assumes "wf_ctx ctx" "a < n_nets ctx" "b < n_nets ctx" "c < n_nets ctx" "arity k = 3"
    and "\<And>n ctx'. wf_ctx ctx' \<Longrightarrow> extends ctx ctx' \<Longrightarrow> n_nets ctx \<le> n_nets ctx' \<Longrightarrow> n < n_nets ctx' \<Longrightarrow>
      builds ctx' (f n) N (\<lambda>v s. v n = cell_fn k [v a, v b, v c] \<longrightarrow> Q v s)"
  shows "builds ctx (add_cell k [a, b, c] \<bind> f) N Q"
  using assms extends_n_nets by (intro builds_bind [OF cell_3_builds]) auto

lemmas bind_cells = bind_cell_1 bind_cell_2 bind_cell_3

text \<open>A last cell, whose output is the result.\<close>

lemma final_cell_1:
  assumes "wf_ctx ctx" "a < n_nets ctx" "arity k = 1"
    and "\<And>v n. rails_ok v \<Longrightarrow> v n = cell_fn k [v a] \<Longrightarrow> Q v n"
  shows "builds ctx (add_cell k [a]) (\<lambda>m n. n < m) Q"
proof -
  have "builds ctx (add_cell k [a]) (\<lambda>m n. n < m) (\<lambda>v n. v n = cell_fn k [v a])"
    using assms by (intro cell_1_builds)
  then show ?thesis by (rule builds_post_rails) (use assms(4) in auto)
qed

lemma final_cell_2:
  assumes "wf_ctx ctx" "a < n_nets ctx" "b < n_nets ctx" "arity k = 2"
    and "\<And>v n. rails_ok v \<Longrightarrow> v n = cell_fn k [v a, v b] \<Longrightarrow> Q v n"
  shows "builds ctx (add_cell k [a, b]) (\<lambda>m n. n < m) Q"
proof -
  have "builds ctx (add_cell k [a, b]) (\<lambda>m n. n < m) (\<lambda>v n. v n = cell_fn k [v a, v b])"
    using assms by (intro cell_2_builds)
  then show ?thesis by (rule builds_post_rails) (use assms(5) in auto)
qed

lemma final_return:
  assumes "wf_ctx ctx" "N (n_nets ctx) x" "\<And>v. rails_ok v \<Longrightarrow> P v x"
  shows "builds ctx (State_Monad.return x) N P"
  using assms wf_ctx_sat_rails by (intro builds_return) auto

lemma onehot_step_builds:
  assumes "wf_ctx ctx" "b < n_nets ctx" "any < n_nets ctx" "m < n_nets ctx"
  shows "builds ctx (onehot_step b (any, m))
    (\<lambda>k r. fst r < k \<and> snd r < k)
    (\<lambda>v r. v (fst r) = (v any \<or> v b) \<and> v (snd r) = (v m \<or> v any \<and> v b))"
  unfolding onehot_step_def prod.case using assms
  by (intro bind_cells final_return) auto

definition at_most_one :: "bool list \<Rightarrow> bool" where
  "at_most_one bs \<longleftrightarrow> length (filter id bs) \<le> 1"

lemma onehot_reduce_builds:
  assumes "wf_ctx ctx" "\<forall>n \<in> set bits. n < n_nets ctx"
  shows "builds ctx (onehot_reduce bits) (\<lambda>m n. n < m) (\<lambda>v n. v n = (length (filter v bits) = 1))"
proof (cases bits)
  case Nil
  with assms wf_ctx_rails [OF assms(1)] show ?thesis
    by (simp add: onehot_reduce_def final_return)
next
  case (Cons b bs)
  let ?J = "\<lambda>v j r. v (fst r) = (length (filter v (b # take j bs)) \<ge> 1)
     \<and> v (snd r) = (length (filter v (b # take j bs)) \<ge> 2)"
  have loop: "builds ctx (foldM onehot_step bs (b, NET_CONST0)) (\<lambda>k r. fst r < k \<and> snd r < k)
     (\<lambda>v r. ?J v 0 (b, NET_CONST0) \<longrightarrow> ?J v (length bs) r)"
  proof (rule builds_foldM [where N = "\<lambda>k _ r. fst r < k \<and> snd r < k" and J = ?J])
    fix j and acc :: "net_id \<times> net_id" and ctx'
    assume j: "j < length bs" and e: "wf_ctx ctx'" "extends ctx ctx'"
      "fst acc < n_nets ctx' \<and> snd acc < n_nets ctx'"
    have "bs ! j < n_nets ctx'"
      using assms(2) Cons j extends_n_nets [OF e(2)] by (auto intro: less_le_trans)
    with e have "builds ctx' (onehot_step (bs ! j) (fst acc, snd acc)) (\<lambda>k r. fst r < k \<and> snd r < k)
      (\<lambda>v r. v (fst r) = (v (fst acc) \<or> v (bs ! j)) \<and> v (snd r) = (v (snd acc) \<or> v (fst acc) \<and> v (bs ! j)))"
      by (intro onehot_step_builds) auto
    then show "builds ctx' (onehot_step (bs ! j) acc) (\<lambda>k r. fst r < k \<and> snd r < k)
      (\<lambda>v r. ?J v j acc \<longrightarrow> ?J v (Suc j) r)"
      by (simp only: prod.collapse, elim builds_post) (use j in \<open>auto simp: take_Suc_conv_app_nth\<close>)
  qed (use assms Cons wf_ctx_rails [OF assms(1)] in auto)
  show ?thesis unfolding onehot_reduce_def Cons using Cons
    apply simp
    apply (rule builds_bind [OF loop])
    apply (clarsimp simp: case_prod_beta)
    apply (intro bind_cell_1 final_cell_2)
    apply (auto simp: length_0_conv [symmetric] simp del: length_0_conv)
    done
qed

lemma and_nets_builds [gate_rules]:
  assumes "wf_ctx ctx" "a < n_nets ctx" "b < n_nets ctx"
  shows "builds ctx (and_nets a b) (\<lambda>m n. n < m) (\<lambda>v n. v n = (v a \<and> v b))"
  using assms wf_ctx_rails [OF assms(1)]
  by (auto simp: and_nets_def intro!: final_return final_cell_2)

lemma or_nets_builds [gate_rules]:
  assumes "wf_ctx ctx" "a < n_nets ctx" "b < n_nets ctx"
  shows "builds ctx (or_nets a b) (\<lambda>m n. n < m) (\<lambda>v n. v n = (v a \<or> v b))"
  using assms wf_ctx_rails [OF assms(1)]
  by (auto simp: or_nets_def intro!: final_return final_cell_2)

fun cond_val :: "(net_id \<Rightarrow> bool) \<Rightarrow> cond_term \<Rightarrow> bool" where
  "cond_val v (Pos n) = v n"
| "cond_val v (Neg n) = (\<not> v n)"

fun cond_ref :: "cond_term \<Rightarrow> net_id" where
  "cond_ref (Pos n) = n"
| "cond_ref (Neg n) = n"

lemma cond_net_builds:
  assumes "wf_ctx ctx" "cond_ref t < n_nets ctx"
  shows "builds ctx (cond_net t) (\<lambda>m n. n < m) (\<lambda>v n. v n = cond_val v t)"
  using assms wf_ctx_rails [OF assms(1)]
  by (cases t) (auto simp: cond_net_def intro!: final_return final_cell_1)

lemma current_write_enable_builds:
  assumes "wf_ctx ctx" "\<forall>t \<in> set terms. cond_ref t < n_nets ctx"
  shows "builds ctx (current_write_enable terms) (\<lambda>m n. n < m)
    (\<lambda>v n. v n = (\<forall>t \<in> set terms. cond_val v t))"
proof -
  let ?J = "\<lambda>v j n. v n = (\<forall>t \<in> set (take j terms). cond_val v t)"
  have "builds ctx (current_write_enable terms) (\<lambda>m n. n < m)
    (\<lambda>v n. ?J v 0 NET_CONST1 \<longrightarrow> ?J v (length terms) n)"
    unfolding current_write_enable_def
  proof (rule builds_foldM [where N = "\<lambda>k _ n. n < k" and J = ?J])
    fix j acc ctx'
    assume j: "j < length terms" and e: "wf_ctx ctx'" "extends ctx ctx'" "acc < n_nets ctx'"
    have ref: "cond_ref (terms ! j) < n_nets ctx'"
      using assms(2) j extends_n_nets [OF e(2)] by (auto intro: less_le_trans)
    show "builds ctx' (cond_net (terms ! j) \<bind> and_nets acc) (\<lambda>m n. n < m)
      (\<lambda>v n. ?J v j acc \<longrightarrow> ?J v (Suc j) n)"
    proof (rule builds_bind [OF cond_net_builds [OF e(1) ref]])
      fix n c assume c: "wf_ctx c" "extends ctx' c" "n < n_nets c"
      with e(3) have "builds c (and_nets acc n) (\<lambda>m n. n < m) (\<lambda>v r. v r = (v acc \<and> v n))"
        by (intro and_nets_builds) (auto intro: in_range_mono)
      then show "builds c (and_nets acc n) (\<lambda>m n. n < m)
          (\<lambda>v s. v n = cond_val v (terms ! j) \<longrightarrow> ?J v j acc \<longrightarrow> ?J v (Suc j) s)"
        by (rule builds_post) (use j in \<open>auto simp: take_Suc_conv_app_nth\<close>)
    qed
  qed (use assms wf_ctx_rails [OF assms(1)] in auto)
  then show ?thesis by (rule builds_post_rails) auto
qed


subsection \<open>Properties\<close>

text \<open>
  The balanced reduction trees of any number of nets compute conjunction, disjunction
  and parity (the empty reduction is the unit), keep the netlist well formed, and only
  extend it conservatively.
\<close>

theorem reduce_trees_correct:
  assumes "wf_ctx ctx" "\<forall>n \<in> set bits. n < n_nets ctx"
  shows "(\<exists>n ctx'. run_state (reduce_and bits) ctx = (n, ctx') \<and> wf_ctx ctx' \<and> extends ctx ctx' \<and> n < n_nets ctx' \<and>
      (\<forall>v. sat v ctx' \<longrightarrow> v n = (\<forall>i \<in> set bits. v i)))
    \<and> (\<exists>n ctx'. run_state (reduce_or bits) ctx = (n, ctx') \<and> wf_ctx ctx' \<and> extends ctx ctx' \<and> n < n_nets ctx' \<and>
      (\<forall>v. sat v ctx' \<longrightarrow> v n = (\<exists>i \<in> set bits. v i)))
    \<and> (\<exists>n ctx'. run_state (reduce_xor bits) ctx = (n, ctx') \<and> wf_ctx ctx' \<and> extends ctx ctx' \<and> n < n_nets ctx' \<and>
      (\<forall>v. sat v ctx' \<longrightarrow> v n = odd (length (filter v bits))))"
  by (intro conjI builds_run_result reduce_and_builds reduce_or_builds reduce_xor_builds assms)

lemma reduce_trees_correct_witness:
  "\<exists>n ctx'. run_state (reduce_xor [2, 3, 4, 5, 6]) (inputs_ctx 5) = (n, ctx') \<and>
     (\<forall>v. sat v ctx' \<longrightarrow> v n = odd (length (filter v [2, 3, 4, 5, 6])))"
proof -
  have "\<forall>n \<in> set [2, 3, 4, 5, 6]. n < n_nets (inputs_ctx 5)" by simp
  from reduce_trees_correct [OF wf_inputs_ctx this] show ?thesis by (elim exE conjE, intro exI conjI)
qed

text \<open>
  The one-hot check of a vector is true exactly when one of its nets is.
\<close>

theorem onehot_reduce_correct:
  assumes "wf_ctx ctx" "\<forall>n \<in> set bits. n < n_nets ctx"
  shows "\<exists>n ctx'. run_state (onehot_reduce bits) ctx = (n, ctx') \<and> wf_ctx ctx' \<and> extends ctx ctx' \<and>
    n < n_nets ctx' \<and> (\<forall>v. sat v ctx' \<longrightarrow> v n = (length (filter v bits) = 1))"
  using onehot_reduce_builds [OF assms] by (rule builds_run_result)

lemma onehot_reduce_correct_witness:
  "\<exists>n ctx'. run_state (onehot_reduce [2, 3, 4]) (inputs_ctx 3) = (n, ctx') \<and>
     (\<forall>v. sat v ctx' \<longrightarrow> v n = (length (filter v [2, 3, 4]) = 1))"
proof -
  have "\<forall>n \<in> set [2, 3, 4]. n < n_nets (inputs_ctx 3)" by simp
  from onehot_reduce_correct [OF wf_inputs_ctx this] show ?thesis by (elim exE conjE, intro exI conjI)
qed

text \<open>
  the write enable of a RAM write is the conjunction of the conditions on the stack,
  each with its polarity, whatever the constant folding does.
\<close>

theorem current_write_enable_correct:
  assumes "wf_ctx ctx" "\<forall>t \<in> set terms. cond_ref t < n_nets ctx"
  shows "\<exists>n ctx'. run_state (current_write_enable terms) ctx = (n, ctx') \<and> wf_ctx ctx' \<and> extends ctx ctx' \<and>
    n < n_nets ctx' \<and> (\<forall>v. sat v ctx' \<longrightarrow> v n = (\<forall>t \<in> set terms. cond_val v t))"
  using current_write_enable_builds [OF assms] by (rule builds_run_result)

lemma current_write_enable_correct_witness:
  "\<exists>n ctx'. run_state (current_write_enable [Pos 2, Neg 3, Neg NET_CONST0]) (inputs_ctx 2) = (n, ctx') \<and>
     (\<forall>v. sat v ctx' \<longrightarrow> v n = (v 2 \<and> \<not> v 3 \<and> \<not> v NET_CONST0))"
  using current_write_enable_correct [of "inputs_ctx 2" "[Pos 2, Neg 3, Neg NET_CONST0]"]
  by (auto simp: rails)

end
