(* ===== verification/Arith.thy ===== *)
theory Arith
  imports Reduce
begin

section \<open>Adders, subtraction and comparison (\<open>conv/arith.rs\<close>)\<close>

text \<open>
  The first half of \<open>crates/synthesizer/src/conv/arith.rs\<close>. Operands are little-endian
  vectors of nets. An error is a value of \<open>synth_error\<close> (the variants of
  \<open>SynthesizerError\<close> without their source locations); a function that returns a
  \<open>Result\<close> is a computation of a sum. An adder is anything that satisfies the locale
  \<open>adder\<close>; the ripple-carry adder, the Kogge-Stone adder and the dispatch between them
  are interpretations of it, and subtraction and conditional negation are its clients.
\<close>

datatype synth_error =
    TopModuleNotFound string
  | Unsupported string
  | UnknownWidth string
  | DynamicSelect string
  | Internal string

datatype op =
    Pow | Div | Rem | Mul | Add | Sub
  | ArithShiftL | ArithShiftR | LogicShiftL | LogicShiftR
  | LessEq | GreaterEq | Less | Greater
  | Eq | EqWildcard | Ne | NeWildcard
  | LogicAnd | LogicOr | LogicNot
  | BitAnd | BitOr | BitXor | BitXnor | BitNand | BitNor | BitNot
  | As | Ternary | Concatenation | ArrayLiteral | Condition | Repeat

subsection \<open>The emitters\<close>

definition full_adder :: "net_id \<Rightarrow> net_id \<Rightarrow> net_id \<Rightarrow> (conv_ctx, net_id \<times> net_id) state" where
  "full_adder a b cin = do {
     a_xor_b \<leftarrow> add_cell Xor2 [a, b];
     s \<leftarrow> add_cell Xor2 [a_xor_b, cin];
     a_and_b \<leftarrow> add_cell And2 [a, b];
     cin_and_ab \<leftarrow> add_cell And2 [cin, a_xor_b];
     cout \<leftarrow> add_cell Or2 [a_and_b, cin_and_ab];
     State_Monad.return (s, cout)
   }"

definition ripple_step ::
    "net_id list \<Rightarrow> net_id list \<Rightarrow> nat \<Rightarrow> net_id list \<times> net_id \<Rightarrow> (conv_ctx, net_id list \<times> net_id) state" where
  "ripple_step a b i st = (case st of (acc, carry) \<Rightarrow> do {
     (s, c) \<leftarrow> full_adder (a ! i) (b ! i) carry;
     State_Monad.return (acc @ [s], c)
   })"

definition ripple_add_core :: "net_id list \<Rightarrow> net_id list \<Rightarrow> net_id \<Rightarrow> (conv_ctx, net_id list) state" where
  "ripple_add_core a b cin = do {
     (acc, _) \<leftarrow> foldM (ripple_step a b) [0..<length a] ([], cin);
     State_Monad.return acc
   }"

text \<open>One prefix stage at distance \<open>d\<close>: reads \<open>p\<close>, \<open>g\<close>, writes copies of them.\<close>

definition ks_step ::
    "nat \<Rightarrow> net_id list \<Rightarrow> net_id list \<Rightarrow> nat \<Rightarrow> net_id list \<times> net_id list
      \<Rightarrow> (conv_ctx, net_id list \<times> net_id list) state" where
  "ks_step d p g i st = (case st of (p_new, g_new) \<Rightarrow> do {
     p_and \<leftarrow> add_cell And2 [p ! i, p ! (i - d)];
     p_and_g \<leftarrow> add_cell And2 [p ! i, g ! (i - d)];
     g_or \<leftarrow> add_cell Or2 [g ! i, p_and_g];
     State_Monad.return (p_new[i := p_and], g_new[i := g_or])
   })"

definition ks_stage :: "nat \<Rightarrow> nat \<Rightarrow> net_id list \<Rightarrow> net_id list \<Rightarrow> (conv_ctx, net_id list \<times> net_id list) state" where
  "ks_stage n d p g = foldM (ks_step d p g) [d..<n] (p, g)"

text \<open>\<open>while d < n\<close> with \<open>d\<close> doubling from 1 (the guard \<open>0 < d\<close> only serves termination).\<close>

function ks_loop :: "nat \<Rightarrow> nat \<Rightarrow> net_id list \<Rightarrow> net_id list \<Rightarrow> (conv_ctx, net_id list \<times> net_id list) state" where
  "ks_loop n d p g =
     (if 0 < d \<and> d < n
      then do { (p', g') \<leftarrow> ks_stage n d p g; ks_loop n (2 * d) p' g' }
      else State_Monad.return (p, g))"
  by pat_completeness auto
termination
  by (relation "measure (\<lambda>(n, d, p, g). n - d)") auto

declare ks_loop.simps [simp del]

definition ks_sum :: "net_id list \<Rightarrow> net_id list \<Rightarrow> net_id list \<Rightarrow> net_id \<Rightarrow> nat \<Rightarrow> (conv_ctx, net_id) state" where
  "ks_sum p g p_seed cin i = do {
     p_and_cin \<leftarrow> add_cell And2 [p ! (i - 1), cin];
     carry_i \<leftarrow> add_cell Or2 [g ! (i - 1), p_and_cin];
     add_cell Xor2 [p_seed ! i, carry_i]
   }"

definition kogge_stone_add :: "net_id list \<Rightarrow> net_id list \<Rightarrow> net_id \<Rightarrow> (conv_ctx, net_id list) state" where
  "kogge_stone_add a b cin =
     (let n = length a in
      if n = 0 then State_Monad.return []
      else do {
        p_seed \<leftarrow> traverse_list (\<lambda>i. add_cell Xor2 [a ! i, b ! i]) [0..<n];
        g_seed \<leftarrow> traverse_list (\<lambda>i. add_cell And2 [a ! i, b ! i]) [0..<n];
        (p, g) \<leftarrow> ks_loop n 1 p_seed g_seed;
        sum_0 \<leftarrow> add_cell Xor2 [p_seed ! 0, cin];
        rest \<leftarrow> traverse_list (ks_sum p g p_seed cin) [1..<n];
        State_Monad.return (sum_0 # rest)
      })"

definition ripple_add ::
    "net_id list \<Rightarrow> net_id list \<Rightarrow> net_id \<Rightarrow> (conv_ctx, synth_error + net_id list) state" where
  "ripple_add a b cin =
     (if length a \<noteq> length b
      then State_Monad.return (Inl (Internal ''add operand width mismatch''))
      else if length a < 4
      then do { s \<leftarrow> ripple_add_core a b cin; State_Monad.return (Inr s) }
      else do { s \<leftarrow> kogge_stone_add a b cin; State_Monad.return (Inr s) })"

definition ripple_sub :: "net_id list \<Rightarrow> net_id list \<Rightarrow> (conv_ctx, synth_error + net_id list) state" where
  "ripple_sub a b =
     (if length a \<noteq> length b
      then State_Monad.return (Inl (Internal ''ripple_sub operand width mismatch''))
      else do {
        inv_b \<leftarrow> traverse_list (\<lambda>bi. add_cell Not1 [bi]) b;
        ripple_add a inv_b NET_CONST1
      })"

definition equal :: "net_id list \<Rightarrow> net_id list \<Rightarrow> (conv_ctx, net_id) state" where
  "equal a b =
     (if a = [] then State_Monad.return NET_CONST1
      else do {
        eq_bits \<leftarrow> traverse_list (\<lambda>i. add_cell Xnor2 [a ! i, b ! i]) [0..<length a];
        reduce_and eq_bits
      })"

fun op_debug :: "op \<Rightarrow> string" where
  "op_debug Pow = ''Pow''" | "op_debug Div = ''Div''" | "op_debug Rem = ''Rem''"
| "op_debug Mul = ''Mul''" | "op_debug Add = ''Add''" | "op_debug Sub = ''Sub''"
| "op_debug ArithShiftL = ''ArithShiftL''" | "op_debug ArithShiftR = ''ArithShiftR''"
| "op_debug LogicShiftL = ''LogicShiftL''" | "op_debug LogicShiftR = ''LogicShiftR''"
| "op_debug LessEq = ''LessEq''" | "op_debug GreaterEq = ''GreaterEq''"
| "op_debug Less = ''Less''" | "op_debug Greater = ''Greater''"
| "op_debug Eq = ''Eq''" | "op_debug EqWildcard = ''EqWildcard''"
| "op_debug Ne = ''Ne''" | "op_debug NeWildcard = ''NeWildcard''"
| "op_debug LogicAnd = ''LogicAnd''" | "op_debug LogicOr = ''LogicOr''"
| "op_debug LogicNot = ''LogicNot''" | "op_debug BitAnd = ''BitAnd''"
| "op_debug BitOr = ''BitOr''" | "op_debug BitXor = ''BitXor''"
| "op_debug BitXnor = ''BitXnor''" | "op_debug BitNand = ''BitNand''"
| "op_debug BitNor = ''BitNor''" | "op_debug BitNot = ''BitNot''"
| "op_debug As = ''As''" | "op_debug Ternary = ''Ternary''"
| "op_debug Concatenation = ''Concatenation''" | "op_debug ArrayLiteral = ''ArrayLiteral''"
| "op_debug Condition = ''Condition''" | "op_debug Repeat = ''Repeat''"

definition compare :: "net_id list \<Rightarrow> net_id list \<Rightarrow> op \<Rightarrow> bool \<Rightarrow> (conv_ctx, synth_error + net_id) state" where
  "compare a b oper sgnd =
     (if a = [] then State_Monad.return (Inr NET_CONST0)
      else
        let width = length a;
            a_ext = (if sgnd then a @ [a ! (width - 1)] else a @ [NET_CONST0]);
            b_ext = (if sgnd then b @ [b ! (width - 1)] else b @ [NET_CONST0])
        in do {
          r \<leftarrow> ripple_sub a_ext b_ext;
          or_return r (\<lambda>diff.
            let a_lt_b = diff ! (length diff - 1)
            in case oper of
                 Less \<Rightarrow> State_Monad.return (Inr a_lt_b)
               | GreaterEq \<Rightarrow> do { n \<leftarrow> add_cell Not1 [a_lt_b]; State_Monad.return (Inr n) }
               | Greater \<Rightarrow> do {
                   r2 \<leftarrow> ripple_sub b_ext a_ext;
                   or_return r2 (\<lambda>diff2. State_Monad.return (Inr (diff2 ! (length diff2 - 1))))
                 }
               | LessEq \<Rightarrow> do {
                   r2 \<leftarrow> ripple_sub b_ext a_ext;
                   or_return r2 (\<lambda>diff2. do {
                     n \<leftarrow> add_cell Not1 [diff2 ! (length diff2 - 1)];
                     State_Monad.return (Inr n) })
                 }
               | _ \<Rightarrow> State_Monad.return (Inl (Internal
                   (''compare() called with non-comparison op '' @ op_debug oper))))
        })"

definition extend :: "net_id list \<Rightarrow> nat \<Rightarrow> bool \<Rightarrow> net_id list" where
  "extend xs target_width sgnd =
     (if length xs \<ge> target_width then take target_width xs
      else
        let pad = (if sgnd \<and> xs \<noteq> [] then xs ! (length xs - 1) else NET_CONST0)
        in xs @ replicate (target_width - length xs) pad)"

definition conditional_negate :: "net_id list \<Rightarrow> net_id \<Rightarrow> (conv_ctx, synth_error + net_id list) state" where
  "conditional_negate x sign = do {
     inv \<leftarrow> traverse_list (\<lambda>b. add_cell Xor2 [b, sign]) x;
     let zero = replicate (length x) NET_CONST0;
     ripple_add inv zero sign
   }"

subsection \<open>Vectors of nets\<close>

abbreviation word_ok :: "nat \<Rightarrow> nat \<Rightarrow> net_id list \<Rightarrow> bool" where
  "word_ok n k ns \<equiv> length ns = n \<and> (\<forall>i \<in> set ns. i < k)"

definition num :: "(net_id \<Rightarrow> bool) \<Rightarrow> net_id list \<Rightarrow> nat" where
  "num v ns = uval (map v ns)"

definition snum :: "(net_id \<Rightarrow> bool) \<Rightarrow> net_id list \<Rightarrow> int" where
  "snum v ns = sval (map v ns)"

lemma num_Nil [simp]: "num v [] = 0"
  by (simp add: num_def)

lemma num_Cons [simp]: "num v (n # ns) = of_bool (v n) + 2 * num v ns"
  by (simp add: num_def)

lemma num_append: "num v (xs @ ys) = num v xs + 2 ^ length xs * num v ys"
  by (simp add: num_def uval_append)

lemma num_lt: "num v ns < 2 ^ length ns"
  using uval_lt [of "map v ns"] by (simp add: num_def)

lemma num_take_Suc:
  "j < length ns \<Longrightarrow> num v (take (Suc j) ns) = num v (take j ns) + 2 ^ j * of_bool (v (ns ! j))"
  by (simp add: take_Suc_conv_app_nth num_append)

lemma num_rail [simp]: "rails_ok v \<Longrightarrow> num v (replicate n NET_CONST0) = 0"
  by (simp add: num_def)

lemma num_take: "num v (take j ns) = num v ns mod 2 ^ j"
  by (simp add: num_def take_map [symmetric] uval_take)

lemma num_drop: "num v (drop j ns) = num v ns div 2 ^ j"
  by (simp add: num_def drop_map [symmetric] uval_drop)

lemma word_ok_nth: "word_ok n k ns \<Longrightarrow> i < n \<Longrightarrow> ns ! i < k"
  by auto

lemma word_ok_mono: "word_ok n k ns \<Longrightarrow> k \<le> k' \<Longrightarrow> word_ok n k' ns"
  by (auto intro: less_le_trans)

subsection \<open>The adder interface\<close>

text \<open>
  \<open>add a b cin\<close> on vectors of equal length is \<open>Ok\<close> and yields a vector of that length
  whose value is \<open>a + b + cin\<close> modulo two to the length.
\<close>

locale adder =
  fixes add :: "net_id list \<Rightarrow> net_id list \<Rightarrow> net_id \<Rightarrow> (conv_ctx, synth_error + net_id list) state"
  assumes add_builds: "wf_ctx ctx \<Longrightarrow> word_ok n (n_nets ctx) a \<Longrightarrow> word_ok n (n_nets ctx) b \<Longrightarrow>
    cin < n_nets ctx \<Longrightarrow>
    builds ctx (add a b cin) (\<lambda>k r. \<exists>s. r = Inr s \<and> word_ok n k s)
      (\<lambda>v r. \<forall>s. r = Inr s \<longrightarrow>
         num v s = (num v a + num v b + of_bool (v cin)) mod 2 ^ n)"

subsection \<open>The ripple-carry adder\<close>

lemma full_adder_builds:
  assumes "wf_ctx ctx" "a < n_nets ctx" "b < n_nets ctx" "cin < n_nets ctx"
  shows "builds ctx (full_adder a b cin) (\<lambda>k r. fst r < k \<and> snd r < k)
    (\<lambda>v r. (of_bool (v (fst r)) + 2 * of_bool (v (snd r)) :: nat) =
       of_bool (v a) + of_bool (v b) + of_bool (v cin))"
  unfolding full_adder_def using assms
  by (intro bind_cells final_return) auto

lemma ripple_step_builds:
  assumes "wf_ctx ctx" "a ! j < n_nets ctx" "b ! j < n_nets ctx" "c < n_nets ctx" "word_ok j (n_nets ctx) s"
  shows "builds ctx (ripple_step a b j (s, c))
    (\<lambda>k r. word_ok (Suc j) k (fst r) \<and> snd r < k)
    (\<lambda>v r. num v (fst r) + 2 ^ Suc j * of_bool (v (snd r)) =
       num v s + 2 ^ j * (of_bool (v (a ! j)) + of_bool (v (b ! j)) + of_bool (v c)))"
  unfolding ripple_step_def prod.case
proof (rule builds_bind [OF full_adder_builds])
  fix r c2 assume r: "wf_ctx c2" "extends ctx c2" "fst r < n_nets c2 \<and> snd r < n_nets c2"
  have ok: "word_ok j (n_nets c2) s"
    using word_ok_mono [OF assms(5) extends_n_nets [OF r(2)]] .
  let ?cin = "\<lambda>v. of_bool (v (a ! j)) + of_bool (v (b ! j)) + of_bool (v c) :: nat"
  have "num v (s @ [fst r]) + 2 ^ Suc j * of_bool (v (snd r)) = num v s + 2 ^ j * ?cin v"
    if "(of_bool (v (fst r)) + 2 * of_bool (v (snd r)) :: nat) = ?cin v" for v
    using ok unfolding that [symmetric] by (simp add: num_append algebra_simps)
  with r ok show "builds c2 (case r of (sa, c) \<Rightarrow> State_Monad.return (s @ [sa], c))
      (\<lambda>k r. word_ok (Suc j) k (fst r) \<and> snd r < k)
      (\<lambda>v t. (of_bool (v (fst r)) + 2 * of_bool (v (snd r)) :: nat) = ?cin v \<longrightarrow>
         num v (fst t) + 2 ^ Suc j * of_bool (v (snd t)) = num v s + 2 ^ j * ?cin v)"
    unfolding case_prod_beta by (intro final_return) (auto simp only: fst_conv snd_conv length_append set_append, simp_all)
qed (use assms in auto)

lemma ripple_add_core_builds:
  assumes wf: "wf_ctx ctx" and a: "word_ok n (n_nets ctx) a" and b: "word_ok n (n_nets ctx) b"
    and c: "cin < n_nets ctx"
  shows "builds ctx (ripple_add_core a b cin) (\<lambda>k s. word_ok n k s)
    (\<lambda>v s. num v s = (num v a + num v b + of_bool (v cin)) mod 2 ^ n)"
  unfolding ripple_add_core_def
proof (rule builds_bind)
  let ?N = "\<lambda>k j r. word_ok j k (fst r) \<and> snd r < k"
  let ?J = "\<lambda>v j r. num v (fst r) + 2 ^ j * of_bool (v (snd r)) =
      num v (take j a) + num v (take j b) + of_bool (v cin)"
  show "builds ctx (foldM (ripple_step a b) [0..<length a] ([], cin)) (\<lambda>k. ?N k (length [0..<length a]))
      (\<lambda>v r. ?J v 0 ([], cin) \<longrightarrow> ?J v (length [0..<length a]) r)"
  proof (rule builds_foldM)
    fix j and acc :: "net_id list \<times> net_id" and ctx'
    assume j: "j < length [0..<length a]" and e: "wf_ctx ctx'" "extends ctx ctx'" and N: "?N (n_nets ctx') j acc"
    have le: "n_nets ctx \<le> n_nets ctx'" using e(2) by (rule extends_n_nets)
    let ?S = "\<lambda>v r. num v (fst r) + 2 ^ Suc j * of_bool (v (snd r)) =
       num v (fst acc) + 2 ^ j * (of_bool (v (a ! j)) + of_bool (v (b ! j)) + of_bool (v (snd acc)))"
    have "builds ctx' (ripple_step a b j (fst acc, snd acc)) (\<lambda>k. ?N k (Suc j)) ?S"
      using word_ok_nth [OF a, of j] word_ok_nth [OF b, of j] a j le N e
      by (intro ripple_step_builds) (auto intro: less_le_trans)
    then have step: "builds ctx' (ripple_step a b ([0..<length a] ! j) acc) (\<lambda>k. ?N k (Suc j)) ?S"
      using j by simp
    have "?J v j acc \<longrightarrow> ?J v (Suc j) r" if "?S v r" for v r
      using j a b unfolding that by (simp add: num_take_Suc algebra_simps)
    with step show "builds ctx' (ripple_step a b ([0..<length a] ! j) acc) (\<lambda>k. ?N k (Suc j))
        (\<lambda>v r. ?J v j acc \<longrightarrow> ?J v (Suc j) r)" by (rule builds_post)
  qed (use assms in auto)
  fix r ctx' assume "wf_ctx ctx'" "?N (n_nets ctx') (length [0..<length a]) r"
  moreover have "num v (fst r) = (num v a + num v b + of_bool (v cin)) mod 2 ^ n"
    if "?J v (length [0..<length a]) r" "length (fst r) = n" for v
  proof -
    have "num v a + num v b + of_bool (v cin) = num v (fst r) + 2 ^ n * of_bool (v (snd r))"
      using that a b by simp
    then show ?thesis using num_lt [of v "fst r"] that(2) by simp
  qed
  ultimately show "builds ctx' (case r of (acc, uu_) \<Rightarrow> State_Monad.return acc) (word_ok n)
     (\<lambda>v s. (?J v 0 ([], cin) \<longrightarrow> ?J v (length [0..<length a]) r) \<longrightarrow>
        num v s = (num v a + num v b + of_bool (v cin)) mod 2 ^ n)"
    using a by (auto simp: case_prod_beta intro!: final_return)
qed

subsection \<open>The Kogge-Stone adder\<close>

text \<open>
  \<open>carry_from v p g lo hi c\<close> is the carry into position \<open>hi\<close> when the carry into
  \<open>lo\<close> is \<open>c\<close>, for the propagate and generate vectors \<open>p\<close>, \<open>g\<close>. At distance \<open>d\<close>
  the pair of nets at position \<open>i\<close> computes that function for the group of the \<open>d\<close>
  positions that end at \<open>i\<close>.
\<close>

definition carry_from :: "(net_id \<Rightarrow> bool) \<Rightarrow> net_id list \<Rightarrow> net_id list \<Rightarrow> nat \<Rightarrow> nat \<Rightarrow> bool \<Rightarrow> bool" where
  "carry_from v p g lo hi c = fold (\<lambda>i c. v (g ! i) \<or> v (p ! i) \<and> c) [lo..<hi] c"

lemma carry_from_Suc:
  "lo \<le> hi \<Longrightarrow> carry_from v p g lo (Suc hi) c = (v (g ! hi) \<or> v (p ! hi) \<and> carry_from v p g lo hi c)"
  by (simp add: carry_from_def)

lemma carry_from_same [simp]: "carry_from v p g i i c = c"
  by (simp add: carry_from_def)

lemma carry_from_split:
  "lo \<le> mid \<Longrightarrow> mid \<le> hi \<Longrightarrow> carry_from v p g lo hi c = carry_from v p g mid hi (carry_from v p g lo mid c)"
  using upt_add_eq_append [of lo mid "hi - mid"] by (simp add: carry_from_def)

definition group_ok :: "(net_id \<Rightarrow> bool) \<Rightarrow> net_id list \<Rightarrow> net_id list \<Rightarrow> nat \<Rightarrow> nat \<Rightarrow> net_id \<Rightarrow> net_id \<Rightarrow> bool" where
  "group_ok v p g d i P G \<longleftrightarrow> (\<forall>c. (v G \<or> v P \<and> c) = carry_from v p g (Suc i - d) (Suc i) c)"

lemma group_ok_Suc_0: "group_ok v p g (Suc 0) i (p ! i) (g ! i)"
  by (simp add: group_ok_def carry_from_Suc)

lemma group_ok_full: "Suc i \<le> d \<Longrightarrow> group_ok v p g d i P G \<longleftrightarrow> group_ok v p g (Suc i) i P G"
  by (simp add: group_ok_def)

lemma group_ok_merge:
  assumes "group_ok v p g d i P G" "group_ok v p g d (i - d) P0 G0" "0 < d" "d \<le> i"
    and "v P' = (v P \<and> v P0)" "v G' = (v G \<or> v P \<and> v G0)"
  shows "group_ok v p g (2 * d) i P' G'"
proof -
  have "(v G' \<or> v P' \<and> c) = carry_from v p g (Suc i - 2 * d) (Suc i) c" for c
  proof -
    have "Suc (i - d) = Suc i - d" "Suc (i - d) - d = Suc i - 2 * d" using assms(4) by simp_all
    then have "carry_from v p g (Suc i - 2 * d) (Suc i) c =
        carry_from v p g (Suc i - d) (Suc i) (carry_from v p g (Suc (i - d) - d) (Suc (i - d)) c)"
      using carry_from_split [of "Suc i - 2 * d" "Suc i - d" "Suc i" v p g c] by simp
    also have "\<dots> = (v G' \<or> v P' \<and> c)"
      using assms(1,2,5,6) unfolding group_ok_def by metis
    finally show ?thesis by simp
  qed
  then show ?thesis by (simp add: group_ok_def)
qed

definition groups_ok :: "(net_id \<Rightarrow> bool) \<Rightarrow> net_id list \<Rightarrow> net_id list \<Rightarrow> nat \<Rightarrow> net_id list \<times> net_id list \<Rightarrow> bool" where
  "groups_ok v p g d pg \<longleftrightarrow> (\<forall>i < length p. group_ok v p g d i (fst pg ! i) (snd pg ! i))"

definition pair_ok :: "nat \<Rightarrow> nat \<Rightarrow> net_id list \<times> net_id list \<Rightarrow> bool" where
  "pair_ok n k pg \<longleftrightarrow> word_ok n k (fst pg) \<and> word_ok n k (snd pg)"

lemma pair_ok_nth: "pair_ok n k pg \<Longrightarrow> i < n \<Longrightarrow> fst pg ! i < k \<and> snd pg ! i < k"
  by (auto simp: pair_ok_def)

lemma pair_ok_mono: "pair_ok n k pg \<Longrightarrow> k \<le> k' \<Longrightarrow> pair_ok n k' pg"
  by (auto simp: pair_ok_def intro: less_le_trans)

lemma pair_ok_update:
  assumes "pair_ok n k0 acc" "k0 \<le> k" "P < k" "G < k"
  shows "pair_ok n k ((fst acc)[i := P], (snd acc)[i := G])"
  using pair_ok_mono [OF assms(1,2)] assms(3,4)
  by (auto simp: pair_ok_def dest: set_update_subset_insert [THEN subsetD])

lemma ks_step_builds:
  assumes wf: "wf_ctx ctx" and i: "i < n" "d \<le> i"
    and pg: "pair_ok n (n_nets ctx) pg" and acc: "pair_ok n (n_nets ctx) acc"
  shows "builds ctx (ks_step d (fst pg) (snd pg) i acc) (pair_ok n)
    (\<lambda>v r. \<exists>P G. r = ((fst acc)[i := P], (snd acc)[i := G]) \<and>
       v P = (v (fst pg ! i) \<and> v (fst pg ! (i - d))) \<and>
       v G = (v (snd pg ! i) \<or> v (fst pg ! i) \<and> v (snd pg ! (i - d))))"
  using wf pair_ok_nth [OF pg i(1)] pair_ok_nth [OF pg less_imp_diff_less [OF i(1), of d]]
  unfolding ks_step_def case_prod_beta
  apply (intro bind_cells final_return)
  apply (simp_all (no_asm_simp))
  apply (rule pair_ok_update [OF acc]; simp)
  apply blast
  done

lemma ks_stage_builds:
  assumes wf: "wf_ctx ctx" and d: "0 < d" "d < n" and pg: "pair_ok n (n_nets ctx) pg"
  shows "builds ctx (ks_stage n d (fst pg) (snd pg)) (pair_ok n)
    (\<lambda>v r. \<forall>p g. length p = n \<longrightarrow> groups_ok v p g d pg \<longrightarrow> groups_ok v p g (2 * d) r)"
proof -
  let ?mid = "\<lambda>v p g j acc. \<forall>i < n. group_ok v p g (if i < d + j then 2 * d else d) i (fst acc ! i) (snd acc ! i)"
  let ?J = "\<lambda>v j acc. \<forall>p g. length p = n \<longrightarrow> groups_ok v p g d pg \<longrightarrow> ?mid v p g j acc"
  have "builds ctx (ks_stage n d (fst pg) (snd pg)) (pair_ok n)
     (\<lambda>v r. ?J v 0 (fst pg, snd pg) \<longrightarrow> ?J v (length [d..<n]) r)"
    unfolding ks_stage_def
  proof (rule builds_foldM [where N = "\<lambda>k _. pair_ok n k" and J = ?J])
    fix j acc ctx'
    assume j: "j < length [d..<n]" and e: "wf_ctx ctx'" "extends ctx ctx'" and acc: "pair_ok n (n_nets ctx') acc"
    let ?i = "d + j"
    let ?S = "\<lambda>v r. \<exists>P G. r = ((fst acc)[?i := P], (snd acc)[?i := G]) \<and>
       v P = (v (fst pg ! ?i) \<and> v (fst pg ! (?i - d))) \<and>
       v G = (v (snd pg ! ?i) \<or> v (fst pg ! ?i) \<and> v (snd pg ! (?i - d)))"
    have step: "builds ctx' (ks_step d (fst pg) (snd pg) ([d..<n] ! j) acc) (pair_ok n) ?S"
      using ks_step_builds [OF e(1) _ _ pair_ok_mono [OF pg extends_n_nets [OF e(2)]] acc, of ?i d] j by simp
    have len: "length (fst acc) = n" "length (snd acc) = n" using acc by (auto simp: pair_ok_def)
    have "?J v j acc \<longrightarrow> ?J v (Suc j) r" if "?S v r" for v r
    proof (intro impI allI)
      fix p g i assume J: "?J v j acc" and p: "length p = n" and ok: "groups_ok v p g d pg" and i: "i < n"
      from that obtain P G where r: "r = ((fst acc)[?i := P], (snd acc)[?i := G])"
        and PG: "v P = (v (fst pg ! ?i) \<and> v (fst pg ! (?i - d)))"
          "v G = (v (snd pg ! ?i) \<or> v (fst pg ! ?i) \<and> v (snd pg ! (?i - d)))" by blast
      have "group_ok v p g (2 * d) ?i P G"
        using ok p j d by (intro group_ok_merge [OF _ _ _ _ PG]) (auto simp: groups_ok_def)
      moreover have "group_ok v p g (if i < d + j then 2 * d else d) i (fst acc ! i) (snd acc ! i)"
        using J p ok i by blast
      ultimately show "group_ok v p g (if i < d + Suc j then 2 * d else d) i (fst r ! i) (snd r ! i)"
        using i len by (cases "i = ?i") (auto simp: r less_Suc_eq split: if_splits)
    qed
    with step show "builds ctx' (ks_step d (fst pg) (snd pg) ([d..<n] ! j) acc) (pair_ok n)
        (\<lambda>v r. ?J v j acc \<longrightarrow> ?J v (Suc j) r)" by (rule builds_post)
  qed (use assms in auto)
  then show ?thesis
  proof (rule builds_post, intro allI impI)
    fix v r p g assume J: "?J v 0 (fst pg, snd pg) \<longrightarrow> ?J v (length [d..<n]) r"
      and p: "length p = n" and ok: "groups_ok v p g d pg"
    have "group_ok v p' g' (if i < d + 0 then 2 * d else d) i (fst pg ! i) (snd pg ! i)"
      if "length p' = n" "groups_ok v p' g' d pg" "i < n" for p' g' i
      using that group_ok_full [of i d] group_ok_full [of i "2 * d"] by (auto simp: groups_ok_def)
    with J p ok d(2) show "groups_ok v p g (2 * d) r" by (auto simp: groups_ok_def)
  qed
qed

lemma ks_loop_builds:
  assumes "wf_ctx ctx" "0 < d" "pair_ok n (n_nets ctx) (p, g)"
  shows "builds ctx (ks_loop n d p g) (pair_ok n)
    (\<lambda>v r. \<forall>ps gs. length ps = n \<longrightarrow> groups_ok v ps gs d (p, g) \<longrightarrow> groups_ok v ps gs n r)"
  using assms
proof (induction n d p g arbitrary: ctx rule: ks_loop.induct)
  case (1 n d p g)
  show ?case
  proof (cases "d < n")
    case False
    then have "groups_ok v ps gs n (p, g)" if "length ps = n" "groups_ok v ps gs d (p, g)" for v ps gs
      using that group_ok_full [of _ d] group_ok_full [of _ n] by (fastforce simp: groups_ok_def)
    with False 1(2-) show ?thesis by (simp add: ks_loop.simps [of n d] builds_return)
  next
    case True
    have stage: "builds ctx (ks_stage n d p g) (pair_ok n)
      (\<lambda>v r. \<forall>ps gs. length ps = n \<longrightarrow> groups_ok v ps gs d (p, g) \<longrightarrow> groups_ok v ps gs (2 * d) r)"
      using ks_stage_builds [OF 1(2,3) True 1(4)] by simp
    have eq: "ks_loop n d p g = ks_stage n d p g \<bind> (\<lambda>r. ks_loop n (2 * d) (fst r) (snd r))"
      using True 1(3) by (simp add: ks_loop.simps [of n d] case_prod_beta')
    show ?thesis unfolding eq
    proof (rule builds_bind [OF stage])
      fix r ctx' assume "wf_ctx ctx'" "pair_ok n (n_nets ctx') r"
      then have "builds ctx' (ks_loop n (2 * d) (fst r) (snd r)) (pair_ok n)
         (\<lambda>v t. \<forall>ps gs. length ps = n \<longrightarrow> groups_ok v ps gs (2 * d) r \<longrightarrow> groups_ok v ps gs n t)"
        using True 1(3) by (cases r) (simp only: fst_conv snd_conv, rule "1.IH", simp_all)
      then show "builds ctx' (ks_loop n (2 * d) (fst r) (snd r)) (pair_ok n)
         (\<lambda>v s. (\<forall>ps gs. length ps = n \<longrightarrow> groups_ok v ps gs d (p, g) \<longrightarrow> groups_ok v ps gs (2 * d) r) \<longrightarrow>
           (\<forall>ps gs. length ps = n \<longrightarrow> groups_ok v ps gs d (p, g) \<longrightarrow> groups_ok v ps gs n s))"
        by (rule builds_post) blast
    qed
  qed
qed

lemma carry_from_num:
  assumes "length a = n" "length b = n" "length s = n" "j \<le> n"
    and p: "\<And>i. i < n \<Longrightarrow> v (p ! i) = (v (a ! i) \<noteq> v (b ! i))"
    and g: "\<And>i. i < n \<Longrightarrow> v (g ! i) = (v (a ! i) \<and> v (b ! i))"
    and s: "\<And>i. i < n \<Longrightarrow> v (s ! i) = (v (p ! i) \<noteq> carry_from v p g 0 i c)"
  shows "num v (take j s) + 2 ^ j * of_bool (carry_from v p g 0 j c) =
    num v (take j a) + num v (take j b) + of_bool c"
  using assms(4)
proof (induction j)
  case (Suc j)
  have "(of_bool (v (s ! j)) + 2 * of_bool (carry_from v p g 0 (Suc j) c) :: nat) =
      of_bool (v (a ! j)) + of_bool (v (b ! j)) + of_bool (carry_from v p g 0 j c)"
    using p g s Suc.prems by (auto simp: carry_from_Suc)
  then have "num v (take j s) + 2 ^ j * (of_bool (v (s ! j)) + 2 * of_bool (carry_from v p g 0 (Suc j) c)) =
      num v (take j a) + num v (take j b) + of_bool c + 2 ^ j * (of_bool (v (a ! j)) + of_bool (v (b ! j)))"
    using Suc by (simp add: algebra_simps)
  with Suc.prems assms(1-3) show ?case
    by (simp add: num_take_Suc algebra_simps)
qed simp

lemma carry_from_sum:
  assumes "length a = n" "length b = n" "length s = n"
    and "\<And>i. i < n \<Longrightarrow> v (p ! i) = (v (a ! i) \<noteq> v (b ! i))"
    and "\<And>i. i < n \<Longrightarrow> v (g ! i) = (v (a ! i) \<and> v (b ! i))"
    and "\<And>i. i < n \<Longrightarrow> v (s ! i) = (v (p ! i) \<noteq> carry_from v p g 0 i c)"
  shows "num v s = (num v a + num v b + of_bool c) mod 2 ^ n"
proof -
  have "num v a + num v b + of_bool c = num v s + 2 ^ n * of_bool (carry_from v p g 0 n c)"
    using carry_from_num [OF assms(1-3) order_refl assms(4-6)] assms(1-3) by simp
  then show ?thesis using num_lt [of v s] assms(3) by simp
qed

lemma builds_traverse_cell_2:
  assumes "wf_ctx ctx" "word_ok n (n_nets ctx) a" "word_ok n (n_nets ctx) b" "arity k = 2"
  shows "builds ctx (traverse_list (\<lambda>i. add_cell k [a ! i, b ! i]) [0..<n]) (\<lambda>k. word_ok n k)
    (\<lambda>v r. \<forall>i < n. v (r ! i) = cell_fn k [v (a ! i), v (b ! i)])"
proof -
  have "builds ctx (traverse_list (\<lambda>i. add_cell k [a ! i, b ! i]) [0..<n])
    (\<lambda>k r. length r = length [0..<n] \<and> (\<forall>x \<in> set r. x < k))
    (\<lambda>v r. list_all2 (\<lambda>i x. v x = cell_fn k [v (a ! i), v (b ! i)]) [0..<n] r)"
  proof (rule builds_traverse)
    fix i ctx' assume "i \<in> set [0..<n]" "wf_ctx ctx'" "extends ctx ctx'"
    with assms show "builds ctx' (add_cell k [a ! i, b ! i]) (\<lambda>k x. x < k)
        (\<lambda>v r. v r = cell_fn k [v (a ! i), v (b ! i)])"
      by (intro cell_2_builds) (auto intro: in_range_mono word_ok_nth)
  qed (use assms in auto)
  then show ?thesis by (rule builds_weaken) (auto simp: list_all2_conv_all_nth)
qed

lemma ks_sum_builds:
  assumes "wf_ctx ctx" "p ! (i - 1) < n_nets ctx" "g ! (i - 1) < n_nets ctx" "ps ! i < n_nets ctx" "cin < n_nets ctx"
  shows "builds ctx (ks_sum p g ps cin i) (\<lambda>k r. r < k)
    (\<lambda>v r. v r = (v (ps ! i) \<noteq> (v (g ! (i - 1)) \<or> v (p ! (i - 1)) \<and> v cin)))"
  unfolding ks_sum_def using assms by (intro bind_cells final_cell_2) auto

text \<open>The last step: the sums from the seeds and the prefix pairs.\<close>

lemma ks_sums_builds:
  assumes wf: "wf_ctx ctx" and n: "0 < n" and ps: "word_ok n (n_nets ctx) ps" and r: "pair_ok n (n_nets ctx) r"
    and c: "cin < n_nets ctx"
  shows "builds ctx (do {
      s0 \<leftarrow> add_cell Xor2 [ps ! 0, cin];
      rest \<leftarrow> traverse_list (ks_sum (fst r) (snd r) ps cin) [1..<n];
      State_Monad.return (s0 # rest) })
    (\<lambda>k s. word_ok n k s)
    (\<lambda>v s. \<forall>gs. groups_ok v ps gs n r \<longrightarrow>
       (\<forall>i < n. v (s ! i) = (v (ps ! i) \<noteq> carry_from v ps gs 0 i (v cin))))"
proof (rule bind_cell_2)
  let ?S = "\<lambda>v i x. v x = (v (ps ! i) \<noteq> (v (snd r ! (i - 1)) \<or> v (fst r ! (i - 1)) \<and> v cin))"
  fix s0 c4 assume 4: "wf_ctx c4" "extends ctx c4" "n_nets ctx \<le> n_nets c4" "s0 < n_nets c4"
  have rest: "builds c4 (traverse_list (ks_sum (fst r) (snd r) ps cin) [1..<n])
      (\<lambda>k rs. length rs = length [1..<n] \<and> (\<forall>x \<in> set rs. x < k)) (\<lambda>v rs. list_all2 (?S v) [1..<n] rs)"
  proof (rule builds_traverse)
    fix i c5 assume i: "i \<in> set [1..<n]" and 5: "wf_ctx c5" "extends c4 c5"
    then have "n_nets ctx \<le> n_nets c5" "i - 1 < n" using 4(3) extends_n_nets [OF 5(2)] by auto
    then show "builds c5 (ks_sum (fst r) (snd r) ps cin i) (\<lambda>k r. r < k) (\<lambda>v x. ?S v i x)"
      using i 5 c pair_ok_nth [OF r, of "i - 1"] word_ok_nth [OF ps, of i]
      by (intro ks_sum_builds) auto
  qed (use 4 in auto)
  have sums: "v ((s0 # rs) ! i) = (v (ps ! i) \<noteq> carry_from v ps gs 0 i (v cin))"
    if "list_all2 (?S v) [1..<n] rs" "v s0 = cell_fn Xor2 [v (ps ! 0), v cin]" "groups_ok v ps gs n r" "i < n"
    for v rs gs i
  proof (cases i)
    case (Suc j)
    then have "v (rs ! j) = (v (ps ! i) \<noteq> (v (snd r ! j) \<or> v (fst r ! j) \<and> v cin))"
      using that by (auto simp: list_all2_conv_all_nth)
    moreover have "(v (snd r ! j) \<or> v (fst r ! j) \<and> v cin) = carry_from v ps gs 0 i (v cin)"
      using that Suc ps by (simp add: groups_ok_def group_ok_def)
    ultimately show ?thesis using Suc by simp
  qed (use that in simp)
  show "builds c4 (traverse_list (ks_sum (fst r) (snd r) ps cin) [1..<n] \<bind> (\<lambda>rest.
        State_Monad.return (s0 # rest))) (word_ok n)
      (\<lambda>v s. v s0 = cell_fn Xor2 [v (ps ! 0), v cin] \<longrightarrow> (\<forall>gs. groups_ok v ps gs n r \<longrightarrow>
         (\<forall>i < n. v (s ! i) = (v (ps ! i) \<noteq> carry_from v ps gs 0 i (v cin)))))"
    apply (rule builds_bind [OF rest], rule final_return, assumption)
    subgoal using n in_range_mono [OF 4(4)] by auto
    subgoal using sums by blast
    done
qed (use assms in \<open>auto intro: word_ok_nth\<close>)

lemma kogge_stone_add_builds:
  assumes wf: "wf_ctx ctx" and a: "word_ok n (n_nets ctx) a" and b: "word_ok n (n_nets ctx) b"
    and c: "cin < n_nets ctx"
  shows "builds ctx (kogge_stone_add a b cin) (\<lambda>k s. word_ok n k s)
    (\<lambda>v s. num v s = (num v a + num v b + of_bool (v cin)) mod 2 ^ n)"
proof (cases "n = 0")
  case False
  let ?P = "\<lambda>v ps. \<forall>i < n. v (ps ! i) = cell_fn Xor2 [v (a ! i), v (b ! i)]"
  let ?G = "\<lambda>v gs. \<forall>i < n. v (gs ! i) = cell_fn And2 [v (a ! i), v (b ! i)]"
  let ?tail = "\<lambda>ps r. do { s0 \<leftarrow> add_cell Xor2 [ps ! 0, cin];
      rest \<leftarrow> traverse_list (ks_sum (fst r) (snd r) ps cin) [1..<n];
      State_Monad.return (s0 # rest) }"
  let ?Q = "\<lambda>v s. num v s = (num v a + num v b + of_bool (v cin)) mod 2 ^ n"
  have eq: "kogge_stone_add a b cin =
      traverse_list (\<lambda>i. add_cell Xor2 [a ! i, b ! i]) [0..<n] \<bind> (\<lambda>ps.
      traverse_list (\<lambda>i. add_cell And2 [a ! i, b ! i]) [0..<n] \<bind> (\<lambda>gs. ks_loop n 1 ps gs \<bind> ?tail ps))"
    using False a by (simp add: kogge_stone_add_def case_prod_beta')
  show ?thesis unfolding eq
  proof (rule builds_bind [OF builds_traverse_cell_2 [OF wf a b]])
    fix ps c1 assume 1: "wf_ctx c1" "extends ctx c1" "word_ok n (n_nets c1) ps"
    note m1 = word_ok_mono [OF _ extends_n_nets [OF 1(2)]]
    show "builds c1 (traverse_list (\<lambda>i. add_cell And2 [a ! i, b ! i]) [0..<n] \<bind> (\<lambda>gs. ks_loop n 1 ps gs \<bind> ?tail ps))
      (word_ok n) (\<lambda>v s. ?P v ps \<longrightarrow> ?Q v s)"
    proof (rule builds_bind [OF builds_traverse_cell_2 [OF 1(1) m1 [OF a] m1 [OF b]]])
      fix gs c2 assume 2: "wf_ctx c2" "extends c1 c2" "word_ok n (n_nets c2) gs"
      have ps: "word_ok n (n_nets c2) ps" using 1(3) extends_n_nets [OF 2(2)] by (rule word_ok_mono)
      then have seeds: "pair_ok n (n_nets c2) (ps, gs)" using 2(3) by (simp add: pair_ok_def)
      show "builds c2 (ks_loop n 1 ps gs \<bind> ?tail ps) (word_ok n) (\<lambda>v s. ?G v gs \<longrightarrow> ?P v ps \<longrightarrow> ?Q v s)"
      proof (rule builds_bind [OF ks_loop_builds [OF 2(1) zero_less_one seeds]])
        fix r c3 assume 3: "wf_ctx c3" "extends c2 c3" "pair_ok n (n_nets c3) r"
        have "word_ok n (n_nets c3) ps" using ps extends_n_nets [OF 3(2)] by (rule word_ok_mono)
        moreover have "cin < n_nets c3" using c 1(2) 2(2) 3(2) by (blast intro: in_range_mono)
        ultimately have "builds c3 (?tail ps r) (\<lambda>k s. word_ok n k s)
          (\<lambda>v s. \<forall>gs. groups_ok v ps gs n r \<longrightarrow>
            (\<forall>i < n. v (s ! i) = (v (ps ! i) \<noteq> carry_from v ps gs 0 i (v cin))))"
          using False 3 by (intro ks_sums_builds) auto
        then show "builds c3 (?tail ps r) (word_ok n) (\<lambda>v s. (\<forall>p g. length p = n \<longrightarrow>
            groups_ok v p g 1 (ps, gs) \<longrightarrow> groups_ok v p g n r) \<longrightarrow> ?G v gs \<longrightarrow> ?P v ps \<longrightarrow> ?Q v s)"
        proof (rule builds_post, intro impI)
          fix v s k
          assume "word_ok n k s" "\<forall>gs. groups_ok v ps gs n r \<longrightarrow>
              (\<forall>i < n. v (s ! i) = (v (ps ! i) \<noteq> carry_from v ps gs 0 i (v cin)))"
            "\<forall>p g. length p = n \<longrightarrow> groups_ok v p g 1 (ps, gs) \<longrightarrow> groups_ok v p g n r" "?G v gs" "?P v ps"
          moreover have "groups_ok v ps gs 1 (ps, gs)" by (simp add: groups_ok_def group_ok_Suc_0)
          ultimately show "?Q v s" using a b ps by (intro carry_from_sum [where p = ps and g = gs]) auto
        qed
      qed
    qed simp
  qed simp
qed (use assms in \<open>simp add: kogge_stone_add_def builds_return\<close>)

end
