(* ===== verification/Subtract.thy ===== *)
theory Subtract
  imports Arith
begin

section \<open>Subtraction, negation, equality and comparison (\<open>conv/arith.rs\<close>)\<close>

text \<open>
  The clients of an adder, proved once for every \<open>adder\<close>, the interpretations of that
  locale for the ripple-carry adder, the Kogge-Stone adder and their dispatch, and the
  correctness of \<open>ripple_sub\<close>, \<open>conditional_negate\<close>, \<open>equal\<close> and \<open>compare\<close>, whose
  definitions are in theory \<open>Arith\<close>.
\<close>

subsection \<open>Clients of an adder\<close>

lemma traverse_cell_1_builds:
  assumes "wf_ctx ctx" "word_ok n (n_nets ctx) b" "arity k = 1"
  shows "builds ctx (traverse_list (\<lambda>bi. add_cell k [bi]) b) (\<lambda>k. word_ok n k)
    (\<lambda>v r. map v r = map (\<lambda>x. cell_fn k [v x]) b)"
proof -
  have "builds ctx (traverse_list (\<lambda>bi. add_cell k [bi]) b)
    (\<lambda>k r. length r = length b \<and> (\<forall>x \<in> set r. x < k))
    (\<lambda>v r. list_all2 (\<lambda>i x. v x = cell_fn k [v i]) b r)"
  proof (rule builds_traverse)
    fix i ctx' assume "i \<in> set b" "wf_ctx ctx'" "extends ctx ctx'"
    with assms show "builds ctx' (add_cell k [i]) (\<lambda>k x. x < k) (\<lambda>v r. v r = cell_fn k [v i])"
      by (intro cell_1_builds) (auto intro: in_range_mono)
  qed (use assms in auto)
  then show ?thesis
    by (rule builds_weaken) (use assms in \<open>auto simp: list_all2_conv_all_nth list_eq_iff_nth_eq\<close>)
qed

lemma traverse_cell_2_builds:
  assumes "wf_ctx ctx" "word_ok n (n_nets ctx) b" "c < n_nets ctx" "arity k = 2"
  shows "builds ctx (traverse_list (\<lambda>bi. add_cell k [bi, c]) b) (\<lambda>k. word_ok n k)
    (\<lambda>v r. map v r = map (\<lambda>x. cell_fn k [v x, v c]) b)"
proof -
  have "builds ctx (traverse_list (\<lambda>bi. add_cell k [bi, c]) b)
    (\<lambda>k r. length r = length b \<and> (\<forall>x \<in> set r. x < k))
    (\<lambda>v r. list_all2 (\<lambda>i x. v x = cell_fn k [v i, v c]) b r)"
  proof (rule builds_traverse)
    fix i ctx' assume "i \<in> set b" "wf_ctx ctx'" "extends ctx ctx'"
    with assms show "builds ctx' (add_cell k [i, c]) (\<lambda>k x. x < k) (\<lambda>v r. v r = cell_fn k [v i, v c])"
      by (intro cell_2_builds) (auto intro: in_range_mono)
  qed (use assms in auto)
  then show ?thesis
    by (rule builds_weaken) (use assms in \<open>auto simp: list_all2_conv_all_nth list_eq_iff_nth_eq\<close>)
qed

lemma num_Not: "map v r = map (\<lambda>x. \<not> v x) b \<Longrightarrow> int (num v r) = 2 ^ length b - 1 - int (num v b)"
  using uval_map_Not_int [of "map v b"] by (simp add: num_def comp_def)

context adder
begin

lemma sub_builds:
  assumes "wf_ctx ctx" "word_ok n (n_nets ctx) a" "word_ok n (n_nets ctx) b"
  shows "builds ctx (traverse_list (\<lambda>bi. add_cell Not1 [bi]) b \<bind> (\<lambda>nb. add a nb NET_CONST1))
    (\<lambda>k r. \<exists>s. r = Inr s \<and> word_ok n k s)
    (\<lambda>v r. \<forall>s. r = Inr s \<longrightarrow> int (num v s) = (int (num v a) - int (num v b)) mod 2 ^ n)"
proof (rule builds_bind [OF traverse_cell_1_builds [OF assms(1,3)]])
  fix nb ctx' assume *: "wf_ctx ctx'" "extends ctx ctx'" "word_ok n (n_nets ctx') nb"
  have "word_ok n (n_nets ctx') a" using assms(2) extends_n_nets [OF *(2)] by (rule word_ok_mono)
  with * have "builds ctx' (add a nb NET_CONST1) (\<lambda>k r. \<exists>s. r = Inr s \<and> word_ok n k s)
      (\<lambda>v r. \<forall>s. r = Inr s \<longrightarrow> num v s = (num v a + num v nb + of_bool (v NET_CONST1)) mod 2 ^ n)"
    using wf_ctx_rails by (intro add_builds) auto
  then show "builds ctx' (add a nb NET_CONST1) (\<lambda>k r. \<exists>s. r = Inr s \<and> word_ok n k s)
      (\<lambda>v r. map v nb = map (\<lambda>x. cell_fn Not1 [v x]) b \<longrightarrow>
        (\<forall>s. r = Inr s \<longrightarrow> int (num v s) = (int (num v a) - int (num v b)) mod 2 ^ n))"
  proof (rule builds_post_rails, intro impI allI)
    fix v r s
    assume v: "rails_ok v" and r: "\<forall>s. r = Inr s \<longrightarrow>
        num v s = (num v a + num v nb + of_bool (v NET_CONST1)) mod 2 ^ n" "r = Inr s"
      and nb: "map v nb = map (\<lambda>x. cell_fn Not1 [v x]) b"
    from nb have "int (num v nb) = 2 ^ n - 1 - int (num v b)"
      using assms(3) by (subst num_Not [of v nb b]) auto
    moreover have "int (num v s) = (int (num v a) + int (num v nb) + 1) mod 2 ^ n"
    proof -
      have "num v s = (num v a + num v nb + of_bool (v NET_CONST1)) mod 2 ^ n" using r by blast
      moreover have "v NET_CONST1" using v by simp
      ultimately have "num v s = (num v a + num v nb + 1) mod 2 ^ n" by simp
      then show ?thesis by (metis of_nat_1 of_nat_add of_nat_mod of_nat_numeral of_nat_power)
    qed
    moreover have "int (num v a) + (2 ^ n - 1 - int (num v b)) + 1 = (int (num v a) - int (num v b)) + 2 ^ n"
      by simp
    ultimately show "int (num v s) = (int (num v a) - int (num v b)) mod 2 ^ n"
      by (simp only: mod_add_self2)
  qed
qed simp

lemma negate_builds:
  assumes "wf_ctx ctx" "word_ok n (n_nets ctx) x" "sign < n_nets ctx"
  shows "builds ctx (traverse_list (\<lambda>b. add_cell Xor2 [b, sign]) x \<bind>
      (\<lambda>nx. add nx (replicate (length x) NET_CONST0) sign))
    (\<lambda>k r. \<exists>s. r = Inr s \<and> word_ok n k s)
    (\<lambda>v r. \<forall>s. r = Inr s \<longrightarrow>
      int (num v s) = (if v sign then - int (num v x) else int (num v x)) mod 2 ^ n)"
proof (rule builds_bind [OF traverse_cell_2_builds [OF assms]])
  let ?z = "replicate (length x) NET_CONST0"
  fix nx ctx' assume *: "wf_ctx ctx'" "extends ctx ctx'" "word_ok n (n_nets ctx') nx"
  have "sign < n_nets ctx'" using assms(3) *(2) by (rule in_range_mono)
  with * have "builds ctx' (add nx ?z sign) (\<lambda>k r. \<exists>s. r = Inr s \<and> word_ok n k s)
      (\<lambda>v r. \<forall>s. r = Inr s \<longrightarrow> num v s = (num v nx + num v ?z + of_bool (v sign)) mod 2 ^ n)"
    using wf_ctx_rails assms(2) by (intro add_builds) auto
  then show "builds ctx' (add nx ?z sign) (\<lambda>k r. \<exists>s. r = Inr s \<and> word_ok n k s)
      (\<lambda>v r. map v nx = map (\<lambda>y. cell_fn Xor2 [v y, v sign]) x \<longrightarrow>
        (\<forall>s. r = Inr s \<longrightarrow> int (num v s) = (if v sign then - int (num v x) else int (num v x)) mod 2 ^ n))"
  proof (rule builds_post_rails, intro impI allI)
    fix v r s
    assume v: "rails_ok v" and r: "\<forall>s. r = Inr s \<longrightarrow>
        num v s = (num v nx + num v ?z + of_bool (v sign)) mod 2 ^ n" "r = Inr s"
      and nx: "map v nx = map (\<lambda>y. cell_fn Xor2 [v y, v sign]) x"
    have s: "int (num v s) = (int (num v nx) + of_bool (v sign)) mod 2 ^ n"
    proof -
      have "num v s = (num v nx + num v ?z + of_bool (v sign)) mod 2 ^ n" using r by blast
      then have "num v s = (num v nx + of_bool (v sign)) mod 2 ^ n" using v by simp
      then show ?thesis by (metis of_nat_add of_nat_mod of_nat_numeral of_nat_of_bool of_nat_power)
    qed
    show "int (num v s) = (if v sign then - int (num v x) else int (num v x)) mod 2 ^ n"
    proof (cases "v sign")
      case True
      with nx have "int (num v nx) + 1 = - int (num v x) + 2 ^ n"
        using assms(2) by (subst num_Not [of v nx x]) auto
      with True s show ?thesis by (simp only: of_bool_eq if_True mod_add_self2)
    next
      case False
      with nx have "num v nx = num v x" by (simp add: num_def)
      with False s show ?thesis by simp
    qed
  qed
qed simp

end


subsection \<open>Interpretations\<close>

interpretation ripple_adder: adder "\<lambda>a b cin. do { s \<leftarrow> ripple_add_core a b cin; State_Monad.return (Inr s) }"
proof
  fix ctx n a b cin
  assume "wf_ctx ctx" "word_ok n (n_nets ctx) a" "word_ok n (n_nets ctx) b" "cin < n_nets ctx"
  then show "builds ctx (do { s \<leftarrow> ripple_add_core a b cin; State_Monad.return (Inr s) })
      (\<lambda>k r. \<exists>s. r = Inr s \<and> word_ok n k s)
      (\<lambda>v r. \<forall>s. r = Inr s \<longrightarrow> num v s = (num v a + num v b + of_bool (v cin)) mod 2 ^ n)"
    by (intro builds_bind [OF ripple_add_core_builds] final_return) auto
qed

interpretation prefix_adder: adder "\<lambda>a b cin. do { s \<leftarrow> kogge_stone_add a b cin; State_Monad.return (Inr s) }"
proof
  fix ctx n a b cin
  assume "wf_ctx ctx" "word_ok n (n_nets ctx) a" "word_ok n (n_nets ctx) b" "cin < n_nets ctx"
  then show "builds ctx (do { s \<leftarrow> kogge_stone_add a b cin; State_Monad.return (Inr s) })
      (\<lambda>k r. \<exists>s. r = Inr s \<and> word_ok n k s)
      (\<lambda>v r. \<forall>s. r = Inr s \<longrightarrow> num v s = (num v a + num v b + of_bool (v cin)) mod 2 ^ n)"
    by (intro builds_bind [OF kogge_stone_add_builds] final_return) auto
qed

interpretation ripple: adder ripple_add
proof
  fix ctx n a b cin
  assume "wf_ctx ctx" "word_ok n (n_nets ctx) a" "word_ok n (n_nets ctx) b" "cin < n_nets ctx"
  then show "builds ctx (ripple_add a b cin) (\<lambda>k r. \<exists>s. r = Inr s \<and> word_ok n k s)
      (\<lambda>v r. \<forall>s. r = Inr s \<longrightarrow> num v s = (num v a + num v b + of_bool (v cin)) mod 2 ^ n)"
    using ripple_adder.add_builds [of ctx a n b cin] prefix_adder.add_builds [of ctx a n b cin]
    by (simp add: ripple_add_def)
qed

lemma ripple_add_mismatch: "length a \<noteq> length b \<Longrightarrow>
    ripple_add a b cin = State_Monad.return (Inl (Internal ''add operand width mismatch''))"
  by (simp add: ripple_add_def)

lemma ripple_sub_builds:
  assumes "wf_ctx ctx" "word_ok n (n_nets ctx) a" "word_ok n (n_nets ctx) b"
  shows "builds ctx (ripple_sub a b) (\<lambda>k r. \<exists>s. r = Inr s \<and> word_ok n k s)
    (\<lambda>v r. \<forall>s. r = Inr s \<longrightarrow> int (num v s) = (int (num v a) - int (num v b)) mod 2 ^ n)"
  using ripple.sub_builds [OF assms] assms by (simp add: ripple_sub_def)

lemma conditional_negate_builds:
  assumes "wf_ctx ctx" "word_ok n (n_nets ctx) x" "sign < n_nets ctx"
  shows "builds ctx (conditional_negate x sign) (\<lambda>k r. \<exists>s. r = Inr s \<and> word_ok n k s)
    (\<lambda>v r. \<forall>s. r = Inr s \<longrightarrow>
      int (num v s) = (if v sign then - int (num v x) else int (num v x)) mod 2 ^ n)"
  using ripple.negate_builds [OF assms] by (simp add: conditional_negate_def)

lemma equal_builds:
  assumes "wf_ctx ctx" "word_ok n (n_nets ctx) a" "word_ok n (n_nets ctx) b"
  shows "builds ctx (equal a b) (\<lambda>k r. r < k) (\<lambda>v r. v r = (num v a = num v b))"
proof (cases "a = []")
  case True
  with assms wf_ctx_rails show ?thesis by (auto simp: equal_def intro!: final_return)
next
  case False
  have len: "length a = n" using assms by simp
  have "builds ctx (traverse_list (\<lambda>i. add_cell Xnor2 [a ! i, b ! i]) [0..<n] \<bind> reduce_and) (\<lambda>k r. r < k)
    (\<lambda>v r. v r = (num v a = num v b))"
  proof (rule builds_bind [OF builds_traverse_cell_2 [OF assms]])
    fix eqs ctx' assume *: "wf_ctx ctx'" "word_ok n (n_nets ctx') eqs"
    then have red: "builds ctx' (reduce_and eqs) (\<lambda>m n. n < m) (\<lambda>v n. v n = (\<forall>i \<in> set eqs. v i))"
      by (intro reduce_and_builds) auto
    have bits: "(\<forall>i \<in> set eqs. v i) = (num v a = num v b)"
      if "\<forall>i < n. v (eqs ! i) = cell_fn Xnor2 [v (a ! i), v (b ! i)]" for v
      using that * assms
      by (auto simp: num_def uval_eq_iff list_eq_iff_nth_eq all_set_conv_all_nth)
    from red show "builds ctx' (reduce_and eqs) (\<lambda>k r. r < k)
       (\<lambda>v r. (\<forall>i < n. v (eqs ! i) = cell_fn Xnor2 [v (a ! i), v (b ! i)]) \<longrightarrow> v r = (num v a = num v b))"
    proof (rule builds_post, intro impI)
      fix v r
      assume "v r = (\<forall>i \<in> set eqs. v i)" "\<forall>i < n. v (eqs ! i) = cell_fn Xnor2 [v (a ! i), v (b ! i)]"
      then show "v r = (num v a = num v b)" using bits [of v] by blast
    qed
  qed simp
  with False len show ?thesis by (simp add: equal_def)
qed


subsection \<open>Extension and comparison\<close>

text \<open>The integer a vector stands for, as the \<open>signed\<close> flag of the code reads it.\<close>

definition ival :: "bool \<Rightarrow> (net_id \<Rightarrow> bool) \<Rightarrow> net_id list \<Rightarrow> int" where
  "ival sgnd v ns = (if sgnd then snum v ns else int (num v ns))"

lemma snum_sign_extend: "a \<noteq> [] \<Longrightarrow> snum v (a @ replicate k (last a)) = snum v a"
  using sval_sign_extend [of "map v a" k] by (simp add: snum_def last_map)

lemma num_zero_extend: "rails_ok v \<Longrightarrow> num v (a @ replicate k NET_CONST0) = num v a"
  by (simp add: num_append)

lemma ival_mod: "ival sgnd v ns mod 2 ^ length ns = int (num v ns)"
proof -
  have "int (num v ns) < 2 ^ length ns"
    using num_lt [of v ns] by (metis of_nat_less_iff of_nat_numeral of_nat_power)
  then show ?thesis using sval_mod [of "map v ns"] by (simp add: ival_def snum_def num_def)
qed

lemma extend_ival:
  assumes "rails_ok v" "length xs \<le> w"
  shows "ival sgnd v (extend xs w sgnd) = ival sgnd v xs"
proof (cases "length xs = w")
  case True
  then show ?thesis by (simp add: extend_def)
next
  case False
  then have "extend xs w sgnd = xs @ replicate (w - length xs) (if sgnd \<and> xs \<noteq> [] then last xs else NET_CONST0)"
    using assms(2) by (auto simp: extend_def last_conv_nth)
  moreover have "snum v (replicate k NET_CONST0) = 0" for k
    using assms(1) by (cases "k = 0") (simp_all add: snum_def sval_def)
  ultimately show ?thesis
    using assms(1) by (auto simp: ival_def snum_sign_extend num_zero_extend snum_def [of v "[]"])
qed

lemma extend_num:
  assumes "rails_ok v"
  shows "int (num v (extend xs w sgnd)) = ival sgnd v xs mod 2 ^ w"
proof (cases "length xs \<le> w")
  case True
  moreover from this have "length (extend xs w sgnd) = w" by (simp add: extend_def)
  ultimately show ?thesis using ival_mod [of sgnd v "extend xs w sgnd"] extend_ival [OF assms True] by simp
next
  case False
  then have "int (num v (extend xs w sgnd)) = int (num v xs) mod 2 ^ w"
    by (simp add: extend_def num_take zmod_int)
  also have "\<dots> = ival sgnd v xs mod 2 ^ length xs mod 2 ^ w" by (simp add: ival_mod)
  also have "\<dots> = ival sgnd v xs mod 2 ^ w"
    using False by (simp add: mod_mod_cancel le_imp_power_dvd)
  finally show ?thesis .
qed

lemma extend_ok:
  assumes "wf_ctx ctx" "\<forall>n \<in> set xs. n < n_nets ctx"
  shows "word_ok w (n_nets ctx) (extend xs w sgnd)"
  using assms wf_ctx_rails [OF assms(1)]
  by (auto simp: extend_def Let_def dest: in_set_takeD intro: nth_mem)

lemma ival_bounds:
  assumes "length ns = Suc n"
  shows "- (2 ^ n) \<le> ival True v ns \<and> ival True v ns < 2 ^ n"
    and "0 \<le> ival False v ns \<and> ival False v ns < 2 ^ Suc n"
proof -
  show "- (2 ^ n) \<le> ival True v ns \<and> ival True v ns < 2 ^ n"
    using sval_bounds [of "map v ns"] assms by (force simp: ival_def snum_def)
  have "int (num v ns) < int (2 ^ Suc n)"
    using num_lt [of v ns] assms by (simp only: of_nat_less_iff)
  then show "0 \<le> ival False v ns \<and> ival False v ns < 2 ^ Suc n" by (simp add: ival_def)
qed

text \<open>
  The sign bit of a difference computed with one bit to spare.
\<close>

lemma diff_msb:
  fixes x y :: int
  assumes "length d = Suc n" "int (num v d) = (x - y) mod 2 ^ Suc n" "- (2 ^ n) \<le> x - y" "x - y < 2 ^ n"
  shows "v (d ! (length d - 1)) = (x < y)"
proof -
  have "v (d ! (length d - 1)) = last (map v d)"
    using assms(1) by (simp add: last_conv_nth flip: length_0_conv)
  also have "\<dots> = (2 ^ n \<le> num v d)"
    using uval_last [of "map v d"] assms(1) by (cases "d = []") (simp_all add: num_def)
  also have "\<dots> = (2 ^ n \<le> (x - y) mod 2 ^ Suc n)"
    using assms(2) by (metis of_nat_le_iff of_nat_numeral of_nat_power)
  also have "\<dots> = (x < y)"
  proof (cases "x < y")
    case True
    then have "(x - y + 2 ^ Suc n) mod 2 ^ Suc n = x - y + 2 ^ Suc n"
      using assms(3) by (intro mod_pos_pos_trivial) simp_all
    then have "(x - y) mod 2 ^ Suc n = x - y + 2 ^ Suc n" by (simp only: mod_add_self2)
    with True assms(3) show ?thesis by simp
  next
    case False
    then have "(x - y) mod 2 ^ Suc n = x - y" using assms(4) by (intro mod_pos_pos_trivial) simp_all
    with False assms(4) show ?thesis by simp
  qed
  finally show ?thesis .
qed

text \<open>What a comparison operator means on integers; the others are not comparisons.\<close>

fun order_rel :: "op \<Rightarrow> (int \<Rightarrow> int \<Rightarrow> bool) option" where
  "order_rel Less = Some (<)"
| "order_rel LessEq = Some (\<le>)"
| "order_rel Greater = Some (>)"
| "order_rel GreaterEq = Some (\<ge>)"
| "order_rel _ = None"

definition one_wider :: "bool \<Rightarrow> net_id list \<Rightarrow> net_id list" where
  "one_wider sgnd a = (if sgnd then a @ [a ! (length a - 1)] else a @ [NET_CONST0])"

lemma one_wider_ok:
  "wf_ctx ctx \<Longrightarrow> word_ok n (n_nets ctx) a \<Longrightarrow> a \<noteq> [] \<Longrightarrow> word_ok (Suc n) (n_nets ctx) (one_wider sgnd a)"
  using wf_ctx_rails by (auto simp: one_wider_def)

lemma one_wider_num:
  assumes "rails_ok v" "a \<noteq> []"
  shows "int (num v (one_wider sgnd a)) = ival sgnd v a mod 2 ^ Suc (length a)"
proof -
  have "one_wider sgnd a = extend a (Suc (length a)) sgnd"
    using assms(2) by (simp add: one_wider_def extend_def)
  then show ?thesis using extend_num [OF assms(1), of a "Suc (length a)" sgnd] by simp
qed

lemma sub_one_wider:
  assumes "wf_ctx ctx" "word_ok n (n_nets ctx) a" "word_ok n (n_nets ctx) b" "a \<noteq> []"
  shows "builds ctx (ripple_sub (one_wider sgnd a) (one_wider sgnd b))
    (\<lambda>k r. \<exists>s. r = Inr s \<and> word_ok (Suc n) k s)
    (\<lambda>v r. \<forall>s. r = Inr s \<longrightarrow> v (s ! (length s - 1)) = (ival sgnd v a < ival sgnd v b))"
proof -
  have b: "b \<noteq> []" using assms by auto
  obtain m where m: "n = Suc m" using assms(2,4) by (cases n) auto
  show ?thesis
  proof (rule builds_post_rails
      [OF builds_post [OF ripple_sub_builds [OF assms(1) one_wider_ok [OF assms(1,2,4)] one_wider_ok [OF assms(1,3) b]],
        where Q = "\<lambda>v r. \<exists>s. r = Inr s \<and> length s = Suc n \<and> int (num v s) =
          (int (num v (one_wider sgnd a)) - int (num v (one_wider sgnd b))) mod 2 ^ Suc n"]])
    fix v r
    assume v: "rails_ok v" and "\<exists>s. r = Inr s \<and> length s = Suc n \<and> int (num v s) =
        (int (num v (one_wider sgnd a)) - int (num v (one_wider sgnd b))) mod 2 ^ Suc n"
    then obtain s where s: "r = Inr s" "length s = Suc n" and num: "int (num v s) =
        (ival sgnd v a mod 2 ^ Suc n - ival sgnd v b mod 2 ^ Suc n) mod 2 ^ Suc n"
      using assms b by (auto simp: one_wider_num)
    have "v (s ! (length s - 1)) = (ival sgnd v a < ival sgnd v b)"
      using s(2) num ival_bounds [of a m v] ival_bounds [of b m v] assms(2,3) m
      by (intro diff_msb [where n = n]; cases sgnd) (auto simp: mod_diff_eq)
    with s show "\<forall>s. r = Inr s \<longrightarrow> v (s ! (length s - 1)) = (ival sgnd v a < ival sgnd v b)" by simp
  qed auto
qed

lemma compare_eq:
  assumes "a \<noteq> []" "length a = length b"
  shows "compare a b oper sgnd = do {
    r \<leftarrow> ripple_sub (one_wider sgnd a) (one_wider sgnd b);
    or_return r (\<lambda>diff. let lt = diff ! (length diff - 1) in
      case oper of
        Less \<Rightarrow> State_Monad.return (Inr lt)
      | GreaterEq \<Rightarrow> do { n \<leftarrow> add_cell Not1 [lt]; State_Monad.return (Inr n) }
      | Greater \<Rightarrow> do {
          r2 \<leftarrow> ripple_sub (one_wider sgnd b) (one_wider sgnd a);
          or_return r2 (\<lambda>diff2. State_Monad.return (Inr (diff2 ! (length diff2 - 1)))) }
      | LessEq \<Rightarrow> do {
          r2 \<leftarrow> ripple_sub (one_wider sgnd b) (one_wider sgnd a);
          or_return r2 (\<lambda>diff2. do { n \<leftarrow> add_cell Not1 [diff2 ! (length diff2 - 1)]; State_Monad.return (Inr n) }) }
      | _ \<Rightarrow> State_Monad.return (Inl (Internal (''compare() called with non-comparison op '' @ op_debug oper)))) }"
  unfolding compare_def one_wider_def Let_def assms(2) using assms(1) by simp

lemma compare_builds:
  assumes "wf_ctx ctx" "word_ok n (n_nets ctx) a" "word_ok n (n_nets ctx) b" "a \<noteq> []" "order_rel oper = Some R"
  shows "builds ctx (compare a b oper sgnd) (\<lambda>k r. \<exists>x. r = Inr x \<and> x < k)
    (\<lambda>v r. \<forall>x. r = Inr x \<longrightarrow> v x = R (ival sgnd v a) (ival sgnd v b))"
proof -
  have b: "b \<noteq> []" "length a = length b" using assms by auto
  show ?thesis unfolding compare_eq [OF assms(4) b(2)]
  proof (rule builds_or_return [OF sub_one_wider [OF assms(1-4)]])
    fix d c1 assume 1: "wf_ctx c1" "extends ctx c1" "word_ok (Suc n) (n_nets c1) d"
    let ?lt = "\<lambda>v. v (d ! (length d - 1)) = (ival sgnd v a < ival sgnd v b)"
    have d: "d ! (length d - 1) < n_nets c1" using 1(3) by auto
    note sub2 = sub_one_wider [OF 1(1) word_ok_mono [OF assms(3) extends_n_nets [OF 1(2)]]
        word_ok_mono [OF assms(2) extends_n_nets [OF 1(2)]] b(1), of sgnd]
    let ?N = "\<lambda>k r. \<exists>x. r = Inr x \<and> x < k" and ?Q = "\<lambda>v r. \<forall>x. r = Inr x \<longrightarrow> v x = R (ival sgnd v a) (ival sgnd v b)"
    consider "oper = Less" "R = (<)" | "oper = LessEq" "R = (\<le>)" | "oper = Greater" "R = (>)" | "oper = GreaterEq" "R = (\<ge>)"
      using assms(5) by (cases oper) auto
    then show "builds c1 (let lt = d ! (length d - 1) in case oper of
        Less \<Rightarrow> State_Monad.return (Inr lt)
      | GreaterEq \<Rightarrow> do { n \<leftarrow> add_cell Not1 [lt]; State_Monad.return (Inr n) }
      | Greater \<Rightarrow> do {
          r2 \<leftarrow> ripple_sub (one_wider sgnd b) (one_wider sgnd a);
          or_return r2 (\<lambda>diff2. State_Monad.return (Inr (diff2 ! (length diff2 - 1)))) }
      | LessEq \<Rightarrow> do {
          r2 \<leftarrow> ripple_sub (one_wider sgnd b) (one_wider sgnd a);
          or_return r2 (\<lambda>diff2. do { n \<leftarrow> add_cell Not1 [diff2 ! (length diff2 - 1)]; State_Monad.return (Inr n) }) }
      | _ \<Rightarrow> State_Monad.return (Inl (Internal (''compare() called with non-comparison op '' @ op_debug oper))))
      ?N (\<lambda>v s. ?lt v \<longrightarrow> ?Q v s)"
    proof cases
      case 1
      then show ?thesis using \<open>wf_ctx c1\<close> d by (auto intro!: final_return)
    next
      case 2
      then show ?thesis
        by (auto intro!: builds_or_return [OF sub2] bind_cell_1 final_return)
    next
      case 3
      then show ?thesis
        by (auto intro!: builds_or_return [OF sub2] final_return)
    next
      case 4
      then show ?thesis using \<open>wf_ctx c1\<close> d by (auto intro!: bind_cell_1 final_return)
    qed
  qed
qed


subsection \<open>Properties\<close>

text \<open>
  C8: The adder the dispatch picks (ripple carry below four bits, Kogge-Stone from four
  bits on) adds two vectors of any equal length and a carry, modulo two to the length; on
  unequal lengths it is the internal error and emits nothing.
\<close>

theorem ripple_add_correct:
  assumes "wf_ctx ctx" "\<forall>x \<in> set a. x < n_nets ctx" "\<forall>x \<in> set b. x < n_nets ctx" "cin < n_nets ctx"
  shows "if length a = length b
    then \<exists>s ctx'. run_state (ripple_add a b cin) ctx = (Inr s, ctx') \<and> wf_ctx ctx' \<and> extends ctx ctx' \<and>
      word_ok (length a) (n_nets ctx') s \<and>
      (\<forall>v. sat v ctx' \<longrightarrow> num v s = (num v a + num v b + of_bool (v cin)) mod 2 ^ length a)
    else run_state (ripple_add a b cin) ctx = (Inl (Internal ''add operand width mismatch''), ctx)"
  using assms builds_run_ok [OF ripple.add_builds [of ctx a "length a" b cin]]
  by (auto simp: ripple_add_mismatch)

lemma ripple_add_correct_witness:
  "\<exists>s ctx'. run_state (ripple_add [2, 3, 4, 5] [6, 7, 8, 9] NET_CONST0) (inputs_ctx 8) = (Inr s, ctx') \<and>
     length s = 4 \<and> (\<forall>v. sat v ctx' \<longrightarrow> num v s = (num v [2, 3, 4, 5] + num v [6, 7, 8, 9] +
        of_bool (v NET_CONST0)) mod 16)"
  using ripple_add_correct [of "inputs_ctx 8" "[2, 3, 4, 5]" "[6, 7, 8, 9]" NET_CONST0]
  by (auto simp: rails simp del: num_Cons)

text \<open>
  \<open>ripple_sub\<close> subtracts modulo two to the length.
\<close>

theorem ripple_sub_correct:
  assumes "wf_ctx ctx" "word_ok n (n_nets ctx) a" "word_ok n (n_nets ctx) b"
  shows "\<exists>s ctx'. run_state (ripple_sub a b) ctx = (Inr s, ctx') \<and> wf_ctx ctx' \<and> extends ctx ctx' \<and>
    word_ok n (n_nets ctx') s \<and>
    (\<forall>v. sat v ctx' \<longrightarrow> int (num v s) = (int (num v a) - int (num v b)) mod 2 ^ n)"
  using ripple_sub_builds [OF assms] by (rule builds_run_ok)

lemma ripple_sub_correct_witness:
  "\<exists>s ctx'. run_state (ripple_sub [2, 3, 4, 5, 6] [6, 5, 4, 3, 2]) (inputs_ctx 5) = (Inr s, ctx') \<and>
     (\<forall>v. sat v ctx' \<longrightarrow> int (num v s) = (int (num v [2, 3, 4, 5, 6]) - int (num v [6, 5, 4, 3, 2])) mod 2 ^ 5)"
  using ripple_sub_correct [where ctx = "inputs_ctx 5" and n = 5 and a = "[2, 3, 4, 5, 6]" and b = "[6, 5, 4, 3, 2]"]
  by (auto simp del: num_Cons)

text \<open>
  C9: each of the four comparisons, signed or unsigned, of two non-empty vectors of equal
  length is the comparison of the integers they stand for.
\<close>

theorem compare_correct:
  assumes "wf_ctx ctx" "word_ok n (n_nets ctx) a" "word_ok n (n_nets ctx) b" "0 < n" "order_rel oper = Some R"
  shows "\<exists>x ctx'. run_state (compare a b oper sgnd) ctx = (Inr x, ctx') \<and> wf_ctx ctx' \<and> extends ctx ctx' \<and>
    x < n_nets ctx' \<and> (\<forall>v. sat v ctx' \<longrightarrow> v x = R (ival sgnd v a) (ival sgnd v b))"
proof -
  have "a \<noteq> []" using assms by auto
  from compare_builds [OF assms(1-3) this assms(5)] show ?thesis by (rule builds_run_ok)
qed

lemma compare_correct_witness:
  "\<exists>x ctx'. run_state (compare [2, 3, 4] [5, 6, 7] LessEq True) (inputs_ctx 6) = (Inr x, ctx') \<and>
     (\<forall>v. sat v ctx' \<longrightarrow> v x = (ival True v [2, 3, 4] \<le> ival True v [5, 6, 7]))"
  using compare_correct [where ctx = "inputs_ctx 6" and n = 3 and a = "[2, 3, 4]" and b = "[5, 6, 7]" and oper = LessEq and R = "(\<le>)" and sgnd = True] by auto

text \<open>
  \<open>equal\<close> compares two vectors of equal length; the empty vectors are equal.
\<close>

theorem equal_correct:
  assumes "wf_ctx ctx" "word_ok n (n_nets ctx) a" "word_ok n (n_nets ctx) b"
  shows "\<exists>x ctx'. run_state (equal a b) ctx = (x, ctx') \<and> wf_ctx ctx' \<and> extends ctx ctx' \<and>
    x < n_nets ctx' \<and> (\<forall>v. sat v ctx' \<longrightarrow> v x = (map v a = map v b))"
proof -
  have "num v a = num v b \<longleftrightarrow> map v a = map v b" for v
    unfolding num_def using assms by (intro uval_eq_iff) auto
  with equal_builds [OF assms] show ?thesis by (auto dest!: builds_run_result)
qed

lemma equal_correct_witness:
  "\<exists>x ctx'. run_state (equal [2, 3] [4, 5]) (inputs_ctx 4) = (x, ctx') \<and>
     (\<forall>v. sat v ctx' \<longrightarrow> v x = (v 2 = v 4 \<and> v 3 = v 5))"
  using equal_correct [where ctx = "inputs_ctx 4" and n = 2 and a = "[2, 3]" and b = "[4, 5]"] by auto

end
