(* ===== verification/Multiply.thy ===== *)
theory Multiply
  imports Subtract
begin

section \<open>Multiplication (\<open>conv/arith.rs\<close>)\<close>

text \<open>
  The two array multipliers, shift-and-add and the Wallace tree, as interpretations of one
  interface, and \<open>multiply\<close>, the client that extends the operands to the result width and
  picks one by that width. A column of partial products is a bucket; the value of the
  buckets weighs column \<open>c\<close> with two to the \<open>c\<close>. A compression round ends because
  it lowers the number of nets in the buckets whenever a column has more than two.
\<close>

subsection \<open>The emitters\<close>

definition partial_bit :: "net_id list \<Rightarrow> net_id list \<Rightarrow> nat \<Rightarrow> nat \<Rightarrow> net_id list \<Rightarrow> (conv_ctx, net_id list) state" where
  "partial_bit a_ext b_ext i j row = do {
     n \<leftarrow> add_cell And2 [b_ext ! i, a_ext ! (j - i)];
     State_Monad.return (row[j := n])
   }"

definition shift_add_row ::
    "net_id list \<Rightarrow> net_id list \<Rightarrow> nat \<Rightarrow> nat \<Rightarrow> net_id list \<Rightarrow> (conv_ctx, synth_error + net_id list) state" where
  "shift_add_row a_ext b_ext result_width i acc = do {
     row \<leftarrow> foldM (partial_bit a_ext b_ext i) [i..<result_width] (replicate result_width NET_CONST0);
     ripple_add acc row NET_CONST0
   }"

definition shift_add_multiply ::
    "net_id list \<Rightarrow> net_id list \<Rightarrow> nat \<Rightarrow> (conv_ctx, synth_error + net_id list) state" where
  "shift_add_multiply a_ext b_ext result_width =
     foldM_try (shift_add_row a_ext b_ext result_width) [0..<result_width] (replicate result_width NET_CONST0)"

definition push_at :: "nat \<Rightarrow> net_id \<Rightarrow> net_id list list \<Rightarrow> net_id list list" where
  "push_at c n bs = bs[c := bs ! c @ [n]]"

definition push_carry :: "nat \<Rightarrow> nat \<Rightarrow> net_id \<Rightarrow> net_id list list \<Rightarrow> net_id list list" where
  "push_carry w c n bs = (if c + 1 < w then push_at (c + 1) n bs else bs)"

definition product_bit ::
    "net_id list \<Rightarrow> net_id list \<Rightarrow> nat \<Rightarrow> nat \<Rightarrow> net_id list list \<Rightarrow> (conv_ctx, net_id list list) state" where
  "product_bit a_ext b_ext i j buckets = do {
     pp \<leftarrow> add_cell And2 [b_ext ! i, a_ext ! j];
     State_Monad.return (push_at (i + j) pp buckets)
   }"

definition partial_products ::
    "net_id list \<Rightarrow> net_id list \<Rightarrow> nat \<Rightarrow> (conv_ctx, net_id list list) state" where
  "partial_products a_ext b_ext w =
     foldM (\<lambda>i. foldM (product_bit a_ext b_ext i) [0..<w - i]) [0..<w] (replicate w [])"

text \<open>One column: triples through full adders, a tail pair through a half adder.\<close>

fun compress_column :: "nat \<Rightarrow> nat \<Rightarrow> net_id list \<Rightarrow> net_id list list \<Rightarrow> (conv_ctx, net_id list list) state" where
  "compress_column w c (x # y # z # col) nxt = do {
     (s, cy) \<leftarrow> full_adder x y z;
     compress_column w c col (push_carry w c cy (push_at c s nxt))
   }"
| "compress_column w c [x, y] nxt = do {
     s \<leftarrow> add_cell Xor2 [x, y];
     cy \<leftarrow> add_cell And2 [x, y];
     State_Monad.return (push_carry w c cy (push_at c s nxt))
   }"
| "compress_column w c [x] nxt = State_Monad.return (push_at c x nxt)"
| "compress_column w c [] nxt = State_Monad.return nxt"

definition compress :: "nat \<Rightarrow> net_id list list \<Rightarrow> (conv_ctx, net_id list list) state" where
  "compress w buckets = foldM (\<lambda>c. compress_column w c (buckets ! c)) [0..<w] (replicate w [])"

definition max_height :: "net_id list list \<Rightarrow> nat" where
  "max_height buckets = fold max (map length buckets) 0"

subsection \<open>The compression loop ends\<close>

definition entries :: "net_id list list \<Rightarrow> nat" where
  "entries bs = sum_list (map length bs)"

lemma length_push [simp]: "length (push_at c n bs) = length bs" "length (push_carry w c n bs) = length bs"
  by (simp_all add: push_at_def push_carry_def)

lemma entries_push: "c < length bs \<Longrightarrow> entries (push_at c n bs) = Suc (entries bs)"
proof (induction bs arbitrary: c)
  case (Cons b bs)
  then show ?case by (cases c) (simp_all add: push_at_def entries_def)
qed simp

lemma entries_push_carry: "length bs = w \<Longrightarrow> entries (push_carry w c n bs) \<le> Suc (entries bs)"
  by (simp add: push_carry_def entries_push)

lemma run_full_adder_exists: "\<exists>s cy ctx'. run_state (full_adder a b c) ctx = ((s, cy), ctx')"
  by (metis surj_pair)

lemma compress_column_entries:
  assumes "run_state (compress_column w c col nxt) ctx = (nxt', ctx')" "length nxt = w" "c < w"
  shows "length nxt' = w \<and> entries nxt' \<le> entries nxt + length col \<and>
    (length col > 2 \<longrightarrow> entries nxt' < entries nxt + length col)"
  using assms
proof (induction w c col nxt arbitrary: ctx rule: compress_column.induct)
  case (1 w c x y z col nxt)
  obtain s cy c1 where fa: "run_state (full_adder x y z) ctx = ((s, cy), c1)"
    using run_full_adder_exists by blast
  let ?n = "push_carry w c cy (push_at c s nxt)"
  have "run_state (compress_column w c col ?n) c1 = (nxt', ctx')"
    using "1.prems"(1) fa by simp
  then have "length nxt' = w \<and> entries nxt' \<le> entries ?n + length col"
    using "1.IH" "1.prems"(2,3) by fastforce
  moreover have "entries ?n \<le> entries nxt + 2"
    using entries_push_carry [of "push_at c s nxt" w c cy] entries_push [of c nxt s] "1.prems" by simp
  ultimately show ?case by simp
next
  case (2 w c x y nxt)
  then show ?case
    using entries_push [of c nxt] entries_push_carry [of "push_at c _ nxt" w c]
    by (auto simp: case_prod_beta' split: prod.splits)
qed (auto simp: entries_push)

lemma compress_fold_entries:
  assumes "run_state (foldM (\<lambda>c. compress_column w c (bs ! c)) cs nxt) ctx = (nxt', ctx')"
    "length nxt = w" "\<forall>c \<in> set cs. c < w"
  shows "length nxt' = w \<and> entries nxt' \<le> entries nxt + sum_list (map (\<lambda>c. length (bs ! c)) cs) \<and>
    ((\<exists>c \<in> set cs. length (bs ! c) > 2) \<longrightarrow>
       entries nxt' < entries nxt + sum_list (map (\<lambda>c. length (bs ! c)) cs))"
  using assms
proof (induction cs arbitrary: nxt ctx)
  case (Cons c cs)
  obtain n1 c1 where 1: "run_state (compress_column w c (bs ! c) nxt) ctx = (n1, c1)"
    by (metis surj_pair)
  have "run_state (foldM (\<lambda>c. compress_column w c (bs ! c)) cs n1) c1 = (nxt', ctx')"
    using Cons.prems(1) 1 by simp
  with Cons.IH [of n1 c1] compress_column_entries [OF 1] Cons.prems(2,3) show ?case by auto
qed simp

lemma fold_max_le: "fold max ns (m::nat) \<le> h \<longleftrightarrow> m \<le> h \<and> (\<forall>n \<in> set ns. n \<le> h)"
  by (induction ns arbitrary: m) auto

lemma max_height_le: "max_height bs \<le> h \<longleftrightarrow> (\<forall>b \<in> set bs. length b \<le> h)"
  by (simp add: max_height_def fold_max_le)

lemma compress_entries:
  assumes "run_state (compress w bs) ctx = (bs', ctx')" "length bs = w" "\<not> max_height bs \<le> 2"
  shows "length bs' = w \<and> entries bs' < entries bs"
proof -
  have "map (\<lambda>c. length (bs ! c)) [0..<w] = map length bs"
    using assms(2) by (intro nth_equalityI) auto
  moreover have "\<exists>c \<in> set [0..<w]. length (bs ! c) > 2"
    using assms(2,3) by (fastforce simp: max_height_le in_set_conv_nth not_le)
  ultimately show ?thesis
    using compress_fold_entries [OF assms(1)[unfolded compress_def]] by (auto simp: entries_def sum_list_replicate)
qed

text \<open>There are \<open>result_width\<close> buckets throughout.\<close>

function wallace_loop :: "net_id list list \<Rightarrow> conv_ctx \<Rightarrow> net_id list list \<times> conv_ctx" where
  "wallace_loop buckets ctx =
     (if max_height buckets \<le> 2 then (buckets, ctx)
      else case run_state (compress (length buckets) buckets) ctx of (nxt, ctx') \<Rightarrow> wallace_loop nxt ctx')"
  by pat_completeness auto
termination
proof (relation "measure (\<lambda>(buckets, ctx). entries buckets)")
  fix buckets nxt :: "net_id list list" and ctx ctx' :: conv_ctx
  assume "\<not> max_height buckets \<le> 2" "(nxt, ctx') = run_state (compress (length buckets) buckets) ctx"
  then show "((nxt, ctx'), buckets, ctx) \<in> measure (\<lambda>(buckets, ctx). entries buckets)"
    using compress_entries [of "length buckets" buckets ctx nxt ctx'] by (auto split: prod.split)
qed simp

declare wallace_loop.simps [simp del]

definition bucket_entry :: "net_id list list \<Rightarrow> nat \<Rightarrow> nat \<Rightarrow> net_id" where
  "bucket_entry buckets r c = (if r < length (buckets ! c) then buckets ! c ! r else NET_CONST0)"

definition wallace_multiply ::
    "net_id list \<Rightarrow> net_id list \<Rightarrow> nat \<Rightarrow> (conv_ctx, synth_error + net_id list) state" where
  "wallace_multiply a_ext b_ext w = do {
     pps \<leftarrow> partial_products a_ext b_ext w;
     buckets \<leftarrow> State (wallace_loop pps);
     ripple_add (map (bucket_entry buckets 0) [0..<w]) (map (bucket_entry buckets 1) [0..<w]) NET_CONST0
   }"

definition multiply ::
    "net_id list \<Rightarrow> net_id list \<Rightarrow> nat \<Rightarrow> bool \<Rightarrow> (conv_ctx, synth_error + net_id list) state" where
  "multiply a b result_width sgnd =
     (if result_width = 0 then State_Monad.return (Inr [])
      else
        let a_ext = extend a result_width sgnd;
            b_ext = extend b result_width sgnd
        in if result_width \<ge> 4 then wallace_multiply a_ext b_ext result_width
           else shift_add_multiply a_ext b_ext result_width)"

subsection \<open>The value of the buckets\<close>

fun bucket_sum :: "(net_id \<Rightarrow> bool) \<Rightarrow> net_id list list \<Rightarrow> nat" where
  "bucket_sum v [] = 0"
| "bucket_sum v (b # bs) = ones v b + 2 * bucket_sum v bs"

lemma bucket_sum_push: "c < length bs \<Longrightarrow> bucket_sum v (push_at c n bs) = bucket_sum v bs + 2 ^ c * of_bool (v n)"
proof (induction bs arbitrary: c)
  case (Cons b bs)
  then show ?case by (cases c) (simp_all add: push_at_def)
qed simp

lemma bucket_sum_push_carry:
  "length bs = w \<Longrightarrow> c < w \<Longrightarrow>
    bucket_sum v (push_carry w c n bs) mod 2 ^ w = (bucket_sum v bs + 2 ^ Suc c * of_bool (v n)) mod 2 ^ w"
proof (cases "Suc c < w")
  case False
  moreover assume "c < w"
  ultimately have "w = Suc c" by simp
  then show ?thesis by (simp add: push_carry_def)
qed (simp add: push_carry_def bucket_sum_push)

lemma bucket_sum_empty [simp]: "bucket_sum v (replicate w []) = 0"
  by (induction w) auto

lemma bucket_sum_drop:
  "c < length bs \<Longrightarrow> bucket_sum v (drop c bs) = ones v (bs ! c) + 2 * bucket_sum v (drop (Suc c) bs)"
  by (simp add: Cons_nth_drop_Suc [symmetric])

text \<open>What a column contributes to its own and the next position.\<close>

abbreviation nets_ok :: "nat \<Rightarrow> net_id list list \<Rightarrow> bool" where
  "nets_ok k bs \<equiv> \<forall>b \<in> set bs. \<forall>n \<in> set b. n < k"

definition buckets_ok :: "nat \<Rightarrow> nat \<Rightarrow> net_id list list \<Rightarrow> bool" where
  "buckets_ok w k bs \<longleftrightarrow> length bs = w \<and> nets_ok k bs"

lemma buckets_ok_mono: "buckets_ok w k bs \<Longrightarrow> k \<le> k' \<Longrightarrow> buckets_ok w k' bs"
  by (fastforce simp: buckets_ok_def)

lemma buckets_ok_nth: "buckets_ok w k bs \<Longrightarrow> c < w \<Longrightarrow> r < length (bs ! c) \<Longrightarrow> bs ! c ! r < k"
  using nth_mem [of c bs] nth_mem [of r "bs ! c"] unfolding buckets_ok_def by blast

lemma buckets_ok_push:
  assumes "buckets_ok w k0 bs" "k0 \<le> k" "c < w" "n < k"
  shows "buckets_ok w k (push_at c n bs)"
  using buckets_ok_mono [OF assms(1,2)] assms(3,4) nth_mem [of c bs]
  by (auto simp: buckets_ok_def push_at_def simp del: nth_mem dest!: set_update_subset_insert [THEN subsetD])

lemma buckets_ok_push_carry:
  assumes "buckets_ok w k0 bs" "k0 \<le> k" "n < k"
  shows "buckets_ok w k (push_carry w c n bs)"
  using assms buckets_ok_mono [OF assms(1,2)] by (auto simp: push_carry_def intro: buckets_ok_push)

lemma buckets_ok_empty [simp]: "buckets_ok w k (replicate w [])"
  by (simp add: buckets_ok_def)

lemma bucket_sum_push_pair:
  assumes "length bs = w" "c < w"
  shows "(bucket_sum v (push_carry w c cy (push_at c s bs)) + m) mod 2 ^ w =
    (bucket_sum v bs + 2 ^ c * (of_bool (v s) + 2 * of_bool (v cy)) + m) mod 2 ^ w"
proof -
  have "bucket_sum v (push_carry w c cy (push_at c s bs)) mod 2 ^ w =
      (bucket_sum v (push_at c s bs) + 2 ^ Suc c * of_bool (v cy)) mod 2 ^ w"
    using assms by (intro bucket_sum_push_carry) auto
  also have "bucket_sum v (push_at c s bs) + 2 ^ Suc c * of_bool (v cy) =
      bucket_sum v bs + 2 ^ c * (of_bool (v s) + 2 * of_bool (v cy))"
    using assms by (simp add: bucket_sum_push algebra_simps)
  finally show ?thesis by (metis mod_add_left_eq)
qed

lemma compress_column_builds:
  assumes "wf_ctx ctx" "buckets_ok w (n_nets ctx) nxt" "\<forall>n \<in> set col. n < n_nets ctx" "c < w"
  shows "builds ctx (compress_column w c col nxt) (buckets_ok w)
    (\<lambda>v r. bucket_sum v r mod 2 ^ w = (bucket_sum v nxt + 2 ^ c * ones v col) mod 2 ^ w)"
  using assms
proof (induction w c col nxt arbitrary: ctx rule: compress_column.induct)
  case (1 w c x y z col nxt)
  have len: "length nxt = w" using "1.prems"(2) by (simp add: buckets_ok_def)
  have eq: "compress_column w c (x # y # z # col) nxt =
      full_adder x y z \<bind> (\<lambda>r. compress_column w c col (push_carry w c (snd r) (push_at c (fst r) nxt)))"
    by (simp add: case_prod_beta')
  show ?case unfolding eq
  proof (rule builds_bind [OF full_adder_builds])
    fix r c1 assume r: "wf_ctx c1" "extends ctx c1" "fst r < n_nets c1 \<and> snd r < n_nets c1"
    let ?n = "push_carry w c (snd r) (push_at c (fst r) nxt)"
    have "buckets_ok w (n_nets c1) ?n"
      using buckets_ok_push [OF "1.prems"(2) extends_n_nets [OF r(2)] "1.prems"(4)] r
      by (intro buckets_ok_push_carry [OF _ order_refl]) auto
    then have "builds c1 (compress_column w c col ?n) (buckets_ok w)
        (\<lambda>v t. bucket_sum v t mod 2 ^ w = (bucket_sum v ?n + 2 ^ c * ones v col) mod 2 ^ w)"
      using "1.prems" r nets_range_mono [OF _ r(2), of col] by (intro "1.IH") (auto simp: prod_eq_iff)
    then show "builds c1 (compress_column w c col ?n) (buckets_ok w)
        (\<lambda>v t. (of_bool (v (fst r)) + 2 * of_bool (v (snd r)) :: nat) =
            of_bool (v x) + of_bool (v y) + of_bool (v z) \<longrightarrow>
          bucket_sum v t mod 2 ^ w = (bucket_sum v nxt + 2 ^ c * ones v (x # y # z # col)) mod 2 ^ w)"
    proof (rule builds_post, intro impI)
      fix v t
      assume t: "bucket_sum v t mod 2 ^ w = (bucket_sum v ?n + 2 ^ c * ones v col) mod 2 ^ w"
        and fa: "(of_bool (v (fst r)) + 2 * of_bool (v (snd r)) :: nat) = of_bool (v x) + of_bool (v y) + of_bool (v z)"
      have "ones v (x # y # z # col) = of_bool (v (fst r)) + 2 * of_bool (v (snd r)) + ones v col"
        unfolding fa by simp
      then show "bucket_sum v t mod 2 ^ w = (bucket_sum v nxt + 2 ^ c * ones v (x # y # z # col)) mod 2 ^ w"
        by (simp only: t bucket_sum_push_pair [OF len "1.prems"(4)] distrib_left add.assoc)
    qed
  qed (use "1.prems" in auto)
next
  case (2 w c x y nxt)
  have len: "length nxt = w" using "2.prems"(2) by (simp add: buckets_ok_def)
  note pair = bucket_sum_push_pair [OF len "2.prems"(4), where m = 0, simplified]
  from "2.prems" show ?case
    unfolding compress_column.simps
    apply (intro bind_cells final_return)
    apply (simp_all add: pair)
    subgoal for s c1 cy c2
      by (intro buckets_ok_push_carry [where ?k0.0 = "n_nets c2"] buckets_ok_push [where ?k0.0 = "n_nets ctx"]) simp_all
    done
next
  case (3 w c x nxt)
  then have "length nxt = w" by (simp add: buckets_ok_def)
  with 3 show ?case by (auto intro!: final_return buckets_ok_push simp: bucket_sum_push)
qed (auto intro: final_return)

lemma compress_builds:
  assumes "wf_ctx ctx" "buckets_ok w (n_nets ctx) bs"
  shows "builds ctx (compress w bs) (buckets_ok w)
    (\<lambda>v r. bucket_sum v r mod 2 ^ w = bucket_sum v bs mod 2 ^ w)"
proof -
  let ?J = "\<lambda>v j r. (bucket_sum v r + 2 ^ j * bucket_sum v (drop j bs)) mod 2 ^ w = bucket_sum v bs mod 2 ^ w"
  have len: "length bs = w" using assms(2) by (simp add: buckets_ok_def)
  have "builds ctx (compress w bs) (buckets_ok w)
      (\<lambda>v r. ?J v 0 (replicate w []) \<longrightarrow> ?J v (length [0..<w]) r)"
    unfolding compress_def
  proof (rule builds_foldM [where N = "\<lambda>k _. buckets_ok w k" and J = ?J])
    fix j acc ctx'
    assume j: "j < length [0..<w]" and e: "wf_ctx ctx'" "extends ctx ctx'" "buckets_ok w (n_nets ctx') acc"
    then have col: "\<forall>n \<in> set (bs ! j). n < n_nets ctx'"
      using buckets_ok_mono [OF assms(2) extends_n_nets [OF e(2)]] len by (auto simp: buckets_ok_def)
    have "builds ctx' (compress_column w j (bs ! j) acc) (buckets_ok w)
      (\<lambda>v r. bucket_sum v r mod 2 ^ w = (bucket_sum v acc + 2 ^ j * ones v (bs ! j)) mod 2 ^ w)"
      using j by (intro compress_column_builds e col) simp
    moreover have "?J v j acc \<longrightarrow> ?J v (Suc j) r"
      if "bucket_sum v r mod 2 ^ w = (bucket_sum v acc + 2 ^ j * ones v (bs ! j)) mod 2 ^ w" for v r
    proof -
      have "(bucket_sum v r + 2 ^ Suc j * bucket_sum v (drop (Suc j) bs)) mod 2 ^ w =
          (bucket_sum v acc + 2 ^ j * ones v (bs ! j) + 2 ^ Suc j * bucket_sum v (drop (Suc j) bs)) mod 2 ^ w"
        using that by (metis mod_add_left_eq)
      also have "\<dots> = (bucket_sum v acc + 2 ^ j * bucket_sum v (drop j bs)) mod 2 ^ w"
        using j len by (simp add: bucket_sum_drop algebra_simps)
      finally show ?thesis by simp
    qed
    ultimately show "builds ctx' (compress_column w ([0..<w] ! j) (bs ! ([0..<w] ! j)) acc) (buckets_ok w)
        (\<lambda>v r. ?J v j acc \<longrightarrow> ?J v (Suc j) r)"
      using j by (simp add: builds_post)
  qed (use assms in auto)
  then show ?thesis by (rule builds_post) (use len in simp)
qed

lemma wallace_loop_builds:
  assumes "wf_ctx ctx" "buckets_ok w (n_nets ctx) bs"
  shows "builds ctx (State (wallace_loop bs))
    (\<lambda>k r. buckets_ok w k r \<and> (\<forall>b \<in> set r. length b \<le> 2))
    (\<lambda>v r. bucket_sum v r mod 2 ^ w = bucket_sum v bs mod 2 ^ w)"
  using assms
proof (induction "entries bs" arbitrary: bs ctx rule: less_induct)
  case less
  have len: "length bs = w" using less.prems by (simp add: buckets_ok_def)
  show ?case
  proof (cases "max_height bs \<le> 2")
    case True
    with less.prems show ?thesis by (simp add: builds_def wallace_loop.simps max_height_le)
  next
    case False
    have eq: "State (wallace_loop bs) = compress w bs \<bind> (\<lambda>nxt. State (wallace_loop nxt))"
      using False len by (intro state_ext) (simp add: wallace_loop.simps [of bs])
    have "builds ctx (compress w bs) (\<lambda>k r. buckets_ok w k r \<and> entries r < entries bs)
        (\<lambda>v r. bucket_sum v r mod 2 ^ w = bucket_sum v bs mod 2 ^ w)"
      using compress_entries [OF _ len False] by (intro builds_fact [OF compress_builds [OF less.prems]]) auto
    then show ?thesis unfolding eq
    proof (rule builds_bind)
      fix nxt ctx'
      assume *: "wf_ctx ctx'" "extends ctx ctx'" "buckets_ok w (n_nets ctx') nxt \<and> entries nxt < entries bs"
      then have "builds ctx' (State (wallace_loop nxt))
          (\<lambda>k r. buckets_ok w k r \<and> (\<forall>b \<in> set r. length b \<le> 2))
          (\<lambda>v r. bucket_sum v r mod 2 ^ w = bucket_sum v nxt mod 2 ^ w)"
        by (intro less.hyps) auto
      then show "builds ctx' (State (wallace_loop nxt))
          (\<lambda>k r. buckets_ok w k r \<and> (\<forall>b \<in> set r. length b \<le> 2))
          (\<lambda>v r. bucket_sum v nxt mod 2 ^ w = bucket_sum v bs mod 2 ^ w \<longrightarrow>
             bucket_sum v r mod 2 ^ w = bucket_sum v bs mod 2 ^ w)"
        by (rule builds_post) simp
    qed
  qed
qed

subsection \<open>Partial products\<close>

lemma product_row_builds:
  assumes wf: "wf_ctx ctx" and bk: "buckets_ok w (n_nets ctx) bs" and a: "word_ok w (n_nets ctx) a"
    and b: "word_ok w (n_nets ctx) b" and i: "i < w"
  shows "builds ctx (foldM (product_bit a b i) [0..<w - i] bs) (buckets_ok w)
    (\<lambda>v r. bucket_sum v r = bucket_sum v bs + 2 ^ i * (of_bool (v (b ! i)) * num v (take (w - i) a)))"
proof -
  let ?J = "\<lambda>v j r. bucket_sum v r = bucket_sum v bs + 2 ^ i * (of_bool (v (b ! i)) * num v (take j a))"
  have "builds ctx (foldM (product_bit a b i) [0..<w - i] bs) (buckets_ok w)
      (\<lambda>v r. ?J v 0 bs \<longrightarrow> ?J v (length [0..<w - i]) r)"
  proof (rule builds_foldM [where N = "\<lambda>k _. buckets_ok w k" and J = ?J])
    fix j acc ctx'
    assume j: "j < length [0..<w - i]" and e: "wf_ctx ctx'" "extends ctx ctx'" "buckets_ok w (n_nets ctx') acc"
    have "b ! i < n_nets ctx'" "a ! j < n_nets ctx'"
      using a b i j e(2) by (auto intro: in_range_mono word_ok_nth)
    moreover have "length acc = w" using e(3) by (simp add: buckets_ok_def)
    ultimately show "builds ctx' (product_bit a b i ([0..<w - i] ! j) acc) (buckets_ok w)
        (\<lambda>v r. ?J v j acc \<longrightarrow> ?J v (Suc j) r)"
      unfolding product_bit_def using a i j
      by (intro bind_cell_2 final_return buckets_ok_push [OF e(3)])
        (simp_all add: e bucket_sum_push num_take_Suc power_add algebra_simps)
  qed (use assms in auto)
  then show ?thesis by (rule builds_post) simp
qed

lemma shifted_row_mod:
  assumes "i < w"
  shows "2 ^ i * (of_bool x * num v (take (w - i) a)) mod 2 ^ w = 2 ^ i * (of_bool x * num v a) mod 2 ^ w"
proof -
  have "(2::nat) ^ w = 2 ^ i * 2 ^ (w - i)" using assms by (simp flip: power_add)
  then have "2 ^ i * num v (take (w - i) a) mod 2 ^ w = 2 ^ i * num v a mod 2 ^ w"
    by (simp only: num_take mult_mod_right mod_mod_trivial)
  then show ?thesis by (cases x) simp_all
qed

lemma partial_products_builds:
  assumes wf: "wf_ctx ctx" and a: "word_ok w (n_nets ctx) a" and b: "word_ok w (n_nets ctx) b"
  shows "builds ctx (partial_products a b w) (buckets_ok w)
    (\<lambda>v r. bucket_sum v r mod 2 ^ w = (num v a * num v b) mod 2 ^ w)"
proof -
  let ?J = "\<lambda>v i r. bucket_sum v r mod 2 ^ w = (num v a * num v (take i b)) mod 2 ^ w"
  have "builds ctx (partial_products a b w) (buckets_ok w)
      (\<lambda>v r. ?J v 0 (replicate w []) \<longrightarrow> ?J v (length [0..<w]) r)"
    unfolding partial_products_def
  proof (rule builds_foldM [where N = "\<lambda>k _. buckets_ok w k" and J = ?J])
    fix i acc ctx'
    assume i: "i < length [0..<w]" and e: "wf_ctx ctx'" "extends ctx ctx'" "buckets_ok w (n_nets ctx') acc"
    note m = word_ok_mono [OF _ extends_n_nets [OF e(2)]]
    have row: "builds ctx' (foldM (product_bit a b i) [0..<w - i] acc) (buckets_ok w)
      (\<lambda>v r. bucket_sum v r = bucket_sum v acc + 2 ^ i * (of_bool (v (b ! i)) * num v (take (w - i) a)))"
      using i by (intro product_row_builds e m [OF a] m [OF b]) simp
    have "?J v i acc \<longrightarrow> ?J v (Suc i) r"
      if "bucket_sum v r = bucket_sum v acc + 2 ^ i * (of_bool (v (b ! i)) * num v (take (w - i) a))" for v r
    proof
      assume J: "?J v i acc"
      have "2 ^ i * (of_bool (v (b ! i)) * num v (take (w - i) a)) mod 2 ^ w =
          2 ^ i * (of_bool (v (b ! i)) * num v a) mod 2 ^ w"
        using i by (intro shifted_row_mod) simp
      with that J have "bucket_sum v r mod 2 ^ w =
          (num v a * num v (take i b) + 2 ^ i * (of_bool (v (b ! i)) * num v a)) mod 2 ^ w"
        by (metis mod_add_eq)
      then show "?J v (Suc i) r"
        using i b by (simp add: num_take_Suc algebra_simps)
    qed
    with row show "builds ctx' (foldM (product_bit a b ([0..<w] ! i)) [0..<w - [0..<w] ! i] acc) (buckets_ok w)
        (\<lambda>v r. ?J v i acc \<longrightarrow> ?J v (Suc i) r)"
      using i by (simp add: builds_post)
  qed (use assms in auto)
  then show ?thesis by (rule builds_post) (use b in simp)
qed

lemma num_map_upt: "num v (map f [0..<Suc w]) = of_bool (v (f 0)) + 2 * num v (map (f \<circ> Suc) [0..<w])"
  by (simp add: upt_rec [of 0 "Suc w"] map_Suc_upt [symmetric] del: upt_Suc)

lemma bucket_rows:
  assumes "rails_ok v" "\<forall>b \<in> set bs. length b \<le> 2"
  shows "num v (map (bucket_entry bs 0) [0..<length bs]) + num v (map (bucket_entry bs 1) [0..<length bs]) = bucket_sum v bs"
  using assms(2)
proof (induction bs)
  case (Cons b bs)
  have "bucket_entry (b # bs) r \<circ> Suc = bucket_entry bs r" for r
    by (auto simp: bucket_entry_def)
  moreover have "of_bool (v (bucket_entry (b # bs) 0 0)) + of_bool (v (bucket_entry (b # bs) 1 0)) = ones v b"
  proof -
    consider "b = []" | x where "b = [x]" | x y where "b = [x, y]"
      using Cons.prems by (cases b rule: chunks2.cases) auto
    then show ?thesis using assms(1) by cases (simp_all add: bucket_entry_def)
  qed
  ultimately show ?case using Cons by (simp add: num_map_upt del: upt_Suc)
qed simp

subsection \<open>The multipliers\<close>

text \<open>
  A multiplier takes two vectors of the result width and yields their product modulo two
  to the width.
\<close>

locale multiplier =
  fixes mul :: "net_id list \<Rightarrow> net_id list \<Rightarrow> nat \<Rightarrow> (conv_ctx, synth_error + net_id list) state"
  assumes mul_builds: "wf_ctx ctx \<Longrightarrow> word_ok w (n_nets ctx) a \<Longrightarrow> word_ok w (n_nets ctx) b \<Longrightarrow>
    builds ctx (mul a b w) (\<lambda>k r. \<exists>s. r = Inr s \<and> word_ok w k s)
      (\<lambda>v r. \<forall>s. r = Inr s \<longrightarrow> num v s = (num v a * num v b) mod 2 ^ w)"
begin

lemma extended_builds:
  assumes "wf_ctx ctx" "\<forall>n \<in> set a. n < n_nets ctx" "\<forall>n \<in> set b. n < n_nets ctx"
  shows "builds ctx (mul (extend a w sgnd) (extend b w sgnd) w)
    (\<lambda>k r. \<exists>s. r = Inr s \<and> word_ok w k s)
    (\<lambda>v r. \<forall>s. r = Inr s \<longrightarrow> int (num v s) = (ival sgnd v a * ival sgnd v b) mod 2 ^ w)"
proof (rule builds_post_rails [OF mul_builds [OF assms(1) extend_ok [OF assms(1,2)] extend_ok [OF assms(1,3)]]],
    intro allI impI)
  fix v r s
  assume v: "rails_ok v" and s: "r = Inr s"
    "\<forall>s. r = Inr s \<longrightarrow> num v s = (num v (extend a w sgnd) * num v (extend b w sgnd)) mod 2 ^ w"
  then have "num v s = (num v (extend a w sgnd) * num v (extend b w sgnd)) mod 2 ^ w" by blast
  then have "int (num v s) = (int (num v (extend a w sgnd)) * int (num v (extend b w sgnd))) mod 2 ^ w"
    by (metis of_nat_mod of_nat_mult of_nat_numeral of_nat_power)
  then show "int (num v s) = (ival sgnd v a * ival sgnd v b) mod 2 ^ w"
    by (simp only: extend_num [OF v] mod_mult_eq)
qed

end

lemma wallace_builds:
  assumes "wf_ctx ctx" "word_ok w (n_nets ctx) a" "word_ok w (n_nets ctx) b"
  shows "builds ctx (wallace_multiply a b w) (\<lambda>k r. \<exists>s. r = Inr s \<and> word_ok w k s)
    (\<lambda>v r. \<forall>s. r = Inr s \<longrightarrow> num v s = (num v a * num v b) mod 2 ^ w)"
  unfolding wallace_multiply_def
proof (rule builds_bind [OF partial_products_builds [OF assms]], rule builds_bind [OF wallace_loop_builds])
  fix pps c1 bs c2
  assume "wf_ctx c1" "buckets_ok w (n_nets c1) pps" then show "wf_ctx c1" "buckets_ok w (n_nets c1) pps" .
next
  fix pps c1 bs c2
  assume 2: "wf_ctx c2" "extends c1 c2" "buckets_ok w (n_nets c2) bs \<and> (\<forall>b \<in> set bs. length b \<le> 2)"
  let ?row = "\<lambda>r. map (bucket_entry bs r) [0..<w]"
  have "word_ok w (n_nets c2) (?row r)" for r
    using 2 wf_ctx_rails [OF 2(1)] by (auto simp: bucket_entry_def buckets_ok_nth)
  then have add: "builds c2 (ripple_add (?row 0) (?row 1) NET_CONST0) (\<lambda>k r. \<exists>s. r = Inr s \<and> word_ok w k s)
      (\<lambda>v r. \<forall>s. r = Inr s \<longrightarrow> num v s = (num v (?row 0) + num v (?row 1) + of_bool (v NET_CONST0)) mod 2 ^ w)"
    using 2(1) wf_ctx_rails [OF 2(1)] by (intro ripple.add_builds) blast+
  show "builds c2 (ripple_add (?row 0) (?row 1) NET_CONST0) (\<lambda>k r. \<exists>s. r = Inr s \<and> word_ok w k s)
      (\<lambda>v r. bucket_sum v bs mod 2 ^ w = bucket_sum v pps mod 2 ^ w \<longrightarrow>
        bucket_sum v pps mod 2 ^ w = (num v a * num v b) mod 2 ^ w \<longrightarrow>
        (\<forall>s. r = Inr s \<longrightarrow> num v s = (num v a * num v b) mod 2 ^ w))"
  proof (rule builds_post_rails [OF add], intro impI allI)
    fix v r s
    assume v: "rails_ok v" and r: "r = Inr s"
      "\<forall>s. r = Inr s \<longrightarrow> num v s = (num v (?row 0) + num v (?row 1) + of_bool (v NET_CONST0)) mod 2 ^ w"
      and eqs: "bucket_sum v bs mod 2 ^ w = bucket_sum v pps mod 2 ^ w"
        "bucket_sum v pps mod 2 ^ w = (num v a * num v b) mod 2 ^ w"
    have "num v s = (num v (?row 0) + num v (?row 1) + of_bool (v NET_CONST0)) mod 2 ^ w" using r by blast
    then show "num v s = (num v a * num v b) mod 2 ^ w"
      using bucket_rows [OF v, of bs] 2(3) v eqs by (simp add: buckets_ok_def)
  qed
qed

lemma num_update_zero:
  assumes "rails_ok v" "j < length row" "row ! j = NET_CONST0"
  shows "num v (row[j := n]) = num v row + 2 ^ j * of_bool (v n)"
proof -
  have "num v row = num v (take j row) + 2 ^ j * (0 + 2 * num v (drop (Suc j) row))"
    using num_append [of v "take j row" "row ! j # drop (Suc j) row"] id_take_nth_drop [OF assms(2)] assms
    by simp
  moreover have "num v (row[j := n]) = num v (take j row) + 2 ^ j * (of_bool (v n) + 2 * num v (drop (Suc j) row))"
    using assms(2) by (simp add: upd_conv_take_nth_drop num_append min_def)
  ultimately show ?thesis by (simp add: algebra_simps)
qed

lemma shift_add_partial_builds:
  assumes wf: "wf_ctx ctx" and a: "word_ok w (n_nets ctx) a" and b: "word_ok w (n_nets ctx) b" and i: "i < w"
  shows "builds ctx (foldM (partial_bit a b i) [i..<w] (replicate w NET_CONST0)) (word_ok w)
    (\<lambda>v r. num v r = 2 ^ i * (of_bool (v (b ! i)) * num v (take (w - i) a)))"
proof -
  let ?N = "\<lambda>k j r. word_ok w k r \<and> (\<forall>m < w. i + j \<le> m \<longrightarrow> r ! m = NET_CONST0)"
  let ?J = "\<lambda>v j r. num v r = 2 ^ i * (of_bool (v (b ! i)) * num v (take j a))"
  have "builds ctx (foldM (partial_bit a b i) [i..<w] (replicate w NET_CONST0)) (\<lambda>k. ?N k (length [i..<w]))
      (\<lambda>v r. ?J v 0 (replicate w NET_CONST0) \<longrightarrow> ?J v (length [i..<w]) r)"
  proof (rule builds_foldM [where N = ?N and J = ?J])
    fix j acc ctx'
    assume j: "j < length [i..<w]" and e: "wf_ctx ctx'" "extends ctx ctx'" "?N (n_nets ctx') j acc"
    have "b ! i < n_nets ctx'" "a ! j < n_nets ctx'"
      using a b i j e(2) by (auto intro: in_range_mono word_ok_nth)
    moreover have "set (acc[i + j := n]) \<subseteq> insert n (set acc)" for n by (rule set_update_subset_insert)
    ultimately show "builds ctx' (partial_bit a b i ([i..<w] ! j) acc) (\<lambda>k. ?N k (Suc j))
        (\<lambda>v r. ?J v j acc \<longrightarrow> ?J v (Suc j) r)"
      unfolding partial_bit_def using a i j e
      apply (intro bind_cell_2 final_return)
      apply (simp_all add: num_update_zero num_take_Suc power_add algebra_simps)
      apply (fastforce intro: less_le_trans)
      done
  qed (use assms wf_ctx_rails [OF wf] in auto)
  then have "builds ctx (foldM (partial_bit a b i) [i..<w] (replicate w NET_CONST0)) (word_ok w)
      (\<lambda>v r. ?J v 0 (replicate w NET_CONST0) \<longrightarrow> ?J v (length [i..<w]) r)"
    by (rule builds_weaken) auto
  then show ?thesis by (rule builds_post_rails) simp
qed

lemma shift_add_builds:
  assumes wf: "wf_ctx ctx" and a: "word_ok w (n_nets ctx) a" and b: "word_ok w (n_nets ctx) b"
  shows "builds ctx (shift_add_multiply a b w) (\<lambda>k r. \<exists>s. r = Inr s \<and> word_ok w k s)
    (\<lambda>v r. \<forall>s. r = Inr s \<longrightarrow> num v s = (num v a * num v b) mod 2 ^ w)"
proof -
  let ?J = "\<lambda>v i s. num v s = (num v a * num v (take i b)) mod 2 ^ w"
  have "builds ctx (shift_add_multiply a b w) (\<lambda>k r. \<exists>s. r = Inr s \<and> word_ok w k s)
    (\<lambda>v r. \<forall>s. r = Inr s \<longrightarrow> ?J v 0 (replicate w NET_CONST0) \<longrightarrow> ?J v (length [0..<w]) s)"
    unfolding shift_add_multiply_def
  proof (rule builds_foldM_try [where N = "\<lambda>k _. word_ok w k" and J = ?J])
    fix i acc ctx'
    assume i: "i < length [0..<w]" and e: "wf_ctx ctx'" "extends ctx ctx'" "word_ok w (n_nets ctx') acc"
    note m = word_ok_mono [OF _ extends_n_nets [OF e(2)]]
    have iw: "i < w" and idx: "[0..<w] ! i = i" using i by simp_all
    show "builds ctx' (shift_add_row a b w ([0..<w] ! i) acc) (\<lambda>k r. \<exists>x. r = Inr x \<and> word_ok w k x)
        (\<lambda>v r. \<forall>x. r = Inr x \<longrightarrow> ?J v i acc \<longrightarrow> ?J v (Suc i) x)"
      unfolding shift_add_row_def idx
    proof (rule builds_bind [OF shift_add_partial_builds [OF e(1) m [OF a] m [OF b] iw]])
      fix row c assume c: "wf_ctx c" "extends ctx' c" "word_ok w (n_nets c) row"
      have "word_ok w (n_nets c) acc" using e(3) extends_n_nets [OF c(2)] by (rule word_ok_mono)
      then have add: "builds c (ripple_add acc row NET_CONST0) (\<lambda>k r. \<exists>x. r = Inr x \<and> word_ok w k x)
        (\<lambda>v r. \<forall>s. r = Inr s \<longrightarrow> num v s = (num v acc + num v row + of_bool (v NET_CONST0)) mod 2 ^ w)"
        using c wf_ctx_rails [OF c(1)] by (intro ripple.add_builds) blast+
      show "builds c (ripple_add acc row NET_CONST0) (\<lambda>k r. \<exists>x. r = Inr x \<and> word_ok w k x)
        (\<lambda>v r. num v row = 2 ^ i * (of_bool (v (b ! i)) * num v (take (w - i) a)) \<longrightarrow>
           (\<forall>x. r = Inr x \<longrightarrow> ?J v i acc \<longrightarrow> ?J v (Suc i) x))"
      proof (rule builds_post_rails [OF add], intro impI allI)
        fix v r x
        assume v: "rails_ok v" and r: "r = Inr x"
          "\<forall>s. r = Inr s \<longrightarrow> num v s = (num v acc + num v row + of_bool (v NET_CONST0)) mod 2 ^ w"
          and row: "num v row = 2 ^ i * (of_bool (v (b ! i)) * num v (take (w - i) a))" and J: "?J v i acc"
        from r have "num v x = (num v acc + num v row + of_bool (v NET_CONST0)) mod 2 ^ w" by blast
        then have "num v x = (num v acc + num v row) mod 2 ^ w" using v by simp
        also have "\<dots> = (num v a * num v (take i b) mod 2 ^ w + num v row mod 2 ^ w) mod 2 ^ w"
          unfolding J by (simp only: mod_add_right_eq)
        also have "num v row mod 2 ^ w = 2 ^ i * (of_bool (v (b ! i)) * num v a) mod 2 ^ w"
          unfolding row by (rule shifted_row_mod [OF iw])
        also have "(num v a * num v (take i b) mod 2 ^ w +
            2 ^ i * (of_bool (v (b ! i)) * num v a) mod 2 ^ w) mod 2 ^ w =
            (num v a * num v (take (Suc i) b)) mod 2 ^ w"
          using iw b by (simp add: mod_add_eq num_take_Suc algebra_simps)
        finally show "?J v (Suc i) x" .
      qed
    qed
  qed (use assms wf_ctx_rails [OF wf] in auto)
  then show ?thesis by (rule builds_post_rails) (use b in auto)
qed

interpretation wallace: multiplier wallace_multiply
  by unfold_locales (rule wallace_builds)

interpretation shift_add: multiplier shift_add_multiply
  by unfold_locales (rule shift_add_builds)

lemma multiply_builds:
  assumes "wf_ctx ctx" "\<forall>n \<in> set a. n < n_nets ctx" "\<forall>n \<in> set b. n < n_nets ctx"
  shows "builds ctx (multiply a b w sgnd) (\<lambda>k r. \<exists>s. r = Inr s \<and> word_ok w k s)
    (\<lambda>v r. \<forall>s. r = Inr s \<longrightarrow> int (num v s) = (ival sgnd v a * ival sgnd v b) mod 2 ^ w)"
  using wallace.extended_builds [OF assms, of w sgnd] shift_add.extended_builds [OF assms, of w sgnd] assms(1)
  by (auto simp: multiply_def Let_def intro: builds_return)

subsection \<open>Properties\<close>

text \<open>
  C10: \<open>multiply\<close>, by shift-and-add below four bits and by a Wallace tree from four bits
  on, yields the product of the two operands read as the flag says, modulo two to the
  result width, for operands of any lengths; so both the compression loop and the final
  addition end without an error.
\<close>

theorem multiply_correct:
  assumes "wf_ctx ctx" "\<forall>n \<in> set a. n < n_nets ctx" "\<forall>n \<in> set b. n < n_nets ctx"
  shows "\<exists>s ctx'. run_state (multiply a b w sgnd) ctx = (Inr s, ctx') \<and> wf_ctx ctx' \<and> extends ctx ctx' \<and>
    word_ok w (n_nets ctx') s \<and>
    (\<forall>v. sat v ctx' \<longrightarrow> int (num v s) = (ival sgnd v a * ival sgnd v b) mod 2 ^ w)"
  using multiply_builds [OF assms] by (rule builds_run_ok)

lemma multiply_correct_witness:
  "\<exists>s ctx'. run_state (multiply [2, 3, 4] [5, 6] 5 True) (inputs_ctx 5) = (Inr s, ctx') \<and>
     (\<forall>v. sat v ctx' \<longrightarrow> int (num v s) = (ival True v [2, 3, 4] * ival True v [5, 6]) mod 2 ^ 5)"
  using multiply_correct [where ctx = "inputs_ctx 5" and a = "[2, 3, 4]" and b = "[5, 6]" and w = 5 and sgnd = True]
  by (auto simp del: num_Cons)

end
