(* ===== verification/Divide.thy ===== *)
theory Divide
  imports Multiply "HOL-Library.Signed_Division"
begin

section \<open>Division (\<open>conv/arith.rs\<close>)\<close>

text \<open>
  The restoring divider and the signed division built on it by sign and magnitude. One
  step of the loop is \<open>divide_step\<close>; its invariant is that the running remainder and
  the quotient bits found so far are those of the dividend's high part. Division by zero
  is part of the contract: an all-ones quotient, and the dividend as the remainder.
\<close>

subsection \<open>The emitters\<close>

definition divide_step ::
    "net_id list \<Rightarrow> net_id list \<Rightarrow> nat \<Rightarrow> nat \<Rightarrow> net_id list \<times> net_id list
      \<Rightarrow> (conv_ctx, synth_error + net_id list \<times> net_id list) state" where
  "divide_step a b_ext n i st = (case st of (rm, quo) \<Rightarrow>
     let shifted = a ! i # take n rm
     in do {
       r \<leftarrow> ripple_sub shifted b_ext;
       or_return r (\<lambda>trial. do {
         q_bit \<leftarrow> add_cell Not1 [trial ! n];
         rm' \<leftarrow> traverse_list (\<lambda>(s, t). add_cell Mux2 [q_bit, s, t]) (zip shifted trial);
         State_Monad.return (Inr (rm', quo[i := q_bit]))
       })
     })"

definition divide_unsigned ::
    "net_id list \<Rightarrow> net_id list \<Rightarrow> nat \<Rightarrow> (conv_ctx, synth_error + net_id list \<times> net_id list) state" where
  "divide_unsigned a b n =
     (if n = 0 then State_Monad.return (Inr ([], []))
      else
        let a' = extend a n False;
            b_ext = extend b n False @ [NET_CONST0]
        in do {
          r \<leftarrow> foldM_try (divide_step a' b_ext n) (rev [0..<n])
                 (replicate (n + 1) NET_CONST0, replicate n NET_CONST0);
          or_return r (\<lambda>(rm, quo). State_Monad.return (Inr (quo, take n rm)))
        })"

definition divide_signed ::
    "net_id list \<Rightarrow> net_id list \<Rightarrow> nat \<Rightarrow> (conv_ctx, synth_error + net_id list \<times> net_id list) state" where
  "divide_signed a b n =
     (if n = 0 then State_Monad.return (Inr ([], []))
      else
        let a' = extend a n True;
            b' = extend b n True;
            sign_a = a' ! (n - 1);
            sign_b = b' ! (n - 1)
        in do {
          r1 \<leftarrow> conditional_negate a' sign_a;
          or_return r1 (\<lambda>abs_a. do {
            r2 \<leftarrow> conditional_negate b' sign_b;
            or_return r2 (\<lambda>abs_b. do {
              r3 \<leftarrow> divide_unsigned abs_a abs_b n;
              or_return r3 (\<lambda>(q_un, r_un). do {
                q_sign \<leftarrow> add_cell Xor2 [sign_a, sign_b];
                r4 \<leftarrow> conditional_negate q_un q_sign;
                or_return r4 (\<lambda>quo. do {
                  r5 \<leftarrow> conditional_negate r_un sign_a;
                  or_return r5 (\<lambda>rm. State_Monad.return (Inr (quo, rm)))
                })
              })
            })
          })
        })"

subsection \<open>One step\<close>

lemma traverse_mux_builds:
  assumes "wf_ctx ctx" "word_ok n (n_nets ctx) xs" "word_ok n (n_nets ctx) ys" "c < n_nets ctx"
  shows "builds ctx (traverse_list (\<lambda>(s, t). add_cell Mux2 [c, s, t]) (zip xs ys)) (word_ok n)
    (\<lambda>v r. map v r = (if v c then map v ys else map v xs))"
proof -
  have "builds ctx (traverse_list (\<lambda>(s, t). add_cell Mux2 [c, s, t]) (zip xs ys))
    (\<lambda>k r. length r = length (zip xs ys) \<and> (\<forall>x \<in> set r. x < k))
    (\<lambda>v r. list_all2 (\<lambda>p x. v x = (if v c then v (snd p) else v (fst p))) (zip xs ys) r)"
  proof (rule builds_traverse)
    fix p ctx' assume p: "p \<in> set (zip xs ys)" and e: "wf_ctx ctx'" "extends ctx ctx'"
    from p have "fst p \<in> set xs" "snd p \<in> set ys"
      by (metis prod.collapse set_zip_leftD, metis prod.collapse set_zip_rightD)
    with e assms have "fst p < n_nets ctx'" "snd p < n_nets ctx'" "c < n_nets ctx'"
      by (auto intro: in_range_mono)
    then show "builds ctx' (case p of (s, t) \<Rightarrow> add_cell Mux2 [c, s, t]) (\<lambda>k x. x < k)
        (\<lambda>v x. v x = (if v c then v (snd p) else v (fst p)))"
      using cell_3_builds [OF e(1), of c "fst p" "snd p" Mux2] by (simp add: case_prod_beta cong: if_cong)
  qed (use assms in auto)
  then show ?thesis
    by (rule builds_weaken)
      (use assms in \<open>auto simp: list_all2_conv_all_nth list_eq_iff_nth_eq\<close>)
qed

text \<open>The remainder and quotient after one more dividend bit.\<close>

lemma restoring_step:
  fixes A B a :: nat
  assumes "B \<noteq> 0" "a < 2"
  shows "(2 * A + a) mod B = (if 2 * (A mod B) + a < B then 2 * (A mod B) + a else 2 * (A mod B) + a - B)"
    and "(2 * A + a) div B = 2 * (A div B) + of_bool (\<not> 2 * (A mod B) + a < B)"
proof -
  let ?S = "2 * (A mod B) + a"
  have eq: "2 * A + a = ?S + B * (2 * (A div B))"
    by (subst mult.left_commute) (use mult_div_mod_eq [of B A] in linarith)
  have S: "?S < 2 * B" using assms mod_less_divisor [of B A] by linarith
  have "?S mod B = (if ?S < B then ?S else ?S - B)"
    using S by (cases "?S < B") (simp_all add: le_mod_geq)
  moreover have "?S div B = of_bool (\<not> ?S < B)"
    using S assms(1) by (cases "?S < B") (simp_all add: le_div_geq)
  ultimately show "(2 * A + a) mod B = (if ?S < B then ?S else ?S - B)"
    and "(2 * A + a) div B = 2 * (A div B) + of_bool (\<not> ?S < B)"
    using assms(1) unfolding eq by simp_all
qed

definition rquo :: "nat \<Rightarrow> nat \<Rightarrow> nat \<Rightarrow> nat" where
  "rquo j A B = (if B = 0 then 2 ^ j - 1 else A div B)"

lemma divide_trial:
  assumes v: "rails_ok v" and len: "length t = Suc n" and S: "S = 2 * (A mod B) + a" "a < 2"
    and B: "B < 2 ^ n" and A: "A < 2 ^ j" "j < n"
    and t: "int (num v t) = (int S - int B) mod 2 ^ Suc n"
  shows "v (t ! n) = (S < B)"
    and "(if S < B then S else num v t) = (2 * A + a) mod B"
    and "rquo (Suc j) (2 * A + a) B = of_bool (\<not> S < B) + 2 * rquo j A B"
proof -
  have Sn: "S < B + 2 ^ n"
  proof (cases "B = 0")
    case True
    have "2 * 2 ^ j \<le> (2::nat) ^ n" using A(2) power_increasing [of "Suc j" n "2::nat"] by simp
    with True S A show ?thesis by simp
  next
    case False
    then show ?thesis using S mod_less_divisor [of B A] B by linarith
  qed
  then have "int S < int (B + 2 ^ n)" by (simp only: of_nat_less_iff)
  then have up: "int S - int B < 2 ^ n" by simp
  have "int B < int (2 ^ n)" using B by (simp only: of_nat_less_iff)
  then have lo: "- (2 ^ n) \<le> int S - int B" unfolding of_nat_power of_nat_numeral by linarith
  show sign: "v (t ! n) = (S < B)"
    using diff_msb [OF len t lo up] len by simp
  have "num v t = S - B" if "\<not> S < B"
  proof -
    have "(int S - int B) mod 2 ^ Suc n = int S - int B" using that up by (intro mod_pos_pos_trivial) auto
    with t that show ?thesis by linarith
  qed
  then show "(if S < B then S else num v t) = (2 * A + a) mod B"
    using restoring_step(1) [of B a A] S by (cases "B = 0") auto
  show "rquo (Suc j) (2 * A + a) B = of_bool (\<not> S < B) + 2 * rquo j A B"
  proof (cases "B = 0")
    case True
    have "1 \<le> (2::nat) ^ j" by simp
    then have "2 ^ Suc j - 1 = 1 + 2 * (2 ^ j - 1 :: nat)" unfolding power_Suc by linarith
    with True S show ?thesis by (simp add: rquo_def)
  qed (use restoring_step(2) [of B a A] S in \<open>simp add: rquo_def\<close>)
qed

lemma divide_step_builds:
  assumes wf: "wf_ctx ctx" and a: "word_ok n (n_nets ctx) a" and b: "word_ok (Suc n) (n_nets ctx) b_ext"
    and st: "word_ok (Suc n) (n_nets ctx) rm" "word_ok n (n_nets ctx) quo" and i: "i < n"
  shows "builds ctx (divide_step a b_ext n i (rm, quo))
    (\<lambda>k r. \<exists>x. r = Inr x \<and> word_ok (Suc n) k (fst x) \<and> word_ok n k (snd x))
    (\<lambda>v r. \<forall>x. r = Inr x \<longrightarrow> (\<exists>t q. length t = Suc n \<and> snd x = quo[i := q] \<and>
       int (num v t) = (int (num v (a ! i # take n rm)) - int (num v b_ext)) mod 2 ^ Suc n \<and>
       v q = (\<not> v (t ! n)) \<and>
       num v (fst x) = (if v q then num v t else num v (a ! i # take n rm))))"
proof -
  let ?sh = "a ! i # take n rm"
  have sh: "word_ok (Suc n) (n_nets ctx) ?sh"
    using a st i by (auto dest: in_set_takeD)
  show ?thesis unfolding divide_step_def prod.case Let_def
  proof (rule builds_or_return [OF ripple_sub_builds [OF wf sh b]])
    fix t c1 assume 1: "wf_ctx c1" "extends ctx c1" "word_ok (Suc n) (n_nets c1) t"
    let ?T = "\<lambda>v. int (num v t) = (int (num v ?sh) - int (num v b_ext)) mod 2 ^ Suc n"
    let ?R = "\<lambda>v x. \<exists>t q. length t = Suc n \<and> snd x = quo[i := q] \<and>
       int (num v t) = (int (num v ?sh) - int (num v b_ext)) mod 2 ^ Suc n \<and>
       v q = (\<not> v (t ! n)) \<and> num v (fst x) = (if v q then num v t else num v ?sh)"
    have sh1: "word_ok (Suc n) (n_nets c1) ?sh" using sh extends_n_nets [OF 1(2)] by (rule word_ok_mono)
    have q1: "word_ok n (n_nets c1) quo" using st(2) extends_n_nets [OF 1(2)] by (rule word_ok_mono)
    show "builds c1 (add_cell Not1 [t ! n] \<bind> (\<lambda>q. traverse_list (\<lambda>(s, t). add_cell Mux2 [q, s, t]) (zip ?sh t) \<bind>
          (\<lambda>rm'. State_Monad.return (Inr (rm', quo[i := q])))))
        (\<lambda>k r. \<exists>x. r = Inr x \<and> word_ok (Suc n) k (fst x) \<and> word_ok n k (snd x))
        (\<lambda>v r. ?T v \<longrightarrow> (\<forall>x. r = Inr x \<longrightarrow> ?R v x))"
    proof (rule bind_cell_1)
      fix q c2 assume 2: "wf_ctx c2" "extends c1 c2" "n_nets c1 \<le> n_nets c2" "q < n_nets c2"
      have mux: "builds c2 (traverse_list (\<lambda>(s, t). add_cell Mux2 [q, s, t]) (zip ?sh t)) (word_ok (Suc n))
          (\<lambda>v r. map v r = (if v q then map v t else map v ?sh))"
        using word_ok_mono [OF sh1 2(3)] word_ok_mono [OF 1(3) 2(3)] 2 by (intro traverse_mux_builds) auto
      then show "builds c2 (traverse_list (\<lambda>(s, t). add_cell Mux2 [q, s, t]) (zip ?sh t) \<bind>
          (\<lambda>rm'. State_Monad.return (Inr (rm', quo[i := q]))))
        (\<lambda>k r. \<exists>x. r = Inr x \<and> word_ok (Suc n) k (fst x) \<and> word_ok n k (snd x))
        (\<lambda>v r. v q = cell_fn Not1 [v (t ! n)] \<longrightarrow> ?T v \<longrightarrow> (\<forall>x. r = Inr x \<longrightarrow> ?R v x))"
      proof (rule builds_bind)
        fix rm' c3 assume 3: "wf_ctx c3" "extends c2 c3" "word_ok (Suc n) (n_nets c3) rm'"
        have "word_ok n (n_nets c3) quo"
          using q1 order_trans [OF 2(3) extends_n_nets [OF 3(2)]] by (rule word_ok_mono)
        moreover have "q < n_nets c3" using 2(4) 3(2) by (rule in_range_mono)
        ultimately have "word_ok n (n_nets c3) (quo[i := q])"
          by (auto dest: set_update_subset_insert [THEN subsetD])
        moreover have R: "?R v (rm', quo[i := q])"
          if "map v rm' = (if v q then map v t else map v ?sh)" "v q = cell_fn Not1 [v (t ! n)]" "?T v" for v
          using that 1(3) by (intro exI [of _ t] exI [of _ q]) (auto simp: num_def)
        ultimately show "builds c3 (State_Monad.return (Inr (rm', quo[i := q])))
          (\<lambda>k r. \<exists>x. r = Inr x \<and> word_ok (Suc n) k (fst x) \<and> word_ok n k (snd x))
          (\<lambda>v r. map v rm' = (if v q then map v t else map v ?sh) \<longrightarrow>
            v q = cell_fn Not1 [v (t ! n)] \<longrightarrow> ?T v \<longrightarrow> (\<forall>x. r = Inr x \<longrightarrow> ?R v x))"
        proof (intro final_return impI allI)
          fix v x
          assume "map v rm' = (if v q then map v t else map v ?sh)" "v q = cell_fn Not1 [v (t ! n)]" "?T v"
            and x: "Inr (rm', quo[i := q]) = Inr x"
          from this(1-3) have "?R v (rm', quo[i := q])" by (rule R)
          with x show "?R v x" by (simp only: sum.inject)
        qed (use 3 in auto)
      qed
    qed (use 1 in auto)
  qed
qed

subsection \<open>The loop\<close>

text \<open>After \<open>j\<close> steps the high \<open>j\<close> bits of the dividend have been divided.\<close>

definition divided :: "(net_id \<Rightarrow> bool) \<Rightarrow> net_id list \<Rightarrow> nat \<Rightarrow> nat \<Rightarrow> nat \<Rightarrow> net_id list \<times> net_id list \<Rightarrow> bool" where
  "divided v a B n j st \<longleftrightarrow>
     num v (fst st) = num v (drop (n - j) a) mod B \<and>
     num v (drop (n - j) (snd st)) = rquo j (num v (drop (n - j) a)) B"

lemma divided_step:
  assumes v: "rails_ok v" and a: "length a = n" and j: "j < n" and B: "B < 2 ^ n"
    and st: "divided v a B n j (rm, quo)" "length rm = Suc n" "length quo = n"
    and t: "length t = Suc n" "snd x = quo[n - Suc j := q]"
      "int (num v t) = (int (num v (a ! (n - Suc j) # take n rm)) - int B) mod 2 ^ Suc n"
      "v q = (\<not> v (t ! n))"
      "num v (fst x) = (if v q then num v t else num v (a ! (n - Suc j) # take n rm))"
  shows "divided v a B n (Suc j) x"
proof -
  let ?A = "num v (drop (n - j) a)" and ?i = "n - Suc j"
  have i: "?i < n" "Suc ?i = n - j" using j by auto
  have A: "?A < 2 ^ j" using num_lt [of v "drop (n - j) a"] a j by simp
  have "num v rm < 2 ^ n"
  proof -
    have "?A mod B \<le> ?A" by simp
    also have "?A < 2 ^ j" by (rule A)
    also have "2 ^ j \<le> (2::nat) ^ n" using j by simp
    finally show ?thesis using st(1) by (simp add: divided_def)
  qed
  then have S: "num v (a ! ?i # take n rm) = 2 * (?A mod B) + of_bool (v (a ! ?i))"
    using st(1) by (simp add: num_take divided_def)
  have drop_a: "num v (drop ?i a) = 2 * ?A + of_bool (v (a ! ?i))"
    using i a by (simp add: Cons_nth_drop_Suc [symmetric])
  have bit: "(of_bool (v (a ! ?i)) :: nat) < 2" by simp
  note trial = divide_trial [OF v t(1) S bit B A j t(3)]
  have "num v (drop ?i (snd x)) = of_bool (v q) + 2 * rquo j ?A B"
    using i st(1,3) by (simp add: t(2) drop_update_swap Cons_nth_drop_Suc [symmetric] divided_def)
  moreover have "v q = (\<not> num v (a ! ?i # take n rm) < B)"
    using trial(1) t(4) by blast
  moreover have "num v (fst x) = (2 * ?A + of_bool (v (a ! ?i))) mod B"
    unfolding trial(2) [symmetric] t(5) t(4) trial(1) by presburger
  ultimately show ?thesis
    by (simp only: divided_def drop_a trial(3) simp_thms)
qed

lemma divide_loop_builds:
  assumes wf: "wf_ctx ctx" and a: "word_ok n (n_nets ctx) a" and b: "word_ok (Suc n) (n_nets ctx) b_ext"
    and B: "\<And>v. rails_ok v \<Longrightarrow> num v b_ext < 2 ^ n"
  shows "builds ctx (foldM_try (divide_step a b_ext n) (rev [0..<n]) (replicate (n + 1) NET_CONST0, replicate n NET_CONST0))
    (\<lambda>k r. \<exists>x. r = Inr x \<and> word_ok (Suc n) k (fst x) \<and> word_ok n k (snd x))
    (\<lambda>v r. \<forall>x. r = Inr x \<longrightarrow> divided v a (num v b_ext) n n x)"
proof -
  let ?N = "\<lambda>k _ x. word_ok (Suc n) k (fst x) \<and> word_ok n k (snd x)"
  let ?J = "\<lambda>v j x. rails_ok v \<longrightarrow> divided v a (num v b_ext) n j x"
  let ?z = "(replicate (n + 1) NET_CONST0, replicate n NET_CONST0)"
  have "builds ctx (foldM_try (divide_step a b_ext n) (rev [0..<n]) ?z)
    (\<lambda>k r. \<exists>x. r = Inr x \<and> ?N k (length (rev [0..<n])) x)
    (\<lambda>v r. \<forall>x. r = Inr x \<longrightarrow> ?J v 0 ?z \<longrightarrow> ?J v (length (rev [0..<n])) x)"
  proof (rule builds_foldM_try [where N = ?N and J = ?J])
    fix j and acc :: "net_id list \<times> net_id list" and ctx'
    assume j: "j < length (rev [0..<n])" and e: "wf_ctx ctx'" "extends ctx ctx'" and N: "?N (n_nets ctx') j acc"
    obtain rm quo where acc: "acc = (rm, quo)" by (cases acc)
    have i: "rev [0..<n] ! j = n - Suc j" "n - Suc j < n" using j by (simp_all add: rev_nth)
    note m = word_ok_mono [OF _ extends_n_nets [OF e(2)]]
    have "builds ctx' (divide_step a b_ext n (n - Suc j) (rm, quo))
      (\<lambda>k r. \<exists>x. r = Inr x \<and> word_ok (Suc n) k (fst x) \<and> word_ok n k (snd x))
      (\<lambda>v r. \<forall>x. r = Inr x \<longrightarrow> (\<exists>t q. length t = Suc n \<and> snd x = quo[n - Suc j := q] \<and>
         int (num v t) = (int (num v (a ! (n - Suc j) # take n rm)) - int (num v b_ext)) mod 2 ^ Suc n \<and>
         v q = (\<not> v (t ! n)) \<and>
         num v (fst x) = (if v q then num v t else num v (a ! (n - Suc j) # take n rm))))"
      using N acc by (intro divide_step_builds e(1) m [OF a] m [OF b] i(2)) auto
    then show "builds ctx' (divide_step a b_ext n (rev [0..<n] ! j) acc)
        (\<lambda>k r. \<exists>x. r = Inr x \<and> ?N k (Suc j) x)
        (\<lambda>v r. \<forall>x. r = Inr x \<longrightarrow> ?J v j acc \<longrightarrow> ?J v (Suc j) x)"
      unfolding i(1) acc
    proof (rule builds_post, intro allI impI)
      fix v r x
      assume st: "\<forall>x. r = Inr x \<longrightarrow> (\<exists>t q. length t = Suc n \<and> snd x = quo[n - Suc j := q] \<and>
         int (num v t) = (int (num v (a ! (n - Suc j) # take n rm)) - int (num v b_ext)) mod 2 ^ Suc n \<and>
         v q = (\<not> v (t ! n)) \<and>
         num v (fst x) = (if v q then num v t else num v (a ! (n - Suc j) # take n rm)))"
        and x: "r = Inr x" and J: "?J v j (rm, quo)" and v: "rails_ok v"
      from st x obtain t q where "length t = Suc n" "snd x = quo[n - Suc j := q]"
         "int (num v t) = (int (num v (a ! (n - Suc j) # take n rm)) - int (num v b_ext)) mod 2 ^ Suc n"
         "v q = (\<not> v (t ! n))"
         "num v (fst x) = (if v q then num v t else num v (a ! (n - Suc j) # take n rm))" by blast
      then show "divided v a (num v b_ext) n (Suc j) x"
        using v J j a B [OF v] N acc by (intro divided_step) auto
    qed
  qed (use wf wf_ctx_rails [OF wf] in auto)
  then show ?thesis
  proof (rule builds_post_rails, intro allI impI)
    fix v r x
    assume v: "rails_ok v" and r: "r = Inr x"
      "\<forall>x. r = Inr x \<longrightarrow> ?J v 0 ?z \<longrightarrow> ?J v (length (rev [0..<n])) x"
    have "?J v 0 ?z" using a by (auto simp: divided_def rquo_def simp del: replicate_Suc)
    with r v show "divided v a (num v b_ext) n n x" by simp
  qed
qed

subsection \<open>Unsigned division\<close>

lemma extend_num_unsigned: "rails_ok v \<Longrightarrow> num v (extend a n False) = num v a mod 2 ^ n"
proof -
  assume "rails_ok v"
  then have "int (num v (extend a n False)) = int (num v a mod 2 ^ n)"
    using extend_num [of v a n False] by (simp add: ival_def zmod_int)
  then show ?thesis by (simp only: of_nat_eq_iff)
qed

lemma divide_unsigned_builds:
  assumes wf: "wf_ctx ctx" and a: "\<forall>x \<in> set a. x < n_nets ctx" and b: "\<forall>x \<in> set b. x < n_nets ctx"
  shows "builds ctx (divide_unsigned a b n)
    (\<lambda>k r. \<exists>x. r = Inr x \<and> word_ok n k (fst x) \<and> word_ok n k (snd x))
    (\<lambda>v r. \<forall>x. r = Inr x \<longrightarrow>
      num v (fst x) = rquo n (num v a mod 2 ^ n) (num v b mod 2 ^ n) \<and>
      num v (snd x) = (num v a mod 2 ^ n) mod (num v b mod 2 ^ n))"
proof (cases "n = 0")
  case True
  with wf show ?thesis by (auto simp: divide_unsigned_def rquo_def intro!: builds_return)
next
  case False
  let ?a = "extend a n False" and ?b = "extend b n False @ [NET_CONST0]"
  have ok: "word_ok n (n_nets ctx) ?a" "word_ok (Suc n) (n_nets ctx) ?b"
    using extend_ok [OF wf a, of n False] extend_ok [OF wf b, of n False] wf_ctx_rails [OF wf] by auto
  have num_b: "num v ?b = num v b mod 2 ^ n" if "rails_ok v" for v
    using that by (simp add: num_append extend_num_unsigned)
  then have bound: "num v ?b < 2 ^ n" if "rails_ok v" for v using that by simp
  show ?thesis unfolding divide_unsigned_def Let_def using False
  proof (simp only: if_False, intro builds_or_return [OF divide_loop_builds [OF wf ok bound]])
    fix x ctx'
    assume x: "wf_ctx ctx'" "word_ok (Suc n) (n_nets ctx') (fst x) \<and> word_ok n (n_nets ctx') (snd x)"
    have "num v (snd x) = rquo n (num v a mod 2 ^ n) (num v b mod 2 ^ n) \<and>
        num v (take n (fst x)) = (num v a mod 2 ^ n) mod (num v b mod 2 ^ n)"
      if v: "rails_ok v" and "divided v ?a (num v ?b) n n x" for v
    proof -
      have "(num v a mod 2 ^ n) mod (num v b mod 2 ^ n) \<le> num v a mod 2 ^ n" by (rule mod_less_eq_dividend)
      also have "num v a mod 2 ^ n < 2 ^ n" by simp
      finally show ?thesis
        using that(2) by (simp add: divided_def num_take num_b [OF v] extend_num_unsigned [OF v])
    qed
    with x show "builds ctx' (case x of (rm, quo) \<Rightarrow> State_Monad.return (Inr (quo, take n rm)))
        (\<lambda>k r. \<exists>x. r = Inr x \<and> word_ok n k (fst x) \<and> word_ok n k (snd x))
        (\<lambda>v s. divided v ?a (num v ?b) n n x \<longrightarrow> (\<forall>x. s = Inr x \<longrightarrow>
          num v (fst x) = rquo n (num v a mod 2 ^ n) (num v b mod 2 ^ n) \<and>
          num v (snd x) = (num v a mod 2 ^ n) mod (num v b mod 2 ^ n)))"
      by (cases x) (auto intro!: final_return dest!: subsetD [OF set_take_subset])
  qed
qed

subsection \<open>Signed division\<close>

lemma snum_sign:
  assumes "length a = n" "0 < n"
  shows "v (a ! (n - 1)) = (snum v a < 0)"
proof -
  have ne: "map v a \<noteq> []" using assms by auto
  have "v (a ! (n - 1)) = last (map v a)" using assms by (simp add: last_conv_nth flip: length_0_conv)
  moreover have "int (uval (map v a)) < 2 ^ length a"
    using uval_lt [of "map v a"] by (metis length_map of_nat_less_iff of_nat_numeral of_nat_power)
  ultimately show ?thesis using ne by (auto simp: snum_def sval_def)
qed

lemma snum_num: "snum v a mod 2 ^ length a = int (num v a)"
  using sval_mod [of "map v a"] by (simp add: snum_def num_def)

lemma num_abs:
  assumes "length a = n" "0 < n"
    and s: "int (num v s) = (if v (a ! (n - 1)) then - int (num v a) else int (num v a)) mod 2 ^ n"
  shows "int (num v s) = \<bar>snum v a\<bar>"
proof -
  have "int (num v s) = (if snum v a < 0 then - (snum v a) else snum v a) mod 2 ^ n"
    using s snum_sign [OF assms(1,2), of v] snum_num [of v a, symmetric] assms(1)
    by (simp add: mod_minus_eq)
  also have "\<dots> = \<bar>snum v a\<bar> mod 2 ^ n" by (simp add: abs_if)
  also have "\<dots> = \<bar>snum v a\<bar>"
  proof (rule mod_pos_pos_trivial)
    have "map v a \<noteq> []" using assms by auto
    then have "\<bar>snum v a\<bar> \<le> 2 ^ (n - 1)"
      using sval_bounds [of "map v a"] assms(1) by (auto simp: snum_def abs_le_iff)
    also have "(2::int) ^ (n - 1) < 2 ^ n" using assms(2) by simp
    finally show "\<bar>snum v a\<bar> < 2 ^ n" .
  qed simp
  finally show ?thesis .
qed

text \<open>Truncating division, with what the circuit yields for a zero divisor.\<close>

definition quo_spec :: "int \<Rightarrow> int \<Rightarrow> int" where
  "quo_spec x y = (if y = 0 then (if x < 0 then 1 else - 1) else x sdiv y)"

lemma signed_quotient:
  assumes x: "int xa = \<bar>x\<bar>" "\<bar>x\<bar> < 2 ^ n" and y: "int ya = \<bar>y\<bar>" "\<bar>y\<bar> < 2 ^ n" and q: "q = rquo n xa ya"
  shows "(if (x < 0) \<noteq> (y < 0) then - int q else int q) mod 2 ^ n = quo_spec x y mod 2 ^ n"
proof (cases "y = 0")
  case True
  then have q: "int q = 2 ^ n - 1" using q y by (simp add: rquo_def of_nat_diff)
  have "(1 - 2 ^ n) mod 2 ^ n = 1 mod (2 ^ n :: int)" "(2 ^ n - 1) mod 2 ^ n = - 1 mod (2 ^ n :: int)"
    using mod_add_self2 [of "- 1 :: int" "2 ^ n"] minus_mod_self2 [of "1 :: int" "2 ^ n"] by simp_all
  with True show ?thesis by (simp add: q quo_spec_def)
next
  case False
  then have "int q = \<bar>x\<bar> div \<bar>y\<bar>" using q x y by (auto simp: rquo_def zdiv_int)
  with False show ?thesis by (auto simp: quo_spec_def signed_divide_int_def sgn_if)
qed

lemma signed_remainder:
  assumes "int xa = \<bar>x\<bar>" "int ya = \<bar>y\<bar>"
  shows "(if x < 0 then - int (xa mod ya) else int (xa mod ya)) = x smod y"
  using assms by (auto simp: smod_int_alt_def zmod_int sgn_if)

definition negated :: "nat \<Rightarrow> (net_id \<Rightarrow> bool) \<Rightarrow> net_id list \<Rightarrow> net_id list \<Rightarrow> net_id \<Rightarrow> bool" where
  "negated n v s x sign \<longleftrightarrow> int (num v s) = (if v sign then - int (num v x) else int (num v x)) mod 2 ^ n"

lemma bind_negate:
  assumes "wf_ctx ctx" "word_ok n (n_nets ctx) x" "sign < n_nets ctx"
    and "\<And>s ctx'. wf_ctx ctx' \<Longrightarrow> n_nets ctx \<le> n_nets ctx' \<Longrightarrow> word_ok n (n_nets ctx') s \<Longrightarrow>
      builds ctx' (f s) N (\<lambda>v t. negated n v s x sign \<longrightarrow> Q v t)"
  shows "builds ctx (conditional_negate x sign \<bind> (\<lambda>r. or_return r f)) N Q"
  unfolding negated_def [symmetric]
  using builds_or_return [OF conditional_negate_builds [OF assms(1-3)], of f N Q] assms(4) extends_n_nets
  by (simp add: negated_def)

lemma bind_divide:
  assumes "wf_ctx ctx" "word_ok n (n_nets ctx) a" "word_ok n (n_nets ctx) b"
    and "\<And>s ctx'. wf_ctx ctx' \<Longrightarrow> n_nets ctx \<le> n_nets ctx' \<Longrightarrow>
      word_ok n (n_nets ctx') (fst s) \<Longrightarrow> word_ok n (n_nets ctx') (snd s) \<Longrightarrow>
      builds ctx' (f s) N (\<lambda>v t. num v (fst s) = rquo n (num v a) (num v b) \<and>
        num v (snd s) = num v a mod num v b \<longrightarrow> Q v t)"
  shows "builds ctx (divide_unsigned a b n \<bind> (\<lambda>r. or_return r f)) N Q"
proof (rule builds_or_return [OF divide_unsigned_builds [OF assms(1)]])
  fix s ctx'
  assume *: "wf_ctx ctx'" "extends ctx ctx'" "word_ok n (n_nets ctx') (fst s) \<and> word_ok n (n_nets ctx') (snd s)"
  have "num v a mod 2 ^ n = num v a" "num v b mod 2 ^ n = num v b" for v
    using num_lt [of v a] num_lt [of v b] assms(2,3) by auto
  with * assms(4) [of ctx' s] extends_n_nets [OF *(2)]
  show "builds ctx' (f s) N (\<lambda>v t. num v (fst s) = rquo n (num v a mod 2 ^ n) (num v b mod 2 ^ n) \<and>
      num v (snd s) = num v a mod 2 ^ n mod (num v b mod 2 ^ n) \<longrightarrow> Q v t)" by simp
qed (use assms in auto)

lemma cell_fn_Xor2: "cell_fn Xor2 [x, y] = (x \<noteq> y)"
  by simp

lemma signed_result:
  assumes len: "length a = n" "length b = n" "0 < n"
    and aa: "negated n v aa a (a ! (n - 1))" "length aa = n" and ab: "negated n v ab b (b ! (n - 1))" "length ab = n"
    and qr: "num v (fst qr) = rquo n (num v aa) (num v ab) \<and> num v (snd qr) = num v aa mod num v ab"
    and qs: "v qs = (v (a ! (n - 1)) \<noteq> v (b ! (n - 1)))"
    and quo: "negated n v quo (fst qr) qs" and rm: "negated n v rm (snd qr) (a ! (n - 1))"
  shows "int (num v quo) = quo_spec (snum v a) (snum v b) mod 2 ^ n \<and>
    int (num v rm) = (snum v a smod snum v b) mod 2 ^ n"
proof -
  note A = num_abs [OF len(1,3) aa(1)[unfolded negated_def]] num_abs [OF len(2,3) ab(1)[unfolded negated_def]]
  have "\<bar>snum v a\<bar> < 2 ^ n" "\<bar>snum v b\<bar> < 2 ^ n"
    using num_lt [of v aa] num_lt [of v ab] aa(2) ab(2) A by (metis of_nat_less_iff of_nat_numeral of_nat_power)+
  note B = signed_quotient [OF A(1) this(1) A(2) this(2) qr [THEN conjunct1]] signed_remainder [OF A]
  note sgn = snum_sign [OF len(1,3), of v] snum_sign [OF len(2,3), of v]
  have "int (num v quo) = quo_spec (snum v a) (snum v b) mod 2 ^ n"
    using quo B(1) unfolding negated_def qs sgn by simp
  moreover have "int (num v rm) = (snum v a smod snum v b) mod 2 ^ n"
    using rm unfolding negated_def sgn qr [THEN conjunct2] B(2) .
  ultimately show ?thesis by blast
qed

lemma divide_signed_builds:
  assumes wf: "wf_ctx ctx" and a: "\<forall>x \<in> set a. x < n_nets ctx" and b: "\<forall>x \<in> set b. x < n_nets ctx"
  shows "builds ctx (divide_signed a b n)
    (\<lambda>k r. \<exists>x. r = Inr x \<and> word_ok n k (fst x) \<and> word_ok n k (snd x))
    (\<lambda>v r. \<forall>x. r = Inr x \<longrightarrow>
      int (num v (fst x)) = quo_spec (snum v (extend a n True)) (snum v (extend b n True)) mod 2 ^ n \<and>
      int (num v (snd x)) = (snum v (extend a n True) smod snum v (extend b n True)) mod 2 ^ n)"
proof (cases "n = 0")
  case True
  with wf show ?thesis by (auto simp: divide_signed_def intro!: builds_return)
next
  case False
  let ?a = "extend a n True" and ?b = "extend b n True"
  have ok: "word_ok n (n_nets ctx) ?a" "word_ok n (n_nets ctx) ?b"
    using extend_ok [OF wf a] extend_ok [OF wf b] by auto
  have sa: "?a ! (n - 1) < n_nets ctx" and sb: "?b ! (n - 1) < n_nets ctx"
    using ok False by (auto intro!: word_ok_nth)
  have len: "length ?a = n" "length ?b = n" "0 < n" using ok False by auto
  show ?thesis unfolding divide_signed_def Let_def case_prod_beta' using False
    apply (simp only: if_False)
    apply (intro bind_negate bind_divide bind_cell_2 final_return wf;
        (assumption | rule ok sa arity.simps | linarith | erule word_ok_mono, linarith |
         rule word_ok_mono [OF ok(2)], linarith | rule less_le_trans [OF sa], linarith |
         rule less_le_trans [OF sb], linarith)?)
    subgoal by (simp, blast intro: less_le_trans)
    apply (intro impI allI, drule Inr_inject, hypsubst, simp only: fst_conv snd_conv cell_fn_Xor2)
    apply (rule signed_result [OF len])
    apply (assumption, erule conjunct1, assumption, erule conjunct1, assumption+)
    done
qed

subsection \<open>Properties\<close>

text \<open>
  C11: unsigned division of any two vectors at width \<open>n\<close> yields the quotient and the
  remainder of the operands taken modulo two to the \<open>n\<close>; a zero divisor yields the
  all-ones quotient and the dividend as remainder, as the comment on the function says.
\<close>

theorem divide_unsigned_correct:
  assumes "wf_ctx ctx" "\<forall>x \<in> set a. x < n_nets ctx" "\<forall>x \<in> set b. x < n_nets ctx"
  shows "\<exists>quo rm ctx'. run_state (divide_unsigned a b n) ctx = (Inr (quo, rm), ctx') \<and>
    wf_ctx ctx' \<and> extends ctx ctx' \<and> word_ok n (n_nets ctx') quo \<and> word_ok n (n_nets ctx') rm \<and>
    (\<forall>v. sat v ctx' \<longrightarrow>
      (let A = num v a mod 2 ^ n; B = num v b mod 2 ^ n in
       num v quo = (if B = 0 then 2 ^ n - 1 else A div B) \<and> num v rm = (if B = 0 then A else A mod B)))"
proof -
  from builds_run_ok [OF divide_unsigned_builds [OF assms, of n]] obtain x ctx' where
    "run_state (divide_unsigned a b n) ctx = (Inr x, ctx')" "wf_ctx ctx'" "extends ctx ctx'"
    "word_ok n (n_nets ctx') (fst x) \<and> word_ok n (n_nets ctx') (snd x)"
    "\<forall>v. sat v ctx' \<longrightarrow> num v (fst x) = rquo n (num v a mod 2 ^ n) (num v b mod 2 ^ n) \<and>
      num v (snd x) = (num v a mod 2 ^ n) mod (num v b mod 2 ^ n)" by blast
  then show ?thesis
    by (intro exI [of _ "fst x"] exI [of _ "snd x"] exI [of _ ctx']) (auto simp: rquo_def Let_def)
qed

lemma divide_unsigned_correct_witness:
  "\<exists>quo rm ctx'. run_state (divide_unsigned [2, 3, 4] [5, 6, 7] 3) (inputs_ctx 6) = (Inr (quo, rm), ctx') \<and>
    (\<forall>v. sat v ctx' \<longrightarrow> num v [5, 6, 7] \<noteq> 0 \<longrightarrow> num v quo = num v [2, 3, 4] div num v [5, 6, 7])"
proof -
  have "num v [2, 3, 4] mod 2 ^ 3 = num v [2, 3, 4]" "num v [5, 6, 7] mod 2 ^ 3 = num v [5, 6, 7]" for v
    using num_lt [of v "[2, 3, 4]"] num_lt [of v "[5, 6, 7]"] by (simp_all del: num_Cons)
  with divide_unsigned_correct [where ctx = "inputs_ctx 6" and a = "[2, 3, 4]" and b = "[5, 6, 7]" and n = 3]
  show ?thesis by (fastforce simp: Let_def simp del: num_Cons)
qed

text \<open>
  C12: signed division at width \<open>n\<close> truncates toward zero, the remainder takes the sign
  of the dividend, and the results wrap modulo two to the \<open>n\<close> (the smallest number
  divided by minus one); a zero divisor yields minus one, or one when the dividend is
  negative, and the dividend as remainder.
\<close>

theorem divide_signed_correct:
  assumes "wf_ctx ctx" "\<forall>x \<in> set a. x < n_nets ctx" "\<forall>x \<in> set b. x < n_nets ctx"
    and "length a \<le> n" "length b \<le> n"
  shows "\<exists>quo rm ctx'. run_state (divide_signed a b n) ctx = (Inr (quo, rm), ctx') \<and>
    wf_ctx ctx' \<and> extends ctx ctx' \<and> word_ok n (n_nets ctx') quo \<and> word_ok n (n_nets ctx') rm \<and>
    (\<forall>v. sat v ctx' \<longrightarrow>
      (let A = snum v a; B = snum v b in
       int (num v quo) = (if B = 0 then (if A < 0 then 1 else - 1) else A sdiv B) mod 2 ^ n \<and>
       int (num v rm) = (A smod B) mod 2 ^ n))"
proof -
  from builds_run_ok [OF divide_signed_builds [OF assms(1-3), of n]] obtain x ctx' where
    x: "run_state (divide_signed a b n) ctx = (Inr x, ctx')" "wf_ctx ctx'" "extends ctx ctx'"
    "word_ok n (n_nets ctx') (fst x) \<and> word_ok n (n_nets ctx') (snd x)" and
    s: "\<forall>v. sat v ctx' \<longrightarrow>
      int (num v (fst x)) = quo_spec (snum v (extend a n True)) (snum v (extend b n True)) mod 2 ^ n \<and>
      int (num v (snd x)) = (snum v (extend a n True) smod snum v (extend b n True)) mod 2 ^ n" by blast
  have "snum v (extend a n True) = snum v a" "snum v (extend b n True) = snum v b" if "sat v ctx'" for v
    using extend_ival [OF wf_ctx_sat_rails [OF x(2) that], where sgnd = True] assms(4,5) by (auto simp: ival_def)
  with x s show ?thesis
    by (intro exI [of _ "fst x"] exI [of _ "snd x"] exI [of _ ctx']) (auto simp: quo_spec_def Let_def)
qed

lemma divide_signed_correct_witness:
  "\<exists>quo rm ctx'. run_state (divide_signed [2, 3, 4] [5, 6] 4) (inputs_ctx 5) = (Inr (quo, rm), ctx') \<and>
    (\<forall>v. sat v ctx' \<longrightarrow> snum v [5, 6] \<noteq> 0 \<longrightarrow> int (num v quo) = (snum v [2, 3, 4] sdiv snum v [5, 6]) mod 2 ^ 4)"
  using divide_signed_correct [where ctx = "inputs_ctx 5" and a = "[2, 3, 4]" and b = "[5, 6]" and n = 4]
  by (fastforce simp: Let_def)

end
