(* ===== verification/Shift.thy ===== *)
theory Shift
  imports Divide
begin

section \<open>Shifters, constant matching and the select tree (\<open>conv/arith.rs\<close>)\<close>

text \<open>
  The barrel shifter, the constant shift (rewiring only), the match of a vector against a
  constant, and the tree of multiplexers that indexes an array of vectors. A shift is
  described bit by bit by \<open>shifted_bit\<close>, and by its value; both shifters implement the
  same description.
\<close>

subsection \<open>The emitters\<close>

definition shift_source :: "op \<Rightarrow> net_id list \<Rightarrow> net_id \<Rightarrow> nat \<Rightarrow> nat \<Rightarrow> net_id" where
  "shift_source oper cur fill shift_amount j =
     (case oper of
        LogicShiftL \<Rightarrow> (if shift_amount \<le> j then cur ! (j - shift_amount) else NET_CONST0)
      | ArithShiftL \<Rightarrow> (if shift_amount \<le> j then cur ! (j - shift_amount) else NET_CONST0)
      | LogicShiftR \<Rightarrow> (if j + shift_amount < length cur then cur ! (j + shift_amount) else fill)
      | ArithShiftR \<Rightarrow> (if j + shift_amount < length cur then cur ! (j + shift_amount) else fill)
      | _ \<Rightarrow> NET_CONST0)"

definition shift_stage ::
    "op \<Rightarrow> net_id \<Rightarrow> net_id list \<Rightarrow> nat \<Rightarrow> net_id list \<Rightarrow> (conv_ctx, net_id list) state" where
  "shift_stage oper fill amount i cur =
     (let shifted = map (shift_source oper cur fill (2 ^ i)) [0..<length cur]
      in traverse_list (\<lambda>(c, s). add_cell Mux2 [amount ! i, c, s]) (zip cur shifted))"

definition index_bits_for :: "nat \<Rightarrow> nat" where
  "index_bits_for n = (if n \<le> 1 then 1 else bit_width (n - 1))"

definition barrel_shift ::
    "net_id list \<Rightarrow> net_id list \<Rightarrow> op \<Rightarrow> bool \<Rightarrow> (conv_ctx, net_id list) state" where
  "barrel_shift xs amount oper signed_ext =
     (if xs = [] then State_Monad.return []
      else
        let n = length xs;
            fill = (if signed_ext \<and> oper = ArithShiftR then xs ! (n - 1) else NET_CONST0);
            stages = (if n \<le> 1 then 0 else bit_width (n - 1))
        in do {
          cur \<leftarrow> foldM (shift_stage oper fill amount) [0..<min stages (length amount)] xs;
          (if length amount > stages
           then do {
             any_high \<leftarrow> reduce_or (drop stages amount);
             traverse_list (\<lambda>c. add_cell Mux2 [any_high, c, fill]) cur
           }
           else State_Monad.return cur)
        })"

definition eq_const :: "net_id list \<Rightarrow> nat \<Rightarrow> (conv_ctx, net_id) state" where
  "eq_const idx k =
     (if idx = [] then State_Monad.return (if k = 0 then NET_CONST1 else NET_CONST0)
      else do {
        bits \<leftarrow> traverse_list (\<lambda>(i, n). add_cell Xnor2 [n, if bit k i then NET_CONST1 else NET_CONST0])
                  (zip [0..<length idx] idx);
        (if k div 2 ^ length idx \<noteq> 0 then State_Monad.return NET_CONST0 else reduce_and bits)
      })"

definition mux_pair :: "net_id \<Rightarrow> net_id list \<Rightarrow> net_id list list \<Rightarrow> (conv_ctx, net_id list) state" where
  "mux_pair sel zero_elem pair =
     (let a = pair ! 0; b = (if length pair > 1 then pair ! 1 else zero_elem)
      in traverse_list (\<lambda>(ai, bi). add_cell Mux2 [sel, ai, bi]) (zip a b))"

fun mux_levels :: "net_id list \<Rightarrow> net_id list \<Rightarrow> net_id list list \<Rightarrow> (conv_ctx, net_id list list) state" where
  "mux_levels zero_elem [] level = State_Monad.return level"
| "mux_levels zero_elem (sel # sels) level =
     (if length level = 1 then State_Monad.return level
      else do {
        nxt \<leftarrow> traverse_list (mux_pair sel zero_elem) (chunks2 level);
        mux_levels zero_elem sels nxt
      })"

text \<open>\<open>None\<close> is the failed assertion on an empty array.\<close>

definition dynamic_mux_tree ::
    "net_id list list \<Rightarrow> net_id list \<Rightarrow> (conv_ctx, net_id list option) state" where
  "dynamic_mux_tree elements sel_bits =
     (if elements = [] then State_Monad.return None
      else do {
        level \<leftarrow> mux_levels (replicate (length (elements ! 0)) NET_CONST0) sel_bits elements;
        State_Monad.return (Some (level ! 0))
      })"

definition constant_shift :: "net_id list \<Rightarrow> op \<Rightarrow> nat \<Rightarrow> bool \<Rightarrow> net_id list" where
  "constant_shift xs oper amount signed_ext =
     (let width = length xs;
          out = replicate width NET_CONST0;
          left = (if amount < width then replicate amount NET_CONST0 @ take (width - amount) xs else out)
      in case oper of
           LogicShiftL \<Rightarrow> left
         | ArithShiftL \<Rightarrow> left
         | LogicShiftR \<Rightarrow> (if amount < width then drop amount xs @ replicate amount NET_CONST0 else out)
         | ArithShiftR \<Rightarrow>
             (let pad = (if signed_ext \<and> width > 0 then xs ! (width - 1) else NET_CONST0)
              in map (\<lambda>i. if i + amount < width then xs ! (i + amount) else pad) [0..<width])
         | _ \<Rightarrow> out)"

subsection \<open>What a shift is\<close>

definition shift_left :: "op \<Rightarrow> bool" where
  "shift_left oper \<longleftrightarrow> oper = LogicShiftL \<or> oper = ArithShiftL"

definition shift_right :: "op \<Rightarrow> bool" where
  "shift_right oper \<longleftrightarrow> oper = LogicShiftR \<or> oper = ArithShiftR"

definition shifted_bit :: "op \<Rightarrow> bool list \<Rightarrow> bool \<Rightarrow> nat \<Rightarrow> nat \<Rightarrow> bool" where
  "shifted_bit oper xs fill amount j =
     (if shift_left oper then amount \<le> j \<and> xs ! (j - amount)
      else if j + amount < length xs then xs ! (j + amount) else fill)"

definition shifted :: "op \<Rightarrow> bool list \<Rightarrow> bool \<Rightarrow> nat \<Rightarrow> bool list" where
  "shifted oper xs fill amount = map (shifted_bit oper xs fill amount) [0..<length xs]"

lemma length_shifted [simp]: "length (shifted oper xs fill amount) = length xs"
  by (simp add: shifted_def)

lemma shifted_Nil [simp]: "shifted oper [] fill amount = []"
  by (simp add: shifted_def)

lemma nth_shifted [simp]: "j < length xs \<Longrightarrow> shifted oper xs fill amount ! j = shifted_bit oper xs fill amount j"
  by (simp add: shifted_def)

lemma shifted_0: "shifted oper xs fill 0 = xs"
  by (rule nth_equalityI) (auto simp: shifted_bit_def)

lemma shifted_shifted: "shifted oper (shifted oper xs fill a) fill b = shifted oper xs fill (a + b)"
  by (rule nth_equalityI) (auto simp: shifted_bit_def add.commute add.left_commute)

lemma shifted_all:
  assumes "length xs \<le> amount" "shift_left oper \<Longrightarrow> \<not> fill"
  shows "shifted oper xs fill amount = replicate (length xs) fill"
  using assms by (intro nth_equalityI) (auto simp: shifted_bit_def)

lemma shifted_left:
  assumes "shift_left oper"
  shows "uval (shifted oper xs fill amount) = (2 ^ amount * uval xs) mod 2 ^ length xs"
proof -
  have "shifted oper xs fill amount = take (length xs) (replicate amount False @ xs)"
    using assms by (intro nth_equalityI) (auto simp: shifted_bit_def nth_append not_less min_def)
  then show ?thesis unfolding uval_take [symmetric] by (simp only: uval_take uval_append) simp
qed

lemma shifted_right:
  assumes "\<not> shift_left oper"
  shows "uval (shifted oper xs False amount) = uval xs div 2 ^ amount"
proof -
  have "shifted oper xs False amount = take (length xs) (drop amount xs @ replicate amount False)"
    using assms by (intro nth_equalityI) (auto simp: shifted_bit_def nth_append add.commute)
  moreover have "uval xs div 2 ^ amount < 2 ^ length xs"
    using uval_lt [of xs] by (meson div_le_dividend le_less_trans)
  ultimately show ?thesis by (simp add: uval_take uval_append uval_drop)
qed

lemma sval_drop:
  assumes "amount < length xs"
  shows "sval (drop amount xs) = sval xs div 2 ^ amount"
proof -
  have "length xs = amount + (length xs - amount)" using assms by simp
  then have pow: "(2::int) ^ length xs = 2 ^ amount * 2 ^ (length xs - amount)" by (metis power_add)
  have "last (drop amount xs) = last xs" "xs \<noteq> []" "drop amount xs \<noteq> []" using assms by (auto simp: last_drop)
  moreover have "int (uval xs div 2 ^ amount) = int (uval xs) div 2 ^ amount" by (simp add: zdiv_int)
  moreover have "(int (uval xs) - 2 ^ amount * m) div 2 ^ amount = int (uval xs) div 2 ^ amount - m" for m
    using div_mult_self1 [of "2 ^ amount" "int (uval xs)" "- m"] by (simp add: mult.commute)
  ultimately show ?thesis
    unfolding sval_def uval_drop length_drop using pow by simp
qed

lemma shifted_arith:
  assumes "\<not> shift_left oper" "xs \<noteq> []"
  shows "sval (shifted oper xs (last xs) amount) = sval xs div 2 ^ amount"
proof (cases "amount < length xs")
  case True
  have "shifted oper xs (last xs) amount = drop amount xs @ replicate amount (last (drop amount xs))"
    using assms True by (intro nth_equalityI) (auto simp: shifted_bit_def nth_append add.commute last_drop)
  then show ?thesis
    using sval_sign_extend [of "drop amount xs" amount] sval_drop [OF True] True by simp
next
  case False
  have "shifted oper xs (last xs) amount = replicate (length xs) (last xs)"
    using False assms(1) by (intro shifted_all) auto
  also have "\<dots> = [last xs] @ replicate (length xs - 1) (last [last xs])"
    using assms(2) by (cases xs) auto
  finally have "sval (shifted oper xs (last xs) amount) = sval [last xs]"
    using sval_sign_extend [of "[last xs]" "length xs - 1"] by simp
  also have "\<dots> = (if last xs then - 1 else 0)" by (simp add: sval_def)
  also have "\<dots> = sval xs div 2 ^ amount"
  proof -
    have b: "- (2 ^ (length xs - 1)) \<le> sval xs" "sval xs < 2 ^ (length xs - 1)"
      using sval_bounds [OF assms(2)] by auto
    have le: "(2::int) ^ (length xs - 1) \<le> 2 ^ amount" using False by (intro power_increasing) auto
    have "int (uval xs) < 2 ^ length xs"
      using uval_lt [of xs] by (metis of_nat_less_iff of_nat_numeral of_nat_power)
    then have sgn: "last xs \<longleftrightarrow> sval xs < 0" using assms(2) by (auto simp: sval_def)
    show ?thesis
    proof (cases "last xs")
      case True
      have "- (2 ^ amount) \<le> sval xs" using b(1) le by linarith
      moreover have "sval xs < 0" using sgn True by blast
      ultimately have "sval xs div 2 ^ amount = - 1" by (intro int_div_pos_eq [of _ _ _ "sval xs + 2 ^ amount"]) auto
      then show ?thesis using True by simp
    next
      case False
      then have "0 \<le> sval xs" using sgn by simp
      moreover have "sval xs < 2 ^ amount" using b(2) le by linarith
      ultimately have "sval xs div 2 ^ amount = 0" by (rule div_pos_pos_trivial)
      then show ?thesis using False by simp
    qed
  qed
  finally show ?thesis .
qed

subsection \<open>The barrel shifter\<close>

definition shift_fill :: "op \<Rightarrow> bool \<Rightarrow> bool list \<Rightarrow> bool" where
  "shift_fill oper signed_ext xs \<longleftrightarrow> signed_ext \<and> oper = ArithShiftR \<and> last xs"

lemma map_shift_source:
  assumes "rails_ok v" "shift_left oper \<or> shift_right oper" "length cur = n"
  shows "map v (map (shift_source oper cur fill s) [0..<n]) = shifted oper (map v cur) (v fill) s"
  using assms by (intro nth_equalityI)
    (auto simp: shift_source_def shifted_bit_def shift_left_def shift_right_def)

lemma shift_stage_builds:
  assumes wf: "wf_ctx ctx" and cur: "word_ok n (n_nets ctx) cur" and fill: "fill < n_nets ctx"
    and amt: "i < length amount" "\<forall>x \<in> set amount. x < n_nets ctx" and oper: "shift_left oper \<or> shift_right oper"
  shows "builds ctx (shift_stage oper fill amount i cur) (word_ok n)
    (\<lambda>v r. rails_ok v \<longrightarrow> map v r = shifted oper (map v cur) (v fill) (2 ^ i * of_bool (v (amount ! i))))"
proof -
  let ?s = "map (shift_source oper cur fill (2 ^ i)) [0..<length cur]"
  have "word_ok n (n_nets ctx) ?s"
    using cur fill wf_ctx_rails [OF wf] by (auto simp: shift_source_def split: op.split)
  then have "builds ctx (traverse_list (\<lambda>(c, s). add_cell Mux2 [amount ! i, c, s]) (zip cur ?s)) (word_ok n)
      (\<lambda>v r. map v r = (if v (amount ! i) then map v ?s else map v cur))"
    using wf cur amt by (intro traverse_mux_builds) auto
  then show ?thesis unfolding shift_stage_def Let_def
  proof (rule builds_post, intro impI)
    fix v r
    assume v: "rails_ok v" and r: "map v r = (if v (amount ! i) then map v ?s else map v cur)"
    have "map v ?s = shifted oper (map v cur) (v fill) (2 ^ i)"
      using map_shift_source [OF v oper] cur by blast
    with r show "map v r = shifted oper (map v cur) (v fill) (2 ^ i * of_bool (v (amount ! i)))"
      by (cases "v (amount ! i)") (simp_all only: of_bool_eq if_True if_False mult_1_right mult_0_right shifted_0)
  qed
qed

lemma shift_stages_builds:
  assumes wf: "wf_ctx ctx" and xs: "word_ok n (n_nets ctx) xs" and fill: "fill < n_nets ctx"
    and amt: "m \<le> length amount" "\<forall>x \<in> set amount. x < n_nets ctx" and oper: "shift_left oper \<or> shift_right oper"
  shows "builds ctx (foldM (shift_stage oper fill amount) [0..<m] xs) (word_ok n)
    (\<lambda>v r. map v r = shifted oper (map v xs) (v fill) (num v (take m amount)))"
proof -
  let ?J = "\<lambda>v j r. rails_ok v \<longrightarrow> map v r = shifted oper (map v xs) (v fill) (num v (take j amount))"
  have "builds ctx (foldM (shift_stage oper fill amount) [0..<m] xs) (word_ok n)
      (\<lambda>v r. ?J v 0 xs \<longrightarrow> ?J v (length [0..<m]) r)"
  proof (rule builds_foldM [where N = "\<lambda>k _. word_ok n k" and J = ?J])
    fix j acc ctx'
    assume j: "j < length [0..<m]" and e: "wf_ctx ctx'" "extends ctx ctx'" "word_ok n (n_nets ctx') acc"
    have idx: "[0..<m] ! j = j" using j by simp
    have "builds ctx' (shift_stage oper fill amount j acc) (word_ok n)
      (\<lambda>v r. rails_ok v \<longrightarrow> map v r = shifted oper (map v acc) (v fill) (2 ^ j * of_bool (v (amount ! j))))"
      using j amt(1) by (intro shift_stage_builds e in_range_mono [OF fill] nets_range_mono [OF amt(2)] oper) auto
    then show "builds ctx' (shift_stage oper fill amount ([0..<m] ! j) acc) (word_ok n)
        (\<lambda>v r. ?J v j acc \<longrightarrow> ?J v (Suc j) r)"
      unfolding idx by (rule builds_post) (use j amt(1) in \<open>simp add: shifted_shifted num_take_Suc\<close>)
  qed (use assms in auto)
  then show ?thesis by (rule builds_post_rails) (simp add: shifted_0)
qed

lemma traverse_mux_const_builds:
  assumes "wf_ctx ctx" "word_ok n (n_nets ctx) xs" "c < n_nets ctx" "d < n_nets ctx"
  shows "builds ctx (traverse_list (\<lambda>x. add_cell Mux2 [c, x, d]) xs) (word_ok n)
    (\<lambda>v r. map v r = (if v c then replicate n (v d) else map v xs))"
proof -
  have eq: "traverse_list (\<lambda>(x, y). f x y) (zip xs (replicate (length xs) d)) = traverse_list (\<lambda>x. f x d) xs"
    for f :: "net_id \<Rightarrow> net_id \<Rightarrow> (conv_ctx, net_id) state" and xs
    by (induction xs) simp_all
  have "word_ok n (n_nets ctx) (replicate n d)" using assms(4) by simp
  from traverse_mux_builds [OF assms(1,2) this assms(3)] show ?thesis
    using eq [of "\<lambda>x y. add_cell Mux2 [c, x, y]" xs] assms(2) by (simp cong: if_cong)
qed

lemma num_take_drop: "num v ns = num v (take k ns) + 2 ^ min k (length ns) * num v (drop k ns)"
  using num_append [of v "take k ns" "drop k ns"] by (simp add: min.commute)

lemma num_eq_0: "num v ns = 0 \<longleftrightarrow> (\<forall>n \<in> set ns. \<not> v n)"
  by (induction ns) auto

lemma barrel_shift_builds:
  assumes wf: "wf_ctx ctx" and xs: "\<forall>x \<in> set xs. x < n_nets ctx" and amt: "\<forall>x \<in> set amount. x < n_nets ctx"
    and oper: "shift_left oper \<or> shift_right oper"
  shows "builds ctx (barrel_shift xs amount oper sgn_ext) (word_ok (length xs))
    (\<lambda>v r. map v r = shifted oper (map v xs) (shift_fill oper sgn_ext (map v xs)) (num v amount))"
proof (cases "xs = []")
  case True
  with wf show ?thesis by (simp add: barrel_shift_def shifted_def builds_return)
next
  case False
  let ?n = "length xs"
  let ?fill = "if sgn_ext \<and> oper = ArithShiftR then xs ! (?n - 1) else NET_CONST0"
  let ?st = "if ?n \<le> 1 then 0 else bit_width (?n - 1)"
  let ?m = "min ?st (length amount)"
  have st: "?n \<le> 2 ^ ?st" using less_two_power_bit_width [of "?n - 1"] by auto
  have fill: "?fill < n_nets ctx" using xs False wf_ctx_rails [OF wf] by auto
  have vfill: "v ?fill = shift_fill oper sgn_ext (map v xs)" if "rails_ok v" for v
    using that False by (auto simp: shift_fill_def last_map last_conv_nth)
  have nofill: "shift_left oper \<Longrightarrow> \<not> shift_fill oper sgn_ext bs" for bs
    by (auto simp: shift_left_def shift_fill_def)
  have "word_ok ?n (n_nets ctx) xs" using xs by simp
  note stages = shift_stages_builds [OF wf this fill _ amt oper, of ?m, simplified min.cobounded2]
  show ?thesis unfolding barrel_shift_def Let_def using False
  proof (simp only: if_False, intro builds_bind [OF stages])
    fix cur c assume c: "wf_ctx c" "extends ctx c" "word_ok ?n (n_nets c) cur"
    let ?P = "\<lambda>v. map v cur = shifted oper (map v xs) (v ?fill) (num v (take ?m amount))"
    let ?Q = "\<lambda>v r. map v r = shifted oper (map v xs) (shift_fill oper sgn_ext (map v xs)) (num v amount)"
    show "builds c (if ?st < length amount
        then reduce_or (drop ?st amount) \<bind> (\<lambda>any_high. traverse_list (\<lambda>c. add_cell Mux2 [any_high, c, ?fill]) cur)
        else State_Monad.return cur) (word_ok ?n) (\<lambda>v r. ?P v \<longrightarrow> ?Q v r)"
    proof (cases "?st < length amount")
      case False
      then have all: "take ?m amount = amount" by simp
      have *: "?P v \<longrightarrow> ?Q v cur" if "rails_ok v" for v by (simp only: vfill [OF that] all simp_thms)
      show ?thesis
        using False final_return [where N = "word_ok ?n" and P = "\<lambda>v r. ?P v \<longrightarrow> ?Q v r", OF c(1) c(3) *] by (simp only: if_False)
    next
      case True
      have any: "builds c (reduce_or (drop ?st amount)) (\<lambda>m n. n < m) (\<lambda>v n. v n = (\<exists>i \<in> set (drop ?st amount). v i))"
        using nets_range_mono [OF amt c(2)] by (intro reduce_or_builds c(1)) (auto dest: in_set_dropD)
      show ?thesis using True
      proof (simp only: if_True, intro builds_bind [OF any])
        fix h c' assume c': "wf_ctx c'" "extends c c'" "h < n_nets c'"
        have "word_ok ?n (n_nets c') cur" using c(3) extends_n_nets [OF c'(2)] by (rule word_ok_mono)
        moreover have "?fill < n_nets c'" using fill c(2) c'(2) by (blast intro: in_range_mono)
        ultimately have "builds c' (traverse_list (\<lambda>c. add_cell Mux2 [h, c, ?fill]) cur) (word_ok ?n)
            (\<lambda>v r. map v r = (if v h then replicate ?n (v ?fill) else map v cur))"
          using c' by (intro traverse_mux_const_builds)
        then show "builds c' (traverse_list (\<lambda>c. add_cell Mux2 [h, c, ?fill]) cur) (word_ok ?n)
            (\<lambda>v r. v h = (\<exists>i \<in> set (drop ?st amount). v i) \<longrightarrow> ?P v \<longrightarrow> ?Q v r)"
        proof (rule builds_post_rails, intro impI)
          fix v r
          assume v: "rails_ok v" and r: "map v r = (if v h then replicate ?n (v ?fill) else map v cur)"
            and h: "v h = (\<exists>i \<in> set (drop ?st amount). v i)" and P: "?P v"
          have num: "num v amount = num v (take ?st amount) + 2 ^ ?st * num v (drop ?st amount)"
            using num_take_drop [of v amount ?st] True by (simp add: min_def)
          show "?Q v r"
          proof (cases "v h")
            case True
            then have "num v (drop ?st amount) \<noteq> 0" using h by (simp add: num_eq_0)
            then have "?n \<le> num v amount"
              using num st mult_le_mono2 [of 1 "num v (drop ?st amount)" "2 ^ ?st"] by linarith
            then show ?thesis
              using r True shifted_all [of "map v xs" "num v amount" oper "v ?fill"] nofill by (simp add: vfill [OF v])
          next
            case False
            then have "num v (drop ?st amount) = 0" using h by (simp add: num_eq_0)
            then show ?thesis using r False P num True by (simp add: vfill [OF v] min_def)
          qed
        qed
      qed
    qed
  qed simp
qed

lemma constant_shift_bits:
  assumes "rails_ok v" "shift_left oper \<or> shift_right oper"
  shows "map v (constant_shift xs oper amount sgn_ext) =
    shifted oper (map v xs) (shift_fill oper sgn_ext (map v xs)) amount"
proof (cases "oper = ArithShiftR")
  case True
  then show ?thesis using assms(1)
    by (intro nth_equalityI)
      (auto simp: constant_shift_def Let_def shifted_bit_def shift_left_def shift_fill_def last_map last_conv_nth)
next
  case False
  then have "oper = LogicShiftL \<or> oper = ArithShiftL \<or> oper = LogicShiftR"
    using assms(2) by (auto simp: shift_left_def shift_right_def)
  then show ?thesis using assms(1)
    by (elim disjE; intro nth_equalityI)
      (auto simp: constant_shift_def Let_def shifted_bit_def shift_left_def shift_fill_def nth_append add.commute)
qed

subsection \<open>Matching a constant\<close>

lemma num_eq_const:
  "num v idx = k \<longleftrightarrow> k div 2 ^ length idx = 0 \<and> (\<forall>i < length idx. v (idx ! i) = bit k i)"
proof (induction idx arbitrary: k)
  case (Cons n idx)
  have "num v (n # idx) = k \<longleftrightarrow> v n = odd k \<and> num v idx = k div 2"
    by (cases "v n") (auto elim: oddE evenE)
  also have "\<dots> \<longleftrightarrow> v n = odd k \<and> k div 2 div 2 ^ length idx = 0 \<and>
      (\<forall>i < length idx. v (idx ! i) = bit (k div 2) i)" using Cons by simp
  finally show ?case
    by (auto simp: div_mult2_eq All_less_Suc2 bit_Suc bit_0)
qed auto

lemma eq_const_builds:
  assumes wf: "wf_ctx ctx" and idx: "\<forall>x \<in> set idx. x < n_nets ctx"
  shows "builds ctx (eq_const idx k) (\<lambda>k r. r < k) (\<lambda>v r. v r = (num v idx = k))"
proof (cases "idx = []")
  case True
  with assms wf_ctx_rails [OF wf] show ?thesis by (auto simp: eq_const_def intro!: final_return)
next
  case False
  let ?c = "\<lambda>i. if bit k i then NET_CONST1 else NET_CONST0"
  have bits: "builds ctx (traverse_list (\<lambda>(i, n). add_cell Xnor2 [n, ?c i]) (zip [0..<length idx] idx))
    (\<lambda>k r. length r = length (zip [0..<length idx] idx) \<and> (\<forall>x \<in> set r. x < k))
    (\<lambda>v r. list_all2 (\<lambda>p x. rails_ok v \<longrightarrow> v x = (v (snd p) = bit k (fst p))) (zip [0..<length idx] idx) r)"
  proof (rule builds_traverse)
    fix p ctx' assume p: "p \<in> set (zip [0..<length idx] idx)" and e: "wf_ctx ctx'" "extends ctx ctx'"
    from p have "snd p \<in> set idx" by (metis prod.collapse set_zip_rightD)
    with idx e(2) have "snd p < n_nets ctx'" by (auto intro: in_range_mono)
    then have "builds ctx' (add_cell Xnor2 [snd p, ?c (fst p)]) (\<lambda>k r. r < k)
        (\<lambda>v r. v r = cell_fn Xnor2 [v (snd p), v (?c (fst p))])"
      using e wf_ctx_rails [OF e(1)] by (intro cell_2_builds) auto
    then show "builds ctx' (case p of (i, n) \<Rightarrow> add_cell Xnor2 [n, ?c i]) (\<lambda>k r. r < k)
        (\<lambda>v r. rails_ok v \<longrightarrow> v r = (v (snd p) = bit k (fst p)))"
      unfolding case_prod_beta by (rule builds_post) auto
  qed (use wf in auto)
  have spec: "(\<forall>i \<in> set r. v i) = (\<forall>i < length idx. v (idx ! i) = bit k i)"
    if "rails_ok v" "list_all2 (\<lambda>p x. rails_ok v \<longrightarrow> v x = (v (snd p) = bit k (fst p))) (zip [0..<length idx] idx) r" for v r
    using that by (auto simp: list_all2_conv_all_nth all_set_conv_all_nth)
  show ?thesis unfolding eq_const_def using False
  proof (simp only: if_False, intro builds_bind [OF bits])
    fix r c assume c: "wf_ctx c" "length r = length (zip [0..<length idx] idx) \<and> (\<forall>x \<in> set r. x < n_nets c)"
    let ?P = "\<lambda>v. list_all2 (\<lambda>p x. rails_ok v \<longrightarrow> v x = (v (snd p) = bit k (fst p))) (zip [0..<length idx] idx) r"
    show "builds c (if k div 2 ^ length idx \<noteq> 0 then State_Monad.return NET_CONST0 else reduce_and r)
      (\<lambda>k r. r < k) (\<lambda>v s. ?P v \<longrightarrow> v s = (num v idx = k))"
    proof (cases "k div 2 ^ length idx = 0")
      case True
      have "builds c (reduce_and r) (\<lambda>m n. n < m) (\<lambda>v n. v n = (\<forall>i \<in> set r. v i))"
        using c by (intro reduce_and_builds) auto
      then have "builds c (reduce_and r) (\<lambda>k r. r < k) (\<lambda>v s. ?P v \<longrightarrow> v s = (num v idx = k))"
        by (rule builds_post_rails) (use spec True in \<open>simp add: num_eq_const\<close>)
      with True show ?thesis by simp
    next
      case False
      with c wf_ctx_rails [OF c(1)] show ?thesis
        by (auto simp: num_eq_const intro!: final_return)
    qed
  qed
qed

subsection \<open>The select tree\<close>

text \<open>The element the tree picks: the selected one, or zeros past the end of the array.\<close>

definition picked :: "(net_id \<Rightarrow> bool) \<Rightarrow> nat \<Rightarrow> net_id list list \<Rightarrow> nat \<Rightarrow> bool list" where
  "picked v w level i = (if i < length level then map v (level ! i) else replicate w False)"

lemma picked_pairs:
  assumes pairs: "list_all2 (\<lambda>c e. map v e = (if v sel then (if length c > 1 then map v (c ! 1) else replicate w False)
      else map v (c ! 0))) (chunks2 level) nxt"
  shows "picked v w nxt i = picked v w level (of_bool (v sel) + 2 * i)"
proof (cases "i < length (chunks2 level)")
  case True
  with pairs have "map v (nxt ! i) = (if v sel then (if length (chunks2 level ! i) > 1 then map v (chunks2 level ! i ! 1)
      else replicate w False) else map v (chunks2 level ! i ! 0))" "i < length nxt"
    by (auto simp: list_all2_conv_all_nth)
  then show ?thesis using nth_chunks2 [OF True] by (auto simp: picked_def)
next
  case False
  moreover have "length nxt = length (chunks2 level)" using pairs by (simp add: list_all2_lengthD)
  ultimately show ?thesis by (auto simp: picked_def length_chunks2)
qed

lemma mux_pair_builds:
  assumes wf: "wf_ctx ctx" and pair: "\<forall>e \<in> set pair. word_ok w (n_nets ctx) e" "pair \<noteq> []" and sel: "sel < n_nets ctx"
  shows "builds ctx (mux_pair sel (replicate w NET_CONST0) pair) (word_ok w)
    (\<lambda>v e. rails_ok v \<longrightarrow> map v e =
       (if v sel then (if length pair > 1 then map v (pair ! 1) else replicate w False) else map v (pair ! 0)))"
proof -
  let ?b = "if length pair > 1 then pair ! 1 else replicate w NET_CONST0"
  have "word_ok w (n_nets ctx) (pair ! 0)" using pair by (cases pair) auto
  moreover have "word_ok w (n_nets ctx) ?b" using pair wf_ctx_rails [OF wf] nth_mem [of 1 pair] by auto
  ultimately have "builds ctx (traverse_list (\<lambda>(ai, bi). add_cell Mux2 [sel, ai, bi]) (zip (pair ! 0) ?b)) (word_ok w)
      (\<lambda>v r. map v r = (if v sel then map v ?b else map v (pair ! 0)))"
    using sel by (intro traverse_mux_builds wf)
  then show ?thesis unfolding mux_pair_def Let_def by (rule builds_post) auto
qed

text \<open>How many select bits the tree looks at: those that index the array.\<close>

lemma bit_width_chunks: "1 < n \<Longrightarrow> bit_width (n - 1) = Suc (bit_width ((n + 1) div 2 - 1))"
proof -
  assume "1 < n"
  moreover have "(n + 1) div 2 - 1 = (n - 1) div 2" by presburger
  ultimately show ?thesis using bit_width_pos [of "n - 1"] by simp
qed

lemma mux_levels_builds:
  assumes "wf_ctx ctx" "level \<noteq> []" "\<forall>e \<in> set level. word_ok w (n_nets ctx) e" "\<forall>s \<in> set sels. s < n_nets ctx"
  shows "builds ctx (mux_levels (replicate w NET_CONST0) sels level)
    (\<lambda>k r. r \<noteq> [] \<and> (\<forall>e \<in> set r. word_ok w k e))
    (\<lambda>v r. rails_ok v \<longrightarrow> map v (r ! 0) = picked v w level (num v sels mod 2 ^ bit_width (length level - 1)))"
  using assms
proof (induction sels arbitrary: level ctx)
  case Nil
  then show ?case by (auto simp: picked_def intro!: builds_return)
next
  case (Cons sel sels)
  show ?case
  proof (cases "length level = 1")
    case True
    with Cons.prems show ?thesis by (auto simp: picked_def intro!: builds_return)
  next
    case False
    with Cons.prems(2) have len: "1 < length level" by (cases level) auto
    let ?E = "\<lambda>v c e. rails_ok v \<longrightarrow> map v e =
       (if v sel then (if length c > 1 then map v (c ! 1) else replicate w False) else map v (c ! 0))"
    have stage: "builds ctx (traverse_list (mux_pair sel (replicate w NET_CONST0)) (chunks2 level))
       (\<lambda>k r. length r = length (chunks2 level) \<and> (\<forall>e \<in> set r. word_ok w k e))
       (\<lambda>v r. list_all2 (?E v) (chunks2 level) r)"
    proof (rule builds_traverse)
      fix c ctx' assume c: "c \<in> set (chunks2 level)" and e: "wf_ctx ctx'" "extends ctx ctx'"
      have "\<forall>e \<in> set c. word_ok w (n_nets ctx') e"
        using chunks2_elem [OF c] Cons.prems(3) word_ok_mono [OF _ extends_n_nets [OF e(2)]] by blast
      moreover have "c \<noteq> []" using chunks2_elem [OF c] by auto
      ultimately show "builds ctx' (mux_pair sel (replicate w NET_CONST0) c) (word_ok w) (\<lambda>v e. ?E v c e)"
        using Cons.prems(4) e by (intro mux_pair_builds) (auto intro: in_range_mono)
    qed (use Cons.prems(1) word_ok_mono in \<open>blast+\<close>)
    show ?thesis using False
      unfolding mux_levels.simps
    proof (simp only: if_False, intro builds_bind [OF stage])
      fix nxt c
      assume c: "wf_ctx c" "extends ctx c" "length nxt = length (chunks2 level) \<and> (\<forall>e \<in> set nxt. word_ok w (n_nets c) e)"
      then have "nxt \<noteq> []" using len by (auto simp: length_chunks2)
      with c have "builds c (mux_levels (replicate w NET_CONST0) sels nxt) (\<lambda>k r. r \<noteq> [] \<and> (\<forall>e \<in> set r. word_ok w k e))
         (\<lambda>v r. rails_ok v \<longrightarrow> map v (r ! 0) = picked v w nxt (num v sels mod 2 ^ bit_width (length nxt - 1)))"
        using Cons.prems(4) nets_range_mono [OF _ c(2), of sels] by (intro Cons.IH) auto
      then show "builds c (mux_levels (replicate w NET_CONST0) sels nxt) (\<lambda>k r. r \<noteq> [] \<and> (\<forall>e \<in> set r. word_ok w k e))
         (\<lambda>v r. list_all2 (?E v) (chunks2 level) nxt \<longrightarrow> rails_ok v \<longrightarrow>
            map v (r ! 0) = picked v w level (num v (sel # sels) mod 2 ^ bit_width (length level - 1)))"
      proof (rule builds_post, intro impI)
        fix v r
        assume r: "rails_ok v \<longrightarrow> map v (r ! 0) = picked v w nxt (num v sels mod 2 ^ bit_width (length nxt - 1))"
          and all: "list_all2 (?E v) (chunks2 level) nxt" and v: "rails_ok v"
        have pairs: "list_all2 (\<lambda>c e. map v e = (if v sel then (if length c > 1 then map v (c ! 1) else replicate w False)
            else map v (c ! 0))) (chunks2 level) nxt"
          using all v by (rule_tac list_all2_mono) auto
        have bw: "bit_width (length level - 1) = Suc (bit_width (length nxt - 1))"
          using bit_width_chunks [OF len] c(3) by (simp add: length_chunks2)
        have "of_bool (v sel) + 2 * (num v sels mod 2 ^ bit_width (length nxt - 1)) =
            num v (sel # sels) mod 2 ^ bit_width (length level - 1)"
          unfolding bw power_Suc num_Cons mod_mult2_eq by (cases "v sel") simp_all
        with r v picked_pairs [OF pairs] show "map v (r ! 0) =
            picked v w level (num v (sel # sels) mod 2 ^ bit_width (length level - 1))" by simp
      qed
    qed
  qed
qed

lemma dynamic_mux_tree_builds:
  assumes "wf_ctx ctx" "elements \<noteq> []" "\<forall>e \<in> set elements. word_ok w (n_nets ctx) e" "\<forall>s \<in> set sels. s < n_nets ctx"
  shows "builds ctx (dynamic_mux_tree elements sels) (\<lambda>k r. \<exists>e. r = Some e \<and> word_ok w k e)
    (\<lambda>v r. \<forall>e. r = Some e \<longrightarrow> map v e = picked v w elements (num v sels mod 2 ^ bit_width (length elements - 1)))"
proof -
  have w: "length (elements ! 0) = w" using assms(2,3) by (cases elements) auto
  show ?thesis unfolding dynamic_mux_tree_def w using assms(2)
  proof (simp only: if_False, intro builds_bind [OF mux_levels_builds [OF assms]])
    fix r c assume "wf_ctx c" "r \<noteq> [] \<and> (\<forall>e \<in> set r. word_ok w (n_nets c) e)"
    then show "builds c (State_Monad.return (Some (r ! 0))) (\<lambda>k r. \<exists>e. r = Some e \<and> word_ok w k e)
      (\<lambda>v s. (rails_ok v \<longrightarrow> map v (r ! 0) = picked v w elements (num v sels mod 2 ^ bit_width (length elements - 1))) \<longrightarrow>
        (\<forall>e. s = Some e \<longrightarrow> map v e = picked v w elements (num v sels mod 2 ^ bit_width (length elements - 1))))"
      by (intro final_return) (auto simp: hd_conv_nth [symmetric])
  qed
qed

subsection \<open>Properties\<close>

text \<open>
  C13: the barrel shifter shifts by the value of the amount vector, however wide it is:
  left shifts multiply modulo two to the width, logical right shifts divide, and a
  sign-extending arithmetic right shift divides the signed value rounding down.
\<close>

theorem barrel_shift_correct:
  assumes "wf_ctx ctx" "\<forall>x \<in> set xs. x < n_nets ctx" "\<forall>x \<in> set amount. x < n_nets ctx"
    and "oper \<in> {LogicShiftL, ArithShiftL, LogicShiftR, ArithShiftR}"
  shows "\<exists>r ctx'. run_state (barrel_shift xs amount oper sgn_ext) ctx = (r, ctx') \<and> wf_ctx ctx' \<and> extends ctx ctx' \<and>
    word_ok (length xs) (n_nets ctx') r \<and>
    (\<forall>v. sat v ctx' \<longrightarrow>
      (if shift_left oper then num v r = (num v xs * 2 ^ num v amount) mod 2 ^ length xs
       else if sgn_ext \<and> oper = ArithShiftR then snum v r = snum v xs div 2 ^ num v amount
       else num v r = num v xs div 2 ^ num v amount))"
proof -
  have oper: "shift_left oper \<or> shift_right oper" using assms(4) by (auto simp: shift_left_def shift_right_def)
  have val: "if shift_left oper then num v r = (num v xs * 2 ^ num v amount) mod 2 ^ length xs
       else if sgn_ext \<and> oper = ArithShiftR then snum v r = snum v xs div 2 ^ num v amount
       else num v r = num v xs div 2 ^ num v amount"
    if r: "map v r = shifted oper (map v xs) (shift_fill oper sgn_ext (map v xs)) (num v amount)" for v r
  proof (cases "shift_left oper \<or> \<not> (sgn_ext \<and> oper = ArithShiftR)")
    case True
    then have "\<not> shift_left oper \<Longrightarrow> \<not> shift_fill oper sgn_ext (map v xs)" by (auto simp: shift_fill_def)
    with True show ?thesis
      unfolding num_def [of v r] num_def [of v xs] r by (auto simp: shifted_left shifted_right mult.commute)
  next
    case False
    then show ?thesis
      unfolding snum_def [of v r] snum_def [of v xs] r
      by (cases "xs = []") (auto simp: shifted_arith shift_fill_def)
  qed
  from builds_run_result [OF barrel_shift_builds [OF assms(1-3) oper, of sgn_ext]] show ?thesis
    using val by blast
qed

lemma barrel_shift_correct_witness:
  "\<exists>r ctx'. run_state (barrel_shift [2, 3, 4, 5, 6] [7, 8] ArithShiftR True) (inputs_ctx 7) = (r, ctx') \<and>
    (\<forall>v. sat v ctx' \<longrightarrow> snum v r = snum v [2, 3, 4, 5, 6] div 2 ^ num v [7, 8])"
  using barrel_shift_correct [where ctx = "inputs_ctx 7" and xs = "[2, 3, 4, 5, 6]" and amount = "[7, 8]"
      and oper = ArithShiftR and sgn_ext = True]
  by (auto simp: shift_left_def simp del: num_Cons)

text \<open>
  The constant shift emits nothing and agrees, bit for bit, with the barrel shifter
  given an amount vector of that value.
\<close>

theorem constant_shift_matches_barrel:
  assumes "wf_ctx ctx" "\<forall>x \<in> set xs. x < n_nets ctx" "\<forall>x \<in> set amount. x < n_nets ctx"
    and "oper \<in> {LogicShiftL, ArithShiftL, LogicShiftR, ArithShiftR}"
    and "run_state (barrel_shift xs amount oper sgn_ext) ctx = (r, ctx')" "sat v ctx'"
  shows "map v (constant_shift xs oper (num v amount) sgn_ext) = map v r"
proof -
  have oper: "shift_left oper \<or> shift_right oper" using assms(4) by (auto simp: shift_left_def shift_right_def)
  from builds_run_result [OF barrel_shift_builds [OF assms(1-3) oper, of sgn_ext]] assms(5,6)
  have "wf_ctx ctx'" "map v r = shifted oper (map v xs) (shift_fill oper sgn_ext (map v xs)) (num v amount)" by auto
  then show ?thesis
    using constant_shift_bits [OF wf_ctx_sat_rails oper, of ctx' v] assms(6) by simp
qed

lemma constant_shift_matches_barrel_witness:
  "sat (\<lambda>n. n = 1) new_ctx \<and>
   map (\<lambda>n. n = 1) (constant_shift [NET_CONST1, NET_CONST0] LogicShiftL (num (\<lambda>n. n = 1) [NET_CONST1]) False) = [False, True]"
proof -
  have sat: "sat (\<lambda>n. n = 1) new_ctx" by (auto simp: sat_def new_ctx_def less_Suc_eq numeral_2_eq_2)
  have run: "run_state (barrel_shift [NET_CONST1, NET_CONST0] [NET_CONST1] LogicShiftL False) new_ctx =
      ([NET_CONST0, NET_CONST1], new_ctx)" by code_simp
  show ?thesis
    using constant_shift_matches_barrel [OF wf_new_ctx _ _ _ run sat] wf_ctx_rails [OF wf_new_ctx] sat
    by (simp add: rails)
qed

text \<open>
  \<open>eq_const\<close> is true exactly when the vector's value is the constant, also for a
  constant that does not fit the vector.
\<close>

theorem eq_const_correct:
  assumes "wf_ctx ctx" "\<forall>x \<in> set idx. x < n_nets ctx"
  shows "\<exists>r ctx'. run_state (eq_const idx k) ctx = (r, ctx') \<and> wf_ctx ctx' \<and> extends ctx ctx' \<and>
    r < n_nets ctx' \<and> (\<forall>v. sat v ctx' \<longrightarrow> v r = (num v idx = k))"
  using eq_const_builds [OF assms] by (rule builds_run_result)

lemma eq_const_correct_witness:
  "\<exists>r ctx'. run_state (eq_const [2, 3, 4] 5) (inputs_ctx 3) = (r, ctx') \<and>
    (\<forall>v. sat v ctx' \<longrightarrow> v r = (num v [2, 3, 4] = 5))"
proof -
  have "\<forall>x \<in> set [2, 3, 4]. x < n_nets (inputs_ctx 3)" by simp
  from eq_const_correct [OF wf_inputs_ctx this, of 5] show ?thesis by (elim exE conjE, intro exI conjI)
qed

text \<open>
  The select tree over \<open>N\<close> vectors of one width yields the vector at the index the
  select bits hold when the index is below \<open>N\<close> and zeros when it is not; of the select
  bits only those that are needed to index \<open>N\<close> elements are read.
\<close>

theorem dynamic_mux_tree_correct:
  assumes "wf_ctx ctx" "elements \<noteq> []" "\<forall>e \<in> set elements. word_ok w (n_nets ctx) e" "\<forall>s \<in> set sel_bits. s < n_nets ctx"
  shows "\<exists>e ctx'. run_state (dynamic_mux_tree elements sel_bits) ctx = (Some e, ctx') \<and> wf_ctx ctx' \<and> extends ctx ctx' \<and>
    word_ok w (n_nets ctx') e \<and>
    (\<forall>v. sat v ctx' \<longrightarrow> (let i = num v sel_bits mod 2 ^ bit_width (length elements - 1) in
       map v e = (if i < length elements then map v (elements ! i) else replicate w False)))"
proof -
  from builds_run_result [OF dynamic_mux_tree_builds [OF assms]] show ?thesis
    by (auto simp: picked_def Let_def)
qed

lemma dynamic_mux_tree_correct_witness:
  "\<exists>e ctx'. run_state (dynamic_mux_tree [[2], [3], [4]] [5, 6]) (inputs_ctx 5) = (Some e, ctx') \<and>
    (\<forall>v. sat v ctx' \<longrightarrow> v 5 \<longrightarrow> \<not> v 6 \<longrightarrow> map v e = [v 3])"
proof -
  have bw: "bit_width (Suc (Suc 0)) = 2" by (simp add: bit_width.simps)
  have el: "[[2], [3], [4]] \<noteq> []" "\<forall>e \<in> set [[2], [3], [4]]. word_ok 1 (n_nets (inputs_ctx 5)) e"
    "\<forall>s \<in> set [5, 6]. s < n_nets (inputs_ctx 5)" by simp_all
  obtain e ctx' where run: "run_state (dynamic_mux_tree [[2], [3], [4]] [5, 6]) (inputs_ctx 5) = (Some e, ctx')"
    and all: "\<forall>v. sat v ctx' \<longrightarrow> (let i = num v [5, 6] mod 2 ^ bit_width (length [[2], [3], [4 :: net_id]] - 1) in
       map v e = (if i < length [[2], [3], [4 :: net_id]] then map v ([[2], [3], [4]] ! i) else replicate 1 False))"
    using dynamic_mux_tree_correct [OF wf_inputs_ctx el] by (elim exE conjE) (rule that)
  have "map v e = [v 3]" if "sat v ctx'" "v 5" "\<not> v 6" for v
    using all that by (simp add: Let_def bw)
  with run show ?thesis by (intro exI conjI) auto
qed

end
