(* ===== verification/Word_Memory.thy ===== *)
theory Word_Memory
  imports Prelude "HOL-Library.Word"
begin

section \<open>Byte-addressed memory read and written in 64-bit little-endian words\<close>

text \<open>
  The buffers of the simulator's runtime helpers (\<open>src/crates/simulator/src/wide_ops.rs\<close>):
  pointers are addresses of a flat memory of bytes, a wide value is a sequence of
  little-endian \<open>u64\<close> chunks, and all accesses are unaligned.  \<open>rd\<close> and \<open>wr\<close> are the two
  accessors of the source; \<open>mem_val m p w\<close> is the number the \<open>w\<close> bits from \<open>p\<close> spell.

  The locale \<open>word_memory\<close> states what the loops of the helpers rely on: a word that was
  stored is read back, a store changes only its own eight bytes, and a load depends only on
  its own eight bytes.  The effect of a loop \<open>for i in 0..n { wr(dst, i, ..) }\<close> with a carried
  value is proved once inside it.
\<close>

unbundle bit_operations_syntax

type_synonym mem = "nat \<Rightarrow> 8 word"

type_synonym u64 = "64 word"

type_synonym u32 = "32 word"

subsection \<open>Bytes\<close>

definition load_bytes :: "mem \<Rightarrow> nat \<Rightarrow> nat \<Rightarrow> 8 word list" where
  "load_bytes m p n = map (\<lambda>j. m (p + j)) [0..<n]"

definition store_bytes :: "mem \<Rightarrow> nat \<Rightarrow> 8 word list \<Rightarrow> mem" where
  "store_bytes m p bs = (\<lambda>a. if p \<le> a \<and> a < p + length bs then bs ! (a - p) else m a)"

definition to_le_bytes :: "u64 \<Rightarrow> 8 word list" where
  "to_le_bytes v = map (\<lambda>j. ucast (drop_bit (8 * j) v)) [0..<8]"

definition from_le_bytes :: "8 word list \<Rightarrow> u64" where
  "from_le_bytes bs = word_of_int (horner_sum uint (2 ^ 8) bs)"

definition rd :: "mem \<Rightarrow> nat \<Rightarrow> nat \<Rightarrow> u64" where
  "rd m p i = from_le_bytes (load_bytes m (p + i * 8) 8)"

definition wr :: "mem \<Rightarrow> nat \<Rightarrow> nat \<Rightarrow> u64 \<Rightarrow> mem" where
  "wr m p i v = store_bytes m (p + i * 8) (to_le_bytes v)"

lemma length_load_bytes [simp]: "length (load_bytes m p n) = n"
  by (simp add: load_bytes_def)

lemma nth_load_bytes [simp]: "j < n \<Longrightarrow> load_bytes m p n ! j = m (p + j)"
  by (simp add: load_bytes_def)

lemma length_to_le_bytes [simp]: "length (to_le_bytes v) = 8"
  by (simp add: to_le_bytes_def)

lemma nth_to_le_bytes [simp]: "j < 8 \<Longrightarrow> to_le_bytes v ! j = ucast (drop_bit (8 * j) v)"
  by (simp add: to_le_bytes_def)

lemma bit_from_le_bytes:
  "bit (from_le_bytes bs) k \<longleftrightarrow> k < 64 \<and> k div 8 < length bs \<and> bit (bs ! (k div 8)) (k mod 8)"
  unfolding from_le_bytes_def bit_word_of_int_iff
  using bit_horner_sum_uint_exp_iff [where ws = bs and n = k] by simp

lemma bit_rd: "bit (rd m p i) k \<longleftrightarrow> k < 64 \<and> bit (m (p + i * 8 + k div 8)) (k mod 8)"
  by (auto simp: rd_def bit_from_le_bytes less_mult_imp_div_less)

lemma to_from_le_bytes: "from_le_bytes (to_le_bytes v) = v"
proof (rule bit_word_eqI)
  fix k
  assume "k < LENGTH(64)"
  then have k: "k < 64" "k div 8 < 8" by (simp_all add: less_mult_imp_div_less)
  have "8 * (k div 8) + k mod 8 = k" by simp
  with k show "bit (from_le_bytes (to_le_bytes v)) k = bit v k"
    by (simp add: bit_from_le_bytes bit_ucast_iff bit_drop_bit_eq less_mult_imp_div_less)
qed

lemma store_bytes_outside: "a < p \<or> p + length bs \<le> a \<Longrightarrow> store_bytes m p bs a = m a"
  by (auto simp: store_bytes_def)

lemma load_store_bytes [simp]: "load_bytes (store_bytes m p bs) p (length bs) = bs"
  by (rule nth_equalityI) (auto simp: store_bytes_def)

subsection \<open>Numbers made of 64-bit words\<close>

definition wnum :: "(nat \<Rightarrow> u64) \<Rightarrow> nat \<Rightarrow> int" where
  "wnum W n = (\<Sum>i<n. uint (W i) * 2 ^ (64 * i))"

lemma wnum_0 [simp]: "wnum W 0 = 0"
  by (simp add: wnum_def)

lemma wnum_Suc: "wnum W (Suc n) = wnum W n + uint (W n) * 2 ^ (64 * n)"
  by (simp add: wnum_def)

lemma wnum_cong: "(\<And>i. i < n \<Longrightarrow> V i = W i) \<Longrightarrow> wnum V n = wnum W n"
  by (simp add: wnum_def)

lemma wnum_horner: "wnum W n = horner_sum uint (2 ^ 64) (map W [0..<n])"
  unfolding wnum_def horner_sum_eq_sum
  by (rule sum.cong) (auto simp: power_mult)

lemma bit_wnum: "bit (wnum W n) k \<longleftrightarrow> k < 64 * n \<and> bit (W (k div 64)) (k mod 64)"
  unfolding wnum_horner
  using bit_horner_sum_uint_exp_iff [where ws = "map W [0..<n]" and n = k]
  by (auto simp: less_mult_imp_div_less div_less_iff_less_mult mult.commute)

lemma wnum_nonneg [simp]: "0 \<le> wnum W n"
  by (simp add: wnum_def sum_nonneg)

lemma wnum_lt: "wnum W n < 2 ^ (64 * n)"
proof (induction n)
  case (Suc n)
  have "uint (W n) \<le> 2 ^ 64 - 1"
    using uint_lt2p [of "W n"] by simp
  then have "uint (W n) * 2 ^ (64 * n) \<le> (2 ^ 64 - 1) * 2 ^ (64 * n)"
    by (rule mult_right_mono) simp
  then have "wnum W (Suc n) < 2 ^ 64 * 2 ^ (64 * n)"
    using Suc unfolding wnum_Suc left_diff_distrib by linarith
  then show ?case
    unfolding mult_Suc_right power_add .
qed simp

lemma take_bit_wnum [simp]: "take_bit (64 * n) (wnum W n) = wnum W n"
  by (simp add: take_bit_int_eq_self wnum_lt)

text \<open>The number spelt by the \<open>w\<close> bits from an address.\<close>

definition mbit :: "mem \<Rightarrow> nat \<Rightarrow> nat \<Rightarrow> bool" where
  "mbit m p k = bit (m (p + k div 8)) (k mod 8)"

definition mem_val :: "mem \<Rightarrow> nat \<Rightarrow> nat \<Rightarrow> int" where
  "mem_val m p w = horner_sum of_bool 2 (map (mbit m p) [0..<w])"

lemma bit_mem_val [simp]: "bit (mem_val m p w) k \<longleftrightarrow> k < w \<and> mbit m p k"
  by (auto simp: mem_val_def bit_horner_sum_bit_iff)

lemma byte_in_word: "(64 * i + k) div 8 = 8 * i + k div 8" "(64 * i + k) mod 8 = k mod 8" for k :: nat
proof -
  have eq: "64 * i + k = 8 * (8 * i) + k" by simp
  show "(64 * i + k) div 8 = 8 * i + k div 8" "(64 * i + k) mod 8 = k mod 8"
    unfolding eq by (rule div_mult_self4, simp, rule mod_mult_self4)
qed

lemma bit_rd_mbit: "k < 64 \<Longrightarrow> bit (rd m p i) k \<longleftrightarrow> mbit m p (64 * i + k)"
proof -
  assume k: "k < 64"
  then show ?thesis
    unfolding bit_rd mbit_def byte_in_word by (simp add: add.assoc mult.commute)
qed

lemma mbit_rd: "mbit m p k \<longleftrightarrow> bit (rd m p (k div 64)) (k mod 64)"
  by (simp add: bit_rd_mbit)

lemma mem_val_words: "mem_val m p (64 * n) = wnum (rd m p) n"
  by (rule bit_eqI) (simp add: bit_wnum mbit_rd)

lemma mem_val_nonneg [simp]: "0 \<le> mem_val m p w"
  by (simp add: mem_val_def horner_sum_nonnegative)

lemma mem_val_lt: "mem_val m p w < 2 ^ w"
  using horner_sum_bound [where bs = "map (mbit m p) [0..<w]"] by (simp add: mem_val_def)

lemma take_bit_mem_val: "take_bit k (mem_val m p w) = mem_val m p (min k w)"
  by (rule bit_eqI) (auto simp: bit_take_bit_iff)

lemma mem_val_cong:
  "(\<And>a. p \<le> a \<Longrightarrow> a < p + (w + 7) div 8 \<Longrightarrow> m a = m' a) \<Longrightarrow> mem_val m p w = mem_val m' p w"
proof (rule bit_eqI)
  fix k
  assume *: "\<And>a. p \<le> a \<Longrightarrow> a < p + (w + 7) div 8 \<Longrightarrow> m a = m' a"
  have "m (p + k div 8) = m' (p + k div 8)" if "k < w"
    using that by (intro *) auto
  then show "bit (mem_val m p w) k = bit (mem_val m' p w) k"
    by (auto simp: mbit_def)
qed

subsection \<open>The interface of a byte-addressed memory with unaligned words\<close>

text \<open>
  The bytes of the words with indices \<open>J\<close> of the buffer at \<open>p\<close>; two buffers of \<open>n\<close> and
  \<open>k\<close> words do not clash when they are the same or do not meet, as the callers of the
  helpers arrange.
\<close>

definition word_span :: "nat \<Rightarrow> nat set \<Rightarrow> nat set" where
  "word_span p J = {x. \<exists>j\<in>J. p + j * 8 \<le> x \<and> x < p + j * 8 + 8}"

definition no_clash :: "nat \<Rightarrow> nat \<Rightarrow> nat \<Rightarrow> nat \<Rightarrow> bool" where
  "no_clash p n q k \<longleftrightarrow> q = p \<or> q + k * 8 \<le> p \<or> p + n * 8 \<le> q"

lemma word_span_empty [simp]: "word_span p {} = {}"
  by (simp add: word_span_def)

lemma word_span_insert: "word_span p (insert j J) = word_span p {j} \<union> word_span p J"
  by (auto simp: word_span_def)

lemma word_span_Un: "word_span p (J \<union> K) = word_span p J \<union> word_span p K"
  by (auto simp: word_span_def)

lemma word_span_bounds: "x \<in> word_span p J \<Longrightarrow> J \<subseteq> {..<n} \<Longrightarrow> p \<le> x \<and> x < p + n * 8"
  by (force simp: word_span_def)

lemma word_span_disjoint: "i \<notin> J \<Longrightarrow> word_span p {i} \<inter> word_span p J = {}"
proof (rule ccontr)
  assume i: "i \<notin> J" and ne: "word_span p {i} \<inter> word_span p J \<noteq> {}"
  obtain x j where "j \<in> J" "p + i * 8 \<le> x" "x < p + i * 8 + 8" "p + j * 8 \<le> x" "x < p + j * 8 + 8"
    using ne by (auto simp: word_span_def)
  moreover from this have "i \<le> j" "j \<le> i" by linarith+
  ultimately show False using i by simp
qed

lemma word_span_no_clash:
  assumes "no_clash p n q k" "i < k" "i \<notin> J" "J \<subseteq> {..<n}"
  shows "word_span q {i} \<inter> word_span p J = {}"
proof (cases "q = p")
  case True
  then show ?thesis using assms by (simp add: word_span_disjoint)
next
  case False
  have q: "q \<le> x \<and> x < q + k * 8" if "x \<in> word_span q {i}" for x
    using word_span_bounds [OF that, of k] assms(2) by simp
  have p: "p \<le> x \<and> x < p + n * 8" if "x \<in> word_span p J" for x
    using word_span_bounds [OF that assms(4)] .
  show ?thesis
    using False assms(1) q p unfolding no_clash_def by fastforce
qed

locale word_memory =
  fixes get :: "'m \<Rightarrow> nat \<Rightarrow> 8 word"
    and ld :: "'m \<Rightarrow> nat \<Rightarrow> nat \<Rightarrow> u64"
    and st :: "'m \<Rightarrow> nat \<Rightarrow> nat \<Rightarrow> u64 \<Rightarrow> 'm"
  assumes ld_st: "ld (st m p i v) p i = v"
    and get_st: "x \<notin> word_span p {i} \<Longrightarrow> get (st m p i v) x = get m x"
    and ld_cong: "(\<And>x. x \<in> word_span p {i} \<Longrightarrow> get m x = get m' x) \<Longrightarrow> ld m p i = ld m' p i"
begin

lemma ld_unwritten:
  assumes "\<And>x. x \<notin> word_span p J \<Longrightarrow> get m' x = get m x"
    and "no_clash p n q k" "i < k" "i \<notin> J" "J \<subseteq> {..<n}"
  shows "ld m' q i = ld m q i"
  by (rule ld_cong) (use assms(1) word_span_no_clash [OF assms(2-)] in blast)

lemma ld_st_other: "i \<noteq> j \<Longrightarrow> ld (st m p i v) p j = ld m p j"
proof (rule ld_cong)
  fix x
  assume "i \<noteq> j" "x \<in> word_span p {j}"
  then have "x \<notin> word_span p {i}" using word_span_disjoint [of j "{i}" p] by blast
  then show "get (st m p i v) x = get m x" by (rule get_st)
qed

text \<open>
  A loop that writes each word of \<open>dst\<close> with an index of \<open>js\<close> once: when each step writes
  \<open>W i\<close> as long as only the earlier words were overwritten, every word ends as its \<open>W i\<close>
  and no other byte changes.  \<open>P\<close> is the invariant of what else the loop carries.
\<close>

lemma store_loop:
  assumes step: "\<And>xs i ys s. js = xs @ i # ys
      \<Longrightarrow> (\<And>x. x \<notin> word_span dst (set xs) \<Longrightarrow> get (mem_of s) x = get m x) \<Longrightarrow> P xs s
      \<Longrightarrow> mem_of (body i s) = st (mem_of s) dst i (W i) \<and> P (xs @ [i]) (body i s)"
    and "distinct js" "mem_of s0 = m" "P [] s0"
  defines "s' \<equiv> fold body js s0"
  shows "P js s' \<and> (\<forall>i\<in>set js. ld (mem_of s') dst i = W i)
    \<and> (\<forall>x. x \<notin> word_span dst (set js) \<longrightarrow> get (mem_of s') x = get m x)"
proof -
  let ?inv = "\<lambda>xs s. P xs s \<and> (\<forall>i\<in>set xs. ld (mem_of s) dst i = W i)
    \<and> (\<forall>x. x \<notin> word_span dst (set xs) \<longrightarrow> get (mem_of s) x = get m x)"
  have "?inv xs (fold body xs s0)" if "js = xs @ ys" for xs ys
    using that
  proof (induction xs arbitrary: ys rule: rev_induct)
    case Nil
    then show ?case using assms(3,4) by simp
  next
    case (snoc i xs)
    let ?s = "fold body xs s0"
    have inv: "?inv xs ?s" and i: "i \<notin> set xs"
      using snoc.IH [of "i # ys"] snoc.prems assms(2) by auto
    have b: "mem_of (body i ?s) = st (mem_of ?s) dst i (W i)" "P (xs @ [i]) (body i ?s)"
      using step [of xs i ys ?s] inv snoc.prems by auto
    have "ld (mem_of (body i ?s)) dst j = W j" if "j \<in> set (xs @ [i])" for j
      using that inv i by (cases "j = i") (auto simp: b(1) ld_st ld_st_other)
    moreover have "get (mem_of (body i ?s)) x = get m x" if "x \<notin> word_span dst (set (xs @ [i]))" for x
    proof -
      have "x \<notin> word_span dst {i}" "x \<notin> word_span dst (set xs)"
        using that word_span_insert [of dst i "set xs"] by auto
      then show ?thesis using inv by (simp add: b(1) get_st)
    qed
    ultimately show ?case using b(2) by simp
  qed
  from this [of "js" "[]"] show ?thesis
    unfolding s'_def by simp
qed

end

lemma bytes_rd_cong:
  "(\<And>x. x \<in> word_span p {i} \<Longrightarrow> m x = m' x) \<Longrightarrow> rd m p i = rd m' p i"
  by (auto simp: rd_def load_bytes_def word_span_def algebra_simps
      intro!: arg_cong [where f = from_le_bytes] nth_equalityI)

interpretation bytes: word_memory "\<lambda>m. m" rd wr
proof
  show "rd (wr m p i v) p i = v" for m p i v
    using load_store_bytes [of m "p + i * 8" "to_le_bytes v"]
    by (simp add: rd_def wr_def to_from_le_bytes del: load_store_bytes)
  show "wr m p i v x = m x" if "x \<notin> word_span p {i}" for m p i v x
    using that unfolding wr_def by (intro store_bytes_outside) (auto simp: word_span_def)
  show "rd m p i = rd m' p i" if "\<And>x. x \<in> word_span p {i} \<Longrightarrow> m x = m' x" for m m' p i
    using that by (rule bytes_rd_cong)
qed

end
