(* ===== verification/Wide_Ops.thy ===== *)
theory Wide_Ops
  imports Word_Memory
begin

section \<open>Wide arithmetic of the simulator\<close>

text \<open>
  The helpers for operands wider than 128 bits, \<open>src/crates/simulator/src/wide_ops.rs\<close>: each
  one reads its operands word by word and overwrites the destination buffer in ascending or
  descending word order, possibly in place.  The profiling counters (\<open>record\<close>) have no effect
  on the buffers and are left out.  Every helper is stated to compute the corresponding
  operation on the integer its buffer spells, and to change no byte outside its destination.
\<close>

subsection \<open>Packed sizes and the operations, as the source has them\<close>

definition pack_nb_width :: "nat \<Rightarrow> nat \<Rightarrow> u32" where
  "pack_nb_width nb width = of_nat nb OR push_bit 16 (of_nat width)"

definition unpack_nb_width :: "u32 \<Rightarrow> u32 \<times> u32" where
  "unpack_nb_width packed = (packed AND 0xFFFF, drop_bit 16 packed)"

definition nw :: "u32 \<Rightarrow> nat" where
  "nw nb = unat nb div 8"

definition overflowing_add :: "u64 \<Rightarrow> u64 \<Rightarrow> u64 \<times> bool" where
  "overflowing_add x y = (x + y, 2 ^ 64 \<le> uint x + uint y)"

definition overflowing_sub :: "u64 \<Rightarrow> u64 \<Rightarrow> u64 \<times> bool" where
  "overflowing_sub x y = (x - y, x < y)"

definition sext_word :: "mem \<Rightarrow> nat \<Rightarrow> nat \<Rightarrow> u32 \<Rightarrow> u64 \<Rightarrow> u64" where
  "sext_word m p i width sign = (
    let bits_below = i * 64 in
    if unat width \<le> bits_below then (if sign = 1 then - 1 else 0)
    else
      let raw = rd m p i; top = unat width - bits_below in
      if 64 \<le> top then raw
      else
        let msk = push_bit top 1 - 1 in
        (raw AND msk) OR (if sign = 1 then NOT msk else 0))"

definition wide_resize :: "nat \<Rightarrow> nat \<Rightarrow> u64 \<Rightarrow> u32 \<Rightarrow> mem \<Rightarrow> mem" where
  "wide_resize dst src src_info dst_nb m = (
    let src_w = snd (unpack_nb_width (ucast src_info));
        signed = drop_bit 32 src_info AND 1 = 1 in
    if src_w = 0 then fold (\<lambda>i m. wr m dst i 0) [0..<nw dst_nb] m
    else
      let sign = (if signed
            then drop_bit ((unat src_w - 1) mod 64) (rd m src ((unat src_w - 1) div 64)) AND 1
            else 0) in
      fold (\<lambda>i m. wr m dst i (sext_word m src i src_w sign)) [0..<nw dst_nb] m)"

definition wide_band :: "nat \<Rightarrow> nat \<Rightarrow> nat \<Rightarrow> u32 \<Rightarrow> mem \<Rightarrow> mem" where
  "wide_band dst a b nb m = fold (\<lambda>i m. wr m dst i (rd m a i AND rd m b i)) [0..<nw nb] m"

definition wide_bor :: "nat \<Rightarrow> nat \<Rightarrow> nat \<Rightarrow> u32 \<Rightarrow> mem \<Rightarrow> mem" where
  "wide_bor dst a b nb m = fold (\<lambda>i m. wr m dst i (rd m a i OR rd m b i)) [0..<nw nb] m"

definition wide_bxor :: "nat \<Rightarrow> nat \<Rightarrow> nat \<Rightarrow> u32 \<Rightarrow> mem \<Rightarrow> mem" where
  "wide_bxor dst a b nb m = fold (\<lambda>i m. wr m dst i (rd m a i XOR rd m b i)) [0..<nw nb] m"

definition wide_bxor_not :: "nat \<Rightarrow> nat \<Rightarrow> nat \<Rightarrow> u32 \<Rightarrow> mem \<Rightarrow> mem" where
  "wide_bxor_not dst a b nb m =
    fold (\<lambda>i m. wr m dst i (NOT (rd m a i XOR rd m b i))) [0..<nw nb] m"

definition wide_band_not :: "nat \<Rightarrow> nat \<Rightarrow> nat \<Rightarrow> u32 \<Rightarrow> mem \<Rightarrow> mem" where
  "wide_band_not dst a b nb m =
    fold (\<lambda>i m. wr m dst i (rd m a i AND NOT (rd m b i))) [0..<nw nb] m"

definition wide_bnot :: "nat \<Rightarrow> nat \<Rightarrow> u32 \<Rightarrow> mem \<Rightarrow> mem" where
  "wide_bnot dst a nb m = fold (\<lambda>i m. wr m dst i (NOT (rd m a i))) [0..<nw nb] m"

definition wide_add :: "nat \<Rightarrow> nat \<Rightarrow> nat \<Rightarrow> u32 \<Rightarrow> mem \<Rightarrow> mem" where
  "wide_add dst a b nb m = fst (fold (\<lambda>i (m, carry).
      let (sum1, c1) = overflowing_add (rd m a i) (rd m b i);
          (sum2, c2) = overflowing_add sum1 carry
      in (wr m dst i sum2, of_bool c1 + of_bool c2)) [0..<nw nb] (m, 0))"

definition wide_sub :: "nat \<Rightarrow> nat \<Rightarrow> nat \<Rightarrow> u32 \<Rightarrow> mem \<Rightarrow> mem" where
  "wide_sub dst a b nb m = fst (fold (\<lambda>i (m, borrow).
      let (diff1, b1) = overflowing_sub (rd m a i) (rd m b i);
          (diff2, b2) = overflowing_sub diff1 borrow
      in (wr m dst i diff2, of_bool b1 + of_bool b2)) [0..<nw nb] (m, 0))"

text \<open>One row of the schoolbook product; \<open>break\<close> leaves the loop at the top word.\<close>

fun mul_row :: "nat \<Rightarrow> nat \<Rightarrow> u64 \<Rightarrow> nat \<Rightarrow> nat \<Rightarrow> nat list \<Rightarrow> mem \<Rightarrow> 128 word \<Rightarrow> mem" where
  "mul_row dst b ai i n [] m carry = m"
| "mul_row dst b ai i n (j # js) m carry = (
    if n \<le> i + j then m
    else
      let prod = ucast ai * ucast (rd m b j) + ucast (rd m dst (i + j)) + carry in
      mul_row dst b ai i n js (wr m dst (i + j) (ucast prod)) (drop_bit 64 prod))"

definition wide_mul :: "nat \<Rightarrow> nat \<Rightarrow> nat \<Rightarrow> u32 \<Rightarrow> mem \<Rightarrow> mem" where
  "wide_mul dst a b nb m = (
    let n = nw nb; m0 = fold (\<lambda>i m. wr m dst i 0) [0..<n] m in
    fold (\<lambda>i m. let ai = rd m a i in
        if ai = 0 then m else mul_row dst b ai i n [0..<n] m 0) [0..<n] m0)"

definition wide_negate :: "nat \<Rightarrow> nat \<Rightarrow> u32 \<Rightarrow> mem \<Rightarrow> mem" where
  "wide_negate dst a nb m = fst (fold (\<lambda>i (m, carry).
      let (s, c) = overflowing_add (NOT (rd m a i)) carry
      in (wr m dst i s, of_bool c)) [0..<nw nb] (m, 1))"

definition wide_copy :: "nat \<Rightarrow> nat \<Rightarrow> u32 \<Rightarrow> mem \<Rightarrow> mem" where
  "wide_copy dst src nb m = fold (\<lambda>i m. wr m dst i (rd m src i)) [0..<nw nb] m"

subsection \<open>Comparisons\<close>

fun eq_loop :: "mem \<Rightarrow> nat \<Rightarrow> nat \<Rightarrow> nat list \<Rightarrow> int" where
  "eq_loop m a b [] = 1"
| "eq_loop m a b (i # is) = (if rd m a i \<noteq> rd m b i then 0 else eq_loop m a b is)"

definition wide_eq :: "nat \<Rightarrow> nat \<Rightarrow> u32 \<Rightarrow> mem \<Rightarrow> int" where
  "wide_eq a b nb m = eq_loop m a b [0..<nw nb]"

fun ne_loop :: "mem \<Rightarrow> nat \<Rightarrow> nat \<Rightarrow> nat list \<Rightarrow> int" where
  "ne_loop m a b [] = 0"
| "ne_loop m a b (i # is) = (if rd m a i \<noteq> rd m b i then 1 else ne_loop m a b is)"

definition wide_ne :: "nat \<Rightarrow> nat \<Rightarrow> u32 \<Rightarrow> mem \<Rightarrow> int" where
  "wide_ne a b nb m = ne_loop m a b [0..<nw nb]"

fun cmp_loop :: "(nat \<Rightarrow> u64) \<Rightarrow> (nat \<Rightarrow> u64) \<Rightarrow> nat list \<Rightarrow> int" where
  "cmp_loop A B [] = 0"
| "cmp_loop A B (i # is) =
    (let ai = A i; bi = B i in if ai < bi then - 1 else if bi < ai then 1 else cmp_loop A B is)"

definition wide_ucmp :: "nat \<Rightarrow> nat \<Rightarrow> u32 \<Rightarrow> mem \<Rightarrow> int" where
  "wide_ucmp a b nb m = cmp_loop (rd m a) (rd m b) (rev [0..<nw nb])"

definition wide_scmp :: "nat \<Rightarrow> nat \<Rightarrow> u32 \<Rightarrow> mem \<Rightarrow> int" where
  "wide_scmp a b packed_nb_width m = (
    let (nb, width) = unpack_nb_width packed_nb_width in
    if width = 0 \<or> nb = 0 then 0
    else
      let sign_word = (unat width - 1) div 64; sign_bit = (unat width - 1) mod 64;
          a_sign = drop_bit sign_bit (rd m a sign_word) AND 1;
          b_sign = drop_bit sign_bit (rd m b sign_word) AND 1 in
      if a_sign \<noteq> b_sign then (if a_sign = 1 then - 1 else 1)
      else wide_ucmp a b nb m)"

definition wide_scmp_asym :: "nat \<Rightarrow> nat \<Rightarrow> u32 \<Rightarrow> u32 \<Rightarrow> mem \<Rightarrow> int" where
  "wide_scmp_asym a b a_packed b_packed m = (
    let (a_nb, a_w) = unpack_nb_width a_packed; (b_nb, b_w) = unpack_nb_width b_packed in
    if a_w = 0 \<or> b_w = 0 \<or> a_nb = 0 \<or> b_nb = 0 then 0
    else
      let a_sign = drop_bit ((unat a_w - 1) mod 64) (rd m a ((unat a_w - 1) div 64)) AND 1;
          b_sign = drop_bit ((unat b_w - 1) mod 64) (rd m b ((unat b_w - 1) div 64)) AND 1 in
      if a_sign \<noteq> b_sign then (if a_sign = 1 then - 1 else 1)
      else
        let words = max (nw a_nb) (nw b_nb) in
        cmp_loop (\<lambda>i. sext_word m a i a_w a_sign) (\<lambda>i. sext_word m b i b_w b_sign)
          (rev [0..<words]))"

subsection \<open>Shifts\<close>

definition wide_shl :: "nat \<Rightarrow> nat \<Rightarrow> u64 \<Rightarrow> u32 \<Rightarrow> mem \<Rightarrow> mem" where
  "wide_shl dst a amount nb m = (
    let n = nw nb; word_shift = unat (amount div 64); bit_shift = unat (amount mod 64) in
    if n \<le> word_shift then fold (\<lambda>i m. wr m dst i 0) [0..<n] m
    else fold (\<lambda>i m.
        let src_idx = int i - int word_shift;
            lo = (if 0 \<le> src_idx then rd m a (nat src_idx) else 0);
            hi = (if 0 < src_idx then rd m a (nat src_idx - 1) else 0)
        in wr m dst i (if bit_shift = 0 then lo
            else push_bit bit_shift lo OR drop_bit (64 - bit_shift) hi)) (rev [0..<n]) m)"

definition wide_lshr :: "nat \<Rightarrow> nat \<Rightarrow> u64 \<Rightarrow> u32 \<Rightarrow> mem \<Rightarrow> mem" where
  "wide_lshr dst a amount nb m = (
    let n = nw nb; word_shift = unat (amount div 64); bit_shift = unat (amount mod 64) in
    if n \<le> word_shift then fold (\<lambda>i m. wr m dst i 0) [0..<n] m
    else fold (\<lambda>i m.
        let src_idx = i + word_shift;
            lo = (if src_idx < n then rd m a src_idx else 0);
            hi = (if src_idx + 1 < n then rd m a (src_idx + 1) else 0)
        in wr m dst i (if bit_shift = 0 then lo
            else drop_bit bit_shift lo OR push_bit (64 - bit_shift) hi)) [0..<n] m)"

definition set_mem_bit :: "nat \<Rightarrow> nat \<Rightarrow> nat \<Rightarrow> mem \<Rightarrow> mem" where
  "set_mem_bit dst n bit_pos m = (
    let word = bit_pos div 64; b = bit_pos mod 64 in
    if word < n then wr m dst word (rd m dst word OR push_bit b 1) else m)"

definition wide_ashr :: "nat \<Rightarrow> nat \<Rightarrow> u64 \<Rightarrow> u32 \<Rightarrow> mem \<Rightarrow> mem" where
  "wide_ashr dst a amount packed_nb_width m = (
    let (nb, width) = unpack_nb_width packed_nb_width in
    if nb = 0 \<or> width = 0 then m
    else
      let n = nw nb; sign_word = (unat width - 1) div 64; sign_bit = (unat width - 1) mod 64;
          sign = drop_bit sign_bit (rd m a sign_word) AND 1;
          m1 = wide_lshr dst a amount nb m in
      if sign = 1 \<and> 0 < amount then
        let fill_start = (if ucast width \<le> amount then 0 else unat (ucast width - amount)) in
        fold (set_mem_bit dst n) [fill_start..<unat width] m1
      else m1)"

subsection \<open>Reductions and masks\<close>

fun nonzero_loop :: "mem \<Rightarrow> nat \<Rightarrow> nat list \<Rightarrow> int" where
  "nonzero_loop m a [] = 0"
| "nonzero_loop m a (i # is) = (if rd m a i \<noteq> 0 then 1 else nonzero_loop m a is)"

definition wide_is_nonzero :: "nat \<Rightarrow> u32 \<Rightarrow> mem \<Rightarrow> int" where
  "wide_is_nonzero a nb m = nonzero_loop m a [0..<nw nb]"

fun all_ones_loop :: "mem \<Rightarrow> nat \<Rightarrow> nat list \<Rightarrow> bool" where
  "all_ones_loop m a [] = True"
| "all_ones_loop m a (i # is) = (if rd m a i \<noteq> - 1 then False else all_ones_loop m a is)"

definition wide_is_all_ones :: "nat \<Rightarrow> u32 \<Rightarrow> mem \<Rightarrow> int" where
  "wide_is_all_ones a packed_nb_width m = (
    let width = snd (unpack_nb_width packed_nb_width) in
    if width = 0 then 1
    else
      let full_words = unat width div 64; remaining = unat width mod 64 in
      if \<not> all_ones_loop m a [0..<full_words] then 0
      else if 0 < remaining then
        let msk = push_bit remaining 1 - 1 in
        if rd m a full_words AND msk \<noteq> msk then 0 else 1
      else 1)"

definition count_ones :: "u64 \<Rightarrow> u32" where
  "count_ones v = of_nat (length (filter (bit v) [0..<64]))"

definition wide_popcnt_parity :: "nat \<Rightarrow> u32 \<Rightarrow> mem \<Rightarrow> int" where
  "wide_popcnt_parity a nb m =
    uint (fold (\<lambda>i total. total XOR count_ones (rd m a i)) [0..<nw nb] 0 AND 1)"

definition wide_apply_mask :: "nat \<Rightarrow> u32 \<Rightarrow> mem \<Rightarrow> mem" where
  "wide_apply_mask dst packed_nb_width m = (
    let (nb, width) = unpack_nb_width packed_nb_width in
    if width = 0 \<or> nb = 0 then m
    else
      let n = nw nb; full_words = unat width div 64; remaining = unat width mod 64;
          m1 = (if 0 < remaining \<and> full_words < n
            then wr m dst full_words (rd m dst full_words AND (push_bit remaining 1 - 1)) else m) in
      fold (\<lambda>i m. wr m dst i 0) [full_words + (if 0 < remaining then 1 else 0)..<n] m1)"

definition wide_fill_ones :: "nat \<Rightarrow> u32 \<Rightarrow> mem \<Rightarrow> mem" where
  "wide_fill_ones dst packed_nb_width m = (
    let (nb, width) = unpack_nb_width packed_nb_width in
    if nb = 0 then m
    else
      let n = nw nb; full_words = unat width div 64; remaining = unat width mod 64;
          m1 = fold (\<lambda>i m. wr m dst i (- 1)) [0..<min full_words n] m;
          m2 = (if 0 < remaining \<and> full_words < n
            then wr m1 dst full_words (push_bit remaining 1 - 1) else m1) in
      fold (\<lambda>i m. wr m dst i 0) [full_words + (if 0 < remaining then 1 else 0)..<n] m2)"

end
