(* ===== verification/Wide_Arith.thy ===== *)
theory Wide_Arith
  imports Wide_Ops
begin

section \<open>Bitwise operations and arithmetic of wide values\<close>

text \<open>
  What the bitwise helpers, \<open>wide_add\<close>, \<open>wide_sub\<close>, \<open>wide_negate\<close>, \<open>wide_mul\<close>, \<open>wide_resize\<close>
  and \<open>wide_copy\<close> of \<open>wide_ops.rs\<close> compute.  \<open>stored m m' p n v\<close> says that \<open>m'\<close> is \<open>m\<close> with
  the \<open>n\<close> words at \<open>p\<close> spelling the number \<open>v\<close> and every other byte as it was.
\<close>

subsection \<open>Loops over the words of a destination\<close>

definition stored :: "mem \<Rightarrow> mem \<Rightarrow> nat \<Rightarrow> nat \<Rightarrow> int \<Rightarrow> bool" where
  "stored m m' p n v \<longleftrightarrow> mem_val m' p (64 * n) = v
    \<and> (\<forall>x. x < p \<or> p + n * 8 \<le> x \<longrightarrow> m' x = m x)"

lemma word_span_lessThan: "word_span p {..<n} = {p..<p + n * 8}"
proof (intro equalityI subsetI)
  fix x
  assume "x \<in> {p..<p + n * 8}"
  then have x: "p \<le> x" "x - p < n * 8" by auto
  then have "(x - p) div 8 < n"
    by (simp add: div_less_iff_less_mult)
  moreover have "p + (x - p) div 8 * 8 \<le> x" "x < p + (x - p) div 8 * 8 + 8"
    using x(1) div_times_less_eq_dividend [of "x - p" 8] dividend_less_div_times [of 8 "x - p"] by linarith+
  ultimately have "(x - p) div 8 < n" "p + (x - p) div 8 * 8 \<le> x" "x < p + (x - p) div 8 * 8 + 8"
    by blast+
  then show "x \<in> word_span p {..<n}"
    by (auto simp: word_span_def)
qed (use word_span_bounds [of _ p "{..<n}" n] in auto)

lemma stored_alt:
  "stored m m' p n v \<longleftrightarrow> wnum (rd m' p) n = v \<and> (\<forall>x. x \<notin> word_span p {..<n} \<longrightarrow> m' x = m x)"
  unfolding stored_def mem_val_words word_span_lessThan by (auto simp: not_less)

lemma storedI:
  assumes "\<And>i. i < n \<Longrightarrow> rd m' p i = W i" "\<And>x. x \<notin> word_span p {..<n} \<Longrightarrow> m' x = m x"
    and "wnum W n = v"
  shows "stored m m' p n v"
  using assms wnum_cong [of n "rd m' p" W] by (simp add: stored_alt)

text \<open>The two loop orders of the helpers, with an invariant for a carried value.\<close>

lemma loop_up:
  assumes step: "\<And>i s. i < n \<Longrightarrow> (\<And>x. x \<notin> word_span dst {..<i} \<Longrightarrow> mem_of s x = m x) \<Longrightarrow> P i s
      \<Longrightarrow> mem_of (body i s) = wr (mem_of s) dst i (W i) \<and> P (Suc i) (body i s)"
    and init: "mem_of s0 = m" "P 0 s0" and "wnum W n = v"
  shows "stored m (mem_of (fold body [0..<n] s0)) dst n v \<and> P n (fold body [0..<n] s0)"
proof -
  let ?P = "\<lambda>xs. P (length xs)"
  have step': "mem_of (body i s) = wr (mem_of s) dst i (W i) \<and> ?P (xs @ [i]) (body i s)"
    if "[0..<n] = xs @ i # ys" "\<And>x. x \<notin> word_span dst (set xs) \<Longrightarrow> mem_of s x = m x" "?P xs s"
    for xs i ys s
  proof -
    have "xs = [0..<i] \<and> i < n"
    proof -
      have l: "length xs < n"
        using arg_cong [OF that(1), of length] by simp
      then have "i = length xs"
        using arg_cong [OF that(1), of "\<lambda>zs. zs ! length xs"] by simp
      moreover have "xs = take (length xs) [0..<n]"
        by (simp add: that(1))
      ultimately show ?thesis
        using l by (metis add_0 less_imp_le take_upt)
    qed
    then have "set xs = {..<i}" "length xs = i" "i < n" by auto
    then show ?thesis using that(2,3) step [of i s] by simp
  qed
  let ?s = "fold body [0..<n] s0"
  have "?P [0..<n] ?s \<and> (\<forall>i\<in>set [0..<n]. rd (mem_of ?s) dst i = W i)
    \<and> (\<forall>x. x \<notin> word_span dst (set [0..<n]) \<longrightarrow> mem_of ?s x = m x)"
    by (rule bytes.store_loop [where P = ?P and mem_of = mem_of], rule step', assumption+)
      (simp_all add: init)
  then have res: "P n ?s" "\<And>i. i < n \<Longrightarrow> rd (mem_of ?s) dst i = W i"
    "\<And>x. x \<notin> word_span dst {..<n} \<Longrightarrow> mem_of ?s x = m x"
    by (simp_all add: atLeast0LessThan)
  have "stored m (mem_of ?s) dst n v"
    by (rule storedI [OF res(2,3) assms(4)])
  then show ?thesis
    using res(1) by simp
qed

lemma loop_down:
  assumes step: "\<And>i s. i < n \<Longrightarrow> (\<And>x. x \<notin> word_span dst {i<..<n} \<Longrightarrow> s x = m x)
      \<Longrightarrow> body i s = wr s dst i (W i)"
    and "wnum W n = v"
  shows "stored m (fold body (rev [0..<n]) m) dst n v"
proof -
  have step': "body i s = wr s dst i (W i) \<and> True"
    if "rev [0..<n] = xs @ i # ys" "\<And>x. x \<notin> word_span dst (set xs) \<Longrightarrow> s x = m x" "True"
    for xs i ys s
  proof -
    have eq: "[0..<n] = rev ys @ i # rev xs"
      using arg_cong [OF that(1), of rev] by simp
    have l: "length ys < n"
      using arg_cong [OF eq, of length] by simp
    then have i: "i = length ys"
      using arg_cong [OF eq, of "\<lambda>zs. zs ! length ys"] by (simp add: nth_append)
    have "rev xs = drop (Suc i) [0..<n]"
      by (simp add: eq i)
    then have "set (rev xs) = set [Suc i..<n]"
      unfolding drop_upt by simp
    then have "set xs = {i<..<n}"
      by (simp only: set_rev set_upt atLeastSucLessThan_greaterThanLessThan)
    then show ?thesis using that(2) step [of i s] l i by simp
  qed
  let ?s = "fold body (rev [0..<n]) m"
  have "True \<and> (\<forall>i\<in>set (rev [0..<n]). rd ?s dst i = W i)
    \<and> (\<forall>x. x \<notin> word_span dst (set (rev [0..<n])) \<longrightarrow> ?s x = m x)"
    by (rule bytes.store_loop [where P = "\<lambda>_ _. True" and mem_of = "\<lambda>s. s"],
      rule step', assumption+) simp_all
  then have res: "\<And>i. i < n \<Longrightarrow> rd ?s dst i = W i"
    "\<And>x. x \<notin> word_span dst {..<n} \<Longrightarrow> ?s x = m x"
    by (simp_all add: atLeast0LessThan)
  show ?thesis
    by (rule storedI [OF res assms(2)])
qed

lemma rd_before:
  assumes "\<And>x. x \<notin> word_span dst {..<i} \<Longrightarrow> s x = m x" "no_clash dst n q k" "i \<le> j" "j < k" "i \<le> n"
  shows "rd s q j = rd m q j"
  by (rule bytes.ld_unwritten [OF assms(1,2)]) (use assms(3-5) in auto)

lemma rd_after:
  assumes "\<And>x. x \<notin> word_span dst {i<..<n} \<Longrightarrow> s x = m x" "no_clash dst n q k" "j \<le> i" "j < k"
  shows "rd s q j = rd m q j"
  by (rule bytes.ld_unwritten [OF assms(1,2)]) (use assms(3,4) in auto)

lemma loop_words:
  assumes "\<And>i s. i < n \<Longrightarrow> (\<And>x. x \<notin> word_span dst {..<i} \<Longrightarrow> s x = m x)
      \<Longrightarrow> body i s = wr s dst i (W i)" "wnum W n = v"
  shows "stored m (fold body [0..<n] m) dst n v"
  using loop_up [where P = "\<lambda>_ _. True" and mem_of = "\<lambda>s. s" and ?s0.0 = m and body = body
      and W = W and dst = dst and m = m and n = n and v = v] assms by simp

subsection \<open>Bitwise helpers\<close>

lemma wide_binary_ok:
  assumes "op = (\<lambda>dst a b nb m. fold (\<lambda>i m. wr m dst i (f (rd m a i) (rd m b i))) [0..<nw nb] m)"
    and "no_clash dst (nw nb) a (nw nb)" "no_clash dst (nw nb) b (nw nb)"
    and "\<And>k x y. k < 64 \<Longrightarrow> bit (f x y :: u64) k = bf (bit x k) (bit y k)"
    and "\<And>k. bit v k \<longleftrightarrow> k < 64 * nw nb \<and> bf (mbit m a k) (mbit m b k)"
  shows "stored m (op dst a b nb m) dst (nw nb) v"
  unfolding assms(1)
proof (rule loop_words [where W = "\<lambda>i. f (rd m a i) (rd m b i)"])
  show "wr s dst i (f (rd s a i) (rd s b i)) = wr s dst i (f (rd m a i) (rd m b i))"
    if "i < nw nb" and "\<And>x. x \<notin> word_span dst {..<i} \<Longrightarrow> s x = m x" for i s
    using rd_before [OF that(2) assms(2)] rd_before [OF that(2) assms(3)] that(1) by simp
  show "wnum (\<lambda>i. f (rd m a i) (rd m b i)) (nw nb) = v"
    by (rule bit_eqI) (simp add: bit_wnum assms(4,5) mbit_rd)
qed

lemma wide_band_ok:
  assumes "no_clash dst (nw nb) a (nw nb)" "no_clash dst (nw nb) b (nw nb)"
  shows "stored m (wide_band dst a b nb m) dst (nw nb)
    (mem_val m a (64 * nw nb) AND mem_val m b (64 * nw nb))"
  by (rule wide_binary_ok [OF _ assms, where f = "(AND)" and bf = "(\<and>)"])
    (auto simp: wide_band_def fun_eq_iff bit_and_iff)

lemma wide_bor_ok:
  assumes "no_clash dst (nw nb) a (nw nb)" "no_clash dst (nw nb) b (nw nb)"
  shows "stored m (wide_bor dst a b nb m) dst (nw nb)
    (mem_val m a (64 * nw nb) OR mem_val m b (64 * nw nb))"
  by (rule wide_binary_ok [OF _ assms, where f = "(OR)" and bf = "(\<or>)"])
    (auto simp: wide_bor_def fun_eq_iff bit_or_iff)

lemma wide_bxor_ok:
  assumes "no_clash dst (nw nb) a (nw nb)" "no_clash dst (nw nb) b (nw nb)"
  shows "stored m (wide_bxor dst a b nb m) dst (nw nb)
    (mem_val m a (64 * nw nb) XOR mem_val m b (64 * nw nb))"
  by (rule wide_binary_ok [OF _ assms, where f = "(XOR)" and bf = "(\<noteq>)"])
    (auto simp: wide_bxor_def fun_eq_iff bit_xor_iff)

lemma wide_bxor_not_ok:
  assumes "no_clash dst (nw nb) a (nw nb)" "no_clash dst (nw nb) b (nw nb)"
  shows "stored m (wide_bxor_not dst a b nb m) dst (nw nb)
    (take_bit (64 * nw nb) (NOT (mem_val m a (64 * nw nb) XOR mem_val m b (64 * nw nb))))"
  by (rule wide_binary_ok [OF _ assms, where f = "\<lambda>x y. NOT (x XOR y)" and bf = "(=)"])
    (auto simp: wide_bxor_not_def fun_eq_iff bit_simps)

lemma wide_band_not_ok:
  assumes "no_clash dst (nw nb) a (nw nb)" "no_clash dst (nw nb) b (nw nb)"
  shows "stored m (wide_band_not dst a b nb m) dst (nw nb)
    (mem_val m a (64 * nw nb) AND NOT (mem_val m b (64 * nw nb)))"
  by (rule wide_binary_ok [OF _ assms, where f = "\<lambda>x y. x AND NOT y" and bf = "\<lambda>x y. x \<and> \<not> y"])
    (auto simp: wide_band_not_def fun_eq_iff bit_simps)

lemma wide_bnot_ok:
  assumes "no_clash dst (nw nb) a (nw nb)"
  shows "stored m (wide_bnot dst a nb m) dst (nw nb)
    (take_bit (64 * nw nb) (NOT (mem_val m a (64 * nw nb))))"
  by (rule wide_binary_ok [OF _ assms assms, where op = "\<lambda>dst a b. wide_bnot dst a"
        and f = "\<lambda>x y. NOT x" and bf = "\<lambda>x y. \<not> x"])
    (auto simp: wide_bnot_def fun_eq_iff bit_simps)

lemma wide_copy_ok:
  assumes "no_clash dst (nw nb) a (nw nb)"
  shows "stored m (wide_copy dst a nb m) dst (nw nb) (mem_val m a (64 * nw nb))"
  by (rule wide_binary_ok [OF _ assms assms, where op = "\<lambda>dst a b. wide_copy dst a"
        and f = "\<lambda>x y. x" and bf = "\<lambda>x y. x"])
    (auto simp: wide_copy_def fun_eq_iff bit_simps)

subsection \<open>Addition, subtraction, negation\<close>

definition word_at :: "int \<Rightarrow> nat \<Rightarrow> u64" where
  "word_at v i = word_of_int (drop_bit (64 * i) v)"

lemma wnum_word_at: "wnum (word_at v) n = take_bit (64 * n) v"
  by (rule bit_eqI) (auto simp: bit_wnum word_at_def bit_simps)

text \<open>A number built digit by digit from an initial carry, and what is left to carry.\<close>

definition ripple :: "(nat \<Rightarrow> int) \<Rightarrow> int \<Rightarrow> nat \<Rightarrow> int" where
  "ripple d c n = c + (\<Sum>j<n. d j * 2 ^ (64 * j))"

definition carry_at :: "(nat \<Rightarrow> int) \<Rightarrow> int \<Rightarrow> nat \<Rightarrow> int" where
  "carry_at d c n = ripple d c n div 2 ^ (64 * n)"

lemma carry_at_0 [simp]: "carry_at d c 0 = c"
  by (simp add: carry_at_def ripple_def)

lemma ripple_Suc_div: "ripple d c (Suc n) div 2 ^ (64 * n) = d n + carry_at d c n"
  by (simp add: ripple_def carry_at_def add.assoc [symmetric])

lemma carry_at_Suc: "carry_at d c (Suc n) = (d n + carry_at d c n) div 2 ^ 64"
proof -
  have "carry_at d c (Suc n) = ripple d c (Suc n) div (2 ^ (64 * n) * 2 ^ 64)"
    by (simp add: carry_at_def power_add mult.commute)
  also have "\<dots> = (d n + carry_at d c n) div 2 ^ 64"
    unfolding ripple_Suc_div [symmetric] by (simp add: zdiv_zmult2_eq)
  finally show ?thesis .
qed

lemma ripple_take_bit:
  "i \<le> n \<Longrightarrow> take_bit (64 * i) (ripple d c n) = take_bit (64 * i) (ripple d c i)"
proof (induction rule: dec_induct)
  case (step n)
  have "ripple d c (Suc n) = ripple d c n + d n * 2 ^ (64 * (n - i)) * 2 ^ (64 * i)"
    using step.hyps by (simp add: ripple_def power_add [symmetric] algebra_simps)
  then have "take_bit (64 * i) (ripple d c (Suc n)) = take_bit (64 * i) (ripple d c n)"
    by (simp add: take_bit_eq_mod)
  then show ?case using step.IH by simp
qed simp

lemma word_at_take_bit: "word_at (take_bit (64 * Suc i) v) i = word_at v i"
  by (rule bit_word_eqI) (auto simp: word_at_def bit_simps)

lemma word_at_ripple:
  assumes "i < n"
  shows "word_at (ripple d c n) i = word_of_int (d i + carry_at d c i)"
proof -
  have "word_at (ripple d c n) i = word_at (ripple d c (Suc i)) i"
    using ripple_take_bit [of "Suc i" n d c] assms word_at_take_bit
    by (metis Suc_leI)
  then show ?thesis
    by (simp add: word_at_def drop_bit_eq_div ripple_Suc_div)
qed

text \<open>A loop that writes the digit sums with a carried word \<open>g (carry_at d c i)\<close>.\<close>

lemma ripple_loop:
  assumes step: "\<And>i s. i < n \<Longrightarrow> (\<And>x. x \<notin> word_span dst {..<i} \<Longrightarrow> s x = m x)
      \<Longrightarrow> 0 \<le> e * carry_at d c i \<and> e * carry_at d c i \<le> 1
      \<Longrightarrow> body i (s, word_of_int (e * carry_at d c i))
        = (wr s dst i (word_of_int (d i + carry_at d c i)),
           word_of_int (e * ((d i + carry_at d c i) div 2 ^ 64)))
        \<and> 0 \<le> e * ((d i + carry_at d c i) div 2 ^ 64) \<and> e * ((d i + carry_at d c i) div 2 ^ 64) \<le> 1"
    and "0 \<le> e * c" "e * c \<le> 1" and "c0 = (word_of_int (e * c) :: u64)"
  shows "stored m (fst (fold body [0..<n] (m, c0))) dst n (take_bit (64 * n) (ripple d c n))"
proof -
  let ?P = "\<lambda>i (s :: mem \<times> u64). snd s = word_of_int (e * carry_at d c i)
    \<and> 0 \<le> e * carry_at d c i \<and> e * carry_at d c i \<le> 1"
  have "stored m (fst (fold body [0..<n] (m, c0))) dst n (take_bit (64 * n) (ripple d c n))
    \<and> ?P n (fold body [0..<n] (m, c0))"
  proof (rule loop_up [where P = ?P])
    fix i and s :: "mem \<times> u64"
    assume i: "i < n" and off: "\<And>x. x \<notin> word_span dst {..<i} \<Longrightarrow> fst s x = m x" and P: "?P i s"
    have "s = (fst s, word_of_int (e * carry_at d c i))"
      using P by (metis prod.collapse)
    then have eq: "(fst s, word_of_int (e * carry_at d c i)) = s" by simp
    have "body i (fst s, word_of_int (e * carry_at d c i))
        = (wr (fst s) dst i (word_of_int (d i + carry_at d c i)),
        word_of_int (e * ((d i + carry_at d c i) div 2 ^ 64)))
      \<and> 0 \<le> e * ((d i + carry_at d c i) div 2 ^ 64) \<and> e * ((d i + carry_at d c i) div 2 ^ 64) \<le> 1"
      by (rule step [OF i off]) (use P in simp_all)
    then show "fst (body i s) = wr (fst s) dst i (word_at (ripple d c n) i) \<and> ?P (Suc i) (body i s)"
      unfolding eq using i by (simp add: word_at_ripple carry_at_Suc)
  qed (use assms in \<open>simp_all add: wnum_word_at\<close>)
  then show ?thesis by simp
qed

lemma div_eqI: "0 < b \<Longrightarrow> q * b \<le> v \<Longrightarrow> v < q * b + b \<Longrightarrow> v div b = q" for v q b :: int
  by (rule int_div_pos_eq [where r = "v - q * b"]) (auto simp: algebra_simps)

lemma add_carry:
  assumes "0 \<le> k" "k \<le> 1"
  shows "(let (sum1, c1) = overflowing_add x y; (sum2, c2) = overflowing_add sum1 (word_of_int k)
      in (wr m dst i sum2, of_bool c1 + of_bool c2 :: u64))
    = (wr m dst i (word_of_int (uint x + uint y + k)),
       word_of_int ((uint x + uint y + k) div 2 ^ 64))
    \<and> 0 \<le> (uint x + uint y + k) div 2 ^ 64 \<and> (uint x + uint y + k) div 2 ^ 64 \<le> 1"
proof -
  have k: "k = 0 \<or> k = 1" using assms by linarith
  have x: "0 \<le> uint x" "uint x < 2 ^ 64" and y: "0 \<le> uint y" "uint y < 2 ^ 64"
    using uint_lt2p [of x] uint_lt2p [of y] by simp_all
  have sum: "uint (x + y) = (if 2 ^ 64 \<le> uint x + uint y then uint x + uint y - 2 ^ 64 else uint x + uint y)"
    unfolding uint_plus_if_size word_size by auto
  have kw: "uint (word_of_int k :: u64) = k"
    using k by auto
  have "(uint x + uint y + k) div 2 ^ 64 = of_bool (2 ^ 64 \<le> uint x + uint y + k)"
    using x y k by (intro div_eqI) (auto simp: not_le)
  also have "\<dots> = of_bool (2 ^ 64 \<le> uint x + uint y) + of_bool (2 ^ 64 \<le> uint (x + y) + k)"
    unfolding sum using k x y by auto
  finally have c: "(uint x + uint y + k) div 2 ^ 64
    = of_bool (2 ^ 64 \<le> uint x + uint y) + of_bool (2 ^ 64 \<le> uint (x + y) + k)" .
  have "\<not> (2 ^ 64 \<le> uint x + uint y \<and> 2 ^ 64 \<le> uint (x + y) + k)"
    unfolding sum using k x y by auto
  then have "0 \<le> (uint x + uint y + k) div 2 ^ 64 \<and> (uint x + uint y + k) div 2 ^ 64 \<le> 1"
    unfolding c by auto
  then show ?thesis
    unfolding c overflowing_add_def kw by simp
qed

lemma sub_borrow:
  assumes "0 \<le> k" "k \<le> 1"
  shows "(let (diff1, b1) = overflowing_sub x y; (diff2, b2) = overflowing_sub diff1 (word_of_int k)
      in (wr m dst i diff2, of_bool b1 + of_bool b2 :: u64))
    = (wr m dst i (word_of_int (uint x - uint y - k)),
       word_of_int (- ((uint x - uint y - k) div 2 ^ 64)))
    \<and> 0 \<le> - ((uint x - uint y - k) div 2 ^ 64) \<and> - ((uint x - uint y - k) div 2 ^ 64) \<le> 1"
proof -
  have k: "k = 0 \<or> k = 1" using assms by linarith
  have x: "0 \<le> uint x" "uint x < 2 ^ 64" and y: "0 \<le> uint y" "uint y < 2 ^ 64"
    using uint_lt2p [of x] uint_lt2p [of y] by simp_all
  have diff: "uint (x - y) = (if uint x < uint y then uint x - uint y + 2 ^ 64 else uint x - uint y)"
    unfolding uint_sub_if_size word_size by auto
  have "(uint x - uint y - k) div 2 ^ 64 = - 1" if "uint x < uint y + k"
    by (rule div_eqI) (use x y assms that in linarith)+
  moreover have "(uint x - uint y - k) div 2 ^ 64 = 0" if "\<not> uint x < uint y + k"
    by (rule div_eqI) (use x y assms that in linarith)+
  ultimately have "(uint x - uint y - k) div 2 ^ 64 = - of_bool (uint x < uint y + k)"
    by simp
  then show ?thesis
    using k x y by (auto simp: overflowing_sub_def word_less_def diff)
qed

lemma ripple_words: "ripple (\<lambda>i. uint (A i) + uint (B i)) c n = c + wnum A n + wnum B n"
  by (simp add: ripple_def wnum_def sum.distrib algebra_simps)

lemma ripple_words_diff: "ripple (\<lambda>i. uint (A i) - uint (B i)) c n = c + wnum A n - wnum B n"
  by (simp add: ripple_def wnum_def sum_subtractf algebra_simps)

lemma wide_add_ok:
  assumes "no_clash dst (nw nb) a (nw nb)" "no_clash dst (nw nb) b (nw nb)"
  shows "stored m (wide_add dst a b nb m) dst (nw nb)
    (take_bit (64 * nw nb) (mem_val m a (64 * nw nb) + mem_val m b (64 * nw nb)))"
proof -
  have "stored m (wide_add dst a b nb m) dst (nw nb)
    (take_bit (64 * nw nb) (ripple (\<lambda>i. uint (rd m a i) + uint (rd m b i)) 0 (nw nb)))"
    unfolding wide_add_def
  proof (rule ripple_loop [where e = 1])
    fix i s
    let ?c = "carry_at (\<lambda>i. uint (rd m a i) + uint (rd m b i)) 0 i"
    assume i: "i < nw nb" and off: "\<And>x. x \<notin> word_span dst {..<i} \<Longrightarrow> s x = m x"
      and c: "0 \<le> 1 * ?c \<and> 1 * ?c \<le> 1"
    have "rd s a i = rd m a i" "rd s b i = rd m b i"
      using rd_before [OF off assms(1)] rd_before [OF off assms(2)] i by simp_all
    then show "(\<lambda>(m, carry). let (sum1, c1) = overflowing_add (rd m a i) (rd m b i);
          (sum2, c2) = overflowing_add sum1 carry
          in (wr m dst i sum2, of_bool c1 + of_bool c2 :: u64)) (s, word_of_int (1 * ?c))
        = (wr s dst i (word_of_int (uint (rd m a i) + uint (rd m b i) + ?c)),
           word_of_int (1 * ((uint (rd m a i) + uint (rd m b i) + ?c) div 2 ^ 64)))
        \<and> 0 \<le> 1 * ((uint (rd m a i) + uint (rd m b i) + ?c) div 2 ^ 64)
        \<and> 1 * ((uint (rd m a i) + uint (rd m b i) + ?c) div 2 ^ 64) \<le> 1"
      using add_carry [of ?c "rd m a i" "rd m b i" s dst i] c by simp
  qed simp_all
  then show ?thesis
    by (simp add: ripple_words mem_val_words)
qed

lemma wide_sub_ok:
  assumes "no_clash dst (nw nb) a (nw nb)" "no_clash dst (nw nb) b (nw nb)"
  shows "stored m (wide_sub dst a b nb m) dst (nw nb)
    (take_bit (64 * nw nb) (mem_val m a (64 * nw nb) - mem_val m b (64 * nw nb)))"
proof -
  have "stored m (wide_sub dst a b nb m) dst (nw nb)
    (take_bit (64 * nw nb) (ripple (\<lambda>i. uint (rd m a i) - uint (rd m b i)) 0 (nw nb)))"
    unfolding wide_sub_def
  proof (rule ripple_loop [where e = "- 1"])
    fix i s
    let ?c = "carry_at (\<lambda>i. uint (rd m a i) - uint (rd m b i)) 0 i"
    assume i: "i < nw nb" and off: "\<And>x. x \<notin> word_span dst {..<i} \<Longrightarrow> s x = m x"
      and c: "0 \<le> - 1 * ?c \<and> - 1 * ?c \<le> 1"
    have "rd s a i = rd m a i" "rd s b i = rd m b i"
      using rd_before [OF off assms(1)] rd_before [OF off assms(2)] i by simp_all
    then show "(\<lambda>(m, borrow). let (diff1, b1) = overflowing_sub (rd m a i) (rd m b i);
          (diff2, b2) = overflowing_sub diff1 borrow
          in (wr m dst i diff2, of_bool b1 + of_bool b2 :: u64)) (s, word_of_int (- 1 * ?c))
        = (wr s dst i (word_of_int (uint (rd m a i) - uint (rd m b i) + ?c)),
           word_of_int (- 1 * ((uint (rd m a i) - uint (rd m b i) + ?c) div 2 ^ 64)))
        \<and> 0 \<le> - 1 * ((uint (rd m a i) - uint (rd m b i) + ?c) div 2 ^ 64)
        \<and> - 1 * ((uint (rd m a i) - uint (rd m b i) + ?c) div 2 ^ 64) \<le> 1"
      using sub_borrow [of "- ?c" "rd m a i" "rd m b i" s dst i] c by simp
  qed simp_all
  then show ?thesis
    by (simp add: ripple_words_diff mem_val_words)
qed

lemma wide_negate_ok:
  assumes "no_clash dst (nw nb) a (nw nb)"
  shows "stored m (wide_negate dst a nb m) dst (nw nb)
    (take_bit (64 * nw nb) (- mem_val m a (64 * nw nb)))"
proof -
  let ?d = "\<lambda>i. uint (NOT (rd m a i))"
  have "stored m (wide_negate dst a nb m) dst (nw nb) (take_bit (64 * nw nb) (ripple ?d 1 (nw nb)))"
    unfolding wide_negate_def
  proof (rule ripple_loop [where e = 1])
    fix i s
    let ?c = "carry_at ?d 1 i"
    assume i: "i < nw nb" and off: "\<And>x. x \<notin> word_span dst {..<i} \<Longrightarrow> s x = m x"
      and c: "0 \<le> 1 * ?c \<and> 1 * ?c \<le> 1"
    have "rd s a i = rd m a i"
      using rd_before [OF off assms] i by simp
    then show "(\<lambda>(m, carry). let (s, c) = overflowing_add (NOT (rd m a i)) carry
          in (wr m dst i s, of_bool c :: u64)) (s, word_of_int (1 * ?c))
        = (wr s dst i (word_of_int (?d i + ?c)), word_of_int (1 * ((?d i + ?c) div 2 ^ 64)))
        \<and> 0 \<le> 1 * ((?d i + ?c) div 2 ^ 64) \<and> 1 * ((?d i + ?c) div 2 ^ 64) \<le> 1"
      using add_carry [of ?c "NOT (rd m a i)" 0 s dst i] c uint_lt2p [of "NOT (rd m a i)"]
      by (simp add: overflowing_add_def not_le split: if_splits)
  qed simp_all
  moreover have "ripple ?d 1 (nw nb) = 1 + wnum (\<lambda>i. NOT (rd m a i)) (nw nb)"
    by (simp add: ripple_def wnum_def)
  moreover have "wnum (\<lambda>i. NOT (rd m a i)) (nw nb) = take_bit (64 * nw nb) (NOT (wnum (rd m a) (nw nb)))"
    by (rule bit_eqI) (auto simp: bit_wnum bit_simps)
  moreover have "take_bit k (1 + take_bit k (NOT x)) = take_bit k (- x)" for k and x :: int
    by (simp add: not_eq_complement take_bit_eq_mod mod_simps)
  ultimately show ?thesis
    by (simp add: mem_val_words)
qed

subsection \<open>Multiplication\<close>

text \<open>
  One step of a row: the 128-bit product of two words plus the word already there plus a
  carry below \<open>2 ^ 64\<close> does not overflow, and splits into the stored word and the next carry.
\<close>

lemma mul_step:
  fixes x y z :: u64 and carry :: "128 word"
  assumes "uint carry < 2 ^ 64"
  defines "pr \<equiv> ucast x * ucast y + ucast z + carry"
  shows "uint (ucast pr :: u64) + 2 ^ 64 * uint (drop_bit 64 pr)
      = uint x * uint y + uint z + uint carry"
    "uint (drop_bit 64 pr) < 2 ^ 64"
proof -
  have b: "uint x \<le> 2 ^ 64 - 1" "uint y \<le> 2 ^ 64 - 1" "uint z \<le> 2 ^ 64 - 1" "uint carry \<le> 2 ^ 64 - 1"
    using uint_lt2p [of x] uint_lt2p [of y] uint_lt2p [of z] assms(1) by simp_all
  have "uint x * uint y \<le> (2 ^ 64 - 1) * (2 ^ 64 - 1)"
    using b by (intro mult_mono) simp_all
  then have lt: "uint x * uint y + uint z + uint carry < 2 ^ 128"
    using b by simp
  have u: "uint (ucast v :: 128 word) = uint v" for v :: u64
    using uint_lt2p [of v] by (simp add: unsigned_ucast_eq take_bit_int_eq_self)
  have "pr = word_of_int (uint x * uint y + uint z + uint carry)"
    by (simp add: pr_def u [symmetric])
  then have p: "uint pr = uint x * uint y + uint z + uint carry"
    using lt by (simp only: uint_word_of_int_eq) (simp add: take_bit_int_eq_self)
  have "uint (ucast pr :: u64) = uint pr mod 2 ^ 64" "uint (drop_bit 64 pr) = uint pr div 2 ^ 64"
    by (simp_all add: unsigned_ucast_eq take_bit_eq_mod drop_bit_eq_div uint_div)
  then show "uint (ucast pr :: u64) + 2 ^ 64 * uint (drop_bit 64 pr)
      = uint x * uint y + uint z + uint carry"
    unfolding p [symmetric] by simp
  show "uint (drop_bit 64 pr) < 2 ^ 64"
    using uint_lt2p [of pr] by (simp add: drop_bit_eq_div uint_div div_less_iff_less_mult)
qed

definition apart :: "nat \<Rightarrow> nat \<Rightarrow> nat \<Rightarrow> bool" where
  "apart p q n \<longleftrightarrow> q + n * 8 \<le> p \<or> p + n * 8 \<le> q"

lemma rd_apart:
  assumes "\<And>x. x \<notin> word_span dst {..<n} \<Longrightarrow> s x = m x" "apart dst q n" "j < n"
  shows "rd s q j = rd m q j"
proof (rule bytes_rd_cong)
  fix x
  assume x: "x \<in> word_span q {j}"
  have "x \<notin> word_span dst {..<n}"
    using word_span_bounds [OF x, of n] word_span_bounds [of x dst "{..<n}" n] assms(2,3)
    by (auto simp: apart_def)
  then show "s x = m x" by (rule assms(1))
qed

lemma wnum_wr:
  assumes "k < n"
  shows "wnum (rd (wr m p k v) p) n = wnum (rd m p) n + (uint v - uint (rd m p k)) * 2 ^ (64 * k)"
  using assms
proof (induction n)
  case (Suc n)
  have eq: "wnum (rd (wr m p k v) p) n = wnum (rd m p) n" if "n \<le> k"
    using that by (intro wnum_cong) (simp add: bytes.ld_st_other)
  show ?case
  proof (cases "k = n")
    case True
    then show ?thesis using eq by (simp add: wnum_Suc bytes.ld_st algebra_simps)
  next
    case False
    then show ?thesis using Suc by (simp add: wnum_Suc bytes.ld_st_other)
  qed
qed simp

lemma wr_outside: "k < n \<Longrightarrow> x \<notin> word_span p {..<n} \<Longrightarrow> wr m p k v x = m x"
  by (rule bytes.get_st) (auto simp: word_span_def)

lemma wnum_diff_dvd: "j \<le> n \<Longrightarrow> 2 ^ (64 * j) dvd wnum B n - wnum B j"
proof (induction rule: dec_induct)
  case (step n)
  have "wnum B (Suc n) - wnum B j = (wnum B n - wnum B j) + uint (B n) * 2 ^ (64 * n)"
    by (simp add: wnum_Suc)
  moreover have "(2 :: int) ^ (64 * j) dvd uint (B n) * 2 ^ (64 * n)"
    using step.hyps by (intro dvd_mult le_imp_power_dvd) simp
  ultimately show ?case using step.IH by (metis dvd_add)
qed simp

lemma take_bit_eqI: "2 ^ k dvd x - y \<Longrightarrow> take_bit k x = take_bit k y" for x y :: int
  by (simp add: take_bit_eq_mod mod_eq_dvd_iff)

lemma mul_row_ok:
  assumes "apart dst b n" "j \<le> n" "uint carry < 2 ^ 64"
  shows "take_bit (64 * n) (wnum (rd (mul_row dst b ai i n [j..<n] m carry) dst) n) = take_bit (64 * n) (wnum (rd m dst) n
      + 2 ^ (64 * i) * uint ai * (wnum (rd m b) n - wnum (rd m b) j) + 2 ^ (64 * (i + j)) * uint carry)
    \<and> (\<forall>x. x \<notin> word_span dst {..<n} \<longrightarrow> mul_row dst b ai i n [j..<n] m carry x = m x)"
  using assms(2,3)
proof (induction "n - j" arbitrary: j m carry)
  case (0 j m carry)
  then have n: "n = j" by simp
  have "(2 :: int) ^ (64 * j) dvd 2 ^ (64 * (i + j)) * uint carry"
    by (intro dvd_mult2 le_imp_power_dvd) simp
  then show ?case
    unfolding n by (auto intro!: take_bit_eqI simp del: take_bit_wnum)
next
  case (Suc k j m carry)
  then have j: "j < n" and js: "[j..<n] = j # [Suc j..<n]" by (simp_all add: upt_conv_Cons)
  show ?case
  proof (cases "n \<le> i + j")
    case True
    obtain q where q: "wnum (rd m b) n - wnum (rd m b) j = 2 ^ (64 * j) * q"
      using wnum_diff_dvd [of j n "rd m b"] j by (auto elim: dvdE)
    have "(2 :: int) ^ (64 * n) dvd 2 ^ (64 * (i + j)) * (uint ai * q + uint carry)"
      using True by (intro dvd_mult2 le_imp_power_dvd) simp
    moreover have "2 ^ (64 * (i + j)) * (uint ai * q + uint carry)
      = 2 ^ (64 * i) * uint ai * (2 ^ (64 * j) * q) + 2 ^ (64 * (i + j)) * uint carry"
      by (simp add: power_add algebra_simps)
    ultimately have "2 ^ (64 * n) dvd 2 ^ (64 * i) * uint ai * (2 ^ (64 * j) * q)
        + 2 ^ (64 * (i + j)) * uint carry" by simp
    then have "take_bit (64 * n) (wnum (rd m dst) n + 2 ^ (64 * i) * uint ai * (2 ^ (64 * j) * q)
        + 2 ^ (64 * (i + j)) * uint carry) = take_bit (64 * n) (wnum (rd m dst) n)"
      by (intro take_bit_eqI) (simp add: add.assoc)
    then show ?thesis
      using True js unfolding q by simp
  next
    case False
    define pr :: "128 word" where "pr = ucast ai * ucast (rd m b j) + ucast (rd m dst (i + j)) + carry"
    define m1 where "m1 = wr m dst (i + j) (ucast pr)"
    have row: "mul_row dst b ai i n [j..<n] m carry = mul_row dst b ai i n [Suc j..<n] m1 (drop_bit 64 pr)"
      using False by (simp add: js pr_def m1_def Let_def)
    have step: "uint (ucast pr :: u64) + 2 ^ 64 * uint (drop_bit 64 pr)
        = uint ai * uint (rd m b j) + uint (rd m dst (i + j)) + uint carry"
      and c: "uint (drop_bit 64 pr) < 2 ^ 64"
      using mul_step [OF Suc.prems(2), of ai "rd m b j" "rd m dst (i + j)"] by (simp_all only: pr_def)
    have out: "m1 x = m x" if "x \<notin> word_span dst {..<n}" for x
      using False that unfolding m1_def by (intro wr_outside) simp_all
    have b: "wnum (rd m1 b) l = wnum (rd m b) l" if "l \<le> n" for l
      using that by (intro wnum_cong rd_apart [OF out assms(1)]) simp_all
    have IH: "take_bit (64 * n) (wnum (rd (mul_row dst b ai i n [Suc j..<n] m1 (drop_bit 64 pr)) dst) n)
        = take_bit (64 * n) (wnum (rd m1 dst) n
          + 2 ^ (64 * i) * uint ai * (wnum (rd m1 b) n - wnum (rd m1 b) (Suc j))
          + 2 ^ (64 * (i + Suc j)) * uint (drop_bit 64 pr))
      \<and> (\<forall>x. x \<notin> word_span dst {..<n} \<longrightarrow> mul_row dst b ai i n [Suc j..<n] m1 (drop_bit 64 pr) x = m1 x)"
      using Suc.hyps(2) j c by (intro Suc.hyps(1)) simp_all
    have "wnum (rd m1 dst) n = wnum (rd m dst) n
        + (uint (ucast pr :: u64) - uint (rd m dst (i + j))) * 2 ^ (64 * (i + j))"
      unfolding m1_def using False by (intro wnum_wr) simp
    then have "wnum (rd m1 dst) n + 2 ^ (64 * (i + Suc j)) * uint (drop_bit 64 pr)
      = wnum (rd m dst) n + 2 ^ (64 * (i + j))
        * (uint (ucast pr :: u64) + 2 ^ 64 * uint (drop_bit 64 pr) - uint (rd m dst (i + j)))"
      by (simp add: power_add algebra_simps)
    also have "\<dots> = wnum (rd m dst) n + 2 ^ (64 * (i + j)) * (uint ai * uint (rd m b j) + uint carry)"
      unfolding step by simp
    finally have "wnum (rd m1 dst) n + 2 ^ (64 * i) * uint ai * (wnum (rd m b) n - wnum (rd m b) (Suc j))
          + 2 ^ (64 * (i + Suc j)) * uint (drop_bit 64 pr)
      = wnum (rd m dst) n + 2 ^ (64 * i) * uint ai * (wnum (rd m b) n - wnum (rd m b) j)
        + 2 ^ (64 * (i + j)) * uint carry"
      by (simp add: wnum_Suc power_add algebra_simps)
    then show ?thesis
      using IH out j unfolding row by (simp add: b)
  qed
qed

lemma take_bit_add_left: "take_bit k (take_bit k x + y) = take_bit k (x + y)" for x y :: int
  by (simp add: take_bit_eq_mod mod_simps)

lemma wide_mul_ok:
  assumes "apart dst a (nw nb)" "apart dst b (nw nb)"
  shows "stored m (wide_mul dst a b nb m) dst (nw nb)
    (take_bit (64 * nw nb) (mem_val m a (64 * nw nb) * mem_val m b (64 * nw nb)))"
proof -
  define n where "n = nw nb"
  let ?A = "wnum (rd m a)" and ?B = "wnum (rd m b) n"
  define m0 where "m0 = fold (\<lambda>i m. wr m dst i 0) [0..<n] m"
  define row where "row = (\<lambda>i m. let ai = rd m a i in
    if ai = 0 then m else mul_row dst b ai i n [0..<n] m 0)"
  have "stored m m0 dst n 0"
    unfolding m0_def by (rule loop_words [where W = "\<lambda>_. 0"]) (simp_all add: wnum_def)
  then have m0: "wnum (rd m0 dst) n = 0" "\<And>x. x \<notin> word_span dst {..<n} \<Longrightarrow> m0 x = m x"
    by (simp_all add: stored_alt)
  have "wnum (rd (fold row [0..<i] m0) dst) n = take_bit (64 * n) (?A i * ?B)
      \<and> (\<forall>x. x \<notin> word_span dst {..<n} \<longrightarrow> fold row [0..<i] m0 x = m x)" if "i \<le> n" for i
    using that
  proof (induction i)
    case 0
    then show ?case using m0 by simp
  next
    case (Suc i)
    define s where "s = fold row [0..<i] m0"
    have IH: "wnum (rd s dst) n = take_bit (64 * n) (?A i * ?B)"
      and out: "\<And>x. x \<notin> word_span dst {..<n} \<Longrightarrow> s x = m x"
      using Suc by (simp_all add: s_def)
    have a: "rd s a i = rd m a i" and b: "wnum (rd s b) n = ?B"
      using rd_apart [OF out assms(1) [folded n_def]] rd_apart [OF out assms(2) [folded n_def]] Suc.prems
      by (auto intro!: wnum_cong)
    have "take_bit (64 * n) (wnum (rd (row i s) dst) n)
        = take_bit (64 * n) (wnum (rd s dst) n + 2 ^ (64 * i) * uint (rd m a i) * ?B)
      \<and> (\<forall>x. x \<notin> word_span dst {..<n} \<longrightarrow> row i s x = s x)"
      using mul_row_ok [of dst b n 0 0 "rd m a i" i s, folded n_def] assms(2) [folded n_def]
      by (cases "rd m a i = 0") (simp_all add: row_def a b)
    moreover have "?A (Suc i) * ?B = ?A i * ?B + 2 ^ (64 * i) * uint (rd m a i) * ?B"
      by (simp add: wnum_Suc algebra_simps)
    ultimately show ?case
      using out by (simp add: IH s_def [symmetric] take_bit_add_left)
  qed
  from this [of n] show ?thesis
    unfolding stored_alt mem_val_words wide_mul_def Let_def n_def [symmetric] row_def m0_def
    by simp
qed

subsection \<open>Resizing\<close>

lemma bit_lt_exp: "bit x k \<Longrightarrow> x < 2 ^ n \<Longrightarrow> k < n" for x :: nat
  by (metis bit_take_bit_iff take_bit_nat_eq_self)

lemma unpack_pack:
  assumes "nb < 65536" "width < 65536"
  shows "unpack_nb_width (pack_nb_width nb width) = (of_nat nb, of_nat width)"
proof -
  have lt: "bit nb k \<Longrightarrow> k < 16" "bit width k \<Longrightarrow> k < 16" for k
    using bit_lt_exp [of nb k 16] bit_lt_exp [of width k 16] assms by auto
  have msk: "(0xFFFF :: u32) = mask 16"
    by (simp add: mask_eq_exp_minus_1)
  show ?thesis
    unfolding unpack_nb_width_def pack_nb_width_def msk
    by (auto intro!: bit_word_eqI dest: lt simp: bit_simps)
qed

text \<open>The sign bit the source extracts, and the bits of a sign-extended word.\<close>

lemma bit_of_word: "drop_bit k w AND 1 = of_bool (bit w k)" for w :: u64
  by (simp add: bit_iff_odd_drop_bit and_one_eq mod_2_eq_odd)

lemma sign_bit: "drop_bit ((w - 1) mod 64) (rd m p ((w - 1) div 64)) AND 1 = of_bool (mbit m p (w - 1))"
  by (simp only: bit_of_word mbit_rd)

lemma low_mask: "push_bit k 1 - 1 = (mask k :: u64)"
  by (simp add: push_bit_eq_mult mask_eq_exp_minus_1)

lemma sext_word_bit:
  assumes "k < 64"
  shows "bit (sext_word m p i w sign) k
    = (if 64 * i + k < unat w then mbit m p (64 * i + k) else sign = 1)"
  using assms unfolding sext_word_def Let_def low_mask
  by (auto simp: bit_simps bit_rd_mbit)

definition extend_of :: "bool \<Rightarrow> nat \<Rightarrow> int \<Rightarrow> int" where
  "extend_of sg w v = (if sg \<and> 0 < w then signed_take_bit (w - 1) v else take_bit w v)"

lemma wnum_sext_word:
  assumes "0 < unat w" "sign = of_bool (sg \<and> mbit m p (unat w - 1))"
  shows "wnum (\<lambda>i. sext_word m p i w sign) n
    = take_bit (64 * n) (extend_of sg (unat w) (mem_val m p (unat w)))"
proof (rule bit_eqI)
  fix k
  have k: "64 * (k div 64) + k mod 64 = k" for k :: nat by simp
  have top: "mbit m p k = mbit m p (unat w - Suc 0)" if "unat w - Suc 0 \<le> k" "k < unat w"
    using that by (metis Suc_pred gr_implies_not0 leD less_Suc_eq not_gr_zero order_le_less)
  show "bit (wnum (\<lambda>i. sext_word m p i w sign) n) k
    = bit (take_bit (64 * n) (extend_of sg (unat w) (mem_val m p (unat w)))) k"
    using assms top by (auto simp: bit_wnum sext_word_bit k extend_of_def bit_simps min_def)
qed

text \<open>Packs the source size, width and signed flag as \<open>wide_resize\<close>'s callers do.\<close>

definition src_info :: "nat \<Rightarrow> nat \<Rightarrow> bool \<Rightarrow> u64" where
  "src_info nb width sg = ucast (pack_nb_width nb width) OR push_bit 32 (of_bool sg)"

lemma src_info_parts:
  "ucast (src_info nb width sg) = pack_nb_width nb width"
  "(drop_bit 32 (src_info nb width sg) AND 1 = 1) = sg"
proof -
  show "ucast (src_info nb width sg) = pack_nb_width nb width"
    by (rule bit_word_eqI) (auto simp: src_info_def bit_simps)
  show "(drop_bit 32 (src_info nb width sg) AND 1 = 1) = sg"
    unfolding bit_of_word by (auto simp: src_info_def bit_simps dest: bit_imp_le_length)
qed

lemma wide_resize_ok:
  assumes "width < 65536" "nb < 65536" and "no_clash dst (nw dst_nb) src ((width + 63) div 64)"
  shows "stored m (wide_resize dst src (src_info nb width sg) dst_nb m) dst (nw dst_nb)
    (take_bit (64 * nw dst_nb) (extend_of sg width (mem_val m src width)))"
proof -
  have w: "snd (unpack_nb_width (pack_nb_width nb width)) = of_nat width" "unat (of_nat width :: u32) = width"
    using assms by (simp_all add: unpack_pack unsigned_of_nat take_bit_nat_eq_self)
  show ?thesis
  proof (cases "width = 0")
    case True
    then show ?thesis
      unfolding wide_resize_def src_info_parts w Let_def
      by (auto intro!: loop_words [where W = "\<lambda>_. 0"] simp: wnum_def extend_of_def)
  next
    case False
    then have nz: "of_nat width \<noteq> (0 :: u32)"
      using w(2) by auto
    let ?sg = "of_bool (sg \<and> mbit m src (width - 1)) :: u64"
    have sign: "(if sg then drop_bit ((width - 1) mod 64) (rd m src ((width - 1) div 64)) AND 1 else 0) = ?sg"
      by (simp only: sign_bit) simp
    show ?thesis
      unfolding wide_resize_def src_info_parts w Let_def sign if_not_P [OF nz]
    proof (rule loop_words)
      show "wnum (\<lambda>i. sext_word m src i (of_nat width) ?sg) (nw dst_nb)
          = take_bit (64 * nw dst_nb) (extend_of sg width (mem_val m src width))"
        using wnum_sext_word [of "of_nat width" ?sg sg m src] False by (simp add: w)
      fix i s
      assume i: "i < nw dst_nb" and off: "\<And>x. x \<notin> word_span dst {..<i} \<Longrightarrow> s x = m x"
      have "rd s src i = rd m src i" if "i * 64 < width"
        using rd_before [OF off assms(3)] i that by auto
      then have "sext_word s src i (of_nat width) ?sg = sext_word m src i (of_nat width) ?sg"
        by (auto simp: sext_word_def w Let_def)
      then show "wr s dst i (sext_word s src i (of_nat width) ?sg)
        = wr s dst i (sext_word m src i (of_nat width) ?sg)"
        by simp
    qed
  qed
qed

subsection \<open>What the helpers compute\<close>

lemma mem_val_ones: "mem_val (\<lambda>_. - 1) p w = mask w"
  by (rule bit_eqI) (simp add: mbit_def bit_simps)

text \<open>
  The bitwise helpers compute the bitwise operation of the numbers in the operand buffers,
  complemented ones cut to the buffer, and change no byte outside the destination, which may
  be one of the operands.
\<close>

theorem wide_bitwise_correct:
  fixes nb :: u32
  defines "n \<equiv> nw nb"
  assumes "no_clash dst n a n" "no_clash dst n b n"
  shows "stored m (wide_band dst a b nb m) dst n (mem_val m a (64 * n) AND mem_val m b (64 * n))
    \<and> stored m (wide_bor dst a b nb m) dst n (mem_val m a (64 * n) OR mem_val m b (64 * n))
    \<and> stored m (wide_bxor dst a b nb m) dst n (mem_val m a (64 * n) XOR mem_val m b (64 * n))
    \<and> stored m (wide_bxor_not dst a b nb m) dst n
        (take_bit (64 * n) (NOT (mem_val m a (64 * n) XOR mem_val m b (64 * n))))
    \<and> stored m (wide_band_not dst a b nb m) dst n
        (mem_val m a (64 * n) AND NOT (mem_val m b (64 * n)))
    \<and> stored m (wide_bnot dst a nb m) dst n (take_bit (64 * n) (NOT (mem_val m a (64 * n))))
    \<and> stored m (wide_copy dst a nb m) dst n (mem_val m a (64 * n))"
  using assms(2,3) unfolding n_def
  by (intro conjI wide_band_ok wide_bor_ok wide_bxor_ok wide_bxor_not_ok wide_band_not_ok
      wide_bnot_ok wide_copy_ok)

lemma wide_bitwise_correct_witness:
  "mem_val (wide_band_not 0 0 24 24 (\<lambda>_. - 1)) 0 192 = 0"
  using wide_bitwise_correct [of 0 24 0 24 "\<lambda>_. - 1"]
  by (simp add: no_clash_def nw_def stored_def mem_val_ones)

text \<open>
  C14: Addition, subtraction and negation of wide values are exact modulo the size of the
  buffer: the carry or borrow chain over the words loses nothing, also in place.
\<close>

theorem wide_add_sub_correct:
  fixes nb :: u32
  defines "n \<equiv> nw nb"
  assumes "no_clash dst n a n" "no_clash dst n b n"
  shows "stored m (wide_add dst a b nb m) dst n
        ((mem_val m a (64 * n) + mem_val m b (64 * n)) mod 2 ^ (64 * n))
    \<and> stored m (wide_sub dst a b nb m) dst n
        ((mem_val m a (64 * n) - mem_val m b (64 * n)) mod 2 ^ (64 * n))
    \<and> stored m (wide_negate dst a nb m) dst n (- mem_val m a (64 * n) mod 2 ^ (64 * n))"
  using assms(2,3) unfolding n_def take_bit_eq_mod [symmetric]
  by (intro conjI wide_add_ok wide_sub_ok wide_negate_ok)

lemma wide_add_sub_correct_witness:
  "mem_val (wide_add 0 0 24 24 (\<lambda>_. - 1)) 0 192 = 2 ^ 192 - 2
    \<and> mem_val (wide_negate 0 24 24 (\<lambda>_. - 1)) 0 192 = 1"
  using wide_add_sub_correct [of 0 24 0 24 "\<lambda>_. - 1"] wide_add_sub_correct [of 0 24 24 24 "\<lambda>_. - 1"]
  by (simp add: no_clash_def nw_def stored_def mem_val_ones mask_eq_exp_minus_1)

text \<open>
  C15: The schoolbook product over 64-bit words with 128-bit partial sums is the product modulo
  the size of the buffer, for a destination that does not meet the operands.
\<close>

theorem wide_mul_correct:
  fixes nb :: u32
  defines "n \<equiv> nw nb"
  assumes "apart dst a n" "apart dst b n"
  shows "stored m (wide_mul dst a b nb m) dst n
    ((mem_val m a (64 * n) * mem_val m b (64 * n)) mod 2 ^ (64 * n))"
  using assms(2,3) unfolding n_def take_bit_eq_mod [symmetric] by (rule wide_mul_ok)

lemma wide_mul_correct_witness:
  "mem_val (wide_mul 0 24 24 24 (\<lambda>_. - 1)) 0 192 = 1"
  using wide_mul_correct [of 0 24 24 24 "\<lambda>_. - 1"]
  by (simp add: apart_def nw_def stored_def mem_val_ones mask_eq_exp_minus_1)

text \<open>
  Resizing zero- or sign-extends a value of any width to the destination, or cuts it, from
  the packed size, width and sign flag of the source, and reads only the words its width
  covers.
\<close>

theorem wide_resize_correct:
  assumes "width < 65536" "nb < 65536" "no_clash dst (nw dst_nb) src ((width + 63) div 64)"
  shows "stored m (wide_resize dst src (src_info nb width sg) dst_nb m) dst (nw dst_nb)
    (take_bit (64 * nw dst_nb) (if sg \<and> 0 < width then signed_take_bit (width - 1) (mem_val m src width)
       else mem_val m src width))"
  using wide_resize_ok [OF assms, of m sg]
  by (cases "sg \<and> 0 < width") (simp_all only: extend_of_def take_bit_mem_val min.idem if_True if_False)

lemma wide_resize_correct_witness:
  "mem_val (wide_resize 0 24 (src_info 24 130 True) 24 (\<lambda>_. - 1)) 0 192 = 2 ^ 192 - 1"
  using wide_resize_correct [of 130 24 0 24 24 "\<lambda>_. - 1" True]
  by (simp add: no_clash_def nw_def stored_def mem_val_ones mask_eq_exp_minus_1)

end
