(* ===== verification/Wide_Compare.thy ===== *)
theory Wide_Compare
  imports Wide_Arith
begin

section \<open>Comparisons, reductions, shifts and masks of wide values\<close>

text \<open>
  What the comparisons (\<open>wide_eq\<close>, \<open>wide_ne\<close>, \<open>wide_ucmp\<close>, \<open>wide_scmp\<close>,
  \<open>wide_scmp_asym\<close>), the reductions, the shifts and the two mask helpers of \<open>wide_ops.rs\<close>
  compute on the numbers in their buffers.
\<close>

subsection \<open>Equality and order\<close>

lemma wnum_eq_iff: "wnum A n = wnum B n \<longleftrightarrow> (\<forall>i<n. A i = B i)"
proof
  assume eq: "wnum A n = wnum B n"
  show "\<forall>i<n. A i = B i"
  proof (intro allI impI bit_word_eqI)
    fix i k
    assume "i < n" "k < LENGTH(64)"
    then show "bit (A i) k = bit (B i) k"
      using arg_cong [OF eq, of "\<lambda>v. bit v (64 * i + k)"] by (simp add: bit_wnum)
  qed
qed (auto intro: wnum_cong)

lemma eq_loop_iff: "eq_loop m a b is = of_bool (\<forall>i\<in>set is. rd m a i = rd m b i)"
  by (induction "is") auto

lemma ne_loop_iff: "ne_loop m a b is = of_bool (\<exists>i\<in>set is. rd m a i \<noteq> rd m b i)"
  by (induction "is") auto

lemma cmp_loop_sgn: "cmp_loop A B (rev [0..<n]) = sgn (wnum A n - wnum B n)"
proof (induction n)
  case (Suc n)
  have lt: "wnum A n - wnum B n < 2 ^ (64 * n)" "- (2 ^ (64 * n)) < wnum A n - wnum B n"
    using wnum_lt [of A n] wnum_lt [of B n] wnum_nonneg [of A n] wnum_nonneg [of B n] by linarith+
  have diff: "wnum A (Suc n) - wnum B (Suc n)
      = (wnum A n - wnum B n) + (uint (A n) - uint (B n)) * 2 ^ (64 * n)"
    by (simp add: wnum_Suc algebra_simps)
  consider "uint (A n) < uint (B n)" | "uint (A n) = uint (B n)" | "uint (B n) < uint (A n)"
    by linarith
  then show ?case
  proof cases
    case 1
    then have "(uint (A n) - uint (B n)) * 2 ^ (64 * n) \<le> - 1 * 2 ^ (64 * n)"
      by (intro mult_right_mono) auto
    then have "wnum A (Suc n) - wnum B (Suc n) < 0" using lt diff by linarith
    then show ?thesis using 1 by (simp add: word_less_def)
  next
    case 2
    then show ?thesis using Suc diff by (simp add: word_less_def)
  next
    case 3
    then have "1 * 2 ^ (64 * n) \<le> (uint (A n) - uint (B n)) * 2 ^ (64 * n)"
      by (intro mult_right_mono) auto
    then have "0 < wnum A (Suc n) - wnum B (Suc n)" using lt diff by linarith
    then show ?thesis using 3 by (simp add: word_less_def)
  qed
qed simp

lemma wide_eq_ok: "wide_eq a b nb m = of_bool (mem_val m a (64 * nw nb) = mem_val m b (64 * nw nb))"
  by (auto simp: wide_eq_def eq_loop_iff mem_val_words wnum_eq_iff)

lemma wide_ne_ok: "wide_ne a b nb m = of_bool (mem_val m a (64 * nw nb) \<noteq> mem_val m b (64 * nw nb))"
  by (auto simp: wide_ne_def ne_loop_iff mem_val_words wnum_eq_iff)

lemma wide_ucmp_ok: "wide_ucmp a b nb m = sgn (mem_val m a (64 * nw nb) - mem_val m b (64 * nw nb))"
  by (simp add: wide_ucmp_def cmp_loop_sgn mem_val_words)

text \<open>The signed reading of a value of \<open>w > 0\<close> bits, from its sign bit.\<close>

lemma signed_val:
  assumes "0 < w"
  shows "signed_take_bit (w - 1) (mem_val m p w)
    = mem_val m p w - of_bool (mbit m p (w - 1)) * 2 ^ w"
proof -
  have "signed_take_bit (w - 1) (mem_val m p w) = take_bit (Suc (w - 1)) (mem_val m p w)
      - of_bool (bit (mem_val m p w) (w - 1)) * 2 ^ Suc (w - 1)"
    by (simp add: signed_take_bit_eq_take_bit_minus)
  then show ?thesis
    using assms by (simp add: take_bit_mem_val)
qed

lemma signed_bounds:
  assumes "0 < w"
  shows "mbit m p (w - 1) \<Longrightarrow> signed_take_bit (w - 1) (mem_val m p w) < 0"
    "\<not> mbit m p (w - 1) \<Longrightarrow> 0 \<le> signed_take_bit (w - 1) (mem_val m p w)"
  using assms by (simp_all add: signed_take_bit_negative_iff)

lemma signed_sgn:
  assumes "0 < v" "0 < w" "mbit m p (v - 1) \<noteq> mbit m q (w - 1)"
  shows "sgn (signed_take_bit (v - 1) (mem_val m p v) - signed_take_bit (w - 1) (mem_val m q w))
    = (if mbit m p (v - 1) then - 1 else 1)"
proof -
  have "sgn (x - y) = - 1" if "x < 0" "0 \<le> y" for x y :: int
    using that by simp
  moreover have "sgn (x - y) = 1" if "0 \<le> x" "y < 0" for x y :: int
    using that by simp
  ultimately show ?thesis
    using signed_bounds [OF assms(1), of m p] signed_bounds [OF assms(2), of m q] assms(3)
    by metis
qed

lemma packed_parts:
  assumes "nb < 65536" "width < 65536"
  shows "unpack_nb_width (pack_nb_width nb width) = (of_nat nb, of_nat width)"
    "unat (of_nat nb :: u32) = nb" "unat (of_nat width :: u32) = width"
    "nw (of_nat nb) = nb div 8" "(of_nat width = (0 :: u32)) = (width = 0)"
    "(of_nat nb = (0 :: u32)) = (nb = 0)"
proof -
  have u: "unat (of_nat k :: u32) = k" if "k < 65536" for k
    using that by (simp add: unsigned_of_nat take_bit_nat_eq_self)
  show "unpack_nb_width (pack_nb_width nb width) = (of_nat nb, of_nat width)"
    using assms by (rule unpack_pack)
  show "unat (of_nat nb :: u32) = nb" "unat (of_nat width :: u32) = width"
    using assms u by blast+
  then show "nw (of_nat nb) = nb div 8" "(of_nat width = (0 :: u32)) = (width = 0)"
    "(of_nat nb = (0 :: u32)) = (nb = 0)"
    by (auto simp: nw_def)
qed

lemma wide_scmp_ok:
  assumes "nb < 65536" "0 < width" "width \<le> 64 * (nb div 8)" "width < 65536"
    and "mem_val m a (64 * (nb div 8)) < 2 ^ width" "mem_val m b (64 * (nb div 8)) < 2 ^ width"
  shows "wide_scmp a b (pack_nb_width nb width) m
    = sgn (signed_take_bit (width - 1) (mem_val m a width) - signed_take_bit (width - 1) (mem_val m b width))"
proof -
  let ?n = "64 * (nb div 8)"
  have eq: "mem_val m p ?n = mem_val m p width" if "mem_val m p ?n < 2 ^ width" for p
    using take_bit_mem_val [of width m p ?n] take_bit_int_eq_self [of "mem_val m p ?n" width] that assms(3)
    by (simp add: min_absorb1)
  have nb: "0 < nb" using assms(2,3) by (cases nb) auto
  have res: "wide_scmp a b (pack_nb_width nb width) m
      = (if mbit m a (width - 1) \<noteq> mbit m b (width - 1) then (if mbit m a (width - 1) then - 1 else 1)
         else sgn (mem_val m a width - mem_val m b width))"
    unfolding wide_scmp_def packed_parts [OF assms(1,4)] Let_def prod.case sign_bit wide_ucmp_ok
      eq [OF assms(5)] eq [OF assms(6)]
    using nb assms(2) by simp
  show ?thesis
  proof (cases "mbit m a (width - 1) = mbit m b (width - 1)")
    case True
    then show ?thesis using res by (simp only: signed_val [OF assms(2)]) simp
  next
    case False
    then show ?thesis
      using res signed_sgn [OF assms(2,2) False] by metis
  qed
qed

lemma wide_scmp_asym_ok:
  assumes "a_nb < 65536" "a_w < 65536" "b_nb < 65536" "b_w < 65536"
    and "0 < a_w" "0 < b_w" "a_w \<le> 64 * (a_nb div 8)" "b_w \<le> 64 * (b_nb div 8)"
  shows "wide_scmp_asym a b (pack_nb_width a_nb a_w) (pack_nb_width b_nb b_w) m
    = sgn (signed_take_bit (a_w - 1) (mem_val m a a_w) - signed_take_bit (b_w - 1) (mem_val m b b_w))"
proof -
  define words where "words = max (a_nb div 8) (b_nb div 8)"
  let ?A = "signed_take_bit (a_w - 1) (mem_val m a a_w)"
  let ?B = "signed_take_bit (b_w - 1) (mem_val m b b_w)"
  have nb: "0 < a_nb" "0 < b_nb" using assms(5-8) by (cases a_nb; cases b_nb; auto)+
  have word: "wnum (\<lambda>i. sext_word m p i (of_nat w) (of_bool (mbit m p (w - 1)))) words
      = take_bit (64 * words) (signed_take_bit (w - 1) (mem_val m p w))"
    if "0 < w" "w < 65536" for p w
    using wnum_sext_word [of "of_nat w" "of_bool (mbit m p (w - 1))" True m p words] that
      packed_parts(3) [of 0 w] by (simp add: extend_of_def)
  have val: "take_bit (64 * words) (signed_take_bit (w - 1) (mem_val m p w))
      = signed_take_bit (w - 1) (mem_val m p w) + of_bool (mbit m p (w - 1)) * 2 ^ (64 * words)"
    if "0 < w" "w \<le> 64 * words" for p w
  proof -
    let ?v = "signed_take_bit (w - 1) (mem_val m p w)"
    have "(2 :: int) ^ (w - 1) \<le> 2 ^ (64 * words)"
      using that by (intro power_increasing) auto
    then have "- (2 ^ (64 * words)) \<le> ?v" "?v < 2 ^ (64 * words)"
      using signed_take_bit_int_greater_eq_minus_exp [of "w - 1" "mem_val m p w"]
        signed_take_bit_int_less_exp [of "w - 1" "mem_val m p w"] by linarith+
    moreover have "v mod N = v + N" if "- N \<le> v" "v < 0" for v N :: int
    proof -
      have "v mod N = (v + N) mod N" by simp
      also have "\<dots> = v + N" using that by (intro mod_pos_pos_trivial) auto
      finally show ?thesis .
    qed
    ultimately show ?thesis
      using signed_bounds [OF that(1), of m p] unfolding take_bit_eq_mod
      by (cases "mbit m p (w - 1)") (simp_all add: mod_pos_pos_trivial)
  qed
  have res: "wide_scmp_asym a b (pack_nb_width a_nb a_w) (pack_nb_width b_nb b_w) m
      = (if mbit m a (a_w - 1) \<noteq> mbit m b (b_w - 1) then (if mbit m a (a_w - 1) then - 1 else 1)
         else sgn (take_bit (64 * words) ?A - take_bit (64 * words) ?B))"
    unfolding wide_scmp_asym_def packed_parts [OF assms(1,2)] packed_parts [OF assms(3,4)] Let_def
      prod.case sign_bit cmp_loop_sgn words_def [symmetric] word [OF assms(5,2)] word [OF assms(6,4)]
    using nb assms(5,6) by simp
  have w: "a_w \<le> 64 * words" "b_w \<le> 64 * words"
    using assms(7,8) by (auto simp: words_def)
  show ?thesis
  proof (cases "mbit m a (a_w - 1) = mbit m b (b_w - 1)")
    case True
    then show ?thesis using res val [OF assms(5) w(1)] val [OF assms(6) w(2)] by simp
  next
    case False
    then show ?thesis
      using res signed_sgn [OF assms(5,6) False] by metis
  qed
qed

subsection \<open>Reductions\<close>

lemma nonzero_loop_iff: "nonzero_loop m a js = of_bool (\<exists>i\<in>set js. rd m a i \<noteq> 0)"
  by (induction js) auto

lemma wide_is_nonzero_ok: "wide_is_nonzero a nb m = of_bool (mem_val m a (64 * nw nb) \<noteq> 0)"
proof -
  have "mem_val m a (64 * nw nb) = 0 \<longleftrightarrow> (\<forall>i<nw nb. rd m a i = 0)"
    using wnum_eq_iff [of "rd m a" "nw nb" "\<lambda>_. 0"] by (simp add: mem_val_words) (simp add: wnum_def)
  then show ?thesis
    by (auto simp: wide_is_nonzero_def nonzero_loop_iff)
qed

lemma all_ones_loop_iff: "all_ones_loop m a js \<longleftrightarrow> (\<forall>i\<in>set js. rd m a i = - 1)"
  by (induction js) auto

lemma mem_val_mask_iff: "mem_val m p w = mask w \<longleftrightarrow> (\<forall>k<w. mbit m p k)"
  by (auto simp: bit_eq_iff bit_simps)

lemma word_ones_iff: "rd m p i = - 1 \<longleftrightarrow> (\<forall>k<64. mbit m p (64 * i + k))"
  by (auto simp: bit_eq_iff bit_simps bit_rd_mbit dest: bit_imp_le_length)

lemma word_mask_iff:
  "r < 64 \<Longrightarrow> rd m p i AND mask r = mask r \<longleftrightarrow> (\<forall>k<r. mbit m p (64 * i + k))"
  by (auto simp: bit_eq_iff bit_simps bit_rd_mbit) (metis less_trans)

lemma all_below_split:
  "(\<forall>k<w. P k) \<longleftrightarrow> (\<forall>i<w div 64. \<forall>k<64. P (64 * i + k)) \<and> (\<forall>k<w mod 64. P (64 * (w div 64) + k))"
  for w :: nat
proof (intro iffI conjI allI impI)
  fix k :: nat
  assume *: "(\<forall>i<w div 64. \<forall>k<64. P (64 * i + k)) \<and> (\<forall>k<w mod 64. P (64 * (w div 64) + k))"
    and k: "k < w"
  have eq: "64 * (k div 64) + k mod 64 = k" by simp
  have "k div 64 \<le> w div 64"
    using k by (simp add: div_le_mono)
  then have "k div 64 < w div 64 \<or> k div 64 = w div 64 \<and> k mod 64 < w mod 64"
    using k eq mult_div_mod_eq [of 64 w] by linarith
  then show "P k"
    using * eq by (metis mod_less_divisor zero_less_numeral)
next
  fix i k :: nat
  assume "\<forall>k<w. P k" "i < w div 64" "k < 64"
  moreover from this have "64 * i + k < w"
    using mult_div_mod_eq [of 64 w] mult_le_mono2 [of "Suc i" "w div 64" 64] by linarith
  ultimately show "P (64 * i + k)" by simp
next
  fix k :: nat
  assume "\<forall>k<w. P k" "k < w mod 64"
  moreover from this have "64 * (w div 64) + k < w"
    using mult_div_mod_eq [of 64 w] by linarith
  ultimately show "P (64 * (w div 64) + k)" by simp
qed

lemma wide_is_all_ones_ok:
  assumes "nb < 65536" "width < 65536"
  shows "wide_is_all_ones a (pack_nb_width nb width) m = of_bool (mem_val m a width = mask width)"
  unfolding wide_is_all_ones_def packed_parts [OF assms] snd_conv Let_def low_mask
    all_ones_loop_iff mem_val_mask_iff all_below_split [of width]
  by (auto simp: word_ones_iff word_mask_iff)

lemma odd_xor: "odd (x XOR y) \<longleftrightarrow> odd x \<noteq> odd y" for x y :: u32
  using bit_xor_iff [of x y 0] by (simp add: bit_0)

lemma wide_popcnt_parity_ok:
  "wide_popcnt_parity a nb m = of_bool (odd (card {k. k < 64 * nw nb \<and> mbit m a k}))"
proof -
  have ones: "odd (count_ones (rd m a i)) \<longleftrightarrow> odd (card {k. 64 * i \<le> k \<and> k < 64 * Suc i \<and> mbit m a k})" for i
  proof -
    have "length (filter (bit (rd m a i)) [0..<64]) = card {k. k < 64 \<and> bit (rd m a i) k}"
      by (simp add: length_filter_conv_card) (rule arg_cong [where f = card], auto)
    also have "\<dots> = card ((\<lambda>k. 64 * i + k) ` {k. k < 64 \<and> bit (rd m a i) k})"
      by (rule card_image [symmetric]) (simp add: inj_on_def)
    also have "(\<lambda>k. 64 * i + k) ` {k. k < 64 \<and> bit (rd m a i) k}
        = {k. 64 * i \<le> k \<and> k < 64 * Suc i \<and> mbit m a k}"
    proof (intro equalityI subsetI)
      fix k
      assume "k \<in> {k. 64 * i \<le> k \<and> k < 64 * Suc i \<and> mbit m a k}"
      then show "k \<in> (\<lambda>k. 64 * i + k) ` {k. k < 64 \<and> bit (rd m a i) k}"
        by (intro image_eqI [where x = "k - 64 * i"]) (auto simp: bit_rd_mbit)
    qed (auto simp: bit_rd_mbit)
    finally show ?thesis
      by (simp add: count_ones_def even_of_nat_iff)
  qed
  have "odd (fold (\<lambda>i total. total XOR count_ones (rd m a i)) [0..<n] 0)
      \<longleftrightarrow> odd (card {k. k < 64 * n \<and> mbit m a k})" for n
  proof (induction n)
    case (Suc n)
    have eq: "{k. k < 64 * Suc n \<and> mbit m a k}
        = {k. k < 64 * n \<and> mbit m a k} \<union> {k. 64 * n \<le> k \<and> k < 64 * Suc n \<and> mbit m a k}"
      by auto
    have "card {k. k < 64 * Suc n \<and> mbit m a k} = card {k. k < 64 * n \<and> mbit m a k}
        + card {k. 64 * n \<le> k \<and> k < 64 * Suc n \<and> mbit m a k}"
      unfolding eq by (rule card_Un_disjoint) auto
    then show ?case
      using Suc ones [of n] by (simp add: odd_xor)
  qed simp
  then show ?thesis
    by (simp add: wide_popcnt_parity_def and_one_eq mod_2_eq_odd)
qed

subsection \<open>Shifts\<close>

lemma shl_word_bit:
  assumes "k < 64" "bs < 64"
  shows "bit (if bs = 0 then lo else push_bit bs lo OR drop_bit (64 - bs) hi :: u64) k
    = (if bs \<le> k then bit lo (k - bs) else bit hi (64 + k - bs))"
proof (cases "bs \<le> k")
  case True
  have "\<not> bit hi (64 - bs + k)"
    using True assms bit_imp_le_length [of hi "64 - bs + k"] by auto
  then show ?thesis using True assms by (auto simp: bit_or_iff bit_push_bit_iff bit_drop_bit_eq)
next
  case False
  then have "64 - bs + k = 64 + k - bs" using assms by simp
  then show ?thesis using False assms by (auto simp: bit_or_iff bit_push_bit_iff bit_drop_bit_eq)
qed

lemma lshr_word_bit:
  assumes "k < 64" "bs < 64"
  shows "bit (if bs = 0 then lo else drop_bit bs lo OR push_bit (64 - bs) hi :: u64) k
    = (if k + bs < 64 then bit lo (k + bs) else bit hi (k + bs - 64))"
proof (cases "k + bs < 64")
  case True
  then show ?thesis using assms by (auto simp: bit_or_iff bit_push_bit_iff bit_drop_bit_eq add.commute)
next
  case False
  have "\<not> bit lo (bs + k)"
    using False bit_imp_le_length [of lo "bs + k"] by auto
  moreover have "k - (64 - bs) = k + bs - 64" "64 - bs \<le> k" using False assms by simp_all
  ultimately show ?thesis
    using False assms by (auto simp: bit_or_iff bit_push_bit_iff bit_drop_bit_eq)
qed

lemma shift_parts: "64 * unat (amount div 64) + unat (amount mod 64) = unat amount"
    "unat (amount mod 64) < 64"
  for amount :: u64
proof -
  have "unat (amount div 64) = unat amount div 64" "unat (amount mod 64) = unat amount mod 64"
    by (simp_all add: unat_div unat_mod)
  then show "64 * unat (amount div 64) + unat (amount mod 64) = unat amount" "unat (amount mod 64) < 64"
    by simp_all
qed

lemma loop_zero: "stored m (fold (\<lambda>i m. wr m dst i 0) [0..<n] m) dst n 0"
  by (rule loop_words [where W = "\<lambda>_. 0"]) (simp_all add: wnum_def)

lemma wide_shl_ok:
  assumes "no_clash dst (nw nb) a (nw nb)"
  shows "stored m (wide_shl dst a amount nb m) dst (nw nb)
    (take_bit (64 * nw nb) (push_bit (unat amount) (mem_val m a (64 * nw nb))))"
proof -
  define n ws bs where "n = nw nb" and "ws = unat (amount div 64)" and "bs = unat (amount mod 64)"
  have am: "unat amount = 64 * ws + bs" and bs: "bs < 64"
    using shift_parts [of amount] by (simp_all add: ws_def bs_def)
  let ?lo = "\<lambda>m i. if 0 \<le> int i - int ws then rd m a (nat (int i - int ws)) else 0"
  let ?hi = "\<lambda>m i. if 0 < int i - int ws then rd m a (nat (int i - int ws) - 1) else 0"
  let ?w = "\<lambda>m i. if bs = 0 then ?lo m i else push_bit bs (?lo m i) OR drop_bit (64 - bs) (?hi m i)"
  show ?thesis
  proof (cases "n \<le> ws")
    case True
    have "take_bit (64 * n) (push_bit (unat amount) (mem_val m a (64 * n))) = 0"
      using True by (intro bit_eqI) (auto simp: bit_simps am)
    then show ?thesis
      using True loop_zero [of m dst n]
      by (simp add: wide_shl_def Let_def ws_def [symmetric] n_def [symmetric])
  next
    case False
    have "stored m (fold (\<lambda>i m. wr m dst i (?w m i)) (rev [0..<n]) m) dst n
      (take_bit (64 * n) (push_bit (unat amount) (mem_val m a (64 * n))))"
    proof (rule loop_down)
      fix i s
      assume i: "i < n" and off: "\<And>x. x \<notin> word_span dst {i<..<n} \<Longrightarrow> s x = m x"
      have rd: "rd s a j = rd m a j" if "j \<le> i" for j
        using rd_after [OF off assms [folded n_def] that] i that by simp
      have "?lo s i = ?lo m i" "?hi s i = ?hi m i"
        by (auto intro!: rd)
      then show "wr s dst i (?w s i) = wr s dst i (?w m i)" by simp
    next
      show "wnum (?w m) n = take_bit (64 * n) (push_bit (unat amount) (mem_val m a (64 * n)))"
      proof (rule bit_eqI)
        fix k
        have k: "64 * (k div 64) + k mod 64 = k" "k mod 64 < 64" for k :: nat by simp_all
        have "bit (wnum (?w m) n) k \<longleftrightarrow> k < 64 * n \<and> (if bs \<le> k mod 64
            then bit (?lo m (k div 64)) (k mod 64 - bs) else bit (?hi m (k div 64)) (64 + k mod 64 - bs))"
          using k(2) bs by (simp only: bit_wnum shl_word_bit)
        also have "\<dots> \<longleftrightarrow> k < 64 * n \<and> 64 * ws + bs \<le> k \<and> mbit m a (k - (64 * ws + bs))"
        proof (cases "bs \<le> k mod 64")
          case True
          have "64 * (k div 64 - ws) + (k mod 64 - bs) = k - (64 * ws + bs)" if "ws \<le> k div 64"
            using True k(1) [of k] that by (simp add: diff_mult_distrib2)
          moreover have "ws \<le> k div 64 \<longleftrightarrow> 64 * ws + bs \<le> k"
            using True k [of k] bs by (intro iffI) linarith+
          ultimately show ?thesis
            using True by (auto simp: bit_rd_mbit nat_diff_distrib)
        next
          case False
          have "64 * (k div 64 - ws - 1) + (64 + k mod 64 - bs) = k - (64 * ws + bs)" if "ws < k div 64"
            using False k [of k] bs that by (simp add: diff_mult_distrib2)
          moreover have "ws < k div 64 \<longleftrightarrow> 64 * ws + bs \<le> k"
            using False k [of k] bs by (intro iffI) linarith+
          ultimately show ?thesis
            using False bs by (auto simp: bit_rd_mbit nat_diff_distrib)
        qed
        also have "\<dots> \<longleftrightarrow> bit (take_bit (64 * n) (push_bit (unat amount) (mem_val m a (64 * n)))) k"
          by (auto simp: bit_simps am)
        finally show "bit (wnum (?w m) n) k
          \<longleftrightarrow> bit (take_bit (64 * n) (push_bit (unat amount) (mem_val m a (64 * n)))) k" .
      qed
    qed
    then show ?thesis
      using False unfolding wide_shl_def Let_def ws_def [symmetric] n_def [symmetric] bs_def [symmetric]
      by simp
  qed
qed

lemma word_index: "64 * (k div 64 + w) + (k mod 64 + b) = k + (64 * w + b)" for k :: nat
proof -
  have "64 * (k div 64 + w) + (k mod 64 + b) = (64 * (k div 64) + k mod 64) + (64 * w + b)"
    by (simp only: add_mult_distrib2 ac_simps)
  then show ?thesis by (simp only: mult_div_mod_eq)
qed

lemma word_index_Suc:
  "64 \<le> k mod 64 + b \<Longrightarrow> 64 * (k div 64 + w + 1) + (k mod 64 + b - 64) = k + (64 * w + b)"
  for k :: nat
proof -
  assume "64 \<le> k mod 64 + b"
  moreover have "64 * (q + w + 1) + (r + b - 64) = 64 * (q + w) + (r + b)" if "64 \<le> r + b" for q r :: nat
    using that by simp
  ultimately show ?thesis
    using word_index by metis
qed

lemma wide_lshr_ok:
  assumes "no_clash dst (nw nb) a (nw nb)"
  shows "stored m (wide_lshr dst a amount nb m) dst (nw nb)
    (drop_bit (unat amount) (mem_val m a (64 * nw nb)))"
proof -
  define n ws bs where "n = nw nb" and "ws = unat (amount div 64)" and "bs = unat (amount mod 64)"
  have am: "unat amount = 64 * ws + bs" and bs: "bs < 64"
    using shift_parts [of amount] by (simp_all add: ws_def bs_def)
  let ?lo = "\<lambda>m i. if i + ws < n then rd m a (i + ws) else 0"
  let ?hi = "\<lambda>m i. if i + ws + 1 < n then rd m a (i + ws + 1) else 0"
  let ?w = "\<lambda>m i. if bs = 0 then ?lo m i else drop_bit bs (?lo m i) OR push_bit (64 - bs) (?hi m i)"
  show ?thesis
  proof (cases "n \<le> ws")
    case True
    have "drop_bit (unat amount) (mem_val m a (64 * n)) = 0"
      using True by (intro bit_eqI) (auto simp: bit_simps am)
    then show ?thesis
      using True loop_zero [of m dst n]
      by (simp add: wide_lshr_def Let_def ws_def [symmetric] n_def [symmetric])
  next
    case False
    have "stored m (fold (\<lambda>i m. wr m dst i (?w m i)) [0..<n] m) dst n
      (drop_bit (unat amount) (mem_val m a (64 * n)))"
    proof (rule loop_words)
      fix i s
      assume i: "i < n" and off: "\<And>x. x \<notin> word_span dst {..<i} \<Longrightarrow> s x = m x"
      have rd: "rd s a j = rd m a j" if "i \<le> j" "j < n" for j
        using rd_before [OF off assms [folded n_def]] i that by simp
      have "?lo s i = ?lo m i" "?hi s i = ?hi m i"
        by (auto intro!: rd)
      then show "wr s dst i (?w s i) = wr s dst i (?w m i)" by simp
    next
      show "wnum (?w m) n = drop_bit (unat amount) (mem_val m a (64 * n))"
      proof (rule bit_eqI)
        fix k
        have k: "64 * (k div 64) + k mod 64 = k" "k mod 64 < 64" for k :: nat by simp_all
        have "bit (wnum (?w m) n) k \<longleftrightarrow> k < 64 * n \<and> (if k mod 64 + bs < 64
            then bit (?lo m (k div 64)) (k mod 64 + bs) else bit (?hi m (k div 64)) (k mod 64 + bs - 64))"
          using k(2) bs by (simp only: bit_wnum lshr_word_bit)
        also have "\<dots> \<longleftrightarrow> k + (64 * ws + bs) < 64 * n \<and> mbit m a (k + (64 * ws + bs))"
        proof (cases "k mod 64 + bs < 64")
          case True
          have "64 * (k div 64 + ws) + (k mod 64 + bs) = k + (64 * ws + bs)"
            by (rule word_index)
          moreover have "k div 64 + ws < n \<longleftrightarrow> k + (64 * ws + bs) < 64 * n"
            using True k [of k] bs by (intro iffI) linarith+
          ultimately show ?thesis
            using True by (auto simp: bit_rd_mbit)
        next
          case False
          have "64 * (k div 64 + ws + 1) + (k mod 64 + bs - 64) = k + (64 * ws + bs)"
            using False by (intro word_index_Suc) simp
          moreover have "k div 64 + ws + 1 < n \<longleftrightarrow> k + (64 * ws + bs) < 64 * n"
            using False k [of k] bs by (intro iffI) linarith+
          ultimately show ?thesis
            using False bs k(2) [of k] by (auto simp: bit_rd_mbit)
        qed
        also have "\<dots> \<longleftrightarrow> bit (drop_bit (unat amount) (mem_val m a (64 * n))) k"
          by (auto simp: bit_drop_bit_eq am add.commute)
        finally show "bit (wnum (?w m) n) k \<longleftrightarrow> bit (drop_bit (unat amount) (mem_val m a (64 * n))) k" .
      qed
    qed
    then show ?thesis
      using False unfolding wide_lshr_def Let_def ws_def [symmetric] n_def [symmetric] bs_def [symmetric]
      by simp
  qed
qed

lemma mbit_wr: "mbit (wr m p i v) p k = (if k div 64 = i then bit v (k mod 64) else mbit m p k)"
  by (simp add: mbit_rd bytes.ld_st bytes.ld_st_other)

text \<open>Setting the bits at some positions of the buffer one by one.\<close>

lemma set_bits_loop:
  assumes "\<forall>k\<in>set ks. k < 64 * n"
  shows "(\<forall>k. mbit (fold (set_mem_bit dst n) ks m) dst k \<longleftrightarrow> k \<in> set ks \<or> mbit m dst k)
    \<and> (\<forall>x. x \<notin> word_span dst {..<n} \<longrightarrow> fold (set_mem_bit dst n) ks m x = m x)"
  using assms
proof (induction ks arbitrary: m)
  case (Cons k ks)
  let ?m = "wr m dst (k div 64) (rd m dst (k div 64) OR push_bit (k mod 64) 1)"
  have "k div 64 < n"
    using Cons.prems by (auto simp: div_less_iff_less_mult mult.commute)
  then have b: "set_mem_bit dst n k m = ?m"
    by (simp add: set_mem_bit_def Let_def)
  have "x \<notin> word_span dst {..<n} \<Longrightarrow> ?m x = m x" for x
    using \<open>k div 64 < n\<close> by (rule wr_outside)
  moreover have "mbit ?m dst j \<longleftrightarrow> j = k \<or> mbit m dst j" for j
  proof -
    have "j = k \<longleftrightarrow> j div 64 = k div 64 \<and> j mod 64 = k mod 64"
      by (metis mult_div_mod_eq)
    then show ?thesis
      unfolding mbit_wr by (auto simp: bit_simps mbit_rd [of m])
  qed
  ultimately show ?case
    using Cons by (auto simp: b)
qed simp

lemma wide_ashr_ok:
  assumes "nb < 65536" "0 < width" "width \<le> 64 * (nb div 8)" "width < 65536"
    and "no_clash dst (nb div 8) a (nb div 8)" "mem_val m a (64 * (nb div 8)) < 2 ^ width"
  shows "stored m (wide_ashr dst a amount (pack_nb_width nb width) m) dst (nb div 8)
    (take_bit width (drop_bit (unat amount) (signed_take_bit (width - 1) (mem_val m a width))))"
proof -
  define n where "n = nb div 8"
  let ?A = "mem_val m a (64 * n)" and ?sign = "mbit m a (width - 1)"
  let ?start = "if width \<le> unat amount then 0 else width - unat amount"
  define m1 where "m1 = wide_lshr dst a amount (of_nat nb) m"
  have n: "nw (of_nat nb) = n" and nb: "nb \<noteq> 0"
    using packed_parts(4) [OF assms(1,4)] assms(2,3) by (auto simp: n_def)
  have top: "\<not> mbit m a k" if "width \<le> k" "k < 64 * n" for k
    using that assms(6) take_bit_int_eq_self [of ?A width]
    by (metis bit_mem_val bit_take_bit_iff mem_val_nonneg n_def not_le)
  have m1: "stored m m1 dst n (drop_bit (unat amount) ?A)"
    using wide_lshr_ok [of dst "of_nat nb" a m amount] assms(5) by (simp add: m1_def n n_def)
  have mb: "mbit m1 dst k \<longleftrightarrow> k + unat amount < 64 * n \<and> mbit m a (k + unat amount)" if "k < 64 * n" for k
  proof -
    have "mem_val m1 dst (64 * n) = drop_bit (unat amount) ?A"
      using m1 by (simp add: stored_def)
    from arg_cong [OF this, of "\<lambda>v. bit v k"] show ?thesis
      using that by (simp add: bit_drop_bit_eq add.commute)
  qed
  have start: "(if ucast (of_nat width :: u32) \<le> amount then 0
      else unat (ucast (of_nat width :: u32) - amount)) = ?start"
  proof -
    have u: "unat (ucast (of_nat width :: u32) :: u64) = width"
      using assms(4) by (simp add: unsigned_ucast_eq unsigned_of_nat take_bit_nat_eq_self)
    show ?thesis
      by (simp add: word_le_nat_alt u unat_sub)
  qed
  have amt: "0 < amount \<longleftrightarrow> 0 < unat amount"
    by (simp add: word_less_nat_alt)
  define m2 where "m2 = (if ?sign \<and> 0 < unat amount
    then fold (set_mem_bit dst n) [?start..<width] m1 else m1)"
  have run: "wide_ashr dst a amount (pack_nb_width nb width) m = m2"
    unfolding wide_ashr_def packed_parts [OF assms(1,4)] Let_def prod.case sign_bit start n_def [symmetric]
      m1_def [symmetric] amt m2_def using assms(2) nb by simp
  have m2: "mbit m2 dst k \<longleftrightarrow> (?sign \<and> 0 < unat amount \<and> ?start \<le> k \<and> k < width) \<or> mbit m1 dst k" for k
    using set_bits_loop [of "[?start..<width]" n dst m1] assms(3) by (auto simp: m2_def n_def)
  have out: "m2 x = m1 x" if "x \<notin> word_span dst {..<n}" for x
    using that set_bits_loop [of "[?start..<width]" n dst m1] assms(3) by (auto simp: m2_def n_def)
  have "mem_val m2 dst (64 * n)
      = take_bit width (drop_bit (unat amount) (signed_take_bit (width - 1) (mem_val m a width)))"
  proof (rule bit_eqI)
    fix k
    have sg: "bit (signed_take_bit (width - 1) (mem_val m a width)) j
        = (if j < width then mbit m a j else ?sign)" for j
      using assms(2) by (cases "j = width - 1") (auto simp: bit_signed_take_bit_iff min_def)
    have start_iff: "?start \<le> k \<longleftrightarrow> width \<le> k + unat amount"
      by auto
    have width: "width \<le> 64 * n"
      using assms(3) by (simp add: n_def)
    show "bit (mem_val m2 dst (64 * n)) k
      = bit (take_bit width (drop_bit (unat amount) (signed_take_bit (width - 1) (mem_val m a width)))) k"
    proof (cases "k < width")
      case True
      then have "mbit m1 dst k \<longleftrightarrow> k + unat amount < 64 * n \<and> mbit m a (k + unat amount)"
        using width by (intro mb) simp
      then show ?thesis
        using True width top [of "k + unat amount"]
        unfolding bit_mem_val m2 start_iff bit_take_bit_iff bit_drop_bit_eq o_def add.commute [of "unat amount"] sg
        by auto
    next
      case False
      then have "\<not> (k < 64 * n \<and> mbit m1 dst k)"
        using mb [of k] top [of "k + unat amount"] by auto
      then show ?thesis
        using False unfolding bit_mem_val m2 bit_take_bit_iff by blast
    qed
  qed
  then show ?thesis
    using m1 out unfolding run n_def [symmetric] by (simp add: stored_alt mem_val_words)
qed

subsection \<open>Masks\<close>

lemma fold_wr:
  "rd (fold (\<lambda>i m. wr m dst i v) js m) dst j = (if j \<in> set js then v else rd m dst j)"
  by (induction js arbitrary: m) (auto simp: bytes.ld_st bytes.ld_st_other)

lemma fold_wr_outside:
  "\<forall>j\<in>set js. j < n \<Longrightarrow> x \<notin> word_span dst {..<n} \<Longrightarrow> fold (\<lambda>i m. wr m dst i v) js m x = m x"
  by (induction js arbitrary: m) (auto simp: wr_outside)

lemma rd_wr: "rd (wr m p i v) p j = (if i = j then v else rd m p j)"
  by (simp add: bytes.ld_st bytes.ld_st_other)

lemma below_width:
  "j < width \<longleftrightarrow> j div 64 < width div 64 \<or> j div 64 = width div 64 \<and> j mod 64 < width mod 64" for j width :: nat
proof -
  have "j = 64 * (j div 64) + j mod 64" "width = 64 * (width div 64) + width mod 64"
    "j mod 64 < 64" "width mod 64 < 64" by simp_all
  moreover have "a < b \<longleftrightarrow> q < s \<or> q = s \<and> r < t"
    if "a = 64 * q + r" "b = 64 * s + t" "r < 64" "t < 64" for a b q r s t :: nat
    using that by auto
  ultimately show ?thesis by blast
qed

lemma storedI_bits:
  assumes "\<And>j. j < 64 * n \<Longrightarrow> bit (rd m' p (j div 64)) (j mod 64) = bit v j" "take_bit (64 * n) v = v"
    and "\<And>x. x \<notin> word_span p {..<n} \<Longrightarrow> m' x = m x"
  shows "stored m m' p n v"
proof -
  have "wnum (rd m' p) n = take_bit (64 * n) v"
    by (rule bit_eqI) (auto simp: bit_wnum bit_take_bit_iff assms(1))
  then show ?thesis using assms(2,3) by (simp add: stored_alt)
qed

lemma wide_apply_mask_ok:
  assumes "nb < 65536" "0 < width" "width < 65536"
  shows "stored m (wide_apply_mask dst (pack_nb_width nb width) m) dst (nb div 8)
    (take_bit width (mem_val m dst (64 * (nb div 8))))"
proof (cases "nb = 0")
  case True
  then show ?thesis
    using assms by (simp add: wide_apply_mask_def packed_parts stored_def mem_val_def)
next
  case False
  define n fw r where "n = nb div 8" and "fw = width div 64" and "r = width mod 64"
  define m1 where "m1 = (if 0 < r \<and> fw < n then wr m dst fw (rd m dst fw AND mask r) else m)"
  define m2 where "m2 = fold (\<lambda>i m. wr m dst i 0) [fw + (if 0 < r then 1 else 0)..<n] m1"
  have run: "wide_apply_mask dst (pack_nb_width nb width) m = m2"
    unfolding wide_apply_mask_def packed_parts [OF assms(1,3)] Let_def prod.case low_mask m2_def m1_def
      n_def fw_def r_def using False assms(2) by simp
  show ?thesis
    unfolding run n_def [symmetric]
  proof (rule storedI_bits)
    show "bit (rd m2 dst (j div 64)) (j mod 64) = bit (take_bit width (mem_val m dst (64 * n))) j"
      if "j < 64 * n" for j
    proof -
      have "j div 64 < n" using that by (simp add: less_mult_imp_div_less mult.commute)
      then show ?thesis
        using that unfolding m2_def fold_wr m1_def bit_take_bit_iff below_width [of j width] fw_def [symmetric]
          r_def [symmetric]
        by (auto simp: rd_wr bit_simps mbit_rd)
    qed
    show "m2 x = m x" if "x \<notin> word_span dst {..<n}" for x
      using that unfolding m2_def by (subst fold_wr_outside [where n = n]) (auto simp: m1_def wr_outside)
  qed (simp add: take_bit_mem_val min.left_commute)
qed

lemma wide_fill_ones_ok:
  assumes "nb < 65536" "width < 65536"
  shows "stored m (wide_fill_ones dst (pack_nb_width nb width) m) dst (nb div 8)
    (mask (min width (64 * (nb div 8))))"
proof (cases "nb = 0")
  case True
  then show ?thesis
    using assms by (simp add: wide_fill_ones_def packed_parts stored_def mem_val_def)
next
  case False
  define n fw r where "n = nb div 8" and "fw = width div 64" and "r = width mod 64"
  define m1 where "m1 = fold (\<lambda>i m. wr m dst i (- 1)) [0..<min fw n] m"
  define m2 where "m2 = (if 0 < r \<and> fw < n then wr m1 dst fw (mask r) else m1)"
  define m3 where "m3 = fold (\<lambda>i m. wr m dst i 0) [fw + (if 0 < r then 1 else 0)..<n] m2"
  have run: "wide_fill_ones dst (pack_nb_width nb width) m = m3"
    unfolding wide_fill_ones_def packed_parts [OF assms] Let_def prod.case low_mask m3_def m2_def m1_def
      n_def fw_def r_def using False by simp
  show ?thesis
    unfolding run n_def [symmetric]
  proof (rule storedI_bits)
    show "bit (rd m3 dst (j div 64)) (j mod 64) = bit (mask (min width (64 * n)) :: int) j"
      if "j < 64 * n" for j
    proof -
      have n: "j div 64 < n" using that by (simp add: less_mult_imp_div_less mult.commute)
      have "bit (mask (min width (64 * n)) :: int) j \<longleftrightarrow> j < width"
        using that by (auto simp: bit_simps)
      then show ?thesis
        using n unfolding m3_def fold_wr m2_def m1_def below_width [of j width] fw_def [symmetric]
          r_def [symmetric]
        by (auto simp: rd_wr fold_wr bit_simps)
    qed
    show "m3 x = m x" if "x \<notin> word_span dst {..<n}" for x
    proof -
      have "m1 x = m x"
        unfolding m1_def using that by (intro fold_wr_outside [where n = n]) auto
      then show ?thesis
        using that unfolding m3_def by (subst fold_wr_outside [where n = n]) (auto simp: m2_def wr_outside)
    qed
  qed simp
qed

subsection \<open>What the helpers compute\<close>

lemma mem_val_zeros: "mem_val (\<lambda>_. 0) p w = 0"
  by (rule bit_eqI) (simp add: mbit_def)

text \<open>
  Equality, inequality and the unsigned comparison decide the relation between the numbers
  in the two buffers; the comparison that starts at the top word is the sign of the difference.
\<close>

theorem wide_unsigned_compare_correct:
  fixes nb :: u32
  defines "n \<equiv> nw nb"
  shows "wide_eq a b nb m = of_bool (mem_val m a (64 * n) = mem_val m b (64 * n))
    \<and> wide_ne a b nb m = of_bool (mem_val m a (64 * n) \<noteq> mem_val m b (64 * n))
    \<and> wide_ucmp a b nb m = sgn (mem_val m a (64 * n) - mem_val m b (64 * n))"
  unfolding n_def by (intro conjI wide_eq_ok wide_ne_ok wide_ucmp_ok)

text \<open>
  C16: The signed comparison of two values of a common width, zero above it, is the sign of the
  difference of their two's complement readings; the asymmetric one reads each operand at its
  own width, whatever its buffer holds above it.
\<close>

theorem wide_signed_compare_correct:
  assumes "a_nb < 65536" "a_w < 65536" "b_nb < 65536" "b_w < 65536"
    and "0 < a_w" "0 < b_w" "a_w \<le> 64 * (a_nb div 8)" "b_w \<le> 64 * (b_nb div 8)"
  shows "wide_scmp_asym a b (pack_nb_width a_nb a_w) (pack_nb_width b_nb b_w) m
      = sgn (signed_take_bit (a_w - 1) (mem_val m a a_w) - signed_take_bit (b_w - 1) (mem_val m b b_w))
    \<and> (mem_val m a (64 * (a_nb div 8)) < 2 ^ a_w \<longrightarrow> mem_val m b (64 * (a_nb div 8)) < 2 ^ a_w \<longrightarrow>
      wide_scmp a b (pack_nb_width a_nb a_w) m
      = sgn (signed_take_bit (a_w - 1) (mem_val m a a_w) - signed_take_bit (a_w - 1) (mem_val m b a_w)))"
  using wide_scmp_asym_ok [OF assms] wide_scmp_ok [OF assms(1,5,7,2)] by blast

lemma wide_signed_compare_correct_witness:
  "wide_scmp_asym 0 24 (pack_nb_width 24 130) (pack_nb_width 16 70) (\<lambda>_. - 1) = 0
    \<and> wide_scmp 0 24 (pack_nb_width 24 130) (\<lambda>_. 0) = 0"
  using wide_signed_compare_correct [of 24 130 16 70 0 24 "\<lambda>_. - 1"]
    wide_signed_compare_correct [of 24 130 24 130 0 24 "\<lambda>_. 0"]
  by (simp add: mem_val_ones mem_val_zeros mask_eq_exp_minus_1)

text \<open>
  C17: The shifts of wide values: left cut to the buffer, logical right, and arithmetic right of
  a value of \<open>width\<close> bits by its sign bit, for every 64-bit amount and also in place.
\<close>

theorem wide_shift_correct:
  assumes "nb < 65536" "0 < width" "width \<le> 64 * (nb div 8)" "width < 65536"
    and "no_clash dst (nb div 8) a (nb div 8)"
  shows "stored m (wide_shl dst a amount (of_nat nb) m) dst (nb div 8)
      (mem_val m a (64 * (nb div 8)) * 2 ^ unat amount mod 2 ^ (64 * (nb div 8)))
    \<and> stored m (wide_lshr dst a amount (of_nat nb) m) dst (nb div 8)
      (mem_val m a (64 * (nb div 8)) div 2 ^ unat amount)
    \<and> (mem_val m a (64 * (nb div 8)) < 2 ^ width \<longrightarrow>
      stored m (wide_ashr dst a amount (pack_nb_width nb width) m) dst (nb div 8)
      (signed_take_bit (width - 1) (mem_val m a width) div 2 ^ unat amount mod 2 ^ width))"
  unfolding push_bit_eq_mult [symmetric] drop_bit_eq_div [symmetric] take_bit_eq_mod [symmetric]
  using wide_shl_ok [of dst "of_nat nb" a] wide_lshr_ok [of dst "of_nat nb" a]
    wide_ashr_ok [OF assms(1-5)] assms(5)
  by (simp only: packed_parts(4) [OF assms(1,4)]) blast

lemma wide_shift_correct_witness:
  "mem_val (wide_shl 0 0 70 24 (\<lambda>_. - 1)) 0 192 = 2 ^ 192 - 2 ^ 70"
  using wide_shift_correct [of 24 192 0 0 "\<lambda>_. - 1" 70]
  by (simp add: no_clash_def stored_def mem_val_ones mask_eq_exp_minus_1)

text \<open>
  The reductions of a wide value: not zero, all ones in its low \<open>width\<close> bits, and the parity
  of its set bits.
\<close>

theorem wide_reduce_correct:
  assumes "nb < 65536" "width < 65536"
  shows "wide_is_nonzero a (of_nat nb) m = of_bool (mem_val m a (64 * (nb div 8)) \<noteq> 0)
    \<and> wide_is_all_ones a (pack_nb_width nb width) m = of_bool (mem_val m a width = mask width)
    \<and> wide_popcnt_parity a (of_nat nb) m
      = of_bool (odd (card {k. k < 64 * (nb div 8) \<and> bit (mem_val m a (64 * (nb div 8))) k}))"
  using wide_is_nonzero_ok [of a "of_nat nb" m] wide_is_all_ones_ok [OF assms, of a m]
    wide_popcnt_parity_ok [of a "of_nat nb" m]
  by (simp add: packed_parts(4) [OF assms] cong: conj_cong)

lemma wide_reduce_correct_witness: "wide_is_all_ones 0 (pack_nb_width 24 130) (\<lambda>_. - 1) = 1"
  using wide_reduce_correct [of 24 130 0 "\<lambda>_. - 1"] by (simp add: mem_val_ones)

text \<open>
  Masking clears the bits at and above a positive width and filling sets exactly the bits
  below it, within the buffer.
\<close>

theorem wide_mask_correct:
  assumes "nb < 65536" "0 < width" "width < 65536"
  shows "stored m (wide_apply_mask dst (pack_nb_width nb width) m) dst (nb div 8)
      (take_bit width (mem_val m dst (64 * (nb div 8))))
    \<and> stored m (wide_fill_ones dst (pack_nb_width nb width) m) dst (nb div 8)
      (mask (min width (64 * (nb div 8))))"
  using wide_apply_mask_ok [OF assms] wide_fill_ones_ok [OF assms(1,3)] by (rule conjI)

lemma wide_mask_correct_witness:
  "mem_val (wide_apply_mask 0 (pack_nb_width 24 130) (\<lambda>_. - 1)) 0 192 = mask 130"
  using wide_mask_correct [of 24 130 "\<lambda>_. - 1" 0] by (simp add: stored_def mem_val_ones)

end
