(* ===== verification/Write_Log.thy ===== *)
theory Write_Log
  imports Word_Memory
begin

section \<open>The write log of flip-flop updates\<close>

text \<open>
  \<open>src/crates/simulator/src/ir/write_log.rs\<close>: every flip-flop write of a cycle is an entry of
  one of two growable pools, and the commit at the end of the cycle applies the narrow entries
  and then the wide ones to the bytes of the current values, each pool in insertion order.
  A pool is the boxed slice the source owns, of the length of its capacity, with the number of
  live entries beside it.  A pool cannot reach \<open>2 ^ 32\<close> entries (it would take 64 GB), so the
  counts are numbers; the offsets keep their 32 bits.  The thread-local pointer to the
  active log and the fields only emitted code reads (\<open>df_dirty\<close>, the function pointers) are
  left out.
\<close>

type_synonym u16 = "16 word"

type_synonym byte = "8 word"

subsection \<open>Entries and pools\<close>

record write_log_entry =
  ne_offset :: u32
  ne_mask_xz :: u16
  ne_width_class :: u16
  ne_payload :: u64

record write_log_wide_entry =
  we_offset :: u32
  we_native_bytes :: byte
  we_payload :: "byte list"

record write_log_buffer =
  narrow_entries :: "write_log_entry list"
  narrow_count :: nat
  narrow_capacity :: nat
  wide_entries :: "write_log_wide_entry list"
  wide_count :: nat
  wide_capacity :: nat

definition default_narrow :: write_log_entry where
  "default_narrow = \<lparr>ne_offset = 0, ne_mask_xz = 0, ne_width_class = 0, ne_payload = 0\<rparr>"

definition default_wide :: write_log_wide_entry where
  "default_wide = \<lparr>we_offset = 0, we_native_bytes = 0, we_payload = replicate 56 0\<rparr>"

definition with_capacity :: "nat \<Rightarrow> nat \<Rightarrow> write_log_buffer" where
  "with_capacity narrow_cap wide_cap = \<lparr>
    narrow_entries = replicate narrow_cap default_narrow, narrow_count = 0,
    narrow_capacity = narrow_cap,
    wide_entries = replicate wide_cap default_wide, wide_count = 0,
    wide_capacity = wide_cap\<rparr>"

definition next_power_of_two :: "nat \<Rightarrow> nat" where
  "next_power_of_two n = (if n \<le> 1 then 1 else 2 ^ bit_width (n - 1))"

definition grow_narrow_to :: "nat \<Rightarrow> write_log_buffer \<Rightarrow> write_log_buffer" where
  "grow_narrow_to min_cap buf = (
    let new_cap = max (next_power_of_two min_cap) 4096;
        narrow = replicate new_cap default_narrow;
        live = narrow_count buf in
    buf\<lparr>narrow_entries := take live (narrow_entries buf) @ drop live narrow,
        narrow_capacity := new_cap\<rparr>)"

definition grow_wide_to :: "nat \<Rightarrow> write_log_buffer \<Rightarrow> write_log_buffer" where
  "grow_wide_to min_cap buf = (
    let new_cap = max (next_power_of_two min_cap) 64;
        wide = replicate new_cap default_wide;
        live = wide_count buf in
    buf\<lparr>wide_entries := take live (wide_entries buf) @ drop live wide,
        wide_capacity := new_cap\<rparr>)"

definition reserve_narrow :: "nat \<Rightarrow> write_log_buffer \<Rightarrow> write_log_buffer" where
  "reserve_narrow extra buf = (
    let needed = narrow_count buf + extra in
    if narrow_capacity buf < needed then grow_narrow_to needed buf else buf)"

definition reserve_wide :: "nat \<Rightarrow> write_log_buffer \<Rightarrow> write_log_buffer" where
  "reserve_wide extra buf = (
    let needed = wide_count buf + extra in
    if wide_capacity buf < needed then grow_wide_to needed buf else buf)"

definition write_log_reserve :: "nat \<Rightarrow> nat \<Rightarrow> write_log_buffer \<Rightarrow> write_log_buffer" where
  "write_log_reserve narrow wide buf = reserve_wide wide (reserve_narrow narrow buf)"

definition push_narrow :: "u32 \<Rightarrow> u64 \<Rightarrow> u16 \<Rightarrow> write_log_buffer \<Rightarrow> write_log_buffer" where
  "push_narrow off v wc buf = (
    let buf = (if narrow_capacity buf \<le> narrow_count buf
          then grow_narrow_to (narrow_capacity buf + 1) buf else buf);
        idx = narrow_count buf in
    buf\<lparr>narrow_entries := (narrow_entries buf)[idx :=
          \<lparr>ne_offset = off, ne_mask_xz = 0, ne_width_class = wc, ne_payload = v\<rparr>],
        narrow_count := idx + 1\<rparr>)"

text \<open>The bytes at the payload pointer are the list \<open>bs\<close>, of at most 56 bytes.\<close>

definition push_wide :: "u32 \<Rightarrow> byte list \<Rightarrow> write_log_buffer \<Rightarrow> write_log_buffer" where
  "push_wide off bs buf = (
    let buf = (if wide_capacity buf \<le> wide_count buf
          then grow_wide_to (wide_capacity buf + 1) buf else buf);
        idx = wide_count buf in
    buf\<lparr>wide_entries := (wide_entries buf)[idx :=
          \<lparr>we_offset = off, we_native_bytes = of_nat (length bs),
           we_payload = bs @ replicate (56 - length bs) 0\<rparr>],
        wide_count := idx + 1\<rparr>)"

function push_wide_from :: "u32 \<Rightarrow> byte list \<Rightarrow> nat \<Rightarrow> write_log_buffer \<Rightarrow> write_log_buffer" where
  "push_wide_from off bs d buf = (
    if d < length bs then
      let chunk = min (length bs - d) 56 in
      push_wide_from off bs (d + chunk) (push_wide (off + of_nat d) (take chunk (drop d bs)) buf)
    else buf)"
  by pat_completeness auto
termination push_wide_from
  by (relation "measure (\<lambda>(_, bs, d, _). length bs - d)") auto

definition push_wide_range :: "u32 \<Rightarrow> byte list \<Rightarrow> write_log_buffer \<Rightarrow> write_log_buffer" where
  "push_wide_range off bs buf = push_wide_from off bs 0 buf"

definition reset :: "write_log_buffer \<Rightarrow> write_log_buffer" where
  "reset buf = buf\<lparr>narrow_count := 0, wide_count := 0\<rparr>"

definition log_count :: "write_log_buffer \<Rightarrow> nat" where
  "log_count buf = narrow_count buf + wide_count buf"

definition is_empty :: "write_log_buffer \<Rightarrow> bool" where
  "is_empty buf \<longleftrightarrow> narrow_count buf = 0 \<and> wide_count buf = 0"

subsection \<open>The commit\<close>

definition get_bytes :: "byte list \<Rightarrow> nat \<Rightarrow> nat \<Rightarrow> byte list" where
  "get_bytes ff off n = take n (drop off ff)"

definition put_bytes :: "byte list \<Rightarrow> nat \<Rightarrow> byte list \<Rightarrow> byte list" where
  "put_bytes ff off bs = take off ff @ bs @ drop (off + length bs) ff"

text \<open>
  A typed store compares (when marking) and writes as many bytes as its type has; a pair of
  stores covers a size that is no power of two by two overlapping ones.  The second component
  is the sequence of calls to \<open>changed\<close>.
\<close>

type_synonym commit_state = "byte list \<times> (nat \<times> nat) list"

definition store_one :: "bool \<Rightarrow> nat \<Rightarrow> nat \<Rightarrow> byte list \<Rightarrow> commit_state \<Rightarrow> commit_state" where
  "store_one marking nb off v = (\<lambda>(ff, changed).
    (put_bytes ff off v,
     if marking \<and> get_bytes ff off (length v) \<noteq> v then changed @ [(off, nb)] else changed))"

definition store_pair :: "bool \<Rightarrow> nat \<Rightarrow> nat \<Rightarrow> byte list \<Rightarrow> nat \<Rightarrow> commit_state \<Rightarrow> commit_state" where
  "store_pair marking nb off s w = (\<lambda>(ff, changed).
    let tail = nb - w; lo = take w s; hi = take w (drop tail s) in
    (put_bytes (put_bytes ff off lo) (off + tail) hi,
     if marking \<and> (get_bytes ff off w \<noteq> lo \<or> get_bytes ff (off + tail) w \<noteq> hi)
     then changed @ [(off, nb)] else changed))"

definition commit_narrow :: "bool \<Rightarrow> write_log_entry \<Rightarrow> commit_state \<Rightarrow> commit_state" where
  "commit_narrow marking entry st = (
    let nb = unat (ne_width_class entry); off = unat (ne_offset entry) in
    if length (fst st) < off + nb then st
    else if nb = 8 \<or> nb = 4 \<or> nb = 2 \<or> nb = 1
      then store_one marking nb off (take nb (to_le_bytes (ne_payload entry))) st
    else st)"

definition commit_wide :: "bool \<Rightarrow> write_log_wide_entry \<Rightarrow> commit_state \<Rightarrow> commit_state" where
  "commit_wide marking entry st = (
    let nb = unat (we_native_bytes entry); off = unat (we_offset entry); s = we_payload entry in
    if nb = 0 \<or> 56 < nb \<or> length (fst st) < off + nb then st
    else if 16 < nb then store_one marking nb off (take nb s) st
    else if nb = 1 \<or> nb = 2 \<or> nb = 4 \<or> nb = 8 then store_one marking nb off (take nb s) st
    else if nb = 3 then store_pair marking nb off s 2 st
    else if 5 \<le> nb \<and> nb \<le> 7 then store_pair marking nb off s 4 st
    else store_pair marking nb off s 8 st)"

definition commit_from_log_impl :: "bool \<Rightarrow> byte list \<Rightarrow> write_log_buffer \<Rightarrow> commit_state" where
  "commit_from_log_impl marking ff buf =
    fold (commit_wide marking) (take (wide_count buf) (wide_entries buf))
      (fold (commit_narrow marking) (take (narrow_count buf) (narrow_entries buf)) (ff, []))"

definition ff_commit_from_log :: "byte list \<Rightarrow> write_log_buffer \<Rightarrow> byte list" where
  "ff_commit_from_log ff buf = fst (commit_from_log_impl False ff buf)"

definition ff_commit_from_log_marking :: "byte list \<Rightarrow> write_log_buffer \<Rightarrow> commit_state" where
  "ff_commit_from_log_marking ff buf = commit_from_log_impl True ff buf"

subsection \<open>Byte windows of a field\<close>

definition static_field_byte_span :: "nat \<Rightarrow> nat \<Rightarrow> nat \<Rightarrow> (nat \<times> nat) option" where
  "static_field_byte_span hi lo nb = (
    if hi < lo then None
    else
      let blo = lo div 8; bhi = hi div 8 in
      if nb \<le> bhi then None else Some (blo, bhi - blo + 1))"

text \<open>The loop doubles \<open>w\<close> from 1 while \<open>w \<le> 8\<close>; \<open>blo & !(w - 1)\<close> rounds down to a multiple.\<close>

fun window_loop :: "nat \<Rightarrow> nat \<Rightarrow> nat \<Rightarrow> nat list \<Rightarrow> (nat \<times> nat) option" where
  "window_loop blo bhi nb [] = None"
| "window_loop blo bhi nb (w # ws) = (
    let start = blo - blo mod w in
    if bhi < start + w \<and> start + w \<le> nb then Some (start, w) else window_loop blo bhi nb ws)"

definition log_window_for_span :: "nat \<Rightarrow> nat \<Rightarrow> nat \<Rightarrow> (nat \<times> nat) option" where
  "log_window_for_span blo bhi nb = (
    if bhi < blo \<or> nb \<le> bhi then None else window_loop blo bhi nb [1, 2, 4, 8])"

subsection \<open>Pools keep their live entries\<close>

definition live_narrow :: "write_log_buffer \<Rightarrow> write_log_entry list" where
  "live_narrow buf = take (narrow_count buf) (narrow_entries buf)"

definition live_wide :: "write_log_buffer \<Rightarrow> write_log_wide_entry list" where
  "live_wide buf = take (wide_count buf) (wide_entries buf)"

definition log_ok :: "write_log_buffer \<Rightarrow> bool" where
  "log_ok buf \<longleftrightarrow> length (narrow_entries buf) = narrow_capacity buf
    \<and> narrow_count buf \<le> narrow_capacity buf
    \<and> length (wide_entries buf) = wide_capacity buf \<and> wide_count buf \<le> wide_capacity buf
    \<and> (\<forall>e\<in>set (live_wide buf). length (we_payload e) = 56)"

lemma next_power_of_two_ge: "n \<le> next_power_of_two n"
  using less_two_power_bit_width [of "n - 1"] by (auto simp: next_power_of_two_def)

lemma grow_narrow_ok:
  assumes "log_ok buf" "narrow_count buf \<le> min_cap"
  shows "log_ok (grow_narrow_to min_cap buf)" "min_cap \<le> narrow_capacity (grow_narrow_to min_cap buf)"
    "live_narrow (grow_narrow_to min_cap buf) = live_narrow buf"
    "live_wide (grow_narrow_to min_cap buf) = live_wide buf"
    "narrow_count (grow_narrow_to min_cap buf) = narrow_count buf"
  using assms next_power_of_two_ge [of min_cap]
  by (auto simp: log_ok_def grow_narrow_to_def Let_def live_narrow_def live_wide_def max_def)

lemma grow_wide_ok:
  assumes "log_ok buf" "wide_count buf \<le> min_cap"
  shows "log_ok (grow_wide_to min_cap buf)" "min_cap \<le> wide_capacity (grow_wide_to min_cap buf)"
    "live_wide (grow_wide_to min_cap buf) = live_wide buf"
    "live_narrow (grow_wide_to min_cap buf) = live_narrow buf"
    "wide_count (grow_wide_to min_cap buf) = wide_count buf"
  using assms next_power_of_two_ge [of min_cap]
  by (auto simp: log_ok_def grow_wide_to_def Let_def live_narrow_def live_wide_def max_def)

lemma reserve_ok:
  assumes "log_ok buf"
  shows "log_ok (write_log_reserve n w buf)"
    "live_narrow (write_log_reserve n w buf) = live_narrow buf"
    "live_wide (write_log_reserve n w buf) = live_wide buf"
    "narrow_count buf + n \<le> narrow_capacity (write_log_reserve n w buf)"
    "wide_count buf + w \<le> wide_capacity (write_log_reserve n w buf)"
  using assms grow_narrow_ok [OF assms, of "narrow_count buf + n"]
    grow_wide_ok [OF assms, of "wide_count buf + w"]
    grow_wide_ok [of "grow_narrow_to (narrow_count buf + n) buf" "wide_count buf + w"]
  by (auto simp: write_log_reserve_def reserve_narrow_def reserve_wide_def Let_def
      grow_narrow_to_def grow_wide_to_def)

lemma push_narrow_ok:
  assumes "log_ok buf"
  shows "log_ok (push_narrow off v wc buf)"
    "live_narrow (push_narrow off v wc buf) = live_narrow buf @
      [\<lparr>ne_offset = off, ne_mask_xz = 0, ne_width_class = wc, ne_payload = v\<rparr>]"
    "live_wide (push_narrow off v wc buf) = live_wide buf"
proof -
  define buf' where "buf' = (if narrow_capacity buf \<le> narrow_count buf
    then grow_narrow_to (narrow_capacity buf + 1) buf else buf)"
  have "narrow_count buf \<le> narrow_capacity buf" using assms by (simp add: log_ok_def)
  then have b: "log_ok buf'" "narrow_count buf' < narrow_capacity buf'"
    "live_narrow buf' = live_narrow buf" "live_wide buf' = live_wide buf"
    using grow_narrow_ok [OF assms, of "narrow_capacity buf + 1"] assms by (auto simp: buf'_def)
  show "log_ok (push_narrow off v wc buf)" "live_narrow (push_narrow off v wc buf) = live_narrow buf @
      [\<lparr>ne_offset = off, ne_mask_xz = 0, ne_width_class = wc, ne_payload = v\<rparr>]"
    "live_wide (push_narrow off v wc buf) = live_wide buf"
    using b unfolding push_narrow_def buf'_def [symmetric] Let_def
    by (auto simp: log_ok_def live_narrow_def live_wide_def take_Suc_conv_app_nth)
qed

lemma push_wide_ok:
  assumes "log_ok buf" "length bs \<le> 56"
  shows "log_ok (push_wide off bs buf)"
    "live_wide (push_wide off bs buf) = live_wide buf @
      [\<lparr>we_offset = off, we_native_bytes = of_nat (length bs),
        we_payload = bs @ replicate (56 - length bs) 0\<rparr>]"
    "live_narrow (push_wide off bs buf) = live_narrow buf"
proof -
  define buf' where "buf' = (if wide_capacity buf \<le> wide_count buf
    then grow_wide_to (wide_capacity buf + 1) buf else buf)"
  have "wide_count buf \<le> wide_capacity buf" using assms by (simp add: log_ok_def)
  then have b: "log_ok buf'" "wide_count buf' < wide_capacity buf'"
    "live_narrow buf' = live_narrow buf" "live_wide buf' = live_wide buf"
    using grow_wide_ok [OF assms(1), of "wide_capacity buf + 1"] assms by (auto simp: buf'_def)
  show "log_ok (push_wide off bs buf)" "live_wide (push_wide off bs buf) = live_wide buf @
      [\<lparr>we_offset = off, we_native_bytes = of_nat (length bs),
        we_payload = bs @ replicate (56 - length bs) 0\<rparr>]"
    "live_narrow (push_wide off bs buf) = live_narrow buf"
    using b assms(2) unfolding push_wide_def buf'_def [symmetric] Let_def
    by (auto simp: log_ok_def live_narrow_def live_wide_def take_Suc_conv_app_nth)
qed

end
