(* ===== verification/Commit_Log.thy ===== *)
theory Commit_Log
  imports Write_Log
begin

section \<open>What committing the write log does\<close>

text \<open>
  The commit of \<open>write_log.rs\<close> against an abstract one: every live entry is a write of some
  bytes at an offset, skipped when it does not fit, and the writes are applied in order.  The
  typed stores and the overlapping pairs of stores are refinements of one byte-range write, the
  last write to a byte wins, and the marking commit reports every byte that changes.
\<close>

subsection \<open>Byte ranges\<close>

lemma length_put_bytes [simp]: "off + length bs \<le> length ff \<Longrightarrow> length (put_bytes ff off bs) = length ff"
  by (simp add: put_bytes_def)

lemma length_get_bytes [simp]: "off + n \<le> length ff \<Longrightarrow> length (get_bytes ff off n) = n"
  by (simp add: get_bytes_def)

lemma nth_get_bytes [simp]: "off + n \<le> length ff \<Longrightarrow> i < n \<Longrightarrow> get_bytes ff off n ! i = ff ! (off + i)"
  by (simp add: get_bytes_def)

lemma nth_put_bytes:
  "off + length bs \<le> length ff \<Longrightarrow> x < length ff
   \<Longrightarrow> put_bytes ff off bs ! x = (if off \<le> x \<and> x < off + length bs then bs ! (x - off) else ff ! x)"
  by (auto simp: put_bytes_def nth_append)

lemma put_get_bytes: "off + n \<le> length ff \<Longrightarrow> get_bytes ff off n = bs \<Longrightarrow> put_bytes ff off bs = ff"
  by (rule nth_equalityI) (auto simp: nth_put_bytes)

lemma put_put_bytes_append:
  assumes "off + length xs + length ys \<le> length ff"
  shows "put_bytes (put_bytes ff off xs) (off + length xs) ys = put_bytes ff off (xs @ ys)"
  using assms by (intro nth_equalityI) (auto simp: nth_put_bytes nth_append)

text \<open>Two overlapping stores of the low and the high bytes write the whole range.\<close>

lemma put_pair:
  assumes "off + nb \<le> length ff" "w \<le> nb" "nb \<le> 2 * w" "nb \<le> length s"
  shows "put_bytes (put_bytes ff off (take w s)) (off + (nb - w)) (take w (drop (nb - w) s))
    = put_bytes ff off (take nb s)"
  using assms by (intro nth_equalityI) (auto simp: nth_put_bytes)

lemma get_pair:
  assumes "off + nb \<le> length ff" "w \<le> nb" "nb \<le> 2 * w" "nb \<le> length s"
  shows "get_bytes ff off w = take w s \<and> get_bytes ff (off + (nb - w)) w = take w (drop (nb - w) s)
    \<longleftrightarrow> get_bytes ff off nb = take nb s"
proof
  assume *: "get_bytes ff off w = take w s \<and> get_bytes ff (off + (nb - w)) w = take w (drop (nb - w) s)"
  show "get_bytes ff off nb = take nb s"
  proof (rule nth_equalityI)
    fix i
    assume "i < length (get_bytes ff off nb)"
    then have i: "i < nb" using assms by simp
    show "get_bytes ff off nb ! i = take nb s ! i"
    proof (cases "i < w")
      case True
      then show ?thesis
        using i assms arg_cong [OF conjunct1 [OF *], of "\<lambda>bs. bs ! i"] by simp
    next
      case False
      then show ?thesis
        using i assms arg_cong [OF conjunct2 [OF *], of "\<lambda>bs. bs ! (i - (nb - w))"] by simp
    qed
  qed (use assms in simp)
next
  assume *: "get_bytes ff off nb = take nb s"
  have nth: "ff ! (off + i) = s ! i" if "i < nb" for i
    using that assms arg_cong [OF *, of "\<lambda>bs. bs ! i"] by simp
  have "get_bytes ff off w = take w s"
    using assms nth by (intro nth_equalityI) auto
  moreover have "get_bytes ff (off + (nb - w)) w = take w (drop (nb - w) s)"
  proof (rule nth_equalityI)
    fix i
    assume "i < length (get_bytes ff (off + (nb - w)) w)"
    then have "i < w" using assms by simp
    then show "get_bytes ff (off + (nb - w)) w ! i = take w (drop (nb - w) s) ! i"
      using assms nth [of "nb - w + i"] by (simp add: add.assoc)
  qed (use assms in simp)
  ultimately show "get_bytes ff off w = take w s \<and> get_bytes ff (off + (nb - w)) w = take w (drop (nb - w) s)"
    by (rule conjI)
qed

subsection \<open>The abstract commit\<close>

type_synonym log_write = "nat \<times> byte list"

definition fits :: "byte list \<Rightarrow> log_write \<Rightarrow> bool" where
  "fits ff w \<longleftrightarrow> fst w + length (snd w) \<le> length ff"

definition apply_write :: "log_write \<Rightarrow> byte list \<Rightarrow> byte list" where
  "apply_write w ff = (if fits ff w then put_bytes ff (fst w) (snd w) else ff)"

definition changes :: "byte list \<Rightarrow> log_write \<Rightarrow> bool" where
  "changes ff w \<longleftrightarrow> fits ff w \<and> get_bytes ff (fst w) (length (snd w)) \<noteq> snd w"

fun changed_by :: "log_write list \<Rightarrow> byte list \<Rightarrow> (nat \<times> nat) list" where
  "changed_by [] ff = []"
| "changed_by (w # ws) ff =
    (if changes ff w then [(fst w, length (snd w))] else []) @ changed_by ws (apply_write w ff)"

definition narrow_write :: "write_log_entry \<Rightarrow> log_write" where
  "narrow_write e = (unat (ne_offset e),
    if unat (ne_width_class e) \<in> {1, 2, 4, 8}
    then take (unat (ne_width_class e)) (to_le_bytes (ne_payload e)) else [])"

definition wide_write :: "write_log_wide_entry \<Rightarrow> log_write" where
  "wide_write e = (unat (we_offset e),
    if unat (we_native_bytes e) \<le> 56 then take (unat (we_native_bytes e)) (we_payload e) else [])"

definition log_writes :: "write_log_buffer \<Rightarrow> log_write list" where
  "log_writes buf = map narrow_write (live_narrow buf) @ map wide_write (live_wide buf)"

lemma apply_write_Nil [simp]: "apply_write (off, []) ff = ff"
  by (simp add: apply_write_def put_bytes_def fits_def)

lemma changes_Nil [simp]: "\<not> changes ff (off, [])"
  by (simp add: changes_def get_bytes_def)

lemma length_apply_write [simp]: "length (apply_write w ff) = length ff"
  by (simp add: apply_write_def fits_def)

lemma length_fold_apply [simp]: "length (fold apply_write ws ff) = length ff"
  by (induction ws arbitrary: ff) simp_all

definition step_to :: "bool \<Rightarrow> log_write \<Rightarrow> commit_state \<Rightarrow> commit_state" where
  "step_to marking w st = (apply_write w (fst st),
    snd st @ (if marking \<and> changes (fst st) w then [(fst w, length (snd w))] else []))"

lemma commit_narrow_step: "commit_narrow marking e st = step_to marking (narrow_write e) st"
  by (cases st) (auto simp: commit_narrow_def step_to_def narrow_write_def Let_def store_one_def
      apply_write_def changes_def fits_def put_bytes_def get_bytes_def)

lemma nb_cases:
  assumes "0 < nb"
  obtains "16 < nb \<or> nb = 1 \<or> nb = 2 \<or> nb = 4 \<or> nb = 8" | "nb = 3" | "5 \<le> nb \<and> nb \<le> 7"
    | "9 \<le> nb \<and> nb \<le> (16 :: nat)"
proof (cases "nb \<le> 8")
  case True
  then have "nb \<in> {0, 1, 2, 3, 4, 5, 6, 7, 8}" by auto
  then show thesis using assms that by auto
next
  case False
  then show thesis using that by (cases "nb \<le> 16") auto
qed

lemma commit_wide_step:
  assumes "length (we_payload e) = 56"
  shows "commit_wide marking e st = step_to marking (wide_write e) st"
proof -
  obtain ff ch where st: "st = (ff, ch)" by (cases st)
  define nb off s where "nb = unat (we_native_bytes e)" and "off = unat (we_offset e)" and "s = we_payload e"
  have s: "length s = 56" using assms by (simp add: s_def)
  have pair: "store_pair marking nb off s w (ff, ch) = step_to marking (off, take nb s) (ff, ch)"
    if "off + nb \<le> length ff" "w \<le> nb" "nb \<le> 2 * w" "nb \<le> 56" for w
    using put_pair [of off nb ff w s] get_pair [of off nb ff w s] that s
    by (auto simp: store_pair_def step_to_def apply_write_def changes_def fits_def Let_def)
  have one: "store_one marking nb off (take nb s) (ff, ch) = step_to marking (off, take nb s) (ff, ch)"
    if "off + nb \<le> length ff" "nb \<le> 56"
    using that s by (auto simp: store_one_def step_to_def apply_write_def changes_def fits_def)
  have skip: "(ff, ch) = step_to marking w (ff, ch)" if "\<not> fits ff w" for w
    using that by (simp add: step_to_def apply_write_def changes_def)
  show ?thesis
  proof (cases "nb = 0 \<or> 56 < nb")
    case True
    then have "wide_write e = (off, [])"
      unfolding wide_write_def nb_def [symmetric] off_def [symmetric] by auto
    moreover have "commit_wide marking e st = st"
      unfolding commit_wide_def nb_def [symmetric] Let_def by (rule if_P) (use True in blast)
    ultimately show ?thesis
      by (simp add: step_to_def st)
  next
    case False
    then have w: "wide_write e = (off, take nb s)"
      by (simp add: wide_write_def nb_def off_def s_def)
    show ?thesis
    proof (cases "off + nb \<le> length ff")
      case True
      have run: "commit_wide marking e (ff, ch) = (
          if 16 < nb then store_one marking nb off (take nb s) (ff, ch)
          else if nb = 1 \<or> nb = 2 \<or> nb = 4 \<or> nb = 8 then store_one marking nb off (take nb s) (ff, ch)
          else if nb = 3 then store_pair marking nb off s 2 (ff, ch)
          else if 5 \<le> nb \<and> nb \<le> 7 then store_pair marking nb off s 4 (ff, ch)
          else store_pair marking nb off s 8 (ff, ch))"
        unfolding commit_wide_def nb_def [symmetric] off_def [symmetric] s_def [symmetric] Let_def
        by (rule if_not_P) (use True False in simp)
      have nb: "nb \<le> 56" using False by simp
      have "0 < nb" using False by simp
      then consider "16 < nb \<or> nb = 1 \<or> nb = 2 \<or> nb = 4 \<or> nb = 8" | "nb = 3" | "5 \<le> nb \<and> nb \<le> 7"
        | "9 \<le> nb \<and> nb \<le> 16"
        by (rule nb_cases)
      then show ?thesis
      proof cases
        case 1
        then have "commit_wide marking e (ff, ch) = store_one marking nb off (take nb s) (ff, ch)"
          unfolding run by metis
        then show ?thesis using one [OF True nb] st w by simp
      next
        case 2
        then have "commit_wide marking e (ff, ch) = store_pair marking nb off s 2 (ff, ch)"
          unfolding run by simp
        then show ?thesis using pair [OF True _ _ nb, of 2] 2 st w by simp
      next
        case 3
        then have "commit_wide marking e (ff, ch) = store_pair marking nb off s 4 (ff, ch)"
          unfolding run by auto
        then show ?thesis using pair [OF True _ _ nb, of 4] 3 st w by simp
      next
        case 4
        then have "commit_wide marking e (ff, ch) = store_pair marking nb off s 8 (ff, ch)"
          unfolding run by auto
        then show ?thesis using pair [OF True _ _ nb, of 8] 4 st w by simp
      qed
    next
      case False
      then have "\<not> fits ff (off, take nb s)"
        using \<open>\<not> (nb = 0 \<or> 56 < nb)\<close> s by (simp add: fits_def)
      moreover have "commit_wide marking e st = st"
        unfolding commit_wide_def nb_def [symmetric] off_def [symmetric] s_def [symmetric] Let_def
        by (rule if_P) (use False in \<open>simp add: st\<close>)
      ultimately show ?thesis
        using skip [of "(off, take nb s)"] st w by simp
    qed
  qed
qed

lemma fold_step_to: "fold (step_to marking) ws (ff, ch)
    = (fold apply_write ws ff, ch @ (if marking then changed_by ws ff else []))"
  by (induction ws arbitrary: ff ch) (auto simp: step_to_def)

lemma commit_abstract:
  assumes "log_ok buf"
  shows "commit_from_log_impl marking ff buf
    = (fold apply_write (log_writes buf) ff, if marking then changed_by (log_writes buf) ff else [])"
proof -
  have "fold (commit_narrow marking) es st = fold (step_to marking) (map narrow_write es) st" for es st
    by (induction es arbitrary: st) (simp_all add: commit_narrow_step)
  moreover have "fold (commit_wide marking) es st = fold (step_to marking) (map wide_write es) st"
    if "\<forall>e\<in>set es. length (we_payload e) = 56" for es st
    using that by (induction es arbitrary: st) (simp_all add: commit_wide_step)
  moreover have "\<forall>e\<in>set (live_wide buf). length (we_payload e) = 56"
    using assms by (simp add: log_ok_def)
  ultimately have "commit_from_log_impl marking ff buf = fold (step_to marking) (log_writes buf) (ff, [])"
    by (simp add: commit_from_log_impl_def live_narrow_def [symmetric] live_wide_def [symmetric] log_writes_def)
  then show ?thesis by (simp add: fold_step_to)
qed

subsection \<open>Last write wins\<close>

definition covers :: "byte list \<Rightarrow> nat \<Rightarrow> log_write \<Rightarrow> bool" where
  "covers ff x w \<longleftrightarrow> fits ff w \<and> fst w \<le> x \<and> x < fst w + length (snd w)"

lemma nth_apply_write:
  "x < length ff \<Longrightarrow> apply_write w ff ! x = (if covers ff x w then snd w ! (x - fst w) else ff ! x)"
  by (auto simp: apply_write_def covers_def fits_def nth_put_bytes)

lemma covers_length: "length ff = length gg \<Longrightarrow> covers ff x w = covers gg x w"
  by (simp add: covers_def fits_def)

lemma nth_fold_apply:
  assumes "x < length ff"
  shows "fold apply_write ws ff ! x = (case filter (covers ff x) ws of [] \<Rightarrow> ff ! x
    | v # vs \<Rightarrow> let w = last (v # vs) in snd w ! (x - fst w))"
proof (induction ws rule: rev_induct)
  case (snoc w ws)
  show ?case
    using assms snoc covers_length [of "fold apply_write ws ff" ff x w]
    by (auto simp: nth_apply_write split: list.splits)
qed simp

lemma changed_by_complete:
  "x < length ff \<Longrightarrow> fold apply_write ws ff ! x \<noteq> ff ! x
   \<Longrightarrow> \<exists>(off, n)\<in>set (changed_by ws ff). off \<le> x \<and> x < off + n"
proof (induction ws arbitrary: ff)
  case (Cons w ws)
  show ?case
  proof (cases "apply_write w ff ! x = ff ! x")
    case True
    then show ?thesis using Cons.prems Cons.IH [of "apply_write w ff"] by auto
  next
    case False
    then have c: "covers ff x w" "snd w ! (x - fst w) \<noteq> ff ! x"
      using Cons.prems(1) by (auto simp: nth_apply_write split: if_splits)
    then have "get_bytes ff (fst w) (length (snd w)) ! (x - fst w) = ff ! x"
      by (subst nth_get_bytes) (auto simp: covers_def fits_def)
    then have "changes ff w"
      using c by (auto simp: changes_def covers_def)
    then show ?thesis
      using c by (auto simp: covers_def)
  qed
qed simp

lemma changed_by_in_range:
  "(off, n) \<in> set (changed_by ws ff) \<Longrightarrow> off + n \<le> length ff \<and> 0 < n"
proof (induction ws arbitrary: ff)
  case (Cons w ws)
  then show ?case
    using Cons.IH [of "apply_write w ff"]
    by (auto simp: changes_def fits_def get_bytes_def split: if_splits)
qed simp

subsection \<open>Logging a byte range\<close>

declare push_wide_from.simps [simp del]

lemma wide_write_push:
  "length bs \<le> 56 \<Longrightarrow> wide_write \<lparr>we_offset = off, we_native_bytes = of_nat (length bs),
      we_payload = bs @ replicate (56 - length bs) 0\<rparr> = (unat off, bs)"
  by (simp add: wide_write_def unsigned_of_nat take_bit_nat_eq_self)

lemma push_wide_from_ok:
  assumes "log_ok buf" "unat off + length bs < 2 ^ 32"
  shows "log_ok (push_wide_from off bs d buf)
    \<and> live_narrow (push_wide_from off bs d buf) = live_narrow buf
    \<and> (unat off + length bs \<le> length ff \<longrightarrow> d \<le> length bs \<longrightarrow>
      fold apply_write (map wide_write (live_wide (push_wide_from off bs d buf))) ff
      = put_bytes (fold apply_write (map wide_write (live_wide buf)) ff) (unat off + d) (drop d bs))"
  using assms
proof (induction off bs d buf rule: push_wide_from.induct)
  case (1 off bs d buf)
  show ?case
  proof (cases "d < length bs")
    case False
    then show ?thesis
      using "1.prems" by (simp add: push_wide_from.simps put_bytes_def)
  next
    case True
    define chunk where "chunk = min (length bs - d) 56"
    define c where "c = take chunk (drop d bs)"
    define buf' where "buf' = push_wide (off + of_nat d) c buf"
    have c: "length c = chunk" "chunk \<le> 56" "d + chunk \<le> length bs"
      using True by (auto simp: c_def chunk_def)
    have off: "unat (off + of_nat d) = unat off + d"
      using "1.prems"(2) True by (subst unat_plus_if') (simp add: unsigned_of_nat take_bit_nat_eq_self)
    have buf': "log_ok buf'" "live_wide buf' = live_wide buf @
        [\<lparr>we_offset = off + of_nat d, we_native_bytes = of_nat (length c),
          we_payload = c @ replicate (56 - length c) 0\<rparr>]" "live_narrow buf' = live_narrow buf"
      unfolding buf'_def using "1.prems"(1) c by (auto intro!: push_wide_ok)
    have eq: "push_wide_from off bs d buf = push_wide_from off bs (d + chunk) buf'"
      using True by (subst push_wide_from.simps) (simp add: Let_def chunk_def c_def buf'_def)
    have IH: "log_ok (push_wide_from off bs (d + chunk) buf')
      \<and> live_narrow (push_wide_from off bs (d + chunk) buf') = live_narrow buf'
      \<and> (unat off + length bs \<le> length ff \<longrightarrow> d + chunk \<le> length bs \<longrightarrow>
        fold apply_write (map wide_write (live_wide (push_wide_from off bs (d + chunk) buf'))) ff
        = put_bytes (fold apply_write (map wide_write (live_wide buf')) ff) (unat off + (d + chunk))
            (drop (d + chunk) bs))"
      using "1.IH" [OF True chunk_def] buf'(1) "1.prems"(2) unfolding buf'_def c_def by blast
    let ?ff = "fold apply_write (map wide_write (live_wide buf)) ff"
    have "put_bytes (fold apply_write (map wide_write (live_wide buf')) ff) (unat off + (d + chunk))
          (drop (d + chunk) bs) = put_bytes ?ff (unat off + d) (drop d bs)"
      if "unat off + length bs \<le> length ff"
    proof -
      have "wide_write \<lparr>we_offset = off + of_nat d, we_native_bytes = of_nat (length c),
          we_payload = c @ replicate (56 - length c) 0\<rparr> = (unat off + d, c)"
        using wide_write_push [of c "off + of_nat d"] c off by metis
      moreover have "unat off + d + length c \<le> length ff"
        using that c by simp
      ultimately have "fold apply_write (map wide_write (live_wide buf')) ff = put_bytes ?ff (unat off + d) c"
        by (simp only: buf'(2) map_append fold_append) (simp add: apply_write_def fits_def)
      moreover have "c @ drop (d + chunk) bs = drop d bs"
        by (simp add: c_def add.commute flip: drop_drop)
      ultimately show ?thesis
        using put_put_bytes_append [of "unat off + d" c "drop (d + chunk) bs" ?ff] that c
        by (simp add: add.assoc)
    qed
    then show ?thesis
      using IH c(3) True unfolding eq buf'(3) by simp
  qed
qed

lemma push_wide_range_ok:
  assumes "log_ok buf" "unat off + length bs < 2 ^ 32"
  shows "log_ok (push_wide_range off bs buf)"
    "live_narrow (push_wide_range off bs buf) = live_narrow buf"
    "unat off + length bs \<le> length ff \<Longrightarrow>
      fold apply_write (log_writes (push_wide_range off bs buf)) ff
      = put_bytes (fold apply_write (log_writes buf) ff) (unat off) bs"
  using push_wide_from_ok [OF assms, of 0 "fold apply_write (map narrow_write (live_narrow buf)) ff"]
    push_wide_from_ok [OF assms, of 0 ff]
  by (simp_all add: push_wide_range_def log_writes_def)

lemma push_narrow_writes:
  assumes "log_ok buf" "live_wide buf = []" "wc \<in> {1, 2, 4, 8}"
  shows "log_writes (push_narrow off v wc buf)
    = log_writes buf @ [(unat off, take (unat wc) (to_le_bytes v))]"
  using push_narrow_ok [OF assms(1), of off v wc] assms(2,3)
  by (auto simp: log_writes_def narrow_write_def)

subsection \<open>Windows\<close>

lemma window_loop_Some:
  assumes "window_loop blo bhi nb ws = Some (start, w)"
  shows "w \<in> set ws \<and> start = blo - blo mod w \<and> bhi < start + w \<and> start + w \<le> nb"
  using assms by (induction ws) (auto simp: Let_def split: if_splits)

lemma window_loop_None:
  assumes "window_loop blo bhi nb ws = None" "w \<in> set ws"
  shows "\<not> (bhi < blo - blo mod w + w \<and> blo - blo mod w + w \<le> nb)"
  using assms by (induction ws) (auto simp: Let_def split: if_splits)

subsection \<open>What the log guarantees\<close>

definition demo_log :: write_log_buffer where
  "demo_log = push_wide 1 [5, 6] (push_narrow 0 0x0403 2 (with_capacity 1 0))"

lemma with_capacity_ok: "log_ok (with_capacity n w)"
  by (simp add: log_ok_def with_capacity_def live_wide_def)

lemma demo_log_ok: "log_ok demo_log"
  by (simp add: demo_log_def push_narrow_ok push_wide_ok with_capacity_ok)

lemma demo_log_writes: "log_writes demo_log = [(0, [3, 4]), (1, [5, 6])]"
  by code_simp

text \<open>
  C19: Pushing and reserving keep the pools well formed and lose nothing: the live entries
  before are still there in order, with the pushed entry after them, also when the pool had to
  grow; a reservation makes room for as many entries as it was asked for.
\<close>

theorem write_log_pools:
  assumes "log_ok buf" "length bs \<le> 56"
  shows "log_ok (push_narrow off v wc buf) \<and> log_ok (push_wide off bs buf)
    \<and> log_ok (write_log_reserve n w buf)
    \<and> live_narrow (push_narrow off v wc buf) = live_narrow buf @
        [\<lparr>ne_offset = off, ne_mask_xz = 0, ne_width_class = wc, ne_payload = v\<rparr>]
    \<and> live_wide (push_narrow off v wc buf) = live_wide buf
    \<and> live_narrow (push_wide off bs buf) = live_narrow buf
    \<and> live_wide (push_wide off bs buf) = live_wide buf @
        [\<lparr>we_offset = off, we_native_bytes = of_nat (length bs),
          we_payload = bs @ replicate (56 - length bs) 0\<rparr>]
    \<and> live_narrow (write_log_reserve n w buf) = live_narrow buf
    \<and> live_wide (write_log_reserve n w buf) = live_wide buf
    \<and> narrow_count buf + n \<le> narrow_capacity (write_log_reserve n w buf)
    \<and> wide_count buf + w \<le> wide_capacity (write_log_reserve n w buf)"
  by (intro conjI push_narrow_ok [OF assms(1)] push_wide_ok [OF assms] reserve_ok [OF assms(1)])

lemma write_log_pools_witness:
  "live_wide (push_wide 7 [1, 2, 3] demo_log) = live_wide demo_log @
    [\<lparr>we_offset = 7, we_native_bytes = 3, we_payload = [1, 2, 3] @ replicate 53 0\<rparr>]"
  using write_log_pools [of demo_log "[1, 2, 3]" 7 0 0 0 0] demo_log_ok by simp

text \<open>
  C20: After the commit every byte holds the byte of the last live entry in range that covers
  it, narrow entries before wide ones and each pool in insertion order, and its old value when
  none does: the typed and paired stores and the skipping of entries out of range never touch
  another byte.
\<close>

theorem commit_last_write_wins:
  assumes "log_ok buf" "x < length ff"
  shows "length (ff_commit_from_log ff buf) = length ff
    \<and> ff_commit_from_log ff buf ! x = (case filter (covers ff x) (log_writes buf) of [] \<Rightarrow> ff ! x
      | v # vs \<Rightarrow> let w = last (v # vs) in snd w ! (x - fst w))"
  unfolding ff_commit_from_log_def commit_abstract [OF assms(1)] fst_conv
  using nth_fold_apply [OF assms(2)] by simp

lemma commit_last_write_wins_witness:
  "length (ff_commit_from_log [0, 0, 0] demo_log) = 3
    \<and> map (\<lambda>x. ff_commit_from_log [0, 0, 0] demo_log ! x) [0, 1, 2] = [3, 5, 6]"
  using commit_last_write_wins [of demo_log 0 "[0, 0, 0]"] commit_last_write_wins [of demo_log 1 "[0, 0, 0]"]
    commit_last_write_wins [of demo_log 2 "[0, 0, 0]"] demo_log_ok
  by (simp add: demo_log_writes covers_def fits_def)

text \<open>
  C21: The marking commit leaves the same bytes as the plain one and misses no change: a byte
  that differs afterwards lies in a range it reported, and every range it reports is a non-empty
  range of the flip-flop bytes.
\<close>

theorem marking_commit_safe:
  assumes "log_ok buf"
  shows "fst (ff_commit_from_log_marking ff buf) = ff_commit_from_log ff buf
    \<and> (\<forall>x<length ff. ff_commit_from_log ff buf ! x \<noteq> ff ! x \<longrightarrow>
      (\<exists>(off, n)\<in>set (snd (ff_commit_from_log_marking ff buf)). off \<le> x \<and> x < off + n))
    \<and> (\<forall>(off, n)\<in>set (snd (ff_commit_from_log_marking ff buf)). off + n \<le> length ff \<and> 0 < n)"
  unfolding ff_commit_from_log_def ff_commit_from_log_marking_def commit_abstract [OF assms] fst_conv snd_conv
  using changed_by_complete [of _ ff "log_writes buf"] changed_by_in_range [of _ _ "log_writes buf" ff]
  by (intro conjI refl) (simp, simp, fast)

lemma marking_commit_safe_witness:
  "fst (ff_commit_from_log_marking [0, 0, 0] demo_log) = ff_commit_from_log [0, 0, 0] demo_log"
  using marking_commit_safe [OF demo_log_ok, of "[0, 0, 0]"] by blast

text \<open>
  C22: Logging a byte range of any length, in chunks of at most 56 bytes, and committing is the
  same as committing first and then storing the range directly.
\<close>

theorem push_wide_range_commits:
  assumes "log_ok buf" "unat off + length bs < 2 ^ 32" "unat off + length bs \<le> length ff"
  shows "log_ok (push_wide_range off bs buf)
    \<and> ff_commit_from_log ff (push_wide_range off bs buf)
      = put_bytes (ff_commit_from_log ff buf) (unat off) bs"
  using push_wide_range_ok [OF assms(1,2)] assms(3)
  by (simp add: ff_commit_from_log_def commit_abstract assms(1))

lemma push_wide_range_commits_witness:
  "ff_commit_from_log (replicate 100 0) (push_wide_range 10 (replicate 70 1) demo_log)
    = put_bytes (ff_commit_from_log (replicate 100 0) demo_log) 10 (replicate 70 1)"
  using push_wide_range_commits [of demo_log 10 "replicate 70 1" "replicate 100 0"] demo_log_ok by simp

text \<open>The one window of a given size that can hold a span starts at the span's start rounded down.\<close>

lemma aligned_start:
  assumes "w dvd start" "start \<le> first" "first \<le> final" "final < start + w"
  shows "start = first - first mod (w :: nat)"
proof -
  obtain q where q: "start = w * q" using assms(1) by (rule dvdE)
  have "first div w = q"
    using assms(2-4) unfolding q by (intro div_nat_eqI) (simp_all add: algebra_simps)
  then show ?thesis by (simp add: q minus_mod_eq_mult_div)
qed

text \<open>
  The byte window for a static field contains the bytes of every bit of the field, is an
  aligned 1, 2, 4 or 8-byte window of the element, and no window is given only when no aligned
  window of these sizes inside the element contains the field.
\<close>

theorem log_window_correct:
  assumes "static_field_byte_span hi lo nb = Some (first, count)"
  shows "(\<forall>k. lo \<le> k \<and> k \<le> hi \<longrightarrow> first \<le> k div 8 \<and> k div 8 < first + count) \<and> first + count \<le> nb
    \<and> (case log_window_for_span first (first + count - 1) nb of
        Some (start, w) \<Rightarrow> w \<in> {1, 2, 4, 8} \<and> w dvd start \<and> start \<le> first
          \<and> first + count \<le> start + w \<and> start + w \<le> nb
      | None \<Rightarrow> \<forall>w\<in>{1, 2, 4, 8}. \<forall>start. w dvd start \<longrightarrow> start \<le> first \<longrightarrow>
          first + count \<le> start + w \<longrightarrow> nb < start + w)"
proof -
  have span: "lo \<le> hi" "first = lo div 8" "count = hi div 8 - lo div 8 + 1" "hi div 8 < nb"
    using assms by (auto simp: static_field_byte_span_def Let_def split: if_splits)
  have le: "lo div 8 \<le> hi div 8"
    using span(1) by (rule div_le_mono)
  have bits: "first \<le> k div 8 \<and> k div 8 < first + count" if "lo \<le> k \<and> k \<le> hi" for k
    using that le div_le_mono [of lo k 8] div_le_mono [of k hi 8] by (auto simp: span)
  have bhi: "first + count - 1 = hi div 8" "first \<le> hi div 8"
    using le by (simp_all add: span)
  have window: "log_window_for_span first (first + count - 1) nb = window_loop first (hi div 8) nb [1, 2, 4, 8]"
    unfolding bhi log_window_for_span_def using bhi(2) span(4) by simp
  have "case window_loop first (hi div 8) nb [1, 2, 4, 8] of
        Some (start, w) \<Rightarrow> w \<in> {1, 2, 4, 8} \<and> w dvd start \<and> start \<le> first
          \<and> first + count \<le> start + w \<and> start + w \<le> nb
      | None \<Rightarrow> \<forall>w\<in>{1, 2, 4, 8}. \<forall>start. w dvd start \<longrightarrow> start \<le> first \<longrightarrow>
          first + count \<le> start + w \<longrightarrow> nb < start + w"
  proof (cases "window_loop first (hi div 8) nb [1, 2, 4, 8]")
    case None
    have "nb < start + w" if "w \<in> {1, 2, 4, 8}" "w dvd start" "start \<le> first" "first + count \<le> start + w" for w start
    proof -
      have hi: "hi div 8 < start + w" using that(4) bhi(1) le by (simp add: span)
      then show ?thesis
        using window_loop_None [OF None, of w] that(1) aligned_start [OF that(2,3) bhi(2) hi] by auto
    qed
    then show ?thesis unfolding None by simp
  next
    case (Some p)
    obtain start w where p: "p = (start, w)" by (cases p)
    have *: "w \<in> set [1, 2, 4, 8]" "start = first - first mod w" "hi div 8 < start + w" "start + w \<le> nb"
      using window_loop_Some [OF Some [unfolded p]] by blast+
    then have "w dvd start" by (simp add: dvd_minus_mod)
    then show ?thesis
      using * bhi(1) le unfolding Some p by (auto simp: span)
  qed
  moreover have "first + count \<le> nb"
    using span le by simp
  ultimately show ?thesis
    unfolding window using bits by blast
qed

lemma log_window_correct_witness:
  "log_window_for_span 1 2 8 = Some (0, 4)
    \<and> list_all (\<lambda>k. (1 :: nat) \<le> k div 8 \<and> k div 8 < 1 + 2) [9..<21]"
proof -
  have "static_field_byte_span 20 9 8 = Some (1, 2)"
    by (simp add: static_field_byte_span_def)
  from log_window_correct [OF this] have "(1 :: nat) \<le> k div 8 \<and> k div 8 < 1 + 2" if "9 \<le> k \<and> k \<le> 20" for k
    using that by blast
  then show ?thesis
    by (auto simp: log_window_for_span_def list_all_iff)
qed

end
