(* ===== verification/Wide_Window.thy ===== *)
theory Wide_Window
  imports Wide_Compare Commit_Log
begin

section \<open>Window reads and stores of wide values\<close>

text \<open>
  \<open>wide_window_store\<close>, \<open>wide_window_store_from\<close> and \<open>wide_window_read\<close> of
  \<open>src/crates/simulator/src/wide_ops.rs\<close>, with the storage sizes of
  \<open>src/crates/simulator/src/ir/variable.rs\<close>: a store replaces the bits of a window that may
  start and end inside words and overhang the declared width, in place, in the write log, or
  both; a read takes a bounded window of a source into a zero- or one-filled destination.
\<close>

subsection \<open>Sizes\<close>

definition native_bytes :: "nat \<Rightarrow> nat" where
  "native_bytes width = (
    if width \<le> 8 then 1 else if width \<le> 16 then 2 else if width \<le> 32 then 4
    else if width \<le> 64 then 8 else if width \<le> 128 then 16
    else (width + 63) div 64 * 8)"

definition is_wide_ptr :: "nat \<Rightarrow> bool" where
  "is_wide_ptr width \<longleftrightarrow> 16 < native_bytes width"

definition clip_select_to_width :: "nat \<Rightarrow> nat \<Rightarrow> nat \<Rightarrow> (nat \<times> nat) option" where
  "clip_select_to_width beg end' width =
    (if end' < width \<and> end' \<le> beg then Some (min beg (width - 1), end') else None)"

lemma native_bytes_covers: "width \<le> 8 * native_bytes width"
  by (auto simp: native_bytes_def)

lemma native_bytes_words: "native_bytes width \<le> 8 * ((width + 63) div 64) \<or> width = 0"
proof -
  have "1 \<le> (width + 63) div 64" if "0 < width" using that by simp
  moreover have "2 \<le> (width + 63) div 64" if "64 < width"
    using that div_le_mono [of 128 "width + 63" 64] by simp
  ultimately show ?thesis
    by (auto simp: native_bytes_def)
qed

subsection \<open>The operations, as the source has them\<close>

text \<open>One merged word: the window's bits from the source, the others from the old word.\<close>

definition window_word :: "(nat \<Rightarrow> u64) \<Rightarrow> nat \<Rightarrow> nat \<Rightarrow> nat \<Rightarrow> nat \<Rightarrow> u64 \<Rightarrow> nat \<Rightarrow> u64" where
  "window_word src src_words amount width src_bit old word = (
    let lo = max (word * 64) amount;
        hi = min ((word + 1) * 64) (amount + width);
        shift = lo - word * 64;
        cnt = hi - lo;
        msk = (if 64 \<le> cnt then - 1 else push_bit shift (push_bit cnt 1 - 1));
        sbit = src_bit + lo - amount;
        sw = sbit div 64; sb = sbit mod 64;
        s_lo = (if sw < src_words then src sw else 0);
        s_hi = (if sw + 1 < src_words then src (sw + 1) else 0);
        sv = (if sb = 0 then s_lo else drop_bit sb s_lo OR push_bit (64 - sb) s_hi)
    in (old AND NOT msk) OR (push_bit shift sv AND msk))"

definition select_word :: "mem \<Rightarrow> nat \<Rightarrow> nat \<Rightarrow> nat \<Rightarrow> u64" where
  "select_word m src nb word = (
    let offset = word * 8 in
    if nb \<le> offset then 0
    else let k = min (nb - offset) 8 in
      from_le_bytes (load_bytes m (src + offset) k @ replicate (8 - k) 0))"

definition wide_window_store :: "write_log_buffer option \<Rightarrow> nat \<Rightarrow> nat \<Rightarrow> u64 \<Rightarrow> u64 \<Rightarrow> u64 \<Rightarrow> mem
    \<Rightarrow> mem \<times> write_log_buffer option" where
  "wide_window_store log_buf dst src amount packed_width log_and_flags m = (
    let width = unat (packed_width AND 0xFFFFFFFF);
        dst_width = unat (drop_bit 32 packed_width);
        in_place = drop_bit 32 log_and_flags AND 1 = 1;
        log_offset = ucast (log_and_flags AND 0xFFFFFFFF) :: u32;
        amount = unat amount in
    if width = 0 \<or> dst_width \<le> amount then (m, log_buf)
    else
      let width = min width (dst_width - amount);
          src_words = (width + 63) div 64;
          w0 = amount div 64;
          w1 = (amount + width - 1) div 64;
          n = w1 - w0 + 1;
          merged = map (\<lambda>k. window_word (rd m src) src_words amount width 0 (rd m dst (w0 + k)) (w0 + k))
            [0..<n];
          m' = (if in_place then fold (\<lambda>(k, v) m. wr m dst (w0 + k) v) (enumerate 0 merged) m else m);
          log' = map_option
            (push_wide_range (log_offset + of_nat (w0 * 8)) (concat (map to_le_bytes merged))) log_buf
      in (m', log'))"

definition wide_window_store_from :: "write_log_buffer option \<Rightarrow> nat \<Rightarrow> nat \<Rightarrow> u64 \<Rightarrow> u64 \<Rightarrow> u64
    \<Rightarrow> u64 \<Rightarrow> mem \<Rightarrow> mem \<times> write_log_buffer option" where
  "wide_window_store_from log_buf dst src amount packed_width log_and_flags src_bit m = (
    let width = unat (packed_width AND 0xFFFFFFFF);
        dst_width = unat (drop_bit 32 packed_width);
        in_place = drop_bit 32 log_and_flags AND 1 = 1;
        log_offset = ucast (log_and_flags AND 0xFFFFFFFF) :: u32;
        amount = unat amount in
    if width = 0 \<or> dst_width \<le> amount then (m, log_buf)
    else
      let width = min width (dst_width - amount);
          src_bit = unat src_bit;
          src_words = (src_bit + width + 63) div 64;
          dst_nb = native_bytes dst_width;
          w0 = amount div 64;
          w1 = (amount + width - 1) div 64;
          n = w1 - w0 + 1;
          merged = map (\<lambda>k. window_word (rd m src) src_words amount width src_bit
              (select_word m dst dst_nb (w0 + k)) (w0 + k)) [0..<n];
          m' = (if in_place
            then fold (\<lambda>(k, v) m. let offset = (w0 + k) * 8; bytes = min (dst_nb - offset) 8 in
              store_bytes m (dst + offset) (take bytes (to_le_bytes v))) (enumerate 0 merged) m
            else m);
          log' = (if dst_nb \<le> 16
            then map_option (fold (\<lambda>(k, v). push_narrow (log_offset + of_nat ((w0 + k) * 8)) v
              (of_nat (min dst_nb 8))) (enumerate 0 merged)) log_buf
            else map_option (push_wide_range (log_offset + of_nat (w0 * 8))
              (take (min (dst_nb - w0 * 8) (n * 8)) (concat (map to_le_bytes merged)))) log_buf)
      in (m', log'))"

text \<open>One word of the destination, as a function of the words selected from the source.\<close>

definition read_word :: "(nat \<Rightarrow> u64) \<Rightarrow> nat \<Rightarrow> nat \<Rightarrow> nat \<Rightarrow> nat \<Rightarrow> u64 \<Rightarrow> nat \<Rightarrow> u64" where
  "read_word S window start skip count fill word = (
    let msk = (\<lambda>bits. if 64 \<le> bits then - 1 else push_bit bits 1 - 1);
        out = word * 64;
        lo = max out skip;
        hi = min (min (out + 64) (skip + count)) window;
        v0 = fill AND msk (min (window - out) 64) in
    if lo < hi then
      let b = start + lo - skip;
          shift = b mod 64;
          low = S (b div 64);
          selected = (if shift = 0 then low
            else drop_bit shift low OR push_bit (64 - shift) (S (b div 64 + 1)));
          valid = push_bit (lo - out) (msk (hi - lo))
      in (v0 AND NOT valid) OR (push_bit (lo - out) selected AND valid)
    else v0)"

definition wide_window_read :: "nat \<Rightarrow> nat \<Rightarrow> nat \<Rightarrow> nat \<Rightarrow> nat \<Rightarrow> nat \<Rightarrow> nat \<Rightarrow> u64 \<Rightarrow> mem \<Rightarrow> mem" where
  "wide_window_read dst src source_width window start skip count fill m = (
    let nb = native_bytes window; src_nb = native_bytes source_width in
    fold (\<lambda>word m.
      let out = word * 64; v = read_word (select_word m src src_nb) window start skip count fill word
      in store_bytes m (dst + out div 8) (take (min (nb - out div 8) 8) (to_le_bytes v)))
      [0..<(window + 63) div 64] m)"

subsection \<open>The bits of words, source windows and merged words\<close>

lemma bit_select_word:
  "bit (select_word m p nb w) k \<longleftrightarrow> k < 64 \<and> 64 * w + k < 8 * nb \<and> mbit m p (64 * w + k)"
proof (cases "k < 64 \<and> w * 8 < nb")
  case True
  have d: "(64 * w + k) div 8 = w * 8 + k div 8" "(64 * w + k) mod 8 = k mod 8" "k div 8 < 8"
    using True by (simp_all add: byte_in_word less_mult_imp_div_less)
  have "64 * w + k < 8 * nb \<longleftrightarrow> k div 8 < nb - w * 8"
    using True by (auto simp: div_less_iff_less_mult diff_mult_distrib)
  moreover have "k div 8 + w * 8 - nb < 8 + w * 8 - nb" if "\<not> k div 8 < nb - w * 8"
    using that d(3) True by linarith
  ultimately show ?thesis
    using True d
    by (auto simp: select_word_def Let_def bit_from_le_bytes nth_append mbit_def add.assoc)
next
  case False
  then show ?thesis
    by (auto simp: select_word_def Let_def bit_from_le_bytes)
qed

lemma wide_mask_bit:
  assumes "shift + cnt \<le> 64" "k < 64"
  shows "bit (if 64 \<le> cnt then - 1 else push_bit shift (push_bit cnt 1 - 1) :: u64) k
    \<longleftrightarrow> shift \<le> k \<and> k < shift + cnt"
  using assms unfolding low_mask by (auto simp: bit_simps)

text \<open>64 bits of a source from an arbitrary bit on.\<close>

lemma window_source_bit:
  assumes "k < 64"
  shows "bit (if b mod 64 = 0 then S (b div 64)
      else drop_bit (b mod 64) (S (b div 64)) OR push_bit (64 - b mod 64) (S (b div 64 + 1)) :: u64) k
    \<longleftrightarrow> bit (S ((b + k) div 64)) ((b + k) mod 64)"
proof -
  have "bit (if b mod 64 = 0 then S (b div 64)
      else drop_bit (b mod 64) (S (b div 64)) OR push_bit (64 - b mod 64) (S (b div 64 + 1)) :: u64) k
    \<longleftrightarrow> (if k + b mod 64 < 64 then bit (S (b div 64)) (k + b mod 64)
      else bit (S (b div 64 + 1)) (k + b mod 64 - 64))"
    using assms by (intro lshr_word_bit) simp_all
  moreover have "(b + k) div 64 = (if k + b mod 64 < 64 then b div 64 else b div 64 + 1)"
    "(b + k) mod 64 = (if k + b mod 64 < 64 then k + b mod 64 else k + b mod 64 - 64)"
  proof -
    have lt: "k + b mod 64 < 128"
      using assms mod_less_divisor [of 64 b] by linarith
    have eq: "b + k = 64 * (b div 64) + (k + b mod 64)" by simp
    have "(b + k) div 64 = b div 64 + (k + b mod 64) div 64" "(b + k) mod 64 = (k + b mod 64) mod 64"
      using div_mult_self4 [of 64 "b div 64" "k + b mod 64"] mod_mult_self4 [of 64 "b div 64" "k + b mod 64"]
      unfolding eq [symmetric] by simp_all
    moreover have "r div 64 = (if r < 64 then 0 else 1)" "r mod 64 = (if r < 64 then r else r - 64)"
      if "r < 128" for r :: nat
      using that by (auto simp: le_div_geq le_mod_geq)
    ultimately show "(b + k) div 64 = (if k + b mod 64 < 64 then b div 64 else b div 64 + 1)"
      "(b + k) mod 64 = (if k + b mod 64 < 64 then k + b mod 64 else k + b mod 64 - 64)"
      using lt by simp_all
  qed
  ultimately show ?thesis by simp
qed

lemma window_word_bit:
  assumes "k < 64" "src_bit + width \<le> 64 * src_words" "word * 64 < amount + width" "amount < (word + 1) * 64"
    "0 < width"
  shows "bit (window_word S src_words amount width src_bit old word) k
    = (let b = 64 * word + k in
       if amount \<le> b \<and> b < amount + width
       then bit (S ((src_bit + b - amount) div 64)) ((src_bit + b - amount) mod 64) else bit old k)"
proof -
  define lo hi where "lo = max (word * 64) amount" and "hi = min ((word + 1) * 64) (amount + width)"
  define T where "T = (\<lambda>w. if w < src_words then S w else 0)"
  define b where "b = src_bit + lo - amount"
  have b: "lo < hi" "lo - word * 64 + (hi - lo) \<le> 64" "word * 64 \<le> lo"
    using assms by (auto simp: lo_def hi_def)
  have m: "bit (if 64 \<le> hi - lo then - 1 else push_bit (lo - word * 64) (push_bit (hi - lo) 1 - 1) :: u64) k
      \<longleftrightarrow> amount \<le> 64 * word + k \<and> 64 * word + k < amount + width"
    using assms(1) b by (subst wide_mask_bit) (auto simp: lo_def hi_def)
  have sv: "bit (push_bit (lo - word * 64) (if b mod 64 = 0 then T (b div 64)
      else drop_bit (b mod 64) (T (b div 64)) OR push_bit (64 - b mod 64) (T (b div 64 + 1)))) k
    \<longleftrightarrow> bit (S ((src_bit + (64 * word + k) - amount) div 64)) ((src_bit + (64 * word + k) - amount) mod 64)"
    if win: "amount \<le> 64 * word + k" "64 * word + k < amount + width"
  proof -
    have k: "lo - word * 64 \<le> k" "b + (k - (lo - word * 64)) = src_bit + (64 * word + k) - amount"
      using win b(3) by (auto simp: lo_def b_def)
    have "(src_bit + (64 * word + k) - amount) div 64 < src_words"
      using win assms(2) by (simp add: div_less_iff_less_mult mult.commute)
    then show ?thesis
      using assms(1) k(1) window_source_bit [of "k - (lo - word * 64)" b T]
      by (simp add: bit_push_bit_iff k(2) T_def del: bit_or_iff)
  qed
  show ?thesis
    unfolding window_word_def Let_def lo_def [symmetric] hi_def [symmetric] b_def [symmetric]
    using assms(1) m sv unfolding T_def bit_or_iff bit_and_iff bit_not_iff by auto
qed

subsection \<open>Stores of whole and partial words\<close>

lemma mbit_store_word:
  assumes "c \<le> 8"
  shows "mbit (store_bytes m (p + w * 8) (take c (to_le_bytes v))) p b
    = (if b div 64 = w \<and> b mod 64 < 8 * c then bit v (b mod 64) else mbit m p b)"
proof -
  have idx: "w * 8 \<le> b div 8 \<and> b div 8 < w * 8 + c \<longleftrightarrow> b div 64 = w \<and> b mod 64 < 8 * c"
    "b div 64 = w \<Longrightarrow> b div 8 - w * 8 = b mod 64 div 8" "b mod 64 mod 8 = b mod 8"
    "b mod 64 div 8 < 8"
  proof -
    have q: "b div 64 = b div 8 div 8" "b mod 64 = 8 * (b div 8 mod 8) + b mod 8"
      using div_mult2_eq [of b 8 8] mod_mult2_eq [of b 8 8] by simp_all
    define x y where "x = b div 8" and "y = b mod 8"
    have y: "y < 8" by (simp add: y_def)
    have x: "x = 8 * (x div 8) + x mod 8" "x mod 8 < 8" by simp_all
    show "w * 8 \<le> b div 8 \<and> b div 8 < w * 8 + c \<longleftrightarrow> b div 64 = w \<and> b mod 64 < 8 * c"
    proof -
      have "w * 8 \<le> 8 * s + r \<and> 8 * s + r < w * 8 + c \<longleftrightarrow> s = w \<and> 8 * r + y < 8 * c" if "r < 8" for s r
      proof
        assume *: "w * 8 \<le> 8 * s + r \<and> 8 * s + r < w * 8 + c"
        have "s \<le> w" "w \<le> s" using * that assms by linarith+
        then show "s = w \<and> 8 * r + y < 8 * c" using * y by simp
      next
        assume "s = w \<and> 8 * r + y < 8 * c"
        then show "w * 8 \<le> 8 * s + r \<and> 8 * s + r < w * 8 + c" by simp
      qed
      from this [of "x mod 8" "x div 8"] show ?thesis
        unfolding q x_def [symmetric] y_def [symmetric] by simp
    qed
    show "b div 64 = w \<Longrightarrow> b div 8 - w * 8 = b mod 64 div 8"
      unfolding q x_def [symmetric] y_def [symmetric] using x y by (simp add: minus_mod_eq_mult_div [symmetric])
    show "b mod 64 mod 8 = b mod 8"
      unfolding q by simp
    show "b mod 64 div 8 < 8"
      by (simp add: less_mult_imp_div_less)
  qed
  have r: "8 * (b mod 64 div 8) + b mod 8 = b mod 64"
    using mult_div_mod_eq [of 8 "b mod 64"] by (simp only: idx(3))
  have len: "length (take c (to_le_bytes v)) = c" using assms by simp
  show ?thesis
  proof (cases "b div 64 = w \<and> b mod 64 < 8 * c")
    case True
    then have i: "b mod 64 div 8 < c" by (simp add: less_mult_imp_div_less mult.commute)
    have "mbit (store_bytes m (p + w * 8) (take c (to_le_bytes v))) p b
        = bit (to_le_bytes v ! (b mod 64 div 8)) (b mod 8)"
      using True idx(1,2) i unfolding mbit_def store_bytes_def len by (simp add: add.commute)
    also have "\<dots> = bit v (b mod 64)"
      using idx(4) by (simp add: bit_ucast_iff bit_drop_bit_eq r)
    finally show ?thesis using True by simp
  next
    case False
    then show ?thesis
      using idx(1) unfolding mbit_def store_bytes_def len by auto
  qed
qed

lemma wr_store: "wr m p w v = store_bytes m (p + w * 8) (take 8 (to_le_bytes v))"
  by (simp add: wr_def)

lemma store_words:
  assumes "\<And>k. k < n \<Longrightarrow> c k \<le> 8 \<and> (w0 + k) * 8 + c k \<le> L"
    and "m' = fold (\<lambda>k m. store_bytes m (p + (w0 + k) * 8) (take (c k) (to_le_bytes (f k)))) [0..<n] m"
  shows "(\<forall>b. mbit m' p b = (if w0 \<le> b div 64 \<and> b div 64 < w0 + n \<and> b mod 64 < 8 * c (b div 64 - w0)
      then bit (f (b div 64 - w0)) (b mod 64) else mbit m p b))
    \<and> (\<forall>x. x < p + w0 * 8 \<or> p + L \<le> x \<longrightarrow> m' x = m x)"
  using assms(1) unfolding assms(2)
proof (induction n)
  case (Suc n)
  let ?m = "fold (\<lambda>k m. store_bytes m (p + (w0 + k) * 8) (take (c k) (to_le_bytes (f k)))) [0..<n] m"
  have c: "c n \<le> 8" "(w0 + n) * 8 + c n \<le> L" using Suc.prems [of n] by simp_all
  have hyp: "k < n \<Longrightarrow> c k \<le> 8 \<and> (w0 + k) * 8 + c k \<le> L" for k
    using Suc.prems by simp
  have IH: "\<And>b. mbit ?m p b = (if w0 \<le> b div 64 \<and> b div 64 < w0 + n \<and> b mod 64 < 8 * c (b div 64 - w0)
      then bit (f (b div 64 - w0)) (b mod 64) else mbit m p b)"
    "\<And>x. x < p + w0 * 8 \<or> p + L \<le> x \<Longrightarrow> ?m x = m x"
    using Suc.IH [OF hyp] by blast+
  have "store_bytes ?m (p + (w0 + n) * 8) (take (c n) (to_le_bytes (f n))) x = m x"
    if "x < p + w0 * 8 \<or> p + L \<le> x" for x
    using that c IH(2) [OF that] by (subst store_bytes_outside) auto
  moreover have "mbit (store_bytes ?m (p + (w0 + n) * 8) (take (c n) (to_le_bytes (f n)))) p b
      = (if w0 \<le> b div 64 \<and> b div 64 < w0 + Suc n \<and> b mod 64 < 8 * c (b div 64 - w0)
         then bit (f (b div 64 - w0)) (b mod 64) else mbit m p b)" for b
    unfolding mbit_store_word [OF c(1)] IH(1) by (cases "b div 64 = w0 + n") auto
  ultimately show ?case by simp
qed auto

lemma fold_enumerate_map:
  "fold (\<lambda>(k, v) m. g k v m) (enumerate 0 (map f [0..<n])) m = fold (\<lambda>k m. g k (f k) m) [0..<n] m"
  by (simp add: enumerate_map_upt fold_map comp_def)

text \<open>The packed arguments of a window store.\<close>

definition packed_widths :: "nat \<Rightarrow> nat \<Rightarrow> u64" where
  "packed_widths width dst_width = of_nat width OR push_bit 32 (of_nat dst_width)"

definition log_flags :: "u32 \<Rightarrow> bool \<Rightarrow> u64" where
  "log_flags log_offset in_place = ucast log_offset OR push_bit 32 (of_bool in_place)"

lemma packed_widths_parts:
  assumes "width < 2 ^ 32" "dst_width < 2 ^ 32"
  shows "unat (packed_widths width dst_width AND 0xFFFFFFFF) = width"
    "unat (drop_bit 32 (packed_widths width dst_width)) = dst_width"
proof -
  have lt: "bit width k \<Longrightarrow> k < 32" "bit dst_width k \<Longrightarrow> k < 32" for k
    using bit_lt_exp [of width k 32] bit_lt_exp [of dst_width k 32] assms by auto
  have msk: "(0xFFFFFFFF :: u64) = mask 32"
    by (simp add: mask_eq_exp_minus_1)
  have u: "unat (of_nat n :: u64) = n" if "n < 2 ^ 32" for n
    using that by (simp add: unsigned_of_nat take_bit_nat_eq_self)
  have "packed_widths width dst_width AND 0xFFFFFFFF = of_nat width"
    unfolding msk packed_widths_def by (auto intro!: bit_word_eqI dest: lt simp: bit_simps)
  then show "unat (packed_widths width dst_width AND 0xFFFFFFFF) = width"
    using u [OF assms(1)] by simp
  have "drop_bit 32 (packed_widths width dst_width) = of_nat dst_width"
    unfolding packed_widths_def by (auto intro!: bit_word_eqI dest: lt simp: bit_simps)
  then show "unat (drop_bit 32 (packed_widths width dst_width)) = dst_width"
    using u [OF assms(2)] by simp
qed

lemma log_flags_parts:
  "ucast (log_flags off in_place AND 0xFFFFFFFF) = off"
  "(drop_bit 32 (log_flags off in_place) AND 1 = 1) = in_place"
proof -
  have msk: "(0xFFFFFFFF :: u64) = mask 32"
    by (simp add: mask_eq_exp_minus_1)
  show "ucast (log_flags off in_place AND 0xFFFFFFFF) = off"
    unfolding msk log_flags_def
    by (rule bit_word_eqI, unfold bit_simps) (auto dest: bit_imp_le_length)
  show "(drop_bit 32 (log_flags off in_place) AND 1 = 1) = in_place"
    unfolding bit_of_word log_flags_def by (auto simp: bit_simps dest: bit_imp_le_length)
qed

subsection \<open>Window stores\<close>

text \<open>The bits of a slice assignment \<open>dst[amount +: width] = src[src_bit +: width]\<close>.\<close>

definition sliced :: "mem \<Rightarrow> nat \<Rightarrow> nat \<Rightarrow> nat \<Rightarrow> nat \<Rightarrow> nat \<Rightarrow> nat \<Rightarrow> bool" where
  "sliced m dst src amount width src_bit b = (
    if amount \<le> b \<and> b < amount + width then mbit m src (src_bit + b - amount) else mbit m dst b)"

lemma window_words:
  fixes amount width w0 k :: nat
  assumes "0 < width" "w0 = amount div 64" "k < (amount + width - 1) div 64 - w0 + 1"
  shows "(w0 + k) * 64 < amount + width" "amount < (w0 + k + 1) * 64"
proof -
  have "w0 \<le> (amount + width - 1) div 64"
    using assms(1,2) by (simp add: div_le_mono)
  then have "w0 + k \<le> (amount + width - 1) div 64" using assms(3) by linarith
  then have "(w0 + k) * 64 \<le> amount + width - 1"
    using div_times_less_eq_dividend [of "amount + width - 1" 64] mult_le_mono1 order_trans by blast
  then show "(w0 + k) * 64 < amount + width" using assms(1) by linarith
  have "amount < (w0 + 1) * 64"
    unfolding assms(2) using dividend_less_div_times [of 64 amount] by simp
  then show "amount < (w0 + k + 1) * 64" by simp
qed

text \<open>The words the two stores merge, whichever way they read the old word.\<close>

lemma merged_word_bit:
  assumes "0 < width" "w0 = amount div 64" "k < (amount + width - 1) div 64 - w0 + 1"
    and "src_bit + width \<le> 64 * src_words" "j < 64" and "bit old j = mbit m dst (64 * (w0 + k) + j)"
  shows "bit (window_word (rd m src) src_words amount width src_bit old (w0 + k)) j
    = sliced m dst src amount width src_bit (64 * (w0 + k) + j)"
  using window_word_bit [OF assms(5,4) window_words [OF assms(1-3)] assms(1)] assms(6)
  by (simp add: sliced_def Let_def mbit_rd)

lemma window_range:
  assumes "0 < width" "\<not> ((amount :: nat) div 64 \<le> b div 64 \<and> b div 64 \<le> (amount + width - 1) div 64)"
  shows "\<not> (amount \<le> b \<and> b < amount + width)"
  using assms div_le_mono [of amount b 64] div_le_mono [of b "amount + width - 1" 64] by linarith

lemma wide_window_store_mem:
  fixes amount :: u64 and off :: u32 and log in_place dst src m
  assumes "width < 2 ^ 32" "dst_width < 2 ^ 32"
  defines "w \<equiv> min width (dst_width - unat amount)"
  defines "m' \<equiv> fst (wide_window_store log dst src amount (packed_widths width dst_width)
    (log_flags off in_place) m)"
  shows "(\<not> in_place \<longrightarrow> m' = m)
    \<and> (in_place \<longrightarrow> (\<forall>b. mbit m' dst b = sliced m dst src (unat amount) w 0 b) \<and> (\<forall>x<dst. m' x = m x))"
proof (cases "w = 0")
  case True
  then have "m' = m"
    unfolding m'_def wide_window_store_def packed_widths_parts [OF assms(1,2)] log_flags_parts Let_def w_def
    by (auto simp: min_def split: if_splits)
  then show ?thesis using True by (auto simp: sliced_def)
next
  case False
  let ?am = "unat amount"
  define w0 where "w0 = ?am div 64"
  define n where "n = (?am + w - 1) div 64 - w0 + 1"
  define f where "f = (\<lambda>k. window_word (rd m src) ((w + 63) div 64) ?am w 0 (rd m dst (w0 + k)) (w0 + k))"
  have nz: "\<not> (width = 0 \<or> dst_width \<le> ?am)" using False by (auto simp: w_def)
  have run: "m' = (if in_place then fold (\<lambda>k m. wr m dst (w0 + k) (f k)) [0..<n] m else m)"
    unfolding m'_def wide_window_store_def packed_widths_parts [OF assms(1,2)] log_flags_parts Let_def
      if_not_P [OF nz] w_def [symmetric] w0_def [symmetric] n_def [symmetric] f_def [symmetric]
      fold_enumerate_map [where f = f] fst_conv by simp
  show ?thesis
  proof (cases in_place)
    case True
    have st: "(\<forall>b. mbit m' dst b = (if w0 \<le> b div 64 \<and> b div 64 < w0 + n \<and> b mod 64 < 8 * 8
          then bit (f (b div 64 - w0)) (b mod 64) else mbit m dst b))
        \<and> (\<forall>x. x < dst + w0 * 8 \<or> dst + (w0 + n) * 8 \<le> x \<longrightarrow> m' x = m x)"
      by (rule store_words) (auto simp: run True wr_store)
    have "mbit m' dst b = sliced m dst src ?am w 0 b" for b
    proof (cases "w0 \<le> b div 64 \<and> b div 64 < w0 + n")
      case True
      then have k: "b div 64 - w0 < n" "64 * (w0 + (b div 64 - w0)) + b mod 64 = b" by auto
      have "w \<le> 64 * ((w + 63) div 64)" by simp
      then have "bit (f (b div 64 - w0)) (b mod 64) = sliced m dst src ?am w 0 b"
        unfolding f_def using merged_word_bit [of w w0 ?am "b div 64 - w0" 0 "(w + 63) div 64" "b mod 64"
            "rd m dst (w0 + (b div 64 - w0))" m dst src] k False
        by (simp add: w0_def n_def bit_rd_mbit)
      then show ?thesis using st True by simp
    next
      case False
      have "\<not> (?am div 64 \<le> b div 64 \<and> b div 64 \<le> (?am + w - 1) div 64)"
        using False by (auto simp: w0_def n_def)
      then have "\<not> (?am \<le> b \<and> b < ?am + w)"
        using \<open>w \<noteq> 0\<close> by (intro window_range) simp_all
      then show ?thesis using st False by (auto simp: sliced_def)
    qed
    then show ?thesis using st True by auto
  qed (simp add: run)
qed

lemma unat_add_of_nat:
  assumes "unat (off :: u32) + k < 2 ^ 32"
  shows "unat (off + of_nat k) = unat off + k"
proof -
  have "unat (of_nat k :: u32) = k"
    using assms by (simp add: unsigned_of_nat take_bit_nat_eq_self)
  then show ?thesis
    using assms unfolding unat_plus_if' by simp
qed

text \<open>The logged bytes are those of the merged words.\<close>

lemma length_concat_words [simp]: "length (concat (map to_le_bytes vs)) = 8 * length vs"
  by (induction vs) simp_all

lemma nth_concat_words:
  "j < 8 * length vs \<Longrightarrow> concat (map to_le_bytes vs) ! j = to_le_bytes (vs ! (j div 8)) ! (j mod 8)"
proof (induction vs arbitrary: j)
  case (Cons v vs)
  show ?case
  proof (cases "j < 8")
    case False
    then have "j div 8 = Suc ((j - 8) div 8)" "j mod 8 = (j - 8) mod 8"
      by (simp_all add: le_div_geq le_mod_geq)
    then show ?thesis
      using Cons False by (simp add: nth_append)
  qed (simp add: nth_append)
qed simp

lemma bit_byte_of_word:
  "bit (concat (map to_le_bytes vs) ! (b div 8)) (b mod 8) = bit (vs ! (b div 64)) (b mod 64)"
  if "b < 64 * length vs"
proof -
  have d: "b div 8 div 8 = b div 64" "8 * (b div 8 mod 8) + b mod 8 = b mod 64" "b div 8 < 8 * length vs"
    using div_mult2_eq [of b 8 8] mod_mult2_eq [of b 8 8] that
    by (simp_all add: div_less_iff_less_mult mult.commute)
  then show ?thesis
    by (simp add: nth_concat_words bit_ucast_iff bit_drop_bit_eq)
qed

lemma wide_window_store_log:
  fixes amount :: u64 and off :: u32 and in_place dst src m buf ff
  assumes "width < 2 ^ 32" "dst_width < 2 ^ 32"
  defines "w \<equiv> min width (dst_width - unat amount)"
    and "words \<equiv> (dst_width + 63) div 64"
  defines "log' \<equiv> the (snd (wide_window_store (Some buf) dst src amount (packed_widths width dst_width)
      (log_flags off in_place) m))"
    and "g \<equiv> fold apply_write (log_writes buf) ff"
  assumes "log_ok buf" "unat off + 8 * words < 2 ^ 32" "unat off + 8 * words \<le> length ff"
    and "\<forall>x<8 * words. g ! (unat off + x) = m (dst + x)"
  shows "log_ok log'
    \<and> (\<forall>b<64 * words. bit (fold apply_write (log_writes log') ff ! (unat off + b div 8)) (b mod 8)
      = sliced m dst src (unat amount) w 0 b)
    \<and> (\<forall>x<length ff. x < unat off \<or> unat off + 8 * words \<le> x
      \<longrightarrow> fold apply_write (log_writes log') ff ! x = g ! x)"
proof (cases "w = 0")
  case True
  then have "log' = buf"
    unfolding log'_def wide_window_store_def packed_widths_parts [OF assms(1,2)] log_flags_parts Let_def w_def
    by (auto simp: min_def split: if_splits)
  moreover have "bit (g ! (unat off + b div 8)) (b mod 8) = mbit m dst b" if "b < 64 * words" for b
    using assms(10) that by (simp add: mbit_def div_less_iff_less_mult mult.commute)
  ultimately show ?thesis
    using True assms(7) by (auto simp: sliced_def g_def)
next
  case False
  let ?am = "unat amount"
  define w0 where "w0 = ?am div 64"
  define n where "n = (?am + w - 1) div 64 - w0 + 1"
  define f where "f = (\<lambda>k. window_word (rd m src) ((w + 63) div 64) ?am w 0 (rd m dst (w0 + k)) (w0 + k))"
  define bs o' where "bs = concat (map to_le_bytes (map f [0..<n]))" and "o' = off + of_nat (w0 * 8)"
  have nz: "\<not> (width = 0 \<or> dst_width \<le> ?am)" using False by (auto simp: w_def)
  have log: "log' = push_wide_range o' bs buf"
    unfolding log'_def wide_window_store_def packed_widths_parts [OF assms(1,2)] log_flags_parts Let_def
      if_not_P [OF nz] w_def [symmetric] w0_def [symmetric] n_def [symmetric] f_def [symmetric] snd_conv bs_def o'_def by simp
  have n: "w0 + n \<le> words"
  proof -
    have "?am + w - 1 \<le> dst_width - 1" using nz by (auto simp: w_def)
    then have "(?am + w - 1) div 64 \<le> (dst_width - 1) div 64" by (rule div_le_mono)
    moreover have "(dst_width - 1) div 64 < words"
    proof -
      have "dst_width + 63 = (dst_width - 1) + 64" using nz by simp
      then show ?thesis unfolding words_def by simp
    qed
    moreover have "w0 \<le> (?am + w - 1) div 64"
      using False unfolding w0_def by (intro div_le_mono) simp
    ultimately show ?thesis by (simp add: n_def)
  qed
  have off: "unat o' = unat off + w0 * 8"
    using assms(8) n unfolding o'_def by (intro unat_add_of_nat) linarith
  have bs: "length bs = 8 * n" unfolding bs_def length_concat_words by simp
  have fit: "unat o' + length bs \<le> unat off + 8 * words"
    using n unfolding off bs by linarith
  have push: "log_ok log'" "fold apply_write (log_writes log') ff = put_bytes g (unat off + w0 * 8) bs"
    unfolding log g_def off [symmetric] using fit assms(8,9)
    by (intro push_wide_range_ok(1,3) [OF assms(7)]; linarith)+
  have len: "length g = length ff" by (simp add: g_def)
  have nth: "put_bytes g (unat off + w0 * 8) bs ! x = (if unat off + w0 * 8 \<le> x \<and> x < unat off + (w0 + n) * 8
      then bs ! (x - (unat off + w0 * 8)) else g ! x)" if "x < length ff" for x
    using that n assms(9) len bs by (subst nth_put_bytes) (auto simp: algebra_simps)
  have "bit (put_bytes g (unat off + w0 * 8) bs ! (unat off + b div 8)) (b mod 8)
      = sliced m dst src ?am w 0 b" if b: "b < 64 * words" for b
  proof -
    have b8: "b div 8 < 8 * words" using b by (simp add: div_less_iff_less_mult mult.commute)
    have range: "unat off + w0 * 8 \<le> unat off + b div 8 \<and> unat off + b div 8 < unat off + (w0 + n) * 8
        \<longleftrightarrow> w0 \<le> b div 64 \<and> b div 64 < w0 + n"
      using div_mult2_eq [of b 8 8] less_eq_div_iff_mult_less_eq [of 8 w0 "b div 8"]
        div_less_iff_less_mult [of 8 "b div 8" "w0 + n"] by simp
    show ?thesis
    proof (cases "w0 \<le> b div 64 \<and> b div 64 < w0 + n")
      case True
      define c where "c = b - 64 * w0"
      have c: "b = 64 * w0 + c" "c < 64 * n"
        using True div_less_iff_less_mult [of 64 b "w0 + n"] less_eq_div_iff_mult_less_eq [of 64 w0 b]
        by (auto simp: c_def algebra_simps)
      have parts: "c div 64 < n" "b div 8 - w0 * 8 = c div 8" "b mod 8 = c mod 8" "b mod 64 = c mod 64"
        "w0 + c div 64 = b div 64" "64 * (w0 + c div 64) + c mod 64 = b"
      proof -
        have b: "b = 8 * (w0 * 8) + c" using c(1) by simp
        show "b mod 8 = c mod 8" unfolding b by (rule mod_mult_self4)
        have "b div 8 = w0 * 8 + c div 8" unfolding b by (rule div_mult_self4) simp
        then show "b div 8 - w0 * 8 = c div 8" by simp
        show "c div 64 < n" using c(2) by (simp add: div_less_iff_less_mult mult.commute)
        show "b mod 64 = c mod 64" "w0 + c div 64 = b div 64" "64 * (w0 + c div 64) + c mod 64 = b"
          using c(1) by (simp_all add: algebra_simps)
      qed
      have "bit (put_bytes g (unat off + w0 * 8) bs ! (unat off + b div 8)) (b mod 8)
          = bit (bs ! (c div 8)) (c mod 8)"
        using True range b8 assms(9) parts(2,3) by (subst nth) auto
      also have "\<dots> = bit (f (c div 64)) (c mod 64)"
        using bit_byte_of_word [of c "map f [0..<n]"] c(2) parts(1) by (simp add: bs_def)
      also have "\<dots> = sliced m dst src ?am w 0 b"
      proof -
        have "bit (f (c div 64)) (c mod 64) = sliced m dst src ?am w 0 (64 * (w0 + c div 64) + c mod 64)"
          unfolding f_def
          by (rule merged_word_bit) (use parts(1) False in \<open>simp_all add: w0_def n_def bit_rd_mbit\<close>)
        then show ?thesis unfolding parts(6) .
      qed
      finally show ?thesis .
    next
      case out: False
      have "\<not> (?am div 64 \<le> b div 64 \<and> b div 64 \<le> (?am + w - 1) div 64)"
        using out by (auto simp: w0_def n_def)
      then have "\<not> (?am \<le> b \<and> b < ?am + w)"
        using False by (intro window_range) simp_all
      moreover have "put_bytes g (unat off + w0 * 8) bs ! (unat off + b div 8) = g ! (unat off + b div 8)"
        using out range b8 assms(9) by (subst nth) auto
      ultimately show ?thesis
        using assms(10) b8 by (auto simp: sliced_def mbit_def)
    qed
  qed
  moreover have "put_bytes g (unat off + w0 * 8) bs ! x = g ! x"
    if "x < length ff" "x < unat off \<or> unat off + 8 * words \<le> x" for x
    using that n by (subst nth) auto
  ultimately show ?thesis
    using push by simp
qed

lemma last_word_bit:
  fixes b nb :: nat
  assumes "b < 8 * nb"
  shows "b mod 64 < 8 * min (nb - b div 64 * 8) 8"
proof -
  define q r where "q = b div 64" and "r = b mod 64"
  have "64 * q + r < 8 * nb" "r < 64"
    using assms by (simp_all add: q_def r_def)
  then show ?thesis
    unfolding q_def [symmetric] r_def [symmetric] by (auto simp: min_def)
qed

lemma wide_window_store_from_mem:
  fixes amount :: u64 and src_bit :: u64 and off :: u32 and log dst src m
  assumes "width < 2 ^ 32" "dst_width < 2 ^ 32"
  defines "w \<equiv> min width (dst_width - unat amount)"
    and "m' \<equiv> fst (wide_window_store_from log dst src amount (packed_widths width dst_width)
      (log_flags off True) src_bit m)"
  shows "(\<forall>b<8 * native_bytes dst_width. mbit m' dst b = sliced m dst src (unat amount) w (unat src_bit) b)
    \<and> (\<forall>x. x < dst \<or> dst + native_bytes dst_width \<le> x \<longrightarrow> m' x = m x)"
proof (cases "w = 0")
  case True
  then have "m' = m"
    unfolding m'_def wide_window_store_from_def packed_widths_parts [OF assms(1,2)] log_flags_parts Let_def w_def
    by (auto simp: min_def split: if_splits)
  then show ?thesis using True by (auto simp: sliced_def)
next
  case False
  let ?am = "unat amount" and ?sb = "unat src_bit" and ?nb = "native_bytes dst_width"
  define w0 where "w0 = ?am div 64"
  define n where "n = (?am + w - 1) div 64 - w0 + 1"
  define f where "f = (\<lambda>k. window_word (rd m src) ((?sb + w + 63) div 64) ?am w ?sb
    (select_word m dst ?nb (w0 + k)) (w0 + k))"
  define c where "c = (\<lambda>k. min (?nb - (w0 + k) * 8) 8)"
  have nz: "\<not> (width = 0 \<or> dst_width \<le> ?am)" using False by (auto simp: w_def)
  have run: "m' = fold (\<lambda>k m. store_bytes m (dst + (w0 + k) * 8) (take (c k) (to_le_bytes (f k)))) [0..<n] m"
    unfolding m'_def wide_window_store_from_def packed_widths_parts [OF assms(1,2)] log_flags_parts Let_def
      if_not_P [OF nz] w_def [symmetric] w0_def [symmetric] n_def [symmetric] f_def [symmetric]
      fold_enumerate_map [where f = f] fst_conv c_def by simp
  have inside: "(w0 + k) * 8 < ?nb" if "k < n" for k
  proof -
    have "(w0 + k) * 64 < ?am + w"
      using that False unfolding n_def by (intro window_words(1) [OF _ w0_def]) simp_all
    moreover have "w \<le> dst_width - ?am" unfolding w_def by simp
    moreover have "?am < dst_width" using nz by simp
    ultimately show ?thesis
      using native_bytes_covers [of dst_width] by linarith
  qed
  have st: "(\<forall>b. mbit m' dst b = (if w0 \<le> b div 64 \<and> b div 64 < w0 + n \<and> b mod 64 < 8 * c (b div 64 - w0)
        then bit (f (b div 64 - w0)) (b mod 64) else mbit m dst b))
      \<and> (\<forall>x. x < dst + w0 * 8 \<or> dst + ?nb \<le> x \<longrightarrow> m' x = m x)"
    using inside by (intro store_words [OF _ run]) (fastforce simp: c_def)
  have "mbit m' dst b = sliced m dst src ?am w ?sb b" if b: "b < 8 * ?nb" for b
  proof (cases "w0 \<le> b div 64 \<and> b div 64 < w0 + n")
    case True
    then have k: "b div 64 - w0 < n" "w0 + (b div 64 - w0) = b div 64" "64 * (b div 64) + b mod 64 = b" by auto
    have sel: "bit (select_word m dst ?nb (w0 + (b div 64 - w0))) (b mod 64)
        = mbit m dst (64 * (w0 + (b div 64 - w0)) + b mod 64)"
      using b unfolding bit_select_word k(2) by simp
    have "bit (f (b div 64 - w0)) (b mod 64)
        = sliced m dst src ?am w ?sb (64 * (w0 + (b div 64 - w0)) + b mod 64)"
      unfolding f_def
      by (rule merged_word_bit [OF _ _ _ _ _ sel]) (use k(1) False in \<open>simp_all add: w0_def n_def\<close>)
    moreover have "b mod 64 < 8 * c (b div 64 - w0)"
      unfolding c_def k(2) using b by (rule last_word_bit)
    ultimately show ?thesis using st True unfolding k(2,3) by simp
  next
    case out: False
    have "\<not> (?am div 64 \<le> b div 64 \<and> b div 64 \<le> (?am + w - 1) div 64)"
      using out by (auto simp: w0_def n_def)
    then have "\<not> (?am \<le> b \<and> b < ?am + w)"
      using False by (intro window_range) simp_all
    then show ?thesis using st out by (auto simp: sliced_def)
  qed
  then show ?thesis using st by auto
qed

subsection \<open>Window reads\<close>

lemma select_word_cong:
  assumes "\<And>x. p \<le> x \<Longrightarrow> x < p + nb \<Longrightarrow> s x = m x"
  shows "select_word s p nb w = select_word m p nb w"
proof (rule bit_word_eqI)
  fix k
  have "mbit s p (64 * w + k) = mbit m p (64 * w + k)" if "64 * w + k < 8 * nb"
    using that assms [of "p + (64 * w + k) div 8"]
    by (simp add: mbit_def div_less_iff_less_mult mult.commute)
  then show "bit (select_word s p nb w) k = bit (select_word m p nb w) k"
    by (auto simp: bit_select_word)
qed

lemma low_bits: "k < 64 \<Longrightarrow> bit (if 64 \<le> bits then - 1 else push_bit bits 1 - 1 :: u64) k \<longleftrightarrow> k < bits"
  unfolding low_mask by (auto simp: bit_simps)

lemma read_word_bit:
  assumes "k < 64" "64 * word < window"
  shows "bit (read_word S window start skip count fill word) k = (let b = 64 * word + k in
    if skip \<le> b \<and> b < skip + count \<and> b < window
    then bit (S ((start + b - skip) div 64)) ((start + b - skip) mod 64) else b < window \<and> bit fill k)"
proof -
  define lo hi where "lo = max (word * 64) skip" and "hi = min (min (word * 64 + 64) (skip + count)) window"
  define c where "c = start + lo - skip"
  have fill: "bit (fill AND (if 64 \<le> min (window - word * 64) 64 then - 1
      else push_bit (min (window - word * 64) 64) 1 - 1)) k \<longleftrightarrow> 64 * word + k < window \<and> bit fill k"
    using assms(1) by (simp only: bit_and_iff low_bits) auto
  have valid: "bit (push_bit (lo - word * 64) (if 64 \<le> hi - lo then - 1 else push_bit (hi - lo) 1 - 1) :: u64) k
      \<longleftrightarrow> lo \<le> 64 * word + k \<and> 64 * word + k < hi"
  proof -
    have "k - (lo - word * 64) < 64" using assms(1) by simp
    then show ?thesis
      unfolding bit_push_bit_iff low_bits [OF \<open>k - (lo - word * 64) < 64\<close>]
      using assms(1) by (auto simp: lo_def)
  qed
  have sel: "bit (push_bit (lo - word * 64) (if c mod 64 = 0 then S (c div 64)
      else drop_bit (c mod 64) (S (c div 64)) OR push_bit (64 - c mod 64) (S (c div 64 + 1)))) k
    \<longleftrightarrow> bit (S ((start + (64 * word + k) - skip) div 64)) ((start + (64 * word + k) - skip) mod 64)"
    if "lo \<le> 64 * word + k"
  proof -
    have k: "lo - word * 64 \<le> k" "c + (k - (lo - word * 64)) = start + (64 * word + k) - skip"
      using that by (auto simp: c_def lo_def)
    show ?thesis
      using assms(1) k(1) window_source_bit [of "k - (lo - word * 64)" c S]
      by (simp add: bit_push_bit_iff k(2) del: bit_or_iff)
  qed
  have range: "lo \<le> 64 * word + k \<and> 64 * word + k < hi
      \<longleftrightarrow> skip \<le> 64 * word + k \<and> 64 * word + k < skip + count \<and> 64 * word + k < window"
    using assms(1) by (auto simp: lo_def hi_def)
  show ?thesis
    unfolding read_word_def Let_def lo_def [symmetric] hi_def [symmetric] c_def [symmetric]
    using assms(1) fill valid sel range by (auto simp: bit_or_iff bit_and_iff bit_not_iff)
qed

lemma wide_window_read_ok:
  fixes fill :: u64 and m :: mem
  assumes "count = 0 \<or> start + count \<le> source_width \<and> skip + count \<le> window"
    and "dst + native_bytes window \<le> src \<or> src + native_bytes source_width \<le> dst"
  defines "m' \<equiv> wide_window_read dst src source_width window start skip count fill m"
  shows "(\<forall>b<window. mbit m' dst b
      = (if skip \<le> b \<and> b < skip + count then mbit m src (start + b - skip) else bit fill (b mod 64)))
    \<and> (\<forall>x. x < dst \<or> dst + native_bytes window \<le> x \<longrightarrow> m' x = m x)"
proof -
  let ?nb = "native_bytes window" and ?snb = "native_bytes source_width"
  define n where "n = (window + 63) div 64"
  define V where "V = (\<lambda>s word. read_word (select_word s src ?snb) window start skip count fill word)"
  define c where "c = (\<lambda>k. min (?nb - k * 8) 8)"
  define body where "body = (\<lambda>word m. store_bytes m (dst + word * 8) (take (c word) (to_le_bytes (V m word))))"
  define pure where "pure = (\<lambda>word s. store_bytes s (dst + (0 + word) * 8) (take (c word) (to_le_bytes (V m word))))"
  have words: "word * 64 < window" if "word < n" for word
  proof -
    have "word + 1 \<le> (window + 63) div 64" using that by (simp add: n_def)
    then have "(word + 1) * 64 \<le> window + 63"
      using div_times_less_eq_dividend [of "window + 63" 64] mult_le_mono1 order_trans by blast
    then show ?thesis by simp
  qed
  have fits: "k * 8 < ?nb" if "k < n" for k
    using words [OF that] native_bytes_covers [of window] by simp
  have st: "(\<forall>b. mbit (fold pure [0..<i] m) dst b = (if 0 \<le> b div 64 \<and> b div 64 < 0 + i \<and> b mod 64 < 8 * c (b div 64 - 0)
        then bit (V m (b div 64 - 0)) (b mod 64) else mbit m dst b))
      \<and> (\<forall>x. x < dst + 0 * 8 \<or> dst + ?nb \<le> x \<longrightarrow> fold pure [0..<i] m x = m x)" if "i \<le> n" for i
  proof (rule store_words)
    show "c k \<le> 8 \<and> (0 + k) * 8 + c k \<le> ?nb" if "k < i" for k
      using fits [of k] that \<open>i \<le> n\<close> by (simp add: c_def)
  qed (simp add: pure_def)
  have "fold body [0..<i] m = fold pure [0..<i] m" if "i \<le> n" for i
    using that
  proof (induction i)
    case (Suc i)
    let ?s = "fold pure [0..<i] m"
    have "select_word ?s src ?snb = select_word m src ?snb"
      using st [of i] Suc.prems assms(2) by (intro ext select_word_cong) auto
    then have "V ?s i = V m i" by (simp add: V_def)
    then show ?case using Suc by (simp add: body_def pure_def)
  qed simp
  moreover have "m' = fold body [0..<n] m"
    unfolding m'_def wide_window_read_def body_def V_def c_def n_def Let_def by (simp add: mult.commute)
  ultimately have m': "m' = fold pure [0..<n] m" by simp
  have "mbit m' dst b
      = (if skip \<le> b \<and> b < skip + count then mbit m src (start + b - skip) else bit fill (b mod 64))"
    if b: "b < window" for b
  proof -
    have d: "b div 64 < n" "64 * (b div 64) + b mod 64 = b" "b mod 64 < 64" "64 * (b div 64) < window"
      using b by (auto simp: n_def div_less_iff_less_mult)
    have "b mod 64 < 8 * c (b div 64)"
      unfolding c_def using b native_bytes_covers [of window] by (intro last_word_bit) simp
    then have "mbit m' dst b = bit (V m (b div 64)) (b mod 64)"
      using st [of n] d(1) m' by simp
    also have "\<dots> = (if skip \<le> b \<and> b < skip + count then mbit m src (start + b - skip) else bit fill (b mod 64))"
    proof (cases "skip \<le> b \<and> b < skip + count")
      case True
      have "start + b - skip < 8 * ?snb"
        using True assms(1) native_bytes_covers [of source_width] by auto
      then show ?thesis
        using True b read_word_bit [OF d(3,4), of "select_word m src ?snb" start skip count fill]
        by (simp add: V_def d(2) Let_def bit_select_word)
    next
      case False
      then show ?thesis
        using b read_word_bit [OF d(3,4), of "select_word m src ?snb" start skip count fill]
        unfolding V_def d(2) Let_def by auto
    qed
    finally show ?thesis .
  qed
  then show ?thesis
    using st [of n] m' by simp
qed

subsection \<open>What the window helpers do\<close>

text \<open>
  A window store in place replaces exactly the bits of the window, which may cross and
  split words, by the low bits of the source, drops the bits at or above the destination's
  width, and is nothing for an empty window; without the in-place flag the memory stays as it
  is.
\<close>

theorem wide_window_store_correct:
  fixes amount :: u64
  assumes "width < 2 ^ 32" "dst_width < 2 ^ 32"
  shows "case wide_window_store log dst src amount (packed_widths width dst_width) (log_flags off in_place) m
    of (m', _) \<Rightarrow>
      if in_place then
        (\<forall>b. mbit m' dst b
          = (if unat amount \<le> b \<and> b < min (unat amount + width) dst_width
             then mbit m src (b - unat amount) else mbit m dst b))
        \<and> (\<forall>x<dst. m' x = m x)
      else m' = m"
  using wide_window_store_mem [OF assms, where in_place = in_place and log = log and dst = dst
    and src = src and amount = amount and off = off and m = m]
  by (cases "unat amount \<le> dst_width")
    (auto simp: split_beta sliced_def min_def not_le split: if_splits)

lemma wide_window_store_correct_witness:
  "let m' = fst (wide_window_store None 0 64 60 (packed_widths 10 66) (log_flags 0 True)
       (\<lambda>x. if 64 \<le> x then - 1 else 0))
   in mbit m' 0 65 \<and> \<not> mbit m' 0 66"
proof -
  let ?m = "\<lambda>x. if 64 \<le> x then - 1 else 0 :: byte"
  let ?m' = "fst (wide_window_store None 0 64 60 (packed_widths 10 66) (log_flags 0 True) ?m)"
  have "mbit ?m' 0 b = (if 60 \<le> b \<and> b < 66 then mbit ?m 64 (b - 60) else mbit ?m 0 b)" for b
    using wide_window_store_correct [where width = 10 and dst_width = 66 and log = None and dst = 0
      and src = 64 and amount = 60 and off = 0 and in_place = True and m = ?m]
    by (simp add: split_beta)
  then show ?thesis
    by (simp add: mbit_def [of ?m] Let_def)
qed

text \<open>
  C18: A window store through the write log: when the flip-flop's slot, with the entries already
  logged applied, holds the destination's words, committing the extended log leaves the slot
  with the window replaced and every byte outside the slot as the earlier entries leave it.
\<close>

theorem wide_window_store_commits:
  fixes amount :: u64 and off :: u32
  assumes "width < 2 ^ 32" "dst_width < 2 ^ 32" "log_ok buf"
    and "unat off + 8 * ((dst_width + 63) div 64) < 2 ^ 32"
    and "unat off + 8 * ((dst_width + 63) div 64) \<le> length ff"
    and "\<forall>x<8 * ((dst_width + 63) div 64). ff_commit_from_log ff buf ! (unat off + x) = m (dst + x)"
  shows "case wide_window_store (Some buf) dst src amount (packed_widths width dst_width)
      (log_flags off in_place) m of (_, log') \<Rightarrow>
    log_ok (the log')
    \<and> (\<forall>b<64 * ((dst_width + 63) div 64).
      bit (ff_commit_from_log ff (the log') ! (unat off + b div 8)) (b mod 8)
      = (if unat amount \<le> b \<and> b < min (unat amount + width) dst_width
         then mbit m src (b - unat amount) else mbit m dst b))
    \<and> (\<forall>x<length ff. x < unat off \<or> unat off + 8 * ((dst_width + 63) div 64) \<le> x
      \<longrightarrow> ff_commit_from_log ff (the log') ! x = ff_commit_from_log ff buf ! x)"
proof -
  have commit: "ff_commit_from_log ff b = fold apply_write (log_writes b) ff" if "log_ok b" for b
    using that by (simp add: ff_commit_from_log_def commit_abstract)
  have slice: "sliced m dst src (unat amount) (min width (dst_width - unat amount)) 0 b
    = (if unat amount \<le> b \<and> b < min (unat amount + width) dst_width
         then mbit m src (b - unat amount) else mbit m dst b)" for b
    by (auto simp: sliced_def)
  note log = wide_window_store_log [OF assms(1-5), unfolded slice]
  show ?thesis
    using log [where dst = dst and m = m and src = src and amount = amount and in_place = in_place] assms(6) commit [OF assms(3)] commit
    by (simp add: split_beta slice)
qed

lemma wide_window_store_commits_witness:
  "bit (ff_commit_from_log (replicate 16 0)
     (the (snd (wide_window_store (Some (with_capacity 0 0)) 0 64 60 (packed_widths 10 66) (log_flags 0 False)
       (\<lambda>x. if 64 \<le> x then - 1 else 0)))) ! 8) 1"
proof -
  let ?m = "\<lambda>x. if 64 \<le> x then - 1 else 0 :: byte"
  let ?log = "the (snd (wide_window_store (Some (with_capacity 0 0)) 0 64 60 (packed_widths 10 66)
    (log_flags 0 False) ?m))"
  have "ff_commit_from_log (replicate 16 0) (with_capacity 0 0) = replicate 16 0"
    by (simp add: ff_commit_from_log_def commit_from_log_impl_def with_capacity_def)
  then have "\<forall>b<128. bit (ff_commit_from_log (replicate 16 0) ?log ! (b div 8)) (b mod 8)
      = (if 60 \<le> b \<and> b < 66 then mbit ?m 64 (b - 60) else mbit ?m 0 b)"
    using wide_window_store_commits [where width = 10 and dst_width = 66 and buf = "with_capacity 0 0"
      and off = 0 and ff = "replicate 16 0" and m = ?m and dst = 0 and src = 64 and amount = 60
      and in_place = False] with_capacity_ok by (simp add: split_beta)
  then show ?thesis
    by (elim allE [of _ 65]) (simp add: mbit_def)
qed

text \<open>
  A window store into native storage of any size, from an arbitrary bit of the source: the
  window is replaced and no byte outside the native bytes of the destination is written.
\<close>

theorem wide_window_store_from_correct:
  fixes amount src_bit :: u64
  assumes "width < 2 ^ 32" "dst_width < 2 ^ 32"
  shows "case wide_window_store_from log dst src amount (packed_widths width dst_width) (log_flags off True)
      src_bit m of (m', _) \<Rightarrow>
    (\<forall>b<8 * native_bytes dst_width. mbit m' dst b
      = (if unat amount \<le> b \<and> b < min (unat amount + width) dst_width
         then mbit m src (unat src_bit + b - unat amount) else mbit m dst b))
    \<and> (\<forall>x. x < dst \<or> dst + native_bytes dst_width \<le> x \<longrightarrow> m' x = m x)"
  using wide_window_store_from_mem [OF assms, where dst = dst and log = log and src = src
    and amount = amount and off = off and src_bit = src_bit and m = m]
  by (auto simp: split_beta sliced_def)

lemma wide_window_store_from_correct_witness:
  "fst (wide_window_store_from None 0 8 3 (packed_widths 2 5) (log_flags 0 True) 7
     (\<lambda>x. if 8 \<le> x then - 1 else 0)) 1 = 0"
  using wide_window_store_from_correct [where width = 2 and dst_width = 5 and log = None and dst = 0
    and src = 8 and amount = 3 and off = 0 and src_bit = 7 and m = "\<lambda>x. if 8 \<le> x then - 1 else 0"]
  by (simp add: split_beta native_bytes_def)

text \<open>
  A bounded window read places \<open>count\<close> source bits at \<open>skip\<close>, fills the other bits of the
  window, and writes only the native bytes of the window.
\<close>

theorem wide_window_read_correct:
  assumes "count = 0 \<or> start + count \<le> source_width \<and> skip + count \<le> window"
    and "dst + native_bytes window \<le> src \<or> src + native_bytes source_width \<le> dst"
  shows "(\<forall>b<window. mbit (wide_window_read dst src source_width window start skip count fill m) dst b
      = (if skip \<le> b \<and> b < skip + count then mbit m src (start + b - skip) else bit fill (b mod 64)))
    \<and> (\<forall>x. x < dst \<or> dst + native_bytes window \<le> x
      \<longrightarrow> wide_window_read dst src source_width window start skip count fill m x = m x)"
  using assms by (rule wide_window_read_ok)

lemma wide_window_read_correct_witness:
  "mbit (wide_window_read 0 64 100 70 30 1 69 0 (\<lambda>_. - 1)) 0 69
    \<and> \<not> mbit (wide_window_read 0 64 100 70 30 1 69 0 (\<lambda>_. - 1)) 0 0"
proof -
  let ?m = "\<lambda>_. - 1 :: byte"
  have "mbit (wide_window_read 0 64 100 70 30 1 69 0 ?m) 0 b
      = (if 1 \<le> b then mbit ?m 64 (30 + b - 1) else bit (0 :: u64) (b mod 64))" if "b < 70" for b
    using that wide_window_read_correct [of 69 30 100 1 70 0 64 0 ?m] by (simp add: native_bytes_def)
  then show ?thesis
    by (simp add: mbit_def [of ?m])
qed

end
