(* ===== verification/Aig_Graph.thy ===== *)
theory Aig_Graph
  imports Gate_Ir "HOL-Library.Word" "HOL-Library.Sublist"
begin

section \<open>The And-Inverter Graph (\<open>aig/graph.rs\<close>)\<close>

text \<open>
  \<open>AigModule\<close>: a vector of nodes (the constant, primary inputs, 2-input ANDs), signed edges
  packed into a \<open>u32\<close> with the polarity in the lowest bit, and the table that shares ANDs
  with the same fanins.  The two \<open>HashMap\<close>s are maps.  The value of an edge under an
  assignment of the primary inputs, \<open>edge_val\<close>, is what all later results speak of; the
  invariant \<open>aig_wf\<close> says that fanins point backwards, that fanins are ordered and never
  constant, and that the table holds exactly the AND nodes of the vector.  Node indices are
  kept at their width: everything is proved for graphs of at most \<open>2^31\<close> nodes, the number
  the packed edge can name.
\<close>

unbundle bit_operations_syntax

subsection \<open>Edges\<close>

datatype aig_edge = AigEdge (raw: "32 word")

definition CONST0 :: aig_edge where "CONST0 = AigEdge 0"
definition CONST1 :: aig_edge where "CONST1 = AigEdge 1"

definition edge_new :: "32 word \<Rightarrow> bool \<Rightarrow> aig_edge" where
  "edge_new n negated = AigEdge (push_bit 1 n OR of_bool negated)"

definition edge_node :: "aig_edge \<Rightarrow> 32 word" where
  "edge_node e = drop_bit 1 (raw e)"

definition is_negated :: "aig_edge \<Rightarrow> bool" where
  "is_negated e \<longleftrightarrow> raw e AND 1 = 1"

definition negate :: "aig_edge \<Rightarrow> aig_edge" where
  "negate e = AigEdge (raw e XOR 1)"

definition negate_if :: "aig_edge \<Rightarrow> bool \<Rightarrow> aig_edge" where
  "negate_if e cond = AigEdge (raw e XOR of_bool cond)"

text \<open>The node an edge names, as an index into the vector of nodes.\<close>

definition node_idx :: "aig_edge \<Rightarrow> nat" where
  "node_idx e = unat (edge_node e)"

lemma even_unat_iff: "even (unat w) \<longleftrightarrow> even (w :: 'a::len word)"
proof -
  have "bit (unat w) 0 = bit w 0" unfolding bit_unsigned_iff by simp
  then show ?thesis unfolding bit_0 by blast
qed

lemma is_negated_odd: "is_negated e \<longleftrightarrow> odd (unat (raw e))"
  by (simp add: is_negated_def and_one_eq mod_2_eq_odd even_unat_iff)

lemma unat_raw: "unat (raw e) = 2 * node_idx e + of_bool (is_negated e)"
proof -
  have "node_idx e = unat (raw e) div 2"
    by (simp add: node_idx_def edge_node_def drop_bit_eq_div unat_div)
  then show ?thesis by (simp add: is_negated_odd)
qed

lemma edge_eq_iff: "e = f \<longleftrightarrow> node_idx e = node_idx f \<and> is_negated e = is_negated f"
proof
  assume "node_idx e = node_idx f \<and> is_negated e = is_negated f"
  then have "unat (raw e) = unat (raw f)" by (simp add: unat_raw)
  then show "e = f" by (simp add: word_unat_eq_iff [symmetric] aig_edge.expand)
qed simp

lemma node_idx_bound: "node_idx e < 2 ^ 31"
proof -
  have "unat (raw e) < 2 ^ 32" using unsigned_less [of "raw e"] by simp
  then show ?thesis using unat_raw [of e] by simp
qed

lemma unat_raw_new: "unat n < 2 ^ 31 \<Longrightarrow> unat (raw (edge_new n b)) = 2 * unat n + of_bool b"
proof -
  assume n: "unat n < 2 ^ 31"
  have "push_bit 1 n OR of_bool b = push_bit 1 n + of_bool b"
  proof (cases b)
    case True
    have "push_bit 1 n AND 1 = 0" by (simp add: and_one_eq push_bit_eq_mult even_iff_mod_2_eq_zero [symmetric])
    then show ?thesis using True by (simp add: disjunctive_add_eq_or)
  qed simp
  moreover have "unat (push_bit 1 n + of_bool b :: 32 word) = 2 * unat n + of_bool b"
    using n by (cases b) (simp_all add: push_bit_eq_mult unat_word_ariths)
  ultimately show ?thesis by (simp add: edge_new_def)
qed

lemma edge_new_sel [simp]:
  assumes "unat n < 2 ^ 31"
  shows "node_idx (edge_new n b) = unat n" "is_negated (edge_new n b) = b"
proof -
  have "2 * node_idx (edge_new n b) + of_bool (is_negated (edge_new n b)) = 2 * unat n + of_bool b"
    using unat_raw [of "edge_new n b"] unat_raw_new [OF assms, of b] by simp
  then show "node_idx (edge_new n b) = unat n" "is_negated (edge_new n b) = b"
    by (cases b; cases "is_negated (edge_new n b)"; simp; presburger)+
qed

lemma bit_raw_split: "bit (raw e) 0 = is_negated e"
  by (simp add: bit_0 is_negated_odd even_unat_iff)

lemma negate_sel [simp]:
  "node_idx (negate e) = node_idx e" "is_negated (negate e) \<longleftrightarrow> \<not> is_negated e"
proof -
  have "edge_node (negate e) = edge_node e"
    by (rule bit_eqI) (simp add: edge_node_def negate_def bit_simps)
  then show "node_idx (negate e) = node_idx e" by (simp add: node_idx_def)
  show "is_negated (negate e) \<longleftrightarrow> \<not> is_negated e"
    unfolding bit_raw_split [symmetric] by (simp add: negate_def bit_simps)
qed

lemma negate_if_eq: "negate_if e c = (if c then negate e else e)"
  by (cases e) (simp add: negate_if_def negate_def)

lemma negate_if_sel [simp]:
  "node_idx (negate_if e c) = node_idx e" "is_negated (negate_if e c) \<longleftrightarrow> is_negated e \<noteq> c"
  by (simp_all add: negate_if_eq)

lemma const_sel [simp]:
  "node_idx CONST0 = 0" "node_idx CONST1 = 0" "\<not> is_negated CONST0" "is_negated CONST1"
  by (simp_all add: node_idx_def edge_node_def is_negated_def CONST0_def CONST1_def drop_bit_eq_div)

lemma const_distinct [simp]: "CONST0 \<noteq> CONST1" "CONST1 \<noteq> CONST0"
  by (simp_all add: edge_eq_iff)

lemma raw_less: "raw a < raw b \<Longrightarrow> node_idx a \<le> node_idx b"
proof -
  assume "raw a < raw b"
  then have "unat (raw a) < unat (raw b)" by (simp add: word_less_nat_alt)
  then have "unat (raw a) div 2 \<le> unat (raw b) div 2" by (simp add: div_le_mono)
  then show ?thesis by (simp add: unat_raw)
qed

lemma same_node: "node_idx a = node_idx b \<Longrightarrow> a = b \<or> a = negate b"
  by (auto simp: edge_eq_iff)

subsection \<open>Nodes, sinks, the module\<close>

datatype aig_node = AConst | AInput net_id | AAnd aig_edge aig_edge

record aig_sink =
  as_target :: net_id
  as_edge :: aig_edge

record aig_module =
  ag_nodes :: "aig_node list"
  ag_sinks :: "aig_sink list"
  ag_hash_cons :: "aig_edge \<times> aig_edge \<Rightarrow> 32 word option"
  ag_net_edge :: "net_id \<Rightarrow> aig_edge option"

definition aig_new :: aig_module where
  "aig_new = \<lparr>ag_nodes = [AConst], ag_sinks = [], ag_hash_cons = Map.empty, ag_net_edge = Map.empty\<rparr>"

definition add_input :: "net_id \<Rightarrow> (aig_module, aig_edge) state" where
  "add_input n = State (\<lambda>m. case ag_net_edge m n of
       Some e \<Rightarrow> (e, m)
     | None \<Rightarrow>
         let idx = word_of_nat (length (ag_nodes m));
             edge = edge_new idx False
         in (edge, m\<lparr>ag_nodes := ag_nodes m @ [AInput n], ag_net_edge := (ag_net_edge m)(n \<mapsto> edge)\<rparr>))"

definition intern_and :: "aig_edge \<Rightarrow> aig_edge \<Rightarrow> (aig_module, aig_edge) state" where
  "intern_and a b = State (\<lambda>m. case ag_hash_cons m (a, b) of
       Some idx \<Rightarrow> (edge_new idx False, m)
     | None \<Rightarrow>
         let idx = word_of_nat (length (ag_nodes m))
         in (edge_new idx False,
             m\<lparr>ag_nodes := ag_nodes m @ [AAnd a b], ag_hash_cons := (ag_hash_cons m)((a, b) \<mapsto> idx)\<rparr>))"

definition mk_and :: "aig_edge \<Rightarrow> aig_edge \<Rightarrow> (aig_module, aig_edge) state" where
  "mk_and a b =
     (if a = CONST0 \<or> b = CONST0 then State_Monad.return CONST0
      else if a = CONST1 then State_Monad.return b
      else if b = CONST1 then State_Monad.return a
      else if a = b then State_Monad.return a
      else if a = negate b then State_Monad.return CONST0
      else if raw a > raw b then intern_and b a else intern_and a b)"

definition mk_or :: "aig_edge \<Rightarrow> aig_edge \<Rightarrow> (aig_module, aig_edge) state" where
  "mk_or a b = do { e \<leftarrow> mk_and (negate a) (negate b); State_Monad.return (negate e) }"

definition mk_xor :: "aig_edge \<Rightarrow> aig_edge \<Rightarrow> (aig_module, aig_edge) state" where
  "mk_xor a b = do {
     n1 \<leftarrow> mk_and a (negate b);
     n2 \<leftarrow> mk_and (negate a) b;
     mk_or n1 n2
   }"

definition mk_mux :: "aig_edge \<Rightarrow> aig_edge \<Rightarrow> aig_edge \<Rightarrow> (aig_module, aig_edge) state" where
  "mk_mux s d0 d1 = do {
     t \<leftarrow> mk_and s d1;
     e \<leftarrow> mk_and (negate s) d0;
     mk_or t e
   }"

definition add_sink :: "net_id \<Rightarrow> aig_edge \<Rightarrow> (aig_module, unit) state" where
  "add_sink target edge =
     State (\<lambda>m. ((), m\<lparr>ag_sinks := ag_sinks m @ [\<lparr>as_target = target, as_edge = edge\<rparr>]\<rparr>))"

fun is_and :: "aig_node \<Rightarrow> bool" where
  "is_and (AAnd _ _) = True"
| "is_and _ = False"

definition and_count :: "aig_module \<Rightarrow> nat" where
  "and_count m = length (filter is_and (ag_nodes m))"

subsection \<open>The value of an edge\<close>

definition edge_in :: "bool list \<Rightarrow> aig_edge \<Rightarrow> bool" where
  "edge_in vs e \<longleftrightarrow> vs ! node_idx e \<noteq> is_negated e"

fun node_value :: "(net_id \<Rightarrow> bool) \<Rightarrow> bool list \<Rightarrow> aig_node \<Rightarrow> bool" where
  "node_value env vs AConst = False"
| "node_value env vs (AInput n) = env n"
| "node_value env vs (AAnd a b) = (edge_in vs a \<and> edge_in vs b)"

definition aig_values :: "(net_id \<Rightarrow> bool) \<Rightarrow> aig_node list \<Rightarrow> bool list" where
  "aig_values env ns = foldl (\<lambda>vs n. vs @ [node_value env vs n]) [] ns"

definition edge_val :: "(net_id \<Rightarrow> bool) \<Rightarrow> aig_module \<Rightarrow> aig_edge \<Rightarrow> bool" where
  "edge_val env m e = edge_in (aig_values env (ag_nodes m)) e"

lemma aig_values_Nil [simp]: "aig_values env [] = []"
  by (simp add: aig_values_def)

lemma aig_values_snoc: "aig_values env (ns @ [n]) = aig_values env ns @ [node_value env (aig_values env ns) n]"
  by (simp add: aig_values_def)

lemma length_aig_values [simp]: "length (aig_values env ns) = length ns"
  by (induction ns rule: rev_induct) (simp_all add: aig_values_snoc)

lemma aig_values_prefix: "i < length ns \<Longrightarrow> aig_values env (ns @ ms) ! i = aig_values env ns ! i"
proof (induction ms rule: rev_induct)
  case (snoc m ms)
  then show ?case
    using aig_values_snoc [of env "ns @ ms" m] by (simp add: nth_append)
qed simp

lemma aig_values_nth:
  assumes "i < length ns" "\<And>a b. ns ! i = AAnd a b \<Longrightarrow> node_idx a < i \<and> node_idx b < i"
  shows "aig_values env ns ! i = node_value env (aig_values env ns) (ns ! i)"
proof -
  have ns: "ns = (take i ns @ [ns ! i]) @ drop (Suc i) ns"
    using assms(1) by (simp add: id_take_nth_drop)
  have "aig_values env ns ! i = aig_values env (take i ns @ [ns ! i]) ! i"
    using aig_values_prefix [of i "take i ns @ [ns ! i]" env "drop (Suc i) ns"] assms(1) ns by simp
  also have "\<dots> = node_value env (aig_values env (take i ns)) (ns ! i)"
    using assms(1) by (simp add: aig_values_snoc nth_append)
  also have "\<dots> = node_value env (aig_values env ns) (ns ! i)"
  proof (cases "ns ! i")
    case (AAnd a b)
    then have lt: "node_idx a < length (take i ns)" "node_idx b < length (take i ns)"
      using assms by auto
    then show ?thesis
      using AAnd aig_values_prefix [OF lt(1), of env "drop i ns"] aig_values_prefix [OF lt(2), of env "drop i ns"]
      by (simp add: edge_in_def)
  qed simp_all
  finally show ?thesis .
qed

subsection \<open>The invariant of a graph, and what an operation may change\<close>

definition valid_edge :: "aig_module \<Rightarrow> aig_edge \<Rightarrow> bool" where
  "valid_edge m e \<longleftrightarrow> node_idx e < length (ag_nodes m)"

definition and_ok :: "nat \<Rightarrow> aig_node \<Rightarrow> bool" where
  "and_ok i n = (case n of AAnd a b \<Rightarrow> 0 < node_idx a \<and> node_idx a < node_idx b \<and> node_idx b < i
     | AConst \<Rightarrow> i = 0 | AInput _ \<Rightarrow> 0 < i)"

definition aig_wf :: "aig_module \<Rightarrow> bool" where
  "aig_wf m \<longleftrightarrow> 0 < length (ag_nodes m) \<and> length (ag_nodes m) \<le> 2 ^ 31
     \<and> ag_nodes m ! 0 = AConst
     \<and> (\<forall>i < length (ag_nodes m). and_ok i (ag_nodes m ! i))
     \<and> (\<forall>a b idx. ag_hash_cons m (a, b) = Some idx \<longleftrightarrow>
          unat idx < length (ag_nodes m) \<and> ag_nodes m ! unat idx = AAnd a b)
     \<and> (\<forall>n e. ag_net_edge m n = Some e \<longrightarrow> valid_edge m e)
     \<and> (\<forall>i < length (ag_nodes m). \<forall>n. ag_nodes m ! i = AInput n \<longrightarrow>
          ag_net_edge m n = Some (edge_new (word_of_nat i) False))"

text \<open>
  The graph grew by at most \<open>k\<close> nodes; nothing that was there changed, and a net that got an
  edge got one with the net's own value.
\<close>

definition grows :: "nat \<Rightarrow> aig_module \<Rightarrow> aig_module \<Rightarrow> bool" where
  "grows k m m' \<longleftrightarrow> aig_wf m' \<and> prefix (ag_nodes m) (ag_nodes m')
     \<and> length (ag_nodes m') \<le> length (ag_nodes m) + k \<and> ag_sinks m' = ag_sinks m
     \<and> map_le (ag_net_edge m) (ag_net_edge m')
     \<and> (\<forall>n e env. ag_net_edge m' n = Some e \<longrightarrow> ag_net_edge m n = Some e \<or> edge_val env m' e = env n)"

lemma aig_wfD:
  assumes "aig_wf m"
  shows "0 < length (ag_nodes m)" "length (ag_nodes m) \<le> 2 ^ 31" "ag_nodes m ! 0 = AConst"
    "\<And>i. i < length (ag_nodes m) \<Longrightarrow> and_ok i (ag_nodes m ! i)"
    "\<And>a b idx. ag_hash_cons m (a, b) = Some idx \<longleftrightarrow>
        unat idx < length (ag_nodes m) \<and> ag_nodes m ! unat idx = AAnd a b"
    "\<And>n e. ag_net_edge m n = Some e \<Longrightarrow> valid_edge m e"
    "\<And>i n. i < length (ag_nodes m) \<Longrightarrow> ag_nodes m ! i = AInput n \<Longrightarrow>
        ag_net_edge m n = Some (edge_new (word_of_nat i) False)"
  using assms unfolding aig_wf_def by blast+

lemma unat_word_of_nat31: "n \<le> 2 ^ 31 \<Longrightarrow> unat (word_of_nat n :: 32 word) = n"
  by (simp add: unat_of_nat take_bit_nat_eq_self)

lemma aig_wf_new [simp]: "aig_wf aig_new"
  by (auto simp: aig_wf_def aig_new_def and_ok_def)

lemma grows_refl: "aig_wf m \<Longrightarrow> grows 0 m m"
  by (simp add: grows_def)

lemma grows_mono: "grows k m m' \<Longrightarrow> k \<le> l \<Longrightarrow> grows l m m'"
  unfolding grows_def by (meson add_left_mono le_trans)

lemma grows_net_edge:
  "grows k m m' \<Longrightarrow> ag_net_edge m' n = Some e \<Longrightarrow> ag_net_edge m n = Some e \<or> edge_val env m' e = env n"
  unfolding grows_def by blast

lemma growsD: "grows k m m' \<Longrightarrow> aig_wf m'" "grows k m m' \<Longrightarrow> length (ag_nodes m') \<le> length (ag_nodes m) + k"
  by (simp_all add: grows_def)

lemma grows_valid: "grows k m m' \<Longrightarrow> valid_edge m e \<Longrightarrow> valid_edge m' e"
  unfolding grows_def valid_edge_def using prefix_length_le [of "ag_nodes m" "ag_nodes m'"] by linarith

lemma grows_val: "grows k m m' \<Longrightarrow> valid_edge m e \<Longrightarrow> edge_val env m' e = edge_val env m e"
  unfolding grows_def valid_edge_def edge_val_def edge_in_def prefix_def
  using aig_values_prefix by metis

lemma grows_trans:
  assumes "grows k m1 m2" "grows l m2 m3"
  shows "grows (k + l) m1 m3"
proof -
  have "ag_net_edge m1 n = Some e \<or> edge_val env m3 e = env n" if "ag_net_edge m3 n = Some e" for n e env
  proof (cases "ag_net_edge m2 n = Some e")
    case True
    then have "valid_edge m2 e" using assms(1) by (auto simp: grows_def aig_wf_def)
    then show ?thesis using grows_net_edge [OF assms(1) True, of env] grows_val [OF assms(2), of e env] by simp
  next
    case False
    then show ?thesis using grows_net_edge [OF assms(2) that, of env] by blast
  qed
  then show ?thesis
    using assms unfolding grows_def by (auto intro: prefix_order.trans map_le_trans)
qed

lemma valid_negate [simp]: "valid_edge m (negate e) = valid_edge m e" "valid_edge m (negate_if e c) = valid_edge m e"
  by (simp_all add: valid_edge_def)

lemma edge_val_negate [simp]:
  "edge_val env m (negate e) \<longleftrightarrow> \<not> edge_val env m e"
  "edge_val env m (negate_if e c) \<longleftrightarrow> edge_val env m e \<noteq> c"
  by (auto simp: edge_val_def edge_in_def)

lemma node_val:
  assumes "aig_wf m" "i < length (ag_nodes m)"
  shows "aig_values env (ag_nodes m) ! i = node_value env (aig_values env (ag_nodes m)) (ag_nodes m ! i)"
  using aig_wfD(4) [OF assms] by (intro aig_values_nth assms) (auto simp: and_ok_def)

lemma valid_const [simp]: "aig_wf m \<Longrightarrow> valid_edge m CONST0" "aig_wf m \<Longrightarrow> valid_edge m CONST1"
  using aig_wfD(1) by (simp_all add: valid_edge_def)

lemma edge_val_const [simp]: "aig_wf m \<Longrightarrow> \<not> edge_val env m CONST0" "aig_wf m \<Longrightarrow> edge_val env m CONST1"
  using node_val [of m 0 env] aig_wfD(1,3) by (simp_all add: edge_val_def edge_in_def)

lemma edge_val_node:
  assumes "aig_wf m" "valid_edge m e"
  shows "edge_val env m e \<longleftrightarrow> node_value env (aig_values env (ag_nodes m)) (ag_nodes m ! node_idx e) \<noteq> is_negated e"
  using node_val [OF assms(1), of "node_idx e" env] assms(2)
  unfolding edge_val_def edge_in_def valid_edge_def by simp


subsection \<open>The operations\<close>

lemma prefix_snoc [simp]: "prefix xs (xs @ [x])"
  by (rule prefixI) simp

lemma nth_snoc_cases: "i < length (xs @ [x]) \<Longrightarrow> (xs @ [x]) ! i = (if i < length xs then xs ! i else x)"
  by (auto simp: nth_append less_Suc_eq)

lemma intern_and_spec:
  assumes wf: "aig_wf m" and room: "length (ag_nodes m) < 2 ^ 31"
    and ab: "0 < node_idx a" "node_idx a < node_idx b" "valid_edge m b"
    and run: "run_state (intern_and a b) m = (e, m')"
  shows "grows 1 m m'" "valid_edge m' e" "edge_val env m' e \<longleftrightarrow> edge_val env m a \<and> edge_val env m b"
proof -
  have va: "valid_edge m a" using ab by (simp add: valid_edge_def)
  let ?n = "length (ag_nodes m)"
  have g: "grows 1 m m' \<and> valid_edge m' e \<and> \<not> is_negated e \<and> ag_nodes m' ! node_idx e = AAnd a b"
  proof (cases "ag_hash_cons m (a, b)")
    case (Some idx)
    then have i: "unat idx < ?n" "ag_nodes m ! unat idx = AAnd a b" using aig_wfD(5) [OF wf] by auto
    have "m' = m" "e = edge_new idx False" using run Some by (simp_all add: intern_and_def)
    moreover have "grows 1 m m" using grows_mono [OF grows_refl [OF wf]] by simp
    ultimately show ?thesis using i room by (simp add: valid_edge_def)
  next
    case None
    define idx :: "32 word" where "idx = word_of_nat ?n"
    have idx: "unat idx = ?n" using room by (simp add: idx_def unat_word_of_nat31)
    have e: "e = edge_new idx False"
      and m': "m' = m\<lparr>ag_nodes := ag_nodes m @ [AAnd a b], ag_hash_cons := (ag_hash_cons m)((a, b) \<mapsto> idx)\<rparr>"
      using run None by (simp_all add: intern_and_def idx_def Let_def)
    have fresh: "ag_nodes m ! i \<noteq> AAnd a b" if "i < ?n" for i
    proof
      assume "ag_nodes m ! i = AAnd a b"
      then have "ag_hash_cons m (a, b) = Some (word_of_nat i)"
        using aig_wfD(5) [OF wf] that room by (simp add: unat_word_of_nat31)
      with None show False by simp
    qed
    have "aig_wf m'"
      unfolding aig_wf_def
    proof (intro conjI allI impI)
      show "and_ok i (ag_nodes m' ! i)" if "i < length (ag_nodes m')" for i
        using that aig_wfD(4) [OF wf] ab by (auto simp: m' nth_append valid_edge_def and_ok_def less_Suc_eq)
      show "valid_edge m' x" if "ag_net_edge m' n = Some x" for n x
        using that aig_wfD(6) [OF wf, of n x] by (simp add: m' valid_edge_def)
      show "ag_net_edge m' n = Some (edge_new (word_of_nat i) False)"
        if "i < length (ag_nodes m')" "ag_nodes m' ! i = AInput n" for i n
        using that aig_wfD(7) [OF wf, of i n] by (auto simp: m' nth_append less_Suc_eq)
      show "(ag_hash_cons m' (x, y) = Some j) =
          (unat j < length (ag_nodes m') \<and> ag_nodes m' ! unat j = AAnd x y)" for x y j
      proof (cases "unat j < ?n")
        case True
        then have "j \<noteq> idx" using idx by auto
        then show ?thesis
          using True aig_wfD(5) [OF wf, of x y j] fresh [OF True] by (auto simp: m' nth_append)
      next
        case False
        then have "j = idx \<longleftrightarrow> unat j < Suc ?n" using idx by (auto simp: word_unat_eq_iff)
        then show ?thesis
          using False aig_wfD(5) [OF wf, of x y j] idx by (auto simp: m' nth_append)
      qed
    qed (use aig_wfD(1,3) [OF wf] room in \<open>simp_all add: m' nth_append\<close>)
    then have "grows 1 m m'" by (simp add: grows_def m')
    then show ?thesis using idx room by (simp add: e m' valid_edge_def)
  qed
  then show "grows 1 m m'" "valid_edge m' e" by simp_all
  have "edge_val env m' e \<longleftrightarrow> edge_val env m' a \<and> edge_val env m' b"
    using g edge_val_node [OF growsD(1), of 1 m m' e env] by (simp add: edge_val_def)
  then show "edge_val env m' e \<longleftrightarrow> edge_val env m a \<and> edge_val env m b"
    using g va ab(3) grows_val by blast
qed

lemma mk_and_spec:
  assumes wf: "aig_wf m" and room: "length (ag_nodes m) < 2 ^ 31"
    and v: "valid_edge m a" "valid_edge m b"
    and run: "run_state (mk_and a b) m = (e, m')"
  shows "grows 1 m m'" "valid_edge m' e" "edge_val env m' e \<longleftrightarrow> edge_val env m a \<and> edge_val env m b"
proof -
  let ?trivial = "a = CONST0 \<or> b = CONST0 \<or> a = CONST1 \<or> b = CONST1 \<or> a = b \<or> a = negate b"
  have "grows 1 m m' \<and> valid_edge m' e \<and> (edge_val env m' e \<longleftrightarrow> edge_val env m a \<and> edge_val env m b)"
  proof (cases ?trivial)
    case True
    have "grows 1 m m" using grows_mono [OF grows_refl [OF wf]] by simp
    then show ?thesis
      using True run wf v by (auto simp: mk_and_def split: if_splits)
  next
    case False
    have nz: "0 < node_idx a" "0 < node_idx b"
      using False same_node [of a CONST0] same_node [of b CONST0]
      by (auto simp: edge_eq_iff)
    have ne: "node_idx a \<noteq> node_idx b" using False same_node [of a b] by blast
    show ?thesis
    proof (cases "raw b < raw a")
      case True
      then have "run_state (intern_and b a) m = (e, m')" using run False by (simp add: mk_and_def)
      moreover have "node_idx b < node_idx a" using raw_less [OF True] ne by simp
      ultimately show ?thesis
        using intern_and_spec [OF wf room nz(2) _ v(1)] by blast
    next
      case ge: False
      then have "run_state (intern_and a b) m = (e, m')" using run False by (simp add: mk_and_def)
      moreover have "raw a < raw b" using ge False by (metis aig_edge.expand antisym_conv3)
      then have "node_idx a < node_idx b" using raw_less ne by fastforce
      ultimately show ?thesis
        using intern_and_spec [OF wf room nz(1) _ v(2)] by blast
    qed
  qed
  then show "grows 1 m m'" "valid_edge m' e" "edge_val env m' e \<longleftrightarrow> edge_val env m a \<and> edge_val env m b"
    by simp_all
qed

text \<open>
  \<open>makes k m f g\<close>: run on the graph \<open>m\<close>, the computation \<open>f\<close> adds at most \<open>k\<close> nodes, keeps
  the invariant and every existing edge, and returns an edge whose value is \<open>g\<close>.
\<close>

definition makes :: "nat \<Rightarrow> aig_module \<Rightarrow> (aig_module, aig_edge) state \<Rightarrow> ((net_id \<Rightarrow> bool) \<Rightarrow> bool) \<Rightarrow> bool" where
  "makes k m f g \<longleftrightarrow> (case run_state f m of (e, m') \<Rightarrow>
     grows k m m' \<and> valid_edge m' e \<and> (\<forall>env. edge_val env m' e = g env))"

lemma makes_return: "aig_wf m \<Longrightarrow> valid_edge m e \<Longrightarrow> (\<And>env. edge_val env m e = g env) \<Longrightarrow> makes 0 m (State_Monad.return e) g"
  by (simp add: makes_def grows_refl)

lemma makes_bind:
  assumes "makes k m f g"
    and "\<And>e m'. \<lbrakk>grows k m m'; valid_edge m' e; \<And>env. edge_val env m' e = g env\<rbrakk> \<Longrightarrow> makes l m' (h e) g'"
  shows "makes (k + l) m (do { e \<leftarrow> f; h e }) g'"
proof -
  obtain e m' where r: "run_state f m = (e, m')" by fastforce
  have 1: "grows k m m'" "valid_edge m' e" "\<And>env. edge_val env m' e = g env"
    using assms(1) by (simp_all add: makes_def r)
  obtain e' m'' where r': "run_state (h e) m' = (e', m'')" by fastforce
  have "grows l m' m''" "valid_edge m'' e'" "\<And>env. edge_val env m'' e' = g' env"
    using assms(2) [OF 1] by (simp_all add: makes_def r')
  then show ?thesis using grows_trans [OF 1(1)] by (simp add: makes_def r r')
qed

lemma makes_cong: "makes k m f g \<Longrightarrow> k \<le> l \<Longrightarrow> (\<And>env. g env = g' env) \<Longrightarrow> makes l m f g'"
  by (auto simp: makes_def grows_mono split: prod.splits)

lemma makes_mk_and:
  assumes "aig_wf m" "length (ag_nodes m) < 2 ^ 31" "valid_edge m a" "valid_edge m b"
  shows "makes 1 m (mk_and a b) (\<lambda>env. edge_val env m a \<and> edge_val env m b)"
proof -
  obtain e m' where r: "run_state (mk_and a b) m = (e, m')" by fastforce
  show ?thesis using mk_and_spec [OF assms r] by (simp add: makes_def r)
qed

lemma makes_negate:
  assumes "makes k m f g"
  shows "makes k m (do { e \<leftarrow> f; State_Monad.return (negate_if e c) }) (\<lambda>env. g env \<noteq> c)"
proof -
  have "makes (k + 0) m (do { e \<leftarrow> f; State_Monad.return (negate_if e c) }) (\<lambda>env. g env \<noteq> c)"
    by (rule makes_bind [OF assms], rule makes_return) (simp_all add: growsD)
  then show ?thesis by simp
qed

lemma makes_mk_or:
  assumes "aig_wf m" "length (ag_nodes m) < 2 ^ 31" "valid_edge m a" "valid_edge m b"
  shows "makes 1 m (mk_or a b) (\<lambda>env. edge_val env m a \<or> edge_val env m b)"
  using makes_negate [OF makes_mk_and [of m "negate a" "negate b"], of True] assms
  by (simp add: mk_or_def negate_if_eq)

text \<open>Two ANDs of edges of the same graph, then an OR: the shape of XOR and MUX.\<close>

lemma makes_sum_of_products:
  assumes "aig_wf m" "length (ag_nodes m) + 3 \<le> 2 ^ 31"
    "valid_edge m a" "valid_edge m b" "valid_edge m c" "valid_edge m d"
  shows "makes 3 m (do { x \<leftarrow> mk_and a b; y \<leftarrow> mk_and c d; mk_or x y })
    (\<lambda>env. edge_val env m a \<and> edge_val env m b \<or> edge_val env m c \<and> edge_val env m d)"
proof -
  have "makes (1 + (1 + 1)) m (do { x \<leftarrow> mk_and a b; y \<leftarrow> mk_and c d; mk_or x y })
    (\<lambda>env. edge_val env m a \<and> edge_val env m b \<or> edge_val env m c \<and> edge_val env m d)"
  proof (rule makes_bind [OF makes_mk_and])
    fix x m1
    assume 1: "grows 1 m m1" "valid_edge m1 x" "\<And>env. edge_val env m1 x = (edge_val env m a \<and> edge_val env m b)"
    show "makes (1 + 1) m1 (do { y \<leftarrow> mk_and c d; mk_or x y })
      (\<lambda>env. edge_val env m a \<and> edge_val env m b \<or> edge_val env m c \<and> edge_val env m d)"
    proof (rule makes_bind [OF makes_mk_and])
      fix y m2
      assume 2: "grows 1 m1 m2" "valid_edge m2 y" "\<And>env. edge_val env m2 y = (edge_val env m1 c \<and> edge_val env m1 d)"
      show "makes 1 m2 (mk_or x y)
        (\<lambda>env. edge_val env m a \<and> edge_val env m b \<or> edge_val env m c \<and> edge_val env m d)"
        by (rule makes_cong [OF makes_mk_or])
          (use assms growsD [OF 1(1)] growsD [OF 2(1)] 1 2 in
            \<open>auto simp: grows_valid [OF 2(1)] grows_val [OF 2(1)] grows_val [OF 1(1)]\<close>)
    qed (use assms growsD [OF 1(1)] 1 in \<open>auto simp: grows_valid [OF 1(1)]\<close>)
  qed (use assms in auto)
  then show ?thesis by (simp add: numeral_3_eq_3)
qed

lemma makes_mk_xor:
  assumes "aig_wf m" "length (ag_nodes m) + 3 \<le> 2 ^ 31" "valid_edge m a" "valid_edge m b"
  shows "makes 3 m (mk_xor a b) (\<lambda>env. edge_val env m a \<noteq> edge_val env m b)"
  unfolding mk_xor_def
  by (rule makes_cong [OF makes_sum_of_products]) (use assms in auto)

lemma makes_mk_mux:
  assumes "aig_wf m" "length (ag_nodes m) + 3 \<le> 2 ^ 31" "valid_edge m s" "valid_edge m d0" "valid_edge m d1"
  shows "makes 3 m (mk_mux s d0 d1) (\<lambda>env. if edge_val env m s then edge_val env m d1 else edge_val env m d0)"
  unfolding mk_mux_def
  by (rule makes_cong [OF makes_sum_of_products]) (use assms in auto)

lemma add_input_spec:
  assumes wf: "aig_wf m" and room: "length (ag_nodes m) < 2 ^ 31"
    and run: "run_state (add_input n) m = (e, m')"
  shows "grows 1 m m'" "valid_edge m' e" "ag_net_edge m' n = Some e"
    "ag_net_edge m n = None \<Longrightarrow> edge_val env m' e = env n"
proof -
  let ?n = "length (ag_nodes m)"
  have "grows 1 m m' \<and> valid_edge m' e \<and> ag_net_edge m' n = Some e \<and> (ag_net_edge m n = None \<longrightarrow> edge_val env m' e = env n)"
  proof (cases "ag_net_edge m n")
    case (Some x)
    moreover have "grows 1 m m" using grows_mono [OF grows_refl [OF wf]] by simp
    ultimately show ?thesis using run aig_wfD(6) [OF wf] by (simp add: add_input_def)
  next
    case None
    define idx :: "32 word" where "idx = word_of_nat ?n"
    have idx: "unat idx = ?n" using room by (simp add: idx_def unat_word_of_nat31)
    have e: "e = edge_new idx False"
      and m': "m' = m\<lparr>ag_nodes := ag_nodes m @ [AInput n], ag_net_edge := (ag_net_edge m)(n \<mapsto> e)\<rparr>"
      using run None by (auto simp: add_input_def idx_def Let_def)
    have sel: "node_idx e = ?n" "\<not> is_negated e" using idx room by (simp_all add: e)
    have "aig_wf m'"
      unfolding aig_wf_def
    proof (intro conjI allI impI)
      show "and_ok i (ag_nodes m' ! i)" if "i < length (ag_nodes m')" for i
        using that aig_wfD(1,4) [OF wf] by (auto simp: m' nth_append and_ok_def less_Suc_eq)
      show "valid_edge m' x" if "ag_net_edge m' k = Some x" for k x
        using that aig_wfD(6) [OF wf, of k x] sel by (auto simp: m' valid_edge_def split: if_splits)
      show "ag_net_edge m' k = Some (edge_new (word_of_nat i) False)"
        if "i < length (ag_nodes m')" "ag_nodes m' ! i = AInput k" for i k
        using that aig_wfD(7) [OF wf, of i k] None by (auto simp: m' e idx_def nth_append less_Suc_eq)
      show "(ag_hash_cons m' (x, y) = Some j) =
          (unat j < length (ag_nodes m') \<and> ag_nodes m' ! unat j = AAnd x y)" for x y j
        using aig_wfD(5) [OF wf, of x y j] by (auto simp: m' nth_append less_Suc_eq)
    qed (use aig_wfD(1,3) [OF wf] room in \<open>simp_all add: m' nth_append\<close>)
    then have v: "valid_edge m' e" "\<And>env. edge_val env m' e = env n"
      using sel edge_val_node [of m' e] by (simp_all add: valid_edge_def m')
    have "ag_net_edge m x = Some y \<or> edge_val env m' y = env x" if "ag_net_edge m' x = Some y" for x y env
      using that v(2) by (cases "x = n") (auto simp: m')
    then have "grows 1 m m'" using \<open>aig_wf m'\<close> None by (auto simp: grows_def m' map_le_def)
    then show ?thesis using v by (simp add: m')
  qed
  then show "grows 1 m m'" "valid_edge m' e" "ag_net_edge m' n = Some e"
    "ag_net_edge m n = None \<Longrightarrow> edge_val env m' e = env n" by simp_all
qed


subsection \<open>Sharing\<close>

lemma grows_nth:
  assumes "grows k m m'" "i < length (ag_nodes m)"
  shows "i < length (ag_nodes m')" "ag_nodes m' ! i = ag_nodes m ! i"
  using assms by (auto simp: grows_def prefix_def nth_append)

lemma grows_hash: "aig_wf m \<Longrightarrow> grows k m m' \<Longrightarrow> ag_hash_cons m (a, b) = Some idx \<Longrightarrow> ag_hash_cons m' (a, b) = Some idx"
  using aig_wfD(5) [of m a b idx] aig_wfD(5) [of m' a b idx] growsD(1) [of k m m'] grows_nth [of k m m' "unat idx"]
  by simp

lemma intern_and_shares:
  assumes "aig_wf m" "run_state (intern_and a b) m = (e, m1)" "aig_wf m1" "grows k m1 m2"
  shows "run_state (intern_and a b) m2 = (e, m2)"
proof -
  have "\<exists>idx. ag_hash_cons m1 (a, b) = Some idx \<and> e = edge_new idx False"
    using assms(2) by (auto simp: intern_and_def Let_def split: option.splits)
  then obtain idx where "ag_hash_cons m1 (a, b) = Some idx" "e = edge_new idx False" by blast
  then show ?thesis using grows_hash [OF assms(3,4)] by (simp add: intern_and_def)
qed

lemma negate_negate [simp]: "negate (negate e) = e"
  by (simp add: edge_eq_iff)

lemma mk_and_comm: "mk_and a b = mk_and b a"
proof -
  have "raw a = raw b \<Longrightarrow> a = b" by (rule aig_edge.expand)
  then show ?thesis unfolding mk_and_def by (cases "raw a > raw b") auto
qed

lemma mk_and_again:
  assumes "aig_wf m" "run_state (mk_and a b) m = (e, m1)" "aig_wf m1" "grows k m1 m2"
  shows "run_state (mk_and a b) m2 = (e, m2)"
  using assms intern_and_shares [OF assms(1) _ assms(3,4)]
  by (auto simp: mk_and_def split: if_splits)

text \<open>
  C23: the four gate constructors of the graph. Called on a well-formed graph with room for
  three more nodes and on edges of that graph, \<open>mk_and\<close>, \<open>mk_or\<close>, \<open>mk_xor\<close> and \<open>mk_mux\<close>
  return an edge of the new graph whose value is the gate's function of the operands' values
  under every assignment of the inputs, keep the graph well formed and keep the value of
  every edge that existed.
\<close>

theorem aig_gates_correct:
  assumes wf: "aig_wf m" and room: "length (ag_nodes m) + 3 \<le> 2 ^ 31"
    and v: "valid_edge m a" "valid_edge m b" "valid_edge m s"
    and op: "(f, g) \<in> set [(mk_and a b, \<lambda>env. edge_val env m a \<and> edge_val env m b),
        (mk_or a b, \<lambda>env. edge_val env m a \<or> edge_val env m b),
        (mk_xor a b, \<lambda>env. edge_val env m a \<noteq> edge_val env m b),
        (mk_mux s a b, \<lambda>env. if edge_val env m s then edge_val env m b else edge_val env m a)]"
    and run: "run_state f m = (e, m')"
  shows "aig_wf m' \<and> valid_edge m' e \<and> edge_val env m' e = g env \<and>
    (valid_edge m x \<longrightarrow> valid_edge m' x \<and> edge_val env m' x = edge_val env m x)"
proof -
  have 1: "makes 3 m (mk_and a b) (\<lambda>env. edge_val env m a \<and> edge_val env m b)"
    by (rule makes_cong [OF makes_mk_and [OF wf _ v(1,2)]]) (use room in simp_all)
  have 2: "makes 3 m (mk_or a b) (\<lambda>env. edge_val env m a \<or> edge_val env m b)"
    by (rule makes_cong [OF makes_mk_or [OF wf _ v(1,2)]]) (use room in simp_all)
  have "makes 3 m f g"
    using op unfolding list.set insert_iff empty_iff prod.inject
    by (elim disjE conjE FalseE)
      (simp_all only: 1 2 makes_mk_xor [OF wf room v(1,2)] makes_mk_mux [OF wf room v(3,1,2)])
  then have "grows 3 m m'" "valid_edge m' e" "edge_val env m' e = g env" by (simp_all add: makes_def run)
  then show ?thesis by (simp add: growsD grows_valid grows_val)
qed

text \<open>A small graph: the inputs 7 and 9.\<close>

definition two_inputs :: aig_module where
  "two_inputs = snd (run_state (do { _ \<leftarrow> add_input 7; add_input 9 }) aig_new)"

lemma two_inputs_ok:
  "aig_wf two_inputs" "length (ag_nodes two_inputs) = 3" "valid_edge two_inputs (AigEdge 2)" "valid_edge two_inputs (AigEdge 4)"
proof -
  obtain e m where r: "run_state (add_input 7) aig_new = (e, m)" by fastforce
  obtain e' m' where r': "run_state (add_input 9) m = (e', m')" by fastforce
  have g: "grows 1 aig_new m" using add_input_spec(1) [OF aig_wf_new _ r] by (simp add: aig_new_def)
  have "length (ag_nodes m) \<le> 2" using g by (simp add: grows_def aig_new_def)
  then have "grows 1 m m'" using add_input_spec(1) [OF growsD(1) [OF g] _ r'] by simp
  then show "aig_wf two_inputs" using growsD(1) by (simp add: two_inputs_def r r')
  show "length (ag_nodes two_inputs) = 3" by (simp add: two_inputs_def add_input_def aig_new_def Let_def)
  then show "valid_edge two_inputs (AigEdge 2)" "valid_edge two_inputs (AigEdge 4)"
    by (simp_all add: valid_edge_def node_idx_def edge_node_def drop_bit_eq_div)
qed

theorem aig_gates_correct_witness:
  "aig_wf (snd (run_state (mk_xor (AigEdge 2) (AigEdge 4)) two_inputs)) \<and>
   edge_val (\<lambda>n. n = 7) (snd (run_state (mk_xor (AigEdge 2) (AigEdge 4)) two_inputs))
     (fst (run_state (mk_xor (AigEdge 2) (AigEdge 4)) two_inputs)) =
   (edge_val (\<lambda>n. n = 7) two_inputs (AigEdge 2) \<noteq> edge_val (\<lambda>n. n = 7) two_inputs (AigEdge 4))"
  using aig_gates_correct [OF two_inputs_ok(1) _ two_inputs_ok(3,4,3),
      where f = "mk_xor (AigEdge 2) (AigEdge 4)"
        and g = "\<lambda>env. edge_val env two_inputs (AigEdge 2) \<noteq> edge_val env two_inputs (AigEdge 4)" and x = "AigEdge 2" and env = "\<lambda>n. n = 7"
        and e = "fst (run_state (mk_xor (AigEdge 2) (AigEdge 4)) two_inputs)"
        and m' = "snd (run_state (mk_xor (AigEdge 2) (AigEdge 4)) two_inputs)"] two_inputs_ok(2)
  by simp

text \<open>
  Structural sharing. Once \<open>mk_and a b\<close> has been built, building it again, with the
  operands in either order and on any graph grown from the first, returns the same edge and
  adds nothing; and no two AND nodes of a well-formed graph have the same fanins.
\<close>

theorem mk_and_shared:
  assumes "aig_wf m" "length (ag_nodes m) < 2 ^ 31" "valid_edge m a" "valid_edge m b"
    and "run_state (mk_and a b) m = (e, m1)" and "grows k m1 m2"
  shows "run_state (mk_and a b) m2 = (e, m2) \<and> run_state (mk_and b a) m2 = (e, m2) \<and>
    (i < length (ag_nodes m2) \<and> j < length (ag_nodes m2) \<and>
     is_and (ag_nodes m2 ! i) \<and> ag_nodes m2 ! i = ag_nodes m2 ! j \<longrightarrow> i = j)"
proof -
  have wf1: "aig_wf m1" using mk_and_spec(1) [OF assms(1-5)] growsD(1) by blast
  have wf2: "aig_wf m2" using assms(6) growsD(1) by blast
  have "i = j" if that: "i < length (ag_nodes m2)" "j < length (ag_nodes m2)" "ag_nodes m2 ! i = ag_nodes m2 ! j"
    and a: "is_and (ag_nodes m2 ! i)"
  proof -
    obtain x y where n: "ag_nodes m2 ! i = AAnd x y" using a by (cases "ag_nodes m2 ! i") auto
    have "ag_hash_cons m2 (x, y) = Some (word_of_nat i)" "ag_hash_cons m2 (x, y) = Some (word_of_nat j)"
      using aig_wfD(2,5) [OF wf2] that n by (simp_all add: unat_word_of_nat31)
    then have "unat (word_of_nat i :: 32 word) = unat (word_of_nat j :: 32 word)" by simp
    then show ?thesis using aig_wfD(2) [OF wf2] that by (simp add: unat_word_of_nat31)
  qed
  then show ?thesis
    using mk_and_again [OF assms(1,5) wf1 assms(6)] unfolding mk_and_comm [of b a] by blast
qed

theorem mk_and_shared_witness:
  "run_state (mk_and (AigEdge 4) (AigEdge 2)) (snd (run_state (mk_and (AigEdge 2) (AigEdge 4)) two_inputs)) =
    run_state (mk_and (AigEdge 2) (AigEdge 4)) two_inputs"
proof -
  obtain e m1 where r: "run_state (mk_and (AigEdge 2) (AigEdge 4)) two_inputs = (e, m1)" by fastforce
  have "aig_wf m1"
    using mk_and_spec(1) [OF two_inputs_ok(1) _ two_inputs_ok(3,4) r] growsD(1) two_inputs_ok(2) by simp
  then show ?thesis
    using mk_and_shared [OF two_inputs_ok(1) _ two_inputs_ok(3,4) r grows_refl] r two_inputs_ok(2) by simp
qed

end
