(* ===== verification/Npn4.thy ===== *)
theory Npn4
  imports Prelude "HOL-Library.Word"
begin

section \<open>4-variable truth tables and NPN classes (\<open>aig/npn4.rs\<close>)\<close>

text \<open>
  Truth tables of four variables packed into a \<open>u16\<close>, the transforms that permute and negate
  their inputs and negate their output, and the canonical form: the smallest table that any
  of the 768 transforms reaches.  Loop counters, permutation entries and masks (\<open>u8\<close> and
  \<open>u32\<close>, all below 16) are natural numbers; the tables are words.  The lazily built
  table of permuted tables (\<open>OnceLock\<close>) is the value its initialiser computes.
\<close>

unbundle bit_operations_syntax

type_synonym tt4 = "16 word"

definition VAR_TT :: "tt4 list" where
  "VAR_TT = [0xAAAA, 0xCCCC, 0xF0F0, 0xFF00]"

definition MAX_ANDS :: nat where "MAX_ANDS = 3"

definition ALL_PERMS :: "nat list list" where
  "ALL_PERMS = [
    [0, 1, 2, 3], [0, 1, 3, 2], [0, 2, 1, 3], [0, 2, 3, 1], [0, 3, 1, 2], [0, 3, 2, 1],
    [1, 0, 2, 3], [1, 0, 3, 2], [1, 2, 0, 3], [1, 2, 3, 0], [1, 3, 0, 2], [1, 3, 2, 0],
    [2, 0, 1, 3], [2, 0, 3, 1], [2, 1, 0, 3], [2, 1, 3, 0], [2, 3, 0, 1], [2, 3, 1, 0],
    [3, 0, 1, 2], [3, 0, 2, 1], [3, 1, 0, 2], [3, 1, 2, 0], [3, 2, 0, 1], [3, 2, 1, 0]]"

definition perm_index :: "nat list \<Rightarrow> nat \<Rightarrow> nat" where
  "perm_index perm m = fold (\<lambda>(i, p) mprime. mprime OR push_bit p (drop_bit i m AND 1)) (enumerate 0 perm) 0"

definition perm_tt :: "tt4 \<Rightarrow> nat list \<Rightarrow> tt4" where
  "perm_tt tt perm = ucast (fold (\<lambda>m out. out OR push_bit m (drop_bit (perm_index perm m) (ucast tt) AND 1))
     [0..<16] (0 :: 32 word))"

definition flip_inputs :: "tt4 \<Rightarrow> nat \<Rightarrow> tt4" where
  "flip_inputs tt msk = ucast (fold (\<lambda>m out. out OR push_bit m (drop_bit (m XOR (msk AND 0xF)) (ucast tt) AND 1))
     [0..<16] (0 :: 32 word))"

record npn_transform =
  t_perm :: "nat list"
  t_in_neg :: nat
  t_out_neg :: bool

definition IDENTITY :: npn_transform where
  "IDENTITY = \<lparr>t_perm = [0, 1, 2, 3], t_in_neg = 0, t_out_neg = False\<rparr>"

definition npn_apply :: "npn_transform \<Rightarrow> tt4 \<Rightarrow> tt4" where
  "npn_apply t tt =
     (let u = perm_tt tt (t_perm t);
          u = flip_inputs u (t_in_neg t)
      in if t_out_neg t then NOT u else u)"

definition perm_table :: "tt4 list" where
  "perm_table = concat (map (\<lambda>perm. map (\<lambda>tt. perm_tt (word_of_nat tt) perm) [0..<65536]) ALL_PERMS)"

definition npn_try :: "nat list \<Rightarrow> tt4 \<Rightarrow> nat \<Rightarrow> tt4 \<times> npn_transform \<Rightarrow> tt4 \<times> npn_transform" where
  "npn_try perm permed in_neg best =
     (let flipped = flip_inputs permed in_neg;
          best = (if flipped < fst best then (flipped, \<lparr>t_perm = perm, t_in_neg = in_neg, t_out_neg = False\<rparr>) else best);
          neg = NOT flipped
      in if neg < fst best then (neg, \<lparr>t_perm = perm, t_in_neg = in_neg, t_out_neg = True\<rparr>) else best)"

definition npn_canonical :: "tt4 \<Rightarrow> tt4 \<times> npn_transform" where
  "npn_canonical tt = fold (\<lambda>(pi, perm) best.
      let permed = perm_table ! (pi * 65536 + unat tt)
      in fold (npn_try perm permed) [0..<16] best) (enumerate 0 ALL_PERMS) (tt, IDENTITY)"

subsection \<open>Truth tables bit by bit\<close>

lemma bit_gather:
  "n \<le> 32 \<Longrightarrow> bit (fold (\<lambda>m out. out OR push_bit m (f m AND 1)) [0..<n] (0 :: 32 word)) k \<longleftrightarrow> k < n \<and> bit (f k) 0"
proof (induction n)
  case (Suc n)
  have one: "bit (push_bit n (x AND 1) :: 32 word) k \<longleftrightarrow> k = n \<and> bit x 0" for x
    unfolding bit_push_bit_iff bit_and_iff bit_1_iff using Suc.prems by auto
  have step: "fold (\<lambda>m out. out OR push_bit m (f m AND 1)) [0..<Suc n] (0 :: 32 word) =
      fold (\<lambda>m out. out OR push_bit m (f m AND 1)) [0..<n] 0 OR push_bit n (f n AND 1)"
    by (simp del: push_bit_and)
  have ih: "bit (fold (\<lambda>m out. out OR push_bit m (f m AND 1)) [0..<n] (0 :: 32 word)) k \<longleftrightarrow> k < n \<and> bit (f k) 0"
    using Suc by simp
  show ?case unfolding step bit_or_iff one ih by (auto simp: less_Suc_eq simp del: bit_0)
qed simp

lemma bit_table:
  "bit (ucast (fold (\<lambda>m out. out OR push_bit m (drop_bit (g m) (ucast tt) AND 1)) [0..<16] (0 :: 32 word)) :: tt4) k
    \<longleftrightarrow> k < 16 \<and> bit (tt :: tt4) (g k)"
proof -
  let ?w = "\<lambda>m. drop_bit (g m) (ucast tt) :: 32 word"
  have 1: "bit (ucast w :: tt4) k \<longleftrightarrow> k < 16 \<and> bit w k" for w :: "32 word"
    unfolding bit_ucast_iff by simp
  have 2: "bit (?w k) 0 = bit tt (g k)"
    unfolding bit_drop_bit_eq o_def bit_ucast_iff by (auto dest: bit_imp_le_length)
  show ?thesis
    unfolding 1 bit_gather [of 16 ?w, simplified numeral_le_iff] using bit_gather [of 16 ?w k] 2 by auto
qed

lemma bit_perm_tt: "bit (perm_tt tt perm) m \<longleftrightarrow> m < 16 \<and> bit tt (perm_index perm m)"
  unfolding perm_tt_def by (rule bit_table)

lemma bit_flip_inputs: "bit (flip_inputs tt msk) m \<longleftrightarrow> m < 16 \<and> bit tt (m XOR (msk AND 0xF))"
  unfolding flip_inputs_def by (rule bit_table)

lemma tt4_eqI: "(\<And>m. m < 16 \<Longrightarrow> bit (a :: tt4) m = bit b m) \<Longrightarrow> a = b"
  by (rule bit_word_eqI) simp

subsection \<open>Permutations of four variables\<close>

definition perm_inv :: "nat list \<Rightarrow> nat list" where
  "perm_inv perm = fold (\<lambda>(i, p) inv. inv[p := i]) (enumerate 0 perm) [0, 0, 0, 0]"

lemma perms_checked:
  "list_all (\<lambda>p. length p = 4 \<and> perm_inv p \<in> set ALL_PERMS \<and>
     list_all (\<lambda>i. p ! i < 4 \<and> perm_inv p ! i < 4 \<and> perm_inv p ! (p ! i) = i \<and> p ! (perm_inv p ! i) = i) [0..<4]) ALL_PERMS"
  by code_simp

lemma perms_composed:
  "list_all (\<lambda>p. list_all (\<lambda>q. map ((!) q) p \<in> set ALL_PERMS) ALL_PERMS) ALL_PERMS"
  by code_simp

text \<open>What the two checks say of a permutation.\<close>

lemma perm_facts:
  assumes "p \<in> set ALL_PERMS"
  shows "length p = 4" "perm_inv p \<in> set ALL_PERMS"
    "i < 4 \<Longrightarrow> p ! i < 4" "i < 4 \<Longrightarrow> perm_inv p ! i < 4"
    "i < 4 \<Longrightarrow> perm_inv p ! (p ! i) = i" "i < 4 \<Longrightarrow> p ! (perm_inv p ! i) = i"
  using perms_checked assms unfolding list_all_iff by auto

lemma perm_compose: "p \<in> set ALL_PERMS \<Longrightarrow> q \<in> set ALL_PERMS \<Longrightarrow> map ((!) q) p \<in> set ALL_PERMS"
  using perms_composed unfolding list_all_iff by blast

lemma perm_inv_unique:
  assumes "p \<in> set ALL_PERMS" "i < 4" "j < 4" "p ! i = j"
  shows "perm_inv p ! j = i"
  using perm_facts(5) [OF assms(1,2)] assms(4) by simp

lemma perm_list: "p \<in> set ALL_PERMS \<Longrightarrow> p = [p ! 0, p ! 1, p ! 2, p ! 3]"
  using perm_facts(1) [of p] by (auto simp: numeral_eq_Suc length_Suc_conv)

lemma perm_index_gather:
  "perm_index [a, b, c, d] m =
     push_bit a (drop_bit 0 m AND 1) OR push_bit b (drop_bit 1 m AND 1) OR push_bit c (drop_bit 2 m AND 1) OR push_bit d (drop_bit 3 m AND 1)"
proof -
  have e: "enumerate 0 [a, b, c, d] = [(0, a), (1, b), (2, c), (3, d)]" by (simp add: numeral_eq_Suc)
  show ?thesis unfolding perm_index_def e by (simp add: or.assoc del: push_bit_and)
qed

lemma bit_moved: "bit (push_bit p (drop_bit i m AND 1) :: nat) j \<longleftrightarrow> j = p \<and> bit m i"
proof -
  have "bit (drop_bit i m AND 1) (j - p) \<longleftrightarrow> j - p = 0 \<and> bit m i"
    unfolding bit_and_iff bit_drop_bit_eq bit_1_iff by auto
  then show ?thesis unfolding bit_push_bit_iff by auto
qed

text \<open>Bit \<open>j\<close> of the permuted index is the bit of the old one that the permutation sends to \<open>j\<close>.\<close>

lemma bit_perm_index:
  assumes p: "p \<in> set ALL_PERMS"
  shows "bit (perm_index p m) j \<longleftrightarrow> j < 4 \<and> bit m (perm_inv p ! j)"
proof -
  have all4: "(\<exists>i < 4. P i) \<longleftrightarrow> P 0 \<or> P 1 \<or> P 2 \<or> P (3 :: nat)" for P
    by (auto simp: numeral_eq_Suc less_Suc_eq)
  have "bit (perm_index p m) j \<longleftrightarrow> (\<exists>i < 4. j = p ! i \<and> bit m i)"
    unfolding all4 perm_list [OF p, THEN arg_cong, of "\<lambda>p. perm_index p m"] perm_index_gather bit_or_iff
      bit_moved by blast
  also have "\<dots> \<longleftrightarrow> j < 4 \<and> bit m (perm_inv p ! j)"
    using perm_facts [OF p] perm_inv_unique [OF p] by metis
  finally show ?thesis .
qed

lemma nat_bits_lt: "(\<And>j. bit (m :: nat) j \<Longrightarrow> j < k) \<Longrightarrow> m < 2 ^ k"
proof -
  assume "\<And>j. bit m j \<Longrightarrow> j < k"
  then have "take_bit k m = m" by (intro bit_eqI) (auto simp: bit_take_bit_iff)
  then show ?thesis by (simp add: take_bit_nat_eq_self_iff)
qed

lemma perm_index_lt: "p \<in> set ALL_PERMS \<Longrightarrow> perm_index p m < 16"
  using nat_bits_lt [of "perm_index p m" 4] by (simp add: bit_perm_index)

lemma nat_bit_lt: "m < 16 \<Longrightarrow> bit (m :: nat) j \<Longrightarrow> j < 4"
proof -
  assume "m < 16" "bit m j"
  then have "take_bit 4 m = m" by (simp add: take_bit_nat_eq_self_iff)
  with \<open>bit m j\<close> show ?thesis by (metis bit_take_bit_iff)
qed

lemma xor_lt: "m < 16 \<Longrightarrow> n < 16 \<Longrightarrow> m XOR n < (16 :: nat)"
  using nat_bits_lt [of "m XOR n" 4] nat_bit_lt by (auto simp: bit_xor_iff)

lemma masked: "n < 16 \<Longrightarrow> n AND 0xF = (n :: nat)"
proof -
  assume "n < 16"
  then have "take_bit 4 n = n" by (simp add: take_bit_nat_eq_self_iff)
  then show ?thesis by (simp add: take_bit_eq_mask mask_eq_exp_minus_1)
qed

subsection \<open>Transforms\<close>

definition transform_ok :: "npn_transform \<Rightarrow> bool" where
  "transform_ok t \<longleftrightarrow> t_perm t \<in> set ALL_PERMS \<and> t_in_neg t < 16"

text \<open>The index of the old table that a transform reads for index \<open>m\<close> of the new one.\<close>

definition cube_index :: "npn_transform \<Rightarrow> nat \<Rightarrow> nat" where
  "cube_index t m = perm_index (t_perm t) (m XOR t_in_neg t)"

lemma bit_npn_apply:
  assumes "transform_ok t" "m < 16"
  shows "bit (npn_apply t tt) m \<longleftrightarrow> bit tt (cube_index t m) \<noteq> t_out_neg t"
proof -
  have "bit (flip_inputs (perm_tt tt (t_perm t)) (t_in_neg t)) m = bit tt (cube_index t m)"
    using assms by (simp add: bit_flip_inputs bit_perm_tt cube_index_def masked transform_ok_def xor_lt)
  then show ?thesis using assms(2) by (simp add: npn_apply_def Let_def bit_not_iff)
qed

lemma bit_cube_index:
  assumes "transform_ok t"
  shows "bit (cube_index t m) j \<longleftrightarrow> j < 4 \<and> (bit m (perm_inv (t_perm t) ! j) \<noteq> bit (t_in_neg t) (perm_inv (t_perm t) ! j))"
  using assms by (simp add: cube_index_def bit_perm_index transform_ok_def bit_xor_iff)

lemma cube_index_lt: "transform_ok t \<Longrightarrow> cube_index t m < 16"
  by (simp add: cube_index_def transform_ok_def perm_index_lt)

text \<open>Transforms form a group: they compose, and each can be undone.\<close>

definition npn_compose :: "npn_transform \<Rightarrow> npn_transform \<Rightarrow> npn_transform" where
  "npn_compose t u = \<lparr>t_perm = map ((!) (t_perm u)) (t_perm t),
     t_in_neg = t_in_neg t XOR perm_index (perm_inv (t_perm t)) (t_in_neg u),
     t_out_neg = (t_out_neg t \<noteq> t_out_neg u)\<rparr>"

definition npn_undo :: "npn_transform \<Rightarrow> npn_transform" where
  "npn_undo t = \<lparr>t_perm = perm_inv (t_perm t), t_in_neg = perm_index (t_perm t) (t_in_neg t), t_out_neg = t_out_neg t\<rparr>"

lemma npn_group_sel [simp]:
  "t_perm (npn_compose t u) = map ((!) (t_perm u)) (t_perm t)"
  "t_in_neg (npn_compose t u) = t_in_neg t XOR perm_index (perm_inv (t_perm t)) (t_in_neg u)"
  "t_out_neg (npn_compose t u) = (t_out_neg t \<noteq> t_out_neg u)"
  "t_perm (npn_undo t) = perm_inv (t_perm t)"
  "t_in_neg (npn_undo t) = perm_index (t_perm t) (t_in_neg t)"
  "t_out_neg (npn_undo t) = t_out_neg t"
  by (simp_all add: npn_compose_def npn_undo_def)

lemma compose_ok: "transform_ok t \<Longrightarrow> transform_ok u \<Longrightarrow> transform_ok (npn_compose t u)"
  by (simp add: transform_ok_def perm_compose xor_lt perm_index_lt perm_facts)

lemma undo_ok: "transform_ok t \<Longrightarrow> transform_ok (npn_undo t)"
  by (simp add: transform_ok_def perm_index_lt perm_facts)

lemma perm_inv_compose:
  assumes p: "p \<in> set ALL_PERMS" and q: "q \<in> set ALL_PERMS" and j: "j < 4"
  shows "perm_inv (map ((!) q) p) ! j = perm_inv p ! (perm_inv q ! j)"
proof (rule perm_inv_unique [OF perm_compose [OF p q]])
  have a: "perm_inv q ! j < 4" using perm_facts(4) [OF q j] .
  show "perm_inv p ! (perm_inv q ! j) < 4" using perm_facts(4) [OF p a] .
  then show "map ((!) q) p ! (perm_inv p ! (perm_inv q ! j)) = j"
    using perm_facts(1,6) [OF p] perm_facts(6) [OF q j] a by simp
qed (rule j)

lemma perm_inv_inv: "p \<in> set ALL_PERMS \<Longrightarrow> j < 4 \<Longrightarrow> perm_inv (perm_inv p) ! j = p ! j"
  by (rule perm_inv_unique [OF perm_facts(2)]) (simp_all add: perm_facts)

lemma cube_index_compose:
  assumes "transform_ok t" "transform_ok u"
  shows "cube_index (npn_compose t u) m = cube_index u (cube_index t m)"
proof (rule bit_eqI)
  fix j
  have pt: "t_perm t \<in> set ALL_PERMS" and pu: "t_perm u \<in> set ALL_PERMS"
    using assms by (simp_all add: transform_ok_def)
  show "bit (cube_index (npn_compose t u) m) j = bit (cube_index u (cube_index t m)) j"
  proof (cases "j < 4")
    case True
    have a: "perm_inv (t_perm u) ! j < 4" using perm_facts(4) [OF pu True] .
    have b: "perm_inv (t_perm t) ! (perm_inv (t_perm u) ! j) < 4" using perm_facts(4) [OF pt a] .
    have c: "t_perm t ! (perm_inv (t_perm t) ! (perm_inv (t_perm u) ! j)) = perm_inv (t_perm u) ! j"
      using perm_facts(6) [OF pt a] .
    show ?thesis
      using True a b c
      by (auto simp: bit_cube_index [OF compose_ok [OF assms]] bit_cube_index [OF assms(1)] bit_cube_index [OF assms(2)]
          perm_inv_compose [OF pt pu True] bit_xor_iff bit_perm_index [OF perm_facts(2) [OF pt]]
          perm_inv_inv [OF pt b])
  qed (simp add: bit_cube_index [OF compose_ok [OF assms]] bit_cube_index [OF assms(2)])
qed

lemma cube_index_undo:
  assumes t: "transform_ok t" and m: "m < 16"
  shows "cube_index t (cube_index (npn_undo t) m) = m"
proof (rule bit_eqI)
  fix j
  have pt: "t_perm t \<in> set ALL_PERMS" using t by (simp add: transform_ok_def)
  show "bit (cube_index t (cube_index (npn_undo t) m)) j = bit m j"
  proof (cases "j < 4")
    case True
    have a: "perm_inv (t_perm t) ! j < 4" using perm_facts(4) [OF pt True] .
    have c: "t_perm t ! (perm_inv (t_perm t) ! j) = j" using perm_facts(6) [OF pt True] .
    show ?thesis
      using True a c
      by (auto simp: bit_cube_index [OF t] bit_cube_index [OF undo_ok [OF t]]
          perm_inv_inv [OF pt a] bit_perm_index [OF pt])
  next
    case False
    then show ?thesis using nat_bit_lt [OF m] by (auto simp: bit_cube_index [OF t])
  qed
qed

lemma apply_compose:
  assumes "transform_ok t" "transform_ok u"
  shows "npn_apply t (npn_apply u tt) = npn_apply (npn_compose t u) tt"
  by (rule tt4_eqI)
    (auto simp: bit_npn_apply assms compose_ok cube_index_lt cube_index_compose)

lemma apply_undo:
  assumes "transform_ok t"
  shows "npn_apply (npn_undo t) (npn_apply t tt) = tt"
  by (rule tt4_eqI)
    (auto simp: bit_npn_apply assms undo_ok cube_index_lt cube_index_undo)

lemma identity_ok: "transform_ok IDENTITY"
  by (simp add: transform_ok_def IDENTITY_def ALL_PERMS_def)

lemma identity_sel [simp]: "t_in_neg IDENTITY = 0" "\<not> t_out_neg IDENTITY"
  by (simp_all add: IDENTITY_def)

lemma cube_index_identity: "m < 16 \<Longrightarrow> cube_index IDENTITY m = m"
proof -
  assume m: "m < 16"
  have "perm_inv [0, 1, 2, 3] = [0, 1, 2, 3]" by code_simp
  then have "perm_inv (t_perm IDENTITY) ! j = j" if "j < 4" for j
    using that by (auto simp: IDENTITY_def numeral_eq_Suc less_Suc_eq)
  then show ?thesis
    using nat_bit_lt [OF m] by (intro bit_eqI) (auto simp: bit_cube_index [OF identity_ok])
qed

lemma apply_identity: "npn_apply IDENTITY tt = tt"
  by (rule tt4_eqI) (simp add: bit_npn_apply identity_ok cube_index_identity)

subsection \<open>The canonical form\<close>

lemma nth_concat_blocks:
  "(\<And>ys. ys \<in> set xss \<Longrightarrow> length ys = k) \<Longrightarrow> i < length xss \<Longrightarrow> j < k \<Longrightarrow> concat xss ! (i * k + j) = xss ! i ! j"
proof (induction xss arbitrary: i)
  case (Cons xs xss)
  then show ?case by (cases i) (simp_all add: nth_append)
qed simp

lemma perm_table_nth:
  assumes "pi < length ALL_PERMS"
  shows "perm_table ! (pi * 65536 + unat tt) = perm_tt tt (ALL_PERMS ! pi)"
proof -
  have lt: "unat tt < 65536" using unsigned_less [of tt] by simp
  have "perm_table ! (pi * 65536 + unat tt) =
      map (\<lambda>perm. map (\<lambda>tt. perm_tt (word_of_nat tt) perm) [0..<65536]) ALL_PERMS ! pi ! unat tt"
    unfolding perm_table_def
  proof (rule nth_concat_blocks)
    show "length ys = 65536" if "ys \<in> set (map (\<lambda>perm. map (\<lambda>tt. perm_tt (word_of_nat tt) perm) [0..<65536]) ALL_PERMS)" for ys
      using that by (auto simp only: set_map length_map length_upt diff_zero)
  qed (use assms lt in \<open>simp_all only: length_map\<close>)
  also have "\<dots> = perm_tt tt (ALL_PERMS ! pi)"
    using assms lt by (simp only: nth_map length_map length_upt diff_zero nth_upt add_0 of_nat_unat ucast_id)
  finally show ?thesis .
qed

text \<open>The transforms in the order the search tries them.\<close>

definition all_transforms :: "npn_transform list" where
  "all_transforms = [\<lparr>t_perm = p, t_in_neg = n, t_out_neg = x\<rparr>. p \<leftarrow> ALL_PERMS, n \<leftarrow> [0..<16], x \<leftarrow> [False, True]]"

lemma set_all_transforms: "set all_transforms = {t. transform_ok t}"
proof (rule set_eqI)
  fix t :: npn_transform
  show "t \<in> set all_transforms \<longleftrightarrow> t \<in> {t. transform_ok t}"
    by (cases t) (auto simp: all_transforms_def transform_ok_def simp del: upt_rec_numeral intro!: bexI)
qed

definition keep_smaller :: "tt4 \<Rightarrow> npn_transform \<Rightarrow> tt4 \<times> npn_transform \<Rightarrow> tt4 \<times> npn_transform" where
  "keep_smaller tt t best = (if npn_apply t tt < fst best then (npn_apply t tt, t) else best)"

lemma fold_concat_map: "fold f (concat (map g xs)) s = fold (\<lambda>x. fold f (g x)) xs s"
  by (induction xs arbitrary: s) simp_all

lemma npn_try_steps:
  "npn_try p (perm_tt tt p) n best =
     fold (keep_smaller tt) [\<lparr>t_perm = p, t_in_neg = n, t_out_neg = x\<rparr>. x \<leftarrow> [False, True]] best"
  by (simp add: npn_try_def keep_smaller_def npn_apply_def Let_def)

lemma fold_enumerate:
  "(\<And>i s. i < length xs \<Longrightarrow> f (i + k, xs ! i) s = g (xs ! i) s) \<Longrightarrow> fold f (enumerate k xs) s = fold g xs s"
proof (induction xs arbitrary: k s)
  case (Cons x xs)
  have "fold f (enumerate (Suc k) xs) s = fold g xs s" for s
  proof (rule Cons.IH)
    show "f (i + Suc k, xs ! i) s = g (xs ! i) s" if "i < length xs" for i s
      using Cons.prems [of "Suc i"] that by simp
  qed
  moreover have "f (k, x) s = g x s" using Cons.prems [of 0] by simp
  ultimately show ?case by simp
qed simp

lemma npn_canonical_search: "npn_canonical tt = fold (keep_smaller tt) all_transforms (tt, IDENTITY)"
proof -
  let ?inner = "\<lambda>p. fold (npn_try p (perm_tt tt p)) [0..<16]"
  have "npn_canonical tt = fold ?inner ALL_PERMS (tt, IDENTITY)"
    unfolding npn_canonical_def
  proof (rule fold_enumerate)
    show "(case (i + 0, ALL_PERMS ! i) of (pi, perm) \<Rightarrow> \<lambda>best.
        let permed = perm_table ! (pi * 65536 + unat tt) in fold (npn_try perm permed) [0..<16] best) s =
        ?inner (ALL_PERMS ! i) s" if "i < length ALL_PERMS" for i s
      unfolding Let_def prod.case add_0_right perm_table_nth [OF that] ..
  qed
  also have "\<dots> = fold (keep_smaller tt) all_transforms (tt, IDENTITY)"
    unfolding all_transforms_def fold_concat_map
    by (rule arg_cong [of _ _ "\<lambda>f. fold f ALL_PERMS (tt, IDENTITY)"])
      (rule ext, rule ext, rule fold_cong [OF refl refl], rule ext, rule npn_try_steps)
  finally show ?thesis .
qed

lemma keep_smaller_fold:
  assumes "\<And>t. t \<in> set ts \<Longrightarrow> transform_ok t"
    and "npn_apply (snd b) tt = fst b" "transform_ok (snd b)"
  shows "npn_apply (snd (fold (keep_smaller tt) ts b)) tt = fst (fold (keep_smaller tt) ts b)
    \<and> transform_ok (snd (fold (keep_smaller tt) ts b))
    \<and> fst (fold (keep_smaller tt) ts b) \<le> fst b
    \<and> (\<forall>t \<in> set ts. fst (fold (keep_smaller tt) ts b) \<le> npn_apply t tt)"
  using assms
proof (induction ts arbitrary: b)
  case (Cons t ts)
  have "fst (keep_smaller tt t b) \<le> fst b" "fst (keep_smaller tt t b) \<le> npn_apply t tt"
    by (auto simp: keep_smaller_def)
  moreover have "npn_apply (snd (keep_smaller tt t b)) tt = fst (keep_smaller tt t b)" "transform_ok (snd (keep_smaller tt t b))"
    using Cons.prems by (simp_all add: keep_smaller_def)
  ultimately show ?case
    using Cons.IH [of "keep_smaller tt t b"] Cons.prems(1) by force
qed simp

lemma npn_canonical_facts:
  "npn_apply (snd (npn_canonical tt)) tt = fst (npn_canonical tt)"
  "transform_ok (snd (npn_canonical tt))"
  "transform_ok t \<Longrightarrow> fst (npn_canonical tt) \<le> npn_apply t tt"
proof -
  have f: "t \<in> set all_transforms \<Longrightarrow> transform_ok t" for t by (simp add: set_all_transforms)
  have k: "npn_apply (snd (npn_canonical tt)) tt = fst (npn_canonical tt) \<and> transform_ok (snd (npn_canonical tt))
    \<and> fst (npn_canonical tt) \<le> fst (tt, IDENTITY) \<and> (\<forall>t \<in> set all_transforms. fst (npn_canonical tt) \<le> npn_apply t tt)"
    unfolding npn_canonical_search by (rule keep_smaller_fold) (simp_all add: f apply_identity identity_ok)
  show "npn_apply (snd (npn_canonical tt)) tt = fst (npn_canonical tt)"
    "transform_ok (snd (npn_canonical tt))"
    "transform_ok t \<Longrightarrow> fst (npn_canonical tt) \<le> npn_apply t tt"
    using k by (simp_all add: set_all_transforms)
qed

lemma npn_class_le:
  assumes "transform_ok t"
  shows "fst (npn_canonical tt) \<le> fst (npn_canonical (npn_apply t tt))"
proof -
  let ?u = "snd (npn_canonical (npn_apply t tt))"
  have "fst (npn_canonical (npn_apply t tt)) = npn_apply (npn_compose ?u t) tt"
    using apply_compose [OF npn_canonical_facts(2) assms] npn_canonical_facts(1) by metis
  then show ?thesis
    using npn_canonical_facts(3) [OF compose_ok [OF npn_canonical_facts(2) assms]] by simp
qed

text \<open>
  C24: the canonical form. \<open>npn_canonical\<close> returns a table together with a transform (one of
  the 24 permutations, an input mask below 16) that really produces this table, no transform
  produces a smaller one, and every function of the same NPN class has the same canonical
  form.
\<close>

theorem npn_canonical_correct:
  assumes "transform_ok t"
  shows "npn_apply (snd (npn_canonical tt)) tt = fst (npn_canonical tt)
    \<and> transform_ok (snd (npn_canonical tt))
    \<and> fst (npn_canonical tt) \<le> npn_apply t tt
    \<and> fst (npn_canonical (npn_apply t tt)) = fst (npn_canonical tt)"
  using npn_canonical_facts(1,2) [of tt] npn_canonical_facts(3) [OF assms, of tt] npn_class_le [OF assms, of tt]
    npn_class_le [OF undo_ok [OF assms], of "npn_apply t tt"] apply_undo [OF assms, of tt] by simp

theorem npn_canonical_correct_witness:
  "fst (npn_canonical (npn_apply \<lparr>t_perm = [2, 0, 3, 1], t_in_neg = 5, t_out_neg = True\<rparr> 0x8888)) =
   fst (npn_canonical 0x8888)"
  using npn_canonical_correct [of "\<lparr>t_perm = [2, 0, 3, 1], t_in_neg = 5, t_out_neg = True\<rparr>" "0x8888"]
  by (simp add: transform_ok_def ALL_PERMS_def)

end
