(* ===== verification/Pattern_Library.thy ===== *)
theory Pattern_Library
  imports Npn4
begin

section \<open>AIG patterns and the library of small ones (\<open>aig/npn4.rs\<close>)\<close>

text \<open>
  Patterns of AND gates over four variables, their truth tables, the transform that adapts a
  pattern to another member of its NPN class, and the library that keeps a smallest pattern
  of at most three ANDs for every class.  An index out of range is a panic, hence the option
  types; the assertion of the second pass is kept and is a panic when it fails.  The order in
  which a \<open>HashMap\<close> is walked is not specified: \<open>build_library\<close> takes it as the argument
  \<open>iter\<close>.
\<close>

datatype pat_edge = PatEdge nat bool

record aig_pattern =
  p_ands :: "(pat_edge \<times> pat_edge) list"
  p_output :: pat_edge

definition pattern_size :: "aig_pattern \<Rightarrow> nat" where
  "pattern_size p = length (p_ands p)"

fun pat_value :: "tt4 list \<Rightarrow> pat_edge \<Rightarrow> tt4 option" where
  "pat_value vs (PatEdge n neg) = (if n < length vs then Some (vs ! n XOR (if neg then NOT 0 else 0)) else None)"

fun eval_ands :: "(pat_edge \<times> pat_edge) list \<Rightarrow> tt4 list \<Rightarrow> tt4 list option" where
  "eval_ands [] vs = Some vs"
| "eval_ands ((a, b) # rest) vs = do {
     va \<leftarrow> pat_value vs a;
     vb \<leftarrow> pat_value vs b;
     eval_ands rest (vs @ [va AND vb])
   }"

definition pattern_eval :: "aig_pattern \<Rightarrow> tt4 list \<Rightarrow> tt4 option" where
  "pattern_eval p vars = do { vs \<leftarrow> eval_ands (p_ands p) vars; pat_value vs (p_output p) }"

definition pattern_tt :: "aig_pattern \<Rightarrow> tt4 option" where
  "pattern_tt p = pattern_eval p VAR_TT"

fun map_edge :: "(nat \<times> bool) list \<Rightarrow> pat_edge \<Rightarrow> pat_edge" where
  "map_edge var_subst (PatEdge node neg) =
     (if node < 4 then (case var_subst ! node of (n, vn) \<Rightarrow> PatEdge n (neg \<noteq> vn)) else PatEdge node neg)"

fun flip_edge :: "bool \<Rightarrow> pat_edge \<Rightarrow> pat_edge" where
  "flip_edge x (PatEdge n neg) = PatEdge n (neg \<noteq> x)"

definition transform_pattern :: "aig_pattern \<Rightarrow> npn_transform \<Rightarrow> aig_pattern" where
  "transform_pattern pat t =
     (let inv = perm_inv (t_perm t);
          var_subst = map (\<lambda>j. let new_node = inv ! j in (new_node, drop_bit new_node (t_in_neg t) AND 1 \<noteq> 0)) [0, 1, 2, 3]
      in \<lparr>p_ands = map (\<lambda>(a, b). (map_edge var_subst a, map_edge var_subst b)) (p_ands pat),
          p_output = flip_edge (t_out_neg t) (map_edge var_subst (p_output pat))\<rparr>)"

subsection \<open>Building the library\<close>

type_synonym pat_lib = "tt4 \<Rightarrow> aig_pattern option"

definition insert_smaller :: "tt4 \<Rightarrow> aig_pattern \<Rightarrow> pat_lib \<Rightarrow> pat_lib" where
  "insert_smaller tt pat lib =
     (case lib tt of
        Some existing \<Rightarrow> if pattern_size existing \<le> pattern_size pat then lib else lib(tt \<mapsto> pat)
      | None \<Rightarrow> lib(tt \<mapsto> pat))"

definition record_output :: "(pat_edge \<times> pat_edge) list \<Rightarrow> pat_edge \<Rightarrow> pat_lib \<Rightarrow> pat_lib option" where
  "record_output as out by_tt =
     (let pat = \<lparr>p_ands = as, p_output = out\<rparr> in do {
        tt \<leftarrow> pattern_tt pat;
        Some (insert_smaller tt pat by_tt)
      })"

definition output_choices :: "nat \<Rightarrow> pat_edge list" where
  "output_choices n_nodes = [PatEdge n neg. n \<leftarrow> [0..<n_nodes], neg \<leftarrow> [False, True]]"

definition and_choices :: "nat \<Rightarrow> (pat_edge \<times> pat_edge) list" where
  "and_choices max_edge =
     [(PatEdge a a_neg, PatEdge b b_neg).
        a \<leftarrow> [0..<max_edge], a_neg \<leftarrow> [False, True], b \<leftarrow> [a..<max_edge], b_neg \<leftarrow> [False, True], a \<noteq> b]"

primrec enumerate_patterns :: "nat \<Rightarrow> (pat_edge \<times> pat_edge) list \<Rightarrow> pat_lib \<Rightarrow> pat_lib option" where
  "enumerate_patterns 0 as by_tt = fold_opt (record_output as) (output_choices (4 + length as)) by_tt"
| "enumerate_patterns (Suc r) as by_tt = do {
     by_tt \<leftarrow> fold_opt (record_output as) (output_choices (4 + length as)) by_tt;
     fold_opt (\<lambda>e by_tt. enumerate_patterns r (as @ [e]) by_tt) (and_choices (4 + length as)) by_tt
   }"

definition canonise_entry :: "tt4 \<times> aig_pattern \<Rightarrow> pat_lib \<Rightarrow> pat_lib option" where
  "canonise_entry e best =
     (case e of (tt, pat) \<Rightarrow>
        case npn_canonical tt of (canonical, t) \<Rightarrow>
          let canon_pat = transform_pattern pat t
          in if pattern_tt canon_pat = Some canonical then Some (insert_smaller canonical canon_pat best) else None)"

definition build_library :: "(pat_lib \<Rightarrow> (tt4 \<times> aig_pattern) list) \<Rightarrow> pat_lib option" where
  "build_library iter = do {
     by_tt \<leftarrow> enumerate_patterns MAX_ANDS [] Map.empty;
     fold_opt canonise_entry (iter by_tt) Map.empty
   }"

subsection \<open>Patterns as Boolean functions\<close>

text \<open>
  The value of a pattern on Boolean inputs, and the patterns that index only nodes they have.
  The truth table is this value for each of the 16 inputs.
\<close>

fun edge_bool :: "bool list \<Rightarrow> pat_edge \<Rightarrow> bool" where
  "edge_bool vs (PatEdge n neg) \<longleftrightarrow> vs ! n \<noteq> neg"

fun ands_bool :: "(pat_edge \<times> pat_edge) list \<Rightarrow> bool list \<Rightarrow> bool list" where
  "ands_bool [] vs = vs"
| "ands_bool ((a, b) # rest) vs = ands_bool rest (vs @ [edge_bool vs a \<and> edge_bool vs b])"

definition pattern_bool :: "aig_pattern \<Rightarrow> bool list \<Rightarrow> bool" where
  "pattern_bool p vs = edge_bool (ands_bool (p_ands p) vs) (p_output p)"

fun edge_ok :: "nat \<Rightarrow> pat_edge \<Rightarrow> bool" where
  "edge_ok k (PatEdge n _) \<longleftrightarrow> n < k"

fun ands_ok :: "nat \<Rightarrow> (pat_edge \<times> pat_edge) list \<Rightarrow> bool" where
  "ands_ok k [] = True"
| "ands_ok k ((a, b) # rest) \<longleftrightarrow> edge_ok k a \<and> edge_ok k b \<and> ands_ok (Suc k) rest"

definition pattern_ok :: "aig_pattern \<Rightarrow> bool" where
  "pattern_ok p \<longleftrightarrow> ands_ok 4 (p_ands p) \<and> edge_ok (4 + length (p_ands p)) (p_output p)"

definition column :: "nat \<Rightarrow> tt4 list \<Rightarrow> bool list" where
  "column m vs = map (\<lambda>v. bit v m) vs"

lemma column_append [simp]: "column m (xs @ ys) = column m xs @ column m ys" "length (column m xs) = length xs"
  by (simp_all add: column_def)

lemma pat_value_bit:
  assumes "edge_ok (length vs) e"
  obtains w where "pat_value vs e = Some w" "\<And>m. m < 16 \<Longrightarrow> bit w m = edge_bool (column m vs) e"
proof (cases e)
  case (PatEdge n neg)
  then have "pat_value vs e = Some (vs ! n XOR (if neg then NOT 0 else 0))" using assms by simp
  moreover have "bit (vs ! n XOR (if neg then NOT 0 else 0)) m = edge_bool (column m vs) e" if "m < 16" for m
    using that assms PatEdge by (simp add: column_def bit_xor_iff bit_not_iff)
  ultimately show ?thesis using that by blast
qed

lemma eval_ands_bit:
  "ands_ok (length vs) as \<Longrightarrow> \<exists>ws. eval_ands as vs = Some ws \<and> length ws = length vs + length as
    \<and> (\<forall>m < 16. column m ws = ands_bool as (column m vs))"
proof (induction as arbitrary: vs)
  case (Cons e as)
  obtain a b where e: "e = (a, b)" by fastforce
  obtain va where va: "pat_value vs a = Some va" "\<And>m. m < 16 \<Longrightarrow> bit va m = edge_bool (column m vs) a"
    using pat_value_bit [of vs a] Cons.prems by (auto simp: e)
  obtain vb where vb: "pat_value vs b = Some vb" "\<And>m. m < 16 \<Longrightarrow> bit vb m = edge_bool (column m vs) b"
    using pat_value_bit [of vs b] Cons.prems by (auto simp: e)
  have "ands_ok (length (vs @ [va AND vb])) as" using Cons.prems by (simp add: e)
  from Cons.IH [OF this] obtain ws where ws: "eval_ands as (vs @ [va AND vb]) = Some ws"
    "length ws = Suc (length vs) + length as" "\<forall>m < 16. column m ws = ands_bool as (column m (vs @ [va AND vb]))"
    by auto
  have "column m [va AND vb] = [edge_bool (column m vs) a \<and> edge_bool (column m vs) b]" if "m < 16" for m
    using va(2) vb(2) that by (simp add: column_def bit_and_iff)
  with ws va(1) vb(1) show ?case by (simp add: e)
qed simp

lemma pattern_eval_bit:
  assumes "pattern_ok p" "length vars = 4"
  obtains w where "pattern_eval p vars = Some w" "\<And>m. m < 16 \<Longrightarrow> bit w m = pattern_bool p (column m vars)"
proof -
  obtain ws where ws: "eval_ands (p_ands p) vars = Some ws" "length ws = 4 + length (p_ands p)"
    "\<forall>m < 16. column m ws = ands_bool (p_ands p) (column m vars)"
    using eval_ands_bit [of vars "p_ands p"] assms by (auto simp: pattern_ok_def)
  obtain w where w: "pat_value ws (p_output p) = Some w" "\<And>m. m < 16 \<Longrightarrow> bit w m = edge_bool (column m ws) (p_output p)"
    using pat_value_bit [of ws "p_output p"] assms(1) ws(2) by (auto simp: pattern_ok_def)
  show ?thesis by (rule that [of w]) (use ws w in \<open>simp_all add: pattern_eval_def pattern_bool_def\<close>)
qed

text \<open>Column \<open>m\<close> of the variables' tables is the number \<open>m\<close> in binary.\<close>

definition input_bits :: "nat \<Rightarrow> bool list" where
  "input_bits m = map (bit m) [0, 1, 2, 3]"

lemma var_tt_column: "m < 16 \<Longrightarrow> column m VAR_TT = input_bits m"
proof -
  assume "m < 16"
  then have "m \<in> set [0..<16]" by (simp del: upt_rec_numeral)
  moreover have "[0..<16] = [0, 1, 2, 3, 4, 5, 6, 7, 8, 9, 10, 11, 12, 13, 14, 15]" by (simp add: upt_rec)
  ultimately have "m \<in> set [0, 1, 2, 3, 4, 5, 6, 7, 8, 9, 10, 11, 12, 13, 14, 15]" by metis
  then show ?thesis
    unfolding list.set insert_iff empty_iff by (elim disjE FalseE) (simp_all add: column_def VAR_TT_def input_bits_def bit_Suc_0_iff)
qed

lemma length_VAR_TT: "length VAR_TT = 4"
  by (simp add: VAR_TT_def)

lemma pattern_tt_bit:
  assumes "pattern_ok p"
  obtains w where "pattern_tt p = Some w" "\<And>m. m < 16 \<Longrightarrow> bit w m = pattern_bool p (input_bits m)"
proof -
  obtain w where "pattern_eval p VAR_TT = Some w" "\<And>m. m < 16 \<Longrightarrow> bit w m = pattern_bool p (column m VAR_TT)"
    using pattern_eval_bit [OF assms length_VAR_TT] by blast
  then show ?thesis using that by (simp add: pattern_tt_def var_tt_column)
qed

subsection \<open>Adapting a pattern\<close>

lemma edge_bool_flip: "edge_bool vs (flip_edge x e) \<longleftrightarrow> edge_bool vs e \<noteq> x"
  by (cases e) auto

lemma edge_ok_flip [simp]: "edge_ok k (flip_edge x e) = edge_ok k e"
  by (cases e) simp

text \<open>
  \<open>renamed\<close>: the inputs that a pattern reads after its variables were substituted; gates
  appended to both value lists agree.
\<close>

lemma nth_four: "n < (4 :: nat) \<Longrightarrow> map f [0, 1, 2, 3] ! n = f n"
  by (auto simp: numeral_eq_Suc less_Suc_eq)

lemma map_edge_bool:
  assumes "length vs = 4" "length sub = 4" "\<And>j. j < 4 \<Longrightarrow> fst (sub ! j) < 4" "edge_ok (4 + length gs) e"
  shows "edge_bool (vs @ gs) (map_edge sub e) = edge_bool (map (\<lambda>j. vs ! fst (sub ! j) \<noteq> snd (sub ! j)) [0, 1, 2, 3] @ gs) e"
proof (cases e)
  case (PatEdge n neg)
  obtain k vn where kv: "sub ! n = (k, vn)" by fastforce
  let ?f = "\<lambda>j. vs ! fst (sub ! j) \<noteq> snd (sub ! j)"
  show ?thesis
  proof (cases "n < 4")
    case True
    have "(map ?f [0, 1, 2, 3] @ gs) ! n = map ?f [0, 1, 2, 3] ! n"
      using True by (simp only: nth_append) simp
    also have "\<dots> = ?f n" by (rule nth_four [OF True])
    finally have "(map ?f [0, 1, 2, 3] @ gs) ! n = (vs ! k \<noteq> vn)" by (simp add: kv)
    moreover have "k < length vs" using assms(1,3) True kv by fastforce
    ultimately show ?thesis
      unfolding PatEdge map_edge.simps edge_bool.simps if_P [OF True] kv prod.case by (simp add: nth_append) argo
  next
    case False
    have l4: "length (map ?f [0, 1, 2, 3]) = 4" by simp
    have "(map ?f [0, 1, 2, 3] @ gs) ! n = gs ! (n - 4)" "(vs @ gs) ! n = gs ! (n - 4)"
      using False assms(1) unfolding nth_append l4 by simp_all
    then show ?thesis unfolding PatEdge map_edge.simps edge_bool.simps if_not_P [OF False] by simp
  qed
qed

lemma map_edge_ok:
  assumes "\<And>j. j < 4 \<Longrightarrow> fst (sub ! j) < 4" "edge_ok (4 + k) e"
  shows "edge_ok (4 + k) (map_edge sub e)"
proof (cases e)
  case (PatEdge n neg)
  obtain i vn where "sub ! n = (i, vn)" by fastforce
  with PatEdge assms(2) assms(1) [of n] show ?thesis by auto
qed

lemma ands_mapped:
  assumes "length vs = 4" "length sub = 4" "\<And>j. j < 4 \<Longrightarrow> fst (sub ! j) < 4"
    and "ands_ok (4 + length gs) as"
  shows "ands_ok (4 + length gs) (map (\<lambda>(a, b). (map_edge sub a, map_edge sub b)) as)
    \<and> (\<exists>hs. length hs = length gs + length as
      \<and> ands_bool (map (\<lambda>(a, b). (map_edge sub a, map_edge sub b)) as) (vs @ gs) = vs @ hs
      \<and> ands_bool as (map (\<lambda>j. vs ! fst (sub ! j) \<noteq> snd (sub ! j)) [0, 1, 2, 3] @ gs) =
          map (\<lambda>j. vs ! fst (sub ! j) \<noteq> snd (sub ! j)) [0, 1, 2, 3] @ hs)"
  using assms(4)
proof (induction as arbitrary: gs)
  case Nil
  then show ?case by (intro conjI exI [of _ gs]) simp_all
next
  case (Cons e as)
  obtain a b where e: "e = (a, b)" by fastforce
  let ?ws = "map (\<lambda>j. vs ! fst (sub ! j) \<noteq> snd (sub ! j)) [0, 1, 2, 3]"
  let ?g = "edge_bool (?ws @ gs) a \<and> edge_bool (?ws @ gs) b"
  have ok: "edge_ok (4 + length gs) a" "edge_ok (4 + length gs) b" "ands_ok (4 + length (gs @ [?g])) as"
    using Cons.prems by (simp_all add: e)
  have eq: "edge_bool (vs @ gs) (map_edge sub a) = edge_bool (?ws @ gs) a"
    "edge_bool (vs @ gs) (map_edge sub b) = edge_bool (?ws @ gs) b"
    using map_edge_bool [OF assms(1-3)] ok by blast+
  from Cons.IH [OF ok(3)] obtain hs where
    "ands_ok (4 + length (gs @ [?g])) (map (\<lambda>(a, b). (map_edge sub a, map_edge sub b)) as)"
    "length hs = Suc (length gs) + length as"
    "ands_bool (map (\<lambda>(a, b). (map_edge sub a, map_edge sub b)) as) (vs @ gs @ [?g]) = vs @ hs"
    "ands_bool as (?ws @ gs @ [?g]) = ?ws @ hs"
    by (simp only: length_append list.size add_Suc_right add_0_right) blast
  then show ?case
    using map_edge_ok [OF assms(3)] ok eq by (intro conjI exI [of _ hs]) (simp_all add: e)
qed

text \<open>The transform's index, read as Boolean inputs.\<close>

lemma input_bits_cube:
  assumes "transform_ok t"
  shows "input_bits (cube_index t m) =
    map (\<lambda>j. bit m (perm_inv (t_perm t) ! j) \<noteq> bit (t_in_neg t) (perm_inv (t_perm t) ! j)) [0, 1, 2, 3]"
  by (simp add: input_bits_def bit_cube_index [OF assms])

lemma nth_input_bits: "i < 4 \<Longrightarrow> input_bits m ! i = bit m i"
  unfolding input_bits_def by (rule nth_four)

lemma transform_pattern_bool:
  assumes t: "transform_ok t" and p: "pattern_ok p"
  shows "pattern_ok (transform_pattern p t)"
    "pattern_bool (transform_pattern p t) (input_bits m) = (pattern_bool p (input_bits (cube_index t m)) \<noteq> t_out_neg t)"
    "pattern_size (transform_pattern p t) = pattern_size p"
proof -
  let ?inv = "perm_inv (t_perm t)"
  define sub where "sub = map (\<lambda>j. (?inv ! j, drop_bit (?inv ! j) (t_in_neg t) AND 1 \<noteq> 0)) [0, 1, 2, 3]"
  have pt: "t_perm t \<in> set ALL_PERMS" using t by (simp add: transform_ok_def)
  have snd_sub: "(drop_bit k (t_in_neg t) AND 1 \<noteq> 0) = bit (t_in_neg t) k" for k
    by (simp add: bit_iff_odd_drop_bit and_one_eq odd_iff_mod_2_eq_one)
  have nth_sub: "sub ! j = (?inv ! j, bit (t_in_neg t) (?inv ! j))" if "j < 4" for j
    unfolding sub_def snd_sub by (rule nth_four [OF that])
  have lt: "fst (sub ! j) < 4" if "j < 4" for j using perm_facts(4) [OF pt that] nth_sub [OF that] by simp
  have len: "length sub = 4" "length (input_bits m) = 4" by (simp_all add: sub_def input_bits_def)
  have ws: "map (\<lambda>j. input_bits m ! fst (sub ! j) \<noteq> snd (sub ! j)) [0, 1, 2, 3] = input_bits (cube_index t m)"
    unfolding input_bits_cube [OF t]
    by (rule map_cong [OF refl]) (auto simp: nth_sub nth_input_bits perm_facts(4) [OF pt])
  have tp: "transform_pattern p t = \<lparr>p_ands = map (\<lambda>(a, b). (map_edge sub a, map_edge sub b)) (p_ands p),
      p_output = flip_edge (t_out_neg t) (map_edge sub (p_output p))\<rparr>"
    by (simp add: transform_pattern_def sub_def Let_def)
  have ok: "ands_ok (4 + length []) (p_ands p)" "edge_ok (4 + length (p_ands p)) (p_output p)"
    using p by (simp_all add: pattern_ok_def)
  from ands_mapped [OF len(2,1) lt ok(1)] obtain hs where
    a: "ands_ok 4 (map (\<lambda>(a, b). (map_edge sub a, map_edge sub b)) (p_ands p))"
    and hs: "length hs = length (p_ands p)"
      "ands_bool (map (\<lambda>(a, b). (map_edge sub a, map_edge sub b)) (p_ands p)) (input_bits m) = input_bits m @ hs"
      "ands_bool (p_ands p) (input_bits (cube_index t m)) = input_bits (cube_index t m) @ hs"
    unfolding ws by auto
  show "pattern_ok (transform_pattern p t)"
    using a map_edge_ok [OF lt ok(2)] by (simp add: pattern_ok_def tp)
  show "pattern_bool (transform_pattern p t) (input_bits m) = (pattern_bool p (input_bits (cube_index t m)) \<noteq> t_out_neg t)"
    using map_edge_bool [OF len(2,1) lt, of hs "p_output p", unfolded ws] ok(2) hs
    by (simp add: pattern_bool_def tp edge_bool_flip)
  show "pattern_size (transform_pattern p t) = pattern_size p" by (simp add: pattern_size_def tp)
qed

lemma transform_pattern_tt:
  assumes "transform_ok t" "pattern_ok p" "pattern_tt p = Some tt"
  shows "pattern_tt (transform_pattern p t) = Some (npn_apply t tt)"
proof -
  obtain w where w: "pattern_tt (transform_pattern p t) = Some w"
    "\<And>m. m < 16 \<Longrightarrow> bit w m = pattern_bool (transform_pattern p t) (input_bits m)"
    using pattern_tt_bit [OF transform_pattern_bool(1) [OF assms(1,2)]] by blast
  have tt: "bit tt m = pattern_bool p (input_bits m)" if "m < 16" for m
    using pattern_tt_bit [OF assms(2)] assms(3) that by (metis option.inject)
  have "w = npn_apply t tt"
    by (rule tt4_eqI) (simp add: w(2) bit_npn_apply [OF assms(1)] transform_pattern_bool(2) [OF assms(1,2)]
        tt cube_index_lt [OF assms(1)])
  then show ?thesis using w(1) by simp
qed

text \<open>
  Adapting a pattern. For a transform with one of the 24 permutations and a pattern that
  indexes only nodes it has, \<open>transform_pattern\<close> yields such a pattern of the same size, and
  the truth table it computes is the transform applied to the table of the original.
\<close>

theorem transform_pattern_correct:
  assumes "transform_ok t" "pattern_ok p"
  shows "pattern_ok (transform_pattern p t) \<and> pattern_size (transform_pattern p t) = pattern_size p
    \<and> (\<exists>tt. pattern_tt p = Some tt \<and> pattern_tt (transform_pattern p t) = Some (npn_apply t tt))"
  using transform_pattern_bool(1,3) [OF assms] transform_pattern_tt [OF assms] pattern_tt_bit [OF assms(2)] by metis

definition and2_pattern :: aig_pattern where
  "and2_pattern = \<lparr>p_ands = [(PatEdge 0 False, PatEdge 1 False)], p_output = PatEdge 4 False\<rparr>"

theorem transform_pattern_correct_witness:
  "pattern_tt (transform_pattern and2_pattern \<lparr>t_perm = [2, 0, 3, 1], t_in_neg = 5, t_out_neg = True\<rparr>) =
   Some (npn_apply \<lparr>t_perm = [2, 0, 3, 1], t_in_neg = 5, t_out_neg = True\<rparr> 0x8888)"
proof -
  have "transform_ok \<lparr>t_perm = [2, 0, 3, 1], t_in_neg = 5, t_out_neg = True\<rparr>"
    by (simp add: transform_ok_def ALL_PERMS_def)
  moreover have "pattern_ok and2_pattern" by (simp add: pattern_ok_def and2_pattern_def)
  moreover have "pattern_tt and2_pattern = Some 0x8888"
    by (simp add: pattern_tt_def pattern_eval_def and2_pattern_def VAR_TT_def)
  ultimately show ?thesis using transform_pattern_correct by fastforce
qed

subsection \<open>What the library holds\<close>

definition lib_sound :: "pat_lib \<Rightarrow> bool" where
  "lib_sound lib \<longleftrightarrow> (\<forall>tt p. lib tt = Some p \<longrightarrow>
     pattern_ok p \<and> pattern_tt p = Some tt \<and> pattern_size p \<le> MAX_ANDS)"

definition covers :: "pat_lib \<Rightarrow> tt4 \<Rightarrow> nat \<Rightarrow> bool" where
  "covers lib tt n \<longleftrightarrow> (\<exists>p. lib tt = Some p \<and> pattern_size p \<le> n)"

definition improves :: "pat_lib \<Rightarrow> pat_lib \<Rightarrow> bool" where
  "improves lib lib' \<longleftrightarrow> (\<forall>tt n. covers lib tt n \<longrightarrow> covers lib' tt n)"

lemma improves_refl [simp]: "improves lib lib"
  by (simp add: improves_def)

lemma improves_trans: "improves a b \<Longrightarrow> improves b c \<Longrightarrow> improves a c"
  by (simp add: improves_def)

lemma lib_sound_empty [simp]: "lib_sound Map.empty"
  by (simp add: lib_sound_def)

lemma insert_smaller_facts:
  assumes "lib_sound lib" "pattern_ok p" "pattern_tt p = Some tt" "pattern_size p \<le> MAX_ANDS"
  shows "lib_sound (insert_smaller tt p lib)" "improves lib (insert_smaller tt p lib)"
    "covers (insert_smaller tt p lib) tt (pattern_size p)"
  using assms
  by (auto simp: insert_smaller_def lib_sound_def improves_def covers_def split: option.split if_splits)

text \<open>A loop over bodies that do not panic, keep the library sound and only improve it.\<close>

lemma fold_opt_library:
  assumes "\<And>x lib. x \<in> set xs \<Longrightarrow> lib_sound lib \<Longrightarrow>
      \<exists>lib'. f x lib = Some lib' \<and> lib_sound lib' \<and> improves lib lib' \<and> Q x lib'"
    and "\<And>x lib lib'. Q x lib \<Longrightarrow> improves lib lib' \<Longrightarrow> Q x lib'"
    and "lib_sound lib"
  shows "\<exists>lib'. fold_opt f xs lib = Some lib' \<and> lib_sound lib' \<and> improves lib lib' \<and> (\<forall>x \<in> set xs. Q x lib')"
  using assms(1,3)
proof (induction xs arbitrary: lib)
  case (Cons x xs)
  obtain l1 where l1: "f x lib = Some l1" "lib_sound l1" "improves lib l1" "Q x l1"
    using Cons.prems(1) [of x, OF _ Cons.prems(2)] by auto
  obtain l2 where l2: "fold_opt f xs l1 = Some l2" "lib_sound l2" "improves l1 l2" "\<forall>x \<in> set xs. Q x l2"
    using Cons.IH [OF _ l1(2)] Cons.prems(1) by auto
  show ?case using l1 l2 assms(2) [OF l1(4) l2(3)] improves_trans by auto
qed simp

text \<open>The patterns the enumeration visits: each gate joins two different earlier nodes, in order.\<close>

fun listed :: "nat \<Rightarrow> (pat_edge \<times> pat_edge) list \<Rightarrow> bool" where
  "listed k [] = True"
| "listed k ((PatEdge a _, PatEdge b _) # rest) \<longleftrightarrow> a < b \<and> b < k \<and> listed (Suc k) rest"

lemma listed_ok: "listed k as \<Longrightarrow> ands_ok k as"
  by (induction k as rule: listed.induct) auto

lemma listed_append: "listed k (as @ bs) \<longleftrightarrow> listed k as \<and> listed (k + length as) bs"
  by (induction k as rule: listed.induct) auto

lemma and_choices_listed: "e \<in> set (and_choices k) \<longleftrightarrow> listed k [e]"
proof -
  obtain a x b y where e: "e = (PatEdge a x, PatEdge b y)" by (metis pat_edge.exhaust surj_pair)
  show ?thesis unfolding e and_choices_def by (cases x; cases y) (auto split: if_splits)
qed

lemma output_choices_ok: "e \<in> set (output_choices k) \<longleftrightarrow> edge_ok k e"
proof -
  obtain n x where e: "e = PatEdge n x" by (cases e)
  show ?thesis unfolding e output_choices_def by (cases x) auto
qed

definition recorded :: "(pat_edge \<times> pat_edge) list \<Rightarrow> pat_edge \<Rightarrow> pat_lib \<Rightarrow> bool" where
  "recorded as out lib \<longleftrightarrow> (\<forall>tt. pattern_tt \<lparr>p_ands = as, p_output = out\<rparr> = Some tt \<longrightarrow> covers lib tt (length as))"

lemma recorded_improves: "recorded as out lib \<Longrightarrow> improves lib lib' \<Longrightarrow> recorded as out lib'"
  by (simp add: recorded_def improves_def)

lemma record_outputs:
  assumes "lib_sound lib" "listed 4 as" "length as \<le> MAX_ANDS"
  shows "\<exists>lib'. fold_opt (record_output as) (output_choices (4 + length as)) lib = Some lib' \<and> lib_sound lib'
    \<and> improves lib lib' \<and> (\<forall>out \<in> set (output_choices (4 + length as)). recorded as out lib')"
proof (rule fold_opt_library [OF _ recorded_improves assms(1)])
  fix out lib
  assume out: "out \<in> set (output_choices (4 + length as))" and lib: "lib_sound lib"
  let ?p = "\<lparr>p_ands = as, p_output = out\<rparr>"
  have ok: "pattern_ok ?p" using out listed_ok [OF assms(2)] by (simp add: pattern_ok_def output_choices_ok)
  then obtain tt where tt: "pattern_tt ?p = Some tt" using pattern_tt_bit by blast
  have sz: "pattern_size ?p \<le> MAX_ANDS" using assms(3) by (simp add: pattern_size_def)
  show "\<exists>lib'. record_output as out lib = Some lib' \<and> lib_sound lib' \<and> improves lib lib' \<and> recorded as out lib'"
    using insert_smaller_facts [OF lib ok tt sz] tt
    by (simp add: record_output_def recorded_def pattern_size_def)
qed

lemma enumerate_patterns_facts:
  assumes "lib_sound lib" "listed 4 as" "length as + r \<le> MAX_ANDS"
  shows "\<exists>lib'. enumerate_patterns r as lib = Some lib' \<and> lib_sound lib' \<and> improves lib lib'
    \<and> (\<forall>bs out. length bs \<le> r \<longrightarrow> listed 4 (as @ bs) \<longrightarrow> edge_ok (4 + length (as @ bs)) out \<longrightarrow> recorded (as @ bs) out lib')"
  using assms
proof (induction r arbitrary: as lib)
  case 0
  then show ?case using record_outputs [of lib as] by (auto simp: output_choices_ok)
next
  case (Suc r)
  obtain l1 where l1: "fold_opt (record_output as) (output_choices (4 + length as)) lib = Some l1" "lib_sound l1"
    "improves lib l1" "\<forall>out \<in> set (output_choices (4 + length as)). recorded as out l1"
    using record_outputs [of lib as] Suc.prems by auto
  let ?Q = "\<lambda>e lib. \<forall>bs out. length bs \<le> r \<longrightarrow> listed 4 ((as @ [e]) @ bs) \<longrightarrow>
      edge_ok (4 + length ((as @ [e]) @ bs)) out \<longrightarrow> recorded ((as @ [e]) @ bs) out lib"
  have "\<exists>lib'. fold_opt (\<lambda>e by_tt. enumerate_patterns r (as @ [e]) by_tt) (and_choices (4 + length as)) l1 = Some lib'
    \<and> lib_sound lib' \<and> improves l1 lib' \<and> (\<forall>e \<in> set (and_choices (4 + length as)). ?Q e lib')"
  proof (rule fold_opt_library [OF _ _ l1(2)])
    show "\<exists>lib'. enumerate_patterns r (as @ [e]) lib = Some lib' \<and> lib_sound lib' \<and> improves lib lib' \<and> ?Q e lib'"
      if "e \<in> set (and_choices (4 + length as))" "lib_sound lib" for e lib
    proof (rule Suc.IH [OF that(2)])
      show "listed 4 (as @ [e])" using that(1) Suc.prems(2) by (simp add: listed_append and_choices_listed)
    qed (use Suc.prems(3) in simp)
    show "?Q e lib'" if "?Q e lib" "improves lib lib'" for e lib lib'
      using that recorded_improves by blast
  qed
  then obtain l2 where l2: "fold_opt (\<lambda>e by_tt. enumerate_patterns r (as @ [e]) by_tt) (and_choices (4 + length as)) l1 = Some l2"
    "lib_sound l2" "improves l1 l2" "\<forall>e \<in> set (and_choices (4 + length as)). ?Q e l2" by blast
  have "recorded (as @ bs) out l2"
    if "length bs \<le> Suc r" "listed 4 (as @ bs)" "edge_ok (4 + length (as @ bs)) out" for bs out
  proof (cases bs)
    case Nil
    then show ?thesis using that l1(4) recorded_improves [OF _ l2(3)] by (auto simp: output_choices_ok)
  next
    case (Cons e cs)
    have "listed (4 + length as) [e]" using that(2) listed_append [of 4 as "[e] @ cs"] listed_append [of "4 + length as" "[e]" cs]
      by (simp add: Cons)
    then show ?thesis using l2(4) that by (simp add: and_choices_listed Cons)
  qed
  then show ?case using l1 l2 improves_trans [OF l1(3) l2(3)] by auto
qed

lemma canonise_entry_facts:
  assumes "lib_sound best" "pattern_ok pat" "pattern_tt pat = Some tt" "pattern_size pat \<le> MAX_ANDS"
  shows "\<exists>best'. canonise_entry (tt, pat) best = Some best' \<and> lib_sound best' \<and> improves best best'
    \<and> covers best' (fst (npn_canonical tt)) (pattern_size pat)"
proof -
  let ?t = "snd (npn_canonical tt)"
  note ok = npn_canonical_facts(2) [of tt]
  have tt: "pattern_tt (transform_pattern pat ?t) = Some (fst (npn_canonical tt))"
    using transform_pattern_tt [OF ok assms(2,3)] npn_canonical_facts(1) [of tt] by simp
  note f = insert_smaller_facts [OF assms(1) transform_pattern_bool(1) [OF ok assms(2)] tt]
  show ?thesis
    using f assms(4) tt transform_pattern_bool(3) [OF ok assms(2)]
    by (simp add: canonise_entry_def case_prod_beta Let_def)
qed

lemma canonise_all:
  assumes "\<And>e. e \<in> set es \<Longrightarrow> pattern_ok (snd e) \<and> pattern_tt (snd e) = Some (fst e) \<and> pattern_size (snd e) \<le> MAX_ANDS"
  shows "\<exists>lib. fold_opt canonise_entry es Map.empty = Some lib \<and> lib_sound lib
    \<and> (\<forall>e \<in> set es. covers lib (fst (npn_canonical (fst e))) (pattern_size (snd e)))"
proof -
  have "\<exists>lib. fold_opt canonise_entry es Map.empty = Some lib \<and> lib_sound lib \<and> improves Map.empty lib
    \<and> (\<forall>e \<in> set es. covers lib (fst (npn_canonical (fst e))) (pattern_size (snd e)))"
  proof (rule fold_opt_library)
    show "\<exists>lib'. canonise_entry e lib = Some lib' \<and> lib_sound lib' \<and> improves lib lib'
        \<and> covers lib' (fst (npn_canonical (fst e))) (pattern_size (snd e))" if "e \<in> set es" "lib_sound lib" for e lib
      using canonise_entry_facts [OF that(2), of "snd e" "fst e"] assms [OF that(1)] by simp
  qed (simp_all add: improves_def)
  then show ?thesis by blast
qed

lemma build_library_holds:
  assumes iter: "\<And>m. set (iter m) = {(tt, p). m tt = Some p}"
  shows "\<exists>lib. build_library iter = Some lib
    \<and> lib_sound lib
    \<and> (\<forall>p tt. listed 4 (p_ands p) \<and> edge_ok (4 + pattern_size p) (p_output p) \<and> pattern_size p \<le> MAX_ANDS
          \<and> pattern_tt p = Some tt \<longrightarrow>
          (\<exists>q. lib (fst (npn_canonical tt)) = Some q \<and> pattern_size q \<le> pattern_size p))"
proof -
  obtain by_tt where b: "enumerate_patterns MAX_ANDS [] Map.empty = Some by_tt" "lib_sound by_tt"
    "\<forall>bs out. length bs \<le> MAX_ANDS \<longrightarrow> listed 4 bs \<longrightarrow> edge_ok (4 + length bs) out \<longrightarrow> recorded bs out by_tt"
    using enumerate_patterns_facts [of Map.empty "[]" MAX_ANDS] by auto
  have es: "\<And>e. e \<in> set (iter by_tt) \<Longrightarrow> pattern_ok (snd e) \<and> pattern_tt (snd e) = Some (fst e) \<and> pattern_size (snd e) \<le> MAX_ANDS"
    using b(2) by (auto simp: iter lib_sound_def)
  obtain lib where l: "fold_opt canonise_entry (iter by_tt) Map.empty = Some lib" "lib_sound lib"
    "\<forall>e \<in> set (iter by_tt). covers lib (fst (npn_canonical (fst e))) (pattern_size (snd e))"
    using canonise_all [OF es] by blast
  have "\<exists>q. lib (fst (npn_canonical tt)) = Some q \<and> pattern_size q \<le> pattern_size p"
    if small: "listed 4 (p_ands p)" "edge_ok (4 + pattern_size p) (p_output p)" "pattern_size p \<le> MAX_ANDS"
      and table: "pattern_tt p = Some tt" for p tt
  proof -
    have "recorded (p_ands p) (p_output p) by_tt" using b(3) small by (simp add: pattern_size_def)
    moreover have "\<lparr>p_ands = p_ands p, p_output = p_output p\<rparr> = p" by simp
    ultimately obtain q where q: "by_tt tt = Some q" "pattern_size q \<le> pattern_size p"
      using table by (auto simp: recorded_def covers_def pattern_size_def)
    then have "(tt, q) \<in> set (iter by_tt)" by (simp add: iter)
    then show ?thesis using l(3) q(2) le_trans by (fastforce simp: covers_def)
  qed
  then show ?thesis using b(1) l(1,2) by (auto simp: build_library_def)
qed

text \<open>
  C25: the library. Whatever the order in which the hash map of the first pass is walked, as
  long as every entry is visited, the construction does not panic (its assertion holds);
  every entry it keeps is a well-formed pattern of at most \<open>MAX_ANDS\<close> gates that computes
  its key; and for every pattern of at most \<open>MAX_ANDS\<close> gates, each joining two different
  earlier nodes in order, the entry of its class exists and is not larger.
\<close>

theorem build_library_correct:
  assumes iter: "\<And>m. set (iter m) = {(tt, p). m tt = Some p}"
  shows "\<exists>lib. build_library iter = Some lib
    \<and> (\<forall>c p. lib c = Some p \<longrightarrow> pattern_ok p \<and> pattern_tt p = Some c \<and> pattern_size p \<le> MAX_ANDS)
    \<and> (\<forall>p tt. listed 4 (p_ands p) \<and> edge_ok (4 + pattern_size p) (p_output p) \<and> pattern_size p \<le> MAX_ANDS
          \<and> pattern_tt p = Some tt \<longrightarrow>
          (\<exists>q. lib (fst (npn_canonical tt)) = Some q \<and> pattern_size q \<le> pattern_size p))"
  using build_library_holds [OF iter] unfolding lib_sound_def by blast

definition walk_all :: "pat_lib \<Rightarrow> (tt4 \<times> aig_pattern) list" where
  "walk_all m = concat (map (\<lambda>n. case m (word_of_nat n) of None \<Rightarrow> [] | Some p \<Rightarrow> [(word_of_nat n, p)]) [0..<2 ^ 16])"

lemma set_walk_all: "set (walk_all m) = {(tt, p). m tt = Some p}"
proof (intro set_eqI iffI)
  fix e
  show "e \<in> {(tt, p). m tt = Some p}" if "e \<in> set (walk_all m)"
    using that unfolding walk_all_def by (auto simp del: upt_rec_numeral power_numeral split: option.splits)
  assume "e \<in> {(tt, p). m tt = Some p}"
  then obtain tt p where e: "e = (tt, p)" "m tt = Some p" by auto
  have "unat tt \<in> set [0..<2 ^ 16]" using unsigned_less [of tt] by (simp del: upt_rec_numeral power_numeral)
  moreover have "e \<in> set (case m (word_of_nat (unat tt)) of None \<Rightarrow> [] | Some p \<Rightarrow> [(word_of_nat (unat tt), p)])"
    by (simp add: e)
  ultimately show "e \<in> set (walk_all m)" unfolding walk_all_def set_concat set_map by blast
qed

theorem build_library_correct_witness:
  "\<exists>lib q. build_library walk_all = Some lib \<and> lib (fst (npn_canonical 0x8888)) = Some q \<and> pattern_size q \<le> 1"
proof -
  have "pattern_tt and2_pattern = Some 0x8888"
    by (simp add: pattern_tt_def pattern_eval_def and2_pattern_def VAR_TT_def)
  then show ?thesis
    using build_library_correct [of walk_all, OF set_walk_all]
    by (elim exE conjE) (force simp: and2_pattern_def pattern_size_def MAX_ANDS_def dest!: spec [of _ and2_pattern])
qed

end
