(* ===== verification/Aig_Cuts.thy ===== *)
theory Aig_Cuts
  imports Aig_Graph Pattern_Library "HOL-Library.List_Lexorder" "HOL-Library.Product_Lexorder"
begin

section \<open>Cuts of an AIG and their truth tables (\<open>aig/rewrite.rs\<close>)\<close>

text \<open>
  The first half of the rewrite pass: for every node up to eight cuts of at most four leaves,
  found by merging the cuts of the fanins, and the truth table of a cut.  Node indices are
  natural numbers; the gate count of a cone keeps its 32 bits.  A vector or a memo table is
  passed along explicitly, an index out of range is a panic, and the recursion of the
  evaluation, which ends because fanins point backwards, is a partial function.
\<close>

definition MAX_CUT_LEAVES :: nat where "MAX_CUT_LEAVES = 4"
definition CUTS_PER_NODE :: nat where "CUTS_PER_NODE = 8"

record cut =
  cut_leaves :: "nat list"
  cone_size :: "32 word"

text \<open>The loop of \<open>merge_cuts\<close>; \<open>xs\<close> and \<open>ys\<close> are the leaves from \<open>i\<close> and from \<open>j\<close> on.\<close>

function merge_leaves :: "nat list \<Rightarrow> nat list \<Rightarrow> nat list \<Rightarrow> nat list option" where
  "merge_leaves [] [] out = Some out"
| "merge_leaves (x # xs) (y # ys) out =
     (let (take, xs', ys') = (if x < y then (x, xs, y # ys) else if y < x then (y, x # xs, ys) else (x, xs, ys))
      in if MAX_CUT_LEAVES \<le> length out then None else merge_leaves xs' ys' (out @ [take]))"
| "merge_leaves (x # xs) [] out = (if MAX_CUT_LEAVES \<le> length out then None else merge_leaves xs [] (out @ [x]))"
| "merge_leaves [] (y # ys) out = (if MAX_CUT_LEAVES \<le> length out then None else merge_leaves [] ys (out @ [y]))"
  by pat_completeness auto
termination merge_leaves
  by (relation "measure (\<lambda>(xs, ys, out). length xs + length ys)") (auto split: if_splits)

definition merge_cuts :: "cut \<Rightarrow> cut \<Rightarrow> cut option" where
  "merge_cuts a b = do {
     out \<leftarrow> merge_leaves (cut_leaves a) (cut_leaves b) [];
     Some \<lparr>cut_leaves = out, cone_size = cone_size a + cone_size b + 1\<rparr>
   }"

text \<open>\<open>dedup_by\<close>: an element with the leaves of the last one kept is dropped.\<close>

fun dedup_leaves :: "cut list \<Rightarrow> cut list" where
  "dedup_leaves (a # b # cs) =
     (if cut_leaves b = cut_leaves a then dedup_leaves (a # cs) else a # dedup_leaves (b # cs))"
| "dedup_leaves cs = cs"

definition trivial_cut :: "nat \<Rightarrow> cut" where
  "trivial_cut i = \<lparr>cut_leaves = [i], cone_size = 0\<rparr>"

definition node_cuts :: "cut list list \<Rightarrow> nat \<Rightarrow> aig_node \<Rightarrow> cut list" where
  "node_cuts cuts i node =
     (case node of
        AConst \<Rightarrow> [trivial_cut i]
      | AInput _ \<Rightarrow> [trivial_cut i]
      | AAnd fanin0 fanin1 \<Rightarrow>
          let own = List.map_filter (\<lambda>(ca, cb). merge_cuts ca cb)
                (List.product (cuts ! node_idx fanin0) (cuts ! node_idx fanin1));
              own = own @ [trivial_cut i];
              own = dedup_leaves (sort_key (\<lambda>c. (cut_leaves c, cone_size c)) own);
              own = sort_key (\<lambda>c. (length (cut_leaves c), cone_size c)) own
          in take CUTS_PER_NODE own)"

definition enumerate_cuts :: "aig_module \<Rightarrow> cut list list" where
  "enumerate_cuts aig =
     fold (\<lambda>(i, node) cuts. cuts[i := node_cuts cuts i node]) (enumerate 0 (ag_nodes aig))
       (replicate (length (ag_nodes aig)) [])"

type_synonym tt_map = "nat \<Rightarrow> tt4 option"

partial_function (option) eval_tt :: "aig_node list \<Rightarrow> tt_map \<Rightarrow> nat \<Rightarrow> tt_map \<Rightarrow> (tt4 \<times> tt_map) option" where
  "eval_tt nodes leaf_tt node memo =
     (case leaf_tt node of Some t \<Rightarrow> Some (t, memo)
      | None \<Rightarrow>
     (case memo node of Some t \<Rightarrow> Some (t, memo)
      | None \<Rightarrow>
      if node < length nodes then
        (case nodes ! node of
           AConst \<Rightarrow> Some (0, memo(node \<mapsto> 0))
         | AInput _ \<Rightarrow> Some (0, memo(node \<mapsto> 0))
         | AAnd fanin0 fanin1 \<Rightarrow> do {
             ra \<leftarrow> eval_tt nodes leaf_tt (node_idx fanin0) memo;
             let a = (if is_negated fanin0 then NOT (fst ra) else fst ra);
             rb \<leftarrow> eval_tt nodes leaf_tt (node_idx fanin1) (snd ra);
             let b = (if is_negated fanin1 then NOT (fst rb) else fst rb);
             let tt = a AND b;
             Some (tt, (snd rb)(node \<mapsto> tt))
           })
      else None))"

datatype cut_table = Trivial | Table tt4

definition leaf_table :: "nat list \<Rightarrow> tt_map" where
  "leaf_table ls = fold (\<lambda>(i, n) m. m(n \<mapsto> VAR_TT ! i)) (enumerate 0 ls) Map.empty"

text \<open>A cut without a table (the \<open>None\<close> of the code) is \<open>Trivial\<close>; \<open>None\<close> is a panic.\<close>

definition compute_cut_tt :: "aig_module \<Rightarrow> nat \<Rightarrow> cut \<Rightarrow> cut_table option" where
  "compute_cut_tt aig root c =
     (if 4 < length (cut_leaves c) then Some Trivial
      else if length (cut_leaves c) = 1 \<and> cut_leaves c ! 0 = root then Some Trivial
      else do {
        r \<leftarrow> eval_tt (ag_nodes aig) (leaf_table (cut_leaves c)) root Map.empty;
        Some (Table (fst r))
      })"

subsection \<open>Merging\<close>

lemma merge_leaves_result:
  assumes "merge_leaves xs ys out = Some zs" "length out \<le> MAX_CUT_LEAVES"
    and "sorted_wrt (<) xs" "sorted_wrt (<) ys" "sorted_wrt (<) out"
    and "\<And>w x. w \<in> set out \<Longrightarrow> x \<in> set xs \<union> set ys \<Longrightarrow> w < x"
  shows "set zs = set out \<union> set xs \<union> set ys \<and> sorted_wrt (<) zs \<and> length zs \<le> MAX_CUT_LEAVES"
  using assms
proof (induction xs ys out rule: merge_leaves.induct)
  case (2 x xs y ys out)
  consider "x < y" | "y < x" | "x = y" by linarith
  then show ?case
  proof cases
    case 1
    then show ?thesis using "2.IH" [of "(x, xs, y # ys)" x "(xs, y # ys)" xs "y # ys"] "2.prems"
      by (force simp: sorted_wrt_append split: if_splits)
  next
    case c: 2
    then show ?thesis using "2.IH" [of "(y, x # xs, ys)" y "(x # xs, ys)" "x # xs" ys] "2.prems"
      by (force simp: sorted_wrt_append split: if_splits)
  next
    case 3
    then show ?thesis using "2.IH" [of "(x, xs, ys)" x "(xs, ys)" xs ys] "2.prems"
      by (force simp: sorted_wrt_append split: if_splits)
  qed
next
  case (3 x xs out)
  then show ?case by (force simp: sorted_wrt_append split: if_splits)
next
  case (4 y ys out)
  then show ?case by (force simp: sorted_wrt_append split: if_splits)
qed simp

subsection \<open>Every enumerated cut separates its node from the inputs\<close>

text \<open>\<open>cone nodes L i\<close>: every path from \<open>i\<close> towards the inputs meets a node of \<open>L\<close>.\<close>

inductive cone :: "aig_node list \<Rightarrow> nat set \<Rightarrow> nat \<Rightarrow> bool" for nodes L where
  leaf: "i \<in> L \<Longrightarrow> cone nodes L i"
| gate: "nodes ! i = AAnd a b \<Longrightarrow> cone nodes L (node_idx a) \<Longrightarrow> cone nodes L (node_idx b) \<Longrightarrow> cone nodes L i"

lemma cone_mono: "cone nodes L i \<Longrightarrow> L \<subseteq> M \<Longrightarrow> cone nodes M i"
  by (induction rule: cone.induct) (auto intro: cone.intros)

definition cut_ok :: "aig_node list \<Rightarrow> nat \<Rightarrow> cut \<Rightarrow> bool" where
  "cut_ok nodes i c \<longleftrightarrow> sorted_wrt (<) (cut_leaves c) \<and> length (cut_leaves c) \<le> MAX_CUT_LEAVES
     \<and> (cut_leaves c = [i] \<or> (\<forall>l \<in> set (cut_leaves c). l < i)) \<and> cone nodes (set (cut_leaves c)) i"

lemma trivial_cut_ok [simp]: "cut_ok nodes i (trivial_cut i)"
  by (simp add: cut_ok_def trivial_cut_def MAX_CUT_LEAVES_def cone.leaf)

lemma merge_cuts_ok:
  assumes "nodes ! i = AAnd a b" "node_idx a < i" "node_idx b < i"
    and "cut_ok nodes (node_idx a) ca" "cut_ok nodes (node_idx b) cb" "merge_cuts ca cb = Some c"
  shows "cut_ok nodes i c"
proof -
  obtain out where m: "merge_leaves (cut_leaves ca) (cut_leaves cb) [] = Some out" and c: "cut_leaves c = out"
    using assms(6) by (auto simp: merge_cuts_def bind_eq_Some_conv)
  have r: "set out = set (cut_leaves ca) \<union> set (cut_leaves cb)" "sorted_wrt (<) out" "length out \<le> MAX_CUT_LEAVES"
    using merge_leaves_result [OF m] assms(4,5) by (auto simp: cut_ok_def)
  have "cone nodes (set out) (node_idx a)" "cone nodes (set out) (node_idx b)"
    using assms(4,5) r(1) by (auto simp: cut_ok_def intro: cone_mono)
  moreover have "\<forall>l \<in> set out. l < i" using assms(2-5) r(1) by (auto simp: cut_ok_def)
  ultimately show ?thesis
    using r assms(1) by (auto simp: cut_ok_def c intro: cone.gate)
qed

lemma set_dedup_leaves: "set (dedup_leaves cs) \<subseteq> set cs"
  by (induction cs rule: dedup_leaves.induct) auto

lemma node_cuts_ok:
  assumes "aig_wf m" "i < length (ag_nodes m)"
    and "\<And>j c. j < i \<Longrightarrow> c \<in> set (cuts ! j) \<Longrightarrow> cut_ok (ag_nodes m) j c"
    and "c \<in> set (node_cuts cuts i (ag_nodes m ! i))"
  shows "cut_ok (ag_nodes m) i c"
proof (cases "ag_nodes m ! i")
  case (AAnd a b)
  then have lt: "node_idx a < i" "node_idx b < i" using aig_wfD(4) [OF assms(1,2)] by (auto simp: and_ok_def)
  let ?own = "List.map_filter (\<lambda>(ca, cb). merge_cuts ca cb) (List.product (cuts ! node_idx a) (cuts ! node_idx b)) @ [trivial_cut i]"
  have "c \<in> set (dedup_leaves (sort_key (\<lambda>c. (cut_leaves c, cone_size c)) ?own))"
    using assms(4) AAnd by (auto simp: node_cuts_def Let_def dest!: in_set_takeD)
  then have "c \<in> set ?own" using set_dedup_leaves by fastforce
  then show ?thesis
  proof (cases "c = trivial_cut i")
    case False
    then obtain ca cb where "ca \<in> set (cuts ! node_idx a)" "cb \<in> set (cuts ! node_idx b)" "merge_cuts ca cb = Some c"
      using \<open>c \<in> set ?own\<close> by (auto simp: map_filter_def)
    then show ?thesis using merge_cuts_ok [OF AAnd lt] assms(3) lt by blast
  qed simp
qed (use assms(4) in \<open>simp_all add: node_cuts_def\<close>)

lemma fold_cuts:
  assumes wf: "aig_wf m" and ns: "ag_nodes m = ns @ ms"
  shows "length (fold (\<lambda>(i, node) cuts. cuts[i := node_cuts cuts i node]) (enumerate 0 ns) (replicate (length (ag_nodes m)) [])) =
      length (ag_nodes m)
    \<and> (\<forall>i < length (ag_nodes m). \<forall>c \<in> set (fold (\<lambda>(i, node) cuts. cuts[i := node_cuts cuts i node]) (enumerate 0 ns)
        (replicate (length (ag_nodes m)) []) ! i). cut_ok (ag_nodes m) i c)"
  using ns
proof (induction ns arbitrary: ms rule: rev_induct)
  case (snoc n ns)
  let ?f = "\<lambda>(i, node) cuts. cuts[i := node_cuts cuts i node]"
  let ?cuts = "fold ?f (enumerate 0 ns) (replicate (length (ag_nodes m)) [])"
  have ih: "length ?cuts = length (ag_nodes m)"
    "\<And>i c. i < length (ag_nodes m) \<Longrightarrow> c \<in> set (?cuts ! i) \<Longrightarrow> cut_ok (ag_nodes m) i c"
    using snoc.IH [of "[n] @ ms"] snoc.prems by auto
  have step: "fold ?f (enumerate 0 (ns @ [n])) (replicate (length (ag_nodes m)) []) =
      ?cuts[length ns := node_cuts ?cuts (length ns) n]"
    by (simp add: enumerate_append_eq)
  have len: "length ns < length (ag_nodes m)" and n: "ag_nodes m ! length ns = n"
    using snoc.prems by simp_all
  have "cut_ok (ag_nodes m) (length ns) c" if "c \<in> set (node_cuts ?cuts (length ns) n)" for c
    using node_cuts_ok [OF wf len, of ?cuts c] ih(2) len that n by simp
  then have new: "cut_ok (ag_nodes m) i c"
    if "i < length (ag_nodes m)" "c \<in> set (?cuts[length ns := node_cuts ?cuts (length ns) n] ! i)" for i c
    using that ih by (cases "i = length ns") simp_all
  then show ?case unfolding step using ih(1) by simp
qed simp

lemma enumerate_cuts_ok:
  assumes "aig_wf m"
  shows "length (enumerate_cuts m) = length (ag_nodes m)"
    "i < length (ag_nodes m) \<Longrightarrow> c \<in> set (enumerate_cuts m ! i) \<Longrightarrow> cut_ok (ag_nodes m) i c"
  using fold_cuts [OF assms, of "ag_nodes m" "[]"] by (auto simp: enumerate_cuts_def)

subsection \<open>The truth table of a cut\<close>

text \<open>
  A table is right for a node when, under every assignment of the inputs, its bit for the
  values of the leaves is the value of the node; bits beyond the leaves do not matter.
\<close>

definition tt_right :: "aig_node list \<Rightarrow> nat list \<Rightarrow> nat \<Rightarrow> tt4 \<Rightarrow> bool" where
  "tt_right nodes ls i t \<longleftrightarrow> (\<forall>env m. m < 16 \<longrightarrow>
     (\<forall>k < length ls. bit m k = aig_values env nodes ! (ls ! k)) \<longrightarrow> bit t m = aig_values env nodes ! i)"

definition memo_right :: "aig_node list \<Rightarrow> nat list \<Rightarrow> tt_map \<Rightarrow> bool" where
  "memo_right nodes ls memo \<longleftrightarrow> (\<forall>i t. memo i = Some t \<longrightarrow> tt_right nodes ls i t)"

lemma memo_right_update: "memo_right nodes ls memo \<Longrightarrow> tt_right nodes ls i t \<Longrightarrow> memo_right nodes ls (memo(i \<mapsto> t))"
  by (simp add: memo_right_def)

lemma leaf_table_nth:
  "distinct ls \<Longrightarrow> leaf_table ls n = (if n \<in> set ls then Some (VAR_TT ! (THE k. k < length ls \<and> ls ! k = n)) else None)"
proof (induction ls rule: rev_induct)
  case (snoc l ls)
  have step: "leaf_table (ls @ [l]) = (leaf_table ls)(l \<mapsto> VAR_TT ! length ls)"
    by (simp add: leaf_table_def enumerate_append_eq)
  have "(THE k. k < length (ls @ [l]) \<and> (ls @ [l]) ! k = l) = length ls"
    using snoc.prems by (intro the_equality) (auto simp: nth_append less_Suc_eq)
  moreover have "(k < length (ls @ [l]) \<and> (ls @ [l]) ! k = n) = (k < length ls \<and> ls ! k = n)" if "n \<noteq> l" for k
    using that by (auto simp: nth_append less_Suc_eq)
  ultimately show ?case using snoc by (auto simp: step)
qed (simp add: leaf_table_def)

lemma leaf_table_some:
  assumes "distinct ls" "k < length ls"
  shows "leaf_table ls (ls ! k) = Some (VAR_TT ! k)"
proof -
  have "(THE j. j < length ls \<and> ls ! j = ls ! k) = k"
    using assms nth_eq_iff_index_eq by (intro the_equality) auto
  then show ?thesis using assms by (simp add: leaf_table_nth)
qed

lemma bit_VAR_TT: "k < 4 \<Longrightarrow> m < 16 \<Longrightarrow> bit (VAR_TT ! k) m = bit m k"
proof -
  assume k: "k < 4" and m: "m < 16"
  have "bit (VAR_TT ! k) m = column m VAR_TT ! k" using k by (simp add: column_def length_VAR_TT)
  then show ?thesis using var_tt_column [OF m] nth_input_bits [OF k] by simp
qed

lemma tt_right_leaf:
  assumes "distinct ls" "length ls \<le> 4" "i \<in> set ls"
  obtains t where "leaf_table ls i = Some t" "tt_right nodes ls i t"
proof -
  obtain k where k: "k < length ls" "ls ! k = i" using assms(3) by (auto simp: in_set_conv_nth)
  have "tt_right nodes ls i (VAR_TT ! k)"
    using k assms(2) by (auto simp: tt_right_def bit_VAR_TT)
  then show ?thesis using that leaf_table_some [OF assms(1) k(1)] k(2) by simp
qed

lemma eval_tt_cone:
  assumes wf: "aig_wf m" and ls: "distinct ls" "length ls \<le> 4"
    and i: "cone (ag_nodes m) (set ls) i" "i < length (ag_nodes m)" and memo: "memo_right (ag_nodes m) ls memo"
  shows "\<exists>t memo'. eval_tt (ag_nodes m) (leaf_table ls) i memo = Some (t, memo')
    \<and> tt_right (ag_nodes m) ls i t \<and> memo_right (ag_nodes m) ls memo'"
  using i memo
proof (induction i arbitrary: memo rule: cone.induct)
  case (leaf i)
  then obtain t where "leaf_table ls i = Some t" "tt_right (ag_nodes m) ls i t"
    using tt_right_leaf [OF ls] by blast
  then show ?case using leaf by (simp add: eval_tt.simps [of _ _ i])
next
  case (gate i a b)
  have lt: "node_idx a < length (ag_nodes m)" "node_idx b < length (ag_nodes m)"
    using aig_wfD(4) [OF wf gate.prems(1)] gate.hyps(1) gate.prems(1) by (auto simp: and_ok_def)
  show ?case
  proof (cases "i \<in> set ls \<or> memo i \<noteq> None")
    case True
    show ?thesis
    proof (cases "i \<in> set ls")
      case True
      then obtain t where "leaf_table ls i = Some t" "tt_right (ag_nodes m) ls i t"
        using tt_right_leaf [OF ls] by blast
      then show ?thesis using gate.prems by (simp add: eval_tt.simps [of _ _ i])
    next
      case False
      then obtain t where t: "memo i = Some t" using True by blast
      then have "tt_right (ag_nodes m) ls i t" using gate.prems(2) by (simp add: memo_right_def)
      then show ?thesis using False t gate.prems by (simp add: eval_tt.simps [of _ _ i] leaf_table_nth [OF ls(1)])
    qed
  next
    case False
    obtain ta ma where a: "eval_tt (ag_nodes m) (leaf_table ls) (node_idx a) memo = Some (ta, ma)"
      "tt_right (ag_nodes m) ls (node_idx a) ta" "memo_right (ag_nodes m) ls ma"
      using gate.IH(1) [OF lt(1) gate.prems(2)] by blast
    obtain tb mb where b: "eval_tt (ag_nodes m) (leaf_table ls) (node_idx b) ma = Some (tb, mb)"
      "tt_right (ag_nodes m) ls (node_idx b) tb" "memo_right (ag_nodes m) ls mb"
      using gate.IH(2) [OF lt(2) a(3)] by blast
    let ?t = "(if is_negated a then NOT ta else ta) AND (if is_negated b then NOT tb else tb)"
    have val: "aig_values env (ag_nodes m) ! i =
        ((aig_values env (ag_nodes m) ! node_idx a \<noteq> is_negated a) \<and> (aig_values env (ag_nodes m) ! node_idx b \<noteq> is_negated b))" for env
      using node_val [OF wf gate.prems(1), of env] gate.hyps(1) by (simp add: edge_in_def)
    have "tt_right (ag_nodes m) ls i ?t"
      using a(2) b(2) by (auto simp: tt_right_def val bit_and_iff bit_not_iff)
    moreover from this have "memo_right (ag_nodes m) ls (mb(i \<mapsto> ?t))"
      by (rule memo_right_update [OF b(3)])
    moreover have "eval_tt (ag_nodes m) (leaf_table ls) i memo = Some (?t, mb(i \<mapsto> ?t))"
      using False gate.hyps(1) gate.prems(1) a(1) b(1)
      by (simp add: eval_tt.simps [of _ _ i] leaf_table_nth [OF ls(1)] Let_def)
    ultimately show ?thesis by blast
  qed
qed

lemma compute_cut_tt_right:
  assumes "aig_wf m" "i < length (ag_nodes m)" "cut_ok (ag_nodes m) i c"
  shows "compute_cut_tt m i c = Some Trivial \<and> cut_leaves c = [i] \<or>
    (\<exists>t. compute_cut_tt m i c = Some (Table t) \<and> tt_right (ag_nodes m) (cut_leaves c) i t)"
proof (cases "cut_leaves c = [i]")
  case True
  then show ?thesis by (simp add: compute_cut_tt_def)
next
  case False
  have d: "distinct (cut_leaves c)" "length (cut_leaves c) \<le> 4" "cone (ag_nodes m) (set (cut_leaves c)) i"
    using assms(3) by (auto simp: cut_ok_def MAX_CUT_LEAVES_def strict_sorted_iff)
  have "memo_right (ag_nodes m) (cut_leaves c) Map.empty" by (simp add: memo_right_def)
  from eval_tt_cone [OF assms(1) d assms(2) this] obtain t memo where
    "eval_tt (ag_nodes m) (leaf_table (cut_leaves c)) i Map.empty = Some (t, memo)"
    "tt_right (ag_nodes m) (cut_leaves c) i t" by blast
  moreover have "\<not> (length (cut_leaves c) = 1 \<and> cut_leaves c ! 0 = i)"
    using False by (auto simp: length_Suc_conv)
  ultimately show ?thesis using d(2) by (auto simp: compute_cut_tt_def)
qed

text \<open>
  C26: cuts and their tables. In a well-formed graph every cut that the enumeration keeps for
  a node has at most four, strictly ascending leaves that separate the node from the inputs;
  and the table computed for it gives the node's value from the values of the leaves,
  whatever the inputs and whatever the unused table variables are. (The table is skipped only
  for the trivial cut.) The evaluation always returns.
\<close>

theorem cut_tables_correct:
  assumes "aig_wf m" "i < length (ag_nodes m)" "c \<in> set (enumerate_cuts m ! i)"
  shows "sorted_wrt (<) (cut_leaves c) \<and> length (cut_leaves c) \<le> 4 \<and> cone (ag_nodes m) (set (cut_leaves c)) i
    \<and> (cut_leaves c \<noteq> [i] \<longrightarrow> (\<exists>t. compute_cut_tt m i c = Some (Table t) \<and>
        (\<forall>env n. n < 16 \<longrightarrow> (\<forall>k < length (cut_leaves c). bit n k = aig_values env (ag_nodes m) ! (cut_leaves c ! k)) \<longrightarrow>
           bit t n = aig_values env (ag_nodes m) ! i)))"
  using enumerate_cuts_ok(2) [OF assms] compute_cut_tt_right [OF assms(1,2)]
  unfolding cut_ok_def tt_right_def MAX_CUT_LEAVES_def by blast

text \<open>The graph of one AND over the inputs 7 and 9.\<close>

definition and_graph :: aig_module where
  "and_graph = snd (run_state (mk_and (AigEdge 2) (AigEdge 4)) two_inputs)"

lemma and_graph_wf: "aig_wf and_graph"
proof -
  obtain e m where r: "run_state (mk_and (AigEdge 2) (AigEdge 4)) two_inputs = (e, m)" by fastforce
  then show ?thesis
    using mk_and_spec(1) [OF two_inputs_ok(1) _ two_inputs_ok(3,4) r] growsD(1) two_inputs_ok(2) by (simp add: and_graph_def)
qed

lemma and_graph_nodes: "ag_nodes and_graph = [AConst, AInput 7, AInput 9, AAnd (AigEdge 2) (AigEdge 4)]"
  by (simp add: and_graph_def two_inputs_def add_input_def aig_new_def Let_def mk_and_def intern_and_def
      CONST0_def CONST1_def negate_def)

lemma and_graph_cut: "\<lparr>cut_leaves = [1, 2], cone_size = 1\<rparr> \<in> set (enumerate_cuts and_graph ! 3)"
  unfolding enumerate_cuts_def and_graph_nodes by code_simp

theorem cut_tables_correct_witness:
  "\<exists>t. compute_cut_tt and_graph 3 \<lparr>cut_leaves = [1, 2], cone_size = 1\<rparr> = Some (Table t)"
  using cut_tables_correct [OF and_graph_wf _ and_graph_cut] by (auto simp: and_graph_nodes)

end
