(* ===== verification/Aig_Rewrite.thy ===== *)
theory Aig_Rewrite
  imports Aig_Cuts
begin

section \<open>The structural rewrite pass (\<open>aig/rewrite.rs\<close>)\<close>

text \<open>
  The pass rebuilds the graph node by node; a cone that the library can build with fewer gates
  is replaced by the library's pattern, everything else is copied, and a final walk drops
  what no sink reaches.  The new graph and the vector from old nodes to new edges are passed
  along; a failed \<open>expect\<close> and an index out of range are \<open>None\<close>.  The library is an
  argument.  The result computes the same function at every sink; the new graph may hold 25
  nodes per old node before it is compacted (eight cuts of three gates, and the copy), which
  bounds the graphs the theorem speaks of.
\<close>

fun resolve_pat_edge :: "aig_edge list \<Rightarrow> pat_edge \<Rightarrow> aig_edge option" where
  "resolve_pat_edge es (PatEdge n neg) = (if n < length es then Some (negate_if (es ! n) neg) else None)"

fun instantiate_ands :: "(pat_edge \<times> pat_edge) list \<Rightarrow> aig_edge list \<Rightarrow> aig_module \<Rightarrow> (aig_edge list \<times> aig_module) option" where
  "instantiate_ands [] es m = Some (es, m)"
| "instantiate_ands ((a, b) # rest) es m = do {
     ea \<leftarrow> resolve_pat_edge es a;
     eb \<leftarrow> resolve_pat_edge es b;
     (case run_state (mk_and ea eb) m of (e, m) \<Rightarrow> instantiate_ands rest (es @ [e]) m)
   }"

definition instantiate_pattern :: "aig_module \<Rightarrow> aig_pattern \<Rightarrow> aig_edge list \<Rightarrow> (aig_edge \<times> aig_module) option" where
  "instantiate_pattern new_aig pat var_edges = do {
     (es, m) \<leftarrow> instantiate_ands (p_ands pat) var_edges new_aig;
     e \<leftarrow> resolve_pat_edge es (p_output pat);
     Some (e, m)
   }"

definition emitted :: "aig_edge option list \<Rightarrow> nat \<Rightarrow> aig_edge option" where
  "emitted new_edge i = (if i < length new_edge then new_edge ! i else None)"

definition leaf_edges :: "aig_edge option list \<Rightarrow> nat list \<Rightarrow> aig_edge list option" where
  "leaf_edges new_edge ls = do {
     es \<leftarrow> those (map (emitted new_edge) ls);
     Some (es @ replicate (4 - length es) (es ! 0))
   }"

definition var_edges :: "npn_transform \<Rightarrow> aig_edge list \<Rightarrow> aig_edge list" where
  "var_edges t les = map (\<lambda>i. negate_if (les ! (t_perm t ! i)) (drop_bit i (t_in_neg t) AND 1 \<noteq> 0)) [0, 1, 2, 3]"

type_synonym rewrite_state = "(32 word \<times> aig_edge) option \<times> aig_module"

definition try_cut ::
    "pat_lib \<Rightarrow> aig_module \<Rightarrow> nat \<Rightarrow> aig_edge option list \<Rightarrow> cut \<Rightarrow> rewrite_state \<Rightarrow> rewrite_state option" where
  "try_cut lib aig root new_edge c st =
     (if length (cut_leaves c) < 2 \<or> 4 < length (cut_leaves c) then Some st
      else if length (cut_leaves c) = 1 \<and> cut_leaves c ! 0 = root then Some st
      else do {
        table \<leftarrow> compute_cut_tt aig root c;
        (case table of Trivial \<Rightarrow> Some st
         | Table tt \<Rightarrow>
           (case npn_canonical tt of (canonical, t) \<Rightarrow>
            (case lib canonical of None \<Rightarrow> Some st
             | Some pat \<Rightarrow>
               let pat_size = word_of_nat (pattern_size pat)
               in if cone_size c \<le> pat_size then Some st
                  else do {
                    les \<leftarrow> leaf_edges new_edge (cut_leaves c);
                    (e, new_aig) \<leftarrow> instantiate_pattern (snd st) pat (var_edges t les);
                    let out_edge = negate_if e (t_out_neg t);
                    Some (case fst st of
                        Some (bs, _) \<Rightarrow> if bs \<le> pat_size then fst st else Some (pat_size, out_edge)
                      | None \<Rightarrow> Some (pat_size, out_edge), new_aig)
                  })))
      })"

definition try_library_rewrite ::
    "pat_lib \<Rightarrow> aig_module \<Rightarrow> aig_module \<Rightarrow> nat \<Rightarrow> cut list \<Rightarrow> aig_edge option list \<Rightarrow> (aig_edge option \<times> aig_module) option" where
  "try_library_rewrite lib new_aig aig root cuts new_edge = do {
     (best, new_aig) \<leftarrow> fold_opt (try_cut lib aig root new_edge) cuts (None, new_aig);
     Some (map_option snd best, new_aig)
   }"

text \<open>An AND over the new edges of its fanins, as both passes copy it.\<close>

definition copy_and :: "aig_edge option list \<Rightarrow> aig_edge \<Rightarrow> aig_edge \<Rightarrow> aig_module \<Rightarrow> (aig_edge \<times> aig_module) option" where
  "copy_and new_edge fanin0 fanin1 m = do {
     e0 \<leftarrow> emitted new_edge (node_idx fanin0);
     e1 \<leftarrow> emitted new_edge (node_idx fanin1);
     Some (run_state (mk_and (negate_if e0 (is_negated fanin0)) (negate_if e1 (is_negated fanin1))) m)
   }"

definition rewrite_node ::
    "pat_lib \<Rightarrow> aig_module \<Rightarrow> cut list list \<Rightarrow> nat \<times> aig_node \<Rightarrow> aig_module \<times> aig_edge option list
      \<Rightarrow> (aig_module \<times> aig_edge option list) option" where
  "rewrite_node lib aig cuts x st =
     (case x of (idx, node) \<Rightarrow> case st of (new_aig, new_edge) \<Rightarrow> do {
        (e, new_aig) \<leftarrow> (case node of
            AConst \<Rightarrow> Some (CONST0, new_aig)
          | AInput orig \<Rightarrow> Some (run_state (add_input orig) new_aig)
          | AAnd fanin0 fanin1 \<Rightarrow> do {
              (found, new_aig) \<leftarrow> try_library_rewrite lib new_aig aig idx (cuts ! idx) new_edge;
              (case found of Some e \<Rightarrow> Some (e, new_aig) | None \<Rightarrow> copy_and new_edge fanin0 fanin1 new_aig)
            });
        Some (new_aig, new_edge[idx := Some e])
      })"

definition wire_sink :: "aig_edge option list \<Rightarrow> aig_sink \<Rightarrow> aig_module \<Rightarrow> aig_module option" where
  "wire_sink new_edge s m = do {
     src \<leftarrow> emitted new_edge (node_idx (as_edge s));
     Some (snd (run_state (add_sink (as_target s) (negate_if src (is_negated (as_edge s)))) m))
   }"

text \<open>
  The marking loop of \<open>compact\<close>: the stack's top is the head of the list; the set grows with
  every node that is pushed from, so it ends.
\<close>

function mark_live :: "aig_node list \<Rightarrow> nat list \<Rightarrow> nat set \<Rightarrow> nat set option" where
  "mark_live nodes [] live = Some live"
| "mark_live nodes (idx # stack) live =
     (if idx \<in> live then mark_live nodes stack live
      else if idx < length nodes then
        (case nodes ! idx of
           AAnd fanin0 fanin1 \<Rightarrow> mark_live nodes (node_idx fanin1 # node_idx fanin0 # stack) (insert idx live)
         | _ \<Rightarrow> mark_live nodes stack (insert idx live))
      else None)"
  by pat_completeness auto
termination mark_live
proof (relation "measures [\<lambda>(nodes, stack, live). card ({..<length nodes} - live), \<lambda>(nodes, stack, live). length stack]")
  have less: "card ({..<n} - insert idx live) < card ({..<n} - live)" if "idx \<notin> live" "idx < n" for n idx :: nat and live
  proof -
    have "{..<n} - insert idx live = ({..<n} - live) - {idx}" by blast
    moreover have "card (({..<n} - live) - {idx}) < card ({..<n} - live)"
      by (rule card_Diff1_less) (use that in auto)
    ultimately show ?thesis by simp
  qed
  fix nodes :: "aig_node list" and idx :: nat and stack live a b
  let ?r = "measures [\<lambda>(nodes, stack, live). card ({..<length nodes} - live), \<lambda>(nodes, stack, live). length stack]"
  show "((nodes, stack, live), nodes, idx # stack, live) \<in> ?r" if "idx \<in> live" by simp
  show "((nodes, node_idx b # node_idx a # stack, insert idx live), nodes, idx # stack, live) \<in> ?r"
    if "idx \<notin> live" "idx < length nodes" using less [OF that] by simp
  show "((nodes, stack, insert idx live), nodes, idx # stack, live) \<in> ?r"
    if "idx \<notin> live" "idx < length nodes" using less [OF that] by simp
  show "((nodes, stack, insert idx live), nodes, idx # stack, live) \<in> ?r"
    if "idx \<notin> live" "idx < length nodes" using less [OF that] by simp
qed simp

definition copy_live ::
    "nat set \<Rightarrow> nat \<times> aig_node \<Rightarrow> aig_module \<times> aig_edge option list \<Rightarrow> (aig_module \<times> aig_edge option list) option" where
  "copy_live live x st =
     (case x of (idx, node) \<Rightarrow> case st of (out, new_edge) \<Rightarrow>
        if idx \<notin> live then Some (out, new_edge)
        else do {
          (e, out) \<leftarrow> (case node of
              AConst \<Rightarrow> Some (CONST0, out)
            | AInput orig \<Rightarrow> Some (run_state (add_input orig) out)
            | AAnd fanin0 fanin1 \<Rightarrow> copy_and new_edge fanin0 fanin1 out);
          Some (out, new_edge[idx := Some e])
        })"

definition compact_aig :: "aig_module \<Rightarrow> aig_module option" where
  "compact_aig aig = do {
     live \<leftarrow> mark_live (ag_nodes aig) (rev (map (\<lambda>s. node_idx (as_edge s)) (ag_sinks aig))) {};
     (out, new_edge) \<leftarrow> fold_opt (copy_live live) (enumerate 0 (ag_nodes aig)) (aig_new, replicate (length (ag_nodes aig)) None);
     fold_opt (wire_sink new_edge) (ag_sinks aig) out
   }"

definition rewrite :: "pat_lib \<Rightarrow> aig_module \<Rightarrow> aig_module option" where
  "rewrite lib aig = do {
     (new_aig, new_edge) \<leftarrow> fold_opt (rewrite_node lib aig (enumerate_cuts aig)) (enumerate 0 (ag_nodes aig))
       (aig_new, replicate (length (ag_nodes aig)) None);
     new_aig \<leftarrow> fold_opt (wire_sink new_edge) (ag_sinks aig) new_aig;
     compact_aig new_aig
   }"

subsection \<open>A library pattern computes the table it was chosen for\<close>

lemma resolve_pat_edge_spec:
  assumes "edge_ok (length es) pe" "list_all (valid_edge m) es"
  shows "\<exists>e. resolve_pat_edge es pe = Some e \<and> valid_edge m e
    \<and> (\<forall>env. edge_val env m e = edge_bool (map (edge_val env m) es) pe)"
proof (cases pe)
  case (PatEdge n neg)
  then show ?thesis using assms by (auto simp: list_all_length)
qed

lemma grows_list:
  assumes "grows k m m'" "list_all (valid_edge m) es"
  shows "list_all (valid_edge m') es" "map (edge_val env m') es = map (edge_val env m) es"
  using assms grows_valid grows_val by (auto simp: list_all_iff)

lemma instantiate_ands_spec:
  assumes "ands_ok (length es) as" "aig_wf m" "list_all (valid_edge m) es" "length (ag_nodes m) + length as \<le> 2 ^ 31"
  shows "\<exists>es' m'. instantiate_ands as es m = Some (es', m') \<and> grows (length as) m m' \<and> length es' = length es + length as
    \<and> list_all (valid_edge m') es' \<and> (\<forall>env. map (edge_val env m') es' = ands_bool as (map (edge_val env m) es))"
  using assms
proof (induction as arbitrary: es m)
  case Nil
  then show ?case by (simp add: grows_refl)
next
  case (Cons p as)
  obtain a b where p: "p = (a, b)" by fastforce
  obtain ea where ea: "resolve_pat_edge es a = Some ea" "valid_edge m ea"
    "\<forall>env. edge_val env m ea = edge_bool (map (edge_val env m) es) a"
    using resolve_pat_edge_spec [of es a m] Cons.prems by (auto simp: p)
  obtain eb where eb: "resolve_pat_edge es b = Some eb" "valid_edge m eb"
    "\<forall>env. edge_val env m eb = edge_bool (map (edge_val env m) es) b"
    using resolve_pat_edge_spec [of es b m] Cons.prems by (auto simp: p)
  obtain e m1 where r: "run_state (mk_and ea eb) m = (e, m1)" by fastforce
  have room: "length (ag_nodes m) < 2 ^ 31" using Cons.prems(4) by simp
  note and1 = mk_and_spec [OF Cons.prems(2) room ea(2) eb(2) r]
  have "ands_ok (length (es @ [e])) as" using Cons.prems(1) by (simp add: p)
  moreover have "list_all (valid_edge m1) (es @ [e])" using grows_list(1) [OF and1(1) Cons.prems(3)] and1(2) by simp
  moreover have "length (ag_nodes m1) + length as \<le> 2 ^ 31" using growsD(2) [OF and1(1)] Cons.prems(4) by simp
  ultimately obtain es' m' where ih: "instantiate_ands as (es @ [e]) m1 = Some (es', m')" "grows (length as) m1 m'"
    "length es' = length (es @ [e]) + length as" "list_all (valid_edge m') es'"
    "\<forall>env. map (edge_val env m') es' = ands_bool as (map (edge_val env m1) (es @ [e]))"
    using Cons.IH [OF _ growsD(1) [OF and1(1)]] by blast
  have cols: "map (edge_val env m1) (es @ [e]) =
      map (edge_val env m) es @ [edge_bool (map (edge_val env m) es) a \<and> edge_bool (map (edge_val env m) es) b]" for env
    using grows_list(2) [OF and1(1) Cons.prems(3)] and1(3) ea(3) eb(3) by simp
  have "map (edge_val env m') es' = ands_bool (p # as) (map (edge_val env m) es)" for env
    using ih(5) by (simp only: cols p ands_bool.simps)
  then show ?case
    using ih(1-4) ea(1) eb(1) r grows_trans [OF and1(1) ih(2)] by (simp add: p)
qed

lemma instantiate_pattern_spec:
  assumes "pattern_ok pat" "length es = 4" "aig_wf m" "list_all (valid_edge m) es"
    and "length (ag_nodes m) + pattern_size pat \<le> 2 ^ 31"
  shows "\<exists>e m'. instantiate_pattern m pat es = Some (e, m') \<and> grows (pattern_size pat) m m' \<and> valid_edge m' e
    \<and> (\<forall>env. edge_val env m' e = pattern_bool pat (map (edge_val env m) es))"
proof -
  obtain es' m' where 1: "instantiate_ands (p_ands pat) es m = Some (es', m')" "grows (pattern_size pat) m m'"
    "length es' = 4 + length (p_ands pat)" "list_all (valid_edge m') es'"
    "\<forall>env. map (edge_val env m') es' = ands_bool (p_ands pat) (map (edge_val env m) es)"
    using instantiate_ands_spec [of es "p_ands pat" m] assms by (auto simp: pattern_ok_def pattern_size_def)
  obtain e where 2: "resolve_pat_edge es' (p_output pat) = Some e" "valid_edge m' e"
    "\<forall>env. edge_val env m' e = edge_bool (map (edge_val env m') es') (p_output pat)"
    using resolve_pat_edge_spec [of es' "p_output pat" m'] 1(3,4) assms(1) by (auto simp: pattern_ok_def)
  show ?thesis using 1 2 by (simp add: instantiate_pattern_def pattern_bool_def)
qed

lemma input_bits_uval: "length bs = 4 \<Longrightarrow> input_bits (uval bs) = bs"
proof (rule nth_equalityI)
  assume len: "length bs = 4"
  show n: "length (input_bits (uval bs)) = length bs" by (simp add: len input_bits_def)
  show "input_bits (uval bs) ! i = bs ! i" if "i < length (input_bits (uval bs))" for i
    using that unfolding n len by (simp only: nth_input_bits bit_uval len) simp
qed

lemma uval_four: "length bs = 4 \<Longrightarrow> uval bs < 16"
  using uval_lt [of bs] by simp

lemma adapted_pattern:
  assumes t: "transform_ok t" and p: "pattern_ok pat" "pattern_tt pat = Some (npn_apply t tt)" and vs: "length vs = 4"
  shows "(pattern_bool pat (map (\<lambda>i. vs ! (t_perm t ! i) \<noteq> bit (t_in_neg t) i) [0, 1, 2, 3]) \<noteq> t_out_neg t) = bit tt (uval vs)"
proof -
  let ?ws = "map (\<lambda>i. vs ! (t_perm t ! i) \<noteq> bit (t_in_neg t) i) [0, 1, 2, 3]"
  have pt: "t_perm t \<in> set ALL_PERMS" using t by (simp add: transform_ok_def)
  have len: "length ?ws = 4" by simp
  obtain w where "pattern_tt pat = Some w" "\<And>m. m < 16 \<Longrightarrow> bit w m = pattern_bool pat (input_bits m)"
    using pattern_tt_bit [OF p(1)] by blast
  from this(1) this(2) [OF uval_four [OF len]] have "bit (npn_apply t tt) (uval ?ws) = pattern_bool pat ?ws"
    unfolding p(2) option.inject input_bits_uval [OF len] by simp
  then have "(pattern_bool pat ?ws \<noteq> t_out_neg t) = bit tt (cube_index t (uval ?ws))"
    unfolding bit_npn_apply [OF t uval_four [OF len]] by argo
  also have "cube_index t (uval ?ws) = uval vs"
  proof (rule bit_eqI)
    fix j
    show "bit (cube_index t (uval ?ws)) j = bit (uval vs) j"
    proof (cases "j < 4")
      case True
      have q: "perm_inv (t_perm t) ! j < 4" "t_perm t ! (perm_inv (t_perm t) ! j) = j"
        using perm_facts(4,6) [OF pt True] .
      have "bit (uval ?ws) (perm_inv (t_perm t) ! j) = (vs ! j \<noteq> bit (t_in_neg t) (perm_inv (t_perm t) ! j))"
        unfolding bit_uval len nth_four [OF q(1)] q(2) using q(1) by blast
      then show ?thesis using True vs by (auto simp: bit_cube_index [OF t] bit_uval)
    qed (use vs in \<open>simp add: bit_cube_index [OF t] bit_uval\<close>)
  qed
  finally show ?thesis .
qed

subsection \<open>One node\<close>

text \<open>The new edge of an old node: its value is the node's value.\<close>

definition carried :: "aig_module \<Rightarrow> aig_module \<Rightarrow> aig_edge option list \<Rightarrow> nat \<Rightarrow> bool" where
  "carried aig new ne i \<longleftrightarrow> (\<exists>e. emitted ne i = Some e \<and> valid_edge new e
     \<and> (\<forall>env. edge_val env new e = aig_values env (ag_nodes aig) ! i))"

lemma carried_grows: "carried aig new ne i \<Longrightarrow> grows k new new' \<Longrightarrow> carried aig new' ne i"
  unfolding carried_def using grows_valid grows_val by metis

lemma leaf_edges_spec:
  assumes "list_all (carried aig new ne) ls" "ls \<noteq> []" "length ls \<le> 4" "sorted_wrt (<) ls"
  shows "\<exists>les. leaf_edges ne ls = Some les \<and> length les = 4 \<and> list_all (valid_edge new) les
    \<and> (\<forall>env. \<forall>k < length ls. edge_val env new (les ! k) = aig_values env (ag_nodes aig) ! (ls ! k))"
proof -
  have "\<exists>es. those (map (emitted ne) ls) = Some es \<and> length es = length ls \<and> list_all (valid_edge new) es
    \<and> (\<forall>env. \<forall>k < length ls. edge_val env new (es ! k) = aig_values env (ag_nodes aig) ! (ls ! k))"
    using assms(1)
  proof (induction ls)
    case (Cons l ls)
    then obtain e es where "emitted ne l = Some e" "valid_edge new e" "those (map (emitted ne) ls) = Some es"
      "\<forall>env. edge_val env new e = aig_values env (ag_nodes aig) ! l" "length es = length ls" "list_all (valid_edge new) es"
      "\<forall>env. \<forall>k < length ls. edge_val env new (es ! k) = aig_values env (ag_nodes aig) ! (ls ! k)"
      by (auto simp: carried_def)
    then show ?case by (auto simp: nth_Cons split: nat.split)
  qed simp
  then obtain es where es: "those (map (emitted ne) ls) = Some es" "length es = length ls" "list_all (valid_edge new) es"
    "\<forall>env. \<forall>k < length ls. edge_val env new (es ! k) = aig_values env (ag_nodes aig) ! (ls ! k)" by blast
  have "es \<noteq> []" using es(2) assms(2) by auto
  then have "valid_edge new (es ! 0)" using es(3) by (simp add: list_all_length)
  then show ?thesis
    using es assms(3) by (auto simp: leaf_edges_def nth_append list_all_iff)
qed

definition best_ok :: "aig_module \<Rightarrow> nat \<Rightarrow> rewrite_state \<Rightarrow> bool" where
  "best_ok aig root st \<longleftrightarrow> (case fst st of None \<Rightarrow> True
     | Some (_, e) \<Rightarrow> valid_edge (snd st) e \<and> (\<forall>env. edge_val env (snd st) e = aig_values env (ag_nodes aig) ! root))"

lemma best_ok_grows: "best_ok aig root (b, new) \<Longrightarrow> grows k new new' \<Longrightarrow> best_ok aig root (b, new')"
  unfolding best_ok_def using grows_valid grows_val by (auto split: option.splits)

lemma try_cut_spec:
  assumes aig: "aig_wf aig" "root < length (ag_nodes aig)" and lib: "lib_sound lib"
    and c: "cut_ok (ag_nodes aig) root c" and car: "\<And>i. i < root \<Longrightarrow> carried aig new ne i"
    and new: "aig_wf new" "length (ag_nodes new) + 3 \<le> 2 ^ 31" and best: "best_ok aig root (b, new)"
  shows "\<exists>b' new'. try_cut lib aig root ne c (b, new) = Some (b', new') \<and> grows 3 new new' \<and> best_ok aig root (b', new')"
proof -
  have stay: "grows 3 new new \<and> best_ok aig root (b, new)" using best grows_mono [OF grows_refl [OF new(1)]] by simp
  show ?thesis
  proof (cases "length (cut_leaves c) < 2 \<or> 4 < length (cut_leaves c) \<or> cut_leaves c = [root]")
    case True
    then show ?thesis using stay by (auto simp: try_cut_def)
  next
    case False
    then have two: "2 \<le> length (cut_leaves c)" "length (cut_leaves c) \<le> 4" "cut_leaves c \<noteq> [root]" by auto
    obtain tt where tt: "compute_cut_tt aig root c = Some (Table tt)" "tt_right (ag_nodes aig) (cut_leaves c) root tt"
      using compute_cut_tt_right [OF aig c] two(3) by blast
    let ?t = "snd (npn_canonical tt)" and ?c = "fst (npn_canonical tt)"
    show ?thesis
    proof (cases "\<exists>pat. lib ?c = Some pat \<and> \<not> cone_size c \<le> word_of_nat (pattern_size pat)")
      case False
      then have "try_cut lib aig root ne c (b, new) = Some (b, new)"
        using two tt(1) by (auto simp: try_cut_def case_prod_beta Let_def split: option.split)
      then show ?thesis using stay by simp
    next
      case True
      then obtain pat where pat: "lib ?c = Some pat" "\<not> cone_size c \<le> word_of_nat (pattern_size pat)" by blast
      have pok: "pattern_ok pat" "pattern_tt pat = Some (npn_apply ?t tt)" "pattern_size pat \<le> 3"
        using lib pat(1) npn_canonical_facts(1) [of tt] by (auto simp: lib_sound_def MAX_ANDS_def)
      have "list_all (carried aig new ne) (cut_leaves c)"
        using c two(3) car by (auto simp: cut_ok_def list_all_iff)
      then obtain les where les: "leaf_edges ne (cut_leaves c) = Some les" "length les = 4" "list_all (valid_edge new) les"
        "\<forall>env. \<forall>k < length (cut_leaves c). edge_val env new (les ! k) = aig_values env (ag_nodes aig) ! (cut_leaves c ! k)"
        using leaf_edges_spec [of aig new ne "cut_leaves c"] two c by (cases "cut_leaves c") (auto simp: cut_ok_def)
      note pt = npn_canonical_facts(2) [of tt, unfolded transform_ok_def, THEN conjunct1]
      have neg: "(drop_bit i n AND 1 \<noteq> 0) = bit n i" for i and n :: nat
        by (simp add: bit_iff_odd_drop_bit and_one_eq odd_iff_mod_2_eq_one)
      have ves: "var_edges ?t les = map (\<lambda>i. negate_if (les ! (t_perm ?t ! i)) (bit (t_in_neg ?t) i)) [0, 1, 2, 3]"
        unfolding var_edges_def neg ..
      have in4: "t_perm ?t ! i < 4" if "i \<in> {0, 1, 2, 3}" for i
        by (rule perm_facts(3) [OF pt]) (use that in auto)
      have vle: "valid_edge new (les ! j)" if "j < 4" for j using that les(2,3) by (simp add: list_all_length)
      have val: "list_all (valid_edge new) (var_edges ?t les)"
        using in4 vle by (simp add: ves)
      have ws: "map (edge_val env new) (var_edges ?t les) =
          map (\<lambda>i. map (edge_val env new) les ! (t_perm ?t ! i) \<noteq> bit (t_in_neg ?t) i) [0, 1, 2, 3]" for env
        unfolding ves map_map by (rule map_cong [OF refl]) (use in4 les(2) in auto)
      obtain e new' where e: "instantiate_pattern new pat (var_edges ?t les) = Some (e, new')" "grows (pattern_size pat) new new'"
        "valid_edge new' e" "\<forall>env. edge_val env new' e = pattern_bool pat (map (edge_val env new) (var_edges ?t les))"
        using instantiate_pattern_spec [OF pok(1) _ new(1) val] new(2) pok(3) by (auto simp: ves)
      have g: "grows 3 new new'" using grows_mono [OF e(2) pok(3)] .
      have root: "edge_val env new' (negate_if e (t_out_neg ?t)) = aig_values env (ag_nodes aig) ! root" for env
      proof -
        let ?vs = "map (edge_val env new) les"
        have len: "length ?vs = 4" using les(2) by simp
        have "edge_val env new' (negate_if e (t_out_neg ?t)) = bit tt (uval ?vs)"
          using e(4) adapted_pattern [OF npn_canonical_facts(2) pok(1,2) len] by (simp only: edge_val_negate ws)
        also have "\<dots> = aig_values env (ag_nodes aig) ! root"
          using tt(2) uval_four [OF len] les(2,4) two(2) by (simp add: tt_right_def bit_uval)
        finally show ?thesis .
      qed
      define b' where "b' = (case b of Some (bs, _) \<Rightarrow> if bs \<le> word_of_nat (pattern_size pat) then b
          else Some (word_of_nat (pattern_size pat), negate_if e (t_out_neg ?t))
        | None \<Rightarrow> Some (word_of_nat (pattern_size pat), negate_if e (t_out_neg ?t)))"
      have "try_cut lib aig root ne c (b, new) = Some (b', new')"
        using two tt(1) pat les(1) e(1) by (cases b) (simp_all add: try_cut_def case_prod_beta Let_def b'_def)
      moreover have "best_ok aig root (b', new')"
        using best_ok_grows [OF best g] root e(3)
        by (auto simp: b'_def best_ok_def split: option.splits if_splits)
      ultimately show ?thesis using g by blast
    qed
  qed
qed

lemma try_cuts_spec:
  assumes aig: "aig_wf aig" "root < length (ag_nodes aig)" and lib: "lib_sound lib"
    and cs: "\<And>c. c \<in> set cs \<Longrightarrow> cut_ok (ag_nodes aig) root c" and car: "\<And>i. i < root \<Longrightarrow> carried aig new ne i"
    and new: "aig_wf new" "length (ag_nodes new) + 3 * length cs \<le> 2 ^ 31" and best: "best_ok aig root (b, new)"
  shows "\<exists>b' new'. fold_opt (try_cut lib aig root ne) cs (b, new) = Some (b', new') \<and> grows (3 * length cs) new new'
    \<and> best_ok aig root (b', new')"
  using cs car new best
proof (induction cs arbitrary: b new)
  case Nil
  then show ?case by (simp add: grows_refl)
next
  case (Cons c cs)
  obtain b1 n1 where 1: "try_cut lib aig root ne c (b, new) = Some (b1, n1)" "grows 3 new n1" "best_ok aig root (b1, n1)"
    using try_cut_spec [OF aig lib, of c new ne b] Cons.prems by auto
  have car1: "carried aig n1 ne i" if "i < root" for i using Cons.prems(2) [OF that] carried_grows 1(2) by blast
  have "length (ag_nodes n1) + 3 * length cs \<le> 2 ^ 31" using growsD(2) [OF 1(2)] Cons.prems(4) by simp
  then obtain b2 n2 where 2: "fold_opt (try_cut lib aig root ne) cs (b1, n1) = Some (b2, n2)" "grows (3 * length cs) n1 n2"
    "best_ok aig root (b2, n2)"
    using Cons.IH [OF _ car1 growsD(1) [OF 1(2)] _ 1(3)] Cons.prems(1) by auto
  show ?case using 1 2 grows_trans [OF 1(2) 2(2)] by simp
qed

lemma length_node_cuts: "length (node_cuts cuts i n) \<le> 8"
  by (cases n) (simp_all add: node_cuts_def CUTS_PER_NODE_def Let_def)

lemma length_enumerate_cuts:
  assumes "aig_wf m" "i < length (ag_nodes m)"
  shows "length (enumerate_cuts m ! i) \<le> 8"
proof -
  have short: "\<forall>cs \<in> set (fold (\<lambda>(i, node) cuts. cuts[i := node_cuts cuts i node]) xs cuts). length cs \<le> 8"
    if "\<forall>cs \<in> set cuts. length cs \<le> 8" for xs cuts
    using that
  proof (induction xs arbitrary: cuts)
    case (Cons x xs)
    have "\<forall>cs \<in> set (cuts[fst x := node_cuts cuts (fst x) (snd x)]). length cs \<le> 8"
      using Cons.prems set_update_subset_insert [of cuts "fst x"] length_node_cuts by fastforce
    from Cons.IH [OF this] show ?case by (simp add: case_prod_beta)
  qed simp
  have "\<forall>cs \<in> set (enumerate_cuts m). length cs \<le> 8"
    unfolding enumerate_cuts_def by (rule short) simp
  then show ?thesis using nth_mem [of i "enumerate_cuts m"] enumerate_cuts_ok(1) [OF assms(1)] assms(2) by simp
qed

subsection \<open>Rebuilding a graph\<close>

text \<open>
  The invariant of the two rebuilding loops, before node \<open>k\<close>: the nodes below \<open>k\<close> that had to
  be copied have their new edges, and a net's edge in the new graph has the net's value.
\<close>

definition rebuilding :: "nat \<Rightarrow> aig_module \<Rightarrow> nat set \<Rightarrow> nat \<Rightarrow> aig_module \<times> aig_edge option list \<Rightarrow> bool" where
  "rebuilding per aig live k st \<longleftrightarrow> (case st of (new, ne) \<Rightarrow>
     aig_wf new \<and> ag_sinks new = [] \<and> length (ag_nodes new) \<le> 1 + per * k \<and> length ne = length (ag_nodes aig)
     \<and> (\<forall>i < k. i \<in> live \<longrightarrow> carried aig new ne i)
     \<and> (\<forall>n e env. ag_net_edge new n = Some e \<longrightarrow> edge_val env new e = env n))"

lemma rebuilding_start: "rebuilding per aig live 0 (aig_new, replicate (length (ag_nodes aig)) None)"
  by (simp add: rebuilding_def) (simp add: aig_new_def)

lemma rebuilding_step:
  assumes st: "rebuilding per aig live k (new, ne)" and k: "k < length (ag_nodes aig)"
    and g: "grows per new new'" and e: "valid_edge new' e" "\<And>env. edge_val env new' e = aig_values env (ag_nodes aig) ! k"
  shows "rebuilding per aig live (Suc k) (new', ne[k := Some e])"
proof -
  have old: "emitted (ne[k := Some e]) i = emitted ne i" if "i \<noteq> k" for i
    using that by (simp add: emitted_def)
  have "carried aig new' (ne[k := Some e]) i" if "i < Suc k" "i \<in> live" for i
  proof (cases "i = k")
    case True
    then show ?thesis using e st k by (simp add: carried_def emitted_def rebuilding_def)
  next
    case False
    then have "carried aig new ne i" using that st by (simp add: rebuilding_def)
    then show ?thesis using carried_grows [OF _ g] old [OF False] by (simp add: carried_def)
  qed
  moreover have "edge_val env new' x = env n" if x: "ag_net_edge new' n = Some x" for n x env
  proof -
    consider "ag_net_edge new n = Some x" | "edge_val env new' x = env n" using grows_net_edge [OF g x] by blast
    then show ?thesis
    proof cases
      case 1
      then have "valid_edge new x" "edge_val env new x = env n" using st aig_wfD(6) by (auto simp: rebuilding_def)
      then show ?thesis using grows_val [OF g] by simp
    qed
  qed
  moreover have "length (ag_nodes new') \<le> 1 + per * Suc k" "ag_sinks new' = []"
    using st growsD(2) [OF g] g by (simp_all add: rebuilding_def grows_def)
  ultimately show ?thesis using st growsD(1) [OF g] by (simp add: rebuilding_def)
qed

lemma copy_and_spec:
  assumes car: "carried aig new ne (node_idx a)" "carried aig new ne (node_idx b)"
    and wf: "aig_wf new" "length (ag_nodes new) < 2 ^ 31"
  shows "\<exists>e new'. copy_and ne a b new = Some (e, new') \<and> grows 1 new new' \<and> valid_edge new' e \<and>
    (\<forall>env. edge_val env new' e = (edge_in (aig_values env (ag_nodes aig)) a \<and> edge_in (aig_values env (ag_nodes aig)) b))"
proof -
  obtain ea where ea: "emitted ne (node_idx a) = Some ea" "valid_edge new ea"
    "\<forall>env. edge_val env new ea = aig_values env (ag_nodes aig) ! node_idx a"
    using car(1) unfolding carried_def by blast
  obtain eb where eb: "emitted ne (node_idx b) = Some eb" "valid_edge new eb"
    "\<forall>env. edge_val env new eb = aig_values env (ag_nodes aig) ! node_idx b"
    using car(2) unfolding carried_def by blast
  obtain e new' where r: "run_state (mk_and (negate_if ea (is_negated a)) (negate_if eb (is_negated b))) new = (e, new')"
    by fastforce
  have v: "valid_edge new (negate_if ea (is_negated a))" "valid_edge new (negate_if eb (is_negated b))"
    using ea(2) eb(2) by simp_all
  show ?thesis
    using mk_and_spec [OF wf v r] ea eb r by (simp add: copy_and_def edge_in_def)
qed

lemma add_input_rebuild:
  assumes st: "rebuilding per aig live k (new, ne)" and room: "length (ag_nodes new) < 2 ^ 31"
    and r: "run_state (add_input n) new = (e, new')"
  shows "grows 1 new new'" "valid_edge new' e" "edge_val env new' e = env n"
proof -
  have wf: "aig_wf new" using st by (simp add: rebuilding_def)
  show g: "grows 1 new new'" and "valid_edge new' e" using add_input_spec(1,2) [OF wf room r] .
  have "ag_net_edge new' n = Some e" using add_input_spec(3) [OF wf room r] .
  then show "edge_val env new' e = env n"
    using grows_net_edge [OF g, of n e env] add_input_spec(4) [OF wf room r, of env] st
      grows_val [OF g] aig_wfD(6) [OF wf] by (auto simp: rebuilding_def)
qed

lemma rewrite_node_spec:
  assumes aig: "aig_wf aig" "k < length (ag_nodes aig)" "25 * length (ag_nodes aig) + 1 \<le> 2 ^ 31" and lib: "lib_sound lib"
    and st: "rebuilding 25 aig UNIV k (new, ne)"
  shows "\<exists>st'. rewrite_node lib aig (enumerate_cuts aig) (k, ag_nodes aig ! k) (new, ne) = Some st'
    \<and> rebuilding 25 aig UNIV (Suc k) st'"
proof -
  have wf: "aig_wf new" and car: "\<And>i. i < k \<Longrightarrow> carried aig new ne i" and len: "length (ag_nodes new) \<le> 1 + 25 * k"
    using st by (simp_all add: rebuilding_def)
  have room: "length (ag_nodes new) + 25 \<le> 2 ^ 31" using len aig(2,3) by linarith
  note val = node_val [OF aig(1,2)]
  have "\<exists>e new'. rewrite_node lib aig (enumerate_cuts aig) (k, ag_nodes aig ! k) (new, ne) = Some (new', ne[k := Some e])
    \<and> grows 25 new new' \<and> valid_edge new' e \<and> (\<forall>env. edge_val env new' e = aig_values env (ag_nodes aig) ! k)"
  proof (cases "ag_nodes aig ! k")
    case AConst
    then show ?thesis
      using grows_mono [OF grows_refl [OF wf], of 25] wf val by (auto simp: rewrite_node_def)
  next
    case (AInput n)
    obtain e new' where r: "run_state (add_input n) new = (e, new')" by fastforce
    have lt: "length (ag_nodes new) < 2 ^ 31" using room by simp
    note i = add_input_rebuild [OF st lt r]
    then show ?thesis
      using AInput r val grows_mono [OF i(1), of 25] by (auto simp: rewrite_node_def)
  next
    case (AAnd a b)
    have ab: "node_idx a < k" "node_idx b < k" using aig_wfD(4) [OF aig(1,2)] AAnd by (auto simp: and_ok_def)
    let ?cs = "enumerate_cuts aig ! k"
    have n8: "length ?cs \<le> 8" using length_enumerate_cuts [OF aig(1,2)] .
    have "length (ag_nodes new) + 3 * length ?cs \<le> 2 ^ 31" using room n8 by linarith
    moreover have "best_ok aig k (None, new)" by (simp add: best_ok_def)
    ultimately obtain b' n1 where t: "fold_opt (try_cut lib aig k ne) ?cs (None, new) = Some (b', n1)"
      "grows (3 * length ?cs) new n1" "best_ok aig k (b', n1)"
      using try_cuts_spec [OF aig(1,2) lib enumerate_cuts_ok(2) [OF aig(1,2)] car wf] by blast
    have g24: "grows 24 new n1" using grows_mono [OF t(2)] n8 by simp
    show ?thesis
    proof (cases b')
      case (Some p)
      obtain w e where p: "p = (w, e)" by fastforce
      have "valid_edge n1 e" "\<forall>env. edge_val env n1 e = aig_values env (ag_nodes aig) ! k"
        using t(3) by (simp_all add: best_ok_def Some p)
      moreover have "rewrite_node lib aig (enumerate_cuts aig) (k, ag_nodes aig ! k) (new, ne) = Some (n1, ne[k := Some e])"
        using AAnd t(1) by (simp add: rewrite_node_def try_library_rewrite_def Some p)
      ultimately show ?thesis using grows_mono [OF g24, of 25] by auto
    next
      case None
      have car1: "carried aig n1 ne (node_idx a)" "carried aig n1 ne (node_idx b)"
        using car ab carried_grows [OF _ g24] by blast+
      have "length (ag_nodes n1) < 2 ^ 31" using growsD(2) [OF g24] room by simp
      then obtain e n2 where c: "copy_and ne a b n1 = Some (e, n2)" "grows 1 n1 n2" "valid_edge n2 e"
        "\<forall>env. edge_val env n2 e = (edge_in (aig_values env (ag_nodes aig)) a \<and> edge_in (aig_values env (ag_nodes aig)) b)"
        using copy_and_spec [OF car1 growsD(1) [OF g24]] by blast
      have "grows 25 new n2" using grows_trans [OF g24 c(2)] by simp
      moreover have "rewrite_node lib aig (enumerate_cuts aig) (k, ag_nodes aig ! k) (new, ne) = Some (n2, ne[k := Some e])"
        using AAnd t(1) c(1) by (simp add: rewrite_node_def try_library_rewrite_def None)
      ultimately show ?thesis using c(3,4) val AAnd by auto
    qed
  qed
  then show ?thesis using rebuilding_step [OF st aig(2)] by blast
qed

subsection \<open>Sinks\<close>

lemma sinks_irrelevant [simp]:
  "aig_wf (m\<lparr>ag_sinks := ss\<rparr>) = aig_wf m" "valid_edge (m\<lparr>ag_sinks := ss\<rparr>) e = valid_edge m e"
  "edge_val env (m\<lparr>ag_sinks := ss\<rparr>) e = edge_val env m e"
  by (simp_all add: aig_wf_def valid_edge_def edge_val_def)

text \<open>Two graphs with the same sink targets, in the same order, whose sinks have the same values.\<close>

definition same_sinks :: "aig_module \<Rightarrow> aig_module \<Rightarrow> bool" where
  "same_sinks m m' \<longleftrightarrow> map as_target (ag_sinks m') = map as_target (ag_sinks m)
     \<and> (\<forall>env. map (\<lambda>s. edge_val env m' (as_edge s)) (ag_sinks m') = map (\<lambda>s. edge_val env m (as_edge s)) (ag_sinks m))"

definition sinks_valid :: "aig_module \<Rightarrow> bool" where
  "sinks_valid m \<longleftrightarrow> list_all (\<lambda>s. valid_edge m (as_edge s)) (ag_sinks m)"

lemma wire_sinks_spec:
  assumes "\<And>s. s \<in> set ss \<Longrightarrow> carried aig new ne (node_idx (as_edge s))"
  shows "\<exists>ts. fold_opt (wire_sink ne) ss new = Some (new\<lparr>ag_sinks := ag_sinks new @ ts\<rparr>)
    \<and> map as_target ts = map as_target ss \<and> list_all (\<lambda>s. valid_edge new (as_edge s)) ts
    \<and> (\<forall>env. map (\<lambda>s. edge_val env new (as_edge s)) ts = map (\<lambda>s. edge_val env aig (as_edge s)) ss)"
  using assms
proof (induction ss arbitrary: new)
  case (Cons s ss)
  obtain e where e: "emitted ne (node_idx (as_edge s)) = Some e" "valid_edge new e"
    "\<forall>env. edge_val env new e = aig_values env (ag_nodes aig) ! node_idx (as_edge s)"
    using Cons.prems unfolding carried_def by auto
  let ?s = "\<lparr>as_target = as_target s, as_edge = negate_if e (is_negated (as_edge s))\<rparr>"
  let ?new = "new\<lparr>ag_sinks := ag_sinks new @ [?s]\<rparr>"
  have "carried aig ?new ne (node_idx (as_edge t))" if "t \<in> set ss" for t
    using Cons.prems [of t] that by (simp add: carried_def)
  from Cons.IH [OF this] obtain ts where ts: "fold_opt (wire_sink ne) ss ?new = Some (?new\<lparr>ag_sinks := ag_sinks ?new @ ts\<rparr>)"
    "map as_target ts = map as_target ss" "list_all (\<lambda>s. valid_edge new (as_edge s)) ts"
    "\<forall>env. map (\<lambda>s. edge_val env new (as_edge s)) ts = map (\<lambda>s. edge_val env aig (as_edge s)) ss" by auto
  have "edge_val env new (as_edge ?s) = edge_val env aig (as_edge s)" for env
    using e(3) by (simp add: edge_val_def [of env aig] edge_in_def)
  moreover have "wire_sink ne s new = Some ?new" using e(1) by (simp add: wire_sink_def add_sink_def)
  ultimately show ?case using ts e(2) by (intro exI [of _ "?s # ts"]) simp
qed simp

lemma wire_all:
  assumes st: "rebuilding per aig live (length (ag_nodes aig)) (new, ne)" and sv: "sinks_valid aig"
    and live: "\<And>s. s \<in> set (ag_sinks aig) \<Longrightarrow> node_idx (as_edge s) \<in> live"
  shows "\<exists>out. fold_opt (wire_sink ne) (ag_sinks aig) new = Some out \<and> aig_wf out \<and> sinks_valid out \<and> same_sinks aig out
    \<and> length (ag_nodes out) \<le> 1 + per * length (ag_nodes aig)"
proof -
  have "carried aig new ne (node_idx (as_edge s))" if "s \<in> set (ag_sinks aig)" for s
    using st sv live [OF that] that by (simp add: rebuilding_def sinks_valid_def list_all_iff valid_edge_def)
  from wire_sinks_spec [OF this] obtain ts where
    "fold_opt (wire_sink ne) (ag_sinks aig) new = Some (new\<lparr>ag_sinks := ag_sinks new @ ts\<rparr>)"
    "map as_target ts = map as_target (ag_sinks aig)" "list_all (\<lambda>s. valid_edge new (as_edge s)) ts"
    "\<forall>env. map (\<lambda>s. edge_val env new (as_edge s)) ts = map (\<lambda>s. edge_val env aig (as_edge s)) (ag_sinks aig)" by blast
  then show ?thesis using st by (simp add: rebuilding_def sinks_valid_def same_sinks_def)
qed

subsection \<open>Compaction\<close>

definition closed_up :: "aig_node list \<Rightarrow> nat set \<Rightarrow> nat set \<Rightarrow> bool" where
  "closed_up nodes live rest \<longleftrightarrow> (\<forall>i \<in> live. \<forall>a b. nodes ! i = AAnd a b \<longrightarrow> node_idx a \<in> live \<union> rest \<and> node_idx b \<in> live \<union> rest)"

lemma mark_live_spec:
  assumes wf: "aig_wf m" and "set stack \<subseteq> {..<length (ag_nodes m)}" and "closed_up (ag_nodes m) live (set stack)"
  shows "\<exists>l. mark_live (ag_nodes m) stack live = Some l \<and> live \<union> set stack \<subseteq> l \<and> closed_up (ag_nodes m) l {}"
  using assms(2,3)
proof (induction "ag_nodes m" stack live rule: mark_live.induct)
  case (2 idx stack live)
  show ?case
  proof (cases "idx \<in> live")
    case True
    then have "closed_up (ag_nodes m) live (set stack)" using "2.prems"(2) True
      unfolding closed_up_def list.set Un_iff insert_iff by metis
    then show ?thesis using "2.hyps"(1) "2.prems"(1) True by auto
  next
    case False
    have lt: "idx < length (ag_nodes m)" using "2.prems" by simp
    show ?thesis
    proof (cases "ag_nodes m ! idx")
      case (AAnd a b)
      then have "node_idx a < length (ag_nodes m)" "node_idx b < length (ag_nodes m)"
        using aig_wfD(4) [OF wf lt] lt by (auto simp: and_ok_def)
      then have "\<exists>l. mark_live (ag_nodes m) (node_idx b # node_idx a # stack) (insert idx live) = Some l
          \<and> insert idx live \<union> set (node_idx b # node_idx a # stack) \<subseteq> l \<and> closed_up (ag_nodes m) l {}"
        using "2.hyps" False lt AAnd "2.prems" by (auto simp: closed_up_def)
      moreover have "mark_live (ag_nodes m) (idx # stack) live =
          mark_live (ag_nodes m) (node_idx b # node_idx a # stack) (insert idx live)"
        using False lt AAnd by simp
      ultimately show ?thesis by (auto simp del: mark_live.simps)
    qed (use "2.hyps" False lt "2.prems" in \<open>auto simp: closed_up_def\<close>)
  qed
qed (simp add: closed_up_def)

lemma copy_live_spec:
  assumes aig: "aig_wf aig" "k < length (ag_nodes aig)" "length (ag_nodes aig) + 1 \<le> 2 ^ 31"
    and cl: "closed_up (ag_nodes aig) live {}" and st: "rebuilding 1 aig live k (new, ne)"
  shows "\<exists>st'. copy_live live (k, ag_nodes aig ! k) (new, ne) = Some st' \<and> rebuilding 1 aig live (Suc k) st'"
proof (cases "k \<in> live")
  case False
  then have "rebuilding 1 aig live (Suc k) (new, ne)" using st by (auto simp: rebuilding_def less_Suc_eq)
  then show ?thesis using False by (simp add: copy_live_def)
next
  case live: True
  have wf: "aig_wf new" and len: "length (ag_nodes new) \<le> 1 + 1 * k"
    using st by (simp_all add: rebuilding_def)
  have room: "length (ag_nodes new) < 2 ^ 31" using len aig(2,3) by linarith
  note val = node_val [OF aig(1,2)]
  have "\<exists>e new'. copy_live live (k, ag_nodes aig ! k) (new, ne) = Some (new', ne[k := Some e])
    \<and> grows 1 new new' \<and> valid_edge new' e \<and> (\<forall>env. edge_val env new' e = aig_values env (ag_nodes aig) ! k)"
  proof (cases "ag_nodes aig ! k")
    case AConst
    then show ?thesis using grows_mono [OF grows_refl [OF wf], of 1] wf val live by (auto simp: copy_live_def)
  next
    case (AInput n)
    obtain e new' where r: "run_state (add_input n) new = (e, new')" by fastforce
    show ?thesis using AInput r val live add_input_rebuild [OF st room r] by (auto simp: copy_live_def)
  next
    case (AAnd a b)
    have "node_idx a < k" "node_idx b < k" using aig_wfD(4) [OF aig(1,2)] AAnd by (auto simp: and_ok_def)
    moreover have "node_idx a \<in> live" "node_idx b \<in> live" using cl live AAnd by (auto simp: closed_up_def)
    ultimately have "carried aig new ne (node_idx a)" "carried aig new ne (node_idx b)"
      using st by (simp_all add: rebuilding_def)
    from copy_and_spec [OF this wf room] show ?thesis using AAnd val live by (auto simp: copy_live_def)
  qed
  then show ?thesis using rebuilding_step [OF st aig(2)] by blast
qed

lemma compact_spec:
  assumes aig: "aig_wf aig" "sinks_valid aig" "length (ag_nodes aig) + 1 \<le> 2 ^ 31"
  shows "\<exists>out. compact_aig aig = Some out \<and> aig_wf out \<and> sinks_valid out \<and> same_sinks aig out
    \<and> length (ag_nodes out) \<le> 1 + length (ag_nodes aig)"
proof -
  let ?stack = "rev (map (\<lambda>s. node_idx (as_edge s)) (ag_sinks aig))"
  have "set ?stack \<subseteq> {..<length (ag_nodes aig)}" using aig(2) by (auto simp: sinks_valid_def list_all_iff valid_edge_def)
  then obtain live where live: "mark_live (ag_nodes aig) ?stack {} = Some live" "set ?stack \<subseteq> live" "closed_up (ag_nodes aig) live {}"
    using mark_live_spec [OF aig(1), of ?stack "{}"] by (auto simp: closed_up_def)
  have "\<exists>st. fold_opt (copy_live live) (enumerate 0 (ag_nodes aig)) (aig_new, replicate (length (ag_nodes aig)) None) = Some st
    \<and> rebuilding 1 aig live (length (ag_nodes aig)) st"
  proof (rule fold_opt_enumerate)
    show "\<exists>st'. copy_live live (k, ag_nodes aig ! k) st = Some st' \<and> rebuilding 1 aig live (Suc k) st'"
      if "k < length (ag_nodes aig)" "rebuilding 1 aig live k st" for k st
      using copy_live_spec [OF aig(1) that(1) aig(3) live(3)] that(2) by (cases st) simp
  qed (rule rebuilding_start)
  then obtain new ne where n: "fold_opt (copy_live live) (enumerate 0 (ag_nodes aig)) (aig_new, replicate (length (ag_nodes aig)) None) = Some (new, ne)"
    "rebuilding 1 aig live (length (ag_nodes aig)) (new, ne)" by fastforce
  have "node_idx (as_edge s) \<in> live" if "s \<in> set (ag_sinks aig)" for s using live(2) that by auto
  from wire_all [OF n(2) aig(2) this] show ?thesis using live(1) n(1) by (simp add: compact_aig_def)
qed

lemma same_sinks_trans: "same_sinks a b \<Longrightarrow> same_sinks b c \<Longrightarrow> same_sinks a c"
  by (simp add: same_sinks_def)

lemma rewrite_holds:
  assumes aig: "aig_wf aig" "sinks_valid aig" "25 * length (ag_nodes aig) + 2 \<le> 2 ^ 31" and lib: "lib_sound lib"
  shows "\<exists>out. rewrite lib aig = Some out \<and> aig_wf out \<and> sinks_valid out \<and> same_sinks aig out"
proof -
  have "\<exists>st. fold_opt (rewrite_node lib aig (enumerate_cuts aig)) (enumerate 0 (ag_nodes aig))
      (aig_new, replicate (length (ag_nodes aig)) None) = Some st \<and> rebuilding 25 aig UNIV (length (ag_nodes aig)) st"
  proof (rule fold_opt_enumerate)
    show "\<exists>st'. rewrite_node lib aig (enumerate_cuts aig) (k, ag_nodes aig ! k) st = Some st' \<and> rebuilding 25 aig UNIV (Suc k) st'"
      if "k < length (ag_nodes aig)" "rebuilding 25 aig UNIV k st" for k st
      using rewrite_node_spec [OF aig(1) that(1) _ lib] that(2) aig(3) by (cases st) simp
  qed (rule rebuilding_start)
  then obtain new ne where n: "fold_opt (rewrite_node lib aig (enumerate_cuts aig)) (enumerate 0 (ag_nodes aig))
      (aig_new, replicate (length (ag_nodes aig)) None) = Some (new, ne)"
    "rebuilding 25 aig UNIV (length (ag_nodes aig)) (new, ne)" by fastforce
  obtain mid where mid: "fold_opt (wire_sink ne) (ag_sinks aig) new = Some mid" "aig_wf mid" "sinks_valid mid"
    "same_sinks aig mid" "length (ag_nodes mid) \<le> 1 + 25 * length (ag_nodes aig)"
    using wire_all [OF n(2) aig(2)] by auto
  have "length (ag_nodes mid) + 1 \<le> 2 ^ 31" using mid(5) aig(3) by linarith
  from compact_spec [OF mid(2,3) this] show ?thesis
    using mid(1,4) n(1) same_sinks_trans by (auto simp: rewrite_def)
qed

text \<open>
  C27: the rewrite pass preserves every function. Run with the library that
  \<open>build_library\<close> builds, on a well-formed graph whose sinks name nodes of it and that has
  room for the pass, \<open>rewrite\<close> returns (no \<open>expect\<close> fails), the result is a well-formed
  graph with the same sink targets in the same order, and every sink has the value it had,
  under every assignment of the primary inputs.
\<close>

theorem rewrite_correct:
  assumes "\<And>m. set (iter m) = {(tt, p). m tt = Some p}" and "build_library iter = Some lib"
    and "aig_wf aig" "sinks_valid aig" "25 * length (ag_nodes aig) + 2 \<le> 2 ^ 31"
  shows "\<exists>out. rewrite lib aig = Some out \<and> aig_wf out \<and> sinks_valid out
    \<and> map as_target (ag_sinks out) = map as_target (ag_sinks aig)
    \<and> (\<forall>env. map (\<lambda>s. edge_val env out (as_edge s)) (ag_sinks out) = map (\<lambda>s. edge_val env aig (as_edge s)) (ag_sinks aig))"
proof -
  have "lib_sound lib" using build_library_holds [of iter, OF assms(1)] assms(2) by auto
  then show ?thesis using rewrite_holds [OF assms(3-5)] unfolding same_sinks_def by blast
qed

theorem rewrite_correct_witness:
  "\<exists>lib out. build_library walk_all = Some lib
    \<and> rewrite lib (and_graph\<lparr>ag_sinks := [\<lparr>as_target = 3, as_edge = AigEdge 7\<rparr>]\<rparr>) = Some out
    \<and> map as_target (ag_sinks out) = [3]
    \<and> map (\<lambda>s. edge_val (\<lambda>n. n = 7) out (as_edge s)) (ag_sinks out) = [True]"
proof -
  let ?g = "and_graph\<lparr>ag_sinks := [\<lparr>as_target = 3, as_edge = AigEdge 7\<rparr>]\<rparr>"
  obtain lib where lib: "build_library walk_all = Some lib"
    using build_library_holds [of walk_all, OF set_walk_all] by blast
  have n: "node_idx (AigEdge 7) = 3" "is_negated (AigEdge 7)"
    by (simp_all add: node_idx_def edge_node_def is_negated_def drop_bit_eq_div)
  have 1: "aig_wf ?g" "sinks_valid ?g" "25 * length (ag_nodes ?g) + 2 \<le> 2 ^ 31"
    using and_graph_wf by (simp_all add: and_graph_nodes sinks_valid_def valid_edge_def n)
  have "edge_val (\<lambda>n. n = 7) ?g (AigEdge 7)"
    by (simp add: edge_val_def edge_in_def n and_graph_nodes aig_values_def node_idx_def edge_node_def is_negated_def drop_bit_eq_div)
  then show ?thesis using rewrite_correct [OF set_walk_all lib 1] lib by auto
qed

end
