(* ===== verification/Netlist.thy ===== *)
theory Netlist
  imports Simplify
begin

section \<open>Whole modules: visiting RAM nets, well-formedness, compaction (\<open>ir.rs\<close>, \<open>conv/worklist.rs\<close>)\<close>

text \<open>
  What the passes over a \<open>GateModule\<close> share: the two RAM visitors described by a list of
  nets and a map over them, the assignments that respect a module, when a module is well
  formed, and the loop that drops the elements of a vector that are not kept and records
  where the others went.
\<close>

subsection \<open>The nets the RAM blocks consume\<close>

definition write_port_nets :: "ram_write_port \<Rightarrow> net_id list" where
  "write_port_nets wp = wp_addr wp @ wp_data wp @ [wp_enable wp] @ (case wp_mask wp of None \<Rightarrow> [] | Some m \<Rightarrow> m)"

definition ram_nets :: "ram_block \<Rightarrow> net_id list" where
  "ram_nets r = [rb_clock r] @ concat (map write_port_nets (rb_write_ports r)) @ concat (map rp_addr (rb_read_ports r))"

definition ram_inputs :: "gate_module \<Rightarrow> net_id list" where
  "ram_inputs m = concat (map ram_nets (gm_ram_blocks m))"

definition map_write_port :: "(net_id \<Rightarrow> net_id) \<Rightarrow> ram_write_port \<Rightarrow> ram_write_port" where
  "map_write_port g wp = wp\<lparr>wp_addr := map g (wp_addr wp), wp_data := map g (wp_data wp),
     wp_enable := g (wp_enable wp), wp_mask := map_option (map g) (wp_mask wp)\<rparr>"

definition map_ram :: "(net_id \<Rightarrow> net_id) \<Rightarrow> ram_block \<Rightarrow> ram_block" where
  "map_ram g r = r\<lparr>rb_clock := g (rb_clock r), rb_write_ports := map (map_write_port g) (rb_write_ports r),
     rb_read_ports := map (\<lambda>rp. rp\<lparr>rp_addr := map g (rp_addr rp)\<rparr>) (rb_read_ports r)\<rparr>"

text \<open>The two closures the passes give the visitors: collect a net, and take the next of a list.\<close>

definition collect :: "(net_id \<Rightarrow> 'a) \<Rightarrow> net_id \<Rightarrow> ('a list, unit) state" where
  "collect f n = State (\<lambda>acc. ((), acc @ [f n]))"

definition take_next :: "net_id \<Rightarrow> (net_id list, net_id) state" where
  "take_next n = State (\<lambda>it. case it of [] \<Rightarrow> (n, []) | r # rs \<Rightarrow> (r, rs))"

lemma run_collect_traverse: "run_state (traverse_list (collect f) ns) acc = (map (\<lambda>_. ()) ns, acc @ map f ns)"
  by (induction ns arbitrary: acc) (simp_all add: collect_def)

lemma run_collect_for_nets: "run_state (for_nets (collect f) ns) acc = ((), acc @ map f ns)"
  by (simp add: for_nets_def run_collect_traverse)

lemma run_collect_wp: "run_state (visit_write_port (collect f) wp) acc = ((), acc @ map f (write_port_nets wp))"
  by (auto simp: visit_write_port_def write_port_nets_def run_collect_for_nets collect_def split: option.split)

lemma run_traverse_concat:
  assumes "\<And>x acc. run_state (g x) acc = ((), acc @ map f (h x))"
  shows "run_state (traverse_list g xs) acc = (map (\<lambda>_. ()) xs, acc @ map f (concat (map h xs)))"
  by (induction xs arbitrary: acc) (simp_all add: assms)

lemma run_collect_ram:
  "run_state (for_each_ram_input_net m (collect f)) acc = ((), acc @ map f (ram_inputs m))"
proof -
  let ?g = "\<lambda>ram. do {
        collect f (rb_clock ram);
        _ \<leftarrow> traverse_list (visit_write_port (collect f)) (rb_write_ports ram);
        _ \<leftarrow> traverse_list (\<lambda>rp. for_nets (collect f) (rp_addr rp)) (rb_read_ports ram);
        State_Monad.return () }"
  have "run_state (?g ram) acc = ((), acc @ map f (ram_nets ram))" for ram acc
    by (simp add: ram_nets_def collect_def [of f "rb_clock ram"] run_collect_for_nets run_collect_wp
        run_traverse_concat [of "visit_write_port (collect f)" f write_port_nets, OF run_collect_wp]
        run_traverse_concat [of "\<lambda>rp. for_nets (collect f) (rp_addr rp)" f rp_addr, OF run_collect_for_nets])
  from run_traverse_concat [of ?g f ram_nets, OF this] show ?thesis
    by (simp add: for_each_ram_input_net_def ram_inputs_def)
qed

lemma run_next_traverse: "run_state (traverse_list take_next ns) (map g ns @ rest) = (map g ns, rest)"
  by (induction ns) (simp_all add: take_next_def)

lemma run_next_traverse_concat:
  assumes "\<And>x rest. run_state (f x) (map g (h x) @ rest) = (k x, rest)"
  shows "run_state (traverse_list f xs) (map g (concat (map h xs)) @ rest) = (map k xs, rest)"
  by (induction xs arbitrary: rest) (simp_all add: assms)

lemma run_next_wp:
  "run_state (visit_write_port_mut take_next wp) (map g (write_port_nets wp) @ rest) = (map_write_port g wp, rest)"
  by (cases "wp_mask wp")
    (simp_all add: visit_write_port_mut_def write_port_nets_def map_write_port_def run_next_traverse
      take_next_def [of "wp_enable wp"] run_next_traverse [where rest = "[]", simplified])

lemma run_next_ram:
  "run_state (for_each_ram_input_net_mut m take_next) (map g (ram_inputs m) @ rest) =
    (m\<lparr>gm_ram_blocks := map (map_ram g) (gm_ram_blocks m)\<rparr>, rest)"
proof -
  have rp: "run_state (do { addr \<leftarrow> traverse_list take_next (rp_addr rp); State_Monad.return (rp\<lparr>rp_addr := addr\<rparr>) })
      (map g (rp_addr rp) @ rest) = (rp\<lparr>rp_addr := map g (rp_addr rp)\<rparr>, rest)" for rp rest
    by (simp add: run_next_traverse)
  have "run_state (visit_ram_mut take_next r) (map g (ram_nets r) @ rest) = (map_ram g r, rest)" for r rest
    by (simp add: visit_ram_mut_def ram_nets_def map_ram_def take_next_def [of "rb_clock r"]
        run_next_traverse_concat [OF run_next_wp, where rest = "map g _ @ _"]
        run_next_traverse_concat [where h = rp_addr, OF rp])
  from run_next_traverse_concat [of "visit_ram_mut take_next" g ram_nets, OF this] show ?thesis
    by (simp add: for_each_ram_input_net_mut_def ram_inputs_def)
qed

text \<open>A closure that only renames: \<open>f\<close> reads the net and writes \<open>g\<close> of it.\<close>

definition rename :: "(net_id \<Rightarrow> net_id) \<Rightarrow> net_id \<Rightarrow> ('s, net_id) state" where
  "rename g n = State_Monad.return (g n)"

lemma run_rename_traverse: "run_state (traverse_list (rename g) ns) u = (map g ns, u)"
  by (induction ns) (simp_all add: rename_def)

lemma run_traverse_pure:
  assumes "\<And>x. run_state (f x) u = (k x, u)"
  shows "run_state (traverse_list f xs) u = (map k xs, u)"
  by (induction xs) (simp_all add: assms)

lemma run_rename_ram:
  "run_state (for_each_ram_input_net_mut m (rename g)) u = (m\<lparr>gm_ram_blocks := map (map_ram g) (gm_ram_blocks m)\<rparr>, u)"
proof -
  have wp: "run_state (visit_write_port_mut (rename g) wp) u = (map_write_port g wp, u)" for wp
    by (cases "wp_mask wp")
      (simp_all add: visit_write_port_mut_def map_write_port_def run_rename_traverse rename_def [of g "wp_enable wp"])
  have rp: "run_state (do { addr \<leftarrow> traverse_list (rename g) (rp_addr rp); State_Monad.return (rp\<lparr>rp_addr := addr\<rparr>) }) u =
      (rp\<lparr>rp_addr := map g (rp_addr rp)\<rparr>, u)" for rp
    by (simp add: run_rename_traverse)
  have "run_state (visit_ram_mut (rename g) r) u = (map_ram g r, u)" for r
    by (simp add: visit_ram_mut_def map_ram_def rename_def [of g "rb_clock r"]
        run_traverse_pure [of "visit_write_port_mut (rename g)", OF wp] run_traverse_pure [OF rp])
  from run_traverse_pure [of "visit_ram_mut (rename g)", OF this] show ?thesis
    by (simp add: for_each_ram_input_net_mut_def)
qed

subsection \<open>Respecting a module\<close>

definition msat :: "(net_id \<Rightarrow> bool) \<Rightarrow> gate_module \<Rightarrow> bool" where
  "msat v m \<longleftrightarrow> (\<forall>c \<in> set (gm_cells m). holds v c) \<and>
     (\<forall>n < length (gm_nets m). \<forall>b. driver (gm_nets m ! n) = DConst b \<longrightarrow> v n = b)"

text \<open>The nets a module's cells do not drive but read: FF inputs, ports, RAM inputs.\<close>

definition ff_nets :: "ff_cell \<Rightarrow> net_id list" where
  "ff_nets f = [ff_d f, ff_clock f] @ (case ff_reset f of None \<Rightarrow> [] | Some r \<Rightarrow> [rs_net r])"

definition sinks :: "gate_module \<Rightarrow> net_id list" where
  "sinks m = concat (map ff_nets (gm_ffs m)) @ concat (map gp_nets (gm_ports m)) @ ram_inputs m"

definition module_cell_wf :: "nat \<Rightarrow> cell \<Rightarrow> bool" where
  "module_cell_wf k c \<longleftrightarrow> c_output c < k \<and> (\<forall>n \<in> set (c_inputs c). n < k) \<and> length (c_inputs c) = arity (c_kind c)"

definition wf_module :: "gate_module \<Rightarrow> bool" where
  "wf_module m \<longleftrightarrow>
     RESERVED_NETS \<le> length (gm_nets m)
     \<and> driver (gm_nets m ! NET_CONST0) = DConst False \<and> driver (gm_nets m ! NET_CONST1) = DConst True
     \<and> (\<forall>c \<in> set (gm_cells m). module_cell_wf (length (gm_nets m)) c)
     \<and> (\<forall>n < length (gm_nets m). \<forall>i. driver (gm_nets m ! n) = DCell i \<longrightarrow>
          i < length (gm_cells m) \<and> c_output (gm_cells m ! i) = n)
     \<and> (\<forall>n \<in> set (sinks m). n < length (gm_nets m))"

text \<open>A module has no combinational cycle when some rank falls from every cell's output to its inputs.\<close>

definition ranked :: "(net_id \<Rightarrow> nat) \<Rightarrow> gate_module \<Rightarrow> bool" where
  "ranked r m \<longleftrightarrow> (\<forall>n < length (gm_nets m). \<forall>i. driver (gm_nets m ! n) = DCell i \<longrightarrow>
     (\<forall>x \<in> set (c_inputs (gm_cells m ! i)). r x < r n))"

text \<open>Every cell is the driver its output net names, so no net is driven by two cells.\<close>

definition single_driver :: "gate_module \<Rightarrow> bool" where
  "single_driver m \<longleftrightarrow> (\<forall>i < length (gm_cells m). driver (gm_nets m ! c_output (gm_cells m ! i)) = DCell i)"

text \<open>A source is a net that no cell drives: a constant, an input, a register or undriven.\<close>

definition source :: "gate_module \<Rightarrow> net_id \<Rightarrow> bool" where
  "source m n \<longleftrightarrow> n < length (gm_nets m) \<and> (\<nexists>i. driver (gm_nets m ! n) = DCell i)"

lemma msat_holds: "msat v m \<Longrightarrow> i < length (gm_cells m) \<Longrightarrow> holds v (gm_cells m ! i)"
  by (simp add: msat_def)

lemma wf_module_driver:
  "wf_module m \<Longrightarrow> n < length (gm_nets m) \<Longrightarrow> driver (gm_nets m ! n) = DCell i \<Longrightarrow>
    i < length (gm_cells m) \<and> c_output (gm_cells m ! i) = n"
  by (simp add: wf_module_def)

lemma wf_module_inputs:
  assumes "wf_module m" "i < length (gm_cells m)" "n \<in> set (c_inputs (gm_cells m ! i))"
  shows "n < length (gm_nets m)"
  using assms nth_mem [OF assms(2)] by (auto simp: wf_module_def module_cell_wf_def)

lemma wf_module_arity:
  "wf_module m \<Longrightarrow> i < length (gm_cells m) \<Longrightarrow> length (c_inputs (gm_cells m ! i)) = arity (c_kind (gm_cells m ! i))"
  by (auto simp: wf_module_def module_cell_wf_def)

subsection \<open>Compaction\<close>

text \<open>
  The loop that rebuilds a vector without the dropped elements; \<open>index_map\<close> holds the new
  index of an element that is kept.
\<close>

fun compact :: "bool list \<Rightarrow> 'a list \<Rightarrow> 'a list \<Rightarrow> 'a list \<times> nat option list" where
  "compact (k # ks) (x # xs) new =
     (if k then (case compact ks xs (new @ [x]) of (new', im) \<Rightarrow> (new', Some (length new) # im))
      else (case compact ks xs new of (new', im) \<Rightarrow> (new', None # im)))"
| "compact _ _ new = (new, [])"

lemma compact_new:
  "length ks = length xs \<Longrightarrow> fst (compact ks xs new) = new @ map fst (filter snd (zip xs ks))"
  by (induction ks xs new rule: compact.induct) (simp_all add: case_prod_beta)

lemma length_index_map: "length ks = length xs \<Longrightarrow> length (snd (compact ks xs new)) = length xs"
  by (induction ks xs new rule: compact.induct) (simp_all add: case_prod_beta)

lemma nth_index_map:
  assumes "length ks = length xs" "i < length xs"
  shows "case snd (compact ks xs new) ! i of
      None \<Rightarrow> \<not> ks ! i
    | Some j \<Rightarrow> ks ! i \<and> length new \<le> j \<and> j < length (fst (compact ks xs new)) \<and> fst (compact ks xs new) ! j = xs ! i"
  using assms
proof (induction ks xs new arbitrary: i rule: compact.induct)
  case (1 k ks x xs new)
  show ?case
  proof (cases i)
    case 0
    then show ?thesis
      using "1.prems" compact_new [of ks xs "new @ [x]"] by (auto simp: case_prod_beta nth_append)
  next
    case (Suc i')
    then show ?thesis
      using "1.prems" "1.IH"(1) [of i'] "1.IH"(2) [of i']
      by (cases k) (auto simp: case_prod_beta split: option.splits)
  qed
qed auto

definition kept :: "bool list \<Rightarrow> 'a list \<Rightarrow> 'a list" where
  "kept ks xs = map fst (filter snd (zip xs ks))"

lemma in_kept:
  assumes "length ks = length xs"
  shows "y \<in> set (kept ks xs) \<longleftrightarrow> (\<exists>i < length xs. ks ! i \<and> y = xs ! i)"
  using assms by (auto simp: kept_def set_zip image_iff)

subsection \<open>Redirecting the drivers after a compaction\<close>

definition redirect_cell :: "nat option list \<Rightarrow> net_info \<Rightarrow> net_info option" where
  "redirect_cell im net = (case driver net of
      DCell idx \<Rightarrow> (if idx < length im
        then Some (net\<lparr>driver := (case im ! idx of Some new_idx \<Rightarrow> DCell new_idx | None \<Rightarrow> Undriven)\<rparr>) else None)
    | _ \<Rightarrow> Some net)"

lemma those_map_Some: "(\<And>x. x \<in> set xs \<Longrightarrow> f x = Some (g x)) \<Longrightarrow> those (map f xs) = Some (map g xs)"
  by (induction xs) auto

text \<open>A compaction of the cells never fails to redirect drivers that name cells.\<close>

lemma redirect_cells_ok:
  assumes ks: "length ks = length cells"
    and drv: "\<And>n i. n < length nets \<Longrightarrow> driver (nets ! n) = DCell i \<Longrightarrow> i < length cells"
    and c: "compact ks cells [] = (cs, im)"
  obtains nets' where "those (map (redirect_cell im) nets) = Some nets'" "length nets' = length nets"
    "\<And>n. n < length nets \<Longrightarrow> origin (nets' ! n) = origin (nets ! n)"
    "\<And>n. n < length nets \<Longrightarrow> \<nexists>i. driver (nets ! n) = DCell i \<Longrightarrow> driver (nets' ! n) = driver (nets ! n)"
    "\<And>n i. n < length nets \<Longrightarrow> driver (nets ! n) = DCell i \<Longrightarrow>
      (if ks ! i then \<exists>j < length cs. driver (nets' ! n) = DCell j \<and> cs ! j = cells ! i else driver (nets' ! n) = Undriven)"
proof -
  define g :: "net_info \<Rightarrow> net_info" where "g = (\<lambda>net. case driver net of
      DCell i \<Rightarrow> net\<lparr>driver := (case im ! i of Some j \<Rightarrow> DCell j | None \<Rightarrow> Undriven)\<rparr> | _ \<Rightarrow> net)"
  have im: "length im = length cells" using length_index_map [OF ks, of "[]"] c by simp
  have "redirect_cell im net = Some (g net)" if "net \<in> set nets" for net
    using that drv im by (auto simp: redirect_cell_def g_def in_set_conv_nth split: net_driver.split)
  then have "those (map (redirect_cell im) nets) = Some (map g nets)" by (rule those_map_Some)
  then show ?thesis
  proof (rule that)
    show "if ks ! i then \<exists>j < length cs. driver (map g nets ! n) = DCell j \<and> cs ! j = cells ! i
        else driver (map g nets ! n) = Undriven"
      if n: "n < length nets" and d: "driver (nets ! n) = DCell i" for n i
      using nth_index_map [OF ks drv [OF n d], of "[]"] c n d by (cases "im ! i") (simp_all add: g_def)
  qed (simp_all add: g_def split: net_driver.split)
qed

subsection \<open>Properties\<close>

text \<open>
  The two RAM visitors are aligned: collecting what a function says of each consumed
  net and reapplying the list through the mutable visitor renames every consumed net, and
  nothing else of the module, by that function, with no value left over; and the module so
  renamed consumes the renamed nets in the same order.
\<close>

theorem ram_visitors_aligned:
  fixes g :: "net_id \<Rightarrow> net_id"
  shows
  "run_state (for_each_ram_input_net_mut m take_next) (snd (run_state (for_each_ram_input_net m (collect g)) [])) =
     (m\<lparr>gm_ram_blocks := map (map_ram g) (gm_ram_blocks m)\<rparr>, [])
   \<and> ram_inputs (m\<lparr>gm_ram_blocks := map (map_ram g) (gm_ram_blocks m)\<rparr>) = map g (ram_inputs m)
   \<and> snd (run_state (for_each_ram_input_net m (collect g)) []) = map g (ram_inputs m)"
proof -
  have wp: "write_port_nets (map_write_port g wp) = map g (write_port_nets wp)" for wp
    by (simp add: write_port_nets_def map_write_port_def split: option.split)
  have "ram_nets (map_ram g r) = map g (ram_nets r)" for r
    by (simp add: ram_nets_def map_ram_def map_concat comp_def wp)
  then show ?thesis
    using run_next_ram [of m g "[]"] by (simp add: run_collect_ram ram_inputs_def map_concat comp_def)
qed

end
