(* ===== verification/Absorb.thy ===== *)
theory Absorb
  imports Netlist
begin

section \<open>Absorption against a gate of the dual kind (\<open>conv/prefix.rs\<close>)\<close>

text \<open>
  \<open>absorb_complement\<close>: rounds over all cells that replace \<open>a | (a & b)\<close> by a buffer of
  \<open>a\<close>, \<open>a | (!a & b)\<close> by \<open>a | b\<close>, and dually, until a round changes nothing.  A net or
  cell index out of range is a panic (\<open>None\<close>); the outer loop need not end on a module with
  a combinational cycle and is a partial function.
\<close>

definition driver_at :: "gate_module \<Rightarrow> net_id \<Rightarrow> net_driver option" where
  "driver_at m n = map_option driver (nth_opt (gm_nets m) n)"

definition cell_at :: "gate_module \<Rightarrow> nat \<Rightarrow> cell option" where
  "cell_at m i = nth_opt (gm_cells m) i"

definition not_drives :: "gate_module \<Rightarrow> net_id \<Rightarrow> net_id \<Rightarrow> bool option" where
  "not_drives m n target = do {
     d \<leftarrow> driver_at m n;
     (case d of
        DCell i \<Rightarrow> do {
          c \<leftarrow> cell_at m i;
          if c_kind c = Not1 then do { x \<leftarrow> nth_opt (c_inputs c) 0; Some (x = target) } else Some False
        }
      | _ \<Rightarrow> Some False)
   }"

definition complementary :: "gate_module \<Rightarrow> net_id \<Rightarrow> net_id \<Rightarrow> bool option" where
  "complementary m p a = do {
     b \<leftarrow> not_drives m p a;
     if b then Some True else not_drives m a p
   }"

text \<open>The first alternative that applies; the outer option is the panic.\<close>

fun first_some :: "('x \<Rightarrow> 'y option option) \<Rightarrow> 'x list \<Rightarrow> 'y option option" where
  "first_some f [] = Some None"
| "first_some f (x # xs) = do {
     r \<leftarrow> f x;
     (case r of Some y \<Rightarrow> Some (Some y) | None \<Rightarrow> first_some f xs)
   }"

definition absorb_pair :: "gate_module \<Rightarrow> cell \<Rightarrow> net_id \<Rightarrow> cell \<Rightarrow> nat \<times> nat \<Rightarrow> cell option option" where
  "absorb_pair m c a inner pq = do {
     p \<leftarrow> nth_opt (c_inputs inner) (fst pq);
     q \<leftarrow> nth_opt (c_inputs inner) (snd pq);
     if p = a then Some (Some (c\<lparr>c_kind := Buf, c_inputs := [a]\<rparr>))
     else do {
       b \<leftarrow> complementary m p a;
       Some (if b then Some (c\<lparr>c_inputs := [q, a]\<rparr>) else None)
     }
   }"

definition absorb_input :: "gate_module \<Rightarrow> cell \<Rightarrow> cell_kind \<Rightarrow> nat \<times> nat \<Rightarrow> cell option option" where
  "absorb_input m c inner_kind xa = do {
     x \<leftarrow> nth_opt (c_inputs c) (fst xa);
     a \<leftarrow> nth_opt (c_inputs c) (snd xa);
     d \<leftarrow> driver_at m x;
     (case d of
        DCell ix \<Rightarrow> do {
          inner \<leftarrow> cell_at m ix;
          if c_kind inner \<noteq> inner_kind then Some None
          else first_some (absorb_pair m c a inner) [(0, 1), (1, 0)]
        }
      | _ \<Rightarrow> Some None)
   }"

fun dual_kind :: "cell_kind \<Rightarrow> cell_kind option" where
  "dual_kind Or2 = Some And2"
| "dual_kind And2 = Some Or2"
| "dual_kind _ = None"

definition absorb_cell :: "nat \<Rightarrow> gate_module \<times> bool \<Rightarrow> (gate_module \<times> bool) option" where
  "absorb_cell ci st = do {
     c \<leftarrow> cell_at (fst st) ci;
     (case dual_kind (c_kind c) of
        None \<Rightarrow> Some st
      | Some inner_kind \<Rightarrow> do {
          r \<leftarrow> first_some (absorb_input (fst st) c inner_kind) [(0, 1), (1, 0)];
          Some (case r of
              None \<Rightarrow> st
            | Some c' \<Rightarrow> ((fst st)\<lparr>gm_cells := (gm_cells (fst st))[ci := c']\<rparr>, True))
        })
   }"

definition absorb_round :: "gate_module \<Rightarrow> (gate_module \<times> bool) option" where
  "absorb_round m = fold_opt absorb_cell [0..<length (gm_cells m)] (m, False)"

partial_function (option) absorb_loop :: "gate_module \<Rightarrow> bool \<Rightarrow> (gate_module \<times> bool) option" where
  "absorb_loop m changed_any = do {
     r \<leftarrow> absorb_round m;
     if snd r then absorb_loop (fst r) True else Some (fst r, changed_any)
   }"

declare absorb_loop.simps [code]

definition absorb_complement :: "gate_module \<Rightarrow> (gate_module \<times> bool) option" where
  "absorb_complement m = absorb_loop m False"

subsection \<open>One cell\<close>

lemma wf_cell:
  assumes "wf_module m" "i < length (gm_cells m)"
  shows "length (c_inputs (gm_cells m ! i)) = arity (c_kind (gm_cells m ! i))"
    "\<And>n. n \<in> set (c_inputs (gm_cells m ! i)) \<Longrightarrow> n < length (gm_nets m)"
  using wf_module_arity [OF assms] wf_module_inputs [OF assms] by auto

lemma driver_at_in [simp]: "n < length (gm_nets m) \<Longrightarrow> driver_at m n = Some (driver (gm_nets m ! n))"
  by (simp add: driver_at_def)

lemma cell_at_in [simp]: "i < length (gm_cells m) \<Longrightarrow> cell_at m i = Some (gm_cells m ! i)"
  by (simp add: cell_at_def)

lemma not_drives_spec:
  assumes "wf_module m" "n < length (gm_nets m)"
  shows "\<exists>b. not_drives m n t = Some b \<and> (b \<longrightarrow> (\<exists>i < length (gm_cells m). c_output (gm_cells m ! i) = n \<and>
    c_kind (gm_cells m ! i) = Not1 \<and> c_inputs (gm_cells m ! i) = [t]))"
proof (cases "driver (gm_nets m ! n)")
  case (DCell i)
  then have i: "i < length (gm_cells m)" "c_output (gm_cells m ! i) = n" using wf_module_driver [OF assms] by auto
  show ?thesis
  proof (cases "c_kind (gm_cells m ! i) = Not1")
    case True
    then obtain x where "c_inputs (gm_cells m ! i) = [x]"
      using wf_cell(1) [OF assms(1) i(1)] by (auto simp: length_Suc_conv)
    then show ?thesis using DCell i True assms(2) by (auto simp: not_drives_def)
  qed (use DCell i assms(2) in \<open>auto simp: not_drives_def intro!: exI [of _ False]\<close>)
qed (use assms(2) in \<open>auto simp: not_drives_def intro!: exI [of _ False]\<close>)

text \<open>Complementary nets carry opposite values; the cell that inverts is not an AND or an OR.\<close>

lemma complementary_spec:
  assumes "wf_module m" "p < length (gm_nets m)" "a < length (gm_nets m)"
  shows "\<exists>b. complementary m p a = Some b \<and> (b \<longrightarrow> (\<exists>i < length (gm_cells m). c_kind (gm_cells m ! i) = Not1 \<and>
    (\<forall>v. holds v (gm_cells m ! i) \<longrightarrow> v p = (\<not> v a))))"
proof -
  obtain b where b: "not_drives m p a = Some b" "b \<longrightarrow> (\<exists>i < length (gm_cells m). c_output (gm_cells m ! i) = p \<and>
    c_kind (gm_cells m ! i) = Not1 \<and> c_inputs (gm_cells m ! i) = [a])"
    using not_drives_spec [OF assms(1,2)] by blast
  obtain d where d: "not_drives m a p = Some d" "d \<longrightarrow> (\<exists>i < length (gm_cells m). c_output (gm_cells m ! i) = a \<and>
    c_kind (gm_cells m ! i) = Not1 \<and> c_inputs (gm_cells m ! i) = [p])"
    using not_drives_spec [OF assms(1,3)] by blast
  have inv: "\<exists>i < length (gm_cells m). c_kind (gm_cells m ! i) = Not1 \<and> (\<forall>v. holds v (gm_cells m ! i) \<longrightarrow> v p = (\<not> v a))"
    if drv: "i < length (gm_cells m)" "c_kind (gm_cells m ! i) = Not1"
      and pa: "c_output (gm_cells m ! i) = p \<and> c_inputs (gm_cells m ! i) = [a] \<or> c_output (gm_cells m ! i) = a \<and> c_inputs (gm_cells m ! i) = [p]" for i
  proof (intro exI [of _ i] conjI allI impI)
    show "v p = (\<not> v a)" if "holds v (gm_cells m ! i)" for v
      using that pa drv(2) by (auto simp: holds_def)
  qed (use drv in simp_all)
  show ?thesis
  proof (cases b)
    case True
    then show ?thesis using b inv by (auto simp: complementary_def)
  next
    case False
    then show ?thesis using b(1) d inv by (auto simp: complementary_def)
  qed
qed

text \<open>
  What a replacement \<open>c'\<close> of cell \<open>ci\<close> is: it keeps the output, is a buffer or keeps the kind,
  reads nets of the module, is equivalent to the old cell in the presence of the other cells,
  and reads lower nets.
\<close>

definition input_weight :: "(net_id \<Rightarrow> nat) \<Rightarrow> cell \<Rightarrow> nat" where
  "input_weight r c = sum_list (map (\<lambda>n. Suc (r n)) (c_inputs c))"

definition replaces :: "gate_module \<Rightarrow> nat \<Rightarrow> cell \<Rightarrow> bool" where
  "replaces m ci c' \<longleftrightarrow>
     c_output c' = c_output (gm_cells m ! ci) \<and> module_cell_wf (length (gm_nets m)) c'
     \<and> (\<forall>v. (\<forall>j < length (gm_cells m). j \<noteq> ci \<longrightarrow> holds v (gm_cells m ! j)) \<longrightarrow> holds v c' = holds v (gm_cells m ! ci))
     \<and> (\<forall>r. ranked r m \<longrightarrow> input_weight r c' < input_weight r (gm_cells m ! ci)
          \<and> (\<forall>x \<in> set (c_inputs c'). \<exists>y \<in> set (c_inputs (gm_cells m ! ci)). r x \<le> r y))"

lemma first_some_spec:
  assumes "\<And>x. x \<in> set xs \<Longrightarrow> \<exists>r. f x = Some r \<and> (\<forall>y. r = Some y \<longrightarrow> P y)"
  shows "\<exists>r. first_some f xs = Some r \<and> (\<forall>y. r = Some y \<longrightarrow> P y)"
  using assms
proof (induction xs)
  case (Cons x xs)
  obtain r where r: "f x = Some r" "\<forall>y. r = Some y \<longrightarrow> P y" using Cons.prems [of x] by auto
  then show ?case using Cons by (cases r) auto
qed simp

lemma dual_kind_Some: "dual_kind k = Some d \<longleftrightarrow> k = Or2 \<and> d = And2 \<or> k = And2 \<and> d = Or2"
  by (cases k) auto

text \<open>The outer cell reads \<open>x\<close> and \<open>a\<close>, the cell of the dual kind that drives \<open>x\<close> reads \<open>p\<close> and \<open>q\<close>.\<close>

lemma absorb_pair_spec:
  fixes m ci ix
  defines "c \<equiv> gm_cells m ! ci" and "inner \<equiv> gm_cells m ! ix"
  assumes wf: "wf_module m" and ci: "ci < length (gm_cells m)" and ix: "ix < length (gm_cells m)"
    and dual: "dual_kind (c_kind c) = Some (c_kind inner)"
    and c: "c_inputs c = [x, a] \<or> c_inputs c = [a, x]" and x: "driver (gm_nets m ! x) = DCell ix" "c_output inner = x"
    and inner: "c_inputs inner = [p, q] \<and> pq = (0, 1) \<or> c_inputs inner = [q, p] \<and> pq = (1, 0)"
  shows "\<exists>r. absorb_pair m c a inner pq = Some r \<and> (\<forall>c'. r = Some c' \<longrightarrow> replaces m ci c')"
proof -
  have pqn: "nth_opt (c_inputs inner) (fst pq) = Some p" "nth_opt (c_inputs inner) (snd pq) = Some q"
    using inner by auto
  have nets: "a < length (gm_nets m)" "x < length (gm_nets m)" "p < length (gm_nets m)" "q < length (gm_nets m)"
    using wf_cell(2) [OF wf ci] wf_cell(2) [OF wf ix] c inner unfolding c_def inner_def by auto
  have two: "c_kind c = Or2 \<and> c_kind inner = And2 \<or> c_kind c = And2 \<and> c_kind inner = Or2"
    using dual by (auto simp: dual_kind_Some)
  have ne: "ix \<noteq> ci" using two unfolding c_def inner_def by auto
  have out: "c_output c < length (gm_nets m)"
    using wf nth_mem [OF ci] by (auto simp: wf_module_def module_cell_wf_def c_def)
  have hin: "holds v inner" if "\<forall>j < length (gm_cells m). j \<noteq> ci \<longrightarrow> holds v (gm_cells m ! j)" for v
    using that ix ne by (simp add: inner_def)
  have lower: "r p < r x \<and> r q < r x" if "ranked r m" for r
    using that nets(2) x(1) inner unfolding ranked_def inner_def by fastforce
  show ?thesis
  proof (cases "p = a")
    case True
    let ?c = "c\<lparr>c_kind := Buf, c_inputs := [a]\<rparr>"
    have "holds v ?c = holds v c" if h: "\<forall>j < length (gm_cells m). j \<noteq> ci \<longrightarrow> holds v (gm_cells m ! j)" for v
      using hin [OF h] two c inner x(2) True by (auto simp: holds_def)
    moreover have "module_cell_wf (length (gm_nets m)) ?c" using nets out by (simp add: module_cell_wf_def)
    moreover have "input_weight r ?c < input_weight r c" for r using c by (auto simp: input_weight_def)
    moreover have "\<exists>y \<in> set (c_inputs c). r a \<le> r y" for r :: "net_id \<Rightarrow> nat" using c by auto
    ultimately have "replaces m ci ?c" unfolding replaces_def c_def [symmetric] by simp
    then show ?thesis using pqn True by (simp add: absorb_pair_def)
  next
    case False
    obtain b where b: "complementary m p a = Some b" "b \<longrightarrow> (\<exists>i < length (gm_cells m). c_kind (gm_cells m ! i) = Not1 \<and>
        (\<forall>v. holds v (gm_cells m ! i) \<longrightarrow> v p = (\<not> v a)))"
      using complementary_spec [OF wf nets(3,1)] by blast
    let ?c = "c\<lparr>c_inputs := [q, a]\<rparr>"
    have "replaces m ci ?c" if yes: b
    proof -
      obtain i where i: "i < length (gm_cells m)" "c_kind (gm_cells m ! i) = Not1"
        "\<And>v. holds v (gm_cells m ! i) \<Longrightarrow> v p = (\<not> v a)" using b(2) yes by blast
      have "i \<noteq> ci" using i(2) two unfolding c_def by auto
      have "holds v ?c = holds v c" if h: "\<forall>j < length (gm_cells m). j \<noteq> ci \<longrightarrow> holds v (gm_cells m ! j)" for v
      proof -
        have "v p = (\<not> v a)" using h i \<open>i \<noteq> ci\<close> by blast
        then show ?thesis using hin [OF h] two c inner x(2) by (auto simp: holds_def)
      qed
      moreover have "module_cell_wf (length (gm_nets m)) ?c" using nets out two by (auto simp: module_cell_wf_def)
      moreover have "input_weight r ?c < input_weight r c" if "ranked r m" for r
        using c lower [OF that] by (auto simp: input_weight_def)
      moreover have "\<forall>y \<in> set (c_inputs ?c). \<exists>z \<in> set (c_inputs c). r y \<le> r z" if "ranked r m" for r
        using c lower [OF that] by auto
      ultimately show ?thesis unfolding replaces_def c_def [symmetric] by simp
    qed
    then show ?thesis using pqn False b(1) by (simp add: absorb_pair_def)
  qed
qed

lemma absorb_input_spec:
  assumes wf: "wf_module m" and ci: "ci < length (gm_cells m)"
    and dual: "dual_kind (c_kind (gm_cells m ! ci)) = Some ik" and xa: "xa \<in> set [(0, 1), (1, 0)]"
  shows "\<exists>r. absorb_input m (gm_cells m ! ci) ik xa = Some r \<and> (\<forall>c'. r = Some c' \<longrightarrow> replaces m ci c')"
proof -
  let ?c = "gm_cells m ! ci"
  have "length (c_inputs ?c) = 2" using wf_cell(1) [OF wf ci] dual by (auto simp: dual_kind_Some)
  then obtain x a where xs: "nth_opt (c_inputs ?c) (fst xa) = Some x" "nth_opt (c_inputs ?c) (snd xa) = Some a"
    "c_inputs ?c = [x, a] \<or> c_inputs ?c = [a, x]"
    using xa by (auto simp: length_2_conv)
  have x: "x < length (gm_nets m)" using wf_cell(2) [OF wf ci] xs(3) by auto
  show ?thesis
  proof (cases "\<exists>ix. driver (gm_nets m ! x) = DCell ix \<and> c_kind (gm_cells m ! ix) = ik")
    case True
    then obtain ix where d: "driver (gm_nets m ! x) = DCell ix" "c_kind (gm_cells m ! ix) = ik" by blast
    have ix: "ix < length (gm_cells m)" "c_output (gm_cells m ! ix) = x" using wf_module_driver [OF wf x d(1)] by auto
    have "length (c_inputs (gm_cells m ! ix)) = 2" using wf_cell(1) [OF wf ix(1)] dual d(2) by (auto simp: dual_kind_Some)
    then obtain p q where pq: "c_inputs (gm_cells m ! ix) = [p, q]" by (auto simp: length_2_conv)
    have "\<exists>r. first_some (absorb_pair m ?c a (gm_cells m ! ix)) [(0, 1), (1, 0)] = Some r \<and> (\<forall>c'. r = Some c' \<longrightarrow> replaces m ci c')"
    proof (rule first_some_spec)
      fix k :: "nat \<times> nat" assume "k \<in> set [(0, 1), (1, 0)]"
      then show "\<exists>r. absorb_pair m ?c a (gm_cells m ! ix) k = Some r \<and> (\<forall>c'. r = Some c' \<longrightarrow> replaces m ci c')"
        using absorb_pair_spec [OF wf ci ix(1) dual [folded d(2)] xs(3) d(1) ix(2), of p q k]
          absorb_pair_spec [OF wf ci ix(1) dual [folded d(2)] xs(3) d(1) ix(2), of q p k] pq by auto
    qed
    then show ?thesis using xs(1,2) x d ix(1) by (simp add: absorb_input_def)
  next
    case False
    have "absorb_input m ?c ik xa = Some None"
    proof (cases "driver (gm_nets m ! x)")
      case (DCell ix)
      then show ?thesis using False xs(1,2) x wf_module_driver [OF wf x DCell] by (auto simp: absorb_input_def)
    qed (use xs(1,2) x in \<open>simp_all add: absorb_input_def\<close>)
    then show ?thesis by simp
  qed
qed

subsection \<open>The module\<close>

definition weight :: "(net_id \<Rightarrow> nat) \<Rightarrow> gate_module \<Rightarrow> nat" where
  "weight r m = sum_list (map (input_weight r) (gm_cells m))"

text \<open>Only the cells' kinds and inputs changed, and the module means the same.\<close>

definition absorbs :: "gate_module \<Rightarrow> gate_module \<Rightarrow> bool" where
  "absorbs m m' \<longleftrightarrow> m' = m\<lparr>gm_cells := gm_cells m'\<rparr> \<and> map c_output (gm_cells m') = map c_output (gm_cells m)
     \<and> wf_module m' \<and> (\<forall>v. msat v m' = msat v m)
     \<and> (\<forall>r. ranked r m \<longrightarrow> ranked r m' \<and> weight r m' \<le> weight r m)"

lemma absorbs_refl: "wf_module m \<Longrightarrow> absorbs m m"
  by (simp add: absorbs_def)

lemma absorbs_trans: "absorbs a b \<Longrightarrow> absorbs b c \<Longrightarrow> absorbs a c"
  unfolding absorbs_def by (metis (no_types, lifting) gate_module.cases_scheme gate_module.update_convs(4) le_trans)

lemma absorbsD: "absorbs m m' \<Longrightarrow> wf_module m'" "absorbs m m' \<Longrightarrow> length (gm_cells m') = length (gm_cells m)"
  unfolding absorbs_def by (metis, metis length_map)

lemma msat_update:
  assumes "ci < length (gm_cells m)"
    and "(\<forall>j < length (gm_cells m). j \<noteq> ci \<longrightarrow> holds v (gm_cells m ! j)) \<longrightarrow> holds v c' = holds v (gm_cells m ! ci)"
  shows "msat v (m\<lparr>gm_cells := (gm_cells m)[ci := c']\<rparr>) = msat v m"
proof -
  have "(\<forall>c \<in> set ((gm_cells m)[ci := c']). holds v c) \<longleftrightarrow> (\<forall>j < length (gm_cells m). holds v ((gm_cells m)[ci := c'] ! j))"
    by (simp add: all_set_conv_all_nth)
  also have "\<dots> \<longleftrightarrow> (\<forall>j < length (gm_cells m). holds v (gm_cells m ! j))"
    using assms by (metis nth_list_update_eq nth_list_update_neq)
  finally show ?thesis by (simp add: msat_def all_set_conv_all_nth)
qed

lemma replaces_absorbs:
  assumes wf: "wf_module m" and ci: "ci < length (gm_cells m)" and r: "replaces m ci c'"
  shows "absorbs m (m\<lparr>gm_cells := (gm_cells m)[ci := c']\<rparr>)"
    "ranked r m \<Longrightarrow> weight r (m\<lparr>gm_cells := (gm_cells m)[ci := c']\<rparr>) < weight r m"
proof -
  let ?m = "m\<lparr>gm_cells := (gm_cells m)[ci := c']\<rparr>"
  have out: "c_output c' = c_output (gm_cells m ! ci)" and cwf: "module_cell_wf (length (gm_nets m)) c'"
    using r by (simp_all add: replaces_def)
  have outs: "map c_output ((gm_cells m)[ci := c']) = map c_output (gm_cells m)"
    using ci out by (simp add: map_update list_update_same_conv)
  then have outj: "c_output ((gm_cells m)[ci := c'] ! j) = c_output (gm_cells m ! j)" if "j < length (gm_cells m)" for j
    using that by (metis length_list_update nth_map)
  have sinks: "sinks ?m = sinks m" by (simp add: sinks_def ram_inputs_def)
  have wf': "wf_module ?m"
    using wf cwf outj set_update_subset_insert [of "gm_cells m" ci c'] unfolding wf_module_def sinks by auto
  have w: "weight s ?m < weight s m" if "ranked s m" for s
  proof -
    have lt: "input_weight s c' < input_weight s (gm_cells m ! ci)" using r that by (simp add: replaces_def)
    have "weight s m = sum_list (map (input_weight s) (take ci (gm_cells m))) + input_weight s (gm_cells m ! ci)
        + sum_list (map (input_weight s) (drop (Suc ci) (gm_cells m)))"
      unfolding weight_def using id_take_nth_drop [OF ci] by (metis (no_types, lifting) add.assoc list.simps(9) map_append sum_list.Cons sum_list_append)
    moreover have "weight s ?m = sum_list (map (input_weight s) (take ci (gm_cells m))) + input_weight s c'
        + sum_list (map (input_weight s) (drop (Suc ci) (gm_cells m)))"
      unfolding weight_def by (simp add: upd_conv_take_nth_drop ci)
    ultimately show ?thesis using lt by simp
  qed
  have rk: "ranked s ?m" if s: "ranked s m" for s
    unfolding ranked_def
  proof (intro allI impI ballI)
    fix n i x assume n: "n < length (gm_nets ?m)" "driver (gm_nets ?m ! n) = DCell i" "x \<in> set (c_inputs (gm_cells ?m ! i))"
    show "s x < s n"
    proof (cases "i = ci")
      case True
      then have "x \<in> set (c_inputs c')" using n(3) ci by simp
      then obtain y where "y \<in> set (c_inputs (gm_cells m ! ci))" "s x \<le> s y"
        using r s unfolding replaces_def by blast
      moreover have "s y < s n" if "y \<in> set (c_inputs (gm_cells m ! ci))" for y
        using s n(1,2) True that by (auto simp: ranked_def)
      ultimately show ?thesis using le_less_trans by blast
    qed (use s n in \<open>auto simp: ranked_def\<close>)
  qed
  have "msat v ?m = msat v m" for v by (rule msat_update [OF ci]) (use r in \<open>auto simp: replaces_def\<close>)
  then show "absorbs m ?m" using outs wf' w rk by (auto simp: absorbs_def less_imp_le)
  show "ranked r m \<Longrightarrow> weight r ?m < weight r m" using w by blast
qed

definition progressed :: "gate_module \<Rightarrow> gate_module \<times> bool \<Rightarrow> bool" where
  "progressed m st \<longleftrightarrow> absorbs m (fst st) \<and> (snd st \<longrightarrow> (\<forall>r. ranked r m \<longrightarrow> weight r (fst st) < weight r m))
     \<and> (\<not> snd st \<longrightarrow> fst st = m)"

lemma absorb_cell_spec:
  assumes ci: "ci < length (gm_cells m)" and st: "progressed m st"
  shows "\<exists>st'. absorb_cell ci st = Some st' \<and> progressed m st'"
proof -
  obtain n ch where n: "st = (n, ch)" by fastforce
  have ab: "absorbs m n" using st by (simp add: progressed_def n)
  have wf: "wf_module n" and len: "ci < length (gm_cells n)" using absorbsD [OF ab] ci by simp_all
  show ?thesis
  proof (cases "dual_kind (c_kind (gm_cells n ! ci))")
    case None
    then show ?thesis using st len by (simp add: absorb_cell_def n)
  next
    case (Some ik)
    have "\<exists>r. first_some (absorb_input n (gm_cells n ! ci) ik) [(0, 1), (1, 0)] = Some r \<and> (\<forall>c'. r = Some c' \<longrightarrow> replaces n ci c')"
      by (rule first_some_spec) (rule absorb_input_spec [OF wf len Some])
    then obtain r where r: "first_some (absorb_input n (gm_cells n ! ci) ik) [(0, 1), (1, 0)] = Some r"
      "\<forall>c'. r = Some c' \<longrightarrow> replaces n ci c'" by blast
    show ?thesis
    proof (cases r)
      case None
      then show ?thesis using st len Some r(1) by (simp add: absorb_cell_def n)
    next
      case rc: (Some c')
      let ?n = "n\<lparr>gm_cells := (gm_cells n)[ci := c']\<rparr>"
      note rep = replaces_absorbs [OF wf len]
      have "weight s ?n < weight s m" if "ranked s m" for s
      proof -
        have "ranked s n" "weight s n \<le> weight s m" using ab that by (simp_all add: absorbs_def)
        then show ?thesis using rep(2) [of c' s] r(2) rc by simp
      qed
      then have "progressed m (?n, True)" using absorbs_trans [OF ab rep(1)] r(2) rc by (simp add: progressed_def)
      then show ?thesis using len Some r(1) rc by (simp add: absorb_cell_def n)
    qed
  qed
qed

lemma absorb_round_spec:
  assumes "wf_module m"
  shows "\<exists>st. absorb_round m = Some st \<and> progressed m st"
  unfolding absorb_round_def
  by (rule fold_opt_invariant) (use absorb_cell_spec assms in \<open>auto simp: progressed_def absorbs_refl\<close>)

lemma absorb_loop_ends:
  assumes "wf_module m" "ranked r m"
  shows "\<exists>m' ch. absorb_loop m b = Some (m', ch) \<and> absorbs m m' \<and> absorb_round m' = Some (m', False)
    \<and> (ch \<longrightarrow> b \<or> weight r m' < weight r m)"
  using assms
proof (induction "weight r m" arbitrary: m b rule: less_induct)
  case less
  obtain n ch where n: "absorb_round m = Some (n, ch)" "progressed m (n, ch)"
    using absorb_round_spec [OF less.prems(1)] by fastforce
  have ab: "absorbs m n" using n(2) by (simp add: progressed_def)
  have rk: "ranked r n" "wf_module n" using ab less.prems(2) by (simp_all add: absorbs_def)
  show ?case
  proof (cases ch)
    case True
    then have lt: "weight r n < weight r m" using n(2) less.prems(2) by (simp add: progressed_def)
    obtain m' c where "absorb_loop n True = Some (m', c)" "absorbs n m'" "absorb_round m' = Some (m', False)"
      using less.hyps [OF lt rk(2,1)] by blast
    moreover from this have "weight r m' < weight r m" using lt rk(1) by (simp add: absorbs_def) (metis le_less_trans)
    ultimately show ?thesis using n(1) True absorbs_trans [OF ab] by (simp add: absorb_loop.simps [of m])
  next
    case False
    then show ?thesis using n ab by (simp add: absorb_loop.simps [of m] progressed_def)
  qed
qed

text \<open>
  C28: absorption. On a well-formed module without a combinational cycle the pass ends; the
  result differs only in kinds and inputs of cells, is well formed and acyclic with the same
  rank, is satisfied by exactly the assignments that satisfied the module, and another round
  would change nothing.
\<close>

theorem absorb_complement_correct:
  assumes "wf_module m" "ranked r m"
  shows "\<exists>m' ch. absorb_complement m = Some (m', ch) \<and> m' = m\<lparr>gm_cells := gm_cells m'\<rparr>
    \<and> map c_output (gm_cells m') = map c_output (gm_cells m) \<and> wf_module m' \<and> ranked r m'
    \<and> (\<forall>v. msat v m' = msat v m) \<and> absorb_round m' = Some (m', False)"
proof -
  obtain m' ch where "absorb_loop m False = Some (m', ch)" "absorbs m m'" "absorb_round m' = Some (m', False)"
    using absorb_loop_ends [OF assms, of False] by blast
  then show ?thesis using assms(2) unfolding absorb_complement_def absorbs_def by blast
qed

text \<open>\<open>a | (!a & b)\<close>, as the conversion emits a stage of a priority scan.\<close>

definition scan_stage :: gate_module where
  "scan_stage = \<lparr>gm_name = None,
     gm_ports = [\<lparr>gp_name = 0, gp_path = [], gp_dir = Output, gp_nets = [6]\<rparr>],
     gm_nets = map (\<lambda>d. \<lparr>driver = d, origin = None\<rparr>)
       [DConst False, DConst True, PortInput, PortInput, DCell 0, DCell 1, DCell 2],
     gm_cells = [\<lparr>c_kind = Not1, c_inputs = [2], c_output = 4\<rparr>, \<lparr>c_kind = And2, c_inputs = [4, 3], c_output = 5\<rparr>,
       \<lparr>c_kind = Or2, c_inputs = [2, 5], c_output = 6\<rparr>],
     gm_ffs = [], gm_ram_blocks = []\<rparr>"

lemma scan_stage_wf: "wf_module scan_stage"
  by (auto simp: wf_module_def scan_stage_def rails module_cell_wf_def sinks_def ram_inputs_def less_Suc_eq numeral_eq_Suc)

lemma scan_stage_ranked: "ranked id scan_stage"
  by (auto simp: ranked_def scan_stage_def less_Suc_eq numeral_eq_Suc)

theorem absorb_complement_correct_witness:
  "\<exists>m' ch. absorb_complement scan_stage = Some (m', ch) \<and> wf_module m' \<and> (\<forall>v. msat v m' = msat v scan_stage)"
  using absorb_complement_correct [OF scan_stage_wf scan_stage_ranked] by blast

end
