(* ===== verification/Grow.thy ===== *)
theory Grow
  imports Absorb "HOL-Library.Multiset"
begin

section \<open>Rebuilding a netlist by adding gates\<close>

text \<open>
  What the depth passes share: pushing a gate on a new net, the algebra of the associative
  operations, and the argument that a module whose cells are partly re-linked to new gates
  has the assignments it had, has no cycle if it had none, and keeps its drivers and pins.
\<close>

definition is_assoc :: "cell_kind \<Rightarrow> bool" where
  "is_assoc k \<longleftrightarrow> k \<in> {And2, Or2, Xor2}"

definition push_gate :: "cell_kind \<Rightarrow> net_id list \<Rightarrow> gate_module \<Rightarrow> net_id \<times> gate_module" where
  "push_gate k ins m =
     (let net = length (gm_nets m); idx = length (gm_cells m)
      in (net, m\<lparr>gm_nets := gm_nets m @ [\<lparr>driver = DCell idx, origin = None\<rparr>],
                 gm_cells := gm_cells m @ [\<lparr>c_kind = k, c_inputs = ins, c_output = net\<rparr>]\<rparr>))"

subsection \<open>Associative operations\<close>

definition op_of :: "cell_kind \<Rightarrow> bool \<Rightarrow> bool \<Rightarrow> bool" where
  "op_of k a b = cell_fn k [a, b]"

text \<open>The operation over a non-empty list, from the left as the scan computes it.\<close>

definition scan :: "cell_kind \<Rightarrow> bool list \<Rightarrow> bool" where
  "scan k bs = foldl (op_of k) (hd bs) (tl bs)"

lemma op_assoc: "is_assoc k \<Longrightarrow> op_of k (op_of k a b) c = op_of k a (op_of k b c)"
  by (auto simp: is_assoc_def op_of_def)

lemma op_comm: "is_assoc k \<Longrightarrow> op_of k a b = op_of k b a"
  by (auto simp: is_assoc_def op_of_def)

lemma arity_assoc: "is_assoc k \<Longrightarrow> arity k = 2"
  by (auto simp: is_assoc_def)

lemma scan_snoc: "bs \<noteq> [] \<Longrightarrow> scan k (bs @ [b]) = op_of k (scan k bs) b"
  by (cases bs) (simp_all add: scan_def)

lemma scan_append: "is_assoc k \<Longrightarrow> xs \<noteq> [] \<Longrightarrow> ys \<noteq> [] \<Longrightarrow> scan k (xs @ ys) = op_of k (scan k xs) (scan k ys)"
proof (induction ys rule: rev_induct)
  case (snoc y ys)
  show ?case
  proof (cases "ys = []")
    case True
    then show ?thesis using snoc.prems scan_snoc by (simp add: scan_def [of k "[y]"])
  next
    case False
    then show ?thesis using snoc scan_snoc [of "xs @ ys" k y] scan_snoc [of ys k y] by (simp add: op_assoc)
  qed
qed simp

text \<open>A scan over a permuted list is the same, as the operations commute.\<close>

lemma scan_cases:
  assumes "bs \<noteq> []"
  shows "scan And2 bs \<longleftrightarrow> False \<notin> set bs" "scan Or2 bs \<longleftrightarrow> True \<in> set bs" "scan Xor2 bs \<longleftrightarrow> odd (count_list bs True)"
  using assms
  by (induction bs rule: rev_nonempty_induct) (auto simp: scan_snoc op_of_def, simp_all add: scan_def)

lemma scan_perm:
  assumes "is_assoc k" "mset xs = mset ys" "xs \<noteq> []"
  shows "scan k xs = scan k ys"
proof -
  have "set xs = set ys" "count_list xs True = count_list ys True" "ys \<noteq> []"
    using assms(2,3) by (metis mset_eq_setD, metis count_mset, metis mset_zero_iff)
  then show ?thesis using scan_cases [OF assms(3)] scan_cases [of ys] assms(1) by (auto simp: is_assoc_def)
qed

subsection \<open>Adding gates\<close>

definition same_pins :: "gate_module \<Rightarrow> gate_module \<Rightarrow> bool" where
  "same_pins m m' \<longleftrightarrow> gm_name m' = gm_name m \<and> gm_ports m' = gm_ports m \<and> gm_ffs m' = gm_ffs m
     \<and> gm_ram_blocks m' = gm_ram_blocks m"

text \<open>
  \<open>gated m m' cs\<close>: the module grew by the cells \<open>cs\<close>, each on a net of its own and reading
  earlier nets only, and stays well formed.
\<close>

definition gated :: "gate_module \<Rightarrow> gate_module \<Rightarrow> cell list \<Rightarrow> bool" where
  "gated m m' cs \<longleftrightarrow> wf_module m' \<and> gm_cells m' = gm_cells m @ cs \<and> same_pins m m'
     \<and> (\<exists>ns. gm_nets m' = gm_nets m @ ns \<and> length ns = length cs
          \<and> (\<forall>j < length cs. driver (ns ! j) = DCell (length (gm_cells m) + j)))
     \<and> (\<forall>j < length cs. c_output (cs ! j) = length (gm_nets m) + j
          \<and> (\<forall>x \<in> set (c_inputs (cs ! j)). x < length (gm_nets m) + j))"

lemma gated_refl: "wf_module m \<Longrightarrow> gated m m []"
  by (auto simp: gated_def same_pins_def)

lemma gated_nets: "gated m m' cs \<Longrightarrow> length (gm_nets m) \<le> length (gm_nets m')"
  "gated m m' cs \<Longrightarrow> length (gm_nets m') = length (gm_nets m) + length cs"
  by (auto simp: gated_def)

lemma gated_wf: "gated m m' cs \<Longrightarrow> wf_module m'"
  by (simp add: gated_def)

lemma gated_old: "gated m m' cs \<Longrightarrow> n < length (gm_nets m) \<Longrightarrow> gm_nets m' ! n = gm_nets m ! n"
  by (auto simp: gated_def nth_append)

lemma gated_new:
  assumes "gated m m' cs" "j < length cs"
  shows "driver (gm_nets m' ! (length (gm_nets m) + j)) = DCell (length (gm_cells m) + j)"
    "c_output (cs ! j) = length (gm_nets m) + j" "\<And>x. x \<in> set (c_inputs (cs ! j)) \<Longrightarrow> x < length (gm_nets m) + j"
  using assms by (auto simp: gated_def nth_append)

lemma holds_agree:
  assumes "module_cell_wf k c" "\<And>n. n < k \<Longrightarrow> w n = v n"
  shows "holds w c = holds v c"
proof -
  have eq: "map w (c_inputs c) = map v (c_inputs c)" "w (c_output c) = v (c_output c)"
    using assms by (auto simp: module_cell_wf_def)
  show ?thesis unfolding holds_def eq ..
qed

lemma gated_trans:
  assumes 1: "gated m m1 cs" and 2: "gated m1 m2 ds"
  shows "gated m m2 (cs @ ds)"
proof -
  obtain ns where ns: "gm_nets m1 = gm_nets m @ ns" "length ns = length cs" "\<forall>j < length cs. driver (ns ! j) = DCell (length (gm_cells m) + j)"
    using 1 unfolding gated_def by blast
  obtain ks where ks: "gm_nets m2 = gm_nets m1 @ ks" "length ks = length ds" "\<forall>j < length ds. driver (ks ! j) = DCell (length (gm_cells m1) + j)"
    using 2 unfolding gated_def by blast
  have cells: "gm_cells m1 = gm_cells m @ cs" using 1 by (simp add: gated_def)
  have "driver ((ns @ ks) ! j) = DCell (length (gm_cells m) + j)" if "j < length (cs @ ds)" for j
    using that ns(2,3) ks(3) cells by (auto simp: nth_append)
  moreover have "c_output ((cs @ ds) ! j) = length (gm_nets m) + j \<and> (\<forall>x \<in> set (c_inputs ((cs @ ds) ! j)). x < length (gm_nets m) + j)"
    if "j < length (cs @ ds)" for j
    using gated_new(2,3) [OF 1, of j] gated_new(2,3) [OF 2, of "j - length cs"] gated_nets(2) [OF 1] that
    by (cases "j < length cs") (auto simp: nth_append)
  moreover have "same_pins m m2" using 1 2 by (simp add: gated_def same_pins_def)
  moreover have "gm_nets m2 = gm_nets m @ (ns @ ks)" "length (ns @ ks) = length (cs @ ds)" using ns(1,2) ks(1,2) by simp_all
  ultimately show ?thesis using 1 2 cells unfolding gated_def by (metis append.assoc)
qed

lemma wf_module_grow:
  assumes wf: "wf_module m" and c: "module_cell_wf (Suc (length (gm_nets m))) c" "c_output c = length (gm_nets m)"
  shows "wf_module (m\<lparr>gm_nets := gm_nets m @ [\<lparr>driver = DCell (length (gm_cells m)), origin = orig\<rparr>], gm_cells := gm_cells m @ [c]\<rparr>)"
    (is "wf_module ?m")
proof -
  have sinks: "sinks ?m = sinks m" by (simp add: sinks_def ram_inputs_def)
  have old: "module_cell_wf (Suc (length (gm_nets m))) d" if "d \<in> set (gm_cells m)" for d
    using wf that unfolding wf_module_def module_cell_wf_def by force
  have rails: "NET_CONST0 < length (gm_nets m)" "NET_CONST1 < length (gm_nets m)"
    using wf by (auto simp: wf_module_def rails)
  have drv: "i < length (gm_cells ?m) \<and> c_output (gm_cells ?m ! i) = n"
    if n: "n < length (gm_nets ?m)" "driver (gm_nets ?m ! n) = DCell i" for n i
  proof (cases "n = length (gm_nets m)")
    case True
    then show ?thesis using n c(2) by (auto simp: nth_append)
  next
    case False
    then have "n < length (gm_nets m)" "driver (gm_nets m ! n) = DCell i" using n by (simp_all add: nth_append)
    then show ?thesis using wf_module_driver [OF wf] by (simp add: nth_append) (metis less_SucI)
  qed
  have drv': "\<forall>n < length (gm_nets ?m). \<forall>i. driver (gm_nets ?m ! n) = DCell i \<longrightarrow>
      i < length (gm_cells ?m) \<and> c_output (gm_cells ?m ! i) = n" using drv by blast
  show ?thesis
    unfolding wf_module_def sinks
  proof (intro conjI)
    show "\<forall>c \<in> set (gm_cells ?m). module_cell_wf (length (gm_nets ?m)) c" using old c(1) by auto
    show "\<forall>n < length (gm_nets ?m). \<forall>i. driver (gm_nets ?m ! n) = DCell i \<longrightarrow>
      i < length (gm_cells ?m) \<and> c_output (gm_cells ?m ! i) = n" by (rule drv')
  qed (use wf rails in \<open>auto simp: wf_module_def nth_append\<close>)
qed

lemma push_gate_gated:
  assumes "wf_module m" "arity k = length ins" "\<And>x. x \<in> set ins \<Longrightarrow> x < length (gm_nets m)" "push_gate k ins m = (net, m')"
  shows "gated m m' [\<lparr>c_kind = k, c_inputs = ins, c_output = net\<rparr>]" "net = length (gm_nets m)" "net < length (gm_nets m')"
proof -
  have m': "net = length (gm_nets m)" "m' = m\<lparr>gm_nets := gm_nets m @ [\<lparr>driver = DCell (length (gm_cells m)), origin = None\<rparr>],
      gm_cells := gm_cells m @ [\<lparr>c_kind = k, c_inputs = ins, c_output = length (gm_nets m)\<rparr>]\<rparr>"
    using assms(4) by (auto simp: push_gate_def Let_def)
  have "wf_module m'" unfolding m'(2)
    by (rule wf_module_grow [OF assms(1)]) (use assms(2,3) in \<open>auto simp: module_cell_wf_def less_SucI\<close>)
  then show "gated m m' [\<lparr>c_kind = k, c_inputs = ins, c_output = net\<rparr>]" using assms(3) by (simp add: gated_def same_pins_def m')
  show "net = length (gm_nets m)" "net < length (gm_nets m')" by (simp_all add: m')
qed

text \<open>The new cells can be evaluated one after the other, with any reading of a cell.\<close>

lemma gated_eval:
  assumes "\<And>j. j < length cs \<Longrightarrow> c_output (cs ! j) = k + j \<and> (\<forall>x \<in> set (c_inputs (cs ! j)). x < k + j)"
  shows "\<exists>w. (\<forall>n < k. w n = v n) \<and> (\<forall>c \<in> set cs. w (c_output c) = G c (map w (c_inputs c)))"
  using assms
proof (induction cs rule: rev_induct)
  case (snoc c cs)
  have "c_output (cs ! j) = k + j \<and> (\<forall>x \<in> set (c_inputs (cs ! j)). x < k + j)" if "j < length cs" for j
    using snoc.prems [of j] that by (simp add: nth_append)
  then obtain w where w: "\<forall>n < k. w n = v n" "\<forall>c \<in> set cs. w (c_output c) = G c (map w (c_inputs c))"
    using snoc.IH by blast
  have c: "c_output c = k + length cs" "\<forall>x \<in> set (c_inputs c). x < k + length cs" using snoc.prems [of "length cs"] by simp_all
  define u where "u = w(k + length cs := G c (map w (c_inputs c)))"
  have below: "u n = w n" if "n < k + length cs" for n using that by (simp add: u_def)
  have same: "map u (c_inputs d) = map w (c_inputs d)" if "\<forall>x \<in> set (c_inputs d). x < k + length cs" for d
    using that below by simp
  have "u (c_output d) = G d (map u (c_inputs d))" if d: "d \<in> set cs" for d
  proof -
    obtain j where j: "j < length cs" "cs ! j = d" using d by (auto simp: in_set_conv_nth)
    then have dj: "c_output d = k + j" "\<forall>x \<in> set (c_inputs d). x < k + j" using snoc.prems [of j] by (auto simp: nth_append)
    then have "map u (c_inputs d) = map w (c_inputs d)" using j(1) by (intro same) auto
    moreover have "u (c_output d) = w (c_output d)" using dj(1) j(1) below by simp
    ultimately show ?thesis using w(2) d by metis
  qed
  moreover have "u (c_output c) = G c (map u (c_inputs c))" unfolding same [OF c(2)] using c(1) by (simp add: u_def)
  moreover have "\<forall>n < k. u n = v n" using w(1) below by simp
  ultimately show ?case by (intro exI [of _ u]) auto
qed auto

lemma gated_holds:
  assumes "gated m m' cs"
  shows "\<exists>w. (\<forall>n < length (gm_nets m). w n = v n) \<and> (\<forall>c \<in> set cs. holds w c)"
  using gated_eval [of cs "length (gm_nets m)" v "\<lambda>c. cell_fn (c_kind c)"] gated_new(2,3) [OF assms]
  unfolding holds_def by blast

text \<open>Two readings: the value of the gate, and the greatest rank below it.\<close>

definition tops :: "(net_id \<Rightarrow> nat) \<Rightarrow> cell list \<Rightarrow> bool" where
  "tops h cs \<longleftrightarrow> (\<forall>c \<in> set cs. (\<forall>x \<in> set (c_inputs c). h x \<le> h (c_output c))
     \<and> (\<forall>b. (\<forall>x \<in> set (c_inputs c). h x \<le> b) \<longrightarrow> h (c_output c) \<le> b))"

lemma tops_append [simp]: "tops h (cs @ ds) \<longleftrightarrow> tops h cs \<and> tops h ds"
  by (auto simp: tops_def)

lemma fold_max: "(\<forall>x \<in> set xs. x \<le> fold max xs (a :: nat)) \<and> a \<le> fold max xs a
    \<and> (\<forall>b. (\<forall>x \<in> set xs. x \<le> b) \<longrightarrow> a \<le> b \<longrightarrow> fold max xs a \<le> b)"
  by (induction xs arbitrary: a) (auto, (meson le_max_iff_disj max.cobounded1 order_trans)+)

lemma gated_tops:
  assumes "gated m m' cs"
  shows "\<exists>h. (\<forall>n < length (gm_nets m). h n = r n) \<and> tops h cs"
proof -
  obtain h where h: "\<forall>n < length (gm_nets m). h n = r n" "\<forall>c \<in> set cs. h (c_output c) = fold max (map h (c_inputs c)) 0"
    using gated_eval [of cs "length (gm_nets m)" r "\<lambda>c xs. fold max xs 0"] gated_new(2,3) [OF assms] by blast
  have "tops h cs"
    unfolding tops_def
  proof (intro ballI conjI allI impI)
    fix c assume c: "c \<in> set cs"
    show "h x \<le> h (c_output c)" if "x \<in> set (c_inputs c)" for x
      using fold_max [of "map h (c_inputs c)" 0] h(2) c that by simp
    show "h (c_output c) \<le> b" if "\<forall>x \<in> set (c_inputs c). h x \<le> b" for b
      using fold_max [of "map h (c_inputs c)" 0] h(2) c that by simp
  qed
  then show ?thesis using h(1) by blast
qed

subsection \<open>Re-linking old cells to the new gates\<close>

text \<open>
  \<open>relinked m m1 m' cs R\<close>: after the gates \<open>cs\<close> were added, the old cells with an index in
  \<open>R\<close> got other kinds and inputs, and nothing else changed.
\<close>

definition relinked :: "gate_module \<Rightarrow> gate_module \<Rightarrow> gate_module \<Rightarrow> cell list \<Rightarrow> nat set \<Rightarrow> bool" where
  "relinked m m1 m' cs R \<longleftrightarrow> gated m m1 cs \<and> wf_module m' \<and> gm_nets m' = gm_nets m1 \<and> same_pins m1 m'
     \<and> length (gm_cells m') = length (gm_cells m1) \<and> R \<subseteq> {..<length (gm_cells m)}
     \<and> (\<forall>i < length (gm_cells m1). c_output (gm_cells m' ! i) = c_output (gm_cells m1 ! i))
     \<and> (\<forall>i < length (gm_cells m1). i \<notin> R \<longrightarrow> gm_cells m' ! i = gm_cells m1 ! i)"

lemma relinked_cells:
  assumes "relinked m m1 m' cs R"
  shows "length (gm_cells m') = length (gm_cells m) + length cs"
    "\<And>i. i < length (gm_cells m) \<Longrightarrow> i \<notin> R \<Longrightarrow> gm_cells m' ! i = gm_cells m ! i"
    "\<And>j. j < length cs \<Longrightarrow> gm_cells m' ! (length (gm_cells m) + j) = cs ! j"
    "\<And>i. i < length (gm_cells m) \<Longrightarrow> c_output (gm_cells m' ! i) = c_output (gm_cells m ! i)"
proof -
  have cells: "gm_cells m1 = gm_cells m @ cs" "R \<subseteq> {..<length (gm_cells m)}" using assms by (simp_all add: relinked_def gated_def)
  show "length (gm_cells m') = length (gm_cells m) + length cs" using assms cells by (simp add: relinked_def)
  show "gm_cells m' ! i = gm_cells m ! i" if "i < length (gm_cells m)" "i \<notin> R" for i
    using assms cells that by (simp add: relinked_def nth_append)
  show "gm_cells m' ! (length (gm_cells m) + j) = cs ! j" if "j < length cs" for j
  proof -
    have "length (gm_cells m) + j \<notin> R" using cells(2) by auto
    then show ?thesis using assms cells that by (simp add: relinked_def)
  qed
  show "c_output (gm_cells m' ! i) = c_output (gm_cells m ! i)" if "i < length (gm_cells m)" for i
    using assms cells that by (simp add: relinked_def nth_append)
qed

text \<open>The rank of the result: the old ranks spread out, the new gates between them.\<close>

lemma relinked_ranked:
  assumes re: "relinked m m1 m' cs R" and wf: "wf_module m" and r: "ranked r m"
    and h: "\<And>n. n < length (gm_nets m) \<Longrightarrow> h n = r n" "tops h cs"
    and below: "\<And>i x. i \<in> R \<Longrightarrow> driver (gm_nets m ! c_output (gm_cells m ! i)) = DCell i \<Longrightarrow>
      x \<in> set (c_inputs (gm_cells m' ! i)) \<Longrightarrow> h x < r (c_output (gm_cells m ! i))"
  shows "\<exists>r'. ranked r' m'"
proof -
  let ?N = "length (gm_nets m)" and ?K = "Suc (length cs)"
  have g: "gated m m1 cs" and nets: "gm_nets m' = gm_nets m1" and wf': "wf_module m'" using re by (simp_all add: relinked_def)
  have len: "length (gm_nets m') = ?N + length cs" using gated_nets(2) [OF g] nets by simp
  define r' where "r' x = (if x < ?N then ?K * h x else ?K * h x + 1 + (x - ?N))" for x
  have up: "r' x < r' y" if "h x < h y" "y < ?N" "x < ?N + length cs" for x y
  proof -
    have "?K * Suc (h x) \<le> ?K * h y" using that(1) by (intro mult_le_mono2) simp
    then have "?K * h x + ?K \<le> ?K * h y" by (simp only: mult_Suc_right add.commute)
    moreover have "r' x \<le> ?K * h x + length cs"
    proof (cases "x < ?N")
      case False
      then have "r' x = ?K * h x + (1 + (x - ?N))" "1 + (x - ?N) \<le> length cs" using that(3) by (simp_all add: r'_def)
      then show ?thesis by (metis add_left_mono)
    qed (simp add: r'_def)
    moreover have "r' y = ?K * h y" using that(2) by (simp add: r'_def)
    ultimately show ?thesis by linarith
  qed
  have "r' x < r' n" if n: "n < length (gm_nets m')" and d: "driver (gm_nets m' ! n) = DCell i" and x: "x \<in> set (c_inputs (gm_cells m' ! i))" for n i x
  proof (cases "n < ?N")
    case True
    have dm: "driver (gm_nets m ! n) = DCell i" using d gated_old [OF g True] nets by simp
    then have i: "i < length (gm_cells m)" "c_output (gm_cells m ! i) = n" using wf_module_driver [OF wf True] by simp_all
    have "h x < h n"
    proof (cases "i \<in> R")
      case False
      then have "x \<in> set (c_inputs (gm_cells m ! i))" using x relinked_cells(2) [OF re i(1)] by simp
      then show ?thesis using r dm True wf_module_inputs [OF wf i(1)] by (simp add: ranked_def h(1))
    qed (use below [of i x] dm i(2) x True in \<open>simp add: h(1)\<close>)
    moreover have "x < ?N + length cs"
      using wf_module_inputs [OF wf' _ x] i(1) relinked_cells(1) [OF re] len by simp
    ultimately show ?thesis using up True by blast
  next
    case False
    let ?j = "n - ?N"
    have j: "?j < length cs" using n False len by simp
    then have i: "i = length (gm_cells m) + ?j" using d gated_new(1) [OF g j] nets False by simp
    then have xs: "x \<in> set (c_inputs (cs ! ?j))" using x relinked_cells(3) [OF re j] by simp
    then have "x < n" using gated_new(3) [OF g j xs] False by simp
    moreover have "h x \<le> h n"
      using h(2) xs j gated_new(2) [OF g j] False unfolding tops_def by (metis le_add_diff_inverse not_le nth_mem)
    then have "?K * h x \<le> ?K * h n" by (rule mult_le_mono2)
    moreover have "r' n = ?K * h n + 1 + (n - ?N)" using False by (simp add: r'_def)
    moreover have "r' x = ?K * h x \<or> r' x = ?K * h x + 1 + (x - ?N) \<and> ?N \<le> x" by (simp add: r'_def)
    ultimately show ?thesis by linarith
  qed
  then have "ranked r' m'" by (simp add: ranked_def)
  then show ?thesis by blast
qed

text \<open>
  What a rebuilt module is to the one before: more nets and cells, the same pins, the same
  assignments of the old nets, no new cycle and no second driver.
\<close>

definition rebuilt :: "gate_module \<Rightarrow> gate_module \<Rightarrow> bool" where
  "rebuilt m m' \<longleftrightarrow> same_pins m m' \<and> length (gm_cells m) \<le> length (gm_cells m')
     \<and> (\<exists>ns. gm_nets m' = gm_nets m @ ns \<and> (\<forall>n \<in> set ns. \<exists>i. driver n = DCell i))
     \<and> (\<forall>v. msat v m \<longrightarrow> (\<exists>w. msat w m' \<and> (\<forall>n < length (gm_nets m). w n = v n)))
     \<and> (\<forall>w. msat w m' \<longrightarrow> msat w m)
     \<and> ((\<exists>r. ranked r m) \<longrightarrow> (\<exists>r. ranked r m'))
     \<and> (single_driver m \<longrightarrow> single_driver m')"

lemma rebuilt_refl: "rebuilt m m"
  by (auto simp: rebuilt_def same_pins_def)

lemma rebuilt_trans:
  assumes "rebuilt a b" "rebuilt b c"
  shows "rebuilt a c"
proof -
  have le: "length (gm_nets a) \<le> length (gm_nets b)" using assms(1) by (auto simp: rebuilt_def)
  have "\<exists>w. msat w c \<and> (\<forall>n < length (gm_nets a). w n = v n)" if "msat v a" for v
  proof -
    obtain u where "msat u b" "\<forall>n < length (gm_nets a). u n = v n" using assms(1) \<open>msat v a\<close> unfolding rebuilt_def by blast
    moreover from this(1) obtain w where "msat w c" "\<forall>n < length (gm_nets b). w n = u n"
      using assms(2) unfolding rebuilt_def by blast
    ultimately show ?thesis using le by (intro exI [of _ w]) auto
  qed
  moreover have "\<exists>ns. gm_nets c = gm_nets a @ ns \<and> (\<forall>n \<in> set ns. \<exists>i. driver n = DCell i)"
  proof -
    obtain ns where ns: "gm_nets b = gm_nets a @ ns" "\<forall>n \<in> set ns. \<exists>i. driver n = DCell i"
      using assms(1) unfolding rebuilt_def by blast
    obtain ks where "gm_nets c = gm_nets b @ ks" "\<forall>n \<in> set ks. \<exists>i. driver n = DCell i"
      using assms(2) unfolding rebuilt_def by blast
    with ns show ?thesis by (intro exI [of _ "ns @ ks"]) auto
  qed
  moreover have "same_pins a b" "same_pins b c" using assms unfolding rebuilt_def by blast+
  then have "same_pins a c" unfolding same_pins_def by metis
  moreover have "length (gm_cells a) \<le> length (gm_cells b)" "length (gm_cells b) \<le> length (gm_cells c)"
    using assms unfolding rebuilt_def by blast+
  then have "length (gm_cells a) \<le> length (gm_cells c)" by (rule le_trans)
  moreover have "\<forall>w. msat w c \<longrightarrow> msat w a" using assms unfolding rebuilt_def by blast
  moreover have "(\<exists>r. ranked r a) \<longrightarrow> (\<exists>r. ranked r c)" "single_driver a \<longrightarrow> single_driver c"
    using assms unfolding rebuilt_def by blast+
  ultimately show ?thesis unfolding rebuilt_def by blast
qed

lemma all_less_add: "(\<forall>i < a + b. P i) \<longleftrightarrow> (\<forall>i < a. P i) \<and> (\<forall>i < (b :: nat). P (a + i))"
proof (intro iffI conjI allI impI)
  assume h: "(\<forall>i < a. P i) \<and> (\<forall>i < b. P (a + i))"
  show "P i" if "i < a + b" for i
  proof (cases "i < a")
    case False
    then show ?thesis using h that spec [of "\<lambda>j. j < b \<longrightarrow> P (a + j)" "i - a"] by simp
  qed (use h in simp)
qed simp_all

text \<open>\<open>msat\<close> by index.\<close>

lemma msat_by_index: "msat v m \<longleftrightarrow> (\<forall>i < length (gm_cells m). holds v (gm_cells m ! i)) \<and>
    (\<forall>n < length (gm_nets m). \<forall>b. driver (gm_nets m ! n) = DConst b \<longrightarrow> v n = b)"
  by (auto simp: msat_def all_set_conv_all_nth)

definition consts_hold :: "(net_id \<Rightarrow> bool) \<Rightarrow> gate_module \<Rightarrow> bool" where
  "consts_hold v m \<longleftrightarrow> (\<forall>n < length (gm_nets m). \<forall>b. driver (gm_nets m ! n) = DConst b \<longrightarrow> v n = b)"

text \<open>The assignments of the result are those of the old module that the new gates hold in.\<close>

lemma relinked_msat:
  assumes re: "relinked m m1 m' cs R"
    and same: "consts_hold v m \<Longrightarrow> (\<And>c. c \<in> set cs \<Longrightarrow> holds v c) \<Longrightarrow> (\<And>i. i < length (gm_cells m) \<Longrightarrow> i \<notin> R \<Longrightarrow> holds v (gm_cells m ! i)) \<Longrightarrow>
      (\<forall>i \<in> R. holds v (gm_cells m' ! i)) \<longleftrightarrow> (\<forall>i \<in> R. holds v (gm_cells m ! i))"
  shows "msat v m' \<longleftrightarrow> msat v m \<and> (\<forall>c \<in> set cs. holds v c)"
proof -
  note k = relinked_cells [OF re]
  have R: "R \<subseteq> {..<length (gm_cells m)}" and g: "gated m m1 cs" and nets: "gm_nets m' = gm_nets m1" using re by (simp_all add: relinked_def)
  have split: "(\<forall>i < length (gm_cells m). P i) \<longleftrightarrow> (\<forall>i < length (gm_cells m). i \<notin> R \<longrightarrow> P i) \<and> (\<forall>i \<in> R. P i)" for P
    using R by blast
  have new: "(\<forall>i < length cs. holds v (gm_cells m' ! (length (gm_cells m) + i))) \<longleftrightarrow> (\<forall>c \<in> set cs. holds v c)"
    using k(3) by (simp add: all_set_conv_all_nth)
  have old: "(\<forall>i < length (gm_cells m). i \<notin> R \<longrightarrow> holds v (gm_cells m' ! i)) \<longleftrightarrow>
      (\<forall>i < length (gm_cells m). i \<notin> R \<longrightarrow> holds v (gm_cells m ! i))" using k(2) by simp
  have cells: "(\<forall>i < length (gm_cells m'). holds v (gm_cells m' ! i)) \<longleftrightarrow>
      (\<forall>i < length (gm_cells m). holds v (gm_cells m ! i)) \<and> (\<forall>c \<in> set cs. holds v c)" if "consts_hold v m"
    unfolding k(1) all_less_add new split [of "\<lambda>i. holds v (gm_cells m' ! i)"] split [of "\<lambda>i. holds v (gm_cells m ! i)"] old
    using same [OF that] by blast
  have "driver (gm_nets m' ! n) \<noteq> DConst b" if "\<not> n < length (gm_nets m)" "n < length (gm_nets m')" for n b
    using gated_new(1) [OF g, of "n - length (gm_nets m)"] gated_nets(2) [OF g] that nets by simp
  moreover have "gm_nets m' ! n = gm_nets m ! n" if "n < length (gm_nets m)" for n using gated_old [OF g that] nets by simp
  moreover have "length (gm_nets m) \<le> length (gm_nets m')" using gated_nets(1) [OF g] nets by simp
  ultimately have "(\<forall>n < length (gm_nets m'). \<forall>b. driver (gm_nets m' ! n) = DConst b \<longrightarrow> v n = b) \<longleftrightarrow> consts_hold v m"
    unfolding consts_hold_def by (metis less_le_trans)
  then show ?thesis unfolding msat_by_index [of v m'] msat_by_index [of v m] using cells unfolding consts_hold_def by blast
qed

text \<open>The rank of the constant 0, which no cell drives, can be taken to be 0.\<close>

lemma ranked_rail:
  assumes wf: "wf_module m" and r: "ranked r m"
  shows "ranked (r(NET_CONST0 := 0)) m"
  unfolding ranked_def
proof (intro allI impI ballI)
  fix n i x assume n: "n < length (gm_nets m)" "driver (gm_nets m ! n) = DCell i" "x \<in> set (c_inputs (gm_cells m ! i))"
  then have "n \<noteq> NET_CONST0" using wf by (auto simp: wf_module_def)
  moreover have "r x < r n" using r n by (simp add: ranked_def)
  ultimately show "(r(NET_CONST0 := 0)) x < (r(NET_CONST0 := 0)) n" by auto
qed

lemma relinked_rebuilt_consts:
  assumes re: "relinked m m1 m' cs R" and wf: "wf_module m"
    and same: "\<And>v. consts_hold v m \<Longrightarrow> (\<And>c. c \<in> set cs \<Longrightarrow> holds v c) \<Longrightarrow> (\<And>i. i < length (gm_cells m) \<Longrightarrow> i \<notin> R \<Longrightarrow> holds v (gm_cells m ! i)) \<Longrightarrow>
      (\<forall>i \<in> R. holds v (gm_cells m' ! i)) \<longleftrightarrow> (\<forall>i \<in> R. holds v (gm_cells m ! i))"
    and below: "\<And>r h i x. ranked r m \<Longrightarrow> r NET_CONST0 = 0 \<Longrightarrow> tops h cs \<Longrightarrow> (\<And>n. n < length (gm_nets m) \<Longrightarrow> h n = r n) \<Longrightarrow> i \<in> R \<Longrightarrow>
      driver (gm_nets m ! c_output (gm_cells m ! i)) = DCell i \<Longrightarrow> x \<in> set (c_inputs (gm_cells m' ! i)) \<Longrightarrow>
      h x < r (c_output (gm_cells m ! i))"
  shows "rebuilt m m'"
proof -
  note k = relinked_cells [OF re]
  have g: "gated m m1 cs" and nets: "gm_nets m' = gm_nets m1" and pins: "same_pins m1 m'" using re by (simp_all add: relinked_def)
  have msat': "msat v m' \<longleftrightarrow> msat v m \<and> (\<forall>c \<in> set cs. holds v c)" for v by (rule relinked_msat [OF re same])
  have "\<exists>w. msat w m' \<and> (\<forall>n < length (gm_nets m). w n = v n)" if v: "msat v m" for v
  proof -
    obtain w where w: "\<forall>n < length (gm_nets m). w n = v n" "\<forall>c \<in> set cs. holds w c" using gated_holds [OF g] by blast
    have "holds w c" if "c \<in> set (gm_cells m)" for c
    proof -
      have "module_cell_wf (length (gm_nets m)) c" using wf that by (simp add: wf_module_def)
      then have "holds w c = holds v c" using holds_agree w(1) by blast
      then show ?thesis using v that by (simp add: msat_def)
    qed
    then have "msat w m" using v w(1) by (simp add: msat_def)
    then show ?thesis using w msat' [of w] by blast
  qed
  moreover have "\<exists>r'. ranked r' m'" if "ranked s m" for s
  proof -
    define r where "r = s(NET_CONST0 := 0)"
    have r: "ranked r m" "r NET_CONST0 = 0" using ranked_rail [OF wf that] by (simp_all add: r_def)
    obtain h where h: "\<forall>n < length (gm_nets m). h n = r n" "tops h cs" using gated_tops [OF g] by blast
    show ?thesis by (rule relinked_ranked [OF re wf r(1) _ h(2)]) (use h(1) below [OF r h(2)] in blast)+
  qed
  moreover have "single_driver m'" if s: "single_driver m"
    unfolding single_driver_def
  proof (intro allI impI)
    fix i assume i: "i < length (gm_cells m')"
    show "driver (gm_nets m' ! c_output (gm_cells m' ! i)) = DCell i"
    proof (cases "i < length (gm_cells m)")
      case True
      then have "c_output (gm_cells m ! i) < length (gm_nets m)" using wf nth_mem [OF True] by (auto simp: wf_module_def module_cell_wf_def)
      then show ?thesis using s True k(4) [OF True] gated_old [OF g] nets by (simp add: single_driver_def)
    next
      case False
      then have "i - length (gm_cells m) < length cs" using i k(1) by simp
      then show ?thesis using k(3) gated_new [OF g] nets False by (metis le_add_diff_inverse not_le)
    qed
  qed
  moreover have "\<exists>ns. gm_nets m' = gm_nets m @ ns \<and> (\<forall>n \<in> set ns. \<exists>i. driver n = DCell i)"
    using g nets unfolding gated_def by (metis in_set_conv_nth)
  moreover have "same_pins m m'" using g pins by (simp add: gated_def same_pins_def)
  moreover have "length (gm_cells m) \<le> length (gm_cells m')" using k(1) by simp
  moreover have "msat w m" if "msat w m'" for w using msat' [of w] that by blast
  ultimately show ?thesis unfolding rebuilt_def by blast
qed

lemma relinked_rebuilt:
  assumes "relinked m m1 m' cs R" "wf_module m"
    and same: "\<And>v. (\<And>c. c \<in> set cs \<Longrightarrow> holds v c) \<Longrightarrow> (\<And>i. i < length (gm_cells m) \<Longrightarrow> i \<notin> R \<Longrightarrow> holds v (gm_cells m ! i)) \<Longrightarrow>
      (\<forall>i \<in> R. holds v (gm_cells m' ! i)) \<longleftrightarrow> (\<forall>i \<in> R. holds v (gm_cells m ! i))"
    and below: "\<And>r h i x. ranked r m \<Longrightarrow> tops h cs \<Longrightarrow> (\<And>n. n < length (gm_nets m) \<Longrightarrow> h n = r n) \<Longrightarrow> i \<in> R \<Longrightarrow>
      driver (gm_nets m ! c_output (gm_cells m ! i)) = DCell i \<Longrightarrow> x \<in> set (c_inputs (gm_cells m' ! i)) \<Longrightarrow>
      h x < r (c_output (gm_cells m ! i))"
  shows "rebuilt m m'"
proof (rule relinked_rebuilt_consts [OF assms(1,2)])
  show "(\<forall>i \<in> R. holds v (gm_cells m' ! i)) \<longleftrightarrow> (\<forall>i \<in> R. holds v (gm_cells m ! i))"
    if "\<And>c. c \<in> set cs \<Longrightarrow> holds v c" "\<And>i. i < length (gm_cells m) \<Longrightarrow> i \<notin> R \<Longrightarrow> holds v (gm_cells m ! i)" for v
    using same [of v] that by blast
  show "h x < r (c_output (gm_cells m ! i))" if "ranked r m" "tops h cs" "\<And>n. n < length (gm_nets m) \<Longrightarrow> h n = r n" "i \<in> R"
    "driver (gm_nets m ! c_output (gm_cells m ! i)) = DCell i" "x \<in> set (c_inputs (gm_cells m' ! i))" for r h i x
    using below [of r h i x] that by blast
qed

subsection \<open>Growing and re-linking in turns\<close>

lemma relinked_grow:
  assumes re: "relinked m m1 n cs R" and g: "gated n n' ds"
  shows "\<exists>m1'. relinked m m1' n' (cs @ ds) R"
proof -
  define m1' where "m1' = m1\<lparr>gm_nets := gm_nets n', gm_cells := gm_cells m1 @ ds\<rparr>"
  have nets: "gm_nets n = gm_nets m1" "length (gm_cells n) = length (gm_cells m1)" "same_pins m1 n" and g1: "gated m m1 cs"
    and same: "\<And>i. i < length (gm_cells m1) \<Longrightarrow> c_output (gm_cells n ! i) = c_output (gm_cells m1 ! i)"
      "\<And>i. i < length (gm_cells m1) \<Longrightarrow> i \<notin> R \<Longrightarrow> gm_cells n ! i = gm_cells m1 ! i" "R \<subseteq> {..<length (gm_cells m)}"
    using re by (simp_all add: relinked_def)
  have n': "gm_cells n' = gm_cells n @ ds" "wf_module n'" "same_pins n n'" using g by (simp_all add: gated_def)
  have out: "c_output (gm_cells m1' ! i) = c_output (gm_cells n' ! i)" for i
    using same(1) nets(2) n'(1) by (cases "i < length (gm_cells m1)") (simp_all add: m1'_def nth_append)
  have "sinks m1' = sinks n'" using nets(3) n'(3) by (simp add: m1'_def sinks_def ram_inputs_def same_pins_def)
  moreover have "module_cell_wf (length (gm_nets n')) c" if "c \<in> set (gm_cells m1')" for c
  proof -
    have "module_cell_wf (length (gm_nets m1)) c \<or> c \<in> set ds" using that gated_wf [OF g1] by (auto simp: m1'_def wf_module_def)
    then show ?thesis using n'(1,2) gated_nets(1) [OF g] nets(1) unfolding wf_module_def module_cell_wf_def by force
  qed
  moreover have "length (gm_cells m1') = length (gm_cells n')" using nets(2) n'(1) by (simp add: m1'_def)
  moreover have "gm_nets m1' = gm_nets n'" by (simp add: m1'_def)
  ultimately have wf: "wf_module m1'" using n'(2) out unfolding wf_module_def by simp
  have "gated m1 m1' ds"
    using g wf nets(1,2) unfolding gated_def by (auto simp: m1'_def same_pins_def)
  then have "gated m m1' (cs @ ds)" by (rule gated_trans [OF g1])
  moreover have "same_pins m1' n'" using nets(3) n'(3) by (simp add: same_pins_def m1'_def)
  moreover have "gm_cells n' ! i = gm_cells m1' ! i" if "i \<notin> R" "i < length (gm_cells m1')" for i
    using same(2) that nets(2) n'(1) by (cases "i < length (gm_cells m1)") (simp_all add: m1'_def nth_append)
  ultimately have "relinked m m1' n' (cs @ ds) R" using n'(1,2) same(3) out nets(2) unfolding relinked_def by (simp add: m1'_def)
  then show ?thesis by blast
qed

lemma wf_relink_cell:
  assumes wf: "wf_module n" and i: "i < length (gm_cells n)" and ins: "length ins = arity k" "\<And>x. x \<in> set ins \<Longrightarrow> x < length (gm_nets n)"
  shows "wf_module (n\<lparr>gm_cells := (gm_cells n)[i := (gm_cells n ! i)\<lparr>c_kind := k, c_inputs := ins\<rparr>]\<rparr>)" (is "wf_module ?n")
proof -
  have sinks: "sinks ?n = sinks n" by (simp add: sinks_def ram_inputs_def)
  have out: "c_output (gm_cells ?n ! j) = c_output (gm_cells n ! j)" for j using i by (cases "j = i") simp_all
  have "module_cell_wf (length (gm_nets n)) (gm_cells n ! i)" using wf i by (simp add: wf_module_def)
  then have "module_cell_wf (length (gm_nets n)) ((gm_cells n ! i)\<lparr>c_kind := k, c_inputs := ins\<rparr>)" using ins by (simp add: module_cell_wf_def)
  then have "\<forall>c \<in> set (gm_cells ?n). module_cell_wf (length (gm_nets ?n)) c"
    using wf set_update_subset_insert [of "gm_cells n" i] by (fastforce simp: wf_module_def)
  moreover have "\<forall>x < length (gm_nets ?n). \<forall>j. driver (gm_nets ?n ! x) = DCell j \<longrightarrow> j < length (gm_cells ?n) \<and> c_output (gm_cells ?n ! j) = x"
    using wf out unfolding wf_module_def by simp
  ultimately show ?thesis using wf unfolding wf_module_def sinks by simp
qed

lemma relinked_update:
  assumes re: "relinked m m1 n cs R" and i: "i < length (gm_cells m)" and ins: "length ins = arity k" "\<And>x. x \<in> set ins \<Longrightarrow> x < length (gm_nets n)"
  shows "relinked m m1 (n\<lparr>gm_cells := (gm_cells n)[i := (gm_cells n ! i)\<lparr>c_kind := k, c_inputs := ins\<rparr>]\<rparr>) cs (insert i R)"
proof -
  have n: "wf_module n" "i < length (gm_cells n)" using re i relinked_cells(1) [OF re] by (simp_all add: relinked_def)
  have "wf_module (n\<lparr>gm_cells := (gm_cells n)[i := (gm_cells n ! i)\<lparr>c_kind := k, c_inputs := ins\<rparr>]\<rparr>)"
    by (rule wf_relink_cell [OF n ins])
  then show ?thesis using re i n(2) by (auto simp: relinked_def same_pins_def nth_list_update)
qed

subsection \<open>The contract of a depth pass\<close>

text \<open>
  What every pass of the restructuring promises: on a well-formed module with one driver per net
  and no combinational cycle it returns, with a rebuilt module and the flag that says whether it
  changed anything.
\<close>

locale depth_pass =
  fixes pass :: "gate_module \<Rightarrow> (gate_module \<times> bool) option"
  assumes rebuilds: "wf_module m \<Longrightarrow> single_driver m \<Longrightarrow> ranked r m \<Longrightarrow>
    \<exists>m' ch. pass m = Some (m', ch) \<and> wf_module m' \<and> rebuilt m m'"
begin

lemma keeps_invariant:
  assumes "wf_module m" "single_driver m" "ranked r m"
  obtains m' ch r' where "pass m = Some (m', ch)" "wf_module m'" "single_driver m'" "ranked r' m'" "rebuilt m m'"
  using rebuilds [OF assms] assms(2,3) unfolding rebuilt_def by blast

end

text \<open>Two passes one after the other, with the flag of either, are one pass.\<close>

definition then_pass :: "(gate_module \<Rightarrow> (gate_module \<times> bool) option) \<Rightarrow> (gate_module \<Rightarrow> (gate_module \<times> bool) option) \<Rightarrow>
    gate_module \<Rightarrow> (gate_module \<times> bool) option" where
  "then_pass p q m = do { (m1, a) \<leftarrow> p m; (m2, b) \<leftarrow> q m1; Some (m2, a \<or> b) }"

locale two_passes = first: depth_pass p + second: depth_pass q for p q

sublocale two_passes \<subseteq> both: depth_pass "then_pass p q"
proof
  fix m r assume m: "wf_module m" "single_driver m" "ranked r m"
  obtain m1 a r1 where 1: "p m = Some (m1, a)" "wf_module m1" "single_driver m1" "ranked r1 m1" "rebuilt m m1"
    by (rule first.keeps_invariant [OF m])
  obtain m2 b where "q m1 = Some (m2, b)" "wf_module m2" "rebuilt m1 m2" using second.rebuilds [OF 1(2-4)] by blast
  then show "\<exists>m' ch. then_pass p q m = Some (m', ch) \<and> wf_module m' \<and> rebuilt m m'"
    using 1(1) rebuilt_trans [OF 1(5)] by (simp add: then_pass_def)
qed

lemma absorbs_rebuilt:
  assumes "absorbs m m'"
  shows "rebuilt m m'"
proof -
  have m': "m' = m\<lparr>gm_cells := gm_cells m'\<rparr>" "map c_output (gm_cells m') = map c_output (gm_cells m)"
    "\<And>r. ranked r m \<Longrightarrow> ranked r m'" "\<And>v. msat v m' = msat v m" using assms by (auto simp: absorbs_def)
  have nets: "gm_nets m' = gm_nets m" "same_pins m m'" by (subst m'(1), simp add: same_pins_def)+
  have len: "length (gm_cells m') = length (gm_cells m)" using m'(2) by (rule map_eq_imp_length_eq)
  have "c_output (gm_cells m' ! i) = c_output (gm_cells m ! i)" if "i < length (gm_cells m)" for i
    using that len m'(2) by (metis nth_map)
  then have "single_driver m'" if "single_driver m" using that len by (simp add: single_driver_def nets(1))
  then show ?thesis using nets len m'(3,4) unfolding rebuilt_def by auto
qed

interpretation absorb: depth_pass absorb_complement
proof
  fix m r assume "wf_module m" "single_driver m" "ranked r m"
  then obtain m' ch where "absorb_complement m = Some (m', ch)" "absorbs m m'"
    using absorb_loop_ends [of m r False] unfolding absorb_complement_def by blast
  then show "\<exists>m' ch. absorb_complement m = Some (m', ch) \<and> wf_module m' \<and> rebuilt m m'"
    using absorbs_rebuilt by (auto simp: absorbs_def)
qed

end
