(* ===== verification/Postpass.thy ===== *)
theory Postpass
  imports Grow
begin

section \<open>Compound-cell fusion (\<open>conv/postpass.rs\<close>)\<close>

text \<open>
  \<open>complex_gate_replacement\<close>: six phases over one context, which owns the table of consumer
  counts and the caches of materialised helper cells.  A hash map is a map; an index out of
  range, a failed \<open>unreachable\<close> and a count that would fall below zero are \<open>None\<close>.  Five of
  the phases sweep over the cells until a sweep changes nothing; the sweep visits the cells
  that were there when it began.
\<close>

subsection \<open>The shared context\<close>

record postpass_ctx =
  pp_module :: gate_module
  pp_count :: "nat list"
  pp_not :: "net_id \<rightharpoonup> net_id"
  pp_or :: "net_id \<times> net_id \<rightharpoonup> net_id"
  pp_and :: "net_id \<times> net_id \<rightharpoonup> net_id"

definition count_up :: "net_id \<Rightarrow> nat list \<Rightarrow> nat list option" where
  "count_up n cs = (if n < length cs then Some (cs[n := cs ! n + 1]) else None)"

definition count_down :: "net_id \<Rightarrow> nat list \<Rightarrow> nat list option" where
  "count_down n cs = (if n < length cs \<and> 0 < cs ! n then Some (cs[n := cs ! n - 1]) else None)"

definition consumer_counts :: "gate_module \<Rightarrow> nat list option" where
  "consumer_counts m = do {
     cs \<leftarrow> fold_opt (\<lambda>c. fold_opt count_up (c_inputs c)) (gm_cells m) (replicate (length (gm_nets m)) 0);
     cs \<leftarrow> fold_opt (\<lambda>f. fold_opt count_up (ff_nets f)) (gm_ffs m) cs;
     cs \<leftarrow> fold_opt (\<lambda>p. fold_opt count_up (gp_nets p)) (gm_ports m) cs;
     fold_opt count_up (snd (run_state (for_each_ram_input_net m (collect id)) [])) cs
   }"

definition seed_not :: "cell \<Rightarrow> (net_id \<rightharpoonup> net_id) \<Rightarrow> (net_id \<rightharpoonup> net_id) option" where
  "seed_not c cache =
     (if c_kind c = Not1 then do {
        s \<leftarrow> nth_opt (c_inputs c) 0;
        Some (case cache s of None \<Rightarrow> cache(s \<mapsto> c_output c) | Some _ \<Rightarrow> cache)
      } else Some cache)"

definition new_postpass_ctx :: "gate_module \<Rightarrow> postpass_ctx option" where
  "new_postpass_ctx m = do {
     cs \<leftarrow> consumer_counts m;
     nots \<leftarrow> fold_opt seed_not (gm_cells m) Map.empty;
     Some \<lparr>pp_module = m, pp_count = cs, pp_not = nots, pp_or = Map.empty, pp_and = Map.empty\<rparr>
   }"

text \<open>A cell on a new net, with the counts of what it reads.\<close>

definition emit_cell :: "cell_kind \<Rightarrow> net_id list \<Rightarrow> postpass_ctx \<Rightarrow> (net_id \<times> postpass_ctx) option" where
  "emit_cell k ins st =
     (case push_gate k ins (pp_module st) of (net, m) \<Rightarrow> do {
        cs \<leftarrow> fold_opt count_up ins (pp_count st @ [0]);
        Some (net, st\<lparr>pp_module := m, pp_count := cs\<rparr>)
      })"

definition materialize_not :: "net_id \<Rightarrow> postpass_ctx \<Rightarrow> (net_id \<times> postpass_ctx) option" where
  "materialize_not src st =
     (case pp_not st src of
        Some existing \<Rightarrow> Some (existing, st)
      | None \<Rightarrow> do {
          (net, st) \<leftarrow> emit_cell Not1 [src] st;
          Some (net, st\<lparr>pp_not := (pp_not st)(src \<mapsto> net)\<rparr>)
        })"

definition materialize_binop :: "cell_kind \<Rightarrow> net_id \<Rightarrow> net_id \<Rightarrow> postpass_ctx \<Rightarrow> (net_id \<times> postpass_ctx) option" where
  "materialize_binop k a b st =
     (let key = (if a \<le> b then (a, b) else (b, a))
      in if k = Or2 then
           (case pp_or st key of
              Some existing \<Rightarrow> Some (existing, st)
            | None \<Rightarrow> do { (net, st) \<leftarrow> emit_cell k [fst key, snd key] st; Some (net, st\<lparr>pp_or := (pp_or st)(key \<mapsto> net)\<rparr>) })
         else if k = And2 then
           (case pp_and st key of
              Some existing \<Rightarrow> Some (existing, st)
            | None \<Rightarrow> do { (net, st) \<leftarrow> emit_cell k [fst key, snd key] st; Some (net, st\<lparr>pp_and := (pp_and st)(key \<mapsto> net)\<rparr>) })
         else None)"

definition rewrite_cell :: "nat \<Rightarrow> cell_kind \<Rightarrow> net_id list \<Rightarrow> postpass_ctx \<Rightarrow> postpass_ctx option" where
  "rewrite_cell i k ins st = do {
     c \<leftarrow> cell_at (pp_module st) i;
     cs \<leftarrow> fold_opt count_down (c_inputs c) (pp_count st);
     cs \<leftarrow> fold_opt count_up ins cs;
     Some (st\<lparr>pp_module := (pp_module st)\<lparr>gm_cells := (gm_cells (pp_module st))[i := c\<lparr>c_kind := k, c_inputs := ins\<rparr>]\<rparr>, pp_count := cs\<rparr>)
   }"

definition retarget_inputs :: "nat \<Rightarrow> net_id list \<Rightarrow> postpass_ctx \<Rightarrow> postpass_ctx option" where
  "retarget_inputs i ins st = do { c \<leftarrow> cell_at (pp_module st) i; rewrite_cell i (c_kind c) ins st }"

text \<open>The cell that drives a net, with its index.\<close>

definition driving_cell :: "gate_module \<Rightarrow> net_id \<Rightarrow> (nat \<times> cell) option option" where
  "driving_cell m n = do {
     d \<leftarrow> driver_at m n;
     (case d of DCell i \<Rightarrow> do { c \<leftarrow> cell_at m i; Some (Some (i, c)) } | _ \<Rightarrow> Some None)
   }"

subsection \<open>Sweeps\<close>

text \<open>\<open>loop { any = false; for i in 0..cells.len() { .. any = true; } if !any { break; } }\<close>\<close>

type_synonym step = "nat \<Rightarrow> postpass_ctx \<Rightarrow> (postpass_ctx \<times> bool) option"

definition sweep :: "step \<Rightarrow> postpass_ctx \<Rightarrow> (postpass_ctx \<times> bool) option" where
  "sweep f st = fold_opt (\<lambda>i (st, changed). do { (st, hit) \<leftarrow> f i st; Some (st, changed \<or> hit) })
     [0..<length (gm_cells (pp_module st))] (st, False)"

partial_function (option) sweep_loop :: "step \<Rightarrow> postpass_ctx \<Rightarrow> postpass_ctx option" where
  "sweep_loop f st = do { (st, changed) \<leftarrow> sweep f st; if changed then sweep_loop f st else Some st }"

declare sweep_loop.simps [code]

text \<open>A step on the Mux2 cells, given their three inputs.\<close>

definition on_mux :: "(nat \<Rightarrow> net_id \<Rightarrow> net_id \<Rightarrow> net_id \<Rightarrow> postpass_ctx \<Rightarrow> (postpass_ctx \<times> bool) option) \<Rightarrow> step" where
  "on_mux f i st = do {
     c \<leftarrow> cell_at (pp_module st) i;
     if c_kind c \<noteq> Mux2 then Some (st, False)
     else do {
       s \<leftarrow> nth_opt (c_inputs c) 0;
       d0 \<leftarrow> nth_opt (c_inputs c) 1;
       d1 \<leftarrow> nth_opt (c_inputs c) 2;
       f i s d0 d1 st
     }
   }"

subsection \<open>Nested muxes on one select\<close>

definition peek_same_sel_mux :: "gate_module \<Rightarrow> net_id \<Rightarrow> net_id \<Rightarrow> (net_id \<times> net_id \<times> bool) option option" where
  "peek_same_sel_mux m net outer_sel = do {
     d \<leftarrow> driving_cell m net;
     (case d of None \<Rightarrow> Some None
      | Some (_, inner) \<Rightarrow>
          if c_kind inner \<noteq> Mux2 then Some None
          else do {
            isel \<leftarrow> nth_opt (c_inputs inner) 0;
            in0 \<leftarrow> nth_opt (c_inputs inner) 1;
            in1 \<leftarrow> nth_opt (c_inputs inner) 2;
            if isel = outer_sel then Some (Some (in0, in1, True))
            else do {
              e \<leftarrow> driving_cell m isel;
              (case e of None \<Rightarrow> Some None
               | Some (_, n) \<Rightarrow>
                   if c_kind n = Not1 then do { x \<leftarrow> nth_opt (c_inputs n) 0; Some (if x = outer_sel then Some (in0, in1, False) else None) }
                   else Some None)
            }
          })
   }"

text \<open>One data input of a Mux2 moves to another net; the select and the other input stay.\<close>

definition move_input :: "nat \<Rightarrow> nat \<Rightarrow> net_id \<Rightarrow> net_id \<Rightarrow> postpass_ctx \<Rightarrow> postpass_ctx option" where
  "move_input i p old new st = do {
     cs \<leftarrow> count_down old (pp_count st);
     cs \<leftarrow> count_up new cs;
     c \<leftarrow> cell_at (pp_module st) i;
     Some (st\<lparr>pp_module := (pp_module st)\<lparr>gm_cells := (gm_cells (pp_module st))[i := c\<lparr>c_inputs := (c_inputs c)[p := new]\<rparr>]\<rparr>, pp_count := cs\<rparr>)
   }"

definition nest_step :: "nat \<Rightarrow> net_id \<Rightarrow> net_id \<Rightarrow> net_id \<Rightarrow> postpass_ctx \<Rightarrow> (postpass_ctx \<times> bool) option" where
  "nest_step i s d0 d1 st = do {
     p1 \<leftarrow> peek_same_sel_mux (pp_module st) d1 s;
     p0 \<leftarrow> peek_same_sel_mux (pp_module st) d0 s;
     (case (p1, p0) of
        (Some (in0, in1, same), _) \<Rightarrow> do { st \<leftarrow> move_input i 2 d1 (if same then in1 else in0) st; Some (st, True) }
      | (None, Some (in0, in1, same)) \<Rightarrow> do { st \<leftarrow> move_input i 1 d0 (if same then in0 else in1) st; Some (st, True) }
      | (None, None) \<Rightarrow> Some (st, False))
   }"

subsection \<open>Muxes that share a data input\<close>

datatype mom_pattern = MomA | MomB | MomC | MomD

definition classify_mom :: "postpass_ctx \<Rightarrow> net_id \<Rightarrow> net_id \<Rightarrow> net_id \<Rightarrow> bool \<Rightarrow> (mom_pattern \<times> net_id \<times> net_id) option option" where
  "classify_mom st s1 inner_leg shared inner_is_d0 = do {
     uses \<leftarrow> nth_opt (pp_count st) inner_leg;
     if uses \<noteq> 1 then Some None
     else do {
       d \<leftarrow> driving_cell (pp_module st) inner_leg;
       (case d of None \<Rightarrow> Some None
        | Some (_, inner) \<Rightarrow>
            if c_kind inner \<noteq> Mux2 then Some None
            else do {
              s2 \<leftarrow> nth_opt (c_inputs inner) 0;
              if s2 = s1 then Some None
              else do {
                in0 \<leftarrow> nth_opt (c_inputs inner) 1;
                in1 \<leftarrow> nth_opt (c_inputs inner) 2;
                Some (if inner_is_d0
                      then (if in1 = shared then Some (MomA, s2, in0) else if in0 = shared then Some (MomC, s2, in1) else None)
                      else (if in0 = shared then Some (MomB, s2, in1) else if in1 = shared then Some (MomD, s2, in0) else None))
              }
            })
     }
   }"

definition mom_select :: "mom_pattern \<Rightarrow> net_id \<Rightarrow> net_id \<Rightarrow> postpass_ctx \<Rightarrow> (net_id \<times> postpass_ctx) option" where
  "mom_select pat s1 s2 st = (case pat of
      MomA \<Rightarrow> materialize_binop Or2 s1 s2 st
    | MomB \<Rightarrow> materialize_binop And2 s1 s2 st
    | MomC \<Rightarrow> do { (not_s1, st) \<leftarrow> materialize_not s1 st; materialize_binop And2 not_s1 s2 st }
    | MomD \<Rightarrow> do { (not_s2, st) \<leftarrow> materialize_not s2 st; materialize_binop And2 s1 not_s2 st })"

fun mom_data :: "mom_pattern \<Rightarrow> net_id \<Rightarrow> net_id \<Rightarrow> net_id \<Rightarrow> net_id list" where
  "mom_data MomA d0 d1 other = [other, d1]"
| "mom_data MomB d0 d1 other = [d0, other]"
| "mom_data MomC d0 d1 other = [d1, other]"
| "mom_data MomD d0 d1 other = [d0, other]"

definition mom_step :: "nat \<Rightarrow> net_id \<Rightarrow> net_id \<Rightarrow> net_id \<Rightarrow> postpass_ctx \<Rightarrow> (postpass_ctx \<times> bool) option" where
  "mom_step i s1 d0 d1 st = do {
     first \<leftarrow> classify_mom st s1 d0 d1 True;
     hit \<leftarrow> (case first of Some h \<Rightarrow> Some (Some h) | None \<Rightarrow> classify_mom st s1 d1 d0 False);
     (case hit of
        None \<Rightarrow> Some (st, False)
      | Some (pat, s2, other) \<Rightarrow> do {
          (sel, st) \<leftarrow> mom_select pat s1 s2 st;
          st \<leftarrow> retarget_inputs i (sel # mom_data pat d0 d1 other) st;
          Some (st, True)
        })
   }"

subsection \<open>Common factors\<close>

definition find_common_input :: "net_id \<Rightarrow> net_id \<Rightarrow> net_id \<Rightarrow> net_id \<Rightarrow> (net_id \<times> net_id \<times> net_id) option" where
  "find_common_input a0 a1 b0 b1 =
     (if a0 = b0 then Some (a0, a1, b1)
      else if a0 = b1 then Some (a0, a1, b0)
      else if a1 = b0 then Some (a1, a0, b1)
      else if a1 = b1 then Some (a1, a0, b0)
      else None)"

text \<open>The two cells that drive two nets, when each net has one consumer.\<close>

definition two_arms :: "postpass_ctx \<Rightarrow> net_id \<Rightarrow> net_id \<Rightarrow> ((nat \<times> cell) \<times> (nat \<times> cell)) option option" where
  "two_arms st x y = do {
     ux \<leftarrow> nth_opt (pp_count st) x;
     uy \<leftarrow> nth_opt (pp_count st) y;
     if ux \<noteq> 1 \<or> uy \<noteq> 1 then Some None
     else do {
       dx \<leftarrow> driving_cell (pp_module st) x;
       (case dx of None \<Rightarrow> Some None
        | Some a \<Rightarrow> do {
            dy \<leftarrow> driving_cell (pp_module st) y;
            Some (map_option (Pair a) dy)
          })
     }
   }"

definition common_of :: "cell \<Rightarrow> cell \<Rightarrow> (net_id \<times> net_id \<times> net_id) option option" where
  "common_of a b = do {
     a0 \<leftarrow> nth_opt (c_inputs a) 0;
     a1 \<leftarrow> nth_opt (c_inputs a) 1;
     b0 \<leftarrow> nth_opt (c_inputs b) 0;
     b1 \<leftarrow> nth_opt (c_inputs b) 1;
     Some (find_common_input a0 a1 b0 b1)
   }"

text \<open>\<open>(x & a) | (x & b)\<close> and its dual; the arm that is kept becomes the inner gate.\<close>

definition distribute_step :: step where
  "distribute_step i st = do {
     c \<leftarrow> cell_at (pp_module st) i;
     if c_kind c \<noteq> Or2 \<and> c_kind c \<noteq> And2 then Some (st, False)
     else do {
       let dual = (if c_kind c = Or2 then And2 else Or2);
       x \<leftarrow> nth_opt (c_inputs c) 0;
       y \<leftarrow> nth_opt (c_inputs c) 1;
       arms \<leftarrow> two_arms st x y;
       (case arms of None \<Rightarrow> Some (st, False)
        | Some ((i0, a), (i1, b)) \<Rightarrow>
            if c_kind a \<noteq> dual \<or> c_kind b \<noteq> dual \<or> i0 = i1 then Some (st, False)
            else do {
              com \<leftarrow> common_of a b;
              (case com of None \<Rightarrow> Some (st, False)
               | Some (common, left, right) \<Rightarrow> do {
                   st \<leftarrow> rewrite_cell i0 (c_kind c) [left, right] st;
                   st \<leftarrow> rewrite_cell i dual [common, c_output a] st;
                   Some (st, True)
                 })
            })
     }
   }"

definition factor_step :: "nat \<Rightarrow> net_id \<Rightarrow> net_id \<Rightarrow> net_id \<Rightarrow> postpass_ctx \<Rightarrow> (postpass_ctx \<times> bool) option" where
  "factor_step i s d0 d1 st = do {
     arms \<leftarrow> two_arms st d0 d1;
     (case arms of None \<Rightarrow> Some (st, False)
      | Some ((_, a), (_, b)) \<Rightarrow>
          if c_kind a \<noteq> c_kind b \<or> c_kind a \<notin> {And2, Or2, Xor2} then Some (st, False)
          else do {
            com \<leftarrow> common_of a b;
            (case com of None \<Rightarrow> Some (st, False)
             | Some (common, left, right) \<Rightarrow> do {
                 (net, st) \<leftarrow> emit_cell Mux2 [s, left, right] st;
                 st \<leftarrow> rewrite_cell i (c_kind a) [common, net] st;
                 Some (st, True)
               })
          })
   }"

subsection \<open>Muxes that are primitive gates\<close>

datatype mux_rewrite = AndSel | OrSel | AndSelD1 | OrSelD0 | AndNotSel | OrNotSel | XorSel | XnorSel

definition const_driver :: "gate_module \<Rightarrow> net_id \<Rightarrow> bool option option" where
  "const_driver m n = do { d \<leftarrow> driver_at m n; Some (case d of DConst b \<Rightarrow> Some b | _ \<Rightarrow> None) }"

definition not_of :: "gate_module \<Rightarrow> net_id \<Rightarrow> net_id option option" where
  "not_of m n = do {
     d \<leftarrow> driving_cell m n;
     (case d of None \<Rightarrow> Some None
      | Some (_, c) \<Rightarrow> if c_kind c = Not1 then do { x \<leftarrow> nth_opt (c_inputs c) 0; Some (Some x) } else Some None)
   }"

definition classify_mux :: "gate_module \<Rightarrow> net_id \<Rightarrow> net_id \<Rightarrow> net_id \<Rightarrow> mux_rewrite option option" where
  "classify_mux m s d0 d1 = do {
     k0 \<leftarrow> const_driver m d0;
     k1 \<leftarrow> const_driver m d1;
     n1 \<leftarrow> not_of m d1;
     n0 \<leftarrow> not_of m d0;
     Some (if k0 = Some False \<and> k1 = None then Some AndSel
           else if k1 = Some True \<and> k0 = None then Some OrSel
           else if d0 = s then Some AndSelD1
           else if d1 = s then Some OrSelD0
           else if k1 = Some False \<and> k0 = None then Some AndNotSel
           else if k0 = Some True \<and> k1 = None then Some OrNotSel
           else if k0 = None \<and> n1 = Some d0 then Some XorSel
           else if k1 = None \<and> n0 = Some d1 then Some XnorSel
           else None)
   }"

definition mux_match :: "gate_module \<Rightarrow> nat \<times> cell \<Rightarrow> (nat \<times> mux_rewrite) option option" where
  "mux_match m ic = (case ic of (i, c) \<Rightarrow>
     if c_kind c \<noteq> Mux2 then Some None
     else do {
       s \<leftarrow> nth_opt (c_inputs c) 0;
       d0 \<leftarrow> nth_opt (c_inputs c) 1;
       d1 \<leftarrow> nth_opt (c_inputs c) 2;
       k \<leftarrow> classify_mux m s d0 d1;
       Some (map_option (Pair i) k)
     })"

definition apply_mux_rewrite :: "nat \<times> mux_rewrite \<Rightarrow> postpass_ctx \<Rightarrow> postpass_ctx option" where
  "apply_mux_rewrite ik st = (case ik of (i, k) \<Rightarrow> do {
     c \<leftarrow> cell_at (pp_module st) i;
     s \<leftarrow> nth_opt (c_inputs c) 0;
     d0 \<leftarrow> nth_opt (c_inputs c) 1;
     d1 \<leftarrow> nth_opt (c_inputs c) 2;
     (case k of
        AndSel \<Rightarrow> rewrite_cell i And2 [s, d1] st
      | AndSelD1 \<Rightarrow> rewrite_cell i And2 [s, d1] st
      | OrSel \<Rightarrow> rewrite_cell i Or2 [s, d0] st
      | OrSelD0 \<Rightarrow> rewrite_cell i Or2 [s, d0] st
      | AndNotSel \<Rightarrow> do { (not_s, st) \<leftarrow> materialize_not s st; rewrite_cell i And2 [not_s, d0] st }
      | OrNotSel \<Rightarrow> do { (not_s, st) \<leftarrow> materialize_not s st; rewrite_cell i Or2 [not_s, d1] st }
      | XorSel \<Rightarrow> rewrite_cell i Xor2 [s, d0] st
      | XnorSel \<Rightarrow> rewrite_cell i Xnor2 [s, d1] st)
   })"

definition collapse_mux_to_primitive :: "postpass_ctx \<Rightarrow> postpass_ctx option" where
  "collapse_mux_to_primitive st = do {
     hits \<leftarrow> those (map (mux_match (pp_module st)) (enumerate 0 (gm_cells (pp_module st))));
     fold_opt apply_mux_rewrite (List.map_filter id hits) st
   }"

subsection \<open>Compound cells\<close>

fun not_fused :: "cell_kind \<Rightarrow> cell_kind option" where
  "not_fused And2 = Some Nand2"
| "not_fused Or2 = Some Nor2"
| "not_fused Xor2 = Some Xnor2"
| "not_fused Nand2 = Some And2"
| "not_fused Nor2 = Some Or2"
| "not_fused Xnor2 = Some Xor2"
| "not_fused And3 = Some Nand3"
| "not_fused Or3 = Some Nor3"
| "not_fused Nand3 = Some And3"
| "not_fused Nor3 = Some Or3"
| "not_fused Ao22 = Some Aoi22"
| "not_fused _ = None"

definition one_pivot :: "cell_kind \<Rightarrow> cell_kind \<Rightarrow> cell_kind option" where
  "one_pivot outer inner = (case inner of
      And2 \<Rightarrow> (case outer of Nor2 \<Rightarrow> Some Aoi21 | Or2 \<Rightarrow> Some Ao21 | And2 \<Rightarrow> Some And3 | Nand2 \<Rightarrow> Some Nand3 | _ \<Rightarrow> None)
    | Or2 \<Rightarrow> (case outer of Nand2 \<Rightarrow> Some Oai21 | And2 \<Rightarrow> Some Oa21 | Or2 \<Rightarrow> Some Or3 | Nor2 \<Rightarrow> Some Nor3 | _ \<Rightarrow> None)
    | And3 \<Rightarrow> (case outer of Or2 \<Rightarrow> Some Ao31 | Nor2 \<Rightarrow> Some Aoi31 | _ \<Rightarrow> None)
    | _ \<Rightarrow> None)"

fun two_pivot :: "cell_kind \<Rightarrow> (cell_kind \<times> cell_kind) option" where
  "two_pivot Or2 = Some (And2, Ao22)"
| "two_pivot Nor2 = Some (And2, Aoi22)"
| "two_pivot Nand2 = Some (Or2, Oai22)"
| "two_pivot _ = None"

text \<open>The cell that drives a net with one consumer.\<close>

definition sole_driver :: "postpass_ctx \<Rightarrow> net_id \<Rightarrow> cell option option" where
  "sole_driver st n = do {
     u \<leftarrow> nth_opt (pp_count st) n;
     if u \<noteq> 1 then Some None else do { d \<leftarrow> driving_cell (pp_module st) n; Some (map_option snd d) }
   }"

definition fuse_not :: "postpass_ctx \<Rightarrow> cell \<Rightarrow> (cell_kind \<times> net_id list) option option" where
  "fuse_not st c = do {
     inp \<leftarrow> nth_opt (c_inputs c) 0;
     up \<leftarrow> sole_driver st inp;
     Some (case up of None \<Rightarrow> None | Some up \<Rightarrow> map_option (\<lambda>k. (k, c_inputs up)) (not_fused (c_kind up)))
   }"

definition fuse_two :: "postpass_ctx \<Rightarrow> cell \<Rightarrow> (cell_kind \<times> net_id list) option option" where
  "fuse_two st c = (case two_pivot (c_kind c) of None \<Rightarrow> Some None
     | Some (leg_kind, compound) \<Rightarrow> do {
         lhs \<leftarrow> nth_opt (c_inputs c) 0;
         rhs \<leftarrow> nth_opt (c_inputs c) 1;
         arms \<leftarrow> two_arms st lhs rhs;
         (case arms of None \<Rightarrow> Some None
          | Some ((_, l), (_, r)) \<Rightarrow>
              if c_kind l = leg_kind \<and> c_kind r = leg_kind then do {
                l0 \<leftarrow> nth_opt (c_inputs l) 0;
                l1 \<leftarrow> nth_opt (c_inputs l) 1;
                r0 \<leftarrow> nth_opt (c_inputs r) 0;
                r1 \<leftarrow> nth_opt (c_inputs r) 1;
                Some (Some (compound, [l0, l1, r0, r1]))
              } else Some None)
       })"

definition fuse_one :: "postpass_ctx \<Rightarrow> cell \<Rightarrow> nat \<Rightarrow> nat \<Rightarrow> (cell_kind \<times> net_id list) option option" where
  "fuse_one st c pivot other = do {
     up_net \<leftarrow> nth_opt (c_inputs c) pivot;
     up \<leftarrow> sole_driver st up_net;
     (case up of None \<Rightarrow> Some None
      | Some up \<Rightarrow>
          (case one_pivot (c_kind c) (c_kind up) of None \<Rightarrow> Some None
           | Some k \<Rightarrow> do { y \<leftarrow> nth_opt (c_inputs c) other; Some (Some (k, c_inputs up @ [y])) }))
   }"

definition or_else :: "'a option option \<Rightarrow> 'a option option \<Rightarrow> 'a option option" where
  "or_else x y = do { h \<leftarrow> x; (case h of None \<Rightarrow> y | Some r \<Rightarrow> Some (Some r)) }"

definition try_complex_fuse :: "postpass_ctx \<Rightarrow> nat \<Rightarrow> (cell_kind \<times> net_id list) option option" where
  "try_complex_fuse st i = do {
     c \<leftarrow> cell_at (pp_module st) i;
     if c_kind c = Not1 then fuse_not st c
     else if c_kind c \<notin> {And2, Or2, Nand2, Nor2} then Some None
     else or_else (fuse_two st c) (or_else (fuse_one st c 0 1) (fuse_one st c 1 0))
   }"

definition fuse_step :: step where
  "fuse_step i st = do {
     h \<leftarrow> try_complex_fuse st i;
     (case h of None \<Rightarrow> Some (st, False)
      | Some (k, ins) \<Rightarrow> do { st \<leftarrow> rewrite_cell i k ins st; Some (st, True) })
   }"

subsection \<open>The phases in order\<close>

definition complex_gate_replacement :: "gate_module \<Rightarrow> gate_module option" where
  "complex_gate_replacement m = do {
     st \<leftarrow> new_postpass_ctx m;
     st \<leftarrow> sweep_loop (on_mux nest_step) st;
     st \<leftarrow> sweep_loop (on_mux mom_step) st;
     st \<leftarrow> sweep_loop distribute_step st;
     st \<leftarrow> sweep_loop (on_mux factor_step) st;
     st \<leftarrow> collapse_mux_to_primitive st;
     st \<leftarrow> sweep_loop fuse_step st;
     Some (pp_module st)
   }"

end
