(* ===== verification/Postpass_Rules.thy ===== *)
theory Postpass_Rules
  imports Postpass
begin

section \<open>Rewriting one cell, counted readers and sweeps\<close>

text \<open>
  What the phases of the fusion share: a cell may be replaced by an equivalent one that reads
  nothing above it; the consumer counts are the multiset of all reads; the caches name cells
  that are there; and a loop of sweeps ends when every hit makes a measure smaller.
\<close>

subsection \<open>Cycles\<close>

definition dep :: "gate_module \<Rightarrow> (net_id \<times> net_id) set" where
  "dep m = {(x, n). n < length (gm_nets m) \<and> (\<exists>i. driver (gm_nets m ! n) = DCell i \<and> x \<in> set (c_inputs (gm_cells m ! i)))}"

lemma ranked_dep: "ranked r m \<Longrightarrow> (x, n) \<in> dep m \<Longrightarrow> r x < r n"
  by (auto simp: dep_def ranked_def)

lemma ranked_reach:
  assumes "ranked r m" "(a, x) \<in> (dep m)\<^sup>*"
  shows "r a \<le> r x"
  using assms(2) by induction (use ranked_dep [OF assms(1)] in fastforce)+

lemma acyclic_ranked:
  assumes "wf_module m" "acyclic (dep m)"
  shows "\<exists>r. ranked r m"
proof -
  have sub: "dep m \<subseteq> {..<length (gm_nets m)} \<times> {..<length (gm_nets m)}"
    using wf_module_driver [OF assms(1)] wf_module_inputs [OF assms(1)] by (auto simp: dep_def)
  then have fin: "finite ((dep m)\<^sup>+)" by (meson finite_SigmaI finite_lessThan finite_subset finite_trancl)
  define r where "r n = card {y. (y, n) \<in> (dep m)\<^sup>+}" for n
  have "r x < r n" if "(x, n) \<in> dep m" for x n
    unfolding r_def
  proof (rule psubset_card_mono)
    have "{y. (y, n) \<in> (dep m)\<^sup>+} \<subseteq> fst ` (dep m)\<^sup>+" by force
    then show "finite {y. (y, n) \<in> (dep m)\<^sup>+}" using fin by (meson finite_imageI finite_subset)
    have "(x, n) \<in> (dep m)\<^sup>+" "(x, x) \<notin> (dep m)\<^sup>+" using that assms(2) by (auto simp: acyclic_def)
    then show "{y. (y, x) \<in> (dep m)\<^sup>+} \<subset> {y. (y, n) \<in> (dep m)\<^sup>+}" using that by (auto intro: trancl_into_trancl)
  qed
  then have "ranked r m" by (auto simp: ranked_def dep_def)
  then show ?thesis by blast
qed

lemma ranked_acyclic:
  assumes "ranked r m"
  shows "acyclic (dep m)"
proof (rule acyclicI, intro allI notI)
  fix x assume "(x, x) \<in> (dep m)\<^sup>+"
  then obtain y where "(x, y) \<in> (dep m)\<^sup>*" "(y, x) \<in> dep m" by (meson tranclE rtrancl.rtrancl_refl trancl_into_rtrancl)
  then have "r x \<le> r y" "r y < r x" using ranked_reach [OF assms] ranked_dep [OF assms] by blast+
  then show False by simp
qed

lemma acyclic_fan:
  assumes "acyclic D" "finite X" "\<And>x. x \<in> X \<Longrightarrow> (a, x) \<notin> D\<^sup>*"
  shows "acyclic (D \<union> X \<times> {a})"
  using assms(2,1,3)
proof (induction X arbitrary: D rule: finite_induct)
  case (insert x X)
  have "acyclic (insert (x, a) D)" using insert.prems by (simp add: acyclic_insert)
  moreover have "(a, y) \<notin> (insert (x, a) D)\<^sup>*" if "y \<in> X" for y
    using insert.prems(2) [of x] insert.prems(2) [of y] that by (auto simp: rtrancl_insert)
  ultimately have "acyclic (insert (x, a) D \<union> X \<times> {a})" by (rule insert.IH)
  moreover have "D \<union> insert x X \<times> {a} = insert (x, a) D \<union> X \<times> {a}" by auto
  ultimately show ?case by (simp only:)
qed simp

text \<open>What is not above a net: what has a lower rank, and gates over such nets.\<close>

lemma lower_clear: "ranked r m \<Longrightarrow> r x < r a \<Longrightarrow> (a, x) \<notin> (dep m)\<^sup>*"
  using ranked_reach [of r m a x] by linarith

definition drives :: "gate_module \<Rightarrow> net_id \<Rightarrow> cell_kind \<Rightarrow> net_id list \<Rightarrow> bool" where
  "drives m n k ins \<longleftrightarrow> n < length (gm_nets m) \<and>
     (\<exists>i < length (gm_cells m). driver (gm_nets m ! n) = DCell i \<and> gm_cells m ! i = \<lparr>c_kind = k, c_inputs = ins, c_output = n\<rparr>)"

lemma gate_clear:
  assumes "drives m n k ins" "n \<noteq> a" "\<And>x. x \<in> set ins \<Longrightarrow> (a, x) \<notin> (dep m)\<^sup>*"
  shows "(a, n) \<notin> (dep m)\<^sup>*"
proof
  assume "(a, n) \<in> (dep m)\<^sup>*"
  then obtain y where y: "(a, y) \<in> (dep m)\<^sup>*" "(y, n) \<in> dep m" using assms(2) by (auto elim: rtranclE)
  then have "y \<in> set ins" using assms(1) by (auto simp: dep_def drives_def)
  then show False using assms(3) y(1) by blast
qed

lemma drives_value: "drives m n k ins \<Longrightarrow> msat v m \<Longrightarrow> v n = cell_fn k (map v ins)"
  unfolding drives_def using msat_holds by (fastforce simp: holds_def)

subsection \<open>Replacing one cell\<close>

definition upd :: "gate_module \<Rightarrow> nat \<Rightarrow> cell_kind \<Rightarrow> net_id list \<Rightarrow> gate_module" where
  "upd m i k ins = m\<lparr>gm_cells := (gm_cells m)[i := (gm_cells m ! i)\<lparr>c_kind := k, c_inputs := ins\<rparr>]\<rparr>"

lemma upd_simps [simp]:
  "gm_nets (upd m i k ins) = gm_nets m" "length (gm_cells (upd m i k ins)) = length (gm_cells m)"
  "same_pins m (upd m i k ins)" "sinks (upd m i k ins) = sinks m" "consts_hold v (upd m i k ins) = consts_hold v m"
  by (simp_all add: upd_def same_pins_def sinks_def ram_inputs_def consts_hold_def)

lemma upd_cell:
  "i < length (gm_cells m) \<Longrightarrow> gm_cells (upd m i k ins) ! j =
    (if j = i then \<lparr>c_kind = k, c_inputs = ins, c_output = c_output (gm_cells m ! i)\<rparr> else gm_cells m ! j)"
  by (simp add: upd_def nth_list_update)

lemma upd_output: "i < length (gm_cells m) \<Longrightarrow> c_output (gm_cells (upd m i k ins) ! j) = c_output (gm_cells m ! j)"
  by (simp add: upd_cell)

lemma upd_wf:
  "wf_module m \<Longrightarrow> i < length (gm_cells m) \<Longrightarrow> length ins = arity k \<Longrightarrow> (\<And>x. x \<in> set ins \<Longrightarrow> x < length (gm_nets m)) \<Longrightarrow>
    wf_module (upd m i k ins)"
  unfolding upd_def by (rule wf_relink_cell)

lemma upd_single_driver: "single_driver m \<Longrightarrow> i < length (gm_cells m) \<Longrightarrow> single_driver (upd m i k ins)"
  by (simp add: single_driver_def upd_output)

lemma upd_ranked:
  assumes wf: "wf_module m" and i: "i < length (gm_cells m)" and ins: "length ins = arity k" "\<And>x. x \<in> set ins \<Longrightarrow> x < length (gm_nets m)"
    and r: "ranked r m" and clear: "\<And>x. x \<in> set ins \<Longrightarrow> (c_output (gm_cells m ! i), x) \<notin> (dep m)\<^sup>*"
  shows "\<exists>r'. ranked r' (upd m i k ins)"
proof (rule acyclic_ranked [OF upd_wf [OF wf i ins]])
  let ?a = "c_output (gm_cells m ! i)"
  have "dep (upd m i k ins) \<subseteq> dep m \<union> set ins \<times> {?a}"
  proof
    fix p assume "p \<in> dep (upd m i k ins)"
    then obtain x n j where p: "p = (x, n)" "n < length (gm_nets m)" "driver (gm_nets m ! n) = DCell j"
      "x \<in> set (c_inputs (gm_cells (upd m i k ins) ! j))" by (auto simp: dep_def)
    show "p \<in> dep m \<union> set ins \<times> {?a}"
    proof (cases "j = i")
      case True
      then show ?thesis using p wf_module_driver [OF wf p(2)] i by (simp add: upd_cell)
    next
      case False
      then show ?thesis using p i by (auto simp: upd_cell dep_def)
    qed
  qed
  moreover have "acyclic (dep m \<union> set ins \<times> {?a})" using acyclic_fan [OF ranked_acyclic [OF r] _ clear] by simp
  ultimately show "acyclic (dep (upd m i k ins))" by (rule acyclic_subset [rotated])
qed

lemma msat_parts: "msat v m \<longleftrightarrow> consts_hold v m \<and> (\<forall>j < length (gm_cells m). holds v (gm_cells m ! j))"
  by (auto simp: msat_by_index consts_hold_def)

lemma upd_rebuilt:
  assumes wf: "wf_module m" and i: "i < length (gm_cells m)" and ins: "length ins = arity k" "\<And>x. x \<in> set ins \<Longrightarrow> x < length (gm_nets m)"
    and same: "\<And>v. consts_hold v m \<Longrightarrow> (\<And>j. j < length (gm_cells m) \<Longrightarrow> j \<noteq> i \<Longrightarrow> holds v (gm_cells m ! j)) \<Longrightarrow>
      cell_fn k (map v ins) = cell_fn (c_kind (gm_cells m ! i)) (map v (c_inputs (gm_cells m ! i)))"
    and clear: "\<And>x. x \<in> set ins \<Longrightarrow> (c_output (gm_cells m ! i), x) \<notin> (dep m)\<^sup>*"
  shows "rebuilt m (upd m i k ins)"
proof -
  have "holds v (gm_cells (upd m i k ins) ! i) = holds v (gm_cells m ! i)"
    if "consts_hold v m" "\<And>j. j < length (gm_cells m) \<Longrightarrow> j \<noteq> i \<Longrightarrow> holds v (gm_cells m ! j)" for v
    using same [OF that(1)] that(2) i by (simp add: holds_def upd_cell)
  then have sat: "msat v (upd m i k ins) = msat v m" for v
    using i by (auto simp: msat_parts upd_cell)
  have "\<exists>r'. ranked r' (upd m i k ins)" if "\<exists>r. ranked r m"
    using that upd_ranked [OF wf i ins _ clear] by blast
  then show ?thesis using sat upd_single_driver [OF _ i] unfolding rebuilt_def by auto
qed

lemma drives_upd:
  assumes "drives m n k' ins'" "i < length (gm_cells m)" "c_kind (gm_cells m ! i) \<noteq> k'"
  shows "drives (upd m i k ins) n k' ins'"
proof -
  obtain j where j: "j < length (gm_cells m)" "driver (gm_nets m ! n) = DCell j" "gm_cells m ! j = \<lparr>c_kind = k', c_inputs = ins', c_output = n\<rparr>"
    using assms(1) by (auto simp: drives_def)
  then have "j \<noteq> i" using assms(3) by auto
  then show ?thesis using assms(1,2) j unfolding drives_def by (auto simp: upd_cell)
qed

lemma drives_gated:
  assumes "drives m n k ins" "gated m m' cs"
  shows "drives m' n k ins"
  using assms gated_old [OF assms(2)] gated_nets(1) [OF assms(2)] by (auto simp: drives_def gated_def nth_append)

subsection \<open>The consumer counts\<close>

definition reads_of :: "gate_module \<Rightarrow> net_id multiset" where
  "reads_of m = mset (concat (map c_inputs (gm_cells m))) + mset (sinks m)"

definition tally :: "nat \<Rightarrow> net_id multiset \<Rightarrow> nat list \<Rightarrow> bool" where
  "tally k M cs \<longleftrightarrow> length cs = k \<and> (\<forall>n < k. cs ! n = count M n)"

lemma tally_up:
  assumes "tally k M cs" "n < k"
  shows "\<exists>cs'. count_up n cs = Some cs' \<and> tally k (add_mset n M) cs'"
  using assms by (auto simp: tally_def count_up_def nth_list_update)

lemma tally_down:
  assumes "tally k M cs" "n < k" "n \<in># M"
  shows "\<exists>cs'. count_down n cs = Some cs' \<and> tally k (M - {#n#}) cs'"
  using assms by (auto simp: tally_def count_down_def nth_list_update)

lemma tally_ups:
  assumes "tally k M cs" "\<And>n. n \<in> set ns \<Longrightarrow> n < k"
  shows "\<exists>cs'. fold_opt count_up ns cs = Some cs' \<and> tally k (M + mset ns) cs'"
  using assms
proof (induction ns arbitrary: M cs)
  case (Cons n ns)
  obtain c1 where "count_up n cs = Some c1" "tally k (add_mset n M) c1" using tally_up [OF Cons.prems(1)] Cons.prems(2) by auto
  with Cons.IH [of "add_mset n M" c1] Cons.prems(2) show ?case by auto
qed auto

lemma tally_downs:
  assumes "tally k M cs" "\<And>n. n \<in> set ns \<Longrightarrow> n < k" "mset ns \<subseteq># M"
  shows "\<exists>cs'. fold_opt count_down ns cs = Some cs' \<and> tally k (M - mset ns) cs'"
  using assms
proof (induction ns arbitrary: M cs)
  case (Cons n ns)
  have n: "n \<in># M" using mset_subset_eqD [OF Cons.prems(3), of n] by simp
  obtain c1 where c1: "count_down n cs = Some c1" "tally k (M - {#n#}) c1" using tally_down [OF Cons.prems(1) _ n] Cons.prems(2) by auto
  have "mset ns \<subseteq># M - {#n#}" using Cons.prems(3) n by (simp add: insert_subset_eq_iff)
  from Cons.IH [OF c1(2) _ this] Cons.prems(2) c1(1) show ?case by auto
qed auto

lemma concat_update:
  assumes "i < length xs"
  shows "mset (f (xs ! i)) \<subseteq># mset (concat (map f xs))"
    "mset (concat (map f (xs[i := y]))) = mset (concat (map f xs)) - mset (f (xs ! i)) + mset (f y)"
proof -
  have "xs = take i xs @ xs ! i # drop (Suc i) xs" using assms by (rule id_take_nth_drop)
  then have xs: "mset (concat (map f xs)) = mset (concat (map f (take i xs))) + mset (f (xs ! i)) + mset (concat (map f (drop (Suc i) xs)))"
    by (metis (no_types, lifting) append.assoc concat_append concat.simps(2) list.simps(9) map_append mset_append)
  then show "mset (f (xs ! i)) \<subseteq># mset (concat (map f xs))" by simp
  show "mset (concat (map f (xs[i := y]))) = mset (concat (map f xs)) - mset (f (xs ! i)) + mset (f y)"
    using assms by (simp add: upd_conv_take_nth_drop xs)
qed

lemma reads_of_upd:
  assumes "i < length (gm_cells m)"
  shows "mset (c_inputs (gm_cells m ! i)) \<subseteq># reads_of m"
    "reads_of (upd m i k ins) = reads_of m - mset (c_inputs (gm_cells m ! i)) + mset ins"
proof -
  note c = concat_update [OF assms, where f = c_inputs]
  obtain R where R: "mset (concat (map c_inputs (gm_cells m))) = mset (c_inputs (gm_cells m ! i)) + R"
    using c(1) by (auto simp: mset_subset_eq_exists_conv)
  show "mset (c_inputs (gm_cells m ! i)) \<subseteq># reads_of m" by (simp add: reads_of_def R)
  have "gm_cells (upd m i k ins) = (gm_cells m)[i := (gm_cells m ! i)\<lparr>c_kind := k, c_inputs := ins\<rparr>]" by (simp add: upd_def)
  then show "reads_of (upd m i k ins) = reads_of m - mset (c_inputs (gm_cells m ! i)) + mset ins"
    using c(2) by (simp add: reads_of_def R)
qed

lemma reads_of_range:
  assumes "wf_module m" "n \<in># reads_of m"
  shows "n < length (gm_nets m)"
  using assms by (auto simp: reads_of_def wf_module_def module_cell_wf_def)

text \<open>A net that is read once is read by one cell in one place.\<close>

lemma read_once:
  assumes "count (reads_of m) n = 1" "i < length (gm_cells m)" "n \<in> set (c_inputs (gm_cells m ! i))"
  shows "count_list (c_inputs (gm_cells m ! i)) n = 1" "n \<notin> set (sinks m)"
    "\<And>j. j < length (gm_cells m) \<Longrightarrow> j \<noteq> i \<Longrightarrow> n \<notin> set (c_inputs (gm_cells m ! j))"
proof -
  let ?c = "\<lambda>j. count (mset (c_inputs (gm_cells m ! j))) n"
  have cells: "count (mset (concat (map c_inputs xs))) n = sum_list (map (\<lambda>c. count (mset (c_inputs c)) n) xs)" for xs
    by (induction xs) simp_all
  have one: "1 = (\<Sum>j < length (gm_cells m). ?c j) + count (mset (sinks m)) n"
    using assms(1) by (simp add: reads_of_def cells sum_list_sum_nth atLeast0LessThan)
  have i: "1 \<le> ?c i" using assms(3) by (simp add: Suc_le_eq count_mset_gt_0)
  have "?c i \<le> (\<Sum>j < length (gm_cells m). ?c j)" using assms(2) by (intro member_le_sum) simp_all
  with i one have eq: "?c i = 1" "count (mset (sinks m)) n = 0" "(\<Sum>j < length (gm_cells m). ?c j) = 1" by linarith+
  show "count_list (c_inputs (gm_cells m ! i)) n = 1" using eq(1) by (simp add: count_mset)
  show "n \<notin> set (sinks m)" using eq(2) by (simp add: count_mset_0_iff)
  show "n \<notin> set (c_inputs (gm_cells m ! j))" if "j < length (gm_cells m)" "j \<noteq> i" for j
  proof -
    have "?c i + ?c j = (\<Sum>j \<in> {i, j}. ?c j)" using that(2) by simp
    also have "\<dots> \<le> (\<Sum>j < length (gm_cells m). ?c j)" using assms(2) that(1) by (intro sum_mono2) auto
    finally have "?c j = 0" using eq by linarith
    then show ?thesis by (simp add: count_mset_0_iff)
  qed
qed

subsection \<open>The context\<close>

definition tidy :: "postpass_ctx \<Rightarrow> bool" where
  "tidy st \<longleftrightarrow> wf_module (pp_module st) \<and> single_driver (pp_module st) \<and> (\<exists>r. ranked r (pp_module st))
     \<and> tally (length (gm_nets (pp_module st))) (reads_of (pp_module st)) (pp_count st)"

definition nots_ok :: "postpass_ctx \<Rightarrow> bool" where
  "nots_ok st \<longleftrightarrow> (\<forall>s n. pp_not st s = Some n \<longrightarrow> drives (pp_module st) n Not1 [s])"

definition bins_ok :: "postpass_ctx \<Rightarrow> bool" where
  "bins_ok st \<longleftrightarrow> (\<forall>a b n. (pp_or st (a, b) = Some n \<longrightarrow> drives (pp_module st) n Or2 [a, b])
     \<and> (pp_and st (a, b) = Some n \<longrightarrow> drives (pp_module st) n And2 [a, b]))"

text \<open>The context grew by cells of the kinds \<open>K\<close> on nets of their own that read \<open>E\<close>; the caches may have grown.\<close>

definition grew :: "cell_kind set \<Rightarrow> net_id multiset \<Rightarrow> postpass_ctx \<Rightarrow> postpass_ctx \<Rightarrow> bool" where
  "grew K E st st' \<longleftrightarrow> tidy st' \<and> rebuilt (pp_module st) (pp_module st') \<and> reads_of (pp_module st') = reads_of (pp_module st) + E
     \<and> (\<exists>cs. gated (pp_module st) (pp_module st') cs \<and> (\<forall>c \<in> set cs. c_kind c \<in> K))"

lemma gated_rebuilt:
  assumes "wf_module m" "gated m m' cs"
  shows "rebuilt m m'"
proof -
  have "relinked m m' m' cs {}" using assms(2) by (simp add: relinked_def same_pins_def gated_def)
  then show ?thesis by (rule relinked_rebuilt) (use assms in simp_all)
qed

lemma emit_cell_spec:
  assumes st: "tidy st" and k: "arity k = length ins"
    and ins: "\<And>x. x \<in> set ins \<Longrightarrow> x < length (gm_nets (pp_module st))"
  shows "\<exists>net st'. emit_cell k ins st = Some (net, st') \<and> grew {k} (mset ins) st st' \<and> drives (pp_module st') net k ins
    \<and> net = length (gm_nets (pp_module st))
    \<and> pp_not st' = pp_not st \<and> pp_or st' = pp_or st \<and> pp_and st' = pp_and st"
proof -
  let ?m = "pp_module st"
  have wf: "wf_module ?m" and tl: "tally (length (gm_nets ?m)) (reads_of ?m) (pp_count st)" using st by (simp_all add: tidy_def)
  obtain net m' where p: "push_gate k ins ?m = (net, m')" by (cases "push_gate k ins ?m")
  have g: "gated ?m m' [\<lparr>c_kind = k, c_inputs = ins, c_output = net\<rparr>]" "net = length (gm_nets ?m)"
    using push_gate_gated [OF wf k ins p] by blast+
  have new: "\<not> length (gm_nets ?m) \<in># reads_of ?m" using reads_of_range [OF wf] by blast
  have "tally (Suc (length (gm_nets ?m))) (reads_of ?m) (pp_count st @ [0])"
    using tl new by (auto simp: tally_def nth_append less_Suc_eq count_eq_zero_iff)
  from tally_ups [OF this, of ins] ins obtain cs where cs: "fold_opt count_up ins (pp_count st @ [0]) = Some cs"
    "tally (Suc (length (gm_nets ?m))) (reads_of ?m + mset ins) cs" using less_SucI by blast
  have m': "gm_cells m' = gm_cells ?m @ [\<lparr>c_kind = k, c_inputs = ins, c_output = net\<rparr>]" "length (gm_nets m') = Suc (length (gm_nets ?m))"
    "sinks m' = sinks ?m" using g(1) gated_nets(2) [OF g(1)] by (auto simp: gated_def same_pins_def sinks_def ram_inputs_def)
  have rd: "reads_of m' = reads_of ?m + mset ins" by (simp add: reads_of_def m')
  have reb: "rebuilt ?m m'" by (rule gated_rebuilt [OF wf g(1)])
  have "driver (gm_nets m' ! net) = DCell (length (gm_cells ?m))" using gated_new(1) [OF g(1), of 0] g(2) by simp
  then have dr: "drives m' net k ins" using m'(1,2) g(2) unfolding drives_def by (intro conjI exI [of _ "length (gm_cells ?m)"]) simp_all
  have "tidy (st\<lparr>pp_module := m', pp_count := cs\<rparr>)"
    using st reb gated_wf [OF g(1)] cs(2) m'(2) rd unfolding tidy_def rebuilt_def by simp
  then have "grew {k} (mset ins) st (st\<lparr>pp_module := m', pp_count := cs\<rparr>)" using reb g(1) rd unfolding grew_def by (auto intro!: exI [of _ "[\<lparr>c_kind = k, c_inputs = ins, c_output = net\<rparr>]"])
  then show ?thesis using p cs(1) dr g(2) rd by (simp add: emit_cell_def)
qed

lemma grew_refl: "tidy st \<Longrightarrow> grew K {#} st st"
  unfolding grew_def using rebuilt_refl gated_refl [of "pp_module st"] by (auto simp: tidy_def intro!: exI [of _ "[]"])

lemma grew_trans:
  assumes "grew K E a b" "grew L F b c"
  shows "grew (K \<union> L) (E + F) a c"
proof -
  obtain cs ds where "gated (pp_module a) (pp_module b) cs" "\<forall>c \<in> set cs. c_kind c \<in> K"
    "gated (pp_module b) (pp_module c) ds" "\<forall>c \<in> set ds. c_kind c \<in> L" using assms unfolding grew_def by blast
  then have g: "gated (pp_module a) (pp_module c) (cs @ ds)" "\<forall>c \<in> set (cs @ ds). c_kind c \<in> K \<union> L"
    using gated_trans by auto
  have "rebuilt (pp_module a) (pp_module c)" using assms rebuilt_trans unfolding grew_def by blast
  moreover have "tidy c" "reads_of (pp_module c) = reads_of (pp_module a) + (E + F)" using assms by (simp_all add: grew_def)
  ultimately show ?thesis unfolding grew_def using g by (intro conjI exI [of _ "cs @ ds"])
qed

lemma grew_caches: "grew K E st st1 \<Longrightarrow> pp_module st2 = pp_module st1 \<Longrightarrow> pp_count st2 = pp_count st1 \<Longrightarrow> grew K E st st2"
  unfolding grew_def tidy_def by metis

lemma grew_drives: "grew K E st st' \<Longrightarrow> drives (pp_module st) n k ins \<Longrightarrow> drives (pp_module st') n k ins"
  unfolding grew_def using drives_gated by blast

lemma rewrite_cell_spec:
  assumes wf: "wf_module (pp_module st)" and tl: "tally (length (gm_nets (pp_module st))) (reads_of (pp_module st)) (pp_count st)"
    and i: "i < length (gm_cells (pp_module st))" and ins: "\<And>x. x \<in> set ins \<Longrightarrow> x < length (gm_nets (pp_module st))"
  shows "\<exists>st'. rewrite_cell i k ins st = Some st' \<and> pp_module st' = upd (pp_module st) i k ins
    \<and> tally (length (gm_nets (pp_module st))) (reads_of (upd (pp_module st) i k ins)) (pp_count st')
    \<and> pp_not st' = pp_not st \<and> pp_or st' = pp_or st \<and> pp_and st' = pp_and st"
proof -
  let ?m = "pp_module st" and ?old = "c_inputs (gm_cells (pp_module st) ! i)"
  have old: "\<And>x. x \<in> set ?old \<Longrightarrow> x < length (gm_nets ?m)" using wf_module_inputs [OF wf i] .
  obtain c1 where c1: "fold_opt count_down ?old (pp_count st) = Some c1" "tally (length (gm_nets ?m)) (reads_of ?m - mset ?old) c1"
    using tally_downs [OF tl old reads_of_upd(1) [OF i]] by blast
  obtain c2 where c2: "fold_opt count_up ins c1 = Some c2" "tally (length (gm_nets ?m)) (reads_of ?m - mset ?old + mset ins) c2"
    using tally_ups [OF c1(2) ins] by blast
  show ?thesis using i c1(1) c2 by (simp add: rewrite_cell_def cell_at_def upd_def [symmetric] reads_of_upd(2) [OF i])
qed

text \<open>An equivalent cell that reads nothing above it.\<close>

lemma rewrite_spec:
  assumes st: "tidy st" and i: "i < length (gm_cells (pp_module st))"
    and ins: "length ins = arity k" "\<And>x. x \<in> set ins \<Longrightarrow> x < length (gm_nets (pp_module st))"
    and same: "\<And>v. consts_hold v (pp_module st) \<Longrightarrow> (\<And>j. j < length (gm_cells (pp_module st)) \<Longrightarrow> j \<noteq> i \<Longrightarrow> holds v (gm_cells (pp_module st) ! j)) \<Longrightarrow>
      cell_fn k (map v ins) = cell_fn (c_kind (gm_cells (pp_module st) ! i)) (map v (c_inputs (gm_cells (pp_module st) ! i)))"
    and clear: "\<And>x. x \<in> set ins \<Longrightarrow> (c_output (gm_cells (pp_module st) ! i), x) \<notin> (dep (pp_module st))\<^sup>*"
  shows "\<exists>st'. rewrite_cell i k ins st = Some st' \<and> tidy st' \<and> rebuilt (pp_module st) (pp_module st') \<and> pp_module st' = upd (pp_module st) i k ins
    \<and> pp_not st' = pp_not st \<and> pp_or st' = pp_or st \<and> pp_and st' = pp_and st"
proof -
  have m: "wf_module (pp_module st)" "single_driver (pp_module st)" "\<exists>r. ranked r (pp_module st)"
    "tally (length (gm_nets (pp_module st))) (reads_of (pp_module st)) (pp_count st)" using st by (simp_all add: tidy_def)
  obtain st' where st': "rewrite_cell i k ins st = Some st'" "pp_module st' = upd (pp_module st) i k ins"
    "tally (length (gm_nets (pp_module st))) (reads_of (upd (pp_module st) i k ins)) (pp_count st')"
    "pp_not st' = pp_not st \<and> pp_or st' = pp_or st \<and> pp_and st' = pp_and st"
    using rewrite_cell_spec [OF m(1,4) i ins(2), where k = k] by blast
  have reb: "rebuilt (pp_module st) (upd (pp_module st) i k ins)" by (rule upd_rebuilt [OF m(1) i ins same clear])
  have "tidy st'" using st'(2,3) reb m(2,3) upd_wf [OF m(1) i ins] unfolding tidy_def rebuilt_def by simp
  then show ?thesis using st' reb by simp
qed

lemma nots_ok_upd:
  assumes "nots_ok st" "i < length (gm_cells (pp_module st))" "c_kind (gm_cells (pp_module st) ! i) \<noteq> Not1"
    "pp_module st' = upd (pp_module st) i k ins" "pp_not st' = pp_not st"
  shows "nots_ok st'"
  using assms drives_upd [OF _ assms(2), where k' = Not1] by (simp add: nots_ok_def)

lemma bins_ok_upd:
  assumes "bins_ok st" "i < length (gm_cells (pp_module st))" "c_kind (gm_cells (pp_module st) ! i) \<notin> {And2, Or2}"
    "pp_module st' = upd (pp_module st) i k ins" "pp_or st' = pp_or st" "pp_and st' = pp_and st"
  shows "bins_ok st'"
  using assms drives_upd [OF _ assms(2), where k' = Or2] drives_upd [OF _ assms(2), where k' = And2] by (simp add: bins_ok_def)

lemma materialize_not_spec:
  assumes st: "tidy st" "nots_ok st" "src < length (gm_nets (pp_module st))"
  shows "\<exists>net st'. materialize_not src st = Some (net, st') \<and> nots_ok st' \<and> drives (pp_module st') net Not1 [src]
    \<and> (\<exists>E. grew {Not1} E st st' \<and> set_mset E \<subseteq> {src}) \<and> (bins_ok st \<longrightarrow> bins_ok st')"
proof (cases "pp_not st src")
  case None
  obtain net st1 where 1: "emit_cell Not1 [src] st = Some (net, st1)" "grew {Not1} (mset [src]) st st1" "drives (pp_module st1) net Not1 [src]"
    "pp_not st1 = pp_not st" "pp_or st1 = pp_or st" "pp_and st1 = pp_and st"
    using emit_cell_spec [OF st(1), of Not1 "[src]"] st(3) by auto
  let ?st = "st1\<lparr>pp_not := (pp_not st1)(src \<mapsto> net)\<rparr>"
  have "nots_ok ?st" using st(2) grew_drives [OF 1(2)] 1(3,4) by (simp add: nots_ok_def)
  moreover have "grew {Not1} (mset [src]) st ?st" by (rule grew_caches [OF 1(2)]) simp_all
  moreover have "bins_ok ?st" if "bins_ok st" using that grew_drives [OF 1(2)] 1(5,6) by (simp add: bins_ok_def)
  ultimately show ?thesis using None 1(1,3) by (intro exI [of _ net] exI [of _ ?st]) (auto simp: materialize_not_def)
next
  case (Some net)
  then show ?thesis using st grew_refl [OF st(1)] by (intro exI [of _ net] exI [of _ st] conjI exI [of _ "{#}"]) (auto simp: materialize_not_def nots_ok_def)
qed

lemma materialize_binop_spec:
  assumes st: "tidy st" "bins_ok st" "k = Or2 \<or> k = And2" "a < length (gm_nets (pp_module st))" "b < length (gm_nets (pp_module st))"
  shows "\<exists>net st'. materialize_binop k a b st = Some (net, st') \<and> bins_ok st' \<and> drives (pp_module st') net k [min a b, max a b]
    \<and> (\<exists>E. grew {k} E st st' \<and> set_mset E \<subseteq> {a, b}) \<and> (nots_ok st \<longrightarrow> nots_ok st')"
proof -
  have key: "(if a \<le> b then (a, b) else (b, a)) = (min a b, max a b)" by (simp add: min_def max_def)
  let ?hit = "if k = Or2 then pp_or st (min a b, max a b) else pp_and st (min a b, max a b)"
  show ?thesis
  proof (cases ?hit)
    case None
    have ar: "arity k = length [min a b, max a b]" using st(3) by auto
    have inside: "x < length (gm_nets (pp_module st))" if "x \<in> set [min a b, max a b]" for x using that st(4,5) by (auto simp: min_def max_def split: if_splits)
    obtain net st1 where 1: "emit_cell k [min a b, max a b] st = Some (net, st1)" "grew {k} (mset [min a b, max a b]) st st1" "drives (pp_module st1) net k [min a b, max a b]"
      "pp_not st1 = pp_not st" "pp_or st1 = pp_or st" "pp_and st1 = pp_and st"
      using emit_cell_spec [OF st(1) ar inside] by blast
    let ?st = "if k = Or2 then st1\<lparr>pp_or := (pp_or st1)((min a b, max a b) \<mapsto> net)\<rparr> else st1\<lparr>pp_and := (pp_and st1)((min a b, max a b) \<mapsto> net)\<rparr>"
    have "bins_ok ?st" using st(2,3) grew_drives [OF 1(2)] 1(3,5,6) by (auto simp: bins_ok_def)
    moreover have "grew {k} (mset [min a b, max a b]) st ?st" by (rule grew_caches [OF 1(2)]) simp_all
    moreover have "nots_ok ?st" if "nots_ok st" using that grew_drives [OF 1(2)] 1(4) by (simp add: nots_ok_def)
    moreover have "materialize_binop k a b st = Some (net, ?st)" using None st(3) 1(1) by (auto simp: materialize_binop_def key)
    moreover have "set_mset (mset [min a b, max a b]) \<subseteq> {a, b}" by (auto simp: min_def max_def)
    moreover have "drives (pp_module ?st) net k [min a b, max a b]" using 1(3) by auto
    ultimately show ?thesis by blast
  next
    case (Some net)
    then have "drives (pp_module st) net k [min a b, max a b]" using st(2,3) by (auto simp: bins_ok_def split: if_splits)
    moreover have "materialize_binop k a b st = Some (net, st)" using Some st(3) by (auto simp: materialize_binop_def key)
    ultimately show ?thesis using st(2) grew_refl [OF st(1)] by (intro exI [of _ net] exI [of _ st] conjI exI [of _ "{#}"]) auto
  qed
qed

subsection \<open>Loops of sweeps\<close>

locale sweep_phase =
  fixes step :: step and inv :: "postpass_ctx \<Rightarrow> bool" and rel :: "gate_module \<Rightarrow> gate_module \<Rightarrow> bool"
    and measure_of :: "postpass_ctx \<Rightarrow> nat"
  assumes step_ok: "inv st \<Longrightarrow> i < length (gm_cells (pp_module st)) \<Longrightarrow>
      \<exists>st' hit. step i st = Some (st', hit) \<and> inv st' \<and> rel (pp_module st) (pp_module st')
        \<and> length (gm_cells (pp_module st)) \<le> length (gm_cells (pp_module st')) \<and> (if hit then measure_of st' < measure_of st else st' = st)"
    and rel_refl: "inv st \<Longrightarrow> rel (pp_module st) (pp_module st)"
    and rel_trans: "inv st \<Longrightarrow> rel (pp_module st) b \<Longrightarrow> rel b c \<Longrightarrow> rel (pp_module st) c"
begin

lemma sweep_ok:
  assumes "inv st"
  shows "\<exists>st' ch. sweep step st = Some (st', ch) \<and> inv st' \<and> rel (pp_module st) (pp_module st') \<and> (if ch then measure_of st' < measure_of st else st' = st)"
proof -
  let ?n = "length (gm_cells (pp_module st))"
  let ?P = "\<lambda>s. inv (fst s) \<and> rel (pp_module st) (pp_module (fst s)) \<and> ?n \<le> length (gm_cells (pp_module (fst s)))
    \<and> (if snd s then measure_of (fst s) < measure_of st else fst s = st)"
  have "\<exists>s'. (\<lambda>i (st, changed). do { (st, hit) \<leftarrow> step i st; Some (st, changed \<or> hit) }) i s = Some s' \<and> ?P s'"
    if i: "i \<in> set [0..<?n]" and s: "?P s" for i s
  proof -
    have "i < length (gm_cells (pp_module (fst s)))" using i s by simp
    with step_ok [of "fst s" i] s obtain st' hit where st': "step i (fst s) = Some (st', hit)" "inv st'" "rel (pp_module (fst s)) (pp_module st')"
      "length (gm_cells (pp_module (fst s))) \<le> length (gm_cells (pp_module st'))" "if hit then measure_of st' < measure_of (fst s) else st' = fst s" by blast
    have "rel (pp_module st) (pp_module st')" using rel_trans [OF assms] s st'(3) by blast
    moreover have "if snd s \<or> hit then measure_of st' < measure_of st else st' = st" using s st'(5) by (auto split: if_splits)
    moreover have "?n \<le> length (gm_cells (pp_module st'))" using s st'(4) by linarith
    ultimately have P: "?P (st', snd s \<or> hit)" using st'(2) by simp
    have f: "(\<lambda>i (st, changed). do { (st, hit) \<leftarrow> step i st; Some (st, changed \<or> hit) }) i s = Some (st', snd s \<or> hit)"
      using st'(1) by (simp add: case_prod_beta)
    show ?thesis by (rule exI [of _ "(st', snd s \<or> hit)"], rule conjI [OF f P])
  qed
  then have "\<exists>s'. fold_opt (\<lambda>i (st, changed). do { (st, hit) \<leftarrow> step i st; Some (st, changed \<or> hit) }) [0..<?n] (st, False) = Some s' \<and> ?P s'"
  proof (rule fold_opt_invariant)
    show "?P (st, False)" using assms rel_refl [OF assms] by simp
  qed
  then obtain s' where s': "sweep step st = Some s' \<and> ?P s'" unfolding sweep_def by (rule exE)
  show ?thesis by (rule exI [of _ "fst s'"], rule exI [of _ "snd s'"]) (use s' in simp)
qed

lemma loop_ok:
  assumes "inv st"
  shows "\<exists>st'. sweep_loop step st = Some st' \<and> inv st' \<and> rel (pp_module st) (pp_module st') \<and> sweep step st' = Some (st', False)"
  using assms
proof (induction "measure_of st" arbitrary: st rule: less_induct)
  case less
  obtain s1 ch where 1: "sweep step st = Some (s1, ch)" "inv s1" "rel (pp_module st) (pp_module s1)"
    "if ch then measure_of s1 < measure_of st else s1 = st" using sweep_ok [OF less.prems] by blast
  show ?case
  proof (cases ch)
    case True
    then obtain st' where "sweep_loop step s1 = Some st'" "inv st'" "rel (pp_module s1) (pp_module st')" "sweep step st' = Some (st', False)"
      using less.hyps [of s1] 1(2,4) by auto
    then show ?thesis using 1(1) True rel_trans [OF less.prems 1(3)] by (simp add: sweep_loop.simps [of step st])
  next
    case False
    then show ?thesis using 1 by (simp add: sweep_loop.simps [of step st])
  qed
qed

end

text \<open>A step on a Mux2 cell.\<close>

lemma on_mux_cases:
  assumes "wf_module (pp_module st)" "i < length (gm_cells (pp_module st))"
  obtains "on_mux f i st = Some (st, False)"
  | s d0 d1 where "gm_cells (pp_module st) ! i = \<lparr>c_kind = Mux2, c_inputs = [s, d0, d1], c_output = c_output (gm_cells (pp_module st) ! i)\<rparr>"
      "on_mux f i st = f i s d0 d1 st" "s < length (gm_nets (pp_module st))" "d0 < length (gm_nets (pp_module st))" "d1 < length (gm_nets (pp_module st))"
proof (cases "c_kind (gm_cells (pp_module st) ! i) = Mux2")
  case True
  then have "length (c_inputs (gm_cells (pp_module st) ! i)) = 3" using wf_module_arity [OF assms] by simp
  then obtain s d0 d1 where ins: "c_inputs (gm_cells (pp_module st) ! i) = [s, d0, d1]" by (auto simp: length_3_conv)
  show ?thesis
  proof (rule that(2))
    show "gm_cells (pp_module st) ! i = \<lparr>c_kind = Mux2, c_inputs = [s, d0, d1], c_output = c_output (gm_cells (pp_module st) ! i)\<rparr>"
      using True ins by simp
    show "on_mux f i st = f i s d0 d1 st" using True ins assms(2) by (simp add: on_mux_def cell_at_def)
  qed (use wf_module_inputs [OF assms] ins in auto)
next
  case False
  then show ?thesis using that(1) assms(2) by (simp add: on_mux_def cell_at_def)
qed

end
