(* ===== verification/Postpass_Muxes.thy ===== *)
theory Postpass_Muxes
  imports Postpass_Rules
begin

section \<open>The phases on multiplexers\<close>

text \<open>
  Nested multiplexers on one select, multiplexers that share a data input, and multiplexers
  with constant or mirrored data inputs: each phase returns, keeps the context consistent and
  only rebuilds the module.
\<close>

subsection \<open>Looking at drivers\<close>

lemma driving_cell_cases:
  assumes "wf_module m" "n < length (gm_nets m)"
  obtains "driving_cell m n = Some None"
  | i where "driving_cell m n = Some (Some (i, gm_cells m ! i))" "i < length (gm_cells m)" "driver (gm_nets m ! n) = DCell i"
      "c_output (gm_cells m ! i) = n" "drives m n (c_kind (gm_cells m ! i)) (c_inputs (gm_cells m ! i))"
proof (cases "\<exists>i. driver (gm_nets m ! n) = DCell i")
  case True
  then obtain i where i: "driver (gm_nets m ! n) = DCell i" ..
  note w = wf_module_driver [OF assms i]
  then have "gm_cells m ! i = \<lparr>c_kind = c_kind (gm_cells m ! i), c_inputs = c_inputs (gm_cells m ! i), c_output = n\<rparr>" by simp
  then have "drives m n (c_kind (gm_cells m ! i)) (c_inputs (gm_cells m ! i))"
    using assms(2) i w unfolding drives_def by blast
  then show ?thesis using that(2) [of i] i w assms(2) by (simp add: driving_cell_def driver_at_def cell_at_def)
next
  case False
  then show ?thesis using that(1) assms(2) by (cases "driver (gm_nets m ! n)") (auto simp: driving_cell_def driver_at_def)
qed

lemma drives_inputs:
  assumes "wf_module m" "drives m n k ins"
  shows "length ins = arity k" "\<And>x. x \<in> set ins \<Longrightarrow> x < length (gm_nets m)"
proof -
  obtain i where i: "i < length (gm_cells m)" "gm_cells m ! i = \<lparr>c_kind = k, c_inputs = ins, c_output = n\<rparr>"
    using assms(2) unfolding drives_def by blast
  show "length ins = arity k" using wf_module_arity [OF assms(1) i(1)] i(2) by simp
  show "x < length (gm_nets m)" if "x \<in> set ins" for x using wf_module_inputs [OF assms(1) i(1)] i(2) that by simp
qed

lemma drives_lower: "ranked r m \<Longrightarrow> drives m n k ins \<Longrightarrow> x \<in> set ins \<Longrightarrow> r x < r n"
  by (auto simp: ranked_def drives_def)

lemma cell_lower:
  assumes "wf_module m" "single_driver m" "ranked r m" "i < length (gm_cells m)" "x \<in> set (c_inputs (gm_cells m ! i))"
  shows "r x < r (c_output (gm_cells m ! i))"
proof -
  have "c_output (gm_cells m ! i) < length (gm_nets m)"
    using assms(1) nth_mem [OF assms(4)] by (auto simp: wf_module_def module_cell_wf_def)
  then show ?thesis using assms by (simp add: ranked_def single_driver_def)
qed

text \<open>The value of a driven net when every cell but one holds.\<close>

lemma drives_other:
  assumes "drives m n k ins" "n \<noteq> c_output (gm_cells m ! i)"
    and "\<And>j. j < length (gm_cells m) \<Longrightarrow> j \<noteq> i \<Longrightarrow> holds v (gm_cells m ! j)"
  shows "v n = cell_fn k (map v ins)"
proof -
  obtain j where j: "j < length (gm_cells m)" "gm_cells m ! j = \<lparr>c_kind = k, c_inputs = ins, c_output = n\<rparr>"
    using assms(1) unfolding drives_def by blast
  then have "j \<noteq> i" using assms(2) by auto
  then show ?thesis using assms(3) [OF j(1)] j(2) by (simp add: holds_def)
qed

lemma drives_unique: "drives m n k ins \<Longrightarrow> drives m n k' ins' \<Longrightarrow> k = k' \<and> ins = ins'"
  by (auto simp: drives_def)

lemma count_at:
  assumes "tidy st" "n < length (gm_nets (pp_module st))"
  shows "nth_opt (pp_count st) n = Some (count (reads_of (pp_module st)) n)"
  using assms by (simp add: tidy_def tally_def nth_opt_def)

subsection \<open>Nested muxes on one select\<close>

lemma peek_spec:
  assumes wf: "wf_module m" and net: "net < length (gm_nets m)"
  obtains "peek_same_sel_mux m net s = Some None"
  | isel in0 in1 same where "peek_same_sel_mux m net s = Some (Some (in0, in1, same))" "drives m net Mux2 [isel, in0, in1]"
      "if same then isel = s else drives m isel Not1 [s]"
proof (rule driving_cell_cases [OF wf net])
  assume "driving_cell m net = Some None"
  then show ?thesis using that(1) by (simp add: peek_same_sel_mux_def)
next
  fix i assume i: "driving_cell m net = Some (Some (i, gm_cells m ! i))" "drives m net (c_kind (gm_cells m ! i)) (c_inputs (gm_cells m ! i))"
  show ?thesis
  proof (cases "c_kind (gm_cells m ! i) = Mux2")
    case False
    then show ?thesis using that(1) i(1) by (simp add: peek_same_sel_mux_def)
  next
    case True
    then have d: "drives m net Mux2 (c_inputs (gm_cells m ! i))" using i(2) by simp
    obtain isel in0 in1 where ins: "c_inputs (gm_cells m ! i) = [isel, in0, in1]"
      using drives_inputs(1) [OF wf d] by (auto simp: length_3_conv)
    have isel: "isel < length (gm_nets m)" using drives_inputs(2) [OF wf d] ins by simp
    show ?thesis
    proof (cases "isel = s")
      case True
      then show ?thesis using that(2) [of in0 in1 True isel] d i(1) ins \<open>c_kind _ = Mux2\<close> by (simp add: peek_same_sel_mux_def)
    next
      case False
      show ?thesis
      proof (rule driving_cell_cases [OF wf isel])
        assume "driving_cell m isel = Some None"
        then show ?thesis using that(1) False i(1) ins \<open>c_kind _ = Mux2\<close> by (simp add: peek_same_sel_mux_def)
      next
        fix j assume j: "driving_cell m isel = Some (Some (j, gm_cells m ! j))" "drives m isel (c_kind (gm_cells m ! j)) (c_inputs (gm_cells m ! j))"
        show ?thesis
        proof (cases "c_kind (gm_cells m ! j) = Not1")
          case True
          then have dn: "drives m isel Not1 (c_inputs (gm_cells m ! j))" using j(2) by simp
          obtain x where x: "c_inputs (gm_cells m ! j) = [x]" using drives_inputs(1) [OF wf dn] by (auto simp: length_Suc_conv)
          show ?thesis
          proof (cases "x = s")
            case True
            then show ?thesis using that(2) [of in0 in1 False isel] False i(1) ins j(1) x dn d \<open>c_kind _ = Mux2\<close> \<open>c_kind _ = Not1\<close>
              by (simp add: peek_same_sel_mux_def)
          next
            case False
            then show ?thesis using that(1) \<open>isel \<noteq> s\<close> i(1) ins j(1) x \<open>c_kind _ = Mux2\<close> \<open>c_kind _ = Not1\<close>
              by (simp add: peek_same_sel_mux_def)
          qed
        next
          case False
          then show ?thesis using that(1) \<open>isel \<noteq> s\<close> i(1) ins j(1) \<open>c_kind _ = Mux2\<close> by (simp add: peek_same_sel_mux_def)
        qed
      qed
    qed
  qed
qed

lemma upd_ranked_same:
  assumes "wf_module m" "ranked r m" "i < length (gm_cells m)" "\<And>x. x \<in> set ins \<Longrightarrow> r x < r (c_output (gm_cells m ! i))"
  shows "ranked r (upd m i k ins)"
  unfolding ranked_def
proof (intro allI impI)
  fix n j assume n: "n < length (gm_nets (upd m i k ins))" "driver (gm_nets (upd m i k ins) ! n) = DCell j"
  then have "j < length (gm_cells m)" "c_output (gm_cells m ! j) = n" using wf_module_driver [OF assms(1)] by simp_all
  then show "\<forall>x \<in> set (c_inputs (gm_cells (upd m i k ins) ! j)). r x < r n"
    using n assms(2-4) by (auto simp: upd_cell ranked_def)
qed

lemma weight_upd:
  assumes "i < length (gm_cells m)"
  shows "weight r (upd m i k ins) + input_weight r (gm_cells m ! i) = weight r m + sum_list (map (\<lambda>n. Suc (r n)) ins)"
proof -
  have "sum_list (map (input_weight r) (gm_cells m)) =
      sum_list (map (input_weight r) (take i (gm_cells m))) + (input_weight r (gm_cells m ! i) + sum_list (map (input_weight r) (drop (Suc i) (gm_cells m))))"
    by (subst id_take_nth_drop [OF assms]) simp
  then show ?thesis using assms by (simp add: weight_def upd_def upd_conv_take_nth_drop input_weight_def)
qed

definition nest_inv :: "(net_id \<Rightarrow> nat) \<Rightarrow> postpass_ctx \<Rightarrow> bool" where
  "nest_inv r st \<longleftrightarrow> tidy st \<and> nots_ok st \<and> ranked r (pp_module st) \<and> pp_or st = Map.empty \<and> pp_and st = Map.empty"

text \<open>Moving one data input of a mux to a net below it that always has the value the mux takes.\<close>

lemma move_input_spec:
  assumes st: "nest_inv r st" and i: "i < length (gm_cells (pp_module st))"
    and c: "gm_cells (pp_module st) ! i = \<lparr>c_kind = Mux2, c_inputs = ins, c_output = out\<rparr>" "p < length ins"
    and x: "x < length (gm_nets (pp_module st))" "r x < r (ins ! p)"
    and same: "\<And>v. (\<And>j. j < length (gm_cells (pp_module st)) \<Longrightarrow> j \<noteq> i \<Longrightarrow> holds v (gm_cells (pp_module st) ! j)) \<Longrightarrow>
      cell_fn Mux2 (map v (ins[p := x])) = cell_fn Mux2 (map v ins)"
  shows "\<exists>st'. move_input i p (ins ! p) x st = Some st' \<and> nest_inv r st' \<and> rebuilt (pp_module st) (pp_module st')
    \<and> length (gm_cells (pp_module st')) = length (gm_cells (pp_module st)) \<and> weight r (pp_module st') < weight r (pp_module st)"
proof -
  let ?m = "pp_module st" and ?ins = "ins[p := x]" and ?k = "length (gm_nets (pp_module st))"
  have m: "wf_module ?m" "single_driver ?m" "ranked r ?m" "tally ?k (reads_of ?m) (pp_count st)" using st by (simp_all add: nest_inv_def tidy_def)
  have inp: "y < ?k" "r y < r out" if "y \<in> set ins" for y
    using that wf_module_inputs [OF m(1) i] cell_lower [OF m(1-3) i] c(1) by simp_all
  have "r (ins ! p) < r out" using inp(2) c(2) by simp
  then have "r x < r out" using x(2) by linarith
  then have ins': "y < ?k \<and> r y < r out" if "y \<in> set ?ins" for y
    using that set_update_subset_insert [of ins p x] inp x(1) by blast
  have pin: "ins ! p \<in># mset ins" using c(2) by simp
  obtain R where R: "reads_of ?m = mset ins + R" using reads_of_upd(1) [OF i] c(1) by (auto simp: mset_subset_eq_exists_conv)
  obtain c1 where c1: "count_down (ins ! p) (pp_count st) = Some c1" "tally ?k (reads_of ?m - {#ins ! p#}) c1"
    using tally_down [OF m(4) inp(1) [OF nth_mem [OF c(2)]]] R pin by auto
  obtain c2 where c2: "count_up x c1 = Some c2" "tally ?k (add_mset x (reads_of ?m - {#ins ! p#})) c2" using tally_up [OF c1(2) x(1)] by blast
  have "mset ?ins = add_mset x (mset ins - {#ins ! p#})" by (rule mset_update [OF c(2)])
  then have "reads_of (upd ?m i Mux2 ?ins) = add_mset x (reads_of ?m - {#ins ! p#})"
    using reads_of_upd(2) [OF i] c(1) pin by (simp add: R add.commute)
  then have tl: "tally ?k (reads_of (upd ?m i Mux2 ?ins)) c2" using c2(2) by simp
  have mod: "?m\<lparr>gm_cells := (gm_cells ?m)[i := (gm_cells ?m ! i)\<lparr>c_inputs := ?ins\<rparr>]\<rparr> = upd ?m i Mux2 ?ins" using c(1) by (simp add: upd_def)
  let ?st = "st\<lparr>pp_module := upd ?m i Mux2 ?ins, pp_count := c2\<rparr>"
  have run: "move_input i p (ins ! p) x st = Some ?st" using c1(1) c2(1) i c(1) mod by (simp add: move_input_def cell_at_def)
  have len: "length ?ins = arity Mux2" using wf_module_arity [OF m(1) i] c(1) by simp
  have wf': "wf_module (upd ?m i Mux2 ?ins)" by (rule upd_wf [OF m(1) i len]) (use ins' in blast)
  have reb: "rebuilt ?m (upd ?m i Mux2 ?ins)"
    by (rule upd_rebuilt [OF m(1) i len]) (use ins' same lower_clear [OF m(3)] c(1) in auto)
  have rk: "ranked r (upd ?m i Mux2 ?ins)" by (rule upd_ranked_same [OF m(1,3) i]) (use ins' c(1) in auto)
  have "nest_inv r ?st" using st wf' rk tl upd_single_driver [OF m(2) i] nots_ok_upd [of st i ?st Mux2 ?ins] i c(1) by (auto simp: nest_inv_def tidy_def)
  moreover have "weight r (upd ?m i Mux2 ?ins) < weight r ?m"
  proof -
    have "sum_list (map (\<lambda>n. Suc (r n)) ?ins) < sum_list (map (\<lambda>n. Suc (r n)) ins)"
      using sum_list_update [of p "map (\<lambda>n. Suc (r n)) ins" "Suc (r x)"] x(2) c(2) member_le_sum_list [of "Suc (r (ins ! p))" "map (\<lambda>n. Suc (r n)) ins"]
      by (simp add: map_update)
    then show ?thesis using weight_upd [OF i, of r Mux2 ?ins] c(1) by (simp add: input_weight_def)
  qed
  ultimately show ?thesis using run reb by simp
qed


lemma nest_step_spec:
  assumes st: "nest_inv r st" and i: "i < length (gm_cells (pp_module st))"
  shows "\<exists>st' hit. on_mux nest_step i st = Some (st', hit) \<and> nest_inv r st' \<and> rebuilt (pp_module st) (pp_module st')
    \<and> length (gm_cells (pp_module st)) \<le> length (gm_cells (pp_module st'))
    \<and> (if hit then weight r (pp_module st') < weight r (pp_module st) else st' = st)"
proof -
  let ?m = "pp_module st"
  have m: "wf_module ?m" "single_driver ?m" "ranked r ?m" using st by (simp_all add: nest_inv_def tidy_def)
  note skip = st rebuilt_refl [of ?m]
  show ?thesis
  proof (rule on_mux_cases [OF m(1) i, of nest_step])
    assume "on_mux nest_step i st = Some (st, False)"
    then show ?thesis using skip by (intro exI [of _ st] exI [of _ False]) simp
  next
    fix s d0 d1
    assume c: "gm_cells ?m ! i = \<lparr>c_kind = Mux2, c_inputs = [s, d0, d1], c_output = c_output (gm_cells ?m ! i)\<rparr>"
      and f: "on_mux nest_step i st = nest_step i s d0 d1 st" and d: "d0 < length (gm_nets ?m)" "d1 < length (gm_nets ?m)"
    let ?out = "c_output (gm_cells ?m ! i)"
    have low: "r s < r ?out" "r d0 < r ?out" "r d1 < r ?out" using cell_lower [OF m i] c by (metis cell.select_convs(2) list.set_intros)+
    have inner: "v net = (if v isel then v in1 else v in0) \<and> (if same then isel = s else v isel = (\<not> v s))"
      if "drives ?m net Mux2 [isel, in0, in1]" "if same then isel = s else drives ?m isel Not1 [s]" "r net < r ?out"
        "\<And>j. j < length (gm_cells ?m) \<Longrightarrow> j \<noteq> i \<Longrightarrow> holds v (gm_cells ?m ! j)" for v net isel in0 in1 same
    proof -
      have "net \<noteq> ?out" using that(3) by auto
      then have 1: "v net = (if v isel then v in1 else v in0)" using drives_other [OF that(1) _ that(4)] by auto
      have "r isel < r net" using drives_lower [OF m(3) that(1)] by simp
      then have "isel \<noteq> ?out" using that(3) by auto
      then show ?thesis using 1 that(2) drives_other [where n = isel and k = Not1 and ins = "[s]", OF _ _ that(4)] by (cases same) auto
    qed
    have hit: "\<exists>st'. move_input i p ([s, d0, d1] ! p) x st = Some st' \<and> nest_inv r st' \<and> rebuilt ?m (pp_module st')
        \<and> length (gm_cells (pp_module st')) = length (gm_cells ?m) \<and> weight r (pp_module st') < weight r ?m"
      if p: "p = 1 \<or> p = 2" and dr: "drives ?m ([s, d0, d1] ! p) Mux2 [isel, in0, in1]" "if same then isel = s else drives ?m isel Not1 [s]"
        and x: "x = (if same \<longleftrightarrow> p = 2 then in1 else in0)" for p x isel in0 in1 same
    proof (rule move_input_spec [OF st i c])
      show "p < length [s, d0, d1]" using p by auto
      show "x < length (gm_nets ?m)" using drives_inputs(2) [OF m(1) dr(1)] x by simp
      show "r x < r ([s, d0, d1] ! p)" using drives_lower [OF m(3) dr(1)] x by simp
      show "cell_fn Mux2 (map v ([s, d0, d1][p := x])) = cell_fn Mux2 (map v [s, d0, d1])"
        if "\<And>j. j < length (gm_cells ?m) \<Longrightarrow> j \<noteq> i \<Longrightarrow> holds v (gm_cells ?m ! j)" for v
        using inner [OF dr _ that] p x low by (cases same) (auto simp: numeral_2_eq_2)
    qed
    obtain p1 where p1: "peek_same_sel_mux ?m d1 s = Some p1"
      "p1 \<noteq> None \<Longrightarrow> \<exists>isel in0 in1 same. p1 = Some (in0, in1, same) \<and> drives ?m d1 Mux2 [isel, in0, in1] \<and> (if same then isel = s else drives ?m isel Not1 [s])"
      by (rule peek_spec [OF m(1) d(2), of s]) auto
    obtain p0 where p0: "peek_same_sel_mux ?m d0 s = Some p0"
      "p0 \<noteq> None \<Longrightarrow> \<exists>isel in0 in1 same. p0 = Some (in0, in1, same) \<and> drives ?m d0 Mux2 [isel, in0, in1] \<and> (if same then isel = s else drives ?m isel Not1 [s])"
      by (rule peek_spec [OF m(1) d(1), of s]) auto
    show ?thesis
    proof (cases p1)
      case (Some a)
      then obtain isel in0 in1 same where a: "p1 = Some (in0, in1, same)" "drives ?m d1 Mux2 [isel, in0, in1]" "if same then isel = s else drives ?m isel Not1 [s]"
        using p1(2) by blast
      obtain st' where st': "move_input i 2 d1 (if same then in1 else in0) st = Some st'" "nest_inv r st'" "rebuilt ?m (pp_module st')"
        "length (gm_cells (pp_module st')) = length (gm_cells ?m)" "weight r (pp_module st') < weight r ?m"
        using hit [of 2 isel in0 in1 same "if same then in1 else in0"] a(2,3) by auto
      show ?thesis by (rule exI [of _ st'], rule exI [of _ True]) (simp add: nest_step_def f p1(1) p0(1) a(1) st')
    next
      case None
      show ?thesis
      proof (cases p0)
        case (Some a)
        then obtain isel in0 in1 same where a: "p0 = Some (in0, in1, same)" "drives ?m d0 Mux2 [isel, in0, in1]" "if same then isel = s else drives ?m isel Not1 [s]"
          using p0(2) by blast
        obtain st' where st': "move_input i 1 d0 (if same then in0 else in1) st = Some st'" "nest_inv r st'" "rebuilt ?m (pp_module st')"
          "length (gm_cells (pp_module st')) = length (gm_cells ?m)" "weight r (pp_module st') < weight r ?m"
          using hit [of 1 isel in0 in1 same "if same then in0 else in1"] a(2,3) by (cases same) auto
        show ?thesis by (rule exI [of _ st'], rule exI [of _ True]) (use st' in \<open>cases same; simp add: nest_step_def f p1(1) p0(1) a(1) None\<close>)
      next
        case None
        then show ?thesis using \<open>p1 = None\<close> p1(1) p0(1) f skip by (intro exI [of _ st] exI [of _ False]) (simp add: nest_step_def)
      qed
    qed
  qed
qed

interpretation nesting: sweep_phase "on_mux nest_step" "nest_inv r" rebuilt "\<lambda>st. weight r (pp_module st)" for r
  by unfold_locales (use nest_step_spec rebuilt_refl rebuilt_trans in blast)+

subsection \<open>Muxes that share a data input\<close>

definition mom_inv :: "postpass_ctx \<Rightarrow> bool" where
  "mom_inv st \<longleftrightarrow> tidy st \<and> nots_ok st \<and> bins_ok st"

definition mux_driven :: "gate_module \<Rightarrow> net_id \<Rightarrow> bool" where
  "mux_driven m n \<longleftrightarrow> (\<exists>ins. drives m n Mux2 ins)"

text \<open>The nets that are read and driven by a mux; a hit leaves one of them unread.\<close>

definition mux_reads :: "gate_module \<Rightarrow> net_id set" where
  "mux_reads m = {n. n \<in># reads_of m \<and> mux_driven m n}"

lemma finite_mux_reads [simp]: "finite (mux_reads m)"
  by (rule finite_subset [of _ "set_mset (reads_of m)"]) (auto simp: mux_reads_def)

definition mom_shape :: "bool \<Rightarrow> mom_pattern \<Rightarrow> net_id \<Rightarrow> net_id \<Rightarrow> net_id \<Rightarrow> net_id \<Rightarrow> bool" where
  "mom_shape inner_is_d0 pat shared other in0 in1 \<longleftrightarrow>
     (if inner_is_d0 then pat = MomA \<and> in1 = shared \<and> other = in0 \<or> pat = MomC \<and> in0 = shared \<and> other = in1
      else pat = MomB \<and> in0 = shared \<and> other = in1 \<or> pat = MomD \<and> in1 = shared \<and> other = in0)"

lemma classify_mom_spec:
  assumes st: "tidy st" and leg: "leg < length (gm_nets (pp_module st))"
  obtains "classify_mom st s1 leg shared b = Some None"
  | pat s2 other in0 in1 where "classify_mom st s1 leg shared b = Some (Some (pat, s2, other))" "count (reads_of (pp_module st)) leg = 1"
      "drives (pp_module st) leg Mux2 [s2, in0, in1]" "mom_shape b pat shared other in0 in1"
proof -
  let ?m = "pp_module st"
  have wf: "wf_module ?m" using st by (simp add: tidy_def)
  show ?thesis
  proof (cases "count (reads_of ?m) leg = 1")
    case False
    then show ?thesis using that(1) by (simp add: classify_mom_def count_at [OF st leg])
  next
    case one: True
    show ?thesis
    proof (rule driving_cell_cases [OF wf leg])
      assume "driving_cell ?m leg = Some None"
      then show ?thesis using that(1) by (simp add: classify_mom_def count_at [OF st leg])
    next
      fix i assume i: "driving_cell ?m leg = Some (Some (i, gm_cells ?m ! i))" "drives ?m leg (c_kind (gm_cells ?m ! i)) (c_inputs (gm_cells ?m ! i))"
      show ?thesis
      proof (cases "c_kind (gm_cells ?m ! i) = Mux2")
        case False
        then show ?thesis using that(1) i(1) by (simp add: classify_mom_def count_at [OF st leg])
      next
        case True
        then have d: "drives ?m leg Mux2 (c_inputs (gm_cells ?m ! i))" using i(2) by simp
        obtain s2 in0 in1 where ins: "c_inputs (gm_cells ?m ! i) = [s2, in0, in1]"
          using drives_inputs(1) [OF wf d] by (auto simp: length_3_conv)
        have run: "classify_mom st s1 leg shared b = Some (if s2 = s1 then None
            else if b then (if in1 = shared then Some (MomA, s2, in0) else if in0 = shared then Some (MomC, s2, in1) else None)
            else (if in0 = shared then Some (MomB, s2, in1) else if in1 = shared then Some (MomD, s2, in0) else None))"
          using one True i(1) ins by (simp add: classify_mom_def count_at [OF st leg])
        show ?thesis
        proof (cases "classify_mom st s1 leg shared b = Some None")
          case False
          then show ?thesis using that(2) one d ins run by (auto simp: mom_shape_def split: if_splits)
        qed (rule that(1))
      qed
    qed
  qed
qed

fun mom_fn :: "mom_pattern \<Rightarrow> bool \<Rightarrow> bool \<Rightarrow> bool" where
  "mom_fn MomA x y = (x \<or> y)"
| "mom_fn MomB x y = (x \<and> y)"
| "mom_fn MomC x y = (\<not> x \<and> y)"
| "mom_fn MomD x y = (x \<and> \<not> y)"

text \<open>
  The select of the merged mux: a net of a value of the two selects, above no net that the
  selects are below, not driven by a mux; what is newly read is a select or no mux's output.
\<close>

definition mom_selects :: "mom_pattern \<Rightarrow> net_id \<Rightarrow> net_id \<Rightarrow> postpass_ctx \<Rightarrow> net_id \<Rightarrow> postpass_ctx \<Rightarrow> bool" where
  "mom_selects pat s1 s2 st sel st' \<longleftrightarrow> mom_inv st'
     \<and> (\<exists>E. grew {Not1, And2, Or2} E st st' \<and> (\<forall>n \<in># E. n \<in> {s1, s2} \<or> \<not> mux_driven (pp_module st') n))
     \<and> sel < length (gm_nets (pp_module st')) \<and> \<not> mux_driven (pp_module st') sel
     \<and> (\<forall>a. mux_driven (pp_module st') a \<longrightarrow> (a, s1) \<notin> (dep (pp_module st'))\<^sup>* \<longrightarrow> (a, s2) \<notin> (dep (pp_module st'))\<^sup>* \<longrightarrow>
          (a, sel) \<notin> (dep (pp_module st'))\<^sup>*)
     \<and> (\<forall>v i. mux_driven (pp_module st') (c_output (gm_cells (pp_module st') ! i)) \<longrightarrow>
          (\<forall>j < length (gm_cells (pp_module st')). j \<noteq> i \<longrightarrow> holds v (gm_cells (pp_module st') ! j)) \<longrightarrow> v sel = mom_fn pat (v s1) (v s2))"

lemma not_mux_driven: "drives m n k ins \<Longrightarrow> k \<noteq> Mux2 \<Longrightarrow> \<not> mux_driven m n"
  unfolding mux_driven_def using drives_unique by blast

lemma bin_selects:
  assumes st: "mom_inv st" "k = Or2 \<or> k = And2" "x < length (gm_nets (pp_module st))" "y < length (gm_nets (pp_module st))"
  shows "\<exists>sel st'. materialize_binop k x y st = Some (sel, st') \<and> mom_inv st' \<and> drives (pp_module st') sel k [min x y, max x y]
    \<and> (\<exists>E. grew {k} E st st' \<and> set_mset E \<subseteq> {x, y})"
  using materialize_binop_spec [of st k x y] assms by (auto simp: mom_inv_def grew_def)

lemma bin_value:
  assumes "k = Or2 \<or> k = And2" "v n = cell_fn k (map v [min x y, max x y])"
  shows "v n = (if k = Or2 then v x \<or> v y else v x \<and> v y)"
  using assms by (auto simp: min_def max_def split: if_splits)

lemma grew_mono: "grew K E st st' \<Longrightarrow> K \<subseteq> L \<Longrightarrow> grew L E st st'"
  unfolding grew_def by blast

lemma bin_clear:
  assumes "drives m sel k [min x y, max x y]" "k \<noteq> Mux2" "mux_driven m a" "(a, x) \<notin> (dep m)\<^sup>*" "(a, y) \<notin> (dep m)\<^sup>*"
  shows "(a, sel) \<notin> (dep m)\<^sup>*"
proof (rule gate_clear [OF assms(1)])
  show "sel \<noteq> a" using not_mux_driven [OF assms(1,2)] assms(3) by auto
  show "(a, z) \<notin> (dep m)\<^sup>*" if "z \<in> set [min x y, max x y]" for z using that assms(4,5) by (auto simp: min_def max_def split: if_splits)
qed

lemma mom_select_bin:
  assumes st: "mom_inv st" "k = Or2 \<or> k = And2" "x < length (gm_nets (pp_module st))" "y < length (gm_nets (pp_module st))"
    and fn: "\<And>p q. mom_fn pat p q = (if k = Or2 then p \<or> q else p \<and> q)" and pat: "mom_select pat x y st = materialize_binop k x y st"
  shows "\<exists>sel st'. mom_select pat x y st = Some (sel, st') \<and> mom_selects pat x y st sel st'"
proof -
  obtain sel st' E where s: "materialize_binop k x y st = Some (sel, st')" "mom_inv st'" "drives (pp_module st') sel k [min x y, max x y]"
    "grew {k} E st st'" "set_mset E \<subseteq> {x, y}" using bin_selects [OF st] by blast
  let ?m = "pp_module st'"
  have k: "k \<noteq> Mux2" "{k} \<subseteq> {Not1, And2, Or2}" using st(2) by auto
  have "v sel = mom_fn pat (v x) (v y)"
    if "mux_driven ?m (c_output (gm_cells ?m ! i))" "\<forall>j < length (gm_cells ?m). j \<noteq> i \<longrightarrow> holds v (gm_cells ?m ! j)" for v i
  proof -
    have "sel \<noteq> c_output (gm_cells ?m ! i)" using that(1) not_mux_driven [OF s(3) k(1)] by auto
    then have "v sel = cell_fn k (map v [min x y, max x y])" using drives_other [OF s(3)] that(2) by blast
    from bin_value [OF st(2) this] show ?thesis by (simp add: fn)
  qed
  moreover have "sel < length (gm_nets ?m)" using s(3) by (simp add: drives_def)
  moreover have "\<exists>E. grew {Not1, And2, Or2} E st st' \<and> (\<forall>n \<in># E. n \<in> {x, y} \<or> \<not> mux_driven ?m n)"
    using grew_mono [OF s(4) k(2)] s(5) by blast
  ultimately have "mom_selects pat x y st sel st'"
    using s(2) not_mux_driven [OF s(3) k(1)] bin_clear [OF s(3) k(1)] unfolding mom_selects_def by blast
  then show ?thesis using s(1) pat by auto
qed

lemma mom_select_not:
  assumes st: "mom_inv st" "x < length (gm_nets (pp_module st))" "y < length (gm_nets (pp_module st))"
    and neg: "z = x \<and> u = y \<and> pat = MomC \<or> z = y \<and> u = x \<and> pat = MomD"
  shows "\<exists>sel st'. mom_select pat x y st = Some (sel, st') \<and> mom_selects pat x y st sel st'"
proof -
  have z: "z < length (gm_nets (pp_module st))" "u < length (gm_nets (pp_module st))" using neg st by auto
  have inv: "tidy st" "nots_ok st" "bins_ok st" using st(1) by (simp_all add: mom_inv_def)
  obtain nz st1 E1 where 1: "materialize_not z st = Some (nz, st1)" "nots_ok st1" "drives (pp_module st1) nz Not1 [z]"
    "grew {Not1} E1 st st1" "set_mset E1 \<subseteq> {z}" "bins_ok st1" using materialize_not_spec [OF inv(1,2) z(1)] inv(3) by blast
  have inv1: "mom_inv st1" using 1 by (simp add: mom_inv_def grew_def)
  have len: "length (gm_nets (pp_module st)) \<le> length (gm_nets (pp_module st1))" using 1(4) gated_nets(1) unfolding grew_def by blast
  have nz: "nz < length (gm_nets (pp_module st1))" using 1(3) by (simp add: drives_def)
  have u: "u < length (gm_nets (pp_module st1))" using z(2) len by linarith
  let ?p = "if pat = MomC then nz else u" and ?q = "if pat = MomC then u else nz"
  have pq: "?p < length (gm_nets (pp_module st1))" "?q < length (gm_nets (pp_module st1))" using nz u by simp_all
  obtain sel st' E2 where s: "materialize_binop And2 ?p ?q st1 = Some (sel, st')" "mom_inv st'" "drives (pp_module st') sel And2 [min ?p ?q, max ?p ?q]"
    "grew {And2} E2 st1 st'" "set_mset E2 \<subseteq> {?p, ?q}" using bin_selects [OF inv1 _ pq, of And2] by blast
  let ?m = "pp_module st'"
  have dn: "drives ?m nz Not1 [z]" by (rule grew_drives [OF s(4) 1(3)])
  have nm: "\<not> mux_driven ?m nz" "\<not> mux_driven ?m sel" using not_mux_driven [OF dn] not_mux_driven [OF s(3)] by simp_all
  have run: "mom_select pat x y st = Some (sel, st')" using neg 1(1) s(1) by (auto simp: mom_select_def)
  have "v sel = mom_fn pat (v x) (v y)"
    if "mux_driven ?m (c_output (gm_cells ?m ! i))" "\<forall>j < length (gm_cells ?m). j \<noteq> i \<longrightarrow> holds v (gm_cells ?m ! j)" for v i
  proof -
    have "sel \<noteq> c_output (gm_cells ?m ! i)" "nz \<noteq> c_output (gm_cells ?m ! i)" using that(1) nm by auto
    then have "v sel = cell_fn And2 (map v [min ?p ?q, max ?p ?q])" "v nz = cell_fn Not1 (map v [z])"
      using drives_other [OF s(3)] drives_other [OF dn] that(2) by blast+
    with bin_value [of And2 v sel ?p ?q] show ?thesis using neg by auto
  qed
  moreover have "(a, sel) \<notin> (dep ?m)\<^sup>*" if a: "mux_driven ?m a" "(a, x) \<notin> (dep ?m)\<^sup>*" "(a, y) \<notin> (dep ?m)\<^sup>*" for a
  proof -
    have "(a, nz) \<notin> (dep ?m)\<^sup>*" by (rule gate_clear [OF dn]) (use a nm neg in auto)
    then show ?thesis using bin_clear [OF s(3) _ a(1)] a neg by auto
  qed
  moreover have "\<exists>E. grew {Not1, And2, Or2} E st st' \<and> (\<forall>n \<in># E. n \<in> {x, y} \<or> \<not> mux_driven ?m n)"
  proof (intro exI conjI)
    show "grew {Not1, And2, Or2} (E1 + E2) st st'" by (rule grew_mono [OF grew_trans [OF 1(4) s(4)]]) auto
    show "\<forall>n \<in># E1 + E2. n \<in> {x, y} \<or> \<not> mux_driven ?m n" using 1(5) s(5) nm(1) neg by auto
  qed
  moreover have "sel < length (gm_nets ?m)" using s(3) by (simp add: drives_def)
  ultimately have "mom_selects pat x y st sel st'" using s(2) nm(2) unfolding mom_selects_def by blast
  then show ?thesis using run by blast
qed

lemma mom_select_spec:
  assumes "mom_inv st" "s1 < length (gm_nets (pp_module st))" "s2 < length (gm_nets (pp_module st))"
  shows "\<exists>sel st'. mom_select pat s1 s2 st = Some (sel, st') \<and> mom_selects pat s1 s2 st sel st'"
proof (cases pat)
  case MomA
  show ?thesis by (rule mom_select_bin [OF assms(1) _ assms(2,3), of Or2]) (simp_all add: MomA mom_select_def)
next
  case MomB
  show ?thesis by (rule mom_select_bin [OF assms(1) _ assms(2,3), of And2]) (simp_all add: MomB mom_select_def)
next
  case MomC
  show ?thesis by (rule mom_select_not [OF assms, of s1 s2]) (simp add: MomC)
next
  case MomD
  show ?thesis by (rule mom_select_not [OF assms, of s2 s1]) (simp add: MomD)
qed

end
