(* ===== verification/Postpass_Merge.thy ===== *)
theory Postpass_Merge
  imports Postpass_Muxes
begin

section \<open>Merging and collapsing multiplexers\<close>

text \<open>
  The phase that merges two multiplexers with a common data input, and the one that turns a
  multiplexer with a constant or mirrored data input into a gate.
\<close>

subsection \<open>Reads\<close>

lemma read_cell: "i < length (gm_cells m) \<Longrightarrow> x \<in> set (c_inputs (gm_cells m ! i)) \<Longrightarrow> x \<in># reads_of m"
  by (auto simp: reads_of_def intro!: bexI [of _ "gm_cells m ! i"])

lemma read_driver: "drives m n k ins \<Longrightarrow> x \<in> set ins \<Longrightarrow> x \<in># reads_of m"
  unfolding drives_def using read_cell by fastforce

text \<open>A net read once is read no more when its reader reads other nets.\<close>

lemma reads_upd_in:
  assumes "i < length (gm_cells m)" "n \<in># reads_of (upd m i k ins)"
  shows "n \<in> set ins \<or> n \<in># reads_of m - mset (c_inputs (gm_cells m ! i))"
  using assms(2) reads_of_upd(2) [OF assms(1)] by auto

lemma read_once_gone:
  assumes "count (reads_of m) n = 1" "i < length (gm_cells m)" "n \<in> set (c_inputs (gm_cells m ! i))"
  shows "n \<notin># reads_of m - mset (c_inputs (gm_cells m ! i))"
proof -
  have "1 \<le> count (mset (c_inputs (gm_cells m ! i))) n" using assms(3) by (simp add: Suc_le_eq)
  then show ?thesis using assms(1) by (simp add: not_in_iff)
qed

text \<open>The ranks of what a cell reads, in any ranking.\<close>

lemma output_clear:
  assumes "wf_module m" "single_driver m" "ranked r m" "i < length (gm_cells m)" "x \<in> set (c_inputs (gm_cells m ! i))"
  shows "(c_output (gm_cells m ! i), x) \<notin> (dep m)\<^sup>*"
  using lower_clear [OF assms(3)] cell_lower [OF assms] by blast

lemma output_driven:
  assumes "wf_module m" "single_driver m" "i < length (gm_cells m)"
  shows "drives m (c_output (gm_cells m ! i)) (c_kind (gm_cells m ! i)) (c_inputs (gm_cells m ! i))"
proof -
  have "c_output (gm_cells m ! i) < length (gm_nets m)"
    using assms(1) nth_mem [OF assms(3)] by (auto simp: wf_module_def module_cell_wf_def)
  then show ?thesis using assms(2,3) unfolding drives_def single_driver_def by (intro conjI exI [of _ i]) simp_all
qed

subsection \<open>Muxes that share a data input\<close>

lemma mux_driven_grew:
  assumes "grew {Not1, And2, Or2} E st st'" "mux_driven (pp_module st') n"
  shows "mux_driven (pp_module st) n"
proof -
  obtain cs where g: "gated (pp_module st) (pp_module st') cs" "\<forall>c \<in> set cs. c_kind c \<in> {Not1, And2, Or2}" using assms(1) unfolding grew_def by blast
  let ?m = "pp_module st" and ?m' = "pp_module st'"
  obtain ins j where j: "n < length (gm_nets ?m')" "j < length (gm_cells ?m')" "driver (gm_nets ?m' ! n) = DCell j" "gm_cells ?m' ! j = \<lparr>c_kind = Mux2, c_inputs = ins, c_output = n\<rparr>"
    using assms(2) unfolding mux_driven_def drives_def by blast
  have cells: "gm_cells ?m' = gm_cells ?m @ cs" using g(1) by (simp add: gated_def)
  have old: "j < length (gm_cells ?m)"
  proof (rule ccontr)
    assume "\<not> j < length (gm_cells ?m)"
    then have "gm_cells ?m' ! j \<in> set cs" using j(2) cells by (simp add: nth_append)
    then show False using g(2) j(4) by fastforce
  qed
  have "n < length (gm_nets ?m)"
  proof (rule ccontr)
    assume n: "\<not> n < length (gm_nets ?m)"
    have "n - length (gm_nets ?m) < length cs" using j(1) n gated_nets(2) [OF g(1)] by linarith
    from gated_new(1) [OF g(1) this] n j(3) old show False by simp
  qed
  then show ?thesis using j old cells gated_old [OF g(1)] unfolding mux_driven_def drives_def by (auto simp: nth_append)
qed

lemma mux_driven_upd:
  assumes "i < length (gm_cells m)" "c_kind (gm_cells m ! i) = Mux2" "mux_driven (upd m i Mux2 ins) n"
  shows "mux_driven m n"
proof -
  obtain js j where j: "n < length (gm_nets m)" "j < length (gm_cells m)" "driver (gm_nets m ! n) = DCell j"
    "gm_cells (upd m i Mux2 ins) ! j = \<lparr>c_kind = Mux2, c_inputs = js, c_output = n\<rparr>"
    using assms(3) unfolding mux_driven_def drives_def by auto
  have "gm_cells m ! j = \<lparr>c_kind = Mux2, c_inputs = c_inputs (gm_cells m ! j), c_output = n\<rparr>"
    using j(4) assms(1,2) by (cases "j = i") (auto simp: upd_cell)
  then show ?thesis using j(1-3) unfolding mux_driven_def drives_def by blast
qed

lemma mom_value:
  assumes "mom_shape b pat shared other in0 in1" "vsel = mom_fn pat (v s1) (v s2)" "v leg = cell_fn Mux2 (map v [s2, in0, in1])"
    and "d0 = (if b then leg else shared)" "d1 = (if b then shared else leg)"
  shows "cell_fn Mux2 (vsel # map v (mom_data pat d0 d1 other)) = cell_fn Mux2 (map v [s1, d0, d1])"
  using assms by (cases pat; cases b) (auto simp: mom_shape_def)

lemma mom_data_set: "mom_shape b pat shared other in0 in1 \<Longrightarrow> d0 = (if b then leg else shared) \<Longrightarrow> d1 = (if b then shared else leg) \<Longrightarrow>
    length (mom_data pat d0 d1 other) = 2 \<and> set (mom_data pat d0 d1 other) \<subseteq> {shared, other} \<and> other \<in> {in0, in1} \<and> shared \<in> {in0, in1}"
  by (cases pat; cases b) (auto simp: mom_shape_def)

lemma mom_selectsD:
  assumes "mom_selects pat s1 s2 st sel st'"
  shows "mom_inv st'"
    "\<exists>E. grew {Not1, And2, Or2} E st st' \<and> (\<forall>n \<in># E. n \<in> {s1, s2} \<or> \<not> mux_driven (pp_module st') n)"
    "sel < length (gm_nets (pp_module st'))" "\<not> mux_driven (pp_module st') sel"
    "\<And>a. mux_driven (pp_module st') a \<Longrightarrow> (a, s1) \<notin> (dep (pp_module st'))\<^sup>* \<Longrightarrow> (a, s2) \<notin> (dep (pp_module st'))\<^sup>* \<Longrightarrow>
      (a, sel) \<notin> (dep (pp_module st'))\<^sup>*"
    "\<And>v i. mux_driven (pp_module st') (c_output (gm_cells (pp_module st') ! i)) \<Longrightarrow>
      (\<And>j. j < length (gm_cells (pp_module st')) \<Longrightarrow> j \<noteq> i \<Longrightarrow> holds v (gm_cells (pp_module st') ! j)) \<Longrightarrow> v sel = mom_fn pat (v s1) (v s2)"
  using assms [unfolded mom_selects_def] by (elim conjE, assumption | simp)+

lemma mom_hit:
  assumes st: "mom_inv st" and i: "i < length (gm_cells (pp_module st))"
    and c: "gm_cells (pp_module st) ! i = \<lparr>c_kind = Mux2, c_inputs = [s1, d0, d1], c_output = a\<rparr>"
    and leg: "d0 = (if b then leg else shared)" "d1 = (if b then shared else leg)" "count (reads_of (pp_module st)) leg = 1"
      "drives (pp_module st) leg Mux2 [s2, in0, in1]" "mom_shape b pat shared other in0 in1"
  shows "\<exists>sel st1 st'. mom_select pat s1 s2 st = Some (sel, st1) \<and> retarget_inputs i (sel # mom_data pat d0 d1 other) st1 = Some st'
    \<and> mom_inv st' \<and> rebuilt (pp_module st) (pp_module st') \<and> length (gm_cells (pp_module st)) \<le> length (gm_cells (pp_module st'))
    \<and> card (mux_reads (pp_module st')) < card (mux_reads (pp_module st))"
proof -
  let ?m = "pp_module st"
  have m: "wf_module ?m" "single_driver ?m" using st by (simp_all add: mom_inv_def tidy_def)
  have legs: "leg \<in> set [s1, d0, d1]" "shared \<in> set [s1, d0, d1]" using leg(1,2) by (cases b; simp)+
  note data = mom_data_set [OF leg(5,1,2)]
  have rng: "s1 < length (gm_nets ?m)" "s2 < length (gm_nets ?m)" "shared < length (gm_nets ?m)" "other < length (gm_nets ?m)"
    using wf_module_inputs [OF m(1) i, of s1] wf_module_inputs [OF m(1) i, of shared] drives_inputs(2) [OF m(1) leg(4), of s2]
      drives_inputs(2) [OF m(1) leg(4), of other] data legs(2) c by auto
  obtain sel st1 where s: "mom_select pat s1 s2 st = Some (sel, st1)" "mom_selects pat s1 s2 st sel st1" using mom_select_spec [OF st rng(1,2)] by blast
  let ?m1 = "pp_module st1" and ?ins = "sel # mom_data pat d0 d1 other"
  note ms = mom_selectsD [OF s(2)]
  obtain E where E: "grew {Not1, And2, Or2} E st st1" "\<forall>n \<in># E. n \<in> {s1, s2} \<or> \<not> mux_driven ?m1 n" using ms(2) by blast
  obtain cs where g: "gated ?m ?m1 cs" using E(1) unfolding grew_def by blast
  have t1: "tidy st1" and reb1: "rebuilt ?m ?m1" and reads1: "reads_of ?m1 = reads_of ?m + E" using E(1) by (simp_all add: grew_def)
  obtain r where m1: "wf_module ?m1" "single_driver ?m1" "ranked r ?m1" using t1 by (auto simp: tidy_def)
  have cells: "gm_cells ?m1 = gm_cells ?m @ cs" and le: "length (gm_nets ?m) \<le> length (gm_nets ?m1)" using g gated_nets(1) [OF g] by (simp_all add: gated_def)
  have i1: "i < length (gm_cells ?m1)" and c1: "gm_cells ?m1 ! i = \<lparr>c_kind = Mux2, c_inputs = [s1, d0, d1], c_output = a\<rparr>"
    using i c cells by (simp_all add: nth_append)
  have leg1: "drives ?m1 leg Mux2 [s2, in0, in1]" by (rule grew_drives [OF E(1) leg(4)])
  have da: "mux_driven ?m1 a" using output_driven [OF m1(1,2) i1] c1 by (auto simp: mux_driven_def)
  have low: "r x < r a" if "x \<in> {s1, d0, d1, leg}" for x using that cell_lower [OF m1 i1, of x] c1 legs(1) by auto
  have lowleg: "r x < r leg" if "x \<in> {s2, in0, in1}" for x using drives_lower [OF m1(3) leg1] that by simp
  have ra: "r x < r a" if "x \<in> {s1, s2, shared, other}" for x
  proof (cases "x = s1")
    case False
    then have "r x < r leg" using lowleg [of x] data that by auto
    then show ?thesis using low [of leg] by simp
  qed (use low in simp)
  have ne: "leg \<noteq> a" using low [of leg] by auto
  have clear: "(a, x) \<notin> (dep ?m1)\<^sup>*" if x: "x \<in> set ?ins" for x
  proof (cases "x = sel")
    case True
    have "(a, s1) \<notin> (dep ?m1)\<^sup>*" "(a, s2) \<notin> (dep ?m1)\<^sup>*" using lower_clear [OF m1(3)] ra by auto
    then show ?thesis using ms(5) [OF da] True by simp
  next
    case False
    then show ?thesis using x data lower_clear [OF m1(3)] ra by auto
  qed
  have same: "cell_fn Mux2 (map v ?ins) = cell_fn (c_kind (gm_cells ?m1 ! i)) (map v (c_inputs (gm_cells ?m1 ! i)))"
    if h: "\<And>j. j < length (gm_cells ?m1) \<Longrightarrow> j \<noteq> i \<Longrightarrow> holds v (gm_cells ?m1 ! j)" for v
  proof -
    have vs: "v sel = mom_fn pat (v s1) (v s2)" using ms(6) [of i v] da h c1 by simp
    have vl: "v leg = cell_fn Mux2 (map v [s2, in0, in1])" by (rule drives_other [OF leg1 _ h, of i]) (use ne c1 in simp_all)
    show ?thesis using mom_value [OF leg(5) vs vl leg(1,2)] c1 by simp
  qed
  have inside: "x < length (gm_nets ?m1)" if "x \<in> set ?ins" for x using that data ms(3) rng le by auto
  have ar: "length ?ins = arity Mux2" using data by simp
  obtain st' where st': "rewrite_cell i Mux2 ?ins st1 = Some st'" "tidy st'" "rebuilt ?m1 (pp_module st')" "pp_module st' = upd ?m1 i Mux2 ?ins"
    "pp_not st' = pp_not st1" "pp_or st' = pp_or st1" "pp_and st' = pp_and st1"
    using rewrite_spec [OF t1 i1 ar inside same] clear c1 by auto
  have run: "retarget_inputs i ?ins st1 = Some st'" using st'(1) i1 c1 by (simp add: retarget_inputs_def cell_at_def)
  have inv': "mom_inv st'" using ms(1) st' i1 c1 nots_ok_upd [of st1 i st'] bins_ok_upd [of st1 i st'] by (auto simp: mom_inv_def)
  have in_i: "leg \<in> set (c_inputs (gm_cells ?m ! i))" using c legs(1) by simp
  have s1: "s1 \<noteq> leg"
    using read_once(1) [OF leg(3) i in_i] c leg(1,2) by (cases b) (auto split: if_splits)
  have before: "mux_driven ?m1 n" if "mux_driven (pp_module st') n" for n
    by (rule mux_driven_upd [OF i1, where ins = ?ins]) (use that c1 st'(4) in simp_all)
  have new: "n \<in># reads_of ?m - mset [s1, d0, d1] + E \<or> n \<in> {shared, other}" "mux_driven ?m n" if n: "n \<in> mux_reads (pp_module st')" for n
  proof -
    have dn: "mux_driven ?m1 n" using n before by (simp add: mux_reads_def)
    then show "mux_driven ?m n" by (rule mux_driven_grew [OF E(1)])
    have "n \<noteq> sel" using dn ms(4) by auto
    moreover have "n \<in> set ?ins \<or> n \<in># reads_of ?m1 - mset [s1, d0, d1]"
      using reads_upd_in [OF i1, of n Mux2 ?ins] n st'(4) c1 by (simp add: mux_reads_def)
    moreover have "mset [s1, d0, d1] \<subseteq># reads_of ?m" using reads_of_upd(1) [OF i] c by simp
    ultimately show "n \<in># reads_of ?m - mset [s1, d0, d1] + E \<or> n \<in> {shared, other}" using data by (auto simp: reads1)
  qed
  have "n \<in># reads_of ?m" if n: "n \<in> mux_reads (pp_module st')" for n
  proof -
    have "n \<in># reads_of ?m - mset [s1, d0, d1] \<or> n \<in># E \<or> n \<in> {shared, other}" using new(1) [OF n] by auto
    moreover have "n \<in># reads_of ?m" if "n \<in># E"
    proof -
      have "n = s1 \<or> n = s2" using E(2) that n before by (auto simp: mux_reads_def)
      then show ?thesis using read_cell [OF i, of s1] c read_driver [OF leg(4), of s2] by auto
    qed
    moreover have "n \<in># reads_of ?m" if "n \<in> {shared, other}" using that data read_driver [OF leg(4), of n] by auto
    ultimately show ?thesis using in_diffD by metis
  qed
  then have sub: "mux_reads (pp_module st') \<subseteq> mux_reads ?m" using new(2) by (auto simp: mux_reads_def)
  have "leg \<notin> mux_reads (pp_module st')"
  proof
    assume n: "leg \<in> mux_reads (pp_module st')"
    have "leg \<notin> {s2, shared, other}" using lowleg [of leg] data by auto
    moreover have "leg \<notin># reads_of ?m - mset [s1, d0, d1]" using read_once_gone [OF leg(3) i in_i] c by simp
    moreover have "mux_driven ?m1 leg" using leg1 by (auto simp: mux_driven_def)
    ultimately show False using new(1) [OF n] E(2) s1 by auto
  qed
  moreover have "leg \<in> mux_reads ?m" using leg(3,4) by (auto simp: mux_reads_def mux_driven_def intro: count_inI)
  ultimately have "mux_reads (pp_module st') \<subset> mux_reads ?m" using sub by blast
  then have "card (mux_reads (pp_module st')) < card (mux_reads ?m)" by (intro psubset_card_mono) simp_all
  moreover have "rebuilt ?m (pp_module st')" using rebuilt_trans [OF reb1 st'(3)] .
  moreover have "length (gm_cells ?m) \<le> length (gm_cells (pp_module st'))" using cells st'(4) by simp
  ultimately show ?thesis using s(1) run inv' by blast
qed

lemma mom_step_spec:
  assumes st: "mom_inv st" and i: "i < length (gm_cells (pp_module st))"
  shows "\<exists>st' hit. on_mux mom_step i st = Some (st', hit) \<and> mom_inv st' \<and> rebuilt (pp_module st) (pp_module st')
    \<and> length (gm_cells (pp_module st)) \<le> length (gm_cells (pp_module st'))
    \<and> (if hit then card (mux_reads (pp_module st')) < card (mux_reads (pp_module st)) else st' = st)"
proof -
  let ?m = "pp_module st"
  have t: "tidy st" and wf: "wf_module ?m" using st by (simp_all add: mom_inv_def tidy_def)
  have skip: ?thesis if "on_mux mom_step i st = Some (st, False)"
    using that st rebuilt_refl [of ?m] by (intro exI [of _ st] exI [of _ False]) simp
  show ?thesis
  proof (rule on_mux_cases [OF wf i, of mom_step])
    fix s1 d0 d1
    assume c: "gm_cells ?m ! i = \<lparr>c_kind = Mux2, c_inputs = [s1, d0, d1], c_output = c_output (gm_cells ?m ! i)\<rparr>"
      and run: "on_mux mom_step i st = mom_step i s1 d0 d1 st" and d: "d0 < length (gm_nets ?m)" "d1 < length (gm_nets ?m)"
    have hit: ?thesis
      if "mom_step i s1 d0 d1 st = do { (sel, st) \<leftarrow> mom_select pat s1 s2 st; st \<leftarrow> retarget_inputs i (sel # mom_data pat d0 d1 other) st; Some (st, True) }"
        "d0 = (if b then leg else shared)" "d1 = (if b then shared else leg)" "count (reads_of ?m) leg = 1"
        "drives ?m leg Mux2 [s2, in0, in1]" "mom_shape b pat shared other in0 in1"
      for pat s2 other in0 in1 b leg shared
    proof -
      note hs = that
      obtain sel st1 st' where h: "mom_select pat s1 s2 st = Some (sel, st1)" "retarget_inputs i (sel # mom_data pat d0 d1 other) st1 = Some st'"
        "mom_inv st'" "rebuilt ?m (pp_module st')" "length (gm_cells ?m) \<le> length (gm_cells (pp_module st'))"
        "card (mux_reads (pp_module st')) < card (mux_reads ?m)" using mom_hit [OF st i c hs(2-6)] by blast
      show ?thesis by (rule exI [of _ st'], rule exI [of _ True]) (simp add: run hs(1) h)
    qed
    show ?thesis
    proof (rule classify_mom_spec [OF t d(1), of s1 d1 True])
      fix pat s2 other in0 in1
      assume h: "classify_mom st s1 d0 d1 True = Some (Some (pat, s2, other))" "count (reads_of ?m) d0 = 1"
        "drives ?m d0 Mux2 [s2, in0, in1]" "mom_shape True pat d1 other in0 in1"
      show ?thesis by (rule hit [where b = True, OF _ _ _ h(2,3,4)]) (simp_all add: mom_step_def h(1))
    next
      assume n: "classify_mom st s1 d0 d1 True = Some None"
      show ?thesis
      proof (rule classify_mom_spec [OF t d(2), of s1 d0 False])
        fix pat s2 other in0 in1
        assume h: "classify_mom st s1 d1 d0 False = Some (Some (pat, s2, other))" "count (reads_of ?m) d1 = 1"
          "drives ?m d1 Mux2 [s2, in0, in1]" "mom_shape False pat d0 other in0 in1"
        show ?thesis by (rule hit [where b = False, OF _ _ _ h(2,3,4)]) (simp_all add: mom_step_def n h(1))
      qed (rule skip, simp add: run mom_step_def n)
    qed
  qed (rule skip)
qed

interpretation merging: sweep_phase "on_mux mom_step" mom_inv rebuilt "\<lambda>st. card (mux_reads (pp_module st))"
  by unfold_locales (use mom_step_spec rebuilt_refl rebuilt_trans in blast)+

end
