(* ===== verification/Postpass_Collapse.thy ===== *)
theory Postpass_Collapse
  imports Postpass_Merge
begin

section \<open>Muxes that are primitive gates\<close>

text \<open>
  A multiplexer with a constant data input, or one that is its select or the complement of the
  other, becomes a gate of two inputs.  The matches are collected before the first is applied;
  a match stays one until it is applied.
\<close>

subsection \<open>Matches\<close>

fun mux_cond :: "gate_module \<Rightarrow> mux_rewrite \<Rightarrow> net_id \<Rightarrow> net_id \<Rightarrow> net_id \<Rightarrow> bool" where
  "mux_cond m AndSel s d0 d1 \<longleftrightarrow> driver (gm_nets m ! d0) = DConst False"
| "mux_cond m OrSel s d0 d1 \<longleftrightarrow> driver (gm_nets m ! d1) = DConst True"
| "mux_cond m AndSelD1 s d0 d1 \<longleftrightarrow> d0 = s"
| "mux_cond m OrSelD0 s d0 d1 \<longleftrightarrow> d1 = s"
| "mux_cond m AndNotSel s d0 d1 \<longleftrightarrow> driver (gm_nets m ! d1) = DConst False"
| "mux_cond m OrNotSel s d0 d1 \<longleftrightarrow> driver (gm_nets m ! d0) = DConst True"
| "mux_cond m XorSel s d0 d1 \<longleftrightarrow> drives m d1 Not1 [d0]"
| "mux_cond m XnorSel s d0 d1 \<longleftrightarrow> drives m d0 Not1 [d1]"

definition mux_ok :: "gate_module \<Rightarrow> nat \<times> mux_rewrite \<Rightarrow> bool" where
  "mux_ok m h \<longleftrightarrow> fst h < length (gm_cells m) \<and> (\<exists>s d0 d1. c_kind (gm_cells m ! fst h) = Mux2
     \<and> c_inputs (gm_cells m ! fst h) = [s, d0, d1] \<and> mux_cond m (snd h) s d0 d1)"

lemma not_of_spec:
  assumes "wf_module m" "n < length (gm_nets m)"
  shows "\<exists>r. not_of m n = Some r \<and> (\<forall>x. r = Some x \<longrightarrow> drives m n Not1 [x])"
proof (rule driving_cell_cases [OF assms])
  fix i assume i: "driving_cell m n = Some (Some (i, gm_cells m ! i))" "drives m n (c_kind (gm_cells m ! i)) (c_inputs (gm_cells m ! i))"
  show ?thesis
  proof (cases "c_kind (gm_cells m ! i) = Not1")
    case True
    then obtain x where "c_inputs (gm_cells m ! i) = [x]" using drives_inputs(1) [OF assms(1) i(2)] by (auto simp: length_Suc_conv)
    then show ?thesis using True i by (simp add: not_of_def)
  qed (use i in \<open>simp add: not_of_def\<close>)
qed (simp add: not_of_def)

lemma mux_match_spec:
  assumes wf: "wf_module m" and i: "i < length (gm_cells m)"
  shows "\<exists>h. mux_match m (i, gm_cells m ! i) = Some h \<and> (\<forall>x. h = Some x \<longrightarrow> fst x = i \<and> mux_ok m x)"
proof (cases "c_kind (gm_cells m ! i) = Mux2")
  case True
  then have "length (c_inputs (gm_cells m ! i)) = 3" using wf_module_arity [OF wf i] by simp
  then obtain s d0 d1 where ins: "c_inputs (gm_cells m ! i) = [s, d0, d1]" by (auto simp: length_3_conv)
  have d: "d0 < length (gm_nets m)" "d1 < length (gm_nets m)" using wf_module_inputs [OF wf i] ins by simp_all
  have const: "const_driver m n = Some (case driver (gm_nets m ! n) of DConst b \<Rightarrow> Some b | _ \<Rightarrow> None)" if "n < length (gm_nets m)" for n
    using that by (simp add: const_driver_def driver_at_def)
  have const_Some: "(case driver (gm_nets m ! n) of DConst b \<Rightarrow> Some b | _ \<Rightarrow> None) = Some b \<longleftrightarrow> driver (gm_nets m ! n) = DConst b" for n b
    by (simp split: net_driver.split)
  obtain n0 n1 where n: "not_of m d0 = Some n0" "not_of m d1 = Some n1" "\<forall>x. n0 = Some x \<longrightarrow> drives m d0 Not1 [x]" "\<forall>x. n1 = Some x \<longrightarrow> drives m d1 Not1 [x]"
    using not_of_spec [OF wf d(1)] not_of_spec [OF wf d(2)] by blast
  obtain k where k: "classify_mux m s d0 d1 = Some k" "\<forall>x. k = Some x \<longrightarrow> mux_cond m x s d0 d1"
    using n by (simp add: classify_mux_def const d const_Some)
  have "mux_match m (i, gm_cells m ! i) = Some (map_option (Pair i) k)" using True ins k(1) by (simp add: mux_match_def)
  then show ?thesis using k(2) True ins i by (auto simp: mux_ok_def)
qed (simp add: mux_match_def)

subsection \<open>Applying a match\<close>

lemma const_value: "consts_hold v m \<Longrightarrow> n < length (gm_nets m) \<Longrightarrow> driver (gm_nets m ! n) = DConst b \<Longrightarrow> v n = b"
  by (simp add: consts_hold_def)

definition collapse_inv :: "postpass_ctx \<Rightarrow> bool" where
  "collapse_inv st \<longleftrightarrow> tidy st \<and> nots_ok st"

text \<open>The cell of the match is replaced, after at most an inverter was added.\<close>

definition replaced :: "nat \<Rightarrow> postpass_ctx \<Rightarrow> postpass_ctx \<Rightarrow> bool" where
  "replaced i st st' \<longleftrightarrow> collapse_inv st' \<and> rebuilt (pp_module st) (pp_module st')
     \<and> (\<forall>j < length (gm_cells (pp_module st)). j \<noteq> i \<longrightarrow> gm_cells (pp_module st') ! j = gm_cells (pp_module st) ! j)
     \<and> (\<forall>n x. drives (pp_module st) n Not1 [x] \<longrightarrow> drives (pp_module st') n Not1 [x])"

lemma replace_mux:
  assumes st: "collapse_inv st" and i: "i < length (gm_cells (pp_module st))" and mux: "c_kind (gm_cells (pp_module st) ! i) = Mux2"
    and k: "length ins = arity k"
    and ins: "\<And>x. x \<in> set ins \<Longrightarrow> x \<in> set (c_inputs (gm_cells (pp_module st) ! i)) \<or> (\<exists>y \<in> set (c_inputs (gm_cells (pp_module st) ! i)). drives (pp_module st) x Not1 [y])"
    and same: "\<And>v. consts_hold v (pp_module st) \<Longrightarrow>
      (\<And>n y. drives (pp_module st) n Not1 [y] \<Longrightarrow> v n = (\<not> v y)) \<Longrightarrow>
      cell_fn k (map v ins) = cell_fn Mux2 (map v (c_inputs (gm_cells (pp_module st) ! i)))"
  shows "\<exists>st'. rewrite_cell i k ins st = Some st' \<and> replaced i st st'"
proof -
  let ?m = "pp_module st"
  have t: "tidy st" "nots_ok st" using st by (simp_all add: collapse_inv_def)
  obtain r where m: "wf_module ?m" "single_driver ?m" "ranked r ?m" using t(1) by (auto simp: tidy_def)
  let ?a = "c_output (gm_cells ?m ! i)"
  have da: "drives ?m ?a Mux2 (c_inputs (gm_cells ?m ! i))" using output_driven [OF m(1,2) i] mux by simp
  have other: "n \<noteq> ?a" if "drives ?m n Not1 [y]" for n y using that drives_unique [OF da] by auto
  have inside: "x < length (gm_nets ?m)" if "x \<in> set ins" for x
    using ins [OF that] wf_module_inputs [OF m(1) i] by (auto simp: drives_def)
  have clear: "(?a, x) \<notin> (dep ?m)\<^sup>*" if x: "x \<in> set ins" for x
  proof (cases "x \<in> set (c_inputs (gm_cells ?m ! i))")
    case False
    then obtain y where y: "y \<in> set (c_inputs (gm_cells ?m ! i))" "drives ?m x Not1 [y]" using ins [OF x] by blast
    show ?thesis by (rule gate_clear [OF y(2) other [OF y(2)]]) (use output_clear [OF m i y(1)] in simp)
  qed (rule output_clear [OF m i])
  have "cell_fn k (map v ins) = cell_fn (c_kind (gm_cells ?m ! i)) (map v (c_inputs (gm_cells ?m ! i)))"
    if "consts_hold v ?m" "\<And>j. j < length (gm_cells ?m) \<Longrightarrow> j \<noteq> i \<Longrightarrow> holds v (gm_cells ?m ! j)" for v
  proof -
    have "v n = (\<not> v y)" if d: "drives ?m n Not1 [y]" for n y
      using drives_other [OF d other [OF d] \<open>\<And>j. j < length (gm_cells ?m) \<Longrightarrow> j \<noteq> i \<Longrightarrow> holds v (gm_cells ?m ! j)\<close>] by simp
    with same [OF that(1)] show ?thesis using mux by simp
  qed
  then obtain st' where st': "rewrite_cell i k ins st = Some st'" "tidy st'" "rebuilt ?m (pp_module st')" "pp_module st' = upd ?m i k ins"
    "pp_not st' = pp_not st" using rewrite_spec [OF t(1) i k inside _ clear] by blast
  have "nots_ok st'" by (rule nots_ok_upd [OF t(2) i _ st'(4,5)]) (simp add: mux)
  moreover have "drives (pp_module st') n Not1 [x]" if "drives ?m n Not1 [x]" for n x
    unfolding st'(4) by (rule drives_upd [OF that i]) (simp add: mux)
  ultimately have "replaced i st st'" using st'(2-4) i by (simp add: replaced_def collapse_inv_def upd_cell)
  then show ?thesis using st'(1) by blast
qed

lemma replaced_gated:
  assumes "grew K E st st1" "i < length (gm_cells (pp_module st))" "replaced i st1 st'"
  shows "replaced i st st'"
proof -
  obtain cs where g: "gated (pp_module st) (pp_module st1) cs" using assms(1) unfolding grew_def by blast
  have cells: "gm_cells (pp_module st1) = gm_cells (pp_module st) @ cs" using g by (simp add: gated_def)
  have "rebuilt (pp_module st) (pp_module st1)" using assms(1) by (simp add: grew_def)
  then have "rebuilt (pp_module st) (pp_module st')" using assms(3) rebuilt_trans unfolding replaced_def by blast
  moreover have "gm_cells (pp_module st') ! j = gm_cells (pp_module st) ! j" if "j < length (gm_cells (pp_module st))" "j \<noteq> i" for j
    using assms(3) that cells by (simp add: replaced_def nth_append)
  ultimately show ?thesis using assms(3) grew_drives [OF assms(1)] unfolding replaced_def by blast
qed

lemma apply_spec:
  assumes st: "collapse_inv st" and h: "mux_ok (pp_module st) (i, k)"
  shows "\<exists>st'. apply_mux_rewrite (i, k) st = Some st' \<and> replaced i st st'"
proof -
  let ?m = "pp_module st"
  obtain s d0 d1 where i: "i < length (gm_cells ?m)" and mux: "c_kind (gm_cells ?m ! i) = Mux2" and ins: "c_inputs (gm_cells ?m ! i) = [s, d0, d1]"
    and cond: "mux_cond ?m k s d0 d1" using h by (auto simp: mux_ok_def)
  have t: "tidy st" "nots_ok st" and wf: "wf_module ?m" using st by (simp_all add: collapse_inv_def tidy_def)
  have d: "s < length (gm_nets ?m)" "d0 < length (gm_nets ?m)" "d1 < length (gm_nets ?m)" using wf_module_inputs [OF wf i] ins by simp_all
  have direct: "\<exists>st'. rewrite_cell i k' [x, y] st = Some st' \<and> replaced i st st'"
    if "arity k' = 2" "x \<in> {s, d0, d1}" "y \<in> {s, d0, d1}"
      "\<And>v. consts_hold v ?m \<Longrightarrow> (\<And>n y. drives ?m n Not1 [y] \<Longrightarrow> v n = (\<not> v y)) \<Longrightarrow> cell_fn k' [v x, v y] = cell_fn Mux2 [v s, v d0, v d1]" for k' x y
    by (rule replace_mux [OF st i mux]) (use that ins in auto)
  have via_not: "\<exists>st'. do { (not_s, st) \<leftarrow> materialize_not s st; rewrite_cell i k' [not_s, y] st } = Some st' \<and> replaced i st st'"
    if k': "arity k' = 2" "y \<in> {s, d0, d1}" and fn: "\<And>v. consts_hold v ?m \<Longrightarrow> cell_fn k' [\<not> v s, v y] = cell_fn Mux2 [v s, v d0, v d1]" for k' y
  proof -
    obtain net st1 E where 1: "materialize_not s st = Some (net, st1)" "nots_ok st1" "drives (pp_module st1) net Not1 [s]" "grew {Not1} E st st1"
      using materialize_not_spec [OF t d(1)] by blast
    obtain cs where g: "gated ?m (pp_module st1) cs" using 1(4) unfolding grew_def by blast
    have cell: "gm_cells (pp_module st1) ! i = gm_cells ?m ! i" "i < length (gm_cells (pp_module st1))" using g i by (simp_all add: gated_def nth_append)
    have kc: "consts_hold v ?m" if "consts_hold v (pp_module st1)" for v
      using that gated_nets(1) [OF g] gated_old [OF g] unfolding consts_hold_def by (metis order_less_le_trans)
    have "\<exists>st'. rewrite_cell i k' [net, y] st1 = Some st' \<and> replaced i st1 st'"
      by (rule replace_mux) (use 1 cell mux ins k' fn kc in \<open>auto simp: collapse_inv_def grew_def\<close>)
    then obtain st' where st': "rewrite_cell i k' [net, y] st1 = Some st'" "replaced i st1 st'" by blast
    show ?thesis using 1(1) st'(1) replaced_gated [OF 1(4) i st'(2)] by simp
  qed
  have run: "apply_mux_rewrite (i, k) st = (case k of
        AndSel \<Rightarrow> rewrite_cell i And2 [s, d1] st
      | AndSelD1 \<Rightarrow> rewrite_cell i And2 [s, d1] st
      | OrSel \<Rightarrow> rewrite_cell i Or2 [s, d0] st
      | OrSelD0 \<Rightarrow> rewrite_cell i Or2 [s, d0] st
      | AndNotSel \<Rightarrow> do { (not_s, st) \<leftarrow> materialize_not s st; rewrite_cell i And2 [not_s, d0] st }
      | OrNotSel \<Rightarrow> do { (not_s, st) \<leftarrow> materialize_not s st; rewrite_cell i Or2 [not_s, d1] st }
      | XorSel \<Rightarrow> rewrite_cell i Xor2 [s, d0] st
      | XnorSel \<Rightarrow> rewrite_cell i Xnor2 [s, d1] st)" using i ins by (simp add: apply_mux_rewrite_def cell_at_def)
  have c0: "consts_hold v ?m \<Longrightarrow> driver (gm_nets ?m ! d0) = DConst b \<Longrightarrow> v d0 = b" for v b by (rule const_value [OF _ d(2)])
  have c1: "consts_hold v ?m \<Longrightarrow> driver (gm_nets ?m ! d1) = DConst b \<Longrightarrow> v d1 = b" for v b by (rule const_value [OF _ d(3)])
  show ?thesis
  proof (cases k)
    case AndSel
    have "\<exists>st'. rewrite_cell i And2 [s, d1] st = Some st' \<and> replaced i st st'"
      by (rule direct) (use cond AndSel in \<open>auto simp: numeral_2_eq_2 dest: c0\<close>)
    then show ?thesis unfolding run by (simp add: AndSel)
  next
    case OrSel
    have "\<exists>st'. rewrite_cell i Or2 [s, d0] st = Some st' \<and> replaced i st st'"
      by (rule direct) (use cond OrSel in \<open>auto simp: numeral_2_eq_2 dest: c1\<close>)
    then show ?thesis unfolding run by (simp add: OrSel)
  next
    case AndSelD1
    have "\<exists>st'. rewrite_cell i And2 [s, d1] st = Some st' \<and> replaced i st st'"
      by (rule direct) (use cond AndSelD1 in \<open>auto simp: numeral_2_eq_2\<close>)
    then show ?thesis unfolding run by (simp add: AndSelD1)
  next
    case OrSelD0
    have "\<exists>st'. rewrite_cell i Or2 [s, d0] st = Some st' \<and> replaced i st st'"
      by (rule direct) (use cond OrSelD0 in \<open>auto simp: numeral_2_eq_2\<close>)
    then show ?thesis unfolding run by (simp add: OrSelD0)
  next
    case AndNotSel
    have "\<exists>st'. do { (not_s, st) \<leftarrow> materialize_not s st; rewrite_cell i And2 [not_s, d0] st } = Some st' \<and> replaced i st st'"
      by (rule via_not) (use cond AndNotSel in \<open>auto simp: numeral_2_eq_2 dest: c1\<close>)
    then show ?thesis unfolding run by (simp add: AndNotSel)
  next
    case OrNotSel
    have "\<exists>st'. do { (not_s, st) \<leftarrow> materialize_not s st; rewrite_cell i Or2 [not_s, d1] st } = Some st' \<and> replaced i st st'"
      by (rule via_not) (use cond OrNotSel in \<open>auto simp: numeral_2_eq_2 dest: c0\<close>)
    then show ?thesis unfolding run by (simp add: OrNotSel)
  next
    case XorSel
    have "\<exists>st'. rewrite_cell i Xor2 [s, d0] st = Some st' \<and> replaced i st st'"
      by (rule direct) (use cond XorSel in \<open>auto simp: numeral_2_eq_2\<close>)
    then show ?thesis unfolding run by (simp add: XorSel)
  next
    case XnorSel
    have "\<exists>st'. rewrite_cell i Xnor2 [s, d1] st = Some st' \<and> replaced i st st'"
      by (rule direct) (use cond XnorSel in \<open>auto simp: numeral_2_eq_2\<close>)
    then show ?thesis unfolding run by (simp add: XnorSel)
  qed
qed

subsection \<open>The phase\<close>

lemma mux_ok_replaced:
  assumes "mux_ok (pp_module st) h" "fst h \<noteq> i" "replaced i st st'" "wf_module (pp_module st)"
  shows "mux_ok (pp_module st') h"
proof -
  let ?m = "pp_module st" and ?m' = "pp_module st'"
  obtain s d0 d1 where h: "fst h < length (gm_cells ?m)" "c_kind (gm_cells ?m ! fst h) = Mux2" "c_inputs (gm_cells ?m ! fst h) = [s, d0, d1]"
    "mux_cond ?m (snd h) s d0 d1" using assms(1) by (auto simp: mux_ok_def)
  have d: "d0 < length (gm_nets ?m)" "d1 < length (gm_nets ?m)" using wf_module_inputs [OF assms(4) h(1)] h(3) by simp_all
  have reb: "rebuilt ?m ?m'" using assms(3) by (simp add: replaced_def)
  obtain ns where "gm_nets ?m' = gm_nets ?m @ ns" "length (gm_cells ?m) \<le> length (gm_cells ?m')" using reb unfolding rebuilt_def by blast
  then have nets: "gm_nets ?m' ! n = gm_nets ?m ! n" if "n < length (gm_nets ?m)" for n using that by (simp add: nth_append)
  have "mux_cond ?m' (snd h) s d0 d1" using h(4) nets d assms(3) by (cases "snd h") (auto simp: replaced_def)
  moreover have "gm_cells ?m' ! fst h = gm_cells ?m ! fst h" using assms(2,3) h(1) by (simp add: replaced_def)
  ultimately show ?thesis using h \<open>length (gm_cells ?m) \<le> length (gm_cells ?m')\<close> by (auto simp: mux_ok_def)
qed

lemma apply_all:
  assumes "collapse_inv st" "\<forall>h \<in> set hs. mux_ok (pp_module st) h" "distinct (map fst hs)"
  shows "\<exists>st'. fold_opt apply_mux_rewrite hs st = Some st' \<and> collapse_inv st' \<and> rebuilt (pp_module st) (pp_module st')"
  using assms
proof (induction hs arbitrary: st)
  case Nil
  then show ?case using rebuilt_refl by simp
next
  case (Cons h hs)
  obtain s1 where s1: "apply_mux_rewrite h st = Some s1" "replaced (fst h) st s1" using apply_spec [of st "fst h" "snd h"] Cons.prems by auto
  have wf: "wf_module (pp_module st)" using Cons.prems(1) by (simp add: collapse_inv_def tidy_def)
  have "mux_ok (pp_module s1) g" if "g \<in> set hs" for g
  proof (rule mux_ok_replaced [OF _ _ s1(2) wf])
    have "fst g \<in> set (map fst hs)" using that by simp
    moreover have "fst h \<notin> set (map fst hs)" using Cons.prems(3) by simp
    ultimately show "fst g \<noteq> fst h" by metis
  qed (use Cons.prems that in simp)
  with Cons.IH [of s1] s1(2) Cons.prems(3) obtain st' where "fold_opt apply_mux_rewrite hs s1 = Some st'" "collapse_inv st'" "rebuilt (pp_module s1) (pp_module st')"
    by (auto simp: replaced_def)
  then show ?case using s1 rebuilt_trans unfolding replaced_def by auto
qed

lemma collapse_spec:
  assumes "tidy st" "nots_ok st"
  shows "\<exists>st'. collapse_mux_to_primitive st = Some st' \<and> tidy st' \<and> rebuilt (pp_module st) (pp_module st')"
proof -
  let ?m = "pp_module st" and ?ics = "enumerate 0 (gm_cells (pp_module st))"
  have wf: "wf_module ?m" using assms(1) by (simp add: tidy_def)
  have one: "\<exists>h. mux_match ?m ic = Some h \<and> (\<forall>x. h = Some x \<longrightarrow> fst x = fst ic \<and> mux_ok ?m x)" if "ic \<in> set ?ics" for ic
    using mux_match_spec [OF wf, of "fst ic"] that by (auto simp: in_set_enumerate_eq)
  define g where "g ic = the (mux_match ?m ic)" for ic
  have g: "mux_match ?m ic = Some (g ic)" "\<And>x. g ic = Some x \<Longrightarrow> fst x = fst ic \<and> mux_ok ?m x" if "ic \<in> set ?ics" for ic
    using one [OF that] by (auto simp: g_def)
  have hits: "those (map (mux_match ?m) ?ics) = Some (map g ?ics)" by (rule those_map_Some) (rule g(1))
  have "distinct (map fst (List.map_filter g ics)) \<and> set (map fst (List.map_filter g ics)) \<subseteq> set (map fst ics) \<and> (\<forall>h \<in> set (List.map_filter g ics). mux_ok ?m h)"
    if "set ics \<subseteq> set ?ics" "distinct (map fst ics)" for ics
    using that
  proof (induction ics)
    case (Cons ic ics)
    then show ?case using g(2) [of ic] by (cases "g ic") (auto simp: map_filter_simps)
  qed (simp add: map_filter_simps)
  from this [of ?ics] have all: "distinct (map fst (List.map_filter g ?ics))" "\<forall>h \<in> set (List.map_filter g ?ics). mux_ok ?m h" by simp_all
  have eq: "List.map_filter id (map g ?ics) = List.map_filter g ?ics" by (simp add: map_filter_def filter_map comp_def)
  show ?thesis using apply_all [of st "List.map_filter g ?ics"] assms all hits eq by (auto simp: collapse_mux_to_primitive_def collapse_inv_def)
qed

end
