(* ===== verification/Postpass_Fuse.thy ===== *)
theory Postpass_Fuse
  imports Postpass_Collapse
begin

section \<open>Factoring and fusion\<close>

text \<open>
  The phases that absorb the driver of a net with one reader into the reader: every hit leaves
  one net less that is read at all.
\<close>

subsection \<open>Absorbing a driver\<close>

definition nets_read :: "gate_module \<Rightarrow> nat" where
  "nets_read m = card (set_mset (reads_of m))"

lemma driver_other_cell:
  assumes "wf_module m" "single_driver m" "ranked r m" "i < length (gm_cells m)" "y \<in> set (c_inputs (gm_cells m ! i))" "drives m y k js"
  shows "y \<noteq> c_output (gm_cells m ! i)" "\<exists>j < length (gm_cells m). j \<noteq> i \<and> gm_cells m ! j = \<lparr>c_kind = k, c_inputs = js, c_output = y\<rparr>"
proof -
  show ne: "y \<noteq> c_output (gm_cells m ! i)" using cell_lower [OF assms(1-5)] by auto
  obtain j where "j < length (gm_cells m)" "gm_cells m ! j = \<lparr>c_kind = k, c_inputs = js, c_output = y\<rparr>"
    using assms(6) unfolding drives_def by blast
  then show "\<exists>j < length (gm_cells m). j \<noteq> i \<and> gm_cells m ! j = \<lparr>c_kind = k, c_inputs = js, c_output = y\<rparr>"
    using ne by (intro exI [of _ j]) auto
qed

lemma absorb_gate:
  assumes st: "tidy st" and i: "i < length (gm_cells (pp_module st))" and k: "length ins = arity k"
    and src: "\<And>x. x \<in> set ins \<Longrightarrow> x \<noteq> up \<and> x \<in> set (c_inputs (gm_cells (pp_module st) ! i))
      \<or> (\<exists>y K js. y \<in> set (c_inputs (gm_cells (pp_module st) ! i)) \<and> drives (pp_module st) y K js \<and> x \<in> set js)"
    and same: "\<And>v. (\<And>y K js. y \<in> set (c_inputs (gm_cells (pp_module st) ! i)) \<Longrightarrow> drives (pp_module st) y K js \<Longrightarrow> v y = cell_fn K (map v js)) \<Longrightarrow>
      cell_fn k (map v ins) = cell_fn (c_kind (gm_cells (pp_module st) ! i)) (map v (c_inputs (gm_cells (pp_module st) ! i)))"
    and up: "up \<in> set (c_inputs (gm_cells (pp_module st) ! i))" "count (reads_of (pp_module st)) up = 1"
  shows "\<exists>st'. rewrite_cell i k ins st = Some st' \<and> tidy st' \<and> rebuilt (pp_module st) (pp_module st')
    \<and> length (gm_cells (pp_module st')) = length (gm_cells (pp_module st)) \<and> nets_read (pp_module st') < nets_read (pp_module st)"
proof -
  let ?m = "pp_module st"
  let ?old = "c_inputs (gm_cells ?m ! i)" and ?a = "c_output (gm_cells ?m ! i)"
  obtain r where m: "wf_module ?m" "single_driver ?m" "ranked r ?m" using st by (auto simp: tidy_def)
  note other = driver_other_cell [OF m i]
  have read: "x \<in># reads_of ?m \<and> x < length (gm_nets ?m) \<and> r x < r ?a \<and> x \<noteq> up" if x: "x \<in> set ins" for x
    using src [OF x]
  proof (elim disjE conjE exE)
    assume "x \<noteq> up" "x \<in> set ?old"
    then show ?thesis using read_cell [OF i] wf_module_inputs [OF m(1) i] cell_lower [OF m i] by simp
  next
    fix y K js assume y: "y \<in> set ?old" "drives ?m y K js" "x \<in> set js"
    obtain j where j: "j < length (gm_cells ?m)" "j \<noteq> i" "gm_cells ?m ! j = \<lparr>c_kind = K, c_inputs = js, c_output = y\<rparr>" using other(2) [OF y(1,2)] by blast
    then have "x \<noteq> up" using read_once(3) [OF up(2) i up(1) j(1,2)] y(3) by auto
    moreover have "r x < r ?a" using drives_lower [OF m(3) y(2,3)] cell_lower [OF m i y(1)] by linarith
    ultimately show ?thesis using read_driver [OF y(2,3)] drives_inputs(2) [OF m(1) y(2,3)] by simp
  qed
  have "cell_fn k (map v ins) = cell_fn (c_kind (gm_cells ?m ! i)) (map v ?old)"
    if h: "\<And>j. j < length (gm_cells ?m) \<Longrightarrow> j \<noteq> i \<Longrightarrow> holds v (gm_cells ?m ! j)" for v
  proof (rule same)
    show "v y = cell_fn K (map v js)" if "y \<in> set ?old" "drives ?m y K js" for y K js
      by (rule drives_other [OF that(2) other(1) [OF that] h])
  qed
  then obtain st' where st': "rewrite_cell i k ins st = Some st'" "tidy st'" "rebuilt ?m (pp_module st')" "pp_module st' = upd ?m i k ins"
    using rewrite_spec [OF st i k] read lower_clear [OF m(3)] by blast
  have "set_mset (reads_of (pp_module st')) \<subseteq> set_mset (reads_of ?m) - {up}"
  proof
    fix x assume "x \<in># reads_of (pp_module st')"
    then consider "x \<in> set ins" | "x \<in># reads_of ?m - mset ?old" using reads_upd_in [OF i] unfolding st'(4) by blast
    then show "x \<in> set_mset (reads_of ?m) - {up}"
      using read read_once_gone [OF up(2) i up(1)] by cases (auto dest: in_diffD)
  qed
  moreover have "up \<in># reads_of ?m" by (rule read_cell [OF i up(1)])
  ultimately have "set_mset (reads_of (pp_module st')) \<subset> set_mset (reads_of ?m)" by blast
  then have "nets_read (pp_module st') < nets_read ?m" unfolding nets_read_def by (intro psubset_card_mono) simp_all
  then show ?thesis using st' by simp
qed

subsection \<open>Compound cells\<close>

lemma not_fused_fn: "not_fused K = Some k \<Longrightarrow> arity k = arity K \<and> cell_fn k bs = (\<not> cell_fn K bs)"
  by (cases K) auto

lemma one_pivot_fn:
  "one_pivot outer inner = Some k \<Longrightarrow> length bs = arity inner \<Longrightarrow> arity k = Suc (arity inner) \<and> cell_fn k (bs @ [c]) = cell_fn outer [cell_fn inner bs, c]"
  by (cases inner; cases outer) (auto simp: one_pivot_def nth_append numeral_2_eq_2 numeral_3_eq_3)

lemma two_pivot_fn:
  "two_pivot outer = Some (leg, k) \<Longrightarrow> arity leg = 2 \<and> arity k = 4 \<and> cell_fn k [a, b, c, d] = cell_fn outer [cell_fn leg [a, b], cell_fn leg [c, d]]"
  by (cases outer) (auto simp: numeral_2_eq_2 numeral_3_eq_3)

lemma gate2_comm: "k \<in> {And2, Or2, Nand2, Nor2} \<Longrightarrow> cell_fn k [a, b] = cell_fn k [b, a] \<and> arity k = 2"
  by auto

lemma sole_driver_spec:
  assumes "tidy st" "n < length (gm_nets (pp_module st))"
  obtains "sole_driver st n = Some None"
  | up where "sole_driver st n = Some (Some up)" "count (reads_of (pp_module st)) n = 1" "drives (pp_module st) n (c_kind up) (c_inputs up)"
proof (cases "count (reads_of (pp_module st)) n = 1")
  case True
  have wf: "wf_module (pp_module st)" using assms(1) by (simp add: tidy_def)
  show ?thesis
    by (rule driving_cell_cases [OF wf assms(2)]) (use that True in \<open>auto simp: sole_driver_def count_at [OF assms]\<close>)
qed (use that(1) in \<open>simp add: sole_driver_def count_at [OF assms]\<close>)

lemma two_arms_spec:
  assumes "tidy st" "x < length (gm_nets (pp_module st))" "y < length (gm_nets (pp_module st))"
  obtains "two_arms st x y = Some None"
  | i j where "two_arms st x y = Some (Some ((i, gm_cells (pp_module st) ! i), (j, gm_cells (pp_module st) ! j)))"
      "count (reads_of (pp_module st)) x = 1" "count (reads_of (pp_module st)) y = 1"
      "i < length (gm_cells (pp_module st))" "j < length (gm_cells (pp_module st))"
      "c_output (gm_cells (pp_module st) ! i) = x" "c_output (gm_cells (pp_module st) ! j) = y"
      "drives (pp_module st) x (c_kind (gm_cells (pp_module st) ! i)) (c_inputs (gm_cells (pp_module st) ! i))"
      "drives (pp_module st) y (c_kind (gm_cells (pp_module st) ! j)) (c_inputs (gm_cells (pp_module st) ! j))"
proof (cases "count (reads_of (pp_module st)) x = 1 \<and> count (reads_of (pp_module st)) y = 1")
  case True
  have wf: "wf_module (pp_module st)" using assms(1) by (simp add: tidy_def)
  note counts = count_at [OF assms(1,2)] count_at [OF assms(1,3)]
  show ?thesis
  proof (rule driving_cell_cases [OF wf assms(2)])
    fix i assume i: "driving_cell (pp_module st) x = Some (Some (i, gm_cells (pp_module st) ! i))" "i < length (gm_cells (pp_module st))"
      "c_output (gm_cells (pp_module st) ! i) = x" "drives (pp_module st) x (c_kind (gm_cells (pp_module st) ! i)) (c_inputs (gm_cells (pp_module st) ! i))"
    show ?thesis
      by (rule driving_cell_cases [OF wf assms(3)]) (use that True i in \<open>auto simp: two_arms_def counts\<close>)
  qed (use that(1) True in \<open>simp add: two_arms_def counts\<close>)
next
  case False
  then show ?thesis using that(1) by (auto simp: two_arms_def count_at [OF assms(1,2)] count_at [OF assms(1,3)])
qed

text \<open>A replacement of a cell that takes in a driver which no other cell reads.\<close>

definition absorbable :: "postpass_ctx \<Rightarrow> nat \<Rightarrow> cell_kind \<times> net_id list \<Rightarrow> bool" where
  "absorbable st i h \<longleftrightarrow> (let old = c_inputs (gm_cells (pp_module st) ! i) in length (snd h) = arity (fst h)
     \<and> (\<exists>up \<in> set old. count (reads_of (pp_module st)) up = 1 \<and> (\<forall>x \<in> set (snd h). x \<noteq> up \<and> x \<in> set old
          \<or> (\<exists>y K js. y \<in> set old \<and> drives (pp_module st) y K js \<and> x \<in> set js)))
     \<and> (\<forall>v. (\<forall>y \<in> set old. \<forall>K js. drives (pp_module st) y K js \<longrightarrow> v y = cell_fn K (map v js)) \<longrightarrow>
          cell_fn (fst h) (map v (snd h)) = cell_fn (c_kind (gm_cells (pp_module st) ! i)) (map v old)))"

lemma absorbable_rewrite:
  assumes "tidy st" "i < length (gm_cells (pp_module st))" "absorbable st i (k, ins)"
  shows "\<exists>st'. rewrite_cell i k ins st = Some st' \<and> tidy st' \<and> rebuilt (pp_module st) (pp_module st')
    \<and> length (gm_cells (pp_module st')) = length (gm_cells (pp_module st)) \<and> nets_read (pp_module st') < nets_read (pp_module st)"
proof -
  let ?old = "c_inputs (gm_cells (pp_module st) ! i)"
  obtain up where up: "up \<in> set ?old" "count (reads_of (pp_module st)) up = 1" "\<And>x. x \<in> set ins \<Longrightarrow> x \<noteq> up \<and> x \<in> set ?old
      \<or> (\<exists>y K js. y \<in> set ?old \<and> drives (pp_module st) y K js \<and> x \<in> set js)"
    and h: "length ins = arity k" "\<And>v. \<forall>y \<in> set ?old. \<forall>K js. drives (pp_module st) y K js \<longrightarrow> v y = cell_fn K (map v js) \<Longrightarrow>
          cell_fn k (map v ins) = cell_fn (c_kind (gm_cells (pp_module st) ! i)) (map v ?old)"
    using assms(3) unfolding absorbable_def Let_def by auto
  show ?thesis by (rule absorb_gate [OF assms(1,2) h(1) up(3) _ up(1,2)]) (use h(2) in blast)+
qed

lemma fuse_not_spec:
  assumes st: "tidy st" and i: "i < length (gm_cells (pp_module st))" and k: "c_kind (gm_cells (pp_module st) ! i) = Not1"
  shows "\<exists>h. fuse_not st (gm_cells (pp_module st) ! i) = Some h \<and> (\<forall>x. h = Some x \<longrightarrow> absorbable st i x)"
proof -
  have wf: "wf_module (pp_module st)" using st by (simp add: tidy_def)
  obtain n where n: "c_inputs (gm_cells (pp_module st) ! i) = [n]" using wf_module_arity [OF wf i] k by (auto simp: length_Suc_conv)
  have "n < length (gm_nets (pp_module st))" using wf_module_inputs [OF wf i] n by simp
  then show ?thesis
  proof (rule sole_driver_spec [OF st])
    fix up assume up: "sole_driver st n = Some (Some up)" "count (reads_of (pp_module st)) n = 1" "drives (pp_module st) n (c_kind up) (c_inputs up)"
    have len: "length (c_inputs up) = arity (c_kind up)" by (rule drives_inputs(1) [OF wf up(3)])
    have "absorbable st i (fk, c_inputs up)" if "not_fused (c_kind up) = Some fk" for fk
      using not_fused_fn [OF that] up(2,3) len n k unfolding absorbable_def Let_def by auto
    then show ?thesis using n up(1) by (auto simp: fuse_not_def split: option.splits)
  qed (use n in \<open>simp add: fuse_not_def\<close>)
qed

lemma fuse_one_spec:
  assumes st: "tidy st" and i: "i < length (gm_cells (pp_module st))" and k: "c_kind (gm_cells (pp_module st) ! i) \<in> {And2, Or2, Nand2, Nor2}"
    and p: "p = 0 \<and> q = Suc 0 \<or> p = Suc 0 \<and> q = 0"
  shows "\<exists>h. fuse_one st (gm_cells (pp_module st) ! i) p q = Some h \<and> (\<forall>x. h = Some x \<longrightarrow> absorbable st i x)"
proof -
  let ?c = "gm_cells (pp_module st) ! i"
  have wf: "wf_module (pp_module st)" using st by (simp add: tidy_def)
  have "length (c_inputs ?c) = 2" using wf_module_arity [OF wf i] gate2_comm [OF k] by simp
  then obtain a b where ab: "c_inputs ?c = [a, b]" by (auto simp: length_2_conv)
  let ?u = "c_inputs ?c ! p" and ?o = "c_inputs ?c ! q"
  have u: "nth_opt (c_inputs ?c) p = Some ?u" "nth_opt (c_inputs ?c) q = Some ?o" "?u \<in> set (c_inputs ?c)" "?o \<in> set (c_inputs ?c)"
    using p ab by auto
  have "?u < length (gm_nets (pp_module st))" using wf_module_inputs [OF wf i u(3)] .
  then show ?thesis
  proof (rule sole_driver_spec [OF st])
    fix up assume up: "sole_driver st ?u = Some (Some up)" "count (reads_of (pp_module st)) ?u = 1" "drives (pp_module st) ?u (c_kind up) (c_inputs up)"
    have len: "length (c_inputs up) = arity (c_kind up)" by (rule drives_inputs(1) [OF wf up(3)])
    have ne: "?o \<noteq> ?u" using read_once(1) [OF up(2) i u(3)] p ab by (auto split: if_splits)
    have "absorbable st i (fk, c_inputs up @ [?o])" if fk: "one_pivot (c_kind ?c) (c_kind up) = Some fk" for fk
    proof -
      have fn: "arity fk = Suc (arity (c_kind up))" "\<And>v. cell_fn fk (map v (c_inputs up) @ [v ?o]) = cell_fn (c_kind ?c) [cell_fn (c_kind up) (map v (c_inputs up)), v ?o]"
        using one_pivot_fn [OF fk, of "map (\<lambda>_. True) (c_inputs up)"] one_pivot_fn [OF fk, of "map v (c_inputs up)" "v ?o" for v] len by simp_all
      have "cell_fn fk (map v (c_inputs up @ [?o])) = cell_fn (c_kind ?c) (map v (c_inputs ?c))"
        if "\<forall>y \<in> set (c_inputs ?c). \<forall>K js. drives (pp_module st) y K js \<longrightarrow> v y = cell_fn K (map v js)" for v
      proof -
        have "v ?u = cell_fn (c_kind up) (map v (c_inputs up))" using that u(3) up(3) by blast
        then show ?thesis using fn(2) [of v] gate2_comm [OF k, of "v b" "v a"] p ab by auto
      qed
      then show ?thesis using fn(1) len up(2,3) u(3,4) ne unfolding absorbable_def Let_def by auto
    qed
    then show ?thesis using u(1,2) up(1) by (auto simp: fuse_one_def split: option.splits)
  qed (use u(1) in \<open>simp add: fuse_one_def\<close>)
qed

lemma fuse_two_spec:
  assumes st: "tidy st" and i: "i < length (gm_cells (pp_module st))" and k: "c_kind (gm_cells (pp_module st) ! i) \<in> {And2, Or2, Nand2, Nor2}"
  shows "\<exists>h. fuse_two st (gm_cells (pp_module st) ! i) = Some h \<and> (\<forall>x. h = Some x \<longrightarrow> absorbable st i x)"
proof (cases "two_pivot (c_kind (gm_cells (pp_module st) ! i))")
  case None
  then show ?thesis by (simp add: fuse_two_def)
next
  case (Some lk)
  then obtain leg fk where fk: "two_pivot (c_kind (gm_cells (pp_module st) ! i)) = Some (leg, fk)" by (cases lk) simp
  let ?m = "pp_module st" and ?c = "gm_cells (pp_module st) ! i"
  have wf: "wf_module ?m" using st by (simp add: tidy_def)
  have "length (c_inputs ?c) = 2" using wf_module_arity [OF wf i] gate2_comm [OF k] by simp
  then obtain a b where ab: "c_inputs ?c = [a, b]" by (auto simp: length_2_conv)
  have rng: "a < length (gm_nets ?m)" "b < length (gm_nets ?m)" using wf_module_inputs [OF wf i] ab by simp_all
  show ?thesis
  proof (rule two_arms_spec [OF st rng])
    fix j l assume h: "two_arms st a b = Some (Some ((j, gm_cells ?m ! j), (l, gm_cells ?m ! l)))"
      "count (reads_of ?m) a = 1" "drives ?m a (c_kind (gm_cells ?m ! j)) (c_inputs (gm_cells ?m ! j))"
      "drives ?m b (c_kind (gm_cells ?m ! l)) (c_inputs (gm_cells ?m ! l))"
    show ?thesis
    proof (cases "c_kind (gm_cells ?m ! j) = leg \<and> c_kind (gm_cells ?m ! l) = leg")
      case True
      obtain l0 l1 where l: "c_inputs (gm_cells ?m ! j) = [l0, l1]" using drives_inputs(1) [OF wf h(3)] two_pivot_fn [OF fk] True by (auto simp: length_2_conv)
      obtain r0 r1 where r: "c_inputs (gm_cells ?m ! l) = [r0, r1]" using drives_inputs(1) [OF wf h(4)] two_pivot_fn [OF fk] True by (auto simp: length_2_conv)
      have d: "drives ?m a leg [l0, l1]" "drives ?m b leg [r0, r1]" using h(3,4) True l r by simp_all
      have "cell_fn fk (map v [l0, l1, r0, r1]) = cell_fn (c_kind ?c) (map v [a, b])"
        if "\<forall>y \<in> set [a, b]. \<forall>K js. drives ?m y K js \<longrightarrow> v y = cell_fn K (map v js)" for v
      proof -
        have "v a = cell_fn leg (map v [l0, l1])" "v b = cell_fn leg (map v [r0, r1])" using that d by auto
        then show ?thesis using two_pivot_fn [OF fk, of "v l0" "v l1" "v r0" "v r1"] by simp
      qed
      moreover have "\<exists>y K js. y \<in> set [a, b] \<and> drives ?m y K js \<and> x \<in> set js" if "x \<in> set [l0, l1, r0, r1]" for x
        using that d by fastforce
      ultimately have "absorbable st i (fk, [l0, l1, r0, r1])" using two_pivot_fn [OF fk] h(2) ab unfolding absorbable_def Let_def by auto
      then show ?thesis using fk ab h(1) True l r by (simp add: fuse_two_def)
    qed (use fk ab h(1) in \<open>auto simp: fuse_two_def\<close>)
  qed (use fk ab in \<open>simp add: fuse_two_def\<close>)
qed

lemma or_else_spec:
  "\<exists>h. x = Some h \<and> (\<forall>r. h = Some r \<longrightarrow> P r) \<Longrightarrow> \<exists>h. y = Some h \<and> (\<forall>r. h = Some r \<longrightarrow> P r) \<Longrightarrow> \<exists>h. or_else x y = Some h \<and> (\<forall>r. h = Some r \<longrightarrow> P r)"
  by (auto simp: or_else_def split: option.splits)

lemma try_complex_fuse_spec:
  assumes st: "tidy st" and i: "i < length (gm_cells (pp_module st))"
  shows "\<exists>h. try_complex_fuse st i = Some h \<and> (\<forall>x. h = Some x \<longrightarrow> absorbable st i x)"
proof -
  let ?c = "gm_cells (pp_module st) ! i"
  consider "c_kind ?c = Not1" | "c_kind ?c \<in> {And2, Or2, Nand2, Nor2}" | "c_kind ?c \<notin> {Not1, And2, Or2, Nand2, Nor2}" by blast
  then show ?thesis
  proof cases
    case 1
    then show ?thesis using fuse_not_spec [OF st i] i by (simp add: try_complex_fuse_def cell_at_def)
  next
    case 2
    have "try_complex_fuse st i = or_else (fuse_two st ?c) (or_else (fuse_one st ?c 0 1) (fuse_one st ?c 1 0))"
      using 2 i by (auto simp: try_complex_fuse_def cell_at_def)
    then show ?thesis
      using or_else_spec [OF fuse_two_spec [OF st i 2] or_else_spec [OF fuse_one_spec [OF st i 2] fuse_one_spec [OF st i 2]], of 0 1 1 0] by simp
  next
    case 3
    then show ?thesis using i by (simp add: try_complex_fuse_def cell_at_def)
  qed
qed

lemma fuse_step_spec:
  assumes st: "tidy st" and i: "i < length (gm_cells (pp_module st))"
  shows "\<exists>st' hit. fuse_step i st = Some (st', hit) \<and> tidy st' \<and> rebuilt (pp_module st) (pp_module st')
    \<and> length (gm_cells (pp_module st)) \<le> length (gm_cells (pp_module st'))
    \<and> (if hit then nets_read (pp_module st') < nets_read (pp_module st) else st' = st)"
proof -
  obtain h where h: "try_complex_fuse st i = Some h" "\<And>x. h = Some x \<Longrightarrow> absorbable st i x" using try_complex_fuse_spec [OF st i] by blast
  show ?thesis
  proof (cases h)
    case None
    then show ?thesis using h(1) st rebuilt_refl by (intro exI [of _ st] exI [of _ False]) (simp add: fuse_step_def)
  next
    case (Some x)
    then obtain k ins where x: "h = Some (k, ins)" by (cases x) simp
    obtain st' where st': "rewrite_cell i k ins st = Some st'" "tidy st'" "rebuilt (pp_module st) (pp_module st')"
      "length (gm_cells (pp_module st')) = length (gm_cells (pp_module st))" "nets_read (pp_module st') < nets_read (pp_module st)"
      using absorbable_rewrite [OF st i h(2) [OF x]] by blast
    show ?thesis by (rule exI [of _ st'], rule exI [of _ True]) (simp add: fuse_step_def h(1) x st')
  qed
qed

interpretation fusing: sweep_phase fuse_step tidy rebuilt "\<lambda>st. nets_read (pp_module st)"
  by unfold_locales (use fuse_step_spec rebuilt_refl rebuilt_trans in blast)+

end
