(* ===== verification/Worklist.thy ===== *)
theory Worklist
  imports Netlist "HOL-Library.Multiset"
begin

section \<open>Alias resolution, cell keys and local rewrites (\<open>conv/worklist.rs\<close>)\<close>

text \<open>
  The helpers of the worklist pass: following chains of \<open>Buf\<close> cells, the key under which
  structurally equal cells are found, and the algebraic rewrites. A net index or a cell
  index out of range is a panic. \<open>resolve_alias\<close> is a loop that need not end: its value is
  \<open>None\<close> when it panics or does not return.
\<close>

subsection \<open>Following aliases\<close>

partial_function (option) resolve_alias :: "gate_module \<Rightarrow> net_id \<Rightarrow> net_id option" where
  "resolve_alias m net =
     (if net < length (gm_nets m)
      then case driver (gm_nets m ! net) of
             DCell idx \<Rightarrow>
               (if idx < length (gm_cells m)
                then let cell = gm_cells m ! idx
                     in if c_kind cell = Buf
                        then (case c_inputs cell of [] \<Rightarrow> None | n # _ \<Rightarrow> resolve_alias m n)
                        else Some net
                else None)
           | _ \<Rightarrow> Some net
      else None)"

text \<open>Whether a net is driven by a \<open>Buf\<close> cell, and that cell's input.\<close>

definition buf_source :: "gate_module \<Rightarrow> net_id \<Rightarrow> net_id option" where
  "buf_source m n = (case driver (gm_nets m ! n) of
      DCell i \<Rightarrow> (if c_kind (gm_cells m ! i) = Buf then Some (c_inputs (gm_cells m ! i) ! 0) else None)
    | _ \<Rightarrow> None)"

lemma resolve_alias_step:
  assumes "wf_module m" "n < length (gm_nets m)"
  shows "resolve_alias m n = (case buf_source m n of None \<Rightarrow> Some n | Some s \<Rightarrow> resolve_alias m s)"
proof (cases "driver (gm_nets m ! n)")
  case (DCell i)
  then have i: "i < length (gm_cells m)" using wf_module_driver [OF assms] by blast
  then have "c_inputs (gm_cells m ! i) \<noteq> []" 
    using wf_module_arity [OF assms(1) i] arity_pos [of "c_kind (gm_cells m ! i)"] by (metis length_0_conv less_numeral_extra(3))
  with DCell i assms(2) show ?thesis
    by (subst resolve_alias.simps) (auto simp: buf_source_def Let_def neq_Nil_conv)
qed (use assms(2) in \<open>simp_all add: buf_source_def resolve_alias.simps [of m n]\<close>)

lemma buf_source_range:
  assumes "wf_module m" "n < length (gm_nets m)" "buf_source m n = Some s"
  shows "s < length (gm_nets m)" and "msat v m \<Longrightarrow> v s = v n"
proof -
  obtain i where d: "driver (gm_nets m ! n) = DCell i" and k: "c_kind (gm_cells m ! i) = Buf"
    and s: "s = c_inputs (gm_cells m ! i) ! 0"
    using assms(3) by (auto simp: buf_source_def split: net_driver.splits if_splits)
  have i: "i < length (gm_cells m)" "c_output (gm_cells m ! i) = n" using wf_module_driver [OF assms(1,2) d] by auto
  have one: "length (c_inputs (gm_cells m ! i)) = 1" using wf_module_arity [OF assms(1) i(1)] k by simp
  then show "s < length (gm_nets m)" using wf_module_inputs [OF assms(1) i(1)] s by simp
  show "v s = v n" if "msat v m"
    using msat_holds [OF that i(1)] one i k s by (simp add: holds_def)
qed

lemma resolve_alias_ends:
  fixes r :: "net_id \<Rightarrow> nat"
  assumes "wf_module m" and "\<And>n s. n < length (gm_nets m) \<Longrightarrow> buf_source m n = Some s \<Longrightarrow> r s < r n"
    and "n < length (gm_nets m)"
  shows "\<exists>n'. resolve_alias m n = Some n' \<and> n' < length (gm_nets m) \<and> buf_source m n' = None \<and>
    (\<forall>v. msat v m \<longrightarrow> v n' = v n)"
  using assms(3)
proof (induction "r n" arbitrary: n rule: less_induct)
  case less
  show ?case
  proof (cases "buf_source m n")
    case None
    with less.prems show ?thesis by (simp add: resolve_alias_step [OF assms(1)])
  next
    case (Some s)
    then have "s < length (gm_nets m)" "r s < r n"
      using buf_source_range [OF assms(1) less.prems] assms(2) less.prems by auto
    from less.hyps [OF this(2,1)] obtain n' where "resolve_alias m s = Some n'" "n' < length (gm_nets m)"
      "buf_source m n' = None" "\<forall>v. msat v m \<longrightarrow> v n' = v s" by blast
    with buf_source_range(2) [OF assms(1) less.prems Some] Some
    show ?thesis by (auto simp: resolve_alias_step [OF assms(1) less.prems])
  qed
qed

subsection \<open>Keys of structurally equal cells\<close>

definition CSE_PAD :: net_id where "CSE_PAD = 2 ^ 32 - 1"

definition ordered :: "net_id \<Rightarrow> net_id \<Rightarrow> net_id \<times> net_id" where
  "ordered a b = (if a \<le> b then (a, b) else (b, a))"

definition pair_le :: "net_id \<times> net_id \<Rightarrow> net_id \<times> net_id \<Rightarrow> bool" where
  "pair_le p q \<longleftrightarrow> fst p < fst q \<or> fst p = fst q \<and> snd p \<le> snd q"

definition key_2 :: "cell_kind \<Rightarrow> net_id list \<Rightarrow> (cell_kind \<times> net_id list) option" where
  "key_2 k ins = (case ordered (ins ! 0) (ins ! 1) of (lo, hi) \<Rightarrow> Some (k, [lo, hi, CSE_PAD, CSE_PAD]))"

definition key_3 :: "cell_kind \<Rightarrow> net_id list \<Rightarrow> (cell_kind \<times> net_id list) option" where
  "key_3 k ins = (let s = sort [ins ! 0, ins ! 1, ins ! 2] in Some (k, [s ! 0, s ! 1, s ! 2, CSE_PAD]))"

definition key_21 :: "cell_kind \<Rightarrow> net_id list \<Rightarrow> (cell_kind \<times> net_id list) option" where
  "key_21 k ins = (case ordered (ins ! 0) (ins ! 1) of (lo, hi) \<Rightarrow> Some (k, [lo, hi, ins ! 2, CSE_PAD]))"

definition key_22 :: "cell_kind \<Rightarrow> net_id list \<Rightarrow> (cell_kind \<times> net_id list) option" where
  "key_22 k ins =
     (let p = ordered (ins ! 0) (ins ! 1); q = ordered (ins ! 2) (ins ! 3);
          (p', q') = (if pair_le p q then (p, q) else (q, p))
      in Some (k, [fst p', snd p', fst q', snd q']))"

definition key_31 :: "cell_kind \<Rightarrow> net_id list \<Rightarrow> (cell_kind \<times> net_id list) option" where
  "key_31 k ins = (let s = sort [ins ! 0, ins ! 1, ins ! 2] in Some (k, [s ! 0, s ! 1, s ! 2, ins ! 3]))"

fun cse_key :: "cell_kind \<Rightarrow> net_id list \<Rightarrow> (cell_kind \<times> net_id list) option" where
  "cse_key Buf ins = None"
| "cse_key Not1 ins = Some (Not1, [ins ! 0, CSE_PAD, CSE_PAD, CSE_PAD])"
| "cse_key And2 ins = key_2 And2 ins"
| "cse_key Or2 ins = key_2 Or2 ins"
| "cse_key Nand2 ins = key_2 Nand2 ins"
| "cse_key Nor2 ins = key_2 Nor2 ins"
| "cse_key Xor2 ins = key_2 Xor2 ins"
| "cse_key Xnor2 ins = key_2 Xnor2 ins"
| "cse_key And3 ins = key_3 And3 ins"
| "cse_key Or3 ins = key_3 Or3 ins"
| "cse_key Nand3 ins = key_3 Nand3 ins"
| "cse_key Nor3 ins = key_3 Nor3 ins"
| "cse_key Ao21 ins = key_21 Ao21 ins"
| "cse_key Aoi21 ins = key_21 Aoi21 ins"
| "cse_key Oa21 ins = key_21 Oa21 ins"
| "cse_key Oai21 ins = key_21 Oai21 ins"
| "cse_key Ao22 ins = key_22 Ao22 ins"
| "cse_key Aoi22 ins = key_22 Aoi22 ins"
| "cse_key Oai22 ins = key_22 Oai22 ins"
| "cse_key Ao31 ins = key_31 Ao31 ins"
| "cse_key Aoi31 ins = key_31 Aoi31 ins"
| "cse_key Mux2 ins = Some (Mux2, [ins ! 0, ins ! 1, ins ! 2, CSE_PAD])"

lemmas key_defs = key_2_def key_3_def key_21_def key_22_def key_31_def

lemma cse_key_kind: "cse_key k ins = Some (k', key) \<Longrightarrow> k' = k"
  by (cases k) (auto simp: key_defs Let_def ordered_def split: if_splits)

text \<open>The key lists nets with which the cell computes the same function.\<close>

lemma key_2_perm: "key_2 k [a, b] = Some (k', key) \<Longrightarrow> key \<in> {[a, b, CSE_PAD, CSE_PAD], [b, a, CSE_PAD, CSE_PAD]}"
  by (auto simp: key_2_def ordered_def split: if_splits)

lemma key_21_perm: "key_21 k [a, b, c] = Some (k', key) \<Longrightarrow> key \<in> {[a, b, c, CSE_PAD], [b, a, c, CSE_PAD]}"
  by (auto simp: key_21_def ordered_def split: if_splits)

lemma key_22_perm: "key_22 k [a, b, c, d] = Some (k', key) \<Longrightarrow> \<exists>w x y z. key = [w, x, y, z] \<and>
    ({w, x} = {a, b} \<and> {y, z} = {c, d} \<or> {w, x} = {c, d} \<and> {y, z} = {a, b})"
  by (auto simp: key_22_def ordered_def Let_def split: if_splits)

lemma sort_3: "\<exists>x y z. sort [a, b, c :: net_id] = [x, y, z] \<and> {x, y, z} = {a, b, c}"
proof -
  have "length (sort [a, b, c]) = 3" by (simp only: length_sort, simp)
  then obtain x y z where s: "sort [a, b, c] = [x, y, z]" unfolding length_3_conv by blast
  have "set (sort [a, b, c]) = {a, b, c}" by (simp only: set_sort, simp)
  with s show ?thesis by (metis list.simps(15) empty_set)
qed

lemma key_3_perm: "key_3 k [a, b, c] = Some (k', key) \<Longrightarrow> \<exists>x y z. key = [x, y, z, CSE_PAD] \<and> {x, y, z} = {a, b, c}"
  using sort_3 [of a b c] by (auto simp: key_3_def Let_def simp del: sort_key_simps)

lemma key_31_perm: "key_31 k [a, b, c, d] = Some (k', key) \<Longrightarrow> \<exists>x y z. key = [x, y, z, d] \<and> {x, y, z} = {a, b, c}"
  using sort_3 [of a b c] by (auto simp: key_31_def Let_def simp del: sort_key_simps)

lemma all_any_cong:
  "{x, y} = {a, b} \<Longrightarrow> (v x \<and> v y) = (v a \<and> v b) \<and> (v x \<or> v y) = (v a \<or> v b)"
  "{x, y, z} = {a, b, c} \<Longrightarrow> (v x \<and> v y \<and> v z) = (v a \<and> v b \<and> v c) \<and> (v x \<or> v y \<or> v z) = (v a \<or> v b \<or> v c)"
proof -
  show "(v x \<and> v y) = (v a \<and> v b) \<and> (v x \<or> v y) = (v a \<or> v b)" if "{x, y} = {a, b}"
  proof -
    have "(\<forall>i \<in> {x, y}. v i) = (\<forall>i \<in> {a, b}. v i)" "(\<exists>i \<in> {x, y}. v i) = (\<exists>i \<in> {a, b}. v i)"
      unfolding that by simp_all
    then show ?thesis by auto
  qed
  show "(v x \<and> v y \<and> v z) = (v a \<and> v b \<and> v c) \<and> (v x \<or> v y \<or> v z) = (v a \<or> v b \<or> v c)" if "{x, y, z} = {a, b, c}"
  proof -
    have "(\<forall>i \<in> {x, y, z}. v i) = (\<forall>i \<in> {a, b, c}. v i)" "(\<exists>i \<in> {x, y, z}. v i) = (\<exists>i \<in> {a, b, c}. v i)"
      unfolding that by simp_all
    then show ?thesis by auto
  qed
qed

lemma cse_key_fn_2:
  assumes "cse_key k ins = Some (k', key)" "length ins = arity k" "arity k \<le> 2"
  shows "cell_fn k (map v key) = cell_fn k (map v ins)"
  using assms by (cases k) (auto simp: arity_conv dest!: key_2_perm)

lemma cse_key_fn_3:
  assumes "cse_key k ins = Some (k', key)" "length ins = arity k" "arity k = 3"
  shows "cell_fn k (map v key) = cell_fn k (map v ins)"
proof -
  obtain a b c where ins: "ins = [a, b, c]" using assms(2,3) by (auto simp: length_3_conv)
  show ?thesis
  proof (cases "k \<in> {And3, Or3, Nand3, Nor3}")
    case True
    then have "key_3 k [a, b, c] = Some (k', key)" using assms(1) ins by auto
    then obtain x y z where key: "key = [x, y, z, CSE_PAD]" and "{x, y, z} = {a, b, c}" by (auto dest: key_3_perm)
    from all_any_cong(2) [OF this(2), of v] True show ?thesis by (auto simp: key ins)
  next
    case False
    with assms(3) consider "k = Mux2" | "k \<in> {Ao21, Aoi21, Oa21, Oai21}" by (cases k) auto
    then show ?thesis
    proof cases
      case 1
      with assms(1) show ?thesis by (auto simp: ins)
    next
      case 2
      then have "key_21 k [a, b, c] = Some (k', key)" using assms(1) ins by auto
      then have "key \<in> {[a, b, c, CSE_PAD], [b, a, c, CSE_PAD]}" by (rule key_21_perm)
      with 2 show ?thesis by (auto simp: ins)
    qed
  qed
qed

lemma cse_key_fn_4:
  assumes "cse_key k ins = Some (k', key)" "length ins = arity k" "arity k = 4"
  shows "cell_fn k (map v key) = cell_fn k (map v ins)"
proof -
  obtain a b c d where ins: "ins = [a, b, c, d]" using assms(2,3) by (auto simp: length_4_conv)
  show ?thesis
  proof (cases "k \<in> {Ao31, Aoi31}")
    case True
    then have "key_31 k [a, b, c, d] = Some (k', key)" using assms(1) ins by auto
    then obtain x y z where key: "key = [x, y, z, d]" and "{x, y, z} = {a, b, c}" by (auto dest: key_31_perm)
    from all_any_cong(2) [OF this(2), of v] True show ?thesis by (auto simp: key ins)
  next
    case False
    with assms(3) have k: "k \<in> {Ao22, Aoi22, Oai22}" by (cases k) auto
    then have "key_22 k [a, b, c, d] = Some (k', key)" using assms(1) ins by auto
    then obtain w x y z where key: "key = [w, x, y, z]" and
      "{w, x} = {a, b} \<and> {y, z} = {c, d} \<or> {w, x} = {c, d} \<and> {y, z} = {a, b}" by (blast dest: key_22_perm)
    from this(2) show ?thesis
    proof
      assume "{w, x} = {a, b} \<and> {y, z} = {c, d}"
      then have "(v w \<and> v x) = (v a \<and> v b)" "(v w \<or> v x) = (v a \<or> v b)"
        "(v y \<and> v z) = (v c \<and> v d)" "(v y \<or> v z) = (v c \<or> v d)"
        using all_any_cong(1) [of w x a b v] all_any_cong(1) [of y z c d v] by auto
      with k show ?thesis by (elim insertE emptyE; simp add: key ins; blast)
    next
      assume "{w, x} = {c, d} \<and> {y, z} = {a, b}"
      then have "(v w \<and> v x) = (v c \<and> v d)" "(v w \<or> v x) = (v c \<or> v d)"
        "(v y \<and> v z) = (v a \<and> v b)" "(v y \<or> v z) = (v a \<or> v b)"
        using all_any_cong(1) [of w x c d v] all_any_cong(1) [of y z a b v] by auto
      with k show ?thesis by (elim insertE emptyE; simp add: key ins; blast)
    qed
  qed
qed

lemma cse_key_fn:
  assumes "cse_key k ins = Some (k', key)" "length ins = arity k"
  shows "cell_fn k (map v key) = cell_fn k (map v ins)"
proof -
  have "arity k \<le> 2 \<or> arity k = 3 \<or> arity k = 4" by (cases k) auto
  with assms show ?thesis using cse_key_fn_2 cse_key_fn_3 cse_key_fn_4 by blast
qed

subsection \<open>Rewrites of one cell\<close>

text \<open>\<open>consumers\<close> lists, per net, the cells that read it.\<close>

fun negated_kind :: "cell_kind \<Rightarrow> cell_kind option" where
  "negated_kind And2 = Some Nand2"
| "negated_kind Or2 = Some Nor2"
| "negated_kind Xor2 = Some Xnor2"
| "negated_kind Nand2 = Some And2"
| "negated_kind Nor2 = Some Or2"
| "negated_kind Xnor2 = Some Xor2"
| "negated_kind And3 = Some Nand3"
| "negated_kind Or3 = Some Nor3"
| "negated_kind Nand3 = Some And3"
| "negated_kind Nor3 = Some Or3"
| "negated_kind _ = None"

definition algebraic_fuse ::
    "gate_module \<Rightarrow> cell_kind \<Rightarrow> net_id list \<Rightarrow> nat list list \<Rightarrow> (cell_kind \<times> net_id list) option" where
  "algebraic_fuse m k ins consumers =
     (case k of
        Not1 \<Rightarrow>
          (case driver (gm_nets m ! (ins ! 0)) of
             DCell up_idx \<Rightarrow>
               let up = gm_cells m ! up_idx
               in if c_kind up = Not1 then Some (Buf, [c_inputs up ! 0])
                  else if length (consumers ! c_output up) \<noteq> 1 then None
                  else map_option (\<lambda>k'. (k', c_inputs up)) (negated_kind (c_kind up))
           | _ \<Rightarrow> None)
      | Mux2 \<Rightarrow>
          let sel = ins ! 0; d0 = ins ! 1; d1 = ins ! 2
          in if driver (gm_nets m ! d0) = DConst False then Some (And2, [sel, d1])
             else if driver (gm_nets m ! d1) = DConst True then Some (Or2, [sel, d0])
             else None
      | _ \<Rightarrow> None)"

lemma negated_kind_fn:
  "negated_kind k = Some k' \<Longrightarrow> arity k' = arity k \<and> cell_fn k' xs = (\<not> cell_fn k xs)"
  by (cases k) auto

lemma algebraic_fuse_sound:
  assumes "algebraic_fuse m k ins consumers = Some (k', ins')" "wf_module m"
    and "length ins = arity k" "\<forall>n \<in> set ins. n < length (gm_nets m)"
    and up: "\<And>i. driver (gm_nets m ! (ins ! 0)) = DCell i \<Longrightarrow> k = Not1 \<Longrightarrow> holds v (gm_cells m ! i)"
    and const: "\<And>n b. n < length (gm_nets m) \<Longrightarrow> driver (gm_nets m ! n) = DConst b \<Longrightarrow> v n = b"
  shows "cell_fn k' (map v ins') = cell_fn k (map v ins)"
proof (cases "k = Not1")
  case True
  with assms(3) have "length ins = 1" by simp
  then obtain n where ins: "ins = [n]" unfolding length_1_conv by blast
  with assms(1) True obtain i where d: "driver (gm_nets m ! n) = DCell i"
    by (auto simp: algebraic_fuse_def split: net_driver.splits)
  have n: "n < length (gm_nets m)" using assms(4) ins by simp
  have i: "i < length (gm_cells m)" "c_output (gm_cells m ! i) = n" using wf_module_driver [OF assms(2) n d] by auto
  have v: "v n = cell_fn (c_kind (gm_cells m ! i)) (map v (c_inputs (gm_cells m ! i)))"
    using up [of i] d ins i(2) True by (simp add: holds_def)
  note wf = wf_module_arity [OF assms(2) i(1)]
  show ?thesis
  proof (cases "c_kind (gm_cells m ! i) = Not1")
    case nn: True
    then have "length (c_inputs (gm_cells m ! i)) = 1" using wf by simp
    then obtain s where s: "c_inputs (gm_cells m ! i) = [s]" unfolding length_1_conv by blast
    have "k' = Buf" "ins' = [s]" using assms(1) True nn s by (simp_all add: ins d algebraic_fuse_def)
    moreover have "v n = (\<not> v s)" using v nn s by simp
    ultimately show ?thesis using True s by (simp add: ins)
  next
    case False
    with assms(1) True obtain k2 where k2: "negated_kind (c_kind (gm_cells m ! i)) = Some k2"
      and r: "k' = k2" "ins' = c_inputs (gm_cells m ! i)"
      by (auto simp: ins d algebraic_fuse_def Let_def split: if_splits)
    with negated_kind_fn [OF k2] v True show ?thesis by (simp add: ins)
  qed
next
  case False
  with assms(1) have k: "k = Mux2" by (cases k) (auto simp: algebraic_fuse_def)
  with assms(3) obtain s d0 d1 where ins: "ins = [s, d0, d1]" by (auto simp: length_3_conv)
  have c: "driver (gm_nets m ! n) = DConst b \<Longrightarrow> n \<in> {d0, d1} \<Longrightarrow> v n = b" for n b
    using const assms(4) ins by auto
  from assms(1,4) c k show ?thesis
    by (auto simp: ins algebraic_fuse_def Let_def split: if_splits)
qed

text \<open>What a rewrite can return, and the weight it loses.\<close>

fun wt :: "cell_kind \<Rightarrow> nat" where
  "wt Buf = 0"
| "wt Not1 = 1"
| "wt Mux2 = 3"
| "wt _ = 2"

lemma wt_le_3: "wt k \<le> 3"
  by (cases k) simp_all

lemma wt_pos: "k \<noteq> Buf \<Longrightarrow> 0 < wt k"
  by (cases k) simp_all

lemma negated_kind_wt: "negated_kind k = Some k' \<Longrightarrow> wt k = 2 \<and> wt k' = 2"
  by (cases k) auto

lemma simplify_invert_kind: "simplify k iv nets = Some (SInvert n) \<Longrightarrow> wt k \<ge> 2"
  by (cases k) (auto split: option.splits)

lemma algebraic_fuse_cases:
  assumes "algebraic_fuse m k ins consumers = Some (k', ins')" "length ins = arity k"
  obtains (negated) n u where "k = Not1" "ins = [n]" "driver (gm_nets m ! n) = DCell u"
      "c_kind (gm_cells m ! u) = Not1 \<and> k' = Buf \<and> ins' = [c_inputs (gm_cells m ! u) ! 0] \<or>
       negated_kind (c_kind (gm_cells m ! u)) = Some k' \<and> ins' = c_inputs (gm_cells m ! u)"
  | (mux) s d0 d1 where "k = Mux2" "ins = [s, d0, d1]" "k' = And2 \<and> ins' = [s, d1] \<or> k' = Or2 \<and> ins' = [s, d0]"
proof (cases "k = Not1")
  case True
  with assms(2) have "length ins = 1" by simp
  then obtain n where ins: "ins = [n]" unfolding length_1_conv by blast
  with assms(1) True obtain u where "driver (gm_nets m ! n) = DCell u"
    by (auto simp: algebraic_fuse_def split: net_driver.splits)
  with assms(1) True ins show ?thesis
    by (intro negated [of n u]) (auto simp: algebraic_fuse_def Let_def split: if_splits)
next
  case False
  with assms(1) have k: "k = Mux2" by (cases k) (auto simp: algebraic_fuse_def)
  with assms(2) obtain s d0 d1 where "ins = [s, d0, d1]" by (auto simp: length_3_conv)
  with k assms(1) show ?thesis by (intro mux) (auto simp: algebraic_fuse_def Let_def split: if_splits)
qed

text \<open>The key lists the inputs, padded: a sum over the inputs is determined by it.\<close>

lemma sum_list_mset_cong: "mset xs = mset ys \<Longrightarrow> sum_list (map f xs) = (sum_list (map f ys) :: nat)"
  by (metis mset_map sum_mset_sum_list)

lemma cse_key_mset:
  assumes "cse_key k ins = Some (k', key)" "length ins = arity k"
  shows "mset key = mset (ins @ replicate (4 - arity k) CSE_PAD)"
proof -
  have "arity k \<le> 2 \<or> arity k = 3 \<or> arity k = 4" by (cases k) auto
  then show ?thesis
  proof (elim disjE)
    assume "arity k \<le> 2"
    then consider "k = Buf" | "k = Not1" | "k \<in> {And2, Or2, Nand2, Nor2, Xor2, Xnor2}" by (cases k) auto
    then show ?thesis
    proof cases
      case 1
      with assms(1) show ?thesis by simp
    next
      case 2
      with assms(2) have "length ins = 1" by simp
      then obtain a where "ins = [a]" unfolding length_1_conv by blast
      with assms(1) 2 show ?thesis by (auto simp: numeral_eq_Suc)
    next
      case 3
      with assms(2) obtain a b where ins: "ins = [a, b]" by (auto simp: length_2_conv)
      with 3 assms(1) have "key_2 k [a, b] = Some (k', key)" by auto
      then have "key \<in> {[a, b, CSE_PAD, CSE_PAD], [b, a, CSE_PAD, CSE_PAD]}" by (rule key_2_perm)
      with 3 ins show ?thesis by (auto simp: numeral_eq_Suc)
    qed
  next
    assume 3: "arity k = 3"
    then obtain a b c where ins: "ins = [a, b, c]" using assms(2) by (auto simp: length_3_conv)
    consider "k = Mux2" | "k \<in> {Ao21, Aoi21, Oa21, Oai21}" | "k \<in> {And3, Or3, Nand3, Nor3}" using 3 by (cases k) auto
    then show ?thesis
    proof cases
      case 1
      with assms(1) show ?thesis by (auto simp: ins)
    next
      case 2
      then have "key_21 k [a, b, c] = Some (k', key)" using assms(1) ins by auto
      then have "key \<in> {[a, b, c, CSE_PAD], [b, a, c, CSE_PAD]}" by (rule key_21_perm)
      with 3 show ?thesis by (auto simp: ins)
    next
      case 3
      then have "key_3 k [a, b, c] = Some (k', key)" using assms(1) ins by auto
      moreover obtain x y z where s: "sort [a, b, c] = [x, y, z]" using sort_3 by blast
      moreover have "mset (sort [a, b, c]) = mset [a, b, c]" by (rule mset_sort)
      ultimately show ?thesis using \<open>arity k = 3\<close> by (auto simp: key_3_def ins add_mset_commute simp del: sort_key_simps mset_sort)
    qed
  next
    assume 4: "arity k = 4"
    then obtain a b c d where ins: "ins = [a, b, c, d]" using assms(2) by (auto simp: length_4_conv)
    consider "k \<in> {Ao31, Aoi31}" | "k \<in> {Ao22, Aoi22, Oai22}" using 4 by (cases k) auto
    then show ?thesis
    proof cases
      case 1
      then have "key_31 k [a, b, c, d] = Some (k', key)" using assms(1) ins by auto
      moreover obtain x y z where s: "sort [a, b, c] = [x, y, z]" using sort_3 by blast
      moreover have "mset (sort [a, b, c]) = mset [a, b, c]" by (rule mset_sort)
      ultimately show ?thesis using 4 by (auto simp: key_31_def ins add_mset_commute simp del: sort_key_simps mset_sort)
    next
      case 2
      then have "key_22 k [a, b, c, d] = Some (k', key)" using assms(1) ins by auto
      then show ?thesis using 4 by (auto simp: key_22_def ordered_def ins Let_def split: if_splits)
    qed
  qed
qed

lemma cse_key_eq_sum:
  assumes "cse_key k ins = Some key" "cse_key k2 ins2 = Some key"
    and "length ins = arity k" "length ins2 = arity k2"
  shows "k2 = k \<and> sum_list (map f ins2) = (sum_list (map f ins) :: nat) \<and> set ins2 = set ins \<and>
    cell_fn k2 (map v ins2) = cell_fn k (map v ins)"
proof -
  obtain k3 ns where key: "key = (k3, ns)" by fastforce
  have k: "k2 = k" using assms(1,2) cse_key_kind unfolding key by blast
  have "mset (ins2 @ replicate (4 - arity k) CSE_PAD) = mset (ins @ replicate (4 - arity k) CSE_PAD)"
    using cse_key_mset [of k ins k3 ns] cse_key_mset [of k ins2 k3 ns] assms k key by simp
  then have "mset ins2 = mset ins" by simp
  then have "sum_list (map f ins2) = sum_list (map f ins) \<and> set ins2 = set ins"
    by (blast intro: sum_list_mset_cong dest: mset_eq_setD)
  moreover have "cell_fn k2 (map v ins2) = cell_fn k (map v ins)"
    using cse_key_fn [of k ins k3 ns v] cse_key_fn [of k ins2 k3 ns v] assms k key by simp
  ultimately show ?thesis using k by blast
qed

subsection \<open>Properties\<close>

text \<open>
  Cells that are found under one key compute one function: if two cells' keys are equal,
  they have the same kind, read the same nets, and have the same value under every assignment,
  whatever the order of the commutative inputs.
\<close>

theorem cse_key_sound:
  assumes "cse_key k ins = Some key" "cse_key k' ins' = Some key"
    and "length ins = arity k" "length ins' = arity k'"
  shows "k' = k \<and> set ins' = set ins \<and> cell_fn k' (map v ins') = cell_fn k (map v ins)"
  using cse_key_eq_sum [OF assms, of "\<lambda>_. 0" v] by blast

lemma cse_key_sound_witness:
  "cse_key Aoi22 [9, 4, 3, 8] = cse_key Aoi22 [8, 3, 4, 9] \<and>
   cell_fn Aoi22 (map (\<lambda>n. n \<in> {3, 8 :: net_id}) [8, 3, 4, 9]) = cell_fn Aoi22 (map (\<lambda>n. n \<in> {3, 8}) [9, 4, 3, 8])"
proof -
  have k: "cse_key Aoi22 [9, 4, 3, 8] = Some (Aoi22, [3, 8, 4, 9])"
    "cse_key Aoi22 [8, 3, 4, 9] = Some (Aoi22, [3, 8, 4, 9])"
    by (simp_all add: key_22_def ordered_def pair_le_def)
  from cse_key_sound [OF k, of "\<lambda>n. n \<in> {3, 8}"] k show ?thesis by simp
qed

end
