(* ===== verification/Cleanup.thy ===== *)
theory Cleanup
  imports Netlist
begin

section \<open>Dead cells and hold-forever registers (\<open>conv/worklist.rs\<close>, \<open>conv.rs\<close>)\<close>

text \<open>
  \<open>dead_cell_elimination\<close> marks the cells that feed a flip-flop, a port or a RAM input and
  drops the others; \<open>eliminate_dq_ffs\<close> replaces a register whose D is its own Q by its reset
  value. Both are functions to an option: an index out of range is a panic, \<open>None\<close>. The
  specification of the first is the inductive set of nets in the fan-in of the sinks, that of
  the second the values a register takes after a reset.
\<close>

subsection \<open>Marking\<close>

lemma count_update_less: "i < length bs \<Longrightarrow> \<not> bs ! i \<Longrightarrow> length (filter Not (bs[i := True])) < length (filter Not bs)"
proof (induction bs arbitrary: i)
  case (Cons b bs)
  then show ?case by (cases i) auto
qed simp

text \<open>The stack of nets to visit is a list with its top first.\<close>

function dce_mark :: "gate_module \<Rightarrow> net_id list \<Rightarrow> bool list \<Rightarrow> bool list option" where
  "dce_mark m [] alive = Some alive"
| "dce_mark m (net # queue) alive =
     (if length (gm_nets m) \<le> net then None
      else case driver (gm_nets m ! net) of
          DCell idx \<Rightarrow>
            (if length alive \<le> idx \<or> length (gm_cells m) \<le> idx then None
             else if alive ! idx then dce_mark m queue alive
             else dce_mark m (rev (c_inputs (gm_cells m ! idx)) @ queue) (alive[idx := True]))
        | _ \<Rightarrow> dce_mark m queue alive)"
  by pat_completeness auto

termination dce_mark
  by (relation "(\<lambda>(m, q, a). length (filter Not a)) <*mlex*> measure (\<lambda>(m, q, a). length q)")
    (auto simp: wf_mlex mlex_prod_def count_update_less)

definition dead_cell_elimination :: "gate_module \<Rightarrow> gate_module option" where
  "dead_cell_elimination m =
     (let queue = snd (run_state (for_each_ram_input_net m (collect id))
            (concat (map ff_nets (gm_ffs m)) @ concat (map gp_nets (gm_ports m))))
      in case dce_mark m (rev queue) (replicate (length (gm_cells m)) False) of
           None \<Rightarrow> None
         | Some alive \<Rightarrow>
             if list_all id alive then Some m
             else (case compact alive (gm_cells m) [] of (new_cells, index_map) \<Rightarrow>
               map_option (\<lambda>nets. m\<lparr>gm_cells := new_cells, gm_nets := nets\<rparr>)
                 (those (map (redirect_cell index_map) (gm_nets m)))))"

subsection \<open>The fan-in of a set of nets\<close>

inductive fanin :: "gate_module \<Rightarrow> net_id set \<Rightarrow> net_id \<Rightarrow> bool" for m S where
  start: "n \<in> S \<Longrightarrow> fanin m S n"
| pred: "fanin m S n \<Longrightarrow> driver (gm_nets m ! n) = DCell i \<Longrightarrow> x \<in> set (c_inputs (gm_cells m ! i)) \<Longrightarrow> fanin m S x"

lemma fanin_mono: "fanin m S n \<Longrightarrow> (\<And>x. x \<in> S \<Longrightarrow> fanin m T x) \<Longrightarrow> fanin m T n"
  by (induction rule: fanin.induct) (auto intro: fanin.pred)

definition live_net :: "gate_module \<Rightarrow> net_id \<Rightarrow> bool" where
  "live_net m n \<longleftrightarrow> fanin m (set (sinks m)) n"

definition live_cell :: "gate_module \<Rightarrow> nat \<Rightarrow> bool" where
  "live_cell m i \<longleftrightarrow> (\<exists>n. live_net m n \<and> driver (gm_nets m ! n) = DCell i)"

lemma live_net_range:
  assumes "wf_module m" "live_net m n"
  shows "n < length (gm_nets m)"
proof -
  have "fanin m (set (sinks m)) n" using assms(2) by (simp add: live_net_def)
  then show ?thesis
  proof (induction rule: fanin.induct)
    case (start n)
    then show ?case using assms(1) by (auto simp: wf_module_def)
  next
    case (pred n i x)
    then show ?case using wf_module_driver [OF assms(1)] wf_module_inputs [OF assms(1)] by blast
  qed
qed

definition covered :: "gate_module \<Rightarrow> bool list \<Rightarrow> net_id \<Rightarrow> bool" where
  "covered m a n \<longleftrightarrow> (\<forall>i. driver (gm_nets m ! n) = DCell i \<longrightarrow> a ! i)"

text \<open>What marking from the stack \<open>q\<close> does to the marks \<open>a\<close>.\<close>

definition marks :: "gate_module \<Rightarrow> net_id list \<Rightarrow> bool list \<Rightarrow> bool list \<Rightarrow> bool" where
  "marks m q a a' \<longleftrightarrow> length a' = length a \<and> (\<forall>i < length a. a ! i \<longrightarrow> a' ! i) \<and>
    (\<forall>n \<in> set q. covered m a' n) \<and>
    (\<forall>i < length a. a' ! i \<and> \<not> a ! i \<longrightarrow> (\<forall>x \<in> set (c_inputs (gm_cells m ! i)). covered m a' x) \<and>
       (\<exists>n. fanin m (set q) n \<and> driver (gm_nets m ! n) = DCell i))"

lemma marks_skip:
  assumes "marks m q a a'" "covered m a' n"
  shows "marks m (n # q) a a'"
proof -
  have "fanin m (set q) x \<Longrightarrow> fanin m (set (n # q)) x" for x
    by (erule fanin_mono) (auto intro: fanin.start)
  with assms show ?thesis by (auto simp: marks_def) blast+
qed

lemma marks_push:
  assumes "marks m (rev (c_inputs (gm_cells m ! i)) @ q) (a[i := True]) a'"
    and "driver (gm_nets m ! n) = DCell i" "i < length a"
  shows "marks m (n # q) a a'"
proof -
  have sub: "fanin m (set (n # q)) x" if "fanin m (set (rev (c_inputs (gm_cells m ! i)) @ q)) x" for x
    using that by (rule fanin_mono) (use assms(2) in \<open>auto intro: fanin.start fanin.pred [where n = n]\<close>)
  have len: "length a' = length a" using assms(1) by (simp add: marks_def)
  have keep: "a' ! j" if "j < length a" "a[i := True] ! j" for j using assms(1) that by (simp add: marks_def)
  have cov: "covered m a' x" if "x \<in> set (c_inputs (gm_cells m ! i)) \<union> set q" for x
    using assms(1) that by (auto simp: marks_def)
  have new: "(\<forall>x \<in> set (c_inputs (gm_cells m ! j)). covered m a' x) \<and>
      (\<exists>y. fanin m (set (rev (c_inputs (gm_cells m ! i)) @ q)) y \<and> driver (gm_nets m ! y) = DCell j)"
    if "j < length a" "a' ! j" "\<not> a[i := True] ! j" for j
    using assms(1) that by (simp add: marks_def)
  have "a' ! i" using keep [of i] assms(3) by simp
  then have "covered m a' n" using assms(2) by (simp add: covered_def)
  moreover have "(\<forall>x \<in> set (c_inputs (gm_cells m ! j)). covered m a' x) \<and>
      (\<exists>y. fanin m (set (n # q)) y \<and> driver (gm_nets m ! y) = DCell j)"
    if "j < length a" "a' ! j" "\<not> a ! j" for j
  proof (cases "j = i")
    case True
    with cov assms(2) show ?thesis by (auto intro!: exI [of _ n] fanin.start)
  next
    case False
    with new [of j] that sub show ?thesis by auto
  qed
  moreover have "a' ! j" if "j < length a" "a ! j" for j
    using keep [of j] that by (cases "j = i") simp_all
  ultimately show ?thesis unfolding marks_def using len cov by simp
qed

lemma dce_mark_ok:
  assumes "wf_module m" "length a = length (gm_cells m)" "\<And>n. n \<in> set q \<Longrightarrow> n < length (gm_nets m)"
  shows "\<exists>a'. dce_mark m q a = Some a' \<and> marks m q a a'"
  using assms
proof (induction m q a rule: dce_mark.induct)
  case (1 m alive)
  then show ?case by (simp add: marks_def)
next
  case (2 m net queue alive)
  have net: "net < length (gm_nets m)" using "2.prems"(3) by simp
  have tl: "n \<in> set queue \<Longrightarrow> n < length (gm_nets m)" for n using "2.prems"(3) by simp
  show ?case
  proof (cases "\<exists>i. driver (gm_nets m ! net) = DCell i")
    case True
    then obtain i where d: "driver (gm_nets m ! net) = DCell i" ..
    have i: "i < length (gm_cells m)" using wf_module_driver [OF "2.prems"(1) net d] by simp
    show ?thesis
    proof (cases "alive ! i")
      case True
      have "\<exists>a'. dce_mark m queue alive = Some a' \<and> marks m queue alive a'"
        by (rule "2.IH"(3) [OF _ d]) (use net i True "2.prems"(1,2) tl in \<open>simp_all add: not_le\<close>)
      then obtain a' where a': "dce_mark m queue alive = Some a'" "marks m queue alive a'" by blast
      then have "a' ! i" using True i "2.prems"(2) by (simp add: marks_def)
      then have "marks m (net # queue) alive a'" using a'(2) d by (simp add: marks_skip covered_def)
      with a'(1) net i True d "2.prems"(2) show ?thesis by simp
    next
      case False
      have "\<exists>a'. dce_mark m (rev (c_inputs (gm_cells m ! i)) @ queue) (alive[i := True]) = Some a' \<and>
          marks m (rev (c_inputs (gm_cells m ! i)) @ queue) (alive[i := True]) a'"
        by (rule "2.IH"(4) [OF _ d])
          (use net i False "2.prems"(1,2) tl wf_module_inputs [OF "2.prems"(1) i] in \<open>auto simp: not_le\<close>)
      then obtain a' where "dce_mark m (rev (c_inputs (gm_cells m ! i)) @ queue) (alive[i := True]) = Some a'"
        "marks m (rev (c_inputs (gm_cells m ! i)) @ queue) (alive[i := True]) a'" by blast
      with marks_push [OF this(2) d] net i False d "2.prems"(2) show ?thesis by simp
    qed
  next
    case False
    then have cov: "covered m a net" for a by (simp add: covered_def)
    have "\<exists>a'. dce_mark m queue alive = Some a' \<and> marks m queue alive a'"
      using False net "2.prems"(1,2) tl "2.IH"(1,2,5-) by (cases "driver (gm_nets m ! net)") (simp_all add: not_le)
    with False net cov show ?thesis
      by (cases "driver (gm_nets m ! net)") (auto intro: marks_skip)
  qed
qed

lemma dce_marks_live:
  assumes "wf_module m"
  obtains a where "dce_mark m (rev (sinks m)) (replicate (length (gm_cells m)) False) = Some a"
    "length a = length (gm_cells m)" "\<And>i. i < length (gm_cells m) \<Longrightarrow> a ! i \<longleftrightarrow> live_cell m i"
proof -
  let ?a = "replicate (length (gm_cells m)) False"
  have "\<And>n. n \<in> set (rev (sinks m)) \<Longrightarrow> n < length (gm_nets m)" using assms by (auto simp: wf_module_def)
  with dce_mark_ok [OF assms, of ?a "rev (sinks m)"] obtain a
    where a: "dce_mark m (rev (sinks m)) ?a = Some a" and mk: "marks m (rev (sinks m)) ?a a" by auto
  have len: "length a = length (gm_cells m)" using mk by (simp add: marks_def)
  have cov: "covered m a n" if "live_net m n" for n
  proof -
    have "fanin m (set (sinks m)) n" using that by (simp add: live_net_def)
    then show ?thesis
    proof (induction rule: fanin.induct)
      case (start n)
      then show ?case using mk by (auto simp: marks_def)
    next
      case (pred n i x)
      have "n < length (gm_nets m)" using live_net_range [OF assms] pred.hyps(1) by (simp add: live_net_def)
      then have "i < length (gm_cells m)" using wf_module_driver [OF assms] pred.hyps(2) by blast
      moreover have "a ! i" using pred.IH pred.hyps(2) by (simp add: covered_def)
      ultimately show ?case using mk pred.hyps(3) by (simp add: marks_def)
    qed
  qed
  have "a ! i \<longleftrightarrow> live_cell m i" if i: "i < length (gm_cells m)" for i
  proof
    show "live_cell m i" if "a ! i"
      using mk i that by (auto simp: marks_def live_cell_def live_net_def)
    show "a ! i" if "live_cell m i"
      using that cov by (auto simp: live_cell_def covered_def)
  qed
  with a len show ?thesis by (rule that)
qed

subsection \<open>What elimination returns\<close>

definition live_cells :: "gate_module \<Rightarrow> nat list" where
  "live_cells m = filter (live_cell m) [0..<length (gm_cells m)]"

definition same_drive :: "gate_module \<Rightarrow> gate_module \<Rightarrow> net_id \<Rightarrow> bool" where
  "same_drive m m' n \<longleftrightarrow> (case driver (gm_nets m ! n) of
      DCell i \<Rightarrow> (\<exists>j < length (gm_cells m'). driver (gm_nets m' ! n) = DCell j \<and> gm_cells m' ! j = gm_cells m ! i)
    | d \<Rightarrow> driver (gm_nets m' ! n) = d)"

lemma kept_live:
  assumes "length a = length (gm_cells m)" "\<And>i. i < length (gm_cells m) \<Longrightarrow> a ! i \<longleftrightarrow> live_cell m i"
  shows "kept a (gm_cells m) = map (\<lambda>i. gm_cells m ! i) (live_cells m)"
proof -
  have "zip (gm_cells m) a = map (\<lambda>i. (gm_cells m ! i, a ! i)) [0..<length (gm_cells m)]"
    using assms(1) by (intro nth_equalityI) simp_all
  then have "kept a (gm_cells m) = map (\<lambda>i. gm_cells m ! i) (filter (\<lambda>i. a ! i) [0..<length (gm_cells m)])"
    by (simp add: kept_def filter_map comp_def)
  also have "filter (\<lambda>i. a ! i) [0..<length (gm_cells m)] = live_cells m"
    unfolding live_cells_def by (rule filter_cong) (simp_all add: assms(2))
  finally show ?thesis .
qed

lemma dead_cell_elimination_result:
  assumes wf: "wf_module m"
  obtains m' where "dead_cell_elimination m = Some m'"
    "gm_cells m' = map (\<lambda>i. gm_cells m ! i) (live_cells m)"
    "gm_ffs m' = gm_ffs m" "gm_ports m' = gm_ports m" "gm_ram_blocks m' = gm_ram_blocks m" "gm_name m' = gm_name m"
    "length (gm_nets m') = length (gm_nets m)"
    "\<And>n. n < length (gm_nets m) \<Longrightarrow> origin (gm_nets m' ! n) = origin (gm_nets m ! n) \<and>
       (if \<exists>i. driver (gm_nets m ! n) = DCell i \<and> \<not> live_cell m i then driver (gm_nets m' ! n) = Undriven
        else same_drive m m' n)"
proof -
  obtain a where a: "dce_mark m (rev (sinks m)) (replicate (length (gm_cells m)) False) = Some a"
    "length a = length (gm_cells m)" "\<And>i. i < length (gm_cells m) \<Longrightarrow> a ! i \<longleftrightarrow> live_cell m i"
    using dce_marks_live [OF wf] by blast
  have queue: "snd (run_state (for_each_ram_input_net m (collect id))
      (concat (map ff_nets (gm_ffs m)) @ concat (map gp_nets (gm_ports m)))) = sinks m"
    by (simp add: run_collect_ram sinks_def)
  have drv: "i < length (gm_cells m)" if "n < length (gm_nets m)" "driver (gm_nets m ! n) = DCell i" for n i
    using wf_module_driver [OF wf] that by blast
  show ?thesis
  proof (cases "list_all id a")
    case True
    then have all: "\<And>i. i < length (gm_cells m) \<Longrightarrow> live_cell m i" using a(2,3) by (auto simp: list_all_length)
    then have "live_cells m = [0..<length (gm_cells m)]" by (simp add: live_cells_def)
    then have "gm_cells m = map (\<lambda>i. gm_cells m ! i) (live_cells m)" by (simp add: map_nth)
    moreover have "dead_cell_elimination m = Some m"
      using True a(1) by (simp add: dead_cell_elimination_def queue)
    ultimately show ?thesis
      using all drv by (intro that [of m]) (auto simp: same_drive_def split: net_driver.split)
  next
    case False
    obtain cs im where c: "compact a (gm_cells m) [] = (cs, im)" by fastforce
    have cs: "cs = map (\<lambda>i. gm_cells m ! i) (live_cells m)"
      using compact_new [of a "gm_cells m" "[]"] kept_live [OF a(2,3)] a(2) c by (simp add: kept_def)
    obtain nets where nets: "those (map (redirect_cell im) (gm_nets m)) = Some nets" "length nets = length (gm_nets m)"
      "\<And>n. n < length (gm_nets m) \<Longrightarrow> origin (nets ! n) = origin (gm_nets m ! n)"
      "\<And>n. n < length (gm_nets m) \<Longrightarrow> \<nexists>i. driver (gm_nets m ! n) = DCell i \<Longrightarrow> driver (nets ! n) = driver (gm_nets m ! n)"
      "\<And>n i. n < length (gm_nets m) \<Longrightarrow> driver (gm_nets m ! n) = DCell i \<Longrightarrow>
        (if a ! i then \<exists>j < length cs. driver (nets ! n) = DCell j \<and> cs ! j = gm_cells m ! i else driver (nets ! n) = Undriven)"
      by (rule redirect_cells_ok [OF a(2) _ c, of "gm_nets m"]) (use drv that in blast)+
    define m2 where "m2 = m\<lparr>gm_cells := cs, gm_nets := nets\<rparr>"
    have m2: "gm_cells m2 = cs" "gm_nets m2 = nets" by (simp_all add: m2_def)
    have res: "dead_cell_elimination m = Some m2"
      using False a(1) c nets(1) by (simp add: dead_cell_elimination_def queue m2_def)
    have drive: "origin (gm_nets m2 ! n) = origin (gm_nets m ! n) \<and>
       (if \<exists>i. driver (gm_nets m ! n) = DCell i \<and> \<not> live_cell m i then driver (gm_nets m2 ! n) = Undriven
        else same_drive m m2 n)" if n: "n < length (gm_nets m)" for n
    proof (cases "driver (gm_nets m ! n)")
      case (DCell i)
      with nets(3) [OF n] nets(5) [OF n DCell] a(3) [OF drv [OF n DCell]] show ?thesis
        by (simp add: same_drive_def m2 split: if_splits)
    qed (use nets(3,4) [OF n] in \<open>simp_all add: same_drive_def m2\<close>)
    show ?thesis
      by (rule that [OF res _ _ _ _ _ _ drive]) (simp_all add: m2_def cs nets(2))
  qed
qed

lemma sinks_cong:
  "gm_ffs m' = gm_ffs m \<Longrightarrow> gm_ports m' = gm_ports m \<Longrightarrow> gm_ram_blocks m' = gm_ram_blocks m \<Longrightarrow> sinks m' = sinks m"
  by (simp add: sinks_def ram_inputs_def)

lemma set_live_cells: "set (map (\<lambda>i. gm_cells m ! i) (live_cells m)) =
    {gm_cells m ! i | i. i < length (gm_cells m) \<and> live_cell m i}"
  by (auto simp: live_cells_def)

lemma dce_drivers:
  assumes wf: "wf_module m" and e: "dead_cell_elimination m = Some m'" and n: "n < length (gm_nets m)"
  shows "length (gm_nets m') = length (gm_nets m)"
    and "\<nexists>i. driver (gm_nets m ! n) = DCell i \<Longrightarrow> driver (gm_nets m' ! n) = driver (gm_nets m ! n)"
    and "driver (gm_nets m ! n) = DCell i \<Longrightarrow> live_cell m i \<Longrightarrow>
      \<exists>j < length (gm_cells m'). driver (gm_nets m' ! n) = DCell j \<and> gm_cells m' ! j = gm_cells m ! i"
    and "driver (gm_nets m ! n) = DCell i \<Longrightarrow> \<not> live_cell m i \<Longrightarrow> driver (gm_nets m' ! n) = Undriven"
proof -
  obtain m2 where m2: "dead_cell_elimination m = Some m2" "length (gm_nets m2) = length (gm_nets m)"
    "\<And>n. n < length (gm_nets m) \<Longrightarrow> origin (gm_nets m2 ! n) = origin (gm_nets m ! n) \<and>
       (if \<exists>i. driver (gm_nets m ! n) = DCell i \<and> \<not> live_cell m i then driver (gm_nets m2 ! n) = Undriven
        else same_drive m m2 n)"
    using dead_cell_elimination_result [OF wf] by blast
  then have [simp]: "m2 = m'" using e by simp
  note d = m2(3) [OF n]
  show "length (gm_nets m') = length (gm_nets m)" using m2(2) by simp
  show "driver (gm_nets m' ! n) = driver (gm_nets m ! n)" if "\<nexists>i. driver (gm_nets m ! n) = DCell i"
    using d that by (simp add: same_drive_def split: net_driver.splits)
  show "\<exists>j < length (gm_cells m'). driver (gm_nets m' ! n) = DCell j \<and> gm_cells m' ! j = gm_cells m ! i"
    if "driver (gm_nets m ! n) = DCell i" "live_cell m i"
    using d that by (simp add: same_drive_def)
  show "driver (gm_nets m' ! n) = Undriven" if "driver (gm_nets m ! n) = DCell i" "\<not> live_cell m i"
    using d that by simp
qed

lemma dce_keeps:
  assumes wf: "wf_module m" and e: "dead_cell_elimination m = Some m'"
  shows "gm_cells m' = map (\<lambda>i. gm_cells m ! i) (live_cells m)"
    and "gm_ffs m' = gm_ffs m" "gm_ports m' = gm_ports m" "gm_ram_blocks m' = gm_ram_blocks m" "gm_name m' = gm_name m"
    and "length (gm_nets m') = length (gm_nets m)"
proof -
  obtain m2 where "dead_cell_elimination m = Some m2" "gm_cells m2 = map (\<lambda>i. gm_cells m ! i) (live_cells m)"
    "gm_ffs m2 = gm_ffs m" "gm_ports m2 = gm_ports m" "gm_ram_blocks m2 = gm_ram_blocks m" "gm_name m2 = gm_name m"
    "length (gm_nets m2) = length (gm_nets m)"
    using dead_cell_elimination_result [OF wf] by blast
  with e show "gm_cells m' = map (\<lambda>i. gm_cells m ! i) (live_cells m)"
    "gm_ffs m' = gm_ffs m" "gm_ports m' = gm_ports m" "gm_ram_blocks m' = gm_ram_blocks m" "gm_name m' = gm_name m"
    "length (gm_nets m') = length (gm_nets m)" by simp_all
qed

lemma dce_wf:
  assumes wf: "wf_module m" and e: "dead_cell_elimination m = Some m'"
  shows "wf_module m'"
proof -
  note k = dce_keeps [OF wf e] and dr = dce_drivers [OF wf e]
  have rl: "2 \<le> length (gm_nets m)" "driver (gm_nets m ! NET_CONST0) = DConst False"
    "driver (gm_nets m ! NET_CONST1) = DConst True" using wf by (auto simp: wf_module_def RESERVED_NETS_def)
  then have "NET_CONST0 < length (gm_nets m)" "NET_CONST1 < length (gm_nets m)" by (auto simp: rails)
  with rl have "driver (gm_nets m' ! NET_CONST0) = DConst False" "driver (gm_nets m' ! NET_CONST1) = DConst True"
    using dr(2) [of NET_CONST0] dr(2) [of NET_CONST1] by simp_all
  moreover have "i < length (gm_cells m') \<and> c_output (gm_cells m' ! i) = n"
    if n: "n < length (gm_nets m)" and d: "driver (gm_nets m' ! n) = DCell i" for n i
  proof (cases "\<exists>j. driver (gm_nets m ! n) = DCell j")
    case True
    then obtain j where j: "driver (gm_nets m ! n) = DCell j" ..
    then have "live_cell m j" using dr(4) [OF n] d by fastforce
    with dr(3) [OF n j] d wf_module_driver [OF wf n j] show ?thesis by auto
  next
    case False
    with dr(2) [OF n] d show ?thesis by metis
  qed
  moreover have "\<forall>c \<in> set (gm_cells m'). module_cell_wf (length (gm_nets m)) c"
    using wf unfolding k(1) set_live_cells wf_module_def by auto
  moreover have "\<forall>n \<in> set (sinks m'). n < length (gm_nets m)"
    using wf by (simp add: wf_module_def sinks_cong [OF k(2,3,4)])
  ultimately show ?thesis
    using rl(1) unfolding wf_module_def k(6) by (simp add: rails)
qed

lemma dce_msat:
  assumes wf: "wf_module m" and e: "dead_cell_elimination m = Some m'" and v: "msat v m"
  shows "msat v m'"
proof -
  note k = dce_keeps [OF wf e] and dr = dce_drivers [OF wf e]
  have "holds v c" if "c \<in> set (gm_cells m')" for c
    using that v unfolding k(1) set_live_cells msat_def by auto
  moreover have "v n = b" if "n < length (gm_nets m)" "driver (gm_nets m' ! n) = DConst b" for n b
  proof -
    have "\<nexists>i. driver (gm_nets m ! n) = DCell i"
    proof
      assume "\<exists>i. driver (gm_nets m ! n) = DCell i"
      then obtain i where "driver (gm_nets m ! n) = DCell i" ..
      with dr(3,4) [OF that(1) this] that(2) show False by (cases "live_cell m i") auto
    qed
    with dr(2) [OF that(1)] that v show ?thesis by (simp add: msat_def)
  qed
  ultimately show ?thesis using k(6) by (simp add: msat_def)
qed

text \<open>
  On live nets an acyclic module has one value per assignment of its sources: two assignments
  that agree where no cell drives agree everywhere live.
\<close>

lemma live_agree:
  fixes r :: "net_id \<Rightarrow> nat"
  assumes wf: "wf_module m"
    and acyclic: "ranked r m"
    and cells: "\<And>i. live_cell m i \<Longrightarrow> holds v (gm_cells m ! i)" "\<And>i. live_cell m i \<Longrightarrow> holds w (gm_cells m ! i)"
    and src: "\<And>n. live_net m n \<Longrightarrow> \<nexists>i. driver (gm_nets m ! n) = DCell i \<Longrightarrow> v n = w n"
    and "live_net m n"
  shows "v n = w n"
  using \<open>live_net m n\<close>
proof (induction "r n" arbitrary: n rule: less_induct)
  case less
  show ?case
  proof (cases "\<exists>i. driver (gm_nets m ! n) = DCell i")
    case True
    then obtain i where d: "driver (gm_nets m ! n) = DCell i" ..
    have lc: "live_cell m i" using less.prems d by (auto simp: live_cell_def)
    have out: "c_output (gm_cells m ! i) = n"
      using wf_module_driver [OF wf live_net_range [OF wf less.prems] d] by simp
    have "v x = w x" if "x \<in> set (c_inputs (gm_cells m ! i))" for x
    proof (rule less.hyps)
      show "r x < r n" using acyclic live_net_range [OF wf less.prems] d that by (auto simp: ranked_def)
      show "live_net m x" using less.prems that d by (auto simp: live_net_def intro: fanin.pred)
    qed
    then have "map v (c_inputs (gm_cells m ! i)) = map w (c_inputs (gm_cells m ! i))" by simp
    with cells [OF lc] out show ?thesis by (simp add: holds_def)
  qed (use src less.prems in blast)
qed

subsection \<open>Hold-forever registers\<close>

definition redirect_ff :: "nat option list \<Rightarrow> net_info \<Rightarrow> net_info option" where
  "redirect_ff im net = (case driver net of
      FfQ idx \<Rightarrow> (if idx < length im
        then Some (net\<lparr>driver := (case im ! idx of Some new_idx \<Rightarrow> FfQ new_idx | None \<Rightarrow> Undriven)\<rparr>) else None)
    | _ \<Rightarrow> Some net)"

text \<open>
  The scan over the flip-flops: the map from a removed Q to its constant rail and the set of
  the indices to remove. A later register with the same Q overwrites the entry of an earlier one.
\<close>

fun dq_scan :: "ff_cell list \<Rightarrow> nat \<Rightarrow> (net_id \<rightharpoonup> net_id) \<Rightarrow> nat set \<Rightarrow> (net_id \<rightharpoonup> net_id) \<times> nat set" where
  "dq_scan [] i alias remove = (alias, remove)"
| "dq_scan (ff # ffs) i alias remove =
     (if ff_d ff \<noteq> ff_q ff \<or> ff_reset ff = None then dq_scan ffs (Suc i) alias remove
      else let const_net = (if ff_reset_value ff then NET_CONST1 else NET_CONST0)
           in dq_scan ffs (Suc i) (alias(ff_q ff \<mapsto> const_net)) (insert i remove))"

definition aliased :: "(net_id \<rightharpoonup> net_id) \<Rightarrow> net_id \<Rightarrow> net_id" where
  "aliased alias n = (case alias n of Some new \<Rightarrow> new | None \<Rightarrow> n)"

definition alias_ff :: "(net_id \<rightharpoonup> net_id) \<Rightarrow> ff_cell \<Rightarrow> ff_cell" where
  "alias_ff alias ff = ff\<lparr>ff_d := aliased alias (ff_d ff), ff_clock := aliased alias (ff_clock ff),
     ff_reset := map_option (\<lambda>r. r\<lparr>rs_net := aliased alias (rs_net r)\<rparr>) (ff_reset ff)\<rparr>"

definition eliminate_dq_ffs :: "gate_module \<Rightarrow> gate_module option" where
  "eliminate_dq_ffs m =
     (case dq_scan (gm_ffs m) 0 Map.empty {} of (alias, remove) \<Rightarrow>
        if remove = {} then Some m
        else
          let cells = map (\<lambda>c. c\<lparr>c_inputs := map (aliased alias) (c_inputs c)\<rparr>) (gm_cells m);
              ffs = map (alias_ff alias) (gm_ffs m);
              ports = map (\<lambda>p. p\<lparr>gp_nets := map (aliased alias) (gp_nets p)\<rparr>) (gm_ports m);
              (m', _) = run_state (for_each_ram_input_net_mut (m\<lparr>gm_cells := cells, gm_ffs := ffs, gm_ports := ports\<rparr>)
                 (\<lambda>n. State_Monad.return (aliased alias n))) ()
          in case compact (map (\<lambda>i. i \<notin> remove) [0..<length ffs]) ffs [] of (new_ffs, index_map) \<Rightarrow>
               map_option (\<lambda>nets. m'\<lparr>gm_ffs := new_ffs, gm_nets := nets\<rparr>)
                 (those (map (redirect_ff index_map) (gm_nets m'))))"

definition dq_ff :: "ff_cell \<Rightarrow> bool" where
  "dq_ff ff \<longleftrightarrow> ff_d ff = ff_q ff \<and> ff_reset ff \<noteq> None"

definition reset_rail :: "ff_cell \<Rightarrow> net_id" where
  "reset_rail ff = (if ff_reset_value ff then NET_CONST1 else NET_CONST0)"

lemma dq_scan_Cons:
  "dq_scan (ff # ffs) i al rm = (if dq_ff ff then dq_scan ffs (Suc i) (al(ff_q ff \<mapsto> reset_rail ff)) (insert i rm)
     else dq_scan ffs (Suc i) al rm)"
  by (simp add: dq_ff_def reset_rail_def)

lemma dq_scan_remove: "snd (dq_scan ffs k al rm) = rm \<union> {k + i | i. i < length ffs \<and> dq_ff (ffs ! i)}"
proof (induction ffs arbitrary: k al rm)
  case (Cons ff ffs)
  have "{k + j | j. j < length (ff # ffs) \<and> dq_ff ((ff # ffs) ! j)} =
      (if dq_ff ff then {k} else {}) \<union> {Suc k + j | j. j < length ffs \<and> dq_ff (ffs ! j)}"
    by (force simp: less_Suc_eq_0_disj split: if_splits)
  with Cons show ?case by (simp add: dq_scan_Cons del: dq_scan.simps)
qed simp

lemma dq_scan_alias:
  "fst (dq_scan ffs k al rm) n = Some c \<Longrightarrow> al n = Some c \<or> (\<exists>ff \<in> set ffs. dq_ff ff \<and> ff_q ff = n \<and> c = reset_rail ff)"
proof (induction ffs arbitrary: k al rm)
  case (Cons ff ffs)
  show ?case
  proof (cases "dq_ff ff")
    case True
    with Cons.prems have "fst (dq_scan ffs (Suc k) (al(ff_q ff \<mapsto> reset_rail ff)) (insert k rm)) n = Some c"
      by (simp add: dq_scan_Cons del: dq_scan.simps)
    from Cons.IH [OF this] True show ?thesis by (auto split: if_splits)
  next
    case False
    with Cons show ?thesis by (auto simp add: dq_scan_Cons simp del: dq_scan.simps)
  qed
qed simp

text \<open>The flip-flops a module's Q nets name exist, and name them back.\<close>

definition ff_drivers_ok :: "gate_module \<Rightarrow> bool" where
  "ff_drivers_ok m \<longleftrightarrow> (\<forall>n < length (gm_nets m). \<forall>i. driver (gm_nets m ! n) = FfQ i \<longrightarrow>
     i < length (gm_ffs m) \<and> ff_q (gm_ffs m ! i) = n)"

definition dq_alias :: "gate_module \<Rightarrow> net_id \<rightharpoonup> net_id" where
  "dq_alias m = fst (dq_scan (gm_ffs m) 0 Map.empty {})"

lemma dq_alias_rail: "dq_alias m n = Some c \<Longrightarrow> \<exists>ff \<in> set (gm_ffs m). dq_ff ff \<and> ff_q ff = n \<and> c = reset_rail ff"
  using dq_scan_alias [of "gm_ffs m" 0 Map.empty "{}" n c] by (simp add: dq_alias_def)

lemma kept_filter:
  assumes "length ks = length xs" "\<And>i. i < length xs \<Longrightarrow> ks ! i \<longleftrightarrow> P (xs ! i)"
  shows "kept ks (map f xs) = map f (filter P xs)"
  using assms
proof (induction xs arbitrary: ks)
  case (Cons x xs)
  then obtain k ks' where ks: "ks = k # ks'" by (cases ks) auto
  have "kept ks' (map f xs) = map f (filter P xs)"
  proof (rule Cons.IH)
    show "length ks' = length xs" using Cons.prems(1) ks by simp
    show "ks' ! i \<longleftrightarrow> P (xs ! i)" if "i < length xs" for i using Cons.prems(2) [of "Suc i"] ks that by simp
  qed
  moreover have "k \<longleftrightarrow> P x" using Cons.prems(2) [of 0] ks by simp
  ultimately show ?case by (simp add: ks kept_def)
qed (simp add: kept_def)

lemma eliminate_dq_ffs_result:
  assumes wf: "ff_drivers_ok m"
  obtains m' where "eliminate_dq_ffs m = Some m'"
    "gm_ffs m' = map (alias_ff (dq_alias m)) (filter (\<lambda>f. \<not> dq_ff f) (gm_ffs m))"
    "gm_cells m' = map (\<lambda>c. c\<lparr>c_inputs := map (aliased (dq_alias m)) (c_inputs c)\<rparr>) (gm_cells m)"
    "gm_ports m' = map (\<lambda>p. p\<lparr>gp_nets := map (aliased (dq_alias m)) (gp_nets p)\<rparr>) (gm_ports m)"
    "gm_ram_blocks m' = map (map_ram (aliased (dq_alias m))) (gm_ram_blocks m)" "gm_name m' = gm_name m"
    "length (gm_nets m') = length (gm_nets m)"
    "\<And>n. n < length (gm_nets m) \<Longrightarrow> origin (gm_nets m' ! n) = origin (gm_nets m ! n)"
    "\<And>n. n < length (gm_nets m) \<Longrightarrow> \<nexists>i. driver (gm_nets m ! n) = FfQ i \<Longrightarrow>
       driver (gm_nets m' ! n) = driver (gm_nets m ! n)"
    "\<And>n i. n < length (gm_nets m) \<Longrightarrow> driver (gm_nets m ! n) = FfQ i \<Longrightarrow>
       (if dq_ff (gm_ffs m ! i) then driver (gm_nets m' ! n) = Undriven
        else \<exists>j < length (gm_ffs m'). driver (gm_nets m' ! n) = FfQ j \<and>
          gm_ffs m' ! j = alias_ff (dq_alias m) (gm_ffs m ! i))"
proof -
  let ?al = "dq_alias m"
  obtain rms where scan: "dq_scan (gm_ffs m) 0 Map.empty {} = (?al, rms)"
    by (metis dq_alias_def prod.collapse)
  have rm: "i \<in> rms \<longleftrightarrow> dq_ff (gm_ffs m ! i)" if "i < length (gm_ffs m)" for i
    using that dq_scan_remove [of "gm_ffs m" 0 Map.empty "{}"] by (auto simp: scan)
  have ren: "(\<lambda>n. State_Monad.return (aliased ?al n)) = rename (aliased ?al)"
    by (simp add: rename_def fun_eq_iff)
  show ?thesis
  proof (cases "rms = {}")
    case True
    then have none: "\<not> dq_ff f" if "f \<in> set (gm_ffs m)" for f
      using that rm by (metis empty_iff in_set_conv_nth)
    have al: "?al = Map.empty"
    proof
      show "?al n = None" for n using dq_alias_rail [of m n] none by (cases "?al n") auto
    qed
    have id: "aliased ?al = id" by (simp add: al aliased_def fun_eq_iff)
    have ff: "alias_ff ?al = id" by (simp add: alias_ff_def id option.map_ident fun_eq_iff)
    have "map_write_port id wp = wp" for wp
      by (simp add: map_write_port_def option.map_id0 list.map_id0 id_def [symmetric])
    then have "map_write_port id = id" by (intro ext) (simp only: id_apply)
    then have ram: "map_ram id = id" by (intro ext) (simp add: map_ram_def list.map_id)
    have kept: "filter (\<lambda>f. \<not> dq_ff f) (gm_ffs m) = gm_ffs m" using none by simp
    have "eliminate_dq_ffs m = Some m" using True by (simp add: eliminate_dq_ffs_def scan)
    then show ?thesis
    proof (rule that)
      show "if dq_ff (gm_ffs m ! i) then driver (gm_nets m ! n) = Undriven
          else \<exists>j < length (gm_ffs m). driver (gm_nets m ! n) = FfQ j \<and> gm_ffs m ! j = alias_ff ?al (gm_ffs m ! i)"
        if n: "n < length (gm_nets m)" "driver (gm_nets m ! n) = FfQ i" for n i
      proof -
        have "i < length (gm_ffs m)" using wf n by (simp add: ff_drivers_ok_def)
        then show ?thesis using none n by (simp add: ff)
      qed
    qed (simp_all add: id ff ram kept)
  next
    case False
    let ?ffs = "map (alias_ff ?al) (gm_ffs m)" and ?ks = "map (\<lambda>i. i \<notin> rms) [0..<length (gm_ffs m)]"
    obtain fs im where c: "compact ?ks ?ffs [] = (fs, im)" by fastforce
    have ks: "?ks ! i \<longleftrightarrow> \<not> dq_ff (gm_ffs m ! i)" if "i < length (gm_ffs m)" for i using rm that by simp
    have fs: "fs = map (alias_ff ?al) (filter (\<lambda>f. \<not> dq_ff f) (gm_ffs m))"
      using compact_new [of ?ks ?ffs "[]"] c kept_filter [of ?ks "gm_ffs m" "\<lambda>f. \<not> dq_ff f" "alias_ff ?al", OF _ ks]
      by (simp add: kept_def)
    have im: "length im = length (gm_ffs m)" using length_index_map [of ?ks ?ffs "[]"] c by simp
    have look: "case im ! i of None \<Rightarrow> dq_ff (gm_ffs m ! i)
        | Some j \<Rightarrow> \<not> dq_ff (gm_ffs m ! i) \<and> j < length fs \<and> fs ! j = alias_ff ?al (gm_ffs m ! i)"
      if "i < length (gm_ffs m)" for i
      using nth_index_map [of ?ks ?ffs i "[]"] that ks [OF that] c by (auto split: option.splits)
    define g :: "net_info \<Rightarrow> net_info" where "g = (\<lambda>net. case driver net of
        FfQ i \<Rightarrow> net\<lparr>driver := (case im ! i of Some j \<Rightarrow> FfQ j | None \<Rightarrow> Undriven)\<rparr> | _ \<Rightarrow> net)"
    have "redirect_ff im net = Some (g net)" if "net \<in> set (gm_nets m)" for net
      using that wf im by (auto simp: redirect_ff_def g_def in_set_conv_nth ff_drivers_ok_def split: net_driver.split)
    then have nets: "those (map (redirect_ff im) (gm_nets m)) = Some (map g (gm_nets m))" by (rule those_map_Some)
    define m2 where "m2 = m\<lparr>gm_cells := map (\<lambda>c. c\<lparr>c_inputs := map (aliased ?al) (c_inputs c)\<rparr>) (gm_cells m),
      gm_ffs := fs, gm_ports := map (\<lambda>p. p\<lparr>gp_nets := map (aliased ?al) (gp_nets p)\<rparr>) (gm_ports m),
      gm_ram_blocks := map (map_ram (aliased ?al)) (gm_ram_blocks m), gm_nets := map g (gm_nets m)\<rparr>"
    have "eliminate_dq_ffs m = Some m2"
      using False c nets by (simp add: eliminate_dq_ffs_def scan ren run_rename_ram m2_def)
    then show ?thesis
    proof (rule that)
      show "origin (gm_nets m2 ! n) = origin (gm_nets m ! n)" if "n < length (gm_nets m)" for n
        using that by (simp add: m2_def g_def split: net_driver.split)
      show "driver (gm_nets m2 ! n) = driver (gm_nets m ! n)"
        if "n < length (gm_nets m)" "\<nexists>i. driver (gm_nets m ! n) = FfQ i" for n
        using that by (simp add: m2_def g_def split: net_driver.split)
      show "if dq_ff (gm_ffs m ! i) then driver (gm_nets m2 ! n) = Undriven
          else \<exists>j < length (gm_ffs m2). driver (gm_nets m2 ! n) = FfQ j \<and> gm_ffs m2 ! j = alias_ff ?al (gm_ffs m ! i)"
        if "n < length (gm_nets m)" "driver (gm_nets m ! n) = FfQ i" for n i
      proof -
        have "i < length (gm_ffs m)" using wf that by (simp add: ff_drivers_ok_def)
        from look [OF this] that show ?thesis by (cases "im ! i") (simp_all add: m2_def g_def)
      qed
    qed (simp_all add: m2_def fs)
  qed
qed

lemma dq_values:
  assumes "\<forall>ff \<in> set (gm_ffs m). dq_ff ff \<longrightarrow> v (ff_q ff) = ff_reset_value ff" "\<not> v NET_CONST0" "v NET_CONST1"
  shows "v (aliased (dq_alias m) n) = v n"
  using dq_alias_rail [of m n] assms by (cases "dq_alias m n") (auto simp: aliased_def reset_rail_def)

lemma alias_ff_nets: "ff_nets (alias_ff al f) = map (aliased al) (ff_nets f)"
  by (simp add: ff_nets_def alias_ff_def split: option.split)

lemma eliminate_dq_ffs_wf:
  assumes wf: "wf_module m" and ff: "ff_drivers_ok m" and e: "eliminate_dq_ffs m = Some m'"
  shows "wf_module m'" "single_driver m \<Longrightarrow> single_driver m'" "ranked r m \<Longrightarrow> \<exists>r'. ranked r' m'"
proof -
  obtain m2 where m2: "eliminate_dq_ffs m = Some m2"
    "gm_ffs m2 = map (alias_ff (dq_alias m)) (filter (\<lambda>f. \<not> dq_ff f) (gm_ffs m))"
    "gm_cells m2 = map (\<lambda>c. c\<lparr>c_inputs := map (aliased (dq_alias m)) (c_inputs c)\<rparr>) (gm_cells m)"
    "gm_ports m2 = map (\<lambda>p. p\<lparr>gp_nets := map (aliased (dq_alias m)) (gp_nets p)\<rparr>) (gm_ports m)"
    "gm_ram_blocks m2 = map (map_ram (aliased (dq_alias m))) (gm_ram_blocks m)"
    and "gm_name m2 = gm_name m" and len: "length (gm_nets m2) = length (gm_nets m)"
    and "\<And>n. n < length (gm_nets m) \<Longrightarrow> origin (gm_nets m2 ! n) = origin (gm_nets m ! n)"
    and other: "\<And>n. n < length (gm_nets m) \<Longrightarrow> \<nexists>i. driver (gm_nets m ! n) = FfQ i \<Longrightarrow>
       driver (gm_nets m2 ! n) = driver (gm_nets m ! n)"
    and ffq: "\<And>n i. n < length (gm_nets m) \<Longrightarrow> driver (gm_nets m ! n) = FfQ i \<Longrightarrow>
       (if dq_ff (gm_ffs m ! i) then driver (gm_nets m2 ! n) = Undriven
        else \<exists>j < length (gm_ffs m2). driver (gm_nets m2 ! n) = FfQ j \<and>
          gm_ffs m2 ! j = alias_ff (dq_alias m) (gm_ffs m ! i))"
    by (rule eliminate_dq_ffs_result [OF ff]) (rule that)
  have [simp]: "m2 = m'" using m2(1) e by simp
  let ?g = "aliased (dq_alias m)"
  have rl: "RESERVED_NETS \<le> length (gm_nets m)" "driver (gm_nets m ! NET_CONST0) = DConst False"
    "driver (gm_nets m ! NET_CONST1) = DConst True" using wf by (auto simp: wf_module_def)
  then have rlt: "NET_CONST0 < length (gm_nets m)" "NET_CONST1 < length (gm_nets m)" by (auto simp: rails)
  have g: "?g n = n \<or> ?g n = NET_CONST0 \<or> ?g n = NET_CONST1" for n
    using dq_alias_rail [of m n] by (auto simp: aliased_def reset_rail_def split: option.split)
  have gl: "?g n < length (gm_nets m)" if "n < length (gm_nets m)" for n using g [of n] that rlt by auto
  have cell: "driver (gm_nets m' ! n) = DCell i \<longleftrightarrow> driver (gm_nets m ! n) = DCell i" if n: "n < length (gm_nets m)" for n i
  proof (cases "\<exists>j. driver (gm_nets m ! n) = FfQ j")
    case True
    then obtain j where "driver (gm_nets m ! n) = FfQ j" ..
    with ffq [OF n this] show ?thesis by (auto split: if_splits)
  next
    case False
    from other [OF n this] have "driver (gm_nets m' ! n) = driver (gm_nets m ! n)" unfolding \<open>m2 = m'\<close> .
    then show ?thesis by (simp only:)
  qed
  have ins: "c_inputs (gm_cells m' ! i) = map ?g (c_inputs (gm_cells m ! i))"
    "c_output (gm_cells m' ! i) = c_output (gm_cells m ! i)" if "i < length (gm_cells m)" for i
    using that m2(3) by simp_all
  have cl: "length (gm_cells m') = length (gm_cells m)" using m2(3) by simp
  have "\<forall>c \<in> set (gm_cells m'). module_cell_wf (length (gm_nets m')) c"
    using m2(3) wf gl len by (auto simp: wf_module_def module_cell_wf_def)
  moreover have "\<forall>n \<in> set (sinks m'). n < length (gm_nets m)"
  proof -
    have s: "\<forall>n \<in> set (sinks m). n < length (gm_nets m)" using wf by (simp add: wf_module_def)
    have "ram_inputs m' = map ?g (ram_inputs m)"
    proof -
      have "write_port_nets (map_write_port ?g wp) = map ?g (write_port_nets wp)" for wp
        by (simp add: write_port_nets_def map_write_port_def split: option.split)
      then have "ram_nets (map_ram ?g r) = map ?g (ram_nets r)" for r
        by (simp add: ram_nets_def map_ram_def map_concat comp_def)
      then show ?thesis using m2(5) by (simp add: ram_inputs_def map_concat comp_def)
    qed
    then have "set (sinks m') \<subseteq> ?g ` set (sinks m)"
      using m2(2,4) by (auto simp: sinks_def alias_ff_nets)
    then show ?thesis using s gl by auto
  qed
  moreover have "driver (gm_nets m' ! NET_CONST0) = DConst False" "driver (gm_nets m' ! NET_CONST1) = DConst True"
    using other [OF rlt(1)] other [OF rlt(2)] rl(2,3) by simp_all
  ultimately show "wf_module m'"
    using rl(1) len cell wf_module_driver [OF wf] cl ins(2) unfolding wf_module_def by (simp add: RESERVED_NETS_def)
  have out: "c_output (gm_cells m ! i) < length (gm_nets m)" if "i < length (gm_cells m)" for i
    using wf that by (simp add: wf_module_def module_cell_wf_def)
  show "single_driver m'" if "single_driver m"
    using that cl cell [OF out] ins(2) by (simp add: single_driver_def)
  show "\<exists>r'. ranked r' m'" if r: "ranked r m"
  proof (intro exI)
    let ?r = "\<lambda>n. if n = NET_CONST0 \<or> n = NET_CONST1 then 0 else Suc (r n)"
    show "ranked ?r m'"
      unfolding ranked_def
    proof (intro allI impI ballI)
      fix n i x
      assume n: "n < length (gm_nets m')" and d: "driver (gm_nets m' ! n) = DCell i" and x: "x \<in> set (c_inputs (gm_cells m' ! i))"
      have n': "n < length (gm_nets m)" using n len by simp
      have d': "driver (gm_nets m ! n) = DCell i" by (rule cell [OF n', THEN iffD1, OF d])
      have i: "i < length (gm_cells m)" using wf_module_driver [OF wf n' d'] by simp
      obtain y where y: "y \<in> set (c_inputs (gm_cells m ! i))" "x = ?g y" using x ins(1) [OF i] by auto
      have "r y < r n" using r n' d' y(1) by (auto simp: ranked_def)
      moreover have "n \<noteq> NET_CONST0 \<and> n \<noteq> NET_CONST1" using d' rl(2,3) by auto
      ultimately show "?r x < ?r n" using g [of y] y(2) by auto
    qed
  qed
qed

lemma eliminate_dq_ffs_drivers:
  assumes "ff_drivers_ok m" "eliminate_dq_ffs m = Some m'"
  shows "ff_drivers_ok m'"
proof -
  obtain m2 where m2: "eliminate_dq_ffs m = Some m2" and len: "length (gm_nets m2) = length (gm_nets m)"
    and other: "\<And>n. n < length (gm_nets m) \<Longrightarrow> \<nexists>i. driver (gm_nets m ! n) = FfQ i \<Longrightarrow>
       driver (gm_nets m2 ! n) = driver (gm_nets m ! n)"
    and ffq: "\<And>n i. n < length (gm_nets m) \<Longrightarrow> driver (gm_nets m ! n) = FfQ i \<Longrightarrow>
       (if dq_ff (gm_ffs m ! i) then driver (gm_nets m2 ! n) = Undriven
        else \<exists>j < length (gm_ffs m2). driver (gm_nets m2 ! n) = FfQ j \<and>
          gm_ffs m2 ! j = alias_ff (dq_alias m) (gm_ffs m ! i))"
    by (rule eliminate_dq_ffs_result [OF assms(1)]) (rule that)
  have "m2 = m'" using m2 assms(2) by simp
  moreover have "ff_drivers_ok m2"
    unfolding ff_drivers_ok_def len
  proof (intro allI impI)
    fix n j assume n: "n < length (gm_nets m)" and d: "driver (gm_nets m2 ! n) = FfQ j"
    then obtain i where i: "driver (gm_nets m ! n) = FfQ i" using other [OF n] by metis
    then have "ff_q (gm_ffs m ! i) = n" using assms(1) n by (simp add: ff_drivers_ok_def)
    with ffq [OF n i] d show "j < length (gm_ffs m2) \<and> ff_q (gm_ffs m2 ! j) = n"
      by (auto simp: alias_ff_def split: if_splits)
  qed
  ultimately show ?thesis by simp
qed

lemma eliminate_dq_ffs_values:
  assumes "ff_drivers_ok m" "\<not> v NET_CONST0" "v NET_CONST1"
    and "\<forall>ff \<in> set (gm_ffs m). dq_ff ff \<longrightarrow> v (ff_q ff) = ff_reset_value ff" and e: "eliminate_dq_ffs m = Some m'"
  shows "(msat v m' \<longleftrightarrow> msat v m) \<and>
    map (\<lambda>f. map v (ff_nets f)) (gm_ffs m') = map (\<lambda>f. map v (ff_nets f)) (filter (\<lambda>f. \<not> dq_ff f) (gm_ffs m)) \<and>
    map (\<lambda>f. (ff_q f, ff_reset_value f)) (gm_ffs m') = map (\<lambda>f. (ff_q f, ff_reset_value f)) (filter (\<lambda>f. \<not> dq_ff f) (gm_ffs m)) \<and>
    map (\<lambda>p. map v (gp_nets p)) (gm_ports m') = map (\<lambda>p. map v (gp_nets p)) (gm_ports m) \<and>
    map v (ram_inputs m') = map v (ram_inputs m) \<and> ff_drivers_ok m'"
proof -
  obtain m2 where m': "eliminate_dq_ffs m = Some m2"
    "gm_ffs m2 = map (alias_ff (dq_alias m)) (filter (\<lambda>f. \<not> dq_ff f) (gm_ffs m))"
    "gm_cells m2 = map (\<lambda>c. c\<lparr>c_inputs := map (aliased (dq_alias m)) (c_inputs c)\<rparr>) (gm_cells m)"
    "gm_ports m2 = map (\<lambda>p. p\<lparr>gp_nets := map (aliased (dq_alias m)) (gp_nets p)\<rparr>) (gm_ports m)"
    "gm_ram_blocks m2 = map (map_ram (aliased (dq_alias m))) (gm_ram_blocks m)"
    and "gm_name m2 = gm_name m" and len: "length (gm_nets m2) = length (gm_nets m)"
    and "\<And>n. n < length (gm_nets m) \<Longrightarrow> origin (gm_nets m2 ! n) = origin (gm_nets m ! n)"
    and other: "\<And>n. n < length (gm_nets m) \<Longrightarrow> \<nexists>i. driver (gm_nets m ! n) = FfQ i \<Longrightarrow>
       driver (gm_nets m2 ! n) = driver (gm_nets m ! n)"
    and ffq: "\<And>n i. n < length (gm_nets m) \<Longrightarrow> driver (gm_nets m ! n) = FfQ i \<Longrightarrow>
       (if dq_ff (gm_ffs m ! i) then driver (gm_nets m2 ! n) = Undriven
        else \<exists>j < length (gm_ffs m2). driver (gm_nets m2 ! n) = FfQ j \<and>
          gm_ffs m2 ! j = alias_ff (dq_alias m) (gm_ffs m ! i))"
    by (rule eliminate_dq_ffs_result [OF assms(1)]) (rule that)
  have eq: "m2 = m'" using m'(1) e by simp
  note m' = m' [unfolded eq] and len = len [unfolded eq] and other = other [unfolded eq] and ffq = ffq [unfolded eq]
  let ?g = "aliased (dq_alias m)"
  have val: "v (?g n) = v n" for n by (rule dq_values [OF assms(4,2,3)])
  then have vals: "map v (map ?g ns) = map v ns" for ns by simp
  have const: "driver (gm_nets m' ! n) = DConst b \<longleftrightarrow> driver (gm_nets m ! n) = DConst b"
    if "n < length (gm_nets m)" for n b
    using other [OF that] ffq [OF that] by (cases "driver (gm_nets m ! n)") (auto split: if_splits)
  have "msat v m' \<longleftrightarrow> msat v m"
    using const by (simp add: msat_def m'(3) len holds_def vals del: map_map)
  moreover have "map v (ff_nets (alias_ff (dq_alias m) f)) = map v (ff_nets f)" for f
    by (simp add: ff_nets_def alias_ff_def val split: option.split)
  moreover have "ram_inputs m' = map ?g (ram_inputs m)"
  proof -
    have "write_port_nets (map_write_port ?g wp) = map ?g (write_port_nets wp)" for wp
      by (simp add: write_port_nets_def map_write_port_def split: option.split)
    then have "ram_nets (map_ram ?g r) = map ?g (ram_nets r)" for r
      by (simp add: ram_nets_def map_ram_def map_concat comp_def)
    then show ?thesis by (simp add: ram_inputs_def m'(5) map_concat comp_def)
  qed
  moreover have "ff_drivers_ok m'" by (rule eliminate_dq_ffs_drivers [OF assms(1) e])
  ultimately have 1: "msat v m' \<longleftrightarrow> msat v m"
    "\<And>f. map v (ff_nets (alias_ff (dq_alias m) f)) = map v (ff_nets f)"
    "ram_inputs m' = map ?g (ram_inputs m)" "ff_drivers_ok m'" by blast+
  have "map v (ram_inputs m') = map v (ram_inputs m)" unfolding 1(3) by (rule vals)
  moreover have "map (\<lambda>p. map v (gp_nets p)) (gm_ports m') = map (\<lambda>p. map v (gp_nets p)) (gm_ports m)"
    by (simp add: m'(4) val comp_def)
  moreover have "map (\<lambda>f. map v (ff_nets f)) (gm_ffs m') = map (\<lambda>f. map v (ff_nets f)) (filter (\<lambda>f. \<not> dq_ff f) (gm_ffs m))"
    "map (\<lambda>f. (ff_q f, ff_reset_value f)) (gm_ffs m') = map (\<lambda>f. (ff_q f, ff_reset_value f)) (filter (\<lambda>f. \<not> dq_ff f) (gm_ffs m))"
    using 1(2) m'(2) by (simp_all add: alias_ff_def)
  ultimately show ?thesis using 1(1,4) by blast
qed

text \<open>
  The values of a flip-flop that has been reset: it starts at its reset value; in each later
  cycle it takes the reset value or, at the clock edge, the value of its D net, in an
  assignment that respects the module and gives its Q net the value it holds, or it keeps it.
\<close>

inductive ff_run :: "gate_module \<Rightarrow> ff_cell \<Rightarrow> bool \<Rightarrow> bool" for m ff where
  at_reset: "ff_run m ff (ff_reset_value ff)"
| latch: "ff_run m ff s \<Longrightarrow> msat v m \<Longrightarrow> v (ff_q ff) = s \<Longrightarrow> ff_run m ff (v (ff_d ff))"

subsection \<open>Properties\<close>

text \<open>
  Dead-cell elimination of a well-formed module never panics; it keeps exactly the cells
  in the fan-in of a flip-flop, port or RAM input, in their order, and the flip-flops, ports and
  RAM blocks as they are; every net in that fan-in keeps its driver (the same cell, at its new
  index), every net driven by a dropped cell becomes undriven; and the result is well formed.
\<close>

theorem dead_cell_elimination_keeps:
  assumes "wf_module m"
  shows "\<exists>m'. dead_cell_elimination m = Some m' \<and>
    gm_cells m' = map (\<lambda>i. gm_cells m ! i) (filter (live_cell m) [0..<length (gm_cells m)]) \<and>
    gm_ffs m' = gm_ffs m \<and> gm_ports m' = gm_ports m \<and> gm_ram_blocks m' = gm_ram_blocks m \<and>
    length (gm_nets m') = length (gm_nets m) \<and>
    (\<forall>n. live_net m n \<longrightarrow> same_drive m m' n) \<and>
    (\<forall>n < length (gm_nets m). \<forall>i. driver (gm_nets m ! n) = DCell i \<and> \<not> live_cell m i \<longrightarrow>
       driver (gm_nets m' ! n) = Undriven) \<and>
    wf_module m'"
proof -
  obtain m' where e: "dead_cell_elimination m = Some m'" using dead_cell_elimination_result [OF assms] by blast
  note k = dce_keeps [OF assms e] and dr = dce_drivers [OF assms e]
  have "same_drive m m' n" if n: "live_net m n" for n
  proof (cases "driver (gm_nets m ! n)")
    case (DCell i)
    then have "live_cell m i" using n by (auto simp: live_cell_def)
    with dr(3) [OF live_net_range [OF assms n] DCell] DCell show ?thesis by (simp add: same_drive_def)
  qed (use dr(2) [OF live_net_range [OF assms n]] in \<open>simp_all add: same_drive_def\<close>)
  moreover have "\<forall>n < length (gm_nets m). \<forall>i. driver (gm_nets m ! n) = DCell i \<and> \<not> live_cell m i \<longrightarrow>
       driver (gm_nets m' ! n) = Undriven" using dr(4) by blast
  ultimately show ?thesis
    using e k dce_wf [OF assms e] by (intro exI [of _ m']) (simp add: live_cells_def)
qed

text \<open>
  C5: dead-cell elimination preserves what the module computes: for an acyclic well-formed
  module, in every assignment of the original and every assignment of the result that agree on
  the nets in the fan-in that no cell drives, every flip-flop input, port and RAM input has the
  same value.
\<close>

theorem dead_cell_elimination_equiv:
  fixes r :: "net_id \<Rightarrow> nat"
  assumes "wf_module m" "ranked r m" "dead_cell_elimination m = Some m'"
    and "msat v m" "msat w m'"
    and "\<forall>n. live_net m n \<and> (\<nexists>i. driver (gm_nets m ! n) = DCell i) \<longrightarrow> v n = w n"
  shows "sinks m' = sinks m \<and> (\<forall>n \<in> set (sinks m). v n = w n)"
proof -
  note k = dce_keeps [OF assms(1,3)]
  have "v n = w n" if "n \<in> set (sinks m)" for n
  proof (rule live_agree [OF assms(1,2)])
    fix i assume i: "live_cell m i"
    then obtain n where "live_net m n" "driver (gm_nets m ! n) = DCell i" by (auto simp: live_cell_def)
    then have len: "i < length (gm_cells m)"
      using wf_module_driver [OF assms(1) live_net_range [OF assms(1)]] by blast
    then show "holds v (gm_cells m ! i)" using assms(4) by (simp add: msat_def)
    have "gm_cells m ! i \<in> set (gm_cells m')" unfolding k(1) set_live_cells using len i by blast
    then show "holds w (gm_cells m ! i)" using assms(5) by (simp add: msat_def)
  next
    show "v x = w x" if "live_net m x" "\<nexists>i. driver (gm_nets m ! x) = DCell i" for x using assms(6) that by blast
    show "live_net m n" unfolding live_net_def using that by (rule fanin.start)
  qed
  then show ?thesis by (simp add: sinks_cong [OF k(2,3,4)])
qed


text \<open>
  A register whose D is its own Q holds its reset value in every cycle after the reset,
  whatever the rest of the module does, so the elimination's assumption is met from then on.
\<close>

theorem dq_register_holds_forever:
  assumes "ff_run m ff s" "dq_ff ff"
  shows "s = ff_reset_value ff"
  using assms by induction (simp_all add: dq_ff_def)

subsection \<open>The properties at a concrete module\<close>

text \<open>An inverter, a dead AND, an OR, and a register that holds its reset value.\<close>

definition demo_ff :: ff_cell where
  "demo_ff = \<lparr>ff_clock = 2, ff_clock_edge = Posedge,
     ff_reset = Some \<lparr>rs_net = 2, rs_polarity = ActiveHigh, rs_sync = False\<rparr>, ff_d = 5, ff_q = 5,
     ff_reset_value = False, ff_clock_domain = NoDomain, ff_origin = None\<rparr>"

definition demo_module :: gate_module where
  "demo_module = \<lparr>gm_name = None,
     gm_ports = [\<lparr>gp_name = 0, gp_path = [], gp_dir = Input, gp_nets = [2]\<rparr>,
                 \<lparr>gp_name = 1, gp_path = [], gp_dir = Output, gp_nets = [6]\<rparr>],
     gm_nets = map (\<lambda>d. \<lparr>driver = d, origin = None\<rparr>)
       [DConst False, DConst True, PortInput, DCell 0, DCell 1, FfQ 0, DCell 2],
     gm_cells = [\<lparr>c_kind = Not1, c_inputs = [2], c_output = 3\<rparr>, \<lparr>c_kind = And2, c_inputs = [2, 3], c_output = 4\<rparr>,
                 \<lparr>c_kind = Or2, c_inputs = [3, 5], c_output = 6\<rparr>],
     gm_ffs = [demo_ff], gm_ram_blocks = []\<rparr>"

definition demo_value :: "net_id \<Rightarrow> bool" where
  "demo_value n \<longleftrightarrow> n \<in> {1, 3, 6}"

lemmas demo_simps = demo_module_def demo_ff_def rails wf_module_def module_cell_wf_def sinks_def ff_nets_def
  ram_inputs_def All_less_Suc eval_nat_numeral nth_Cons'

lemma demo_wf: "wf_module demo_module"
  by (simp add: demo_simps)

lemma demo_ranked: "ranked id demo_module"
  by (simp add: ranked_def demo_simps)

lemma demo_ff_drivers: "ff_drivers_ok demo_module"
  by (simp add: ff_drivers_ok_def demo_simps)

lemma demo_msat: "msat demo_value demo_module"
  by (simp add: msat_def holds_def demo_value_def demo_simps)

theorem dead_cell_elimination_keeps_witness:
  "\<exists>m'. dead_cell_elimination demo_module = Some m' \<and> wf_module m' \<and>
    (\<forall>n. live_net demo_module n \<longrightarrow> same_drive demo_module m' n)"
  using dead_cell_elimination_keeps [OF demo_wf] by blast

theorem dead_cell_elimination_equiv_witness:
  "\<exists>m'. dead_cell_elimination demo_module = Some m' \<and> sinks m' = sinks demo_module"
proof -
  obtain m' where e: "dead_cell_elimination demo_module = Some m'"
    using dead_cell_elimination_result [OF demo_wf] by blast
  have "sinks m' = sinks demo_module \<and> (\<forall>n \<in> set (sinks demo_module). demo_value n = demo_value n)"
    by (rule dead_cell_elimination_equiv [OF demo_wf demo_ranked e demo_msat dce_msat [OF demo_wf e demo_msat]]) simp
  with e show ?thesis by blast
qed


theorem dq_register_holds_forever_witness: "ff_run demo_module demo_ff False \<and> \<not> ff_reset_value demo_ff"
proof -
  have "ff_run demo_module demo_ff (ff_reset_value demo_ff)" by (rule ff_run.at_reset)
  then have run: "ff_run demo_module demo_ff False" by (simp add: demo_ff_def)
  moreover have "dq_ff demo_ff" by (simp add: dq_ff_def demo_ff_def)
  ultimately show ?thesis using dq_register_holds_forever [OF run] by simp
qed

end
