(* ===== verification/Worklist_Pass.thy ===== *)
theory Worklist_Pass
  imports Worklist Cleanup Conv_Context
begin

section \<open>The worklist pass (\<open>worklist_simplify\<close>, \<open>converge_simplify\<close>)\<close>

text \<open>
  One sweep of constant propagation, local rewrites and sharing over a module. The state of
  the sweep is the module, the reverse graph, the table of keys, the stack of cells to visit
  (top first) and the flags that tell which cells are on it.
\<close>

subsection \<open>State and helpers\<close>

record wl_state =
  ws_module :: gate_module
  ws_consumers :: "nat list list"
  ws_seen :: "(cell_kind \<times> net_id list) \<rightharpoonup> nat"
  ws_wl :: "nat list"
  ws_in_wl :: "bool list"

definition CONSUMER_PRUNE_LIMIT :: nat where "CONSUMER_PRUNE_LIMIT = 64"

definition set_cell :: "nat \<Rightarrow> cell \<Rightarrow> wl_state \<Rightarrow> wl_state" where
  "set_cell i c st = st\<lparr>ws_module := (ws_module st)\<lparr>gm_cells := (gm_cells (ws_module st))[i := c]\<rparr>\<rparr>"

definition add_consumer :: "nat \<Rightarrow> net_id \<Rightarrow> nat list list \<Rightarrow> nat list list" where
  "add_consumer i n cs = cs[n := cs ! n @ [i]]"

definition build_consumers :: "gate_module \<Rightarrow> nat list list" where
  "build_consumers m = fold (\<lambda>(i, c). fold (add_consumer i) (c_inputs c))
     (enumerate 0 (gm_cells m)) (replicate (length (gm_nets m)) [])"

definition push_wl :: "nat \<Rightarrow> wl_state \<Rightarrow> wl_state" where
  "push_wl i st = (if \<not> ws_in_wl st ! i then st\<lparr>ws_in_wl := (ws_in_wl st)[i := True], ws_wl := i # ws_wl st\<rparr> else st)"

definition reread :: "net_id \<Rightarrow> net_id \<Rightarrow> cell \<Rightarrow> cell" where
  "reread old src c = c\<lparr>c_inputs := map (\<lambda>n. if n = old then src else n) (c_inputs c)\<rparr>"

subsection \<open>The pre-pass over existing buffers\<close>

definition prepass_consumer :: "nat \<Rightarrow> net_id \<Rightarrow> net_id \<Rightarrow> nat \<Rightarrow> wl_state \<Rightarrow> wl_state" where
  "prepass_consumer cell_idx out src consumer_idx st =
     (if consumer_idx = cell_idx then st
      else let st1 = set_cell consumer_idx (reread out src (gm_cells (ws_module st) ! consumer_idx)) st;
               st2 = st1\<lparr>ws_consumers := add_consumer consumer_idx src (ws_consumers st1)\<rparr>
           in push_wl consumer_idx st2)"

definition prepass_cell :: "nat \<Rightarrow> wl_state \<Rightarrow> wl_state" where
  "prepass_cell cell_idx st =
     (let cell = gm_cells (ws_module st) ! cell_idx
      in if c_kind cell \<noteq> Buf then st
         else let cell_output = c_output cell; src = c_inputs cell ! 0
              in if src = cell_output then st
                 else let old_consumers = ws_consumers st ! cell_output;
                          st1 = st\<lparr>ws_consumers := (ws_consumers st)[cell_output := []]\<rparr>
                      in fold (prepass_consumer cell_idx cell_output src) old_consumers st1)"

subsection \<open>One visit\<close>

text \<open>The replacement of a cell: its new kind and inputs, and the net its readers may use instead.\<close>

fun of_simpl :: "simpl \<Rightarrow> cell_kind \<times> net_id list \<times> net_id option" where
  "of_simpl (SConst v) = (let c = (if v then NET_CONST1 else NET_CONST0) in (Buf, [c], Some c))"
| "of_simpl (SAlias n) = (Buf, [n], Some n)"
| "of_simpl (SInvert n) = (Not1, [n], None)"

text \<open>The chosen replacement, if any, and the table after the look-up.\<close>

definition choose_rewrite :: "nat \<Rightarrow> wl_state \<Rightarrow>
    (cell_kind \<times> net_id list \<times> net_id option) option \<times> ((cell_kind \<times> net_id list) \<rightharpoonup> nat)" where
  "choose_rewrite cell_idx st =
     (let m = ws_module st; seen = ws_seen st; cell = gm_cells m ! cell_idx;
          ivs = map (const_of (gm_nets m)) (c_inputs cell)
      in case simplify (c_kind cell) ivs (c_inputs cell) of
           Some s \<Rightarrow> (Some (of_simpl s), seen)
         | None \<Rightarrow>
            (case algebraic_fuse m (c_kind cell) (c_inputs cell) (ws_consumers st) of
               Some (k, inputs) \<Rightarrow> (Some (k, inputs, if k = Buf then Some (inputs ! 0) else None), seen)
             | None \<Rightarrow>
                (case cse_key (c_kind cell) (c_inputs cell) of
                   None \<Rightarrow> (None, seen)
                 | Some key \<Rightarrow>
                    (case seen key of
                       Some other_idx \<Rightarrow>
                         (if other_idx \<noteq> cell_idx
                          then let other_out = c_output (gm_cells m ! other_idx) in (Some (Buf, [other_out], Some other_out), seen)
                          else (None, seen))
                     | None \<Rightarrow> (None, seen(key \<mapsto> cell_idx))))))"

fun position :: "'a \<Rightarrow> 'a list \<Rightarrow> nat option" where
  "position x [] = None"
| "position x (y # ys) = (if y = x then Some 0 else map_option Suc (position x ys))"

definition swap_remove :: "nat \<Rightarrow> 'a list \<Rightarrow> 'a list" where
  "swap_remove pos xs = butlast (xs[pos := last xs])"

definition prune_consumer :: "nat \<Rightarrow> net_id \<Rightarrow> nat list list \<Rightarrow> nat list list" where
  "prune_consumer cell_idx n cs =
     (if n < length cs \<and> length (cs ! n) \<le> CONSUMER_PRUNE_LIMIT
      then (case position cell_idx (cs ! n) of Some pos \<Rightarrow> cs[n := swap_remove pos (cs ! n)] | None \<Rightarrow> cs)
      else cs)"

definition add_in_range :: "nat \<Rightarrow> net_id \<Rightarrow> nat list list \<Rightarrow> nat list list" where
  "add_in_range i n cs = (if n < length cs then add_consumer i n cs else cs)"

definition forget :: "nat \<Rightarrow> cell \<Rightarrow> ((cell_kind \<times> net_id list) \<rightharpoonup> nat) \<Rightarrow> ((cell_kind \<times> net_id list) \<rightharpoonup> nat)" where
  "forget i c seen = (case cse_key (c_kind c) (c_inputs c) of
      Some key \<Rightarrow> (if seen key = Some i then seen(key := None) else seen)
    | None \<Rightarrow> seen)"

definition rewire_consumer :: "nat \<Rightarrow> net_id \<Rightarrow> net_id \<Rightarrow> nat \<Rightarrow> wl_state \<Rightarrow> wl_state" where
  "rewire_consumer cell_idx out src consumer_idx st =
     (if consumer_idx = cell_idx then st
      else let consumer = gm_cells (ws_module st) ! consumer_idx
           in if out \<notin> set (c_inputs consumer) then st
              else let st1 = st\<lparr>ws_seen := forget consumer_idx consumer (ws_seen st)\<rparr>;
                       st2 = set_cell consumer_idx (reread out src consumer) st1;
                       st3 = st2\<lparr>ws_consumers := add_consumer consumer_idx src (ws_consumers st2)\<rparr>
                   in push_wl consumer_idx st3)"

definition visit :: "nat \<Rightarrow> wl_state \<Rightarrow> wl_state" where
  "visit cell_idx st =
     (let cell = gm_cells (ws_module st) ! cell_idx
      in if c_kind cell = Buf then st
         else case choose_rewrite cell_idx st of
             (None, seen) \<Rightarrow> st\<lparr>ws_seen := seen\<rparr>
           | (Some (new_kind, new_inputs, buf_src), seen) \<Rightarrow>
               let cs1 = fold (prune_consumer cell_idx) (c_inputs cell) (ws_consumers st);
                   cs2 = fold (add_in_range cell_idx) new_inputs cs1;
                   st1 = set_cell cell_idx (cell\<lparr>c_kind := new_kind, c_inputs := new_inputs\<rparr>)
                           (st\<lparr>ws_seen := forget cell_idx cell seen, ws_consumers := cs2\<rparr>)
               in (case buf_src of
                     Some src \<Rightarrow>
                       let old_consumers = ws_consumers st1 ! c_output cell;
                           st2 = st1\<lparr>ws_consumers := (ws_consumers st1)[c_output cell := []]\<rparr>
                       in fold (rewire_consumer cell_idx (c_output cell) src) old_consumers st2
                   | None \<Rightarrow> fold push_wl (ws_consumers st1 ! c_output cell) (push_wl cell_idx st1)))"

partial_function (option) wl_loop :: "wl_state \<Rightarrow> wl_state option" where
  "wl_loop st = (case ws_wl st of
      [] \<Rightarrow> Some st
    | i # rest \<Rightarrow> wl_loop (visit i (st\<lparr>ws_wl := rest, ws_in_wl := (ws_in_wl st)[i := False]\<rparr>)))"

subsection \<open>The pass\<close>

text \<open>
  An input net out of range is a panic, met while the reverse graph is built. The loop, and
  the resolution of a pin, may not end: then the result is \<open>None\<close> too.
\<close>

definition resolve_ff :: "gate_module \<Rightarrow> ff_cell \<Rightarrow> ff_cell option" where
  "resolve_ff m ff = do {
     d \<leftarrow> resolve_alias m (ff_d ff);
     clk \<leftarrow> resolve_alias m (ff_clock ff);
     rst \<leftarrow> (case ff_reset ff of None \<Rightarrow> Some None
              | Some r \<Rightarrow> map_option (\<lambda>n. Some (r\<lparr>rs_net := n\<rparr>)) (resolve_alias m (rs_net r)));
     Some (ff\<lparr>ff_d := d, ff_clock := clk, ff_reset := rst\<rparr>)
   }"

definition resolve_port :: "gate_module \<Rightarrow> gate_port \<Rightarrow> gate_port option" where
  "resolve_port m p = map_option (\<lambda>ns. p\<lparr>gp_nets := ns\<rparr>) (those (map (resolve_alias m) (gp_nets p)))"

definition resolve_pins :: "gate_module \<Rightarrow> gate_module option" where
  "resolve_pins m = do {
     ffs \<leftarrow> those (map (resolve_ff m) (gm_ffs m));
     ports \<leftarrow> those (map (resolve_port m) (gm_ports m));
     ram_resolved \<leftarrow> those (snd (run_state (for_each_ram_input_net m (collect (resolve_alias m))) []));
     Some (fst (run_state (for_each_ram_input_net_mut (m\<lparr>gm_ffs := ffs, gm_ports := ports\<rparr>) take_next) ram_resolved))
   }"

definition drop_bufs :: "gate_module \<Rightarrow> gate_module option" where
  "drop_bufs m =
     (case compact (map (\<lambda>c. c_kind c \<noteq> Buf) (gm_cells m)) (gm_cells m) [] of (new_cells, index_map) \<Rightarrow>
        map_option (\<lambda>nets. m\<lparr>gm_cells := new_cells, gm_nets := nets\<rparr>)
          (those (map (redirect_cell index_map) (gm_nets m))))"

definition worklist_simplify :: "gate_module \<Rightarrow> gate_module option" where
  "worklist_simplify m =
     (let n_nets = length (gm_nets m); n_cells = length (gm_cells m)
      in if \<not> list_all (\<lambda>c. list_all (\<lambda>n. n < n_nets) (c_inputs c)) (gm_cells m) then None
         else let st0 = \<lparr>ws_module = m, ws_consumers = build_consumers m, ws_seen = Map.empty,
                         ws_wl = rev [0..<n_cells], ws_in_wl = replicate n_cells True\<rparr>;
                  st1 = fold prepass_cell [0..<n_cells] st0
              in do { st2 \<leftarrow> wl_loop st1; m' \<leftarrow> resolve_pins (ws_module st2); drop_bufs m' })"

partial_function (option) converge_simplify :: "gate_module \<Rightarrow> gate_module option" where
  "converge_simplify gate = do {
     gate1 \<leftarrow> worklist_simplify gate;
     gate2 \<leftarrow> eliminate_dq_ffs gate1;
     if length (gm_cells gate2) = length (gm_cells gate) \<and> length (gm_ffs gate2) = length (gm_ffs gate)
     then Some gate2 else converge_simplify gate2
   }"

declare resolve_alias.simps [code] wl_loop.simps [code] converge_simplify.simps [code]

subsection \<open>What the sweep keeps of the module\<close>

definition const_nets_ok :: "(net_id \<Rightarrow> bool) \<Rightarrow> gate_module \<Rightarrow> bool" where
  "const_nets_ok v m \<longleftrightarrow> (\<forall>n < length (gm_nets m). \<forall>b. driver (gm_nets m ! n) = DConst b \<longrightarrow> v n = b)"

definition same_frame :: "gate_module \<Rightarrow> gate_module \<Rightarrow> bool" where
  "same_frame m0 m \<longleftrightarrow> m = m0\<lparr>gm_cells := gm_cells m\<rparr> \<and> map c_output (gm_cells m) = map c_output (gm_cells m0)"

text \<open>
  A weight of the nets that no cell raises: it bounds the size of the logic behind a net and
  falls, or the number of proper cells does, with every rewrite.
\<close>

definition weighted :: "(net_id \<Rightarrow> nat) \<Rightarrow> gate_module \<Rightarrow> bool" where
  "weighted T m \<longleftrightarrow> T NET_CONST0 = 0 \<and> T NET_CONST1 = 0 \<and>
     (\<forall>c \<in> set (gm_cells m). wt (c_kind c) + sum_list (map T (c_inputs c)) \<le> T (c_output c))"

definition good :: "gate_module \<Rightarrow> (net_id \<Rightarrow> nat) \<Rightarrow> gate_module \<Rightarrow> bool" where
  "good m0 T m \<longleftrightarrow> same_frame m0 m \<and> wf_module m \<and> single_driver m \<and> (\<forall>v. msat v m \<longleftrightarrow> msat v m0) \<and> weighted T m"

abbreviation with_cell :: "gate_module \<Rightarrow> nat \<Rightarrow> cell \<Rightarrow> gate_module" where
  "with_cell m i c \<equiv> m\<lparr>gm_cells := (gm_cells m)[i := c]\<rparr>"

lemma sinks_cells [simp]: "sinks (m\<lparr>gm_cells := cs\<rparr>) = sinks m"
  by (simp add: sinks_def ram_inputs_def)

lemma const_nets_ok_cells [simp]: "const_nets_ok v (m\<lparr>gm_cells := cs\<rparr>) = const_nets_ok v m"
  by (simp add: const_nets_ok_def)

lemma msat_nth: "msat v m \<longleftrightarrow> const_nets_ok v m \<and> (\<forall>i < length (gm_cells m). holds v (gm_cells m ! i))"
  by (auto simp: msat_def const_nets_ok_def all_set_conv_all_nth)

lemma same_frameD:
  assumes "same_frame m0 m"
  shows "gm_nets m = gm_nets m0" "gm_ffs m = gm_ffs m0" "gm_ports m = gm_ports m0" "gm_ram_blocks m = gm_ram_blocks m0"
    "length (gm_cells m) = length (gm_cells m0)"
    "\<And>i. i < length (gm_cells m0) \<Longrightarrow> c_output (gm_cells m ! i) = c_output (gm_cells m0 ! i)"
proof -
  have m: "m = m0\<lparr>gm_cells := gm_cells m\<rparr>" and o: "map c_output (gm_cells m) = map c_output (gm_cells m0)"
    using assms by (simp_all add: same_frame_def)
  show "gm_nets m = gm_nets m0" "gm_ffs m = gm_ffs m0" "gm_ports m = gm_ports m0" "gm_ram_blocks m = gm_ram_blocks m0"
    by (subst m, simp)+
  show len: "length (gm_cells m) = length (gm_cells m0)" using o by (metis length_map)
  show "c_output (gm_cells m ! i) = c_output (gm_cells m0 ! i)" if "i < length (gm_cells m0)" for i
    using that len o by (metis nth_map)
qed

lemma single_driver_inj:
  assumes "single_driver m" "i < length (gm_cells m)" "j < length (gm_cells m)"
    "c_output (gm_cells m ! i) = c_output (gm_cells m ! j)"
  shows "i = j"
  using assms unfolding single_driver_def by (metis net_driver.inject(2))

lemma output_not_rail:
  assumes "wf_module m" "single_driver m" "i < length (gm_cells m)"
  shows "c_output (gm_cells m ! i) \<noteq> NET_CONST0" "c_output (gm_cells m ! i) \<noteq> NET_CONST1"
  using assms by (metis single_driver_def wf_module_def net_driver.distinct(3))+

lemma good_with_cell:
  assumes g: "good m0 T m" and i: "i < length (gm_cells m)"
    and out: "c_output c = c_output (gm_cells m ! i)" and wf: "module_cell_wf (length (gm_nets m)) c"
    and fn: "\<And>v. const_nets_ok v m \<Longrightarrow> (\<And>j. j < length (gm_cells m) \<Longrightarrow> j \<noteq> i \<Longrightarrow> holds v (gm_cells m ! j)) \<Longrightarrow>
      holds v c \<longleftrightarrow> holds v (gm_cells m ! i)"
    and w: "weighted T' (with_cell m i c)"
  shows "good m0 T' (with_cell m i c)"
proof -
  let ?m = "with_cell m i c"
  have f: "same_frame m0 m" and wfm: "wf_module m" and sd: "single_driver m" and sat: "\<And>v. msat v m \<longleftrightarrow> msat v m0"
    using g by (auto simp: good_def)
  have outs: "c_output ((gm_cells m)[i := c] ! j) = c_output (gm_cells m ! j)" if "j < length (gm_cells m)" for j
    using that out by (cases "j = i") simp_all
  have "map c_output ((gm_cells m)[i := c]) = map c_output (gm_cells m)"
    using outs by (intro nth_equalityI) simp_all
  then have "same_frame m0 ?m" using f by (simp add: same_frame_def) (metis gate_module.surjective gate_module.update_convs(4))
  moreover have "wf_module ?m"
  proof -
    have "\<forall>x \<in> set ((gm_cells m)[i := c]). module_cell_wf (length (gm_nets m)) x"
      using wfm wf set_update_subset_insert [of "gm_cells m" i c] by (auto simp: wf_module_def)
    with wfm outs show ?thesis by (auto simp: wf_module_def)
  qed
  moreover have "single_driver ?m" using sd outs by (simp add: single_driver_def)
  moreover have "msat v ?m \<longleftrightarrow> msat v m0" for v
  proof -
    have "msat v ?m \<longleftrightarrow> msat v m"
    proof
      assume a: "msat v ?m"
      have oth: "holds v (gm_cells m ! j)" if "j < length (gm_cells m)" "j \<noteq> i" for j
        using a that by (force simp: msat_nth)
      have "holds v c" using a i by (auto simp: msat_nth)
      with fn [OF _ oth] a have "holds v (gm_cells m ! i)" by (simp add: msat_nth)
      with oth a show "msat v m" by (auto simp: msat_nth)
    next
      assume a: "msat v m"
      then have "holds v c" using fn [of v] i by (simp add: msat_nth)
      then have "holds v ((gm_cells m)[i := c] ! j)" if "j < length (gm_cells m)" for j
        using a that by (cases "j = i") (simp_all add: msat_nth)
      with a show "msat v ?m" by (simp add: msat_nth)
    qed
    with sat show ?thesis by simp
  qed
  ultimately show ?thesis using w by (simp add: good_def)
qed

subsection \<open>Rewiring the readers of a buffer\<close>

definition unread :: "gate_module \<Rightarrow> net_id \<Rightarrow> bool" where
  "unread m n \<longleftrightarrow> (\<forall>i < length (gm_cells m). n \<notin> set (c_inputs (gm_cells m ! i)))"

definition proper :: "gate_module \<Rightarrow> nat" where
  "proper m = length (filter (\<lambda>c. c_kind c \<noteq> Buf) (gm_cells m))"

lemma c_reread [simp]: "c_kind (reread x y c) = c_kind c" "c_output (reread x y c) = c_output c"
  "set (c_inputs (reread x y c)) = (if x \<in> set (c_inputs c) then insert y (set (c_inputs c) - {x}) else set (c_inputs c))"
  "length (c_inputs (reread x y c)) = length (c_inputs c)"
  by (auto simp: reread_def)

lemma sum_list_le: "(\<And>x. x \<in> set xs \<Longrightarrow> f x \<le> g x) \<Longrightarrow> sum_list (map f xs) \<le> (sum_list (map g xs) :: nat)"
  by (induction xs) (auto intro: add_mono)

lemma weighted_nth: "weighted T m \<longleftrightarrow> T NET_CONST0 = 0 \<and> T NET_CONST1 = 0 \<and>
   (\<forall>i < length (gm_cells m). wt (c_kind (gm_cells m ! i)) + sum_list (map T (c_inputs (gm_cells m ! i))) \<le>
      T (c_output (gm_cells m ! i)))"
  by (auto simp: weighted_def all_set_conv_all_nth)

lemma weighted_with_cell:
  assumes "weighted T m" "wt (c_kind c) + sum_list (map T (c_inputs c)) \<le> T (c_output c)"
  shows "weighted T (with_cell m i c)"
  using assms set_update_subset_insert [of "gm_cells m" i c] by (auto simp: weighted_def)

lemma weighted_input: "weighted T m \<Longrightarrow> i < length (gm_cells m) \<Longrightarrow> x \<in> set (c_inputs (gm_cells m ! i)) \<Longrightarrow>
    wt (c_kind (gm_cells m ! i)) + T x \<le> T (c_output (gm_cells m ! i))"
proof -
  assume w: "weighted T m" "i < length (gm_cells m)" and x: "x \<in> set (c_inputs (gm_cells m ! i))"
  have "T x \<le> sum_list (map T (c_inputs (gm_cells m ! i)))" using x by (intro member_le_sum_list) simp_all
  moreover have "wt (c_kind (gm_cells m ! i)) + sum_list (map T (c_inputs (gm_cells m ! i))) \<le> T (c_output (gm_cells m ! i))"
    using w by (simp add: weighted_nth)
  ultimately show ?thesis by linarith
qed

text \<open>The buffer \<open>b\<close> drives \<open>out\<close> from \<open>src\<close>; a reader may read \<open>src\<close> instead.\<close>

definition buffer_at :: "gate_module \<Rightarrow> nat \<Rightarrow> net_id \<Rightarrow> net_id \<Rightarrow> bool" where
  "buffer_at m b out src \<longleftrightarrow> b < length (gm_cells m) \<and> c_kind (gm_cells m ! b) = Buf \<and>
     c_inputs (gm_cells m ! b) = [src] \<and> c_output (gm_cells m ! b) = out \<and> src \<noteq> out"

lemma good_reread:
  assumes g: "good m0 T m" and b: "buffer_at m b out src" and j: "j < length (gm_cells m)" "j \<noteq> b"
  shows "good m0 T (with_cell m j (reread out src (gm_cells m ! j)))"
    and "buffer_at (with_cell m j (reread out src (gm_cells m ! j))) b out src"
    and "proper (with_cell m j (reread out src (gm_cells m ! j))) = proper m"
proof -
  let ?c = "reread out src (gm_cells m ! j)"
  have wf: "wf_module m" and w: "weighted T m" using g by (auto simp: good_def)
  have cw: "module_cell_wf (length (gm_nets m)) c" if "c \<in> set (gm_cells m)" for c using wf that by (simp add: wf_module_def)
  have src: "src < length (gm_nets m)" using cw [of "gm_cells m ! b"] b by (simp add: buffer_at_def module_cell_wf_def)
  have le: "T src \<le> T out" using weighted_input [OF w, of b src] b by (simp add: buffer_at_def)
  show "good m0 T (with_cell m j ?c)"
  proof (rule good_with_cell [OF g j(1)])
    show "module_cell_wf (length (gm_nets m)) ?c" using cw [of "gm_cells m ! j"] j src by (auto simp: module_cell_wf_def)
    show "holds v ?c \<longleftrightarrow> holds v (gm_cells m ! j)"
      if "\<And>i. i < length (gm_cells m) \<Longrightarrow> i \<noteq> j \<Longrightarrow> holds v (gm_cells m ! i)" for v
    proof -
      have "v out = v src" using that [of b] b j by (auto simp: buffer_at_def holds_def)
      then have "map v (c_inputs ?c) = map v (c_inputs (gm_cells m ! j))" by (simp add: reread_def)
      then show ?thesis by (simp add: holds_def)
    qed
    have "sum_list (map T (c_inputs ?c)) \<le> sum_list (map T (c_inputs (gm_cells m ! j)))"
      using le by (simp add: reread_def comp_def sum_list_le)
    then show "weighted T (with_cell m j ?c)"
      using w j by (intro weighted_with_cell) (auto simp: weighted_nth intro: order_trans [rotated])
  qed simp
  show "buffer_at (with_cell m j ?c) b out src" using b j by (simp add: buffer_at_def)
  show "proper (with_cell m j ?c) = proper m"
  proof -
    have "map c_kind ((gm_cells m)[j := ?c]) = map c_kind (gm_cells m)"
      using j by (metis c_reread(1) list_update_id map_update)
    then have "filter (\<lambda>k. k \<noteq> Buf) (map c_kind ((gm_cells m)[j := ?c])) = filter (\<lambda>k. k \<noteq> Buf) (map c_kind (gm_cells m))" by simp
    then show ?thesis by (simp add: proper_def filter_map comp_def) (metis length_map)
  qed
qed

lemma unread_reread:
  assumes "j < length (gm_cells m)" "unread m x" "x \<noteq> src"
  shows "unread (with_cell m j (reread out src (gm_cells m ! j))) x"
  using assms by (auto simp: unread_def nth_list_update)

text \<open>The reverse graph lists every reader; the keys belong to the cells they name.\<close>

definition readers_listed :: "net_id set \<Rightarrow> gate_module \<Rightarrow> nat list list \<Rightarrow> bool" where
  "readers_listed X m cs \<longleftrightarrow> length cs = length (gm_nets m) \<and> (\<forall>l \<in> set cs. \<forall>i \<in> set l. i < length (gm_cells m)) \<and>
     (\<forall>i < length (gm_cells m). \<forall>n \<in> set (c_inputs (gm_cells m ! i)). n \<notin> X \<longrightarrow> i \<in> set (cs ! n))"

definition keys_ok :: "gate_module \<Rightarrow> ((cell_kind \<times> net_id list) \<rightharpoonup> nat) \<Rightarrow> bool" where
  "keys_ok m seen \<longleftrightarrow> (\<forall>key i. seen key = Some i \<longrightarrow> i < length (gm_cells m) \<and>
     cse_key (c_kind (gm_cells m ! i)) (c_inputs (gm_cells m ! i)) = Some key)"

definition stack_ok :: "wl_state \<Rightarrow> bool" where
  "stack_ok st \<longleftrightarrow> (\<forall>i \<in> set (ws_wl st). i < length (gm_cells (ws_module st))) \<and>
     length (ws_in_wl st) = length (gm_cells (ws_module st))"

lemma set_nth_update: "n < length cs \<Longrightarrow> set ((cs[n := l]) ! k) = (if k = n then set l else set (cs ! k))"
  by simp

lemma add_consumer_set:
  assumes "n < length cs"
  shows "set (add_consumer i n cs ! k) = (if k = n then insert i (set (cs ! n)) else set (cs ! k))"
    "length (add_consumer i n cs) = length cs"
  using assms by (simp_all add: add_consumer_def)

lemma add_consumer_entries:
  assumes "\<forall>l \<in> set cs. \<forall>i \<in> set l. i < k" "j < k" "n < length cs"
  shows "\<forall>l \<in> set (add_consumer j n cs). \<forall>i \<in> set l. i < k"
proof -
  have "set (add_consumer j n cs) \<subseteq> insert (cs ! n @ [j]) (set cs)"
    unfolding add_consumer_def by (rule set_update_subset_insert)
  with assms show ?thesis by fastforce
qed

lemma keys_ok_forget:
  assumes "keys_ok m seen" "i < length (gm_cells m)"
  shows "keys_ok (with_cell m i c) (forget i (gm_cells m ! i) seen)"
proof -
  have "seen key = Some j \<and> j \<noteq> i" if f: "forget i (gm_cells m ! i) seen key = Some j" for key j
  proof
    show s: "seen key = Some j" using f by (auto simp: forget_def split: option.splits if_splits)
    show "j \<noteq> i"
    proof
      assume "j = i"
      with s assms(1) have "cse_key (c_kind (gm_cells m ! i)) (c_inputs (gm_cells m ! i)) = Some key"
        unfolding keys_ok_def by blast
      with f s \<open>j = i\<close> show False by (simp add: forget_def)
    qed
  qed
  note sub = this
  show ?thesis
    unfolding keys_ok_def
  proof (intro allI impI)
    fix key j assume "forget i (gm_cells m ! i) seen key = Some j"
    note j = sub [OF this]
    from j assms(1) [unfolded keys_ok_def, rule_format, of key j]
    show "j < length (gm_cells (with_cell m i c)) \<and> cse_key (c_kind (gm_cells (with_cell m i c) ! j))
        (c_inputs (gm_cells (with_cell m i c) ! j)) = Some key" by simp
  qed
qed

lemma push_wl_simps [simp]:
  "ws_module (push_wl i st) = ws_module st" "ws_consumers (push_wl i st) = ws_consumers st" "ws_seen (push_wl i st) = ws_seen st"
  by (simp_all add: push_wl_def)

lemma push_wl_stack: "stack_ok st \<Longrightarrow> i < length (gm_cells (ws_module st)) \<Longrightarrow> stack_ok (push_wl i st)"
  by (auto simp: push_wl_def stack_ok_def)

text \<open>The state while the listed readers \<open>rest\<close> of a buffer's output are being rewired.\<close>

definition rewiring :: "gate_module \<Rightarrow> (net_id \<Rightarrow> nat) \<Rightarrow> nat \<Rightarrow> net_id \<Rightarrow> net_id \<Rightarrow> nat list \<Rightarrow> wl_state \<Rightarrow> bool" where
  "rewiring m0 T b out src rest st \<longleftrightarrow> good m0 T (ws_module st) \<and> buffer_at (ws_module st) b out src \<and>
     readers_listed {out} (ws_module st) (ws_consumers st) \<and> keys_ok (ws_module st) (ws_seen st) \<and> stack_ok st \<and>
     (\<forall>i < length (gm_cells (ws_module st)). out \<in> set (c_inputs (gm_cells (ws_module st) ! i)) \<longrightarrow> i \<in> set rest) \<and>
     (\<forall>i \<in> set rest. i < length (gm_cells (ws_module st)))"

text \<open>What rewiring leaves: as many proper cells, and nets that were unread stay so.\<close>

definition rewired :: "net_id \<Rightarrow> gate_module \<Rightarrow> gate_module \<Rightarrow> bool" where
  "rewired src m m' \<longleftrightarrow> proper m' = proper m \<and> map c_kind (gm_cells m') = map c_kind (gm_cells m) \<and>
     (\<forall>x. x \<noteq> src \<longrightarrow> unread m x \<longrightarrow> unread m' x)"

lemma rewired_refl: "rewired src m m"
  by (simp add: rewired_def)

lemma rewired_trans: "rewired src m m1 \<Longrightarrow> rewired src m1 m2 \<Longrightarrow> rewired src m m2"
  by (simp add: rewired_def)

lemma set_cell_simps [simp]:
  "ws_module (set_cell i c st) = with_cell (ws_module st) i c" "ws_consumers (set_cell i c st) = ws_consumers st"
  "ws_seen (set_cell i c st) = ws_seen st" "ws_wl (set_cell i c st) = ws_wl st" "ws_in_wl (set_cell i c st) = ws_in_wl st"
  by (simp_all add: set_cell_def)

lemma stack_ok_cong:
  "ws_wl st' = ws_wl st \<Longrightarrow> ws_in_wl st' = ws_in_wl st \<Longrightarrow>
   length (gm_cells (ws_module st')) = length (gm_cells (ws_module st)) \<Longrightarrow> stack_ok st' = stack_ok st"
  by (simp add: stack_ok_def)

lemma readers_listed_reread:
  assumes "readers_listed {out} m cs" "j < length (gm_cells m)" "src < length (gm_nets m)"
  shows "readers_listed {out} (with_cell m j (reread out src (gm_cells m ! j))) (add_consumer j src cs)"
proof -
  have len: "length cs = length (gm_nets m)" and e: "\<forall>l \<in> set cs. \<forall>i \<in> set l. i < length (gm_cells m)"
    using assms(1) by (auto simp: readers_listed_def)
  have l: "i \<in> set (cs ! n)" if "i < length (gm_cells m)" "n \<in> set (c_inputs (gm_cells m ! i))" "n \<noteq> out" for i n
    using assms(1) that by (simp add: readers_listed_def)
  have "i \<in> set (add_consumer j src cs ! n)"
    if i: "i < length (gm_cells m)" and n: "n \<in> set (c_inputs ((gm_cells m)[j := reread out src (gm_cells m ! j)] ! i))" "n \<noteq> out" for i n
  proof (cases "i = j")
    case True
    with n assms(2) have "n = src \<or> n \<in> set (c_inputs (gm_cells m ! i))" by (auto split: if_splits)
    then show ?thesis
    proof
      assume "n \<in> set (c_inputs (gm_cells m ! i))"
      from l [OF i this n(2)] show ?thesis using True len assms(3) by (simp add: add_consumer_set)
    qed (use True len assms(3) in \<open>simp add: add_consumer_set\<close>)
  next
    case False
    then have "n \<in> set (c_inputs (gm_cells m ! i))" using n(1) by simp
    from l [OF i this n(2)] show ?thesis using len assms(3) by (cases "n = src") (simp_all add: add_consumer_set)
  qed
  moreover have "\<forall>l \<in> set (add_consumer j src cs). \<forall>i \<in> set l. i < length (gm_cells m)"
    using e assms(2,3) len by (intro add_consumer_entries) simp_all
  moreover have "length (add_consumer j src cs) = length (gm_nets m)"
    using len assms(3) by (simp add: add_consumer_set)
  ultimately show ?thesis unfolding readers_listed_def by simp
qed

lemma rewiring_step:
  assumes r: "rewiring m0 T b out src (j # rest) st" and j: "j \<noteq> b"
    and st': "ws_module st' = with_cell (ws_module st) j (reread out src (gm_cells (ws_module st) ! j))"
      "ws_consumers st' = add_consumer j src (ws_consumers st)" "keys_ok (ws_module st') (ws_seen st')" "stack_ok st'"
  shows "rewiring m0 T b out src rest st' \<and> rewired src (ws_module st) (ws_module st')"
proof -
  let ?m = "ws_module st"
  have g: "good m0 T ?m" and b: "buffer_at ?m b out src" and jl: "j < length (gm_cells ?m)"
    and rd: "readers_listed {out} ?m (ws_consumers st)"
    using r by (auto simp: rewiring_def)
  note step = good_reread [OF g b jl j]
  have "src < length (gm_nets ?m)"
    using g b by (auto simp: good_def buffer_at_def intro!: wf_module_inputs [of ?m b])
  from readers_listed_reread [OF rd jl this]
  have "readers_listed {out} (ws_module st') (ws_consumers st')" by (simp add: st')
  moreover have "i \<in> set rest" if "i < length (gm_cells ?m)" "out \<in> set (c_inputs (gm_cells (ws_module st') ! i))" for i
  proof (cases "i = j")
    case True
    with that jl b show ?thesis by (auto simp: st'(1) buffer_at_def split: if_splits)
  next
    case False
    with that have "out \<in> set (c_inputs (gm_cells ?m ! i))" by (simp add: st'(1))
    then have "i \<in> set (j # rest)" using r that(1) unfolding rewiring_def by blast
    with False show ?thesis by simp
  qed
  ultimately have "rewiring m0 T b out src rest st'"
    using r step st'(3,4) by (simp add: rewiring_def st'(1))
  moreover have "map c_kind ((gm_cells ?m)[j := reread out src (gm_cells ?m ! j)]) = map c_kind (gm_cells ?m)"
    using jl by (metis c_reread(1) list_update_id map_update)
  ultimately show ?thesis
    using step(3) unread_reread [OF jl] by (simp add: rewired_def st'(1))
qed

lemma rewiring_skip:
  assumes "rewiring m0 T b out src (j # rest) st" "out \<notin> set (c_inputs (gm_cells (ws_module st) ! j))"
  shows "rewiring m0 T b out src rest st"
  using assms by (auto simp: rewiring_def)

lemma rewire_consumer_step:
  assumes r: "rewiring m0 T b out src (j # rest) st"
  shows "rewiring m0 T b out src rest (rewire_consumer b out src j st) \<and>
    rewired src (ws_module st) (ws_module (rewire_consumer b out src j st))"
proof (cases "j = b \<or> out \<notin> set (c_inputs (gm_cells (ws_module st) ! j))")
  case True
  moreover have "out \<notin> set (c_inputs (gm_cells (ws_module st) ! b))" using r by (auto simp: rewiring_def buffer_at_def)
  ultimately have "out \<notin> set (c_inputs (gm_cells (ws_module st) ! j))" by auto
  with r True show ?thesis by (auto simp: rewire_consumer_def rewired_refl Let_def intro: rewiring_skip)
next
  case False
  have jl: "j < length (gm_cells (ws_module st))" using r by (simp add: rewiring_def)
  show ?thesis
  proof (rule rewiring_step [OF r])
    let ?st = "rewire_consumer b out src j st"
    show "j \<noteq> b" using False by simp
    show m: "ws_module ?st = with_cell (ws_module st) j (reread out src (gm_cells (ws_module st) ! j))"
      using False by (simp add: rewire_consumer_def Let_def)
    show "ws_consumers ?st = add_consumer j src (ws_consumers st)"
      using False by (simp add: rewire_consumer_def Let_def)
    show "keys_ok (ws_module ?st) (ws_seen ?st)"
      unfolding m using False keys_ok_forget [OF _ jl] r by (simp add: rewire_consumer_def Let_def rewiring_def)
    have "stack_ok st" using r by (simp add: rewiring_def)
    then have "stack_ok ((set_cell j c (st\<lparr>ws_seen := s\<rparr>))\<lparr>ws_consumers := cs\<rparr>)" for c s cs
      by (subst stack_ok_cong [of _ st]) simp_all
    with False jl show "stack_ok ?st" by (simp add: rewire_consumer_def Let_def push_wl_stack)
  qed
qed

lemma rewire_loop:
  assumes "rewiring m0 T b out src rest st"
  shows "rewiring m0 T b out src [] (fold (rewire_consumer b out src) rest st) \<and>
    rewired src (ws_module st) (ws_module (fold (rewire_consumer b out src) rest st))"
  using assms
proof (induction rest arbitrary: st)
  case (Cons j rest)
  from rewire_consumer_step [OF Cons.prems] Cons.IH [of "rewire_consumer b out src j st"]
  show ?case by (auto intro: rewired_trans)
qed (simp add: rewired_refl)

lemma rewiring_done:
  assumes "rewiring m0 T b out src [] st"
  shows "good m0 T (ws_module st)" "readers_listed {} (ws_module st) (ws_consumers st)" "keys_ok (ws_module st) (ws_seen st)"
    "stack_ok st" "unread (ws_module st) out"
proof -
  show "good m0 T (ws_module st)" "keys_ok (ws_module st) (ws_seen st)" "stack_ok st"
    using assms unfolding rewiring_def by blast+
  show u: "unread (ws_module st) out" using assms by (simp add: rewiring_def unread_def)
  have "readers_listed {out} (ws_module st) (ws_consumers st)" using assms by (simp add: rewiring_def)
  with u show "readers_listed {} (ws_module st) (ws_consumers st)"
    unfolding readers_listed_def unread_def by (metis empty_iff singletonD)
qed

subsection \<open>The chosen rewrite is sound and loses weight\<close>

definition bufs_unread :: "nat \<Rightarrow> gate_module \<Rightarrow> bool" where
  "bufs_unread k m \<longleftrightarrow> (\<forall>i < length (gm_cells m). i < k \<longrightarrow> c_kind (gm_cells m ! i) = Buf \<longrightarrow>
     unread m (c_output (gm_cells m ! i)))"

definition buf_output :: "gate_module \<Rightarrow> net_id \<Rightarrow> bool" where
  "buf_output m x \<longleftrightarrow> (\<exists>b < length (gm_cells m). c_kind (gm_cells m ! b) = Buf \<and> c_output (gm_cells m ! b) = x)"

lemma read_not_buf_output:
  assumes "bufs_unread (length (gm_cells m)) m" "i < length (gm_cells m)" "x \<in> set (c_inputs (gm_cells m ! i))"
  shows "\<not> buf_output m x"
  using assms by (auto simp: bufs_unread_def buf_output_def unread_def)

text \<open>What makes \<open>(k', ins')\<close> an acceptable replacement of the cell \<open>i\<close>.\<close>

definition replaces :: "(net_id \<Rightarrow> nat) \<Rightarrow> gate_module \<Rightarrow> nat \<Rightarrow> cell_kind \<Rightarrow> net_id list \<Rightarrow> bool" where
  "replaces T m i k' ins' \<longleftrightarrow> length ins' = arity k' \<and>
     (\<forall>x \<in> set ins'. x < length (gm_nets m) \<and> x \<noteq> c_output (gm_cells m ! i) \<and> \<not> buf_output m x) \<and>
     (\<forall>v. const_nets_ok v m \<longrightarrow> (\<forall>j < length (gm_cells m). j \<noteq> i \<longrightarrow> holds v (gm_cells m ! j)) \<longrightarrow>
        cell_fn k' (map v ins') = cell_fn (c_kind (gm_cells m ! i)) (map v (c_inputs (gm_cells m ! i)))) \<and>
     (\<exists>T'. (\<forall>x. T' x \<le> T x) \<and> (k' \<noteq> Buf \<longrightarrow> T' (c_output (gm_cells m ! i)) < T (c_output (gm_cells m ! i))) \<and>
        weighted T' (with_cell m i ((gm_cells m ! i)\<lparr>c_kind := k', c_inputs := ins'\<rparr>)))"

lemma weighted_lower:
  assumes w: "weighted T m" and sd: "single_driver m" and i: "i < length (gm_cells m)"
    and rails: "c_output (gm_cells m ! i) \<noteq> NET_CONST0" "c_output (gm_cells m ! i) \<noteq> NET_CONST1"
    and out: "c_output (gm_cells m ! i) = out"
    and less: "wt k' + sum_list (map T ins') < T out"
  shows "\<exists>T'. (\<forall>x. T' x \<le> T x) \<and> T' out < T out \<and>
    weighted T' (with_cell m i ((gm_cells m ! i)\<lparr>c_kind := k', c_inputs := ins'\<rparr>))"
proof -
  let ?T = "T(out := T out - 1)" and ?c = "(gm_cells m ! i)\<lparr>c_kind := k', c_inputs := ins'\<rparr>"
  have le: "?T x \<le> T x" for x by simp
  then have sums: "sum_list (map ?T xs) \<le> sum_list (map T xs)" for xs by (intro sum_list_le) blast
  have "wt (c_kind c) + sum_list (map ?T (c_inputs c)) \<le> ?T (c_output c)"
    if j: "j < length (gm_cells m)" and c: "c = (gm_cells m)[i := ?c] ! j" for c j
  proof (cases "j = i")
    case True
    with c i have "c = ?c" by simp
    with less sums [of ins'] out show ?thesis by simp
  next
    case False
    with c have c': "c = gm_cells m ! j" by simp
    have "c_output c \<noteq> out" using single_driver_inj [OF sd j i] False c' out by auto
    moreover have "wt (c_kind c) + sum_list (map T (c_inputs c)) \<le> T (c_output c)" using w j c' by (simp add: weighted_nth)
    ultimately show ?thesis using sums [of "c_inputs c"] by simp
  qed
  then have "weighted ?T (with_cell m i ?c)" using w rails out by (simp add: weighted_nth)
  then show ?thesis using le less by (intro exI [of _ ?T]) simp
qed

lemma const_nets_rails: "wf_module m \<Longrightarrow> const_nets_ok v m \<Longrightarrow> rails_ok v"
proof -
  assume "wf_module m" "const_nets_ok v m"
  then have d: "RESERVED_NETS \<le> length (gm_nets m)" "driver (gm_nets m ! NET_CONST0) = DConst False"
    "driver (gm_nets m ! NET_CONST1) = DConst True"
    and c: "\<And>n b. n < length (gm_nets m) \<Longrightarrow> driver (gm_nets m ! n) = DConst b \<Longrightarrow> v n = b"
    by (auto simp: wf_module_def const_nets_ok_def)
  from d(1) have r: "NET_CONST0 < length (gm_nets m)" "NET_CONST1 < length (gm_nets m)"
    by (auto simp: RESERVED_NETS_def NET_CONST0_def NET_CONST1_def)
  have "v NET_CONST0 = False" "v NET_CONST1 = True" by (rule c [OF r(1) d(2)], rule c [OF r(2) d(3)])
  then show "rails_ok v" unfolding rails_ok_def by (simp del: rails_okD)
qed

lemma known_consts:
  assumes "const_nets_ok v m" "\<forall>n \<in> set ns. n < length (gm_nets m)"
  shows "known v (map (const_of (gm_nets m)) ns) ns"
  using assms by (intro known_map) (auto simp: const_of_def const_nets_ok_def split: net_driver.split)

abbreviation kind_at :: "gate_module \<Rightarrow> nat \<Rightarrow> cell_kind" where "kind_at m i \<equiv> c_kind (gm_cells m ! i)"
abbreviation ins_at :: "gate_module \<Rightarrow> nat \<Rightarrow> net_id list" where "ins_at m i \<equiv> c_inputs (gm_cells m ! i)"
abbreviation out_at :: "gate_module \<Rightarrow> nat \<Rightarrow> net_id" where "out_at m i \<equiv> c_output (gm_cells m ! i)"

text \<open>A proper cell about to be rewritten, in a module whose buffers nobody reads.\<close>

definition visited :: "gate_module \<Rightarrow> (net_id \<Rightarrow> nat) \<Rightarrow> gate_module \<Rightarrow> nat \<Rightarrow> bool" where
  "visited m0 T m i \<longleftrightarrow> good m0 T m \<and> i < length (gm_cells m) \<and> kind_at m i \<noteq> Buf \<and> bufs_unread (length (gm_cells m)) m"

lemma visitedD:
  assumes "visited m0 T m i"
  shows "wf_module m" "single_driver m" "weighted T m" "i < length (gm_cells m)" "length (ins_at m i) = arity (kind_at m i)"
    and "out_at m i \<noteq> NET_CONST0" "out_at m i \<noteq> NET_CONST1"
    and "wt (kind_at m i) + sum_list (map T (ins_at m i)) \<le> T (out_at m i)"
proof -
  show *: "wf_module m" "single_driver m" "weighted T m" "i < length (gm_cells m)"
    using assms by (auto simp: visited_def good_def)
  show "length (ins_at m i) = arity (kind_at m i)" by (rule wf_module_arity [OF *(1,4)])
  show "out_at m i \<noteq> NET_CONST0" "out_at m i \<noteq> NET_CONST1" by (rule output_not_rail [OF *(1,2,4)])+
  show "wt (kind_at m i) + sum_list (map T (ins_at m i)) \<le> T (out_at m i)" using *(3,4) by (simp add: weighted_nth)
qed

lemma visited_input:
  assumes "visited m0 T m i" "x \<in> set (ins_at m i)"
  shows "x < length (gm_nets m)" "T x < T (out_at m i)" "\<not> buf_output m x" "x \<noteq> out_at m i"
proof -
  note v = visitedD [OF assms(1)]
  show "x < length (gm_nets m)" by (rule wf_module_inputs [OF v(1,4) assms(2)])
  have "0 < wt (kind_at m i)" using assms(1) by (simp add: visited_def wt_pos)
  then show "T x < T (out_at m i)" using weighted_input [OF v(3,4) assms(2)] by linarith
  then show "x \<noteq> out_at m i" by auto
  show "\<not> buf_output m x" using assms by (intro read_not_buf_output) (auto simp: visited_def)
qed

lemma visited_rail:
  assumes "visited m0 T m i" "n = NET_CONST0 \<or> n = NET_CONST1"
  shows "n < length (gm_nets m) \<and> \<not> buf_output m n \<and> T n = 0"
  using assms visitedD(1-3) [OF assms(1)] output_not_rail [OF visitedD(1,2) [OF assms(1)]]
  by (auto simp: wf_module_def rails buf_output_def weighted_def)

lemma replaces_buf:
  assumes "visited m0 T m i"
    and "src < length (gm_nets m)" "src \<noteq> out_at m i" "\<not> buf_output m src" "T src \<le> T (out_at m i)"
    and "\<And>v. const_nets_ok v m \<Longrightarrow> (\<And>j. j < length (gm_cells m) \<Longrightarrow> j \<noteq> i \<Longrightarrow> holds v (gm_cells m ! j)) \<Longrightarrow>
      v src = cell_fn (kind_at m i) (map v (ins_at m i))"
  shows "replaces T m i Buf [src]"
proof -
  have "weighted T (with_cell m i ((gm_cells m ! i)\<lparr>c_kind := Buf, c_inputs := [src]\<rparr>))"
    using assms(5) by (intro weighted_with_cell [OF visitedD(3) [OF assms(1)]]) simp
  with assms(2-) show ?thesis by (auto simp: replaces_def)
qed

lemma replaces_proper:
  assumes "visited m0 T m i"
    and "length ins' = arity k'" "\<And>x. x \<in> set ins' \<Longrightarrow> x < length (gm_nets m) \<and> x \<noteq> out_at m i \<and> \<not> buf_output m x"
    and "wt k' + sum_list (map T ins') < T (out_at m i)"
    and "\<And>v. const_nets_ok v m \<Longrightarrow> (\<And>j. j < length (gm_cells m) \<Longrightarrow> j \<noteq> i \<Longrightarrow> holds v (gm_cells m ! j)) \<Longrightarrow>
      cell_fn k' (map v ins') = cell_fn (kind_at m i) (map v (ins_at m i))"
  shows "replaces T m i k' ins'"
  using weighted_lower [OF visitedD(3,2,4,6,7) [OF assms(1)] refl assms(4)] assms(2,3,5) unfolding replaces_def by blast

definition reader_hint :: "cell_kind \<Rightarrow> net_id list \<Rightarrow> net_id option" where
  "reader_hint k' ins' = (if k' = Buf then Some (ins' ! 0) else None)"

lemma simplify_replaces:
  assumes vis: "visited m0 T m i"
    and s: "simplify (kind_at m i) (map (const_of (gm_nets m)) (ins_at m i)) (ins_at m i) = Some s"
    and r: "of_simpl s = (k', ins', bs)"
  shows "replaces T m i k' ins' \<and> bs = reader_hint k' ins'"
proof -
  note v = visitedD [OF vis] and x = visited_input [OF vis]
  have val: "simpl_val w s = cell_fn (kind_at m i) (map w (ins_at m i))" if "const_nets_ok w m" for w
    using const_nets_rails [OF v(1) that] known_consts [OF that] x(1) v(5) s by (intro simplify_correct) auto
  have sub: "simpl_nets s \<subseteq> set (ins_at m i)" using simplify_nets [OF s v(5)] .
  show ?thesis
  proof (cases s)
    case (SConst b)
    let ?c = "if b then NET_CONST1 else NET_CONST0"
    have *: "k' = Buf" "ins' = [?c]" "bs = Some ?c" using r SConst by (auto simp: Let_def)
    have rail: "?c = NET_CONST0 \<or> ?c = NET_CONST1" by simp
    have "replaces T m i Buf [?c]"
    proof (rule replaces_buf [OF vis])
      show "?c < length (gm_nets m)" "\<not> buf_output m ?c" "T ?c \<le> T (out_at m i)" using visited_rail [OF vis rail] by auto
      show "?c \<noteq> out_at m i" using v(6,7) by (metis (full_types))
      show "w ?c = cell_fn (kind_at m i) (map w (ins_at m i))" if "const_nets_ok w m" for w
        using val [OF that] const_nets_rails [OF v(1) that] SConst by (cases b) auto
    qed
    with * show ?thesis by (simp add: reader_hint_def)
  next
    case (SAlias n)
    then have *: "k' = Buf" "ins' = [n]" "bs = Some n" "n \<in> set (ins_at m i)" using r sub by auto
    have "replaces T m i Buf [n]"
      using x [OF *(4)] val SAlias by (intro replaces_buf [OF vis]) auto
    with * show ?thesis by (simp add: reader_hint_def)
  next
    case (SInvert n)
    then have *: "k' = Not1" "ins' = [n]" "bs = None" "n \<in> set (ins_at m i)" using r sub by auto
    have "2 \<le> wt (kind_at m i)" using simplify_invert_kind s SInvert by blast
    then have less: "wt Not1 + sum_list (map T [n]) < T (out_at m i)" using weighted_input [OF v(3,4) *(4)] by simp
    have "replaces T m i Not1 [n]"
      using x [OF *(4)] less val SInvert by (intro replaces_proper [OF vis]) auto
    with * show ?thesis by (simp add: reader_hint_def)
  qed
qed

lemma fuse_replaces:
  assumes vis: "visited m0 T m i"
    and f: "algebraic_fuse m (kind_at m i) (ins_at m i) cs = Some (k', ins')"
  shows "replaces T m i k' ins'"
  using f visitedD(5) [OF vis]
proof (cases rule: algebraic_fuse_cases)
  case (negated n u)
  note v = visitedD [OF vis]
  have n: "n \<in> set (ins_at m i)" using negated(2) by simp
  note x = visited_input [OF vis n]
  have u: "u < length (gm_cells m)" "out_at m u = n" using wf_module_driver [OF v(1) x(1) negated(3)] by auto
  have ui: "u \<noteq> i" using u(2) x(4) by auto
  have fn: "cell_fn k' (map w ins') = cell_fn (kind_at m i) (map w (ins_at m i))"
    if "const_nets_ok w m" "\<And>j. j < length (gm_cells m) \<Longrightarrow> j \<noteq> i \<Longrightarrow> holds w (gm_cells m ! j)" for w
  proof (rule algebraic_fuse_sound [OF f v(1,5)])
    show "\<forall>n \<in> set (ins_at m i). n < length (gm_nets m)" using visited_input(1) [OF vis] by blast
    show "holds w (gm_cells m ! j)" if "driver (gm_nets m ! (ins_at m i ! 0)) = DCell j" for j
      using that negated(2,3) u(1) ui \<open>\<And>j. j < length (gm_cells m) \<Longrightarrow> j \<noteq> i \<Longrightarrow> holds w (gm_cells m ! j)\<close> by simp
  qed (use that(1) in \<open>simp add: const_nets_ok_def\<close>)
  have up: "y < length (gm_nets m) \<and> y \<noteq> out_at m i \<and> \<not> buf_output m y \<and> T y \<le> T n" if "y \<in> set (ins_at m u)" for y
  proof -
    have "T y \<le> T n" using weighted_input [OF v(3) u(1) that] u(2) by simp
    moreover have "bufs_unread (length (gm_cells m)) m" using vis by (simp add: visited_def)
    ultimately show ?thesis
      using wf_module_inputs [OF v(1) u(1) that] read_not_buf_output [OF _ u(1) that] x(2) by auto
  qed
  show ?thesis
    using negated(4)
  proof (elim disjE conjE)
    assume k: "kind_at m u = Not1" "k' = Buf" "ins' = [ins_at m u ! 0]"
    have "ins_at m u ! 0 \<in> set (ins_at m u)" using wf_module_arity [OF v(1) u(1)] k(1) by simp
    from up [OF this] x(2) fn k show ?thesis by (auto intro!: replaces_buf [OF vis])
  next
    assume k: "negated_kind (kind_at m u) = Some k'" "ins' = ins_at m u"
    have "wt k' + sum_list (map T ins') \<le> T n"
      using v(3) u negated_kind_wt [OF k(1)] k(2) by (auto simp: weighted_nth)
    then have "wt k' + sum_list (map T ins') < T (out_at m i)" using x(2) by linarith
    then show ?thesis
      using up fn k wf_module_arity [OF v(1) u(1)] negated_kind_fn [OF k(1)] by (auto intro!: replaces_proper [OF vis])
  qed
next
  case (mux s d0 d1)
  note v = visitedD [OF vis]
  have fn: "cell_fn k' (map w ins') = cell_fn (kind_at m i) (map w (ins_at m i))" if "const_nets_ok w m" for w
    using that visited_input(1) [OF vis] mux(1)
    by (intro algebraic_fuse_sound [OF f v(1,5)]) (auto simp: const_nets_ok_def)
  have "wt k' + sum_list (map T ins') < T (out_at m i)" "length ins' = arity k'" "set ins' \<subseteq> set (ins_at m i)"
    using v(8) mux by auto
  then show ?thesis
    using fn visited_input [OF vis] by (intro replaces_proper [OF vis]) auto
qed

lemma shared_replaces:
  assumes vis: "visited m0 T m i" and keys: "keys_ok m seen"
    and key: "cse_key (kind_at m i) (ins_at m i) = Some key" "seen key = Some j" and ji: "j \<noteq> i"
  shows "replaces T m i Buf [out_at m j]"
proof -
  note v = visitedD [OF vis]
  let ?p = "out_at m j" and ?o = "out_at m i"
  have j: "j < length (gm_cells m)" "cse_key (kind_at m j) (ins_at m j) = Some key"
    using keys key(2) unfolding keys_ok_def by blast+
  have same: "kind_at m j = kind_at m i" "sum_list (map T (ins_at m j)) = sum_list (map T (ins_at m i))"
    and fn: "cell_fn (kind_at m j) (map w (ins_at m j)) = cell_fn (kind_at m i) (map w (ins_at m i))" for w
    using cse_key_eq_sum [OF key(1) j(2) v(5) wf_module_arity [OF v(1) j(1)]] by blast+
  have po: "?p \<noteq> ?o" using single_driver_inj [OF v(2) j(1) v(4)] ji by blast
  have prange: "?p < length (gm_nets m)" using v(1) j(1) by (auto simp: wf_module_def module_cell_wf_def)
  have pbuf: "\<not> buf_output m ?p"
    using single_driver_inj [OF v(2) _ j(1)] same(1) vis unfolding buf_output_def visited_def by metis
  let ?T = "T(?p := min (T ?p) (T ?o))" and ?c = "(gm_cells m ! i)\<lparr>c_kind := Buf, c_inputs := [?p]\<rparr>"
  have le: "\<forall>x. ?T x \<le> T x" by simp
  then have sums: "sum_list (map ?T xs) \<le> sum_list (map T xs)" for xs by (intro sum_list_le) blast
  have "wt (c_kind c) + sum_list (map ?T (c_inputs c)) \<le> ?T (c_output c)"
    if l: "l < length (gm_cells m)" and c: "c = (gm_cells m)[i := ?c] ! l" for c l
  proof (cases "l = i")
    case True
    with c v(4) have "c = ?c" by simp
    with po show ?thesis by simp
  next
    case False
    with c have c': "c = gm_cells m ! l" by simp
    have "wt (c_kind c) + sum_list (map T (c_inputs c)) \<le> T (c_output c)" using v(3) l c' by (simp add: weighted_nth)
    moreover have "wt (c_kind c) + sum_list (map T (c_inputs c)) \<le> T ?o" if "l = j"
      using that v(8) c' same by simp
    moreover have "c_output c = ?p \<longleftrightarrow> l = j" using single_driver_inj [OF v(2) l j(1)] c' by auto
    ultimately show ?thesis using sums [of "c_inputs c"] by (cases "l = j") auto
  qed
  then have "weighted ?T (with_cell m i ?c)"
    using v(3) output_not_rail [OF v(1,2) j(1)] by (simp add: weighted_nth)
  with le have T: "\<exists>T'. (\<forall>x. T' x \<le> T x) \<and> (Buf \<noteq> Buf \<longrightarrow> T' ?o < T ?o) \<and> weighted T' (with_cell m i ?c)" by blast
  have "cell_fn Buf (map w [?p]) = cell_fn (kind_at m i) (map w (ins_at m i))"
    if "\<forall>l < length (gm_cells m). l \<noteq> i \<longrightarrow> holds w (gm_cells m ! l)" for w
    using that j(1) ji fn [of w] by (simp add: holds_def)
  with T po prange pbuf show ?thesis unfolding replaces_def by simp
qed

lemma choose_rewrite_replaces:
  assumes vis: "visited m0 T (ws_module st) i" and keys: "keys_ok (ws_module st) (ws_seen st)"
    and c: "choose_rewrite i st = (Some (k', ins', bs), seen)"
  shows "replaces T (ws_module st) i k' ins' \<and> bs = reader_hint k' ins' \<and> seen = ws_seen st"
proof (cases "simplify (kind_at (ws_module st) i) (map (const_of (gm_nets (ws_module st))) (ins_at (ws_module st) i)) (ins_at (ws_module st) i)")
  case (Some s)
  with c have "of_simpl s = (k', ins', bs)" "seen = ws_seen st" by (simp_all add: choose_rewrite_def Let_def)
  with simplify_replaces [OF vis Some] show ?thesis by simp
next
  case none: None
  show ?thesis
  proof (cases "algebraic_fuse (ws_module st) (kind_at (ws_module st) i) (ins_at (ws_module st) i) (ws_consumers st)")
    case (Some r)
    with none c have "r = (k', ins')" "bs = reader_hint k' ins'" "seen = ws_seen st"
      by (auto simp: choose_rewrite_def Let_def reader_hint_def split: prod.splits)
    with fuse_replaces [OF vis] Some show ?thesis by simp
  next
    case no_fuse: None
    show ?thesis
    proof (cases "cse_key (kind_at (ws_module st) i) (ins_at (ws_module st) i)")
      case None
      with none no_fuse c show ?thesis by (simp add: choose_rewrite_def Let_def)
    next
      case key: (Some key)
      show ?thesis
      proof (cases "ws_seen st key")
        case None
        with none no_fuse key c show ?thesis by (simp add: choose_rewrite_def Let_def)
      next
        case (Some j)
        then have "j \<noteq> i" "k' = Buf" "ins' = [out_at (ws_module st) j]"
          "bs = Some (out_at (ws_module st) j)" "seen = ws_seen st"
          using none no_fuse key c by (auto simp: choose_rewrite_def Let_def split: if_splits)
        with shared_replaces [OF vis keys key Some] show ?thesis by (simp add: reader_hint_def)
      qed
    qed
  qed
qed

lemma choose_rewrite_none:
  assumes "choose_rewrite i st = (None, seen)" "keys_ok (ws_module st) (ws_seen st)" "i < length (gm_cells (ws_module st))"
  shows "keys_ok (ws_module st) seen"
proof -
  have "seen = ws_seen st \<or> (\<exists>key. cse_key (kind_at (ws_module st) i) (ins_at (ws_module st) i) = Some key \<and>
      seen = (ws_seen st)(key \<mapsto> i))"
    using assms(1) by (auto simp: choose_rewrite_def Let_def split: option.splits if_splits prod.splits)
  with assms(2,3) show ?thesis by (auto simp: keys_ok_def simp del: split_paired_All split: if_splits)
qed

subsection \<open>A visit keeps the invariant\<close>

definition sweep_inv :: "gate_module \<Rightarrow> (net_id \<Rightarrow> nat) \<Rightarrow> wl_state \<Rightarrow> bool" where
  "sweep_inv m0 T st \<longleftrightarrow> good m0 T (ws_module st) \<and> readers_listed {} (ws_module st) (ws_consumers st) \<and>
     keys_ok (ws_module st) (ws_seen st) \<and> stack_ok st \<and> bufs_unread (length (gm_cells (ws_module st))) (ws_module st)"

definition potential :: "(net_id \<Rightarrow> nat) \<Rightarrow> gate_module \<Rightarrow> nat" where
  "potential T m = sum_list (map (\<lambda>c. T (c_output c)) (gm_cells m)) + proper m"

lemma position_Some: "position x xs = Some p \<Longrightarrow> p < length xs \<and> xs ! p = x"
  by (induction xs arbitrary: p) (auto split: if_splits)

lemma swap_remove_set:
  assumes "p < length xs"
  shows "set (swap_remove p xs) \<subseteq> set xs" and "y \<in> set xs \<Longrightarrow> y \<noteq> xs ! p \<Longrightarrow> y \<in> set (swap_remove p xs)"
proof -
  have ne: "xs \<noteq> []" using assms by auto
  have "set (swap_remove p xs) \<subseteq> set (xs[p := last xs])" unfolding swap_remove_def using in_set_butlastD by fast
  also have "\<dots> \<subseteq> insert (last xs) (set xs)" by (rule set_update_subset_insert)
  finally show "set (swap_remove p xs) \<subseteq> set xs" using ne by auto
  show "y \<in> set (swap_remove p xs)" if y: "y \<in> set xs" "y \<noteq> xs ! p"
  proof -
    obtain j where j: "j < length xs" "xs ! j = y" using y(1) by (auto simp: in_set_conv_nth)
    then have jp: "j \<noteq> p" using y(2) by auto
    show ?thesis
    proof (cases "j = length xs - 1")
      case True
      then have "y = last xs" using j ne by (simp add: last_conv_nth)
      moreover have "p < length xs - 1" using assms jp True by linarith
      ultimately have "swap_remove p xs ! p = y" "p < length (swap_remove p xs)"
        by (simp_all add: swap_remove_def nth_butlast)
      then show ?thesis by (metis nth_mem)
    next
      case False
      then have "j < length xs - 1" using j(1) by linarith
      then have "swap_remove p xs ! j = y" "j < length (swap_remove p xs)"
        using j jp by (simp_all add: swap_remove_def nth_butlast)
      then show ?thesis by (metis nth_mem)
    qed
  qed
qed

text \<open>An update of the reverse graph that loses no entry but those of the cell \<open>i\<close>.\<close>

definition keeps_others :: "nat \<Rightarrow> nat \<Rightarrow> nat list list \<Rightarrow> nat list list \<Rightarrow> bool" where
  "keeps_others i k cs cs' \<longleftrightarrow> length cs' = length cs \<and>
     ((\<forall>l \<in> set cs. \<forall>j \<in> set l. j < k) \<longrightarrow> (\<forall>l \<in> set cs'. \<forall>j \<in> set l. j < k)) \<and>
     (\<forall>n < length cs. \<forall>j \<in> set (cs ! n). j \<noteq> i \<longrightarrow> j \<in> set (cs' ! n))"

lemma keeps_others_refl: "keeps_others i k cs cs"
  by (simp add: keeps_others_def)

lemma keeps_others_trans: "keeps_others i k cs cs1 \<Longrightarrow> keeps_others i k cs1 cs2 \<Longrightarrow> keeps_others i k cs cs2"
  by (simp add: keeps_others_def)

lemma keeps_others_fold: "(\<And>n cs. keeps_others i k cs (f n cs)) \<Longrightarrow> keeps_others i k cs (fold f ns cs)"
proof (induction ns arbitrary: cs)
  case (Cons n ns)
  then show ?case by (auto intro: keeps_others_trans)
qed (simp add: keeps_others_refl)

lemma keeps_others_update:
  assumes "n < length cs" "set l \<subseteq> insert i (set (cs ! n))" "i < k" "\<And>j. j \<in> set (cs ! n) \<Longrightarrow> j \<noteq> i \<Longrightarrow> j \<in> set l"
  shows "keeps_others i k cs (cs[n := l])"
proof -
  have "\<forall>l' \<in> set (cs[n := l]). \<forall>j \<in> set l'. j < k" if e: "\<forall>l \<in> set cs. \<forall>j \<in> set l. j < k"
  proof -
    have "\<forall>j \<in> set (cs ! n). j < k" using e assms(1) nth_mem by blast
    then have "\<forall>j \<in> set l. j < k" using assms(2,3) by auto
    then show ?thesis using e set_update_subset_insert [of cs n l] by auto
  qed
  moreover have "j \<in> set (cs[n := l] ! n')" if "n' < length cs" "j \<in> set (cs ! n')" "j \<noteq> i" for n' j
    using that assms(1,4) by (cases "n' = n") auto
  ultimately show ?thesis unfolding keeps_others_def by simp
qed

lemma prune_keeps: "i < k \<Longrightarrow> keeps_others i k cs (prune_consumer i n cs)"
proof -
  assume i: "i < k"
  show ?thesis
  proof (cases "n < length cs \<and> length (cs ! n) \<le> CONSUMER_PRUNE_LIMIT \<and> position i (cs ! n) \<noteq> None")
    case True
    then obtain p where p: "position i (cs ! n) = Some p" by blast
    note pos = position_Some [OF p]
    have "keeps_others i k cs (cs[n := swap_remove p (cs ! n)])"
      using True i pos swap_remove_set [of p "cs ! n"] by (intro keeps_others_update) auto
    with True p show ?thesis by (simp add: prune_consumer_def)
  next
    case False
    then have "prune_consumer i n cs = cs" by (auto simp: prune_consumer_def split: option.split)
    then show ?thesis by (simp add: keeps_others_refl)
  qed
qed

lemma add_in_range_keeps: "i < k \<Longrightarrow> keeps_others i k cs (add_in_range i n cs)"
  by (auto simp: add_in_range_def add_consumer_def keeps_others_refl intro!: keeps_others_update)

lemma add_in_range_adds:
  "n \<in> set ns \<Longrightarrow> n < length cs \<Longrightarrow> i \<in> set (fold (add_in_range i) ns cs ! n)"
proof (induction ns arbitrary: cs)
  case (Cons n' ns)
  have len: "length (add_in_range i n' cs) = length cs" by (simp add: add_in_range_def add_consumer_def)
  have stay: "i \<in> set (fold (add_in_range i) xs ds ! n)" if "i \<in> set (ds ! n)" "n < length ds" for xs ds
    using that
  proof (induction xs arbitrary: ds)
    case (Cons x xs)
    have "i \<in> set (add_in_range i x ds ! n)" using Cons.prems by (cases "n = x") (auto simp: add_in_range_def add_consumer_def)
    moreover have "n < length (add_in_range i x ds)" using Cons.prems(2) by (simp add: add_in_range_def add_consumer_def)
    ultimately show ?case using Cons.IH by simp
  qed simp
  show ?case
  proof (cases "n = n'")
    case True
    then have "i \<in> set (add_in_range i n' cs ! n)" using Cons.prems(2) by (simp add: add_in_range_def add_consumer_def)
    then show ?thesis using stay [of "add_in_range i n' cs" ns] Cons.prems(2) len by simp
  next
    case False
    then show ?thesis using Cons len by simp
  qed
qed simp

lemma sum_outputs_mono:
  "(\<And>x. T' x \<le> T x) \<Longrightarrow> sum_list (map (\<lambda>c. T' (c_output c)) cs) \<le> (sum_list (map (\<lambda>c. T (c_output c)) cs) :: nat)"
  by (induction cs) (auto intro: add_mono)

lemma sum_outputs_less:
  assumes "\<And>x. T' x \<le> T x" "c \<in> set cs" "T' (c_output c) < T (c_output c)"
  shows "sum_list (map (\<lambda>c. T' (c_output c)) cs) < (sum_list (map (\<lambda>c. T (c_output c)) cs) :: nat)"
  using assms(2)
proof (induction cs)
  case (Cons d cs)
  show ?case
  proof (cases "d = c")
    case True
    then show ?thesis using assms(3) sum_outputs_mono [of T' T cs, OF assms(1)] by simp
  next
    case False
    then show ?thesis using Cons assms(1) [of "c_output d"] by simp
  qed
qed simp

lemma proper_with_cell:
  assumes "i < length (gm_cells m)" "kind_at m i \<noteq> Buf"
  shows "c_kind c \<noteq> Buf \<Longrightarrow> proper (with_cell m i c) = proper m"
    and "c_kind c = Buf \<Longrightarrow> Suc (proper (with_cell m i c)) = proper m"
proof -
  have "gm_cells m = take i (gm_cells m) @ gm_cells m ! i # drop (Suc i) (gm_cells m)"
    using assms(1) by (rule id_take_nth_drop)
  then have "proper m = length (filter (\<lambda>c. c_kind c \<noteq> Buf) (take i (gm_cells m) @ gm_cells m ! i # drop (Suc i) (gm_cells m)))"
    by (simp add: proper_def)
  moreover have "(gm_cells m)[i := c] = take i (gm_cells m) @ c # drop (Suc i) (gm_cells m)"
    using assms(1) by (rule upd_conv_take_nth_drop)
  ultimately show "c_kind c \<noteq> Buf \<Longrightarrow> proper (with_cell m i c) = proper m"
    "c_kind c = Buf \<Longrightarrow> Suc (proper (with_cell m i c)) = proper m"
    using assms(2) by (simp_all add: proper_def)
qed

lemma same_outputs:
  "good m0 T m \<Longrightarrow> good m0 T' m' \<Longrightarrow> map c_output (gm_cells m') = map c_output (gm_cells m)"
  by (simp add: good_def same_frame_def)

lemma potential_less:
  assumes "\<And>x. T' x \<le> T x" "map c_output (gm_cells m') = map c_output (gm_cells m)" "proper m' \<le> proper m"
    and "proper m' < proper m \<or> (\<exists>c \<in> set (gm_cells m). T' (c_output c) < T (c_output c))"
  shows "potential T' m' < potential T m"
proof -
  have "map (\<lambda>c. T' (c_output c)) (gm_cells m') = map (\<lambda>c. T' (c_output c)) (gm_cells m)"
    using assms(2) by (metis (mono_tags) list.map_comp comp_def map_eq_conv)
  then have e: "potential T' m' = sum_list (map (\<lambda>c. T' (c_output c)) (gm_cells m)) + proper m'"
    by (simp add: potential_def)
  from assms(4) show ?thesis
  proof
    assume "proper m' < proper m"
    with sum_outputs_mono [of T' T "gm_cells m", OF assms(1)] show ?thesis unfolding e unfolding potential_def by linarith
  next
    assume "\<exists>c \<in> set (gm_cells m). T' (c_output c) < T (c_output c)"
    then obtain c where "c \<in> set (gm_cells m)" "T' (c_output c) < T (c_output c)" by blast
    from sum_outputs_less [of T' T c "gm_cells m", OF assms(1) this] assms(3)
    show ?thesis unfolding e unfolding potential_def by linarith
  qed
qed

text \<open>Committing a replacement in the tables.\<close>

lemma commit_ok:
  assumes vis: "visited m0 T m i" and rp: "replaces T m i k' ins'"
    and rd: "readers_listed {} m cs" and keys: "keys_ok m seen"
  defines "c \<equiv> (gm_cells m ! i)\<lparr>c_kind := k', c_inputs := ins'\<rparr>"
  defines "cs' \<equiv> fold (add_in_range i) ins' (fold (prune_consumer i) (ins_at m i) cs)"
  shows "\<exists>T'. good m0 T' (with_cell m i c) \<and> (\<forall>x. T' x \<le> T x) \<and> (k' \<noteq> Buf \<longrightarrow> T' (out_at m i) < T (out_at m i))"
    and "readers_listed {} (with_cell m i c) cs'" and "keys_ok (with_cell m i c) (forget i (gm_cells m ! i) seen)"
    and "\<And>b. b < length (gm_cells m) \<Longrightarrow> b \<noteq> i \<Longrightarrow> kind_at m b = Buf \<Longrightarrow> unread (with_cell m i c) (out_at m b)"
proof -
  note v = visitedD [OF vis]
  have r: "length ins' = arity k'"
    "\<And>x. x \<in> set ins' \<Longrightarrow> x < length (gm_nets m) \<and> x \<noteq> out_at m i \<and> \<not> buf_output m x"
    "\<And>w. const_nets_ok w m \<Longrightarrow> (\<forall>j < length (gm_cells m). j \<noteq> i \<longrightarrow> holds w (gm_cells m ! j)) \<Longrightarrow>
        cell_fn k' (map w ins') = cell_fn (kind_at m i) (map w (ins_at m i))"
    using rp unfolding replaces_def by blast+
  obtain T' where T': "\<forall>x. T' x \<le> T x" "k' \<noteq> Buf \<longrightarrow> T' (out_at m i) < T (out_at m i)" "weighted T' (with_cell m i c)"
    using rp unfolding replaces_def c_def by blast
  have cwf: "module_cell_wf (length (gm_nets m)) (gm_cells m ! i)" using v(1,4) by (simp add: wf_module_def)
  have "good m0 T' (with_cell m i c)"
  proof (rule good_with_cell)
    show "good m0 T m" using vis by (simp add: visited_def)
    show "module_cell_wf (length (gm_nets m)) c" using cwf r(1,2) by (simp add: module_cell_wf_def c_def)
    show "holds w c \<longleftrightarrow> holds w (gm_cells m ! i)"
      if "const_nets_ok w m" "\<And>j. j < length (gm_cells m) \<Longrightarrow> j \<noteq> i \<Longrightarrow> holds w (gm_cells m ! j)" for w
      using r(3) [OF that(1)] that(2) by (simp add: holds_def c_def)
  qed (use v(4) T'(3) in \<open>simp_all add: c_def\<close>)
  with T' show "\<exists>T'. good m0 T' (with_cell m i c) \<and> (\<forall>x. T' x \<le> T x) \<and> (k' \<noteq> Buf \<longrightarrow> T' (out_at m i) < T (out_at m i))" by blast
  show "keys_ok (with_cell m i c) (forget i (gm_cells m ! i) seen)" by (rule keys_ok_forget [OF keys v(4)])
  have keep: "keeps_others i (length (gm_cells m)) cs cs'"
    unfolding cs'_def using v(4)
    by (intro keeps_others_trans [OF keeps_others_fold keeps_others_fold] prune_keeps add_in_range_keeps)
  have keep1: "keeps_others i (length (gm_cells m)) cs (fold (prune_consumer i) (ins_at m i) cs)"
    using v(4) by (intro keeps_others_fold prune_keeps)
  have len: "length cs = length (gm_nets m)" using rd by (simp add: readers_listed_def)
  have "j \<in> set (cs' ! n)" if j: "j < length (gm_cells m)" and n: "n \<in> set (c_inputs ((gm_cells m)[i := c] ! j))" for j n
  proof (cases "j = i")
    case True
    with n v(4) have n': "n \<in> set ins'" by (simp add: c_def)
    then have "n < length (fold (prune_consumer i) (ins_at m i) cs)" using r(2) keep1 len by (simp add: keeps_others_def)
    then show ?thesis unfolding cs'_def True by (rule add_in_range_adds [OF n'])
  next
    case False
    with n have n': "n \<in> set (ins_at m j)" by simp
    then have "j \<in> set (cs ! n)" using rd j by (simp add: readers_listed_def)
    moreover have "n < length cs" using wf_module_inputs [OF v(1) j n'] len by simp
    ultimately show ?thesis using keep False by (simp add: keeps_others_def)
  qed
  moreover have "\<forall>l \<in> set cs. \<forall>j \<in> set l. j < length (gm_cells m)" using rd by (simp add: readers_listed_def)
  ultimately show "readers_listed {} (with_cell m i c) cs'"
    using keep len unfolding readers_listed_def keeps_others_def by simp
  show "unread (with_cell m i c) (out_at m b)" if b: "b < length (gm_cells m)" "b \<noteq> i" "kind_at m b = Buf" for b
  proof -
    have "unread m (out_at m b)" using vis b by (simp add: visited_def bufs_unread_def)
    moreover have "out_at m b \<notin> set ins'" using r(2) b by (auto simp: buf_output_def)
    ultimately show ?thesis using v(4) by (auto simp: unread_def nth_list_update c_def)
  qed
qed

lemma fold_push_simps [simp]:
  "ws_module (fold push_wl is st) = ws_module st" "ws_consumers (fold push_wl is st) = ws_consumers st"
  "ws_seen (fold push_wl is st) = ws_seen st"
  by (induction "is" arbitrary: st) simp_all

lemma fold_push_stack:
  "stack_ok st \<Longrightarrow> \<forall>i \<in> set is. i < length (gm_cells (ws_module st)) \<Longrightarrow> stack_ok (fold push_wl is st)"
  by (induction "is" arbitrary: st) (simp_all add: push_wl_stack)

lemma map_kind_nth: "map c_kind xs = map c_kind ys \<Longrightarrow> j < length xs \<Longrightarrow> c_kind (xs ! j) = c_kind (ys ! j)"
  by (metis length_map nth_map)

lemma map_output_nth: "map c_output xs = map c_output ys \<Longrightarrow> j < length xs \<Longrightarrow> c_output (xs ! j) = c_output (ys ! j)"
  by (metis length_map nth_map)

lemma output_range: "wf_module m \<Longrightarrow> i < length (gm_cells m) \<Longrightarrow> out_at m i < length (gm_nets m)"
  by (simp add: wf_module_def module_cell_wf_def)

lemma readers_listed_length: "readers_listed X m cs \<Longrightarrow> length cs = length (gm_nets m)"
  by (simp add: readers_listed_def)

lemma readers_listed_entry: "readers_listed X m cs \<Longrightarrow> n < length cs \<Longrightarrow> j \<in> set (cs ! n) \<Longrightarrow> j < length (gm_cells m)"
  using nth_mem unfolding readers_listed_def by blast

lemma readers_listed_clear: "readers_listed {} m cs \<Longrightarrow> readers_listed {n} m (cs[n := []])"
proof -
  assume a: "readers_listed {} m cs"
  have "\<forall>l \<in> set (cs[n := []]). \<forall>i \<in> set l. i < length (gm_cells m)"
    using a set_update_subset_insert [of cs n "[]"] unfolding readers_listed_def by fastforce
  with a show ?thesis unfolding readers_listed_def by (simp add: nth_list_update)
qed

lemma visit_ok:
  assumes inv: "sweep_inv m0 T st" and i: "i < length (gm_cells (ws_module st))"
  shows "\<exists>T'. sweep_inv m0 T' (visit i st) \<and>
    (potential T' (ws_module (visit i st)) < potential T (ws_module st) \<or>
     T' = T \<and> ws_module (visit i st) = ws_module st \<and> ws_wl (visit i st) = ws_wl st)"
proof -
  let ?m = "ws_module st" and ?cell = "gm_cells (ws_module st) ! i"
  have g: "good m0 T ?m" and rd: "readers_listed {} ?m (ws_consumers st)" and keys: "keys_ok ?m (ws_seen st)"
    and stack: "stack_ok st" and bufs: "bufs_unread (length (gm_cells ?m)) ?m"
    using inv by (simp_all add: sweep_inv_def)
  show ?thesis
  proof (cases "c_kind ?cell = Buf")
    case True
    with inv show ?thesis by (auto simp: visit_def)
  next
    case proper: False
    have vis: "visited m0 T ?m i" using g i proper bufs by (simp add: visited_def)
    obtain ch seen where ch: "choose_rewrite i st = (ch, seen)" by fastforce
    show ?thesis
    proof (cases ch)
      case None
      then have "visit i st = st\<lparr>ws_seen := seen\<rparr>" using proper ch by (simp add: visit_def Let_def)
      moreover have "keys_ok ?m seen" using choose_rewrite_none [of i st seen] ch None keys i by simp
      moreover have "stack_ok (st\<lparr>ws_seen := seen\<rparr>)" using stack by (simp add: stack_ok_def)
      ultimately show ?thesis using inv by (auto simp: sweep_inv_def)
    next
      case (Some r)
      then obtain k' ins' bs where r: "ch = Some (k', ins', bs)" by (metis prod_cases3)
      have rp: "replaces T ?m i k' ins'" and bs: "bs = reader_hint k' ins'" and seen: "seen = ws_seen st"
        using choose_rewrite_replaces [OF vis keys] ch r by blast+
      define c where "c = ?cell\<lparr>c_kind := k', c_inputs := ins'\<rparr>"
      define cs where "cs = fold (add_in_range i) ins' (fold (prune_consumer i) (ins_at ?m i) (ws_consumers st))"
      define st1 where "st1 = set_cell i c (st\<lparr>ws_seen := forget i ?cell seen, ws_consumers := cs\<rparr>)"
      note commit = commit_ok [OF vis rp rd keys, folded c_def cs_def]
      obtain T' where g1: "good m0 T' (with_cell ?m i c)" and le: "\<And>x. T' x \<le> T x"
        and less: "k' \<noteq> Buf \<longrightarrow> T' (out_at ?m i) < T (out_at ?m i)" using commit(1) by blast
      have st1: "ws_module st1 = with_cell ?m i c" "ws_consumers st1 = cs" "ws_seen st1 = forget i ?cell (ws_seen st)"
        by (simp_all add: st1_def seen)
      have stack1: "stack_ok st1" using stack by (simp add: st1_def stack_ok_def)
      have outs: "map c_output ((gm_cells ?m)[i := c]) = map c_output (gm_cells ?m)"
        using same_outputs [OF g g1] by simp
      have vi: "visit i st = (case bs of
          Some src \<Rightarrow> fold (rewire_consumer i (out_at ?m i) src) (cs ! out_at ?m i)
             (st1\<lparr>ws_consumers := cs[out_at ?m i := []]\<rparr>)
        | None \<Rightarrow> fold push_wl (cs ! out_at ?m i) (push_wl i st1))"
        using proper ch r by (cases bs) (simp_all add: visit_def Let_def c_def [symmetric] cs_def [symmetric] st1_def)
      show ?thesis
      proof (cases "k' = Buf")
        case False
        let ?st = "fold push_wl (cs ! out_at ?m i) (push_wl i st1)"
        have v: "visit i st = ?st" using vi bs False by (simp add: reader_hint_def)
        have out: "out_at ?m i < length cs"
          using output_range [OF visitedD(1,4) [OF vis]] readers_listed_length [OF commit(2)] by simp
        have "\<forall>j \<in> set (cs ! out_at ?m i). j < length (gm_cells ?m)"
          using readers_listed_entry [OF commit(2) out] by simp
        then have "stack_ok ?st" using i st1 stack1 by (intro fold_push_stack push_wl_stack) simp_all
        moreover have "bufs_unread (length (gm_cells ?m)) (with_cell ?m i c)"
          using commit(4) i False by (auto simp: bufs_unread_def c_def nth_list_update)
        ultimately have "sweep_inv m0 T' ?st" using g1 commit(2,3) st1 by (simp add: sweep_inv_def)
        moreover have "potential T' (with_cell ?m i c) < potential T ?m"
        proof (rule potential_less [OF le])
          show "map c_output (gm_cells (with_cell ?m i c)) = map c_output (gm_cells ?m)" using outs by simp
          show "proper (with_cell ?m i c) \<le> proper ?m" using proper_with_cell(1) [OF i proper, of c] False by (simp add: c_def)
          show "proper (with_cell ?m i c) < proper ?m \<or> (\<exists>c \<in> set (gm_cells ?m). T' (c_output c) < T (c_output c))"
            using less False i by (auto intro!: bexI [of _ ?cell])
        qed
        ultimately show ?thesis unfolding v using st1(1) by (intro exI [of _ T']) simp
      next
        case True
        then obtain src where ins': "ins' = [src]" using rp by (auto simp: replaces_def length_Suc_conv)
        have src: "src \<noteq> out_at ?m i" using rp ins' by (simp add: replaces_def)
        let ?out = "out_at ?m i"
        let ?st2 = "st1\<lparr>ws_consumers := cs[?out := []]\<rparr>"
        let ?st = "fold (rewire_consumer i ?out src) (cs ! ?out) ?st2"
        have v: "visit i st = ?st" using vi bs True ins' by (simp add: reader_hint_def)
        have out: "?out < length cs"
          using output_range [OF visitedD(1,4) [OF vis]] readers_listed_length [OF commit(2)] by simp
        have "rewiring m0 T' i ?out src (cs ! ?out) ?st2"
        proof -
          have "buffer_at (with_cell ?m i c) i ?out src"
            using i True ins' src by (simp add: buffer_at_def c_def)
          moreover have "readers_listed {?out} (with_cell ?m i c) (cs[?out := []])"
            by (rule readers_listed_clear [OF commit(2)])
          moreover have "stack_ok ?st2" using stack1 by (simp add: stack_ok_def)
          moreover have "\<forall>j < length (gm_cells (with_cell ?m i c)). ?out \<in> set (ins_at (with_cell ?m i c) j) \<longrightarrow> j \<in> set (cs ! ?out)"
            using commit(2) unfolding readers_listed_def by blast
          moreover have "\<forall>j \<in> set (cs ! ?out). j < length (gm_cells (with_cell ?m i c))"
            using readers_listed_entry [OF commit(2) out] by blast
          ultimately show ?thesis
            using g1 commit(3) st1 unfolding rewiring_def by simp
        qed
        from rewire_loop [OF this] have fin: "rewiring m0 T' i ?out src [] ?st" and rw: "rewired src (with_cell ?m i c) (ws_module ?st)"
          by (simp_all add: st1)
        note fd = rewiring_done [OF fin]
        have kds: "map c_kind (gm_cells (ws_module ?st)) = map c_kind ((gm_cells ?m)[i := c])"
          and prp: "proper (ws_module ?st) = proper (with_cell ?m i c)"
          and un: "\<And>x. x \<noteq> src \<Longrightarrow> unread (with_cell ?m i c) x \<Longrightarrow> unread (ws_module ?st) x"
          using rw by (simp_all add: rewired_def)
        have outs2: "map c_output (gm_cells (ws_module ?st)) = map c_output (gm_cells ?m)"
          by (rule same_outputs [OF g fd(1)])
        have "unread (ws_module ?st) (out_at (ws_module ?st) b)"
          if b: "b < length (gm_cells (ws_module ?st))" "kind_at (ws_module ?st) b = Buf" for b
        proof (cases "b = i")
          case True
          with map_output_nth [OF outs2 b(1)] fd(5) show ?thesis by simp
        next
          case False
          have bl: "b < length (gm_cells ?m)" using b(1) outs2 by (metis length_map)
          have kb: "kind_at ?m b = Buf" using map_kind_nth [OF kds b(1)] b(2) False by simp
          have "unread (with_cell ?m i c) (out_at ?m b)" by (rule commit(4) [OF bl False kb])
          moreover have "out_at ?m b \<noteq> src"
          proof
            assume "out_at ?m b = src"
            with calculation have "src \<notin> set (c_inputs c)" using i by (auto simp: unread_def)
            then show False by (simp add: c_def ins')
          qed
          ultimately show ?thesis using un map_output_nth [OF outs2 b(1)] by simp
        qed
        then have "sweep_inv m0 T' ?st" using fd(1-4) by (simp add: sweep_inv_def bufs_unread_def)
        moreover have "Suc (proper (with_cell ?m i c)) = proper ?m" using proper_with_cell(2) [OF i proper, of c] True by (simp add: c_def)
        then have "potential T' (ws_module ?st) < potential T ?m"
          using prp by (intro potential_less [OF le outs2]) simp_all
        ultimately show ?thesis unfolding v by blast
      qed
    qed
  qed
qed

subsection \<open>The loop ends\<close>

lemma wl_loop_ok:
  "sweep_inv m0 T st \<Longrightarrow> \<exists>st' T'. wl_loop st = Some st' \<and> sweep_inv m0 T' st' \<and> ws_wl st' = []"
proof (induction "(potential T (ws_module st), length (ws_wl st))" arbitrary: T st
    rule: wf_induct_rule [OF wf_lex_prod [OF wf_less_than wf_less_than]])
  case less: (1 T st)
  show ?case
  proof (cases "ws_wl st")
    case Nil
    with less.prems show ?thesis by (intro exI [of _ st] exI [of _ T]) (simp add: wl_loop.simps)
  next
    case (Cons i rest)
    let ?st = "st\<lparr>ws_wl := rest, ws_in_wl := (ws_in_wl st)[i := False]\<rparr>"
    have i: "i < length (gm_cells (ws_module ?st))" using less.prems Cons by (simp add: sweep_inv_def stack_ok_def)
    have inv: "sweep_inv m0 T ?st" using less.prems Cons by (simp add: sweep_inv_def stack_ok_def)
    from visit_ok [OF inv i] obtain T' where T': "sweep_inv m0 T' (visit i ?st)"
      "potential T' (ws_module (visit i ?st)) < potential T (ws_module ?st) \<or>
       T' = T \<and> ws_module (visit i ?st) = ws_module ?st \<and> ws_wl (visit i ?st) = ws_wl ?st" by blast
    then have "((potential T' (ws_module (visit i ?st)), length (ws_wl (visit i ?st))),
        potential T (ws_module st), length (ws_wl st)) \<in> less_than <*lex*> less_than"
      using Cons by auto
    from less.hyps [OF this T'(1)] Cons show ?thesis by (simp add: wl_loop.simps [of st])
  qed
qed

subsection \<open>The pre-pass\<close>

definition strict_bufs :: "(net_id \<Rightarrow> nat) \<Rightarrow> gate_module \<Rightarrow> bool" where
  "strict_bufs T m \<longleftrightarrow> (\<forall>i < length (gm_cells m). kind_at m i = Buf \<longrightarrow> (\<forall>x \<in> set (ins_at m i). T x < T (out_at m i)))"

lemma strict_bufs_reread:
  assumes "strict_bufs T m" "T src < T out" "j < length (gm_cells m)"
  shows "strict_bufs T (with_cell m j (reread out src (gm_cells m ! j)))"
  unfolding strict_bufs_def
proof (intro allI impI ballI)
  fix i x
  let ?m = "with_cell m j (reread out src (gm_cells m ! j))"
  assume i: "i < length (gm_cells ?m)" "kind_at ?m i = Buf" and x: "x \<in> set (ins_at ?m i)"
  show "T x < T (out_at ?m i)"
  proof (cases "i = j")
    case True
    then have "T y < T (out_at m j)" if "y \<in> set (ins_at m j)" for y
      using assms(1,3) i that by (simp add: strict_bufs_def)
    then show ?thesis using True x assms(2,3) by (auto split: if_splits dest: order.strict_trans)
  next
    case False
    then show ?thesis using assms(1) i x by (simp add: strict_bufs_def)
  qed
qed

definition prepass_inv :: "gate_module \<Rightarrow> (net_id \<Rightarrow> nat) \<Rightarrow> nat \<Rightarrow> wl_state \<Rightarrow> bool" where
  "prepass_inv m0 T k st \<longleftrightarrow> good m0 T (ws_module st) \<and> readers_listed {} (ws_module st) (ws_consumers st) \<and>
     stack_ok st \<and> ws_seen st = Map.empty \<and> bufs_unread k (ws_module st) \<and> strict_bufs T (ws_module st)"

lemma prepass_consumer_step:
  assumes r: "rewiring m0 T b out src (j # rest) st" and seen: "ws_seen st = Map.empty"
    and strict: "strict_bufs T (ws_module st)" and less: "T src < T out"
  defines "st' \<equiv> prepass_consumer b out src j st"
  shows "rewiring m0 T b out src rest st' \<and> rewired src (ws_module st) (ws_module st') \<and>
    ws_seen st' = Map.empty \<and> strict_bufs T (ws_module st')"
proof (cases "j = b")
  case True
  have "out \<notin> set (c_inputs (gm_cells (ws_module st) ! b))" using r by (auto simp: rewiring_def buffer_at_def)
  with True have "rewiring m0 T b out src rest st" using rewiring_skip [OF r] by simp
  with True seen strict show ?thesis by (simp add: st'_def prepass_consumer_def rewired_refl)
next
  case False
  have jl: "j < length (gm_cells (ws_module st))" using r by (simp add: rewiring_def)
  have m: "ws_module st' = with_cell (ws_module st) j (reread out src (gm_cells (ws_module st) ! j))"
    and s: "ws_seen st' = Map.empty"
    using False seen by (simp_all add: st'_def prepass_consumer_def Let_def)
  have "rewiring m0 T b out src rest st' \<and> rewired src (ws_module st) (ws_module st')"
  proof (rule rewiring_step [OF r False m])
    show "ws_consumers st' = add_consumer j src (ws_consumers st)"
      using False by (simp add: st'_def prepass_consumer_def Let_def)
    show "keys_ok (ws_module st') (ws_seen st')" by (simp add: s keys_ok_def)
    have "stack_ok st" using r by (simp add: rewiring_def)
    then have "stack_ok ((set_cell j c st)\<lparr>ws_consumers := cs\<rparr>)" for c cs
      by (subst stack_ok_cong [of _ st]) simp_all
    with False jl show "stack_ok st'" by (simp add: st'_def prepass_consumer_def Let_def push_wl_stack)
  qed
  with m s strict_bufs_reread [OF strict less jl] show ?thesis by simp
qed

lemma prepass_loop:
  assumes "rewiring m0 T b out src rest st" "ws_seen st = Map.empty" "strict_bufs T (ws_module st)" "T src < T out"
  defines "st' \<equiv> fold (prepass_consumer b out src) rest st"
  shows "rewiring m0 T b out src [] st' \<and> rewired src (ws_module st) (ws_module st') \<and>
    ws_seen st' = Map.empty \<and> strict_bufs T (ws_module st')"
  unfolding st'_def using assms(1-3)
proof (induction rest arbitrary: st)
  case (Cons j rest)
  from prepass_consumer_step [OF Cons.prems assms(4)] Cons.IH [of "prepass_consumer b out src j st"]
  show ?case by (auto intro: rewired_trans)
qed (simp add: rewired_refl)

lemma prepass_cell_ok:
  assumes inv: "prepass_inv m0 T k st" and k: "k < length (gm_cells (ws_module st))"
  shows "prepass_inv m0 T (Suc k) (prepass_cell k st)"
proof -
  let ?m = "ws_module st"
  have g: "good m0 T ?m" and rd: "readers_listed {} ?m (ws_consumers st)" and stack: "stack_ok st"
    and seen: "ws_seen st = Map.empty" and bufs: "bufs_unread k ?m" and strict: "strict_bufs T ?m"
    using inv by (simp_all add: prepass_inv_def)
  have wf: "wf_module ?m" using g by (simp add: good_def)
  show ?thesis
  proof (cases "kind_at ?m k = Buf")
    case False
    then have "bufs_unread (Suc k) ?m" using bufs by (auto simp: bufs_unread_def less_Suc_eq)
    with False inv show ?thesis by (simp add: prepass_cell_def prepass_inv_def)
  next
    case True
    then have "length (ins_at ?m k) = 1" using wf_module_arity [OF wf k] by simp
    then obtain src where ins: "ins_at ?m k = [src]" unfolding length_1_conv by blast
    then have less: "T src < T (out_at ?m k)" using strict k True by (simp add: strict_bufs_def)
    let ?out = "out_at ?m k"
    let ?old = "ws_consumers st ! ?out" and ?st1 = "st\<lparr>ws_consumers := (ws_consumers st)[?out := []]\<rparr>"
    let ?st = "fold (prepass_consumer k ?out src) ?old ?st1"
    have v: "prepass_cell k st = ?st" using True ins less by (auto simp: prepass_cell_def Let_def)
    have b: "buffer_at ?m k ?out src" using k True ins less by (auto simp: buffer_at_def)
    have out: "?out < length (ws_consumers st)"
      using output_range [OF wf k] readers_listed_length [OF rd] by simp
    have "rewiring m0 T k ?out src ?old ?st1"
    proof -
      have "readers_listed {?out} ?m ((ws_consumers st)[?out := []])" by (rule readers_listed_clear [OF rd])
      moreover have "stack_ok ?st1" using stack by (simp add: stack_ok_def)
      moreover have "\<forall>j < length (gm_cells ?m). ?out \<in> set (ins_at ?m j) \<longrightarrow> j \<in> set ?old"
        using rd unfolding readers_listed_def by blast
      moreover have "\<forall>j \<in> set ?old. j < length (gm_cells ?m)" using readers_listed_entry [OF rd out] by blast
      moreover have "keys_ok ?m (ws_seen ?st1)" by (simp add: seen keys_ok_def)
      ultimately show ?thesis using g b unfolding rewiring_def by simp
    qed
    then have "rewiring m0 T k ?out src [] ?st \<and> rewired src (ws_module ?st1) (ws_module ?st) \<and>
        ws_seen ?st = Map.empty \<and> strict_bufs T (ws_module ?st)"
      by (rule prepass_loop) (simp_all add: seen strict less)
    then have fin: "rewiring m0 T k ?out src [] ?st" and rw: "rewired src ?m (ws_module ?st)"
      and rest: "ws_seen ?st = Map.empty" "strict_bufs T (ws_module ?st)" by simp_all
    note fd = rewiring_done [OF fin]
    have kds: "map c_kind (gm_cells (ws_module ?st)) = map c_kind (gm_cells ?m)"
      and un: "\<And>x. x \<noteq> src \<Longrightarrow> unread ?m x \<Longrightarrow> unread (ws_module ?st) x"
      using rw by (simp_all add: rewired_def)
    have outs: "map c_output (gm_cells (ws_module ?st)) = map c_output (gm_cells ?m)" by (rule same_outputs [OF g fd(1)])
    have "unread (ws_module ?st) (out_at (ws_module ?st) j)"
      if j: "j < length (gm_cells (ws_module ?st))" "kind_at (ws_module ?st) j = Buf" "j < Suc k" for j
    proof (cases "j = k")
      case True
      with map_output_nth [OF outs j(1)] fd(5) show ?thesis by simp
    next
      case False
      have jl: "j < length (gm_cells ?m)" using j(1) outs by (metis length_map)
      have "kind_at ?m j = Buf" using map_kind_nth [OF kds j(1)] j(2) by simp
      then have u: "unread ?m (out_at ?m j)" using bufs jl False j(3) by (simp add: bufs_unread_def)
      then have "out_at ?m j \<noteq> src" using k ins by (auto simp: unread_def)
      with u un map_output_nth [OF outs j(1)] show ?thesis by simp
    qed
    then show ?thesis unfolding v using fd rest by (simp add: prepass_inv_def bufs_unread_def)
  qed
qed

lemma prepass_ok:
  assumes "prepass_inv m0 T 0 st" "n \<le> length (gm_cells (ws_module st))" "good m0 T0 (ws_module st)"
  shows "prepass_inv m0 T n (fold prepass_cell [0..<n] st)"
  using assms(2)
proof (induction n)
  case 0
  then show ?case using assms(1) by simp
next
  case (Suc n)
  then have IH: "prepass_inv m0 T n (fold prepass_cell [0..<n] st)" by simp
  then have "length (gm_cells (ws_module (fold prepass_cell [0..<n] st))) = length (gm_cells (ws_module st))"
    using same_outputs [OF assms(3)] unfolding prepass_inv_def by (metis length_map)
  then have "n < length (gm_cells (ws_module (fold prepass_cell [0..<n] st)))" using Suc.prems by simp
  from prepass_cell_ok [OF IH this] show ?case by simp
qed

subsection \<open>The first state\<close>

lemma fold_add_consumer:
  "length (fold (add_consumer i) ns cs) = length cs"
  "j \<in> set (cs ! n) \<Longrightarrow> n < length cs \<Longrightarrow> j \<in> set (fold (add_consumer i) ns cs ! n)"
  "n \<in> set ns \<Longrightarrow> n < length cs \<Longrightarrow> i \<in> set (fold (add_consumer i) ns cs ! n)"
  "\<forall>l \<in> set cs. \<forall>j \<in> set l. j < k \<Longrightarrow> i < k \<Longrightarrow> \<forall>n \<in> set ns. n < length cs \<Longrightarrow>
     \<forall>l \<in> set (fold (add_consumer i) ns cs). \<forall>j \<in> set l. j < k"
proof -
  show 1: "length (fold (add_consumer i) ns cs) = length cs" for ns cs
    by (induction ns arbitrary: cs) (simp_all add: add_consumer_def)
  have 2: "j \<in> set (cs ! n) \<Longrightarrow> n < length cs \<Longrightarrow> j \<in> set (fold (add_consumer i) ns cs ! n)" for j ns cs
  proof (induction ns arbitrary: cs)
    case (Cons x ns)
    have "j \<in> set (add_consumer i x cs ! n)" using Cons.prems by (cases "n = x") (simp_all add: add_consumer_def)
    moreover have "n < length (add_consumer i x cs)" using Cons.prems by (simp add: add_consumer_def)
    ultimately show ?case using Cons.IH by simp
  qed simp
  show "j \<in> set (cs ! n) \<Longrightarrow> n < length cs \<Longrightarrow> j \<in> set (fold (add_consumer i) ns cs ! n)" by (rule 2)
  show "n \<in> set ns \<Longrightarrow> n < length cs \<Longrightarrow> i \<in> set (fold (add_consumer i) ns cs ! n)"
  proof (induction ns arbitrary: cs)
    case (Cons x ns)
    show ?case
    proof (cases "n = x")
      case True
      then have "i \<in> set (add_consumer i x cs ! n)" "n < length (add_consumer i x cs)"
        using Cons.prems by (simp_all add: add_consumer_def)
      with 2 show ?thesis by simp
    next
      case False
      with Cons show ?thesis by (simp add: add_consumer_def)
    qed
  qed simp
  show "\<forall>l \<in> set cs. \<forall>j \<in> set l. j < k \<Longrightarrow> i < k \<Longrightarrow> \<forall>n \<in> set ns. n < length cs \<Longrightarrow>
     \<forall>l \<in> set (fold (add_consumer i) ns cs). \<forall>j \<in> set l. j < k"
  proof (induction ns arbitrary: cs)
    case (Cons x ns)
    then have "\<forall>l \<in> set (add_consumer i x cs). \<forall>j \<in> set l. j < k" by (intro add_consumer_entries) simp_all
    moreover have "\<forall>n \<in> set ns. n < length (add_consumer i x cs)" using Cons.prems(3) by (simp add: add_consumer_def)
    ultimately show ?case using Cons.IH Cons.prems(2) by simp
  qed simp
qed

lemma build_consumers_listed:
  assumes "wf_module m"
  shows "readers_listed {} m (build_consumers m)"
proof -
  let ?f = "\<lambda>(i, c). fold (add_consumer i) (c_inputs c)"
  have len: "length (fold ?f xs cs) = length cs" for xs cs
    by (induction xs arbitrary: cs) (auto simp: fold_add_consumer(1))
  have stay: "j \<in> set (cs ! n) \<Longrightarrow> n < length cs \<Longrightarrow> j \<in> set (fold ?f xs cs ! n)" for j n xs cs
  proof (induction xs arbitrary: cs)
    case (Cons x xs)
    obtain i c where x: "x = (i, c)" by fastforce
    have "j \<in> set (?f x cs ! n)" "n < length (?f x cs)"
      using Cons.prems fold_add_consumer(1,2) by (simp_all add: x)
    from Cons.IH [OF this] show ?case by simp
  qed simp
  have listed: "(i, c) \<in> set xs \<Longrightarrow> n \<in> set (c_inputs c) \<Longrightarrow> n < length cs \<Longrightarrow> i \<in> set (fold ?f xs cs ! n)" for i c n xs cs
  proof (induction xs arbitrary: cs)
    case (Cons x xs)
    show ?case
    proof (cases "x = (i, c)")
      case True
      have "i \<in> set (?f x cs ! n)" "n < length (?f x cs)"
        using Cons.prems True fold_add_consumer(1,3) by simp_all
      from stay [OF this, of xs] show ?thesis by simp
    next
      case False
      obtain i' c' where x: "x = (i', c')" by fastforce
      have "n < length (?f x cs)" using Cons.prems fold_add_consumer(1) by (simp add: x)
      from Cons.IH [OF _ _ this] Cons.prems False show ?thesis by simp
    qed
  qed simp
  have entries: "\<forall>l \<in> set (fold ?f xs cs). \<forall>j \<in> set l. j < k"
    if "\<forall>l \<in> set cs. \<forall>j \<in> set l. j < k" "\<forall>(i, c) \<in> set xs. i < k \<and> (\<forall>n \<in> set (c_inputs c). n < length cs)" for k xs cs
    using that
  proof (induction xs arbitrary: cs)
    case (Cons x xs)
    obtain i c where x: "x = (i, c)" by fastforce
    have "\<forall>l \<in> set (?f x cs). \<forall>j \<in> set l. j < k"
      using Cons.prems x fold_add_consumer(4) [of cs k i "c_inputs c"] by simp
    moreover have "\<forall>(i, c) \<in> set xs. i < k \<and> (\<forall>n \<in> set (c_inputs c). n < length (?f x cs))"
      using Cons.prems(2) x fold_add_consumer(1) by simp
    ultimately show ?case using Cons.IH by simp
  qed simp
  let ?cs = "replicate (length (gm_nets m)) []" and ?xs = "enumerate 0 (gm_cells m)"
  have mem: "(i, c) \<in> set ?xs \<longleftrightarrow> i < length (gm_cells m) \<and> c = gm_cells m ! i" for i c
    by (auto simp: in_set_enumerate_eq)
  have "\<forall>(i, c) \<in> set ?xs. i < length (gm_cells m) \<and> (\<forall>n \<in> set (c_inputs c). n < length ?cs)"
    using wf_module_inputs [OF assms] mem by auto
  then have "\<forall>l \<in> set (fold ?f ?xs ?cs). \<forall>j \<in> set l. j < length (gm_cells m)"
    by (intro entries) simp_all
  moreover have "i \<in> set (fold ?f ?xs ?cs ! n)" if "i < length (gm_cells m)" "n \<in> set (ins_at m i)" for i n
    using that wf_module_inputs [OF assms that] mem by (intro listed [of i "gm_cells m ! i"]) simp_all
  ultimately show ?thesis unfolding readers_listed_def build_consumers_def len by simp
qed

definition rank_weight :: "(net_id \<Rightarrow> nat) \<Rightarrow> gate_module \<Rightarrow> net_id \<Rightarrow> nat" where
  "rank_weight r m n = (case driver (gm_nets m ! n) of DCell _ \<Rightarrow> 8 ^ r n | _ \<Rightarrow> 0)"

lemma rank_weight_input:
  assumes "wf_module m" "single_driver m" "ranked r m" "i < length (gm_cells m)" "x \<in> set (ins_at m i)"
  shows "8 * rank_weight r m x \<le> rank_weight r m (out_at m i)" "1 \<le> r (out_at m i)"
proof -
  have d: "driver (gm_nets m ! out_at m i) = DCell i" using assms(2,4) by (simp add: single_driver_def)
  then have less: "r x < r (out_at m i)"
    using assms(3,5) output_range [OF assms(1,4)] by (auto simp: ranked_def)
  then show "1 \<le> r (out_at m i)" by simp
  have "8 * rank_weight r m x \<le> 8 ^ Suc (r x)" by (simp add: rank_weight_def split: net_driver.split)
  also have "\<dots> \<le> (8 :: nat) ^ r (out_at m i)" using less by (intro power_increasing) simp_all
  finally show "8 * rank_weight r m x \<le> rank_weight r m (out_at m i)" using d by (simp add: rank_weight_def)
qed

lemma ranked_weighted:
  assumes "wf_module m" "single_driver m" "ranked r m"
  shows "weighted (rank_weight r m) m" "strict_bufs (rank_weight r m) m"
proof -
  let ?T = "rank_weight r m"
  have "wt (kind_at m i) + sum_list (map ?T (ins_at m i)) \<le> ?T (out_at m i)" if i: "i < length (gm_cells m)" for i
  proof -
    have len: "length (ins_at m i) = arity (kind_at m i)" by (rule wf_module_arity [OF assms(1) i])
    then have "ins_at m i \<noteq> []" using arity_pos [of "kind_at m i"] by auto
    then have "1 \<le> r (out_at m i)" using rank_weight_input(2) [OF assms i] by (metis list.set_sel(1))
    then have "(8 :: nat) ^ 1 \<le> 8 ^ r (out_at m i)" by (intro power_increasing) simp_all
    then have 8: "8 \<le> ?T (out_at m i)" using assms(2) i by (simp add: rank_weight_def single_driver_def)
    have "sum_list (map (\<lambda>x. 8 * ?T x) (ins_at m i)) \<le> sum_list (map (\<lambda>_. ?T (out_at m i)) (ins_at m i))"
      by (intro sum_list_le rank_weight_input(1) [OF assms i])
    also have "\<dots> = arity (kind_at m i) * ?T (out_at m i)" using len by (simp add: sum_list_triv)
    also have "\<dots> \<le> 4 * ?T (out_at m i)" using arity_le_4 by (intro mult_right_mono) simp_all
    finally have "8 * sum_list (map ?T (ins_at m i)) \<le> 4 * ?T (out_at m i)" by (simp add: sum_list_const_mult)
    with 8 wt_le_3 [of "kind_at m i"] show ?thesis by linarith
  qed
  then show "weighted ?T m" using assms(1) by (simp add: weighted_nth rank_weight_def wf_module_def)
  show "strict_bufs ?T m"
    unfolding strict_bufs_def
  proof (intro allI impI ballI)
    fix i x assume i: "i < length (gm_cells m)" and x: "x \<in> set (ins_at m i)"
    have "0 < ?T (out_at m i)" using assms(2) i by (simp add: rank_weight_def single_driver_def)
    with rank_weight_input(1) [OF assms i x] show "?T x < ?T (out_at m i)" by linarith
  qed
qed

lemma sweep_result:
  assumes "wf_module m" "single_driver m" "ranked r m"
  shows "\<exists>st T. wl_loop (fold prepass_cell [0..<length (gm_cells m)]
      \<lparr>ws_module = m, ws_consumers = build_consumers m, ws_seen = Map.empty,
       ws_wl = rev [0..<length (gm_cells m)], ws_in_wl = replicate (length (gm_cells m)) True\<rparr>) = Some st \<and>
    sweep_inv m T st"
proof -
  let ?st = "\<lparr>ws_module = m, ws_consumers = build_consumers m, ws_seen = Map.empty,
       ws_wl = rev [0..<length (gm_cells m)], ws_in_wl = replicate (length (gm_cells m)) True\<rparr> :: wl_state"
  let ?T = "rank_weight r m"
  have good: "good m ?T m"
    using assms ranked_weighted [OF assms] by (simp add: good_def same_frame_def)
  have "prepass_inv m ?T 0 ?st"
    using good build_consumers_listed [OF assms(1)] ranked_weighted(2) [OF assms]
    by (simp add: prepass_inv_def stack_ok_def bufs_unread_def)
  from prepass_ok [OF this, of "length (gm_cells m)" ?T] good
  have inv: "prepass_inv m ?T (length (gm_cells m)) (fold prepass_cell [0..<length (gm_cells m)] ?st)" by simp
  then have "length (gm_cells (ws_module (fold prepass_cell [0..<length (gm_cells m)] ?st))) = length (gm_cells m)"
    using same_outputs [OF good] unfolding prepass_inv_def by (metis length_map)
  with inv have "sweep_inv m ?T (fold prepass_cell [0..<length (gm_cells m)] ?st)"
    by (simp add: prepass_inv_def sweep_inv_def keys_ok_def)
  from wl_loop_ok [OF this] show ?thesis by blast
qed

end
