(* ===== verification/Worklist_Result.thy ===== *)
theory Worklist_Result
  imports Worklist_Pass
begin

section \<open>What the worklist pass and its convergence loop compute\<close>

text \<open>
  The end of \<open>worklist_simplify\<close> (pins past buffers, buffers dropped), the equivalence of its
  result with its input, and \<open>converge_simplify\<close>, which alternates it with the removal of
  hold-forever registers until nothing shrinks.
\<close>

subsection \<open>Resolving the pins and dropping the buffers\<close>

text \<open>After the sweep a buffer's source is not another buffer's output, so one step resolves a net.\<close>

definition resolved :: "gate_module \<Rightarrow> net_id \<Rightarrow> net_id" where
  "resolved m n = (case buf_source m n of None \<Rightarrow> n | Some s \<Rightarrow> s)"

definition swept :: "gate_module \<Rightarrow> bool" where
  "swept m \<longleftrightarrow> wf_module m \<and> single_driver m \<and> bufs_unread (length (gm_cells m)) m"

lemma buf_source_iff:
  assumes "wf_module m" "n < length (gm_nets m)"
  shows "buf_source m n = Some s \<longleftrightarrow> (\<exists>i < length (gm_cells m). driver (gm_nets m ! n) = DCell i \<and>
    kind_at m i = Buf \<and> ins_at m i = [s] \<and> out_at m i = n)"
proof
  assume "buf_source m n = Some s"
  then obtain i where d: "driver (gm_nets m ! n) = DCell i" and k: "kind_at m i = Buf" and s: "s = ins_at m i ! 0"
    by (auto simp: buf_source_def split: net_driver.splits if_splits)
  have i: "i < length (gm_cells m)" "out_at m i = n" using wf_module_driver [OF assms d] by auto
  then have "length (ins_at m i) = 1" using wf_module_arity [OF assms(1) i(1)] k by simp
  then obtain s' where "ins_at m i = [s']" unfolding length_1_conv by blast
  with d k s i show "\<exists>i < length (gm_cells m). driver (gm_nets m ! n) = DCell i \<and>
    kind_at m i = Buf \<and> ins_at m i = [s] \<and> out_at m i = n" by auto
qed (auto simp: buf_source_def)

lemma read_no_buf_source:
  assumes "swept m" "i < length (gm_cells m)" "x \<in> set (ins_at m i)"
  shows "buf_source m x = None"
proof (rule ccontr)
  assume "buf_source m x \<noteq> None"
  then obtain s where s: "buf_source m x = Some s" by blast
  have x: "x < length (gm_nets m)" using assms by (auto simp: swept_def intro: wf_module_inputs)
  have "buf_output m x" using s buf_source_iff [OF _ x] assms(1) by (auto simp: swept_def buf_output_def)
  then show False using read_not_buf_output [OF _ assms(2,3)] assms(1) by (simp add: swept_def)
qed

lemma resolved_no_buf:
  assumes "swept m" "n < length (gm_nets m)"
  shows "buf_source m (resolved m n) = None" "resolved m n < length (gm_nets m)" "msat v m \<Longrightarrow> v (resolved m n) = v n"
    "resolve_alias m n = Some (resolved m n)"
proof -
  have wf: "wf_module m" using assms(1) by (simp add: swept_def)
  have src: "buf_source m s = None" if s: "buf_source m n = Some s" for s
  proof -
    obtain i where "i < length (gm_cells m)" "ins_at m i = [s]" using s buf_source_iff [OF wf assms(2)] by blast
    then show ?thesis using read_no_buf_source [OF assms(1), of i s] by simp
  qed
  then show "buf_source m (resolved m n) = None" by (auto simp: resolved_def split: option.split)
  show lt: "resolved m n < length (gm_nets m)"
    using buf_source_range(1) [OF wf assms(2)] assms(2) by (auto simp: resolved_def split: option.split)
  show "v (resolved m n) = v n" if "msat v m"
    using buf_source_range(2) [OF wf assms(2) _ that] by (auto simp: resolved_def split: option.split)
  show "resolve_alias m n = Some (resolved m n)"
  proof (cases "buf_source m n")
    case None
    then show ?thesis using resolve_alias_step [OF wf assms(2)] by (simp add: resolved_def)
  next
    case (Some s)
    then have "s < length (gm_nets m)" using lt by (simp add: resolved_def)
    from resolve_alias_step [OF wf this] src [OF Some] resolve_alias_step [OF wf assms(2)] Some
    show ?thesis by (simp add: resolved_def)
  qed
qed

definition map_ff :: "(net_id \<Rightarrow> net_id) \<Rightarrow> ff_cell \<Rightarrow> ff_cell" where
  "map_ff g ff = ff\<lparr>ff_d := g (ff_d ff), ff_clock := g (ff_clock ff),
     ff_reset := map_option (\<lambda>r. r\<lparr>rs_net := g (rs_net r)\<rparr>) (ff_reset ff)\<rparr>"

definition map_pins :: "(net_id \<Rightarrow> net_id) \<Rightarrow> gate_module \<Rightarrow> gate_module" where
  "map_pins g m = m\<lparr>gm_ffs := map (map_ff g) (gm_ffs m),
     gm_ports := map (\<lambda>p. p\<lparr>gp_nets := map g (gp_nets p)\<rparr>) (gm_ports m),
     gm_ram_blocks := map (map_ram g) (gm_ram_blocks m)\<rparr>"

lemma ram_inputs_map: "ram_inputs (m\<lparr>gm_ram_blocks := map (map_ram g) (gm_ram_blocks m)\<rparr>) = map g (ram_inputs m)"
proof -
  have "write_port_nets (map_write_port g wp) = map g (write_port_nets wp)" for wp
    by (simp add: write_port_nets_def map_write_port_def split: option.split)
  then have "ram_nets (map_ram g r) = map g (ram_nets r)" for r
    by (simp add: ram_nets_def map_ram_def map_concat comp_def)
  then show ?thesis by (simp add: ram_inputs_def map_concat comp_def)
qed

lemma sinks_map_pins: "sinks (map_pins g m) = map g (sinks m)"
proof -
  have "ram_inputs (map_pins g m) = map g (ram_inputs m)"
    using ram_inputs_map [of g m] by (simp add: map_pins_def ram_inputs_def)
  moreover have "ff_nets (map_ff g f) = map g (ff_nets f)" for f
    by (simp add: ff_nets_def map_ff_def split: option.split)
  ultimately show ?thesis by (simp add: sinks_def map_concat comp_def) (simp add: map_pins_def comp_def)
qed

lemma resolve_pins_ok:
  assumes "swept m"
  shows "resolve_pins m = Some (map_pins (resolved m) m)"
proof -
  let ?g = "resolved m"
  have wf: "wf_module m" using assms by (simp add: swept_def)
  have r: "resolve_alias m n = Some (?g n)" if "n \<in> set (sinks m)" for n
    using that resolved_no_buf(4) [OF assms] wf by (simp add: wf_module_def)
  have "resolve_ff m f = Some (map_ff ?g f)" if "f \<in> set (gm_ffs m)" for f
  proof -
    have "set (ff_nets f) \<subseteq> set (sinks m)" using that by (auto simp: sinks_def)
    then have "resolve_alias m (ff_d f) = Some (?g (ff_d f))" "resolve_alias m (ff_clock f) = Some (?g (ff_clock f))"
      "\<And>s. ff_reset f = Some s \<Longrightarrow> resolve_alias m (rs_net s) = Some (?g (rs_net s))"
      using r by (auto simp: ff_nets_def)
    then show ?thesis by (cases "ff_reset f") (simp_all add: resolve_ff_def map_ff_def)
  qed
  then have 1: "those (map (resolve_ff m) (gm_ffs m)) = Some (map (map_ff ?g) (gm_ffs m))" by (rule those_map_Some)
  have "resolve_port m p = Some (p\<lparr>gp_nets := map ?g (gp_nets p)\<rparr>)" if "p \<in> set (gm_ports m)" for p
  proof -
    have "set (gp_nets p) \<subseteq> set (sinks m)" using that by (auto simp: sinks_def)
    then have "those (map (resolve_alias m) (gp_nets p)) = Some (map ?g (gp_nets p))" using r by (intro those_map_Some) blast
    then show ?thesis by (simp add: resolve_port_def)
  qed
  then have 2: "those (map (resolve_port m) (gm_ports m)) = Some (map (\<lambda>p. p\<lparr>gp_nets := map ?g (gp_nets p)\<rparr>) (gm_ports m))"
    by (rule those_map_Some)
  have "set (ram_inputs m) \<subseteq> set (sinks m)" by (auto simp: sinks_def)
  then have 3: "those (map (resolve_alias m) (ram_inputs m)) = Some (map ?g (ram_inputs m))" using r by (intro those_map_Some) blast
  let ?m = "m\<lparr>gm_ffs := map (map_ff ?g) (gm_ffs m), gm_ports := map (\<lambda>p. p\<lparr>gp_nets := map ?g (gp_nets p)\<rparr>) (gm_ports m)\<rparr>"
  have "run_state (for_each_ram_input_net_mut ?m take_next) (map ?g (ram_inputs ?m) @ []) =
      (?m\<lparr>gm_ram_blocks := map (map_ram ?g) (gm_ram_blocks ?m)\<rparr>, [])" by (rule run_next_ram)
  then show ?thesis
    by (simp add: resolve_pins_def 1 2 3 run_collect_ram) (simp add: ram_inputs_def map_pins_def)
qed

text \<open>Dropping the buffers of a swept module whose pins are resolved.\<close>

lemma kept_nonbuf: "kept (map (\<lambda>c. c_kind c \<noteq> Buf) cs) cs = filter (\<lambda>c. c_kind c \<noteq> Buf) cs"
  using kept_filter [of "map (\<lambda>c. c_kind c \<noteq> Buf) cs" cs "\<lambda>c. c_kind c \<noteq> Buf" id] by simp

lemma drop_bufs_ok:
  assumes wf: "wf_module m" and sd: "single_driver m" and w: "weighted T m"
  obtains m' where "drop_bufs m = Some m'" "m' = m\<lparr>gm_cells := filter (\<lambda>c. c_kind c \<noteq> Buf) (gm_cells m), gm_nets := gm_nets m'\<rparr>"
    "length (gm_nets m') = length (gm_nets m)"
    "\<And>n. n < length (gm_nets m) \<Longrightarrow> origin (gm_nets m' ! n) = origin (gm_nets m ! n)"
    "\<And>n. n < length (gm_nets m) \<Longrightarrow> \<nexists>i. driver (gm_nets m ! n) = DCell i \<Longrightarrow> driver (gm_nets m' ! n) = driver (gm_nets m ! n)"
    "\<And>n i. n < length (gm_nets m) \<Longrightarrow> driver (gm_nets m ! n) = DCell i \<Longrightarrow>
       driver (gm_nets m' ! n) = Undriven \<or> (\<exists>j. driver (gm_nets m' ! n) = DCell j)"
    "wf_module m'" "single_driver m'" "ranked T m'"
proof -
  let ?ks = "map (\<lambda>c. c_kind c \<noteq> Buf) (gm_cells m)" and ?cs = "filter (\<lambda>c. c_kind c \<noteq> Buf) (gm_cells m)"
  obtain cs im where c: "compact ?ks (gm_cells m) [] = (cs, im)" by fastforce
  have cs: "cs = ?cs" using compact_new [of ?ks "gm_cells m" "[]"] kept_nonbuf [of "gm_cells m"] c by (simp add: kept_def)
  have drv: "i < length (gm_cells m)" if "n < length (gm_nets m)" "driver (gm_nets m ! n) = DCell i" for n i
    using wf_module_driver [OF wf] that by blast
  obtain nets where nets: "those (map (redirect_cell im) (gm_nets m)) = Some nets" "length nets = length (gm_nets m)"
      "\<And>n. n < length (gm_nets m) \<Longrightarrow> origin (nets ! n) = origin (gm_nets m ! n)"
      "\<And>n. n < length (gm_nets m) \<Longrightarrow> \<nexists>i. driver (gm_nets m ! n) = DCell i \<Longrightarrow> driver (nets ! n) = driver (gm_nets m ! n)"
      "\<And>n i. n < length (gm_nets m) \<Longrightarrow> driver (gm_nets m ! n) = DCell i \<Longrightarrow>
        (if ?ks ! i then \<exists>j < length cs. driver (nets ! n) = DCell j \<and> cs ! j = gm_cells m ! i else driver (nets ! n) = Undriven)"
    by (rule redirect_cells_ok [OF _ _ c, of "gm_nets m"]) (use drv that in \<open>auto simp: map_nth\<close>)
  let ?m = "m\<lparr>gm_cells := cs, gm_nets := nets\<rparr>"
  have out: "out_at m i < length (gm_nets m)" if "i < length (gm_cells m)" for i by (rule output_range [OF wf that])
  text \<open>A cell that stays drives its output at its new index.\<close>
  have cell: "\<exists>i. driver (gm_nets m ! n) = DCell i \<and> i < length (gm_cells m) \<and> cs ! j = gm_cells m ! i \<and> out_at m i = n \<and>
      kind_at m i \<noteq> Buf \<and> j < length cs"
    if n: "n < length (gm_nets m)" and d: "driver (nets ! n) = DCell j" for n j
  proof -
    obtain i where i: "driver (gm_nets m ! n) = DCell i" using nets(4) [OF n] d by metis
    have len: "i < length (gm_cells m)" "out_at m i = n" using wf_module_driver [OF wf n i] by auto
    with nets(5) [OF n i] d i show ?thesis by (auto split: if_splits)
  qed
  have sub: "set cs \<subseteq> set (gm_cells m)" using cs by auto
  have rl: "RESERVED_NETS \<le> length (gm_nets m)" "driver (gm_nets m ! NET_CONST0) = DConst False"
    "driver (gm_nets m ! NET_CONST1) = DConst True" using wf by (auto simp: wf_module_def)
  then have rlt: "NET_CONST0 < length (gm_nets m)" "NET_CONST1 < length (gm_nets m)" by (auto simp: rails)
  have snk: "sinks ?m = sinks m" by (simp add: sinks_def ram_inputs_def)
  have wf': "wf_module ?m"
  proof -
    have "\<forall>c \<in> set cs. module_cell_wf (length (gm_nets m)) c" using wf sub by (auto simp: wf_module_def)
    moreover have "driver (nets ! NET_CONST0) = DConst False" "driver (nets ! NET_CONST1) = DConst True"
      using nets(4) [OF rlt(1)] nets(4) [OF rlt(2)] rl by simp_all
    moreover have "j < length cs \<and> c_output (cs ! j) = n" if "n < length (gm_nets m)" "driver (nets ! n) = DCell j" for n j
      using cell [OF that] by auto
    moreover have "\<forall>n \<in> set (sinks m). n < length (gm_nets m)" using wf by (simp add: wf_module_def)
    ultimately show ?thesis using rl(1) nets(2) snk by (simp add: wf_module_def)
  qed
  text \<open>Distinct kept cells have distinct outputs, so each is the one its net names.\<close>
  have inj: "j = j'" if jj: "j < length cs" "j' < length cs" "c_output (cs ! j) = c_output (cs ! j')" for j j'
  proof -
    have "distinct (map c_output (gm_cells m))"
      using single_driver_inj [OF sd] by (auto simp: distinct_conv_nth)
    then have "distinct (map c_output cs)" unfolding cs by (simp add: distinct_map_filter)
    from nth_eq_iff_index_eq [OF this, of j j'] jj show ?thesis by simp
  qed
  have sd': "single_driver ?m"
    unfolding single_driver_def
  proof (intro allI impI)
    fix j assume "j < length (gm_cells ?m)"
    then have j: "j < length cs" by simp
    then have "cs ! j \<in> set ?cs" using nth_mem cs by blast
    then obtain i where i: "i < length (gm_cells m)" "cs ! j = gm_cells m ! i" "kind_at m i \<noteq> Buf" by (auto simp: in_set_conv_nth)
    have d: "driver (gm_nets m ! out_at m i) = DCell i" using sd i by (simp add: single_driver_def)
    from nets(5) [OF out [OF i(1)] d] i obtain j' where j': "j' < length cs" "driver (nets ! out_at m i) = DCell j'"
      "cs ! j' = gm_cells m ! i" by auto
    have "j = j'" by (rule inj [OF j j'(1)]) (simp only: j'(3) i(2))
    with j' i show "driver (gm_nets ?m ! c_output (gm_cells ?m ! j)) = DCell j" by simp
  qed
  have rk: "ranked T ?m"
    unfolding ranked_def
  proof (intro allI impI ballI)
    fix n j x
    assume "n < length (gm_nets ?m)" and "driver (gm_nets ?m ! n) = DCell j" and "x \<in> set (c_inputs (gm_cells ?m ! j))"
    then have n: "n < length (gm_nets m)" and d: "driver (nets ! n) = DCell j" and x: "x \<in> set (c_inputs (cs ! j))"
      using nets(2) by simp_all
    obtain i where "i < length (gm_cells m)" "cs ! j = gm_cells m ! i" "out_at m i = n" "kind_at m i \<noteq> Buf" using cell [OF n d] by blast
    with weighted_input [OF w, of i x] x wt_pos [of "kind_at m i"] show "T x < T n" by simp
  qed
  have "drop_bufs m = Some ?m" using c nets(1) by (simp add: drop_bufs_def)
  then show ?thesis
  proof (rule that)
    show "?m = m\<lparr>gm_cells := ?cs, gm_nets := gm_nets ?m\<rparr>" by (simp add: cs)
    show "length (gm_nets ?m) = length (gm_nets m)" using nets(2) by simp
    show "origin (gm_nets ?m ! n) = origin (gm_nets m ! n)" if "n < length (gm_nets m)" for n using nets(3) [OF that] by simp
    show "driver (gm_nets ?m ! n) = driver (gm_nets m ! n)"
      if "n < length (gm_nets m)" "\<nexists>i. driver (gm_nets m ! n) = DCell i" for n using nets(4) [OF that] by simp
    show "driver (gm_nets ?m ! n) = Undriven \<or> (\<exists>j. driver (gm_nets ?m ! n) = DCell j)"
      if "n < length (gm_nets m)" "driver (gm_nets m ! n) = DCell i" for n i
      using nets(5) [OF that] by (auto split: if_splits)
  qed (rule wf' sd' rk)+
qed

subsection \<open>The result of the pass\<close>

text \<open>
  \<open>m'\<close> computes what \<open>m\<close> computes, its pins renamed by \<open>g\<close>: an assignment of the first is one
  of the second with the same pin values, and every assignment of the second is, up to nets a
  cell of the first drives, one of the first.
\<close>

definition computes_same :: "(net_id \<Rightarrow> net_id) \<Rightarrow> gate_module \<Rightarrow> gate_module \<Rightarrow> bool" where
  "computes_same g m m' \<longleftrightarrow>
     (\<forall>v. msat v m \<longrightarrow> msat v m' \<and> (\<forall>n \<in> set (sinks m). v (g n) = v n)) \<and>
     (\<forall>w. msat w m' \<longrightarrow> (\<exists>v. msat v m \<and> (\<forall>n \<in> set (sinks m). v n = w (g n)) \<and>
        (\<forall>n < length (gm_nets m). (\<nexists>i. driver (gm_nets m ! n) = DCell i) \<longrightarrow> v n = w n)))"

definition no_bufs :: "gate_module \<Rightarrow> bool" where
  "no_bufs m \<longleftrightarrow> (\<forall>c \<in> set (gm_cells m). c_kind c \<noteq> Buf)"

lemma map_pins_simps [simp]:
  "gm_cells (map_pins g m) = gm_cells m" "gm_nets (map_pins g m) = gm_nets m" "gm_name (map_pins g m) = gm_name m"
  by (simp_all add: map_pins_def)

lemma map_pins_wf:
  assumes "wf_module m" "\<And>n. n < length (gm_nets m) \<Longrightarrow> g n < length (gm_nets m)"
  shows "wf_module (map_pins g m)"
  using assms by (auto simp: wf_module_def sinks_map_pins)

lemma msat_map_pins [simp]: "msat v (map_pins g m) = msat v m"
  by (simp add: msat_def)

text \<open>Reading a swept module's values off the module without its buffers.\<close>

lemma msat_through_bufs:
  assumes sw: "swept m" and const: "\<And>n b. n < length (gm_nets m) \<Longrightarrow> driver (gm_nets m ! n) = DConst b \<Longrightarrow> w n = b"
    and cells: "\<And>i. i < length (gm_cells m) \<Longrightarrow> kind_at m i \<noteq> Buf \<Longrightarrow> holds w (gm_cells m ! i)"
  shows "msat (\<lambda>n. w (resolved m n)) m"
proof -
  let ?v = "\<lambda>n. w (resolved m n)"
  have wf: "wf_module m" and sd: "single_driver m" using sw by (auto simp: swept_def)
  have "holds ?v (gm_cells m ! i)" if i: "i < length (gm_cells m)" for i
  proof -
    have d: "driver (gm_nets m ! out_at m i) = DCell i" using sd i by (simp add: single_driver_def)
    have ins: "?v x = w x" if "x \<in> set (ins_at m i)" for x
      using read_no_buf_source [OF sw i that] by (simp add: resolved_def)
    then have eq: "map ?v (ins_at m i) = map w (ins_at m i)" by simp
    show ?thesis
    proof (cases "kind_at m i = Buf")
      case True
      then have "length (ins_at m i) = 1" using wf_module_arity [OF wf i] by simp
      then obtain s where s: "ins_at m i = [s]" unfolding length_1_conv by blast
      then have "buf_source m (out_at m i) = Some s"
        using buf_source_iff [OF wf output_range [OF wf i]] d i True by blast
      then have "?v (out_at m i) = w s" by (simp add: resolved_def)
      moreover have "?v s = w s" using ins s by simp
      ultimately show ?thesis using True s by (simp add: holds_def)
    next
      case False
      then have "buf_source m (out_at m i) = None" using d by (simp add: buf_source_def)
      then have "?v (out_at m i) = w (out_at m i)" by (simp add: resolved_def)
      with cells [OF i False] show ?thesis unfolding holds_def eq by (simp only:)
    qed
  qed
  moreover have "?v n = b" if "n < length (gm_nets m)" "driver (gm_nets m ! n) = DConst b" for n b
    using that const [OF that] by (simp add: resolved_def buf_source_def)
  ultimately show ?thesis by (simp add: msat_nth const_nets_ok_def)
qed

lemma worklist_simplify_result:
  assumes wf: "wf_module m" and sd: "single_driver m" and rk: "ranked r m"
  obtains m' g T where "worklist_simplify m = Some m'" "wf_module m'" "single_driver m'" "ranked T m'" "no_bufs m'"
    "length (gm_cells m') \<le> length (gm_cells m)" "gm_ffs m' = map (map_ff g) (gm_ffs m)"
    "gm_ports m' = map (\<lambda>p. p\<lparr>gp_nets := map g (gp_nets p)\<rparr>) (gm_ports m)"
    "gm_ram_blocks m' = map (map_ram g) (gm_ram_blocks m)" "length (gm_nets m') = length (gm_nets m)"
    "\<And>n. n < length (gm_nets m) \<Longrightarrow> \<nexists>i. driver (gm_nets m ! n) = DCell i \<Longrightarrow> driver (gm_nets m' ! n) = driver (gm_nets m ! n)"
    "\<And>n i. n < length (gm_nets m) \<Longrightarrow> driver (gm_nets m ! n) = DCell i \<Longrightarrow>
       driver (gm_nets m' ! n) = Undriven \<or> (\<exists>j. driver (gm_nets m' ! n) = DCell j)"
    "computes_same g m m'"
proof -
  obtain st T where loop: "wl_loop (fold prepass_cell [0..<length (gm_cells m)]
      \<lparr>ws_module = m, ws_consumers = build_consumers m, ws_seen = Map.empty,
       ws_wl = rev [0..<length (gm_cells m)], ws_in_wl = replicate (length (gm_cells m)) True\<rparr>) = Some st"
    and inv: "sweep_inv m T st"
    using sweep_result [OF wf sd rk] by blast
  define m1 where "m1 = ws_module st"
  have frame: "same_frame m m1" and wf1: "wf_module m1" and sd1: "single_driver m1"
    and sat: "\<And>v. msat v m1 \<longleftrightarrow> msat v m" and w1: "weighted T m1"
    and sw: "swept m1"
    using inv by (auto simp: sweep_inv_def good_def swept_def m1_def)
  note f = same_frameD [OF frame]
  have sinks1: "sinks m1 = sinks m" using f by (simp add: sinks_def ram_inputs_def)
  let ?g = "resolved m1"
  have wf2: "wf_module (map_pins ?g m1)" using wf1 resolved_no_buf(2) [OF sw] by (rule map_pins_wf)
  have sd2: "single_driver (map_pins ?g m1)" using sd1 by (simp add: single_driver_def)
  have w2: "weighted T (map_pins ?g m1)" using w1 by (simp add: weighted_def)
  obtain m' where m': "drop_bufs (map_pins ?g m1) = Some m'"
    "m' = map_pins ?g m1\<lparr>gm_cells := filter (\<lambda>c. c_kind c \<noteq> Buf) (gm_cells m1), gm_nets := gm_nets m'\<rparr>"
    "length (gm_nets m') = length (gm_nets m1)"
    and keep: "\<And>n. n < length (gm_nets m1) \<Longrightarrow> \<nexists>i. driver (gm_nets m1 ! n) = DCell i \<Longrightarrow> driver (gm_nets m' ! n) = driver (gm_nets m1 ! n)"
    and drop: "\<And>n i. n < length (gm_nets m1) \<Longrightarrow> driver (gm_nets m1 ! n) = DCell i \<Longrightarrow>
       driver (gm_nets m' ! n) = Undriven \<or> (\<exists>j. driver (gm_nets m' ! n) = DCell j)"
    and wf': "wf_module m'" and sd': "single_driver m'" and rk': "ranked T m'"
    by (rule drop_bufs_ok [OF wf2 sd2 w2]) (rule that, simp_all)
  have "list_all (\<lambda>c. list_all (\<lambda>n. n < length (gm_nets m)) (c_inputs c)) (gm_cells m)"
    using wf by (auto simp: list_all_iff wf_module_def module_cell_wf_def)
  then have res: "worklist_simplify m = Some m'"
    using loop resolve_pins_ok [OF sw] m'(1) by (simp add: worklist_simplify_def Let_def m1_def)
  have cells: "gm_cells m' = filter (\<lambda>c. c_kind c \<noteq> Buf) (gm_cells m1)" by (subst m'(2)) simp
  have pins: "gm_ffs m' = map (map_ff ?g) (gm_ffs m)"
    "gm_ports m' = map (\<lambda>p. p\<lparr>gp_nets := map ?g (gp_nets p)\<rparr>) (gm_ports m)"
    "gm_ram_blocks m' = map (map_ram ?g) (gm_ram_blocks m)"
    by (subst m'(2), simp add: map_pins_def f(2-4))+
  have const: "driver (gm_nets m' ! n) = DConst b \<longleftrightarrow> driver (gm_nets m1 ! n) = DConst b" if n: "n < length (gm_nets m1)" for n b
  proof (cases "\<exists>i. driver (gm_nets m1 ! n) = DCell i")
    case True
    then obtain i where "driver (gm_nets m1 ! n) = DCell i" ..
    with drop [OF n this] show ?thesis by auto
  next
    case False
    from keep [OF n this] show ?thesis by simp
  qed
  have same: "computes_same ?g m m'"
    unfolding computes_same_def
  proof (intro conjI allI impI)
    fix v assume v: "msat v m"
    then have v1: "msat v m1" using sat by simp
    then show "msat v m'" using const cells m'(3) by (auto simp: msat_def)
    have "\<forall>n \<in> set (sinks m). n < length (gm_nets m1)" using wf f(1) by (simp add: wf_module_def)
    with resolved_no_buf(3) [OF sw _ v1] show "\<forall>n \<in> set (sinks m). v (?g n) = v n" by blast
  next
    fix w assume w: "msat w m'"
    have "msat (\<lambda>n. w (?g n)) m1"
    proof (rule msat_through_bufs [OF sw])
      show "w n = b" if "n < length (gm_nets m1)" "driver (gm_nets m1 ! n) = DConst b" for n b
        using w const [OF that(1)] that m'(3) by (simp add: msat_def)
      show "holds w (gm_cells m1 ! i)" if "i < length (gm_cells m1)" "kind_at m1 i \<noteq> Buf" for i
        using w that cells by (simp add: msat_def)
    qed
    then have "msat (\<lambda>n. w (?g n)) m" using sat by simp
    moreover have "w (?g n) = w n" if "n < length (gm_nets m)" "\<nexists>i. driver (gm_nets m ! n) = DCell i" for n
    proof -
      have "buf_source m1 n = None" using that f(1) by (simp add: buf_source_def split: net_driver.split)
      then show ?thesis by (simp add: resolved_def)
    qed
    ultimately show "\<exists>v. msat v m \<and> (\<forall>n \<in> set (sinks m). v n = w (?g n)) \<and>
        (\<forall>n < length (gm_nets m). (\<nexists>i. driver (gm_nets m ! n) = DCell i) \<longrightarrow> v n = w n)"
      by (intro exI [of _ "\<lambda>n. w (?g n)"]) blast
  qed
  have le: "length (gm_cells m') \<le> length (gm_cells m)" using cells f(5) by (metis length_filter_le)
  have nb: "no_bufs m'" by (simp add: no_bufs_def cells)
  have len: "length (gm_nets m') = length (gm_nets m)" using m'(3) f(1) by simp
  show ?thesis
    by (rule that [OF res wf' sd' rk' nb le pins len keep [unfolded f(1)] drop [unfolded f(1)] same])
qed

subsection \<open>Removing registers along the way\<close>

text \<open>
  What does not depend on an assignment: a flip-flop's Q, edge, reset value and reset kind.
\<close>

definition ff_static :: "ff_cell \<Rightarrow> net_id \<times> clock_edge \<times> bool \<times> (reset_polarity \<times> bool) option" where
  "ff_static f = (ff_q f, ff_clock_edge f, ff_reset_value f, map_option (\<lambda>r. (rs_polarity r, rs_sync r)) (ff_reset f))"

abbreviation dropped :: "bool list \<Rightarrow> 'a list \<Rightarrow> 'a list" where "dropped ks xs \<equiv> kept (map HOL.Not ks) xs"

text \<open>
  \<open>m'\<close> keeps the registers \<open>ks\<close> marks. The dropped ones have a reset, and as long as they hold
  their reset values everything observable of \<open>m'\<close> has the value it has in \<open>m\<close> and their own D
  inputs are their reset values: the dropped registers hold for ever.
\<close>

definition shrinks :: "bool list \<Rightarrow> gate_module \<Rightarrow> gate_module \<Rightarrow> bool" where
  "shrinks ks m m' \<longleftrightarrow> length ks = length (gm_ffs m) \<and>
     map ff_static (gm_ffs m') = map ff_static (kept ks (gm_ffs m)) \<and>
     (\<forall>f \<in> set (dropped ks (gm_ffs m)). ff_reset f \<noteq> None) \<and>
     (\<forall>v. msat v m \<longrightarrow> (\<forall>f \<in> set (dropped ks (gm_ffs m)). v (ff_q f) = ff_reset_value f) \<longrightarrow>
        msat v m' \<and>
        map (\<lambda>f. map v (ff_nets f)) (gm_ffs m') = map (\<lambda>f. map v (ff_nets f)) (kept ks (gm_ffs m)) \<and>
        map (\<lambda>p. map v (gp_nets p)) (gm_ports m') = map (\<lambda>p. map v (gp_nets p)) (gm_ports m) \<and>
        map v (ram_inputs m') = map v (ram_inputs m) \<and>
        (\<forall>f \<in> set (dropped ks (gm_ffs m)). v (ff_d f) = ff_reset_value f))"

lemma kept_simps [simp]:
  "kept (k # ks) (x # xs) = (if k then x # kept ks xs else kept ks xs)" "kept [] xs = []" "kept ks [] = []"
  by (simp_all add: kept_def)

lemma kept_map: "kept ks (map f xs) = map f (kept ks xs)"
proof (induction xs arbitrary: ks)
  case (Cons x xs)
  then show ?case by (cases ks) simp_all
qed simp

lemma kept_all: "kept (replicate (length xs) True) xs = xs" "kept (replicate (length xs) False) xs = []"
  by (induction xs) simp_all

fun narrow :: "bool list \<Rightarrow> bool list \<Rightarrow> bool list" where
  "narrow (True # ks) (b # bs) = b # narrow ks bs"
| "narrow (False # ks) bs = False # narrow ks bs"
| "narrow _ _ = []"

lemma narrow_ok:
  assumes "length ks = length xs" "length bs = length (kept ks xs)"
  shows "length (narrow ks bs) = length xs \<and> kept (narrow ks bs) xs = kept bs (kept ks xs) \<and>
    set (dropped (narrow ks bs) xs) = set (dropped ks xs) \<union> set (dropped bs (kept ks xs))"
  using assms
proof (induction ks arbitrary: xs bs)
  case (Cons k ks)
  then obtain x ys where xs: "xs = x # ys" by (cases xs) auto
  show ?case
  proof (cases k)
    case True
    with Cons.prems xs obtain b bs' where "bs = b # bs'" by (cases bs) auto
    with Cons.IH [of ys bs'] Cons.prems xs True show ?thesis by (cases b) auto
  next
    case False
    with Cons.IH [of ys bs] Cons.prems xs show ?thesis by auto
  qed
qed simp

lemma map_eq_kept:
  assumes "map f xs = map f ys"
  shows "map f (kept ks xs) = map f (kept ks ys)"
  using assms by (metis kept_map)

lemma in_map_eq: "map f xs = map f ys \<Longrightarrow> x \<in> set xs \<Longrightarrow> \<exists>y \<in> set ys. f x = f y"
  by (metis (no_types, lifting) image_iff list.set_map)

lemma map_pair_eq:
  assumes "map f xs = map f ys" "map g xs = map g ys"
  shows "map (\<lambda>x. (f x, g x)) xs = map (\<lambda>x. (f x, g x)) ys"
proof -
  have len: "length xs = length ys" using assms(1) by (rule map_eq_imp_length_eq)
  have "f (xs ! i) = f (ys ! i) \<and> g (xs ! i) = g (ys ! i)" if "i < length xs" for i
    using that len assms by (metis nth_map)
  with len show ?thesis by (intro nth_equalityI) simp_all
qed

lemma shrinks_trans:
  assumes 1: "shrinks ks m m1" and 2: "shrinks bs m1 m2"
  shows "shrinks (narrow ks bs) m m2"
proof -
  let ?x = "gm_ffs m" and ?y = "kept ks (gm_ffs m)" and ?z = "gm_ffs m1"
  have st: "map ff_static ?z = map ff_static ?y" using 1 by (simp add: shrinks_def)
  have len: "length bs = length ?y" using st 2 unfolding shrinks_def by (metis length_map)
  have n: "length (narrow ks bs) = length ?x" "kept (narrow ks bs) ?x = kept bs ?y"
    "set (dropped (narrow ks bs) ?x) = set (dropped ks ?x) \<union> set (dropped bs ?y)"
    using narrow_ok [OF _ len] 1 by (simp_all add: shrinks_def)
  have std: "map ff_static (dropped bs ?y) = map ff_static (dropped bs ?z)" by (rule map_eq_kept [OF st [symmetric]])
  have s: "ff_q f = ff_q g \<and> ff_reset_value f = ff_reset_value g \<and> (ff_reset f = None \<longleftrightarrow> ff_reset g = None)"
    if "ff_static f = ff_static g" for f g
    using that by (auto simp: ff_static_def map_option_case split: option.splits)
  have "map ff_static (gm_ffs m2) = map ff_static (kept (narrow ks bs) ?x)"
    using 2 map_eq_kept [OF st, of bs] by (simp add: shrinks_def n(2))
  moreover have "ff_reset f \<noteq> None" if f: "f \<in> set (dropped (narrow ks bs) ?x)" for f
  proof (cases "f \<in> set (dropped ks ?x)")
    case True
    with 1 show ?thesis by (simp add: shrinks_def)
  next
    case False
    with f n(3) have "f \<in> set (dropped bs ?y)" by blast
    from in_map_eq [OF std this] obtain g where "g \<in> set (dropped bs ?z)" "ff_static f = ff_static g" by blast
    with 2 s show ?thesis unfolding shrinks_def by metis
  qed
  moreover have "msat v m2 \<and>
      map (\<lambda>f. map v (ff_nets f)) (gm_ffs m2) = map (\<lambda>f. map v (ff_nets f)) (kept (narrow ks bs) ?x) \<and>
      map (\<lambda>p. map v (gp_nets p)) (gm_ports m2) = map (\<lambda>p. map v (gp_nets p)) (gm_ports m) \<and>
      map v (ram_inputs m2) = map v (ram_inputs m) \<and>
      (\<forall>f \<in> set (dropped (narrow ks bs) ?x). v (ff_d f) = ff_reset_value f)"
    if v: "msat v m" and d: "\<forall>f \<in> set (dropped (narrow ks bs) ?x). v (ff_q f) = ff_reset_value f" for v
  proof -
    have a: "msat v m1" "map (\<lambda>f. map v (ff_nets f)) ?z = map (\<lambda>f. map v (ff_nets f)) ?y"
      "map (\<lambda>p. map v (gp_nets p)) (gm_ports m1) = map (\<lambda>p. map v (gp_nets p)) (gm_ports m)"
      "map v (ram_inputs m1) = map v (ram_inputs m)"
      "\<forall>f \<in> set (dropped ks ?x). v (ff_d f) = ff_reset_value f"
      using 1 v d n(3) unfolding shrinks_def by blast+
    let ?p = "\<lambda>f. (ff_static f, map v (ff_nets f))"
    have "map ?p ?z = map ?p ?y"
      by (rule map_pair_eq [OF st a(2)])
    then have pd: "map ?p (dropped bs ?y) = map ?p (dropped bs ?z)" by (intro map_eq_kept) (rule sym)
    have "\<forall>g \<in> set (dropped bs ?z). v (ff_q g) = ff_reset_value g"
    proof
      fix g assume "g \<in> set (dropped bs ?z)"
      from in_map_eq [OF std [symmetric] this] obtain f where "f \<in> set (dropped bs ?y)" "ff_static g = ff_static f" by blast
      with d n(3) s show "v (ff_q g) = ff_reset_value g" by (metis UnCI)
    qed
    then have b: "msat v m2" "map (\<lambda>f. map v (ff_nets f)) (gm_ffs m2) = map (\<lambda>f. map v (ff_nets f)) (kept bs ?z)"
      "map (\<lambda>p. map v (gp_nets p)) (gm_ports m2) = map (\<lambda>p. map v (gp_nets p)) (gm_ports m1)"
      "map v (ram_inputs m2) = map v (ram_inputs m1)"
      "\<forall>f \<in> set (dropped bs ?z). v (ff_d f) = ff_reset_value f"
      using 2 a(1) unfolding shrinks_def by blast+
    have "v (ff_d f) = ff_reset_value f" if "f \<in> set (dropped bs ?y)" for f
    proof -
      from in_map_eq [OF pd that] obtain g where g: "g \<in> set (dropped bs ?z)"
        "ff_static f = ff_static g" "map v (ff_nets f) = map v (ff_nets g)" by blast
      then have "v (ff_d f) = v (ff_d g)" by (simp add: ff_nets_def)
      with b(5) g s show ?thesis by metis
    qed
    then have "\<forall>f \<in> set (dropped (narrow ks bs) ?x). v (ff_d f) = ff_reset_value f" using a(5) n(3) by blast
    moreover have "map (\<lambda>f. map v (ff_nets f)) (gm_ffs m2) = map (\<lambda>f. map v (ff_nets f)) (kept (narrow ks bs) ?x)"
      unfolding n(2) b(2) by (rule map_eq_kept [OF a(2)])
    ultimately show ?thesis using b(1) b(3) [unfolded a(3)] b(4) [unfolded a(4)] by blast
  qed
  ultimately show ?thesis using n(1) unfolding shrinks_def by blast
qed

lemma shrinks_pins:
  assumes "computes_same g m m'" "gm_ffs m' = map (map_ff g) (gm_ffs m)"
    "gm_ports m' = map (\<lambda>p. p\<lparr>gp_nets := map g (gp_nets p)\<rparr>) (gm_ports m)" "gm_ram_blocks m' = map (map_ram g) (gm_ram_blocks m)"
  shows "shrinks (replicate (length (gm_ffs m)) True) m m'"
proof -
  have "ff_static (map_ff g f) = ff_static f" for f by (simp add: ff_static_def map_ff_def option.map_comp comp_def)
  then have "map ff_static (gm_ffs m') = map ff_static (gm_ffs m)" by (simp add: assms(2))
  moreover have "map (\<lambda>f. map v (ff_nets f)) (gm_ffs m') = map (\<lambda>f. map v (ff_nets f)) (gm_ffs m) \<and>
      map (\<lambda>p. map v (gp_nets p)) (gm_ports m') = map (\<lambda>p. map v (gp_nets p)) (gm_ports m) \<and>
      map v (ram_inputs m') = map v (ram_inputs m)" if v: "msat v m" for v
  proof -
    have g: "v (g n) = v n" if "n \<in> set (sinks m)" for n using assms(1) v that by (simp add: computes_same_def)
    have "ff_nets (map_ff g f) = map g (ff_nets f)" for f by (simp add: ff_nets_def map_ff_def split: option.split)
    moreover have "map v (map g (ff_nets f)) = map v (ff_nets f)" if "f \<in> set (gm_ffs m)" for f
      using g that by (auto simp: sinks_def)
    moreover have "map v (map g (gp_nets q)) = map v (gp_nets q)" if "q \<in> set (gm_ports m)" for q
      using g that by (auto simp: sinks_def)
    moreover have "ram_inputs m' = map g (ram_inputs m)"
      using ram_inputs_map [of g m] assms(4) by (simp add: ram_inputs_def)
    moreover have "map v (map g (ram_inputs m)) = map v (ram_inputs m)" using g by (auto simp: sinks_def)
    ultimately show ?thesis by (simp add: assms(2,3))
  qed
  moreover have "msat v m \<Longrightarrow> msat v m'" for v using assms(1) by (simp add: computes_same_def)
  ultimately show ?thesis by (simp add: shrinks_def kept_all)
qed

lemma kept_not_filter: "kept (map P xs) xs = filter P xs"
  by (induction xs) simp_all

lemma shrinks_eliminate:
  assumes wf: "wf_module m" and ff: "ff_drivers_ok m" and e: "eliminate_dq_ffs m = Some m'"
  shows "shrinks (map (\<lambda>f. \<not> dq_ff f) (gm_ffs m)) m m'"
proof -
  have drop: "dropped (map (\<lambda>f. \<not> dq_ff f) (gm_ffs m)) (gm_ffs m) = filter dq_ff (gm_ffs m)"
    using kept_not_filter [of dq_ff "gm_ffs m"] by (simp add: comp_def)
  have static: "ff_static (alias_ff al f) = ff_static f" for al f
    by (simp add: ff_static_def alias_ff_def option.map_comp comp_def)
  have ffs: "gm_ffs m' = map (alias_ff (dq_alias m)) (filter (\<lambda>f. \<not> dq_ff f) (gm_ffs m))"
    by (rule eliminate_dq_ffs_result [OF ff]) (use e in simp)
  have vals: "msat v m' \<and> map (\<lambda>f. map v (ff_nets f)) (gm_ffs m') = map (\<lambda>f. map v (ff_nets f)) (filter (\<lambda>f. \<not> dq_ff f) (gm_ffs m)) \<and>
      map (\<lambda>p. map v (gp_nets p)) (gm_ports m') = map (\<lambda>p. map v (gp_nets p)) (gm_ports m) \<and>
      map v (ram_inputs m') = map v (ram_inputs m)"
    if v: "msat v m" and d: "\<forall>f \<in> set (filter dq_ff (gm_ffs m)). v (ff_q f) = ff_reset_value f" for v
  proof -
    have "rails_ok v" using const_nets_rails [OF wf] v by (simp add: msat_nth)
    then have r: "\<not> v NET_CONST0" "v NET_CONST1" by simp_all
    have "\<forall>f \<in> set (gm_ffs m). dq_ff f \<longrightarrow> v (ff_q f) = ff_reset_value f" using d by simp
    from eliminate_dq_ffs_values [OF ff r this e] v show ?thesis by simp
  qed
  show ?thesis
    unfolding shrinks_def drop kept_not_filter
    using vals by (simp add: ffs static comp_def) (simp add: dq_ff_def)
qed

subsection \<open>Convergence\<close>

definition closed_module :: "gate_module \<Rightarrow> bool" where
  "closed_module m \<longleftrightarrow> wf_module m \<and> single_driver m \<and> ff_drivers_ok m \<and> (\<exists>r. ranked r m)"

lemma worklist_ff_drivers:
  assumes "ff_drivers_ok m" "wf_module m" and ffs: "gm_ffs m' = map (map_ff g) (gm_ffs m)"
    and len: "length (gm_nets m') = length (gm_nets m)"
    and keep: "\<And>n. n < length (gm_nets m) \<Longrightarrow> \<nexists>i. driver (gm_nets m ! n) = DCell i \<Longrightarrow> driver (gm_nets m' ! n) = driver (gm_nets m ! n)"
    and drop: "\<And>n i. n < length (gm_nets m) \<Longrightarrow> driver (gm_nets m ! n) = DCell i \<Longrightarrow>
       driver (gm_nets m' ! n) = Undriven \<or> (\<exists>j. driver (gm_nets m' ! n) = DCell j)"
  shows "ff_drivers_ok m'"
  unfolding ff_drivers_ok_def
proof (intro allI impI)
  fix n i assume n: "n < length (gm_nets m')" and d: "driver (gm_nets m' ! n) = FfQ i"
  have n': "n < length (gm_nets m)" using n len by simp
  have "\<nexists>j. driver (gm_nets m ! n) = DCell j"
  proof
    assume "\<exists>j. driver (gm_nets m ! n) = DCell j"
    then obtain j where "driver (gm_nets m ! n) = DCell j" ..
    from drop [OF n' this] d show False by auto
  qed
  from keep [OF n' this] d have "driver (gm_nets m ! n) = FfQ i" by simp
  with assms(1) n' have "i < length (gm_ffs m) \<and> ff_q (gm_ffs m ! i) = n" by (simp add: ff_drivers_ok_def)
  then show "i < length (gm_ffs m') \<and> ff_q (gm_ffs m' ! i) = n" by (simp add: ffs map_ff_def)
qed

text \<open>The nets keep their number, and a net no cell drives stays such a net.\<close>

definition same_sources :: "gate_module \<Rightarrow> gate_module \<Rightarrow> bool" where
  "same_sources m m' \<longleftrightarrow> length (gm_nets m') = length (gm_nets m) \<and> (\<forall>n. source m n \<longrightarrow> source m' n)"

lemma same_sources_trans: "same_sources a b \<Longrightarrow> same_sources b c \<Longrightarrow> same_sources a c"
  by (simp add: same_sources_def)

lemma same_sources_eliminate:
  assumes "ff_drivers_ok m" "eliminate_dq_ffs m = Some m'"
  shows "same_sources m m'"
proof -
  obtain m2 where m2: "eliminate_dq_ffs m = Some m2" "length (gm_nets m2) = length (gm_nets m)"
    "\<And>n. n < length (gm_nets m) \<Longrightarrow> \<nexists>i. driver (gm_nets m ! n) = FfQ i \<Longrightarrow> driver (gm_nets m2 ! n) = driver (gm_nets m ! n)"
    "\<And>n i. n < length (gm_nets m) \<Longrightarrow> driver (gm_nets m ! n) = FfQ i \<Longrightarrow>
       (if dq_ff (gm_ffs m ! i) then driver (gm_nets m2 ! n) = Undriven
        else \<exists>j < length (gm_ffs m2). driver (gm_nets m2 ! n) = FfQ j \<and> gm_ffs m2 ! j = alias_ff (dq_alias m) (gm_ffs m ! i))"
    by (rule eliminate_dq_ffs_result [OF assms(1)]) (rule that)
  have "source m2 n" if "source m n" for n
  proof (cases "\<exists>i. driver (gm_nets m ! n) = FfQ i")
    case True
    then obtain i where "driver (gm_nets m ! n) = FfQ i" by blast
    from m2(4) [OF _ this] that m2(2) show ?thesis by (auto simp: source_def split: if_splits)
  next
    case False
    with m2(3) [of n] that m2(2) show ?thesis by (simp add: source_def)
  qed
  with m2(1,2) assms(2) show ?thesis by (simp add: same_sources_def)
qed

lemma converge_step:
  assumes "closed_module m"
  obtains m1 m2 ks where "worklist_simplify m = Some m1" "eliminate_dq_ffs m1 = Some m2" "closed_module m2" "shrinks ks m m2"
    "no_bufs m2" "length (gm_cells m2) \<le> length (gm_cells m)" "length (gm_ffs m2) \<le> length (gm_ffs m)" "same_sources m m2"
proof -
  obtain r where wf: "wf_module m" "single_driver m" and ff: "ff_drivers_ok m" and r: "ranked r m"
    using assms by (auto simp: closed_module_def)
  obtain m1 g T where m1: "worklist_simplify m = Some m1" "wf_module m1" "single_driver m1" "ranked T m1" "no_bufs m1"
    "length (gm_cells m1) \<le> length (gm_cells m)" "gm_ffs m1 = map (map_ff g) (gm_ffs m)"
    "gm_ports m1 = map (\<lambda>p. p\<lparr>gp_nets := map g (gp_nets p)\<rparr>) (gm_ports m)"
    "gm_ram_blocks m1 = map (map_ram g) (gm_ram_blocks m)" "length (gm_nets m1) = length (gm_nets m)"
    and keep: "\<And>n. n < length (gm_nets m) \<Longrightarrow> \<nexists>i. driver (gm_nets m ! n) = DCell i \<Longrightarrow> driver (gm_nets m1 ! n) = driver (gm_nets m ! n)"
    and drop: "\<And>n i. n < length (gm_nets m) \<Longrightarrow> driver (gm_nets m ! n) = DCell i \<Longrightarrow>
       driver (gm_nets m1 ! n) = Undriven \<or> (\<exists>j. driver (gm_nets m1 ! n) = DCell j)"
    and same: "computes_same g m m1"
    by (rule worklist_simplify_result [OF wf r]) (rule that)
  have ff1: "ff_drivers_ok m1" by (rule worklist_ff_drivers [OF ff wf(1) m1(7,10) keep drop])
  obtain m2 where e: "eliminate_dq_ffs m1 = Some m2" and cells: "gm_cells m2 = map (\<lambda>c. c\<lparr>c_inputs := map (aliased (dq_alias m1)) (c_inputs c)\<rparr>) (gm_cells m1)"
    and ffs: "gm_ffs m2 = map (alias_ff (dq_alias m1)) (filter (\<lambda>f. \<not> dq_ff f) (gm_ffs m1))"
    by (rule eliminate_dq_ffs_result [OF ff1]) (rule that)
  have wf2: "wf_module m2" "single_driver m2" "\<exists>r'. ranked r' m2"
    using eliminate_dq_ffs_wf [OF m1(2) ff1 e] m1(3,4) by blast+
  have ff2: "ff_drivers_ok m2" by (rule eliminate_dq_ffs_drivers [OF ff1 e])
  have "shrinks (narrow (replicate (length (gm_ffs m)) True) (map (\<lambda>f. \<not> dq_ff f) (gm_ffs m1))) m m2"
    by (rule shrinks_trans [OF shrinks_pins [OF same m1(7,8,9)] shrinks_eliminate [OF m1(2) ff1 e]])
  moreover have "no_bufs m2" using m1(5) by (simp add: no_bufs_def cells)
  moreover have "length (gm_ffs m2) \<le> length (gm_ffs m)" using m1(7) by (simp add: ffs)
  moreover have "same_sources m m1" using m1(10) keep by (simp add: same_sources_def source_def)
  then have "same_sources m m2" using same_sources_eliminate [OF ff1 e] by (rule same_sources_trans)
  ultimately show ?thesis using that m1(1,6) e wf2 ff2 cells by (simp add: closed_module_def)
qed

lemma converge_simplify_result:
  assumes "closed_module m"
  shows "\<exists>m' ks. converge_simplify m = Some m' \<and> closed_module m' \<and> shrinks ks m m' \<and> no_bufs m' \<and>
    length (gm_cells m') \<le> length (gm_cells m) \<and> same_sources m m'"
  using assms
proof (induction "length (gm_cells m) + length (gm_ffs m)" arbitrary: m rule: less_induct)
  case less
  obtain m1 m2 ks where s: "worklist_simplify m = Some m1" "eliminate_dq_ffs m1 = Some m2" "closed_module m2" "shrinks ks m m2"
    "no_bufs m2" "length (gm_cells m2) \<le> length (gm_cells m)" "length (gm_ffs m2) \<le> length (gm_ffs m)" "same_sources m m2"
    by (rule converge_step [OF less.prems])
  show ?case
  proof (cases "length (gm_cells m2) = length (gm_cells m) \<and> length (gm_ffs m2) = length (gm_ffs m)")
    case True
    then have "converge_simplify m = Some m2" using s(1,2) by (simp add: converge_simplify.simps)
    with s show ?thesis by blast
  next
    case False
    then have step: "converge_simplify m = converge_simplify m2" using s(1,2) by (subst converge_simplify.simps) auto
    have "length (gm_cells m2) + length (gm_ffs m2) < length (gm_cells m) + length (gm_ffs m)" using False s(6,7) by linarith
    from less.hyps [OF this s(3)] obtain m' bs where "converge_simplify m2 = Some m'" "closed_module m'" "shrinks bs m2 m'"
      "no_bufs m'" "length (gm_cells m') \<le> length (gm_cells m2)" "same_sources m2 m'" by blast
    with step shrinks_trans [OF s(4)] same_sources_trans [OF s(8)] s(6) show ?thesis by (metis le_trans)
  qed
qed

subsection \<open>Properties\<close>

text \<open>
  C2: the worklist pass always ends on a well-formed module with one driver per net and no
  combinational cycle, and its result computes what the module computed: with the pins renamed
  by one function of nets, every assignment of the module is one of the result with equal pin
  values, and every assignment of the result comes from one of the module with the same values
  at its pins and at every net no cell drives.
\<close>

theorem worklist_simplify_equiv:
  assumes "wf_module m" "single_driver m" "ranked r m"
  shows "\<exists>m' g. worklist_simplify m = Some m' \<and> computes_same g m m' \<and> sinks m' = map g (sinks m) \<and>
    map ff_static (gm_ffs m') = map ff_static (gm_ffs m)"
proof -
  obtain m' g T where m': "worklist_simplify m = Some m'" "wf_module m'" "single_driver m'" "ranked T m'" "no_bufs m'"
    "length (gm_cells m') \<le> length (gm_cells m)" "gm_ffs m' = map (map_ff g) (gm_ffs m)"
    "gm_ports m' = map (\<lambda>p. p\<lparr>gp_nets := map g (gp_nets p)\<rparr>) (gm_ports m)"
    "gm_ram_blocks m' = map (map_ram g) (gm_ram_blocks m)" and same: "computes_same g m m'"
    by (rule worklist_simplify_result [OF assms]) (rule that)
  have "sinks m' = sinks (map_pins g m)" by (simp add: sinks_def ram_inputs_def m'(7-9)) (simp add: map_pins_def)
  moreover have "ff_static (map_ff g f) = ff_static f" for f by (simp add: ff_static_def map_ff_def option.map_comp comp_def)
  ultimately show ?thesis using m'(1,7) same by (intro exI [of _ m'] exI [of _ g]) (simp add: sinks_map_pins)
qed

text \<open>
  C3: the result of the worklist pass is again well formed, with one driver per net and no
  combinational cycle, contains no buffer, has no more cells than its input, and keeps the driver
  of every net that no cell drives.
\<close>

theorem worklist_simplify_invariant:
  assumes "wf_module m" "single_driver m" "ranked r m" "worklist_simplify m = Some m'"
  shows "wf_module m' \<and> single_driver m' \<and> (\<exists>r'. ranked r' m') \<and> (\<forall>c \<in> set (gm_cells m'). c_kind c \<noteq> Buf) \<and>
    length (gm_cells m') \<le> length (gm_cells m) \<and>
    (\<forall>n < length (gm_nets m). (\<nexists>i. driver (gm_nets m ! n) = DCell i) \<longrightarrow>
       driver (gm_nets m' ! n) = driver (gm_nets m ! n))"
proof -
  obtain m2 g T where m2: "worklist_simplify m = Some m2" "wf_module m2" "single_driver m2" "ranked T m2" "no_bufs m2"
    "length (gm_cells m2) \<le> length (gm_cells m)"
    and keep: "\<And>n. n < length (gm_nets m) \<Longrightarrow> \<nexists>i. driver (gm_nets m ! n) = DCell i \<Longrightarrow> driver (gm_nets m2 ! n) = driver (gm_nets m ! n)"
    by (rule worklist_simplify_result [OF assms(1-3)]) (rule that)
  have "m2 = m'" using m2(1) assms(4) by simp
  with m2 keep show ?thesis unfolding no_bufs_def by blast
qed


subsection \<open>The properties at a concrete module\<close>

lemma demo_single_driver: "single_driver demo_module"
  by (simp add: single_driver_def demo_simps)

theorem worklist_simplify_equiv_witness:
  "\<exists>m' g. worklist_simplify demo_module = Some m' \<and> computes_same g demo_module m'"
  using worklist_simplify_equiv [OF demo_wf demo_single_driver demo_ranked] by blast

theorem worklist_simplify_invariant_witness:
  "\<exists>m'. worklist_simplify demo_module = Some m' \<and> wf_module m' \<and> (\<forall>c \<in> set (gm_cells m'). c_kind c \<noteq> Buf)"
proof -
  obtain m' where m': "worklist_simplify demo_module = Some m'"
    by (rule worklist_simplify_result [OF demo_wf demo_single_driver demo_ranked]) (rule that)
  from worklist_simplify_invariant [OF demo_wf demo_single_driver demo_ranked m'] m' show ?thesis by blast
qed


end
