(* ===== verification/Balance.thy ===== *)
theory Balance
  imports Grow
begin

section \<open>Rebalancing of associative chains (\<open>conv/balance.rs\<close>)\<close>

text \<open>
  \<open>balance_assoc_chains\<close>: trees of one associative operator whose inner nodes have a single
  reader are rebuilt, the two earliest operands first.  An index out of range is a panic
  (\<open>None\<close>).  The two walks over a stack do not end on a cyclic netlist and are partial
  functions; the top of a stack is the head of its list.  A binary heap of reversed pairs is
  the list of its pairs in ascending order; \<open>u32::MAX\<close>, the mark of an unvisited net and of a
  missing reader, is \<open>None\<close>.
\<close>

definition MIN_CHAIN_LEAVES :: nat where "MIN_CHAIN_LEAVES = 8"

subsection \<open>Levels\<close>

fun first_pending :: "nat option list \<Rightarrow> net_id list \<Rightarrow> net_id option option" where
  "first_pending level [] = Some None"
| "first_pending level (inp # inps) = do {
     l \<leftarrow> nth_opt level inp;
     if l = None then Some (Some inp) else first_pending level inps
   }"

definition fold_level :: "nat option list \<Rightarrow> cell \<Rightarrow> nat" where
  "fold_level level c = fold max (map (\<lambda>i. the (level ! i)) (c_inputs c)) 0 + of_bool (c_kind c \<noteq> Buf)"

partial_function (option) level_loop :: "gate_module \<Rightarrow> net_id list \<Rightarrow> nat option list \<Rightarrow> nat option list option" where
  "level_loop m stack level =
     (case stack of
        [] \<Rightarrow> Some level
      | net # rest \<Rightarrow> do {
          d \<leftarrow> driver_at m net;
          (case d of
             DCell ci \<Rightarrow> do {
               c \<leftarrow> cell_at m ci;
               p \<leftarrow> first_pending level (c_inputs c);
               (case p of
                  Some inp \<Rightarrow> level_loop m (inp # stack) level
                | None \<Rightarrow> level_loop m rest (level[net := Some (fold_level level c)]))
             }
           | _ \<Rightarrow> level_loop m rest (level[net := Some 0]))
        })"

declare level_loop.simps [code]

definition level_from :: "gate_module \<Rightarrow> nat \<Rightarrow> nat option list \<Rightarrow> nat option list option" where
  "level_from m start level = (if level ! start \<noteq> None then Some level else level_loop m [start] level)"

definition compute_levels :: "gate_module \<Rightarrow> nat option list option" where
  "compute_levels m = fold_opt (level_from m) [0..<length (gm_nets m)] (replicate (length (gm_nets m)) None)"

subsection \<open>Fan-out\<close>

record fanout =
  fo_count :: "nat list"
  fo_consumer :: "nat option list"
  fo_non_cell :: "bool list"

definition count_reader :: "nat \<Rightarrow> net_id \<Rightarrow> fanout \<Rightarrow> fanout option" where
  "count_reader ci inp f =
     (if inp < length (fo_count f)
      then Some (f\<lparr>fo_count := (fo_count f)[inp := fo_count f ! inp + 1], fo_consumer := (fo_consumer f)[inp := Some ci]\<rparr>)
      else None)"

definition mark_non_cell :: "net_id \<Rightarrow> fanout \<Rightarrow> fanout option" where
  "mark_non_cell net f =
     (if net < length (fo_count f)
      then Some (f\<lparr>fo_count := (fo_count f)[net := fo_count f ! net + 1], fo_non_cell := (fo_non_cell f)[net := True]\<rparr>)
      else None)"

definition compute_fanout :: "gate_module \<Rightarrow> fanout option" where
  "compute_fanout m = do {
     let n = length (gm_nets m);
     f \<leftarrow> fold_opt (\<lambda>(ci, c). fold_opt (count_reader ci) (c_inputs c)) (enumerate 0 (gm_cells m))
        \<lparr>fo_count = replicate n 0, fo_consumer = replicate n None, fo_non_cell = replicate n False\<rparr>;
     f \<leftarrow> fold_opt mark_non_cell (concat (map ff_nets (gm_ffs m))) f;
     f \<leftarrow> fold_opt mark_non_cell (concat (map gp_nets (gm_ports m))) f;
     fold_opt mark_non_cell (snd (run_state (for_each_ram_input_net m (collect id)) [])) f
   }"

definition single_reader :: "fanout \<Rightarrow> net_id \<Rightarrow> bool option" where
  "single_reader f net = do {
     k \<leftarrow> nth_opt (fo_count f) net;
     nc \<leftarrow> nth_opt (fo_non_cell f) net;
     Some (k = 1 \<and> \<not> nc)
   }"

definition producer_dissolvable :: "fanout \<Rightarrow> net_id \<Rightarrow> cell_kind \<Rightarrow> gate_module \<Rightarrow> nat option option" where
  "producer_dissolvable f net k m = do {
     one \<leftarrow> single_reader f net;
     if \<not> one then Some None
     else do {
       d \<leftarrow> driver_at m net;
       (case d of
          DCell di \<Rightarrow> do { c \<leftarrow> cell_at m di; Some (if c_kind c = k then Some di else None) }
        | _ \<Rightarrow> Some None)
     }
   }"

definition is_interior_node :: "fanout \<Rightarrow> nat \<Rightarrow> gate_module \<Rightarrow> bool option" where
  "is_interior_node f ci m = do {
     c \<leftarrow> cell_at m ci;
     one \<leftarrow> single_reader f (c_output c);
     if \<not> one then Some False
     else do {
       r \<leftarrow> fo_consumer f ! c_output c;
       d \<leftarrow> cell_at m r;
       Some (c_kind d = c_kind c)
     }
   }"

subsection \<open>Rebuilding a chain\<close>

partial_function (option) gather :: "gate_module \<Rightarrow> fanout \<Rightarrow> cell_kind \<Rightarrow> net_id list \<Rightarrow> net_id list \<Rightarrow> net_id list option" where
  "gather m f k stack leaves =
     (case stack of
        [] \<Rightarrow> Some leaves
      | net # stack \<Rightarrow> do {
          p \<leftarrow> producer_dissolvable f net k m;
          (case p of
             Some di \<Rightarrow> do { c \<leftarrow> cell_at m di; gather m f k (rev (c_inputs c) @ stack) leaves }
           | None \<Rightarrow> gather m f k stack (leaves @ [net]))
        })"

declare gather.simps [code]

fun heap_push :: "nat \<times> net_id \<Rightarrow> (nat \<times> net_id) list \<Rightarrow> (nat \<times> net_id) list" where
  "heap_push p [] = [p]"
| "heap_push p (q # qs) = (if fst p < fst q \<or> fst p = fst q \<and> snd p \<le> snd q then p # q # qs else q # heap_push p qs)"

fun combine :: "cell_kind \<Rightarrow> nat \<Rightarrow> nat \<Rightarrow> (nat \<times> net_id) list \<Rightarrow> gate_module \<Rightarrow> gate_module option" where
  "combine k root 0 heap m = Some m"
| "combine k root (Suc remaining) heap m =
     (case heap of
        (la, na) # (lb, nb) # heap \<Rightarrow>
          if remaining = 0 then do {
            c \<leftarrow> cell_at m root;
            Some (m\<lparr>gm_cells := (gm_cells m)[root := c\<lparr>c_inputs := [na, nb]\<rparr>]\<rparr>)
          }
          else (case push_gate k [na, nb] m of (net, m) \<Rightarrow> combine k root remaining (heap_push (max la lb + 1, net) heap) m)
      | _ \<Rightarrow> None)"

definition rebalance_chain :: "fanout \<Rightarrow> nat option list \<Rightarrow> nat \<Rightarrow> gate_module \<times> bool \<Rightarrow> (gate_module \<times> bool) option" where
  "rebalance_chain f level root st = (case st of (m, changed) \<Rightarrow> do {
     c \<leftarrow> cell_at m root;
     leaves \<leftarrow> gather m f (c_kind c) (rev (c_inputs c)) [];
     if length leaves < MIN_CHAIN_LEAVES then Some (m, changed)
     else do {
       ls \<leftarrow> those (map (\<lambda>n. do { l \<leftarrow> nth_opt level n; l \<leftarrow> l; Some (l, n) }) leaves);
       m \<leftarrow> combine (c_kind c) root (length leaves - 1) (fold heap_push ls []) m;
       Some (m, True)
     }
   })"

definition find_roots :: "fanout \<Rightarrow> gate_module \<Rightarrow> nat list option" where
  "find_roots f m = do {
     bs \<leftarrow> those (map (\<lambda>(i, c). if is_assoc (c_kind c) then map_option HOL.Not (is_interior_node f i m) else Some False)
        (enumerate 0 (gm_cells m)));
     Some (map fst (filter snd (enumerate 0 bs)))
   }"

definition balance_assoc_chains :: "gate_module \<Rightarrow> (gate_module \<times> bool) option" where
  "balance_assoc_chains m = do {
     f \<leftarrow> compute_fanout m;
     level \<leftarrow> compute_levels m;
     roots \<leftarrow> find_roots f m;
     fold_opt (rebalance_chain f level) roots (m, False)
   }"

end
