(* ===== verification/Balance_Levels.thy ===== *)
theory Balance_Levels
  imports Balance
begin

section \<open>Levels of the nets\<close>

text \<open>
  The iterative level walk ends on an acyclic module and computes the longest path in gates
  to every net.
\<close>

text \<open>The visited nets have their level, computed from visited inputs.\<close>

definition level_eq :: "gate_module \<Rightarrow> nat option list \<Rightarrow> nat \<Rightarrow> bool" where
  "level_eq m level n \<longleftrightarrow> (\<forall>l. level ! n = Some l \<longrightarrow>
     (case driver (gm_nets m ! n) of
        DCell ci \<Rightarrow> (\<forall>x \<in> set (c_inputs (gm_cells m ! ci)). level ! x \<noteq> None) \<and> l = fold_level level (gm_cells m ! ci)
      | _ \<Rightarrow> l = 0))"

definition levels_ok :: "gate_module \<Rightarrow> nat option list \<Rightarrow> bool" where
  "levels_ok m level \<longleftrightarrow> length level = length (gm_nets m) \<and> (\<forall>n < length (gm_nets m). level_eq m level n)"

definition level_extends :: "nat option list \<Rightarrow> nat option list \<Rightarrow> bool" where
  "level_extends level level' \<longleftrightarrow> (\<forall>n < length level. level ! n \<noteq> None \<longrightarrow> level' ! n = level ! n)"

lemma level_extends_refl: "level_extends level level"
  by (simp add: level_extends_def)

lemma level_extends_trans: "level_extends a b \<Longrightarrow> level_extends b c \<Longrightarrow> length a = length b \<Longrightarrow> level_extends a c"
  by (auto simp: level_extends_def)

lemma first_pending_spec:
  assumes "\<And>x. x \<in> set inps \<Longrightarrow> x < length level"
  shows "\<exists>p. first_pending level inps = Some p \<and> (case p of
    None \<Rightarrow> \<forall>x \<in> set inps. level ! x \<noteq> None | Some x \<Rightarrow> x \<in> set inps \<and> level ! x = None)"
  using assms
proof (induction inps)
  case (Cons x inps)
  then obtain p where "first_pending level inps = Some p" "case p of
    None \<Rightarrow> \<forall>x \<in> set inps. level ! x \<noteq> None | Some x \<Rightarrow> x \<in> set inps \<and> level ! x = None" by auto
  then show ?case using Cons.prems by (cases "level ! x"; cases p) auto
qed simp

lemma fold_level_cong:
  assumes "\<And>x. x \<in> set (c_inputs c) \<Longrightarrow> level' ! x = level ! x"
  shows "fold_level level' c = fold_level level c"
proof -
  have eq: "map (\<lambda>i. the (level' ! i)) (c_inputs c) = map (\<lambda>i. the (level ! i)) (c_inputs c)" using assms by simp
  show ?thesis unfolding fold_level_def eq ..
qed

text \<open>Visiting a net whose inputs are visited.\<close>

lemma levels_visit:
  assumes ok: "levels_ok m level" and wf: "wf_module m" and n: "n < length (gm_nets m)"
    and l: "case driver (gm_nets m ! n) of
        DCell ci \<Rightarrow> (\<forall>x \<in> set (c_inputs (gm_cells m ! ci)). level ! x \<noteq> None) \<and> l = fold_level level (gm_cells m ! ci)
      | _ \<Rightarrow> l = 0"
  shows "levels_ok m (level[n := Some l])" "level_extends level (level[n := Some l])"
proof -
  have len: "length level = length (gm_nets m)" using ok by (simp add: levels_ok_def)
  have same: "level[n := Some l] = level" if s: "level ! n \<noteq> None"
  proof -
    obtain k where "level ! n = Some k" using s by blast
    moreover have "level_eq m level n" using ok n by (simp add: levels_ok_def)
    ultimately have "k = l" using l by (cases "driver (gm_nets m ! n)") (simp_all add: level_eq_def)
    then show ?thesis using \<open>level ! n = Some k\<close> list_update_id [of level n] by simp
  qed
  show ext: "level_extends level (level[n := Some l])"
  proof (cases "level ! n = None")
    case True
    have "level[n := Some l] ! k = level ! k" if "level ! k \<noteq> None" for k using that True by (cases "k = n") simp_all
    then show ?thesis by (simp add: level_extends_def)
  qed (use same level_extends_refl in simp)
  show "levels_ok m (level[n := Some l])"
  proof (cases "level ! n = None")
    case True
    have "level_eq m (level[n := Some l]) k" if k: "k < length (gm_nets m)" for k
    proof -
      have ins: "x < length level" if "driver (gm_nets m ! k) = DCell ci" "x \<in> set (c_inputs (gm_cells m ! ci))" for ci x
        using wf_module_inputs [OF wf, of ci x] wf_module_driver [OF wf k] that len by simp
      have keep: "level[n := Some l] ! x = level ! x" if "level ! x \<noteq> None" "x < length level" for x
        using ext that by (auto simp: level_extends_def)
      have eq: "fold_level (level[n := Some l]) (gm_cells m ! ci) = fold_level level (gm_cells m ! ci)"
        if "driver (gm_nets m ! k) = DCell ci" "\<forall>x \<in> set (c_inputs (gm_cells m ! ci)). level ! x \<noteq> None" for ci
        by (rule fold_level_cong) (use keep that ins in blast)
      show ?thesis
      proof (cases "k = n")
        case kn: True
        then show ?thesis
          using l len n eq keep ins by (auto simp: level_eq_def split: net_driver.split)
      next
        case False
        then have kk: "level[n := Some l] ! k = level ! k" by simp
        have "level_eq m level k" using ok k by (simp add: levels_ok_def)
        then show ?thesis
          using eq keep ins unfolding level_eq_def kk by (cases "driver (gm_nets m ! k)") auto
      qed
    qed
    then show ?thesis using len by (simp add: levels_ok_def)
  qed (use same ok in simp)
qed

lemma level_walk:
  assumes wf: "wf_module m" and rk: "ranked r m" and "net < length (gm_nets m)" "levels_ok m level"
  shows "\<exists>level'. level_loop m (net # stack) level = level_loop m stack level' \<and> levels_ok m level' \<and> level_extends level level' \<and> level' ! net \<noteq> None"
  using assms(3,4)
proof (induction "r net" arbitrary: net level stack rule: less_induct)
  case less
  note IH = less.hyps
  have len: "length level = length (gm_nets m)" using less.prems(2) by (simp add: levels_ok_def)
  show ?case
  proof (cases "driver (gm_nets m ! net)")
    case (DCell ci)
    have ci: "ci < length (gm_cells m)" "c_output (gm_cells m ! ci) = net" using wf_module_driver [OF wf less.prems(1) DCell] by simp_all
    let ?ins = "c_inputs (gm_cells m ! ci)"
    have ins: "x < length (gm_nets m)" "r x < r net" if "x \<in> set ?ins" for x
      using wf_module_inputs [OF wf ci(1) that] rk less.prems(1) DCell that by (auto simp: ranked_def)
    have "\<exists>level'. level_loop m (net # stack) level = level_loop m stack level' \<and> levels_ok m level' \<and> level_extends level level' \<and> level' ! net \<noteq> None"
      if "levels_ok m level" for level
      using that
    proof (induction "card {x \<in> set ?ins. level ! x = None}" arbitrary: level rule: less_induct)
      case (less level)
      have len': "length level = length (gm_nets m)" using less.prems by (simp add: levels_ok_def)
      obtain p where p: "first_pending level ?ins = Some p" "case p of
          None \<Rightarrow> \<forall>x \<in> set ?ins. level ! x \<noteq> None | Some x \<Rightarrow> x \<in> set ?ins \<and> level ! x = None"
        using first_pending_spec [of ?ins level] ins(1) len' by auto
      have unfold: "level_loop m (net # stack) level = (case p of Some inp \<Rightarrow> level_loop m (inp # net # stack) level
          | None \<Rightarrow> level_loop m stack (level[net := Some (fold_level level (gm_cells m ! ci))]))"
        using p(1) ci(1) \<open>net < length (gm_nets m)\<close> DCell by (simp add: level_loop.simps [of m "net # stack"] driver_at_def cell_at_def)
      show ?case
      proof (cases p)
        case None
        then have "\<forall>x \<in> set ?ins. level ! x \<noteq> None" using p(2) by simp
        then show ?thesis
          using levels_visit [OF less.prems wf \<open>net < length (gm_nets m)\<close>, of "fold_level level (gm_cells m ! ci)"] DCell None unfold
            len' \<open>net < length (gm_nets m)\<close> by auto
      next
        case (Some inp)
        then have inp: "inp \<in> set ?ins" "level ! inp = None" using p(2) by simp_all
        obtain l1 where l1: "level_loop m (inp # net # stack) level = level_loop m (net # stack) l1" "levels_ok m l1" "level_extends level l1" "l1 ! inp \<noteq> None"
          using IH [OF ins(2) [OF inp(1)] ins(1) [OF inp(1)] less.prems] by blast
        have "{x \<in> set ?ins. l1 ! x = None} \<subset> {x \<in> set ?ins. level ! x = None}"
        proof
          show "{x \<in> set ?ins. l1 ! x = None} \<subseteq> {x \<in> set ?ins. level ! x = None}"
            using l1(3) ins(1) len' unfolding level_extends_def by (auto, metis option.distinct(1))
          show "{x \<in> set ?ins. l1 ! x = None} \<noteq> {x \<in> set ?ins. level ! x = None}" using l1(4) inp by (metis (mono_tags, lifting) mem_Collect_eq)
        qed
        then have "card {x \<in> set ?ins. l1 ! x = None} < card {x \<in> set ?ins. level ! x = None}" by (intro psubset_card_mono) auto
        from less.hyps [OF this l1(2)] obtain l2 where "level_loop m (net # stack) l1 = level_loop m stack l2" "levels_ok m l2" "level_extends l1 l2" "l2 ! net \<noteq> None"
          by blast
        then show ?thesis using l1 Some unfold level_extends_trans [OF l1(3)] len' by (auto simp: levels_ok_def)
      qed
    qed
    then show ?thesis using less.prems(2) by blast
  qed (use levels_visit [OF less.prems(2) wf less.prems(1), of 0] less.prems(1) len in
      \<open>auto simp: level_loop.simps [of m "net # stack"] driver_at_def\<close>)
qed

lemma compute_levels_spec:
  assumes wf: "wf_module m" and rk: "ranked r m"
  shows "\<exists>level. compute_levels m = Some level \<and> levels_ok m level \<and> (\<forall>n < length (gm_nets m). level ! n \<noteq> None)"
proof -
  let ?N = "length (gm_nets m)"
  let ?P = "\<lambda>k level. levels_ok m level \<and> (\<forall>n < k. level ! n \<noteq> None)"
  have "\<exists>l'. level_from m k level = Some l' \<and> ?P (Suc k) l'" if k: "k < ?N" and p: "?P k level" for k level
  proof (cases "level ! k = None")
    case True
    obtain l' where l': "level_loop m [k] level = level_loop m [] l'" "levels_ok m l'" "level_extends level l'" "l' ! k \<noteq> None"
      using level_walk [OF wf rk k] p by blast
    have "l' ! n \<noteq> None" if "n < Suc k" for n
      using that l'(3,4) p k by (cases "n = k") (auto simp: level_extends_def levels_ok_def)
    then show ?thesis using True l' by (auto simp: level_from_def level_loop.simps [of m "[]"])
  qed (use p in \<open>auto simp: level_from_def less_Suc_eq\<close>)
  moreover have "?P 0 (replicate ?N None)" by (simp add: levels_ok_def level_eq_def)
  ultimately have "\<exists>level. fold_opt (level_from m) [0..<?N] (replicate ?N None) = Some level \<and> ?P ?N level"
    by (rule fold_opt_upt)
  then show ?thesis by (auto simp: compute_levels_def)
qed

text \<open>
  C31: on a well-formed acyclic netlist the iterative level walk ends, whatever its depth, and
  visits every net; a net no cell drives has level 0, and the level of a cell's output is the
  greatest level of its inputs, plus one unless the cell is a buffer: the longest path in gates.
\<close>
theorem compute_levels_correct:
  assumes "wf_module m" "ranked r m"
  shows "\<exists>ls. compute_levels m = Some (map Some ls) \<and> length ls = length (gm_nets m) \<and>
    (\<forall>n < length (gm_nets m). ls ! n = (case driver (gm_nets m ! n) of
        DCell ci \<Rightarrow> fold max (map (\<lambda>x. ls ! x) (c_inputs (gm_cells m ! ci))) 0 + of_bool (c_kind (gm_cells m ! ci) \<noteq> Buf)
      | _ \<Rightarrow> 0))"
proof -
  obtain level where l: "compute_levels m = Some level" "levels_ok m level" "\<forall>n < length (gm_nets m). level ! n \<noteq> None"
    using compute_levels_spec [OF assms] by blast
  have len: "length level = length (gm_nets m)" using l(2) by (simp add: levels_ok_def)
  have all: "level = map Some (map the level)" using l(3) len by (intro nth_equalityI) auto
  have "map the level ! n = (case driver (gm_nets m ! n) of
        DCell ci \<Rightarrow> fold max (map (\<lambda>x. map the level ! x) (c_inputs (gm_cells m ! ci))) 0 + of_bool (c_kind (gm_cells m ! ci) \<noteq> Buf)
      | _ \<Rightarrow> 0)" if n: "n < length (gm_nets m)" for n
  proof -
    obtain k where k: "level ! n = Some k" using l(3) n by blast
    have eq: "level_eq m level n" using l(2) n by (simp add: levels_ok_def)
    have ins: "map (\<lambda>x. map the level ! x) (c_inputs (gm_cells m ! ci)) = map (\<lambda>i. the (level ! i)) (c_inputs (gm_cells m ! ci))"
      if "driver (gm_nets m ! n) = DCell ci" for ci
      using wf_module_inputs [OF assms(1), of ci] wf_module_driver [OF assms(1) n that] len by auto
    show ?thesis
    proof (cases "driver (gm_nets m ! n)")
      case (DCell ci)
      have "k = fold max (map (\<lambda>i. the (level ! i)) (c_inputs (gm_cells m ! ci))) 0 + of_bool (c_kind (gm_cells m ! ci) \<noteq> Buf)"
        using eq k by (simp add: level_eq_def fold_level_def DCell)
      then show ?thesis unfolding DCell net_driver.case ins [OF DCell] using k n len by simp
    qed (use eq k n len in \<open>simp_all add: level_eq_def\<close>)
  qed
  then show ?thesis using l(1) all len by (intro exI [of _ "map the level"]) simp
qed

theorem compute_levels_correct_witness:
  "\<exists>ls. compute_levels scan_stage = Some (map Some ls) \<and> length ls = 7"
  using compute_levels_correct [OF scan_stage_wf scan_stage_ranked] by (auto simp: scan_stage_def)

end
