(* ===== verification/Balance_Fanout.thy ===== *)
theory Balance_Fanout
  imports Balance_Levels
begin

section \<open>The fan-out census\<close>

text \<open>
  The census counts the readers of every net, says whether a flip-flop, a port or a memory
  reads it, and names the single cell that does.
\<close>

subsection \<open>The readers counted so far\<close>

definition reads :: "net_id \<Rightarrow> (nat \<times> net_id) list \<Rightarrow> nat" where
  "reads n rs = count_list (map snd rs) n"

text \<open>After the cell inputs \<open>rs\<close> (cell, net) and the sinks \<open>ss\<close>.\<close>

definition census :: "nat \<Rightarrow> (nat \<times> net_id) list \<Rightarrow> net_id list \<Rightarrow> fanout \<Rightarrow> bool" where
  "census k rs ss f \<longleftrightarrow> length (fo_count f) = k \<and> length (fo_consumer f) = k \<and> length (fo_non_cell f) = k
     \<and> (\<forall>n < k. fo_count f ! n = reads n rs + count_list ss n \<and> (fo_non_cell f ! n \<longleftrightarrow> n \<in> set ss)
          \<and> (case fo_consumer f ! n of None \<Rightarrow> n \<notin> snd ` set rs | Some i \<Rightarrow> (i, n) \<in> set rs))"

lemma census_reader:
  assumes "census k rs ss f" "inp < k"
  shows "\<exists>f'. count_reader ci inp f = Some f' \<and> census k (rs @ [(ci, inp)]) ss f'"
proof -
  let ?f = "f\<lparr>fo_count := (fo_count f)[inp := fo_count f ! inp + 1], fo_consumer := (fo_consumer f)[inp := Some ci]\<rparr>"
  have "census k (rs @ [(ci, inp)]) ss ?f"
    unfolding census_def
  proof (intro conjI allI impI)
    fix n assume n: "n < k"
    have c: "fo_count f ! n = reads n rs + count_list ss n" "fo_non_cell f ! n \<longleftrightarrow> n \<in> set ss"
      "case fo_consumer f ! n of None \<Rightarrow> n \<notin> snd ` set rs | Some i \<Rightarrow> (i, n) \<in> set rs" using assms(1) n by (auto simp: census_def)
    show "fo_count ?f ! n = reads n (rs @ [(ci, inp)]) + count_list ss n"
      using c(1) assms n by (cases "n = inp") (simp_all add: reads_def census_def)
    show "fo_non_cell ?f ! n \<longleftrightarrow> n \<in> set ss" using c(2) by simp
    show "case fo_consumer ?f ! n of None \<Rightarrow> n \<notin> snd ` set (rs @ [(ci, inp)]) | Some i \<Rightarrow> (i, n) \<in> set (rs @ [(ci, inp)])"
      using c(3) assms n by (cases "n = inp") (auto simp: census_def split: option.splits)
  qed (use assms in \<open>simp_all add: census_def\<close>)
  then show ?thesis using assms by (simp add: count_reader_def census_def)
qed

lemma census_inputs:
  assumes "census k rs ss f" "\<And>n. n \<in> set ins \<Longrightarrow> n < k"
  shows "\<exists>f'. fold_opt (count_reader ci) ins f = Some f' \<and> census k (rs @ map (Pair ci) ins) ss f'"
  using assms
proof (induction ins arbitrary: rs f)
  case (Cons x ins)
  obtain f1 where f1: "count_reader ci x f = Some f1" "census k (rs @ [(ci, x)]) ss f1"
    using census_reader [OF Cons.prems(1), of x ci] Cons.prems(2) by auto
  obtain f' where "fold_opt (count_reader ci) ins f1 = Some f'" "census k ((rs @ [(ci, x)]) @ map (Pair ci) ins) ss f'"
    using Cons.IH [OF f1(2)] Cons.prems(2) by auto
  then show ?case using f1(1) by simp
qed auto

definition readers :: "cell list \<Rightarrow> (nat \<times> net_id) list" where
  "readers cs = concat (map (\<lambda>(ci, c). map (Pair ci) (c_inputs c)) (enumerate 0 cs))"

lemma census_cells:
  assumes "census k [] ss f" "\<And>c n. c \<in> set cs \<Longrightarrow> n \<in> set (c_inputs c) \<Longrightarrow> n < k"
  shows "\<exists>f'. fold_opt (\<lambda>(ci, c). fold_opt (count_reader ci) (c_inputs c)) (enumerate 0 cs) f = Some f' \<and> census k (readers cs) ss f'"
proof -
  let ?P = "\<lambda>j. census k (readers (take j cs)) ss"
  have "\<exists>f'. (\<lambda>(ci, c). fold_opt (count_reader ci) (c_inputs c)) (j, cs ! j) g = Some f' \<and> ?P (Suc j) f'"
    if j: "j < length cs" and g: "?P j g" for j g
  proof -
    have "\<And>n. n \<in> set (c_inputs (cs ! j)) \<Longrightarrow> n < k" using assms(2) nth_mem [OF j] by blast
    then show ?thesis
      using census_inputs [OF g, of "c_inputs (cs ! j)" j] j
      by (simp add: readers_def take_Suc_conv_app_nth enumerate_append_eq)
  qed
  then have "\<exists>f'. fold_opt (\<lambda>(ci, c). fold_opt (count_reader ci) (c_inputs c)) (enumerate 0 cs) f = Some f' \<and> ?P (length cs) f'"
    by (rule fold_opt_enumerate [where P = ?P]) (use assms(1) in \<open>simp_all add: readers_def\<close>)
  then show ?thesis by simp
qed

lemma census_sinks:
  assumes "census k rs ss f" "\<And>n. n \<in> set ns \<Longrightarrow> n < k"
  shows "\<exists>f'. fold_opt mark_non_cell ns f = Some f' \<and> census k rs (ss @ ns) f'"
  using assms
proof (induction ns arbitrary: ss f)
  case (Cons x ns)
  let ?f = "f\<lparr>fo_count := (fo_count f)[x := fo_count f ! x + 1], fo_non_cell := (fo_non_cell f)[x := True]\<rparr>"
  have x: "x < k" using Cons.prems(2) by simp
  have "fo_count ?f ! n = reads n rs + count_list (ss @ [x]) n \<and> (fo_non_cell ?f ! n \<longleftrightarrow> n \<in> set (ss @ [x]))" if "n < k" for n
    using Cons.prems(1) x that by (cases "n = x") (auto simp: census_def)
  then have "census k rs (ss @ [x]) ?f" using Cons.prems(1) by (simp add: census_def)
  then obtain f' where "fold_opt mark_non_cell ns ?f = Some f'" "census k rs ((ss @ [x]) @ ns) f'"
    using Cons.IH [of "ss @ [x]" ?f] Cons.prems(2) by auto
  moreover have "mark_non_cell x f = Some ?f" using Cons.prems(1) x by (simp add: mark_non_cell_def census_def)
  ultimately show ?case by simp
qed auto

lemma compute_fanout_spec:
  assumes wf: "wf_module m"
  shows "\<exists>f. compute_fanout m = Some f \<and> census (length (gm_nets m)) (readers (gm_cells m)) (sinks m) f"
proof -
  let ?k = "length (gm_nets m)"
  have sk: "n < ?k" if "n \<in> set (sinks m)" for n using wf that by (simp add: wf_module_def)
  have ins: "n < ?k" if "c \<in> set (gm_cells m)" "n \<in> set (c_inputs c)" for c n using wf that by (auto simp: wf_module_def module_cell_wf_def)
  have c0: "census ?k [] [] \<lparr>fo_count = replicate ?k 0, fo_consumer = replicate ?k None, fo_non_cell = replicate ?k False\<rparr>"
    by (simp add: census_def reads_def)
  obtain f1 where f1: "fold_opt (\<lambda>(ci, c). fold_opt (count_reader ci) (c_inputs c)) (enumerate 0 (gm_cells m))
      \<lparr>fo_count = replicate ?k 0, fo_consumer = replicate ?k None, fo_non_cell = replicate ?k False\<rparr> = Some f1"
    "census ?k (readers (gm_cells m)) [] f1"
    using census_cells [OF c0, of "gm_cells m"] ins by blast
  obtain f2 where f2: "fold_opt mark_non_cell (concat (map ff_nets (gm_ffs m))) f1 = Some f2"
    "census ?k (readers (gm_cells m)) ([] @ concat (map ff_nets (gm_ffs m))) f2"
    using census_sinks [OF f1(2), of "concat (map ff_nets (gm_ffs m))"] sk by (auto simp: sinks_def)
  obtain f3 where f3: "fold_opt mark_non_cell (concat (map gp_nets (gm_ports m))) f2 = Some f3"
    "census ?k (readers (gm_cells m)) (([] @ concat (map ff_nets (gm_ffs m))) @ concat (map gp_nets (gm_ports m))) f3"
    using census_sinks [OF f2(2), of "concat (map gp_nets (gm_ports m))"] sk by (auto simp: sinks_def)
  obtain f4 where "fold_opt mark_non_cell (ram_inputs m) f3 = Some f4"
    "census ?k (readers (gm_cells m)) ((([] @ concat (map ff_nets (gm_ffs m))) @ concat (map gp_nets (gm_ports m))) @ ram_inputs m) f4"
    using census_sinks [OF f3(2), of "ram_inputs m"] sk by (auto simp: sinks_def)
  then show ?thesis using f1(1) f2(1) f3(1) by (simp add: compute_fanout_def run_collect_ram sinks_def)
qed

lemma readers_iff: "(i, n) \<in> set (readers cs) \<longleftrightarrow> i < length cs \<and> n \<in> set (c_inputs (cs ! i))"
proof -
  have "(i, n) \<in> set (readers cs) \<longleftrightarrow> (\<exists>c. (i, c) \<in> set (enumerate 0 cs) \<and> n \<in> set (c_inputs c))"
    by (force simp: readers_def)
  then show ?thesis by (auto simp: in_set_enumerate_eq)
qed

lemma reads_two:
  assumes "(i, n) \<in> set rs" "(j, n) \<in> set rs" "i \<noteq> j"
  shows "2 \<le> reads n rs"
  using assms
proof (induction rs)
  case (Cons p rs)
  have one: "0 < reads n rs" if "(l, n) \<in> set rs" for l
  proof -
    have "n \<in> set (map snd rs)" using that by (force simp: image_iff)
    then show ?thesis unfolding reads_def by (metis count_list_0_iff gr0I)
  qed
  show ?case using Cons one [of i] one [of j] by (cases p) (auto simp: reads_def)
qed simp

text \<open>A net with a single reader that no sink reads: the census names that reader.\<close>

lemma census_single:
  assumes f: "census (length (gm_nets m)) (readers (gm_cells m)) (sinks m) f" and n: "n < length (gm_nets m)"
    and one: "single_reader f n = Some True" and i: "i < length (gm_cells m)" "n \<in> set (c_inputs (gm_cells m ! i))"
  shows "fo_consumer f ! n = Some i"
proof -
  have c: "fo_count f ! n = 1" "\<not> fo_non_cell f ! n" using one f n by (auto simp: single_reader_def census_def)
  then have k: "reads n (readers (gm_cells m)) = 1" using f n by (simp add: census_def count_list_0_iff)
  have ri: "(i, n) \<in> set (readers (gm_cells m))" using i by (simp add: readers_iff)
  have cs: "case fo_consumer f ! n of None \<Rightarrow> n \<notin> snd ` set (readers (gm_cells m)) | Some j \<Rightarrow> (j, n) \<in> set (readers (gm_cells m))"
    using f n by (simp add: census_def)
  show ?thesis
  proof (cases "fo_consumer f ! n")
    case None
    then show ?thesis using cs ri by force
  next
    case (Some j)
    then have "j = i" using cs reads_two [OF ri, of j] k by fastforce
    then show ?thesis using Some by simp
  qed
qed

lemma single_reader_total:
  assumes "census k rs ss f" "n < k"
  shows "\<exists>b. single_reader f n = Some b"
  using assms by (simp add: single_reader_def census_def)

text \<open>
  The fan-out census of a well-formed module never panics; it counts, for every net, the
  cell inputs and the sinks that read it, says whether a sink does, and names the reader of
  every net that a single cell input and no sink reads.
\<close>
theorem compute_fanout_correct:
  assumes "wf_module m"
  shows "\<exists>f. compute_fanout m = Some f \<and> (\<forall>n < length (gm_nets m).
    fo_count f ! n = sum_list (map (\<lambda>c. count_list (c_inputs c) n) (gm_cells m)) + count_list (sinks m) n
    \<and> (fo_non_cell f ! n \<longleftrightarrow> n \<in> set (sinks m))
    \<and> (\<forall>i < length (gm_cells m). n \<in> set (c_inputs (gm_cells m ! i)) \<and> fo_count f ! n = 1 \<and> n \<notin> set (sinks m)
         \<longrightarrow> fo_consumer f ! n = Some i))"
proof -
  obtain f where f: "compute_fanout m = Some f" "census (length (gm_nets m)) (readers (gm_cells m)) (sinks m) f"
    using compute_fanout_spec [OF assms] by blast
  have "reads n (readers (gm_cells m)) = sum_list (map (\<lambda>c. count_list (c_inputs c) n) (gm_cells m))" for n
  proof -
    have "concat (map (\<lambda>x. g (snd x)) (enumerate i cs)) = concat (map g cs)" for g :: "cell \<Rightarrow> net_id list" and i cs
      by (induction cs arbitrary: i) simp_all
    then have eq: "map snd (readers (gm_cells m)) = concat (map c_inputs (gm_cells m))"
      by (simp add: readers_def map_concat comp_def case_prod_beta)
    have "count_list (concat xss) n = sum_list (map (\<lambda>xs. count_list xs n) xss)" for xss :: "net_id list list"
      by (induction xss) simp_all
    then show ?thesis unfolding reads_def eq by (simp add: comp_def)
  qed
  moreover have "fo_consumer f ! n = Some i" if "n < length (gm_nets m)" "i < length (gm_cells m)" "n \<in> set (c_inputs (gm_cells m ! i))"
      "fo_count f ! n = 1" "n \<notin> set (sinks m)" for n i
    using census_single [OF f(2) that(1) _ that(2,3)] that f(2) by (simp add: single_reader_def census_def)
  ultimately show ?thesis using f by (auto simp: census_def)
qed

theorem compute_fanout_correct_witness:
  "\<exists>f. compute_fanout scan_stage = Some f \<and> fo_count f ! 2 = 2 \<and> fo_count f ! 6 = 1 \<and> fo_non_cell f ! 6"
proof -
  obtain f where f: "compute_fanout scan_stage = Some f" "\<And>n. n < 7 \<Longrightarrow>
      fo_count f ! n = sum_list (map (\<lambda>c. count_list (c_inputs c) n) (gm_cells scan_stage)) + count_list (sinks scan_stage) n
      \<and> (fo_non_cell f ! n \<longleftrightarrow> n \<in> set (sinks scan_stage))"
    using compute_fanout_correct [OF scan_stage_wf] by (auto simp: scan_stage_def)
  show ?thesis using f(1) f(2) [of 2] f(2) [of 6] by (simp add: scan_stage_def sinks_def ram_inputs_def)
qed

end
