(* ===== verification/Balance_Chains.thy ===== *)
theory Balance_Chains
  imports Balance_Fanout
begin

section \<open>Rebalancing keeps the meaning and the depth\<close>

text \<open>
  The census knows the single reader of a net, so no chain dissolves the root of another; a
  chain's leaves carry the value of its root in any order, and so does the tree over the
  heap.  Pairing the two earliest operands keeps the sum of \<open>2 ^ level\<close> below the power of two
  it was below, so the tree is no deeper than the chain.
\<close>

subsection \<open>The leaves of a chain\<close>

text \<open>The cells a chain may dissolve: their only reader is a cell of the same kind.\<close>

definition dissolved :: "gate_module \<Rightarrow> fanout \<Rightarrow> nat \<Rightarrow> bool" where
  "dissolved m f j \<longleftrightarrow> j < length (gm_cells m) \<and> is_assoc (c_kind (gm_cells m ! j))
     \<and> is_interior_node f j m = Some True \<and> driver (gm_nets m ! c_output (gm_cells m ! j)) = DCell j"

text \<open>The module during the pass: more nets and cells, the same kinds, the dissolved cells untouched.\<close>

definition grown :: "gate_module \<Rightarrow> fanout \<Rightarrow> gate_module \<Rightarrow> bool" where
  "grown m f n \<longleftrightarrow> length (gm_cells m) \<le> length (gm_cells n) \<and> (\<exists>ns. gm_nets n = gm_nets m @ ns)
     \<and> (\<forall>j < length (gm_cells m). c_kind (gm_cells n ! j) = c_kind (gm_cells m ! j) \<and> c_output (gm_cells n ! j) = c_output (gm_cells m ! j))
     \<and> (\<forall>j. dissolved m f j \<longrightarrow> gm_cells n ! j = gm_cells m ! j)"

text \<open>Leaves \<open>ls\<close> stand for \<open>net\<close>: its value, and every measure that grows along the dissolved cells.\<close>

definition stands_for :: "gate_module \<Rightarrow> fanout \<Rightarrow> cell_kind \<Rightarrow> net_id list \<Rightarrow> net_id \<Rightarrow> bool" where
  "stands_for m f k ls net \<longleftrightarrow> ls \<noteq> [] \<and> (\<forall>l \<in> set ls. l < length (gm_nets m))
     \<and> (\<forall>v. (\<forall>j. dissolved m f j \<longrightarrow> holds v (gm_cells m ! j)) \<longrightarrow> v net = scan k (map v ls))
     \<and> (\<forall>L :: net_id \<Rightarrow> nat. (\<forall>j. dissolved m f j \<longrightarrow> (\<forall>x \<in> set (c_inputs (gm_cells m ! j)). L x < L (c_output (gm_cells m ! j)))) \<longrightarrow>
          (\<forall>l \<in> set ls. L l \<le> L net) \<and> sum_list (map (\<lambda>l. 2 ^ L l) ls) \<le> (2 :: nat) ^ L net)"

lemma stands_for_leaf: "net < length (gm_nets m) \<Longrightarrow> stands_for m f k [net] net"
  by (simp add: stands_for_def scan_def)

lemma power_two_below:
  assumes "a < c" "b < c"
  shows "(2 :: nat) ^ a + 2 ^ b \<le> 2 ^ c"
proof -
  have "(2 :: nat) ^ Suc a \<le> 2 ^ c" "(2 :: nat) ^ Suc b \<le> 2 ^ c" using assms by (intro power_increasing; simp)+
  then show ?thesis by simp
qed

lemma stands_for_node:
  assumes d: "dissolved m f j" and c: "gm_cells m ! j = \<lparr>c_kind = k, c_inputs = [a, b], c_output = net\<rparr>"
    and a: "stands_for m f k as a" and b: "stands_for m f k bs b"
  shows "stands_for m f k (bs @ as) net"
  unfolding stands_for_def
proof (intro conjI allI impI)
  have k: "is_assoc k" using d c by (simp add: dissolved_def)
  show "bs @ as \<noteq> []" "\<forall>l \<in> set (bs @ as). l < length (gm_nets m)" using a b by (auto simp: stands_for_def)
  {
    fix v assume v: "\<forall>j. dissolved m f j \<longrightarrow> holds v (gm_cells m ! j)"
    have "v net = op_of k (v a) (v b)" using v d c by (fastforce simp: holds_def op_of_def)
    moreover have "v a = scan k (map v as)" "v b = scan k (map v bs)" "as \<noteq> []" "bs \<noteq> []" using a b v by (auto simp: stands_for_def)
    ultimately show "v net = scan k (map v (bs @ as))" using scan_append [OF k] op_comm [OF k] by simp
  }
  fix L :: "net_id \<Rightarrow> nat"
  assume L: "\<forall>j. dissolved m f j \<longrightarrow> (\<forall>x \<in> set (c_inputs (gm_cells m ! j)). L x < L (c_output (gm_cells m ! j)))"
  have "\<forall>x \<in> set (c_inputs (gm_cells m ! j)). L x < L (c_output (gm_cells m ! j))" using L d by blast
  then have lt: "L a < L net" "L b < L net" using c by simp_all
  have la: "(\<forall>l \<in> set as. L l \<le> L a) \<and> sum_list (map (\<lambda>l. 2 ^ L l) as) \<le> (2 :: nat) ^ L a" using a L unfolding stands_for_def by blast
  have lb: "(\<forall>l \<in> set bs. L l \<le> L b) \<and> sum_list (map (\<lambda>l. 2 ^ L l) bs) \<le> (2 :: nat) ^ L b" using b L unfolding stands_for_def by blast
  show "\<forall>l \<in> set (bs @ as). L l \<le> L net" using la lb lt by fastforce
  have "sum_list (map (\<lambda>l. 2 ^ L l) (bs @ as)) \<le> (2 :: nat) ^ L b + 2 ^ L a" using la lb by simp
  also have "\<dots> \<le> 2 ^ L net" by (rule power_two_below [OF lt(2,1)])
  finally show "sum_list (map (\<lambda>l. 2 ^ L l) (bs @ as)) \<le> (2 :: nat) ^ L net" .
qed

lemma cell_two:
  assumes "wf_module m" "i < length (gm_cells m)" "is_assoc (c_kind (gm_cells m ! i))"
  obtains a b where "gm_cells m ! i = \<lparr>c_kind = c_kind (gm_cells m ! i), c_inputs = [a, b], c_output = c_output (gm_cells m ! i)\<rparr>"
    "c_inputs (gm_cells m ! i) = [a, b]" "a < length (gm_nets m)" "b < length (gm_nets m)"
proof -
  have "length (c_inputs (gm_cells m ! i)) = Suc (Suc 0)" using wf_module_arity [OF assms(1,2)] arity_assoc [OF assms(3)] by simp
  then obtain a b where ab: "c_inputs (gm_cells m ! i) = [a, b]" by (auto simp: length_Suc_conv)
  then have "a < length (gm_nets m)" "b < length (gm_nets m)" using wf_module_inputs [OF assms(1,2)] by simp_all
  then show ?thesis using that [of a b] ab by (metis cell.surjective old.unit.exhaust)
qed

text \<open>The producer of a chain net: dissolvable exactly when it is a dissolved cell of the kind.\<close>

lemma producer_cases:
  assumes wf: "wf_module m" and f: "census (length (gm_nets m)) (readers (gm_cells m)) (sinks m) f" and g: "grown m f n"
    and net: "net < length (gm_nets m)" and i: "i < length (gm_cells m)" "net \<in> set (c_inputs (gm_cells m ! i))" "c_kind (gm_cells m ! i) = k"
    and k: "is_assoc k"
  shows "producer_dissolvable f net k n = Some None \<or> (\<exists>j. producer_dissolvable f net k n = Some (Some j) \<and> dissolved m f j
    \<and> c_kind (gm_cells m ! j) = k \<and> c_output (gm_cells m ! j) = net)"
proof -
  obtain one where one: "single_reader f net = Some one" using single_reader_total [OF f net] by blast
  obtain ns where ns: "gm_nets n = gm_nets m @ ns" and len: "length (gm_cells m) \<le> length (gm_cells n)" using g unfolding grown_def by blast
  have drv: "driver_at n net = Some (driver (gm_nets m ! net))" using ns net by (simp add: driver_at_def nth_append)
  show ?thesis
  proof (cases "one \<and> (\<exists>j. driver (gm_nets m ! net) = DCell j \<and> c_kind (gm_cells m ! j) = k)")
    case False
    have "producer_dissolvable f net k n = Some None"
    proof (cases one)
      case True
      show ?thesis
      proof (cases "driver (gm_nets m ! net)")
        case (DCell j)
        then have j: "j < length (gm_cells m)" using wf_module_driver [OF wf net] by simp
        then have "c_kind (gm_cells n ! j) = c_kind (gm_cells m ! j)" using g unfolding grown_def by blast
        then show ?thesis using False True DCell j len one drv by (simp add: producer_dissolvable_def cell_at_def)
      qed (use one True drv in \<open>simp_all add: producer_dissolvable_def\<close>)
    qed (use one in \<open>simp add: producer_dissolvable_def\<close>)
    then show ?thesis by blast
  next
    case True
    then obtain j where j: "driver (gm_nets m ! net) = DCell j" "c_kind (gm_cells m ! j) = k" by blast
    then have jm: "j < length (gm_cells m)" "c_output (gm_cells m ! j) = net" using wf_module_driver [OF wf net] by simp_all
    have "c_kind (gm_cells n ! j) = k" using g jm(1) j(2) unfolding grown_def by metis
    then have "producer_dissolvable f net k n = Some (Some j)" using one True drv j jm len by (simp add: producer_dissolvable_def cell_at_def)
    moreover have "fo_consumer f ! net = Some i" using census_single [OF f net _ i(1,2)] one True by simp
    then have "is_interior_node f j m = Some True" using one True j jm i by (simp add: is_interior_node_def cell_at_def)
    then have "dissolved m f j" using jm j k by (simp add: dissolved_def)
    ultimately show ?thesis using j(2) jm(2) by blast
  qed
qed

lemma gather_net:
  assumes wf: "wf_module m" and f: "census (length (gm_nets m)) (readers (gm_cells m)) (sinks m) f" and g: "grown m f n"
    and rk: "ranked r m" and k: "is_assoc k"
    and "net < length (gm_nets m)" "i < length (gm_cells m)" "net \<in> set (c_inputs (gm_cells m ! i))" "c_kind (gm_cells m ! i) = k"
  shows "\<exists>ls. (\<forall>stack acc. gather n f k (net # stack) acc = gather n f k stack (acc @ ls)) \<and> stands_for m f k ls net"
  using assms(6-)
proof (induction "r net" arbitrary: net i rule: less_induct)
  case less
  note IH = less.hyps
  have step: "gather n f k (net # stack) acc = do {
          p \<leftarrow> producer_dissolvable f net k n;
          (case p of
             Some di \<Rightarrow> do { c \<leftarrow> cell_at n di; gather n f k (rev (c_inputs c) @ stack) acc }
           | None \<Rightarrow> gather n f k stack (acc @ [net]))
        }" for stack acc by (simp add: gather.simps [of n f k "net # stack"])
  from producer_cases [OF wf f g less.prems k]
  show ?case
  proof (elim disjE exE conjE)
    assume "producer_dissolvable f net k n = Some None"
    then show ?thesis using step stands_for_leaf [OF less.prems(1), of f k] by (intro exI [of _ "[net]"]) simp
  next
    fix j assume j: "producer_dissolvable f net k n = Some (Some j)" "dissolved m f j" "c_kind (gm_cells m ! j) = k" "c_output (gm_cells m ! j) = net"
    have jm: "j < length (gm_cells m)" "driver (gm_nets m ! net) = DCell j" using j by (auto simp: dissolved_def)
    obtain a b where c: "gm_cells m ! j = \<lparr>c_kind = k, c_inputs = [a, b], c_output = net\<rparr>" "a < length (gm_nets m)" "b < length (gm_nets m)"
      using cell_two [OF wf jm(1)] k j(3,4) by metis
    have n: "gm_cells n ! j = gm_cells m ! j" "j < length (gm_cells n)" using g j(2) jm(1) unfolding grown_def by auto
    have lt: "r a < r net" "r b < r net" using rk jm less.prems(1) c(1) by (auto simp: ranked_def)
    obtain as where as: "\<forall>stack acc. gather n f k (a # stack) acc = gather n f k stack (acc @ as)" "stands_for m f k as a"
      using IH [OF lt(1) c(2) jm(1)] c(1) by auto
    obtain bs where bs: "\<forall>stack acc. gather n f k (b # stack) acc = gather n f k stack (acc @ bs)" "stands_for m f k bs b"
      using IH [OF lt(2) c(3) jm(1)] c(1) by auto
    have "gather n f k (net # stack) acc = gather n f k stack (acc @ bs @ as)" for stack acc
      using step [of stack acc] j(1) n c(1) as(1) bs(1) by (simp add: cell_at_def)
    then show ?thesis using stands_for_node [OF j(2) c(1) as(2) bs(2)] by blast
  qed
qed

subsection \<open>The heap\<close>

lemma heap_push_mset [simp]: "mset (heap_push p h) = add_mset p (mset h)"
  by (induction h) auto

lemma heap_push_set [simp]: "set (heap_push p h) = insert p (set h)"
  by (induction h) auto

lemma heap_push_length [simp]: "length (heap_push p h) = Suc (length h)"
  by (induction h) auto

lemma heap_push_sorted: "sorted (map fst h) \<Longrightarrow> sorted (map fst (heap_push p h))"
  by (induction h) (auto split: if_splits)

lemma heap_of:
  "mset (fold heap_push ps h) = mset ps + mset h" "sorted (map fst h) \<Longrightarrow> sorted (map fst (fold heap_push ps h))"
  by (induction ps arbitrary: h) (simp_all add: heap_push_sorted)

text \<open>The weight of a heap, and the two earliest operands merged.\<close>

definition weight :: "(nat \<times> net_id) list \<Rightarrow> nat" where
  "weight h = sum_list (map (\<lambda>p. 2 ^ fst p) h)"

lemma weight_push [simp]: "weight (heap_push p h) = 2 ^ fst p + weight h"
  by (induction h) (auto simp: weight_def)

lemma weight_merge:
  assumes s: "sorted (map fst ((la, na) # (lb, nb) # h))" and w: "weight ((la, na) # (lb, nb) # h) \<le> 2 ^ D"
  shows "weight (heap_push (max la lb + 1, net) h) \<le> 2 ^ D"
proof -
  have le: "la \<le> lb" "\<And>p. p \<in> set h \<Longrightarrow> lb \<le> fst p" using s by auto
  let ?S = "2 ^ lb + weight h"
  have lb: "?S + 2 ^ la \<le> 2 ^ D" using w by (simp add: weight_def)
  moreover have "0 < (2 :: nat) ^ la" by simp
  ultimately have less: "?S < 2 ^ D" by linarith
  then have "(2 :: nat) ^ lb < 2 ^ D" by linarith
  then have D: "lb < D" by simp
  have "2 ^ lb dvd weight h" unfolding weight_def using le(2) by (induction h) (auto intro: dvd_add le_imp_power_dvd)
  then obtain q where q: "?S = 2 ^ lb * q" by (metis dvd_add dvd_def dvd_refl)
  have "2 ^ D = 2 ^ lb * (2 :: nat) ^ (D - lb)" using D by (simp flip: power_add)
  then have "2 ^ lb * q < 2 ^ lb * (2 :: nat) ^ (D - lb)" using less q by simp
  then have "q + 1 \<le> 2 ^ (D - lb)" by simp
  then have "2 ^ lb * (q + 1) \<le> 2 ^ lb * (2 :: nat) ^ (D - lb)" by (rule mult_le_mono2)
  then have "?S + 2 ^ lb \<le> 2 ^ D" using q \<open>2 ^ D = 2 ^ lb * (2 :: nat) ^ (D - lb)\<close> by simp
  then show ?thesis using le(1) by (simp add: max_def)
qed

subsection \<open>The tree over the heap\<close>

text \<open>\<open>deeper U cs\<close>: the outputs of the gates \<open>cs\<close> are above their inputs.\<close>

definition deeper :: "(net_id \<Rightarrow> nat) \<Rightarrow> cell list \<Rightarrow> bool" where
  "deeper U cs \<longleftrightarrow> (\<forall>c \<in> set cs. \<forall>x \<in> set (c_inputs c). U x < U (c_output c))"

text \<open>
  The gates \<open>cs\<close> and a last one over \<open>x\<close> and \<open>y\<close> combine the heap: the value, the rank of
  what is below, and the level, given levels of the heap's nets and of the \<open>N\<close> older nets.
\<close>

definition merged :: "cell_kind \<Rightarrow> (nat \<times> net_id) list \<Rightarrow> nat \<Rightarrow> cell list \<Rightarrow> net_id \<Rightarrow> net_id \<Rightarrow> bool" where
  "merged k h N cs x y \<longleftrightarrow>
     (\<forall>v. (\<forall>c \<in> set cs. holds v c) \<longrightarrow> op_of k (v x) (v y) = scan k (map (\<lambda>p. v (snd p)) h))
     \<and> (\<forall>t b. tops t cs \<longrightarrow> (\<forall>p \<in> set h. t (snd p) < b) \<longrightarrow> t x < b \<and> t y < b)
     \<and> (\<forall>U. (\<forall>p \<in> set h. U (snd p) \<le> fst p) \<longrightarrow> (\<exists>U'. (\<forall>n < N. U' n = U n) \<and> deeper U' cs
          \<and> (\<forall>D. weight h \<le> 2 ^ D \<longrightarrow> U' x < D \<and> U' y < D)))"

lemma merged_last:
  assumes "sorted (map fst [(la, x), (lb, y)])"
  shows "merged k [(la, x), (lb, y)] N [] x y"
  unfolding merged_def
proof (intro conjI allI impI)
  show "op_of k (v x) (v y) = scan k (map (\<lambda>p. v (snd p)) [(la, x), (lb, y)])" for v by (simp add: scan_def)
  show "\<exists>U'. (\<forall>n < N. U' n = U n) \<and> deeper U' [] \<and> (\<forall>D. weight [(la, x), (lb, y)] \<le> 2 ^ D \<longrightarrow> U' x < D \<and> U' y < D)"
    if U: "\<forall>p \<in> set [(la, x), (lb, y)]. U (snd p) \<le> fst p" for U
  proof (intro exI [of _ U] conjI allI impI)
    fix D assume w: "weight [(la, x), (lb, y)] \<le> 2 ^ D"
    have "0 < (2 :: nat) ^ la" "0 < (2 :: nat) ^ lb" by simp_all
    moreover have "(2 :: nat) ^ la + 2 ^ lb \<le> 2 ^ D" using w by (simp add: weight_def)
    ultimately have "(2 :: nat) ^ la < 2 ^ D" "(2 :: nat) ^ lb < 2 ^ D" by linarith+
    then have "la < D" "lb < D" by simp_all
    then show "U x < D" "U y < D" using U by auto
  qed (simp_all add: deeper_def)
qed simp_all

lemma merged_step:
  assumes k: "is_assoc k" and s: "sorted (map fst ((la, na) # (lb, nb) # h))" and N: "\<And>p. p \<in> set ((la, na) # (lb, nb) # h) \<Longrightarrow> snd p < N"
    and m: "merged k (heap_push (max la lb + 1, N) h) (Suc N) cs x y"
  shows "merged k ((la, na) # (lb, nb) # h) N (\<lparr>c_kind = k, c_inputs = [na, nb], c_output = N\<rparr> # cs) x y"
    (is "merged k ?h N (?c # cs) x y")
  unfolding merged_def
proof (intro conjI allI impI)
  fix v assume v: "\<forall>c \<in> set (?c # cs). holds v c"
  have "op_of k (v x) (v y) = scan k (map (\<lambda>p. v (snd p)) (heap_push (max la lb + 1, N) h))" using m v unfolding merged_def by simp
  also have "\<dots> = scan k (v N # map (\<lambda>p. v (snd p)) h)" by (rule scan_perm [OF k]) (simp_all flip: set_empty)
  also have "\<dots> = scan k (map (\<lambda>p. v (snd p)) ?h)" using v by (simp add: scan_def holds_def op_of_def)
  finally show "op_of k (v x) (v y) = scan k (map (\<lambda>p. v (snd p)) ?h)" .
next
  fix t b assume t: "tops t (?c # cs)" and b: "\<forall>p \<in> set ?h. t (snd p) < b"
  have ab: "t na < b" "t nb < b" using b by simp_all
  then have "\<forall>x \<in> set (c_inputs ?c). t x \<le> b - 1" by auto
  then have "t N \<le> b - 1" using t unfolding tops_def by simp
  then have "t N < b" using ab by linarith
  then have "\<forall>p \<in> set (heap_push (max la lb + 1, N) h). t (snd p) < b" using b by auto
  moreover have "tops t cs" using t by (simp add: tops_def)
  ultimately show "t x < b" "t y < b" using m unfolding merged_def by blast+
next
  fix U assume U: "\<forall>p \<in> set ?h. U (snd p) \<le> fst p"
  let ?U = "U(N := max la lb + 1)"
  have "?U (snd p) \<le> fst p" if "p \<in> set h" for p using U N [of p] that by simp
  then have "\<forall>p \<in> set (heap_push (max la lb + 1, N) h). ?U (snd p) \<le> fst p" by simp
  then obtain U' where U': "\<forall>n < Suc N. U' n = ?U n" "deeper U' cs"
    "\<forall>D. weight (heap_push (max la lb + 1, N) h) \<le> 2 ^ D \<longrightarrow> U' x < D \<and> U' y < D"
    using m unfolding merged_def by blast
  have n: "na < N" "nb < N" using N [of "(la, na)"] N [of "(lb, nb)"] by simp_all
  have "deeper U' (?c # cs)" using U'(1,2) U n unfolding deeper_def by (auto simp: less_Suc_eq)
  moreover have "\<forall>n < N. U' n = U n" using U'(1) by simp
  ultimately show "\<exists>U'. (\<forall>n < N. U' n = U n) \<and> deeper U' (?c # cs) \<and> (\<forall>D. weight ?h \<le> 2 ^ D \<longrightarrow> U' x < D \<and> U' y < D)"
    using U'(3) weight_merge [OF s, of _ N] by blast
qed

lemma combine_spec:
  assumes "wf_module n" "is_assoc k" "root < length (gm_cells n)" "length h = Suc (Suc rest)" "sorted (map fst h)"
    "\<And>p. p \<in> set h \<Longrightarrow> snd p < length (gm_nets n)"
  shows "\<exists>n' cs x y. gated n n' cs \<and> x < length (gm_nets n') \<and> y < length (gm_nets n') \<and> merged k h (length (gm_nets n)) cs x y
    \<and> combine k root (Suc rest) h n = Some (n'\<lparr>gm_cells := (gm_cells n')[root := (gm_cells n' ! root)\<lparr>c_inputs := [x, y]\<rparr>]\<rparr>)"
  using assms(1,3-)
proof (induction rest arbitrary: h n)
  case 0
  then obtain p q where h: "h = [p, q]" by (auto simp: length_Suc_conv)
  then have "merged k h (length (gm_nets n)) [] (snd p) (snd q)" using merged_last [of "fst p" "snd p" "fst q" "snd q"] 0 by simp
  then show ?case using 0 h gated_refl [OF 0(1)]
    by (intro exI [of _ n] exI [of _ "[]"] exI [of _ "snd p"] exI [of _ "snd q"]) (auto simp: cell_at_def split: prod.splits)
next
  case (Suc rest)
  then obtain la na lb nb h' where h: "h = (la, na) # (lb, nb) # h'" "length h' = Suc rest" by (auto simp: length_Suc_conv)
  have ab: "na < length (gm_nets n)" "nb < length (gm_nets n)" using Suc.prems(5) h(1) by force+
  obtain N n1 where push: "push_gate k [na, nb] n = (N, n1)" by fastforce
  have g1: "gated n n1 [\<lparr>c_kind = k, c_inputs = [na, nb], c_output = N\<rparr>]" "N = length (gm_nets n)"
    using push_gate_gated [OF Suc.prems(1) _ _ push] arity_assoc [OF assms(2)] ab by auto
  have N1: "length (gm_nets n1) = Suc N" using gated_nets(2) [OF g1(1)] g1(2) by simp
  let ?h = "heap_push (max la lb + 1, N) h'"
  have "wf_module n1" "root < length (gm_cells n1)" "length ?h = Suc (Suc rest)" "sorted (map fst ?h)"
    using gated_wf [OF g1(1)] g1(1) Suc.prems h heap_push_sorted [of h'] by (simp_all add: gated_def)
  moreover have "snd p < length (gm_nets n1)" if "p \<in> set ?h" for p using that Suc.prems(5) [of p] h(1) N1 g1(2) by auto
  ultimately obtain n' cs x y where n': "gated n1 n' cs" "x < length (gm_nets n')" "y < length (gm_nets n')" "merged k ?h (length (gm_nets n1)) cs x y"
    "combine k root (Suc rest) ?h n1 = Some (n'\<lparr>gm_cells := (gm_cells n')[root := (gm_cells n' ! root)\<lparr>c_inputs := [x, y]\<rparr>]\<rparr>)"
    using Suc.IH by blast
  have "merged k h N (\<lparr>c_kind = k, c_inputs = [na, nb], c_output = N\<rparr> # cs) x y"
    unfolding h(1) by (rule merged_step [OF assms(2)]) (use Suc.prems(4,5) h(1) n'(4) N1 g1(2) in auto)
  moreover have "gated n n' ([\<lparr>c_kind = k, c_inputs = [na, nb], c_output = N\<rparr>] @ cs)" by (rule gated_trans [OF g1(1) n'(1)])
  moreover have "combine k root (Suc (Suc rest)) h n = combine k root (Suc rest) ?h n1" using push h(1) by simp
  ultimately show ?case using n' g1(2) by (intro exI [of _ n'] exI [of _ "\<lparr>c_kind = k, c_inputs = [na, nb], c_output = N\<rparr> # cs"]) auto
qed

subsection \<open>One chain\<close>

text \<open>\<open>U\<close> bounds the level of every net, from the levels of the inputs of its cell.\<close>

definition level_bound :: "(net_id \<Rightarrow> nat) \<Rightarrow> gate_module \<Rightarrow> bool" where
  "level_bound U n \<longleftrightarrow> (\<forall>i < length (gm_cells n). driver (gm_nets n ! c_output (gm_cells n ! i)) = DCell i \<longrightarrow>
     (\<forall>x \<in> set (c_inputs (gm_cells n ! i)). U x + of_bool (c_kind (gm_cells n ! i) \<noteq> Buf) \<le> U (c_output (gm_cells n ! i))))"

definition balanced :: "gate_module \<Rightarrow> fanout \<Rightarrow> (net_id \<Rightarrow> nat) \<Rightarrow> nat set \<Rightarrow> gate_module \<Rightarrow> bool" where
  "balanced m f L D n \<longleftrightarrow> wf_module n \<and> rebuilt m n \<and> grown m f n \<and> (\<forall>j < length (gm_cells m). j \<notin> D \<longrightarrow> gm_cells n ! j = gm_cells m ! j)
     \<and> (\<exists>U. (\<forall>x < length (gm_nets m). U x = L x) \<and> level_bound U n)"

lemma balanced_mono: "balanced m f L D n \<Longrightarrow> D \<subseteq> E \<Longrightarrow> balanced m f L E n"
  by (auto simp: balanced_def)

text \<open>The root re-linked to the last gate's inputs.\<close>

lemma wf_relink:
  assumes wf: "wf_module n" and i: "i < length (gm_cells n)" and ins: "length ins = arity (c_kind (gm_cells n ! i))"
    "\<And>x. x \<in> set ins \<Longrightarrow> x < length (gm_nets n)"
  shows "wf_module (n\<lparr>gm_cells := (gm_cells n)[i := (gm_cells n ! i)\<lparr>c_inputs := ins\<rparr>]\<rparr>)"
  using wf_relink_cell [OF assms] by simp

text \<open>What is known about the root of a chain and its leaves in the current module.\<close>

definition chain_at :: "gate_module \<Rightarrow> fanout \<Rightarrow> gate_module \<Rightarrow> nat \<Rightarrow> cell_kind \<Rightarrow> net_id list \<Rightarrow> bool" where
  "chain_at m f n i k ls \<longleftrightarrow> i < length (gm_cells m) \<and> is_assoc k \<and> \<not> dissolved m f i \<and> gm_cells n ! i = gm_cells m ! i
     \<and> (\<exists>a b as bs. gm_cells m ! i = \<lparr>c_kind = k, c_inputs = [a, b], c_output = c_output (gm_cells m ! i)\<rparr>
          \<and> ls = bs @ as \<and> stands_for m f k as a \<and> stands_for m f k bs b)"

lemma chain_at_gather:
  assumes wf: "wf_module m" and f: "census (length (gm_nets m)) (readers (gm_cells m)) (sinks m) f" and rk: "ranked r m" and g: "grown m f n"
    and i: "i < length (gm_cells m)" "is_assoc (c_kind (gm_cells m ! i))" "is_interior_node f i m = Some False" "gm_cells n ! i = gm_cells m ! i"
  shows "\<exists>ls. gather n f (c_kind (gm_cells m ! i)) (rev (c_inputs (gm_cells m ! i))) [] = Some ls \<and> chain_at m f n i (c_kind (gm_cells m ! i)) ls"
proof -
  let ?k = "c_kind (gm_cells m ! i)"
  obtain a b where c: "gm_cells m ! i = \<lparr>c_kind = ?k, c_inputs = [a, b], c_output = c_output (gm_cells m ! i)\<rparr>"
    "c_inputs (gm_cells m ! i) = [a, b]" "a < length (gm_nets m)" "b < length (gm_nets m)"
    using cell_two [OF wf i(1,2)] by metis
  obtain as where as: "\<forall>stack acc. gather n f ?k (a # stack) acc = gather n f ?k stack (acc @ as)" "stands_for m f ?k as a"
    using gather_net [OF wf f g rk i(2) c(3) i(1)] c(2) by auto
  obtain bs where bs: "\<forall>stack acc. gather n f ?k (b # stack) acc = gather n f ?k stack (acc @ bs)" "stands_for m f ?k bs b"
    using gather_net [OF wf f g rk i(2) c(4) i(1)] c(2) by auto
  have "gather n f ?k [b, a] [] = Some (bs @ as)" using as(1) bs(1) by (simp add: gather.simps [of n f ?k "[]"])
  moreover have "chain_at m f n i ?k (bs @ as)" using i c(1) as(2) bs(2) unfolding chain_at_def dissolved_def by auto
  ultimately show ?thesis using c(2) by auto
qed

text \<open>The value at the root, and what grows along the cells stays below it.\<close>

lemma chain_at_value:
  assumes c: "chain_at m f n i k ls" and v: "\<And>j. dissolved m f j \<Longrightarrow> holds v (gm_cells m ! j)"
  shows "holds v (gm_cells m ! i) \<longleftrightarrow> v (c_output (gm_cells m ! i)) = scan k (map v ls)"
proof -
  obtain a b as bs where c': "gm_cells m ! i = \<lparr>c_kind = k, c_inputs = [a, b], c_output = c_output (gm_cells m ! i)\<rparr>"
    "ls = bs @ as" "stands_for m f k as a" "stands_for m f k bs b" and k: "is_assoc k" using c unfolding chain_at_def by blast
  have "v a = scan k (map v as)" "v b = scan k (map v bs)" "as \<noteq> []" "bs \<noteq> []" using c'(3,4) v unfolding stands_for_def by blast+
  then have "scan k (map v ls) = cell_fn k [v a, v b]" using c'(2) scan_append [OF k] op_comm [OF k] by (simp add: op_of_def)
  moreover have "c_kind (gm_cells m ! i) = k" "c_inputs (gm_cells m ! i) = [a, b]" by (subst c'(1), simp)+
  ultimately show ?thesis by (simp add: holds_def)
qed

lemma chain_at_below:
  assumes c: "chain_at m f n i k ls" and L: "\<And>j x. dissolved m f j \<Longrightarrow> x \<in> set (c_inputs (gm_cells m ! j)) \<Longrightarrow> L x < (L (c_output (gm_cells m ! j)) :: nat)"
    and out: "\<And>x. x \<in> set (c_inputs (gm_cells m ! i)) \<Longrightarrow> L x < L (c_output (gm_cells m ! i))"
  shows "\<forall>l \<in> set ls. L l < L (c_output (gm_cells m ! i))" "sum_list (map (\<lambda>l. 2 ^ L l) ls) \<le> (2 :: nat) ^ L (c_output (gm_cells m ! i))"
proof -
  obtain a b as bs where c': "gm_cells m ! i = \<lparr>c_kind = k, c_inputs = [a, b], c_output = c_output (gm_cells m ! i)\<rparr>"
    "ls = bs @ as" "stands_for m f k as a" "stands_for m f k bs b" using c unfolding chain_at_def by blast
  have "c_inputs (gm_cells m ! i) = [a, b]" by (subst c'(1), simp)
  then have lt: "L a < L (c_output (gm_cells m ! i))" "L b < L (c_output (gm_cells m ! i))" using out by simp_all
  have la: "(\<forall>l \<in> set as. L l \<le> L a) \<and> sum_list (map (\<lambda>l. 2 ^ L l) as) \<le> (2 :: nat) ^ L a" using c'(3) L unfolding stands_for_def by blast
  have lb: "(\<forall>l \<in> set bs. L l \<le> L b) \<and> sum_list (map (\<lambda>l. 2 ^ L l) bs) \<le> (2 :: nat) ^ L b" using c'(4) L unfolding stands_for_def by blast
  show "\<forall>l \<in> set ls. L l < L (c_output (gm_cells m ! i))" using la lb lt c'(2) by fastforce
  have "sum_list (map (\<lambda>l. 2 ^ L l) ls) \<le> (2 :: nat) ^ L b + 2 ^ L a" using la lb c'(2) by simp
  also have "\<dots> \<le> 2 ^ L (c_output (gm_cells m ! i))" by (rule power_two_below [OF lt(2,1)])
  finally show "sum_list (map (\<lambda>l. 2 ^ L l) ls) \<le> (2 :: nat) ^ L (c_output (gm_cells m ! i))" .
qed

lemma chain_at_leaves:
  assumes "chain_at m f n i k ls"
  shows "ls \<noteq> []" "\<And>l. l \<in> set ls \<Longrightarrow> l < length (gm_nets m)"
proof -
  obtain a b as bs where "ls = bs @ as" "stands_for m f k as a" "stands_for m f k bs b" using assms unfolding chain_at_def by blast
  then show "ls \<noteq> []" "\<And>l. l \<in> set ls \<Longrightarrow> l < length (gm_nets m)" unfolding stands_for_def by auto
qed

lemma chain_at_kind: "chain_at m f n i k ls \<Longrightarrow> c_kind (gm_cells m ! i) = k"
  unfolding chain_at_def by (metis cell.select_convs(1))

lemma grown_dissolved:
  assumes wf: "wf_module m" and g: "grown m f n" and d: "dissolved m f j"
  shows "gm_cells n ! j = gm_cells m ! j" "j < length (gm_cells n)" "driver (gm_nets n ! c_output (gm_cells m ! j)) = DCell j"
proof -
  have jm: "j < length (gm_cells m)" "driver (gm_nets m ! c_output (gm_cells m ! j)) = DCell j" using d by (simp_all add: dissolved_def)
  have "c_output (gm_cells m ! j) < length (gm_nets m)" using wf nth_mem [OF jm(1)] by (auto simp: wf_module_def module_cell_wf_def)
  then show "driver (gm_nets n ! c_output (gm_cells m ! j)) = DCell j" using g jm(2) unfolding grown_def by (auto simp: nth_append)
  show "gm_cells n ! j = gm_cells m ! j" "j < length (gm_cells n)" using g d jm(1) unfolding grown_def by auto
qed

text \<open>Re-linking the root to the tree over its leaves.\<close>

lemma relink_root:
  assumes wf: "wf_module n" and g: "grown m f n" and c: "chain_at m f n i k ls" and gt: "gated n n1 cs"
    and x: "x < length (gm_nets n1)" "y < length (gm_nets n1)"
    and n': "n' = n1\<lparr>gm_cells := (gm_cells n1)[i := (gm_cells n1 ! i)\<lparr>c_inputs := [x, y]\<rparr>]\<rparr>"
  shows "relinked n n1 n' cs {i}" "i < length (gm_cells n)" "gm_cells n' ! i = \<lparr>c_kind = k, c_inputs = [x, y], c_output = c_output (gm_cells m ! i)\<rparr>"
proof -
  have i: "i < length (gm_cells n)" "gm_cells n ! i = gm_cells m ! i" "is_assoc k" "c_kind (gm_cells m ! i) = k"
    using c g unfolding chain_at_def grown_def by (auto, metis cell.select_convs(1))
  then have i1: "i < length (gm_cells n1)" "gm_cells n1 ! i = gm_cells m ! i" using gt by (simp_all add: gated_def nth_append)
  have "wf_module n'" unfolding n'
    by (rule wf_relink [OF gated_wf [OF gt] i1(1)]) (use i(3,4) i1(2) x arity_assoc in auto)
  then show "relinked n n1 n' cs {i}" using gt i(1) i1(1) by (auto simp: relinked_def n' same_pins_def nth_list_update)
  show "gm_cells n' ! i = \<lparr>c_kind = k, c_inputs = [x, y], c_output = c_output (gm_cells m ! i)\<rparr>" using i1 i(4) n' by simp
qed (use c g in \<open>auto simp: chain_at_def grown_def\<close>)

lemma root_rebuilt:
  assumes wf: "wf_module n" and g: "grown m f n" and c: "chain_at m f n i k ls" and gt: "gated n n1 cs" and wm: "wf_module m"
    and h: "mset (map snd h) = mset ls" and mg: "merged k h (length (gm_nets n)) cs x y"
    and x: "x < length (gm_nets n1)" "y < length (gm_nets n1)"
    and n': "n' = n1\<lparr>gm_cells := (gm_cells n1)[i := (gm_cells n1 ! i)\<lparr>c_inputs := [x, y]\<rparr>]\<rparr>"
  shows "rebuilt n n'"
proof (rule relinked_rebuilt [OF relink_root(1) [OF wf g c gt x n'] wf])
  note r = relink_root [OF wf g c gt x n']
  have k: "is_assoc k" and eq: "gm_cells n ! i = gm_cells m ! i" and nd: "\<not> dissolved m f i" and im: "i < length (gm_cells m)"
    using c unfolding chain_at_def by simp_all
  note ls = chain_at_leaves [OF c]
  have old: "gm_cells n ! j = gm_cells m ! j" "j < length (gm_cells n)" "j \<noteq> i" "driver (gm_nets n ! c_output (gm_cells m ! j)) = DCell j"
    if "dissolved m f j" for j using grown_dissolved [OF wm g that] that nd by auto
  show "(\<forall>j \<in> {i}. holds v (gm_cells n' ! j)) \<longleftrightarrow> (\<forall>j \<in> {i}. holds v (gm_cells n ! j))"
    if v: "\<And>c. c \<in> set cs \<Longrightarrow> holds v c" "\<And>j. j < length (gm_cells n) \<Longrightarrow> j \<notin> {i} \<Longrightarrow> holds v (gm_cells n ! j)" for v
  proof -
    have "holds v (gm_cells m ! j)" if "dissolved m f j" for j using v(2) [of j] old [OF that] by simp
    note val = chain_at_value [OF c this]
    have "cell_fn k [v x, v y] = scan k (map v (map snd h))" using mg v(1) unfolding merged_def by (simp add: op_of_def comp_def)
    also have "\<dots> = scan k (map v ls)" using h ls(1) by (intro scan_perm [OF k]) (metis mset_map, auto)
    finally show ?thesis using val r(3) eq by (simp add: holds_def)
  qed
  fix q t j z
  assume q: "ranked q n" and t: "tops t cs" "\<And>a. a < length (gm_nets n) \<Longrightarrow> t a = q a" and j: "j \<in> {i}"
    "driver (gm_nets n ! c_output (gm_cells n ! j)) = DCell j" "z \<in> set (c_inputs (gm_cells n' ! j))"
  let ?out = "c_output (gm_cells m ! i)"
  have N: "length (gm_nets m) \<le> length (gm_nets n)" using g unfolding grown_def by auto
  have out: "c_output (gm_cells m ! a) < length (gm_nets n)" if "a < length (gm_cells m)" for a
    using wm nth_mem [OF that] N by (fastforce simp: wf_module_def module_cell_wf_def)
  have "q a < q (c_output (gm_cells m ! b))" if "dissolved m f b" "a \<in> set (c_inputs (gm_cells m ! b))" for a b
    using q old [OF that(1)] that out [of b] unfolding ranked_def dissolved_def by metis
  moreover have "q a < q ?out" if "a \<in> set (c_inputs (gm_cells m ! i))" for a
    using q j(1,2) that eq out [OF im] unfolding ranked_def by (metis singletonD)
  ultimately have "\<forall>l \<in> set ls. q l < q ?out" using chain_at_below(1) [OF c] by blast
  moreover have "\<forall>l \<in> set ls. l < length (gm_nets n)" using ls(2) N less_le_trans by blast
  moreover have "snd ` set h = set ls" using h by (metis mset_eq_setD list.set_map)
  ultimately have "\<forall>p \<in> set h. t (snd p) < q ?out" using t(2) by (metis image_eqI)
  then have "t x < q ?out" "t y < q ?out" using mg t(1) unfolding merged_def by blast+
  then show "t z < q (c_output (gm_cells n ! j))" using j r(3) eq by auto
qed

lemma relinked_level_bound:
  assumes wf: "wf_module n" and re: "relinked n n1 n' cs {i}" and U: "level_bound U n"
    and U': "\<And>a. a < length (gm_nets n) \<Longrightarrow> U' a = U a" "deeper U' cs"
    and root: "\<And>z. driver (gm_nets n ! c_output (gm_cells n ! i)) = DCell i \<Longrightarrow> z \<in> set (c_inputs (gm_cells n' ! i)) \<Longrightarrow>
      U' z + of_bool (c_kind (gm_cells n' ! i) \<noteq> Buf) \<le> U (c_output (gm_cells n ! i))"
  shows "level_bound U' n'"
  unfolding level_bound_def
proof (intro allI impI ballI)
  note k = relinked_cells [OF re]
  have gt: "gated n n1 cs" and nets: "gm_nets n' = gm_nets n1" using re by (simp_all add: relinked_def)
  fix j a assume j: "j < length (gm_cells n')" "driver (gm_nets n' ! c_output (gm_cells n' ! j)) = DCell j" "a \<in> set (c_inputs (gm_cells n' ! j))"
  show "U' a + of_bool (c_kind (gm_cells n' ! j) \<noteq> Buf) \<le> U' (c_output (gm_cells n' ! j))"
  proof (cases "j < length (gm_cells n)")
    case True
    have out: "c_output (gm_cells n ! j) < length (gm_nets n)" using wf nth_mem [OF True] by (auto simp: wf_module_def module_cell_wf_def)
    then have d: "driver (gm_nets n ! c_output (gm_cells n ! j)) = DCell j" using j(2) k(4) [OF True] gated_old [OF gt] nets by simp
    show ?thesis
    proof (cases "j = i")
      case True
      then show ?thesis using root [of a] d j(3) U'(1) [OF out] k(4) [OF \<open>j < length (gm_cells n)\<close>] by simp
    next
      case False
      then have same: "gm_cells n' ! j = gm_cells n ! j" using k(2) [OF True] by simp
      have "a < length (gm_nets n)" using wf_module_inputs [OF wf True] j(3) same by simp
      then show ?thesis using U True d j(3) out U'(1) unfolding level_bound_def same by simp
    qed
  next
    case False
    then have "gm_cells n' ! j \<in> set cs" using k(1,3) j(1) by (metis le_add_diff_inverse nat_add_left_cancel_less not_le nth_mem)
    then show ?thesis using U'(2) j(3) unfolding deeper_def by force
  qed
qed

text \<open>The levels of the old nets still bound those of the new module.\<close>

lemma root_levels:
  assumes wf: "wf_module n" and g: "grown m f n" and c: "chain_at m f n i k ls" and gt: "gated n n1 cs" and wm: "wf_module m"
    and mg: "merged k h (length (gm_nets n)) cs x y" and x: "x < length (gm_nets n1)" "y < length (gm_nets n1)"
    and n': "n' = n1\<lparr>gm_cells := (gm_cells n1)[i := (gm_cells n1 ! i)\<lparr>c_inputs := [x, y]\<rparr>]\<rparr>"
    and L: "level_bound L m" and h: "mset h = mset (map (\<lambda>l. (L l, l)) ls)"
    and U: "\<And>a. a < length (gm_nets m) \<Longrightarrow> U a = L a" "level_bound U n"
  shows "\<exists>U'. (\<forall>a < length (gm_nets m). U' a = L a) \<and> level_bound U' n'"
proof -
  note r = relink_root [OF wf g c gt x n'] and re = relinked_cells [OF relink_root(1) [OF wf g c gt x n']]
  let ?N = "length (gm_nets n)" and ?out = "c_output (gm_cells m ! i)"
  have N: "length (gm_nets m) \<le> ?N" using g unfolding grown_def by auto
  have im: "i < length (gm_cells m)" and k: "c_kind (gm_cells m ! i) = k" "k \<noteq> Buf" and eq: "gm_cells n ! i = gm_cells m ! i"
    using c chain_at_kind [OF c] unfolding chain_at_def by (auto simp: is_assoc_def)
  have outm: "?out < length (gm_nets m)" using wm nth_mem [OF im] by (auto simp: wf_module_def module_cell_wf_def)
  have "\<forall>p \<in> set h. U (snd p) \<le> fst p" using mset_eq_setD [OF h] chain_at_leaves(2) [OF c] U(1) by auto
  then obtain U' where U': "\<forall>a < ?N. U' a = U a" "deeper U' cs" "\<forall>D. weight h \<le> 2 ^ D \<longrightarrow> U' x < D \<and> U' y < D"
    using mg unfolding merged_def by blast
  have grow: "L a < L (c_output (gm_cells m ! j))" if "dissolved m f j" "a \<in> set (c_inputs (gm_cells m ! j))" for a j
    using L that unfolding level_bound_def dissolved_def is_assoc_def by fastforce
  have weight: "weight h = sum_list (map (\<lambda>l. 2 ^ L l) ls)"
    using arg_cong [OF h, of "\<lambda>M. sum_mset (image_mset (\<lambda>p. 2 ^ fst p) M)"] by (simp add: weight_def sum_mset_sum_list comp_def flip: mset_map)
  have root: "U' z < L ?out" if d: "driver (gm_nets m ! ?out) = DCell i" and z: "z \<in> {x, y}" for z
  proof -
    have "L a < L ?out" if "a \<in> set (c_inputs (gm_cells m ! i))" for a
      using L im d that k unfolding level_bound_def by fastforce
    from chain_at_below(2) [where L = L, OF c grow this] have "weight h \<le> 2 ^ L ?out" using weight by simp
    then show ?thesis using U'(3) z by auto
  qed
  have root': "U' z + of_bool (c_kind (gm_cells n' ! i) \<noteq> Buf) \<le> U ?out"
    if d: "driver (gm_nets n ! ?out) = DCell i" "z \<in> set (c_inputs (gm_cells n' ! i))" for z
  proof -
    have "driver (gm_nets m ! ?out) = DCell i" using d(1) g outm unfolding grown_def by (auto simp: nth_append)
    then have "U' z < L ?out" using root d(2) r(3) by simp
    then show ?thesis using r(3) k U(1) outm by simp
  qed
  have "level_bound U' n'"
    by (rule relinked_level_bound [OF wf relink_root(1) [OF wf g c gt x n'] U(2) _ U'(2)]) (use U'(1) root' eq in auto)
  moreover have "\<forall>a < length (gm_nets m). U' a = L a" using U'(1) U(1) N by simp
  ultimately show ?thesis by blast
qed

lemma leaves_levels:
  assumes "\<And>n. n \<in> set ls \<Longrightarrow> n < length level \<and> level ! n \<noteq> None"
  shows "those (map (\<lambda>n. do { l \<leftarrow> nth_opt level n; l \<leftarrow> l; Some (l, n) }) ls) = Some (map (\<lambda>n. (the (level ! n), n)) ls)"
  using assms
proof (induction ls)
  case (Cons n ls)
  then obtain l where "level ! n = Some l" "n < length level" by auto
  then show ?case using Cons by simp
qed simp

lemma rebalance_step:
  assumes wm: "wf_module m" and f: "census (length (gm_nets m)) (readers (gm_cells m)) (sinks m) f" and rk: "ranked r m"
    and level: "length level = length (gm_nets m)" "\<And>n. n < length (gm_nets m) \<Longrightarrow> level ! n \<noteq> None" and L: "level_bound (\<lambda>n. the (level ! n)) m"
    and i: "i < length (gm_cells m)" "is_assoc (c_kind (gm_cells m ! i))" "is_interior_node f i m = Some False" "i \<notin> D"
    and b: "balanced m f (\<lambda>n. the (level ! n)) D n"
  shows "\<exists>n' ch'. rebalance_chain f level i (n, ch) = Some (n', ch') \<and> balanced m f (\<lambda>n. the (level ! n)) (insert i D) n'
    \<and> (\<not> ch' \<longrightarrow> \<not> ch \<and> n' = n)"
proof -
  let ?L = "\<lambda>n. the (level ! n)" and ?k = "c_kind (gm_cells m ! i)"
  have n: "wf_module n" "rebuilt m n" "grown m f n" "gm_cells n ! i = gm_cells m ! i"
    "\<And>j. j < length (gm_cells m) \<Longrightarrow> j \<notin> D \<Longrightarrow> gm_cells n ! j = gm_cells m ! j" using b i unfolding balanced_def by simp_all
  obtain U where U: "\<And>a. a < length (gm_nets m) \<Longrightarrow> U a = ?L a" "level_bound U n" using b unfolding balanced_def by blast
  obtain ls where ls: "gather n f ?k (rev (c_inputs (gm_cells m ! i))) [] = Some ls" and c: "chain_at m f n i ?k ls"
    using chain_at_gather [OF wm f rk n(3) i(1-3) n(4)] by blast
  have ci: "cell_at n i = Some (gm_cells m ! i)" using n(3,4) i(1) unfolding grown_def by (simp add: cell_at_def)
  show ?thesis
  proof (cases "length ls < MIN_CHAIN_LEAVES")
    case True
    then have "rebalance_chain f level i (n, ch) = Some (n, ch)" using ci ls by (simp add: rebalance_chain_def)
    then show ?thesis using balanced_mono [OF b, of "insert i D"] by auto
  next
    case False
    let ?h = "fold heap_push (map (\<lambda>l. (?L l, l)) ls) []"
    note lv = chain_at_leaves(2) [OF c]
    have h: "mset ?h = mset (map (\<lambda>l. (?L l, l)) ls)" "sorted (map fst ?h)"
      using heap_of(1) [of "map (\<lambda>l. (?L l, l)) ls" "[]"] heap_of(2) [of "[]" "map (\<lambda>l. (?L l, l)) ls"] by simp_all
    have hl: "length ?h = length ls" using mset_eq_length [OF h(1)] by simp
    then have len: "length ?h = Suc (Suc (length ls - 2))" "length ls - 1 = Suc (length ls - 2)" using False by (simp_all add: MIN_CHAIN_LEAVES_def)
    have range: "snd p < length (gm_nets n)" if "p \<in> set ?h" for p
      using mset_eq_setD [OF h(1)] that lv n(3) unfolding grown_def by fastforce
    have in_n: "i < length (gm_cells n)" using i(1) n(3) unfolding grown_def by simp
    obtain n1 cs x y where x: "gated n n1 cs" "x < length (gm_nets n1)" "y < length (gm_nets n1)" "merged ?k ?h (length (gm_nets n)) cs x y"
      "combine ?k i (Suc (length ls - 2)) ?h n = Some (n1\<lparr>gm_cells := (gm_cells n1)[i := (gm_cells n1 ! i)\<lparr>c_inputs := [x, y]\<rparr>]\<rparr>)"
      using combine_spec [OF n(1) i(2) in_n len(1) h(2) range] by blast
    define n' where n': "n' = n1\<lparr>gm_cells := (gm_cells n1)[i := (gm_cells n1 ! i)\<lparr>c_inputs := [x, y]\<rparr>]\<rparr>"
    have "map snd (map (\<lambda>l. (?L l, l)) ls) = ls" by (simp add: comp_def)
    moreover have "mset (map snd ?h) = image_mset snd (mset (map (\<lambda>l. (?L l, l)) ls))" unfolding h(1) [symmetric] by (rule mset_map)
    ultimately have "mset (map snd ?h) = mset ls" by (simp only: flip: mset_map)
    note rb = root_rebuilt [OF n(1,3) c x(1) wm this x(4,2,3) n']
    note re = relink_root [OF n(1,3) c x(1-3) n'] and rc = relinked_cells [OF relink_root(1) [OF n(1,3) c x(1-3) n']]
    obtain U' where U': "(\<forall>a < length (gm_nets m). U' a = ?L a) \<and> level_bound U' n'"
      using root_levels [where U = U and L = ?L, OF n(1,3) c x(1) wm x(4,2,3) n' L h(1) U(1) U(2)] by auto
    have le: "length (gm_cells m) \<le> length (gm_cells n)" using n(3) unfolding grown_def by simp
    have same: "gm_cells n' ! j = gm_cells n ! j" if "j < length (gm_cells m)" "j \<noteq> i" for j using rc(2) that le by simp
    have kinds: "c_kind (gm_cells n' ! j) = c_kind (gm_cells m ! j) \<and> c_output (gm_cells n' ! j) = c_output (gm_cells m ! j)" if "j < length (gm_cells m)" for j
      using same [OF that] re(3) n(3) that unfolding grown_def by (cases "j = i") simp_all
    have "gm_cells n' ! j = gm_cells m ! j" if "dissolved m f j" for j
      using same [of j] n(3) that c unfolding grown_def chain_at_def by (metis dissolved_def)
    moreover have "\<exists>ns. gm_nets n' = gm_nets m @ ns" using n(2) rb unfolding rebuilt_def by (metis append.assoc)
    ultimately have "grown m f n'" using kinds le rc(1) unfolding grown_def by simp
    moreover have "wf_module n'" using re(1) unfolding relinked_def by blast
    ultimately have "balanced m f ?L (insert i D) n'" using rebuilt_trans [OF n(2) rb] U' same n(5) unfolding balanced_def by auto
    moreover have "rebalance_chain f level i (n, ch) = Some (n', True)"
      using ci ls False x(5) len(2) leaves_levels [of ls level] level lv n' by (simp add: rebalance_chain_def)
    ultimately show ?thesis by blast
  qed
qed

subsection \<open>The pass\<close>

lemma interior_total:
  assumes wf: "wf_module m" and f: "census (length (gm_nets m)) (readers (gm_cells m)) (sinks m) f" and i: "i < length (gm_cells m)"
  shows "\<exists>b. is_interior_node f i m = Some b"
proof -
  let ?out = "c_output (gm_cells m ! i)"
  have out: "?out < length (gm_nets m)" using wf nth_mem [OF i] by (auto simp: wf_module_def module_cell_wf_def)
  obtain one where one: "single_reader f ?out = Some one" using single_reader_total [OF f out] by blast
  show ?thesis
  proof (cases one)
    case True
    then have "fo_count f ! ?out = 1" "\<not> fo_non_cell f ! ?out" using one f out by (auto simp: single_reader_def census_def)
    then have reads: "reads ?out (readers (gm_cells m)) = 1" using f out by (simp add: census_def count_list_0_iff)
    show ?thesis
    proof (cases "fo_consumer f ! ?out")
      case None
      then have "?out \<notin> set (map snd (readers (gm_cells m)))" using f out unfolding census_def by (metis list.set_map option.simps(4))
      then show ?thesis using reads unfolding reads_def by (metis count_list_0_iff zero_neq_one)
    next
      case (Some j)
      then have "(j, ?out) \<in> set (readers (gm_cells m))" using f out unfolding census_def by (metis option.simps(5))
      then have "j < length (gm_cells m)" by (simp add: readers_iff)
      then show ?thesis using one Some i True by (simp add: is_interior_node_def cell_at_def)
    qed
  qed (use one i in \<open>auto simp: is_interior_node_def cell_at_def\<close>)
qed

lemma find_roots_spec:
  assumes wf: "wf_module m" and f: "census (length (gm_nets m)) (readers (gm_cells m)) (sinks m) f"
  shows "\<exists>roots. find_roots f m = Some roots \<and> distinct roots \<and> (\<forall>i \<in> set roots. i < length (gm_cells m)
    \<and> is_assoc (c_kind (gm_cells m ! i)) \<and> is_interior_node f i m = Some False)"
proof -
  let ?g = "\<lambda>(i, c). if is_assoc (c_kind c) then map_option HOL.Not (is_interior_node f i m) else Some False"
  define bs where "bs = map (\<lambda>i. the (?g (i, gm_cells m ! i))) [0..<length (gm_cells m)]"
  have g: "?g (i, gm_cells m ! i) = Some (bs ! i)" if "i < length (gm_cells m)" for i
    using interior_total [OF wf f that] that by (auto simp: bs_def)
  have en: "enumerate 0 (gm_cells m) = map (\<lambda>i. (i, gm_cells m ! i)) [0..<length (gm_cells m)]"
    by (rule nth_equalityI) (simp_all add: nth_enumerate_eq)
  have "those (map ?g (enumerate 0 (gm_cells m))) = Some (map (\<lambda>i. bs ! i) [0..<length (gm_cells m)])"
    unfolding en map_map comp_def by (rule those_map_Some) (use g in simp)
  moreover have "map (\<lambda>i. bs ! i) [0..<length (gm_cells m)] = bs" by (rule nth_equalityI) (simp_all add: bs_def)
  ultimately have bs: "those (map ?g (enumerate 0 (gm_cells m))) = Some bs" by simp
  have len: "length bs = length (gm_cells m)" by (simp add: bs_def)
  let ?r = "map fst (filter snd (enumerate 0 bs))"
  have "distinct ?r" by (simp add: distinct_map_filter)
  moreover have "i < length (gm_cells m) \<and> is_assoc (c_kind (gm_cells m ! i)) \<and> is_interior_node f i m = Some False" if "i \<in> set ?r" for i
  proof -
    have i: "i < length bs" "bs ! i" using that by (auto simp: in_set_enumerate_eq)
    then show ?thesis using g [of i] len by (auto split: if_splits)
  qed
  ultimately show ?thesis using bs by (simp add: find_roots_def)
qed

lemma rebalance_roots:
  assumes wm: "wf_module m" and f: "census (length (gm_nets m)) (readers (gm_cells m)) (sinks m) f" and rk: "ranked r m"
    and level: "length level = length (gm_nets m)" "\<And>n. n < length (gm_nets m) \<Longrightarrow> level ! n \<noteq> None" and L: "level_bound (\<lambda>n. the (level ! n)) m"
    and roots: "distinct roots" "set roots \<inter> D = {}"
      "\<And>i. i \<in> set roots \<Longrightarrow> i < length (gm_cells m) \<and> is_assoc (c_kind (gm_cells m ! i)) \<and> is_interior_node f i m = Some False"
    and b: "balanced m f (\<lambda>n. the (level ! n)) D n"
  shows "\<exists>n' ch' E. fold_opt (rebalance_chain f level) roots (n, ch) = Some (n', ch') \<and> balanced m f (\<lambda>n. the (level ! n)) E n'
    \<and> (\<not> ch' \<longrightarrow> \<not> ch \<and> n' = n)"
  using roots b
proof (induction roots arbitrary: D n ch)
  case (Cons i roots)
  have i: "i < length (gm_cells m)" "is_assoc (c_kind (gm_cells m ! i))" "is_interior_node f i m = Some False" "i \<notin> D"
    using Cons.prems(2,3) by auto
  obtain n1 c1 where s: "rebalance_chain f level i (n, ch) = Some (n1, c1)" "balanced m f (\<lambda>n. the (level ! n)) (insert i D) n1"
    "\<not> c1 \<longrightarrow> \<not> ch \<and> n1 = n"
    using rebalance_step [OF wm f rk level L i Cons.prems(4)] by blast
  have "set roots \<inter> insert i D = {}" using Cons.prems(1,2) by auto
  then obtain n' c' E where t: "fold_opt (rebalance_chain f level) roots (n1, c1) = Some (n', c')"
    "balanced m f (\<lambda>n. the (level ! n)) E n'" "\<not> c' \<longrightarrow> \<not> c1 \<and> n' = n1"
    using Cons.IH [OF _ _ _ s(2), of c1] Cons.prems(1,3) by auto
  have "fold_opt (rebalance_chain f level) (i # roots) (n, ch) = Some (n', c')" using s(1) t(1) by simp
  then show ?case using s(3) t(2,3) by blast
qed auto

lemma levels_bound:
  assumes wf: "wf_module m" and ok: "levels_ok m level" and all: "\<And>n. n < length (gm_nets m) \<Longrightarrow> level ! n \<noteq> None"
  shows "level_bound (\<lambda>n. the (level ! n)) m"
  unfolding level_bound_def
proof (intro allI impI ballI)
  fix i x assume i: "i < length (gm_cells m)" "driver (gm_nets m ! c_output (gm_cells m ! i)) = DCell i" "x \<in> set (c_inputs (gm_cells m ! i))"
  let ?c = "gm_cells m ! i"
  have out: "c_output ?c < length (gm_nets m)" using wf nth_mem [OF i(1)] by (auto simp: wf_module_def module_cell_wf_def)
  obtain l where l: "level ! c_output ?c = Some l" using all [OF out] by blast
  have "level_eq m level (c_output ?c)" using ok out by (simp add: levels_ok_def)
  then have "l = fold_level level ?c" using l i(2) by (simp add: level_eq_def)
  moreover have "the (level ! x) \<le> fold max (map (\<lambda>i. the (level ! i)) (c_inputs ?c)) 0" using i(3) fold_max by fastforce
  ultimately show "the (level ! x) + of_bool (c_kind ?c \<noteq> Buf) \<le> the (level ! c_output ?c)" using l by (simp add: fold_level_def)
qed

text \<open>The computed levels are the least bound.\<close>

lemma levels_least:
  assumes wf: "wf_module m" and rk: "ranked r m" and ok: "levels_ok m level" and all: "\<And>n. n < length (gm_nets m) \<Longrightarrow> level ! n \<noteq> None"
    and U: "level_bound U m" and "n < length (gm_nets m)"
  shows "the (level ! n) \<le> U n"
  using assms(6)
proof (induction "r n" arbitrary: n rule: less_induct)
  case less
  obtain l where l: "level ! n = Some l" using all [OF less.prems] by blast
  have eq: "level_eq m level n" using ok less.prems by (simp add: levels_ok_def)
  show ?case
  proof (cases "driver (gm_nets m ! n)")
    case (DCell i)
    have i: "i < length (gm_cells m)" "c_output (gm_cells m ! i) = n" using wf_module_driver [OF wf less.prems DCell] by simp_all
    let ?c = "gm_cells m ! i" and ?b = "of_bool (c_kind (gm_cells m ! i) \<noteq> Buf) :: nat"
    have "the (level ! x) + ?b \<le> U n" if x: "x \<in> set (c_inputs ?c)" for x
    proof -
      have "r x < r n" "x < length (gm_nets m)" using rk less.prems DCell x wf_module_inputs [OF wf i(1) x] by (auto simp: ranked_def)
      then have "the (level ! x) \<le> U x" by (rule less.hyps)
      moreover have "U x + ?b \<le> U n" using U i DCell x unfolding level_bound_def by blast
      ultimately show ?thesis by simp
    qed
    note below = this
    have "c_inputs ?c \<noteq> []" using wf_module_arity [OF wf i(1)] by (cases "c_kind ?c") auto
    then obtain x where "x \<in> set (c_inputs ?c)" by fastforce
    then have "?b \<le> U n" using below by fastforce
    moreover have "\<forall>k \<in> set (map (\<lambda>i. the (level ! i)) (c_inputs ?c)). k \<le> U n - ?b" using below by fastforce
    then have "fold max (map (\<lambda>i. the (level ! i)) (c_inputs ?c)) 0 \<le> U n - ?b" using fold_max by blast
    ultimately have "fold_level level ?c \<le> U n" by (simp add: fold_level_def)
    then show ?thesis using eq l DCell by (simp add: level_eq_def)
  qed (use eq l in \<open>simp_all add: level_eq_def\<close>)
qed

lemma balance_spec:
  assumes "wf_module m" "ranked r m" "compute_levels m = Some level" "levels_ok m level" "\<And>n. n < length (gm_nets m) \<Longrightarrow> level ! n \<noteq> None"
  shows "\<exists>f m' ch E. balance_assoc_chains m = Some (m', ch) \<and> balanced m f (\<lambda>n. the (level ! n)) E m' \<and> (\<not> ch \<longrightarrow> m' = m)"
proof -
  obtain f where f: "compute_fanout m = Some f" "census (length (gm_nets m)) (readers (gm_cells m)) (sinks m) f"
    using compute_fanout_spec [OF assms(1)] by blast
  obtain roots where roots: "find_roots f m = Some roots" "distinct roots"
    "\<And>i. i \<in> set roots \<Longrightarrow> i < length (gm_cells m) \<and> is_assoc (c_kind (gm_cells m ! i)) \<and> is_interior_node f i m = Some False"
    using find_roots_spec [OF assms(1) f(2)] by blast
  have len: "length level = length (gm_nets m)" using assms(4) by (simp add: levels_ok_def)
  note L = levels_bound [OF assms(1,4,5)]
  have b: "balanced m f (\<lambda>n. the (level ! n)) {} m" using assms(1) L rebuilt_refl unfolding balanced_def grown_def by auto
  obtain m' ch E where "fold_opt (rebalance_chain f level) roots (m, False) = Some (m', ch)" "balanced m f (\<lambda>n. the (level ! n)) E m'"
    "\<not> ch \<longrightarrow> m' = m"
    using rebalance_roots [OF assms(1) f(2) assms(2) len assms(5) L roots(2) _ roots(3) b, of False] by auto
  moreover from this(1) have "balance_assoc_chains m = Some (m', ch)" using f(1) assms(3) roots(1) by (simp add: balance_assoc_chains_def)
  ultimately show ?thesis by blast
qed

lemma balance_rebuilds:
  assumes "wf_module m" "ranked r m"
  shows "\<exists>m' ch. balance_assoc_chains m = Some (m', ch) \<and> wf_module m' \<and> rebuilt m m' \<and> (\<not> ch \<longrightarrow> m' = m)"
proof -
  obtain level where "compute_levels m = Some level" "levels_ok m level" "\<And>n. n < length (gm_nets m) \<Longrightarrow> level ! n \<noteq> None"
    using compute_levels_spec [OF assms] by blast
  from balance_spec [OF assms this] obtain f m' ch E where
    run: "balance_assoc_chains m = Some (m', ch)" "\<not> ch \<longrightarrow> m' = m" and st: "balanced m f (\<lambda>n. the (level ! n)) E m'" by blast
  have "wf_module m'" "rebuilt m m'" using st unfolding balanced_def by blast+
  then show ?thesis using run by blast
qed

interpretation balance: depth_pass balance_assoc_chains
  by unfold_locales (use balance_rebuilds in blast)

text \<open>
  C29: on a well-formed acyclic netlist the rebalancing ends without a panic.  The result is
  well formed and keeps the name, the ports, the flip-flops, the memories and every net of the
  old module, adds nets behind them, and constrains the old nets exactly as before: every
  assignment of the old module extends to one of the new, and every assignment of the new one
  is one of the old.  It has no combinational cycle, and no second driver of a net if the old
  module had none.  When the pass reports no change it returns its argument.
\<close>
theorem balance_assoc_chains_correct:
  assumes "wf_module m" "ranked r m"
  shows "\<exists>m' ch ns. balance_assoc_chains m = Some (m', ch) \<and> wf_module m' \<and> (\<not> ch \<longrightarrow> m' = m)
    \<and> same_pins m m' \<and> gm_nets m' = gm_nets m @ ns
    \<and> (\<forall>v. msat v m \<longrightarrow> (\<exists>w. msat w m' \<and> (\<forall>n < length (gm_nets m). w n = v n)))
    \<and> (\<forall>w. msat w m' \<longrightarrow> msat w m) \<and> (\<exists>r'. ranked r' m') \<and> (single_driver m \<longrightarrow> single_driver m')"
  using balance_rebuilds [OF assms] assms unfolding rebuilt_def by blast

text \<open>
  C30: the rebalancing deepens no net: the level of every old net, its longest path in gates,
  is afterwards at most what it was.  Pairing the two earliest operands first is optimal.
\<close>
theorem balance_never_deepens:
  assumes "wf_module m" "ranked r m"
  shows "\<exists>m' ch ls ls'. balance_assoc_chains m = Some (m', ch) \<and> compute_levels m = Some (map Some ls)
    \<and> compute_levels m' = Some (map Some ls') \<and> length ls = length (gm_nets m) \<and> (\<forall>n < length (gm_nets m). ls' ! n \<le> ls ! n)"
proof -
  obtain level where l: "compute_levels m = Some level" "levels_ok m level" "\<And>n. n < length (gm_nets m) \<Longrightarrow> level ! n \<noteq> None"
    using compute_levels_spec [OF assms] by blast
  from balance_spec [OF assms this] obtain f m' ch E where
    run: "balance_assoc_chains m = Some (m', ch)" and st: "balanced m f (\<lambda>n. the (level ! n)) E m'" by blast
  obtain U where m': "wf_module m'" "rebuilt m m'" and U: "\<forall>x < length (gm_nets m). U x = the (level ! x)" "level_bound U m'"
    using st unfolding balanced_def by blast
  obtain r' where r': "ranked r' m'" using m'(2) assms(2) unfolding rebuilt_def by blast
  obtain level' where l': "compute_levels m' = Some level'" "levels_ok m' level'" "\<And>n. n < length (gm_nets m') \<Longrightarrow> level' ! n \<noteq> None"
    using compute_levels_spec [OF m'(1) r'] by blast
  have len: "length level = length (gm_nets m)" "length level' = length (gm_nets m')" "length (gm_nets m) \<le> length (gm_nets m')"
    using l(2) l'(2) m'(2) by (auto simp: levels_ok_def rebuilt_def)
  have "the (level' ! n) \<le> the (level ! n)" if "n < length (gm_nets m)" for n
    using levels_least [OF m'(1) r' l'(2,3) U(2), of n] U(1) that len(3) by auto
  moreover have "level = map Some (map the level)" "level' = map Some (map the level')"
    using l(3) l'(3) len by (intro nth_equalityI; auto)+
  ultimately show ?thesis using run l(1) l'(1) len
    by (intro exI [of _ m'] exI [of _ ch] exI [of _ "map the level"] exI [of _ "map the level'"]) auto
qed

text \<open>A ripple of eight AND cells over nine inputs, its last net observed.\<close>

definition and_ripple :: gate_module where
  "and_ripple = \<lparr>gm_name = None,
     gm_ports = [\<lparr>gp_name = 0, gp_path = [], gp_dir = Output, gp_nets = [18]\<rparr>],
     gm_nets = map (\<lambda>d. \<lparr>driver = d, origin = None\<rparr>)
       ([DConst False, DConst True] @ replicate 9 PortInput @ map DCell [0..<8]),
     gm_cells = \<lparr>c_kind = And2, c_inputs = [2, 3], c_output = 11\<rparr> #
       map (\<lambda>i. \<lparr>c_kind = And2, c_inputs = [10 + i, 3 + i], c_output = 11 + i\<rparr>) [1..<8],
     gm_ffs = [], gm_ram_blocks = []\<rparr>"

lemma and_ripple_wf: "wf_module and_ripple"
  by (auto simp: wf_module_def and_ripple_def rails module_cell_wf_def sinks_def ram_inputs_def less_Suc_eq numeral_eq_Suc)

lemma and_ripple_ranked: "ranked id and_ripple"
  by (auto simp: ranked_def and_ripple_def less_Suc_eq numeral_eq_Suc)

lemma and_ripple_levels: "compute_levels and_ripple = Some (map Some ([0,0,0,0,0,0,0,0,0,0,0] @ [1..<9]))"
  by code_simp

lemma and_ripple_balanced: "map_option (\<lambda>(m', ch). (map (\<lambda>c. c_inputs c) (drop 7 (gm_cells m')), ch)) (balance_assoc_chains and_ripple) =
    Some ([[24, 25], [2, 3], [4, 5], [6, 7], [8, 9], [10, 19], [20, 21], [22, 23]], True)"
  by code_simp

lemma and_ripple_changed: "\<exists>m'. balance_assoc_chains and_ripple = Some (m', True)"
  using and_ripple_balanced by (cases "balance_assoc_chains and_ripple") auto

theorem balance_assoc_chains_correct_witness:
  "\<exists>m' ns. balance_assoc_chains and_ripple = Some (m', True) \<and> wf_module m' \<and> same_pins and_ripple m' \<and> gm_nets m' = gm_nets and_ripple @ ns"
  using balance_assoc_chains_correct [OF and_ripple_wf and_ripple_ranked] and_ripple_changed by fastforce

theorem balance_never_deepens_witness:
  "\<exists>m' ls'. balance_assoc_chains and_ripple = Some (m', True) \<and> compute_levels m' = Some (map Some ls') \<and> ls' ! 18 \<le> 8"
proof -
  obtain m' ch ls ls' where r: "balance_assoc_chains and_ripple = Some (m', ch)" "compute_levels and_ripple = Some (map Some ls)"
    "compute_levels m' = Some (map Some ls')" "length ls = 19" "\<forall>n < 19. ls' ! n \<le> ls ! n"
    using balance_never_deepens [OF and_ripple_wf and_ripple_ranked] by (auto simp: and_ripple_def)
  have "map Some ls = map Some ([0,0,0,0,0,0,0,0,0,0,0] @ [1..<9])" using r(2) and_ripple_levels by (simp only: option.inject)
  then have "ls = [0,0,0,0,0,0,0,0,0,0,0] @ [1..<9]" by (simp only: inj_map_eq_map inj_Some)
  then have "ls ! 18 = 8" by simp
  moreover have "ls' ! 18 \<le> ls ! 18" using r(5) by simp
  moreover have "ch" using r(1) and_ripple_changed by auto
  ultimately show ?thesis using r(1,3) by (intro exI [of _ m'] exI [of _ ls']) simp
qed

end
