(* ===== verification/Prefix.thy ===== *)
theory Prefix
  imports Grow
begin

section \<open>Parallel-prefix restructuring (\<open>conv/prefix.rs\<close>)\<close>

text \<open>
  \<open>prefix_parallelize\<close>: linear scans of AND, OR or XOR gates of at least eight cells are
  rebuilt as Sklansky networks, and the cells of the scan become buffers of the network's
  prefixes.  An index out of range is a panic (\<open>None\<close>); so is the network over no leaves,
  where the recursion of the code does not end.  The walk back along a scan does not end on
  a cyclic one and is a partial function.
\<close>

definition MIN_CHAIN_CELLS :: nat where "MIN_CHAIN_CELLS = 8"

text \<open>The cell of kind \<open>k\<close> that drives a net, if there is one.\<close>

definition same_kind_cell :: "gate_module \<Rightarrow> cell_kind \<Rightarrow> net_id \<Rightarrow> nat option option" where
  "same_kind_cell m k inp = do {
     d \<leftarrow> driver_at m inp;
     (case d of
        DCell di \<Rightarrow> do { c \<leftarrow> cell_at m di; Some (if c_kind c = k then Some di else None) }
      | _ \<Rightarrow> Some None)
   }"

definition count_input :: "gate_module \<Rightarrow> cell_kind \<Rightarrow> net_id \<Rightarrow> nat list \<Rightarrow> nat list option" where
  "count_input m k inp counts = do {
     r \<leftarrow> same_kind_cell m k inp;
     Some (case r of Some _ \<Rightarrow> counts[inp := counts ! inp + 1] | None \<Rightarrow> counts)
   }"

definition count_cell :: "gate_module \<Rightarrow> cell \<Rightarrow> nat list \<Rightarrow> nat list option" where
  "count_cell m c counts =
     (if is_assoc (c_kind c) then fold_opt (count_input m (c_kind c)) (c_inputs c) counts else Some counts)"

definition same_kind_consumers :: "gate_module \<Rightarrow> nat list option" where
  "same_kind_consumers m = fold_opt (count_cell m) (gm_cells m) (replicate (length (gm_nets m)) 0)"

text \<open>The loop that finds the predecessor; a tree join or a forked scan returns early.\<close>

fun scan_link :: "gate_module \<Rightarrow> nat list \<Rightarrow> cell_kind \<Rightarrow> net_id list \<Rightarrow> nat option \<Rightarrow> nat option option" where
  "scan_link m counts k [] link = Some link"
| "scan_link m counts k (inp # inps) link = do {
     r \<leftarrow> same_kind_cell m k inp;
     (case r of
        None \<Rightarrow> scan_link m counts k inps link
      | Some di \<Rightarrow>
          if link \<noteq> None then Some None
          else if counts ! inp \<noteq> 1 then Some None
          else scan_link m counts k inps (Some di))
   }"

definition chain_pred :: "gate_module \<Rightarrow> nat list \<Rightarrow> cell \<Rightarrow> nat option option" where
  "chain_pred m counts c = (if is_assoc (c_kind c) then scan_link m counts (c_kind c) (c_inputs c) None else Some None)"

definition mark_linked :: "nat option list \<Rightarrow> bool list" where
  "mark_linked pred = fold (\<lambda>p linked. case p of Some i \<Rightarrow> linked[i := True] | None \<Rightarrow> linked) pred (replicate (length pred) False)"

partial_function (option) chain_back :: "nat option list \<Rightarrow> nat \<Rightarrow> nat list \<Rightarrow> nat list option" where
  "chain_back pred cur chain = do {
     q \<leftarrow> nth_opt pred cur;
     (case q of None \<Rightarrow> Some chain | Some p \<Rightarrow> chain_back pred p (p # chain))
   }"

declare chain_back.simps [code]

fun push_prefixes :: "cell_kind \<Rightarrow> net_id \<Rightarrow> net_id list \<Rightarrow> net_id list \<Rightarrow> gate_module \<Rightarrow> net_id list \<times> gate_module" where
  "push_prefixes k carry [] out m = (out, m)"
| "push_prefixes k carry (r # rs) out m =
     (case push_gate k [carry, r] m of (net, m) \<Rightarrow> push_prefixes k carry rs (out @ [net]) m)"

function sklansky :: "cell_kind \<Rightarrow> net_id list \<Rightarrow> gate_module \<Rightarrow> (net_id list \<times> gate_module) option" where
  "sklansky k leaves m =
     (if leaves = [] then None
      else if length leaves = 1 then Some ([leaves ! 0], m)
      else let half = length leaves div 2 in do {
        (left, m) \<leftarrow> sklansky k (take half leaves) m;
        (right, m) \<leftarrow> sklansky k (drop half leaves) m;
        Some (push_prefixes k (last left) right left m)
      })"
  by pat_completeness auto
termination sklansky
proof (relation "measure (\<lambda>(k, leaves, m). length leaves)")
  fix k :: cell_kind and leaves :: "net_id list" and m :: gate_module and half
  let ?r = "measure (\<lambda>(k :: cell_kind, leaves :: net_id list, m :: gate_module). length leaves)"
  assume l: "leaves \<noteq> []" "length leaves \<noteq> 1" and h: "half = length leaves div 2"
  have "1 < length leaves" using l by (cases leaves) auto
  then show "((k, take half leaves, m), k, leaves, m) \<in> ?r" using h by simp
  show "((k, drop half leaves, z), k, leaves, m) \<in> ?r" for z
    using h \<open>1 < length leaves\<close> by simp
qed simp

declare sklansky.simps [simp del]

fun window_leaves :: "gate_module \<Rightarrow> nat list \<Rightarrow> net_id list option" where
  "window_leaves m (p # c # rest) = do {
     pc \<leftarrow> cell_at m p;
     cc \<leftarrow> cell_at m c;
     i0 \<leftarrow> nth_opt (c_inputs cc) 0;
     leaf \<leftarrow> (if i0 = c_output pc then nth_opt (c_inputs cc) 1 else Some i0);
     ls \<leftarrow> window_leaves m (c # rest);
     Some (leaf # ls)
   }"
| "window_leaves m _ = Some []"

definition alias_cell :: "net_id list \<Rightarrow> nat \<times> nat \<Rightarrow> gate_module \<Rightarrow> gate_module option" where
  "alias_cell prefs jc m = do {
     q \<leftarrow> nth_opt prefs (fst jc + 1);
     c \<leftarrow> cell_at m (snd jc);
     Some (m\<lparr>gm_cells := (gm_cells m)[snd jc := c\<lparr>c_kind := Buf, c_inputs := [q]\<rparr>]\<rparr>)
   }"

definition rebuild_chain :: "gate_module \<Rightarrow> nat list \<Rightarrow> gate_module option" where
  "rebuild_chain m chain = do {
     h \<leftarrow> nth_opt chain 0;
     head \<leftarrow> cell_at m h;
     ls \<leftarrow> window_leaves m chain;
     (prefs, m) \<leftarrow> sklansky (c_kind head) (c_inputs head @ ls) m;
     fold_opt (alias_cell prefs) (enumerate 0 chain) m
   }"

definition rebuild_tail :: "nat option list \<Rightarrow> bool list \<Rightarrow> nat \<Rightarrow> gate_module \<times> bool \<Rightarrow> (gate_module \<times> bool) option" where
  "rebuild_tail pred linked tail st =
     (if linked ! tail \<or> pred ! tail = None then Some st
      else do {
        chain \<leftarrow> chain_back pred tail [tail];
        if length chain < MIN_CHAIN_CELLS then Some st
        else do { m \<leftarrow> rebuild_chain (fst st) chain; Some (m, True) }
      })"

definition prefix_parallelize :: "gate_module \<Rightarrow> (gate_module \<times> bool) option" where
  "prefix_parallelize m = do {
     counts \<leftarrow> same_kind_consumers m;
     pred \<leftarrow> those (map (chain_pred m counts) (gm_cells m));
     fold_opt (rebuild_tail pred (mark_linked pred)) [0..<length (gm_cells m)] (m, False)
   }"

subsection \<open>The Sklansky network\<close>

text \<open>
  Levels: a level function that gives every listed cell at most one more than its inputs. The
  depth of the netlist is the least one.
\<close>

definition levelled :: "(net_id \<Rightarrow> nat) \<Rightarrow> cell list \<Rightarrow> bool" where
  "levelled lv cs \<longleftrightarrow> (\<forall>c \<in> set cs. \<forall>L. (\<forall>x \<in> set (c_inputs c). lv x \<le> L) \<longrightarrow> lv (c_output c) \<le> Suc L)"

lemma levelled_append [simp]: "levelled lv (cs @ ds) \<longleftrightarrow> levelled lv cs \<and> levelled lv ds"
  by (auto simp: levelled_def)

lemma push_prefixes_spec:
  assumes "wf_module m" "is_assoc k" "carry < length (gm_nets m)" "\<And>r. r \<in> set rs \<Longrightarrow> r < length (gm_nets m)"
  shows "\<exists>ns m' cs. push_prefixes k carry rs out m = (out @ ns, m') \<and> gated m m' cs \<and> length ns = length rs
    \<and> length cs = length rs \<and> (\<forall>n \<in> set ns. n < length (gm_nets m'))
    \<and> (\<forall>v. (\<forall>c \<in> set cs. holds v c) \<longrightarrow> (\<forall>i < length rs. v (ns ! i) = op_of k (v carry) (v (rs ! i))))
    \<and> (\<forall>lv L. levelled lv cs \<longrightarrow> lv carry \<le> L \<longrightarrow> (\<forall>r \<in> set rs. lv r \<le> L) \<longrightarrow> (\<forall>n \<in> set ns. lv n \<le> Suc L))
    \<and> (\<forall>h b. tops h cs \<longrightarrow> h carry \<le> b \<longrightarrow> (\<forall>i < length rs. h (rs ! i) \<le> b \<longrightarrow> h (ns ! i) \<le> b))"
  using assms
proof (induction rs arbitrary: out m)
  case Nil
  then show ?case using gated_refl by (intro exI [of _ "[]"] exI [of _ m]) auto
next
  case (Cons r rs)
  obtain n m1 where p: "push_gate k [carry, r] m = (n, m1)" by fastforce
  let ?c = "\<lparr>c_kind = k, c_inputs = [carry, r], c_output = n\<rparr>"
  have g1: "gated m m1 [?c]" "n < length (gm_nets m1)"
    using push_gate_gated [OF Cons.prems(1) _ _ p] arity_assoc [OF Cons.prems(2)] Cons.prems(3,4) by auto
  have "\<And>x. x \<in> set rs \<Longrightarrow> x < length (gm_nets m1)" "carry < length (gm_nets m1)"
    using Cons.prems(3,4) gated_nets(1) [OF g1(1)] by (auto intro: less_le_trans)
  then obtain ns m' cs where r: "push_prefixes k carry rs (out @ [n]) m1 = ((out @ [n]) @ ns, m')" "gated m1 m' cs"
    "length ns = length rs" "length cs = length rs" "\<forall>n \<in> set ns. n < length (gm_nets m')"
    "\<forall>v. (\<forall>c \<in> set cs. holds v c) \<longrightarrow> (\<forall>i < length rs. v (ns ! i) = op_of k (v carry) (v (rs ! i)))"
    "\<forall>lv L. levelled lv cs \<longrightarrow> lv carry \<le> L \<longrightarrow> (\<forall>r \<in> set rs. lv r \<le> L) \<longrightarrow> (\<forall>n \<in> set ns. lv n \<le> Suc L)"
    "\<forall>h b. tops h cs \<longrightarrow> h carry \<le> b \<longrightarrow> (\<forall>i < length rs. h (rs ! i) \<le> b \<longrightarrow> h (ns ! i) \<le> b)"
    using Cons.IH [OF gated_wf [OF g1(1)] Cons.prems(2), of "out @ [n]"] by blast
  have n: "v n = op_of k (v carry) (v r)" if "holds v ?c" for v
    using that by (simp add: holds_def op_of_def)
  show ?case
  proof (intro exI [of _ "n # ns"] exI [of _ m'] exI [of _ "[?c] @ cs"] conjI)
    show "gated m m' ([?c] @ cs)" by (rule gated_trans [OF g1(1) r(2)])
    show "\<forall>x \<in> set (n # ns). x < length (gm_nets m')" using r(5) g1(2) gated_nets(1) [OF r(2)] by auto
    show "\<forall>v. (\<forall>c \<in> set ([?c] @ cs). holds v c) \<longrightarrow> (\<forall>i < length (r # rs). v ((n # ns) ! i) = op_of k (v carry) (v ((r # rs) ! i)))"
      using r(6) n by (auto simp: nth_Cons split: nat.split)
    show "\<forall>lv L. levelled lv ([?c] @ cs) \<longrightarrow> lv carry \<le> L \<longrightarrow> (\<forall>r \<in> set (r # rs). lv r \<le> L) \<longrightarrow> (\<forall>n \<in> set (n # ns). lv n \<le> Suc L)"
      using r(7) by (auto simp: levelled_def)
    show "\<forall>h b. tops h ([?c] @ cs) \<longrightarrow> h carry \<le> b \<longrightarrow> (\<forall>i < length (r # rs). h ((r # rs) ! i) \<le> b \<longrightarrow> h ((n # ns) ! i) \<le> b)"
      using r(8) by (auto simp: tops_def nth_Cons split: nat.split)
  qed (use p r(1,3,4) in simp_all)
qed

text \<open>
  \<open>network k leaves out cs\<close>: the nets \<open>out\<close> carry the prefixes of the leaves, within the depth,
  and lie above the leaves of their prefix only.
\<close>

definition network :: "cell_kind \<Rightarrow> net_id list \<Rightarrow> net_id list \<Rightarrow> cell list \<Rightarrow> bool" where
  "network k leaves out cs \<longleftrightarrow> length out = length leaves
     \<and> (\<forall>v. (\<forall>c \<in> set cs. holds v c) \<longrightarrow> (\<forall>i < length leaves. v (out ! i) = scan k (map v (take (Suc i) leaves))))
     \<and> (\<forall>lv L d. levelled lv cs \<longrightarrow> (\<forall>n \<in> set leaves. lv n \<le> L) \<longrightarrow> length leaves \<le> 2 ^ d \<longrightarrow> (\<forall>n \<in> set out. lv n \<le> L + d))
     \<and> (\<forall>h i b. tops h cs \<longrightarrow> i < length leaves \<longrightarrow> (\<forall>x \<in> set (take (Suc i) leaves). h x \<le> b) \<longrightarrow> h (out ! i) \<le> b)"

lemma network_join:
  assumes k: "is_assoc k" and l: "network k xs left cs" "xs \<noteq> []" "length xs \<le> length ys" "length ys \<le> Suc (length xs)"
    and r: "network k ys right ds"
    and ns: "length ns = length ys" "\<And>v. (\<forall>c \<in> set es. holds v c) \<Longrightarrow> \<forall>i < length ys. v (ns ! i) = op_of k (v (last left)) (v (right ! i))"
    and lv: "\<And>lv L. levelled lv es \<Longrightarrow> lv (last left) \<le> L \<Longrightarrow> (\<forall>r \<in> set right. lv r \<le> L) \<Longrightarrow> (\<forall>n \<in> set ns. lv n \<le> Suc L)"
    and tp: "\<And>h b i. tops h es \<Longrightarrow> h (last left) \<le> b \<Longrightarrow> i < length ys \<Longrightarrow> h (right ! i) \<le> b \<Longrightarrow> h (ns ! i) \<le> b"
  shows "network k (xs @ ys) (left @ ns) (cs @ ds @ es)"
proof -
  have len: "length left = length xs" "length right = length ys" using l(1) r by (simp_all add: network_def)
  have last: "last left = left ! (length xs - 1)" using len(1) l(2) by (metis last_conv_nth length_0_conv)
  have "v ((left @ ns) ! i) = scan k (map v (take (Suc i) (xs @ ys)))"
    if h: "\<forall>c \<in> set (cs @ ds @ es). holds v c" and i: "i < length (xs @ ys)" for v i
  proof (cases "i < length xs")
    case True
    then show ?thesis using l(1) h len(1) by (simp add: network_def nth_append)
  next
    case False
    let ?j = "i - length xs"
    have j: "?j < length ys" using i False by simp
    have "v ((left @ ns) ! i) = op_of k (v (last left)) (v (right ! ?j))"
      using ns(2) [of v] h j False len(1) by (simp add: nth_append)
    also have "v (last left) = scan k (map v xs)"
      using l(1,2) h unfolding last network_def by (metis One_nat_def Suc_pred UnCI diff_less length_greater_0_conv lessI order_refl set_append take_all)
    also have "v (right ! ?j) = scan k (map v (take (Suc ?j) ys))" using r h j by (simp add: network_def)
    also have "op_of k (scan k (map v xs)) (scan k (map v (take (Suc ?j) ys))) = scan k (map v xs @ map v (take (Suc ?j) ys))"
      by (rule scan_append [symmetric, OF k]) (use l(2) j in auto)
    also have "map v xs @ map v (take (Suc ?j) ys) = map v (take (Suc i) (xs @ ys))"
      using False by (simp add: Suc_diff_le)
    finally show ?thesis .
  qed
  moreover have "\<forall>n \<in> set (left @ ns). lv n \<le> L + d"
    if h: "levelled lv (cs @ ds @ es)" "\<forall>n \<in> set (xs @ ys). lv n \<le> L" "length (xs @ ys) \<le> 2 ^ d" for lv L d
  proof -
    have "0 < length xs" using l(2) by simp
    then have "1 < length (xs @ ys)" using l(3) unfolding length_append by linarith
    then obtain e where d: "d = Suc e" using h(3) by (cases d) auto
    have half: "length xs \<le> 2 ^ e" "length ys \<le> 2 ^ e" using h(3) l(3,4) by (simp_all add: d)
    have lx: "\<forall>n \<in> set left. lv n \<le> L + e" using l(1) h half by (simp add: network_def)
    have ly: "\<forall>n \<in> set right. lv n \<le> L + e" using r h half by (simp add: network_def)
    have "last left \<in> set left" using len(1) l(2) by (metis last_in_set length_0_conv)
    then show ?thesis using lv [of lv "L + e"] lx ly h(1) by (auto simp: d intro: le_SucI)
  qed
  moreover have "h ((left @ ns) ! i) \<le> b"
    if t: "tops h (cs @ ds @ es)" and i: "i < length (xs @ ys)" and b: "\<forall>x \<in> set (take (Suc i) (xs @ ys)). h x \<le> b" for h i b
  proof (cases "i < length xs")
    case True
    then show ?thesis using l(1) t b len(1) by (simp add: network_def nth_append)
  next
    case False
    let ?j = "i - length xs"
    have j: "?j < length ys" using i False by simp
    have tk: "take (Suc i) (xs @ ys) = xs @ take (Suc ?j) ys" using False by (simp add: Suc_diff_le)
    have "length xs - 1 < length xs" "take (Suc (length xs - 1)) xs = xs" using l(2) by (cases xs; simp)+
    then have "h (last left) \<le> b" using l(1) t b unfolding last tk network_def by simp
    moreover have "h (right ! ?j) \<le> b" using r t b j unfolding tk network_def by simp
    ultimately have "h (ns ! ?j) \<le> b" using tp t j by simp
    then show ?thesis using False len(1) by (simp add: nth_append)
  qed
  ultimately show ?thesis using len ns(1) by (simp add: network_def)
qed

lemma sklansky_spec:
  assumes "leaves \<noteq> []" "wf_module m" "is_assoc k" "\<And>n. n \<in> set leaves \<Longrightarrow> n < length (gm_nets m)"
  shows "\<exists>out m' cs. sklansky k leaves m = Some (out, m') \<and> gated m m' cs \<and> network k leaves out cs
    \<and> (\<forall>n \<in> set out. n < length (gm_nets m'))"
  using assms
proof (induction k leaves m rule: sklansky.induct)
  case (1 k leaves m)
  show ?case
  proof (cases "length leaves = 1")
    case True
    then obtain n where "leaves = [n]" by (auto simp: length_Suc_conv)
    then show ?thesis
      using "1.prems" gated_refl by (auto simp: sklansky.simps [of k] network_def scan_def intro!: exI [of _ "[]"])
  next
    case False
    let ?h = "length leaves div 2"
    let ?xs = "take ?h leaves" and ?ys = "drop ?h leaves"
    have "length leaves \<noteq> 0" using "1.prems"(1) by simp
    then have two: "2 \<le> length leaves" using False by linarith
    have h: "?xs \<noteq> []" "?ys \<noteq> []" "length ?xs \<le> length ?ys" "length ?ys \<le> Suc (length ?xs)"
      using two by auto
    obtain left m1 cs where l: "sklansky k ?xs m = Some (left, m1)" "gated m m1 cs" "network k ?xs left cs"
      "\<forall>n \<in> set left. n < length (gm_nets m1)"
      using "1.IH"(1) [OF "1.prems"(1) False refl h(1) "1.prems"(2,3)] "1.prems"(4) by (meson in_set_takeD)
    have ylt: "n < length (gm_nets m1)" if "n \<in> set ?ys" for n
      using "1.prems"(4) in_set_dropD [OF that] gated_nets(1) [OF l(2)] by (auto intro: less_le_trans)
    obtain right m2 ds where r: "sklansky k ?ys m1 = Some (right, m2)" "gated m1 m2 ds" "network k ?ys right ds"
      "\<forall>n \<in> set right. n < length (gm_nets m2)"
      using "1.IH"(2) [OF "1.prems"(1) False refl l(1) refl h(2) gated_wf [OF l(2)] "1.prems"(3) ylt] by blast
    have "left \<noteq> []" using l(3) h(1) by (auto simp: network_def)
    then have last: "last left < length (gm_nets m2)"
      using l(4) gated_nets(1) [OF r(2)] last_in_set by (blast intro: less_le_trans)
    have rlen: "length right = length ?ys" using r(3) by (simp add: network_def)
    obtain ns m' es where p: "push_prefixes k (last left) right left m2 = (left @ ns, m')" "gated m2 m' es"
      "length ns = length right" "\<forall>n \<in> set ns. n < length (gm_nets m')"
      "\<forall>v. (\<forall>c \<in> set es. holds v c) \<longrightarrow> (\<forall>i < length right. v (ns ! i) = op_of k (v (last left)) (v (right ! i)))"
      "\<forall>lv L. levelled lv es \<longrightarrow> lv (last left) \<le> L \<longrightarrow> (\<forall>r \<in> set right. lv r \<le> L) \<longrightarrow> (\<forall>n \<in> set ns. lv n \<le> Suc L)"
      "\<forall>h b. tops h es \<longrightarrow> h (last left) \<le> b \<longrightarrow> (\<forall>i < length right. h (right ! i) \<le> b \<longrightarrow> h (ns ! i) \<le> b)"
      using push_prefixes_spec [OF gated_wf [OF r(2)] "1.prems"(3) last, of right left] r(4) by blast
    have "network k (?xs @ ?ys) (left @ ns) (cs @ ds @ es)"
      by (rule network_join [OF "1.prems"(3) l(3) h(1,3,4) r(3)]) (use p(3,5-7) rlen in auto)
    moreover have "gated m m' (cs @ ds @ es)" using gated_trans [OF l(2) gated_trans [OF r(2) p(2)]] .
    moreover have "sklansky k leaves m = Some (left @ ns, m')"
      using False "1.prems"(1) l(1) r(1) p(1) by (simp add: sklansky.simps [of k leaves] Let_def)
    moreover have "\<forall>n \<in> set (left @ ns). n < length (gm_nets m')"
      using p(4) l(4) gated_nets(1) [OF r(2)] gated_nets(1) [OF p(2)] by (auto intro: less_le_trans)
    ultimately show ?thesis by (metis append_take_drop_id)
  qed
qed

subsection \<open>Rebuilding one chain\<close>

text \<open>A linear scan: distinct cells of one kind, each reading the output of the one before.\<close>

definition step_leaf :: "gate_module \<Rightarrow> nat \<Rightarrow> nat \<Rightarrow> net_id" where
  "step_leaf m p c = (if c_inputs (gm_cells m ! c) ! 0 = c_output (gm_cells m ! p)
     then c_inputs (gm_cells m ! c) ! 1 else c_inputs (gm_cells m ! c) ! 0)"

definition linear_scan :: "gate_module \<Rightarrow> cell_kind \<Rightarrow> nat list \<Rightarrow> bool" where
  "linear_scan m k chain \<longleftrightarrow> is_assoc k \<and> chain \<noteq> [] \<and> distinct chain
     \<and> (\<forall>c \<in> set chain. c < length (gm_cells m) \<and> c_kind (gm_cells m ! c) = k)
     \<and> (\<forall>i. Suc i < length chain \<longrightarrow>
          c_output (gm_cells m ! (chain ! i)) \<in> set (c_inputs (gm_cells m ! (chain ! Suc i)))
          \<and> driver (gm_nets m ! c_output (gm_cells m ! (chain ! i))) = DCell (chain ! i))"

lemma two_inputs_of:
  assumes "wf_module m" "is_assoc k" "c < length (gm_cells m)" "c_kind (gm_cells m ! c) = k"
  obtains a b where "c_inputs (gm_cells m ! c) = [a, b]" "a < length (gm_nets m)" "b < length (gm_nets m)"
proof -
  have "length (c_inputs (gm_cells m ! c)) = 2" using wf_cell(1) [OF assms(1,3)] arity_assoc [OF assms(2)] assms(4) by simp
  then obtain a b where "c_inputs (gm_cells m ! c) = [a, b]" by (auto simp: length_2_conv)
  then show ?thesis using that wf_cell(2) [OF assms(1,3)] by simp
qed

text \<open>The leaves of a scan: both inputs of the head, then the other input of every later cell.\<close>

definition scan_leaves :: "gate_module \<Rightarrow> nat list \<Rightarrow> net_id list" where
  "scan_leaves m chain = c_inputs (gm_cells m ! hd chain) @ map (\<lambda>i. step_leaf m (chain ! i) (chain ! Suc i)) [0..<length chain - 1]"

lemma window_leaves_spec:
  assumes "\<And>c. c \<in> set chain \<Longrightarrow> c < length (gm_cells m) \<and> length (c_inputs (gm_cells m ! c)) = 2"
  shows "window_leaves m chain = Some (map (\<lambda>i. step_leaf m (chain ! i) (chain ! Suc i)) [0..<length chain - 1])"
  using assms
proof (induction chain rule: induct_list012)
  case (3 p c rest)
  have ih: "window_leaves m (c # rest) = Some (map (\<lambda>i. step_leaf m ((c # rest) ! i) ((c # rest) ! Suc i)) [0..<length rest])"
    using "3.IH"(2) "3.prems" by simp
  have up: "map f [0..<Suc (length rest)] = f 0 # map (\<lambda>i. f (Suc i)) [0..<length rest]" for f :: "nat \<Rightarrow> net_id"
    by (simp add: upt_conv_Cons map_Suc_upt [symmetric] comp_def del: upt_Suc)
  have pc: "p < length (gm_cells m)" "c < length (gm_cells m)" "length (c_inputs (gm_cells m ! c)) = 2"
    using "3.prems" [of p] "3.prems" [of c] by auto
  have "window_leaves m (p # c # rest) = Some (step_leaf m p c # map (\<lambda>i. step_leaf m ((c # rest) ! i) ((c # rest) ! Suc i)) [0..<length rest])"
    using pc ih by (simp add: step_leaf_def)
  then show ?case using up [of "\<lambda>i. step_leaf m ((p # c # rest) ! i) ((p # c # rest) ! Suc i)"] by simp
qed simp_all

lemma chain_scan:
  assumes wf: "wf_module m" and lin: "linear_scan m k chain"
  shows "(\<forall>j < length chain. holds v (gm_cells m ! (chain ! j))) \<longleftrightarrow>
    (\<forall>j < length chain. v (c_output (gm_cells m ! (chain ! j))) = scan k (map v (take (j + 2) (scan_leaves m chain))))"
    (is "(\<forall>j < ?n. ?H j) \<longleftrightarrow> (\<forall>j < ?n. ?E j)")
proof -
  have k: "is_assoc k" and kind: "\<And>j. j < ?n \<Longrightarrow> chain ! j < length (gm_cells m) \<and> c_kind (gm_cells m ! (chain ! j)) = k"
    using lin by (auto simp: linear_scan_def)
  have n0: "0 < ?n" using lin by (simp add: linear_scan_def)
  obtain a b where ab: "c_inputs (gm_cells m ! (chain ! 0)) = [a, b]"
    using two_inputs_of [OF wf k] kind [OF n0] by blast
  have hd: "hd chain = chain ! 0" using lin by (simp add: hd_conv_nth linear_scan_def)
  have base: "?H 0 \<longleftrightarrow> ?E 0" if "0 < ?n"
    using kind [OF that] ab by (simp add: holds_def scan_leaves_def hd scan_def op_of_def)
  have len: "length (scan_leaves m chain) = Suc ?n"
    using ab hd lin by (cases chain) (auto simp: scan_leaves_def linear_scan_def)
  have step: "?H (Suc j) \<longleftrightarrow> ?E (Suc j)" if j: "Suc j < ?n" and e: "?E j" for j
  proof -
    let ?c = "gm_cells m ! (chain ! Suc j)" and ?p = "c_output (gm_cells m ! (chain ! j))"
    obtain x y where xy: "c_inputs ?c = [x, y]" using two_inputs_of [OF wf k] kind [OF j] by blast
    have "?p = x \<or> ?p = y" using lin j xy by (auto simp: linear_scan_def)
    then have hv: "holds v ?c \<longleftrightarrow> v (c_output ?c) = op_of k (v ?p) (v (step_leaf m (chain ! j) (chain ! Suc j)))"
      using kind [OF j] xy op_comm [OF k, of "v x" "v y"] by (auto simp: holds_def op_of_def step_leaf_def)
    have leaf: "scan_leaves m chain ! Suc (Suc j) = step_leaf m (chain ! j) (chain ! Suc j)"
    proof -
      have "j < length chain - 1" using j by simp
      then have "[0..<length chain - 1] ! j = j" by simp
      then show ?thesis using ab hd j by (simp add: scan_leaves_def nth_append)
    qed
    have ext: "map v (take (Suc j + 2) (scan_leaves m chain)) =
        map v (take (j + 2) (scan_leaves m chain)) @ [v (scan_leaves m chain ! Suc (Suc j))]"
      using len j by (simp add: take_Suc_conv_app_nth)
    have "take (j + 2) (scan_leaves m chain) \<noteq> []" using len by auto
    then have ne: "map v (take (j + 2) (scan_leaves m chain)) \<noteq> []" by simp
    show ?thesis unfolding hv ext scan_snoc [OF ne] leaf using e by simp
  qed
  have "?H j \<and> ?E j" if "\<forall>j < ?n. ?H j" "j < ?n" for j
    using that(2)
  proof (induction j)
    case (Suc j)
    then show ?case using step [of j] that(1) by simp
  qed (use base that(1) in simp)
  moreover have "?H j" if e: "\<forall>j < ?n. ?E j" and j: "j < ?n" for j
  proof (cases j)
    case 0
    then show ?thesis using base e j by blast
  next
    case (Suc i)
    then show ?thesis using step [of i] e j Suc_lessD by blast
  qed
  ultimately show ?thesis by blast
qed

text \<open>The cells of the chain turned into buffers, up to the one with number \<open>j\<close>.\<close>

definition chain_aliased :: "net_id list \<Rightarrow> nat list \<Rightarrow> gate_module \<Rightarrow> nat \<Rightarrow> gate_module \<Rightarrow> bool" where
  "chain_aliased prefs chain m k s \<longleftrightarrow> gm_nets s = gm_nets m \<and> same_pins m s \<and> length (gm_cells s) = length (gm_cells m)
     \<and> (\<forall>j < k. gm_cells s ! (chain ! j) = (gm_cells m ! (chain ! j))\<lparr>c_kind := Buf, c_inputs := [prefs ! Suc j]\<rparr>)
     \<and> (\<forall>c < length (gm_cells m). c \<notin> set (take k chain) \<longrightarrow> gm_cells s ! c = gm_cells m ! c)"

lemma alias_cells_spec:
  assumes "length prefs = Suc (length chain)" "distinct chain" "\<And>c. c \<in> set chain \<Longrightarrow> c < length (gm_cells m)"
  shows "\<exists>s. fold_opt (alias_cell prefs) (enumerate 0 chain) m = Some s \<and> chain_aliased prefs chain m (length chain) s"
proof (rule fold_opt_enumerate)
  show "chain_aliased prefs chain m 0 m" by (simp add: chain_aliased_def same_pins_def)
  fix k s assume k: "k < length chain" and s: "chain_aliased prefs chain m k s"
  let ?c = "chain ! k"
  have c: "?c < length (gm_cells m)" using assms(3) k by simp
  have new: "?c \<notin> set (take k chain)"
    using assms(2) k by (auto simp: in_set_conv_nth distinct_conv_nth)
  have old: "gm_cells s ! ?c = gm_cells m ! ?c" using s c new by (simp add: chain_aliased_def)
  let ?s = "s\<lparr>gm_cells := (gm_cells s)[?c := (gm_cells m ! ?c)\<lparr>c_kind := Buf, c_inputs := [prefs ! Suc k]\<rparr>]\<rparr>"
  have "alias_cell prefs (k, ?c) s = Some ?s"
    using k c s assms(1) old by (simp add: alias_cell_def chain_aliased_def)
  moreover have "?c \<noteq> chain ! j" if "j < k" for j using assms(2) k that by (auto simp: distinct_conv_nth)
  then have "chain_aliased prefs chain m (Suc k) ?s"
    using s c k by (auto simp: chain_aliased_def same_pins_def take_Suc_conv_app_nth less_Suc_eq)
  ultimately show "\<exists>s'. alias_cell prefs (k, ?c) s = Some s' \<and> chain_aliased prefs chain m (Suc k) s'" by blast
qed

lemma chain_aliased_out:
  assumes "chain_aliased prefs chain m (length chain) s" "c < length (gm_cells m)"
  shows "c_output (gm_cells s ! c) = c_output (gm_cells m ! c)"
proof (cases "c \<in> set chain")
  case True
  then obtain j where "j < length chain" "chain ! j = c" by (auto simp: in_set_conv_nth)
  then show ?thesis using assms(1) by (auto simp: chain_aliased_def)
qed (use assms in \<open>simp add: chain_aliased_def\<close>)

lemma chain_aliased_wf:
  assumes wf: "wf_module m" and al: "chain_aliased prefs chain m (length chain) s"
    and p: "length prefs = Suc (length chain)" "\<And>n. n \<in> set prefs \<Longrightarrow> n < length (gm_nets m)"
  shows "wf_module s"
proof -
  have nets: "gm_nets s = gm_nets m" and len: "length (gm_cells s) = length (gm_cells m)" using al by (simp_all add: chain_aliased_def)
  have sinks: "sinks s = sinks m" using al by (simp add: chain_aliased_def same_pins_def sinks_def ram_inputs_def)
  have "module_cell_wf (length (gm_nets m)) (gm_cells s ! i)" if i: "i < length (gm_cells m)" for i
  proof (cases "i \<in> set chain")
    case True
    then obtain j where "j < length chain" "chain ! j = i" by (auto simp: in_set_conv_nth)
    then have "gm_cells s ! i = (gm_cells m ! i)\<lparr>c_kind := Buf, c_inputs := [prefs ! Suc j]\<rparr>" "prefs ! Suc j < length (gm_nets m)"
      using al p by (auto simp: chain_aliased_def)
    then show ?thesis using wf nth_mem [OF i] by (simp add: wf_module_def module_cell_wf_def)
  next
    case False
    then show ?thesis using al i wf nth_mem [OF i] by (simp add: chain_aliased_def wf_module_def)
  qed
  then have cells: "\<forall>c \<in> set (gm_cells s). module_cell_wf (length (gm_nets m)) c"
    by (simp add: all_set_conv_all_nth len)
  then show ?thesis using wf chain_aliased_out [OF al] by (auto simp: wf_module_def nets sinks len)
qed

lemma length_scan_leaves:
  assumes "wf_module m" "linear_scan m k chain"
  shows "length (scan_leaves m chain) = Suc (length chain)"
proof -
  have "hd chain < length (gm_cells m)" "c_kind (gm_cells m ! hd chain) = k" "is_assoc k"
    using assms(2) by (auto simp: linear_scan_def)
  then obtain a b where "c_inputs (gm_cells m ! hd chain) = [a, b]" using two_inputs_of [OF assms(1)] by metis
  then show ?thesis using assms(2) by (cases chain) (auto simp: scan_leaves_def linear_scan_def)
qed

text \<open>Every leaf is an input of the cell that adds it to the scan.\<close>

lemma scan_leaf_input:
  assumes wf: "wf_module m" and lin: "linear_scan m k chain" and j: "j < length chain" and x: "x \<in> set (take (j + 2) (scan_leaves m chain))"
  shows "\<exists>i \<le> j. x \<in> set (c_inputs (gm_cells m ! (chain ! i)))"
proof -
  have k: "is_assoc k" and chain: "\<And>i. i < length chain \<Longrightarrow> chain ! i < length (gm_cells m) \<and> c_kind (gm_cells m ! (chain ! i)) = k"
    using lin by (auto simp: linear_scan_def)
  have hd: "hd chain = chain ! 0" using j by (cases chain) simp_all
  obtain a b where ab: "c_inputs (gm_cells m ! (chain ! 0)) = [a, b]"
    using two_inputs_of [OF wf k] chain [of 0] j by (metis gr_zeroI not_less_zero)
  obtain l where l: "l < length (scan_leaves m chain)" "l < j + 2" "scan_leaves m chain ! l = x"
    using x by (auto simp: in_set_conv_nth)
  show ?thesis
  proof (cases "l < 2")
    case True
    then have "x \<in> {a, b}" using l ab hd by (auto simp: scan_leaves_def nth_append less_2_cases_iff)
    then show ?thesis using ab by (intro exI [of _ 0]) auto
  next
    case False
    define i where "i = l - 2"
    have i: "l = Suc (Suc i)" "Suc i \<le> j" "i < length chain - 1" using l j False length_scan_leaves [OF wf lin] by (auto simp: i_def)
    then have eq: "x = step_leaf m (chain ! i) (chain ! Suc i)" using l(3) ab hd by (simp add: scan_leaves_def nth_append)
    obtain y z where "c_inputs (gm_cells m ! (chain ! Suc i)) = [y, z]" using two_inputs_of [OF wf k] chain [of "Suc i"] i(2) j by (metis le_less_trans)
    then have "x \<in> set (c_inputs (gm_cells m ! (chain ! Suc i)))" using eq by (auto simp: step_leaf_def)
    then show ?thesis using i(2) by blast
  qed
qed

lemma scan_leaves_range:
  assumes wf: "wf_module m" and lin: "linear_scan m k chain" and n: "n \<in> set (scan_leaves m chain)"
  shows "n < length (gm_nets m)"
proof -
  let ?j = "length chain - 1"
  have j: "?j < length chain" using lin by (simp add: linear_scan_def)
  moreover have "take (?j + 2) (scan_leaves m chain) = scan_leaves m chain"
    using length_scan_leaves [OF wf lin] j by simp
  ultimately obtain i where "i \<le> ?j" "n \<in> set (c_inputs (gm_cells m ! (chain ! i)))" using scan_leaf_input [OF wf lin j] n by metis
  moreover from this(1) have "chain ! i \<in> set chain" using j by simp
  then have "chain ! i < length (gm_cells m)" using lin by (simp add: linear_scan_def)
  ultimately show ?thesis using wf_cell(2) [OF wf] by blast
qed

text \<open>The ranks rise along the scan, so a leaf is below every later cell of the scan.\<close>

lemma scan_leaf_below:
  assumes wf: "wf_module m" and lin: "linear_scan m k chain" and r: "ranked r m" and j: "j < length chain"
    and d: "driver (gm_nets m ! c_output (gm_cells m ! (chain ! j))) = DCell (chain ! j)"
    and x: "x \<in> set (take (j + 2) (scan_leaves m chain))"
  shows "r x < r (c_output (gm_cells m ! (chain ! j)))"
proof -
  have driven: "driver (gm_nets m ! c_output (gm_cells m ! (chain ! i))) = DCell (chain ! i)" if "i \<le> j" for i
  proof (cases "i = j")
    case False
    then show ?thesis using lin that j by (simp add: linear_scan_def)
  qed (use d in simp)
  have out: "c_output (gm_cells m ! (chain ! i)) < length (gm_nets m)" if "i \<le> j" for i
  proof -
    have "chain ! i \<in> set chain" using that j by simp
    then have "gm_cells m ! (chain ! i) \<in> set (gm_cells m)" using lin by (simp add: linear_scan_def)
    then show ?thesis using wf by (auto simp: wf_module_def module_cell_wf_def)
  qed
  have inp: "r y < r (c_output (gm_cells m ! (chain ! i)))" if "i \<le> j" "y \<in> set (c_inputs (gm_cells m ! (chain ! i)))" for i y
    using r driven [OF that(1)] out [OF that(1)] that(2) unfolding ranked_def by blast
  have mono: "r (c_output (gm_cells m ! (chain ! i))) \<le> r (c_output (gm_cells m ! (chain ! l)))" if "i \<le> l" "l \<le> j" for i l
    using that
  proof (induction l)
    case (Suc l)
    show ?case
    proof (cases "i = Suc l")
      case False
      then have "r (c_output (gm_cells m ! (chain ! i))) \<le> r (c_output (gm_cells m ! (chain ! l)))" using Suc by simp
      also have "c_output (gm_cells m ! (chain ! l)) \<in> set (c_inputs (gm_cells m ! (chain ! Suc l)))"
        using lin Suc.prems(2) j by (simp add: linear_scan_def)
      then have "r (c_output (gm_cells m ! (chain ! l))) \<le> r (c_output (gm_cells m ! (chain ! Suc l)))"
        using inp [OF Suc.prems(2)] by (simp add: less_imp_le)
      finally show ?thesis .
    qed simp
  qed simp
  obtain i where i: "i \<le> j" "x \<in> set (c_inputs (gm_cells m ! (chain ! i)))" using scan_leaf_input [OF wf lin j x] by blast
  have "r x < r (c_output (gm_cells m ! (chain ! i)))" by (rule inp [OF i])
  also have "\<dots> \<le> r (c_output (gm_cells m ! (chain ! j)))" by (rule mono [OF i(1) order_refl])
  finally show ?thesis .
qed

lemma chain_aliased_relinked:
  assumes "gated m m1 cs" "chain_aliased prefs chain m1 (length chain) m'" "wf_module m'" "\<And>c. c \<in> set chain \<Longrightarrow> c < length (gm_cells m)"
  shows "relinked m m1 m' cs (set chain)"
proof -
  have "c_output (gm_cells m' ! i) = c_output (gm_cells m1 ! i)" if "i < length (gm_cells m1)" for i
    using chain_aliased_out [OF assms(2) that] .
  then show ?thesis using assms by (auto simp: relinked_def chain_aliased_def)
qed

lemma rebuild_chain_spec:
  assumes wf: "wf_module m" and lin: "linear_scan m k chain"
  shows "\<exists>m'. rebuild_chain m chain = Some m' \<and> wf_module m' \<and> rebuilt m m'
    \<and> (\<forall>c < length (gm_cells m). c \<notin> set chain \<longrightarrow> gm_cells m' ! c = gm_cells m ! c)"
proof -
  have k: "is_assoc k" and ne: "chain \<noteq> []" and dist: "distinct chain"
    and chain: "\<And>c. c \<in> set chain \<Longrightarrow> c < length (gm_cells m) \<and> c_kind (gm_cells m ! c) = k"
    using lin by (auto simp: linear_scan_def)
  let ?h = "hd chain" and ?ls = "scan_leaves m chain"
  have h: "?h < length (gm_cells m)" "c_kind (gm_cells m ! ?h) = k" using chain [of ?h] ne by simp_all
  have two: "length (c_inputs (gm_cells m ! c)) = 2" if "c \<in> set chain" for c
    using wf_cell(1) [OF wf] chain [OF that] arity_assoc [OF k] by simp
  have win: "window_leaves m chain = Some (map (\<lambda>i. step_leaf m (chain ! i) (chain ! Suc i)) [0..<length chain - 1])"
    by (rule window_leaves_spec) (use chain two in auto)
  note lsn = length_scan_leaves [OF wf lin]
  have lne: "?ls \<noteq> []" using lsn by auto
  obtain prefs m1 cs where sk: "sklansky k ?ls m = Some (prefs, m1)" "gated m m1 cs" "network k ?ls prefs cs"
    "\<forall>n \<in> set prefs. n < length (gm_nets m1)"
    using sklansky_spec [OF lne wf k scan_leaves_range [OF wf lin]] by blast
  have plen: "length prefs = Suc (length chain)" using sk(3) lsn by (simp add: network_def)
  have cells1: "gm_cells m1 = gm_cells m @ cs" using sk(2) by (simp add: gated_def)
  have chain1: "c < length (gm_cells m1)" if "c \<in> set chain" for c using chain [OF that] by (simp add: cells1)
  obtain m' where al: "fold_opt (alias_cell prefs) (enumerate 0 chain) m1 = Some m'" "chain_aliased prefs chain m1 (length chain) m'"
    using alias_cells_spec [OF plen dist chain1] by blast
  have run: "rebuild_chain m chain = Some m'"
    using ne h win sk(1) al(1) by (simp add: rebuild_chain_def hd_conv_nth [symmetric] scan_leaves_def)
  have wf': "wf_module m'" by (rule chain_aliased_wf [OF gated_wf [OF sk(2)] al(2) plen]) (use sk(4) in blast)
  have re: "relinked m m1 m' cs (set chain)" by (rule chain_aliased_relinked [OF sk(2) al(2) wf']) (use chain in blast)
  have buf: "gm_cells m' ! (chain ! j) = (gm_cells m ! (chain ! j))\<lparr>c_kind := Buf, c_inputs := [prefs ! Suc j]\<rparr>"
    if "j < length chain" for j
    using al(2) that chain cells1 by (simp add: chain_aliased_def nth_append)
  have over: "(\<forall>c \<in> set chain. P c) \<longleftrightarrow> (\<forall>j < length chain. P (chain ! j))" for P by (rule all_set_conv_all_nth)
  have same: "(\<forall>c \<in> set chain. holds v (gm_cells m' ! c)) \<longleftrightarrow> (\<forall>c \<in> set chain. holds v (gm_cells m ! c))"
    if "\<And>c. c \<in> set cs \<Longrightarrow> holds v c" for v
  proof -
    have "v (prefs ! Suc j) = scan k (map v (take (j + 2) ?ls))" if "j < length chain" for j
      using sk(3) \<open>\<And>c. c \<in> set cs \<Longrightarrow> holds v c\<close> that lsn by (simp add: network_def)
    then have "holds v (gm_cells m' ! (chain ! j)) \<longleftrightarrow> v (c_output (gm_cells m ! (chain ! j))) = scan k (map v (take (j + 2) ?ls))"
      if "j < length chain" for j using buf [OF that] that by (simp add: holds_def)
    then show ?thesis unfolding over using chain_scan [OF wf lin, of v] by blast
  qed
  have below: "g x < r (c_output (gm_cells m ! i))"
    if r: "ranked r m" and t: "tops g cs" and g: "\<And>n. n < length (gm_nets m) \<Longrightarrow> g n = r n" and i: "i \<in> set chain"
      and d: "driver (gm_nets m ! c_output (gm_cells m ! i)) = DCell i" and x: "x \<in> set (c_inputs (gm_cells m' ! i))" for r g i x
  proof -
    obtain j where j: "j < length chain" "chain ! j = i" using i by (auto simp: in_set_conv_nth)
    have lv: "r y < r (c_output (gm_cells m ! i))" if "y \<in> set (take (j + 2) ?ls)" for y
      using scan_leaf_below [OF wf lin r j(1) _ that] d j(2) by simp
    have "g y \<le> r (c_output (gm_cells m ! i)) - 1" if y: "y \<in> set (take (Suc (Suc j)) ?ls)" for y
      using lv [of y] y g [OF scan_leaves_range [OF wf lin in_set_takeD [OF y]]] by simp
    moreover have "Suc j < length ?ls" using j(1) lsn by simp
    ultimately have "g (prefs ! Suc j) \<le> r (c_output (gm_cells m ! i)) - 1" using sk(3) t unfolding network_def by blast
    moreover have "0 < r (c_output (gm_cells m ! i))" using lv [of "?ls ! 0"] lsn by (cases ?ls) auto
    moreover have "x = prefs ! Suc j" using x buf [OF j(1)] j(2) by simp
    ultimately show ?thesis by simp
  qed
  have "rebuilt m m'" by (rule relinked_rebuilt [OF re wf]) (use same below in blast)+
  then show ?thesis using run wf' relinked_cells(2) [OF re] by blast
qed

subsection \<open>Finding the chains\<close>

definition same_kind :: "gate_module \<Rightarrow> cell_kind \<Rightarrow> net_id \<Rightarrow> nat option" where
  "same_kind m k n = (case driver (gm_nets m ! n) of
      DCell di \<Rightarrow> if c_kind (gm_cells m ! di) = k then Some di else None | _ \<Rightarrow> None)"

lemma same_kind_cell_eq:
  assumes "wf_module m" "n < length (gm_nets m)"
  shows "same_kind_cell m k n = Some (same_kind m k n)"
  using assms(2) wf_module_driver [OF assms]
  by (auto simp: same_kind_cell_def same_kind_def split: net_driver.split)

lemma same_kind_Some:
  assumes "wf_module m" "n < length (gm_nets m)" "same_kind m k n = Some d"
  shows "driver (gm_nets m ! n) = DCell d" "d < length (gm_cells m)" "c_output (gm_cells m ! d) = n" "c_kind (gm_cells m ! d) = k"
  using assms(3) wf_module_driver [OF assms(1,2)] by (auto simp: same_kind_def split: net_driver.splits if_splits)

text \<open>How often a cell takes a net as the next step of a scan of its kind.\<close>

definition uses :: "gate_module \<Rightarrow> net_id \<Rightarrow> cell \<Rightarrow> nat" where
  "uses m n c = (if is_assoc (c_kind c) then length (filter (\<lambda>i. i = n \<and> same_kind m (c_kind c) i \<noteq> None) (c_inputs c)) else 0)"

lemma count_inputs_spec:
  assumes "wf_module m" "\<And>i. i \<in> set ins \<Longrightarrow> i < length (gm_nets m)" "length counts = length (gm_nets m)"
  shows "\<exists>counts'. fold_opt (count_input m k) ins counts = Some counts' \<and> length counts' = length (gm_nets m)
    \<and> (\<forall>n < length (gm_nets m). counts' ! n = counts ! n + length (filter (\<lambda>i. i = n \<and> same_kind m k i \<noteq> None) ins))"
  using assms(2,3)
proof (induction ins arbitrary: counts)
  case (Cons i ins)
  have i: "i < length (gm_nets m)" using Cons.prems(1) by simp
  define c1 where "c1 = (case same_kind m k i of Some _ \<Rightarrow> counts[i := counts ! i + 1] | None \<Rightarrow> counts)"
  have "count_input m k i counts = Some c1"
    using same_kind_cell_eq [OF assms(1) i] by (simp add: count_input_def c1_def)
  moreover have "length c1 = length (gm_nets m)" using Cons.prems(2) by (simp add: c1_def split: option.split)
  moreover have "c1 ! n = counts ! n + (if i = n \<and> same_kind m k i \<noteq> None then 1 else 0)" if "n < length (gm_nets m)" for n
    using i Cons.prems(2) by (auto simp: c1_def nth_list_update split: option.split)
  ultimately show ?case using Cons.IH [of c1] Cons.prems(1) by auto
qed simp

lemma count_cells_spec:
  assumes wf: "wf_module m" and "set cs \<subseteq> set (gm_cells m)" "length counts = length (gm_nets m)"
  shows "\<exists>counts'. fold_opt (count_cell m) cs counts = Some counts' \<and> length counts' = length (gm_nets m)
    \<and> (\<forall>n < length (gm_nets m). counts' ! n = counts ! n + sum_list (map (uses m n) cs))"
  using assms(2,3)
proof (induction cs arbitrary: counts)
  case (Cons c cs)
  have ins: "i < length (gm_nets m)" if "i \<in> set (c_inputs c)" for i
    using wf Cons.prems(1) that by (auto simp: wf_module_def module_cell_wf_def)
  obtain c1 where c1: "count_cell m c counts = Some c1" "length c1 = length (gm_nets m)"
    "\<forall>n < length (gm_nets m). c1 ! n = counts ! n + uses m n c"
    using count_inputs_spec [OF wf ins Cons.prems(2), where k = "c_kind c"] Cons.prems(2) by (cases "is_assoc (c_kind c)") (auto simp: count_cell_def uses_def)
  then show ?case using Cons.IH [of c1] Cons.prems(1) by auto
qed simp

lemma same_kind_consumers_spec:
  assumes "wf_module m"
  obtains counts where "same_kind_consumers m = Some counts"
    "\<And>n. n < length (gm_nets m) \<Longrightarrow> counts ! n = sum_list (map (uses m n) (gm_cells m))"
  using count_cells_spec [OF assms order_refl, of "replicate (length (gm_nets m)) 0"]
  unfolding same_kind_consumers_def by auto

text \<open>
  What it means that cell \<open>p\<close> is the predecessor of cell \<open>c\<close>: both are of one associative
  kind, \<open>p\<close> drives an input of \<open>c\<close>, and no other cell of this kind takes this net.
\<close>

definition scan_step :: "gate_module \<Rightarrow> nat \<Rightarrow> nat \<Rightarrow> bool" where
  "scan_step m p c \<longleftrightarrow> p < length (gm_cells m) \<and> is_assoc (c_kind (gm_cells m ! c)) \<and> c_kind (gm_cells m ! p) = c_kind (gm_cells m ! c)
     \<and> c_output (gm_cells m ! p) \<in> set (c_inputs (gm_cells m ! c))
     \<and> c_output (gm_cells m ! p) < length (gm_nets m) \<and> driver (gm_nets m ! c_output (gm_cells m ! p)) = DCell p
     \<and> sum_list (map (uses m (c_output (gm_cells m ! p))) (gm_cells m)) = 1"

lemma scan_link_spec:
  assumes wf: "wf_module m" and "\<And>i. i \<in> set ins \<Longrightarrow> i < length (gm_nets m)"
  shows "\<exists>r. scan_link m counts k ins link = Some r \<and>
    (\<forall>p. r = Some p \<longrightarrow> link = Some p \<or> (\<exists>i \<in> set ins. same_kind m k i = Some p \<and> counts ! i = 1))"
  using assms(2)
proof (induction ins arbitrary: link)
  case (Cons i ins)
  have i: "same_kind_cell m k i = Some (same_kind m k i)" using same_kind_cell_eq [OF wf] Cons.prems by simp
  show ?case
  proof (cases "same_kind m k i")
    case None
    then show ?thesis using i Cons.IH [of link] Cons.prems by auto
  next
    case (Some d)
    obtain r where "scan_link m counts k ins (Some d) = Some r"
      "\<forall>p. r = Some p \<longrightarrow> Some d = Some p \<or> (\<exists>i \<in> set ins. same_kind m k i = Some p \<and> counts ! i = 1)"
      using Cons.IH [of "Some d"] Cons.prems by auto
    then show ?thesis using i Some by auto
  qed
qed simp

lemma chain_pred_spec:
  assumes wf: "wf_module m" and c: "c < length (gm_cells m)"
    and counts: "\<And>n. n < length (gm_nets m) \<Longrightarrow> counts ! n = sum_list (map (uses m n) (gm_cells m))"
  shows "\<exists>r. chain_pred m counts (gm_cells m ! c) = Some r \<and> (\<forall>p. r = Some p \<longrightarrow> scan_step m p c)"
proof (cases "is_assoc (c_kind (gm_cells m ! c))")
  case True
  let ?k = "c_kind (gm_cells m ! c)"
  obtain r where r: "scan_link m counts ?k (c_inputs (gm_cells m ! c)) None = Some r"
    "\<forall>p. r = Some p \<longrightarrow> (\<exists>i \<in> set (c_inputs (gm_cells m ! c)). same_kind m ?k i = Some p \<and> counts ! i = 1)"
    using scan_link_spec [OF wf wf_cell(2) [OF wf c], where counts = counts and k = ?k and link = None] by auto
  have "scan_step m p c" if p: "r = Some p" for p
  proof -
    obtain i where i: "i \<in> set (c_inputs (gm_cells m ! c))" "same_kind m ?k i = Some p" "counts ! i = 1" using r(2) p by blast
    have lt: "i < length (gm_nets m)" using wf_cell(2) [OF wf c i(1)] .
    show ?thesis using same_kind_Some [OF wf lt i(2)] i lt counts [OF lt] True by (simp add: scan_step_def)
  qed
  then show ?thesis using r(1) True by (simp add: chain_pred_def)
qed (simp add: chain_pred_def)

text \<open>A cell is the predecessor of at most one cell.\<close>

lemma two_le_sum_list:
  assumes "i < length xs" "j < length xs" "i \<noteq> j"
  shows "f (xs ! i) + f (xs ! j) \<le> (sum_list (map f xs) :: nat)"
  using assms
proof (induction xs arbitrary: i j)
  case (Cons x xs)
  have one: "f (xs ! i) \<le> sum_list (map f xs)" if "i < length xs" for i
    using that member_le_sum_list [of "f (xs ! i)" "map f xs"] by simp
  show ?case
    using Cons.prems one Cons.IH by (cases i; cases j) (auto simp: add.commute add_increasing)
qed simp

lemma scan_step_inj:
  assumes wf: "wf_module m" and s: "scan_step m p c" "scan_step m p d" and cd: "c < length (gm_cells m)" "d < length (gm_cells m)"
  shows "c = d"
proof (rule ccontr)
  assume ne: "c \<noteq> d"
  let ?n = "c_output (gm_cells m ! p)"
  have one_use: "1 \<le> uses m ?n (gm_cells m ! x)" if "scan_step m p x" for x
  proof -
    have "?n \<in> set (filter (\<lambda>i. i = ?n \<and> same_kind m (c_kind (gm_cells m ! x)) i \<noteq> None) (c_inputs (gm_cells m ! x)))"
      using that by (auto simp: scan_step_def same_kind_def)
    then have "filter (\<lambda>i. i = ?n \<and> same_kind m (c_kind (gm_cells m ! x)) i \<noteq> None) (c_inputs (gm_cells m ! x)) \<noteq> []"
      by (metis empty_iff list.set(1))
    then show ?thesis using that by (simp add: uses_def scan_step_def Suc_le_eq)
  qed
  have "2 \<le> uses m ?n (gm_cells m ! c) + uses m ?n (gm_cells m ! d)"
    using one_use [OF s(1)] one_use [OF s(2)] by linarith
  also have "\<dots> \<le> sum_list (map (uses m ?n) (gm_cells m))" by (rule two_le_sum_list [OF cd ne])
  finally show False using s(1) by (simp add: scan_step_def)
qed

text \<open>The vector of predecessors.\<close>

definition preds_ok :: "gate_module \<Rightarrow> nat option list \<Rightarrow> bool" where
  "preds_ok m pred \<longleftrightarrow> length pred = length (gm_cells m)
     \<and> (\<forall>c < length pred. \<forall>p. pred ! c = Some p \<longrightarrow> scan_step m p c)"

lemma preds_result:
  assumes wf: "wf_module m" and counts: "\<And>n. n < length (gm_nets m) \<Longrightarrow> counts ! n = sum_list (map (uses m n) (gm_cells m))"
  shows "\<exists>pred. those (map (chain_pred m counts) (gm_cells m)) = Some pred \<and> preds_ok m pred"
proof -
  have ex: "\<exists>r. chain_pred m counts c = Some r" if c: "c \<in> set (gm_cells m)" for c
  proof -
    obtain i where "i < length (gm_cells m)" "gm_cells m ! i = c" using c by (auto simp: in_set_conv_nth)
    then show ?thesis using chain_pred_spec [OF wf _ counts, of i] by auto
  qed
  let ?g = "\<lambda>c. the (chain_pred m counts c)"
  have "chain_pred m counts c = Some (?g c)" if c: "c \<in> set (gm_cells m)" for c
    using ex [OF c] by (cases "chain_pred m counts c") simp_all
  then have "those (map (chain_pred m counts) (gm_cells m)) = Some (map ?g (gm_cells m))" by (rule those_map_Some)
  moreover have "scan_step m p c" if "c < length (gm_cells m)" "map ?g (gm_cells m) ! c = Some p" for c p
    using that chain_pred_spec [OF wf that(1) counts] by auto
  then have "preds_ok m (map ?g (gm_cells m))" by (simp add: preds_ok_def)
  ultimately show ?thesis by blast
qed

lemma mark_linked_spec:
  assumes "preds_ok m pred" "c < length pred"
  shows "mark_linked pred ! c \<longleftrightarrow> Some c \<in> set pred"
proof -
  have "length (fold (\<lambda>p linked. case p of Some i \<Rightarrow> linked[i := True] | None \<Rightarrow> linked) ps ls) = length ls \<and>
      (fold (\<lambda>p linked. case p of Some i \<Rightarrow> linked[i := True] | None \<Rightarrow> linked) ps ls ! c \<longleftrightarrow> ls ! c \<or> Some c \<in> set ps)"
    if "c < length ls" for ps ls
    using that
  proof (induction ps arbitrary: ls)
    case (Cons p ps)
    show ?case
    proof (cases p)
      case (Some a)
      have "ls[a := True] ! c \<longleftrightarrow> ls ! c \<or> a = c" using Cons.prems by (cases "a = c") simp_all
      then show ?thesis using Cons.IH [of "ls[a := True]"] Cons.prems Some by auto
    qed (use Cons in simp)
  qed simp
  from this [of "replicate (length pred) False" pred] show ?thesis using assms(2) by (simp add: mark_linked_def)
qed

subsection \<open>Walking the chains\<close>

fun linked :: "nat option list \<Rightarrow> nat list \<Rightarrow> bool" where
  "linked pred (p # c # rest) \<longleftrightarrow> pred ! c = Some p \<and> linked pred (c # rest)"
| "linked pred _ = True"

lemma linked_nth: "linked pred chain \<Longrightarrow> Suc i < length chain \<Longrightarrow> pred ! (chain ! Suc i) = Some (chain ! i)"
proof (induction pred chain arbitrary: i rule: linked.induct)
  case (1 pred p c rest)
  then show ?case by (cases i) auto
qed auto

lemma linked_next: "linked pred chain \<Longrightarrow> x \<in> set chain \<Longrightarrow> x \<noteq> last chain \<Longrightarrow> \<exists>y \<in> set chain. pred ! y = Some x"
  by (induction pred chain rule: linked.induct) auto

lemma walk_driven:
  assumes ok: "preds_ok m pred" and rk: "ranked r m"
    and "cur < length pred" "c_output (gm_cells m ! cur) < length (gm_nets m)"
      "driver (gm_nets m ! c_output (gm_cells m ! cur)) = DCell cur"
    and "linked pred (cur # acc)" "\<forall>c \<in> set acc. c < length pred"
  shows "\<exists>chain. chain_back pred cur (cur # acc) = Some chain \<and> linked pred chain \<and> (\<exists>pre. chain = pre @ cur # acc)
    \<and> (\<forall>c \<in> set chain. c < length pred)"
  using assms(3-7)
proof (induction "r (c_output (gm_cells m ! cur))" arbitrary: cur acc rule: less_induct)
  case less
  show ?case
  proof (cases "pred ! cur")
    case None
    then show ?thesis using less.prems by (simp add: chain_back.simps [of pred cur])
  next
    case (Some p)
    have s: "scan_step m p cur" using ok Some less.prems(1) by (simp add: preds_ok_def)
    then have p: "p < length pred" "c_output (gm_cells m ! p) < length (gm_nets m)"
      "driver (gm_nets m ! c_output (gm_cells m ! p)) = DCell p"
      using ok by (simp_all add: scan_step_def preds_ok_def)
    have lower: "r (c_output (gm_cells m ! p)) < r (c_output (gm_cells m ! cur))"
      using rk less.prems(2,3) s by (simp add: ranked_def scan_step_def)
    have "linked pred (p # cur # acc)" "\<forall>c \<in> set (cur # acc). c < length pred" using less.prems Some by simp_all
    from less.hyps [OF lower p this] obtain chain where ch: "chain_back pred p (p # cur # acc) = Some chain" "linked pred chain"
      "\<exists>pre. chain = pre @ p # cur # acc" "\<forall>c \<in> set chain. c < length pred" by blast
    obtain pre where "chain = (pre @ [p]) @ cur # acc" using ch(3) by auto
    then show ?thesis using ch Some less.prems(1) by (auto simp: chain_back.simps [of pred cur])
  qed
qed

definition chain_of :: "nat option list \<Rightarrow> nat \<Rightarrow> nat list" where
  "chain_of pred t = the (chain_back pred t [t])"

lemma walk_tail:
  assumes ok: "preds_ok m pred" and rk: "ranked r m" and t: "t < length pred"
  shows "chain_back pred t [t] = Some (chain_of pred t)" "linked pred (chain_of pred t)" "chain_of pred t \<noteq> []"
    "last (chain_of pred t) = t" "\<And>c. c \<in> set (chain_of pred t) \<Longrightarrow> c < length pred"
proof -
  have "\<exists>chain. chain_back pred t [t] = Some chain \<and> linked pred chain \<and> (\<exists>pre. chain = pre @ [t]) \<and> (\<forall>c \<in> set chain. c < length pred)"
  proof (cases "pred ! t")
    case None
    then show ?thesis using t by (simp add: chain_back.simps [of pred t])
  next
    case (Some p)
    have s: "scan_step m p t" using ok Some t by (simp add: preds_ok_def)
    then have p: "p < length pred" "c_output (gm_cells m ! p) < length (gm_nets m)"
      "driver (gm_nets m ! c_output (gm_cells m ! p)) = DCell p"
      using ok by (simp_all add: scan_step_def preds_ok_def)
    have "linked pred [p, t]" "\<forall>c \<in> set [t]. c < length pred" using Some t by simp_all
    from walk_driven [OF ok rk p this] obtain chain where ch: "chain_back pred p [p, t] = Some chain" "linked pred chain"
      "\<exists>pre. chain = pre @ [p, t]" "\<forall>c \<in> set chain. c < length pred" by blast
    obtain pre where "chain = (pre @ [p]) @ [t]" using ch(3) by auto
    then show ?thesis using ch Some t by (auto simp: chain_back.simps [of pred t])
  qed
  then obtain chain pre where ch: "chain_back pred t [t] = Some chain" "linked pred chain" "chain = pre @ [t]" "\<forall>c \<in> set chain. c < length pred"
    by blast
  have eq: "chain_of pred t = chain" using ch(1) by (simp add: chain_of_def)
  show "chain_back pred t [t] = Some (chain_of pred t)" "linked pred (chain_of pred t)" "chain_of pred t \<noteq> []"
    "last (chain_of pred t) = t" unfolding eq using ch by simp_all
  show "c < length pred" if "c \<in> set (chain_of pred t)" for c
    using that ch(4) unfolding eq by blast
qed

text \<open>A cell is on the chain of one tail only.\<close>

lemma chains_disjoint:
  assumes wf: "wf_module m" and ok: "preds_ok m pred"
    and c1: "linked pred c1" "\<And>c. c \<in> set c1 \<Longrightarrow> c < length pred" "Some (last c1) \<notin> set pred"
    and c2: "linked pred c2" "\<And>c. c \<in> set c2 \<Longrightarrow> c < length pred" "Some (last c2) \<notin> set pred"
    and x: "x \<in> set c1" "x \<in> set c2"
  shows "last c1 = last c2"
proof -
  have inj: "y = z" if "pred ! y = Some w" "pred ! z = Some w" "y < length pred" "z < length pred" for w y z
    using scan_step_inj [OF wf, of w y z] that ok by (simp add: preds_ok_def)
  show ?thesis
    using c1 x
  proof (induction c1 arbitrary: x)
    case (Cons c cs)
    show ?case
    proof (cases cs)
      case Nil
      then have "Some x \<notin> set pred" using Cons.prems(3,4) by simp
      then have "x = last c2" using linked_next [OF c2(1) Cons.prems(5)] c2(2) by (metis nth_mem)
      then show ?thesis using Nil Cons.prems(4) by simp
    next
      case y: (Cons y ys)
      have cs: "linked pred cs" "Some (last cs) \<notin> set pred" using Cons.prems(1,3) by (simp_all add: y)
      show ?thesis
      proof (cases "x \<in> set cs")
        case True
        then show ?thesis using Cons.IH [OF cs(1) _ cs(2) True Cons.prems(5)] Cons.prems(2) y by simp
      next
        case False
        then have px: "pred ! y = Some x" "y < length pred" using Cons.prems(1,2,4) by (simp_all add: y)
        then have "x \<noteq> last c2" using c2(3) nth_mem by force
        then obtain z where z: "z \<in> set c2" "pred ! z = Some x" using linked_next [OF c2(1) Cons.prems(5)] by blast
        then have "z = y" using inj [OF z(2) px(1) c2(2) [OF z(1)] px(2)] by simp
        then show ?thesis using Cons.IH [OF cs(1) _ cs(2), of y] Cons.prems(2) y z(1) by simp
      qed
    qed
  qed simp
qed

text \<open>A walked chain is a linear scan.\<close>

lemma chain_linear:
  assumes wf: "wf_module m" and ok: "preds_ok m pred" and rk: "ranked r m" and t: "t < length pred" "Some t \<notin> set pred"
    and two: "pred ! t \<noteq> None"
  shows "linear_scan m (c_kind (gm_cells m ! t)) (chain_of pred t)"
proof -
  let ?c = "chain_of pred t"
  note w = walk_tail [OF ok rk t(1)]
  have len: "length pred = length (gm_cells m)" using ok by (simp add: preds_ok_def)
  have step: "scan_step m (?c ! i) (?c ! Suc i)" if i: "Suc i < length ?c" for i
  proof -
    have "?c ! Suc i < length pred" using i by (intro w(5) nth_mem)
    then show ?thesis using linked_nth [OF w(2) i] ok by (simp add: preds_ok_def)
  qed
  have up: "c_kind (gm_cells m ! (?c ! i)) = c_kind (gm_cells m ! t)" if "i < length ?c" for i
    using that
  proof (induction "length ?c - i" arbitrary: i rule: less_induct)
    case less
    show ?case
    proof (cases "Suc i < length ?c")
      case True
      then show ?thesis using less.hyps [of "Suc i"] step [OF True] by (simp add: scan_step_def)
    next
      case False
      then have "i = length ?c - 1" using less.prems by simp
      then show ?thesis using w(3,4) by (simp add: last_conv_nth)
    qed
  qed
  have mono: "sorted_wrt (\<lambda>p c. r (c_output (gm_cells m ! p)) < r (c_output (gm_cells m ! c))) (butlast ?c)"
  proof (subst sorted_wrt_iff_nth_Suc_transp)
    show "transp (\<lambda>p c. r (c_output (gm_cells m ! p)) < r (c_output (gm_cells m ! c)))" by (auto intro!: transpI)
    show "\<forall>i. Suc i < length (butlast ?c) \<longrightarrow>
      r (c_output (gm_cells m ! (butlast ?c ! i))) < r (c_output (gm_cells m ! (butlast ?c ! Suc i)))"
    proof (intro allI impI)
      fix i assume i: "Suc i < length (butlast ?c)"
      then have "scan_step m (?c ! i) (?c ! Suc i)" "scan_step m (?c ! Suc i) (?c ! Suc (Suc i))" using step by simp_all
      then show "r (c_output (gm_cells m ! (butlast ?c ! i))) < r (c_output (gm_cells m ! (butlast ?c ! Suc i)))"
        using rk i by (simp add: nth_butlast ranked_def scan_step_def)
    qed
  qed
  have "distinct (butlast ?c)"
    using mono by (auto simp: distinct_conv_nth sorted_wrt_iff_nth_less) (metis linorder_neqE_nat nat_neq_iff)
  moreover have "t \<notin> set (butlast ?c)"
  proof
    assume "t \<in> set (butlast ?c)"
    then obtain i where "i < length (butlast ?c)" "butlast ?c ! i = t" by (auto simp: in_set_conv_nth)
    then have i: "Suc i < length ?c" "?c ! i = t" by (auto simp: nth_butlast)
    have "?c ! Suc i < length pred" using i(1) by (intro w(5) nth_mem)
    then show False using linked_nth [OF w(2) i(1)] i(2) t(2) nth_mem by metis
  qed
  moreover have "?c = butlast ?c @ [t]" using w(3,4) by (metis append_butlast_last_id)
  ultimately have "distinct ?c" by (metis distinct1_rotate distinct.simps(2) rotate1.simps(2))
  moreover have "is_assoc (c_kind (gm_cells m ! t))"
    using two ok t(1) by (auto simp: preds_ok_def scan_step_def)
  moreover have "\<forall>c \<in> set ?c. c < length (gm_cells m) \<and> c_kind (gm_cells m ! c) = c_kind (gm_cells m ! t)"
    using up w(5) len by (metis in_set_conv_nth)
  ultimately show ?thesis using w(3) step by (simp add: linear_scan_def scan_step_def)
qed

text \<open>One turn of the loop over the tails; the cells off the walked chains are untouched.\<close>

definition tails_done :: "gate_module \<Rightarrow> nat option list \<Rightarrow> nat \<Rightarrow> gate_module \<times> bool \<Rightarrow> bool" where
  "tails_done m pred k st \<longleftrightarrow> wf_module (fst st) \<and> rebuilt m (fst st) \<and> (\<not> snd st \<longrightarrow> fst st = m)
     \<and> (\<forall>c < length (gm_cells m). gm_cells (fst st) ! c = gm_cells m ! c
          \<or> (\<exists>t < k. t < length pred \<and> Some t \<notin> set pred \<and> c \<in> set (chain_of pred t)))"

lemma linear_scan_cong:
  assumes "linear_scan m k chain" "length (gm_cells m) \<le> length (gm_cells n)" "\<And>c. c \<in> set chain \<Longrightarrow> gm_cells n ! c = gm_cells m ! c"
    and "\<And>c. c \<in> set chain \<Longrightarrow> gm_nets n ! c_output (gm_cells m ! c) = gm_nets m ! c_output (gm_cells m ! c)"
  shows "linear_scan n k chain"
proof -
  have "gm_cells n ! (chain ! i) = gm_cells m ! (chain ! i)"
    "gm_nets n ! c_output (gm_cells m ! (chain ! i)) = gm_nets m ! c_output (gm_cells m ! (chain ! i))" if "i < length chain" for i
    using assms(3,4) that by simp_all
  then show ?thesis using assms unfolding linear_scan_def by (auto dest: Suc_lessD)
qed

lemma rebuild_tail_step:
  assumes wf: "wf_module m" and ok: "preds_ok m pred" and rk: "ranked r m" and t: "t < length pred" and st: "tails_done m pred t st"
  shows "\<exists>st'. rebuild_tail pred (mark_linked pred) t st = Some st' \<and> tails_done m pred (Suc t) st'"
proof -
  note w = walk_tail [OF ok rk t]
  have keep: "tails_done m pred (Suc t) st" using st less_SucI unfolding tails_done_def by blast
  show ?thesis
  proof (cases "mark_linked pred ! t \<or> pred ! t = None \<or> length (chain_of pred t) < MIN_CHAIN_CELLS")
    case True
    then have "rebuild_tail pred (mark_linked pred) t st = Some st" using w(1) by (auto simp: rebuild_tail_def)
    then show ?thesis using keep by blast
  next
    case False
    then have tail: "Some t \<notin> set pred" and two: "pred ! t \<noteq> None" using mark_linked_spec [OF ok t] by simp_all
    let ?n = "fst st" and ?c = "chain_of pred t"
    have n: "wf_module ?n" "rebuilt m ?n" using st by (simp_all add: tails_done_def)
    have lens: "length pred = length (gm_cells m)" "length (gm_cells m) \<le> length (gm_cells ?n)"
      using ok n(2) by (simp_all add: preds_ok_def rebuilt_def)
    have same: "gm_cells ?n ! c = gm_cells m ! c" if c: "c \<in> set ?c" for c
    proof (rule ccontr)
      assume "gm_cells ?n ! c \<noteq> gm_cells m ! c"
      moreover have "c < length (gm_cells m)" using w(5) [OF c] lens(1) by simp
      ultimately obtain u where u: "u < t" "u < length pred" "Some u \<notin> set pred" "c \<in> set (chain_of pred u)"
        using st unfolding tails_done_def by blast
      note wu = walk_tail [OF ok rk u(2)]
      have "last (chain_of pred u) = last ?c"
        by (rule chains_disjoint [OF wf ok wu(2) wu(5) _ w(2) w(5) _ u(4) c]) (use u(3) tail wu(4) w(4) in simp_all)
      then show False using u(1) wu(4) w(4) by simp
    qed
    have nets: "gm_nets ?n ! c_output (gm_cells m ! c) = gm_nets m ! c_output (gm_cells m ! c)" if c: "c \<in> set ?c" for c
    proof -
      have "gm_cells m ! c \<in> set (gm_cells m)" using w(5) [OF c] lens(1) by simp
      then have "c_output (gm_cells m ! c) < length (gm_nets m)" using wf by (auto simp: wf_module_def module_cell_wf_def)
      moreover obtain ns where "gm_nets ?n = gm_nets m @ ns" using n(2) unfolding rebuilt_def by blast
      ultimately show ?thesis by (simp add: nth_append)
    qed
    have "linear_scan ?n (c_kind (gm_cells m ! t)) ?c"
      by (rule linear_scan_cong [OF chain_linear [OF wf ok rk t tail two] lens(2) same]) (use nets in blast)+
    from rebuild_chain_spec [OF n(1) this] obtain n' where n': "rebuild_chain ?n ?c = Some n'" "wf_module n'" "rebuilt ?n n'"
      "\<forall>c < length (gm_cells ?n). c \<notin> set ?c \<longrightarrow> gm_cells n' ! c = gm_cells ?n ! c" by blast
    have "gm_cells n' ! c = gm_cells m ! c \<or> (\<exists>u < Suc t. u < length pred \<and> Some u \<notin> set pred \<and> c \<in> set (chain_of pred u))"
      if c: "c < length (gm_cells m)" for c
    proof (cases "c \<in> set ?c")
      case True
      then show ?thesis using t tail by blast
    next
      case False
      then have "gm_cells n' ! c = gm_cells ?n ! c" using n'(4) c lens(2) by simp
      then show ?thesis using keep c unfolding tails_done_def by metis
    qed
    then have "tails_done m pred (Suc t) (n', True)"
      using n'(2) rebuilt_trans [OF n(2) n'(3)] by (simp add: tails_done_def)
    moreover have "rebuild_tail pred (mark_linked pred) t st = Some (n', True)"
      using False two w(1) n'(1) by (auto simp: rebuild_tail_def)
    ultimately show ?thesis by blast
  qed
qed

subsection \<open>The pass\<close>

lemma prefix_rebuilds:
  assumes "wf_module m" "ranked r m"
  shows "\<exists>m' ch. prefix_parallelize m = Some (m', ch) \<and> wf_module m' \<and> rebuilt m m' \<and> (\<not> ch \<longrightarrow> m' = m)"
proof -
  obtain counts where counts: "same_kind_consumers m = Some counts"
    "\<And>n. n < length (gm_nets m) \<Longrightarrow> counts ! n = sum_list (map (uses m n) (gm_cells m))"
    using same_kind_consumers_spec [OF assms(1)] by metis
  obtain pred where pred: "those (map (chain_pred m counts) (gm_cells m)) = Some pred" "preds_ok m pred"
    using preds_result [OF assms(1) counts(2)] by blast
  have len: "length pred = length (gm_cells m)" using pred(2) by (simp add: preds_ok_def)
  have step: "\<exists>st'. rebuild_tail pred (mark_linked pred) t st = Some st' \<and> tails_done m pred (Suc t) st'"
    if "t < length (gm_cells m)" "tails_done m pred t st" for t st
    using rebuild_tail_step [OF assms(1) pred(2) assms(2) _ that(2)] that(1) len by simp
  have init: "tails_done m pred 0 (m, False)" using assms(1) by (simp add: tails_done_def rebuilt_refl)
  obtain st where "fold_opt (rebuild_tail pred (mark_linked pred)) [0..<length (gm_cells m)] (m, False) = Some st"
    "tails_done m pred (length (gm_cells m)) st"
    using fold_opt_upt [where P = "tails_done m pred" and f = "rebuild_tail pred (mark_linked pred)" and n = "length (gm_cells m)"
        and s = "(m, False)", OF step init] by blast
  then obtain m' ch where run: "prefix_parallelize m = Some (m', ch)" and st: "wf_module m'" "rebuilt m m'" "\<not> ch \<longrightarrow> m' = m"
    using counts(1) pred(1) by (cases st) (auto simp: prefix_parallelize_def tails_done_def)
  then show ?thesis by blast
qed

interpretation prefix: depth_pass prefix_parallelize
  by unfold_locales (use prefix_rebuilds in blast)

text \<open>
  C34: on a well-formed acyclic netlist the prefix restructuring ends without a panic.  The
  result is well formed and keeps the name, the ports, the
  flip-flops, the memories and every net of the old module, adds nets behind them, and its
  cells constrain the old nets exactly as before: every assignment of the old module extends
  to one of the new, and every assignment of the new one is one of the old.  It has no
  combinational cycle and no second driver of a net if the old module had none.  When the
  pass reports no change it returns its argument.
\<close>
theorem prefix_parallelize_correct:
  assumes "wf_module m" "ranked r m"
  shows "\<exists>m' ch ns. prefix_parallelize m = Some (m', ch) \<and> wf_module m' \<and> (\<not> ch \<longrightarrow> m' = m)
    \<and> same_pins m m' \<and> gm_nets m' = gm_nets m @ ns
    \<and> (\<forall>v. msat v m \<longrightarrow> (\<exists>w. msat w m' \<and> (\<forall>n < length (gm_nets m). w n = v n)))
    \<and> (\<forall>w. msat w m' \<longrightarrow> msat w m) \<and> (\<exists>r'. ranked r' m') \<and> (single_driver m \<longrightarrow> single_driver m')"
  using prefix_rebuilds [OF assms] assms unfolding rebuilt_def by blast

text \<open>Eight AND cells in a row over nine inputs, every stage observed: the shortest scan that is rebuilt.\<close>

definition and_scan :: gate_module where
  "and_scan = \<lparr>gm_name = None,
     gm_ports = [\<lparr>gp_name = 0, gp_path = [], gp_dir = Output, gp_nets = [11..<19]\<rparr>],
     gm_nets = map (\<lambda>d. \<lparr>driver = d, origin = None\<rparr>)
       ([DConst False, DConst True] @ replicate 9 PortInput @ map DCell [0..<8]),
     gm_cells = \<lparr>c_kind = And2, c_inputs = [2, 3], c_output = 11\<rparr> #
       map (\<lambda>i. \<lparr>c_kind = And2, c_inputs = [10 + i, 3 + i], c_output = 11 + i\<rparr>) [1..<8],
     gm_ffs = [], gm_ram_blocks = []\<rparr>"

lemma and_scan_wf: "wf_module and_scan"
  by (auto simp: wf_module_def and_scan_def rails module_cell_wf_def sinks_def ram_inputs_def less_Suc_eq numeral_eq_Suc)

lemma and_scan_ranked: "ranked id and_scan"
  by (auto simp: ranked_def and_scan_def less_Suc_eq numeral_eq_Suc)

lemma and_scan_preds: "those (map (chain_pred and_scan ([0,0,0,0,0,0,0,0,0,0,0] @ replicate 7 1 @ [0])) (gm_cells and_scan)) = Some (None # map Some [0..<7])"
  by code_simp

lemma and_scan_counts: "same_kind_consumers and_scan = Some ([0,0,0,0,0,0,0,0,0,0,0] @ replicate 7 1 @ [0])"
  by code_simp

lemma and_scan_linked: "mark_linked (None # map Some [0..<7]) = replicate 7 True @ [False]"
  by code_simp

lemma and_scan_chain: "chain_back (None # map Some [0..<7]) 7 [7] = Some [0..<8]"
  by code_simp

lemma and_scan_linear: "linear_scan and_scan And2 [0..<8]"
  by (auto simp: linear_scan_def is_assoc_def and_scan_def less_Suc_eq numeral_eq_Suc)

lemma and_scan_rebuilt: "\<exists>m'. prefix_parallelize and_scan = Some (m', True)"
proof -
  obtain m' where m': "rebuild_chain and_scan [0..<8] = Some m'" using rebuild_chain_spec [OF and_scan_wf and_scan_linear] by blast
  have "fold_opt (rebuild_tail (None # map Some [0..<7]) (replicate 7 True @ [False])) [0..<7] (and_scan, False) = Some (and_scan, False)"
    by (simp add: rebuild_tail_def upt_rec numeral_eq_Suc)
  moreover have "rebuild_tail (None # map Some [0..<7]) (replicate 7 True @ [False]) 7 (and_scan, False) = Some (m', True)"
    using m' and_scan_chain by (simp add: rebuild_tail_def MIN_CHAIN_CELLS_def nth_append del: upt_rec_numeral)
  moreover have "[0..<length (gm_cells and_scan)] = [0..<7] @ [7]" by (simp add: and_scan_def upt_rec)
  ultimately have "fold_opt (rebuild_tail (None # map Some [0..<7]) (replicate 7 True @ [False])) [0..<length (gm_cells and_scan)] (and_scan, False) = Some (m', True)"
    by (simp add: fold_opt_append del: upt_rec_numeral)
  then show ?thesis
    unfolding prefix_parallelize_def and_scan_counts and_scan_preds Option.bind.simps and_scan_linked by blast
qed

theorem prefix_parallelize_correct_witness:
  "\<exists>m' ns. prefix_parallelize and_scan = Some (m', True) \<and> wf_module m' \<and> same_pins and_scan m' \<and> gm_nets m' = gm_nets and_scan @ ns"
  using prefix_parallelize_correct [OF and_scan_wf and_scan_ranked] and_scan_rebuilt by fastforce

text \<open>
  C35: the Sklansky network over \<open>n \<ge> 1\<close> leaves adds cells that compute, on the \<open>i\<close>-th net it
  returns, the operation over the leaves up to the \<open>i\<close>-th, for AND, OR and XOR; and if the
  leaves are at level \<open>L\<close> or below and \<open>n \<le> 2 ^ d\<close>, every returned net is at level \<open>L + d\<close>
  or below, where a scan of the same leaves needs \<open>n - 1\<close> levels.
\<close>
theorem sklansky_correct:
  assumes "leaves \<noteq> []" "wf_module m" "is_assoc k" "\<And>n. n \<in> set leaves \<Longrightarrow> n < length (gm_nets m)"
  shows "\<exists>out m' cs. sklansky k leaves m = Some (out, m') \<and> wf_module m' \<and> gm_cells m' = gm_cells m @ cs
    \<and> length out = length leaves
    \<and> (\<forall>v i. (\<forall>c \<in> set cs. holds v c) \<longrightarrow> i < length leaves \<longrightarrow> v (out ! i) = scan k (map v (take (Suc i) leaves)))
    \<and> (\<forall>lv L d. levelled lv cs \<longrightarrow> (\<forall>n \<in> set leaves. lv n \<le> L) \<longrightarrow> length leaves \<le> 2 ^ d
         \<longrightarrow> (\<forall>n \<in> set out. lv n \<le> L + d))"
proof -
  obtain out m' cs where "sklansky k leaves m = Some (out, m')" "gated m m' cs" "network k leaves out cs"
    using sklansky_spec [OF assms] by blast
  then show ?thesis
    by (intro exI [of _ out] exI [of _ m'] exI [of _ cs]) (simp add: gated_def network_def)
qed

theorem sklansky_correct_witness:
  "\<exists>out m' cs. sklansky And2 [2, 3, 4, 5] scan_stage = Some (out, m') \<and> wf_module m' \<and> length out = length [2, 3, 4, 5 :: nat]
     \<and> gm_cells m' = gm_cells scan_stage @ cs"
  using sklansky_correct [of "[2, 3, 4, 5]" scan_stage And2] scan_stage_wf
  by (force simp: is_assoc_def scan_stage_def)

end
