(* ===== verification/Counter.thy ===== *)
theory Counter
  imports Prefix
begin

section \<open>Serial counters rebuilt as popcount trees (\<open>conv/counter.rs\<close>)\<close>

text \<open>
  \<open>count_scan_rebuild\<close>: chains of at least eight conditional-increment stages over one counter
  bus become the seed plus the popcount of the conditions.  A hash map whose groups are sorted
  by their key is the list of its groups in that order.  An index out of range and a failed
  \<open>expect\<close> are \<open>None\<close>; the walk into an AND cone, the fold of the mux layers and the walk
  along a chain do not end on a cyclic netlist and are partial functions.
\<close>

definition MIN_STAGES :: nat where "MIN_STAGES = 8"

record stage =
  st_terms :: "(net_id \<times> bool) list"
  st_out :: "net_id list"
  st_in :: "net_id list"
  st_cells :: "nat list"

record inc_mux =
  im_mux :: nat
  im_k :: nat
  im_b :: net_id
  im_leaves :: "net_id list"
  im_sel_high :: bool

subsection \<open>Recognising the stages\<close>

text \<open>The recursion over the inputs of an AND cell is the loop over a list of nets.\<close>

partial_function (option) collect_and_leaves :: "gate_module \<Rightarrow> net_id list \<Rightarrow> net_id list \<Rightarrow> net_id list option" where
  "collect_and_leaves m nets out =
     (case nets of
        [] \<Rightarrow> Some out
      | net # nets \<Rightarrow> do {
          d \<leftarrow> driver_at m net;
          (case d of
             DCell i \<Rightarrow> do {
               c \<leftarrow> cell_at m i;
               if c_kind c \<in> {And2, And3} then do {
                 out \<leftarrow> collect_and_leaves m (c_inputs c) out;
                 collect_and_leaves m nets out
               }
               else collect_and_leaves m nets (out @ [net])
             }
           | _ \<Rightarrow> collect_and_leaves m nets (out @ [net]))
        })"

declare collect_and_leaves.simps [code]

definition xor_carry :: "net_id \<Rightarrow> cell \<Rightarrow> net_id option option" where
  "xor_carry b t = do {
     i0 \<leftarrow> nth_opt (c_inputs t) 0;
     i1 \<leftarrow> nth_opt (c_inputs t) 1;
     Some (if i0 = b then Some i1 else if i1 = b then Some i0 else None)
   }"

definition classify_leg :: "gate_module \<Rightarrow> nat \<Rightarrow> net_id \<Rightarrow> net_id \<Rightarrow> bool \<Rightarrow> inc_mux option option" where
  "classify_leg m mi b inc sel_high = do {
     d \<leftarrow> driver_at m inc;
     (case d of
        DCell ti \<Rightarrow> do {
          t \<leftarrow> cell_at m ti;
          (if c_kind t = Not1 then do {
             i0 \<leftarrow> nth_opt (c_inputs t) 0;
             Some (if i0 = b then Some \<lparr>im_mux = mi, im_k = 0, im_b = b, im_leaves = [], im_sel_high = sel_high\<rparr> else None)
           }
           else if c_kind t = Xor2 then do {
             r \<leftarrow> xor_carry b t;
             (case r of
                None \<Rightarrow> Some None
              | Some carry \<Rightarrow> do {
                  leaves \<leftarrow> collect_and_leaves m [carry] [];
                  Some (if leaves \<noteq> []
                        then Some \<lparr>im_mux = mi, im_k = length leaves, im_b = b, im_leaves = leaves, im_sel_high = sel_high\<rparr>
                        else None)
                })
           }
           else Some None)
        }
      | _ \<Rightarrow> Some None)
   }"

definition classify_inc_mux :: "gate_module \<Rightarrow> nat \<Rightarrow> inc_mux option option" where
  "classify_inc_mux m mi = do {
     mux \<leftarrow> cell_at m mi;
     d0 \<leftarrow> nth_opt (c_inputs mux) 1;
     d1 \<leftarrow> nth_opt (c_inputs mux) 2;
     r \<leftarrow> classify_leg m mi d0 d1 True;
     (case r of Some im \<Rightarrow> Some (Some im) | None \<Rightarrow> classify_leg m mi d1 d0 False)
   }"

definition group_entry :: "gate_module \<Rightarrow> nat \<Rightarrow> ((net_id \<times> bool) \<times> inc_mux) option option" where
  "group_entry m mi = do {
     c \<leftarrow> cell_at m mi;
     if c_kind c \<noteq> Mux2 then Some None
     else do {
       r \<leftarrow> classify_inc_mux m mi;
       (case r of
          None \<Rightarrow> Some None
        | Some im \<Rightarrow> do { s \<leftarrow> nth_opt (c_inputs c) 0; Some (Some ((s, im_sel_high im), im)) })
     }
   }"

text \<open>The groups, sorted by key; within a group in the order of the cells.\<close>

definition key_rank :: "net_id \<times> bool \<Rightarrow> nat" where
  "key_rank k = 2 * fst k + of_bool (snd k)"

definition groups_of :: "((net_id \<times> bool) \<times> inc_mux) list \<Rightarrow> ((net_id \<times> bool) \<times> inc_mux list) list" where
  "groups_of es = map (\<lambda>k. (k, map snd (filter (\<lambda>e. fst e = k) es))) (sort_key key_rank (remdups (map fst es)))"

text \<open>The bus of a group: \<open>Some None\<close> rejects it.\<close>

fun bus_of :: "gate_module \<Rightarrow> inc_mux list \<Rightarrow> nat \<Rightarrow> net_id list \<Rightarrow> net_id list \<Rightarrow> nat list
    \<Rightarrow> (net_id list \<times> net_id list \<times> nat list) option option" where
  "bus_of m [] pos in_bus out_bus cells = Some (Some (in_bus, out_bus, cells))"
| "bus_of m (im # ims) pos in_bus out_bus cells =
     (if im_k im \<noteq> pos then Some None
      else if sort (im_leaves im) \<noteq> sort in_bus then Some None
      else do {
        c \<leftarrow> cell_at m (im_mux im);
        bus_of m ims (Suc pos) (in_bus @ [im_b im]) (out_bus @ [c_output c]) (cells @ [im_mux im])
      })"

subsection \<open>Folding the mux layers\<close>

definition is_layer :: "net_id \<Rightarrow> net_id \<Rightarrow> cell \<Rightarrow> bool option" where
  "is_layer ik bk c =
     (if c_kind c \<noteq> Mux2 then Some False
      else do {
        d0 \<leftarrow> nth_opt (c_inputs c) 1;
        a \<leftarrow> (if d0 = bk then do { d1 \<leftarrow> nth_opt (c_inputs c) 2; Some (d1 = ik) } else Some False);
        if a then Some True
        else if d0 = ik then do { d1 \<leftarrow> nth_opt (c_inputs c) 2; Some (d1 = bk) }
        else Some False
      })"

fun find_layer :: "net_id \<Rightarrow> net_id \<Rightarrow> (nat \<times> cell) list \<Rightarrow> (nat \<times> cell) option option" where
  "find_layer ik bk [] = Some None"
| "find_layer ik bk (p # ps) = do {
     b \<leftarrow> is_layer ik bk (snd p);
     if b then Some (Some p) else find_layer ik bk ps
   }"

fun layer_of :: "gate_module \<Rightarrow> (net_id \<times> net_id) list \<Rightarrow> (net_id \<times> bool) option \<Rightarrow> nat list
    \<Rightarrow> ((net_id \<times> bool) option \<times> nat list) option option" where
  "layer_of m [] layer cells = Some (Some (layer, cells))"
| "layer_of m ((ik, bk) # ps) layer cells = do {
     found \<leftarrow> find_layer ik bk (enumerate 0 (gm_cells m));
     (case found of
        None \<Rightarrow> Some None
      | Some (mi, mc) \<Rightarrow> do {
          d1 \<leftarrow> nth_opt (c_inputs mc) 2;
          s \<leftarrow> nth_opt (c_inputs mc) 0;
          (if layer = None \<or> layer = Some (s, d1 = ik) then layer_of m ps (Some (s, d1 = ik)) (cells @ [mi]) else Some None)
        })
   }"

partial_function (option) fold_passthrough_layers :: "gate_module \<Rightarrow> stage \<Rightarrow> stage option" where
  "fold_passthrough_layers m st = do {
     r \<leftarrow> layer_of m (zip (st_out st) (st_in st)) None [];
     (case r of
        Some (Some (sel, inc_is_d1), cells) \<Rightarrow> do {
          outs \<leftarrow> those (map (\<lambda>i. map_option c_output (cell_at m i)) cells);
          fold_passthrough_layers m (st\<lparr>st_terms := st_terms st @ [(sel, \<not> inc_is_d1)], st_out := outs, st_cells := cells\<rparr>)
        }
      | _ \<Rightarrow> Some st)
   }"

declare fold_passthrough_layers.simps [code]

definition group_stage :: "gate_module \<Rightarrow> (net_id \<times> bool) \<times> inc_mux list \<Rightarrow> stage option option" where
  "group_stage m g = (case g of ((sel, sel_high), incs) \<Rightarrow> do {
     r \<leftarrow> bus_of m (sort_key im_k incs) 0 [] [] [];
     (case r of
        None \<Rightarrow> Some None
      | Some (in_bus, out_bus, cells) \<Rightarrow>
          if length in_bus < 2 then Some None
          else map_option Some (fold_passthrough_layers m
            \<lparr>st_terms = [(sel, \<not> sel_high)], st_out = out_bus, st_in = in_bus, st_cells = cells\<rparr>))
   })"

definition collect_stages :: "gate_module \<Rightarrow> stage list option" where
  "collect_stages m = do {
     es \<leftarrow> those (map (group_entry m) [0..<length (gm_cells m)]);
     ss \<leftarrow> those (map (group_stage m) (groups_of (List.map_filter id es)));
     Some (List.map_filter id ss)
   }"

subsection \<open>The trees\<close>

definition count_full_adder :: "net_id \<Rightarrow> net_id \<Rightarrow> net_id \<Rightarrow> gate_module \<Rightarrow> net_id \<times> net_id \<times> gate_module" where
  "count_full_adder a b c m =
     (let (ab, m) = push_gate Xor2 [a, b] m;
          (s, m) = push_gate Xor2 [ab, c] m;
          (ab_and, m) = push_gate And2 [a, b] m;
          (c_ab, m) = push_gate And2 [c, ab] m;
          (carry, m) = push_gate Or2 [ab_and, c_ab] m
      in (s, carry, m))"

definition count_half_adder :: "net_id \<Rightarrow> net_id \<Rightarrow> gate_module \<Rightarrow> net_id \<times> net_id \<times> gate_module" where
  "count_half_adder a b m =
     (let (s, m) = push_gate Xor2 [a, b] m;
          (carry, m) = push_gate And2 [a, b] m
      in (s, carry, m))"

text \<open>One weight level: the bits that stay on it, the carries and the module.\<close>

function count_compress :: "net_id list \<Rightarrow> net_id list \<Rightarrow> gate_module \<Rightarrow> net_id list \<times> net_id list \<times> gate_module" where
  "count_compress [] carries m = ([], carries, m)"
| "count_compress [a] carries m = ([a], carries, m)"
| "count_compress [a, b] carries m = (case count_half_adder a b m of (s, carry, m) \<Rightarrow> count_compress [s] (carries @ [carry]) m)"
| "count_compress (a # b # c # bits) carries m =
     (case count_full_adder a b c m of (s, carry, m) \<Rightarrow> count_compress (bits @ [s]) (carries @ [carry]) m)"
  by pat_completeness auto
termination count_compress
  by (relation "measure (\<lambda>(bits, carries, m). length bits)") auto

lemma compress_length:
  assumes "count_compress bits carries m = (rest, carries', m')"
  shows "length carries' \<le> length carries + length bits div 2"
  using assms
  by (induction bits carries m arbitrary: rest carries' m' rule: count_compress.induct) (fastforce split: prod.splits)+

lemma compress_shorter:
  assumes "count_compress bits [] m = (rest, carries, m')" "carries \<noteq> []"
  shows "length carries < length bits"
proof -
  have "length carries \<le> length bits div 2" using compress_length [OF assms(1)] by simp
  moreover have "0 < length carries" using assms(2) by simp
  ultimately show ?thesis by linarith
qed

function weight_levels :: "net_id list \<Rightarrow> gate_module \<Rightarrow> net_id list list \<times> gate_module" where
  "weight_levels bits m =
     (case count_compress bits [] m of (rest, carries, m) \<Rightarrow>
        if carries = [] then ([rest], m)
        else (case weight_levels carries m of (levels, m) \<Rightarrow> (rest # levels, m)))"
  by pat_completeness auto
termination weight_levels
  by (relation "measure (\<lambda>(bits, m). length bits)") (auto dest!: compress_shorter [OF sym])

declare weight_levels.simps [simp del]

definition popcount :: "net_id list \<Rightarrow> gate_module \<Rightarrow> net_id list \<times> gate_module" where
  "popcount bits m =
     (case weight_levels bits m of (levels, m) \<Rightarrow> (map (\<lambda>l. case l of [] \<Rightarrow> NET_CONST0 | n # _ \<Rightarrow> n) levels, m))"

fun add_loop :: "(net_id \<times> net_id) list \<Rightarrow> net_id \<Rightarrow> net_id list \<Rightarrow> gate_module \<Rightarrow> net_id list \<times> gate_module" where
  "add_loop [] carry out m = (out, m)"
| "add_loop ((x, y) # rest) carry out m =
     (let (xy, m) = push_gate Xor2 [x, y] m;
          (s, m) = push_gate Xor2 [xy, carry] m
      in if rest = [] then (out @ [s], m)
         else
           let (and_xy, m) = push_gate And2 [x, y] m;
               (and_c, m) = push_gate And2 [carry, xy] m;
               (carry, m) = push_gate Or2 [and_xy, and_c] m
           in add_loop rest carry (out @ [s]) m)"

definition bus_bit :: "net_id list \<Rightarrow> nat \<Rightarrow> net_id" where
  "bus_bit bus i = (case nth_opt bus i of Some n \<Rightarrow> n | None \<Rightarrow> NET_CONST0)"

definition add_mod :: "net_id list \<Rightarrow> net_id list \<Rightarrow> nat \<Rightarrow> gate_module \<Rightarrow> net_id list \<times> gate_module" where
  "add_mod a b width m = add_loop (map (\<lambda>i. (bus_bit a i, bus_bit b i)) [0..<width]) NET_CONST0 [] m"

subsection \<open>The rebuild\<close>

fun materialize_cond :: "(net_id \<times> bool) list \<Rightarrow> net_id option \<Rightarrow> gate_module \<Rightarrow> (net_id \<times> gate_module) option" where
  "materialize_cond [] acc m = (case acc of None \<Rightarrow> None | Some a \<Rightarrow> Some (a, m))"
| "materialize_cond ((net, neg) # terms) acc m =
     (let (lit, m) = (if neg then push_gate Not1 [net] m else (net, m))
      in case acc of
           None \<Rightarrow> materialize_cond terms (Some lit) m
         | Some a \<Rightarrow> (case push_gate And2 [a, lit] m of (n, m) \<Rightarrow> materialize_cond terms (Some n) m))"

fun chain_conds :: "stage list \<Rightarrow> nat list \<Rightarrow> gate_module \<Rightarrow> (net_id list \<times> gate_module) option" where
  "chain_conds stages [] m = Some ([], m)"
| "chain_conds stages (i # rest) m = do {
     s \<leftarrow> nth_opt stages i;
     (c, m) \<leftarrow> materialize_cond (st_terms s) None m;
     (cs, m) \<leftarrow> chain_conds stages rest m;
     Some (c # cs, m)
   }"

definition alias_total :: "net_id list \<Rightarrow> nat \<times> nat \<Rightarrow> gate_module \<Rightarrow> gate_module option" where
  "alias_total totals kc m = do {
     c \<leftarrow> cell_at m (snd kc);
     n \<leftarrow> nth_opt totals (fst kc);
     Some (m\<lparr>gm_cells := (gm_cells m)[snd kc := c\<lparr>c_kind := Buf, c_inputs := [n]\<rparr>]\<rparr>)
   }"

definition rebuild_count :: "stage list \<Rightarrow> nat list \<Rightarrow> gate_module \<Rightarrow> gate_module option" where
  "rebuild_count stages chain m = do {
     (conds, m) \<leftarrow> chain_conds stages chain m;
     i \<leftarrow> nth_opt chain 0;
     head \<leftarrow> nth_opt stages i;
     last_stage \<leftarrow> nth_opt stages (last chain);
     (case popcount conds m of (incremented, m) \<Rightarrow>
        case add_mod (st_in head) incremented (length (st_in head)) m of (totals, m) \<Rightarrow>
          fold_opt (alias_total totals) (enumerate 0 (st_cells last_stage)) m)
   }"

fun link_stage :: "nat \<Rightarrow> stage \<Rightarrow> (nat \<times> stage) list \<Rightarrow> nat option \<Rightarrow> nat option" where
  "link_stage i a [] cand = cand"
| "link_stage i a ((j, b) # bs) cand =
     (if i \<noteq> j \<and> st_out a = st_in b
      then (if cand \<noteq> None then None else link_stage i a bs (Some j))
      else link_stage i a bs cand)"

definition stage_links :: "stage list \<Rightarrow> nat option list" where
  "stage_links stages = map (\<lambda>(i, a). link_stage i a (enumerate 0 stages) None) (enumerate 0 stages)"

partial_function (option) chain_ahead :: "nat option list \<Rightarrow> nat \<Rightarrow> nat list \<Rightarrow> nat list option" where
  "chain_ahead succ cur chain = do {
     q \<leftarrow> nth_opt succ cur;
     (case q of None \<Rightarrow> Some chain | Some j \<Rightarrow> chain_ahead succ j (chain @ [j]))
   }"

declare chain_ahead.simps [code]

definition rebuild_head :: "stage list \<Rightarrow> nat option list \<Rightarrow> nat \<times> bool \<Rightarrow> gate_module \<times> bool \<Rightarrow> (gate_module \<times> bool) option" where
  "rebuild_head stages succ hl st = (case st of (m, changed) \<Rightarrow>
     if snd hl then Some (m, changed)
     else do {
       chain \<leftarrow> chain_ahead succ (fst hl) [fst hl];
       if length chain < MIN_STAGES then Some (m, changed)
       else do { m \<leftarrow> rebuild_count stages chain m; Some (m, True) }
     })"

definition count_scan_rebuild :: "gate_module \<Rightarrow> (gate_module \<times> bool) option" where
  "count_scan_rebuild m = do {
     stages \<leftarrow> collect_stages m;
     if stages = [] then Some (m, False)
     else let succ = stage_links stages
          in fold_opt (rebuild_head stages succ) (enumerate 0 (mark_linked succ)) (m, False)
   }"

end
