(* ===== verification/Counter_Trees.thy ===== *)
theory Counter_Trees
  imports Counter
begin

section \<open>What the popcount tree and the adder compute\<close>

text \<open>
  Every builder adds gates; when the new gates hold, the nets it returns carry the number of
  set bits, the sum modulo the width, the conjunction.  A bound on the ranks of what a net
  depends on bounds its rank.
\<close>

subsection \<open>Gates\<close>

abbreviation all_hold :: "(net_id \<Rightarrow> bool) \<Rightarrow> cell list \<Rightarrow> bool" where
  "all_hold v cs \<equiv> \<forall>c \<in> set cs. holds v c"

text \<open>\<open>below t X u\<close>: everything in \<open>X\<close> is below \<open>u\<close>.\<close>

definition below :: "(net_id \<Rightarrow> nat) \<Rightarrow> net_id set \<Rightarrow> nat \<Rightarrow> bool" where
  "below t X u \<longleftrightarrow> (\<forall>x \<in> X. t x < u)"

lemma below_simps [simp]: "below t {} u" "below t (insert x X) u \<longleftrightarrow> t x < u \<and> below t X u" "below t (X \<union> Y) u \<longleftrightarrow> below t X u \<and> below t Y u"
  by (auto simp: below_def)

abbreviation in_nets :: "gate_module \<Rightarrow> net_id list \<Rightarrow> bool" where
  "in_nets m ns \<equiv> \<forall>n \<in> set ns. n < length (gm_nets m)"

lemma in_nets_gated: "gated m m' cs \<Longrightarrow> in_nets m ns \<Longrightarrow> in_nets m' ns"
  using gated_nets(1) by (metis less_le_trans)

lemma push_two:
  assumes "wf_module m" "arity k = 2" "a < length (gm_nets m)" "b < length (gm_nets m)" "push_gate k [a, b] m = (n, m')"
  obtains cs where "gated m m' cs" "n < length (gm_nets m')" "length (gm_nets m) \<le> length (gm_nets m')" "wf_module m'"
    "\<And>v. all_hold v cs \<Longrightarrow> v n = cell_fn k [v a, v b]" "\<And>t u. tops t cs \<Longrightarrow> t a < u \<Longrightarrow> t b < u \<Longrightarrow> t n < u"
proof -
  let ?c = "\<lparr>c_kind = k, c_inputs = [a, b], c_output = n\<rparr>"
  have g: "gated m m' [?c]" "n < length (gm_nets m')" using push_gate_gated [OF assms(1) _ _ assms(5)] assms(2-4) by auto
  have "t n < u" if "tops t [?c]" "t a < u" "t b < u" for t u
  proof -
    have "t a \<le> u - 1 \<and> t b \<le> u - 1" using that(2,3) by linarith
    then have "t n \<le> u - 1" using that(1) by (simp add: tops_def)
    then show ?thesis using that(2) by linarith
  qed
  then show thesis using that [of "[?c]"] g gated_nets(1) [OF g(1)] gated_wf [OF g(1)] by (simp add: holds_def)
qed

lemma push_one:
  assumes "wf_module m" "arity k = 1" "a < length (gm_nets m)" "push_gate k [a] m = (n, m')"
  obtains cs where "gated m m' cs" "n < length (gm_nets m')" "length (gm_nets m) \<le> length (gm_nets m')" "wf_module m'"
    "\<And>v. all_hold v cs \<Longrightarrow> v n = cell_fn k [v a]" "\<And>t u. tops t cs \<Longrightarrow> t a < u \<Longrightarrow> t n < u"
proof -
  let ?c = "\<lparr>c_kind = k, c_inputs = [a], c_output = n\<rparr>"
  have g: "gated m m' [?c]" "n < length (gm_nets m')" using push_gate_gated [OF assms(1) _ _ assms(4)] assms(2,3) by auto
  have "t n < u" if "tops t [?c]" "t a < u" for t u
    using that unfolding tops_def by (metis (no_types, lifting) cell.select_convs(2,3) le_less_trans list.set_intros(1) order.refl set_ConsD singletonD list.simps(15) empty_set)
  then show thesis using that [of "[?c]"] g gated_nets(1) [OF g(1)] gated_wf [OF g(1)] by (simp add: holds_def)
qed

subsection \<open>Adders\<close>

lemma count_half_adder_spec:
  assumes "wf_module m" "a < length (gm_nets m)" "b < length (gm_nets m)" "count_half_adder a b m = (s, cy, m')"
  shows "\<exists>cs. gated m m' cs \<and> s < length (gm_nets m') \<and> cy < length (gm_nets m')
    \<and> (\<forall>v. all_hold v cs \<longrightarrow> of_bool (v s) + 2 * of_bool (v cy) = of_bool (v a) + (of_bool (v b) :: nat))
    \<and> (\<forall>t u. tops t cs \<longrightarrow> t a < u \<longrightarrow> t b < u \<longrightarrow> t s < u \<and> t cy < u)"
proof -
  obtain m1 where p1: "push_gate Xor2 [a, b] m = (s, m1)" and p2: "push_gate And2 [a, b] m1 = (cy, m')"
    using assms(4) by (auto simp: count_half_adder_def split: prod.splits)
  obtain c1 where 1: "gated m m1 c1" "s < length (gm_nets m1)" "length (gm_nets m) \<le> length (gm_nets m1)" "wf_module m1"
    "\<And>v. all_hold v c1 \<Longrightarrow> v s = cell_fn Xor2 [v a, v b]" "\<And>t u. tops t c1 \<Longrightarrow> t a < u \<Longrightarrow> t b < u \<Longrightarrow> t s < u"
    by (rule push_two [OF assms(1) _ assms(2,3) p1]) simp_all
  have ab: "a < length (gm_nets m1)" "b < length (gm_nets m1)" using 1(3) assms(2,3) by linarith+
  obtain c2 where 2: "gated m1 m' c2" "cy < length (gm_nets m')" "length (gm_nets m1) \<le> length (gm_nets m')" "wf_module m'"
    "\<And>v. all_hold v c2 \<Longrightarrow> v cy = cell_fn And2 [v a, v b]" "\<And>t u. tops t c2 \<Longrightarrow> t a < u \<Longrightarrow> t b < u \<Longrightarrow> t cy < u"
    by (rule push_two [OF 1(4) _ ab p2]) simp_all
  show ?thesis
  proof (intro exI [of _ "c1 @ c2"] conjI allI impI)
    show "gated m m' (c1 @ c2)" by (rule gated_trans [OF 1(1) 2(1)])
    show "s < length (gm_nets m')" "cy < length (gm_nets m')" using 1(2) 2(2,3) by linarith+
    show "of_bool (v s) + 2 * of_bool (v cy) = of_bool (v a) + (of_bool (v b) :: nat)" if "all_hold v (c1 @ c2)" for v
      using 1(5) [of v] 2(5) [of v] that by auto
    show "t s < u" "t cy < u" if "tops t (c1 @ c2)" "t a < u" "t b < u" for t u using 1(6) 2(6) that by auto
  qed
qed

lemma count_full_adder_spec:
  assumes "wf_module m" "a < length (gm_nets m)" "b < length (gm_nets m)" "c < length (gm_nets m)" "count_full_adder a b c m = (s, cy, m')"
  shows "\<exists>cs. gated m m' cs \<and> s < length (gm_nets m') \<and> cy < length (gm_nets m')
    \<and> (\<forall>v. all_hold v cs \<longrightarrow> of_bool (v s) + 2 * of_bool (v cy) = of_bool (v a) + of_bool (v b) + (of_bool (v c) :: nat))
    \<and> (\<forall>t u. tops t cs \<longrightarrow> t a < u \<longrightarrow> t b < u \<longrightarrow> t c < u \<longrightarrow> t s < u \<and> t cy < u)"
proof -
  obtain ab m1 m2 x m3 y m4 where p: "push_gate Xor2 [a, b] m = (ab, m1)" "push_gate Xor2 [ab, c] m1 = (s, m2)" "push_gate And2 [a, b] m2 = (x, m3)"
    "push_gate And2 [c, ab] m3 = (y, m4)" "push_gate Or2 [x, y] m4 = (cy, m')"
    using assms(5) by (auto simp: count_full_adder_def split: prod.splits)
  obtain c1 where 1: "gated m m1 c1" "ab < length (gm_nets m1)" "length (gm_nets m) \<le> length (gm_nets m1)" "wf_module m1"
    "\<And>v. all_hold v c1 \<Longrightarrow> v ab = cell_fn Xor2 [v a, v b]" "\<And>t u. tops t c1 \<Longrightarrow> t a < u \<Longrightarrow> t b < u \<Longrightarrow> t ab < u"
    by (rule push_two [OF assms(1) _ assms(2,3) p(1)]) simp_all
  have l1: "a < length (gm_nets m1)" "b < length (gm_nets m1)" "c < length (gm_nets m1)" using 1(3) assms(2-4) by linarith+
  obtain c2 where 2: "gated m1 m2 c2" "s < length (gm_nets m2)" "length (gm_nets m1) \<le> length (gm_nets m2)" "wf_module m2"
    "\<And>v. all_hold v c2 \<Longrightarrow> v s = cell_fn Xor2 [v ab, v c]" "\<And>t u. tops t c2 \<Longrightarrow> t ab < u \<Longrightarrow> t c < u \<Longrightarrow> t s < u"
    by (rule push_two [OF 1(4) _ 1(2) l1(3) p(2)]) simp_all
  have l2: "a < length (gm_nets m2)" "b < length (gm_nets m2)" "c < length (gm_nets m2)" "ab < length (gm_nets m2)" using 2(3) l1 1(2) by linarith+
  obtain c3 where 3: "gated m2 m3 c3" "x < length (gm_nets m3)" "length (gm_nets m2) \<le> length (gm_nets m3)" "wf_module m3"
    "\<And>v. all_hold v c3 \<Longrightarrow> v x = cell_fn And2 [v a, v b]" "\<And>t u. tops t c3 \<Longrightarrow> t a < u \<Longrightarrow> t b < u \<Longrightarrow> t x < u"
    by (rule push_two [OF 2(4) _ l2(1,2) p(3)]) simp_all
  have l3: "c < length (gm_nets m3)" "ab < length (gm_nets m3)" using 3(3) l2 by linarith+
  obtain c4 where 4: "gated m3 m4 c4" "y < length (gm_nets m4)" "length (gm_nets m3) \<le> length (gm_nets m4)" "wf_module m4"
    "\<And>v. all_hold v c4 \<Longrightarrow> v y = cell_fn And2 [v c, v ab]" "\<And>t u. tops t c4 \<Longrightarrow> t c < u \<Longrightarrow> t ab < u \<Longrightarrow> t y < u"
    by (rule push_two [OF 3(4) _ l3 p(4)]) simp_all
  have l4: "x < length (gm_nets m4)" using 4(3) 3(2) by linarith
  obtain c5 where 5: "gated m4 m' c5" "cy < length (gm_nets m')" "length (gm_nets m4) \<le> length (gm_nets m')" "wf_module m'"
    "\<And>v. all_hold v c5 \<Longrightarrow> v cy = cell_fn Or2 [v x, v y]" "\<And>t u. tops t c5 \<Longrightarrow> t x < u \<Longrightarrow> t y < u \<Longrightarrow> t cy < u"
    by (rule push_two [OF 4(4) _ l4 4(2) p(5)]) simp_all
  show ?thesis
  proof (intro exI [of _ "c1 @ c2 @ c3 @ c4 @ c5"] conjI allI impI)
    show "gated m m' (c1 @ c2 @ c3 @ c4 @ c5)" by (intro gated_trans [OF 1(1)] gated_trans [OF 2(1)] gated_trans [OF 3(1)] gated_trans [OF 4(1)] 5(1))
    show "s < length (gm_nets m')" "cy < length (gm_nets m')" using 2(2) 3(3) 4(3) 5(2,3) by linarith+
    show "of_bool (v s) + 2 * of_bool (v cy) = of_bool (v a) + of_bool (v b) + (of_bool (v c) :: nat)" if "all_hold v (c1 @ c2 @ c3 @ c4 @ c5)" for v
      using 1(5) [of v] 2(5) [of v] 3(5) [of v] 4(5) [of v] 5(5) [of v] that by auto
    show "t s < u" "t cy < u" if "tops t (c1 @ c2 @ c3 @ c4 @ c5)" "t a < u" "t b < u" "t c < u" for t u
      using 1(6) 2(6) 3(6) 4(6) 5(6) that by auto
  qed
qed

subsection \<open>The popcount tree\<close>

lemma count_compress_spec:
  assumes "wf_module m" "in_nets m bits" "in_nets m carries" "count_compress bits carries m = (rest, carries', m')"
  shows "\<exists>cs. gated m m' cs \<and> in_nets m' rest \<and> in_nets m' carries' \<and> length rest \<le> 1
    \<and> (\<forall>v. all_hold v cs \<longrightarrow> ones v bits + 2 * ones v carries = ones v rest + 2 * ones v carries')
    \<and> (\<forall>t u. tops t cs \<longrightarrow> below t (set bits \<union> set carries) u \<longrightarrow> below t (set rest \<union> set carries') u)"
  using assms
proof (induction bits carries m arbitrary: rest carries' m' rule: count_compress.induct)
  case (1 carries m)
  then show ?case using gated_refl [of m] by (intro exI [of _ "[]"]) auto
next
  case (2 a carries m)
  then show ?case using gated_refl [of m] by (intro exI [of _ "[]"]) auto
next
  case (3 a b carries m)
  obtain s cy m1 where h: "count_half_adder a b m = (s, cy, m1)" by (metis prod_cases3)
  obtain c1 where c1: "gated m m1 c1" "s < length (gm_nets m1)" "cy < length (gm_nets m1)"
    "\<forall>v. all_hold v c1 \<longrightarrow> of_bool (v s) + 2 * of_bool (v cy) = of_bool (v a) + (of_bool (v b) :: nat)"
    "\<forall>t u. tops t c1 \<longrightarrow> t a < u \<longrightarrow> t b < u \<longrightarrow> t s < u \<and> t cy < u"
    using count_half_adder_spec [OF "3.prems"(1) _ _ h] "3.prems"(2) by auto
  have "count_compress [s] (carries @ [cy]) m1 = (rest, carries', m')" using "3.prems"(4) by (simp only: count_compress.simps(3) h prod.case)
  moreover have "in_nets m1 [s]" "in_nets m1 (carries @ [cy])" using c1(2,3) in_nets_gated [OF c1(1) "3.prems"(3)] by simp_all
  ultimately obtain cs where cs: "gated m1 m' cs" "in_nets m' rest" "in_nets m' carries'" "length rest \<le> 1"
    "\<forall>v. all_hold v cs \<longrightarrow> ones v [s] + 2 * ones v (carries @ [cy]) = ones v rest + 2 * ones v carries'"
    "\<forall>t u. tops t cs \<longrightarrow> below t (set [s] \<union> set (carries @ [cy])) u \<longrightarrow> below t (set rest \<union> set carries') u"
    using "3.IH" [OF h [symmetric] refl gated_wf [OF c1(1)]] by blast
  have "ones v [a, b] + 2 * ones v carries = ones v rest + 2 * ones v carries'" if "all_hold v (c1 @ cs)" for v
  proof -
    have "of_bool (v s) + 2 * of_bool (v cy) = of_bool (v a) + (of_bool (v b) :: nat)" using c1(4) that by simp
    moreover have "of_bool (v s) + 2 * (ones v carries + of_bool (v cy)) = ones v rest + 2 * ones v carries'"
      using cs(5) that by simp
    ultimately show ?thesis by simp
  qed
  moreover have "below t (set rest \<union> set carries') u" if "tops t (c1 @ cs)" "below t (set [a, b] \<union> set carries) u" for t u
  proof -
    have "t s < u" "t cy < u" using c1(5) that by simp_all
    then show ?thesis using cs(6) that by simp
  qed
  ultimately show ?case using gated_trans [OF c1(1) cs(1)] cs(2-4) by (intro exI [of _ "c1 @ cs"]) blast
next
  case (4 a b c bits carries m)
  obtain s cy m1 where h: "count_full_adder a b c m = (s, cy, m1)" by (metis prod_cases3)
  obtain c1 where c1: "gated m m1 c1" "s < length (gm_nets m1)" "cy < length (gm_nets m1)"
    "\<forall>v. all_hold v c1 \<longrightarrow> of_bool (v s) + 2 * of_bool (v cy) = of_bool (v a) + of_bool (v b) + (of_bool (v c) :: nat)"
    "\<forall>t u. tops t c1 \<longrightarrow> t a < u \<longrightarrow> t b < u \<longrightarrow> t c < u \<longrightarrow> t s < u \<and> t cy < u"
    using count_full_adder_spec [OF "4.prems"(1) _ _ _ h] "4.prems"(2) by auto
  have "count_compress (bits @ [s]) (carries @ [cy]) m1 = (rest, carries', m')" using "4.prems"(4) h by simp
  moreover have "in_nets m1 (bits @ [s])" "in_nets m1 (carries @ [cy])"
    using c1(2,3) in_nets_gated [OF c1(1) "4.prems"(3)] in_nets_gated [OF c1(1), of bits] "4.prems"(2) by simp_all
  ultimately obtain cs where cs: "gated m1 m' cs" "in_nets m' rest" "in_nets m' carries'" "length rest \<le> 1"
    "\<forall>v. all_hold v cs \<longrightarrow> ones v (bits @ [s]) + 2 * ones v (carries @ [cy]) = ones v rest + 2 * ones v carries'"
    "\<forall>t u. tops t cs \<longrightarrow> below t (set (bits @ [s]) \<union> set (carries @ [cy])) u \<longrightarrow> below t (set rest \<union> set carries') u"
    using "4.IH" [OF h [symmetric] refl gated_wf [OF c1(1)]] by blast
  have "ones v (a # b # c # bits) + 2 * ones v carries = ones v rest + 2 * ones v carries'" if "all_hold v (c1 @ cs)" for v
  proof -
    have "of_bool (v s) + 2 * of_bool (v cy) = of_bool (v a) + of_bool (v b) + (of_bool (v c) :: nat)" using c1(4) that by simp
    moreover have "ones v bits + of_bool (v s) + 2 * (ones v carries + of_bool (v cy)) = ones v rest + 2 * ones v carries'"
      using cs(5) that by simp
    ultimately show ?thesis by simp
  qed
  moreover have "below t (set rest \<union> set carries') u" if "tops t (c1 @ cs)" "below t (set (a # b # c # bits) \<union> set carries) u" for t u
  proof -
    have "t s < u" "t cy < u" using c1(5) that by simp_all
    then show ?thesis using cs(6) that by simp
  qed
  ultimately show ?case using gated_trans [OF c1(1) cs(1)] cs(2-4) by (intro exI [of _ "c1 @ cs"]) blast
qed

text \<open>The net of a level: its bit, or the constant 0.\<close>

abbreviation level_net :: "net_id list \<Rightarrow> net_id" where
  "level_net l \<equiv> (case l of [] \<Rightarrow> NET_CONST0 | n # _ \<Rightarrow> n)"

lemma level_net_one:
  assumes "length l \<le> 1" "\<not> v NET_CONST0"
  shows "of_bool (v (level_net l)) = ones v l"
  using assms by (cases l) auto

lemma weight_levels_spec:
  assumes "wf_module m" "in_nets m bits" "weight_levels bits m = (levels, m')"
  shows "\<exists>cs. gated m m' cs \<and> in_nets m' (map level_net levels)
    \<and> (\<forall>v. all_hold v cs \<longrightarrow> \<not> v NET_CONST0 \<longrightarrow> uval (map (\<lambda>l. v (level_net l)) levels) = ones v bits)
    \<and> (\<forall>t u. tops t cs \<longrightarrow> below t (insert NET_CONST0 (set bits)) u \<longrightarrow> below t (level_net ` set levels) u)"
  using assms
proof (induction bits m arbitrary: levels m' rule: weight_levels.induct)
  case (1 bits m)
  obtain rest carries m1 where c: "count_compress bits [] m = (rest, carries, m1)" by (metis prod_cases3)
  obtain c1 where c1: "gated m m1 c1" "in_nets m1 rest" "in_nets m1 carries" "length rest \<le> 1"
    "\<forall>v. all_hold v c1 \<longrightarrow> ones v bits + 2 * ones v [] = ones v rest + 2 * ones v carries"
    "\<forall>t u. tops t c1 \<longrightarrow> below t (set bits \<union> set []) u \<longrightarrow> below t (set rest \<union> set carries) u"
    using count_compress_spec [OF "1.prems"(1,2) _ c] by auto
  have rail: "NET_CONST0 < length (gm_nets m1)" using gated_wf [OF c1(1)] by (auto simp: wf_module_def rails)
  have net: "level_net rest < length (gm_nets m1)" using c1(2) rail by (cases rest) auto
  have netb: "t (level_net rest) < u" if "tops t c1" "below t (insert NET_CONST0 (set bits)) u" for t u
    using c1(6) that by (cases rest) auto
  show ?case
  proof (cases "carries = []")
    case True
    then have "levels = [rest]" "m' = m1" using "1.prems"(3) c by (simp_all add: weight_levels.simps [of bits m])
    then show ?thesis using True c1 net netb level_net_one [OF c1(4)] by (intro exI [of _ c1]) auto
  next
    case False
    obtain ls m2 where l: "weight_levels carries m1 = (ls, m2)" by fastforce
    then have eq: "levels = rest # ls" "m' = m2" using "1.prems"(3) c False by (simp_all add: weight_levels.simps [of bits m])
    obtain cs where cs: "gated m1 m2 cs" "in_nets m2 (map level_net ls)"
      "\<forall>v. all_hold v cs \<longrightarrow> \<not> v NET_CONST0 \<longrightarrow> uval (map (\<lambda>l. v (level_net l)) ls) = ones v carries"
      "\<forall>t u. tops t cs \<longrightarrow> below t (insert NET_CONST0 (set carries)) u \<longrightarrow> below t (level_net ` set ls) u"
      using "1.IH" [OF c [symmetric] refl False gated_wf [OF c1(1)] c1(3) l] by blast
    have "in_nets m2 (map level_net levels)" using cs(2) net gated_nets(1) [OF cs(1)] eq(1) by auto
    moreover have "uval (map (\<lambda>l. v (level_net l)) levels) = ones v bits" if "all_hold v (c1 @ cs)" "\<not> v NET_CONST0" for v
      using c1(5) cs(3) that level_net_one [where v = v, OF c1(4) that(2)] by (simp add: eq(1))
    moreover have "below t (level_net ` set levels) u" if "tops t (c1 @ cs)" "below t (insert NET_CONST0 (set bits)) u" for t u
      using netb [of t u] cs(4) c1(6) that by (simp add: eq(1))
    ultimately show ?thesis using gated_trans [OF c1(1) cs(1)] eq(2) by (intro exI [of _ "c1 @ cs"]) blast
  qed
qed

text \<open>
  C33: the popcount tree of a list of nets adds cells that make its result, read as a binary
  number, the number of nets that are 1.
\<close>
theorem popcount_correct:
  assumes "wf_module m" "\<And>n. n \<in> set bits \<Longrightarrow> n < length (gm_nets m)" "popcount bits m = (out, m')"
  shows "\<exists>cs. wf_module m' \<and> gm_cells m' = gm_cells m @ cs \<and> (\<forall>n \<in> set out. n < length (gm_nets m'))
    \<and> (\<forall>v. (\<forall>c \<in> set cs. holds v c) \<and> \<not> v NET_CONST0 \<longrightarrow> uval (map v out) = length (filter v bits))"
proof -
  obtain levels where l: "weight_levels bits m = (levels, m')" "out = map level_net levels" using assms(3) by (auto simp: popcount_def split: prod.splits)
  obtain cs where cs: "gated m m' cs" "in_nets m' (map level_net levels)"
    "\<forall>v. all_hold v cs \<longrightarrow> \<not> v NET_CONST0 \<longrightarrow> uval (map (\<lambda>l. v (level_net l)) levels) = ones v bits"
    using weight_levels_spec [OF assms(1) _ l(1)] assms(2) by blast
  have "ones v bits = length (filter v bits)" for v by (induction bits) simp_all
  then show ?thesis using cs l(2) unfolding gated_def by (intro exI [of _ cs]) (auto simp: comp_def)
qed

theorem popcount_correct_witness:
  "\<exists>out m' cs. popcount [2, 3, 4] scan_stage = (out, m') \<and> wf_module m' \<and> gm_cells m' = gm_cells scan_stage @ cs"
proof -
  obtain out m' where p: "popcount [2, 3, 4] scan_stage = (out, m')" by fastforce
  have "n < length (gm_nets scan_stage)" if "n \<in> set [2, 3, 4]" for n using that by (auto simp: scan_stage_def)
  from popcount_correct [OF scan_stage_wf this p] show ?thesis using p by blast
qed

subsection \<open>The modular adder\<close>

lemma carry_step: "s + 2 * d = x + y + c \<Longrightarrow> s + 2 * (a + b + d) = x + 2 * a + (y + 2 * b) + (c :: nat)"
  by simp

lemma add_loop_spec:
  assumes "wf_module m" "\<And>x y. (x, y) \<in> set xys \<Longrightarrow> x < length (gm_nets m) \<and> y < length (gm_nets m)" "carry < length (gm_nets m)"
    "add_loop xys carry out m = (out', m')"
  shows "\<exists>cs new. out' = out @ new \<and> length new = length xys \<and> gated m m' cs \<and> in_nets m' new
    \<and> (\<forall>v. all_hold v cs \<longrightarrow> uval (map v new) = (uval (map (v \<circ> fst) xys) + uval (map (v \<circ> snd) xys) + of_bool (v carry)) mod 2 ^ length xys)
    \<and> (\<forall>t u k. tops t cs \<longrightarrow> t carry < u \<longrightarrow> k < length xys \<longrightarrow> (\<forall>j \<le> k. t (fst (xys ! j)) < u \<and> t (snd (xys ! j)) < u) \<longrightarrow> t (new ! k) < u)"
  using assms
proof (induction xys carry out m arbitrary: out' m' rule: add_loop.induct)
  case (1 carry out m)
  then show ?case using gated_refl [of m] by (intro exI [of _ "[]"]) auto
next
  case (2 x y rest carry out m)
  have xy: "x < length (gm_nets m)" "y < length (gm_nets m)" using "2.prems"(2) by auto
  obtain q m1 s m2 where p: "push_gate Xor2 [x, y] m = (q, m1)" "push_gate Xor2 [q, carry] m1 = (s, m2)" by fastforce
  obtain c1 where 1: "gated m m1 c1" "q < length (gm_nets m1)" "length (gm_nets m) \<le> length (gm_nets m1)" "wf_module m1"
    "\<And>v. all_hold v c1 \<Longrightarrow> v q = cell_fn Xor2 [v x, v y]" "\<And>t u. tops t c1 \<Longrightarrow> t x < u \<Longrightarrow> t y < u \<Longrightarrow> t q < u"
    by (rule push_two [OF "2.prems"(1) _ xy p(1)]) simp_all
  have l1: "carry < length (gm_nets m1)" "x < length (gm_nets m1)" "y < length (gm_nets m1)" using 1(3) xy "2.prems"(3) by linarith+
  obtain c2 where 2: "gated m1 m2 c2" "s < length (gm_nets m2)" "length (gm_nets m1) \<le> length (gm_nets m2)" "wf_module m2"
    "\<And>v. all_hold v c2 \<Longrightarrow> v s = cell_fn Xor2 [v q, v carry]" "\<And>t u. tops t c2 \<Longrightarrow> t q < u \<Longrightarrow> t carry < u \<Longrightarrow> t s < u"
    by (rule push_two [OF 1(4) _ 1(2) l1(1) p(2)]) simp_all
  have sum: "v s = ((v x \<noteq> v y) \<noteq> v carry)" if "all_hold v (c1 @ c2)" for v using 1(5) [of v] 2(5) [of v] that by auto
  have top: "t s < u" "t q < u" if "tops t (c1 @ c2)" "t x < u" "t y < u" "t carry < u" for t u using 1(6) 2(6) that by auto
  show ?case
  proof (cases "rest = []")
    case True
    then have eq: "out' = out @ [s]" "m' = m2" using "2.prems"(4) p by (simp_all add: Let_def)
    have "uval (map v [s]) = (of_bool (v x) + of_bool (v y) + of_bool (v carry)) mod 2" if "all_hold v (c1 @ c2)" for v
      using sum [OF that] by (cases "v x"; cases "v y"; cases "v carry") simp_all
    then show ?thesis using True eq top 2(2) gated_trans [OF 1(1) 2(1)] by (intro exI [of _ "c1 @ c2"] exI [of _ "[s]"]) simp
  next
    case False
    obtain a m3 b m4 d m5 where p': "push_gate And2 [x, y] m2 = (a, m3)" "push_gate And2 [carry, q] m3 = (b, m4)" "push_gate Or2 [a, b] m4 = (d, m5)"
      by (metis surj_pair)
    have l2: "x < length (gm_nets m2)" "y < length (gm_nets m2)" using 2(3) l1 by linarith+
    obtain c3 where 3: "gated m2 m3 c3" "a < length (gm_nets m3)" "length (gm_nets m2) \<le> length (gm_nets m3)" "wf_module m3"
      "\<And>v. all_hold v c3 \<Longrightarrow> v a = cell_fn And2 [v x, v y]" "\<And>t u. tops t c3 \<Longrightarrow> t x < u \<Longrightarrow> t y < u \<Longrightarrow> t a < u"
      by (rule push_two [OF 2(4) _ l2 p'(1)]) simp_all
    have l3: "carry < length (gm_nets m3)" "q < length (gm_nets m3)" using 3(3) 2(3) l1 1(2) by linarith+
    obtain c4 where 4: "gated m3 m4 c4" "b < length (gm_nets m4)" "length (gm_nets m3) \<le> length (gm_nets m4)" "wf_module m4"
      "\<And>v. all_hold v c4 \<Longrightarrow> v b = cell_fn And2 [v carry, v q]" "\<And>t u. tops t c4 \<Longrightarrow> t carry < u \<Longrightarrow> t q < u \<Longrightarrow> t b < u"
      by (rule push_two [OF 3(4) _ l3 p'(2)]) simp_all
    have l4: "a < length (gm_nets m4)" using 4(3) 3(2) by linarith
    obtain c5 where 5: "gated m4 m5 c5" "d < length (gm_nets m5)" "length (gm_nets m4) \<le> length (gm_nets m5)" "wf_module m5"
      "\<And>v. all_hold v c5 \<Longrightarrow> v d = cell_fn Or2 [v a, v b]" "\<And>t u. tops t c5 \<Longrightarrow> t a < u \<Longrightarrow> t b < u \<Longrightarrow> t d < u"
      by (rule push_two [OF 4(4) _ l4 4(2) p'(3)]) simp_all
    let ?c = "c1 @ c2 @ c3 @ c4 @ c5"
    have g: "gated m m5 ?c" by (intro gated_trans [OF 1(1)] gated_trans [OF 2(1)] gated_trans [OF 3(1)] gated_trans [OF 4(1)] 5(1))
    have stage: "of_bool (v s) + 2 * of_bool (v d) = of_bool (v x) + of_bool (v y) + (of_bool (v carry) :: nat)" if "all_hold v ?c" for v
    proof -
      have "v q \<longleftrightarrow> v x \<noteq> v y" "v a \<longleftrightarrow> v x \<and> v y" "v b \<longleftrightarrow> v carry \<and> v q" "v d \<longleftrightarrow> v a \<or> v b"
        using 1(5) [of v] 3(5) [of v] 4(5) [of v] 5(5) [of v] that by simp_all
      then have d: "v d = (v x \<and> v y \<or> v carry \<and> (v x \<noteq> v y))" by simp
      have "v s = ((v x \<noteq> v y) \<noteq> v carry)" using that by (intro sum) auto
      then show ?thesis unfolding d by (cases "v x"; cases "v y"; cases "v carry") simp_all
    qed
    have topd: "t s < u" "t d < u" if "tops t ?c" "t x < u" "t y < u" "t carry < u" for t u
      using top 3(6) 4(6) 5(6) that by auto
    have run: "add_loop rest d (out @ [s]) m5 = (out', m')" using "2.prems"(4) p p' False by (simp add: Let_def)
    have rng: "x' < length (gm_nets m5) \<and> y' < length (gm_nets m5)" if "(x', y') \<in> set rest" for x' y'
      using "2.prems"(2) [of x' y'] that gated_nets(1) [OF g] by force
    obtain cs new where n: "out' = (out @ [s]) @ new" "length new = length rest" "gated m5 m' cs" "in_nets m' new"
      "\<forall>v. all_hold v cs \<longrightarrow> uval (map v new) = (uval (map (v \<circ> fst) rest) + uval (map (v \<circ> snd) rest) + of_bool (v d)) mod 2 ^ length rest"
      "\<forall>t u k. tops t cs \<longrightarrow> t d < u \<longrightarrow> k < length rest \<longrightarrow> (\<forall>j \<le> k. t (fst (rest ! j)) < u \<and> t (snd (rest ! j)) < u) \<longrightarrow> t (new ! k) < u"
      using "2.IH" [OF p(1) [symmetric] refl p(2) [symmetric] refl False p'(1) [symmetric] refl p'(2) [symmetric] refl p'(3) [symmetric] refl 5(4) rng 5(2) run] by blast
    have val: "uval (map v (s # new)) = (uval (map (v \<circ> fst) ((x, y) # rest)) + uval (map (v \<circ> snd) ((x, y) # rest)) + of_bool (v carry)) mod 2 ^ length ((x, y) # rest)"
      if "all_hold v (?c @ cs)" for v
    proof -
      let ?r = "uval (map (v \<circ> fst) rest) + uval (map (v \<circ> snd) rest) + of_bool (v d)"
      have "uval (map v (s # new)) = of_bool (v s) + 2 * (?r mod 2 ^ length rest)" using n(5) that by simp
      also have "\<dots> = (of_bool (v s) + 2 * ?r) mod (2 * 2 ^ length rest)" by (cases "v s") (simp_all add: mod_mult2_eq)
      also have "of_bool (v s) + 2 * ?r = uval (map (v \<circ> fst) ((x, y) # rest)) + uval (map (v \<circ> snd) ((x, y) # rest)) + of_bool (v carry)"
      proof -
        have st: "of_bool (v s) + 2 * of_bool (v d) = of_bool (v x) + of_bool (v y) + (of_bool (v carry) :: nat)" using that by (intro stage) auto
        have "uval (map (v \<circ> fst) ((x, y) # rest)) = of_bool (v x) + 2 * uval (map (v \<circ> fst) rest)"
          "uval (map (v \<circ> snd) ((x, y) # rest)) = of_bool (v y) + 2 * uval (map (v \<circ> snd) rest)" by simp_all
        then show ?thesis by (simp only: carry_step [OF st])
      qed
      finally show ?thesis by simp
    qed
    have tp: "t ((s # new) ! k) < u" if "tops t (?c @ cs)" "t carry < u" "k < length ((x, y) # rest)"
        "\<forall>j \<le> k. t (fst (((x, y) # rest) ! j)) < u \<and> t (snd (((x, y) # rest) ! j)) < u" for t u k
    proof -
      have "t x < u" "t y < u" using spec [OF that(4), of 0] by simp_all
      then have sd: "t s < u" "t d < u" using topd that(1,2) by simp_all
      show ?thesis
      proof (cases k)
        case (Suc k')
        have "\<forall>j \<le> k'. t (fst (rest ! j)) < u \<and> t (snd (rest ! j)) < u" using that(4) Suc by (metis Suc_le_mono nth_Cons_Suc)
        then show ?thesis using n(6) that(1,3) sd Suc by simp
      qed (use sd in simp)
    qed
    show ?thesis
    proof (intro exI [of _ "?c @ cs"] exI [of _ "s # new"] conjI)
      show "gated m m' (?c @ cs)" by (rule gated_trans [OF g n(3)])
      have "s < length (gm_nets m')" using 2(2) 3(3) 4(3) 5(3) gated_nets(1) [OF n(3)] by linarith
      then show "in_nets m' (s # new)" using n(4) by simp
      show "out' = out @ s # new" "length (s # new) = length ((x, y) # rest)" using n(1,2) by simp_all
    qed (use val tp in blast)+
  qed
qed

lemma bus_bit_in: "i < length bus \<Longrightarrow> bus_bit bus i = bus ! i"
  by (simp add: bus_bit_def)

lemma bus_bit_range: "NET_CONST0 < n \<Longrightarrow> \<forall>x \<in> set bus. x < n \<Longrightarrow> bus_bit bus i < n"
  by (simp add: bus_bit_def nth_opt_def)

lemma uval_bus:
  assumes "\<not> v NET_CONST0"
  shows "uval (map (\<lambda>i. v (bus_bit bus i)) [0..<w]) = uval (map v bus) mod 2 ^ w"
proof -
  have "map (\<lambda>i. v (bus_bit bus i)) [0..<w] = take w (map v bus) @ replicate (w - length bus) False"
    using assms by (intro nth_equalityI) (auto simp: nth_append bus_bit_def nth_opt_def min_def)
  then show ?thesis by (simp add: uval_append uval_take)
qed

lemma add_mod_spec:
  assumes wf: "wf_module m" and a: "in_nets m a" and b: "in_nets m b" and run: "add_mod a b w m = (out, m')" and w: "w \<le> length a"
  shows "\<exists>cs. gated m m' cs \<and> length out = w \<and> in_nets m' out
    \<and> (\<forall>v. all_hold v cs \<longrightarrow> \<not> v NET_CONST0 \<longrightarrow> uval (map v out) = (uval (map v a) + uval (map v b)) mod 2 ^ w)
    \<and> (\<forall>t u k. tops t cs \<longrightarrow> below t (insert NET_CONST0 (set b)) u \<longrightarrow> k < w \<longrightarrow> (\<forall>j \<le> k. t (a ! j) < u) \<longrightarrow> t (out ! k) < u)"
proof -
  let ?p = "map (\<lambda>i. (bus_bit a i, bus_bit b i)) [0..<w]"
  have rail: "NET_CONST0 < length (gm_nets m)" using wf by (auto simp: wf_module_def rails)
  have rng: "x < length (gm_nets m) \<and> y < length (gm_nets m)" if "(x, y) \<in> set ?p" for x y
    using that bus_bit_range [OF rail a] bus_bit_range [OF rail b] by auto
  have run': "add_loop ?p NET_CONST0 [] m = (out, m')" using run by (simp add: add_mod_def)
  obtain cs new where n: "out = [] @ new" "length new = length ?p" "gated m m' cs" "in_nets m' new"
    "\<forall>v. all_hold v cs \<longrightarrow> uval (map v new) = (uval (map (v \<circ> fst) ?p) + uval (map (v \<circ> snd) ?p) + of_bool (v NET_CONST0)) mod 2 ^ length ?p"
    "\<forall>t u k. tops t cs \<longrightarrow> t NET_CONST0 < u \<longrightarrow> k < length ?p \<longrightarrow> (\<forall>j \<le> k. t (fst (?p ! j)) < u \<and> t (snd (?p ! j)) < u) \<longrightarrow> t (new ! k) < u"
    using add_loop_spec [OF wf rng rail run'] by blast
  have "uval (map v out) = (uval (map v a) + uval (map v b)) mod 2 ^ w" if "all_hold v cs" "\<not> v NET_CONST0" for v
    using n(1,5) that uval_bus [where v = v and bus = a and w = w, OF that(2)] uval_bus [where v = v and bus = b and w = w, OF that(2)] by (simp add: comp_def mod_add_eq)
  moreover have "t (out ! k) < u" if "tops t cs" "below t (insert NET_CONST0 (set b)) u" "k < w" "\<forall>j \<le> k. t (a ! j) < u" for t u k
  proof -
    have "t (bus_bit b j) < u" for j using that(2) by (auto simp: bus_bit_def nth_opt_def below_def)
    then have "\<forall>j \<le> k. t (fst (?p ! j)) < u \<and> t (snd (?p ! j)) < u" using that(3,4) w by (auto simp: bus_bit_in)
    then show ?thesis using n(1,6) that by simp
  qed
  ultimately show ?thesis using n(1-4) by (intro exI [of _ cs]) auto
qed

subsection \<open>The conditions\<close>

text \<open>A product of terms.\<close>

definition product :: "(net_id \<Rightarrow> bool) \<Rightarrow> (net_id \<times> bool) list \<Rightarrow> bool" where
  "product v terms \<longleftrightarrow> (\<forall>t \<in> set terms. v (fst t) \<noteq> snd t)"

lemma materialize_cond_spec:
  assumes "wf_module m" "in_nets m (map fst terms)" "case acc of None \<Rightarrow> terms \<noteq> [] | Some a \<Rightarrow> a < length (gm_nets m)"
  shows "\<exists>n m' cs. materialize_cond terms acc m = Some (n, m') \<and> gated m m' cs \<and> n < length (gm_nets m')
    \<and> (\<forall>v. all_hold v cs \<longrightarrow> v n = ((case acc of None \<Rightarrow> True | Some a \<Rightarrow> v a) \<and> product v terms))
    \<and> (\<forall>t u. tops t cs \<longrightarrow> below t (set_option acc \<union> set (map fst terms)) u \<longrightarrow> t n < u)"
  using assms
proof (induction terms acc m rule: materialize_cond.induct)
  case (1 acc m)
  then obtain a where "acc = Some a" "a < length (gm_nets m)" by (cases acc) auto
  then show ?case using gated_refl [OF "1.prems"(1)] by (intro exI [of _ a] exI [of _ m] exI [of _ "[]"]) (auto simp: product_def)
next
  case (2 net neg terms acc m)
  obtain lit m1 where lit: "(if neg then push_gate Not1 [net] m else (net, m)) = (lit, m1)" by fastforce
  have net: "net < length (gm_nets m)" using "2.prems"(2) by simp
  obtain c1 where c1: "gated m m1 c1" "lit < length (gm_nets m1)" "length (gm_nets m) \<le> length (gm_nets m1)" "wf_module m1"
    "\<And>v. all_hold v c1 \<Longrightarrow> v lit = (v net \<noteq> neg)" "\<And>t u. tops t c1 \<Longrightarrow> t net < u \<Longrightarrow> t lit < u"
  proof (cases neg)
    case True
    then have "push_gate Not1 [net] m = (lit, m1)" using lit by simp
    from push_one [OF "2.prems"(1) _ net this] obtain cs where "gated m m1 cs" "lit < length (gm_nets m1)" "length (gm_nets m) \<le> length (gm_nets m1)"
      "wf_module m1" "\<And>v. all_hold v cs \<Longrightarrow> v lit = cell_fn Not1 [v net]" "\<And>t u. tops t cs \<Longrightarrow> t net < u \<Longrightarrow> t lit < u" by auto
    then show thesis using True by (intro that [of cs]) auto
  next
    case False
    then show thesis using that [of "[]"] lit net "2.prems"(1) gated_refl [OF "2.prems"(1)] by auto
  qed
  have rng: "in_nets m1 (map fst terms)" using in_nets_gated [OF c1(1), of "map fst terms"] "2.prems"(2) by simp
  show ?case
  proof (cases acc)
    case None
    obtain n m' cs where n: "materialize_cond terms (Some lit) m1 = Some (n, m')" "gated m1 m' cs" "n < length (gm_nets m')"
      "\<forall>v. all_hold v cs \<longrightarrow> v n = ((case Some lit of None \<Rightarrow> True | Some a \<Rightarrow> v a) \<and> product v terms)"
      "\<forall>t u. tops t cs \<longrightarrow> below t (set_option (Some lit) \<union> set (map fst terms)) u \<longrightarrow> t n < u"
      using "2.IH"(1) [OF lit [symmetric] refl None c1(4) rng] c1(2) by auto
    show ?thesis
    proof (intro exI [of _ n] exI [of _ m'] exI [of _ "c1 @ cs"] conjI allI impI)
      show "materialize_cond ((net, neg) # terms) acc m = Some (n, m')" using lit n(1) None by simp
      show "gated m m' (c1 @ cs)" by (rule gated_trans [OF c1(1) n(2)])
      show "v n = ((case acc of None \<Rightarrow> True | Some a \<Rightarrow> v a) \<and> product v ((net, neg) # terms))" if "all_hold v (c1 @ cs)" for v
        using n(4) c1(5) [of v] that None by (auto simp: product_def)
      show "t n < u" if "tops t (c1 @ cs)" "below t (set_option acc \<union> set (map fst ((net, neg) # terms))) u" for t u
        using n(5) c1(6) [of t u] that by simp
    qed (rule n(3))
  next
    case (Some a)
    obtain b m2 where b: "push_gate And2 [a, lit] m1 = (b, m2)" by fastforce
    have al: "a < length (gm_nets m1)" using "2.prems"(3) Some c1(3) by simp
    obtain c2 where c2: "gated m1 m2 c2" "b < length (gm_nets m2)" "length (gm_nets m1) \<le> length (gm_nets m2)" "wf_module m2"
      "\<And>v. all_hold v c2 \<Longrightarrow> v b = cell_fn And2 [v a, v lit]" "\<And>t u. tops t c2 \<Longrightarrow> t a < u \<Longrightarrow> t lit < u \<Longrightarrow> t b < u"
      by (rule push_two [OF c1(4) _ al c1(2) b]) simp_all
    have rng2: "in_nets m2 (map fst terms)" by (rule in_nets_gated [OF c2(1) rng])
    obtain n m' cs where n: "materialize_cond terms (Some b) m2 = Some (n, m')" "gated m2 m' cs" "n < length (gm_nets m')"
      "\<forall>v. all_hold v cs \<longrightarrow> v n = ((case Some b of None \<Rightarrow> True | Some a \<Rightarrow> v a) \<and> product v terms)"
      "\<forall>t u. tops t cs \<longrightarrow> below t (set_option (Some b) \<union> set (map fst terms)) u \<longrightarrow> t n < u"
      using "2.IH"(2) [OF lit [symmetric] refl Some b [symmetric] c2(4) rng2] c2(2) by auto
    show ?thesis
    proof (intro exI [of _ n] exI [of _ m'] exI [of _ "c1 @ c2 @ cs"] conjI allI impI)
      show "materialize_cond ((net, neg) # terms) acc m = Some (n, m')" using lit n(1) Some b by simp
      show "gated m m' (c1 @ c2 @ cs)" by (intro gated_trans [OF c1(1)] gated_trans [OF c2(1)] n(2))
      show "v n = ((case acc of None \<Rightarrow> True | Some a \<Rightarrow> v a) \<and> product v ((net, neg) # terms))" if "all_hold v (c1 @ c2 @ cs)" for v
        using n(4) c1(5) [of v] c2(5) [of v] that Some by (auto simp: product_def)
      show "t n < u" if "tops t (c1 @ c2 @ cs)" "below t (set_option acc \<union> set (map fst ((net, neg) # terms))) u" for t u
        using n(5) c1(6) [of t u] c2(6) [of t u] that Some by simp
    qed (rule n(3))
  qed
qed

lemma chain_conds_spec:
  assumes "wf_module m" "\<And>i. i \<in> set chain \<Longrightarrow> i < length stages \<and> st_terms (stages ! i) \<noteq> [] \<and> in_nets m (map fst (st_terms (stages ! i)))"
  shows "\<exists>ns m' cs. chain_conds stages chain m = Some (ns, m') \<and> gated m m' cs \<and> in_nets m' ns
    \<and> (\<forall>v. all_hold v cs \<longrightarrow> ones v ns = sum_list (map (\<lambda>i. of_bool (product v (st_terms (stages ! i)))) chain))
    \<and> (\<forall>t u. tops t cs \<longrightarrow> (\<forall>i \<in> set chain. below t (set (map fst (st_terms (stages ! i)))) u) \<longrightarrow> below t (set ns) u)"
  using assms
proof (induction chain arbitrary: m)
  case Nil
  then show ?case using gated_refl [of m] by (intro exI [of _ "[]"] exI [of _ m]) auto
next
  case (Cons i chain)
  let ?t = "st_terms (stages ! i)"
  have i: "i < length stages" "?t \<noteq> []" "in_nets m (map fst ?t)" using Cons.prems(2) [of i] by simp_all
  obtain n m1 c1 where n: "materialize_cond ?t None m = Some (n, m1)" "gated m m1 c1" "n < length (gm_nets m1)"
    "\<forall>v. all_hold v c1 \<longrightarrow> v n = ((case None of None \<Rightarrow> True | Some a \<Rightarrow> v a) \<and> product v ?t)"
    "\<forall>t u. tops t c1 \<longrightarrow> below t (set_option None \<union> set (map fst ?t)) u \<longrightarrow> t n < u"
    using materialize_cond_spec [OF Cons.prems(1) i(3), of None] i(2) by auto
  have rng: "j < length stages \<and> st_terms (stages ! j) \<noteq> [] \<and> in_nets m1 (map fst (st_terms (stages ! j)))" if "j \<in> set chain" for j
    using Cons.prems(2) [of j] that in_nets_gated [OF n(2), of "map fst (st_terms (stages ! j))"] by simp
  obtain ns m' cs where ns: "chain_conds stages chain m1 = Some (ns, m')" "gated m1 m' cs" "in_nets m' ns"
    "\<forall>v. all_hold v cs \<longrightarrow> ones v ns = sum_list (map (\<lambda>i. of_bool (product v (st_terms (stages ! i)))) chain)"
    "\<forall>t u. tops t cs \<longrightarrow> (\<forall>i \<in> set chain. below t (set (map fst (st_terms (stages ! i)))) u) \<longrightarrow> below t (set ns) u"
    using Cons.IH [OF gated_wf [OF n(2)] rng] by blast
  show ?case
  proof (intro exI [of _ "n # ns"] exI [of _ m'] exI [of _ "c1 @ cs"] conjI allI impI)
    show "chain_conds stages (i # chain) m = Some (n # ns, m')" using i(1) n(1) ns(1) by simp
    show "gated m m' (c1 @ cs)" by (rule gated_trans [OF n(2) ns(2)])
    show "in_nets m' (n # ns)" using ns(3) n(3) gated_nets(1) [OF ns(2)] by simp
    show "ones v (n # ns) = sum_list (map (\<lambda>i. of_bool (product v (st_terms (stages ! i)))) (i # chain))" if "all_hold v (c1 @ cs)" for v
      using n(4) ns(4) that by simp
    show "below t (set (n # ns)) u" if "tops t (c1 @ cs)" "\<forall>i \<in> set (i # chain). below t (set (map fst (st_terms (stages ! i)))) u" for t u
      using n(5) ns(5) that by simp
  qed
qed

subsection \<open>Seed plus popcount\<close>

text \<open>The nets a rebuilt chain aliases its last stage to.\<close>

lemma totals_spec:
  assumes wf: "wf_module m" and st: "\<And>i. i \<in> set chain \<Longrightarrow> i < length stages \<and> st_terms (stages ! i) \<noteq> [] \<and> in_nets m (map fst (st_terms (stages ! i)))"
    and seed: "in_nets m seed"
  shows "\<exists>ns n1 out n2 tot m' cs. chain_conds stages chain m = Some (ns, n1) \<and> popcount ns n1 = (out, n2)
    \<and> add_mod seed out (length seed) n2 = (tot, m') \<and> gated m m' cs \<and> length tot = length seed \<and> in_nets m' tot
    \<and> (\<forall>v. all_hold v cs \<longrightarrow> \<not> v NET_CONST0 \<longrightarrow>
         uval (map v tot) = (uval (map v seed) + sum_list (map (\<lambda>i. of_bool (product v (st_terms (stages ! i)))) chain)) mod 2 ^ length seed)
    \<and> (\<forall>t u k. tops t cs \<longrightarrow> t NET_CONST0 < u \<longrightarrow> (\<forall>i \<in> set chain. below t (set (map fst (st_terms (stages ! i)))) u)
         \<longrightarrow> k < length seed \<longrightarrow> (\<forall>j \<le> k. t (seed ! j) < u) \<longrightarrow> t (tot ! k) < u)"
proof -
  obtain ns n1 c1 where 1: "chain_conds stages chain m = Some (ns, n1)" "gated m n1 c1" "in_nets n1 ns"
    "\<forall>v. all_hold v c1 \<longrightarrow> ones v ns = sum_list (map (\<lambda>i. of_bool (product v (st_terms (stages ! i)))) chain)"
    "\<forall>t u. tops t c1 \<longrightarrow> (\<forall>i \<in> set chain. below t (set (map fst (st_terms (stages ! i)))) u) \<longrightarrow> below t (set ns) u"
    using chain_conds_spec [OF wf st] by blast
  obtain levels n2 where l: "weight_levels ns n1 = (levels, n2)" by fastforce
  obtain c2 where 2: "gated n1 n2 c2" "in_nets n2 (map level_net levels)"
    "\<forall>v. all_hold v c2 \<longrightarrow> \<not> v NET_CONST0 \<longrightarrow> uval (map (\<lambda>l. v (level_net l)) levels) = ones v ns"
    "\<forall>t u. tops t c2 \<longrightarrow> below t (insert NET_CONST0 (set ns)) u \<longrightarrow> below t (level_net ` set levels) u"
    using weight_levels_spec [OF gated_wf [OF 1(2)] 1(3) l] by blast
  let ?out = "map level_net levels"
  obtain tot m' where a: "add_mod seed ?out (length seed) n2 = (tot, m')" by fastforce
  have seed2: "in_nets n2 seed" by (rule in_nets_gated [OF 2(1) in_nets_gated [OF 1(2) seed]])
  obtain c3 where 3: "gated n2 m' c3" "length tot = length seed" "in_nets m' tot"
    "\<forall>v. all_hold v c3 \<longrightarrow> \<not> v NET_CONST0 \<longrightarrow> uval (map v tot) = (uval (map v seed) + uval (map v ?out)) mod 2 ^ length seed"
    "\<forall>t u k. tops t c3 \<longrightarrow> below t (insert NET_CONST0 (set ?out)) u \<longrightarrow> k < length seed \<longrightarrow> (\<forall>j \<le> k. t (seed ! j) < u) \<longrightarrow> t (tot ! k) < u"
    using add_mod_spec [OF gated_wf [OF 2(1)] seed2 2(2) a] by blast
  show ?thesis
  proof (rule exI [of _ ns], rule exI [of _ n1], rule exI [of _ ?out], rule exI [of _ n2], rule exI [of _ tot], rule exI [of _ m'],
      rule exI [of _ "c1 @ c2 @ c3"], intro conjI allI impI)
    show "popcount ns n1 = (?out, n2)" using l by (simp add: popcount_def)
    show "gated m m' (c1 @ c2 @ c3)" by (intro gated_trans [OF 1(2)] gated_trans [OF 2(1)] 3(1))
    show "uval (map v tot) = (uval (map v seed) + sum_list (map (\<lambda>i. of_bool (product v (st_terms (stages ! i)))) chain)) mod 2 ^ length seed"
      if "all_hold v (c1 @ c2 @ c3)" "\<not> v NET_CONST0" for v
      using 1(4) 2(3) 3(4) that by (simp add: comp_def)
    show "t (tot ! k) < u" if "tops t (c1 @ c2 @ c3)" "t NET_CONST0 < u" "\<forall>i \<in> set chain. below t (set (map fst (st_terms (stages ! i)))) u"
        "k < length seed" "\<forall>j \<le> k. t (seed ! j) < u" for t u k
      using 1(5) 2(4) 3(5) that by simp
  qed (use 1(1) 3(2,3) a in auto)
qed

end
