(* ===== verification/Counter_Stages.thy ===== *)
theory Counter_Stages
  imports Counter_Trees
begin

section \<open>What a recognised stage computes\<close>

text \<open>
  In an acyclic module with one driver per net, recognising the stages ends, and the last
  cells of a stage compute its bus plus one when the condition holds, from nets of a lower
  rank only.
\<close>

subsection \<open>Ranks\<close>

text \<open>Every cell whose output is below \<open>u\<close> holds.\<close>

definition lower :: "(net_id \<Rightarrow> nat) \<Rightarrow> (net_id \<Rightarrow> bool) \<Rightarrow> gate_module \<Rightarrow> nat \<Rightarrow> bool" where
  "lower r v m u \<longleftrightarrow> (\<forall>i < length (gm_cells m). r (c_output (gm_cells m ! i)) < u \<longrightarrow> holds v (gm_cells m ! i))"

lemma lower_mono: "lower r v m u \<Longrightarrow> w \<le> u \<Longrightarrow> lower r v m w"
  unfolding lower_def by (meson less_le_trans)

lemma lower_holds: "lower r v m u \<Longrightarrow> i < length (gm_cells m) \<Longrightarrow> r (c_output (gm_cells m ! i)) < u \<Longrightarrow> holds v (gm_cells m ! i)"
  by (simp add: lower_def)

definition acyclic :: "gate_module \<Rightarrow> (net_id \<Rightarrow> nat) \<Rightarrow> bool" where
  "acyclic m r \<longleftrightarrow> wf_module m \<and> single_driver m \<and> ranked r m"

lemma acyclic_cell:
  assumes "acyclic m r" "i < length (gm_cells m)" "x \<in> set (c_inputs (gm_cells m ! i))"
  shows "r x < r (c_output (gm_cells m ! i))" "x < length (gm_nets m)" "c_output (gm_cells m ! i) < length (gm_nets m)"
proof -
  have wf: "wf_module m" using assms(1) by (simp add: acyclic_def)
  show o: "c_output (gm_cells m ! i) < length (gm_nets m)" using wf nth_mem [OF assms(2)] by (auto simp: wf_module_def module_cell_wf_def)
  show "x < length (gm_nets m)" by (rule wf_module_inputs [OF wf assms(2,3)])
  show "r x < r (c_output (gm_cells m ! i))" using assms o by (auto simp: acyclic_def ranked_def single_driver_def)
qed

lemma those_all2:
  assumes "\<And>x. x \<in> set xs \<Longrightarrow> \<exists>y. f x = Some y \<and> P x y"
  shows "\<exists>ys. those (map f xs) = Some ys \<and> list_all2 P xs ys"
  using assms
proof (induction xs)
  case (Cons x xs)
  obtain y where "f x = Some y" "P x y" using Cons.prems [of x] by auto
  moreover obtain ys where "those (map f xs) = Some ys" "list_all2 P xs ys" using Cons by auto
  ultimately show ?case by (intro exI [of _ "y # ys"]) simp
qed simp

lemma all2_image: "list_all2 P xs ys \<Longrightarrow> y \<in> set ys \<Longrightarrow> \<exists>x. P x y"
  by (metis in_set_conv_nth list_all2_conv_all_nth)

subsection \<open>The leaves of a carry\<close>

text \<open>The leaves \<open>ls\<close> of \<open>net\<close>: their conjunction is its value, and none is above it.\<close>

definition and_leaves :: "gate_module \<Rightarrow> net_id list \<Rightarrow> net_id list \<Rightarrow> bool" where
  "and_leaves m nets ls \<longleftrightarrow> (nets \<noteq> [] \<longrightarrow> ls \<noteq> []) \<and> in_nets m ls
     \<and> (\<forall>r. acyclic m r \<longrightarrow> (\<forall>u. below r (set nets) u \<longrightarrow> below r (set ls) u)
          \<and> (\<forall>v u. lower r v m u \<longrightarrow> below r (set nets) u \<longrightarrow> (\<forall>n \<in> set nets. v n) = (\<forall>l \<in> set ls. v l)))"

lemma and_leavesD:
  assumes "and_leaves m nets ls"
  shows "nets \<noteq> [] \<Longrightarrow> ls \<noteq> []" "in_nets m ls" "acyclic m r \<Longrightarrow> below r (set nets) u \<Longrightarrow> below r (set ls) u"
    "acyclic m r \<Longrightarrow> lower r v m u \<Longrightarrow> below r (set nets) u \<Longrightarrow> (\<forall>n \<in> set nets. v n) = (\<forall>l \<in> set ls. v l)"
  using assms unfolding and_leaves_def by simp_all

lemma and_leavesI:
  assumes "nets \<noteq> [] \<Longrightarrow> ls \<noteq> []" "in_nets m ls" "\<And>r u. acyclic m r \<Longrightarrow> below r (set nets) u \<Longrightarrow> below r (set ls) u"
    "\<And>r v u. acyclic m r \<Longrightarrow> lower r v m u \<Longrightarrow> below r (set nets) u \<Longrightarrow> (\<forall>n \<in> set nets. v n) = (\<forall>l \<in> set ls. v l)"
  shows "and_leaves m nets ls"
  using assms unfolding and_leaves_def by simp

lemma and_leaves_append:
  assumes 1: "and_leaves m ns ls" and 2: "and_leaves m ks js"
  shows "and_leaves m (ns @ ks) (ls @ js)"
proof (rule and_leavesI)
  show "ls @ js \<noteq> []" if "ns @ ks \<noteq> []" using that and_leavesD(1) [OF 1] and_leavesD(1) [OF 2] by auto
  show "in_nets m (ls @ js)" using and_leavesD(2) [OF 1] and_leavesD(2) [OF 2] by auto
  fix r u assume r: "acyclic m r" "below r (set (ns @ ks)) u"
  then have b: "below r (set ns) u" "below r (set ks) u" by simp_all
  show "below r (set (ls @ js)) u" using and_leavesD(3) [OF 1 r(1) b(1)] and_leavesD(3) [OF 2 r(1) b(2)] by simp
  fix v assume v: "lower r v m u"
  show "(\<forall>n \<in> set (ns @ ks). v n) = (\<forall>l \<in> set (ls @ js). v l)"
    using and_leavesD(4) [OF 1 r(1) v b(1)] and_leavesD(4) [OF 2 r(1) v b(2)] by (simp add: ball_Un)
qed

lemma and_leaves_cell:
  assumes i: "i < length (gm_cells m)" "c_kind (gm_cells m ! i) \<in> {And2, And3}" "c_output (gm_cells m ! i) = net"
    and ls: "and_leaves m (c_inputs (gm_cells m ! i)) ls" and ne: "c_inputs (gm_cells m ! i) \<noteq> []"
  shows "and_leaves m [net] ls"
proof (rule and_leavesI)
  show "ls \<noteq> []" "in_nets m ls" using and_leavesD(1,2) [OF ls] ne by blast+
  fix r u assume r: "acyclic m r" and net: "below r (set [net]) u"
  have ins: "below r (set (c_inputs (gm_cells m ! i))) u"
    using acyclic_cell(1) [OF r i(1)] net i(3) by (auto simp: below_def intro: less_trans)
  show "below r (set ls) u" by (rule and_leavesD(3) [OF ls r ins])
  fix v assume v: "lower r v m u"
  have "holds v (gm_cells m ! i)" using lower_holds [OF v i(1)] net i(3) by simp
  moreover have "cell_fn k (map v ns) = (\<forall>n \<in> set ns. v n)" if "k \<in> {And2, And3}" "length ns = arity k" for k ns
    using that by (auto simp: length_2_conv length_3_conv)
  moreover have "length (c_inputs (gm_cells m ! i)) = arity (c_kind (gm_cells m ! i))"
    using r wf_module_arity [OF _ i(1)] by (simp add: acyclic_def)
  ultimately have "v net = (\<forall>n \<in> set (c_inputs (gm_cells m ! i)). v n)" using i(2,3) by (simp add: holds_def)
  then show "(\<forall>n \<in> set [net]. v n) = (\<forall>l \<in> set ls. v l)" using and_leavesD(4) [OF ls r v ins] by simp
qed

lemma collect_and_leaves_net:
  assumes r: "acyclic m r" and "net < length (gm_nets m)"
  shows "\<exists>ls. (\<forall>nets out. collect_and_leaves m (net # nets) out = collect_and_leaves m nets (out @ ls)) \<and> and_leaves m [net] ls"
  using assms(2)
proof (induction "r net" arbitrary: net rule: less_induct)
  case less
  have wf: "wf_module m" using r by (simp add: acyclic_def)
  have drv: "driver_at m net = Some (driver (gm_nets m ! net))" using less.prems by (simp add: driver_at_def)
  have leaf: "and_leaves m [net] [net]" using less.prems by (simp add: and_leaves_def)
  show ?case
  proof (cases "\<exists>i. driver (gm_nets m ! net) = DCell i \<and> c_kind (gm_cells m ! i) \<in> {And2, And3}")
    case True
    then obtain i where d: "driver (gm_nets m ! net) = DCell i" "c_kind (gm_cells m ! i) \<in> {And2, And3}" by blast
    then have i: "i < length (gm_cells m)" "c_output (gm_cells m ! i) = net" using wf_module_driver [OF wf less.prems] by simp_all
    have "\<exists>ls. (\<forall>out. collect_and_leaves m xs out = Some (out @ ls)) \<and> and_leaves m xs ls" if "set xs \<subseteq> set (c_inputs (gm_cells m ! i))" for xs
      using that
    proof (induction xs)
      case Nil
      then show ?case by (simp add: collect_and_leaves.simps [of m "[]"] and_leaves_def below_def)
    next
      case (Cons x xs)
      have x: "r x < r net" "x < length (gm_nets m)" using acyclic_cell [OF r i(1), of x] Cons.prems i(2) by auto
      obtain ls where "\<forall>nets out. collect_and_leaves m (x # nets) out = collect_and_leaves m nets (out @ ls)" "and_leaves m [x] ls"
        using less.hyps [OF x] by blast
      moreover obtain js where "\<forall>out. collect_and_leaves m xs out = Some (out @ js)" "and_leaves m xs js"
        using Cons by auto
      ultimately show ?case using and_leaves_append [of m "[x]" ls xs js] by (intro exI [of _ "ls @ js"]) simp
    qed
    from this [OF subset_refl] obtain ls where ls: "\<forall>out. collect_and_leaves m (c_inputs (gm_cells m ! i)) out = Some (out @ ls)"
      "and_leaves m (c_inputs (gm_cells m ! i)) ls" by blast
    have "collect_and_leaves m (net # nets) out = collect_and_leaves m nets (out @ ls)" for nets out
      using ls(1) d i drv by (simp add: collect_and_leaves.simps [of m "net # nets"] cell_at_def)
    moreover have "c_inputs (gm_cells m ! i) \<noteq> []" using wf_module_arity [OF wf i(1)] d(2) by auto
    ultimately show ?thesis using and_leaves_cell [OF i(1) d(2) i(2) ls(2)] by blast
  next
    case False
    have "collect_and_leaves m (net # nets) out = collect_and_leaves m nets (out @ [net])" for nets out
    proof (cases "driver (gm_nets m ! net)")
      case (DCell i)
      then have "i < length (gm_cells m)" using wf_module_driver [OF wf less.prems] by simp
      then show ?thesis using False drv DCell by (simp add: collect_and_leaves.simps [of m "net # nets"] cell_at_def)
    qed (simp_all add: collect_and_leaves.simps [of m "net # nets"] drv)
    then show ?thesis using leaf by blast
  qed
qed

lemma collect_and_leaves_spec:
  assumes "acyclic m r" "net < length (gm_nets m)"
  shows "\<exists>ls. collect_and_leaves m [net] [] = Some ls \<and> and_leaves m [net] ls"
proof -
  obtain ls where "\<forall>nets out. collect_and_leaves m (net # nets) out = collect_and_leaves m nets (out @ ls)" "and_leaves m [net] ls"
    using collect_and_leaves_net [OF assms] by blast
  then show ?thesis by (intro exI [of _ ls]) (simp add: collect_and_leaves.simps [of m "[]"])
qed

subsection \<open>Increment muxes\<close>

text \<open>\<open>inc\<close> is \<open>b\<close> flipped when all the leaves are 1.\<close>

definition increments :: "gate_module \<Rightarrow> net_id \<Rightarrow> net_id \<Rightarrow> net_id list \<Rightarrow> bool" where
  "increments m b inc ls \<longleftrightarrow> in_nets m ls \<and> (\<forall>r. acyclic m r \<longrightarrow> below r (insert b (set ls)) (r inc)
     \<and> (\<forall>v u. lower r v m u \<longrightarrow> r inc < u \<longrightarrow> v inc = (v b \<noteq> (\<forall>l \<in> set ls. v l))))"

lemma incrementsI:
  assumes "in_nets m ls" "\<And>r. acyclic m r \<Longrightarrow> below r (insert b (set ls)) (r inc)"
    "\<And>r v u. acyclic m r \<Longrightarrow> lower r v m u \<Longrightarrow> r inc < u \<Longrightarrow> v inc = (v b \<noteq> (\<forall>l \<in> set ls. v l))"
  shows "increments m b inc ls"
  using assms unfolding increments_def by blast

lemma incrementsD:
  assumes "increments m b inc ls"
  shows "in_nets m ls" "acyclic m r \<Longrightarrow> below r (insert b (set ls)) (r inc)"
    "acyclic m r \<Longrightarrow> lower r v m u \<Longrightarrow> r inc < u \<Longrightarrow> v inc = (v b \<noteq> (\<forall>l \<in> set ls. v l))"
  using assms unfolding increments_def by blast+

lemma increments_not:
  assumes i: "i < length (gm_cells m)" "gm_cells m ! i = \<lparr>c_kind = Not1, c_inputs = [b], c_output = inc\<rparr>"
  shows "increments m b inc []"
proof (rule incrementsI)
  fix r assume r: "acyclic m r"
  show "below r (insert b (set [])) (r inc)" using acyclic_cell(1) [OF r i(1), of b] i(2) by simp
  fix v u assume "lower r v m u" "r inc < u"
  then have "holds v (gm_cells m ! i)" using i(2) by (intro lower_holds [OF _ i(1)]) simp_all
  then show "v inc = (v b \<noteq> (\<forall>l \<in> set []. v l))" using i(2) by (simp add: holds_def)
qed simp

lemma increments_xor:
  assumes i: "i < length (gm_cells m)" "gm_cells m ! i = \<lparr>c_kind = Xor2, c_inputs = [x, y], c_output = inc\<rparr>"
    and xy: "(b, carry) = (x, y) \<or> (b, carry) = (y, x)" and ls: "and_leaves m [carry] ls"
  shows "increments m b inc ls"
proof (rule incrementsI)
  show "in_nets m ls" by (rule and_leavesD(2) [OF ls])
  fix r assume r: "acyclic m r"
  have lt: "r b < r inc" "r carry < r inc" using acyclic_cell(1) [OF r i(1)] i(2) xy by auto
  then show "below r (insert b (set ls)) (r inc)" using and_leavesD(3) [OF ls r, of "r inc"] by simp
  fix v u assume v: "lower r v m u" "r inc < u"
  then have "holds v (gm_cells m ! i)" using i(2) by (intro lower_holds [OF _ i(1)]) simp_all
  then have "v inc = (v b \<noteq> v carry)" using i(2) xy by (auto simp: holds_def)
  moreover have "v carry = (\<forall>l \<in> set ls. v l)" using and_leavesD(4) [OF ls r v(1)] lt(2) v(2) by simp
  ultimately show "v inc = (v b \<noteq> (\<forall>l \<in> set ls. v l))" by simp
qed

text \<open>The mux of an increment.\<close>

definition inc_ok :: "gate_module \<Rightarrow> net_id \<times> bool \<Rightarrow> inc_mux \<Rightarrow> bool" where
  "inc_ok m key im \<longleftrightarrow> im_mux im < length (gm_cells m) \<and> c_kind (gm_cells m ! im_mux im) = Mux2 \<and> im_k im = length (im_leaves im)
     \<and> (\<exists>inc. c_inputs (gm_cells m ! im_mux im) = (if snd key then [fst key, im_b im, inc] else [fst key, inc, im_b im])
          \<and> increments m (im_b im) inc (im_leaves im))"

lemma classify_leg_spec:
  assumes r: "acyclic m r" and "inc < length (gm_nets m)"
  shows "\<exists>res. classify_leg m mi b inc h = Some res \<and>
    (\<forall>im. res = Some im \<longrightarrow> im_mux im = mi \<and> im_b im = b \<and> im_sel_high im = h \<and> im_k im = length (im_leaves im) \<and> increments m b inc (im_leaves im))"
proof -
  have wf: "wf_module m" using r by (simp add: acyclic_def)
  have drv: "driver_at m inc = Some (driver (gm_nets m ! inc))" using assms(2) by (simp add: driver_at_def)
  show ?thesis
  proof (cases "driver (gm_nets m ! inc)")
    case (DCell i)
    then have i: "i < length (gm_cells m)" "c_output (gm_cells m ! i) = inc" using wf_module_driver [OF wf assms(2)] by simp_all
    let ?t = "gm_cells m ! i"
    have at: "cell_at m i = Some ?t" using i(1) by (simp add: cell_at_def)
    consider (inv) "c_kind ?t = Not1" | (xor) "c_kind ?t = Xor2" | (other) "c_kind ?t \<noteq> Not1" "c_kind ?t \<noteq> Xor2" by blast
    then show ?thesis
    proof cases
      case inv
      then obtain x where x: "c_inputs ?t = [x]" using wf_module_arity [OF wf i(1)] by (auto simp: length_1_conv [simplified])
      have "?t = \<lparr>c_kind = Not1, c_inputs = [x], c_output = inc\<rparr>" using inv x i(2) by simp
      then show ?thesis using increments_not [OF i(1), of x inc] x inv drv DCell at
        by (auto simp: classify_leg_def)
    next
      case xor
      then obtain x y where xy: "c_inputs ?t = [x, y]" using wf_module_arity [OF wf i(1)] by (auto simp: length_2_conv [simplified])
      have c: "?t = \<lparr>c_kind = Xor2, c_inputs = [x, y], c_output = inc\<rparr>" using xor xy i(2) by simp
      have rng: "x < length (gm_nets m)" "y < length (gm_nets m)" using acyclic_cell(2) [OF r i(1)] xy by simp_all
      have xc: "xor_carry b ?t = Some (if x = b then Some y else if y = b then Some x else None)" using xy by (simp add: xor_carry_def)
      show ?thesis
      proof (cases "x = b \<or> y = b")
        case True
        define carry where "carry = (if x = b then y else x)"
        have cy: "(b, carry) = (x, y) \<or> (b, carry) = (y, x)" "xor_carry b ?t = Some (Some carry)" "carry < length (gm_nets m)"
          using True xc rng by (auto simp: carry_def)
        obtain ls where ls: "collect_and_leaves m [carry] [] = Some ls" "and_leaves m [carry] ls"
          using collect_and_leaves_spec [OF r cy(3)] by blast
        then show ?thesis using increments_xor [OF i(1) c cy(1) ls(2)] cy(2) xor drv DCell at by (simp add: classify_leg_def)
      qed (use xc xor drv DCell at in \<open>simp add: classify_leg_def\<close>)
    qed (use drv DCell at in \<open>simp add: classify_leg_def\<close>)
  qed (use drv in \<open>simp_all add: classify_leg_def\<close>)
qed

lemma group_entry_spec:
  assumes r: "acyclic m r" and i: "mi < length (gm_cells m)"
  shows "\<exists>res. group_entry m mi = Some res \<and> (\<forall>key im. res = Some (key, im) \<longrightarrow> inc_ok m key im)"
proof (cases "c_kind (gm_cells m ! mi) = Mux2")
  case True
  have wf: "wf_module m" using r by (simp add: acyclic_def)
  obtain s d0 d1 where ins: "c_inputs (gm_cells m ! mi) = [s, d0, d1]" using wf_module_arity [OF wf i] True by (auto simp: length_3_conv [simplified])
  have rng: "d0 < length (gm_nets m)" "d1 < length (gm_nets m)" using acyclic_cell(2) [OF r i] ins by simp_all
  have at: "cell_at m mi = Some (gm_cells m ! mi)" using i by (simp add: cell_at_def)
  obtain r1 where r1: "classify_leg m mi d0 d1 True = Some r1"
    "\<forall>im. r1 = Some im \<longrightarrow> im_mux im = mi \<and> im_b im = d0 \<and> im_sel_high im = True \<and> im_k im = length (im_leaves im) \<and> increments m d0 d1 (im_leaves im)"
    using classify_leg_spec [OF r rng(2)] by blast
  obtain r2 where r2: "classify_leg m mi d1 d0 False = Some r2"
    "\<forall>im. r2 = Some im \<longrightarrow> im_mux im = mi \<and> im_b im = d1 \<and> im_sel_high im = False \<and> im_k im = length (im_leaves im) \<and> increments m d1 d0 (im_leaves im)"
    using classify_leg_spec [OF r rng(1)] by blast
  have "classify_inc_mux m mi = Some (case r1 of Some im \<Rightarrow> Some im | None \<Rightarrow> r2)"
    using at ins r1(1) r2(1) by (simp add: classify_inc_mux_def split: option.splits)
  then obtain res where res: "classify_inc_mux m mi = Some res" "res = (case r1 of Some im \<Rightarrow> Some im | None \<Rightarrow> r2)" by blast
  have "inc_ok m (s, im_sel_high im) im" if im: "res = Some im" for im
  proof (cases r1)
    case None
    then have e: "im_mux im = mi" "im_b im = d1" "\<not> im_sel_high im" "im_k im = length (im_leaves im)" "increments m d1 d0 (im_leaves im)"
      using r2(2) res(2) im by auto
    then show ?thesis unfolding inc_ok_def e(1,2,4) using i True ins by (intro conjI exI [of _ d0]) simp_all
  next
    case (Some a)
    then have e: "im_mux im = mi" "im_b im = d0" "im_sel_high im" "im_k im = length (im_leaves im)" "increments m d0 d1 (im_leaves im)"
      using r1(2) res(2) im by auto
    then show ?thesis unfolding inc_ok_def e(1,2,4) using i True ins by (intro conjI exI [of _ d1]) simp_all
  qed
  then show ?thesis using at ins True res(1) by (cases res) (simp_all add: group_entry_def)
qed (use i in \<open>simp add: group_entry_def cell_at_def\<close>)

subsection \<open>Stages\<close>

text \<open>
  The cells of a stage compute its bus, incremented when the condition holds, from nets below
  their outputs: the lower bits of the bus and the terms.
\<close>

definition stage_bits :: "gate_module \<Rightarrow> stage \<Rightarrow> (net_id \<Rightarrow> nat) \<Rightarrow> nat \<Rightarrow> bool" where
  "stage_bits m s r k \<longleftrightarrow> (\<forall>j \<le> k. r (st_in s ! j) < r (st_out s ! k)) \<and> below r (set (map fst (st_terms s))) (r (st_out s ! k))
     \<and> (\<forall>v. lower r v m (r (st_out s ! k)) \<longrightarrow>
          cell_fn (c_kind (gm_cells m ! (st_cells s ! k))) (map v (c_inputs (gm_cells m ! (st_cells s ! k))))
            = (v (st_in s ! k) \<noteq> (product v (st_terms s) \<and> (\<forall>j < k. v (st_in s ! j)))))"

definition stage_ok :: "gate_module \<Rightarrow> stage \<Rightarrow> bool" where
  "stage_ok m s \<longleftrightarrow> length (st_out s) = length (st_in s) \<and> length (st_cells s) = length (st_in s) \<and> 2 \<le> length (st_in s) \<and> st_terms s \<noteq> []
     \<and> in_nets m (st_in s) \<and> in_nets m (map fst (st_terms s))
     \<and> (\<forall>k < length (st_in s). st_cells s ! k < length (gm_cells m) \<and> c_output (gm_cells m ! (st_cells s ! k)) = st_out s ! k
          \<and> (\<forall>r. acyclic m r \<longrightarrow> stage_bits m s r k))"

text \<open>A group's bus: the \<open>k\<close>-th mux increments the \<open>k\<close>-th bit over the lower ones.\<close>

definition bus_ok :: "gate_module \<Rightarrow> net_id \<times> bool \<Rightarrow> net_id list \<Rightarrow> net_id list \<Rightarrow> nat list \<Rightarrow> bool" where
  "bus_ok m key ins outs cells \<longleftrightarrow> length outs = length ins \<and> length cells = length ins
     \<and> (\<forall>k < length ins. \<exists>im. inc_ok m key im \<and> im_mux im = cells ! k \<and> im_b im = ins ! k \<and> outs ! k = c_output (gm_cells m ! (cells ! k))
          \<and> set (im_leaves im) = set (take k ins))"

lemma bus_of_spec:
  assumes "\<And>im. im \<in> set ims \<Longrightarrow> inc_ok m key im" "bus_ok m key ins outs cells" "pos = length ins"
  shows "\<exists>res. bus_of m ims pos ins outs cells = Some res \<and> (\<forall>i o' c. res = Some (i, o', c) \<longrightarrow> bus_ok m key i o' c)"
  using assms
proof (induction ims arbitrary: pos ins outs cells)
  case (Cons im ims)
  show ?case
  proof (cases "im_k im \<noteq> pos \<or> sort (im_leaves im) \<noteq> sort ins")
    case False
    have im: "inc_ok m key im" using Cons.prems(1) by simp
    then have at: "cell_at m (im_mux im) = Some (gm_cells m ! im_mux im)" by (simp add: inc_ok_def cell_at_def)
    let ?ins = "ins @ [im_b im]" and ?outs = "outs @ [c_output (gm_cells m ! im_mux im)]" and ?cells = "cells @ [im_mux im]"
    have "set (im_leaves im) = set ins" using False by (metis set_sort)
    then have "bus_ok m key ?ins ?outs ?cells" using Cons.prems(2) im unfolding bus_ok_def by (auto simp: nth_append less_Suc_eq)
    then show ?thesis using Cons.IH [of ?ins ?outs ?cells "Suc pos"] Cons.prems(1,3) False at by simp
  qed auto
qed simp

lemma bus_stage_ok:
  assumes b: "bus_ok m (s, h) ins outs cells" and two: "2 \<le> length ins" and r: "acyclic m r"
  shows "stage_ok m \<lparr>st_terms = [(s, \<not> h)], st_out = outs, st_in = ins, st_cells = cells\<rparr>" (is "stage_ok m ?st")
proof -
  have bit: "cells ! k < length (gm_cells m) \<and> c_output (gm_cells m ! (cells ! k)) = outs ! k \<and> ins ! k < length (gm_nets m) \<and> s < length (gm_nets m)
      \<and> (\<forall>r. acyclic m r \<longrightarrow> stage_bits m ?st r k)" if k: "k < length ins" for k
  proof -
    obtain im where im: "inc_ok m (s, h) im" "im_mux im = cells ! k" "im_b im = ins ! k" "outs ! k = c_output (gm_cells m ! (cells ! k))"
      "set (im_leaves im) = set (take k ins)" using b k unfolding bus_ok_def by blast
    let ?c = "gm_cells m ! (cells ! k)"
    obtain inc where inc: "cells ! k < length (gm_cells m)" "c_kind ?c = Mux2" "c_inputs ?c = (if h then [s, ins ! k, inc] else [s, inc, ins ! k])"
      "increments m (ins ! k) inc (im_leaves im)" using im(1-3) by (auto simp: inc_ok_def)
    have leaves: "(\<forall>l \<in> set (im_leaves im). P l) = (\<forall>j < k. P (ins ! j))" for P
      using k unfolding im(5) by (auto simp: set_conv_nth)
    have "stage_bits m ?st r k" if r: "acyclic m r" for r
    proof -
      have lt: "r s < r (outs ! k)" "r (ins ! k) < r (outs ! k)" "r inc < r (outs ! k)"
        using acyclic_cell(1) [OF r inc(1)] inc(3) im(4) by (auto split: if_splits)
      have "below r (insert (ins ! k) (set (im_leaves im))) (r inc)" by (rule incrementsD(2) [OF inc(4) r])
      then have "\<forall>j < k. r (ins ! j) < r inc" unfolding below_def using leaves [of "\<lambda>l. r l < r inc"] by blast
      then have low: "\<forall>j \<le> k. r (ins ! j) < r (outs ! k)" using lt by (metis le_neq_implies_less less_trans)
      have "cell_fn (c_kind ?c) (map v (c_inputs ?c)) = (v (ins ! k) \<noteq> (product v [(s, \<not> h)] \<and> (\<forall>j < k. v (ins ! j))))"
        if v: "lower r v m (r (outs ! k))" for v
      proof -
        have "v inc = (v (ins ! k) \<noteq> (\<forall>j < k. v (ins ! j)))" using incrementsD(3) [OF inc(4) r v lt(3)] leaves [of v] by simp
        then show ?thesis using inc(2,3) by (cases h) (auto simp: product_def)
      qed
      then show ?thesis using lt low by (simp add: stage_bits_def)
    qed
    moreover have "ins ! k < length (gm_nets m)" "s < length (gm_nets m)" using acyclic_cell(2) [OF r inc(1)] inc(3) by (auto split: if_splits)
    ultimately show ?thesis using inc(1) im(4) by simp
  qed
  have "s < length (gm_nets m)" using bit [of 0] two by (cases ins) auto
  moreover have "in_nets m ins" using bit by (auto simp: all_set_conv_all_nth)
  ultimately show ?thesis using b two bit by (simp add: stage_ok_def bus_ok_def)
qed

subsection \<open>Layers\<close>

text \<open>A mux over the bit \<open>ik\<close> and the bus bit \<open>bk\<close> it was made from.\<close>

definition layer_ok :: "gate_module \<Rightarrow> net_id \<times> bool \<Rightarrow> net_id \<Rightarrow> net_id \<Rightarrow> nat \<Rightarrow> bool" where
  "layer_ok m key ik bk mi \<longleftrightarrow> mi < length (gm_cells m) \<and> c_kind (gm_cells m ! mi) = Mux2
     \<and> c_inputs (gm_cells m ! mi) = (if snd key then [fst key, bk, ik] else [fst key, ik, bk])"

lemma is_layer_spec:
  assumes r: "acyclic m r" and i: "i < length (gm_cells m)"
  shows "\<exists>b. is_layer ik bk (gm_cells m ! i) = Some b \<and> (b \<longrightarrow> (\<exists>s. layer_ok m (s, c_inputs (gm_cells m ! i) ! 2 = ik) ik bk i \<and> c_inputs (gm_cells m ! i) ! 0 = s))"
proof (cases "c_kind (gm_cells m ! i) = Mux2")
  case True
  have wf: "wf_module m" using r by (simp add: acyclic_def)
  obtain s d0 d1 where ins: "c_inputs (gm_cells m ! i) = [s, d0, d1]" using wf_module_arity [OF wf i] True by (auto simp: length_3_conv [simplified])
  show ?thesis using True ins i by (auto simp: is_layer_def layer_ok_def)
qed (auto simp: is_layer_def)

lemma find_layer_spec:
  assumes r: "acyclic m r" and "\<And>p. p \<in> set ps \<Longrightarrow> fst p < length (gm_cells m) \<and> snd p = gm_cells m ! fst p"
  shows "\<exists>res. find_layer ik bk ps = Some res \<and> (\<forall>mi mc. res = Some (mi, mc) \<longrightarrow>
    mi < length (gm_cells m) \<and> mc = gm_cells m ! mi \<and> layer_ok m (c_inputs mc ! 0, c_inputs mc ! 2 = ik) ik bk mi)"
  using assms(2)
proof (induction ps)
  case (Cons p ps)
  have p: "fst p < length (gm_cells m)" "snd p = gm_cells m ! fst p" using Cons.prems [of p] by simp_all
  obtain b where b: "is_layer ik bk (snd p) = Some b"
    "b \<longrightarrow> (\<exists>s. layer_ok m (s, c_inputs (gm_cells m ! fst p) ! 2 = ik) ik bk (fst p) \<and> c_inputs (gm_cells m ! fst p) ! 0 = s)"
    using is_layer_spec [OF r p(1), of ik bk] p(2) by auto
  show ?case
  proof (cases b)
    case True
    then show ?thesis using b p by (cases p) auto
  next
    case False
    then show ?thesis using b(1) Cons by simp
  qed
qed simp

lemma layer_of_spec:
  assumes r: "acyclic m r"
  shows "\<exists>res. layer_of m ps layer cells = Some res \<and> (\<forall>l cs. res = Some (l, cs) \<longrightarrow> (\<exists>new. cs = cells @ new \<and> length new = length ps
    \<and> (\<forall>key. layer = Some key \<longrightarrow> l = Some key) \<and> (ps = [] \<longrightarrow> l = layer)
    \<and> (\<forall>k < length ps. \<exists>key. l = Some key \<and> layer_ok m key (fst (ps ! k)) (snd (ps ! k)) (new ! k))))"
proof (induction ps arbitrary: layer cells)
  case (Cons p ps)
  obtain ik bk where p: "p = (ik, bk)" by fastforce
  have en: "\<And>q. q \<in> set (enumerate 0 (gm_cells m)) \<Longrightarrow> fst q < length (gm_cells m) \<and> snd q = gm_cells m ! fst q"
    by (auto simp: in_set_enumerate_eq)
  obtain f where f: "find_layer ik bk (enumerate 0 (gm_cells m)) = Some f" "\<forall>mi mc. f = Some (mi, mc) \<longrightarrow>
      mi < length (gm_cells m) \<and> mc = gm_cells m ! mi \<and> layer_ok m (c_inputs mc ! 0, c_inputs mc ! 2 = ik) ik bk mi"
    using find_layer_spec [OF r en] by blast
  show ?case
  proof (cases f)
    case None
    then show ?thesis using f(1) p by simp
  next
    case (Some q)
    then obtain mi mc where q: "f = Some (mi, mc)" by (cases q) auto
    let ?key = "(c_inputs mc ! 0, c_inputs mc ! 2 = ik)"
    have mi: "mi < length (gm_cells m)" "mc = gm_cells m ! mi" "layer_ok m ?key ik bk mi" using f(2) q by blast+
    have len: "length (c_inputs mc) = 3" using wf_module_arity [OF _ mi(1)] r mi(2,3) by (simp add: layer_ok_def acyclic_def)
    have step: "layer_of m (p # ps) layer cells =
        (if layer = None \<or> layer = Some ?key then layer_of m ps (Some ?key) (cells @ [mi]) else Some None)"
      using f(1) q p len by simp
    show ?thesis
    proof (cases "layer = None \<or> layer = Some ?key")
      case True
      obtain res where res: "layer_of m ps (Some ?key) (cells @ [mi]) = Some res" "\<forall>l cs. res = Some (l, cs) \<longrightarrow>
          (\<exists>new. cs = (cells @ [mi]) @ new \<and> length new = length ps \<and> (\<forall>key. Some ?key = Some key \<longrightarrow> l = Some key) \<and> (ps = [] \<longrightarrow> l = Some ?key)
           \<and> (\<forall>k < length ps. \<exists>key. l = Some key \<and> layer_ok m key (fst (ps ! k)) (snd (ps ! k)) (new ! k)))"
        using Cons.IH [of "Some ?key" "cells @ [mi]"] by blast
      have "\<exists>new. cs = cells @ new \<and> length new = length (p # ps) \<and> (\<forall>key. layer = Some key \<longrightarrow> l = Some key) \<and> (p # ps = [] \<longrightarrow> l = layer)
          \<and> (\<forall>k < length (p # ps). \<exists>key. l = Some key \<and> layer_ok m key (fst ((p # ps) ! k)) (snd ((p # ps) ! k)) (new ! k))"
        if eq: "res = Some (l, cs)" for l cs
      proof -
        obtain new where new: "cs = (cells @ [mi]) @ new" "length new = length ps" "l = Some ?key"
          "\<forall>k < length ps. \<exists>key. l = Some key \<and> layer_ok m key (fst (ps ! k)) (snd (ps ! k)) (new ! k)" using res(2) eq by blast
        have "\<exists>key. l = Some key \<and> layer_ok m key (fst ((p # ps) ! k)) (snd ((p # ps) ! k)) ((mi # new) ! k)" if "k < length (p # ps)" for k
          using new(3,4) mi(3) p that by (cases k) auto
        then show ?thesis using new True by (intro exI [of _ "mi # new"]) auto
      qed
      then show ?thesis using step True res(1) by auto
    next
      case False
      then have "layer_of m (p # ps) layer cells = Some None" unfolding step by (rule if_not_P)
      then show ?thesis by blast
    qed
  qed
qed auto

lemma fold_layer_ok:
  assumes st: "stage_ok m st" and cells: "length cells = length (st_in st)"
    and l: "\<And>k. k < length (st_in st) \<Longrightarrow> layer_ok m (sel, inc) (st_out st ! k) (st_in st ! k) (cells ! k)" and r0: "acyclic m r0"
  shows "stage_ok m (st\<lparr>st_terms := st_terms st @ [(sel, \<not> inc)], st_out := map (\<lambda>i. c_output (gm_cells m ! i)) cells, st_cells := cells\<rparr>)"
    (is "stage_ok m ?st")
proof -
  have bit: "cells ! k < length (gm_cells m) \<and> sel < length (gm_nets m) \<and> (\<forall>r. acyclic m r \<longrightarrow> stage_bits m ?st r k)" if k: "k < length (st_in st)" for k
  proof -
    let ?c = "gm_cells m ! (cells ! k)" and ?ik = "st_out st ! k" and ?bk = "st_in st ! k"
    have c: "cells ! k < length (gm_cells m)" "c_kind ?c = Mux2" "c_inputs ?c = (if inc then [sel, ?bk, ?ik] else [sel, ?ik, ?bk])"
      using l [OF k] by (simp_all add: layer_ok_def)
    have i: "st_cells st ! k < length (gm_cells m)" "c_output (gm_cells m ! (st_cells st ! k)) = ?ik"
      and old: "\<And>r. acyclic m r \<Longrightarrow> stage_bits m st r k" using st k by (simp_all add: stage_ok_def)
    have "stage_bits m ?st r k" if r: "acyclic m r" for r
    proof -
      have out: "st_out ?st ! k = c_output ?c" using k cells by simp
      have lt: "r sel < r (c_output ?c)" "r ?ik < r (c_output ?c)" using acyclic_cell(1) [OF r c(1)] c(3) by (auto split: if_splits)
      have o: "\<forall>j \<le> k. r (st_in st ! j) < r ?ik" "below r (set (map fst (st_terms st))) (r ?ik)" using old [OF r] by (simp_all add: stage_bits_def)
      have "below r (set (map fst (st_terms ?st))) (r (c_output ?c))" using o(2) lt by (auto simp: below_def intro: less_trans)
      moreover have "\<forall>j \<le> k. r (st_in st ! j) < r (c_output ?c)" using o(1) lt(2) by (auto intro: less_trans)
      moreover have "cell_fn (c_kind ?c) (map v (c_inputs ?c)) = (v ?bk \<noteq> (product v (st_terms ?st) \<and> (\<forall>j < k. v (st_in st ! j))))"
        if v: "lower r v m (r (c_output ?c))" for v
      proof -
        have "holds v (gm_cells m ! (st_cells st ! k))" using lower_holds [OF v i(1)] i(2) lt(2) by simp
        then have "v ?ik = (v ?bk \<noteq> (product v (st_terms st) \<and> (\<forall>j < k. v (st_in st ! j))))"
          using old [OF r] lower_mono [OF v, of "r ?ik"] lt(2) i(2) by (simp add: stage_bits_def holds_def)
        moreover have "cell_fn (c_kind ?c) (map v (c_inputs ?c)) = (if v sel = inc then v ?ik else v ?bk)" using c(2,3) by (cases inc) auto
        moreover have "product v (st_terms ?st) = (product v (st_terms st) \<and> v sel = inc)" by (auto simp: product_def)
        ultimately show ?thesis by auto
      qed
      ultimately show ?thesis using out by (simp add: stage_bits_def)
    qed
    moreover have "sel < length (gm_nets m)" using acyclic_cell(2) [OF r0 c(1)] c(3) by (auto split: if_splits)
    ultimately show ?thesis using c(1) by blast
  qed
  have two: "0 < length (st_in st)" using st by (auto simp: stage_ok_def)
  show ?thesis using st cells bit bit [OF two] unfolding stage_ok_def by simp
qed

lemma fold_passthrough_layers_spec:
  assumes r: "acyclic m r" and "stage_ok m st"
  shows "\<exists>st'. fold_passthrough_layers m st = Some st' \<and> stage_ok m st'"
  using assms(2)
proof (induction "Max (r ` {..<length (gm_nets m)}) - r (st_out st ! 0)" arbitrary: st rule: less_induct)
  case less
  let ?M = "Max (r ` {..<length (gm_nets m)})" and ?ps = "zip (st_out st) (st_in st)"
  have len: "length (st_out st) = length (st_in st)" "2 \<le> length (st_in st)" "length (st_cells st) = length (st_in st)" using less.prems by (simp_all add: stage_ok_def)
  then have plen: "length ?ps = length (st_in st)" "?ps \<noteq> []" by auto
  obtain res where res: "layer_of m ?ps None [] = Some res" "\<forall>l cs. res = Some (l, cs) \<longrightarrow> (\<exists>new. cs = [] @ new \<and> length new = length ?ps
    \<and> (\<forall>key. None = Some key \<longrightarrow> l = Some key) \<and> (?ps = [] \<longrightarrow> l = None)
    \<and> (\<forall>k < length ?ps. \<exists>key. l = Some key \<and> layer_ok m key (fst (?ps ! k)) (snd (?ps ! k)) (new ! k)))"
    using layer_of_spec [OF r, of ?ps None "[]"] by blast
  show ?case
  proof (cases "\<exists>sel inc cs. res = Some (Some (sel, inc), cs)")
    case True
    then obtain sel inc cs where eq: "res = Some (Some (sel, inc), cs)" by blast
    then have cs: "length cs = length (st_in st)" "\<And>k. k < length (st_in st) \<Longrightarrow> layer_ok m (sel, inc) (st_out st ! k) (st_in st ! k) (cs ! k)"
      using res(2) plen(1) len(1) by auto
    let ?st = "st\<lparr>st_terms := st_terms st @ [(sel, \<not> inc)], st_out := map (\<lambda>i. c_output (gm_cells m ! i)) cs, st_cells := cs\<rparr>"
    have ok: "stage_ok m ?st" by (rule fold_layer_ok [OF less.prems cs r])
    have "map_option c_output (cell_at m i) = Some (c_output (gm_cells m ! i))" if "i \<in> set cs" for i
      using ok that by (auto simp: stage_ok_def in_set_conv_nth cell_at_def)
    then have those: "those (map (\<lambda>i. map_option c_output (cell_at m i)) cs) = Some (map (\<lambda>i. c_output (gm_cells m ! i)) cs)"
      by (rule those_map_Some)
    have run: "fold_passthrough_layers m st = fold_passthrough_layers m ?st"
      using res(1) eq those by (subst fold_passthrough_layers.simps) simp
    have pos: "0 < length (st_in st)" using len(2) by linarith
    have c0: "cs ! 0 < length (gm_cells m)" "st_out st ! 0 \<in> set (c_inputs (gm_cells m ! (cs ! 0)))"
      using cs(2) [OF pos] by (auto simp: layer_ok_def)
    have up: "r (st_out st ! 0) < r (st_out ?st ! 0)" "st_out ?st ! 0 < length (gm_nets m)"
      using acyclic_cell [OF r c0] cs(1) pos by simp_all
    have "r (st_out ?st ! 0) \<le> ?M" using up(2) by (intro Max_ge) auto
    then have "?M - r (st_out ?st ! 0) < ?M - r (st_out st ! 0)" using up(1) by linarith
    from less.hyps [OF this ok] show ?thesis using run by simp
  next
    case False
    then have "fold_passthrough_layers m st = Some st"
      using res(1) by (subst fold_passthrough_layers.simps) (auto split: option.split)
    then show ?thesis using less.prems by blast
  qed
qed

subsection \<open>All stages\<close>

lemma collect_stages_spec:
  assumes r: "acyclic m r"
  shows "\<exists>ss. collect_stages m = Some ss \<and> (\<forall>s \<in> set ss. stage_ok m s)"
proof -
  have "\<exists>res. group_entry m i = Some res \<and> (\<forall>key im. res = Some (key, im) \<longrightarrow> inc_ok m key im)" if "i \<in> set [0..<length (gm_cells m)]" for i
    using group_entry_spec [OF r] that by simp
  from those_all2 [where f = "group_entry m" and P = "\<lambda>i res. \<forall>key im. res = Some (key, im) \<longrightarrow> inc_ok m key im", OF this]
  obtain es where es: "those (map (group_entry m) [0..<length (gm_cells m)]) = Some es"
    "list_all2 (\<lambda>i res. \<forall>key im. res = Some (key, im) \<longrightarrow> inc_ok m key im) [0..<length (gm_cells m)] es" by blast
  have ok: "inc_ok m key im" if "(key, im) \<in> set (List.map_filter id es)" for key im
  proof -
    have "Some (key, im) \<in> set es" using that by (auto simp: List.map_filter_def)
    from all2_image [OF es(2) this] show ?thesis by blast
  qed
  have "\<exists>res. group_stage m g = Some res \<and> (\<forall>s. res = Some s \<longrightarrow> stage_ok m s)" if "g \<in> set (groups_of (List.map_filter id es))" for g
  proof -
    obtain s h incs where g: "g = ((s, h), incs)" by (metis surj_pair)
    have incs: "inc_ok m (s, h) im" if "im \<in> set (sort_key im_k incs)" for im
    proof -
      have "incs = map snd (filter (\<lambda>e. fst e = (s, h)) (List.map_filter id es))" using \<open>g \<in> _\<close> unfolding g groups_of_def by auto
      then have "im \<in> snd ` {e \<in> set (List.map_filter id es). fst e = (s, h)}" using that by simp
      then show ?thesis using ok by auto
    qed
    obtain res where res: "bus_of m (sort_key im_k incs) 0 [] [] [] = Some res" "\<forall>i o' c. res = Some (i, o', c) \<longrightarrow> bus_ok m (s, h) i o' c"
      using bus_of_spec [OF incs, of "sort_key im_k incs" "[]" "[]" "[]" 0] by (auto simp: bus_ok_def)
    show ?thesis
    proof (cases res)
      case (Some t)
      then obtain i o' c where t: "res = Some (i, o', c)" by (cases t) auto
      show ?thesis
      proof (cases "length i < 2")
        case False
        then have "stage_ok m \<lparr>st_terms = [(s, \<not> h)], st_out = o', st_in = i, st_cells = c\<rparr>" using bus_stage_ok [OF _ _ r] res(2) t by simp
        then show ?thesis using fold_passthrough_layers_spec [OF r] res(1) t False by (fastforce simp: group_stage_def g)
      qed (use res(1) t in \<open>simp add: group_stage_def g\<close>)
    qed (use res(1) in \<open>simp add: group_stage_def g\<close>)
  qed
  from those_all2 [where f = "group_stage m" and P = "\<lambda>g res. \<forall>s. res = Some s \<longrightarrow> stage_ok m s", OF this]
  obtain ss where ss: "those (map (group_stage m) (groups_of (List.map_filter id es))) = Some ss"
    "list_all2 (\<lambda>g res. \<forall>s. res = Some s \<longrightarrow> stage_ok m s) (groups_of (List.map_filter id es)) ss" by blast
  have "stage_ok m s" if "s \<in> set (List.map_filter id ss)" for s
  proof -
    have "Some s \<in> set ss" using that by (auto simp: List.map_filter_def)
    from all2_image [OF ss(2) this] show ?thesis by blast
  qed
  then show ?thesis using es(1) ss(1) by (simp add: collect_stages_def)
qed

end
