(* ===== verification/Counter_Pass.thy ===== *)
theory Counter_Pass
  imports Counter_Stages
begin

section \<open>The counter rebuild keeps the netlist's meaning\<close>

text \<open>
  A chain of stages adds the number of its true conditions to the seed, bit by bit from nets
  of a lower rank; so the cells of its last stage can be aliased to the sum of the seed and
  the popcount, for all chains at once.
\<close>

subsection \<open>Increments of bit lists\<close>

lemma bit_mod: "bit (n mod 2 ^ Suc k) k = bit (n :: nat) k"
  by (simp add: bit_take_bit_iff flip: take_bit_eq_mod del: power_Suc)

lemma carry_mod: "of_bool d + 2 * (x mod p) = (of_bool d + 2 * x) mod (2 * (p :: nat))"
  by (cases d) (simp_all add: mod_mult2_eq)

lemma inc_bits:
  assumes "length cs = length bs" "\<And>j. j < length bs \<Longrightarrow> cs ! j = (bs ! j \<noteq> (c \<and> (\<forall>l < j. bs ! l)))"
  shows "uval cs = (uval bs + of_bool c) mod 2 ^ length bs"
  using assms
proof (induction bs arbitrary: cs c)
  case (Cons b bs)
  then obtain d ds where cs: "cs = d # ds" by (cases cs) auto
  have d: "d = (b \<noteq> c)" using Cons.prems(2) [of 0] cs by simp
  have "ds ! j = (bs ! j \<noteq> ((c \<and> b) \<and> (\<forall>l < j. bs ! l)))" if "j < length bs" for j
    using Cons.prems(2) [of "Suc j"] that cs by (auto simp: All_less_Suc2)
  then have ih: "uval ds = (uval bs + of_bool (c \<and> b)) mod 2 ^ length bs" using Cons.IH [of ds "c \<and> b"] Cons.prems(1) cs by simp
  have "uval (b # bs) + of_bool c = of_bool d + 2 * (uval bs + of_bool (c \<and> b))" using d by (cases b; cases c) simp_all
  then have "(uval (b # bs) + of_bool c) mod 2 ^ length (b # bs) = (of_bool d + 2 * (uval bs + of_bool (c \<and> b))) mod (2 * 2 ^ length bs)" by (simp only: length_Cons power_Suc)
  also have "\<dots> = of_bool d + 2 * ((uval bs + of_bool (c \<and> b)) mod 2 ^ length bs)" by (rule carry_mod [symmetric])
  finally show ?case using ih cs by simp
qed simp

lemma bit_inc:
  assumes "length bs = Suc k"
  shows "(bs ! k \<noteq> (c \<and> (\<forall>j < k. bs ! j))) = bit (uval bs + of_bool c) k"
proof -
  define cs where "cs = map (\<lambda>j. bs ! j \<noteq> (c \<and> (\<forall>l < j. bs ! l))) [0..<length bs]"
  have "uval cs = (uval bs + of_bool c) mod 2 ^ length bs"
    by (rule inc_bits) (simp_all add: cs_def)
  moreover have "bit (uval cs) k = (bs ! k \<noteq> (c \<and> (\<forall>j < k. bs ! j)))" using assms by (simp add: bit_uval cs_def del: upt_Suc)
  ultimately show ?thesis using assms bit_mod by metis
qed

subsection \<open>Chains\<close>

text \<open>Stages of which each reads the bus of the one before.\<close>

definition stages_linked :: "gate_module \<Rightarrow> stage list \<Rightarrow> bool" where
  "stages_linked m ss \<longleftrightarrow> ss \<noteq> [] \<and> (\<forall>s \<in> set ss. stage_ok m s) \<and> (\<forall>p. Suc p < length ss \<longrightarrow> st_out (ss ! p) = st_in (ss ! Suc p))"

definition counted :: "(net_id \<Rightarrow> bool) \<Rightarrow> stage list \<Rightarrow> nat" where
  "counted v ss = sum_list (map (\<lambda>s. of_bool (product v (st_terms s))) ss)"

lemma stages_linked_nth: "stages_linked m ss \<Longrightarrow> p < length ss \<Longrightarrow> stage_ok m (ss ! p)"
  by (simp add: stages_linked_def)

lemma stages_linked_width:
  assumes "stages_linked m ss" "p < length ss"
  shows "length (st_in (ss ! p)) = length (st_in (ss ! 0))"
  using assms(2)
proof (induction p)
  case (Suc p)
  then have "st_in (ss ! Suc p) = st_out (ss ! p)" using assms(1) by (simp add: stages_linked_def)
  then show ?case using Suc stages_linked_nth [OF assms(1), of p] by (simp add: stage_ok_def)
qed simp

lemma linked_bits: "stages_linked m ss \<Longrightarrow> acyclic m r \<Longrightarrow> p < length ss \<Longrightarrow> k < length (st_in (ss ! 0)) \<Longrightarrow> stage_bits m (ss ! p) r k"
  using stages_linked_nth stages_linked_width unfolding stage_ok_def by metis

lemma linked_rank:
  assumes l: "stages_linked m ss" and r: "acyclic m r" and k: "k < length (st_in (ss ! 0))"
  shows "p < length ss \<Longrightarrow> q < p \<Longrightarrow> j \<le> k \<Longrightarrow> r (st_out (ss ! q) ! j) < r (st_out (ss ! p) ! k)"
proof (induction p arbitrary: j)
  case (Suc p)
  have eq: "st_in (ss ! Suc p) = st_out (ss ! p)" using l Suc.prems(1) by (simp add: stages_linked_def)
  have step: "r (st_out (ss ! p) ! i) < r (st_out (ss ! Suc p) ! k)" if "i \<le> k" for i
    using linked_bits [OF l r Suc.prems(1) k] that unfolding stage_bits_def eq by blast
  show ?case
  proof (cases "q = p")
    case False
    then have "r (st_out (ss ! q) ! j) < r (st_out (ss ! p) ! k)" using Suc by simp
    then show ?thesis using step [of k] by simp
  qed (use step Suc.prems(3) in simp)
qed simp

lemma linked_below:
  assumes l: "stages_linked m ss" and r: "acyclic m r" and k: "k < length (st_in (ss ! 0))"
  shows "s \<in> set ss \<Longrightarrow> below r (set (map fst (st_terms s))) (r (st_out (last ss) ! k))"
    "j \<le> k \<Longrightarrow> r (st_in (ss ! 0) ! j) < r (st_out (last ss) ! k)"
proof -
  have ne: "ss \<noteq> []" using l by (simp add: stages_linked_def)
  have le: "r (st_out (ss ! q) ! k) \<le> r (st_out (last ss) ! k)" if q: "q < length ss" for q
  proof (cases "q = length ss - 1")
    case False
    then have "q < length ss - 1" using q by simp
    then show ?thesis using linked_rank [OF l r k, of "length ss - 1" q k] ne by (simp add: last_conv_nth)
  qed (use ne in \<open>simp add: last_conv_nth\<close>)
  show "below r (set (map fst (st_terms s))) (r (st_out (last ss) ! k))" if s: "s \<in> set ss"
  proof -
    obtain q where q: "q < length ss" "ss ! q = s" using s by (auto simp: in_set_conv_nth)
    then have "below r (set (map fst (st_terms s))) (r (st_out s ! k))" using linked_bits [OF l r q(1) k] by (simp add: stage_bits_def)
    then show ?thesis using le [OF q(1)] q(2) by (auto simp: below_def intro: less_le_trans)
  qed
  show "r (st_in (ss ! 0) ! j) < r (st_out (last ss) ! k)" if "j \<le> k"
    using linked_bits [OF l r _ k, of 0] le [of 0] ne that unfolding stage_bits_def by (meson length_greater_0_conv less_le_trans)
qed

text \<open>The low bits of the bus that enters the \<open>p\<close>-th stage.\<close>

lemma linked_low:
  assumes l: "stages_linked m ss" and r: "acyclic m r" and k: "k < length (st_in (ss ! 0))" and v: "lower r v m u"
    and below: "\<And>q j. q < p \<Longrightarrow> j \<le> k \<Longrightarrow> r (st_out (ss ! q) ! j) < u" and "p < length ss"
  shows "uval (map v (take (Suc k) (st_in (ss ! p)))) = (uval (map v (st_in (ss ! 0))) + counted v (take p ss)) mod 2 ^ Suc k"
  using below assms(6)
proof (induction p)
  case 0
  show ?case using uval_take [of "Suc k" "map v (st_in (ss ! 0))"] by (simp add: counted_def take_map)
next
  case (Suc p)
  let ?s = "ss ! p" and ?W = "length (st_in (ss ! 0))"
  have p: "p < length ss" using Suc.prems(2) by simp
  have eq: "st_in (ss ! Suc p) = st_out ?s" using l Suc.prems(2) by (simp add: stages_linked_def)
  have len: "length (st_in ?s) = ?W" "length (st_out ?s) = ?W" using stages_linked_width [OF l p] stages_linked_nth [OF l p] by (simp_all add: stage_ok_def)
  have ih: "uval (map v (take (Suc k) (st_in ?s))) = (uval (map v (st_in (ss ! 0))) + counted v (take p ss)) mod 2 ^ Suc k"
    by (rule Suc.IH) (use Suc.prems p in simp_all)
  have "v (st_out ?s ! j) = (v (st_in ?s ! j) \<noteq> (product v (st_terms ?s) \<and> (\<forall>i < j. v (st_in ?s ! i))))" if j: "j < Suc k" for j
  proof -
    have jW: "j < ?W" using j k by simp
    have c: "st_cells ?s ! j < length (gm_cells m)" "c_output (gm_cells m ! (st_cells ?s ! j)) = st_out ?s ! j"
      using stages_linked_nth [OF l p] len(1) jW by (simp_all add: stage_ok_def)
    have lt: "r (st_out ?s ! j) < u" using Suc.prems(1) j by simp
    then have "holds v (gm_cells m ! (st_cells ?s ! j))" using lower_holds [OF v c(1)] c(2) by simp
    moreover have "lower r v m (r (st_out ?s ! j))" by (rule lower_mono [OF v]) (use lt in simp)
    ultimately show ?thesis using linked_bits [OF l r p jW] c(2) unfolding stage_bits_def holds_def by simp
  qed
  then have "uval (map v (take (Suc k) (st_out ?s))) = (uval (map v (take (Suc k) (st_in ?s))) + of_bool (product v (st_terms ?s))) mod 2 ^ Suc k"
    using k len by (subst inc_bits [of "map v (take (Suc k) (st_out ?s))" "map v (take (Suc k) (st_in ?s))"]) auto
  also have "\<dots> = (uval (map v (st_in (ss ! 0))) + counted v (take (Suc p) ss)) mod 2 ^ Suc k"
    using p by (simp add: ih counted_def take_Suc_conv_app_nth mod_add_left_eq add.assoc del: power_Suc)
  finally show ?case by (simp only: eq)
qed

text \<open>What the last stage's cells compute.\<close>

lemma linked_last:
  assumes l: "stages_linked m ss" and r: "acyclic m r" and k: "k < length (st_in (ss ! 0))" and v: "lower r v m (r (st_out (last ss) ! k))"
  shows "cell_fn (c_kind (gm_cells m ! (st_cells (last ss) ! k))) (map v (c_inputs (gm_cells m ! (st_cells (last ss) ! k))))
    = bit (uval (map v (st_in (ss ! 0))) + counted v ss) k"
proof -
  let ?s = "last ss" and ?p = "length ss - 1"
  have ne: "ss \<noteq> []" using l by (simp add: stages_linked_def)
  then have p: "?p < length ss" "ss ! ?p = ?s" by (simp_all add: last_conv_nth)
  have low: "r (st_out (ss ! q) ! j) < r (st_out ?s ! k)" if "q < ?p" "j \<le> k" for q j
    using linked_rank [OF l r k p(1) that] p(2) by simp
  have len: "length (st_in ?s) = length (st_in (ss ! 0))" using stages_linked_width [OF l p(1)] p(2) by simp
  have ss: "ss = take ?p ss @ [?s]" using ne by (metis append_butlast_last_id butlast_conv_take)
  let ?b = "map v (take (Suc k) (st_in ?s))"
  have low': "uval ?b = (uval (map v (st_in (ss ! 0))) + counted v (take ?p ss)) mod 2 ^ Suc k"
    using linked_low [OF l r k v low p(1)] p(2) by simp
  have "cell_fn (c_kind (gm_cells m ! (st_cells ?s ! k))) (map v (c_inputs (gm_cells m ! (st_cells ?s ! k))))
      = (v (st_in ?s ! k) \<noteq> (product v (st_terms ?s) \<and> (\<forall>j < k. v (st_in ?s ! j))))"
    using linked_bits [OF l r p(1) k] v p(2) unfolding stage_bits_def by simp
  also have "\<dots> = (?b ! k \<noteq> (product v (st_terms ?s) \<and> (\<forall>j < k. ?b ! j)))" using k len by simp
  also have "\<dots> = bit (uval ?b + of_bool (product v (st_terms ?s))) k" by (rule bit_inc) (use k len in simp)
  also have "\<dots> = bit ((uval ?b + of_bool (product v (st_terms ?s))) mod 2 ^ Suc k) k" by (rule bit_mod [symmetric])
  also have "\<dots> = bit (uval (map v (st_in (ss ! 0))) + counted v (take ?p ss) + of_bool (product v (st_terms ?s))) k"
    unfolding low' mod_add_left_eq by (rule bit_mod)
  also have "uval (map v (st_in (ss ! 0))) + counted v (take ?p ss) + of_bool (product v (st_terms ?s)) = uval (map v (st_in (ss ! 0))) + counted v ss"
    by (subst (2) ss) (simp add: counted_def)
  finally show ?thesis .
qed

subsection \<open>Aliased cells\<close>

text \<open>
  Cell \<open>i\<close> of \<open>m\<close>, in \<open>n\<close> a buffer of the net that carries its bit of seed plus popcount by the
  gates \<open>cs\<close>.
\<close>

definition bus_aliased :: "gate_module \<Rightarrow> gate_module \<Rightarrow> cell list \<Rightarrow> nat \<Rightarrow> bool" where
  "bus_aliased m n cs i \<longleftrightarrow> (\<exists>ss k x. stages_linked m ss \<and> k < length (st_in (ss ! 0)) \<and> i = st_cells (last ss) ! k
     \<and> gm_cells n ! i = \<lparr>c_kind = Buf, c_inputs = [x], c_output = c_output (gm_cells m ! i)\<rparr>
     \<and> (\<forall>v. all_hold v cs \<longrightarrow> \<not> v NET_CONST0 \<longrightarrow> v x = bit (uval (map v (st_in (ss ! 0))) + counted v ss) k)
     \<and> (\<forall>t u. tops t cs \<longrightarrow> t NET_CONST0 < u \<longrightarrow> (\<forall>s \<in> set ss. below t (set (map fst (st_terms s))) u)
          \<longrightarrow> (\<forall>j \<le> k. t (st_in (ss ! 0) ! j) < u) \<longrightarrow> t x < u))"

lemma aliased_mono: "bus_aliased m n cs i \<Longrightarrow> gm_cells n' ! i = gm_cells n ! i \<Longrightarrow> bus_aliased m n' (cs @ ds) i"
  unfolding bus_aliased_def by (elim exE conjE, rule exI, rule exI, rule exI, intro conjI, assumption, assumption, assumption, simp, simp, simp)

lemma linked_cell:
  assumes "stages_linked m ss" "k < length (st_in (ss ! 0))"
  shows "st_cells (last ss) ! k < length (gm_cells m)" "c_output (gm_cells m ! (st_cells (last ss) ! k)) = st_out (last ss) ! k"
    "length (st_cells (last ss)) = length (st_in (ss ! 0))"
proof -
  have p: "length ss - 1 < length ss" "ss ! (length ss - 1) = last ss" using assms(1) by (simp_all add: stages_linked_def last_conv_nth)
  have "stage_ok m (last ss)" "length (st_in (last ss)) = length (st_in (ss ! 0))"
    using stages_linked_nth [OF assms(1) p(1)] stages_linked_width [OF assms(1) p(1)] p(2) by simp_all
  then show "st_cells (last ss) ! k < length (gm_cells m)" "c_output (gm_cells m ! (st_cells (last ss) ! k)) = st_out (last ss) ! k"
    "length (st_cells (last ss)) = length (st_in (ss ! 0))" using assms(2) by (simp_all add: stage_ok_def)
qed

text \<open>An bus_aliased cell has its old meaning as soon as the cells below its output have theirs.\<close>

lemma aliased_value:
  assumes a: "bus_aliased m n cs i" and r: "acyclic m r" and v: "all_hold v cs" "\<not> v NET_CONST0" "lower r v m (r (c_output (gm_cells m ! i)))"
  shows "holds v (gm_cells n ! i) \<longleftrightarrow> holds v (gm_cells m ! i)"
proof -
  obtain ss k x where ss: "stages_linked m ss" "k < length (st_in (ss ! 0))" "i = st_cells (last ss) ! k"
    "gm_cells n ! i = \<lparr>c_kind = Buf, c_inputs = [x], c_output = c_output (gm_cells m ! i)\<rparr>"
    "v x = bit (uval (map v (st_in (ss ! 0))) + counted v ss) k"
    using a v(1,2) unfolding bus_aliased_def by blast
  have "cell_fn (c_kind (gm_cells m ! i)) (map v (c_inputs (gm_cells m ! i))) = v x"
    using linked_last [OF ss(1) r ss(2)] v(3) linked_cell(2) [OF ss(1,2)] ss(3,5) by simp
  then show ?thesis using ss(4) by (simp add: holds_def)
qed

lemma aliased_rank:
  assumes a: "bus_aliased m n cs i" and r: "acyclic m r" "r NET_CONST0 = 0" and t: "tops t cs" "\<And>a. a < length (gm_nets m) \<Longrightarrow> t a = r a"
    and x: "x \<in> set (c_inputs (gm_cells n ! i))"
  shows "t x < r (c_output (gm_cells m ! i))"
proof -
  let ?u = "r (c_output (gm_cells m ! i))"
  obtain ss k y where ss: "stages_linked m ss" "k < length (st_in (ss ! 0))" "i = st_cells (last ss) ! k"
    "gm_cells n ! i = \<lparr>c_kind = Buf, c_inputs = [y], c_output = c_output (gm_cells m ! i)\<rparr>"
    "t NET_CONST0 < ?u \<longrightarrow> (\<forall>s \<in> set ss. below t (set (map fst (st_terms s))) ?u) \<longrightarrow> (\<forall>j \<le> k. t (st_in (ss ! 0) ! j) < ?u) \<longrightarrow> t y < ?u"
    using a t(1) unfolding bus_aliased_def by blast
  have u: "?u = r (st_out (last ss) ! k)" using linked_cell(2) [OF ss(1,2)] ss(3) by simp
  have "below t (set (map fst (st_terms s))) ?u" if "s \<in> set ss" for s
    using linked_below(1) [OF ss(1) r(1) ss(2) that] ss(1) that t(2) unfolding u stages_linked_def stage_ok_def below_def by metis
  moreover have seed: "t (st_in (ss ! 0) ! j) < ?u" if "j \<le> k" for j
  proof -
    have "stage_ok m (ss ! 0)" using ss(1) by (simp add: stages_linked_def)
    then have "st_in (ss ! 0) ! j < length (gm_nets m)" using that ss(2) by (auto simp: stage_ok_def)
    then show ?thesis using linked_below(2) [OF ss(1) r(1) ss(2) that] t(2) u by simp
  qed
  moreover have "t NET_CONST0 < ?u"
  proof -
    have "NET_CONST0 < length (gm_nets m)" using r(1) by (auto simp: acyclic_def wf_module_def rails)
    then have "t NET_CONST0 = 0" using t(2) r(2) by simp
    then show ?thesis using seed [of k] by simp
  qed
  ultimately have "t y < ?u" using ss(5) by blast
  then show ?thesis using x ss(4) by simp
qed

text \<open>Any number of bus_aliased cells at once: the module means what it meant.\<close>

lemma aliases_rebuilt:
  assumes re: "relinked m m1 n cs R" and al: "\<And>i. i \<in> R \<Longrightarrow> bus_aliased m n cs i" and r: "acyclic m r"
  shows "rebuilt m n"
proof (rule relinked_rebuilt_consts [OF re])
  show wf: "wf_module m" using r by (simp add: acyclic_def)
  show "(\<forall>i \<in> R. holds v (gm_cells n ! i)) \<longleftrightarrow> (\<forall>i \<in> R. holds v (gm_cells m ! i))"
    if v: "consts_hold v m" "\<And>c. c \<in> set cs \<Longrightarrow> holds v c" "\<And>i. i < length (gm_cells m) \<Longrightarrow> i \<notin> R \<Longrightarrow> holds v (gm_cells m ! i)" for v
  proof
    have "NET_CONST0 < length (gm_nets m)" "driver (gm_nets m ! NET_CONST0) = DConst False" using wf by (auto simp: wf_module_def rails)
    then have z: "\<not> v NET_CONST0" using v(1) unfolding consts_hold_def by blast
    have R: "R \<subseteq> {..<length (gm_cells m)}" using re by (simp add: relinked_def)
    have one: "holds v (gm_cells n ! i) \<longleftrightarrow> holds v (gm_cells m ! i)" if "i \<in> R" "lower r v m (r (c_output (gm_cells m ! i)))" for i
      using aliased_value [OF al [OF that(1)] r _ z that(2)] v(2) by blast
    show "\<forall>i \<in> R. holds v (gm_cells n ! i)" if "\<forall>i \<in> R. holds v (gm_cells m ! i)"
    proof -
      have "lower r v m u" for u using that v(3) unfolding lower_def by blast
      then show ?thesis using one that by blast
    qed
    show "\<forall>i \<in> R. holds v (gm_cells m ! i)" if h: "\<forall>i \<in> R. holds v (gm_cells n ! i)"
    proof -
      have "holds v (gm_cells m ! i)" if "i < length (gm_cells m)" for i
        using that
      proof (induction "r (c_output (gm_cells m ! i))" arbitrary: i rule: less_induct)
        case less
        then have "lower r v m (r (c_output (gm_cells m ! i)))" by (simp add: lower_def)
        then show ?case using one [of i] h v(3) [of i] less.prems by blast
      qed
      then show ?thesis using R by blast
    qed
  qed
  show "t x < s (c_output (gm_cells m ! i))"
    if "ranked s m" "s NET_CONST0 = 0" "tops t cs" "\<And>a. a < length (gm_nets m) \<Longrightarrow> t a = s a" "i \<in> R"
      "driver (gm_nets m ! c_output (gm_cells m ! i)) = DCell i" "x \<in> set (c_inputs (gm_cells n ! i))" for s t i x
    by (rule aliased_rank [OF al [OF that(5)] _ that(2,3) that(4) that(7)]) (use r that(1) in \<open>simp add: acyclic_def\<close>)
qed

subsection \<open>One chain\<close>

lemma alias_totals:
  assumes re: "relinked m m1 n cs R" and tot: "length cells \<le> length tot" "in_nets n tot" and cells: "\<And>c. c \<in> set cells \<Longrightarrow> c < length (gm_cells m)"
  shows "\<exists>n'. fold_opt (alias_total tot) (enumerate 0 cells) n = Some n' \<and> relinked m m1 n' cs (R \<union> set cells)
    \<and> (\<forall>i. i \<notin> set cells \<longrightarrow> gm_cells n' ! i = gm_cells n ! i)
    \<and> (\<forall>i \<in> set cells. \<exists>k < length cells. cells ! k = i \<and> gm_cells n' ! i = \<lparr>c_kind = Buf, c_inputs = [tot ! k], c_output = c_output (gm_cells m ! i)\<rparr>)"
proof -
  let ?P = "\<lambda>j n'. relinked m m1 n' cs (R \<union> set (take j cells)) \<and> gm_nets n' = gm_nets n
    \<and> (\<forall>i. i \<notin> set (take j cells) \<longrightarrow> gm_cells n' ! i = gm_cells n ! i)
    \<and> (\<forall>i \<in> set (take j cells). \<exists>k < length cells. cells ! k = i \<and> gm_cells n' ! i = \<lparr>c_kind = Buf, c_inputs = [tot ! k], c_output = c_output (gm_cells m ! i)\<rparr>)"
  have "\<exists>n''. alias_total tot (j, cells ! j) n' = Some n'' \<and> ?P (Suc j) n''" if j: "j < length cells" and P: "?P j n'" for j n'
  proof -
    let ?c = "cells ! j"
    let ?n = "n'\<lparr>gm_cells := (gm_cells n')[?c := (gm_cells n' ! ?c)\<lparr>c_kind := Buf, c_inputs := [tot ! j]\<rparr>]\<rparr>"
    have c: "?c < length (gm_cells m)" using cells j by simp
    have re': "relinked m m1 n' cs (R \<union> set (take j cells))" using P by blast
    have cn: "?c < length (gm_cells n')" using c relinked_cells(1) [OF re'] by simp
    have "tot ! j < length (gm_nets n')" using tot j P by simp
    then have "relinked m m1 ?n cs (insert ?c (R \<union> set (take j cells)))" by (intro relinked_update [OF re' c]) auto
    moreover have "insert ?c (R \<union> set (take j cells)) = R \<union> set (take (Suc j) cells)" using j by (auto simp: take_Suc_conv_app_nth)
    moreover have "gm_cells ?n ! i = gm_cells n ! i" if "i \<notin> set (take (Suc j) cells)" for i
      using P that j by (simp add: take_Suc_conv_app_nth)
    moreover have "\<exists>k < length cells. cells ! k = i \<and> gm_cells ?n ! i = \<lparr>c_kind = Buf, c_inputs = [tot ! k], c_output = c_output (gm_cells m ! i)\<rparr>"
      if "i \<in> set (take (Suc j) cells)" for i
    proof (cases "i = ?c")
      case True
      have "c_output (gm_cells n' ! ?c) = c_output (gm_cells m ! ?c)" by (rule relinked_cells(4) [OF re' c])
      then show ?thesis using True j cn by (intro exI [of _ j]) simp
    next
      case False
      then have "i \<in> set (take j cells)" using that j by (simp add: take_Suc_conv_app_nth)
      then obtain k where "k < length cells" "cells ! k = i" "gm_cells n' ! i = \<lparr>c_kind = Buf, c_inputs = [tot ! k], c_output = c_output (gm_cells m ! i)\<rparr>"
        using P by blast
      then show ?thesis using False by (intro exI [of _ k]) simp
    qed
    moreover have "alias_total tot (j, ?c) n' = Some ?n" using cn j tot(1) by (simp add: alias_total_def cell_at_def)
    ultimately show ?thesis using P by simp
  qed
  then have "\<exists>n'. fold_opt (alias_total tot) (enumerate 0 cells) n = Some n' \<and> ?P (length cells) n'"
    by (rule fold_opt_enumerate) (use re in simp_all)
  then show ?thesis by (metis take_all order.refl)
qed

definition counted_module :: "gate_module \<Rightarrow> gate_module \<Rightarrow> bool" where
  "counted_module m n \<longleftrightarrow> (\<exists>m1 cs R. relinked m m1 n cs R \<and> (\<forall>i \<in> R. bus_aliased m n cs i))"

lemma counted_module_refl: "wf_module m \<Longrightarrow> counted_module m m"
  unfolding counted_module_def using gated_refl [of m]
  by (intro exI [of _ m] exI [of _ "[]"] exI [of _ "{}"]) (simp add: relinked_def same_pins_def)

lemma totals_aliased:
  assumes ss: "stages_linked m (map ((!) stages) chain)" and k: "k < length (st_in (stages ! (chain ! 0)))" and i: "i = st_cells (stages ! last chain) ! k"
    and cell: "gm_cells n ! i = \<lparr>c_kind = Buf, c_inputs = [tot ! k], c_output = c_output (gm_cells m ! i)\<rparr>"
    and val: "\<And>v. all_hold v ds \<Longrightarrow> \<not> v NET_CONST0 \<Longrightarrow> uval (map v tot) =
      (uval (map v (st_in (stages ! (chain ! 0)))) + sum_list (map (\<lambda>i. of_bool (product v (st_terms (stages ! i)))) chain)) mod 2 ^ length (st_in (stages ! (chain ! 0)))"
    and len: "length tot = length (st_in (stages ! (chain ! 0)))"
    and top: "\<And>t u. tops t ds \<Longrightarrow> t NET_CONST0 < u \<Longrightarrow> (\<And>i. i \<in> set chain \<Longrightarrow> below t (set (map fst (st_terms (stages ! i)))) u)
      \<Longrightarrow> (\<And>j. j \<le> k \<Longrightarrow> t (st_in (stages ! (chain ! 0)) ! j) < u) \<Longrightarrow> t (tot ! k) < u"
  shows "bus_aliased m n (cs @ ds) i"
proof -
  let ?ss = "map ((!) stages) chain"
  have ne: "chain \<noteq> []" using ss by (simp add: stages_linked_def)
  then have hd: "?ss ! 0 = stages ! (chain ! 0)" "last ?ss = stages ! last chain" by (simp_all add: last_map)
  have "v (tot ! k) = bit (uval (map v (st_in (?ss ! 0))) + counted v ?ss) k" if "all_hold v (cs @ ds)" "\<not> v NET_CONST0" for v
  proof -
    let ?X = "uval (map v (st_in (?ss ! 0))) + counted v ?ss"
    have "uval (map v tot) = ?X mod 2 ^ length tot" using val [of v] that hd(1) len by (simp add: counted_def comp_def)
    then have "bit (uval (map v tot)) k = (k < length tot \<and> bit ?X k)" by (simp add: bit_take_bit_iff flip: take_bit_eq_mod)
    then show ?thesis using k len by (simp add: bit_uval)
  qed
  moreover have "t (tot ! k) < u" if "tops t (cs @ ds)" "t NET_CONST0 < u" "\<forall>s \<in> set ?ss. below t (set (map fst (st_terms s))) u"
      "\<forall>j \<le> k. t (st_in (?ss ! 0) ! j) < u" for t u
    using top [of t u] that hd(1) by simp
  ultimately show ?thesis unfolding bus_aliased_def
    using ss k i cell hd by (intro exI [of _ ?ss] exI [of _ k] exI [of _ "tot ! k"]) simp
qed

lemma rebuild_count_spec:
  assumes n: "counted_module m n" and range: "\<And>i. i \<in> set chain \<Longrightarrow> i < length stages" and ss: "stages_linked m (map ((!) stages) chain)"
  shows "\<exists>n'. rebuild_count stages chain n = Some n' \<and> counted_module m n'"
proof -
  obtain m1 cs R where re: "relinked m m1 n cs R" and al: "\<And>i. i \<in> R \<Longrightarrow> bus_aliased m n cs i" using n unfolding counted_module_def by blast
  have wf: "wf_module n" and N: "length (gm_nets m) \<le> length (gm_nets n)" and R: "R \<subseteq> {..<length (gm_cells m)}"
    using re gated_nets(1) [of m m1 cs] by (simp_all add: relinked_def)
  have ne: "chain \<noteq> []" and ok: "\<And>i. i \<in> set chain \<Longrightarrow> stage_ok m (stages ! i)" using ss by (simp_all add: stages_linked_def)
  have rng: "i < length stages \<and> st_terms (stages ! i) \<noteq> [] \<and> in_nets n (map fst (st_terms (stages ! i)))" if "i \<in> set chain" for i
    using ok [OF that] range [OF that] N unfolding stage_ok_def by (meson less_le_trans)
  let ?seed = "st_in (stages ! (chain ! 0))" and ?cells = "st_cells (stages ! last chain)"
  have seed: "in_nets n ?seed" using ok [of "chain ! 0"] ne N unfolding stage_ok_def by (meson less_le_trans nth_mem length_greater_0_conv)
  from totals_spec [where stages = stages and chain = chain and seed = ?seed, OF wf rng seed]
  obtain ns n1 out n2 tot n3 ds where run: "chain_conds stages chain n = Some (ns, n1)"
      "popcount ns n1 = (out, n2)" "add_mod ?seed out (length ?seed) n2 = (tot, n3)"
    and t: "gated n n3 ds" "length tot = length ?seed" "in_nets n3 tot"
      "\<forall>v. all_hold v ds \<longrightarrow> \<not> v NET_CONST0 \<longrightarrow> uval (map v tot) = (uval (map v ?seed) + sum_list (map (\<lambda>i. of_bool (product v (st_terms (stages ! i)))) chain)) mod 2 ^ length ?seed"
      "\<forall>t u k. tops t ds \<longrightarrow> t NET_CONST0 < u \<longrightarrow> (\<forall>i \<in> set chain. below t (set (map fst (st_terms (stages ! i)))) u)
         \<longrightarrow> k < length ?seed \<longrightarrow> (\<forall>j \<le> k. t (?seed ! j) < u) \<longrightarrow> t (tot ! k) < u" by - (drule meta_mp, assumption, elim exE conjE, rule that, assumption+)
  obtain m1' where re': "relinked m m1' n3 (cs @ ds) R" using relinked_grow [OF re t(1)] by blast
  have hd: "map ((!) stages) chain ! 0 = stages ! (chain ! 0)" "last (map ((!) stages) chain) = stages ! last chain" using ne by (simp_all add: last_map)
  have len: "length ?cells = length ?seed"
  proof -
    have "stage_ok m (stages ! (chain ! 0))" using ok ne by simp
    then have "2 \<le> length ?seed" unfolding stage_ok_def by blast
    then have "0 < length (st_in (map ((!) stages) chain ! 0))" unfolding hd by linarith
    from linked_cell(3) [OF ss this] show ?thesis unfolding hd .
  qed
  have cm: "c < length (gm_cells m)" if c: "c \<in> set ?cells" for c
  proof -
    obtain k where "k < length ?seed" "?cells ! k = c" using c len by (auto simp: in_set_conv_nth)
    then show ?thesis using linked_cell(1) [OF ss, of k] hd by simp
  qed
  have le: "length ?cells \<le> length tot" using len t(2) by simp
  obtain n' where n': "fold_opt (alias_total tot) (enumerate 0 ?cells) n3 = Some n'" "relinked m m1' n' (cs @ ds) (R \<union> set ?cells)"
    "\<forall>i. i \<notin> set ?cells \<longrightarrow> gm_cells n' ! i = gm_cells n3 ! i"
    "\<forall>i \<in> set ?cells. \<exists>k < length ?cells. ?cells ! k = i \<and> gm_cells n' ! i = \<lparr>c_kind = Buf, c_inputs = [tot ! k], c_output = c_output (gm_cells m ! i)\<rparr>"
    using alias_totals [OF re' le t(3) cm] by blast
  have "bus_aliased m n' (cs @ ds) i" if i: "i \<in> R \<union> set ?cells" for i
  proof (cases "i \<in> set ?cells")
    case True
    then obtain k where k: "k < length ?cells" "?cells ! k = i" "gm_cells n' ! i = \<lparr>c_kind = Buf, c_inputs = [tot ! k], c_output = c_output (gm_cells m ! i)\<rparr>"
      using n'(4) by blast
    show ?thesis
      by (rule totals_aliased [where k = k and i = i, OF ss _ k(2) [symmetric] k(3)]) (use k(1) len t(2,4,5) in simp_all)
  next
    case False
    then have "i \<in> R" using i by blast
    moreover have "gm_cells n' ! i = gm_cells n ! i"
      using n'(3) False t(1) R \<open>i \<in> R\<close> relinked_cells(1) [OF re] by (auto simp: gated_def nth_append)
    ultimately show ?thesis using aliased_mono [OF al] by blast
  qed
  then have "counted_module m n'" using n'(2) unfolding counted_module_def by blast
  moreover have "rebuild_count stages chain n = Some n'"
    using run n'(1) ne range by (simp add: rebuild_count_def)
  ultimately show ?thesis by blast
qed

subsection \<open>Links and chains\<close>

lemma link_stage_spec:
  assumes "link_stage i a bs cand = Some j"
  shows "cand = Some j \<or> (\<exists>b. (j, b) \<in> set bs \<and> st_out a = st_in b)"
  using assms by (induction i a bs cand rule: link_stage.induct) (auto split: if_splits)

lemma stage_links_spec:
  "length (stage_links stages) = length stages"
  "i < length stages \<Longrightarrow> stage_links stages ! i = Some j \<Longrightarrow> j < length stages \<and> st_out (stages ! i) = st_in (stages ! j)"
proof -
  show "length (stage_links stages) = length stages" by (simp add: stage_links_def)
  show "j < length stages \<and> st_out (stages ! i) = st_in (stages ! j)" if "i < length stages" "stage_links stages ! i = Some j"
    using link_stage_spec [of i "stages ! i" "enumerate 0 stages" None j] that
    by (auto simp: stage_links_def nth_enumerate_eq in_set_enumerate_eq)
qed

lemma linked_snoc:
  assumes "stages_linked m ss" "stage_ok m s" "st_out (last ss) = st_in s"
  shows "stages_linked m (ss @ [s])"
proof -
  have "st_out ((ss @ [s]) ! p) = st_in ((ss @ [s]) ! Suc p)" if "Suc p < length (ss @ [s])" for p
  proof (cases "Suc p < length ss")
    case True
    then show ?thesis using assms(1) by (simp add: stages_linked_def nth_append)
  next
    case False
    then have "p = length ss - 1" "Suc p = length ss" using that by simp_all
    then show ?thesis using assms(1,3) by (simp add: stages_linked_def nth_append last_conv_nth)
  qed
  then show ?thesis using assms(1,2) by (auto simp: stages_linked_def)
qed

lemma chain_ahead_spec:
  assumes r: "acyclic m r" and ok: "\<And>s. s \<in> set stages \<Longrightarrow> stage_ok m s"
    and "cur < length stages" "chain \<noteq> []" "last chain = cur" "\<And>i. i \<in> set chain \<Longrightarrow> i < length stages" "stages_linked m (map ((!) stages) chain)"
  shows "\<exists>ch. chain_ahead (stage_links stages) cur chain = Some ch \<and> (\<forall>i \<in> set ch. i < length stages) \<and> stages_linked m (map ((!) stages) ch)"
  using assms(3-)
proof (induction "Max (r ` {..<length (gm_nets m)}) - r (st_out (stages ! cur) ! 0)" arbitrary: cur chain rule: less_induct)
  case less
  let ?succ = "stage_links stages" and ?M = "Max (r ` {..<length (gm_nets m)})"
  have at: "nth_opt ?succ cur = Some (?succ ! cur)" using less.prems(1) stage_links_spec(1) [of stages] by simp
  show ?case
  proof (cases "?succ ! cur")
    case None
    then show ?thesis using at less.prems(4,5) by (simp add: chain_ahead.simps [of ?succ cur chain])
  next
    case (Some j)
    have j: "j < length stages" "st_out (stages ! cur) = st_in (stages ! j)" using stage_links_spec(2) [OF less.prems(1) Some] by simp_all
    have sj: "stage_ok m (stages ! j)" using ok j(1) by simp
    have pos: "0 < length (st_in (stages ! j))" using sj by (auto simp: stage_ok_def)
    then have b: "stage_bits m (stages ! j) r 0" "st_cells (stages ! j) ! 0 < length (gm_cells m)"
        "c_output (gm_cells m ! (st_cells (stages ! j) ! 0)) = st_out (stages ! j) ! 0" using sj r unfolding stage_ok_def by simp_all
    then have up: "r (st_out (stages ! cur) ! 0) < r (st_out (stages ! j) ! 0)" using j(2) by (simp add: stage_bits_def)
    have "st_out (stages ! j) ! 0 < length (gm_nets m)"
      using r nth_mem [OF b(2)] b(3) by (auto simp: acyclic_def wf_module_def module_cell_wf_def)
    then have "r (st_out (stages ! j) ! 0) \<le> ?M" by (intro Max_ge) auto
    then have dec: "?M - r (st_out (stages ! j) ! 0) < ?M - r (st_out (stages ! cur) ! 0)" using up by linarith
    have "stages_linked m (map ((!) stages) chain @ [stages ! j])"
      by (rule linked_snoc [OF less.prems(5) sj]) (use less.prems(2,3) j(2) in \<open>simp add: last_map\<close>)
    then have "stages_linked m (map ((!) stages) (chain @ [j]))" by simp
    from less.hyps [OF dec j(1) _ _ _ this] obtain ch where "chain_ahead ?succ j (chain @ [j]) = Some ch"
      "\<forall>i \<in> set ch. i < length stages" "stages_linked m (map ((!) stages) ch)" using less.prems(4) j(1) by auto
    moreover have "chain_ahead ?succ cur chain = chain_ahead ?succ j (chain @ [j])" using at Some by (simp add: chain_ahead.simps [of ?succ cur chain])
    ultimately show ?thesis by (intro exI [of _ ch]) simp
  qed
qed

subsection \<open>The pass\<close>

lemma rebuild_head_spec:
  assumes r: "acyclic m r" and ok: "\<And>s. s \<in> set stages \<Longrightarrow> stage_ok m s" and h: "fst hl < length stages" and n: "counted_module m n"
  shows "\<exists>n' ch'. rebuild_head stages (stage_links stages) hl (n, ch) = Some (n', ch') \<and> counted_module m n' \<and> (\<not> ch' \<longrightarrow> \<not> ch \<and> n' = n)"
proof (cases "snd hl")
  case False
  have "stages_linked m (map ((!) stages) [fst hl])" using ok h by (simp add: stages_linked_def)
  then obtain chain where chain: "chain_ahead (stage_links stages) (fst hl) [fst hl] = Some chain" "\<forall>i \<in> set chain. i < length stages"
    "stages_linked m (map ((!) stages) chain)" using chain_ahead_spec [OF r ok h, of "[fst hl]"] h by auto
  show ?thesis
  proof (cases "length chain < MIN_STAGES")
    case False
    obtain n' where "rebuild_count stages chain n = Some n'" "counted_module m n'" using rebuild_count_spec [OF n _ chain(3)] chain(2) by blast
    then show ?thesis using chain(1) False \<open>\<not> snd hl\<close> by (auto simp: rebuild_head_def)
  qed (use chain(1) False n in \<open>simp add: rebuild_head_def\<close>)
qed (use n in \<open>simp add: rebuild_head_def\<close>)

lemma mark_linked_length: "length (mark_linked ps) = length ps"
proof -
  have "length (fold (\<lambda>p stages_linked. case p of Some i \<Rightarrow> stages_linked[i := True] | None \<Rightarrow> stages_linked) qs ls) = length ls" for qs ls
    by (induction qs arbitrary: ls) (simp_all split: option.split)
  then show ?thesis by (simp add: mark_linked_def)
qed

lemma count_rebuilds:
  assumes "wf_module m" "ranked r m" "single_driver m"
  shows "\<exists>m' ch. count_scan_rebuild m = Some (m', ch) \<and> wf_module m' \<and> rebuilt m m' \<and> (\<not> ch \<longrightarrow> m' = m)"
proof -
  have r: "acyclic m r" using assms by (simp add: acyclic_def)
  obtain stages where st: "collect_stages m = Some stages" "\<And>s. s \<in> set stages \<Longrightarrow> stage_ok m s" using collect_stages_spec [OF r] by blast
  let ?P = "\<lambda>s. counted_module m (fst s) \<and> (\<not> snd s \<longrightarrow> fst s = m)"
  have "\<exists>s'. rebuild_head stages (stage_links stages) hl s = Some s' \<and> ?P s'"
    if "hl \<in> set (enumerate 0 (mark_linked (stage_links stages)))" "?P s" for hl s
  proof -
    have hl: "fst hl < length stages" using that(1) by (auto simp: in_set_enumerate_eq mark_linked_length stage_links_spec(1))
    have c: "counted_module m (fst s)" using that(2) by (rule conjunct1)
    have "\<exists>n' ch'. rebuild_head stages (stage_links stages) hl (fst s, snd s) = Some (n', ch') \<and> counted_module m n' \<and> (\<not> ch' \<longrightarrow> \<not> snd s \<and> n' = fst s)"
      by (rule rebuild_head_spec [OF r _ hl c]) (rule st(2))
    then obtain n' ch' where "rebuild_head stages (stage_links stages) hl (fst s, snd s) = Some (n', ch')" "counted_module m n'"
      "\<not> ch' \<longrightarrow> \<not> snd s \<and> n' = fst s" by (elim exE conjE)
    then show ?thesis using that(2) by (intro exI [of _ "(n', ch')"]) simp
  qed
  then have "\<exists>s'. fold_opt (rebuild_head stages (stage_links stages)) (enumerate 0 (mark_linked (stage_links stages))) (m, False) = Some s' \<and> ?P s'"
    by (rule fold_opt_invariant) (simp_all add: counted_module_refl assms(1))
  then obtain s' where s': "fold_opt (rebuild_head stages (stage_links stages)) (enumerate 0 (mark_linked (stage_links stages))) (m, False) = Some s'"
    "?P s'" by blast
  have "\<exists>s'. count_scan_rebuild m = Some s' \<and> ?P s'"
  proof (cases "stages = []")
    case True
    then have "count_scan_rebuild m = Some (m, False)" using st(1) by (simp add: count_scan_rebuild_def)
    then show ?thesis using counted_module_refl [OF assms(1)] by simp
  next
    case False
    then have "count_scan_rebuild m = Some s'" using st(1) s'(1) by (simp add: count_scan_rebuild_def Let_def)
    then show ?thesis using s'(2) by blast
  qed
  then obtain m' ch where run: "count_scan_rebuild m = Some (m', ch)" and m': "counted_module m m'" "\<not> ch \<longrightarrow> m' = m" by auto
  obtain m1 cs R where re: "relinked m m1 m' cs R" "\<And>i. i \<in> R \<Longrightarrow> bus_aliased m m' cs i" using m'(1) unfolding counted_module_def by blast
  have "rebuilt m m'" by (rule aliases_rebuilt [OF re r])
  moreover have "wf_module m'" using re(1) by (simp add: relinked_def)
  ultimately show ?thesis using run m'(2) by blast
qed

interpretation counters: depth_pass count_scan_rebuild
  by unfold_locales (use count_rebuilds in blast)

text \<open>
  C32: on a well-formed acyclic netlist with one driver per net the counter rebuild ends without
  a panic.  The result is well formed and keeps the name, the ports, the flip-flops, the
  memories and every net of the old module, adds nets behind them, and constrains the old nets
  exactly as before: every assignment of the old module extends to one of the new, and every
  assignment of the new one is one of the old.  It has no combinational cycle and one driver
  per net.  When the pass reports no change it returns its argument.
\<close>
theorem count_scan_rebuild_correct:
  assumes "wf_module m" "ranked r m" "single_driver m"
  shows "\<exists>m' ch ns. count_scan_rebuild m = Some (m', ch) \<and> wf_module m' \<and> (\<not> ch \<longrightarrow> m' = m)
    \<and> same_pins m m' \<and> gm_nets m' = gm_nets m @ ns
    \<and> (\<forall>v. msat v m \<longrightarrow> (\<exists>w. msat w m' \<and> (\<forall>n < length (gm_nets m). w n = v n)))
    \<and> (\<forall>w. msat w m' \<longrightarrow> msat w m) \<and> (\<exists>r'. ranked r' m') \<and> single_driver m'"
  using count_rebuilds [OF assms] assms unfolding rebuilt_def by blast

subsection \<open>A counter of eight stages\<close>

text \<open>The conditions on a concrete module, by evaluation.\<close>

definition cell_input_check :: "gate_module \<Rightarrow> (cell \<Rightarrow> net_id \<Rightarrow> bool) \<Rightarrow> net_id \<Rightarrow> bool" where
  "cell_input_check m P n = (case driver (gm_nets m ! n) of DCell i \<Rightarrow> P (gm_cells m ! i) n | _ \<Rightarrow> True)"

definition wf_check :: "gate_module \<Rightarrow> bool" where
  "wf_check m \<longleftrightarrow> RESERVED_NETS \<le> length (gm_nets m) \<and> driver (gm_nets m ! NET_CONST0) = DConst False \<and> driver (gm_nets m ! NET_CONST1) = DConst True
     \<and> list_all (module_cell_wf (length (gm_nets m))) (gm_cells m)
     \<and> list_all (\<lambda>n. case driver (gm_nets m ! n) of DCell i \<Rightarrow> i < length (gm_cells m) \<and> c_output (gm_cells m ! i) = n | _ \<Rightarrow> True) [0..<length (gm_nets m)]
     \<and> list_all (\<lambda>n. n < length (gm_nets m)) (sinks m)"

lemma wf_check: "wf_check m \<Longrightarrow> wf_module m"
  by (auto simp: wf_check_def wf_module_def list_all_iff split: net_driver.splits)

lemma ranked_check:
  "list_all (cell_input_check m (\<lambda>c n. list_all (\<lambda>x. x < n) (c_inputs c))) [0..<length (gm_nets m)] \<Longrightarrow> ranked id m"
  by (auto simp: ranked_def cell_input_check_def list_all_iff split: net_driver.splits)

lemma single_driver_check:
  "list_all (\<lambda>i. driver (gm_nets m ! c_output (gm_cells m ! i)) = DCell i) [0..<length (gm_cells m)] \<Longrightarrow> single_driver m"
  by (auto simp: single_driver_def list_all_iff)

definition counter_stage :: "nat \<Rightarrow> cell list" where
  "counter_stage i =
     (let k = 12 + 4 * i; b0 = (if i = 0 then 10 else k - 2); b1 = (if i = 0 then 11 else k - 1)
      in [\<lparr>c_kind = Not1, c_inputs = [b0], c_output = k\<rparr>,
          \<lparr>c_kind = Xor2, c_inputs = [b1, b0], c_output = k + 1\<rparr>,
          \<lparr>c_kind = Mux2, c_inputs = [2 + i, b0, k], c_output = k + 2\<rparr>,
          \<lparr>c_kind = Mux2, c_inputs = [2 + i, b1, k + 1], c_output = k + 3\<rparr>])"

definition serial_counter :: gate_module where
  "serial_counter = \<lparr>gm_name = None,
     gm_ports = [\<lparr>gp_name = 0, gp_path = [], gp_dir = Output, gp_nets = [42, 43]\<rparr>],
     gm_nets = map (\<lambda>d. \<lparr>driver = d, origin = None\<rparr>)
       ([DConst False, DConst True] @ replicate 10 PortInput @ map DCell [0..<32]),
     gm_cells = concat (map counter_stage [0..<8]),
     gm_ffs = [], gm_ram_blocks = []\<rparr>"

lemma serial_counter_wf: "wf_module serial_counter"
  by (rule wf_check) code_simp

lemma serial_counter_ranked: "ranked id serial_counter"
  by (rule ranked_check) code_simp

lemma serial_counter_single: "single_driver serial_counter"
  by (rule single_driver_check) code_simp

definition counter_bus :: "nat \<Rightarrow> net_id list" where
  "counter_bus i = (if i = 0 then [10, 11] else [10 + 4 * i, 11 + 4 * i])"

definition serial_stages :: "stage list" where
  "serial_stages = map (\<lambda>i. \<lparr>st_terms = [(2 + i, False)], st_out = counter_bus (Suc i), st_in = counter_bus i,
     st_cells = [2 + 4 * i, 3 + 4 * i]\<rparr>) [0..<8]"

lemma serial_counter_stages: "collect_stages serial_counter = Some serial_stages"
  by code_simp

lemma serial_counter_links: "stage_links serial_stages = map Some [1..<8] @ [None]"
  by code_simp

lemma serial_counter_heads: "enumerate 0 (mark_linked (map Some [1..<8] @ [None])) =
    [(0, False), (1, True), (2, True), (3, True), (4, True), (5, True), (6, True), (7, True)]"
  by code_simp

lemma serial_counter_chain: "chain_ahead (map Some [1..<8] @ [None]) 0 [0] = Some [0..<8]"
  by code_simp

lemma serial_counter_changed: "\<exists>m'. count_scan_rebuild serial_counter = Some (m', True)"
proof -
  have r: "acyclic serial_counter id" using serial_counter_wf serial_counter_ranked serial_counter_single by (simp add: acyclic_def)
  have ok: "stage_ok serial_counter s" if "s \<in> set serial_stages" for s
    using collect_stages_spec [OF r] serial_counter_stages that by auto
  have len: "length serial_stages = 8" by (simp add: serial_stages_def)
  have "stages_linked serial_counter (map ((!) serial_stages) [0])" using ok len by (simp add: stages_linked_def)
  then have chain: "stages_linked serial_counter (map ((!) serial_stages) [0..<8])"
    using chain_ahead_spec [where stages = serial_stages and cur = 0 and chain = "[0]", OF r ok] len serial_counter_links serial_counter_chain by auto
  obtain m' where m': "rebuild_count serial_stages [0..<8] serial_counter = Some m'"
    using rebuild_count_spec [OF counted_module_refl [OF serial_counter_wf] _ chain] len by auto
  have "rebuild_head serial_stages (map Some [1..<8] @ [None]) (0, False) (serial_counter, False) = Some (m', True)"
    using m' serial_counter_chain by (simp add: rebuild_head_def MIN_STAGES_def del: upt_rec_numeral)
  moreover have "rebuild_head serial_stages ls (j, True) (n, ch) = Some (n, ch)" for ls j n ch by (simp add: rebuild_head_def)
  moreover have ne: "serial_stages \<noteq> []" using len by auto
  have "count_scan_rebuild serial_counter = fold_opt (rebuild_head serial_stages (map Some [1..<8] @ [None]))
      [(0, False), (1, True), (2, True), (3, True), (4, True), (5, True), (6, True), (7, True)] (serial_counter, False)"
    by (simp only: count_scan_rebuild_def serial_counter_stages Option.bind.simps if_not_P [OF ne] Let_def serial_counter_links serial_counter_heads)
  ultimately have "count_scan_rebuild serial_counter = Some (m', True)" by (simp del: upt_rec_numeral)
  then show ?thesis by blast
qed

theorem count_scan_rebuild_correct_witness:
  "\<exists>m' ns. count_scan_rebuild serial_counter = Some (m', True) \<and> wf_module m' \<and> same_pins serial_counter m' \<and> gm_nets m' = gm_nets serial_counter @ ns"
  using count_scan_rebuild_correct [OF serial_counter_wf serial_counter_ranked serial_counter_single] serial_counter_changed by fastforce

end
