(* ===== verification/Restructure.thy ===== *)
theory Restructure
  imports Worklist_Result Balance_Chains Counter_Pass
begin

section \<open>The restructuring pipeline (\<open>conv.rs\<close>)\<close>

text \<open>
  Of \<open>ConvContext::finalize\<close> the first simplification, and the attempt to shorten the
  longest paths on a copy of the module; \<open>Finalize\<close> has the rest.  Every depth pass is an instance of \<open>depth_pass\<close>, so the
  pipeline needs of them no more than that contract.
\<close>

definition MAX_RESTRUCTURE_CELLS :: nat where "MAX_RESTRUCTURE_CELLS = 64 * 1024"

definition settle :: "gate_module \<Rightarrow> gate_module option" where
  "settle m = do { m \<leftarrow> converge_simplify m; dead_cell_elimination m }"

text \<open>The flag \<open>skip\<close> is whether \<open>VERYL_SYNTH_NO_RESTRUCTURE\<close> is set.\<close>

definition restructure :: "bool \<Rightarrow> gate_module \<Rightarrow> gate_module option option" where
  "restructure skip gate =
     (if \<not> skip \<and> length (gm_cells gate) \<le> MAX_RESTRUCTURE_CELLS then do {
        (b, absorbed) \<leftarrow> absorb_complement gate;
        b \<leftarrow> (if absorbed then settle b else Some b);
        (b, balanced) \<leftarrow> balance_assoc_chains b;
        b \<leftarrow> (if balanced then dead_cell_elimination b else Some b);
        (b, prefixed) \<leftarrow> prefix_parallelize b;
        (b, counted) \<leftarrow> count_scan_rebuild b;
        if absorbed \<or> balanced \<or> prefixed \<or> counted
        then do { b \<leftarrow> settle b; Some (Some b) }
        else Some None
      } else Some None)"

subsection \<open>What a pass carries over\<close>

text \<open>
  \<open>carries ks m m'\<close>: \<open>m'\<close> has the registers of \<open>m\<close> that \<open>ks\<close> marks, with their Q nets, edges and
  resets.  As long as the others hold their reset values, every assignment of \<open>m\<close> gives one of
  \<open>m'\<close> with the same value at every source of \<open>m\<close> and at every pin, and the D inputs of the
  others are their reset values, so that they go on holding them.
\<close>

definition pins_agree :: "bool list \<Rightarrow> gate_module \<Rightarrow> (net_id \<Rightarrow> bool) \<Rightarrow> gate_module \<Rightarrow> (net_id \<Rightarrow> bool) \<Rightarrow> bool" where
  "pins_agree ks m v m' w \<longleftrightarrow>
     map (\<lambda>f. map w (ff_nets f)) (gm_ffs m') = map (\<lambda>f. map v (ff_nets f)) (kept ks (gm_ffs m)) \<and>
     map (\<lambda>p. map w (gp_nets p)) (gm_ports m') = map (\<lambda>p. map v (gp_nets p)) (gm_ports m) \<and>
     map w (ram_inputs m') = map v (ram_inputs m)"

definition holding :: "bool list \<Rightarrow> gate_module \<Rightarrow> (net_id \<Rightarrow> bool) \<Rightarrow> bool" where
  "holding ks m v \<longleftrightarrow> (\<forall>f \<in> set (dropped ks (gm_ffs m)). v (ff_q f) = ff_reset_value f)"

definition carries :: "bool list \<Rightarrow> gate_module \<Rightarrow> gate_module \<Rightarrow> bool" where
  "carries ks m m' \<longleftrightarrow> length ks = length (gm_ffs m) \<and> (\<forall>n. source m n \<longrightarrow> source m' n) \<and>
     map ff_static (gm_ffs m') = map ff_static (kept ks (gm_ffs m)) \<and>
     (\<forall>f \<in> set (dropped ks (gm_ffs m)). ff_reset f \<noteq> None) \<and>
     (\<forall>v. msat v m \<longrightarrow> holding ks m v \<longrightarrow>
        (\<exists>w. msat w m' \<and> (\<forall>n. source m n \<longrightarrow> w n = v n) \<and> pins_agree ks m v m' w) \<and>
        (\<forall>f \<in> set (dropped ks (gm_ffs m)). v (ff_d f) = ff_reset_value f))"

text \<open>A register's Q net is no cell's output.\<close>

definition regs_free :: "gate_module \<Rightarrow> bool" where
  "regs_free m \<longleftrightarrow> (\<forall>f \<in> set (gm_ffs m). source m (ff_q f))"

lemma static_q: "ff_static f = ff_static g \<Longrightarrow> ff_q f = ff_q g \<and> ff_reset_value f = ff_reset_value g \<and> (ff_reset f = None \<longleftrightarrow> ff_reset g = None)"
  by (auto simp: ff_static_def map_option_case split: option.splits)

lemma kept_subset: "x \<in> set (kept ks xs) \<Longrightarrow> x \<in> set xs"
  by (auto simp: kept_def dest: set_zip_leftD)

lemma regs_free_carries:
  assumes "carries ks m m'" "regs_free m"
  shows "regs_free m'"
  unfolding regs_free_def
proof
  fix f assume f: "f \<in> set (gm_ffs m')"
  have "map ff_static (gm_ffs m') = map ff_static (kept ks (gm_ffs m))" using assms(1) by (simp add: carries_def)
  from in_map_eq [OF this f] obtain g where g: "g \<in> set (kept ks (gm_ffs m))" "ff_static f = ff_static g" by blast
  have "g \<in> set (gm_ffs m)" "ff_q f = ff_q g" using kept_subset [OF g(1)] static_q [OF g(2)] by simp_all
  then have "source m (ff_q f)" using assms(2) by (simp add: regs_free_def)
  then show "source m' (ff_q f)" using assms(1) by (simp add: carries_def)
qed

lemma holding_narrow:
  assumes "length ks = length (gm_ffs a)" "length bs = length (gm_ffs b)" "map ff_static (gm_ffs b) = map ff_static (kept ks (gm_ffs a))"
    and v: "holding (narrow ks bs) a v" and w: "\<And>n. source a n \<Longrightarrow> w n = v n" and free: "regs_free a"
  shows "holding ks a v \<and> holding bs b w"
proof -
  let ?x = "gm_ffs a" and ?y = "kept ks (gm_ffs a)"
  have len: "length bs = length ?y" using assms(2,3) by (metis length_map)
  have n: "kept (narrow ks bs) ?x = kept bs ?y" "set (dropped (narrow ks bs) ?x) = set (dropped ks ?x) \<union> set (dropped bs ?y)"
    using narrow_ok [OF assms(1) len] by simp_all
  have "w (ff_q g) = ff_reset_value g" if g: "g \<in> set (dropped bs (gm_ffs b))" for g
  proof -
    have "map ff_static (dropped bs (gm_ffs b)) = map ff_static (dropped bs ?y)" by (rule map_eq_kept [OF assms(3)])
    from in_map_eq [OF this g] obtain f where f: "f \<in> set (dropped bs ?y)" "ff_static g = ff_static f" by blast
    have "f \<in> set (dropped (narrow ks bs) ?x)" "f \<in> set ?x" using n(2) f(1) kept_subset [OF kept_subset [OF f(1)]] by simp_all
    then have "v (ff_q f) = ff_reset_value f" "w (ff_q f) = v (ff_q f)"
      using v w free by (simp_all add: holding_def regs_free_def)
    then show ?thesis using static_q [OF f(2)] by simp
  qed
  then show ?thesis using v n(2) by (simp add: holding_def)
qed

lemma pins_agree_trans:
  assumes "map ff_static (gm_ffs b) = map ff_static (kept ks (gm_ffs a))" "length ks = length (gm_ffs a)" "length bs = length (gm_ffs b)"
    and 1: "pins_agree ks a v b u" and 2: "pins_agree bs b u c w"
  shows "pins_agree (narrow ks bs) a v c w"
proof -
  have "length bs = length (kept ks (gm_ffs a))" using assms(1,3) by (metis length_map)
  then have n: "kept (narrow ks bs) (gm_ffs a) = kept bs (kept ks (gm_ffs a))" using narrow_ok [OF assms(2)] by blast
  have ff: "map (\<lambda>f. map u (ff_nets f)) (gm_ffs b) = map (\<lambda>f. map v (ff_nets f)) (kept ks (gm_ffs a))" using 1 by (simp add: pins_agree_def)
  have "map (\<lambda>f. map w (ff_nets f)) (gm_ffs c) = map (\<lambda>f. map u (ff_nets f)) (kept bs (gm_ffs b))" using 2 by (simp add: pins_agree_def)
  also have "\<dots> = kept bs (map (\<lambda>f. map u (ff_nets f)) (gm_ffs b))" by (simp add: kept_map)
  also have "\<dots> = map (\<lambda>f. map v (ff_nets f)) (kept (narrow ks bs) (gm_ffs a))" unfolding ff by (simp add: kept_map n)
  finally show ?thesis using 1 2 by (simp add: pins_agree_def)
qed

text \<open>The D inputs of the registers the second pass drops, seen from the first module.\<close>

lemma dropped_inputs:
  assumes st: "map ff_static (gm_ffs b) = map ff_static (kept ks (gm_ffs a))" and pins: "pins_agree ks a v b u"
    and d: "\<forall>g \<in> set (dropped bs (gm_ffs b)). u (ff_d g) = ff_reset_value g" and f: "f \<in> set (dropped bs (kept ks (gm_ffs a)))"
  shows "v (ff_d f) = ff_reset_value f"
proof -
  let ?y = "kept ks (gm_ffs a)"
  have nets: "map (\<lambda>f. map u (ff_nets f)) (gm_ffs b) = map (\<lambda>f. map v (ff_nets f)) ?y" using pins by (simp add: pins_agree_def)
  have "map (\<lambda>f. (ff_static f, map u (ff_nets f))) (gm_ffs b) = map (\<lambda>f. (ff_static f, map v (ff_nets f))) ?y"
    using map_eq_imp_length_eq [OF st] st nets by (intro nth_equalityI) (auto simp: list_eq_iff_nth_eq)
  from arg_cong [OF this, of "kept (map HOL.Not bs)"]
  have "map (\<lambda>f. (ff_static f, map u (ff_nets f))) (dropped bs (gm_ffs b)) = map (\<lambda>f. (ff_static f, map v (ff_nets f))) (dropped bs ?y)"
    by (simp only: kept_map)
  moreover have "(ff_static f, map v (ff_nets f)) \<in> set (map (\<lambda>f. (ff_static f, map v (ff_nets f))) (dropped bs ?y))" using f unfolding set_map by (rule imageI)
  ultimately have "(ff_static f, map v (ff_nets f)) \<in> set (map (\<lambda>f. (ff_static f, map u (ff_nets f))) (dropped bs (gm_ffs b)))" by metis
  then obtain g where g: "g \<in> set (dropped bs (gm_ffs b))" "ff_static f = ff_static g" "map v (ff_nets f) = map u (ff_nets g)"
    unfolding set_map by blast
  then show ?thesis using d static_q [OF g(2)] by (simp add: ff_nets_def)
qed

lemma carries_trans:
  assumes 1: "carries ks a b" and 2: "carries bs b c" and free: "regs_free a"
  shows "carries (narrow ks bs) a c"
proof -
  let ?x = "gm_ffs a" and ?y = "kept ks (gm_ffs a)"
  have lk: "length ks = length ?x" and st: "map ff_static (gm_ffs b) = map ff_static ?y" using 1 by (simp_all add: carries_def)
  have lb: "length bs = length (gm_ffs b)" using 2 by (simp add: carries_def)
  have "length bs = length ?y" using st lb by (metis length_map)
  then have n: "length (narrow ks bs) = length ?x" "kept (narrow ks bs) ?x = kept bs ?y"
    "set (dropped (narrow ks bs) ?x) = set (dropped ks ?x) \<union> set (dropped bs ?y)" using narrow_ok [OF lk, of bs] by simp_all
  have "map ff_static (gm_ffs c) = map ff_static (kept (narrow ks bs) ?x)"
    using 2 map_eq_kept [OF st, of bs] n(2) by (simp add: carries_def)
  moreover have "ff_reset f \<noteq> None" if f: "f \<in> set (dropped (narrow ks bs) ?x)" for f
  proof (cases "f \<in> set (dropped ks ?x)")
    case False
    with f n(3) have "f \<in> set (dropped bs ?y)" by blast
    from in_map_eq [OF map_eq_kept [OF st [symmetric]] this]
    obtain g where g: "g \<in> set (dropped bs (gm_ffs b))" "ff_static f = ff_static g" by blast
    have "ff_reset g \<noteq> None" using 2 g(1) by (simp add: carries_def)
    then show ?thesis using static_q [OF g(2)] by simp
  qed (use 1 in \<open>simp add: carries_def\<close>)
  moreover have "(\<exists>w. msat w c \<and> (\<forall>n. source a n \<longrightarrow> w n = v n) \<and> pins_agree (narrow ks bs) a v c w) \<and>
      (\<forall>f \<in> set (dropped (narrow ks bs) ?x). v (ff_d f) = ff_reset_value f)"
    if v: "msat v a" "holding (narrow ks bs) a v" for v
  proof -
    have "holding ks a v" using v(2) n(3) by (simp add: holding_def)
    then obtain u where u: "msat u b" "\<And>n. source a n \<Longrightarrow> u n = v n" "pins_agree ks a v b u"
      and d1: "\<forall>f \<in> set (dropped ks ?x). v (ff_d f) = ff_reset_value f"
      using 1 v(1) unfolding carries_def by blast
    have "holding bs b u" using holding_narrow [OF lk lb st v(2) u(2) free] by blast
    then obtain w where w: "msat w c" "\<And>n. source b n \<Longrightarrow> w n = u n" "pins_agree bs b u c w"
      and d2: "\<forall>f \<in> set (dropped bs (gm_ffs b)). u (ff_d f) = ff_reset_value f"
      using 2 u(1) unfolding carries_def by blast
    have "v (ff_d f) = ff_reset_value f" if "f \<in> set (dropped (narrow ks bs) ?x)" for f
      using that d1 dropped_inputs [OF st u(3) d2] unfolding n(3) by blast
    moreover have "w n = v n" if "source a n" for n using that u(2) w(2) 1 by (simp add: carries_def)
    ultimately show ?thesis using w(1) pins_agree_trans [OF st lk lb u(3) w(3)] by blast
  qed
  moreover have "\<forall>n. source a n \<longrightarrow> source c n" using 1 2 by (simp add: carries_def)
  ultimately show ?thesis using n(1) by (simp add: carries_def)
qed

lemma carries_shrinks:
  assumes "shrinks ks m m'" "same_sources m m'"
  shows "carries ks m m'"
proof -
  have "(\<exists>w. msat w m' \<and> (\<forall>n. source m n \<longrightarrow> w n = v n) \<and> pins_agree ks m v m' w) \<and>
      (\<forall>f \<in> set (dropped ks (gm_ffs m)). v (ff_d f) = ff_reset_value f)" if "msat v m" "holding ks m v" for v
    using assms(1) that unfolding shrinks_def pins_agree_def holding_def by blast
  then show ?thesis using assms by (simp add: carries_def shrinks_def same_sources_def)
qed

lemma carries_same:
  assumes pins: "gm_ffs m' = gm_ffs m" "gm_ports m' = gm_ports m" "gm_ram_blocks m' = gm_ram_blocks m"
    and src: "\<And>n. source m n \<Longrightarrow> source m' n"
    and sat: "\<And>v. msat v m \<Longrightarrow> \<exists>w. msat w m' \<and> (\<forall>n. source m n \<longrightarrow> w n = v n) \<and> (\<forall>n \<in> set (sinks m). w n = v n)"
  shows "carries (replicate (length (gm_ffs m)) True) m m'"
proof -
  have agree: "pins_agree (replicate (length (gm_ffs m)) True) m v m' w" if "\<forall>n \<in> set (sinks m). w n = v n" for v w
    using that by (auto simp: pins_agree_def pins ram_inputs_def kept_all sinks_def)
  have "\<exists>w. msat w m' \<and> (\<forall>n. source m n \<longrightarrow> w n = v n) \<and> pins_agree (replicate (length (gm_ffs m)) True) m v m' w" if "msat v m" for v
    using sat [OF that] agree by blast
  then show ?thesis using pins src by (simp add: carries_def kept_all)
qed

subsection \<open>Steps of the pipeline\<close>

definition ready :: "gate_module \<Rightarrow> bool" where
  "ready m \<longleftrightarrow> closed_module m \<and> regs_free m"

definition refines :: "gate_module \<Rightarrow> gate_module \<Rightarrow> bool" where
  "refines m m' \<longleftrightarrow> ready m' \<and> (\<exists>ks. carries ks m m')"

lemma ready_parts:
  assumes "ready m"
  obtains r where "wf_module m" "single_driver m" "ff_drivers_ok m" "ranked r m"
  using assms by (auto simp: ready_def closed_module_def)

lemma refines_trans: "ready a \<Longrightarrow> refines a b \<Longrightarrow> refines b c \<Longrightarrow> refines a c"
  unfolding refines_def using carries_trans by (metis ready_def)

lemma refines_carried: "regs_free m \<Longrightarrow> carries ks m m' \<Longrightarrow> closed_module m' \<Longrightarrow> refines m m'"
  using regs_free_carries by (auto simp: refines_def ready_def)

lemma refines_refl: "ready m \<Longrightarrow> refines m m"
  using carries_same [of m m] refines_carried [of m _ m] by (auto simp: ready_def)

lemma rebuilt_sources: "rebuilt m m' \<Longrightarrow> source m n \<Longrightarrow> source m' n"
  by (auto simp: rebuilt_def source_def nth_append)

lemma rebuilt_ff_drivers:
  assumes "rebuilt m m'" "ff_drivers_ok m"
  shows "ff_drivers_ok m'"
proof -
  obtain ns where ns: "gm_nets m' = gm_nets m @ ns" "\<forall>n \<in> set ns. \<exists>i. driver n = DCell i" and "same_pins m m'"
    using assms(1) unfolding rebuilt_def by blast
  have "gm_ffs m' = gm_ffs m" using \<open>same_pins m m'\<close> by (simp add: same_pins_def)
  moreover have "n < length (gm_nets m)" if "n < length (gm_nets m')" "driver (gm_nets m' ! n) = FfQ i" for n i
  proof (rule ccontr)
    assume "\<not> n < length (gm_nets m)"
    then have "ns ! (n - length (gm_nets m)) \<in> set ns" "driver (ns ! (n - length (gm_nets m))) = FfQ i"
      using that ns(1) by (simp_all add: nth_append)
    then show False using ns(2) by auto
  qed
  ultimately show ?thesis using assms(2) ns(1) unfolding ff_drivers_ok_def by (metis nth_append)
qed

lemma rebuilt_refines:
  assumes "ready m" "wf_module m'" "rebuilt m m'"
  shows "refines m m'"
proof (rule refines_carried)
  show "regs_free m" using assms(1) by (simp add: ready_def)
  obtain r where m: "wf_module m" "single_driver m" "ff_drivers_ok m" "ranked r m" by (rule ready_parts [OF assms(1)])
  have pins: "same_pins m m'" using assms(3) by (simp add: rebuilt_def)
  have inside: "n < length (gm_nets m)" if "source m n \<or> n \<in> set (sinks m)" for n
    using that m(1) by (auto simp: source_def wf_module_def)
  show "carries (replicate (length (gm_ffs m)) True) m m'"
  proof (rule carries_same)
    show "\<exists>w. msat w m' \<and> (\<forall>n. source m n \<longrightarrow> w n = v n) \<and> (\<forall>n \<in> set (sinks m). w n = v n)" if "msat v m" for v
      using assms(3) that inside unfolding rebuilt_def by blast
  qed (use pins rebuilt_sources [OF assms(3)] in \<open>simp_all add: same_pins_def\<close>)
  show "closed_module m'"
    using assms(2,3) m rebuilt_ff_drivers [OF assms(3)] unfolding closed_module_def rebuilt_def by blast
qed

context depth_pass
begin

lemma refined:
  assumes "ready m"
  shows "\<exists>m' ch. pass m = Some (m', ch) \<and> refines m m'"
proof -
  obtain r where "wf_module m" "single_driver m" "ranked r m" using ready_parts [OF assms] by blast
  then show ?thesis using rebuilds rebuilt_refines [OF assms] by blast
qed

end

lemma dce_single_driver:
  assumes wf: "wf_module m" and s: "single_driver m" and e: "dead_cell_elimination m = Some m'"
  shows "single_driver m'"
  unfolding single_driver_def
proof (intro allI impI)
  note k = dce_keeps [OF wf e]
  fix j assume j: "j < length (gm_cells m')"
  let ?i = "live_cells m ! j" and ?n = "c_output (gm_cells m' ! j)"
  have len: "length (gm_cells m') = length (live_cells m)" using k(1) by simp
  have i: "?i < length (gm_cells m)" "live_cell m ?i" "gm_cells m' ! j = gm_cells m ! ?i"
    using nth_mem [of j "live_cells m"] j len k(1) by (auto simp: live_cells_def)
  have n: "?n < length (gm_nets m)" using wf nth_mem [OF i(1)] i(3) by (auto simp: wf_module_def module_cell_wf_def)
  have d: "driver (gm_nets m ! ?n) = DCell ?i" using s i by (simp add: single_driver_def)
  obtain l where l: "l < length (gm_cells m')" "driver (gm_nets m' ! ?n) = DCell l" "gm_cells m' ! l = gm_cells m ! ?i"
    using dce_drivers(3) [OF wf e n d i(2)] by blast
  have li: "live_cells m ! l < length (gm_cells m)" using nth_mem [of l "live_cells m"] l(1) len by (auto simp: live_cells_def)
  have "gm_cells m ! (live_cells m ! l) = gm_cells m ! ?i" using l(1,3) len k(1) by simp
  then have "live_cells m ! l = ?i" using s li i(1) unfolding single_driver_def by (metis net_driver.inject)
  moreover have "distinct (live_cells m)" by (simp add: live_cells_def)
  ultimately have "l = j" using l(1) j len by (simp add: nth_eq_iff_index_eq)
  then show "driver (gm_nets m' ! ?n) = DCell j" using l(2) by simp
qed

lemma dce_refines:
  assumes "ready m"
  shows "\<exists>m'. dead_cell_elimination m = Some m' \<and> refines m m'"
proof -
  obtain r where m: "wf_module m" "single_driver m" "ff_drivers_ok m" "ranked r m" by (rule ready_parts [OF assms])
  obtain m' where e: "dead_cell_elimination m = Some m'" using dead_cell_elimination_result [OF m(1)] by blast
  note k = dce_keeps [OF m(1) e] and dr = dce_drivers [OF m(1) e]
  have src: "source m' n" if "source m n" for n using that dr(2) [of n] k(6) by (simp add: source_def)
  have car: "carries (replicate (length (gm_ffs m)) True) m m'"
  proof (rule carries_same [OF k(2-4)])
    show "\<exists>w. msat w m' \<and> (\<forall>n. source m n \<longrightarrow> w n = v n) \<and> (\<forall>n \<in> set (sinks m). w n = v n)" if "msat v m" for v
      using dce_msat [OF m(1) e that] by (intro exI [of _ v]) simp
  qed (rule src)
  have ffd: "ff_drivers_ok m'"
    unfolding ff_drivers_ok_def k(2,6)
  proof (intro allI impI)
    fix n i assume n: "n < length (gm_nets m)" "driver (gm_nets m' ! n) = FfQ i"
    have "\<nexists>j. driver (gm_nets m ! n) = DCell j"
    proof
      assume "\<exists>j. driver (gm_nets m ! n) = DCell j"
      then obtain j where "driver (gm_nets m ! n) = DCell j" ..
      with dr(3,4) [OF n(1) this] n(2) show False by (cases "live_cell m j") auto
    qed
    then have "driver (gm_nets m ! n) = FfQ i" using dr(2) [OF n(1)] n(2) by simp
    then show "i < length (gm_ffs m) \<and> ff_q (gm_ffs m ! i) = n" using m(3) n(1) by (simp add: ff_drivers_ok_def)
  qed
  have "ranked r m'"
    unfolding ranked_def k(6)
  proof (intro allI impI)
    fix n i assume n: "n < length (gm_nets m)" "driver (gm_nets m' ! n) = DCell i"
    obtain j where j: "driver (gm_nets m ! n) = DCell j" using dr(2) [OF n(1)] n(2) by metis
    then have "live_cell m j" using dr(4) [OF n(1)] n(2) by fastforce
    with dr(3) [OF n(1) j] n(2) have "gm_cells m' ! i = gm_cells m ! j" by auto
    then show "\<forall>x \<in> set (c_inputs (gm_cells m' ! i)). r x < r n" using m(4) n(1) j by (simp add: ranked_def)
  qed
  then have "closed_module m'"
    using dce_wf [OF m(1) e] dce_single_driver [OF m(1,2) e] ffd unfolding closed_module_def by blast
  then show ?thesis using e refines_carried [OF _ car] assms by (auto simp: ready_def)
qed

lemma settle_refines:
  assumes "ready m"
  shows "\<exists>m'. settle m = Some m' \<and> refines m m'"
proof -
  have cl: "closed_module m" "regs_free m" using assms by (simp_all add: ready_def)
  obtain m1 ks where 1: "converge_simplify m = Some m1" "closed_module m1" "shrinks ks m m1" "same_sources m m1"
    using converge_simplify_result [OF cl(1)] by blast
  have r1: "refines m m1" by (rule refines_carried [OF cl(2) carries_shrinks [OF 1(3,4)] 1(2)])
  then have "ready m1" by (simp add: refines_def)
  from dce_refines [OF this] obtain m2 where "dead_cell_elimination m1 = Some m2" "refines m1 m2" by blast
  then show ?thesis using 1(1) refines_trans [OF assms r1] by (simp add: settle_def)
qed

subsection \<open>The pipeline\<close>

interpretation scans: two_passes prefix_parallelize count_scan_rebuild ..

lemma when_refines:
  assumes "ready a" "refines a m" "ready m \<Longrightarrow> \<exists>m'. f m = Some m' \<and> refines m m'"
  shows "\<exists>m'. (if c then f m else Some m) = Some m' \<and> refines a m'"
proof -
  have "ready m" using assms(2) by (simp add: refines_def)
  then show ?thesis using assms(3) refines_trans [OF assms(1,2)] assms(2) by auto
qed

lemma restructure_refines:
  assumes "ready m"
  shows "\<exists>res. restructure skip m = Some res \<and> (\<forall>b. res = Some b \<longrightarrow> refines m b)"
proof (cases "\<not> skip \<and> length (gm_cells m) \<le> MAX_RESTRUCTURE_CELLS")
  case True
  obtain b1 c1 where 1: "absorb_complement m = Some (b1, c1)" "refines m b1" using absorb.refined [OF assms] by blast
  obtain b2 where 2: "(if c1 then settle b1 else Some b1) = Some b2" "refines m b2"
    using when_refines [where f = settle and c = c1, OF assms 1(2) settle_refines] by blast
  then have "ready b2" by (simp add: refines_def)
  then obtain b3 c3 where 3: "balance_assoc_chains b2 = Some (b3, c3)" "refines b2 b3" using balance.refined by blast
  have r3: "refines m b3" by (rule refines_trans [OF assms 2(2) 3(2)])
  obtain b4 where 4: "(if c3 then dead_cell_elimination b3 else Some b3) = Some b4" "refines m b4"
    using when_refines [where f = dead_cell_elimination and c = c3, OF assms r3 dce_refines] by blast
  then have "ready b4" by (simp add: refines_def)
  then obtain b6 c where tp: "then_pass prefix_parallelize count_scan_rebuild b4 = Some (b6, c)" and r6: "refines b4 b6"
    using scans.both.refined by blast
  obtain b5 c5 where 5: "prefix_parallelize b4 = Some (b5, c5)"
    using tp by (cases "prefix_parallelize b4") (auto simp: then_pass_def)
  obtain c6 where 6: "count_scan_rebuild b5 = Some (b6, c6)"
    using tp 5 by (cases "count_scan_rebuild b5") (auto simp: then_pass_def)
  have r: "refines m b6" by (rule refines_trans [OF assms 4(2) r6])
  then have "ready b6" by (simp add: refines_def)
  then obtain b7 where 7: "settle b6 = Some b7" "refines b6 b7" using settle_refines by blast
  have "refines m b7" by (rule refines_trans [OF assms r 7(2)])
  moreover have "restructure skip m = (if c1 \<or> c3 \<or> c5 \<or> c6 then Some (Some b7) else Some None)"
    by (simp add: restructure_def True [simplified] 1(1) 2(1) 3(1) 4(1) 5 6 7(1))
  ultimately show ?thesis by auto
qed (auto simp: restructure_def)

end
