(* ===== verification/Postpass_Factor.thy ===== *)
theory Postpass_Factor
  imports Postpass_Fuse Restructure
begin

section \<open>Common factors\<close>

text \<open>
  Two phases take a common operand out of two gates: under a multiplexer, over a new
  multiplexer of the other operands; and under a gate of the dual kind, where one of the two
  gates is kept for the other operands, so that its net changes its value.
\<close>

subsection \<open>The common operand\<close>

lemma find_common_spec:
  assumes "find_common_input a0 a1 b0 b1 = Some (c, l, r)"
  shows "([a0, a1] = [c, l] \<or> [a0, a1] = [l, c]) \<and> ([b0, b1] = [c, r] \<or> [b0, b1] = [r, c])"
  using assms by (auto simp: find_common_input_def split: if_splits)

lemma common_of_spec:
  assumes "length (c_inputs a) = 2" "length (c_inputs b) = 2"
  shows "\<exists>h. common_of a b = Some h \<and> (\<forall>c l r. h = Some (c, l, r) \<longrightarrow>
    (c_inputs a = [c, l] \<or> c_inputs a = [l, c]) \<and> (c_inputs b = [c, r] \<or> c_inputs b = [r, c]))"
proof -
  obtain a0 a1 b0 b1 where ins: "c_inputs a = [a0, a1]" "c_inputs b = [b0, b1]" using assms by (auto simp: length_2_conv)
  have "common_of a b = Some (find_common_input a0 a1 b0 b1)" by (simp add: common_of_def ins)
  then show ?thesis using find_common_spec [of a0 a1 b0 b1] ins by auto
qed

text \<open>What the drivers of a cell's inputs read is read, and is none of the inputs read once.\<close>

lemma driver_reads:
  assumes "wf_module m" "single_driver m" "ranked r m" "i < length (gm_cells m)" "y \<in> set (c_inputs (gm_cells m ! i))" "drives m y k js"
    and "x \<in> set js"
  shows "x \<in># reads_of m" "x < length (gm_nets m)" "r x < r y" "r x < r (c_output (gm_cells m ! i))"
    "up \<in> set (c_inputs (gm_cells m ! i)) \<Longrightarrow> count (reads_of m) up = 1 \<Longrightarrow> x \<noteq> up"
proof -
  show "x \<in># reads_of m" "x < length (gm_nets m)" "r x < r y"
    using read_driver [OF assms(6,7)] drives_inputs(2) [OF assms(1,6,7)] drives_lower [OF assms(3,6,7)] by simp_all
  then show "r x < r (c_output (gm_cells m ! i))" using cell_lower [OF assms(1-5)] by linarith
  show "x \<noteq> up" if up: "up \<in> set (c_inputs (gm_cells m ! i))" "count (reads_of m) up = 1"
  proof -
    obtain j where j: "j < length (gm_cells m)" "j \<noteq> i" "gm_cells m ! j = \<lparr>c_kind = k, c_inputs = js, c_output = y\<rparr>"
      using driver_other_cell(2) [OF assms(1-6)] by blast
    show ?thesis using read_once(3) [OF up(2) assms(4) up(1) j(1,2)] j(3) assms(7) by auto
  qed
qed

subsection \<open>Under a multiplexer\<close>

definition factor_inv :: "postpass_ctx \<Rightarrow> bool" where
  "factor_inv st \<longleftrightarrow> tidy st \<and> nots_ok st"

lemma mux_factor:
  assumes "k \<in> {And2, Or2, Xor2}" "js = [c, l] \<or> js = [l, c]" "ks = [c, r] \<or> ks = [r, c]" "v d0 = cell_fn k (map v js)" "v d1 = cell_fn k (map v ks)"
    "v n = cell_fn Mux2 (map v [s, l, r])"
  shows "cell_fn k (map v [c, n]) = cell_fn Mux2 (map v [s, d0, d1])"
  using assms by (auto simp: numeral_2_eq_2)

lemma factor_hit:
  assumes st: "factor_inv st" and i: "i < length (gm_cells (pp_module st))"
    and c: "gm_cells (pp_module st) ! i = \<lparr>c_kind = Mux2, c_inputs = [s, d0, d1], c_output = a\<rparr>"
    and one: "count (reads_of (pp_module st)) d0 = 1" "count (reads_of (pp_module st)) d1 = 1"
    and dr: "drives (pp_module st) d0 k js" "drives (pp_module st) d1 k ks" and k: "k \<in> {And2, Or2, Xor2}"
    and com: "js = [com, l] \<or> js = [l, com]" "ks = [com, r] \<or> ks = [r, com]"
  shows "\<exists>net st1 st'. emit_cell Mux2 [s, l, r] st = Some (net, st1) \<and> rewrite_cell i k [com, net] st1 = Some st' \<and> factor_inv st'
    \<and> rebuilt (pp_module st) (pp_module st') \<and> length (gm_cells (pp_module st)) \<le> length (gm_cells (pp_module st'))
    \<and> nets_read (pp_module st') < nets_read (pp_module st)"
proof -
  let ?m = "pp_module st"
  have t: "tidy st" "nots_ok st" using st by (simp_all add: factor_inv_def)
  obtain rk where m: "wf_module ?m" "single_driver ?m" "ranked rk ?m" using t(1) by (auto simp: tidy_def)
  have ins: "c_inputs (gm_cells ?m ! i) = [s, d0, d1]" by (simp add: c)
  have read: "x \<in># reads_of ?m \<and> x < length (gm_nets ?m) \<and> x \<notin> {d0, d1}" if "x \<in> {com, l, r}" for x
  proof -
    have "x \<in> set js \<or> x \<in> set ks" using that com by auto
    then show ?thesis
      using driver_reads [OF m i, of d0 k js x] driver_reads [OF m i, of d1 k ks x] ins dr one by auto
  qed
  have s: "s < length (gm_nets ?m)" "s \<in># reads_of ?m" using wf_module_inputs [OF m(1) i] read_cell [OF i, of s] ins by simp_all
  have "count_list [s, d0, d1] d0 = 1" "count_list [s, d0, d1] d1 = 1" using read_once(1) [OF one(1) i] read_once(1) [OF one(2) i] ins by simp_all
  then have ne: "s \<notin> {d0, d1}" "d0 \<noteq> d1" by (auto split: if_splits)
  have inside: "x < length (gm_nets ?m)" if "x \<in> set [s, l, r]" for x using that read s by auto
  obtain net st1 where 1: "emit_cell Mux2 [s, l, r] st = Some (net, st1)" "grew {Mux2} (mset [s, l, r]) st st1" "drives (pp_module st1) net Mux2 [s, l, r]"
    "net = length (gm_nets ?m)" "pp_not st1 = pp_not st" using emit_cell_spec [OF t(1) _ inside, of Mux2 "[s, l, r]"] by auto
  let ?m1 = "pp_module st1"
  obtain cs where g: "gated ?m ?m1 cs" using 1(2) unfolding grew_def by blast
  have t1: "tidy st1" and reb: "rebuilt ?m ?m1" and rd: "reads_of ?m1 = reads_of ?m + mset [s, l, r]" using 1(2) by (simp_all add: grew_def)
  obtain r1 where m1: "wf_module ?m1" "single_driver ?m1" "ranked r1 ?m1" using t1 by (auto simp: tidy_def)
  have i1: "i < length (gm_cells ?m1)" and c1: "gm_cells ?m1 ! i = \<lparr>c_kind = Mux2, c_inputs = [s, d0, d1], c_output = a\<rparr>"
    using g i c by (simp_all add: gated_def nth_append)
  have ins1: "c_inputs (gm_cells ?m1 ! i) = [s, d0, d1]" "c_output (gm_cells ?m1 ! i) = a" by (simp_all add: c1)
  note dr1 = grew_drives [OF 1(2) dr(1)] grew_drives [OF 1(2) dr(2)]
  have low: "r1 x < r1 a" if "x \<in> {s, com, l, r}" for x
  proof -
    have "x = s \<or> x \<in> set js \<or> x \<in> set ks" using that com by auto
    then show ?thesis
      using cell_lower [OF m1 i1, of s] driver_reads(4) [OF m1 i1 _ dr1(1), of x] driver_reads(4) [OF m1 i1 _ dr1(2), of x] ins1 by auto
  qed
  have "a < length (gm_nets ?m)" using output_driven [OF m(1,2) i] c by (simp add: drives_def)
  then have na: "net \<noteq> a" using 1(4) by simp
  have clear: "(c_output (gm_cells ?m1 ! i), x) \<notin> (dep ?m1)\<^sup>*" if "x \<in> set [com, net]" for x
  proof (cases "x = net")
    case True
    show ?thesis unfolding True ins1 by (rule gate_clear [OF 1(3) na]) (use lower_clear [OF m1(3)] low in auto)
  qed (use that low lower_clear [OF m1(3)] ins1 in auto)
  have same: "cell_fn k (map v [com, net]) = cell_fn (c_kind (gm_cells ?m1 ! i)) (map v (c_inputs (gm_cells ?m1 ! i)))"
    if h: "\<And>j. j < length (gm_cells ?m1) \<Longrightarrow> j \<noteq> i \<Longrightarrow> holds v (gm_cells ?m1 ! j)" for v
  proof -
    have ds: "d0 \<noteq> c_output (gm_cells ?m1 ! i)" "d1 \<noteq> c_output (gm_cells ?m1 ! i)" "net \<noteq> c_output (gm_cells ?m1 ! i)"
      using driver_other_cell(1) [OF m1 i1 _ dr1(1)] driver_other_cell(1) [OF m1 i1 _ dr1(2)] ins1 na by simp_all
    show ?thesis
      using mux_factor [OF k com drives_other [OF dr1(1) ds(1) h] drives_other [OF dr1(2) ds(2) h] drives_other [OF 1(3) ds(3) h]] c1 by simp
  qed
  have inside1: "x < length (gm_nets ?m1)" if "x \<in> set [com, net]" for x
    using that read [of com] order.strict_trans2 [OF _ gated_nets(1) [OF g], of com] 1(3) by (auto simp: drives_def)
  have ar: "length [com, net] = arity k" using k by auto
  obtain st' where st': "rewrite_cell i k [com, net] st1 = Some st'" "tidy st'" "rebuilt ?m1 (pp_module st')" "pp_module st' = upd ?m1 i k [com, net]"
    "pp_not st' = pp_not st1" using rewrite_spec [OF t1 i1 ar inside1 same clear] by blast
  have "nots_ok st1" using t(2) grew_drives [OF 1(2)] 1(5) by (simp add: nots_ok_def)
  then have "nots_ok st'" by (rule nots_ok_upd [OF _ i1 _ st'(4,5)]) (simp add: c1)
  moreover have "nets_read (pp_module st') < nets_read ?m"
  proof -
    let ?R = "set_mset (reads_of ?m)"
    have sub: "mset [s, d0, d1] \<subseteq># reads_of ?m" using reads_of_upd(1) [OF i] ins by simp
    have gone: "d \<notin># reads_of ?m - mset [s, d0, d1]" if "d \<in> {d0, d1}" for d
      using that read_once_gone [OF one(1) i] read_once_gone [OF one(2) i] ins by auto
    have "set_mset (reads_of (pp_module st')) \<subseteq> insert net (?R - {d0, d1})"
    proof
      fix x assume "x \<in># reads_of (pp_module st')"
      then have "x \<in> set [com, net] \<or> x \<in># reads_of ?m1 - mset [s, d0, d1]" using reads_upd_in [OF i1] ins1(1) unfolding st'(4) by metis
      moreover have "reads_of ?m1 - mset [s, d0, d1] = reads_of ?m - mset [s, d0, d1] + mset [s, l, r]"
        unfolding rd by (rule subset_mset.diff_add_assoc2 [OF sub])
      ultimately have "x \<in> {com, net, s, l, r} \<or> x \<in># reads_of ?m - mset [s, d0, d1]" by auto
      then show "x \<in> insert net (?R - {d0, d1})"
        using read [of x] s(2) ne(1) gone [of x] by (auto dest: in_diffD)
    qed
    then have "nets_read (pp_module st') \<le> card (insert net (?R - {d0, d1}))" unfolding nets_read_def by (rule card_mono [rotated]) simp
    also have "\<dots> \<le> Suc (card (?R - {d0, d1}))" by (rule card_insert_le_m1) simp_all
    also have "card (?R - {d0, d1}) = card ?R - card {d0, d1}"
      by (rule card_Diff_subset) (use read_cell [OF i, of d0] read_cell [OF i, of d1] ins in auto)
    finally have "nets_read (pp_module st') \<le> Suc (card ?R - 2)" using ne(2) by simp
    moreover have "2 \<le> card ?R"
      using card_mono [of ?R "{d0, d1}"] read_cell [OF i, of d0] read_cell [OF i, of d1] ins ne(2) by auto
    ultimately show ?thesis unfolding nets_read_def by linarith
  qed
  moreover have "rebuilt ?m (pp_module st')" by (rule rebuilt_trans [OF reb st'(3)])
  moreover have "length (gm_cells ?m) \<le> length (gm_cells (pp_module st'))" using g st'(4) by (simp add: gated_def)
  ultimately show ?thesis using 1(1) st'(1,2) by (auto simp: factor_inv_def)
qed

lemma factor_step_spec:
  assumes st: "factor_inv st" and i: "i < length (gm_cells (pp_module st))"
  shows "\<exists>st' hit. on_mux factor_step i st = Some (st', hit) \<and> factor_inv st' \<and> rebuilt (pp_module st) (pp_module st')
    \<and> length (gm_cells (pp_module st)) \<le> length (gm_cells (pp_module st'))
    \<and> (if hit then nets_read (pp_module st') < nets_read (pp_module st) else st' = st)"
proof -
  let ?m = "pp_module st"
  have t: "tidy st" and wf: "wf_module ?m" using st by (simp_all add: factor_inv_def tidy_def)
  have skip: ?thesis if "on_mux factor_step i st = Some (st, False)"
    using that st rebuilt_refl [of ?m] by (intro exI [of _ st] exI [of _ False]) simp
  show ?thesis
  proof (rule on_mux_cases [OF wf i, of factor_step])
    fix s d0 d1
    assume c: "gm_cells ?m ! i = \<lparr>c_kind = Mux2, c_inputs = [s, d0, d1], c_output = c_output (gm_cells ?m ! i)\<rparr>"
      and run: "on_mux factor_step i st = factor_step i s d0 d1 st" and d: "d0 < length (gm_nets ?m)" "d1 < length (gm_nets ?m)"
    show ?thesis
    proof (rule two_arms_spec [OF t d])
      assume "two_arms st d0 d1 = Some None"
      then show ?thesis by (intro skip) (simp add: run factor_step_def)
    next
      fix j l
      let ?a = "gm_cells ?m ! j" and ?b = "gm_cells ?m ! l"
      assume arms: "two_arms st d0 d1 = Some (Some ((j, ?a), (l, ?b)))" and one: "count (reads_of ?m) d0 = 1" "count (reads_of ?m) d1 = 1"
        and dr: "drives ?m d0 (c_kind ?a) (c_inputs ?a)" "drives ?m d1 (c_kind ?b) (c_inputs ?b)"
      show ?thesis
      proof (cases "c_kind ?a = c_kind ?b \<and> c_kind ?a \<in> {And2, Or2, Xor2}")
        case False
        then show ?thesis using arms by (intro skip) (auto simp: run factor_step_def)
      next
        case True
        then have "arity (c_kind ?a) = 2" "arity (c_kind ?b) = 2" by auto
        then have len: "length (c_inputs ?a) = 2" "length (c_inputs ?b) = 2" using drives_inputs(1) [OF wf dr(1)] drives_inputs(1) [OF wf dr(2)] by simp_all
        obtain h where h: "common_of ?a ?b = Some h" "\<And>c l r. h = Some (c, l, r) \<Longrightarrow>
            (c_inputs ?a = [c, l] \<or> c_inputs ?a = [l, c]) \<and> (c_inputs ?b = [c, r] \<or> c_inputs ?b = [r, c])"
          using common_of_spec [OF len] by blast
        show ?thesis
        proof (cases h)
          case None
          then show ?thesis using arms True h(1) by (intro skip) (simp add: run factor_step_def)
        next
          case (Some x)
          then obtain com le ri where x: "h = Some (com, le, ri)" by (cases x) simp
          have k: "c_kind ?a \<in> {And2, Or2, Xor2}" using True by blast
          have db: "drives ?m d1 (c_kind ?a) (c_inputs ?b)" using True dr(2) by metis
          obtain net st1 st' where hit: "emit_cell Mux2 [s, le, ri] st = Some (net, st1)" "rewrite_cell i (c_kind ?a) [com, net] st1 = Some st'"
            "factor_inv st'" "rebuilt ?m (pp_module st')" "length (gm_cells ?m) \<le> length (gm_cells (pp_module st'))"
            "nets_read (pp_module st') < nets_read ?m"
            using factor_hit [OF st i c one dr(1) db k conjunct1 [OF h(2) [OF x]] conjunct2 [OF h(2) [OF x]]] by blast
          have "c_kind ?b = c_kind ?a" using True by metis
          then have "factor_step i s d0 d1 st = Some (st', True)" using arms k h(1) x hit(1,2) by (simp add: factor_step_def)
          then show ?thesis using hit(3-6) by (intro exI [of _ st'] exI [of _ True]) (simp add: run)
        qed
      qed
    qed
  qed (rule skip)
qed

interpretation factoring: sweep_phase "on_mux factor_step" factor_inv rebuilt "\<lambda>st. nets_read (pp_module st)"
  by unfold_locales (use factor_step_spec rebuilt_refl rebuilt_trans in blast)+

subsection \<open>Under a gate of the dual kind\<close>

text \<open>Here the module is only refined: the net of the gate that is kept changes its value.\<close>

definition dist_inv :: "postpass_ctx \<Rightarrow> bool" where
  "dist_inv st \<longleftrightarrow> tidy st \<and> nots_ok st \<and> ready (pp_module st)"

lemma distributive:
  assumes "k = Or2 \<and> dual = And2 \<or> k = And2 \<and> dual = Or2" "js = [c, l] \<or> js = [l, c]" "ks = [c, r] \<or> ks = [r, c]"
    "vx = cell_fn dual (map v js)" "vy = cell_fn dual (map v ks)"
  shows "cell_fn dual [v c, cell_fn k [v l, v r]] = cell_fn k [vx, vy]"
  using assms by auto

text \<open>The situation of a hit.\<close>

definition dist_hit :: "gate_module \<Rightarrow> nat \<Rightarrow> nat \<Rightarrow> nat \<Rightarrow> cell_kind \<Rightarrow> cell_kind \<Rightarrow> net_id \<Rightarrow> net_id \<Rightarrow> net_id \<Rightarrow> net_id \<Rightarrow> net_id \<Rightarrow> net_id \<Rightarrow> bool" where
  "dist_hit m i i0 i1 k dual a x y com l r \<longleftrightarrow> i < length (gm_cells m) \<and> i0 < length (gm_cells m) \<and> i1 < length (gm_cells m) \<and> i0 \<noteq> i1
     \<and> gm_cells m ! i = \<lparr>c_kind = k, c_inputs = [x, y], c_output = a\<rparr> \<and> (k = Or2 \<and> dual = And2 \<or> k = And2 \<and> dual = Or2)
     \<and> count (reads_of m) x = 1 \<and> count (reads_of m) y = 1
     \<and> c_kind (gm_cells m ! i0) = dual \<and> c_output (gm_cells m ! i0) = x \<and> (c_inputs (gm_cells m ! i0) = [com, l] \<or> c_inputs (gm_cells m ! i0) = [l, com])
     \<and> c_kind (gm_cells m ! i1) = dual \<and> c_output (gm_cells m ! i1) = y \<and> (c_inputs (gm_cells m ! i1) = [com, r] \<or> c_inputs (gm_cells m ! i1) = [r, com])"

definition dist_result :: "gate_module \<Rightarrow> nat \<Rightarrow> nat \<Rightarrow> cell_kind \<Rightarrow> cell_kind \<Rightarrow> net_id \<Rightarrow> net_id \<Rightarrow> net_id \<Rightarrow> net_id \<Rightarrow> gate_module" where
  "dist_result m i i0 k dual x com l r = upd (upd m i0 k [l, r]) i dual [com, x]"

lemma dist_facts:
  assumes h: "dist_hit m i i0 i1 k dual a x y com l r" and m: "wf_module m" "single_driver m" "ranked rk m"
  shows "i0 \<noteq> i" "i1 \<noteq> i" "x \<noteq> y" "drives m x dual (c_inputs (gm_cells m ! i0))" "drives m y dual (c_inputs (gm_cells m ! i1))"
    "\<And>z. z \<in> {com, l, r} \<Longrightarrow> z \<in># reads_of m \<and> z < length (gm_nets m) \<and> z \<noteq> x \<and> z \<noteq> y \<and> rk z < rk a"
    "rk com < rk x" "rk l < rk x" "rk r < rk y" "rk x < rk a" "rk y < rk a"
    "\<And>j. j < length (gm_cells m) \<Longrightarrow> j \<noteq> i \<Longrightarrow> x \<notin> set (c_inputs (gm_cells m ! j)) \<and> y \<notin> set (c_inputs (gm_cells m ! j))"
    "x \<notin> set (sinks m)" "x < length (gm_nets m)"
proof -
  have c: "i < length (gm_cells m)" "gm_cells m ! i = \<lparr>c_kind = k, c_inputs = [x, y], c_output = a\<rparr>" "i0 < length (gm_cells m)" "i1 < length (gm_cells m)"
    "count (reads_of m) x = 1" "count (reads_of m) y = 1" and ins: "c_inputs (gm_cells m ! i) = [x, y]" "c_output (gm_cells m ! i) = a"
    using h by (simp_all add: dist_hit_def)
  have arm0: "c_kind (gm_cells m ! i0) = dual" "c_output (gm_cells m ! i0) = x" "set (c_inputs (gm_cells m ! i0)) = {com, l}"
    and arm1: "c_kind (gm_cells m ! i1) = dual" "c_output (gm_cells m ! i1) = y" "set (c_inputs (gm_cells m ! i1)) = {com, r}"
    using h by (auto simp: dist_hit_def)
  show low: "rk x < rk a" "rk y < rk a" using cell_lower [OF m c(1)] ins by simp_all
  show ne: "i0 \<noteq> i" "i1 \<noteq> i" using low arm0(2) arm1(2) ins(2) by auto
  show d: "drives m x dual (c_inputs (gm_cells m ! i0))" "drives m y dual (c_inputs (gm_cells m ! i1))"
    using output_driven [OF m(1,2) c(3)] output_driven [OF m(1,2) c(4)] arm0 arm1 by simp_all
  have "count_list [x, y] x = 1" using read_once(1) [OF c(5,1)] ins by simp
  then show "x \<noteq> y" by (auto split: if_splits)
  show "rk com < rk x" "rk l < rk x" "rk r < rk y"
    using drives_lower [OF m(3) d(1)] drives_lower [OF m(3) d(2)] arm0(3) arm1(3) by simp_all
  show "z \<in># reads_of m \<and> z < length (gm_nets m) \<and> z \<noteq> x \<and> z \<noteq> y \<and> rk z < rk a" if "z \<in> {com, l, r}" for z
  proof -
    have "z \<in> set (c_inputs (gm_cells m ! i0)) \<or> z \<in> set (c_inputs (gm_cells m ! i1))" using that arm0(3) arm1(3) by auto
    then show ?thesis
      using driver_reads [OF m c(1) _ d(1), of z] driver_reads [OF m c(1) _ d(2), of z] ins c(5,6) by auto
  qed
  show "x \<notin> set (c_inputs (gm_cells m ! j)) \<and> y \<notin> set (c_inputs (gm_cells m ! j))" if "j < length (gm_cells m)" "j \<noteq> i" for j
    using read_once(3) [OF c(5,1) _ that] read_once(3) [OF c(6,1) _ that] ins by simp
  show "x \<notin> set (sinks m)" using read_once(2) [OF c(5,1)] ins by simp
  show "x < length (gm_nets m)" using d(1) by (simp add: drives_def)
qed

lemma dist_cells:
  assumes h: "dist_hit m i i0 i1 k dual a x y com l r" and ne: "i0 \<noteq> i"
  shows "gm_nets (dist_result m i i0 k dual x com l r) = gm_nets m" "length (gm_cells (dist_result m i i0 k dual x com l r)) = length (gm_cells m)"
    "gm_cells (dist_result m i i0 k dual x com l r) ! j =
      (if j = i then \<lparr>c_kind = dual, c_inputs = [com, x], c_output = a\<rparr> else if j = i0 then \<lparr>c_kind = k, c_inputs = [l, r], c_output = x\<rparr>
       else gm_cells m ! j)"
    "consts_hold v (dist_result m i i0 k dual x com l r) = consts_hold v m"
  using h ne by (simp_all add: dist_result_def dist_hit_def upd_cell)

lemma dist_msat:
  assumes h: "dist_hit m i i0 i1 k dual a x y com l r" and m: "wf_module m" "single_driver m" "ranked rk m" and v: "msat v m"
  shows "\<exists>w. msat w (dist_result m i i0 k dual x com l r) \<and> (\<forall>n. n \<noteq> x \<longrightarrow> w n = v n)"
proof -
  note f = dist_facts [OF h m]
  let ?m = "dist_result m i i0 k dual x com l r" and ?w = "v(x := cell_fn k [v l, v r])"
  note cells = dist_cells [OF h f(1)]
  have c: "i < length (gm_cells m)" "i0 < length (gm_cells m)" "gm_cells m ! i = \<lparr>c_kind = k, c_inputs = [x, y], c_output = a\<rparr>"
    "k = Or2 \<and> dual = And2 \<or> k = And2 \<and> dual = Or2" "c_output (gm_cells m ! i0) = x"
    "c_inputs (gm_cells m ! i0) = [com, l] \<or> c_inputs (gm_cells m ! i0) = [l, com]" "c_inputs (gm_cells m ! i1) = [com, r] \<or> c_inputs (gm_cells m ! i1) = [r, com]"
    using h by (simp_all add: dist_hit_def)
  have ax: "a \<noteq> x" using f(10) by auto
  have vals: "?w com = v com" "?w l = v l" "?w r = v r" using f(6) by auto
  have holds: "holds v (gm_cells m ! j)" if "j < length (gm_cells m)" for j using v that by (simp add: msat_parts)
  have "holds ?w (gm_cells ?m ! j)" if j: "j < length (gm_cells m)" for j
  proof -
    consider "j = i" | "j = i0" | "j \<noteq> i" "j \<noteq> i0" by blast
    then show ?thesis
    proof cases
      case 1
      have "v a = cell_fn k [v x, v y]" using holds [OF c(1)] c(3) by (simp add: holds_def)
      also have "\<dots> = cell_fn dual [v com, cell_fn k [v l, v r]]"
        using distributive [OF c(4,6,7) drives_value [OF f(4) v] drives_value [OF f(5) v]] by simp
      finally show ?thesis using 1 ax vals f(1) by (simp add: cells holds_def)
    next
      case 2
      then show ?thesis using f(1) vals by (simp add: cells holds_def)
    next
      case 3
      have "c_output (gm_cells m ! j) \<noteq> x" using m(2) j c(2,5) 3(2) unfolding single_driver_def by (metis net_driver.inject(2))
      then have out: "?w (c_output (gm_cells m ! j)) = v (c_output (gm_cells m ! j))" by simp
      have "x \<notin> set (c_inputs (gm_cells m ! j))" using f(12) [OF j 3(1)] by blast
      then have ins: "map ?w (c_inputs (gm_cells m ! j)) = map v (c_inputs (gm_cells m ! j))" by (intro map_cong) auto
      have "holds ?w (gm_cells m ! j) = holds v (gm_cells m ! j)" unfolding holds_def out ins ..
      then show ?thesis using holds [OF j] 3 cells(3) [of j] by simp
    qed
  qed
  moreover have "consts_hold ?w m"
  proof -
    have "\<exists>j. driver (gm_nets m ! x) = DCell j" using f(4) by (auto simp: drives_def)
    then show ?thesis using v by (auto simp: msat_parts consts_hold_def)
  qed
  ultimately have "msat ?w ?m" using dist_cells(2,4) [OF h f(1)] by (simp add: msat_parts)
  then show ?thesis by (intro exI [of _ ?w]) simp
qed

lemma dist_ranked:
  assumes h: "dist_hit m i i0 i1 k dual a x y com l r" and m: "wf_module m" "single_driver m" "ranked rk m"
  shows "wf_module (upd m i0 k [l, r])" "wf_module (dist_result m i i0 k dual x com l r)" "single_driver (dist_result m i i0 k dual x com l r)"
    "\<exists>r'. ranked r' (dist_result m i i0 k dual x com l r)"
proof -
  note f = dist_facts [OF h m]
  let ?m1 = "upd m i0 k [l, r]" and ?m2 = "dist_result m i i0 k dual x com l r"
  have c: "i < length (gm_cells m)" "i0 < length (gm_cells m)" "i1 < length (gm_cells m)" "i0 \<noteq> i1"
    "gm_cells m ! i = \<lparr>c_kind = k, c_inputs = [x, y], c_output = a\<rparr>" "k = Or2 \<and> dual = And2 \<or> k = And2 \<and> dual = Or2" "c_output (gm_cells m ! i0) = x"
    and com: "com \<in> set (c_inputs (gm_cells m ! i1))" and y: "c_output (gm_cells m ! i1) = y"
    using h by (auto simp: dist_hit_def)
  have ar: "length [l, r] = arity k" "length [com, x] = arity dual" using c(6) by auto
  have in1: "z < length (gm_nets m)" if "z \<in> set [l, r]" for z using that f(6) by auto
  have in2: "z < length (gm_nets ?m1)" if "z \<in> set [com, x]" for z using that f(6,14) by auto
  show wf1: "wf_module ?m1" by (rule upd_wf [OF m(1) c(2) ar(1) in1])
  have s1: "single_driver ?m1" by (rule upd_single_driver [OF m(2) c(2)])
  show "wf_module ?m2" unfolding dist_result_def by (rule upd_wf [OF wf1 _ ar(2) in2]) (simp add: c(1))
  show "single_driver ?m2" unfolding dist_result_def by (rule upd_single_driver [OF s1]) (simp add: c(1))
  have up: "z = a" if z: "(x, z) \<in> dep m" for z
  proof -
    obtain j where j: "z < length (gm_nets m)" "driver (gm_nets m ! z) = DCell j" "x \<in> set (c_inputs (gm_cells m ! j))" using z by (auto simp: dep_def)
    note w = wf_module_driver [OF m(1) j(1,2)]
    have "j = i" using f(12) [of j] j(3) w by blast
    then show ?thesis using w c(5) by simp
  qed
  have clear0: "(c_output (gm_cells m ! i0), z) \<notin> (dep m)\<^sup>*" if z: "z \<in> set [l, r]" for z
  proof
    assume "(c_output (gm_cells m ! i0), z) \<in> (dep m)\<^sup>*"
    then have "(x, z) \<in> (dep m)\<^sup>*" by (simp add: c(7))
    moreover have "x \<noteq> z" using z f(6) by auto
    ultimately obtain b where "(x, b) \<in> dep m" "(b, z) \<in> (dep m)\<^sup>*" by (auto elim: converse_rtranclE)
    then have "rk a \<le> rk z" using up ranked_reach [OF m(3)] by blast
    moreover have "rk z < rk a" using z f(6) by auto
    ultimately show False by simp
  qed
  obtain r1 where r1: "ranked r1 ?m1" using upd_ranked [OF m(1) c(2) ar(1) in1 m(3) clear0] by blast
  have i1: "i < length (gm_cells ?m1)" "i1 < length (gm_cells ?m1)" using c by simp_all
  have cell: "gm_cells ?m1 ! i = gm_cells m ! i" "gm_cells ?m1 ! i1 = gm_cells m ! i1" using f(1) c(2,4) by (simp_all add: upd_cell)
  have low: "r1 x < r1 a" "r1 y < r1 a" using cell_lower [OF wf1 s1 r1 i1(1), of x] cell_lower [OF wf1 s1 r1 i1(1), of y] cell c(5) by simp_all
  have "r1 com < r1 y" using cell_lower [OF wf1 s1 r1 i1(2), of com] cell com y by simp
  then have "r1 com < r1 a" using low(2) by linarith
  then have clear1: "(c_output (gm_cells ?m1 ! i), z) \<notin> (dep ?m1)\<^sup>*" if "z \<in> set [com, x]" for z
    using that lower_clear [OF r1] low(1) cell(1) c(5) by auto
  show "\<exists>r'. ranked r' ?m2" unfolding dist_result_def by (rule upd_ranked [OF wf1 i1(1) ar(2) in2 r1 clear1])
qed

lemma dist_refines:
  assumes h: "dist_hit m i i0 i1 k dual a x y com l r" and m: "ready m"
  shows "refines m (dist_result m i i0 k dual x com l r)"
proof -
  let ?m2 = "dist_result m i i0 k dual x com l r"
  obtain rk where w: "wf_module m" "single_driver m" "ff_drivers_ok m" "ranked rk m" by (rule ready_parts [OF m])
  note f = dist_facts [OF h w(1,2,4)]
  have same: "gm_ffs ?m2 = gm_ffs m" "gm_ports ?m2 = gm_ports m" "gm_ram_blocks ?m2 = gm_ram_blocks m"
    by (simp_all add: dist_result_def upd_def)
  have nets: "gm_nets ?m2 = gm_nets m" by (simp add: dist_result_def)
  have driven: "\<exists>j. driver (gm_nets m ! x) = DCell j" using f(4) by (auto simp: drives_def)
  have "carries (replicate (length (gm_ffs m)) True) m ?m2"
  proof (rule carries_same [OF same])
    show "source ?m2 n" if "source m n" for n using that nets by (simp add: source_def)
    show "\<exists>w. msat w ?m2 \<and> (\<forall>n. source m n \<longrightarrow> w n = v n) \<and> (\<forall>n \<in> set (sinks m). w n = v n)" if v: "msat v m" for v
    proof -
      obtain w where w: "msat w ?m2" "\<forall>n. n \<noteq> x \<longrightarrow> w n = v n" using dist_msat [OF h w(1,2,4) v] by blast
      have "\<forall>n. source m n \<longrightarrow> n \<noteq> x" using driven by (auto simp: source_def)
      then show ?thesis using w f(13) by metis
    qed
  qed
  moreover have "closed_module ?m2"
    using dist_ranked(2-4) [OF h w(1,2,4)] w(3) same(1) nets unfolding closed_module_def ff_drivers_ok_def by simp
  ultimately show ?thesis using refines_carried m by (auto simp: ready_def)
qed

lemma dist_reads:
  assumes h: "dist_hit m i i0 i1 k dual a x y com l r" and m: "wf_module m" "single_driver m" "ranked rk m"
  shows "nets_read (dist_result m i i0 k dual x com l r) < nets_read m"
proof -
  note f = dist_facts [OF h m]
  let ?m1 = "upd m i0 k [l, r]" and ?m2 = "dist_result m i i0 k dual x com l r"
  have c: "i < length (gm_cells m)" "i0 < length (gm_cells m)" "c_inputs (gm_cells m ! i) = [x, y]" "count (reads_of m) y = 1"
    using h by (simp_all add: dist_hit_def)
  have i1: "i < length (gm_cells ?m1)" and cell: "c_inputs (gm_cells ?m1 ! i) = [x, y]" using c f(1) by (simp_all add: upd_cell)
  have "count (reads_of ?m1) y = 1"
  proof -
    have "count (mset (c_inputs (gm_cells m ! i0))) y = 0" "count (mset [l, r]) y = 0"
      using f(12) [OF c(2) f(1)] f(6) by (auto simp: count_mset_0_iff count_eq_zero_iff)
    then show ?thesis by (simp only: reads_of_upd(2) [OF c(2), of k "[l, r]"] count_union count_diff) (simp only: c(4))
  qed
  then have gone: "y \<notin># reads_of ?m1 - mset [x, y]" using read_once_gone [OF _ i1, of y] cell by simp
  have xy: "x \<in># reads_of m" "y \<in># reads_of m" using read_cell [OF c(1)] c(3) by simp_all
  have "set_mset (reads_of ?m2) \<subseteq> set_mset (reads_of m) - {y}"
  proof
    fix n assume "n \<in># reads_of ?m2"
    then have "n \<in> set [com, x] \<or> n \<in># reads_of ?m1 - mset [x, y]"
      using reads_upd_in [OF i1, of n dual "[com, x]"] cell by (simp add: dist_result_def)
    then consider "n = com" | "n = x" | "n \<in># reads_of ?m1" "n \<noteq> y" using gone by (auto dest: in_diffD)
    then show "n \<in> set_mset (reads_of m) - {y}"
    proof cases
      case 3
      then have "n \<in> set [l, r] \<or> n \<in># reads_of m" using reads_upd_in [OF c(2), of n k "[l, r]"] by (auto dest: in_diffD)
      then show ?thesis using f(6) 3(2) by auto
    qed (use f(3,6) xy in auto)
  qed
  then have "set_mset (reads_of ?m2) \<subset> set_mset (reads_of m)" using xy(2) by blast
  then show ?thesis unfolding nets_read_def by (intro psubset_card_mono) simp_all
qed

lemma dist_step_hit:
  assumes st: "dist_inv st" and h: "dist_hit (pp_module st) i i0 i1 k dual a x y com l r"
  shows "\<exists>st1 st'. rewrite_cell i0 k [l, r] st = Some st1 \<and> rewrite_cell i dual [com, x] st1 = Some st' \<and> dist_inv st'
    \<and> refines (pp_module st) (pp_module st') \<and> length (gm_cells (pp_module st')) = length (gm_cells (pp_module st))
    \<and> nets_read (pp_module st') < nets_read (pp_module st)"
proof -
  let ?m = "pp_module st" and ?m2 = "dist_result (pp_module st) i i0 k dual x com l r"
  have t: "nots_ok st" "ready ?m" and tl: "tally (length (gm_nets ?m)) (reads_of ?m) (pp_count st)" using st by (simp_all add: dist_inv_def tidy_def)
  obtain rk where m: "wf_module ?m" "single_driver ?m" "ranked rk ?m" using st by (auto simp: dist_inv_def tidy_def)
  note f = dist_facts [OF h m]
  have c: "i < length (gm_cells ?m)" "i0 < length (gm_cells ?m)" "c_kind (gm_cells ?m ! i) = k" "c_kind (gm_cells ?m ! i0) = dual" "k \<noteq> Not1" "dual \<noteq> Not1"
    using h by (auto simp: dist_hit_def)
  have in1: "z < length (gm_nets ?m)" if "z \<in> set [l, r]" for z using that f(6) by auto
  obtain st1 where st1: "rewrite_cell i0 k [l, r] st = Some st1" "pp_module st1 = upd ?m i0 k [l, r]"
    "tally (length (gm_nets ?m)) (reads_of (upd ?m i0 k [l, r])) (pp_count st1)" "pp_not st1 = pp_not st"
    using rewrite_cell_spec [OF m(1) tl c(2) in1, where k = k] by blast
  have wf1: "wf_module (pp_module st1)" unfolding st1(2) by (rule dist_ranked(1) [OF h m])
  have tl1: "tally (length (gm_nets (pp_module st1))) (reads_of (pp_module st1)) (pp_count st1)" using st1(2,3) by simp
  have i1: "i < length (gm_cells (pp_module st1))" using st1(2) c(1) by simp
  have in2: "z < length (gm_nets (pp_module st1))" if "z \<in> set [com, x]" for z using that f(6,14) st1(2) by auto
  obtain st' where st': "rewrite_cell i dual [com, x] st1 = Some st'" "pp_module st' = upd (pp_module st1) i dual [com, x]"
    "tally (length (gm_nets (pp_module st1))) (reads_of (upd (pp_module st1) i dual [com, x])) (pp_count st')" "pp_not st' = pp_not st1"
    using rewrite_cell_spec [OF wf1 tl1 i1 in2, where k = dual] by blast
  have res: "pp_module st' = ?m2" using st'(2) st1(2) by (simp add: dist_result_def)
  have ref: "refines ?m ?m2" by (rule dist_refines [OF h t(2)])
  have "nots_ok st1" by (rule nots_ok_upd [OF t(1) c(2) _ st1(2,4)]) (simp add: c)
  then have "nots_ok st'" by (rule nots_ok_upd [OF _ i1 _ st'(2,4)]) (use c f(1) st1(2) in \<open>simp add: upd_cell\<close>)
  moreover have "tidy st'" using dist_ranked(2-4) [OF h m] st'(3) st1(2) res unfolding tidy_def by (simp add: dist_result_def)
  moreover have "length (gm_cells ?m2) = length (gm_cells ?m)" by (simp add: dist_result_def)
  ultimately show ?thesis using st1(1) st'(1) res ref dist_reads [OF h m] by (auto simp: dist_inv_def refines_def)
qed

lemma dist_step_spec:
  assumes st: "dist_inv st" and i: "i < length (gm_cells (pp_module st))"
  shows "\<exists>st' hit. distribute_step i st = Some (st', hit) \<and> dist_inv st' \<and> refines (pp_module st) (pp_module st')
    \<and> length (gm_cells (pp_module st)) \<le> length (gm_cells (pp_module st'))
    \<and> (if hit then nets_read (pp_module st') < nets_read (pp_module st) else st' = st)"
proof -
  let ?m = "pp_module st" and ?c = "gm_cells (pp_module st) ! i"
  have t: "tidy st" and wf: "wf_module ?m" and rd: "ready ?m" using st by (simp_all add: dist_inv_def tidy_def)
  have at: "cell_at ?m i = Some ?c" using i by (simp add: cell_at_def)
  have skip: ?thesis if "distribute_step i st = Some (st, False)"
    using that st refines_refl [OF rd] by (intro exI [of _ st] exI [of _ False]) simp
  show ?thesis
  proof (cases "c_kind ?c = Or2 \<or> c_kind ?c = And2")
    case False
    then show ?thesis by (intro skip) (simp add: distribute_step_def at)
  next
    case True
    define dual where "dual = (if c_kind ?c = Or2 then And2 else Or2)"
    have kd: "c_kind ?c = Or2 \<and> dual = And2 \<or> c_kind ?c = And2 \<and> dual = Or2" using True by (auto simp: dual_def)
    have "length (c_inputs ?c) = 2" using wf_module_arity [OF wf i] True by auto
    then obtain x y where xy: "c_inputs ?c = [x, y]" by (auto simp: length_2_conv)
    then have rng: "x < length (gm_nets ?m)" "y < length (gm_nets ?m)" using wf_module_inputs [OF wf i] by simp_all
    have run: "distribute_step i st = do { arms \<leftarrow> two_arms st x y;
       (case arms of None \<Rightarrow> Some (st, False)
        | Some ((i0, a), (i1, b)) \<Rightarrow>
            if c_kind a \<noteq> dual \<or> c_kind b \<noteq> dual \<or> i0 = i1 then Some (st, False)
            else do {
              com \<leftarrow> common_of a b;
              (case com of None \<Rightarrow> Some (st, False)
               | Some (common, left, right) \<Rightarrow> do {
                   st \<leftarrow> rewrite_cell i0 (c_kind ?c) [left, right] st;
                   st \<leftarrow> rewrite_cell i dual [common, c_output a] st;
                   Some (st, True)
                 })
            }) }" using kd xy by (auto simp: distribute_step_def at Let_def)
    show ?thesis
    proof (rule two_arms_spec [OF t rng])
      assume "two_arms st x y = Some None"
      then show ?thesis by (intro skip) (simp add: run)
    next
      fix i0 i1
      let ?a = "gm_cells ?m ! i0" and ?b = "gm_cells ?m ! i1"
      assume arms: "two_arms st x y = Some (Some ((i0, ?a), (i1, ?b)))" and one: "count (reads_of ?m) x = 1" "count (reads_of ?m) y = 1"
        and lt: "i0 < length (gm_cells ?m)" "i1 < length (gm_cells ?m)" and outs: "c_output ?a = x" "c_output ?b = y"
      show ?thesis
      proof (cases "c_kind ?a \<noteq> dual \<or> c_kind ?b \<noteq> dual \<or> i0 = i1")
        case True
        then show ?thesis using arms by (intro skip) (simp add: run)
      next
        case False
        have "arity dual = 2" using kd by auto
        then have len: "length (c_inputs ?a) = 2" "length (c_inputs ?b) = 2"
          using wf_module_arity [OF wf lt(1)] wf_module_arity [OF wf lt(2)] False by simp_all
        obtain h where h: "common_of ?a ?b = Some h" "\<And>c l r. h = Some (c, l, r) \<Longrightarrow>
            (c_inputs ?a = [c, l] \<or> c_inputs ?a = [l, c]) \<and> (c_inputs ?b = [c, r] \<or> c_inputs ?b = [r, c])"
          using common_of_spec [OF len] by blast
        show ?thesis
        proof (cases h)
          case None
          then show ?thesis using arms False h(1) by (intro skip) (simp add: run)
        next
          case (Some z)
          then obtain com l r where z: "h = Some (com, l, r)" by (cases z) simp
          have "dist_hit ?m i i0 i1 (c_kind ?c) dual (c_output ?c) x y com l r"
            using i lt False one outs kd h(2) [OF z] xy unfolding dist_hit_def by simp
          from dist_step_hit [OF st this] obtain st1 st' where s: "rewrite_cell i0 (c_kind ?c) [l, r] st = Some st1" "rewrite_cell i dual [com, x] st1 = Some st'"
            "dist_inv st'" "refines ?m (pp_module st')" "length (gm_cells (pp_module st')) = length (gm_cells ?m)" "nets_read (pp_module st') < nets_read ?m" by blast
          have "distribute_step i st = Some (st', True)" using arms False h(1) z s(1,2) outs(1) by (simp add: run)
          then show ?thesis using s(3-6) by (intro exI [of _ st'] exI [of _ True]) simp
        qed
      qed
    qed
  qed
qed

lemma dist_refl: "dist_inv st \<Longrightarrow> refines (pp_module st) (pp_module st)"
  using refines_refl by (simp add: dist_inv_def)

lemma dist_trans: "dist_inv st \<Longrightarrow> refines (pp_module st) b \<Longrightarrow> refines b c \<Longrightarrow> refines (pp_module st) c"
  using refines_trans by (simp add: dist_inv_def)

interpretation distributing: sweep_phase distribute_step dist_inv refines "\<lambda>st. nets_read (pp_module st)"
  by unfold_locales (use dist_step_spec dist_refl dist_trans in blast)+

end
