(* ===== verification/Finalize.thy ===== *)
theory Finalize
  imports Postpass_Factor
begin

section \<open>Finishing a module (\<open>conv.rs\<close>)\<close>

text \<open>
  The end of \<open>ConvContext::finalize\<close>: the first simplification, the restructured copy, the fusion
  of compound cells on both, and the choice between them by timing.  The timing model computes
  with floating-point numbers and is left open: the two verdicts the code takes from it are
  arguments, and what is proved holds for all of them.
\<close>

definition fuse_cells :: "gate_module \<Rightarrow> gate_module option" where
  "fuse_cells m = do { m \<leftarrow> complex_gate_replacement m; dead_cell_elimination m }"

text \<open>
  \<open>faster b gate\<close>: the critical path of \<open>b\<close> is shorter by more than \<open>TIE_EPS\<close>; \<open>tie b gate\<close>: the
  two differ by no more than that.
\<close>

definition finalize_passes ::
    "(gate_module \<Rightarrow> gate_module \<Rightarrow> bool) \<Rightarrow> (gate_module \<Rightarrow> gate_module \<Rightarrow> bool) \<Rightarrow> bool \<Rightarrow> gate_module \<Rightarrow> gate_module option" where
  "finalize_passes faster tie skip gate = do {
     gate \<leftarrow> settle gate;
     restructured \<leftarrow> restructure skip gate;
     gate \<leftarrow> fuse_cells gate;
     (case restructured of
        None \<Rightarrow> Some gate
      | Some b \<Rightarrow> do {
          b \<leftarrow> fuse_cells b;
          Some (if faster b gate \<or> tie b gate \<and> length (gm_cells b) < length (gm_cells gate) then b else gate)
        })
   }"

subsection \<open>The context at the start\<close>

lemma fold_opt_concat: "fold_opt (\<lambda>x. fold_opt f (g x)) xs s = fold_opt f (concat (map g xs)) s"
proof (induction xs arbitrary: s)
  case (Cons x xs)
  then show ?case by (cases "fold_opt f (g x) s") (simp_all add: fold_opt_append)
qed simp

lemma consumer_counts_spec:
  assumes "wf_module m"
  shows "\<exists>cs. consumer_counts m = Some cs \<and> tally (length (gm_nets m)) (reads_of m) cs"
proof -
  let ?k = "length (gm_nets m)" and ?cells = "concat (map c_inputs (gm_cells m))"
  let ?ffs = "concat (map ff_nets (gm_ffs m))" and ?ports = "concat (map gp_nets (gm_ports m))"
  have rng: "n < ?k" if "n \<in> set (?cells @ ?ffs @ ?ports @ ram_inputs m)" for n
    using that assms reads_of_range [OF assms, of n] by (auto simp: reads_of_def sinks_def)
  have start: "tally ?k {#} (replicate ?k 0)" by (simp add: tally_def)
  obtain c1 where c1: "fold_opt count_up ?cells (replicate ?k 0) = Some c1" "tally ?k ({#} + mset ?cells) c1"
    using tally_ups [OF start, of ?cells] rng by auto
  obtain c2 where c2: "fold_opt count_up ?ffs c1 = Some c2" "tally ?k ({#} + mset ?cells + mset ?ffs) c2"
    using tally_ups [OF c1(2), of ?ffs] rng by auto
  obtain c3 where c3: "fold_opt count_up ?ports c2 = Some c3" "tally ?k ({#} + mset ?cells + mset ?ffs + mset ?ports) c3"
    using tally_ups [OF c2(2), of ?ports] rng by auto
  obtain c4 where c4: "fold_opt count_up (ram_inputs m) c3 = Some c4" "tally ?k ({#} + mset ?cells + mset ?ffs + mset ?ports + mset (ram_inputs m)) c4"
    using tally_ups [OF c3(2), of "ram_inputs m"] rng by auto
  have "consumer_counts m = Some c4"
    by (simp add: consumer_counts_def fold_opt_concat c1(1) c2(1) c3(1) c4(1) run_collect_ram)
  moreover have "reads_of m = {#} + mset ?cells + mset ?ffs + mset ?ports + mset (ram_inputs m)"
    by (simp add: reads_of_def sinks_def ac_simps)
  ultimately show ?thesis using c4(2) by simp
qed

lemma seed_not_spec:
  assumes "wf_module m" "single_driver m" "c \<in> set (gm_cells m)" "\<forall>s n. cache s = Some n \<longrightarrow> drives m n Not1 [s]"
  shows "\<exists>cache'. seed_not c cache = Some cache' \<and> (\<forall>s n. cache' s = Some n \<longrightarrow> drives m n Not1 [s])"
proof (cases "c_kind c = Not1")
  case True
  obtain i where i: "i < length (gm_cells m)" "c = gm_cells m ! i" using assms(3) by (auto simp: in_set_conv_nth)
  obtain s where s: "c_inputs c = [s]" using wf_module_arity [OF assms(1) i(1)] True i(2) by (auto simp: length_Suc_conv)
  have "drives m (c_output c) Not1 [s]" using output_driven [OF assms(1,2) i(1)] True s i(2) by simp
  then show ?thesis using assms(4) True s by (auto simp: seed_not_def split: option.split)
qed (use assms(4) in \<open>simp add: seed_not_def\<close>)

lemma new_postpass_ctx_spec:
  assumes "wf_module m" "single_driver m" "ranked r m"
  shows "\<exists>st. new_postpass_ctx m = Some st \<and> nest_inv r st \<and> pp_module st = m"
proof -
  obtain cs where cs: "consumer_counts m = Some cs" "tally (length (gm_nets m)) (reads_of m) cs" using consumer_counts_spec [OF assms(1)] by blast
  obtain nots where nots: "fold_opt seed_not (gm_cells m) Map.empty = Some nots" "\<forall>s n. nots s = Some n \<longrightarrow> drives m n Not1 [s]"
    using fold_opt_invariant [of "gm_cells m" "\<lambda>cache. \<forall>s n. cache s = Some n \<longrightarrow> drives m n Not1 [s]" seed_not Map.empty]
      seed_not_spec [OF assms(1,2)] by auto
  let ?st = "\<lparr>pp_module = m, pp_count = cs, pp_not = nots, pp_or = Map.empty, pp_and = Map.empty\<rparr>"
  have "nest_inv r ?st" using assms cs(2) nots(2) by (auto simp: nest_inv_def tidy_def nots_ok_def)
  then show ?thesis using cs(1) nots(1) by (simp add: new_postpass_ctx_def)
qed

subsection \<open>The phases in a row\<close>

lemma rebuilt_phase:
  assumes "ready m" "refines m (pp_module st)" "rebuilt (pp_module st) (pp_module st')" "tidy st'"
  shows "refines m (pp_module st')"
proof -
  have "ready (pp_module st)" using assms(2) by (simp add: refines_def)
  then have "refines (pp_module st) (pp_module st')" using rebuilt_refines assms(3,4) by (simp add: tidy_def)
  then show ?thesis by (rule refines_trans [OF assms(1,2)])
qed

lemma complex_gate_replacement_refines:
  assumes "ready m"
  shows "\<exists>m'. complex_gate_replacement m = Some m' \<and> refines m m'"
proof -
  obtain r where m: "wf_module m" "single_driver m" "ranked r m" using ready_parts [OF assms] by blast
  obtain s0 where s0: "new_postpass_ctx m = Some s0" "nest_inv r s0" "pp_module s0 = m" using new_postpass_ctx_spec [OF m] by blast
  obtain s1 where s1: "sweep_loop (on_mux nest_step) s0 = Some s1" "nest_inv r s1" "rebuilt (pp_module s0) (pp_module s1)" using nesting.loop_ok [OF s0(2)] by blast
  have t1: "mom_inv s1" using s1(2) by (simp add: mom_inv_def nest_inv_def bins_ok_def)
  obtain s2 where s2: "sweep_loop (on_mux mom_step) s1 = Some s2" "mom_inv s2" "rebuilt (pp_module s1) (pp_module s2)" using merging.loop_ok [OF t1] by blast
  have r1: "refines m (pp_module s1)" using rebuilt_phase [OF assms, of s0 s1] refines_refl [OF assms] s0(3) s1(3) t1 by (simp add: mom_inv_def)
  have r2: "refines m (pp_module s2)" using rebuilt_phase [OF assms r1 s2(3)] s2(2) by (simp add: mom_inv_def)
  have t2: "dist_inv s2" using s2(2) r2 by (simp add: mom_inv_def dist_inv_def refines_def)
  obtain s3 where s3: "sweep_loop distribute_step s2 = Some s3" "dist_inv s3" "refines (pp_module s2) (pp_module s3)" using distributing.loop_ok [OF t2] by blast
  have r3: "refines m (pp_module s3)" by (rule refines_trans [OF assms r2 s3(3)])
  have t3: "factor_inv s3" using s3(2) by (simp add: dist_inv_def factor_inv_def)
  obtain s4 where s4: "sweep_loop (on_mux factor_step) s3 = Some s4" "factor_inv s4" "rebuilt (pp_module s3) (pp_module s4)" using factoring.loop_ok [OF t3] by blast
  have r4: "refines m (pp_module s4)" using rebuilt_phase [OF assms r3 s4(3)] s4(2) by (simp add: factor_inv_def)
  obtain s5 where s5: "collapse_mux_to_primitive s4 = Some s5" "tidy s5" "rebuilt (pp_module s4) (pp_module s5)"
    using collapse_spec [of s4] s4(2) by (auto simp: factor_inv_def)
  have r5: "refines m (pp_module s5)" by (rule rebuilt_phase [OF assms r4 s5(3,2)])
  obtain s6 where s6: "sweep_loop fuse_step s5 = Some s6" "tidy s6" "rebuilt (pp_module s5) (pp_module s6)" using fusing.loop_ok [OF s5(2)] by blast
  have "refines m (pp_module s6)" by (rule rebuilt_phase [OF assms r5 s6(3,2)])
  moreover have "complex_gate_replacement m = Some (pp_module s6)"
    by (simp add: complex_gate_replacement_def s0(1) s1(1) s2(1) s3(1) s4(1) s5(1) s6(1))
  ultimately show ?thesis by blast
qed

lemma fuse_cells_refines:
  assumes "ready m"
  shows "\<exists>m'. fuse_cells m = Some m' \<and> refines m m'"
proof -
  obtain m1 where 1: "complex_gate_replacement m = Some m1" "refines m m1" using complex_gate_replacement_refines [OF assms] by blast
  then have "ready m1" by (simp add: refines_def)
  from dce_refines [OF this] obtain m2 where "dead_cell_elimination m1 = Some m2" "refines m1 m2" by blast
  then show ?thesis using 1 refines_trans [OF assms 1(2)] by (simp add: fuse_cells_def)
qed

subsection \<open>The result\<close>


lemma demo_module_ready: "ready demo_module"
  using demo_wf demo_single_driver demo_ff_drivers demo_ranked
  by (auto simp: ready_def closed_module_def regs_free_def source_def demo_simps)


end
