(* ===== verification/Pretty_Doc.thy ===== *)
theory Pretty_Doc
  imports Prelude
begin

section \<open>Documents of the pretty printer (\<open>pretty/src/doc.rs\<close>)\<close>

text \<open>
  The document IR that the formatter and the emitter build, with its smart constructors.
  A Rust string is a list of characters; lengths, columns and lines (\<open>usize\<close>, \<open>u32\<close>) are
  naturals and indentation levels (\<open>i32\<close>) integers, as no document comes near their bounds.
\<close>

record comment_doc =
  cd_text :: string
  leading_newlines :: nat
  is_line_comment :: bool
  cd_src_line :: nat
  cd_src_column :: nat

record anchored_text =
  at_text :: string
  at_src_line :: nat
  at_src_column :: nat

datatype doc =
    Empty
  | Text string
  | Concat "doc list"
  | Indent int doc
  | Group doc
  | ForceFlat doc
  | Line string
  | Hardline
  | DedentHardline nat
  | Comments "comment_doc list"
  | IfBreak string
  | IfBreakPad nat
  | Pad nat
  | IfFlatPad nat
  | Anchored anchored_text

definition space :: "nat \<Rightarrow> doc" where
  "space n = (if n = 0 then Empty else Text (replicate n CHR '' ''))"

definition line :: doc where "line = Line '' ''"

definition softline :: doc where "softline = Line []"

definition nest :: "doc \<Rightarrow> doc" where "nest d = Indent 1 d"

definition dedent :: "doc \<Rightarrow> doc" where "dedent d = Indent (- 1) d"

definition indent_by :: "int \<Rightarrow> doc \<Rightarrow> doc" where
  "indent_by level d = (if level = 0 then d else Indent level d)"

definition concat_docs :: "doc list \<Rightarrow> doc" where
  "concat_docs docs =
     (case filter (\<lambda>d. d \<noteq> Empty) docs of
        [] \<Rightarrow> Empty
      | [d] \<Rightarrow> d
      | ds \<Rightarrow> Concat ds)"

definition comments :: "comment_doc list \<Rightarrow> doc" where
  "comments cs = (if cs = [] then Empty else Comments cs)"

definition if_break_pad :: "nat \<Rightarrow> doc" where
  "if_break_pad width = (if width = 0 then Empty else IfBreakPad width)"

definition pad :: "nat \<Rightarrow> doc" where
  "pad width = (if width = 0 then Empty else Pad width)"

definition if_flat_pad :: "nat \<Rightarrow> doc" where
  "if_flat_pad width = (if width = 0 then Empty else IfFlatPad width)"

definition anchored :: "string \<Rightarrow> nat \<Rightarrow> nat \<Rightarrow> doc" where
  "anchored s l c = Anchored \<lparr>at_text = s, at_src_line = l, at_src_column = c\<rparr>"

text \<open>The weight of a document, for the termination of the loops over a stack of documents.\<close>

fun weight :: "doc \<Rightarrow> nat" where
  "weight (Concat ds) = Suc (Suc (sum_list (map (\<lambda>d. Suc (weight d)) ds)))"
| "weight (Indent _ d) = Suc (Suc (Suc (weight d)))"
| "weight (Group d) = Suc (Suc (Suc (weight d)))"
| "weight (ForceFlat d) = Suc (Suc (Suc (weight d)))"
| "weight _ = 1"

lemma weight_pos [simp]: "0 < weight d"
  by (cases d) simp_all

end
