(* ===== verification/Pretty_Render.thy ===== *)
theory Pretty_Render
  imports Pretty_Doc
begin

section \<open>The renderer (\<open>pretty/src/render.rs\<close>)\<close>

text \<open>
  The renderer pops frames off a stack and keeps the text, the position and the deferred
  indentation; a group is laid out flat when \<open>fits_flat\<close> says that it and what follows up to
  the next break fit.  The top of a stack is the head of its list.  Both loops end because the
  weight of the documents left shrinks, so they are total functions.
\<close>

datatype layout_mode = Flat | Break

record render_opts =
  max_width :: nat
  indent_width :: nat
  newline :: string
  strip_trailing :: bool

definition default_opts :: render_opts where
  "default_opts = \<lparr>max_width = 120, indent_width = 4, newline = [CHR 0x0A], strip_trailing = True\<rparr>"

record rendered_anchor =
  dst_line :: nat
  dst_column :: nat
  ra_src_line :: nat
  ra_src_column :: nat
  ra_text :: string

record render_state =
  out :: string
  col :: nat
  current_line :: nat
  swallow_next_break :: bool
  pending_indent :: "nat option"
  anchors :: "rendered_anchor list"

record frame =
  fr_indent :: int
  fr_mode :: layout_mode
  fr_doc :: doc

definition LF :: char where "LF = CHR 0x0A"

definition spaces :: "nat \<Rightarrow> string" where "spaces n = replicate n CHR '' ''"

definition initial_state :: render_state where
  "initial_state = \<lparr>out = [], col = 0, current_line = 1, swallow_next_break = False, pending_indent = None, anchors = []\<rparr>"

subsection \<open>Emission\<close>

definition flush_pending :: "render_state \<Rightarrow> render_state" where
  "flush_pending st =
     (case pending_indent st of
        None \<Rightarrow> st
      | Some n \<Rightarrow> st\<lparr>pending_indent := None, out := out st @ spaces n, col := n\<rparr>)"

definition pad_for :: "int \<Rightarrow> render_opts \<Rightarrow> nat" where
  "pad_for i opts = nat (max i 0) * indent_width opts"

definition flush_pending_with_indent :: "int \<Rightarrow> render_opts \<Rightarrow> render_state \<Rightarrow> render_state" where
  "flush_pending_with_indent i opts st =
     (case pending_indent st of
        None \<Rightarrow> st
      | Some n \<Rightarrow> (let target = min (pad_for i opts) n
          in st\<lparr>pending_indent := None, out := out st @ spaces target, col := target\<rparr>))"

definition last_line :: "string \<Rightarrow> string" where
  "last_line s = rev (takeWhile (\<lambda>c. c \<noteq> LF) (rev s))"

text \<open>Text that may hold newlines; the caller has flushed the indentation.\<close>

definition emit_text :: "string \<Rightarrow> render_state \<Rightarrow> render_state" where
  "emit_text s st =
     (let nls = count_list s LF; st = st\<lparr>out := out st @ s\<rparr>
      in if nls = 0 then st\<lparr>col := col st + length s\<rparr>
         else st\<lparr>current_line := current_line st + nls, col := length (last_line s)\<rparr>)"

text \<open>A separator or a padding: content without newlines.\<close>

definition emit_plain :: "string \<Rightarrow> render_state \<Rightarrow> render_state" where
  "emit_plain s st = st\<lparr>swallow_next_break := False, out := out st @ s, col := col st + length s\<rparr>"

definition emit_anchored :: "anchored_text \<Rightarrow> int \<Rightarrow> render_opts \<Rightarrow> render_state \<Rightarrow> render_state" where
  "emit_anchored a i opts st =
     (let st = (flush_pending_with_indent i opts st)\<lparr>swallow_next_break := False\<rparr>
      in emit_text (at_text a) (st\<lparr>anchors := anchors st @ [\<lparr>dst_line = current_line st, dst_column = col st + 1,
           ra_src_line = at_src_line a, ra_src_column = at_src_column a, ra_text = at_text a\<rparr>]\<rparr>))"

definition push_newline :: "render_opts \<Rightarrow> render_state \<Rightarrow> render_state" where
  "push_newline opts st = st\<lparr>out := out st @ newline opts, current_line := current_line st + 1, col := 0\<rparr>"

definition emit_break :: "int \<Rightarrow> render_opts \<Rightarrow> render_state \<Rightarrow> render_state" where
  "emit_break i opts st =
     (let st = (if swallow_next_break st then st\<lparr>swallow_next_break := False\<rparr> else push_newline opts st)
      in st\<lparr>pending_indent := Some (pad_for i opts)\<rparr>)"

definition comment_lead :: "nat \<Rightarrow> render_opts \<Rightarrow> comment_doc \<Rightarrow> render_state \<Rightarrow> render_state" where
  "comment_lead pad_width opts c st =
     (let pre_swallow = swallow_next_break st; st = st\<lparr>swallow_next_break := False\<rparr>;
          is_pending = pending_indent st \<noteq> None
      in if leading_newlines c = 0 \<and> \<not> pre_swallow \<and> \<not> is_pending
         then (if 0 < col st then st\<lparr>out := out st @ '' '', col := col st + 1\<rparr> else st)
         else (let already = (if pre_swallow \<or> is_pending then 1 else 0);
                   to_emit = max (leading_newlines c) 1 - already;
                   st = (push_newline opts ^^ to_emit) st
               in st\<lparr>out := out st @ spaces pad_width, col := pad_width, pending_indent := None\<rparr>))"

definition comment_anchor :: "comment_doc \<Rightarrow> render_state \<Rightarrow> render_state" where
  "comment_anchor c st =
     (if cd_src_line c \<noteq> 0 \<and> cd_src_column c \<noteq> 0
      then st\<lparr>anchors := anchors st @ [\<lparr>dst_line = current_line st, dst_column = col st + 1,
           ra_src_line = cd_src_line c, ra_src_column = cd_src_column c, ra_text = cd_text c\<rparr>]\<rparr>
      else st)"

definition comment_body :: "nat \<Rightarrow> render_opts \<Rightarrow> comment_doc \<Rightarrow> render_state \<Rightarrow> render_state" where
  "comment_body pad_width opts c st =
     (let st = st\<lparr>out := out st @ cd_text c\<rparr>; nls = count_list (cd_text c) LF
      in if is_line_comment c
         then st\<lparr>out := out st @ newline opts, current_line := current_line st + (nls + 1), col := 0,
                pending_indent := Some pad_width, swallow_next_break := True\<rparr>
         else if 0 < nls then st\<lparr>current_line := current_line st + nls, col := 0\<rparr>
         else st\<lparr>col := col st + length (cd_text c)\<rparr>)"

definition render_comment :: "int \<Rightarrow> render_opts \<Rightarrow> comment_doc \<Rightarrow> render_state \<Rightarrow> render_state" where
  "render_comment i opts c st =
     comment_body (pad_for i opts) opts c (comment_anchor c (comment_lead (pad_for i opts) opts c st))"

definition render_comments :: "comment_doc list \<Rightarrow> int \<Rightarrow> render_opts \<Rightarrow> render_state \<Rightarrow> render_state" where
  "render_comments cs i opts st = fold (render_comment i opts) cs st"

subsection \<open>The look-ahead\<close>

text \<open>The next document: the first of the innermost iterator, or the next frame of the continuation.\<close>

fun next_doc :: "(doc list \<times> bool) list \<Rightarrow> doc list
    \<Rightarrow> (doc \<times> bool \<times> (doc list \<times> bool) list \<times> doc list) option" where
  "next_doc (([], _) # work) outer = next_doc work outer"
| "next_doc ((x # items, in_start) # work) outer = Some (x, in_start, (items, in_start) # work, outer)"
| "next_doc [] (d # outer) = Some (d, False, [], outer)"
| "next_doc [] [] = None"

definition todo :: "(doc list \<times> bool) list \<Rightarrow> doc list \<Rightarrow> nat" where
  "todo work outer = sum_list (map (\<lambda>(items, _). sum_list (map (\<lambda>d. Suc (weight d)) items)) work)
     + sum_list (map (\<lambda>d. Suc (weight d)) outer)"

lemma next_doc_todo: "next_doc work outer = Some (x, s, work', outer') \<Longrightarrow> todo work outer = Suc (weight x) + todo work' outer'"
  by (induction work outer rule: next_doc.induct) (auto simp: todo_def)

function fits_loop :: "int \<Rightarrow> (doc list \<times> bool) list \<Rightarrow> doc list \<Rightarrow> bool" where
  "fits_loop budget work outer =
     (case next_doc work outer of
        None \<Rightarrow> 0 \<le> budget
      | Some (x, in_start, work, outer) \<Rightarrow>
          if budget < 0 then False
          else (case x of
              Empty \<Rightarrow> fits_loop budget work outer
            | Text s \<Rightarrow> fits_loop (budget - int (length s)) work outer
            | Concat items \<Rightarrow> fits_loop budget ((items, in_start) # work) outer
            | Indent _ inner \<Rightarrow> fits_loop budget (([inner], in_start) # work) outer
            | Group inner \<Rightarrow> fits_loop budget (([inner], in_start) # work) outer
            | ForceFlat inner \<Rightarrow> fits_loop budget (([inner], in_start) # work) outer
            | Line sep \<Rightarrow> if in_start then fits_loop (budget - int (length sep)) work outer else True
            | Hardline \<Rightarrow> \<not> in_start
            | DedentHardline _ \<Rightarrow> \<not> in_start
            | IfBreak _ \<Rightarrow> fits_loop budget work outer
            | IfBreakPad _ \<Rightarrow> fits_loop budget work outer
            | Pad width \<Rightarrow> fits_loop (budget - int width) work outer
            | IfFlatPad width \<Rightarrow> fits_loop (budget - int width) work outer
            | Anchored a \<Rightarrow> fits_loop (budget - int (length (at_text a))) work outer
            | Comments cs \<Rightarrow>
                if \<exists>c \<in> set cs. is_line_comment c then \<not> in_start
                else fits_loop (fold (\<lambda>c b. b - (int (length (cd_text c)) + 1)) cs budget) work outer))"
  by pat_completeness auto
termination fits_loop
  by (relation "measure (\<lambda>(_, work, outer). todo work outer)")
    (auto dest!: next_doc_todo simp: todo_def)

declare fits_loop.simps [simp del]

definition fits_flat :: "doc \<Rightarrow> frame list \<Rightarrow> int \<Rightarrow> bool" where
  "fits_flat d stack budget = (if budget < 0 then False else fits_loop budget [([d], True)] (map fr_doc stack))"

subsection \<open>One frame\<close>

text \<open>In flat layout a hard line collapses to a space.\<close>

definition flat_space :: "render_state \<Rightarrow> render_state" where
  "flat_space st = emit_plain '' '' (flush_pending st)"

definition ends_with_spaces :: "nat \<Rightarrow> string \<Rightarrow> bool" where
  "ends_with_spaces want s \<longleftrightarrow> want \<le> length s \<and> list_all (\<lambda>c. c = CHR '' '') (drop (length s - want) s)"

definition dedent_trim :: "nat \<Rightarrow> render_opts \<Rightarrow> render_state \<Rightarrow> render_state" where
  "dedent_trim level opts st =
     (let want = level * indent_width opts
      in if 0 < want \<and> pending_indent st = None \<and> ends_with_spaces want (out st)
         then st\<lparr>out := take (length (out st) - want) (out st), col := col st - want\<rparr>
         else st)"

definition emit_padding :: "int \<Rightarrow> render_opts \<Rightarrow> string \<Rightarrow> render_state \<Rightarrow> render_state" where
  "emit_padding i opts s st = emit_plain s (flush_pending_with_indent i opts st)"

definition group_mode :: "doc \<Rightarrow> layout_mode \<Rightarrow> render_opts \<Rightarrow> render_state \<Rightarrow> frame list \<Rightarrow> layout_mode" where
  "group_mode inner mode opts st stack =
     (if mode = Flat then Flat
      else let remaining = max_width opts - col st
           in if fits_flat inner stack (int remaining) then Flat else Break)"

definition render_frame :: "frame \<Rightarrow> render_opts \<Rightarrow> render_state \<Rightarrow> frame list \<Rightarrow> render_state \<times> frame list" where
  "render_frame f opts st stack =
     (let i = fr_indent f; mode = fr_mode f in
      case fr_doc f of
        Empty \<Rightarrow> (st, stack)
      | Text s \<Rightarrow> (emit_text s ((flush_pending_with_indent i opts st)\<lparr>swallow_next_break := False\<rparr>), stack)
      | Concat items \<Rightarrow> (st, map (\<lambda>item. \<lparr>fr_indent = i, fr_mode = mode, fr_doc = item\<rparr>) items @ stack)
      | Indent off inner \<Rightarrow> (st, \<lparr>fr_indent = i + off, fr_mode = mode, fr_doc = inner\<rparr> # stack)
      | Group inner \<Rightarrow> (st, \<lparr>fr_indent = i, fr_mode = group_mode inner mode opts st stack, fr_doc = inner\<rparr> # stack)
      | ForceFlat inner \<Rightarrow> (st, \<lparr>fr_indent = i, fr_mode = Flat, fr_doc = inner\<rparr> # stack)
      | Line sep \<Rightarrow> (case mode of Flat \<Rightarrow> emit_plain sep (flush_pending st) | Break \<Rightarrow> emit_break i opts st, stack)
      | Hardline \<Rightarrow> (case mode of Flat \<Rightarrow> flat_space st | Break \<Rightarrow> emit_break i opts st, stack)
      | DedentHardline level \<Rightarrow>
          (case mode of Flat \<Rightarrow> flat_space st | Break \<Rightarrow> emit_break i opts (dedent_trim level opts st), stack)
      | Comments cs \<Rightarrow> (render_comments cs i opts st, stack)
      | IfBreak s \<Rightarrow> (if mode = Break then emit_padding i opts s st else st, stack)
      | IfBreakPad width \<Rightarrow> (if mode = Break \<and> 0 < width then emit_padding i opts (spaces width) st else st, stack)
      | Pad width \<Rightarrow> (if 0 < width then emit_padding i opts (spaces width) st else st, stack)
      | IfFlatPad width \<Rightarrow> (if mode = Flat \<and> 0 < width then emit_padding i opts (spaces width) st else st, stack)
      | Anchored a \<Rightarrow> (emit_anchored a i opts st, stack))"

subsection \<open>The loop\<close>

definition stack_weight :: "frame list \<Rightarrow> nat" where
  "stack_weight stack = sum_list (map (\<lambda>f. weight (fr_doc f)) stack)"

lemma concat_weight: "sum_list (map weight ds) \<le> sum_list (map (\<lambda>d. Suc (weight d)) ds)"
  by (induction ds) simp_all

lemma render_frame_weight: "stack_weight (snd (render_frame f opts st stack)) < weight (fr_doc f) + stack_weight stack"
  using concat_weight
  by (cases "fr_doc f") (auto simp: render_frame_def stack_weight_def Let_def comp_def less_Suc_eq_le le_SucI)

function render_loop :: "render_opts \<Rightarrow> render_state \<Rightarrow> frame list \<Rightarrow> render_state" where
  "render_loop opts st [] = st"
| "render_loop opts st (f # stack) = (case render_frame f opts st stack of (st', stack') \<Rightarrow> render_loop opts st' stack')"
  by pat_completeness auto
termination render_loop
proof (relation "measure (\<lambda>(_, _, stack). stack_weight stack)")
  show "((opts, x, y), opts, st, f # stack) \<in> measure (\<lambda>(_, _, stack). stack_weight stack)"
    if "(x, y) = render_frame f opts st stack" for opts st f stack x y
    using render_frame_weight [of f opts st stack] that [symmetric] by (simp add: stack_weight_def)
qed simp

fun split_on_from :: "string \<Rightarrow> nat \<Rightarrow> string \<Rightarrow> string list" where
  "split_on_from nl 0 [] = [[]]"
| "split_on_from nl 0 (c # s) =
     (if take (length nl) (c # s) = nl then [] # split_on_from nl (length nl - 1) s
      else (case split_on_from nl 0 s of [] \<Rightarrow> [[c]] | l # ls \<Rightarrow> (c # l) # ls))"
| "split_on_from nl (Suc skip) [] = [[]]"
| "split_on_from nl (Suc skip) (c # s) = split_on_from nl skip s"

text \<open>\<open>str::split\<close>; an empty pattern matches at every character boundary.\<close>

definition split_on :: "string \<Rightarrow> string \<Rightarrow> string list" where
  "split_on nl s = (if nl = [] then [[]] @ map (\<lambda>c. [c]) s @ [[]] else split_on_from nl 0 s)"

definition trim_end :: "string \<Rightarrow> string" where
  "trim_end s = rev (dropWhile (\<lambda>c. c \<in> {CHR '' '', CHR 0x09}) (rev s))"

fun join :: "string \<Rightarrow> string list \<Rightarrow> string" where
  "join nl [] = []"
| "join nl [l] = l"
| "join nl (l # ls) = l @ nl @ join nl ls"

definition strip_trailing_whitespace :: "string \<Rightarrow> string \<Rightarrow> string" where
  "strip_trailing_whitespace s nl = join nl (map trim_end (split_on nl s))"

definition render_inner :: "doc \<Rightarrow> render_opts \<Rightarrow> string \<times> rendered_anchor list" where
  "render_inner d opts =
     (let st = render_loop opts initial_state [\<lparr>fr_indent = 0, fr_mode = Break, fr_doc = d\<rparr>]
      in (if strip_trailing opts then strip_trailing_whitespace (out st) (newline opts) else out st, anchors st))"

definition render_doc :: "doc \<Rightarrow> render_opts \<Rightarrow> string" where
  "render_doc d opts = fst (render_inner d opts)"

definition render_with_anchors :: "doc \<Rightarrow> render_opts \<Rightarrow> string \<times> rendered_anchor list" where
  "render_with_anchors d opts = render_inner d opts"

end
