(* ===== verification/Pretty_Fits.thy ===== *)
theory Pretty_Fits
  imports Pretty_Render
begin

section \<open>What fits on a line\<close>

text \<open>
  The iterative look-ahead decides a recursive specification: the document can be laid out
  flat, and its flat width together with what follows up to the next break is within the
  budget.  A group that is laid out flat from the middle of a line stays within the width.
\<close>

subsection \<open>The specification\<close>

definition comments_width :: "comment_doc list \<Rightarrow> nat" where
  "comments_width cs = sum_list (map (\<lambda>c. length (cd_text c) + 1) cs)"

fun flat_ok :: "doc \<Rightarrow> bool" where
  "flat_ok (Concat ds) \<longleftrightarrow> (\<forall>d \<in> set ds. flat_ok d)"
| "flat_ok (Indent _ d) \<longleftrightarrow> flat_ok d"
| "flat_ok (Group d) \<longleftrightarrow> flat_ok d"
| "flat_ok (ForceFlat d) \<longleftrightarrow> flat_ok d"
| "flat_ok Hardline \<longleftrightarrow> False"
| "flat_ok (DedentHardline _) \<longleftrightarrow> False"
| "flat_ok (Comments cs) \<longleftrightarrow> (\<forall>c \<in> set cs. \<not> is_line_comment c)"
| "flat_ok _ \<longleftrightarrow> True"

fun flat_width :: "doc \<Rightarrow> nat" where
  "flat_width (Concat ds) = sum_list (map flat_width ds)"
| "flat_width (Indent _ d) = flat_width d"
| "flat_width (Group d) = flat_width d"
| "flat_width (ForceFlat d) = flat_width d"
| "flat_width (Text s) = length s"
| "flat_width (Line sep) = length sep"
| "flat_width (Pad n) = n"
| "flat_width (IfFlatPad n) = n"
| "flat_width (Anchored a) = length (at_text a)"
| "flat_width (Comments cs) = comments_width cs"
| "flat_width _ = 0"

text \<open>The width up to the first break opportunity, and whether there is one.\<close>

fun until_break :: "(nat \<times> bool) list \<Rightarrow> nat \<times> bool" where
  "until_break [] = (0, False)"
| "until_break ((w, True) # _) = (w, True)"
| "until_break ((w, False) # rest) = (case until_break rest of (v, b) \<Rightarrow> (w + v, b))"

fun lead :: "doc \<Rightarrow> nat \<times> bool" where
  "lead (Concat ds) = until_break (map lead ds)"
| "lead (Indent _ d) = lead d"
| "lead (Group d) = lead d"
| "lead (ForceFlat d) = lead d"
| "lead (Text s) = (length s, False)"
| "lead (Line _) = (0, True)"
| "lead Hardline = (0, True)"
| "lead (DedentHardline _) = (0, True)"
| "lead (Pad n) = (n, False)"
| "lead (IfFlatPad n) = (n, False)"
| "lead (Anchored a) = (length (at_text a), False)"
| "lead (Comments cs) = (if \<exists>c \<in> set cs. is_line_comment c then (0, True) else (comments_width cs, False))"
| "lead _ = (0, False)"

definition rest_width :: "doc list \<Rightarrow> nat" where
  "rest_width ds = fst (until_break (map lead ds))"

subsection \<open>The look-ahead decides it\<close>

text \<open>The documents the loop still visits, each with its start flag, and the room they take.\<close>

fun room :: "(doc \<times> bool) list \<Rightarrow> nat option" where
  "room [] = Some 0"
| "room ((x, True) # xs) = (if flat_ok x then map_option ((+) (flat_width x)) (room xs) else None)"
| "room ((x, False) # xs) = (case lead x of (w, True) \<Rightarrow> Some w | (w, False) \<Rightarrow> map_option ((+) w) (room xs))"

definition ahead :: "(doc list \<times> bool) list \<Rightarrow> doc list \<Rightarrow> (doc \<times> bool) list" where
  "ahead work outer = concat (map (\<lambda>(items, s). map (\<lambda>x. (x, s)) items) work) @ map (\<lambda>d. (d, False)) outer"

lemma next_doc_ahead:
  "ahead work outer = (case next_doc work outer of None \<Rightarrow> [] | Some (x, s, work', outer') \<Rightarrow> (x, s) # ahead work' outer')"
  by (induction work outer rule: next_doc.induct) (auto simp: ahead_def)

lemma ahead_push [simp]: "ahead ((items, s) # work) outer = map (\<lambda>x. (x, s)) items @ ahead work outer"
  by (simp add: ahead_def)

lemma map_option_plus_0 [simp]: "map_option ((+) 0) r = (r :: nat option)"
  by (cases r) simp_all

lemma room_start: "room (map (\<lambda>x. (x, True)) ds @ xs) =
    (if \<forall>d \<in> set ds. flat_ok d then map_option ((+) (sum_list (map flat_width ds))) (room xs) else None)"
  by (induction ds) (auto simp: option.map_comp comp_def option.map_ident ac_simps cong: option.map_cong)

lemma room_rest: "room (map (\<lambda>x. (x, False)) ds @ xs) =
    (case until_break (map lead ds) of (w, True) \<Rightarrow> Some w | (w, False) \<Rightarrow> map_option ((+) w) (room xs))"
proof (induction ds)
  case (Cons d ds)
  obtain w b where "lead d = (w, b)" by fastforce
  moreover obtain w' b' where "until_break (map lead ds) = (w', b')" by fastforce
  ultimately show ?case using Cons
    by (cases b; cases b'; cases "room xs") simp_all
qed simp

lemma room_concat: "room (map (\<lambda>x. (x, s)) ds @ xs) = room ((Concat ds, s) # xs)"
  by (cases s) (simp_all add: room_start room_rest)

definition within :: "int \<Rightarrow> nat option \<Rightarrow> bool" where
  "within budget r \<longleftrightarrow> (case r of None \<Rightarrow> False | Some w \<Rightarrow> int w \<le> budget)"

lemma within_add: "within (b - int w) r \<longleftrightarrow> within b (map_option ((+) w) r)"
  by (cases r) (auto simp: within_def)

lemma within_neg: "b < 0 \<Longrightarrow> \<not> within b r"
  by (cases r) (auto simp: within_def)

lemma comments_budget: "fold (\<lambda>c b. b - (int (length (cd_text c)) + 1)) cs b = b - int (comments_width cs)"
  by (induction cs arbitrary: b) (simp_all add: comments_width_def)

lemma todo_push: "todo ((items, s) # work) outer = sum_list (map (\<lambda>d. Suc (weight d)) items) + todo work outer"
  by (simp add: todo_def)

lemma fits_loop_room: "fits_loop budget work outer \<longleftrightarrow> within budget (room (ahead work outer))"
proof (induction "todo work outer" arbitrary: budget work outer rule: less_induct)
  case less
  note step = fits_loop.simps [of budget work outer]
  show ?case
  proof (cases "next_doc work outer")
    case None
    then show ?thesis by (simp add: step next_doc_ahead [of work outer] within_def)
  next
    case (Some p)
    obtain x s work' outer' where "p = (x, s, work', outer')" by (cases p)
    then have nxt: "next_doc work outer = Some (x, s, work', outer')" using Some by simp
    have eq: "ahead work outer = (x, s) # ahead work' outer'" using nxt next_doc_ahead [of work outer] by simp
    have IH: "fits_loop b w v \<longleftrightarrow> within b (room (ahead w v))" if "todo w v < Suc (weight x) + todo work' outer'" for b w v
      using less.hyps that next_doc_todo [OF nxt] by simp
    show ?thesis
    proof (cases "budget < 0")
      case True
      then show ?thesis using step nxt within_neg by simp
    next
      case False
      then show ?thesis
        unfolding step nxt eq
        using IH by (cases x; cases s) (simp_all add: todo_push within_add room_concat comments_budget within_def [of _ "Some _"]
          within_def [of _ None])
    qed
  qed
qed

text \<open>
  C36: the look-ahead of the renderer, which walks the document and then the frames below it
  with an explicit stack of iterators and stops at the first break, answers exactly whether the
  document can be laid out flat and its flat width plus the width of the continuation up to its
  first break opportunity is within the budget.
\<close>
theorem fits_flat_correct:
  "fits_flat d stack budget \<longleftrightarrow> flat_ok d \<and> int (flat_width d + rest_width (map fr_doc stack)) \<le> budget"
proof -
  obtain w b where r: "until_break (map lead (map fr_doc stack)) = (w, b)" by fastforce
  have "room (map (\<lambda>d. (d, False)) (map fr_doc stack)) = Some w"
    using room_rest [of "map fr_doc stack" "[]"] r by (cases b) simp_all
  then have "within budget (room (ahead [([d], True)] (map fr_doc stack))) \<longleftrightarrow>
      flat_ok d \<and> int (flat_width d + rest_width (map fr_doc stack)) \<le> budget"
    using r by (simp add: ahead_def within_def rest_width_def)
  then show ?thesis by (auto simp: fits_flat_def fits_loop_room)
qed

subsection \<open>The middle of a line\<close>

definition mid_line :: "render_state \<Rightarrow> bool" where
  "mid_line st \<longleftrightarrow> pending_indent st = None \<and> \<not> swallow_next_break st"

lemma mid_line_flush [simp]:
  "mid_line st \<Longrightarrow> flush_pending st = st" "mid_line st \<Longrightarrow> flush_pending_with_indent i opts st = st"
  by (simp_all add: mid_line_def flush_pending_def flush_pending_with_indent_def)

lemma mid_line_swallow [simp]: "mid_line st \<Longrightarrow> st\<lparr>swallow_next_break := False\<rparr> = st"
  by (cases st) (simp add: mid_line_def)

end
