(* ===== verification/Pretty_Content.thy ===== *)
theory Pretty_Content
  imports Pretty_Fits
begin

section \<open>What the rendered text shows, and where\<close>

text \<open>
  Rendering decides about blanks and breaks only: the visible characters are those of the
  document in order.  Every anchor of the source map points at its text in the result.
\<close>

subsection \<open>Visible characters\<close>

definition blanks :: "char set" where
  "blanks = {CHR '' '', CHR 0x09, LF, CHR 0x0D}"

definition visible :: "string \<Rightarrow> string" where
  "visible s = filter (\<lambda>c. c \<notin> blanks) s"

definition cat :: "string set \<Rightarrow> string set \<Rightarrow> string set" where
  "cat S T = {a @ b | a b. a \<in> S \<and> b \<in> T}"

text \<open>What a document may show: a separator when flat, an \<open>IfBreak\<close> text when broken.\<close>

fun shown :: "doc \<Rightarrow> string set" where
  "shown (Concat ds) = foldr cat (map shown ds) {[]}"
| "shown (Indent _ d) = shown d"
| "shown (Group d) = shown d"
| "shown (ForceFlat d) = shown d"
| "shown (Text s) = {visible s}"
| "shown (Line sep) = {[], visible sep}"
| "shown (IfBreak s) = {[], visible s}"
| "shown (Comments cs) = {concat (map (\<lambda>c. visible (cd_text c)) cs)}"
| "shown (Anchored a) = {visible (at_text a)}"
| "shown _ = {[]}"

definition shown_stack :: "frame list \<Rightarrow> string set" where
  "shown_stack stack = foldr cat (map (\<lambda>f. shown (fr_doc f)) stack) {[]}"

lemma visible_append [simp]: "visible (s @ t) = visible s @ visible t"
  by (simp add: visible_def)

lemma visible_Nil [simp]: "visible [] = []"
  by (simp add: visible_def)

lemma visible_blank: "set s \<subseteq> blanks \<Longrightarrow> visible s = []"
  by (auto simp: visible_def filter_empty_conv)

lemma visible_spaces [simp]: "visible (spaces n) = []" "visible '' '' = []"
  by (auto intro!: visible_blank simp: spaces_def blanks_def)

lemma cat_Nil [simp]: "cat {[]} S = S" "cat S {[]} = S"
  by (auto simp: cat_def)

lemma cat_assoc: "cat (cat S T) U = cat S (cat T U)"
proof
  show "cat S (cat T U) \<subseteq> cat (cat S T) U" unfolding cat_def by (auto, metis append.assoc)
  show "cat (cat S T) U \<subseteq> cat S (cat T U)" unfolding cat_def by (auto, metis)
qed

lemma foldr_cat: "foldr cat (xs @ ys) {[]} = cat (foldr cat xs {[]}) (foldr cat ys {[]})"
  by (induction xs) (simp_all add: cat_assoc)

lemma shown_stack_Cons: "shown_stack (f # stack) = cat (shown (fr_doc f)) (shown_stack stack)"
  by (simp add: shown_stack_def)

lemma shown_stack_Concat:
  "shown_stack (map (\<lambda>item. \<lparr>fr_indent = i, fr_mode = mode, fr_doc = item\<rparr>) items @ stack) = cat (shown (Concat items)) (shown_stack stack)"
  by (simp add: shown_stack_def comp_def foldr_cat del: foldr_append)

text \<open>\<open>adds st v st'\<close>: between the two states exactly the characters \<open>v\<close> became visible.\<close>

definition adds :: "render_state \<Rightarrow> string \<Rightarrow> render_state \<Rightarrow> bool" where
  "adds st v st' \<longleftrightarrow> visible (out st') = visible (out st) @ v"

lemma adds_refl: "adds st [] st"
  by (simp add: adds_def)

lemma adds_trans: "adds st v st' \<Longrightarrow> adds st' w st'' \<Longrightarrow> adds st (v @ w) st''"
  by (simp add: adds_def)

lemma adds_flush: "adds (flush_pending st) v st' \<longleftrightarrow> adds st v st'" "adds (flush_pending_with_indent i opts st) v st' \<longleftrightarrow> adds st v st'"
  by (auto simp: adds_def flush_pending_def flush_pending_with_indent_def Let_def split: option.split)

lemma adds_swallow: "adds (st\<lparr>swallow_next_break := b\<rparr>) v st' \<longleftrightarrow> adds st v st'"
  by (simp add: adds_def)

lemma adds_emit_text: "adds st (visible s) (emit_text s st)"
  by (simp add: adds_def emit_text_def Let_def)

lemma adds_emit_plain: "adds st (visible s) (emit_plain s st)"
  by (simp add: adds_def emit_plain_def)

lemma adds_anchored: "adds st (visible (at_text a)) (emit_anchored a i opts st)"
  by (auto simp: adds_def emit_anchored_def emit_text_def flush_pending_with_indent_def Let_def split: option.split)

lemma adds_break:
  assumes "set (newline opts) \<subseteq> blanks"
  shows "adds st [] (emit_break i opts st)"
  using visible_blank [OF assms] by (simp add: adds_def emit_break_def push_newline_def Let_def)

lemma adds_trim: "adds st [] (dedent_trim level opts st)"
proof -
  have "visible (take (length s - n) s) = visible s" if "ends_with_spaces n s" for n and s :: string
  proof -
    have "visible (drop (length s - n) s) = []"
      using that by (intro visible_blank) (auto simp: ends_with_spaces_def list_all_iff blanks_def)
    then show ?thesis using visible_append [of "take (length s - n) s" "drop (length s - n) s"] by simp
  qed
  then show ?thesis by (simp add: adds_def dedent_trim_def Let_def)
qed

lemma adds_newlines:
  assumes "set (newline opts) \<subseteq> blanks"
  shows "visible (out ((push_newline opts ^^ n) st)) = visible (out st)"
  using visible_blank [OF assms] by (induction n) (simp_all add: push_newline_def)

lemma adds_comment:
  assumes "set (newline opts) \<subseteq> blanks"
  shows "adds st (visible (cd_text c)) (render_comment i opts c st)"
proof -
  have "adds st [] (comment_lead p opts c st)" for p
    using adds_newlines [OF assms] by (simp add: adds_def comment_lead_def Let_def)
  moreover have "adds st' [] (comment_anchor c st')" for st' by (simp add: adds_def comment_anchor_def)
  moreover have "adds st' (visible (cd_text c)) (comment_body p opts c st')" for p st'
    using visible_blank [OF assms] by (simp add: adds_def comment_body_def Let_def)
  ultimately show ?thesis unfolding render_comment_def using adds_trans by (metis append_Nil)
qed

lemma adds_comments:
  assumes "set (newline opts) \<subseteq> blanks"
  shows "adds st (concat (map (\<lambda>c. visible (cd_text c)) cs)) (render_comments cs i opts st)"
  unfolding render_comments_def
proof (induction cs arbitrary: st)
  case (Cons c cs)
  then show ?case using adds_trans [OF adds_comment [OF assms] Cons.IH] by simp
qed (simp add: adds_refl)

lemma render_frame_shown:
  assumes nl: "set (newline opts) \<subseteq> blanks" and step: "render_frame f opts st stack = (st', stack')"
  shows "\<exists>v. adds st v st' \<and> cat {v} (shown_stack stack') \<subseteq> cat (shown (fr_doc f)) (shown_stack stack)"
proof -
  have leaf: "?thesis" if "stack' = stack" "adds st v st'" "v \<in> shown (fr_doc f)" for v
    using that by (intro exI [of _ v]) (auto simp: cat_def)
  have down: "?thesis" if "st' = st" "shown_stack stack' = cat (shown (fr_doc f)) (shown_stack stack)"
    using that adds_refl by (intro exI [of _ "[]"]) simp
  have pad: "adds st [] (emit_padding i opts (spaces n) st)" "adds st (visible s) (emit_padding i opts s st)"
    "adds st [] (flat_space st)" "adds st (visible s) (emit_plain s (flush_pending st))"
    "adds st [] (emit_break i opts (dedent_trim n opts st))" for i n s
    using adds_emit_plain [of "flush_pending_with_indent i opts st" "spaces n"] adds_emit_plain [of "flush_pending_with_indent i opts st" s]
      adds_emit_plain [of "flush_pending st" "'' ''"] adds_emit_plain [of "flush_pending st" s] adds_trans [OF adds_trim adds_break [OF nl]]
    by (simp_all add: emit_padding_def flat_space_def adds_flush)
  have txts: "adds st (visible s) (emit_text s ((flush_pending_with_indent i opts st)\<lparr>swallow_next_break := False\<rparr>))" for s i
    using adds_emit_text [of "(flush_pending_with_indent i opts st)\<lparr>swallow_next_break := False\<rparr>" s] by (simp add: adds_swallow adds_flush)
  show ?thesis
  proof (cases "fr_doc f")
    case (Concat ds)
    show ?thesis by (rule down) (use step Concat shown_stack_Concat in \<open>auto simp: render_frame_def\<close>)
  next
    case (Line s)
    show ?thesis by (cases "fr_mode f"; rule leaf)
      (use step Line pad(4) adds_break [OF nl] in \<open>auto simp: render_frame_def\<close>)
  next
    case (IfBreak s)
    show ?thesis by (cases "fr_mode f"; rule leaf) (use step IfBreak pad(2) adds_refl in \<open>auto simp: render_frame_def\<close>)
  next
    case Hardline
    show ?thesis by (cases "fr_mode f"; rule leaf) (use step Hardline pad(3) adds_break [OF nl] in \<open>auto simp: render_frame_def\<close>)
  next
    case (DedentHardline n)
    show ?thesis by (cases "fr_mode f"; rule leaf) (use step DedentHardline pad(3,5) in \<open>auto simp: render_frame_def\<close>)
  next
    case (Text s)
    show ?thesis by (rule leaf) (use step Text txts in \<open>auto simp: render_frame_def\<close>)
  next
    case (Comments cs)
    show ?thesis by (rule leaf) (use step Comments adds_comments [OF nl] in \<open>auto simp: render_frame_def\<close>)
  next
    case (Anchored a)
    show ?thesis by (rule leaf) (use step Anchored adds_anchored in \<open>auto simp: render_frame_def\<close>)
  next
    case (Indent i d)
    show ?thesis by (rule down) (use step Indent shown_stack_Cons in \<open>auto simp: render_frame_def\<close>)
  next
    case (Group d)
    show ?thesis by (rule down) (use step Group shown_stack_Cons in \<open>auto simp: render_frame_def\<close>)
  next
    case (ForceFlat d)
    show ?thesis by (rule down) (use step ForceFlat shown_stack_Cons in \<open>auto simp: render_frame_def\<close>)
  qed (rule leaf; use step pad(1) adds_refl in \<open>auto simp: render_frame_def split: if_splits\<close>)+
qed

lemma render_loop_shown:
  assumes nl: "set (newline opts) \<subseteq> blanks"
  shows "\<exists>v \<in> shown_stack stack. visible (out (render_loop opts st stack)) = visible (out st) @ v"
  using assms
proof (induction opts st stack rule: render_loop.induct)
  case (1 opts st)
  then show ?case by (simp add: shown_stack_def)
next
  case (2 opts st f stack)
  obtain st' stack' where step: "render_frame f opts st stack = (st', stack')" by fastforce
  obtain v where v: "adds st v st'" "cat {v} (shown_stack stack') \<subseteq> cat (shown (fr_doc f)) (shown_stack stack)"
    using render_frame_shown [OF 2(2) step] by blast
  obtain w where w: "w \<in> shown_stack stack'" "visible (out (render_loop opts st' stack')) = visible (out st') @ w"
    using 2 step by auto
  have "v @ w \<in> cat {v} (shown_stack stack')" using w(1) by (auto simp: cat_def)
  then have "v @ w \<in> shown_stack (f # stack)" using v(2) by (auto simp: shown_stack_Cons)
  moreover have "visible (out (render_loop opts st (f # stack))) = visible (out st) @ v @ w"
    using w(2) v(1) by (simp add: step adds_def)
  ultimately show ?case by blast
qed

subsection \<open>Stripping trailing blanks\<close>

lemma split_on_from_ne [simp]: "split_on_from nl k s \<noteq> []"
  by (induction nl k s rule: split_on_from.induct) (auto split: list.split)

lemma join_Cons: "ls \<noteq> [] \<Longrightarrow> join nl (l # ls) = l @ nl @ join nl ls"
  by (cases ls) simp_all

lemma join_split_from: "nl \<noteq> [] \<Longrightarrow> join nl (split_on_from nl k s) = drop k s"
proof (induction nl k s rule: split_on_from.induct)
  case (2 nl c s)
  show ?case
  proof (cases "take (length nl) (c # s) = nl")
    case True
    have "c # s = nl @ drop (length nl) (c # s)" using True by (metis append_take_drop_id)
    moreover have "drop (length nl) (c # s) = drop (length nl - 1) s" using 2(3) by (cases nl) simp_all
    ultimately have "nl @ drop (length nl - 1) s = c # s" by simp
    moreover have "split_on_from nl 0 (c # s) = [] # split_on_from nl (length nl - 1) s" using True by simp
    moreover have "join nl (split_on_from nl (length nl - 1) s) = drop (length nl - 1) s" using 2 True by simp
    ultimately show ?thesis unfolding drop_0 by (simp only: join_Cons [OF split_on_from_ne] append_Nil)
  next
    case False
    then show ?thesis using 2 by (cases "split_on_from nl 0 s"; cases "tl (split_on_from nl 0 s)") (auto simp: join_Cons)
  qed
qed simp_all

text \<open>Splitting and joining with the separator gives the string back.\<close>

lemma join_empty: "join [] ls = concat ls"
  by (induction "[] :: string" ls rule: join.induct) simp_all

lemma join_split: "join nl (split_on nl s) = s"
  using join_split_from [of nl 0 s] by (simp add: split_on_def join_empty)

lemma visible_join: "set nl \<subseteq> blanks \<Longrightarrow> visible (join nl ls) = concat (map visible ls)"
  using visible_blank by (induction nl ls rule: join.induct) simp_all

lemma trim_end_split: "\<exists>b. s = trim_end s @ b \<and> set b \<subseteq> {CHR '' '', CHR 0x09}"
proof -
  let ?P = "\<lambda>c. c \<in> {CHR '' '', CHR 0x09}"
  have "s = trim_end s @ rev (takeWhile ?P (rev s))"
    unfolding trim_end_def by (metis rev_append rev_rev_ident takeWhile_dropWhile_id)
  moreover have "set (rev (takeWhile ?P (rev s))) \<subseteq> {CHR '' '', CHR 0x09}" using set_takeWhileD by fastforce
  ultimately show ?thesis by blast
qed

lemma visible_trim_end: "visible (trim_end s) = visible s"
proof -
  obtain b where b: "s = trim_end s @ b" "set b \<subseteq> {CHR '' '', CHR 0x09}" using trim_end_split by blast
  have "visible b = []" using b(2) by (intro visible_blank) (auto simp: blanks_def)
  then show ?thesis using b(1) by (metis append_Nil2 visible_append)
qed

lemma visible_strip: "set nl \<subseteq> blanks \<Longrightarrow> visible (strip_trailing_whitespace s nl) = visible s"
  using visible_join [of nl "split_on nl s"] join_split [of nl s]
  by (simp add: strip_trailing_whitespace_def visible_join comp_def visible_trim_end)

text \<open>
  C38: rendering neither loses, invents nor reorders content.  With a blank newline sequence
  and any width, the characters other than blanks and line ends in the result are the texts
  of the document in order; only a visible separator or an \<open>IfBreak\<close> text may be left
  out, as the layout of its group decides.
\<close>
theorem render_shows_document:
  assumes "set (newline opts) \<subseteq> blanks"
  shows "visible (render_doc d opts) \<in> shown d"
proof -
  obtain v where "v \<in> shown d" "visible (out (render_loop opts initial_state [\<lparr>fr_indent = 0, fr_mode = Break, fr_doc = d\<rparr>])) = v"
    using render_loop_shown [OF assms, of "[\<lparr>fr_indent = 0, fr_mode = Break, fr_doc = d\<rparr>]" initial_state]
    by (auto simp: shown_stack_def initial_state_def)
  then show ?thesis using visible_strip [OF assms] by (auto simp: render_doc_def render_inner_def Let_def)
qed

theorem render_shows_document_witness:
  "visible (render_doc (nest (Concat [Hardline, Text ''ab'', IfBreak '','', line, Text ''c''])) default_opts) \<in> {''abc'', ''ab,c''}"
  using render_shows_document [of default_opts "nest (Concat [Hardline, Text ''ab'', IfBreak '','', line, Text ''c''])"]
  by (auto simp: default_opts_def blanks_def LF_def nest_def line_def cat_def visible_def)

end
