(* ===== verification/Pretty_Anchors.thy ===== *)
theory Pretty_Anchors
  imports Pretty_Content
begin

section \<open>Source-map anchors of the renderer\<close>

text \<open>
  The line counter of the renderer is the line at the end of its output, and the column counter
  is the length of that line, except that a block comment of several lines sets it to 0; so
  every anchor names the line of its text, and its column unless such a comment ends on the
  same line.  Stripping trailing blanks keeps the anchors in place.  The flag \<open>x\<close> says that the
  columns are exact.
\<close>

subsection \<open>Positions\<close>

definition line_no :: "string \<Rightarrow> nat" where
  "line_no s = 1 + count_list s LF"

lemma line_no_append: "line_no (s @ t) = line_no s + count_list t LF"
  by (simp add: line_no_def)

lemma last_line_append: "last_line (s @ t) = (if LF \<in> set t then last_line t else last_line s @ t)"
proof (cases "LF \<in> set t")
  case True
  then show ?thesis by (simp add: last_line_def takeWhile_append1 [of LF])
next
  case False
  then have "takeWhile (\<lambda>c. c \<noteq> LF) (rev t @ rev s) = rev t @ takeWhile (\<lambda>c. c \<noteq> LF) (rev s)"
    by (intro takeWhile_append2) auto
  then show ?thesis using False by (simp add: last_line_def)
qed

lemma last_line_id: "LF \<notin> set s \<Longrightarrow> last_line s = s"
  using last_line_append [of "[]" s] by (simp add: last_line_def)

definition good_newline :: "string \<Rightarrow> bool" where
  "good_newline nl \<longleftrightarrow> nl \<in> {[LF], [CHR 0x0D, LF]}"

lemma good_newline_count: "good_newline nl \<Longrightarrow> count_list nl LF = 1"
  by (auto simp: good_newline_def LF_def)

lemma good_newline_last: "good_newline nl \<Longrightarrow> last_line (s @ nl) = []"
  by (auto simp: good_newline_def LF_def last_line_def)

lemma LF_spaces [simp]: "LF \<notin> set (spaces n)" "count_list (spaces n) LF = 0" "length (spaces n) = n"
  by (auto simp: spaces_def LF_def count_list_0_iff)

lemma space_not_LF [simp]: "CHR '' '' \<noteq> LF" "LF \<noteq> CHR '' ''"
  by (simp_all add: LF_def)

definition at_end :: "bool \<Rightarrow> render_state \<Rightarrow> bool" where
  "at_end x st \<longleftrightarrow> current_line st = line_no (out st) \<and> col st \<le> length (last_line (out st)) \<and> (x \<longrightarrow> col st = length (last_line (out st)))"

text \<open>A deferred indentation stands at the start of a line; a swallowed break has one.\<close>

definition at_start :: "render_state \<Rightarrow> bool" where
  "at_start st \<longleftrightarrow> (pending_indent st \<noteq> None \<longrightarrow> last_line (out st) = []) \<and> (swallow_next_break st \<longrightarrow> pending_indent st \<noteq> None)"

text \<open>
  What an anchor points at: the first line of its text, without the blanks and the carriage
  return at its end, which the renderer may trim.
\<close>

definition trims :: "char set" where
  "trims = {CHR '' '', CHR 0x09, CHR 0x0D}"

definition mark :: "string \<Rightarrow> string" where
  "mark t = rev (dropWhile (\<lambda>c. c \<in> trims) (rev (takeWhile (\<lambda>c. c \<noteq> LF) t)))"

lemma mark_props: "LF \<notin> set (mark t)" "mark t \<noteq> [] \<Longrightarrow> last (mark t) \<notin> trims" "\<exists>u. t = mark t @ u"
proof -
  let ?l = "takeWhile (\<lambda>c. c \<noteq> LF) t"
  show "LF \<notin> set (mark t)" unfolding mark_def by (auto dest!: set_dropWhileD set_takeWhileD)
  show "last (mark t) \<notin> trims" if "mark t \<noteq> []"
    using that hd_dropWhile [of "\<lambda>c. c \<in> trims" "rev ?l"] unfolding mark_def by (simp add: last_rev)
  have "?l = mark t @ rev (takeWhile (\<lambda>c. c \<in> trims) (rev ?l))" unfolding mark_def by (metis rev_append rev_rev_ident takeWhile_dropWhile_id)
  then show "\<exists>u. t = mark t @ u" by (metis append.assoc takeWhile_dropWhile_id)
qed

definition located :: "bool \<Rightarrow> string \<Rightarrow> rendered_anchor \<Rightarrow> bool" where
  "located x s a \<longleftrightarrow> 0 < dst_column a \<and> (\<exists>pre post. s = pre @ mark (ra_text a) @ post \<and> dst_line a = line_no pre
     \<and> (mark (ra_text a) \<noteq> [] \<longrightarrow> dst_column a \<le> length (last_line pre) + 1 \<and> (x \<longrightarrow> dst_column a = length (last_line pre) + 1)))"

definition tracked :: "bool \<Rightarrow> render_state \<Rightarrow> bool" where
  "tracked x st \<longleftrightarrow> at_end x st \<and> at_start st \<and> (\<forall>a \<in> set (anchors st). located x (out st) a)"

lemma located_append:
  assumes "located x s a"
  shows "located x (s @ t) a"
proof -
  obtain pre post where "s = pre @ mark (ra_text a) @ post" "dst_line a = line_no pre"
    "mark (ra_text a) \<noteq> [] \<longrightarrow> dst_column a \<le> length (last_line pre) + 1 \<and> (x \<longrightarrow> dst_column a = length (last_line pre) + 1)"
    using assms by (auto simp: located_def)
  then show ?thesis using assms unfolding located_def by (intro conjI exI [of _ pre] exI [of _ "post @ t"]) simp_all
qed

text \<open>The anchors a document asks for, with their sources, and which documents are followed.\<close>

definition anchor_key :: "rendered_anchor \<Rightarrow> string \<times> nat \<times> nat" where
  "anchor_key a = (ra_text a, ra_src_line a, ra_src_column a)"

definition comment_keys :: "comment_doc \<Rightarrow> (string \<times> nat \<times> nat) list" where
  "comment_keys c = (if cd_src_line c \<noteq> 0 \<and> cd_src_column c \<noteq> 0 then [(cd_text c, cd_src_line c, cd_src_column c)] else [])"

fun doc_keys :: "doc \<Rightarrow> (string \<times> nat \<times> nat) list" where
  "doc_keys (Concat ds) = concat (map doc_keys ds)"
| "doc_keys (Indent _ d) = doc_keys d"
| "doc_keys (Group d) = doc_keys d"
| "doc_keys (ForceFlat d) = doc_keys d"
| "doc_keys (Comments cs) = concat (map comment_keys cs)"
| "doc_keys (Anchored a) = [(at_text a, at_src_line a, at_src_column a)]"
| "doc_keys _ = []"

text \<open>
  Separators and break-only texts hold no newline (the renderer does not count them there), and
  block comments stay on one line.
\<close>

fun plain_seps :: "doc \<Rightarrow> bool" where
  "plain_seps (Concat ds) \<longleftrightarrow> (\<forall>d \<in> set ds. plain_seps d)"
| "plain_seps (Indent _ d) \<longleftrightarrow> plain_seps d"
| "plain_seps (Group d) \<longleftrightarrow> plain_seps d"
| "plain_seps (ForceFlat d) \<longleftrightarrow> plain_seps d"
| "plain_seps (Line sep) \<longleftrightarrow> LF \<notin> set sep"
| "plain_seps (IfBreak s) \<longleftrightarrow> LF \<notin> set s"
| "plain_seps _ \<longleftrightarrow> True"

definition one_line :: "comment_doc \<Rightarrow> bool" where
  "one_line c \<longleftrightarrow> is_line_comment c \<or> LF \<notin> set (cd_text c)"

fun one_line_blocks :: "doc \<Rightarrow> bool" where
  "one_line_blocks (Concat ds) \<longleftrightarrow> (\<forall>d \<in> set ds. one_line_blocks d)"
| "one_line_blocks (Indent _ d) \<longleftrightarrow> one_line_blocks d"
| "one_line_blocks (Group d) \<longleftrightarrow> one_line_blocks d"
| "one_line_blocks (ForceFlat d) \<longleftrightarrow> one_line_blocks d"
| "one_line_blocks (Comments cs) \<longleftrightarrow> (\<forall>c \<in> set cs. one_line c)"
| "one_line_blocks _ \<longleftrightarrow> True"

definition followed :: "bool \<Rightarrow> doc \<Rightarrow> bool" where
  "followed x d \<longleftrightarrow> plain_seps d \<and> (x \<longrightarrow> one_line_blocks d)"

lemma followed_simps [simp]:
  "followed x (Concat ds) \<longleftrightarrow> (\<forall>d \<in> set ds. followed x d)" "followed x (Indent n d) \<longleftrightarrow> followed x d"
  "followed x (Group d) \<longleftrightarrow> followed x d" "followed x (ForceFlat d) \<longleftrightarrow> followed x d"
  "followed x (Line s) \<longleftrightarrow> LF \<notin> set s" "followed x (IfBreak s) \<longleftrightarrow> LF \<notin> set s"
  "followed x (Comments cs) \<longleftrightarrow> (x \<longrightarrow> (\<forall>c \<in> set cs. one_line c))"
  by (auto simp: followed_def)

subsection \<open>Emission keeps the positions\<close>

text \<open>\<open>follows x st ks st'\<close>: the positions stay right and the anchors grow by the keys \<open>ks\<close>.\<close>

definition follows :: "bool \<Rightarrow> render_state \<Rightarrow> (string \<times> nat \<times> nat) list \<Rightarrow> render_state \<Rightarrow> bool" where
  "follows x st ks st' \<longleftrightarrow> (tracked x st \<longrightarrow> tracked x st') \<and> map anchor_key (anchors st') = map anchor_key (anchors st) @ ks"

lemma follows_refl: "follows x st [] st"
  by (simp add: follows_def)

lemma follows_trans: "follows x st ks st' \<Longrightarrow> follows x st' ls st'' \<Longrightarrow> follows x st (ks @ ls) st''"
  by (simp add: follows_def)

lemma follows_step: "follows x st [] st' \<Longrightarrow> follows x st' ks st'' \<Longrightarrow> follows x st ks st''"
  "follows x st ks st' \<Longrightarrow> follows x st' [] st'' \<Longrightarrow> follows x st ks st''"
  by (simp_all add: follows_def)

lemma tracked_append:
  assumes "tracked x st" "out st' = out st @ s" "anchors st' = anchors st" "at_end x st'" "at_start st'"
  shows "tracked x st'"
  using assms located_append by (simp add: tracked_def)

text \<open>The deferred indentation is written before content, and a pending swallow is dropped.\<close>

definition flushed :: "(render_state \<Rightarrow> render_state) \<Rightarrow> render_state \<Rightarrow> render_state" where
  "flushed flush st = (flush st)\<lparr>swallow_next_break := False\<rparr>"

lemma flushed_follows:
  assumes "flush = flush_pending \<or> flush = flush_pending_with_indent i opts"
  shows "follows x st [] (flushed flush st)" "mid_line (flushed flush st)"
proof -
  have mid: "mid_line (flushed flush st)" and keys: "anchors (flushed flush st) = anchors st"
    using assms by (auto simp: flushed_def mid_line_def flush_pending_def flush_pending_with_indent_def Let_def split: option.split)
  have "tracked x (flushed flush st)" if t: "tracked x st"
  proof -
    have "\<exists>n. out (flushed flush st) = out st @ spaces n \<and> col (flushed flush st) = col st + n \<and> current_line (flushed flush st) = current_line st"
      using assms t by (auto simp: flushed_def flush_pending_def flush_pending_with_indent_def tracked_def at_start_def at_end_def Let_def spaces_def split: option.split)
    then obtain n where n: "out (flushed flush st) = out st @ spaces n" "col (flushed flush st) = col st + n" "current_line (flushed flush st) = current_line st" by blast
    show ?thesis
    proof (rule tracked_append [OF t n(1) keys])
      show "at_end x (flushed flush st)" using t n by (simp add: at_end_def tracked_def line_no_append last_line_append)
    qed (use mid in \<open>simp add: at_start_def mid_line_def\<close>)
  qed
  then show "follows x st [] (flushed flush st)" using keys by (simp add: follows_def)
  show "mid_line (flushed flush st)" by (rule mid)
qed

lemma mid_line_start: "mid_line st \<Longrightarrow> at_start st"
  by (simp add: mid_line_def at_start_def)

lemma emit_plain_follows:
  assumes "mid_line st" "LF \<notin> set s"
  shows "follows x st [] (emit_plain s st)"
proof -
  have "tracked x (emit_plain s st)" if "tracked x st"
    by (rule tracked_append [OF that, of _ s])
      (use that assms in \<open>simp_all add: emit_plain_def at_end_def at_start_def mid_line_def tracked_def line_no_append last_line_append count_list_0_iff\<close>)
  then show ?thesis by (simp add: follows_def emit_plain_def)
qed

lemma emit_text_at_end: "at_end x st \<Longrightarrow> at_end x (emit_text s st)"
  by (auto simp: emit_text_def at_end_def line_no_append last_line_append count_list_0_iff Let_def)

lemma emit_text_out: "out (emit_text s st) = out st @ s" "anchors (emit_text s st) = anchors st" "mid_line (emit_text s st) = mid_line st"
  by (simp_all add: emit_text_def mid_line_def Let_def)

lemma mid_line_anchors: "mid_line (st\<lparr>anchors := as\<rparr>) = mid_line st"
  by (simp add: mid_line_def)

lemma emit_text_follows:
  assumes "mid_line st"
  shows "follows x st [] (emit_text s st)"
proof -
  have "tracked x (emit_text s st)" if "tracked x st"
    using that assms by (intro tracked_append [OF that, of _ s])
      (simp_all add: emit_text_out emit_text_at_end mid_line_start tracked_def)
  then show ?thesis by (simp add: follows_def emit_text_out)
qed

text \<open>An anchor pushed right before its text.\<close>

lemma anchor_located:
  assumes "at_end x st" "out st' = out st @ t @ post"
  shows "located x (out st') \<lparr>dst_line = current_line st, dst_column = col st + 1, ra_src_line = l, ra_src_column = c, ra_text = t\<rparr>"
proof -
  obtain u where "t = mark t @ u" using mark_props(3) by blast
  then have "out st' = out st @ mark t @ u @ post" using assms(2) by (metis append.assoc)
  then show ?thesis using assms(1) unfolding located_def at_end_def by (intro conjI exI [of _ "out st"] exI [of _ "u @ post"]) simp_all
qed

lemma emit_anchored_follows: "follows x st [(at_text a, at_src_line a, at_src_column a)] (emit_anchored a i opts st)"
proof -
  let ?s = "flushed (flush_pending_with_indent i opts) st"
  let ?a = "\<lparr>dst_line = current_line ?s, dst_column = col ?s + 1, ra_src_line = at_src_line a, ra_src_column = at_src_column a, ra_text = at_text a\<rparr>"
  have eq: "emit_anchored a i opts st = emit_text (at_text a) (?s\<lparr>anchors := anchors ?s @ [?a]\<rparr>)"
    by (simp add: emit_anchored_def flushed_def Let_def)
  have mid: "mid_line ?s" by (rule flushed_follows(2)) blast
  have "tracked x (emit_anchored a i opts st)" if t: "tracked x ?s"
  proof -
    have "at_end x (?s\<lparr>anchors := anchors ?s @ [?a]\<rparr>)" using t by (simp add: tracked_def at_end_def)
    then have "at_end x (emit_anchored a i opts st)" unfolding eq by (rule emit_text_at_end)
    moreover have "at_start (emit_anchored a i opts st)"
      unfolding eq by (rule mid_line_start) (use mid in \<open>simp add: emit_text_out mid_line_anchors\<close>)
    moreover have "located x (out ?s @ at_text a) b" if "b \<in> set (anchors ?s)" for b
      using t that located_append by (simp add: tracked_def)
    moreover have "located x (out ?s @ at_text a) ?a"
      using anchor_located [of x ?s "?s\<lparr>out := out ?s @ at_text a\<rparr>" "at_text a" "[]"] t by (simp add: tracked_def)
    ultimately show ?thesis by (auto simp: tracked_def eq emit_text_out)
  qed
  then have "follows x ?s [(at_text a, at_src_line a, at_src_column a)] (emit_anchored a i opts st)"
    by (simp add: follows_def eq emit_text_out anchor_key_def)
  then show ?thesis by (rule follows_step(1) [rotated]) (rule flushed_follows(1), blast)
qed

subsection \<open>Breaks\<close>

lemma push_newline_follows:
  assumes "good_newline (newline opts)"
  shows "follows x st [] (push_newline opts st)"
proof -
  have "tracked x (push_newline opts st)" if "tracked x st"
    by (rule tracked_append [OF that, of _ "newline opts"])
      (use that good_newline_count [OF assms] good_newline_last [OF assms] in
        \<open>simp_all add: push_newline_def at_end_def at_start_def tracked_def line_no_append\<close>)
  then show ?thesis by (simp add: follows_def push_newline_def)
qed

lemma tracked_pend:
  assumes "tracked x st" "last_line (out st) = []"
  shows "tracked x (st\<lparr>swallow_next_break := b, pending_indent := Some n\<rparr>)"
  using assms by (simp add: tracked_def at_end_def at_start_def)

lemma emit_break_follows:
  assumes "good_newline (newline opts)"
  shows "follows x st [] (emit_break i opts st)"
proof (cases "swallow_next_break st")
  case True
  then show ?thesis
    using tracked_pend [where st = st and b = False and n = "pad_for i opts"] by (auto simp: follows_def emit_break_def tracked_def at_start_def)
next
  case False
  let ?s = "push_newline opts st"
  have "follows x st [] ?s" by (rule push_newline_follows [OF assms])
  moreover have "last_line (out ?s) = []" "emit_break i opts st = ?s\<lparr>swallow_next_break := False, pending_indent := Some (pad_for i opts)\<rparr>"
    using False good_newline_last [OF assms] by (simp_all add: push_newline_def emit_break_def)
  ultimately show ?thesis using tracked_pend [where st = ?s and b = False and n = "pad_for i opts"] by (simp add: follows_def)
qed

lemma ends_with_spaces_split:
  assumes "ends_with_spaces n s"
  shows "s = take (length s - n) s @ spaces n"
proof -
  have "drop (length s - n) s = spaces n"
    using assms unfolding ends_with_spaces_def spaces_def by (intro nth_equalityI) (auto simp: list_all_length)
  then show ?thesis by (metis append_take_drop_id)
qed

text \<open>Characters of \<open>trims\<close> at the end of a string can go without touching a mark in it.\<close>

lemma mark_before_trims:
  assumes "s @ b = p @ m @ q" "set b \<subseteq> trims" "m \<noteq> []" "last m \<notin> trims"
  shows "\<exists>r. s = p @ m @ r"
  using assms(1,2)
proof (induction b arbitrary: q rule: rev_induct)
  case (snoc c b)
  show ?case
  proof (cases q rule: rev_cases)
    case Nil
    then have "c = last m" using arg_cong [OF snoc.prems(1), of last] assms(3) by simp
    then show ?thesis using snoc.prems(2) assms(4) by simp
  next
    case (snoc r d)
    then have "s @ b = p @ m @ r" using snoc.prems(1) by simp
    then show ?thesis using snoc.IH snoc.prems(2) by simp
  qed
qed simp

lemma located_trim:
  assumes "located x (s @ spaces n) a"
  shows "located x s a"
proof -
  obtain pre post where loc: "s @ spaces n = pre @ mark (ra_text a) @ post" "dst_line a = line_no pre" "0 < dst_column a"
    "mark (ra_text a) \<noteq> [] \<longrightarrow> dst_column a \<le> length (last_line pre) + 1 \<and> (x \<longrightarrow> dst_column a = length (last_line pre) + 1)"
    using assms by (auto simp: located_def)
  show ?thesis
  proof (cases "mark (ra_text a) = []")
    case True
    then have pre: "s @ spaces n = pre @ post" using loc(1) by simp
    have "\<exists>v w. s = v @ w \<and> line_no v = line_no pre"
    proof (cases "length pre \<le> length s")
      case True
      then have "s = pre @ take (length s - length pre) post" using arg_cong [OF pre, of "take (length s)"] by simp
      then show ?thesis by blast
    next
      case False
      then have "pre = s @ take (length pre - length s) (spaces n)" using arg_cong [OF pre, of "take (length pre)"] by simp
      moreover have "count_list (take (length pre - length s) (spaces n)) LF = 0"
        by (auto simp: count_list_0_iff spaces_def LF_def dest: in_set_takeD)
      ultimately have "line_no pre = line_no s" using line_no_append [of s "take (length pre - length s) (spaces n)"] by simp
      then show ?thesis by (intro exI [of _ s] exI [of _ "[]"]) simp
    qed
    then show ?thesis using loc(2,3) True by (auto simp: located_def)
  next
    case False
    have "set (spaces n) \<subseteq> trims" by (auto simp: spaces_def trims_def)
    then obtain r where "s = pre @ mark (ra_text a) @ r"
      using mark_before_trims [OF loc(1) _ False] mark_props(2) [OF False] by blast
    then show ?thesis using loc(2-4) unfolding located_def by blast
  qed
qed

lemma dedent_trim_follows: "follows x st [] (dedent_trim level opts st)"
proof -
  let ?n = "level * indent_width opts"
  have "tracked x (dedent_trim level opts st)"
    if t: "tracked x st" and c: "0 < ?n" "pending_indent st = None" "ends_with_spaces ?n (out st)"
  proof -
    let ?o = "take (length (out st) - ?n) (out st)"
    have o: "out st = ?o @ spaces ?n" by (rule ends_with_spaces_split [OF c(3)])
    have "line_no (out st) = line_no ?o" "length (last_line (out st)) = length (last_line ?o) + ?n"
      using arg_cong [OF o, of line_no] arg_cong [OF o, of last_line]
      by (simp_all add: line_no_append last_line_append)
    then have pos: "current_line st = line_no ?o" "col st - ?n \<le> length (last_line ?o)" "x \<longrightarrow> col st - ?n = length (last_line ?o)"
      using t by (auto simp: tracked_def at_end_def)
    have "dedent_trim level opts st = st\<lparr>out := ?o, col := col st - ?n\<rparr>"
      using c by (simp add: dedent_trim_def Let_def)
    moreover have "located x ?o a" if "a \<in> set (anchors st)" for a
      using located_trim [of x ?o ?n a] t that by (simp only: o [symmetric] tracked_def)
    ultimately show ?thesis using t c(2) pos by (simp add: tracked_def at_end_def at_start_def)
  qed
  then show ?thesis by (auto simp: follows_def dedent_trim_def Let_def)
qed

subsection \<open>Comments\<close>

lemma push_newlines_follows:
  assumes "good_newline (newline opts)"
  shows "follows x st [] ((push_newline opts ^^ n) st)" "0 < n \<or> last_line (out st) = [] \<Longrightarrow> last_line (out ((push_newline opts ^^ n) st)) = []"
proof -
  show "follows x st [] ((push_newline opts ^^ n) st)"
    using follows_refl follows_step(2) [OF _ push_newline_follows [OF assms]] by (induction n) simp_all
  show "last_line (out ((push_newline opts ^^ n) st)) = []" if "0 < n \<or> last_line (out st) = []"
    using that good_newline_last [OF assms] by (cases n) (simp_all add: push_newline_def)
qed

lemma push_newlines_swallow [simp]: "swallow_next_break ((push_newline opts ^^ n) st) = swallow_next_break st"
  by (induction n) (simp_all add: push_newline_def)

lemma comment_lead_follows:
  assumes nl: "good_newline (newline opts)"
  shows "follows x st [] (comment_lead p opts c st)" "mid_line (comment_lead p opts c st)"
proof -
  let ?s = "st\<lparr>swallow_next_break := False\<rparr>"
  show mid: "mid_line (comment_lead p opts c st)" by (simp add: comment_lead_def mid_line_def Let_def)
  show "follows x st [] (comment_lead p opts c st)"
  proof (cases "leading_newlines c = 0 \<and> \<not> swallow_next_break st \<and> pending_indent st = None")
    case True
    then have m: "mid_line st" by (simp add: mid_line_def)
    then have "comment_lead p opts c st = (if 0 < col st then emit_plain '' '' st else st)"
      using True by (simp add: comment_lead_def emit_plain_def Let_def)
    then show ?thesis using emit_plain_follows [OF m, of "'' ''"] follows_refl by simp
  next
    case False
    let ?b = "swallow_next_break st \<or> pending_indent st \<noteq> None"
    let ?n = "max (leading_newlines c) 1 - (if ?b then 1 else 0)"
    let ?t = "(push_newline opts ^^ ?n) ?s"
    have eq: "comment_lead p opts c st = ?t\<lparr>out := out ?t @ spaces p, col := p, pending_indent := None\<rparr>"
      using False unfolding comment_lead_def Let_def by auto
    have "tracked x (comment_lead p opts c st)" if t: "tracked x st"
    proof -
      have "at_end x ?s \<longleftrightarrow> at_end x st" by (simp add: at_end_def)
      then have "tracked x ?s" using t by (simp add: tracked_def at_start_def)
      then have tt: "tracked x ?t" using push_newlines_follows(1) [OF nl, where st = ?s and n = ?n and x = x] by (simp add: follows_def)
      have "0 < ?n \<or> last_line (out ?s) = []"
      proof (cases ?b)
        case True
        then have "last_line (out st) = []" using t unfolding tracked_def at_start_def by blast
        then show ?thesis by simp
      qed (auto simp: max_def)
      then have c0: "last_line (out ?t) = []" by (rule push_newlines_follows(2) [OF nl])
      show ?thesis
      proof (rule tracked_append [OF tt, of _ "spaces p"])
        show "at_end x (comment_lead p opts c st)"
          using tt c0 unfolding eq by (simp add: at_end_def tracked_def line_no_append last_line_append)
      qed (use mid eq in \<open>simp_all add: mid_line_start\<close>)
    qed
    then show ?thesis
      using push_newlines_follows(1) [OF nl, where st = ?s and n = ?n and x = x] unfolding follows_def eq by simp
  qed
qed

lemma comment_rest_follows:
  assumes nl: "good_newline (newline opts)" and ok: "x \<longrightarrow> one_line c" and mid: "mid_line st"
  shows "follows x st (comment_keys c) (comment_body p opts c (comment_anchor c st))"
proof -
  let ?t = "comment_body p opts c (comment_anchor c st)"
  let ?post = "if is_line_comment c then newline opts else []"
  have outs: "out ?t = out st @ cd_text c @ ?post"
    by (simp add: comment_body_def comment_anchor_def Let_def)
  have lines: "current_line ?t = current_line st + count_list (cd_text c @ ?post) LF"
    using good_newline_count [OF nl] by (simp add: comment_body_def comment_anchor_def Let_def)
  have cols: "col ?t = (if is_line_comment c \<or> LF \<in> set (cd_text c) then 0 else col st + length (cd_text c))"
    by (auto simp: comment_body_def comment_anchor_def Let_def count_list_0_iff)
  have "tracked x ?t" if t: "tracked x st"
  proof -
    have "col ?t \<le> length (last_line (out ?t)) \<and> (x \<longrightarrow> col ?t = length (last_line (out ?t)))"
    proof (cases "is_line_comment c")
      case True
      then have "last_line (out ?t) = []" using good_newline_last [OF nl, of "out st @ cd_text c"] unfolding outs by simp
      then show ?thesis using True cols by simp
    next
      case False
      then show ?thesis using t ok cols unfolding outs by (simp add: tracked_def at_end_def last_line_append one_line_def)
    qed
    moreover have "line_no (out ?t) = current_line ?t"
      using t lines unfolding outs by (simp only: line_no_append tracked_def at_end_def)
    ultimately have "at_end x ?t" by (simp add: at_end_def)
    moreover have "at_start ?t"
    proof -
      have "last_line (out ?t) = []" if "is_line_comment c" using that good_newline_last [OF nl, of "out st @ cd_text c"] unfolding outs by simp
      moreover have "pending_indent ?t \<noteq> None \<longleftrightarrow> is_line_comment c" "swallow_next_break ?t \<longleftrightarrow> is_line_comment c"
        using mid by (auto simp: comment_body_def comment_anchor_def mid_line_def Let_def)
      ultimately show ?thesis by (simp add: at_start_def)
    qed
    moreover have "located x (out ?t) a" if a: "a \<in> set (anchors ?t)" for a
    proof -
      consider "a \<in> set (anchors st)" | "cd_src_line c \<noteq> 0 \<and> cd_src_column c \<noteq> 0"
        "a = \<lparr>dst_line = current_line st, dst_column = col st + 1, ra_src_line = cd_src_line c, ra_src_column = cd_src_column c, ra_text = cd_text c\<rparr>"
        using a by (auto simp: comment_body_def comment_anchor_def Let_def split: if_splits)
      then show ?thesis
      proof cases
        case 1
        then show ?thesis using t located_append unfolding outs by (simp add: tracked_def)
      next
        case 2
        have "at_end x st" using t by (simp add: tracked_def)
        from anchor_located [OF this outs] show ?thesis unfolding 2(2) .
      qed
    qed
    ultimately show ?thesis by (simp add: tracked_def)
  qed
  then show ?thesis
    by (simp add: follows_def comment_body_def comment_anchor_def comment_keys_def anchor_key_def Let_def)
qed

lemma render_comments_follows:
  assumes nl: "good_newline (newline opts)" and ok: "x \<longrightarrow> (\<forall>c \<in> set cs. one_line c)"
  shows "follows x st (concat (map comment_keys cs)) (render_comments cs i opts st)"
  unfolding render_comments_def using ok
proof (induction cs arbitrary: st)
  case (Cons c cs)
  have "follows x st (comment_keys c) (render_comment i opts c st)"
    unfolding render_comment_def
    using follows_step(1) [OF comment_lead_follows(1) [OF nl] comment_rest_follows [OF nl _ comment_lead_follows(2) [OF nl]]] Cons.prems by simp
  then show ?case using Cons follows_trans by fastforce
qed (simp add: follows_refl)

subsection \<open>The loop\<close>

lemma plain_follows:
  assumes "LF \<notin> set s"
  shows "follows x st [] (emit_plain s (flush_pending st))" "follows x st [] (emit_padding i opts s st)"
proof -
  have eq: "emit_plain s (f st) = emit_plain s (flushed f st)" for f by (simp add: emit_plain_def flushed_def)
  have "follows x st [] (emit_plain s (flushed f st))" if "f = flush_pending \<or> f = flush_pending_with_indent i opts" for f
    by (rule follows_step(1) [OF flushed_follows(1) emit_plain_follows [OF flushed_follows(2) assms]]) (use that in blast)+
  then show "follows x st [] (emit_plain s (flush_pending st))" "follows x st [] (emit_padding i opts s st)"
    by (simp_all add: emit_padding_def eq [of flush_pending] eq [of "flush_pending_with_indent i opts"])
qed

lemma text_follows: "follows x st [] (emit_text s ((flush_pending_with_indent i opts st)\<lparr>swallow_next_break := False\<rparr>))"
  unfolding flushed_def [symmetric]
  by (rule follows_step(1) [OF flushed_follows(1) emit_text_follows [OF flushed_follows(2)]]) blast+

lemma render_frame_follows:
  assumes nl: "good_newline (newline opts)" and ok: "followed x (fr_doc f)"
    and step: "render_frame f opts st stack = (st', stack')"
  shows "\<exists>ks. follows x st ks st' \<and> ks @ concat (map (doc_keys \<circ> fr_doc) stack') = doc_keys (fr_doc f) @ concat (map (doc_keys \<circ> fr_doc) stack)
    \<and> (\<forall>g \<in> set stack'. g \<in> set stack \<or> followed x (fr_doc g))"
proof -
  have leaf: "?thesis" if "stack' = stack" "follows x st (doc_keys (fr_doc f)) st'"
    using that by blast
  have down: "?thesis" if "st' = st" "concat (map (doc_keys \<circ> fr_doc) stack') = doc_keys (fr_doc f) @ concat (map (doc_keys \<circ> fr_doc) stack)"
    "\<forall>g \<in> set stack'. g \<in> set stack \<or> followed x (fr_doc g)"
    using that follows_refl by (intro exI [of _ "[]"]) simp
  note brk = emit_break_follows [OF nl] and trim = follows_step(1) [OF dedent_trim_follows emit_break_follows [OF nl]]
  have flat: "follows x st [] (flat_space st)" by (simp add: flat_space_def plain_follows)
  show ?thesis
  proof (cases "fr_doc f")
    case (Concat ds)
    show ?thesis by (rule down) (use step ok Concat in \<open>auto simp: render_frame_def comp_def\<close>)
  next
    case (Line s)
    show ?thesis by (cases "fr_mode f"; rule leaf) (use step ok Line plain_follows(1) brk in \<open>auto simp: render_frame_def\<close>)
  next
    case (IfBreak s)
    show ?thesis by (cases "fr_mode f"; rule leaf) (use step ok IfBreak plain_follows(2) follows_refl in \<open>auto simp: render_frame_def\<close>)
  next
    case Hardline
    show ?thesis by (cases "fr_mode f"; rule leaf) (use step Hardline flat brk in \<open>auto simp: render_frame_def\<close>)
  next
    case (DedentHardline n)
    show ?thesis by (cases "fr_mode f"; rule leaf) (use step DedentHardline flat trim in \<open>auto simp: render_frame_def\<close>)
  next
    case (Text s)
    show ?thesis by (rule leaf) (use step Text text_follows in \<open>auto simp: render_frame_def\<close>)
  next
    case (Comments cs)
    show ?thesis by (rule leaf) (use step ok Comments render_comments_follows [OF nl] in \<open>auto simp: render_frame_def\<close>)
  next
    case (Anchored a)
    show ?thesis by (rule leaf) (use step ok Anchored emit_anchored_follows in \<open>auto simp: render_frame_def\<close>)
  next
    case (Indent n d)
    show ?thesis by (rule down) (use step ok Indent in \<open>auto simp: render_frame_def\<close>)
  next
    case (Group d)
    show ?thesis by (rule down) (use step ok Group in \<open>auto simp: render_frame_def\<close>)
  next
    case (ForceFlat d)
    show ?thesis by (rule down) (use step ok ForceFlat in \<open>auto simp: render_frame_def\<close>)
  qed (rule leaf; use step plain_follows(2) follows_refl in \<open>auto simp: render_frame_def split: if_splits\<close>)+
qed

lemma render_loop_follows:
  assumes "good_newline (newline opts)" "\<forall>f \<in> set stack. followed x (fr_doc f)"
  shows "follows x st (concat (map (doc_keys \<circ> fr_doc) stack)) (render_loop opts st stack)"
  using assms
proof (induction opts st stack rule: render_loop.induct)
  case (2 opts st f stack)
  obtain st' stack' where step: "render_frame f opts st stack = (st', stack')" by fastforce
  have ok: "followed x (fr_doc f)" using 2(3) by simp
  obtain ks where ks: "follows x st ks st'" "ks @ concat (map (doc_keys \<circ> fr_doc) stack') = concat (map (doc_keys \<circ> fr_doc) (f # stack))"
    "\<forall>g \<in> set stack'. g \<in> set stack \<or> followed x (fr_doc g)"
    using render_frame_follows [OF 2(2) ok step] by auto
  have all: "\<forall>g \<in> set stack'. followed x (fr_doc g)" using ks(3) 2(3) by auto
  have "follows x st' (concat (map (doc_keys \<circ> fr_doc) stack')) (render_loop opts st' stack')"
    using 2(1) [OF step [symmetric] 2(2)] all by blast
  then have "follows x st (ks @ concat (map (doc_keys \<circ> fr_doc) stack')) (render_loop opts st' stack')"
    by (rule follows_trans [OF ks(1)])
  then show ?case unfolding ks(2) by (simp add: step comp_def)
qed (simp add: follows_refl)

subsection \<open>Lines\<close>

definition lines_of :: "string \<Rightarrow> string list" where
  "lines_of s = split_on [LF] s"

lemma lines_of_simps [simp]:
  "lines_of [] = [[]]"
  "lines_of (c # s) = (if c = LF then [] # lines_of s else (c # hd (lines_of s)) # tl (lines_of s))"
  by (auto simp: lines_of_def split_on_def split: list.split)

lemma lines_of_ne [simp]: "lines_of s \<noteq> []"
  by (induction s) simp_all

lemma length_lines_of: "length (lines_of s) = line_no s"
  by (induction s) (simp_all add: line_no_def)

lemma hd_lines_of: "hd (lines_of s) = takeWhile (\<lambda>c. c \<noteq> LF) s"
  by (induction s) simp_all

lemma last_line_Cons: "last_line (c # s) = (if LF \<in> set s then last_line s else if c = LF then s else c # s)"
  using last_line_append [of "[c]" s] by (auto simp: last_line_def)

lemma lines_of_nth: "lines_of (pre @ post) ! count_list pre LF = last_line pre @ takeWhile (\<lambda>c. c \<noteq> LF) post"
proof (induction pre)
  case Nil
  then show ?case using hd_lines_of [of post] by (simp add: hd_conv_nth last_line_def)
next
  case (Cons c pre)
  show ?case
  proof (cases "c = LF")
    case True
    then show ?thesis using Cons by (simp add: last_line_Cons last_line_id)
  next
    case c: False
    show ?thesis
    proof (cases "LF \<in> set pre")
      case True
      then obtain n where n: "count_list pre LF = Suc n" by (metis count_list_0_iff not0_implies_Suc)
      then show ?thesis using c Cons True by (simp add: last_line_Cons nth_tl length_lines_of line_no_def)
    next
      case False
      then show ?thesis using c Cons by (simp add: last_line_Cons last_line_id count_list_0_iff hd_conv_nth)
    qed
  qed
qed

lemma located_line:
  assumes "located x s a"
  shows "0 < dst_line a \<and> dst_line a \<le> length (lines_of s)
    \<and> (\<exists>p q. lines_of s ! (dst_line a - 1) = p @ mark (ra_text a) @ q
        \<and> (mark (ra_text a) \<noteq> [] \<longrightarrow> dst_column a \<le> length p + 1 \<and> (x \<longrightarrow> dst_column a = length p + 1)))"
proof -
  obtain pre post where loc: "s = pre @ mark (ra_text a) @ post" "dst_line a = line_no pre"
    "mark (ra_text a) \<noteq> [] \<longrightarrow> dst_column a \<le> length (last_line pre) + 1 \<and> (x \<longrightarrow> dst_column a = length (last_line pre) + 1)"
    using assms by (auto simp: located_def)
  have "takeWhile (\<lambda>c. c \<noteq> LF) (mark (ra_text a) @ post) = mark (ra_text a) @ takeWhile (\<lambda>c. c \<noteq> LF) post"
    using mark_props(1) [of "ra_text a"] by (intro takeWhile_append2) auto
  then have "lines_of s ! (dst_line a - 1) = last_line pre @ mark (ra_text a) @ takeWhile (\<lambda>c. c \<noteq> LF) post"
    using lines_of_nth [of pre "mark (ra_text a) @ post"] loc by (simp add: line_no_def)
  moreover have "dst_line a \<le> length (lines_of s)" using loc(1,2) by (simp add: length_lines_of line_no_append)
  ultimately show ?thesis using loc(2,3) by (auto simp: line_no_def)
qed

subsection \<open>Stripping keeps the anchors\<close>

text \<open>
  Stripping only takes blanks off the ends of lines, or from in front of the carriage return
  of a line end.
\<close>

definition trimmed :: "string \<Rightarrow> string \<Rightarrow> bool" where
  "trimmed l l' \<longleftrightarrow> (\<exists>u b e. l = u @ b @ e \<and> l' = u @ e \<and> set b \<subseteq> {CHR '' '', CHR 0x09} \<and> e \<in> {[], [CHR 0x0D]})"

lemma trimmed_refl: "trimmed l l"
  unfolding trimmed_def by (rule exI [of _ l], rule exI [of _ "[]"], rule exI [of _ "[]"]) simp

lemma trimmed_mark:
  assumes "trimmed (p @ m @ q) l" "m \<noteq> []" "last m \<notin> trims"
  shows "\<exists>r. l = p @ m @ r"
proof -
  obtain u b e where u: "u @ (b @ e) = p @ m @ q" "l = u @ e" "set b \<subseteq> {CHR '' '', CHR 0x09}" "e \<in> {[], [CHR 0x0D]}"
    using assms(1) unfolding trimmed_def by metis
  have "set (b @ e) \<subseteq> trims" using u(3,4) by (auto simp: trims_def)
  from mark_before_trims [OF u(1) this assms(2,3)] show ?thesis using u(2) by auto
qed

lemma lines_of_LF: "lines_of (s @ LF # t) = lines_of s @ lines_of t"
  by (induction s) simp_all

lemma lines_of_end: "LF \<notin> set e \<Longrightarrow> lines_of (s @ e) = butlast (lines_of s) @ [last (lines_of s) @ e]"
proof (induction s)
  case Nil
  have "lines_of e = [e]" using Nil by (induction e) auto
  then show ?case by simp
next
  case (Cons c s)
  then show ?case by (cases "lines_of s") auto
qed

lemma segment_trimmed:
  assumes "set b \<subseteq> {CHR '' '', CHR 0x09}" "e \<in> {[], [CHR 0x0D]}"
  shows "list_all2 trimmed (lines_of (u @ b @ e)) (lines_of (u @ e))"
proof -
  have no: "LF \<notin> set (b @ e)" "LF \<notin> set e" using assms by (auto simp: LF_def)
  have "trimmed (last (lines_of u) @ b @ e) (last (lines_of u) @ e)" using assms unfolding trimmed_def by blast
  then show ?thesis
    unfolding lines_of_end [OF no(1)] lines_of_end [OF no(2)]
    by (simp add: list_all2_appendI list.rel_refl trimmed_refl)
qed

lemma strip_lines:
  assumes "good_newline nl"
  shows "list_all2 trimmed (lines_of s) (lines_of (strip_trailing_whitespace s nl))"
proof -
  obtain e where e: "nl = e @ [LF]" "e \<in> {[], [CHR 0x0D]}"
    using assms by (auto simp: good_newline_def)
  have trim: "\<exists>b. l = trim_end l @ b \<and> set b \<subseteq> {CHR '' '', CHR 0x09}" for l
    using trim_end_split [of l] by auto
  have "list_all2 trimmed (lines_of (join nl ls)) (lines_of (join nl (map trim_end ls)))" for ls
  proof (induction ls)
    case (Cons l ls)
    obtain b where b: "l = trim_end l @ b" "set b \<subseteq> {CHR '' '', CHR 0x09}" using trim by blast
    have seg: "list_all2 trimmed (lines_of (l @ e')) (lines_of (trim_end l @ e'))" if "e' \<in> {[], [CHR 0x0D]}" for e'
      using segment_trimmed [OF b(2) that, of "trim_end l"] b(1) by (metis append.assoc)
    show ?case
    proof (cases ls)
      case Nil
      then show ?thesis using seg [of "[]"] by simp
    next
      case (Cons k ks)
      have "lines_of (join nl (l # ls)) = lines_of (l @ e) @ lines_of (join nl ls)"
        "lines_of (join nl (map trim_end (l # ls))) = lines_of (trim_end l @ e) @ lines_of (join nl (map trim_end ls))"
        using lines_of_LF [of "l @ e"] lines_of_LF [of "trim_end l @ e"] by (simp_all add: e(1) Cons)
      then show ?thesis using seg [OF e(2)] Cons.IH by (simp add: list_all2_appendI)
    qed
  qed (simp add: trimmed_refl)
  from this [of "split_on nl s"] show ?thesis by (simp add: strip_trailing_whitespace_def join_split)
qed

text \<open>
  C39: the source map is right, for the newlines LF and CRLF and every document whose
  separators and break-only texts hold no newline (the renderer does not count lines in
  those).  The anchors are, in order, those of the document.  Each names an existing line of
  the result, and on it stands the mark of the anchor's text, that is its first line without
  the blanks at its end.  If the mark is not empty, the column never lies to the right of the
  mark, and if no block comment of the document spans several lines, it is the mark's first
  character; after such a comment the renderer restarts the column at 0, so only the line is
  exact.  All of this holds whether or not trailing blanks are stripped.
\<close>
theorem anchors_point_at_text:
  assumes "plain_seps d" "good_newline (newline opts)"
  shows "case render_with_anchors d opts of (text, as) \<Rightarrow>
    map anchor_key as = doc_keys d
    \<and> (\<forall>a \<in> set as. 0 < dst_line a \<and> dst_line a \<le> length (lines_of text) \<and> 0 < dst_column a
        \<and> (\<exists>p q. lines_of text ! (dst_line a - 1) = p @ mark (ra_text a) @ q
            \<and> (mark (ra_text a) \<noteq> [] \<longrightarrow> dst_column a \<le> length p + 1
                \<and> (one_line_blocks d \<longrightarrow> dst_column a = length p + 1))))"
proof -
  let ?f = "\<lparr>fr_indent = 0, fr_mode = Break, fr_doc = d\<rparr>" and ?x = "one_line_blocks d"
  let ?st = "render_loop opts initial_state [?f]"
  let ?text = "if strip_trailing opts then strip_trailing_whitespace (out ?st) (newline opts) else out ?st"
  have "follows ?x initial_state (concat (map (doc_keys \<circ> fr_doc) [?f])) ?st"
    by (rule render_loop_follows) (use assms in \<open>simp_all add: followed_def\<close>)
  moreover have "tracked ?x initial_state"
    by (simp add: initial_state_def tracked_def at_end_def at_start_def line_no_def last_line_def)
  ultimately have st: "tracked ?x ?st" "map anchor_key (anchors ?st) = doc_keys d"
    by (simp_all add: follows_def initial_state_def)
  have lines: "list_all2 trimmed (lines_of (out ?st)) (lines_of ?text)"
    using strip_lines [OF assms(2)] by (simp add: list.rel_refl trimmed_refl)
  have points: "0 < dst_line a \<and> dst_line a \<le> length (lines_of ?text) \<and> 0 < dst_column a
      \<and> (\<exists>p q. lines_of ?text ! (dst_line a - 1) = p @ mark (ra_text a) @ q
          \<and> (mark (ra_text a) \<noteq> [] \<longrightarrow> dst_column a \<le> length p + 1 \<and> (?x \<longrightarrow> dst_column a = length p + 1)))"
    if "a \<in> set (anchors ?st)" for a
  proof -
    have loc: "located ?x (out ?st) a" using st(1) that by (simp add: tracked_def)
    obtain p q where pq: "0 < dst_line a" "dst_line a \<le> length (lines_of (out ?st))"
      "lines_of (out ?st) ! (dst_line a - 1) = p @ mark (ra_text a) @ q"
      "mark (ra_text a) \<noteq> [] \<longrightarrow> dst_column a \<le> length p + 1 \<and> (?x \<longrightarrow> dst_column a = length p + 1)"
      using located_line [OF loc] by blast
    have len: "dst_line a \<le> length (lines_of ?text)" using pq(2) list_all2_lengthD [OF lines] by simp
    have "trimmed (p @ mark (ra_text a) @ q) (lines_of ?text ! (dst_line a - 1))"
      using list_all2_nthD [OF lines, of "dst_line a - 1"] pq(1-3) by simp
    then have "\<exists>r. mark (ra_text a) \<noteq> [] \<longrightarrow> lines_of ?text ! (dst_line a - 1) = p @ mark (ra_text a) @ r"
      using trimmed_mark mark_props(2) by blast
    then obtain r where "mark (ra_text a) \<noteq> [] \<longrightarrow> lines_of ?text ! (dst_line a - 1) = p @ mark (ra_text a) @ r" ..
    then have "\<exists>p q. lines_of ?text ! (dst_line a - 1) = p @ mark (ra_text a) @ q
        \<and> (mark (ra_text a) \<noteq> [] \<longrightarrow> dst_column a \<le> length p + 1 \<and> (?x \<longrightarrow> dst_column a = length p + 1))"
      using pq(4) by (cases "mark (ra_text a) = []") auto
    moreover have "0 < dst_column a" using loc by (simp add: located_def)
    ultimately show ?thesis using pq(1) len by blast
  qed
  have "render_with_anchors d opts = (?text, anchors ?st)"
    by (simp only: render_with_anchors_def render_inner_def Let_def)
  then show ?thesis using st(2) points by (simp only: prod.case) blast
qed

theorem anchors_point_at_text_witness:
  "case render_with_anchors (nest (Concat [Hardline, anchored ''ab '' 3 5])) (default_opts\<lparr>newline := [CHR 0x0D, LF]\<rparr>) of (text, as) \<Rightarrow>
     map anchor_key as = [(''ab '', 3, 5)] \<and> (\<forall>a \<in> set as. \<exists>p q. lines_of text ! (dst_line a - 1) = p @ ''ab'' @ q \<and> dst_column a = length p + 1)"
proof -
  let ?d = "nest (Concat [Hardline, anchored ''ab '' 3 5])"
  have d: "plain_seps ?d" "one_line_blocks ?d" "doc_keys ?d = [(''ab '', 3, 5)]" "mark ''ab '' = ''ab''" by code_simp+
  have t: "map anchor_key as = [(''ab '', 3, 5)] \<Longrightarrow> \<forall>a \<in> set as. ra_text a = ''ab ''" for as
    by (auto simp: anchor_key_def)
  show ?thesis
    using anchors_point_at_text [of ?d "default_opts\<lparr>newline := [CHR 0x0D, LF]\<rparr>"] d t
    by (fastforce simp: good_newline_def)
qed

text \<open>
  A block comment over several lines sets the column to 0 although its last line has
  characters: the anchor after it is placed too far left.
\<close>

lemma multi_line_comment_shifts_anchor:
  "map (\<lambda>a. (dst_line a, dst_column a)) (snd (render_with_anchors (Concat [Comments [\<lparr>cd_text = ''/*'' @ [LF] @ ''*/'',
       leading_newlines = 0, is_line_comment = False, cd_src_line = 0, cd_src_column = 0\<rparr>], anchored ''x'' 2 3]) default_opts)) = [(2, 1)]"
  "lines_of (fst (render_with_anchors (Concat [Comments [\<lparr>cd_text = ''/*'' @ [LF] @ ''*/'',
       leading_newlines = 0, is_line_comment = False, cd_src_line = 0, cd_src_column = 0\<rparr>], anchored ''x'' 2 3]) default_opts)) = [''/*'', ''*/x'']"
  by code_simp+
end
