(* ===== verification/Pretty_Width.thy ===== *)
theory Pretty_Width
  imports Pretty_Anchors "HOL-Library.Sublist"
begin

section \<open>The line of a group laid out flat\<close>

text \<open>
  What the decision of the renderer to lay a group out flat promises of the rendered text.  The
  look-ahead measures the group and what follows it, but counts neither the indentation that is
  still deferred nor the break-only texts that follow; the line holds the group and is wider than
  the maximal width by at most these.  The documents are those without comments and without
  \<open>ForceFlat\<close>; the examples at the end show what goes wrong beyond this.
\<close>

subsection \<open>Documents and flat texts\<close>

text \<open>No comments, no forced layout, and no newline inside a text.\<close>

fun steady :: "doc \<Rightarrow> bool" where
  "steady (Concat ds) \<longleftrightarrow> (\<forall>d \<in> set ds. steady d)"
| "steady (Indent _ d) \<longleftrightarrow> steady d"
| "steady (Group d) \<longleftrightarrow> steady d"
| "steady (ForceFlat d) \<longleftrightarrow> False"
| "steady (Comments _) \<longleftrightarrow> False"
| "steady (Text s) \<longleftrightarrow> LF \<notin> set s"
| "steady (Line s) \<longleftrightarrow> LF \<notin> set s"
| "steady (IfBreak s) \<longleftrightarrow> LF \<notin> set s"
| "steady (Anchored a) \<longleftrightarrow> LF \<notin> set (at_text a)"
| "steady _ \<longleftrightarrow> True"

fun flat_text :: "doc \<Rightarrow> string" where
  "flat_text (Concat ds) = concat (map flat_text ds)"
| "flat_text (Indent _ d) = flat_text d"
| "flat_text (Group d) = flat_text d"
| "flat_text (ForceFlat d) = flat_text d"
| "flat_text (Text s) = s"
| "flat_text (Line sep) = sep"
| "flat_text Hardline = '' ''"
| "flat_text (DedentHardline _) = '' ''"
| "flat_text (Pad n) = spaces n"
| "flat_text (IfFlatPad n) = spaces n"
| "flat_text (Anchored a) = at_text a"
| "flat_text _ = []"

lemma flat_text_width: "steady d \<Longrightarrow> flat_ok d \<Longrightarrow> length (flat_text d) = flat_width d"
  by (induction d rule: flat_text.induct) (auto simp: length_concat comp_def cong: map_cong)

lemma flat_text_LF: "steady d \<Longrightarrow> LF \<notin> set (flat_text d)"
  by (induction d rule: flat_text.induct) auto

lemma steady_followed: "steady d \<Longrightarrow> followed True d"
  by (induction d rule: steady.induct) (auto simp: followed_def)

text \<open>What a document can write that its look-ahead does not count.\<close>

fun break_only :: "doc \<Rightarrow> nat" where
  "break_only (Concat ds) = sum_list (map break_only ds)"
| "break_only (Indent _ d) = break_only d"
| "break_only (Group d) = break_only d"
| "break_only (ForceFlat d) = break_only d"
| "break_only (IfBreak s) = length s"
| "break_only (IfBreakPad n) = n"
| "break_only _ = 0"

definition slack :: "frame list \<Rightarrow> nat" where
  "slack stack = sum_list (map (\<lambda>f. if fr_mode f = Break then break_only (fr_doc f) else 0) stack)"

lemma slack_simps [simp]:
  "slack [] = 0" "slack (f # stack) = (if fr_mode f = Break then break_only (fr_doc f) else 0) + slack stack"
  "slack (map (\<lambda>d. \<lparr>fr_indent = i, fr_mode = m, fr_doc = d\<rparr>) ds @ stack) = (if m = Break then sum_list (map break_only ds) else 0) + slack stack"
  by (simp_all add: slack_def comp_def)

subsection \<open>The states of a rendering\<close>

inductive reaches :: "render_opts \<Rightarrow> doc \<Rightarrow> render_state \<Rightarrow> frame list \<Rightarrow> bool" for opts d where
  start: "reaches opts d initial_state [\<lparr>fr_indent = 0, fr_mode = Break, fr_doc = d\<rparr>]"
| step: "reaches opts d st (f # stack) \<Longrightarrow> render_frame f opts st stack = (st', stack') \<Longrightarrow> reaches opts d st' stack'"

lemma reaches_result:
  "reaches opts d st stack \<Longrightarrow> render_loop opts st stack = render_loop opts initial_state [\<lparr>fr_indent = 0, fr_mode = Break, fr_doc = d\<rparr>]"
proof (induction rule: reaches.induct)
  case (step st f stack st' stack')
  then show ?case by (metis render_loop.simps(2) prod.case)
qed simp

text \<open>Flat frames are on top of the frames laid out with breaks.\<close>

fun layered :: "frame list \<Rightarrow> bool" where
  "layered [] \<longleftrightarrow> True"
| "layered (f # fs) \<longleftrightarrow> steady (fr_doc f) \<and> layered fs \<and> (fr_mode f = Break \<longrightarrow> (\<forall>g \<in> set fs. fr_mode g = Break))"

lemma layered_append:
  "layered fs \<Longrightarrow> (\<forall>d \<in> set ds. steady d) \<Longrightarrow> (m = Break \<longrightarrow> (\<forall>g \<in> set fs. fr_mode g = Break))
    \<Longrightarrow> layered (map (\<lambda>d. \<lparr>fr_indent = i, fr_mode = m, fr_doc = d\<rparr>) ds @ fs)"
  by (induction ds) auto

lemma layered_frame:
  assumes "layered (f # stack)" "render_frame f opts st stack = (st', stack')"
  shows "layered stack'"
proof (cases "fr_doc f")
  case (Concat ds)
  then show ?thesis using assms layered_append [of stack ds "fr_mode f" "fr_indent f"] by (auto simp: render_frame_def)
qed (cases "fr_mode f"; use assms in \<open>auto simp: render_frame_def group_mode_def Let_def split: if_splits\<close>)+

definition pend :: "render_state \<Rightarrow> nat" where
  "pend st = (case pending_indent st of None \<Rightarrow> 0 | Some n \<Rightarrow> n)"

definition calm :: "render_state \<Rightarrow> bool" where
  "calm st \<longleftrightarrow> \<not> swallow_next_break st \<and> (pending_indent st \<noteq> None \<longrightarrow> col st = 0)"

text \<open>\<open>puts st s st'\<close>: the string goes to the current line, after at most the deferred indentation.\<close>

definition puts :: "render_state \<Rightarrow> string \<Rightarrow> render_state \<Rightarrow> bool" where
  "puts st s st' \<longleftrightarrow> calm st' \<and> current_line st' = current_line st \<and> (\<exists>k. out st' = out st @ spaces k @ s
     \<and> (k = 0 \<and> s = [] \<and> pending_indent st' = pending_indent st \<and> col st' = col st
        \<or> pending_indent st' = None \<and> k \<le> pend st \<and> col st' = col st + k + length s))"

lemma spaces_empty [simp]: "spaces 0 = []" "spaces n = [] \<longleftrightarrow> n = 0" "[] = spaces n \<longleftrightarrow> n = 0"
  by (auto simp: spaces_def)

lemma puts_refl: "calm st \<Longrightarrow> puts st [] st"
  unfolding puts_def by (intro conjI exI [of _ 0]) simp_all

lemma puts_trans: "puts st s st' \<Longrightarrow> puts st' t st'' \<Longrightarrow> puts st (s @ t) st''"
proof -
  assume 1: "puts st s st'" and 2: "puts st' t st''"
  obtain j k where j: "out st' = out st @ spaces j @ s"
      "j = 0 \<and> s = [] \<and> pending_indent st' = pending_indent st \<and> col st' = col st
        \<or> pending_indent st' = None \<and> j \<le> pend st \<and> col st' = col st + j + length s"
    and k: "out st'' = out st' @ spaces k @ t"
      "k = 0 \<and> t = [] \<and> pending_indent st'' = pending_indent st' \<and> col st'' = col st'
        \<or> pending_indent st'' = None \<and> k \<le> pend st' \<and> col st'' = col st' + k + length t"
    using 1 2 unfolding puts_def by blast
  have rest: "calm st''" "current_line st'' = current_line st" using 1 2 by (simp_all add: puts_def)
  show ?thesis
  proof (cases "pending_indent st' = None")
    case True
    then have "k = 0" using k(2) by (auto simp: pend_def)
    then show ?thesis using True j k rest unfolding puts_def by (intro conjI exI [of _ j]) auto
  next
    case False
    then have "j = 0" "s = []" "pend st' = pend st" "col st' = col st" "pending_indent st' = pending_indent st"
      using j(2) by (auto simp: pend_def)
    then show ?thesis using j(1) k rest unfolding puts_def by (intro conjI exI [of _ k]) auto
  qed
qed

lemma puts_end:
  assumes "puts st s st'" "at_end True st" "LF \<notin> set s"
  shows "at_end True st'" "line_no (out st') = line_no (out st)" "pend st' \<le> pend st" "col st' + pend st' \<le> col st + pend st + length s"
  using assms by (auto simp: puts_def at_end_def line_no_append last_line_append count_list_0_iff pend_def)

lemma emit_puts:
  assumes "calm st"
  shows "puts st s (emit_plain s (flush_pending st))" "puts st s (emit_padding i opts s st)"
    "LF \<notin> set s \<Longrightarrow> puts st s (emit_text s ((flush_pending_with_indent i opts st)\<lparr>swallow_next_break := False\<rparr>))"
    "LF \<notin> set (at_text a) \<Longrightarrow> puts st (at_text a) (emit_anchored a i opts st)"
  using assms
  by (auto simp: puts_def calm_def pend_def emit_plain_def emit_padding_def emit_text_def emit_anchored_def flush_pending_def
      flush_pending_with_indent_def count_list_0_iff Let_def split: option.splits)

lemma flat_puts: "calm st \<Longrightarrow> puts st '' '' (flat_space st)"
  unfolding flat_space_def by (rule emit_puts(1))

lemma flat_frame_puts:
  assumes "steady d" "calm st"
  shows "\<exists>st'. render_loop opts st (\<lparr>fr_indent = i, fr_mode = Flat, fr_doc = d\<rparr> # stack) = render_loop opts st' stack
    \<and> puts st (flat_text d) st'"
  using assms
proof (induction d arbitrary: i st stack)
  case (Concat ds)
  have "\<exists>st'. render_loop opts st (map (\<lambda>x. \<lparr>fr_indent = i, fr_mode = Flat, fr_doc = x\<rparr>) ds @ stack) = render_loop opts st' stack
      \<and> puts st (concat (map flat_text ds)) st'"
    using Concat
  proof (induction ds arbitrary: st)
    case Nil
    then show ?case using puts_refl by auto
  next
    case (Cons d ds)
    obtain s1 where s1: "render_loop opts st (map (\<lambda>x. \<lparr>fr_indent = i, fr_mode = Flat, fr_doc = x\<rparr>) (d # ds) @ stack)
        = render_loop opts s1 (map (\<lambda>x. \<lparr>fr_indent = i, fr_mode = Flat, fr_doc = x\<rparr>) ds @ stack)" "puts st (flat_text d) s1"
      using Cons.prems(1) [of d st i] Cons.prems(2,3) by auto
    obtain s2 where "render_loop opts s1 (map (\<lambda>x. \<lparr>fr_indent = i, fr_mode = Flat, fr_doc = x\<rparr>) ds @ stack) = render_loop opts s2 stack"
      "puts s1 (concat (map flat_text ds)) s2"
      using Cons.IH [of s1] Cons.prems s1(2) by (auto simp: puts_def)
    then show ?case using s1 puts_trans by auto
  qed
  then show ?case by (simp add: render_frame_def)
next
  case (Indent n d)
  have "render_loop opts st (\<lparr>fr_indent = i, fr_mode = Flat, fr_doc = Indent n d\<rparr> # stack)
      = render_loop opts st (\<lparr>fr_indent = i + n, fr_mode = Flat, fr_doc = d\<rparr> # stack)" by (simp add: render_frame_def)
  then show ?case using Indent.IH [of st "i + n" stack] Indent.prems by simp
next
  case (Group d)
  have "render_loop opts st (\<lparr>fr_indent = i, fr_mode = Flat, fr_doc = Group d\<rparr> # stack)
      = render_loop opts st (\<lparr>fr_indent = i, fr_mode = Flat, fr_doc = d\<rparr> # stack)" by (simp add: render_frame_def group_mode_def)
  then show ?case using Group.IH [of st i stack] Group.prems by simp
next
  case (Text s)
  then show ?case using emit_puts(3) [of st s i opts] by (auto simp: render_frame_def)
next
  case (Anchored a)
  then show ?case using emit_puts(4) [of st a i opts] by (auto simp: render_frame_def)
qed (auto simp: render_frame_def emit_puts(1,2) puts_refl flat_puts group_mode_def)

subsection \<open>What is written stays\<close>

text \<open>A rendering step appends, or takes spaces off the end and then appends.\<close>

definition regrows :: "render_state \<Rightarrow> render_state \<Rightarrow> bool" where
  "regrows st st' \<longleftrightarrow> (\<exists>s n u. out st = s @ spaces n \<and> out st' = s @ u)"

lemma regrowsI: "out st' = out st @ u \<Longrightarrow> regrows st st'"
  unfolding regrows_def by (intro exI [of _ "out st"] exI [of _ 0] exI [of _ u]) simp

lemma prefix_regrows:
  assumes "regrows st st'" "prefix (p @ m) (out st)" "m \<noteq> []" "last m \<notin> trims"
  shows "prefix (p @ m) (out st')"
proof -
  obtain s n u where s: "out st = s @ spaces n" "out st' = s @ u" using assms(1) by (auto simp: regrows_def)
  obtain r where "s @ spaces n = p @ m @ r" using assms(2) s(1) by (auto simp: prefix_def)
  moreover have "set (spaces n) \<subseteq> trims" by (auto simp: spaces_def trims_def)
  ultimately obtain r' where "s = p @ m @ r'" using mark_before_trims assms(3,4) by blast
  then show ?thesis using s(2) by simp
qed

lemma newlines_out: "\<exists>u. out ((push_newline opts ^^ n) st) = out st @ u"
  by (induction n) (auto simp: push_newline_def)

lemma comments_out: "\<exists>u. out (render_comments cs i opts st) = out st @ u"
proof -
  have nls: "\<exists>u. out ((push_newline opts ^^ n) (st\<lparr>swallow_next_break := b\<rparr>)) = out st @ u" for n b and st :: render_state
    using newlines_out [of n opts "st\<lparr>swallow_next_break := b\<rparr>"] by simp
  have "\<exists>u. out (comment_lead p opts c st) = out st @ u" for p c st
  proof -
    obtain u where "out ((push_newline opts ^^ (max (leading_newlines c) 1 - (if swallow_next_break st \<or> pending_indent st \<noteq> None then 1 else 0)))
        (st\<lparr>swallow_next_break := False\<rparr>)) = out st @ u" using nls by blast
    then show ?thesis by (simp add: comment_lead_def Let_def)
  qed
  moreover have "\<exists>u. out (comment_body p opts c (comment_anchor c st)) = out st @ u" for p c st
    by (simp add: comment_body_def comment_anchor_def Let_def)
  ultimately have one: "\<exists>u. out (render_comment i opts c st) = out st @ u" for c st
    unfolding render_comment_def by (metis append.assoc)
  show ?thesis
    unfolding render_comments_def
  proof (induction cs arbitrary: st)
    case (Cons c cs)
    then show ?case using one [of c st] by (metis append.assoc fold_simps(2))
  qed simp
qed

lemma flush_out: "\<exists>k. out (flush_pending st) = out st @ spaces k" "\<exists>k. out (flush_pending_with_indent i opts st) = out st @ spaces k"
  by (auto simp: flush_pending_def flush_pending_with_indent_def Let_def split: option.split intro: exI [of _ 0])

lemma trim_out: "\<exists>s n. out st = s @ spaces n \<and> out (dedent_trim l opts st) = s"
proof (cases "0 < l * indent_width opts \<and> pending_indent st = None \<and> ends_with_spaces (l * indent_width opts) (out st)")
  case True
  then have "out (dedent_trim l opts st) = take (length (out st) - l * indent_width opts) (out st)" by (simp add: dedent_trim_def Let_def)
  then show ?thesis using ends_with_spaces_split [of "l * indent_width opts" "out st"] True by metis
next
  case False
  then have "dedent_trim l opts st = st" by (auto simp: dedent_trim_def Let_def)
  then show ?thesis by (intro exI [of _ "out st"] exI [of _ 0]) simp
qed

lemma break_out: "\<exists>u. out (emit_break i opts st) = out st @ u"
  by (simp add: emit_break_def push_newline_def Let_def)

lemma emit_out: "\<exists>u. out (emit_plain s (flush_pending st)) = out st @ u" "\<exists>u. out (flat_space st) = out st @ u"
  "\<exists>u. out (emit_padding i opts s st) = out st @ u" "\<exists>u. out (emit_anchored a i opts st) = out st @ u"
  "\<exists>u. out (emit_text s ((flush_pending_with_indent i opts st)\<lparr>swallow_next_break := False\<rparr>)) = out st @ u"
  using flush_out(1) [of st] flush_out(2) [of i opts st]
  by (auto simp: flat_space_def emit_plain_def emit_padding_def emit_anchored_def emit_text_def Let_def)

lemma frame_regrows:
  assumes "render_frame f opts st stack = (st', stack')"
  shows "regrows st st'"
proof (cases "\<exists>n. fr_doc f = DedentHardline n \<and> fr_mode f = Break")
  case True
  then obtain n where "st' = emit_break (fr_indent f) opts (dedent_trim n opts st)" using assms by (auto simp: render_frame_def)
  then show ?thesis using trim_out [of st n opts] break_out unfolding regrows_def by metis
next
  case False
  have "\<exists>u. out st' = out st @ u"
    using assms False emit_out break_out comments_out
    by (cases "fr_doc f"; cases "fr_mode f") (auto simp: render_frame_def split: if_splits)
  then show ?thesis using regrowsI by blast
qed

lemma loop_prefix:
  assumes "prefix (p @ m) (out st)" "m \<noteq> []" "last m \<notin> trims"
  shows "prefix (p @ m) (out (render_loop opts st stack))"
  using assms(1)
proof (induction opts st stack rule: render_loop.induct)
  case (2 opts st f stack)
  obtain st' stack' where step: "render_frame f opts st stack = (st', stack')" by fastforce
  have "prefix (p @ m) (out st')" by (rule prefix_regrows [OF frame_regrows [OF step] _ assms(2,3)]) (rule 2(2))
  then show ?case using 2(1) [OF step [symmetric]] step by simp
qed simp

subsection \<open>The line stays within the width\<close>

definition flags :: "frame list \<Rightarrow> (doc \<times> bool) list" where
  "flags stack = map (\<lambda>f. (fr_doc f, fr_mode f = Flat)) stack"

lemma flags_simps [simp]:
  "flags [] = []" "flags (f # stack) = (fr_doc f, fr_mode f = Flat) # flags stack"
  "flags (map (\<lambda>d. \<lparr>fr_indent = i, fr_mode = m, fr_doc = d\<rparr>) ds @ stack) = map (\<lambda>d. (d, m = Flat)) ds @ flags stack"
  by (simp_all add: flags_def comp_def)

text \<open>
  The room that the frames still take on the line, with the deferred indentation and the text
  the look-ahead does not count, is within the width and an excess \<open>p + e\<close> fixed before.
\<close>

definition inside :: "render_opts \<Rightarrow> nat \<Rightarrow> nat \<Rightarrow> render_state \<Rightarrow> frame list \<Rightarrow> bool" where
  "inside opts p e st stack \<longleftrightarrow> pend st \<le> p \<and> slack stack \<le> e
     \<and> (\<exists>w. room (flags stack) = Some w \<and> col st + pend st + w + slack stack \<le> max_width opts + p + e)"

definition eases :: "string \<Rightarrow> frame list \<Rightarrow> frame list \<Rightarrow> bool" where
  "eases s stack stack' \<longleftrightarrow> slack stack' \<le> slack stack
     \<and> (\<forall>w. room (flags stack) = Some w \<longrightarrow> (\<exists>w'. room (flags stack') = Some w' \<and> length s + w' + slack stack' \<le> w + slack stack))"

lemma inside_puts:
  assumes "inside opts p e st stack" "puts st s st'" "eases s stack stack'"
  shows "inside opts p e st' stack'"
proof -
  obtain w where w: "room (flags stack) = Some w" "col st + pend st + w + slack stack \<le> max_width opts + p + e"
    and pe: "pend st \<le> p" "slack stack \<le> e" using assms(1) by (auto simp: inside_def)
  obtain w' where w': "room (flags stack') = Some w'" "length s + w' + slack stack' \<le> w + slack stack" "slack stack' \<le> slack stack"
    using assms(3) w(1) by (auto simp: eases_def)
  have "pend st' \<le> pend st" "col st' + pend st' \<le> col st + pend st + length s"
    using assms(2) by (auto simp: puts_def pend_def)
  then show ?thesis using w w' pe unfolding inside_def by (intro conjI exI [of _ w']) linarith+
qed

lemma room_flags_Break:
  assumes "\<forall>f \<in> set stack. fr_mode f = Break"
  shows "room (flags stack) = Some (rest_width (map fr_doc stack))"
proof -
  have "flags stack = map (\<lambda>x. (x, False)) (map fr_doc stack)" using assms by (simp add: flags_def)
  then show ?thesis
    using room_rest [of "map fr_doc stack" "[]"] by (cases "until_break (map lead (map fr_doc stack))") (simp add: rest_width_def split: bool.splits)
qed

lemma group_fits:
  assumes "group_mode d Break opts st stack = Flat"
  shows "flat_ok d" "flat_width d + rest_width (map fr_doc stack) \<le> max_width opts - col st"
  using assms by (auto simp: group_mode_def fits_flat_correct split: if_splits)

lemma inside_group:
  assumes "group_mode d Break opts st stack = Flat" "\<forall>g \<in> set stack. fr_mode g = Break"
    and "col st \<le> max_width opts \<or> inside opts p e st (\<lparr>fr_indent = i, fr_mode = Break, fr_doc = Group d\<rparr> # stack)"
    and "pend st \<le> p" "slack stack \<le> e"
  shows "inside opts p e st (\<lparr>fr_indent = i, fr_mode = Flat, fr_doc = d\<rparr> # stack)"
proof -
  note fits = group_fits [OF assms(1)]
  have "room (flags (\<lparr>fr_indent = i, fr_mode = Flat, fr_doc = d\<rparr> # stack)) = Some (flat_width d + rest_width (map fr_doc stack))"
    using fits(1) room_flags_Break [OF assms(2)] by simp
  moreover have "col st + pend st + (flat_width d + rest_width (map fr_doc stack)) + slack stack \<le> max_width opts + p + e"
  proof (cases "col st \<le> max_width opts")
    case True
    then show ?thesis using fits(2) assms(4,5) by linarith
  next
    case False
    then have "flat_width d + rest_width (map fr_doc stack) = 0" using fits(2) by linarith
    then show ?thesis using assms(3) False by (auto simp: inside_def)
  qed
  ultimately show ?thesis using assms(4,5) unfolding inside_def by auto
qed

lemma frame_line:
  assumes lay: "layered (f # stack)" and st: "calm st" and ins: "inside opts p e st (f # stack)"
    and step: "render_frame f opts st stack = (st', stack')"
  shows "(\<exists>s. puts st s st' \<and> LF \<notin> set s \<and> inside opts p e st' stack') \<or> (\<exists>s n. out st = s @ spaces n \<and> out st' = s @ newline opts)"
proof -
  have writes: "?thesis" if "puts st s st'" "LF \<notin> set s" "eases s (f # stack) stack'" for s
    using that inside_puts [OF ins] by blast
  have stays: "?thesis" if "st' = st" "eases [] (f # stack) stack'"
    using that puts_refl [OF st] by (intro writes [of "[]"]) simp_all
  have brk: "out (emit_break (fr_indent f) opts s) = out s @ newline opts" if "\<not> swallow_next_break s" for s
    using that by (simp add: emit_break_def push_newline_def)
  have ends: "?thesis" if "st' = emit_break (fr_indent f) opts s" "\<exists>n. out st = out s @ spaces n" "\<not> swallow_next_break s" for s
    using that brk by auto
  have sw: "\<not> swallow_next_break st" using st by (simp add: calm_def)
  have nonflat: "False" if "fr_mode f = Flat" "\<not> flat_ok (fr_doc f)" using that ins by (simp add: inside_def)
  note put = emit_puts [OF st]
  note defs = render_frame_def eases_def
  show ?thesis
  proof (cases "fr_doc f")
    case Empty
    show ?thesis by (rule stays) (use step Empty in \<open>cases "fr_mode f"; auto simp: defs\<close>)+
  next
    case (Text s)
    show ?thesis by (rule writes [of s]) (use step lay Text put(3) in \<open>cases "fr_mode f"; auto simp: defs\<close>)+
  next
    case (Anchored a)
    show ?thesis by (rule writes [of "at_text a"]) (use step lay Anchored put(4) in \<open>cases "fr_mode f"; auto simp: defs\<close>)+
  next
    case (Concat ds)
    show ?thesis
      by (rule stays) (use step Concat room_concat [of "fr_mode f = Flat" ds "flags stack"] in \<open>cases "fr_mode f"; auto simp: defs\<close>)+
  next
    case (Indent n d)
    show ?thesis by (rule stays) (use step Indent in \<open>cases "fr_mode f"; auto simp: defs\<close>)+
  next
    case (Group d)
    show ?thesis
    proof (cases "fr_mode f = Break \<and> group_mode d Break opts st stack = Flat")
      case True
      have "f = \<lparr>fr_indent = fr_indent f, fr_mode = Break, fr_doc = Group d\<rparr>" using True Group by (cases f) simp
      then have "inside opts p e st (\<lparr>fr_indent = fr_indent f, fr_mode = Flat, fr_doc = d\<rparr> # stack)"
        using True lay ins by (intro inside_group) (auto simp: inside_def)
      moreover have "st' = st" "stack' = \<lparr>fr_indent = fr_indent f, fr_mode = Flat, fr_doc = d\<rparr> # stack"
        using step Group True by (auto simp: render_frame_def)
      ultimately show ?thesis using puts_refl [OF st] by (intro disjI1 exI [of _ "[]"]) simp
    next
      case False
      have "group_mode d (fr_mode f) opts st stack = fr_mode f"
        using False by (cases "fr_mode f"; cases "group_mode d Break opts st stack") (auto simp: group_mode_def)
      then show ?thesis by (intro stays) (use step Group in \<open>cases "fr_mode f"; auto simp: defs\<close>)+
    qed
  next
    case (Line s)
    show ?thesis
    proof (cases "fr_mode f")
      case Flat
      show ?thesis by (rule writes [of s]) (use step lay Line Flat put(1) in \<open>auto simp: defs\<close>)
    next
      case Break
      show ?thesis by (rule ends [of st]) (use step Line Break sw in \<open>auto simp: render_frame_def intro: exI [of _ 0]\<close>)
    qed
  next
    case Hardline
    then have b: "fr_mode f = Break" using nonflat by (cases "fr_mode f") auto
    show ?thesis by (rule ends [of st]) (use step Hardline b sw in \<open>auto simp: render_frame_def intro: exI [of _ 0]\<close>)
  next
    case (DedentHardline n)
    then have b: "fr_mode f = Break" using nonflat by (cases "fr_mode f") auto
    show ?thesis
      by (rule ends [of "dedent_trim n opts st"])
        (use step DedentHardline b sw trim_out [of st n opts] in \<open>auto simp: render_frame_def dedent_trim_def Let_def\<close>)
  next
    case (IfBreak s)
    show ?thesis
    proof (cases "fr_mode f")
      case Flat
      show ?thesis by (rule stays) (use step IfBreak Flat in \<open>auto simp: defs\<close>)
    next
      case Break
      show ?thesis by (rule writes [of s]) (use step lay IfBreak Break put(2) in \<open>auto simp: defs\<close>)
    qed
  next
    case (IfBreakPad n)
    show ?thesis
    proof (cases "fr_mode f = Break \<and> 0 < n")
      case True
      show ?thesis by (rule writes [of "spaces n"]) (use step IfBreakPad True put(2) in \<open>auto simp: defs\<close>)
    next
      case False
      show ?thesis by (rule stays) (use step IfBreakPad False in \<open>cases "fr_mode f"; auto simp: defs\<close>)+
    qed
  next
    case (Pad n)
    show ?thesis
    proof (cases "0 < n")
      case True
      show ?thesis by (rule writes [of "spaces n"]) (use step Pad True put(2) in \<open>cases "fr_mode f"; auto simp: defs\<close>)+
    next
      case False
      show ?thesis by (rule stays) (use step Pad False in \<open>cases "fr_mode f"; auto simp: defs\<close>)+
    qed
  next
    case (IfFlatPad n)
    show ?thesis
    proof (cases "fr_mode f = Flat \<and> 0 < n")
      case True
      show ?thesis by (rule writes [of "spaces n"]) (use step IfFlatPad True put(2) in \<open>auto simp: defs\<close>)
    next
      case False
      show ?thesis by (rule stays) (use step IfFlatPad False in \<open>cases "fr_mode f"; auto simp: defs\<close>)+
    qed
  qed (use lay in simp_all)
qed

definition line_width :: "string \<Rightarrow> nat" where
  "line_width l = (if l \<noteq> [] \<and> last l = CHR 0x0D then length l - 1 else length l)"

lemma line_width_le: "line_width l \<le> length l"
  by (simp add: line_width_def)

lemma line_width_trimmed:
  assumes "trimmed l l'"
  shows "line_width l' \<le> line_width l"
proof -
  obtain u b e where u: "l = u @ b @ e" "l' = u @ e" "set b \<subseteq> {CHR '' '', CHR 0x09}" "e \<in> {[], [CHR 0x0D]}"
    using assms unfolding trimmed_def by metis
  show ?thesis
  proof (cases "b = []")
    case False
    then have "last b \<in> {CHR '' '', CHR 0x09}" using last_in_set [OF False] u(3) by blast
    then have "last b \<noteq> CHR 0x0D" by auto
    then show ?thesis using u False line_width_le [of u] by (auto simp: line_width_def)
  qed (use u in simp)
qed

lemma good_newline_split:
  assumes "good_newline nl"
  obtains c where "nl = c @ [LF]" "c \<in> {[], [CHR 0x0D]}" "LF \<notin> set c"
proof -
  have "nl = [] @ [LF] \<or> nl = [CHR 0x0D] @ [LF]" using assms by (simp add: good_newline_def)
  moreover have "LF \<notin> set [CHR 0x0D]" by (simp add: LF_def)
  ultimately show ?thesis using that [of "[]"] that [of "[CHR 0x0D]"] by auto
qed

text \<open>The whole line that the loop is on.\<close>

lemma loop_line_width:
  assumes "good_newline (newline opts)" "layered stack" "calm st" "at_end True st" "inside opts p e st stack"
  shows "line_width (lines_of (out (render_loop opts st stack)) ! (line_no (out st) - 1)) \<le> max_width opts + p + e"
  using assms
proof (induction opts st stack rule: render_loop.induct)
  case (1 opts st)
  have "lines_of (out st) ! (line_no (out st) - 1) = last_line (out st)"
    using lines_of_nth [of "out st" "[]"] by (simp add: line_no_def)
  then show ?case using 1 line_width_le [of "last_line (out st)"] by (auto simp: inside_def at_end_def)
next
  case (2 opts st f stack)
  obtain st' stack' where step: "render_frame f opts st stack = (st', stack')" by fastforce
  then have eq: "render_loop opts st (f # stack) = render_loop opts st' stack'" by simp
  consider (put) s where "puts st s st'" "LF \<notin> set s" "inside opts p e st' stack'" | (brk) s n where "out st = s @ spaces n" "out st' = s @ newline opts"
    using frame_line [OF 2(3,4,6) step] by blast
  then show ?case
  proof cases
    case put
    have "at_end True st'" "line_no (out st') = line_no (out st)" using puts_end [OF put(1) 2(5) put(2)] by simp_all
    moreover have "calm st'" using put(1) by (simp add: puts_def)
    ultimately show ?thesis using 2(1) [OF step [symmetric] 2(2) layered_frame [OF 2(3) step] _ _ put(3)] unfolding eq by simp
  next
    case brk
    obtain c where c: "newline opts = c @ [LF]" "c \<in> {[], [CHR 0x0D]}" "LF \<notin> set c" by (rule good_newline_split [OF 2(2)])
    have "prefix ((s @ c) @ [LF]) (out (render_loop opts st' stack'))"
      by (rule loop_prefix) (use brk(2) c in \<open>simp_all add: trims_def LF_def\<close>)
    then obtain r where r: "out (render_loop opts st' stack') = s @ c @ LF # r" by (auto simp: prefix_def)
    have "takeWhile (\<lambda>x. x \<noteq> LF) (c @ LF # r) = c" using c(2) by (auto simp: LF_def)
    then have line: "lines_of (out (render_loop opts st' stack')) ! (line_no (out st) - 1) = last_line s @ c"
      using lines_of_nth [of s "c @ LF # r"] brk(1) r by (simp add: line_no_def)
    have "length (last_line s) \<le> length (last_line (out st))" using brk(1) by (simp add: last_line_append)
    moreover have "length (last_line (out st)) \<le> max_width opts + p + e" using 2(5,6) by (auto simp: inside_def at_end_def)
    moreover have "line_width (last_line s @ c) \<le> length (last_line s)" using c(2) line_width_le [of "last_line s"] by (auto simp: line_width_def)
    ultimately show ?thesis unfolding eq line by linarith
  qed
qed

lemma loop_lines: "line_no (out st) \<le> line_no (out (render_loop opts st stack))"
proof (cases "LF \<in> set (out st)")
  case True
  then obtain a b where ab: "out st = a @ LF # b" "LF \<notin> set b" by (meson split_list_last)
  then have "prefix (a @ [LF]) (out st)" by (simp add: prefix_def)
  then have "prefix (a @ [LF]) (out (render_loop opts st stack))" by (rule loop_prefix) (simp_all add: trims_def LF_def)
  then obtain r where "out (render_loop opts st stack) = (a @ [LF]) @ r" by (rule prefixE)
  then have "line_no (out (render_loop opts st stack)) = line_no (a @ [LF]) + count_list r LF" by (simp only: line_no_append)
  moreover have "line_no (out st) = line_no (a @ [LF])" using ab by (simp add: line_no_def count_list_0_iff)
  ultimately show ?thesis by simp
qed (simp add: line_no_def count_list_0_iff)

lemma initial_followed: "tracked x initial_state"
  by (simp add: initial_state_def tracked_def at_end_def at_start_def line_no_def last_line_def)

lemma frame_calm:
  assumes "layered (f # stack)" "calm st" "render_frame f opts st stack = (st', stack')"
  shows "\<not> swallow_next_break st'"
  using assms
  by (cases "fr_doc f"; cases "fr_mode f")
    (auto simp: render_frame_def calm_def emit_plain_def flat_space_def emit_padding_def emit_anchored_def emit_text_def emit_break_def
      push_newline_def dedent_trim_def Let_def split: if_splits)

lemma reaches_invariant:
  assumes "reaches opts d st stack" "steady d" "good_newline (newline opts)"
  shows "layered stack \<and> calm st \<and> tracked True st"
  using assms
proof (induction rule: reaches.induct)
  case start
  then show ?case using initial_followed by (simp add: calm_def initial_state_def)
next
  case (step st f stack st' stack')
  then have inv: "layered (f # stack)" "calm st" "tracked True st" by simp_all
  have "followed True (fr_doc f)" using inv(1) steady_followed by simp
  then obtain ks where "follows True st ks st'"
    using render_frame_follows [OF step.prems(2) _ step.hyps(2)] by blast
  then have t: "tracked True st'" using inv(3) by (simp add: follows_def)
  have "\<not> swallow_next_break st'" using frame_calm [OF inv(1,2) step.hyps(2)] .
  then have "calm st'" using t by (auto simp: calm_def tracked_def at_start_def at_end_def)
  then show ?case using t layered_frame [OF inv(1) step.hyps(2)] by simp
qed

text \<open>
  C37: a group laid out flat stays within the width, as far as the look-ahead can see.  Take a
  document without comments and without \<open>ForceFlat\<close> whose texts and separators hold no newline,
  and a newline LF or CRLF.  Whenever its rendering meets a group, at a column not beyond the
  maximal width, and decides to lay it out flat, then the whole group stands on this one line of
  the rendered text, after what the line holds already and the deferred indentation (in full, or
  up to the trailing blanks of the group, which may be stripped), and the whole line, its end
  after the group included, is at most as wide as the maximal width, plus the deferred
  indentation and the break-only texts of the documents that follow, which the look-ahead does
  not count.  In particular the line is within the maximal width when the group does not start
  the line and no break-only text follows.
\<close>
theorem flat_group_line_width:
  assumes "steady d" "good_newline (newline opts)"
    and "reaches opts d st (\<lparr>fr_indent = i, fr_mode = Break, fr_doc = Group g\<rparr> # stack)"
    and "col st \<le> max_width opts" "group_mode g Break opts st stack = Flat"
  shows "line_no (out st) \<le> length (lines_of (render_doc d opts))
    \<and> line_width (lines_of (render_doc d opts) ! (line_no (out st) - 1))
        \<le> max_width opts + pend st + sum_list (map (break_only \<circ> fr_doc) stack)
    \<and> (mark (flat_text g) \<noteq> [] \<longrightarrow> (\<exists>k q. k \<le> pend st
        \<and> lines_of (render_doc d opts) ! (line_no (out st) - 1) = last_line (out st) @ spaces k @ mark (flat_text g) @ q))"
proof -
  let ?g = "\<lparr>fr_indent = i, fr_mode = Break, fr_doc = Group g\<rparr>" and ?f = "\<lparr>fr_indent = i, fr_mode = Flat, fr_doc = g\<rparr>"
  let ?out = "out (render_loop opts st (?g # stack))" and ?n = "line_no (out st) - 1"
  have inv: "layered (?g # stack)" "calm st" "at_end True st"
    using reaches_invariant [OF assms(3,1,2)] by (simp_all add: tracked_def)
  then have g: "steady g" "layered stack" "\<forall>f \<in> set stack. fr_mode f = Break" by simp_all
  have loop: "render_loop opts st (?g # stack) = render_loop opts st (?f # stack)" by (simp add: render_frame_def assms(5))
  have slack: "slack stack = sum_list (map (break_only \<circ> fr_doc) stack)"
    unfolding slack_def using g(3) by (intro arg_cong [of _ _ sum_list] map_cong) simp_all
  have "inside opts (pend st) (slack stack) st (?f # stack)" using assms(4,5) g(3) by (intro inside_group) simp_all
  then have width: "line_width (lines_of ?out ! ?n) \<le> max_width opts + pend st + slack stack"
    unfolding loop using inv g by (intro loop_line_width [OF assms(2)]) simp_all
  obtain st1 where st1: "render_loop opts st (?f # stack) = render_loop opts st1 stack" "puts st (flat_text g) st1"
    using flat_frame_puts [OF g(1) inv(2)] by blast
  obtain k where k: "out st1 = out st @ spaces k @ flat_text g" "k \<le> pend st" using st1(2) by (auto simp: puts_def)
  have mark: "\<exists>q. lines_of ?out ! ?n = (last_line (out st) @ spaces k) @ mark (flat_text g) @ q" if m: "mark (flat_text g) \<noteq> []"
  proof -
    have "prefix ((out st @ spaces k) @ mark (flat_text g)) (out st1)" using k(1) mark_props(3) [of "flat_text g"] by (metis append.assoc prefixI)
    from loop_prefix [OF this m mark_props(2) [OF m]]
    obtain r where r: "?out = out st @ spaces k @ mark (flat_text g) @ r" unfolding loop st1(1) by (auto simp: prefix_def)
    have "takeWhile (\<lambda>c. c \<noteq> LF) (spaces k @ mark (flat_text g) @ r) = (spaces k @ mark (flat_text g)) @ takeWhile (\<lambda>c. c \<noteq> LF) r"
      using mark_props(1) [of "flat_text g"] takeWhile_append2 [of "spaces k @ mark (flat_text g)" "\<lambda>c. c \<noteq> LF" r] LF_spaces(1) [of k] by fastforce
    then show ?thesis using lines_of_nth [of "out st" "spaces k @ mark (flat_text g) @ r"] r by (simp add: line_no_def)
  qed
  have trim: "list_all2 trimmed (lines_of ?out) (lines_of (render_doc d opts))"
    using strip_lines [OF assms(2)] reaches_result [OF assms(3)]
    by (simp add: render_doc_def render_inner_def Let_def list.rel_refl trimmed_refl del: render_loop.simps)
  have n: "?n < length (lines_of ?out)" using loop_lines [of st opts "?g # stack"] by (simp add: length_lines_of line_no_def)
  note one = list_all2_nthD [OF trim n]
  have "line_width (lines_of (render_doc d opts) ! ?n) \<le> max_width opts + pend st + slack stack"
    using line_width_trimmed [OF one] width by linarith
  moreover have "\<exists>q. lines_of (render_doc d opts) ! ?n = (last_line (out st) @ spaces k) @ mark (flat_text g) @ q" if m: "mark (flat_text g) \<noteq> []"
    using mark [OF m] trimmed_mark [OF _ m mark_props(2) [OF m]] one by metis
  moreover have "line_no (out st) \<le> length (lines_of (render_doc d opts))" using n list_all2_lengthD [OF trim] by linarith
  ultimately show ?thesis using k(2) slack by auto
qed

theorem flat_group_line_width_witness:
  "line_width (lines_of (render_doc (Concat [Text ''a'', Group (Concat [Text ''bb'', line, Text ''cc'']), IfBreak '','', Hardline]) (default_opts\<lparr>max_width := 6\<rparr>)) ! 0) \<le> 7"
proof -
  let ?g = "Concat [Text ''bb'', line, Text ''cc'']" and ?o = "default_opts\<lparr>max_width := 6\<rparr>"
  let ?d = "Concat [Text ''a'', Group ?g, IfBreak '','', Hardline]"
  let ?b = "\<lambda>x. \<lparr>fr_indent = 0, fr_mode = Break, fr_doc = x\<rparr>"
  let ?st = "emit_text ''a'' initial_state" and ?rest = "map ?b [IfBreak '','', Hardline]"
  have "reaches ?o ?d initial_state (map ?b [Text ''a'', Group ?g, IfBreak '','', Hardline])"
    by (rule reaches.step [OF reaches.start]) (simp add: render_frame_def)
  then have "reaches ?o ?d initial_state (?b (Text ''a'') # map ?b [Group ?g, IfBreak '','', Hardline])" by simp
  then have "reaches ?o ?d ?st (map ?b [Group ?g, IfBreak '','', Hardline])"
    by (rule reaches.step) (simp add: render_frame_def flush_pending_with_indent_def initial_state_def emit_text_def Let_def)
  then have "reaches ?o ?d ?st (?b (Group ?g) # ?rest)" by simp
  moreover have "steady ?d" "good_newline (newline ?o)" "col ?st \<le> max_width ?o" "group_mode ?g Break ?o ?st ?rest = Flat"
    "pend ?st = 0" "line_no (out ?st) = 1" "sum_list (map (break_only \<circ> fr_doc) ?rest) = 1" by code_simp+
  ultimately show ?thesis using flat_group_line_width [of ?d ?o ?st 0 ?g ?rest] by (simp add: default_opts_def)
qed

subsection \<open>Beyond the look-ahead\<close>

text \<open>
  The excess is real.  A break-only text after the group overruns the width by its length; a
  group right after a break overruns it by the deferred indentation, as the column is still 0.
  And the documents left out are not bounded at all: a group with a block comment that asks for
  a line of its own is laid out flat over two lines.
\<close>

lemma break_only_overflows:
  "render_doc (Concat [Text ''a'', Group (Text ''bbbb''), IfBreak '','']) (default_opts\<lparr>max_width := 5\<rparr>) = ''abbbb,''"
  by code_simp

lemma group_after_break_overflows:
  "render_doc (nest (Concat [Hardline, Group (Concat [Text ''aaaa'', line, Text ''bb''])]))
     (default_opts\<lparr>max_width := 8\<rparr>) = LF # ''    aaaa bb''"
  by code_simp

lemma block_comment_leaves_line:
  "render_doc (Concat [Text ''q'', Group (Concat [Text ''a'', Comments [\<lparr>cd_text = ''/*x*/'', leading_newlines = 1,
       is_line_comment = False, cd_src_line = 0, cd_src_column = 0\<rparr>], Text ''b''])]) default_opts = ''qa'' @ [LF] @ ''/*x*/b''"
  by code_simp

end
