(* ===== verification/Spec2Isabelle.thy ===== *)
theory Spec2Isabelle
  imports Shift Wide_Window Aig_Rewrite Finalize Pretty_Width
begin

section \<open>A verification library for the Veryl toolchain\<close>

text \<open>
  Veryl is a hardware description language; the repository holds its compiler (parser, analyzer,
  emitter), a simulator, a gate-level synthesizer and the tools around them.  This library
  models and verifies the parts that compute: the netlist core of the synthesizer, the wide
  arithmetic and the write log of the simulator, and the pretty printer.  Paths below are under
  \<open>src/crates/\<close>.

  \<^bold>\<open>How the parts interact.\<close>  The synthesizer lowers a module to gates through a
  \<open>ConvContext\<close>: the expression and statement emitters and the arithmetic generators call
  \<open>add_cell\<close>, which appends one cell and one net at a time.  The finished list of cells, flip-flops,
  ports and memories becomes a \<open>GateModule\<close>; the passes then rewrite that module in place: the
  worklist simplifier and the removal of hold-forever registers until nothing changes, dead-cell
  elimination, optionally a rewrite of the module as an And-Inverter Graph, the passes that
  shorten its longest paths, and the fusion of gates into compound cells.  The simulator shares nothing with the synthesizer but the language: its
  compiled code calls the byte-level helpers of \<open>wide_ops.rs\<close> for values of more than 128 bits and
  records the writes of flip-flops in a \<open>WriteLogBuffer\<close>, which is committed to the current values
  at the clock edge.  The pretty printer lays out the documents the formatter and the emitter
  build, and reports where each anchored token landed.

  \<^bold>\<open>The gate-level IR.\<close>  \<open>Prelude\<close> holds what all parts share: the number a little-endian list of
  bits stands for (\<open>uval\<close>), splitting into chunks, a \<open>Result\<close> in a state monad (the \<open>?\<close> operator).
  \<open>Gate_Ir\<close> has the types of \<open>synthesizer/src/ir.rs\<close> with the Boolean function of each cell kind
  (\<open>cell_fn\<close>, \<open>holds\<close>) and of a memory the visitors of its nets.  \<open>Netlist\<close> says what a module
  means: \<open>msat v m\<close>, the assignment \<open>v\<close> of Booleans to nets satisfies every cell and constant of
  \<open>m\<close>; \<open>wf_module\<close> (indices in range, arities, the driver of a net is the cell that outputs it),
  \<open>single_driver\<close>, \<open>ranked r m\<close> (no combinational cycle), \<open>sinks\<close> (the nets that flip-flops, ports
  and memories read).

  \<^bold>\<open>Emission and arithmetic\<close> (\<open>conv.rs\<close>, \<open>conv/expression.rs\<close>, \<open>conv/statement.rs\<close>, \<open>conv/arith.rs\<close>).
  \<open>Conv_Context\<close> has the context with \<open>alloc_net\<close> and \<open>add_cell\<close> and the contract of every
  computation that emits gates: \<open>builds ctx c P Q\<close>, from a well-formed context \<open>c\<close> only extends the
  netlist, keeps it well formed and satisfiable, and its result nets have the values \<open>Q\<close> states.
  \<open>Reduce\<close> has the reductions, the one-hot check, constants and resizing; \<open>Arith\<close> the ripple and
  Kogge-Stone adders, \<open>Subtract\<close> subtraction and the comparisons, \<open>Multiply\<close> the shift-and-add and
  Wallace multipliers, \<open>Divide\<close> the restoring divider and the signed division, \<open>Shift\<close> the barrel
  shifter and the variable index.  Interfaces: the locale \<open>adder\<close> (a generator of a sum with carry;
  interpreted by the ripple adder, the prefix adder and the size-dependent choice between them)
  and the locale \<open>multiplier\<close> (interpreted by both multipliers); what is built on an adder is
  proved once for all of them.

  \<^bold>\<open>Simplification\<close> (\<open>conv/worklist.rs\<close>, parts of \<open>conv.rs\<close>).  \<open>Simplify\<close>: the local rules per cell
  kind.  \<open>Worklist\<close>: alias resolution, the sharing of equal cells, the local rewrite step and the
  worklist loop.  \<open>Worklist_Pass\<close>: the invariant of the loop and its potential; \<open>Worklist_Result\<close>:
  the pass as a whole and its iteration with the removal of registers.  \<open>Cleanup\<close>: dead-cell
  elimination and \<open>eliminate_dq_ffs\<close>.

  \<^bold>\<open>Depth restructuring\<close> (\<open>conv/prefix.rs\<close>, \<open>conv/balance.rs\<close>, \<open>conv/counter.rs\<close>).  \<open>Absorb\<close>: the
  absorption of complements.  \<open>Grow\<close>: the contract the other three passes share.  \<open>gated m m' cs\<close>: the
  module grew by cells on nets of their own; \<open>relinked\<close>: besides, some old cells read other nets;
  \<open>rebuilt m m'\<close>: same pins, old nets keep their numbers and their values under every assignment,
  no new cycle, no second driver.  The locale \<open>gate_monoid\<close> states what the chains of one
  associative gate rely on and is interpreted by And, Or and Xor.  \<open>Prefix\<close>: linear scans as Sklansky
  networks; \<open>Balance\<close>, \<open>Balance_Levels\<close>, \<open>Balance_Fanout\<close>, \<open>Balance_Chains\<close>: associative chains as trees
  combined by arrival level; \<open>Counter\<close>, \<open>Counter_Trees\<close>, \<open>Counter_Stages\<close>, \<open>Counter_Pass\<close>: serial
  conditional increments as one popcount and one adder.  The locale \<open>depth_pass\<close> of \<open>Grow\<close> is the
  contract of a whole pass (it returns a module \<open>rebuilt\<close> from the first one), with an instance for
  each of the four; \<open>two_passes\<close> extends it to two passes in a row, which are again one.

  \<^bold>\<open>Compound-cell fusion\<close> (\<open>conv/postpass.rs\<close>).  \<open>Postpass\<close>: the context with consumer counts and
  caches, the six phases and their sweeps.  \<open>Postpass_Rules\<close>: replacing one cell by an equivalent one
  (\<open>upd\<close>), the counts as the multiset of all reads (\<open>tally\<close>), and the locale \<open>sweep_phase\<close>: a step
  that keeps an invariant and makes a measure smaller at each hit gives a loop of sweeps that
  returns; it is interpreted by the five phases that sweep.  \<open>Postpass_Muxes\<close>, \<open>Postpass_Merge\<close>,
  \<open>Postpass_Collapse\<close>: the phases on multiplexers; \<open>Postpass_Fuse\<close>, \<open>Postpass_Factor\<close>: compound cells
  and common factors.

  \<^bold>\<open>The finishing pipeline\<close> (\<open>ConvContext::finalize\<close> in \<open>conv.rs\<close>).  \<open>Restructure\<close> composes the
  simplification and the depth passes as \<open>finalize\<close> does, over the contract \<open>depth_pass\<close>;
  \<open>Finalize\<close> adds the fusion and the choice between the two candidates.
  \<open>refines m m'\<close>: \<open>m'\<close> computes what \<open>m\<close> does at every pin, as long as the registers it lost hold
  their reset values, and shows that they go on holding them.

  \<^bold>\<open>And-Inverter Graph\<close> (\<open>aig/graph.rs\<close>, \<open>aig/npn4.rs\<close>, \<open>aig/rewrite.rs\<close>).  \<open>Aig_Graph\<close>: the graph with
  hash-consing, its gate constructors and the value of an edge; \<open>Npn4\<close>: the 768 transforms of a truth
  table of four inputs and the canonical form; \<open>Pattern_Library\<close>: the library of small patterns;
  \<open>Aig_Cuts\<close>: cut enumeration; \<open>Aig_Rewrite\<close>: the replacement of cones and the compaction.

  \<^bold>\<open>Simulator\<close> (\<open>wide_ops.rs\<close>, \<open>ir/write_log.rs\<close>, parts of \<open>ir/variable.rs\<close>).  \<open>Word_Memory\<close>: a memory of
  bytes with its little-endian 64-bit words; the locale \<open>word_memory\<close> is what the loops over words
  rely on, interpreted by that memory.  \<open>Wide_Ops\<close>, \<open>Wide_Arith\<close>, \<open>Wide_Compare\<close>, \<open>Wide_Window\<close>: the
  helpers on pointers to wide values, with source and destination free to be the same.
  \<open>Write_Log\<close>: the two pools of pending writes; \<open>Commit_Log\<close>: what a commit does to memory.

  \<^bold>\<open>Pretty printer\<close> (\<open>pretty/src/doc.rs\<close>, \<open>pretty/src/render.rs\<close>).  \<open>Pretty_Doc\<close>: documents;
  \<open>Pretty_Render\<close>: the renderer over its explicit stack; \<open>Pretty_Fits\<close>: the look-ahead against its
  specification; \<open>Pretty_Content\<close>: the rendered text is the document's; \<open>Pretty_Anchors\<close>: source-map
  anchors, through the stripping of trailing blanks; \<open>Pretty_Width\<close>: the states of a rendering
  (\<open>reaches\<close>) and the width of the line of a group laid out flat, for documents without comments.

  \<^bold>\<open>What the lemmas show.\<close>  For the generators: the number their result stands for, on every width,
  and the error of every rejected call.  For the passes: they return (no panic, no endless loop) on
  every well-formed module without combinational cycle, keep that invariant, and keep what the
  module computes; where a pass promises more (levels never grow, logarithmic depth, no buffer
  left), that too.  For the wide operations: the integer in the destination as a function of the
  integers in the sources, and no other byte changed.  For the log: the committed memory as a
  function of the writes.  For the printer: its text, width and positions.

  \<^bold>\<open>Conventions.\<close>  An index out of range, a failed \<open>expect\<close> and an \<open>unreachable\<close> are \<open>None\<close>; a
  \<open>Result\<close> is a sum with the error on the left.  Loops that a cyclic netlist could trap are
  \<open>partial_function (option)\<close>: \<open>resolve_alias\<close>, \<open>wl_loop\<close>, \<open>converge_simplify\<close>, \<open>absorb_loop\<close>,
  \<open>chain_back\<close>, \<open>level_loop\<close>, \<open>gather\<close>, \<open>collect_and_leaves\<close>, \<open>fold_passthrough_layers\<close>, \<open>chain_ahead\<close>,
  \<open>eval_tt\<close>, \<open>sweep_loop\<close>; for each there is a lemma that it returns on a well-formed acyclic module
  (graph), so no fuel bounds any of them.  The remaining loops are structural or have a measure.
  \<open>u32\<close> net numbers and \<open>usize\<close> indices are natural numbers: no module approaches their range.  The
  words the simulator computes on are \<open>64 word\<close> and \<open>8 word\<close> with their wrap-around, truth tables are
  \<open>16 word\<close>, and an AIG is bounded by the $2^{31}$ nodes an edge can address, a premise where it is
  needed.  A \<open>HashMap\<close> that is only looked up is a map; one whose entries are sorted before use is
  the sorted list.

  \<^bold>\<open>Not modelled.\<close>  In the synthesizer: memory inference and statement lowering (they walk the
  analyzer's typed IR), the timing, area and power estimates (floating point; the two verdicts
  that \<open>finalize\<close> takes from the timing are arguments of \<open>finalize_passes\<close>), and the AIG's conversion from and to cells (\<open>aig/convert.rs\<close>, \<open>aig/techmap.rs\<close>, which do not compile
  against the present \<open>ir.rs\<close>).  Elsewhere: the generated parsers and everything over their syntax
  trees (analyzer, emitter, formatter, migrator, translator), the simulator's IR and code
  generators, whose output is C or Cranelift code, and the glue around files, the network, threads
  and editors (metadata, language server, cache, command line, component bindings).
\<close>

end
